(* ===== verification/Prelude.thy ===== *)
theory Prelude
  imports Main "HOL-Library.Word" "HOL-Library.AList" "HOL-Library.Multiset"
begin

text \<open>
  Shared vocabulary of the development: the Go types the components use (machine integers, byte
  slices, maps as association lists in iteration order), the pieces of the Go standard library the
  sources call (\<open>bytes.Compare\<close>, \<open>sort.Search\<close>, \<open>sort.Slice\<close>) and the generic lemmas about them.
  A Go \<open>map\<close> is an association list with distinct keys: its list order is the order in which a
  \<open>for range\<close> visits it, so a theorem over every such list holds for every iteration order.
\<close>

section \<open>Types\<close>

type_synonym u8 = "8 word"
type_synonym u32 = "32 word"
type_synonym u64 = "64 word"
type_synonym bytes = "u8 list"

text \<open>A Go slice of bytes whose nil-ness is observed by the code; \<open>None\<close> is nil.\<close>

type_synonym slice = "bytes option"

definition slice_str :: "slice \<Rightarrow> bytes" where
  "slice_str s = (case s of None \<Rightarrow> [] | Some b \<Rightarrow> b)"

lemma slice_str_simps [simp]: "slice_str None = []" "slice_str (Some b) = b"
  by (simp_all add: slice_str_def)

text \<open>\<open>bytes.Equal\<close>: a nil slice equals an empty one.\<close>

definition slice_Equal :: "slice \<Rightarrow> slice \<Rightarrow> bool" where
  "slice_Equal a b \<longleftrightarrow> slice_str a = slice_str b"

text \<open>\<open>core.OptionalUint64\<close> is a struct with a value and a flag, compared field by field.\<close>

record OptionalUint64 =
  optValue :: u64
  optHasValue :: bool

named_theorems model_defs \<open>definitions unfolded by the functional lemmas of a component\<close>
named_theorems inv_intros \<open>preservation of the component invariants\<close>

section \<open>Comparison functions\<close>

fun bytes_Compare :: "bytes \<Rightarrow> bytes \<Rightarrow> int" where
  "bytes_Compare [] [] = 0"
| "bytes_Compare [] (y # ys) = -1"
| "bytes_Compare (x # xs) [] = 1"
| "bytes_Compare (x # xs) (y # ys) =
     (if x < y then -1 else if y < x then 1 else bytes_Compare xs ys)"

text \<open>
  The contract of a three-way comparison: antisymmetric in its sign, transitive, and equal elements
  compare alike. Sorted insertion and binary search are proved once, against this contract.
\<close>

locale three_way =
  fixes cmp :: "'a \<Rightarrow> 'a \<Rightarrow> int"
  assumes cmp_flip: "cmp b a = - cmp a b"
    and cmp_trans: "cmp a b < 0 \<Longrightarrow> cmp b c < 0 \<Longrightarrow> cmp a c < 0"
    and cmp_zero_left: "cmp a b = 0 \<Longrightarrow> cmp a c = cmp b c"
begin

lemma cmp_refl [simp]: "cmp a a = 0"
  using cmp_flip [of a a] by simp

lemma cmp_zero_right: "cmp a b = 0 \<Longrightarrow> cmp c a = cmp c b"
  using cmp_zero_left [of a b c] cmp_flip [of c a] cmp_flip [of c b] by simp

lemma cmp_le_trans: "cmp a b \<le> 0 \<Longrightarrow> cmp b c \<le> 0 \<Longrightarrow> cmp a c \<le> 0"
  using cmp_trans [of a b c] cmp_zero_left [of a b c] cmp_zero_right [of b c a] by fastforce

lemma cmp_less_le_trans: "cmp a b < 0 \<Longrightarrow> cmp b c \<le> 0 \<Longrightarrow> cmp a c < 0"
  using cmp_trans [of a b c] cmp_zero_right [of b c a] by fastforce

lemma cmp_le_less_trans: "cmp a b \<le> 0 \<Longrightarrow> cmp b c < 0 \<Longrightarrow> cmp a c < 0"
  using cmp_trans [of a b c] cmp_zero_left [of a b c] by fastforce

lemma cmp_less_asym: "cmp a b < 0 \<Longrightarrow> \<not> cmp b a < 0"
  using cmp_flip [of a b] by simp

definition increasing :: "'a list \<Rightarrow> bool" where
  "increasing = sorted_wrt (\<lambda>a b. cmp a b < 0)"

lemma increasing_simps [simp]:
  "increasing []"
  "increasing (x # xs) \<longleftrightarrow> (\<forall>y \<in> set xs. cmp x y < 0) \<and> increasing xs"
  by (simp_all add: increasing_def)

lemma increasing_append:
  "increasing (xs @ ys) \<longleftrightarrow>
     increasing xs \<and> increasing ys \<and> (\<forall>x \<in> set xs. \<forall>y \<in> set ys. cmp x y < 0)"
  by (simp add: increasing_def sorted_wrt_append)

lemma increasing_nth: "increasing xs \<Longrightarrow> i < j \<Longrightarrow> j < length xs \<Longrightarrow> cmp (xs ! i) (xs ! j) < 0"
  unfolding increasing_def by (rule sorted_wrt_nth_less)

lemma increasing_distinct: "increasing xs \<Longrightarrow> distinct xs"
  by (induction xs) auto

lemma increasing_take: "increasing xs \<Longrightarrow> increasing (take n xs)"
  by (simp add: increasing_def sorted_wrt_take)

lemma increasing_drop: "increasing xs \<Longrightarrow> increasing (drop n xs)"
  by (simp add: increasing_def sorted_wrt_drop)

lemma increasing_filter: "increasing xs \<Longrightarrow> increasing (filter P xs)"
  by (simp add: increasing_def sorted_wrt_filter)

text \<open>Inserting at the boundary between smaller and greater elements keeps the list increasing.\<close>

lemma increasing_insert_at:
  assumes "increasing xs" and "i \<le> length xs"
    and below: "\<And>k. k < i \<Longrightarrow> cmp (xs ! k) x < 0"
    and above: "\<And>k. i \<le> k \<Longrightarrow> k < length xs \<Longrightarrow> cmp x (xs ! k) < 0"
  shows "increasing (take i xs @ x # drop i xs)"
proof -
  have lo: "cmp y x < 0" if "y \<in> set (take i xs)" for y
    using that below by (auto simp: in_set_conv_nth)
  have hi: "cmp x y < 0" if "y \<in> set (drop i xs)" for y
    using that above by (auto simp: in_set_conv_nth)
  have "cmp y z < 0" if "y \<in> set (take i xs)" "z \<in> set (drop i xs)" for y z
    using lo [OF that(1)] hi [OF that(2)] by (rule cmp_trans)
  with lo hi assms(1) show ?thesis
    by (auto simp: increasing_append increasing_take increasing_drop)
qed

end

lemma bytes_Compare_flip: "bytes_Compare ys xs = - bytes_Compare xs ys"
  by (induction xs ys rule: bytes_Compare.induct) auto

lemma bytes_Compare_eq_0 [simp]: "bytes_Compare xs ys = 0 \<longleftrightarrow> xs = ys"
  by (induction xs ys rule: bytes_Compare.induct) auto

lemma bytes_Compare_trans:
  "bytes_Compare xs ys < 0 \<Longrightarrow> bytes_Compare ys zs < 0 \<Longrightarrow> bytes_Compare xs zs < 0"
proof (induction xs ys arbitrary: zs rule: bytes_Compare.induct)
  case (4 x xs y ys)
  then show ?case by (cases zs) (auto split: if_splits)
next
  case (2 y ys)
  then show ?case by (cases zs) (auto split: if_splits)
qed auto

interpretation bcmp: three_way bytes_Compare
proof unfold_locales
  show "bytes_Compare b a = - bytes_Compare a b" for a b
    by (rule bytes_Compare_flip)
  show "bytes_Compare a b < 0 \<Longrightarrow> bytes_Compare b c < 0 \<Longrightarrow> bytes_Compare a c < 0" for a b c
    by (rule bytes_Compare_trans)
  show "bytes_Compare a b = 0 \<Longrightarrow> bytes_Compare a c = bytes_Compare b c" for a b c
    by simp
qed

section \<open>Binary search: \<open>sort.Search\<close>\<close>

function search_loop :: "(nat \<Rightarrow> bool) \<Rightarrow> nat \<Rightarrow> nat \<Rightarrow> nat" where
  "search_loop f i j =
     (if i < j
      then (let h = (i + j) div 2 in if \<not> f h then search_loop f (h + 1) j else search_loop f i h)
      else i)"
  by pat_completeness auto
termination
  by (relation "measure (\<lambda>(f, i, j). j - i)") auto

declare search_loop.simps [simp del]

definition sort_Search :: "nat \<Rightarrow> (nat \<Rightarrow> bool) \<Rightarrow> nat" where
  "sort_Search n f = search_loop f 0 n"

lemma search_loop_boundary:
  assumes mono: "\<And>h k. f h \<Longrightarrow> h \<le> k \<Longrightarrow> k < n \<Longrightarrow> f k"
    and "i \<le> j" "j \<le> n" "\<forall>k < i. \<not> f k" "\<forall>k. j \<le> k \<longrightarrow> k < n \<longrightarrow> f k"
    and "search_loop f i j = r"
  shows "r \<le> n \<and> (\<forall>k < r. \<not> f k) \<and> (\<forall>k. r \<le> k \<longrightarrow> k < n \<longrightarrow> f k)"
  using assms
proof (induction f i j rule: search_loop.induct)
  case (1 f i j)
  define h where "h = (i + j) div 2"
  have unf: "search_loop f i j =
      (if i < j then if \<not> f h then search_loop f (h + 1) j else search_loop f i h else i)"
    by (subst search_loop.simps) (simp add: h_def Let_def)
  show ?case
  proof (cases "i < j")
    case False
    with "1.prems" unf show ?thesis by auto
  next
    case True
    then have h: "i \<le> h" "h < j" by (auto simp: h_def)
    show ?thesis
    proof (cases "f h")
      case True
      have "\<forall>k. h \<le> k \<longrightarrow> k < n \<longrightarrow> f k" using "1.prems"(1) True by blast
      with "1.IH"(2) [OF \<open>i < j\<close> h_def] True h "1.prems" unf \<open>i < j\<close> show ?thesis by simp
    next
      case False
      have "\<forall>k < h + 1. \<not> f k"
      proof (intro allI impI)
        fix k assume "k < h + 1"
        then show "\<not> f k" using "1.prems"(1) [of k h] False h "1.prems"(3) by auto
      qed
      with "1.IH"(1) [OF \<open>i < j\<close> h_def] False h "1.prems" unf \<open>i < j\<close> show ?thesis by simp
    qed
  qed
qed

lemma sort_Search_boundary:
  assumes mono: "\<forall>h k. f h \<longrightarrow> h \<le> k \<longrightarrow> k < n \<longrightarrow> f k"
  shows "sort_Search n f \<le> n"
    and "k < sort_Search n f \<Longrightarrow> \<not> f k"
    and "sort_Search n f \<le> k \<Longrightarrow> k < n \<Longrightarrow> f k"
proof -
  have "sort_Search n f \<le> n \<and> (\<forall>k < sort_Search n f. \<not> f k) \<and>
      (\<forall>k. sort_Search n f \<le> k \<longrightarrow> k < n \<longrightarrow> f k)"
    by (rule search_loop_boundary [of f n 0 n]) (use mono in \<open>auto simp: sort_Search_def\<close>)
  then show "sort_Search n f \<le> n" and "k < sort_Search n f \<Longrightarrow> \<not> f k"
    and "sort_Search n f \<le> k \<Longrightarrow> k < n \<Longrightarrow> f k"
    by blast+
qed

text \<open>On a list split into a prefix without and a rest with the property, the search is the length
  of the prefix.\<close>

lemma sort_Search_takeWhile:
  assumes mono: "\<And>h k. P (xs ! h) \<Longrightarrow> h \<le> k \<Longrightarrow> k < length xs \<Longrightarrow> P (xs ! k)"
  shows "sort_Search (length xs) (\<lambda>i. P (xs ! i)) = length (takeWhile (\<lambda>x. \<not> P x) xs)"
proof -
  let ?r = "sort_Search (length xs) (\<lambda>i. P (xs ! i))" and ?t = "length (takeWhile (\<lambda>x. \<not> P x) xs)"
  have m: "\<forall>h k. P (xs ! h) \<longrightarrow> h \<le> k \<longrightarrow> k < length xs \<longrightarrow> P (xs ! k)"
    using mono by blast
  have b: "?r \<le> length xs" "\<And>k. k < ?r \<Longrightarrow> \<not> P (xs ! k)"
      "\<And>k. ?r \<le> k \<Longrightarrow> k < length xs \<Longrightarrow> P (xs ! k)"
    by (rule sort_Search_boundary [where f = "\<lambda>i. P (xs ! i)", OF m]; assumption)+
  have "?t \<le> length xs" by (rule length_takeWhile_le)
  moreover have "\<not> ?r < ?t"
  proof
    assume "?r < ?t"
    then have "\<not> P (takeWhile (\<lambda>x. \<not> P x) xs ! ?r)"
      using nth_mem set_takeWhileD by fast
    with \<open>?r < ?t\<close> calculation b(3) [of ?r] show False by (simp add: takeWhile_nth)
  qed
  moreover have "\<not> ?t < ?r"
  proof
    assume "?t < ?r"
    moreover from this b(1) have "?t < length xs" by linarith
    then have "P (xs ! ?t)" using nth_length_takeWhile by blast
    ultimately show False using b(2) [of ?t] by simp
  qed
  ultimately show ?thesis by linarith
qed

text \<open>A list whose elements with a property all precede the others is split by it.\<close>

lemma takeWhile_filter_prefix:
  assumes "sorted_wrt (\<lambda>a b. P b \<longrightarrow> P a) xs"
  shows "takeWhile P xs = filter P xs" and "dropWhile P xs = filter (\<lambda>x. \<not> P x) xs"
proof -
  have "takeWhile P xs = filter P xs \<and> dropWhile P xs = filter (\<lambda>x. \<not> P x) xs"
    using assms
  proof (induction xs)
    case (Cons x xs)
    then show ?case by (cases "P x") (auto simp: filter_empty_conv filter_id_conv)
  qed simp
  then show "takeWhile P xs = filter P xs" and "dropWhile P xs = filter (\<lambda>x. \<not> P x) xs"
    by simp_all
qed

section \<open>Sorting: \<open>sort.Slice\<close>\<close>

text \<open>
  The sources sort with a strict order without ties (block nonces, validator keys); there the sorted
  permutation is unique, so any correct sort returns what this insertion sort returns
  (\<open>sort_Slice_unique\<close>).
\<close>

fun insert_by :: "('a \<Rightarrow> 'a \<Rightarrow> bool) \<Rightarrow> 'a \<Rightarrow> 'a list \<Rightarrow> 'a list" where
  "insert_by lt x [] = [x]"
| "insert_by lt x (y # ys) = (if lt y x then y # insert_by lt x ys else x # y # ys)"

definition sort_Slice :: "('a \<Rightarrow> 'a \<Rightarrow> bool) \<Rightarrow> 'a list \<Rightarrow> 'a list" where
  "sort_Slice lt xs = foldr (insert_by lt) xs []"

lemma mset_insert_by [simp]: "mset (insert_by lt x ys) = add_mset x (mset ys)"
  by (induction ys) auto

lemma mset_sort_Slice [simp]: "mset (sort_Slice lt xs) = mset xs"
  by (induction xs) (auto simp: sort_Slice_def)

lemma set_sort_Slice [simp]: "set (sort_Slice lt xs) = set xs"
  by (metis mset_sort_Slice set_mset_mset)

lemma set_insert_by [simp]: "set (insert_by lt x ys) = insert x (set ys)"
  by (induction ys) auto

lemma sort_Slice_Nil [simp]: "sort_Slice lt [] = []"
  by (simp add: sort_Slice_def)

lemma sort_Slice_Cons: "sort_Slice lt (x # xs) = insert_by lt x (sort_Slice lt xs)"
  by (simp add: sort_Slice_def)

lemma sorted_insert_by:
  assumes "\<And>a b c. lt a b \<Longrightarrow> lt b c \<Longrightarrow> lt a c"
    and "\<forall>y \<in> set ys. lt x y \<or> lt y x" and "sorted_wrt lt ys"
  shows "sorted_wrt lt (insert_by lt x ys)"
  using assms(2,3)
proof (induction ys)
  case (Cons y ys)
  then show ?case using assms(1) by auto
qed simp

lemma sorted_sort_Slice:
  assumes trans: "\<And>a b c. lt a b \<Longrightarrow> lt b c \<Longrightarrow> lt a c"
    and total: "\<And>a b. a \<in> set xs \<Longrightarrow> b \<in> set xs \<Longrightarrow> a \<noteq> b \<Longrightarrow> lt a b \<or> lt b a"
    and "distinct xs"
  shows "sorted_wrt lt (sort_Slice lt xs)"
  using total \<open>distinct xs\<close>
proof (induction xs)
  case (Cons x xs)
  then have "sorted_wrt lt (sort_Slice lt xs)" by simp
  moreover have "\<forall>y \<in> set (sort_Slice lt xs). lt x y \<or> lt y x"
    using Cons.prems by auto
  ultimately show ?case
    by (simp add: sort_Slice_Cons sorted_insert_by [OF trans])
qed simp

lemma sort_Slice_unique:
  assumes asym: "\<And>a b. lt a b \<Longrightarrow> \<not> lt b a"
    and "sorted_wrt lt ys" and "mset ys = mset zs" and "sorted_wrt lt zs"
  shows "ys = zs"
  using assms(2-)
proof (induction ys arbitrary: zs)
  case (Cons y ys)
  then obtain z zs' where zs: "zs = z # zs'" by (cases zs) auto
  have "y = z"
  proof (rule ccontr)
    assume "y \<noteq> z"
    have "set (y # ys) = set (z # zs')" using Cons.prems(2) zs by (metis mset_eq_setD)
    with \<open>y \<noteq> z\<close> have "y \<in> set zs'" "z \<in> set ys" by auto
    with Cons.prems(1,3) zs asym show False by auto
  qed
  with Cons zs show ?case by auto
qed simp

end
