(* ===== verification/Go_Heap.thy ===== *)
theory Go_Heap
  imports Prelude
begin

text \<open>
  The binary heap of Go's \<open>container/heap\<close>, as the mempool uses it (\<open>heap.Init\<close>, \<open>heap.Push\<close>,
  \<open>heap.Pop\<close> over a slice), and its contract: the operations keep the heap order and the multiset of
  items, and \<open>Pop\<close> returns an item that no other item precedes. The contract is proved once for any
  strict weak order (locale \<open>heap_order\<close>); the two orders of the mempool interpret it.
\<close>

definition swap :: "'a list \<Rightarrow> nat \<Rightarrow> nat \<Rightarrow> 'a list" where
  "swap xs i j = xs[i := xs ! j, j := xs ! i]"

abbreviation parent :: "nat \<Rightarrow> nat" where
  "parent j \<equiv> (j - 1) div 2"

function heap_up :: "('a \<Rightarrow> 'a \<Rightarrow> bool) \<Rightarrow> 'a list \<Rightarrow> nat \<Rightarrow> 'a list" where
  "heap_up lt h j =
     (let i = parent j
      in if i = j \<or> \<not> lt (h ! j) (h ! i) then h else heap_up lt (swap h i j) i)"
  by pat_completeness auto
termination
  by (relation "measure (\<lambda>(lt, h, j). j)") auto

definition smaller_child :: "('a \<Rightarrow> 'a \<Rightarrow> bool) \<Rightarrow> 'a list \<Rightarrow> nat \<Rightarrow> nat \<Rightarrow> nat" where
  "smaller_child lt h i n =
     (let j1 = 2 * i + 1; j2 = j1 + 1 in if j2 < n \<and> lt (h ! j2) (h ! j1) then j2 else j1)"

lemma smaller_child_greater: "i < smaller_child lt h i n"
  by (simp add: smaller_child_def Let_def)

function heap_down :: "('a \<Rightarrow> 'a \<Rightarrow> bool) \<Rightarrow> 'a list \<Rightarrow> nat \<Rightarrow> nat \<Rightarrow> 'a list" where
  "heap_down lt h i n =
     (if n \<le> 2 * i + 1 then h
      else let j = smaller_child lt h i n
           in if \<not> lt (h ! j) (h ! i) then h else heap_down lt (swap h i j) j n)"
  by pat_completeness auto
termination
proof (relation "measure (\<lambda>(lt, h, i, n). n - i)", goal_cases)
  case (2 lt h i n x)
  then show ?case using smaller_child_greater [of i lt h n] by auto
qed simp

declare heap_up.simps [simp del] heap_down.simps [simp del]

definition heap_Init :: "('a \<Rightarrow> 'a \<Rightarrow> bool) \<Rightarrow> 'a list \<Rightarrow> 'a list" where
  "heap_Init lt h = foldl (\<lambda>h i. heap_down lt h i (length h)) h (rev [0..<length h div 2])"

definition heap_Push :: "('a \<Rightarrow> 'a \<Rightarrow> bool) \<Rightarrow> 'a list \<Rightarrow> 'a \<Rightarrow> 'a list" where
  "heap_Push lt h x = heap_up lt (h @ [x]) (length h)"

text \<open>\<open>heap.Pop\<close> of an empty heap panics; here it is \<open>None\<close>.\<close>

definition heap_Pop :: "('a \<Rightarrow> 'a \<Rightarrow> bool) \<Rightarrow> 'a list \<Rightarrow> ('a \<times> 'a list) option" where
  "heap_Pop lt h =
     (if h = [] then None
      else let n = length h - 1; h' = heap_down lt (swap h 0 n) 0 n in Some (last h', butlast h'))"

section \<open>Lengths and multisets\<close>

lemma length_swap [simp]: "length (swap xs i j) = length xs"
  by (simp add: swap_def)

lemma mset_swap_list: "i < length xs \<Longrightarrow> j < length xs \<Longrightarrow> mset (swap xs i j) = mset xs"
  by (simp add: swap_def mset_swap)

lemma nth_swap:
  "i < length xs \<Longrightarrow> j < length xs \<Longrightarrow>
   swap xs i j ! k = (if k = j then xs ! i else if k = i then xs ! j else xs ! k)"
  by (auto simp: swap_def nth_list_update)

lemma length_heap_up [simp]: "length (heap_up lt h j) = length h"
  by (induction lt h j rule: heap_up.induct) (simp add: heap_up.simps Let_def)

lemma length_heap_down [simp]: "length (heap_down lt h i n) = length h"
  by (induction lt h i n rule: heap_down.induct) (simp add: heap_down.simps Let_def)

lemma mset_heap_up: "j < length h \<Longrightarrow> mset (heap_up lt h j) = mset h"
proof (induction lt h j rule: heap_up.induct)
  case (1 lt h j)
  then show ?case by (subst heap_up.simps) (auto simp: Let_def mset_swap_list)
qed

lemma smaller_child_less: "2 * i + 1 < n \<Longrightarrow> smaller_child lt h i n < n"
  by (simp add: smaller_child_def Let_def)

lemma mset_heap_down: "n \<le> length h \<Longrightarrow> mset (heap_down lt h i n) = mset h"
proof (induction lt h i n rule: heap_down.induct)
  case (1 lt h i n)
  have "mset (swap h i (smaller_child lt h i n)) = mset h" if "\<not> n \<le> 2 * i + 1"
    using that "1.prems" smaller_child_less [of i n lt h] by (intro mset_swap_list) auto
  with 1 show ?case by (subst heap_down.simps) (auto simp: Let_def)
qed

lemma heap_down_beyond: "n \<le> k \<Longrightarrow> n \<le> length h \<Longrightarrow> heap_down lt h i n ! k = h ! k"
proof (induction lt h i n rule: heap_down.induct)
  case (1 lt h i n)
  have "swap h i (smaller_child lt h i n) ! k = h ! k" if "\<not> n \<le> 2 * i + 1"
    using that "1.prems" smaller_child_less [of i n lt h] by (subst nth_swap) auto
  with 1 show ?case by (subst heap_down.simps) (auto simp: Let_def)
qed

lemma mset_heap_Push [simp]: "mset (heap_Push lt h x) = add_mset x (mset h)"
  by (simp add: heap_Push_def mset_heap_up)

lemma heap_Pop_None [simp]: "heap_Pop lt h = None \<longleftrightarrow> h = []"
  by (simp add: heap_Pop_def Let_def)

lemma heap_Pop_root: "heap_Pop lt h = Some (x, h') \<Longrightarrow> x = h ! 0"
proof -
  assume "heap_Pop lt h = Some (x, h')"
  then have "h \<noteq> []" and x: "x = last (heap_down lt (swap h 0 (length h - 1)) 0 (length h - 1))"
    by (auto simp: heap_Pop_def Let_def split: if_splits)
  have "x = heap_down lt (swap h 0 (length h - 1)) 0 (length h - 1) ! (length h - 1)"
    unfolding x by (subst last_conv_nth) (use \<open>h \<noteq> []\<close> in \<open>auto dest: arg_cong [where f = length]\<close>)
  also have "\<dots> = h ! 0"
    using \<open>h \<noteq> []\<close> by (subst heap_down_beyond) (auto simp: nth_swap)
  finally show ?thesis .
qed

lemma mset_heap_Pop: "heap_Pop lt h = Some (x, h') \<Longrightarrow> mset h = add_mset x (mset h')"
proof -
  assume pop: "heap_Pop lt h = Some (x, h')"
  define d where "d = heap_down lt (swap h 0 (length h - 1)) 0 (length h - 1)"
  from pop have "h \<noteq> []" and x: "x = last d" and h': "h' = butlast d"
    by (auto simp: heap_Pop_def d_def Let_def split: if_splits)
  have "length d = length h" by (simp add: d_def)
  with \<open>h \<noteq> []\<close> have "d \<noteq> []" by auto
  have "mset h = mset d"
    using \<open>h \<noteq> []\<close> by (simp add: d_def mset_heap_down mset_swap_list)
  also have "d = h' @ [x]" using \<open>d \<noteq> []\<close> by (simp add: x h')
  finally show ?thesis by simp
qed

lemma heap_Init_Nil [simp]: "heap_Init lt [] = []"
  by (simp add: heap_Init_def)

section \<open>Heap order\<close>

locale heap_order =
  fixes lt :: "'a \<Rightarrow> 'a \<Rightarrow> bool"
  assumes lt_asym: "lt a b \<Longrightarrow> \<not> lt b a"
    and lt_neg_trans: "\<not> lt b a \<Longrightarrow> \<not> lt c b \<Longrightarrow> \<not> lt c a"
begin

definition le :: "'a \<Rightarrow> 'a \<Rightarrow> bool" where
  "le a b \<longleftrightarrow> \<not> lt b a"

lemma le_trans: "le a b \<Longrightarrow> le b c \<Longrightarrow> le a c"
  unfolding le_def by (rule lt_neg_trans)

lemma lt_le: "lt a b \<Longrightarrow> le a b"
  by (simp add: le_def lt_asym)

lemma lt_irrefl [simp]: "\<not> lt a a"
  using lt_asym [of a a] by auto

lemma le_refl [simp]: "le a a"
  by (simp add: le_def)

definition heap_upto :: "'a list \<Rightarrow> nat \<Rightarrow> bool" where
  "heap_upto h n \<longleftrightarrow> (\<forall>k. 0 < k \<longrightarrow> k < n \<longrightarrow> le (h ! parent k) (h ! k))"

abbreviation is_heap :: "'a list \<Rightarrow> bool" where
  "is_heap h \<equiv> heap_upto h (length h)"

lemma heap_upto_root: "heap_upto h n \<Longrightarrow> k < n \<Longrightarrow> le (h ! 0) (h ! k)"
proof (induction k rule: less_induct)
  case (less k)
  show ?case
  proof (cases "k = 0")
    case False
    then have "parent k < k" by auto
    with less False have "le (h ! 0) (h ! parent k)" by auto
    also have "le (h ! parent k) (h ! k)" using less.prems False by (auto simp: heap_upto_def)
    finally (le_trans) show ?thesis .
  qed simp
qed

text \<open>Sifting up: only the edge above \<open>j\<close> may be broken, and the children of \<open>j\<close> are not below the
  parent of \<open>j\<close>.\<close>

definition up_inv :: "'a list \<Rightarrow> nat \<Rightarrow> bool" where
  "up_inv h j \<longleftrightarrow>
     (\<forall>k. 0 < k \<longrightarrow> k < length h \<longrightarrow> k \<noteq> j \<longrightarrow> le (h ! parent k) (h ! k)) \<and>
     (\<forall>k. 0 < k \<longrightarrow> k < length h \<longrightarrow> 0 < j \<longrightarrow> parent k = j \<longrightarrow> le (h ! parent j) (h ! k))"

lemma up_inv_step:
  assumes inv: "up_inv h j" and j: "0 < j" "j < length h" and lt: "lt (h ! j) (h ! parent j)"
  shows "up_inv (swap h (parent j) j) (parent j)"
proof -
  define i where "i = parent j"
  have i: "i < j" "i < length h" using j by (auto simp: i_def)
  have c1: "le (h ! parent k) (h ! k)" if "0 < k" "k < length h" "k \<noteq> j" for k
    using inv that by (auto simp: up_inv_def)
  have c2: "le (h ! i) (h ! k)" if "0 < k" "k < length h" "parent k = j" for k
    using inv that j by (auto simp: up_inv_def i_def)
  have ji: "le (h ! j) (h ! i)" using lt by (simp add: i_def lt_le)
  have edge: "le (swap h i j ! parent k) (swap h i j ! k)"
    if k: "0 < k" "k < length h" "k \<noteq> i" for k
  proof (cases "k = j")
    case True
    then show ?thesis using i j ji i_def by (simp add: nth_swap)
  next
    case False
    with k c1 have "le (h ! parent k) (h ! k)" by simp
    then show ?thesis using i j ji c2 [OF k(1,2)] k False
      by (cases "parent k = j"; cases "parent k = i") (auto simp: nth_swap intro: le_trans)
  qed
  have child: "le (swap h i j ! parent i) (swap h i j ! k)"
    if k: "0 < k" "k < length h" "0 < i" "parent k = i" for k
  proof -
    have p: "parent i < i" using \<open>0 < i\<close> by auto
    have "le (h ! parent i) (h ! i)" using c1 [of i] i \<open>0 < i\<close> by simp
    moreover have "k \<noteq> j \<Longrightarrow> le (h ! i) (h ! k)" using c1 [of k] k by simp
    moreover have "k \<noteq> i" using k by auto
    ultimately show ?thesis using p i j by (auto simp: nth_swap intro: le_trans)
  qed
  show ?thesis unfolding i_def [symmetric] using edge child by (simp add: up_inv_def)
qed

lemma is_heap_up: "up_inv h j \<Longrightarrow> j < length h \<Longrightarrow> is_heap (heap_up lt h j)"
proof (induction j arbitrary: h rule: less_induct)
  case (less j)
  show ?case
  proof (cases "parent j = j \<or> \<not> lt (h ! j) (h ! parent j)")
    case True
    have "le (h ! parent k) (h ! k)" if "0 < k" "k < length h" for k
      using that True less.prems by (cases "k = j") (auto simp: up_inv_def le_def)
    with True show ?thesis by (simp add: heap_up.simps [of lt h j] heap_upto_def Let_def)
  next
    case False
    then have "0 < j" "parent j < j" by auto
    with False less.prems have "up_inv (swap h (parent j) j) (parent j)"
      by (intro up_inv_step) auto
    moreover have "parent j < length h" using \<open>parent j < j\<close> less.prems by simp
    ultimately have "is_heap (heap_up lt (swap h (parent j) j) (parent j))"
      using less.IH [OF \<open>parent j < j\<close>, of "swap h (parent j) j"] by simp
    with False show ?thesis by (simp add: heap_up.simps [of lt h j] Let_def)
  qed
qed

lemma is_heap_Push: "is_heap h \<Longrightarrow> is_heap (heap_Push lt h x)"
proof -
  assume h: "is_heap h"
  have "up_inv (h @ [x]) (length h)"
    using h by (auto simp: up_inv_def heap_upto_def nth_append)
  then show ?thesis unfolding heap_Push_def by (rule is_heap_up) simp
qed

text \<open>Sifting down in the prefix of length \<open>n\<close>: only the edges below \<open>i\<close> may be broken.\<close>

definition down_inv :: "'a list \<Rightarrow> nat \<Rightarrow> nat \<Rightarrow> bool" where
  "down_inv h i n \<longleftrightarrow>
     (\<forall>k. 0 < k \<longrightarrow> k < n \<longrightarrow> parent k \<noteq> i \<longrightarrow> le (h ! parent k) (h ! k)) \<and>
     (\<forall>k. 0 < k \<longrightarrow> k < n \<longrightarrow> 0 < i \<longrightarrow> parent k = i \<longrightarrow> le (h ! parent i) (h ! k))"

lemma children: "0 < k \<Longrightarrow> parent k = i \<longleftrightarrow> k = 2 * i + 1 \<or> k = 2 * i + 2"
  by auto

lemma smaller_child_min:
  assumes "0 < k" "k < n" "parent k = i"
  shows "le (h ! smaller_child lt h i n) (h ! k)"
  using assms children [of k i] by (auto simp: smaller_child_def Let_def le_def dest: lt_asym)

lemma parent_smaller_child: "parent (smaller_child lt h i n) = i"
  by (simp add: smaller_child_def Let_def)

lemma down_inv_step:
  assumes inv: "down_inv h i n" and n: "n \<le> length h" and c: "2 * i + 1 < n"
    and j: "j = smaller_child lt h i n" and lt: "lt (h ! j) (h ! i)"
  shows "down_inv (swap h i j) j n"
proof -
  have jn: "i < j" "j < n" "parent j = i"
    using j c smaller_child_greater smaller_child_less parent_smaller_child by auto
  have c1: "le (h ! parent k) (h ! k)" if "0 < k" "k < n" "parent k \<noteq> i" for k
    using inv that by (auto simp: down_inv_def)
  have c2: "le (h ! parent i) (h ! k)" if "0 < k" "k < n" "0 < i" "parent k = i" for k
    using inv that by (auto simp: down_inv_def)
  have ji: "le (h ! j) (h ! i)" using lt by (rule lt_le)
  have sib: "le (h ! j) (h ! k)" if "0 < k" "k < n" "parent k = i" for k
    using smaller_child_min [OF that] j by simp
  have edge: "le (swap h i j ! parent k) (swap h i j ! k)"
    if k: "0 < k" "k < n" "parent k \<noteq> j" for k
  proof (cases "parent k = i")
    case True
    then show ?thesis using jn n sib [OF k(1,2)] ji k by (auto simp: nth_swap)
  next
    case False
    then have "k \<noteq> j" using jn by auto
    show ?thesis
    proof (cases "k = i")
      case True
      then have "parent i < i" "0 < i" using k by auto
      moreover have "le (h ! parent i) (h ! j)" using c2 [of j] jn \<open>0 < i\<close> by auto
      ultimately show ?thesis using True jn n by (simp add: nth_swap)
    next
      case False
      then show ?thesis using c1 [OF k(1,2) \<open>parent k \<noteq> i\<close>] \<open>k \<noteq> j\<close> \<open>parent k \<noteq> i\<close> k jn n
        by (simp add: nth_swap)
    qed
  qed
  have child: "le (swap h i j ! parent j) (swap h i j ! k)"
    if k: "0 < k" "k < n" "parent k = j" for k
  proof -
    have "k \<noteq> j" "k \<noteq> i" using k jn by auto
    then show ?thesis using c1 [OF k(1,2)] k jn n by (simp add: nth_swap)
  qed
  show ?thesis using edge child by (simp add: down_inv_def)
qed

lemma heap_upto_down: "down_inv h i n \<Longrightarrow> n \<le> length h \<Longrightarrow> heap_upto (heap_down lt h i n) n"
proof (induction "n - i" arbitrary: h i rule: less_induct)
  case less
  define j where "j = smaller_child lt h i n"
  show ?case
  proof (cases "n \<le> 2 * i + 1 \<or> \<not> lt (h ! j) (h ! i)")
    case True
    have "le (h ! parent k) (h ! k)" if k: "0 < k" "k < n" for k
    proof (cases "parent k = i")
      case True
      with \<open>n \<le> 2 * i + 1 \<or> \<not> lt (h ! j) (h ! i)\<close> k have "le (h ! i) (h ! j)"
        by (auto simp: le_def)
      also have "le (h ! j) (h ! k)" using smaller_child_min [OF k True] by (simp add: j_def)
      finally (le_trans) show ?thesis using True by simp
    next
      case False
      then show ?thesis using less.prems k by (simp add: down_inv_def)
    qed
    with True show ?thesis
      by (auto simp: heap_down.simps [of lt h i n] Let_def j_def heap_upto_def)
  next
    case False
    then have "down_inv (swap h i j) j n"
      using less.prems by (intro down_inv_step) (auto simp: j_def)
    moreover have "n - j < n - i"
      using False smaller_child_greater [of i lt h n] by (auto simp: j_def)
    ultimately have "heap_upto (heap_down lt (swap h i j) j n) n"
      using less.hyps [of j "swap h i j"] less.prems by simp
    with False show ?thesis by (simp add: heap_down.simps [of lt h i n] Let_def j_def)
  qed
qed

lemma heap_upto_butlast: "heap_upto h n \<Longrightarrow> n < length h \<Longrightarrow> length h = Suc n \<Longrightarrow> is_heap (butlast h)"
  by (auto simp: heap_upto_def nth_butlast)

lemma is_heap_Pop:
  assumes h: "is_heap h" and pop: "heap_Pop lt h = Some (x, h')"
  shows "is_heap h'"
proof -
  define n where "n = length h - 1"
  from pop have ne: "h \<noteq> []" and h': "h' = butlast (heap_down lt (swap h 0 n) 0 n)"
    by (auto simp: heap_Pop_def n_def Let_def split: if_splits)
  have len: "length h = Suc n" using ne by (simp add: n_def)
  have "down_inv (swap h 0 n) 0 n"
    using h len by (auto simp: down_inv_def heap_upto_def nth_swap)
  then have "heap_upto (heap_down lt (swap h 0 n) 0 n) n" by (rule heap_upto_down) (simp add: len)
  then show ?thesis unfolding h' by (rule heap_upto_butlast) (simp_all add: len)
qed

lemma heap_Pop_least:
  assumes "is_heap h" and "heap_Pop lt h = Some (x, h')" and "y \<in># mset h"
  shows "\<not> lt y x"
proof -
  from assms(3) obtain k where "k < length h" "y = h ! k" by (auto simp: in_set_conv_nth)
  with heap_upto_root [OF assms(1)] heap_Pop_root [OF assms(2)] show ?thesis
    by (auto simp: le_def)
qed

lemma is_heap_Nil [simp]: "is_heap []"
  by (simp add: heap_upto_def)

end

end
