(* ===== verification/Tx_Types.thy ===== *)
theory Tx_Types
  imports Go_Heap
begin

text \<open>
  The data of the mempool: transactions and their wrappers (\<open>wrappedTransaction.go\<close>), the cache
  configuration (\<open>config.go\<close>), the error values (\<open>errors.go\<close>) and the interfaces through which the
  mempool sees the rest of the node (\<open>interface.go\<close>), which are arguments of the model.
\<close>

section \<open>Errors\<close>

datatype txcache_error =
    errNilMempoolHost | errNilSelectionSession | errNilAccountNonceAndBalanceProvider
  | errEmptyBunchOfTransactions | errNilBlockBody | errNilBlockHeader | errNilBlockHash
  | errBlockNotFound | errDiscontinuousSequenceOfBlocks | errNilTxCache | errNotFoundTx
  | errDiscontinuousBreadcrumbs | errNegativeBalanceForBreadcrumb | errLastNonceNotFound
  | errNonceGap | errExceededBalance | errNonceNotSet | errReceivedLastNonceNotSet
  | errInvalidMaxTrackedBlocks | errBadBlockWhileMaxTrackedBlocksReached | errNilBalance
  | errGlobalBreadcrumbDoesNotExist | errRootHashMismatch | errWrongTypeAssertion
  | errToManyUniqueAccountsInBlock | errSimulateSelectionContextInvalid | errNilTrackedBlock
  | ErrInvalidConfig
  | errExternal nat \<comment> \<open>an error returned by a provider the mempool calls\<close>

type_synonym 'a result = "txcache_error + 'a"

section \<open>Transactions\<close>

text \<open>What the mempool reads of a \<open>data.TransactionHandler\<close>. \<open>GetRelayerAddr\<close> is \<open>None\<close> for a
  transaction that is not a \<open>RelayedTransactionHandler\<close>.\<close>

record Transaction =
  GetNonce :: u64
  GetSndAddr :: slice
  GetGasLimit :: u64
  GetGasPrice :: u64
  GetData :: bytes
  GetRelayerAddr :: "bytes option"

record WrappedTransaction =
  Tx :: Transaction
  TxHash :: bytes
  SenderShardID :: u32
  ReceiverShardID :: u32
  Size :: int
  ReceivedAt :: int
  Fee :: "int option"
  PricePerUnit :: u64
  TransferredValue :: "int option"
  FeePayer :: slice

type_synonym bunchOfTransactions = "WrappedTransaction list"

abbreviation nonceOf :: "WrappedTransaction \<Rightarrow> u64" where
  "nonceOf w \<equiv> GetNonce (Tx w)"

abbreviation senderOf :: "WrappedTransaction \<Rightarrow> bytes" where
  "senderOf w \<equiv> slice_str (GetSndAddr (Tx w))"

abbreviation payerOf :: "WrappedTransaction \<Rightarrow> bytes" where
  "payerOf w \<equiv> slice_str (FeePayer w)"

text \<open>\<open>MempoolHost\<close>: how the node prices a transaction.\<close>

record MempoolHost =
  ComputeTxFee :: "Transaction \<Rightarrow> int"
  GetTransferredValue :: "Transaction \<Rightarrow> int option"

text \<open>\<open>SelectionSession\<close>: the account state a selection runs on.\<close>

record SelectionSession =
  GetAccountNonceAndBalance :: "bytes \<Rightarrow> (u64 \<times> int option) result"
  GetRootHash :: "slice result"
  IsIncorrectlyGuarded :: "Transaction \<Rightarrow> bool"
  IsGuarded :: "Transaction \<Rightarrow> bool"

text \<open>\<open>big.Int.Div\<close> is Euclidean division; \<open>big.Int.Uint64\<close> is the low word of the magnitude.\<close>

definition big_Div :: "int \<Rightarrow> int \<Rightarrow> int" where
  "big_Div x y = (if 0 < y then x div y else - (x div (- y)))"

definition big_Uint64 :: "int \<Rightarrow> u64" where
  "big_Uint64 x = word_of_int \<bar>x\<bar>"

definition decideFeePayer :: "WrappedTransaction \<Rightarrow> slice" where
  "decideFeePayer w =
     (case GetRelayerAddr (Tx w) of
        Some r \<Rightarrow> if 0 < length r then Some r else GetSndAddr (Tx w)
      | None \<Rightarrow> GetSndAddr (Tx w))"

definition precomputeFields :: "MempoolHost \<Rightarrow> WrappedTransaction \<Rightarrow> WrappedTransaction" where
  "precomputeFields host w =
     (let fee = ComputeTxFee host (Tx w);
          w = w\<lparr>Fee := Some fee\<rparr>;
          gasLimit = GetGasLimit (Tx w);
          w = (if gasLimit \<noteq> 0
               then w\<lparr>PricePerUnit := big_Uint64 (big_Div fee (sint gasLimit))\<rparr> else w);
          w = w\<lparr>TransferredValue := GetTransferredValue host (Tx w)\<rparr>
      in w\<lparr>FeePayer := decideFeePayer w\<rparr>)"

definition isTransactionMoreValuableForNetwork ::
  "WrappedTransaction \<Rightarrow> WrappedTransaction \<Rightarrow> bool" where
  "isTransactionMoreValuableForNetwork w other =
     (if PricePerUnit w \<noteq> PricePerUnit other then PricePerUnit w > PricePerUnit other
      else if GetGasLimit (Tx w) \<noteq> GetGasLimit (Tx other)
      then GetGasLimit (Tx w) > GetGasLimit (Tx other)
      else bytes_Compare (TxHash w) (TxHash other) < 0)"

definition isFeePayerSameAsSender :: "WrappedTransaction \<Rightarrow> bool" where
  "isFeePayerSameAsSender w \<longleftrightarrow> slice_Equal (FeePayer w) (GetSndAddr (Tx w))"

lemma precomputeFields_keeps [simp]:
  "Tx (precomputeFields host w) = Tx w"
  "TxHash (precomputeFields host w) = TxHash w"
  "Size (precomputeFields host w) = Size w"
  by (simp_all add: precomputeFields_def Let_def)

lemma isFeePayerSameAsSender_iff: "isFeePayerSameAsSender w \<longleftrightarrow> payerOf w = senderOf w"
  by (simp add: isFeePayerSameAsSender_def slice_Equal_def)

text \<open>The order of the selection heap is a strict weak order.\<close>

lemma moreValuable_asym:
  "isTransactionMoreValuableForNetwork a b \<Longrightarrow> \<not> isTransactionMoreValuableForNetwork b a"
  by (auto simp: isTransactionMoreValuableForNetwork_def dest: bcmp.cmp_less_asym split: if_splits)

lemma moreValuable_neg_trans:
  assumes "\<not> isTransactionMoreValuableForNetwork b a"
    and "\<not> isTransactionMoreValuableForNetwork c b"
  shows "\<not> isTransactionMoreValuableForNetwork c a"
proof -
  have "bytes_Compare (TxHash b) (TxHash c) \<le> 0 \<and> bytes_Compare (TxHash a) (TxHash b) \<le> 0 \<Longrightarrow>
      bytes_Compare (TxHash a) (TxHash c) \<le> 0"
    using bcmp.cmp_le_trans by blast
  then show ?thesis
    using assms bytes_Compare_flip [of "TxHash a" "TxHash b"] bytes_Compare_flip [of "TxHash b" "TxHash c"]
      bytes_Compare_flip [of "TxHash a" "TxHash c"]
    by (auto simp: isTransactionMoreValuableForNetwork_def split: if_splits)
qed

section \<open>Configuration\<close>

record TxCacheBoundsConfig =
  MaxNumBytesPerSenderUpperBound :: u32
  MaxTrackedBlocks :: u32
  PropagationGracePeriodMs :: u32

record ConfigSourceMe =
  Name :: bytes
  NumChunks :: u32
  EvictionEnabled :: bool
  NumBytesThreshold :: u32
  NumBytesPerSenderThreshold :: u32
  CountThreshold :: u32
  CountPerSenderThreshold :: u32
  NumItemsToPreemptivelyEvict :: u32
  BoundsConfig :: TxCacheBoundsConfig

record senderConstraints =
  maxNumTxs :: u32
  maxNumBytes :: u32

definition numChunksLowerBound :: u32 where "numChunksLowerBound = 1"
definition numChunksUpperBound :: u32 where "numChunksUpperBound = 128"
definition maxNumItemsLowerBound :: u32 where "maxNumItemsLowerBound = 4"
definition maxNumBytesLowerBound :: u32 where "maxNumBytesLowerBound = maxNumItemsLowerBound * 1"
definition maxNumBytesUpperBound :: u32 where "maxNumBytesUpperBound = 1073741824"
definition maxNumItemsPerSenderLowerBound :: u32 where "maxNumItemsPerSenderLowerBound = 1"
definition maxNumBytesPerSenderLowerBound :: u32 where
  "maxNumBytesPerSenderLowerBound = maxNumItemsPerSenderLowerBound * 1"
definition numItemsToPreemptivelyEvictLowerBound :: u32 where
  "numItemsToPreemptivelyEvictLowerBound = 1"

lemmas config_bounds_defs =
  numChunksLowerBound_def numChunksUpperBound_def maxNumItemsLowerBound_def
  maxNumBytesLowerBound_def maxNumBytesUpperBound_def maxNumItemsPerSenderLowerBound_def
  maxNumBytesPerSenderLowerBound_def numItemsToPreemptivelyEvictLowerBound_def

definition source_verify :: "ConfigSourceMe \<Rightarrow> txcache_error option" where
  "source_verify c =
     (if length (Name c) = 0 then Some ErrInvalidConfig
      else if NumChunks c < numChunksLowerBound \<or> numChunksUpperBound < NumChunks c
      then Some ErrInvalidConfig
      else if NumBytesPerSenderThreshold c < maxNumBytesPerSenderLowerBound \<or>
        MaxNumBytesPerSenderUpperBound (BoundsConfig c) < NumBytesPerSenderThreshold c
      then Some ErrInvalidConfig
      else if CountPerSenderThreshold c < maxNumItemsPerSenderLowerBound then Some ErrInvalidConfig
      else if NumBytesThreshold c < maxNumBytesLowerBound \<or> maxNumBytesUpperBound < NumBytesThreshold c
      then Some ErrInvalidConfig
      else if CountThreshold c < maxNumItemsLowerBound then Some ErrInvalidConfig
      else if NumItemsToPreemptivelyEvict c < numItemsToPreemptivelyEvictLowerBound
      then Some ErrInvalidConfig
      else None)"

definition getSenderConstraints :: "ConfigSourceMe \<Rightarrow> senderConstraints" where
  "getSenderConstraints c =
     \<lparr>maxNumTxs = CountPerSenderThreshold c, maxNumBytes = NumBytesPerSenderThreshold c\<rparr>"

record ConfigDestinationMe =
  dst_Name :: bytes
  dst_NumChunks :: u32
  dst_MaxNumItems :: u32
  dst_MaxNumBytes :: u32
  dst_NumItemsToPreemptivelyEvict :: u32

definition destination_verify :: "ConfigDestinationMe \<Rightarrow> txcache_error option" where
  "destination_verify c =
     (if length (dst_Name c) = 0 then Some ErrInvalidConfig
      else if dst_NumChunks c < numChunksLowerBound \<or> numChunksUpperBound < dst_NumChunks c
      then Some ErrInvalidConfig
      else if dst_MaxNumItems c < maxNumItemsLowerBound then Some ErrInvalidConfig
      else if dst_MaxNumBytes c < maxNumBytesLowerBound \<or> maxNumBytesUpperBound < dst_MaxNumBytes c
      then Some ErrInvalidConfig
      else if dst_NumItemsToPreemptivelyEvict c < numItemsToPreemptivelyEvictLowerBound
      then Some ErrInvalidConfig
      else None)"

end
