(* ===== verification/Ordered_List.thy ===== *)
theory Ordered_List
  imports Tx_Types
begin

text \<open>
  \<open>txcache/orderedTransactionsList.go\<close>: the transactions of one sender in execution order (nonce
  ascending, gas price descending, hash ascending). The lemmas show that the binary searches find the
  boundary, that insertion keeps the order and rejects duplicates, and that the removals by nonce
  split the list exactly at the nonce.
\<close>

record orderedTransactionsList =
  items :: "WrappedTransaction list"

definition newOrderedTransactionsList :: orderedTransactionsList where
  "newOrderedTransactionsList = \<lparr>items = []\<rparr>"

definition compareTxs :: "WrappedTransaction \<Rightarrow> WrappedTransaction \<Rightarrow> int" where
  "compareTxs tx1 tx2 =
     (if nonceOf tx1 < nonceOf tx2 then -1
      else if nonceOf tx1 > nonceOf tx2 then 1
      else if GetGasPrice (Tx tx1) > GetGasPrice (Tx tx2) then -1
      else if GetGasPrice (Tx tx1) < GetGasPrice (Tx tx2) then 1
      else bytes_Compare (TxHash tx1) (TxHash tx2))"

definition isGreater :: "WrappedTransaction \<Rightarrow> WrappedTransaction \<Rightarrow> bool" where
  "isGreater tx1 tx2 \<longleftrightarrow> compareTxs tx1 tx2 > 0"

definition removeAt ::
  "orderedTransactionsList \<Rightarrow> int \<Rightarrow> WrappedTransaction option \<times> orderedTransactionsList" where
  "removeAt otl index =
     (if index < 0 \<or> int (length (items otl)) \<le> index then (None, otl)
      else (Some (items otl ! nat index),
            otl\<lparr>items := take (nat index) (items otl) @ drop (nat index + 1) (items otl)\<rparr>))"

text \<open>The loop of \<open>removeAfterNonce\<close>: the first index whose nonce is at least the given one, or -1.\<close>

fun cutoff_after :: "u64 \<Rightarrow> int \<Rightarrow> WrappedTransaction list \<Rightarrow> int" where
  "cutoff_after givenNonce i [] = -1"
| "cutoff_after givenNonce i (tx # txs) =
     (if nonceOf tx \<ge> givenNonce then i else cutoff_after givenNonce (i + 1) txs)"

definition removeAfterNonce ::
  "orderedTransactionsList \<Rightarrow> u64 \<Rightarrow> WrappedTransaction list \<times> orderedTransactionsList" where
  "removeAfterNonce otl givenNonce =
     (let cutoffIndex = cutoff_after givenNonce 0 (items otl)
      in if cutoffIndex = -1 then ([], otl)
         else (drop (nat cutoffIndex) (items otl),
               otl\<lparr>items := take (nat cutoffIndex) (items otl)\<rparr>))"

text \<open>The loop of \<open>removeBeforeNonce\<close>, with the cutoff it has so far.\<close>

fun cutoff_before :: "u64 \<Rightarrow> nat \<Rightarrow> nat \<Rightarrow> WrappedTransaction list \<Rightarrow> nat" where
  "cutoff_before targetNonce i cutoffIndex [] = cutoffIndex"
| "cutoff_before targetNonce i cutoffIndex (tx # txs) =
     (if nonceOf tx > targetNonce then i else cutoff_before targetNonce (i + 1) (i + 1) txs)"

definition removeBeforeNonce ::
  "orderedTransactionsList \<Rightarrow> u64 \<Rightarrow> WrappedTransaction list \<times> orderedTransactionsList" where
  "removeBeforeNonce otl targetNonce =
     (let cutoffIndex = cutoff_before targetNonce 0 0 (items otl)
      in if cutoffIndex = 0 then ([], otl)
         else (take cutoffIndex (items otl), otl\<lparr>items := drop cutoffIndex (items otl)\<rparr>))"

definition otl_get :: "orderedTransactionsList \<Rightarrow> int \<Rightarrow> WrappedTransaction option" where
  "otl_get otl index =
     (if index < 0 \<or> int (length (items otl)) \<le> index then None else Some (items otl ! nat index))"

definition otl_len :: "orderedTransactionsList \<Rightarrow> int" where
  "otl_len otl = int (length (items otl))"

definition getAll :: "orderedTransactionsList \<Rightarrow> WrappedTransaction list" where
  "getAll otl = items otl"

definition getAllFromIndex :: "orderedTransactionsList \<Rightarrow> int \<Rightarrow> WrappedTransaction list" where
  "getAllFromIndex otl startIndex =
     (let startIndex = (if startIndex < 0 then 0 else startIndex)
      in if int (length (items otl)) \<le> startIndex then [] else drop (nat startIndex) (items otl))"

definition findIndexByNonce :: "orderedTransactionsList \<Rightarrow> u64 \<Rightarrow> int" where
  "findIndexByNonce otl targetNonce =
     int (sort_Search (length (items otl)) (\<lambda>i. nonceOf (items otl ! i) \<ge> targetNonce))"

definition findInsertionIndex :: "orderedTransactionsList \<Rightarrow> WrappedTransaction \<Rightarrow> int" where
  "findInsertionIndex otl tx =
     (if length (items otl) = 0 then 0
      else if isGreater tx (items otl ! (length (items otl) - 1)) then int (length (items otl))
      else int (sort_Search (length (items otl)) (\<lambda>i. compareTxs (items otl ! i) tx \<ge> 0)))"

definition insertAt ::
  "orderedTransactionsList \<Rightarrow> WrappedTransaction \<Rightarrow> int \<Rightarrow> bool \<times> orderedTransactionsList" where
  "insertAt otl tx index =
     (if index < int (length (items otl)) \<and> compareTxs (items otl ! nat index) tx = 0
      then (False, otl)
      else (True, otl\<lparr>items := take (nat index) (items otl) @ tx # drop (nat index) (items otl)\<rparr>))"

section \<open>The order\<close>

lemma compareTxs_flip: "compareTxs b a = - compareTxs a b"
  using bytes_Compare_flip [of "TxHash b" "TxHash a"] by (auto simp: compareTxs_def)

lemma compareTxs_zero:
  "compareTxs a b = 0 \<longleftrightarrow>
     nonceOf a = nonceOf b \<and> GetGasPrice (Tx a) = GetGasPrice (Tx b) \<and> TxHash a = TxHash b"
  by (auto simp: compareTxs_def)

lemma compareTxs_neg:
  "compareTxs a b < 0 \<longleftrightarrow>
     nonceOf a < nonceOf b \<or>
     nonceOf a = nonceOf b \<and> (GetGasPrice (Tx b) < GetGasPrice (Tx a) \<or>
       GetGasPrice (Tx a) = GetGasPrice (Tx b) \<and> bytes_Compare (TxHash a) (TxHash b) < 0)"
  by (auto simp: compareTxs_def)

interpretation txcmp: three_way compareTxs
proof unfold_locales
  show "compareTxs b a = - compareTxs a b" for a b by (rule compareTxs_flip)
  show "compareTxs a b < 0 \<Longrightarrow> compareTxs b c < 0 \<Longrightarrow> compareTxs a c < 0" for a b c
    unfolding compareTxs_neg using bytes_Compare_trans [of "TxHash a" "TxHash b" "TxHash c"] by auto
  show "compareTxs a b = 0 \<Longrightarrow> compareTxs a c = compareTxs b c" for a b c
    unfolding compareTxs_zero by (simp add: compareTxs_def)
qed

abbreviation ordered :: "WrappedTransaction list \<Rightarrow> bool" where
  "ordered \<equiv> txcmp.increasing"

lemma compareTxs_nonce: "compareTxs a b < 0 \<Longrightarrow> nonceOf a \<le> nonceOf b"
  by (auto simp: compareTxs_neg)

lemma ordered_nonces: "ordered xs \<Longrightarrow> sorted (map nonceOf xs)"
  by (induction xs) (auto dest: compareTxs_nonce)

section \<open>Searching\<close>

lemma sorted_nth_nonce:
  "sorted (map nonceOf xs) \<Longrightarrow> i \<le> j \<Longrightarrow> j < length xs \<Longrightarrow> nonceOf (xs ! i) \<le> nonceOf (xs ! j)"
  using sorted_nth_mono [of "map nonceOf xs" i j] by simp

lemma findIndexByNonce_sorted:
  assumes "sorted (map nonceOf (items otl))"
  shows "findIndexByNonce otl n = int (length (takeWhile (\<lambda>tx. nonceOf tx < n) (items otl)))"
proof -
  have "sort_Search (length (items otl)) (\<lambda>i. n \<le> nonceOf (items otl ! i)) =
      length (takeWhile (\<lambda>tx. \<not> n \<le> nonceOf tx) (items otl))"
    by (rule sort_Search_takeWhile [where P = "\<lambda>tx. n \<le> nonceOf tx"])
       (use sorted_nth_nonce [OF assms] in \<open>auto intro: order_trans\<close>)
  then show ?thesis by (simp add: findIndexByNonce_def not_le)
qed

lemma findInsertionIndex_ordered:
  assumes ord: "ordered (items otl)"
  shows "findInsertionIndex otl tx =
    int (length (takeWhile (\<lambda>y. compareTxs y tx < 0) (items otl)))"
proof -
  let ?xs = "items otl"
  have search: "sort_Search (length ?xs) (\<lambda>i. 0 \<le> compareTxs (?xs ! i) tx) =
      length (takeWhile (\<lambda>y. \<not> 0 \<le> compareTxs y tx) ?xs)"
  proof (rule sort_Search_takeWhile [where P = "\<lambda>y. 0 \<le> compareTxs y tx"])
    fix h k assume hk: "0 \<le> compareTxs (?xs ! h) tx" "h \<le> k" "k < length ?xs"
    show "0 \<le> compareTxs (?xs ! k) tx"
    proof (cases "h = k")
      case False
      with hk ord have "compareTxs (?xs ! h) (?xs ! k) < 0" by (simp add: txcmp.increasing_nth)
      with hk(1) show ?thesis using txcmp.cmp_trans [of "?xs ! h" "?xs ! k" tx] by linarith
    qed (use hk in simp)
  qed
  show ?thesis
  proof (cases "?xs \<noteq> [] \<and> isGreater tx (last ?xs)")
    case True
    have "compareTxs y tx < 0" if "y \<in> set ?xs" for y
    proof -
      have last: "compareTxs (last ?xs) tx < 0"
        using True compareTxs_flip [of tx "last ?xs"] by (simp add: isGreater_def)
      have "?xs = butlast ?xs @ [last ?xs]" using True by simp
      with ord that have "y = last ?xs \<or> compareTxs y (last ?xs) < 0"
        by (metis Un_iff empty_iff empty_set set_ConsD set_append txcmp.increasing_append list.set_intros(1))
      with last txcmp.cmp_trans show ?thesis by blast
    qed
    then have tw: "takeWhile (\<lambda>y. compareTxs y tx < 0) ?xs = ?xs" by (simp add: takeWhile_eq_all_conv)
    have "isGreater tx (?xs ! (length ?xs - 1))" using True by (metis last_conv_nth)
    with True show ?thesis unfolding tw by (simp add: findInsertionIndex_def)
  next
    case False
    with search show ?thesis
      by (cases "?xs = []") (auto simp: findInsertionIndex_def last_conv_nth not_le)
  qed
qed

lemma findInsertionIndex_bounds:
  assumes "ordered (items otl)"
  shows "0 \<le> findInsertionIndex otl tx \<and> findInsertionIndex otl tx \<le> int (length (items otl))"
  using length_takeWhile_le [of "\<lambda>y. compareTxs y tx < 0" "items otl"]
  by (simp add: findInsertionIndex_ordered [OF assms])

section \<open>Insertion\<close>

lemma insertion_boundary:
  assumes ord: "ordered xs" and i: "i = length (takeWhile (\<lambda>y. compareTxs y tx < 0) xs)"
    and new: "i < length xs \<longrightarrow> compareTxs (xs ! i) tx \<noteq> 0"
  shows "\<forall>k < i. compareTxs (xs ! k) tx < 0"
    and "\<forall>k. i \<le> k \<longrightarrow> k < length xs \<longrightarrow> compareTxs tx (xs ! k) < 0"
proof -
  show "\<forall>k < i. compareTxs (xs ! k) tx < 0"
  proof (intro allI impI)
    fix k assume "k < i"
    then have "takeWhile (\<lambda>y. compareTxs y tx < 0) xs ! k \<in> set (takeWhile (\<lambda>y. compareTxs y tx < 0) xs)"
      unfolding i by (rule nth_mem)
    with \<open>k < i\<close> show "compareTxs (xs ! k) tx < 0"
      unfolding i by (metis set_takeWhileD takeWhile_nth)
  qed
  show "\<forall>k. i \<le> k \<longrightarrow> k < length xs \<longrightarrow> compareTxs tx (xs ! k) < 0"
  proof (intro allI impI)
    fix k assume k: "i \<le> k" "k < length xs"
    then have "\<not> compareTxs (xs ! i) tx < 0"
      using nth_length_takeWhile [of "\<lambda>y. compareTxs y tx < 0" xs] i by auto
    with new k have "compareTxs tx (xs ! i) < 0"
      using compareTxs_flip [of tx "xs ! i"] by auto
    moreover have "i = k \<or> compareTxs (xs ! i) (xs ! k) < 0"
      using k txcmp.increasing_nth [OF ord, of i k] by fastforce
    ultimately show "compareTxs tx (xs ! k) < 0" using txcmp.cmp_trans by blast
  qed
qed

lemma insertAt_result:
  assumes ord: "ordered (items otl)" and ins: "insertAt otl tx (findInsertionIndex otl tx) = (added, otl')"
  shows "added \<longleftrightarrow> (\<forall>y \<in> set (items otl). compareTxs y tx \<noteq> 0)"
    and "ordered (items otl')"
    and "mset (items otl') = (if added then add_mset tx (mset (items otl)) else mset (items otl))"
proof -
  let ?xs = "items otl"
  define i where "i = length (takeWhile (\<lambda>y. compareTxs y tx < 0) ?xs)"
  have idx: "findInsertionIndex otl tx = int i" by (simp add: i_def findInsertionIndex_ordered [OF ord])
  have il: "i \<le> length ?xs" by (simp add: i_def length_takeWhile_le)
  note ins' = ins [unfolded idx insertAt_def]
  have conj: "(added \<longleftrightarrow> (\<forall>y \<in> set ?xs. compareTxs y tx \<noteq> 0)) \<and> ordered (items otl') \<and>
    mset (items otl') = (if added then add_mset tx (mset ?xs) else mset ?xs)"
  proof (cases "i < length ?xs \<and> compareTxs (?xs ! i) tx = 0")
    case True
    with ins' ord show ?thesis by (auto intro!: bexI [of _ "?xs ! i"])
  next
    case False
    with ins' have res: "added" "items otl' = take i ?xs @ tx # drop i ?xs" by (auto split: if_splits)
    from False have new: "i < length ?xs \<longrightarrow> compareTxs (?xs ! i) tx \<noteq> 0" by blast
    note b = insertion_boundary [OF ord i_def new]
    have "\<forall>y \<in> set ?xs. compareTxs y tx \<noteq> 0"
    proof
      fix y assume "y \<in> set ?xs"
      then obtain k where "k < length ?xs" "y = ?xs ! k" by (auto simp: in_set_conv_nth)
      then show "compareTxs y tx \<noteq> 0"
        using b(1) [rule_format, of k] b(2) [rule_format, of k] compareTxs_flip [of tx y]
        by (cases "k < i") simp_all
    qed
    moreover have "ordered (items otl')"
      unfolding res by (rule txcmp.increasing_insert_at [OF ord il]) (simp_all add: b)
    moreover have "mset (items otl') = add_mset tx (mset ?xs)"
      using res by (metis append_take_drop_id mset.simps(2) mset_append union_mset_add_mset_right)
    ultimately show ?thesis using res by simp
  qed
  then show "added \<longleftrightarrow> (\<forall>y \<in> set ?xs. compareTxs y tx \<noteq> 0)" and "ordered (items otl')"
    and "mset (items otl') = (if added then add_mset tx (mset ?xs) else mset ?xs)"
    by blast+
qed

section \<open>Removal\<close>

lemma cutoff_before_takeWhile:
  "cutoff_before n i c xs =
     (if xs = [] then c else i + length (takeWhile (\<lambda>tx. nonceOf tx \<le> n) xs))"
  by (induction n i c xs rule: cutoff_before.induct) auto

lemma cutoff_after_takeWhile:
  "cutoff_after n i xs =
     (if \<exists>tx \<in> set xs. n \<le> nonceOf tx then i + int (length (takeWhile (\<lambda>tx. nonceOf tx < n) xs)) else -1)"
  by (induction n i xs rule: cutoff_after.induct) auto

lemma removeBeforeNonce_split:
  "removeBeforeNonce otl n =
     (takeWhile (\<lambda>tx. nonceOf tx \<le> n) (items otl),
      otl\<lparr>items := dropWhile (\<lambda>tx. nonceOf tx \<le> n) (items otl)\<rparr>)"
  by (cases "items otl")
     (auto simp: removeBeforeNonce_def cutoff_before_takeWhile Let_def takeWhile_eq_take [symmetric]
        dropWhile_eq_drop [symmetric])

lemma removeAfterNonce_split:
  "removeAfterNonce otl n =
     (dropWhile (\<lambda>tx. nonceOf tx < n) (items otl),
      otl\<lparr>items := takeWhile (\<lambda>tx. nonceOf tx < n) (items otl)\<rparr>)"
proof (cases "\<exists>tx \<in> set (items otl). n \<le> nonceOf tx")
  case True
  then show ?thesis
    by (simp add: removeAfterNonce_def cutoff_after_takeWhile Let_def takeWhile_eq_take [symmetric]
        dropWhile_eq_drop [symmetric])
next
  case False
  then have tw: "takeWhile (\<lambda>tx. nonceOf tx < n) (items otl) = items otl"
    "dropWhile (\<lambda>tx. nonceOf tx < n) (items otl) = []"
    by (auto simp: takeWhile_eq_all_conv)
  show ?thesis unfolding tw using False by (simp add: removeAfterNonce_def cutoff_after_takeWhile)
qed

lemma sorted_takeWhile_filter:
  assumes "sorted (map nonceOf xs)"
  shows "takeWhile (\<lambda>tx. nonceOf tx \<le> n) xs = filter (\<lambda>tx. nonceOf tx \<le> n) xs"
    and "dropWhile (\<lambda>tx. nonceOf tx \<le> n) xs = filter (\<lambda>tx. n < nonceOf tx) xs"
    and "takeWhile (\<lambda>tx. nonceOf tx < n) xs = filter (\<lambda>tx. nonceOf tx < n) xs"
    and "dropWhile (\<lambda>tx. nonceOf tx < n) xs = filter (\<lambda>tx. n \<le> nonceOf tx) xs"
proof -
  have "sorted_wrt (\<lambda>a b. nonceOf a \<le> nonceOf b) xs" using assms by (simp add: sorted_map)
  then have "sorted_wrt (\<lambda>a b. nonceOf b \<le> n \<longrightarrow> nonceOf a \<le> n) xs"
    and "sorted_wrt (\<lambda>a b. nonceOf b < n \<longrightarrow> nonceOf a < n) xs"
    by (auto elim: sorted_wrt_mono_rel [rotated])
  note this [THEN takeWhile_filter_prefix(1)] this [THEN takeWhile_filter_prefix(2)]
  then show "takeWhile (\<lambda>tx. nonceOf tx \<le> n) xs = filter (\<lambda>tx. nonceOf tx \<le> n) xs"
    and "dropWhile (\<lambda>tx. nonceOf tx \<le> n) xs = filter (\<lambda>tx. n < nonceOf tx) xs"
    and "takeWhile (\<lambda>tx. nonceOf tx < n) xs = filter (\<lambda>tx. nonceOf tx < n) xs"
    and "dropWhile (\<lambda>tx. nonceOf tx < n) xs = filter (\<lambda>tx. n \<le> nonceOf tx) xs"
    by (simp_all add: not_le not_less)
qed

lemma removeBeforeNonce_filter:
  assumes "ordered (items otl)"
  shows "removeBeforeNonce otl n =
     (filter (\<lambda>tx. nonceOf tx \<le> n) (items otl), otl\<lparr>items := filter (\<lambda>tx. n < nonceOf tx) (items otl)\<rparr>)"
  by (simp add: removeBeforeNonce_split sorted_takeWhile_filter ordered_nonces [OF assms])

lemma removeAfterNonce_filter:
  assumes "ordered (items otl)"
  shows "removeAfterNonce otl n =
     (filter (\<lambda>tx. n \<le> nonceOf tx) (items otl), otl\<lparr>items := filter (\<lambda>tx. nonceOf tx < n) (items otl)\<rparr>)"
  by (simp add: removeAfterNonce_split sorted_takeWhile_filter ordered_nonces [OF assms])

end
