(* ===== verification/Breadcrumbs.thy ===== *)
theory Breadcrumbs
  imports Ordered_List
begin

text \<open>
  Breadcrumbs record, per account, what the proposed but not yet executed blocks consume: the nonce
  range and the balance. \<open>accountBreadcrumb.go\<close> and \<open>trackedBlock.go\<close> compile them for one block,
  \<open>globalAccountBreadcrumb.go\<close> and \<open>globalAccountBreadcrumbsCompiler.go\<close> keep one aggregate per account
  incrementally. The lemmas give the meaning of a compiled breadcrumb, and show that the incremental
  aggregate is the aggregate recomputed from the remaining blocks.
\<close>

section \<open>Breadcrumbs of a block\<close>

record accountBreadcrumb =
  firstNonce :: OptionalUint64
  lastNonce :: OptionalUint64
  consumedBalance :: int

abbreviation noNonce :: OptionalUint64 where
  "noNonce \<equiv> \<lparr>optValue = 0, optHasValue = False\<rparr>"

abbreviation someNonce :: "u64 \<Rightarrow> OptionalUint64" where
  "someNonce n \<equiv> \<lparr>optValue = n, optHasValue = True\<rparr>"

definition newAccountBreadcrumb :: "OptionalUint64 \<Rightarrow> accountBreadcrumb" where
  "newAccountBreadcrumb initialNonce =
     \<lparr>firstNonce = initialNonce, lastNonce = noNonce, consumedBalance = 0\<rparr>"

definition ab_accumulateConsumedBalance :: "accountBreadcrumb \<Rightarrow> int option \<Rightarrow> accountBreadcrumb" where
  "ab_accumulateConsumedBalance b v =
     (case v of None \<Rightarrow> b | Some x \<Rightarrow> b\<lparr>consumedBalance := consumedBalance b + x\<rparr>)"

definition updateFirstNonce :: "accountBreadcrumb \<Rightarrow> OptionalUint64 \<Rightarrow> accountBreadcrumb" where
  "updateFirstNonce b n = b\<lparr>firstNonce := n\<rparr>"

definition updateNonceRange ::
  "accountBreadcrumb \<Rightarrow> OptionalUint64 \<Rightarrow> txcache_error option \<times> accountBreadcrumb" where
  "updateNonceRange b n =
     (if \<not> optHasValue n then (Some errReceivedLastNonceNotSet, b)
      else if optHasValue (lastNonce b) \<and> optValue (lastNonce b) + 1 \<noteq> optValue n
      then (Some errNonceGap, b)
      else let b = (if \<not> optHasValue (firstNonce b) then updateFirstNonce b n else b)
           in (None, b\<lparr>lastNonce := n\<rparr>))"

definition verifyContinuityBetweenAccountBreadcrumbs ::
  "accountBreadcrumb \<Rightarrow> accountBreadcrumb option \<Rightarrow> bool" where
  "verifyContinuityBetweenAccountBreadcrumbs b prev =
     (case prev of None \<Rightarrow> True | Some p \<Rightarrow> optValue (lastNonce p) + 1 = optValue (firstNonce b))"

definition verifyContinuityWithSessionNonce :: "accountBreadcrumb \<Rightarrow> u64 \<Rightarrow> bool" where
  "verifyContinuityWithSessionNonce b sessionNonce \<longleftrightarrow> optValue (firstNonce b) = sessionNonce"

definition hasUnknownNonce :: "accountBreadcrumb \<Rightarrow> bool" where
  "hasUnknownNonce b \<longleftrightarrow> \<not> optHasValue (firstNonce b) \<and> \<not> optHasValue (lastNonce b)"

record trackedBlock =
  tb_nonce :: u64
  tb_hash :: bytes
  tb_prevHash :: bytes
  breadcrumbsByAddress :: "(bytes \<times> accountBreadcrumb) list"

definition newTrackedBlock :: "u64 \<Rightarrow> bytes \<Rightarrow> bytes \<Rightarrow> trackedBlock" where
  "newTrackedBlock nonce hash prevHash =
     \<lparr>tb_nonce = nonce, tb_hash = hash, tb_prevHash = prevHash, breadcrumbsByAddress = []\<rparr>"

definition hasSameNonceOrLower :: "trackedBlock \<Rightarrow> trackedBlock \<Rightarrow> bool" where
  "hasSameNonceOrLower tb other \<longleftrightarrow> tb_nonce tb \<le> tb_nonce other"

definition hasSameNonceOrHigherThanGivenNonce :: "trackedBlock \<Rightarrow> u64 \<Rightarrow> bool" where
  "hasSameNonceOrHigherThanGivenNonce tb nonce \<longleftrightarrow> tb_nonce tb \<ge> nonce"

text \<open>The two \<open>getOrCreateBreadcrumb\<close> methods return a pointer into the map; the model stores the
  breadcrumb and the caller updates it under its address.\<close>

definition getOrCreateBreadcrumbWithNonce ::
  "trackedBlock \<Rightarrow> bytes \<Rightarrow> OptionalUint64 \<Rightarrow> accountBreadcrumb \<times> trackedBlock" where
  "getOrCreateBreadcrumbWithNonce tb address nonce =
     (case map_of (breadcrumbsByAddress tb) address of
        Some b \<Rightarrow> (b, tb)
      | None \<Rightarrow> let b = newAccountBreadcrumb nonce
                in (b, tb\<lparr>breadcrumbsByAddress := AList.update address b (breadcrumbsByAddress tb)\<rparr>))"

definition getOrCreateBreadcrumb :: "trackedBlock \<Rightarrow> bytes \<Rightarrow> accountBreadcrumb \<times> trackedBlock" where
  "getOrCreateBreadcrumb tb address =
     (case map_of (breadcrumbsByAddress tb) address of
        Some b \<Rightarrow> (b, tb)
      | None \<Rightarrow> let b = newAccountBreadcrumb noNonce
                in (b, tb\<lparr>breadcrumbsByAddress := AList.update address b (breadcrumbsByAddress tb)\<rparr>))"

definition storeBreadcrumb :: "trackedBlock \<Rightarrow> bytes \<Rightarrow> accountBreadcrumb \<Rightarrow> trackedBlock" where
  "storeBreadcrumb tb address b =
     tb\<lparr>breadcrumbsByAddress := AList.update address b (breadcrumbsByAddress tb)\<rparr>"

definition compileBreadcrumb ::
  "trackedBlock \<Rightarrow> WrappedTransaction \<Rightarrow> txcache_error option \<times> trackedBlock" where
  "compileBreadcrumb tb tx =
     (let sender = senderOf tx; initialNonce = nonceOf tx; latestNonce = initialNonce;
          (b, tb) = getOrCreateBreadcrumbWithNonce tb sender (someNonce initialNonce);
          b = ab_accumulateConsumedBalance b (TransferredValue tx);
          (err, b) = updateNonceRange b (someNonce latestNonce);
          tb = storeBreadcrumb tb sender b
      in case err of
           Some e \<Rightarrow> (Some e, tb)
         | None \<Rightarrow>
             (case FeePayer tx of
                None \<Rightarrow> (None, tb)
              | Some feePayer \<Rightarrow>
                  if sender = feePayer
                  then (None, storeBreadcrumb tb sender (ab_accumulateConsumedBalance b (Fee tx)))
                  else let (pb, tb) = getOrCreateBreadcrumb tb feePayer
                       in (None, storeBreadcrumb tb feePayer (ab_accumulateConsumedBalance pb (Fee tx)))))"

fun compile_loop ::
  "trackedBlock \<Rightarrow> (bytes \<times> u64) list \<Rightarrow> WrappedTransaction list \<Rightarrow>
   ((bytes \<times> u64) list) result \<times> trackedBlock" where
  "compile_loop tb lastNoncePerSender [] = (Inr lastNoncePerSender, tb)"
| "compile_loop tb lastNoncePerSender (tx # txs) =
     (case compileBreadcrumb tb tx of
        (Some e, tb') \<Rightarrow> (Inl e, tb')
      | (None, tb') \<Rightarrow>
          let sender = senderOf tx; nonce = nonceOf tx
          in (case map_of lastNoncePerSender sender of
                Some existingNonce \<Rightarrow>
                  if nonce > existingNonce
                  then compile_loop tb' (AList.update sender nonce lastNoncePerSender) txs
                  else compile_loop tb' lastNoncePerSender txs
              | None \<Rightarrow> compile_loop tb' (AList.update sender nonce lastNoncePerSender) txs))"

definition compileBreadcrumbs ::
  "trackedBlock \<Rightarrow> WrappedTransaction list \<Rightarrow> ((bytes \<times> u64) list) result \<times> trackedBlock" where
  "compileBreadcrumbs tb txs = compile_loop tb [] txs"

section \<open>Global breadcrumbs\<close>

record globalAccountBreadcrumb =
  gab_firstNonce :: OptionalUint64
  gab_lastNonce :: OptionalUint64
  gab_consumedBalance :: int

definition resetNonces :: "globalAccountBreadcrumb \<Rightarrow> globalAccountBreadcrumb" where
  "resetNonces gab =
     gab\<lparr>gab_firstNonce := \<lparr>optValue = - 1, optHasValue = False\<rparr>,
         gab_lastNonce := \<lparr>optValue = 0, optHasValue = False\<rparr>\<rparr>"

definition newGlobalAccountBreadcrumb :: globalAccountBreadcrumb where
  "newGlobalAccountBreadcrumb =
     resetNonces \<lparr>gab_firstNonce = noNonce, gab_lastNonce = noNonce, gab_consumedBalance = 0\<rparr>"

definition isUser :: "globalAccountBreadcrumb \<Rightarrow> bool" where
  "isUser gab \<longleftrightarrow> optHasValue (gab_firstNonce gab) \<or> optHasValue (gab_lastNonce gab)"

definition extendRightNonceRange ::
  "globalAccountBreadcrumb \<Rightarrow> accountBreadcrumb \<Rightarrow> globalAccountBreadcrumb" where
  "extendRightNonceRange gab b =
     gab\<lparr>gab_lastNonce :=
       \<lparr>optValue = max (optValue (gab_lastNonce gab)) (optValue (lastNonce b)), optHasValue = True\<rparr>\<rparr>"

definition extendConsumedBalance ::
  "globalAccountBreadcrumb \<Rightarrow> accountBreadcrumb \<Rightarrow> globalAccountBreadcrumb" where
  "extendConsumedBalance gab b =
     gab\<lparr>gab_consumedBalance := gab_consumedBalance gab + consumedBalance b\<rparr>"

definition updateOnAddedBreadcrumb ::
  "globalAccountBreadcrumb \<Rightarrow> accountBreadcrumb \<Rightarrow> globalAccountBreadcrumb" where
  "updateOnAddedBreadcrumb gab b =
     (let gab = extendConsumedBalance gab b
      in if hasUnknownNonce b then gab
         else let gab = (if \<not> optHasValue (gab_firstNonce gab)
                         then gab\<lparr>gab_firstNonce := firstNonce b\<rparr> else gab)
              in extendRightNonceRange gab b)"

definition reduceConsumedBalance ::
  "globalAccountBreadcrumb \<Rightarrow> accountBreadcrumb \<Rightarrow> txcache_error option \<times> globalAccountBreadcrumb" where
  "reduceConsumedBalance gab b =
     (let gab = gab\<lparr>gab_consumedBalance := gab_consumedBalance gab - consumedBalance b\<rparr>
      in if gab_consumedBalance gab < 0 then (Some errNegativeBalanceForBreadcrumb, gab) else (None, gab))"

definition reduceLeftNonceRange ::
  "globalAccountBreadcrumb \<Rightarrow> accountBreadcrumb \<Rightarrow> globalAccountBreadcrumb" where
  "reduceLeftNonceRange gab b =
     gab\<lparr>gab_firstNonce :=
       \<lparr>optValue = max (optValue (gab_firstNonce gab)) (optValue (lastNonce b) + 1), optHasValue = True\<rparr>\<rparr>"

definition reduceRightNonceRange ::
  "globalAccountBreadcrumb \<Rightarrow> accountBreadcrumb \<Rightarrow> globalAccountBreadcrumb" where
  "reduceRightNonceRange gab b =
     gab\<lparr>gab_lastNonce :=
       \<lparr>optValue = min (optValue (gab_lastNonce gab)) (optValue (firstNonce b) - 1), optHasValue = True\<rparr>\<rparr>"

definition canBeDeleted :: "globalAccountBreadcrumb \<Rightarrow> bool" where
  "canBeDeleted gab \<longleftrightarrow> \<not> isUser gab \<and> \<not> gab_consumedBalance gab > 0"

text \<open>The removal methods return whether the breadcrumb can be deleted, or an error, and the mutated
  breadcrumb.\<close>

definition updateOnRemovedBreadcrumbWithSameNonceOrBelow ::
  "globalAccountBreadcrumb \<Rightarrow> accountBreadcrumb \<Rightarrow> bool result \<times> globalAccountBreadcrumb" where
  "updateOnRemovedBreadcrumbWithSameNonceOrBelow gab b =
     (case reduceConsumedBalance gab b of
        (Some e, gab) \<Rightarrow> (Inl e, gab)
      | (None, gab) \<Rightarrow>
          let hasSameLastNonce = (gab_lastNonce gab = lastNonce b);
              gab = (if isUser gab \<and> hasSameLastNonce then resetNonces gab else gab)
          in if isUser gab
             then if hasUnknownNonce b then (Inr False, gab)
                  else let gab = reduceLeftNonceRange gab b in (Inr (canBeDeleted gab), gab)
             else (Inr (canBeDeleted gab), gab))"

definition updateOnRemoveBreadcrumbWithSameNonceOrAbove ::
  "globalAccountBreadcrumb \<Rightarrow> accountBreadcrumb \<Rightarrow> bool result \<times> globalAccountBreadcrumb" where
  "updateOnRemoveBreadcrumbWithSameNonceOrAbove gab b =
     (case reduceConsumedBalance gab b of
        (Some e, gab) \<Rightarrow> (Inl e, gab)
      | (None, gab) \<Rightarrow>
          let hasSameFirstNonce = (gab_firstNonce gab = firstNonce b);
              gab = (if isUser gab \<and> hasSameFirstNonce then resetNonces gab else gab)
          in if isUser gab
             then if hasUnknownNonce b then (Inr False, gab)
                  else let gab = reduceRightNonceRange gab b in (Inr (canBeDeleted gab), gab)
             else (Inr (canBeDeleted gab), gab))"

definition isContinuousWithSessionNonce :: "globalAccountBreadcrumb \<Rightarrow> u64 \<Rightarrow> bool" where
  "isContinuousWithSessionNonce gab sessionNonce =
     (if \<not> isUser gab then True else optValue (gab_firstNonce gab) = sessionNonce)"

definition getSnapshotOfGlobalBreadcrumb :: "globalAccountBreadcrumb \<Rightarrow> globalAccountBreadcrumb" where
  "getSnapshotOfGlobalBreadcrumb gab =
     newGlobalAccountBreadcrumb
       \<lparr>gab_firstNonce := gab_firstNonce gab, gab_lastNonce := gab_lastNonce gab,
        gab_consumedBalance := gab_consumedBalance gab\<rparr>"

record globalAccountBreadcrumbsCompiler =
  globalAccountBreadcrumbs :: "(bytes \<times> globalAccountBreadcrumb) list"

definition newGlobalAccountBreadcrumbsCompiler :: globalAccountBreadcrumbsCompiler where
  "newGlobalAccountBreadcrumbsCompiler = \<lparr>globalAccountBreadcrumbs = []\<rparr>"

fun added_loop ::
  "(bytes \<times> globalAccountBreadcrumb) list \<Rightarrow> (bytes \<times> accountBreadcrumb) list \<Rightarrow>
   (bytes \<times> globalAccountBreadcrumb) list" where
  "added_loop gm [] = gm"
| "added_loop gm ((account, b) # bs) =
     (let gab = (case map_of gm account of Some g \<Rightarrow> g | None \<Rightarrow> newGlobalAccountBreadcrumb)
      in added_loop (AList.update account (updateOnAddedBreadcrumb gab b) gm) bs)"

definition updateOnAddedBlock ::
  "globalAccountBreadcrumbsCompiler \<Rightarrow> trackedBlock \<Rightarrow> globalAccountBreadcrumbsCompiler" where
  "updateOnAddedBlock gabc tb =
     gabc\<lparr>globalAccountBreadcrumbs :=
       added_loop (globalAccountBreadcrumbs gabc) (breadcrumbsByAddress tb)\<rparr>"

fun removed_loop ::
  "(globalAccountBreadcrumb \<Rightarrow> accountBreadcrumb \<Rightarrow> bool result \<times> globalAccountBreadcrumb) \<Rightarrow>
   (bytes \<times> globalAccountBreadcrumb) list \<Rightarrow> (bytes \<times> accountBreadcrumb) list \<Rightarrow>
   txcache_error option \<times> (bytes \<times> globalAccountBreadcrumb) list" where
  "removed_loop upd gm [] = (None, gm)"
| "removed_loop upd gm ((account, b) # bs) =
     (case map_of gm account of
        None \<Rightarrow> (Some errGlobalBreadcrumbDoesNotExist, gm)
      | Some gab \<Rightarrow>
          (case upd gab b of
             (Inl e, gab') \<Rightarrow> (Some e, AList.update account gab' gm)
           | (Inr shouldBeDeleted, gab') \<Rightarrow>
               if shouldBeDeleted then removed_loop upd (AList.delete account gm) bs
               else removed_loop upd (AList.update account gab' gm) bs))"

definition updateOnRemovedBlockWithSameNonceOrAbove ::
  "globalAccountBreadcrumbsCompiler \<Rightarrow> trackedBlock \<Rightarrow>
   txcache_error option \<times> globalAccountBreadcrumbsCompiler" where
  "updateOnRemovedBlockWithSameNonceOrAbove gabc tb =
     (let (err, gm) = removed_loop updateOnRemoveBreadcrumbWithSameNonceOrAbove
                        (globalAccountBreadcrumbs gabc) (breadcrumbsByAddress tb)
      in (err, gabc\<lparr>globalAccountBreadcrumbs := gm\<rparr>))"

definition updateOnRemovedBlockWithSameNonceOrBelow ::
  "globalAccountBreadcrumbsCompiler \<Rightarrow> trackedBlock \<Rightarrow>
   txcache_error option \<times> globalAccountBreadcrumbsCompiler" where
  "updateOnRemovedBlockWithSameNonceOrBelow gabc tb =
     (let (err, gm) = removed_loop updateOnRemovedBreadcrumbWithSameNonceOrBelow
                        (globalAccountBreadcrumbs gabc) (breadcrumbsByAddress tb)
      in (err, gabc\<lparr>globalAccountBreadcrumbs := gm\<rparr>))"

definition getGlobalBreadcrumbByAddress ::
  "globalAccountBreadcrumbsCompiler \<Rightarrow> bytes \<Rightarrow> globalAccountBreadcrumb result" where
  "getGlobalBreadcrumbByAddress gabc address =
     (case map_of (globalAccountBreadcrumbs gabc) address of
        None \<Rightarrow> Inl errGlobalBreadcrumbDoesNotExist
      | Some gab \<Rightarrow> Inr (getSnapshotOfGlobalBreadcrumb gab))"

definition getGlobalBreadcrumbs ::
  "globalAccountBreadcrumbsCompiler \<Rightarrow> (bytes \<times> globalAccountBreadcrumb) list" where
  "getGlobalBreadcrumbs gabc =
     map (\<lambda>(account, gab). (account, getSnapshotOfGlobalBreadcrumb gab)) (globalAccountBreadcrumbs gabc)"

definition getNumGlobalBreadcrumbs :: "globalAccountBreadcrumbsCompiler \<Rightarrow> u64" where
  "getNumGlobalBreadcrumbs gabc = of_nat (length (globalAccountBreadcrumbs gabc))"

definition cleanGlobalBreadcrumbs ::
  "globalAccountBreadcrumbsCompiler \<Rightarrow> globalAccountBreadcrumbsCompiler" where
  "cleanGlobalBreadcrumbs gabc = gabc\<lparr>globalAccountBreadcrumbs := []\<rparr>"

lemma getSnapshot_id [simp]: "getSnapshotOfGlobalBreadcrumb gab = gab"
  by (cases gab) (simp add: getSnapshotOfGlobalBreadcrumb_def newGlobalAccountBreadcrumb_def resetNonces_def)

lemma getGlobalBreadcrumbs_id [simp]: "getGlobalBreadcrumbs gabc = globalAccountBreadcrumbs gabc"
  by (simp add: getGlobalBreadcrumbs_def)

section \<open>What a compiled breadcrumb means\<close>

text \<open>Per account: the nonces of the transactions it sends, in block order, and the balance the block
  takes from it as a sender (transferred values) and as a fee payer (fees).\<close>

definition nonces_of :: "bytes \<Rightarrow> WrappedTransaction list \<Rightarrow> u64 list" where
  "nonces_of a txs = map nonceOf (filter (\<lambda>tx. senderOf tx = a) txs)"

definition opt_int :: "int option \<Rightarrow> int" where
  "opt_int v = (case v of None \<Rightarrow> 0 | Some x \<Rightarrow> x)"

definition spent_by :: "bytes \<Rightarrow> WrappedTransaction \<Rightarrow> int" where
  "spent_by a tx =
     (if senderOf tx = a then opt_int (TransferredValue tx) else 0) +
     (if FeePayer tx = Some a then opt_int (Fee tx) else 0)"

definition consumed_by :: "bytes \<Rightarrow> WrappedTransaction list \<Rightarrow> int" where
  "consumed_by a txs = sum_list (map (spent_by a) txs)"

definition involves :: "bytes \<Rightarrow> WrappedTransaction \<Rightarrow> bool" where
  "involves a tx \<longleftrightarrow> senderOf tx = a \<or> FeePayer tx = Some a"

definition opt_first :: "u64 list \<Rightarrow> OptionalUint64" where
  "opt_first ns = (case ns of [] \<Rightarrow> noNonce | n # _ \<Rightarrow> someNonce n)"

definition opt_last :: "u64 list \<Rightarrow> OptionalUint64" where
  "opt_last ns = (if ns = [] then noNonce else someNonce (last ns))"

definition spec_breadcrumb :: "WrappedTransaction list \<Rightarrow> bytes \<Rightarrow> accountBreadcrumb option" where
  "spec_breadcrumb txs a =
     (if \<exists>tx \<in> set txs. involves a tx
      then Some \<lparr>firstNonce = opt_first (nonces_of a txs), lastNonce = opt_last (nonces_of a txs),
                 consumedBalance = consumed_by a txs\<rparr>
      else None)"

fun consecutive :: "u64 list \<Rightarrow> bool" where
  "consecutive (m # n # ns) \<longleftrightarrow> n = m + 1 \<and> consecutive (n # ns)"
| "consecutive _ = True"

lemma consecutive_snoc: "consecutive (ns @ [n]) \<longleftrightarrow> consecutive ns \<and> (ns \<noteq> [] \<longrightarrow> n = last ns + 1)"
  by (induction ns rule: consecutive.induct) auto

lemma consecutive_prefix: "consecutive (ns @ n # ms) \<Longrightarrow> consecutive (ns @ [n])"
  by (induction ns rule: consecutive.induct) auto

lemma nonces_of_snoc:
  "nonces_of a (txs @ [tx]) = nonces_of a txs @ (if senderOf tx = a then [nonceOf tx] else [])"
  by (simp add: nonces_of_def)

lemma consumed_by_snoc [simp]: "consumed_by a (txs @ [tx]) = consumed_by a txs + spent_by a tx"
  by (simp add: consumed_by_def)

lemma opt_first_snoc: "opt_first (ns @ [n]) = (if ns = [] then someNonce n else opt_first ns)"
  by (cases ns) (auto simp: opt_first_def)

lemma opt_last_snoc [simp]: "opt_last (ns @ [n]) = someNonce n"
  by (simp add: opt_last_def)

lemma not_involved:
  "\<not> (\<exists>tx \<in> set txs. involves a tx) \<Longrightarrow> nonces_of a txs = [] \<and> consumed_by a txs = 0"
  by (induction txs) (auto simp: nonces_of_def consumed_by_def involves_def spent_by_def)

lemma ab_accumulate_opt:
  "ab_accumulateConsumedBalance b v = b\<lparr>consumedBalance := consumedBalance b + opt_int v\<rparr>"
  by (cases v) (simp_all add: ab_accumulateConsumedBalance_def opt_int_def)

definition represents :: "trackedBlock \<Rightarrow> WrappedTransaction list \<Rightarrow> bool" where
  "represents tb txs \<longleftrightarrow> map_of (breadcrumbsByAddress tb) = spec_breadcrumb txs"

lemma represents_new [simp]: "represents (newTrackedBlock nonce hash prevHash) []"
  by (simp add: represents_def newTrackedBlock_def spec_breadcrumb_def fun_eq_iff)

lemma map_of_storeBreadcrumb [simp]:
  "map_of (breadcrumbsByAddress (storeBreadcrumb tb a b)) = (map_of (breadcrumbsByAddress tb))(a \<mapsto> b)"
  by (simp add: storeBreadcrumb_def update_conv')

lemma getOrCreateWithNonce_store:
  "getOrCreateBreadcrumbWithNonce tb a n = (b, tb') \<Longrightarrow>
   (map_of (breadcrumbsByAddress tb'))(a \<mapsto> b') = (map_of (breadcrumbsByAddress tb))(a \<mapsto> b')"
  by (auto simp: getOrCreateBreadcrumbWithNonce_def Let_def update_conv' fun_eq_iff split: option.splits)

lemma getOrCreate_store:
  "getOrCreateBreadcrumb tb a = (b, tb') \<Longrightarrow>
   (map_of (breadcrumbsByAddress tb'))(a \<mapsto> b') = (map_of (breadcrumbsByAddress tb))(a \<mapsto> b')"
  by (auto simp: getOrCreateBreadcrumb_def Let_def update_conv' fun_eq_iff split: option.splits)

text \<open>The sender part of \<open>compileBreadcrumb\<close> extends the nonce range, or reports a gap.\<close>

lemma sender_breadcrumb:
  assumes rep: "represents tb txs" and ns: "ns = nonces_of a txs"
    and get: "getOrCreateBreadcrumbWithNonce tb a (someNonce n) = (b, tb')"
  shows "updateNonceRange (ab_accumulateConsumedBalance b v) (someNonce n) =
    (if ns \<noteq> [] \<and> n \<noteq> last ns + 1 then (Some errNonceGap, ab_accumulateConsumedBalance b v)
     else (None, \<lparr>firstNonce = opt_first (ns @ [n]), lastNonce = opt_last (ns @ [n]),
                  consumedBalance = consumed_by a txs + opt_int v\<rparr>))"
proof (cases "\<exists>tx \<in> set txs. involves a tx")
  case True
  with rep get have "b = \<lparr>firstNonce = opt_first ns, lastNonce = opt_last ns, consumedBalance = consumed_by a txs\<rparr>"
    by (simp add: represents_def spec_breadcrumb_def getOrCreateBreadcrumbWithNonce_def ns)
  then show ?thesis
    by (cases "ns = []")
       (auto simp: updateNonceRange_def updateFirstNonce_def ab_accumulate_opt opt_first_def opt_last_def
          Let_def neq_Nil_conv)
next
  case False
  with not_involved [of txs a] have "ns = []" "consumed_by a txs = 0" by (auto simp: ns)
  moreover from False rep get have "b = newAccountBreadcrumb (someNonce n)"
    by (auto simp: represents_def spec_breadcrumb_def getOrCreateBreadcrumbWithNonce_def Let_def)
  ultimately show ?thesis
    by (simp add: updateNonceRange_def newAccountBreadcrumb_def ab_accumulate_opt opt_first_def opt_last_def)
qed

lemma spec_breadcrumb_other:
  "\<not> involves a tx \<Longrightarrow> spec_breadcrumb (txs @ [tx]) a = spec_breadcrumb txs a"
  by (auto simp: spec_breadcrumb_def nonces_of_snoc involves_def spent_by_def)

lemma compileBreadcrumb_represents:
  assumes rep: "represents tb txs" and ns: "ns = nonces_of (senderOf tx) txs"
    and ok: "ns = [] \<or> nonceOf tx = last ns + 1"
  shows "\<exists>tb'. compileBreadcrumb tb tx = (None, tb') \<and> represents tb' (txs @ [tx])"
proof -
  define a n where "a = senderOf tx" and "n = nonceOf tx"
  obtain b tb1 where get: "getOrCreateBreadcrumbWithNonce tb a (someNonce n) = (b, tb1)" by fastforce
  define b1 where "b1 = \<lparr>firstNonce = opt_first (ns @ [n]), lastNonce = opt_last (ns @ [n]),
      consumedBalance = consumed_by a txs + opt_int (TransferredValue tx)\<rparr>"
  have upd: "updateNonceRange (ab_accumulateConsumedBalance b (TransferredValue tx)) (someNonce n) = (None, b1)"
    using sender_breadcrumb [OF rep _ get, of ns] ok ns by (auto simp: a_def n_def b1_def)
  define tb2 where "tb2 = storeBreadcrumb tb1 a b1"
  have tb2: "map_of (breadcrumbsByAddress tb2) = (spec_breadcrumb txs)(a \<mapsto> b1)"
    unfolding tb2_def map_of_storeBreadcrumb getOrCreateWithNonce_store [OF get]
    using rep by (simp add: represents_def)
  have spec_a: "spec_breadcrumb (txs @ [tx]) a =
      Some (b1\<lparr>consumedBalance := consumed_by a txs + spent_by a tx\<rparr>)"
    using ns by (simp add: spec_breadcrumb_def involves_def nonces_of_snoc b1_def a_def n_def)
  show ?thesis
  proof (cases "FeePayer tx")
    case None
    have "(spec_breadcrumb txs)(a \<mapsto> b1) = spec_breadcrumb (txs @ [tx])"
      using None spec_a spec_breadcrumb_other [of _ tx txs]
      by (auto simp: fun_eq_iff involves_def a_def b1_def spent_by_def)
    with None get upd tb2 show ?thesis
      by (auto simp: compileBreadcrumb_def Let_def a_def n_def tb2_def represents_def)
  next
    case (Some p)
    show ?thesis
    proof (cases "p = a")
      case True
      have "(spec_breadcrumb txs)(a \<mapsto> ab_accumulateConsumedBalance b1 (Fee tx)) = spec_breadcrumb (txs @ [tx])"
        using Some True spec_a spec_breadcrumb_other [of _ tx txs]
        by (auto simp: fun_eq_iff involves_def a_def b1_def spent_by_def ab_accumulate_opt)
      with Some True get upd tb2 show ?thesis
        by (auto simp: compileBreadcrumb_def Let_def a_def n_def tb2_def represents_def)
    next
      case False
      obtain pb tb3 where getp: "getOrCreateBreadcrumb tb2 p = (pb, tb3)" by fastforce
      have pb: "pb = (case spec_breadcrumb txs p of Some x \<Rightarrow> x | None \<Rightarrow> newAccountBreadcrumb noNonce)"
        using getp tb2 False
        by (auto simp: getOrCreateBreadcrumb_def Let_def split: option.splits)
      have "spec_breadcrumb (txs @ [tx]) p = Some (ab_accumulateConsumedBalance pb (Fee tx))"
        using pb Some False not_involved [of txs p]
        by (auto simp: spec_breadcrumb_def involves_def nonces_of_snoc a_def spent_by_def
            ab_accumulate_opt newAccountBreadcrumb_def opt_first_def opt_last_def)
      moreover have "spent_by a tx = opt_int (TransferredValue tx)"
        using Some False by (simp add: spent_by_def a_def)
      ultimately have "((spec_breadcrumb txs)(a \<mapsto> b1))(p \<mapsto> ab_accumulateConsumedBalance pb (Fee tx)) =
          spec_breadcrumb (txs @ [tx])"
        using Some spec_a spec_breadcrumb_other [of _ tx txs]
        by (auto simp: fun_eq_iff involves_def a_def b1_def)
      then have "represents (storeBreadcrumb tb3 p (ab_accumulateConsumedBalance pb (Fee tx))) (txs @ [tx])"
        by (simp add: represents_def getOrCreate_store [OF getp] tb2)
      with Some False get getp upd show ?thesis
        by (auto simp: compileBreadcrumb_def Let_def a_def n_def tb2_def)
    qed
  qed
qed

lemma compileBreadcrumb_gap:
  assumes rep: "represents tb txs" and ns: "ns = nonces_of (senderOf tx) txs"
    and gap: "ns \<noteq> []" "nonceOf tx \<noteq> last ns + 1"
  shows "fst (compileBreadcrumb tb tx) = Some errNonceGap"
proof -
  obtain b tb1 where get: "getOrCreateBreadcrumbWithNonce tb (senderOf tx) (someNonce (nonceOf tx)) = (b, tb1)"
    by fastforce
  show ?thesis
    using sender_breadcrumb [OF rep ns get] get gap by (simp add: compileBreadcrumb_def Let_def)
qed

lemma compile_loop_represents:
  assumes "represents tb txs" and "\<forall>a. consecutive (nonces_of a txs)"
  shows "(case compile_loop tb m rest of
      (Inr m', tb') \<Rightarrow> represents tb' (txs @ rest) \<and> (\<forall>a. consecutive (nonces_of a (txs @ rest)))
    | (Inl e, tb') \<Rightarrow> e = errNonceGap \<and> \<not> (\<forall>a. consecutive (nonces_of a (txs @ rest))))"
  using assms
proof (induction rest arbitrary: tb txs m)
  case Nil
  then show ?case by simp
next
  case (Cons tx rest)
  define ns where "ns = nonces_of (senderOf tx) txs"
  show ?case
  proof (cases "ns = [] \<or> nonceOf tx = last ns + 1")
    case True
    from compileBreadcrumb_represents [OF Cons.prems(1) ns_def True]
    obtain tb' where tb': "compileBreadcrumb tb tx = (None, tb')" "represents tb' (txs @ [tx])" by blast
    have "\<forall>a. consecutive (nonces_of a (txs @ [tx]))"
      using Cons.prems(2) True by (auto simp: nonces_of_snoc consecutive_snoc ns_def)
    note IH = Cons.IH [OF tb'(2) this]
    have "\<exists>m'. compile_loop tb m (tx # rest) = compile_loop tb' m' rest"
      by (cases "map_of m (senderOf tx)") (auto simp: tb'(1) Let_def)
    then obtain m' where "compile_loop tb m (tx # rest) = compile_loop tb' m' rest" ..
    then show ?thesis using IH [of m'] by (simp only: append_assoc append_Cons append_Nil)
  next
    case False
    have "\<not> consecutive (nonces_of (senderOf tx) (txs @ tx # rest))"
    proof
      assume "consecutive (nonces_of (senderOf tx) (txs @ tx # rest))"
      moreover have "nonces_of (senderOf tx) (txs @ tx # rest) =
          ns @ nonceOf tx # nonces_of (senderOf tx) rest" by (simp add: nonces_of_def ns_def)
      ultimately have "consecutive (ns @ nonceOf tx # nonces_of (senderOf tx) rest)" by simp
      then have "consecutive (ns @ [nonceOf tx])" by (rule consecutive_prefix)
      with False show False by (simp add: consecutive_snoc)
    qed
    moreover obtain tb' where "compileBreadcrumb tb tx = (Some errNonceGap, tb')"
      using compileBreadcrumb_gap [OF Cons.prems(1) ns_def] False by (cases "compileBreadcrumb tb tx") auto
    ultimately show ?thesis by auto
  qed
qed

text \<open>The returned map gives the highest nonce of each sender.\<close>

definition opt_max :: "u64 option \<Rightarrow> u64 \<Rightarrow> u64 option" where
  "opt_max acc n = (case acc of None \<Rightarrow> Some n | Some x \<Rightarrow> Some (max x n))"

lemma compile_loop_last_nonces:
  "compile_loop tb m txs = (Inr m', tb') \<Longrightarrow>
   map_of m' a = foldl opt_max (map_of m a) (nonces_of a txs)"
proof (induction tb m txs rule: compile_loop.induct)
  case (2 tb m tx txs)
  from "2.prems" obtain tb1 where c: "compileBreadcrumb tb tx = (None, tb1)"
    by (auto split: prod.splits option.splits)
  define m1 where "m1 = (case map_of m (senderOf tx) of
      Some e \<Rightarrow> if nonceOf tx > e then AList.update (senderOf tx) (nonceOf tx) m else m
    | None \<Rightarrow> AList.update (senderOf tx) (nonceOf tx) m)"
  have loop: "compile_loop tb1 m1 txs = (Inr m', tb')"
    using "2.prems" c by (auto simp: m1_def Let_def split: option.splits if_splits)
  have "map_of m' a = foldl opt_max (map_of m1 a) (nonces_of a txs)"
    using "2.IH" c loop by (auto simp: m1_def Let_def split: option.splits if_splits)
  also have "map_of m1 a = (if senderOf tx = a then opt_max (map_of m a) (nonceOf tx) else map_of m a)"
    by (auto simp: m1_def opt_max_def update_conv' max_def split: option.splits)
  finally show ?case by (simp add: nonces_of_def)
qed (simp add: nonces_of_def)

section \<open>The incremental aggregate\<close>

text \<open>The aggregate of an account over its breadcrumbs in chain order, recomputed from scratch.\<close>

definition gab_of :: "accountBreadcrumb list \<Rightarrow> globalAccountBreadcrumb" where
  "gab_of bs = foldl updateOnAddedBreadcrumb newGlobalAccountBreadcrumb bs"

text \<open>A breadcrumb as \<open>compileBreadcrumbs\<close> builds it: of a sender, with a nonce range, or of an
  account that only pays fees, which then consumes something.\<close>

definition known :: "accountBreadcrumb \<Rightarrow> bool" where
  "known b \<longleftrightarrow> optHasValue (firstNonce b) \<and> optHasValue (lastNonce b)"

definition wf_breadcrumb :: "accountBreadcrumb \<Rightarrow> bool" where
  "wf_breadcrumb b \<longleftrightarrow>
     0 \<le> consumedBalance b \<and>
     (known b \<and> optValue (firstNonce b) \<le> optValue (lastNonce b) \<or>
      firstNonce b = noNonce \<and> lastNonce b = noNonce \<and> 0 < consumedBalance b)"

text \<open>The nonce ranges of an account follow each other, without wrapping around.\<close>

definition follows :: "accountBreadcrumb \<Rightarrow> accountBreadcrumb \<Rightarrow> bool" where
  "follows a b \<longleftrightarrow> optValue (lastNonce a) < optValue (firstNonce b)"

fun contiguous :: "accountBreadcrumb list \<Rightarrow> bool" where
  "contiguous (a # b # bs) \<longleftrightarrow>
     optValue (firstNonce b) = optValue (lastNonce a) + 1 \<and> follows a b \<and> contiguous (b # bs)"
| "contiguous _ = True"

definition coherent :: "accountBreadcrumb list \<Rightarrow> bool" where
  "coherent bs \<longleftrightarrow> (\<forall>b \<in> set bs. wf_breadcrumb b) \<and> contiguous (filter known bs)"

lemma wf_unknown: "wf_breadcrumb b \<Longrightarrow> hasUnknownNonce b \<longleftrightarrow> \<not> known b"
  by (auto simp: wf_breadcrumb_def hasUnknownNonce_def known_def)

lemma contiguous_append:
  "contiguous (xs @ ys) \<longleftrightarrow>
     contiguous xs \<and> contiguous ys \<and>
     (xs \<noteq> [] \<longrightarrow> ys \<noteq> [] \<longrightarrow>
       optValue (firstNonce (hd ys)) = optValue (lastNonce (last xs)) + 1 \<and> follows (last xs) (hd ys))"
  by (induction xs rule: contiguous.induct; cases ys) auto

lemma coherent_append_left: "coherent (xs @ ys) \<Longrightarrow> coherent xs"
  by (simp add: coherent_def contiguous_append)

lemma coherent_append_right: "coherent (xs @ ys) \<Longrightarrow> coherent ys"
  by (simp add: coherent_def contiguous_append)

lemma contiguous_last_ge:
  "contiguous bs \<Longrightarrow> \<forall>b \<in> set bs. optValue (firstNonce b) \<le> optValue (lastNonce b) \<Longrightarrow> bs \<noteq> [] \<Longrightarrow>
   optValue (firstNonce (hd bs)) \<le> optValue (lastNonce (last bs))"
proof (induction bs rule: contiguous.induct)
  case (1 a b bs)
  then have "optValue (firstNonce b) \<le> optValue (lastNonce (last (b # bs)))" by simp
  moreover have "optValue (lastNonce a) < optValue (firstNonce b)" using 1 unfolding contiguous.simps follows_def by blast
  moreover have "optValue (firstNonce a) \<le> optValue (lastNonce a)" using 1 by simp
  ultimately show ?case unfolding list.sel last_ConsR [of "b # bs", simplified] last.simps by auto
qed auto

text \<open>The closed form of the aggregate.\<close>

definition range_of :: "accountBreadcrumb list \<Rightarrow> OptionalUint64 \<times> OptionalUint64" where
  "range_of bs =
     (if bs = [] then (\<lparr>optValue = - 1, optHasValue = False\<rparr>, noNonce)
      else (someNonce (optValue (firstNonce (hd bs))), someNonce (optValue (lastNonce (last bs)))))"

lemma gab_of_snoc: "gab_of (bs @ [b]) = updateOnAddedBreadcrumb (gab_of bs) b"
  by (simp add: gab_of_def)

lemma gab_of_closed:
  assumes "coherent bs"
  shows "gab_of bs =
    \<lparr>gab_firstNonce = fst (range_of (filter known bs)), gab_lastNonce = snd (range_of (filter known bs)),
     gab_consumedBalance = sum_list (map consumedBalance bs)\<rparr>"
  using assms
proof (induction bs rule: rev_induct)
  case Nil
  show ?case by (simp add: gab_of_def newGlobalAccountBreadcrumb_def resetNonces_def range_of_def)
next
  case (snoc b bs)
  have IH: "gab_of bs = \<lparr>gab_firstNonce = fst (range_of (filter known bs)),
      gab_lastNonce = snd (range_of (filter known bs)),
      gab_consumedBalance = sum_list (map consumedBalance bs)\<rparr>"
    using snoc coherent_append_left by blast
  have wf: "wf_breadcrumb b" using snoc.prems by (simp add: coherent_def)
  show ?case
  proof (cases "known b")
    case False
    with IH wf show ?thesis
      by (simp add: gab_of_snoc updateOnAddedBreadcrumb_def extendConsumedBalance_def wf_unknown Let_def)
  next
    case True
    then have fn: "firstNonce b = someNonce (optValue (firstNonce b))" by (simp add: known_def)
    show ?thesis
    proof (cases "filter known bs = []")
      case True
      with IH wf fn \<open>known b\<close> show ?thesis
        by (simp add: gab_of_snoc updateOnAddedBreadcrumb_def extendConsumedBalance_def wf_unknown
            extendRightNonceRange_def range_of_def Let_def)
    next
      case False
      have c: "contiguous (filter known bs @ [b])"
        using snoc.prems \<open>known b\<close> by (simp add: coherent_def)
      with False have "optValue (lastNonce (last (filter known bs))) < optValue (firstNonce b)"
        unfolding contiguous_append follows_def list.sel by blast
      moreover have "optValue (firstNonce b) \<le> optValue (lastNonce b)"
        using wf \<open>known b\<close> by (auto simp: wf_breadcrumb_def known_def)
      ultimately have "max (optValue (lastNonce (last (filter known bs)))) (optValue (lastNonce b)) =
          optValue (lastNonce b)" by simp
      with IH wf \<open>known b\<close> False show ?thesis
        by (simp add: gab_of_snoc updateOnAddedBreadcrumb_def extendConsumedBalance_def wf_unknown
            extendRightNonceRange_def range_of_def Let_def)
    qed
  qed
qed

lemma sum_consumed_nonneg: "coherent bs \<Longrightarrow> 0 \<le> sum_list (map consumedBalance bs)"
  by (rule sum_list_nonneg) (auto simp: coherent_def wf_breadcrumb_def)

lemma isUser_gab_of: "coherent bs \<Longrightarrow> isUser (gab_of bs) \<longleftrightarrow> filter known bs \<noteq> []"
  by (simp add: gab_of_closed isUser_def range_of_def)

lemma canBeDeleted_gab_of:
  assumes "coherent bs" shows "canBeDeleted (gab_of bs) \<longleftrightarrow> bs = []"
proof (cases "filter known bs = []")
  case True
  show ?thesis
  proof (cases bs)
    case Nil
    then show ?thesis using assms by (simp add: canBeDeleted_def isUser_def gab_of_closed range_of_def)
  next
    case (Cons b cs)
    with True assms have "0 < consumedBalance b" "coherent cs"
      using coherent_append_right [of "[b]" cs] by (auto simp: coherent_def wf_breadcrumb_def split: if_splits)
    with Cons sum_consumed_nonneg [of cs] assms True show ?thesis
      by (simp add: canBeDeleted_def gab_of_closed)
  qed
next
  case False
  then show ?thesis using assms by (auto simp: canBeDeleted_def isUser_gab_of)
qed

text \<open>Removing the latest breadcrumb of an account (block replacement) undoes its addition.\<close>

lemma remove_latest:
  assumes coh: "coherent (bs @ [b])"
  shows "updateOnRemoveBreadcrumbWithSameNonceOrAbove (gab_of (bs @ [b])) b = (Inr (bs = []), gab_of bs)"
proof -
  have coh': "coherent bs" using coh by (rule coherent_append_left)
  have wf: "wf_breadcrumb b" using coh by (simp add: coherent_def)
  define ks where "ks = filter known bs"
  have red: "reduceConsumedBalance (gab_of (bs @ [b])) b =
      (None, (gab_of (bs @ [b]))\<lparr>gab_consumedBalance := sum_list (map consumedBalance bs)\<rparr>)"
    using sum_consumed_nonneg [OF coh'] by (simp add: reduceConsumedBalance_def gab_of_closed [OF coh])
  note closed = gab_of_closed [OF coh] gab_of_closed [OF coh']
  have del: "(bs = []) = canBeDeleted (gab_of bs)" using canBeDeleted_gab_of [OF coh'] by simp
  show ?thesis
  proof (cases "known b")
    case False
    with wf have b: "firstNonce b = noNonce" "hasUnknownNonce b" by (auto simp: wf_breadcrumb_def wf_unknown)
    show ?thesis
    proof (cases "ks = []")
      case True
      with False red b show ?thesis unfolding updateOnRemoveBreadcrumbWithSameNonceOrAbove_def del
        by (simp add: closed ks_def isUser_def range_of_def Let_def)
    next
      case False
      then have "bs \<noteq> []" by (auto simp: ks_def)
      with False \<open>\<not> known b\<close> red b show ?thesis unfolding updateOnRemoveBreadcrumbWithSameNonceOrAbove_def
        by (simp add: closed ks_def isUser_def range_of_def Let_def)
    qed
  next
    case True
    then have b: "firstNonce b = someNonce (optValue (firstNonce b))" "\<not> hasUnknownNonce b"
      using wf wf_unknown by (auto simp: known_def)
    show ?thesis
    proof (cases "ks = []")
      case True
      with \<open>known b\<close> red b show ?thesis unfolding updateOnRemoveBreadcrumbWithSameNonceOrAbove_def del
        by (simp add: closed ks_def isUser_def range_of_def resetNonces_def Let_def)
    next
      case False
      have c: "contiguous (ks @ [b])" using coh \<open>known b\<close> by (simp add: coherent_def ks_def)
      then have fl: "optValue (firstNonce b) = optValue (lastNonce (last ks)) + 1"
        and lt: "optValue (lastNonce (last ks)) < optValue (firstNonce b)"
        using False unfolding contiguous_append follows_def list.sel by blast+
      have "optValue (firstNonce (hd ks)) \<le> optValue (lastNonce (last ks))"
        by (rule contiguous_last_ge)
           (use coh' False in \<open>auto simp: ks_def coherent_def wf_breadcrumb_def known_def\<close>)
      with lt have ne: "optValue (firstNonce (hd ks)) \<noteq> optValue (firstNonce b)" by auto
      have "optValue (firstNonce b) \<le> optValue (lastNonce b)"
        using wf \<open>known b\<close> by (auto simp: wf_breadcrumb_def known_def)
      with lt fl have mn: "min (optValue (lastNonce b)) (optValue (firstNonce b) - 1) = optValue (lastNonce (last ks))"
        by (metis add_diff_cancel min.absorb2 order.strict_implies_order order.trans)
      have ne': "someNonce (optValue (firstNonce (hd ks))) \<noteq> firstNonce b"
        using ne b(1) by (metis OptionalUint64.select_convs(1))
      have g1: "gab_of (bs @ [b]) = \<lparr>gab_firstNonce = someNonce (optValue (firstNonce (hd ks))),
          gab_lastNonce = someNonce (optValue (lastNonce b)),
          gab_consumedBalance = sum_list (map consumedBalance bs) + consumedBalance b\<rparr>"
        using False \<open>known b\<close> by (simp add: closed(1) ks_def range_of_def)
      have g0: "gab_of bs = \<lparr>gab_firstNonce = someNonce (optValue (firstNonce (hd ks))),
          gab_lastNonce = someNonce (optValue (lastNonce (last ks))),
          gab_consumedBalance = sum_list (map consumedBalance bs)\<rparr>"
        using False by (simp add: closed(2) ks_def range_of_def)
      show ?thesis unfolding updateOnRemoveBreadcrumbWithSameNonceOrAbove_def del red
        using b(2) mn ne' by (simp add: g1 g0 isUser_def reduceRightNonceRange_def Let_def)
    qed
  qed
qed

text \<open>Removing the earliest one (block execution) leaves the aggregate of the later ones.\<close>

lemma remove_earliest:
  assumes coh: "coherent (b # bs)"
  shows "updateOnRemovedBreadcrumbWithSameNonceOrBelow (gab_of (b # bs)) b = (Inr (bs = []), gab_of bs)"
proof -
  have coh': "coherent bs" using coh coherent_append_right [of "[b]" bs] by simp
  have wf: "wf_breadcrumb b" using coh by (simp add: coherent_def)
  define ks where "ks = filter known bs"
  have red: "reduceConsumedBalance (gab_of (b # bs)) b =
      (None, (gab_of (b # bs))\<lparr>gab_consumedBalance := sum_list (map consumedBalance bs)\<rparr>)"
    using sum_consumed_nonneg [OF coh'] by (simp add: reduceConsumedBalance_def gab_of_closed [OF coh])
  note closed = gab_of_closed [OF coh] gab_of_closed [OF coh']
  have del: "(bs = []) = canBeDeleted (gab_of bs)" using canBeDeleted_gab_of [OF coh'] by simp
  show ?thesis
  proof (cases "known b")
    case False
    with wf have b: "lastNonce b = noNonce" "hasUnknownNonce b" by (auto simp: wf_breadcrumb_def wf_unknown)
    show ?thesis
    proof (cases "ks = []")
      case True
      with False red b show ?thesis unfolding updateOnRemovedBreadcrumbWithSameNonceOrBelow_def del
        by (simp add: closed ks_def isUser_def range_of_def Let_def)
    next
      case False
      then have "bs \<noteq> []" by (auto simp: ks_def)
      with False \<open>\<not> known b\<close> red b show ?thesis unfolding updateOnRemovedBreadcrumbWithSameNonceOrBelow_def
        by (simp add: closed ks_def isUser_def range_of_def Let_def)
    qed
  next
    case True
    then have b: "lastNonce b = someNonce (optValue (lastNonce b))" "\<not> hasUnknownNonce b"
      using wf wf_unknown by (auto simp: known_def)
    show ?thesis
    proof (cases "ks = []")
      case True
      with \<open>known b\<close> red b show ?thesis unfolding updateOnRemovedBreadcrumbWithSameNonceOrBelow_def del
        by (simp add: closed ks_def isUser_def range_of_def resetNonces_def Let_def)
    next
      case False
      have c: "contiguous ([b] @ ks)" using coh \<open>known b\<close> by (simp add: coherent_def ks_def)
      then have fl: "optValue (firstNonce (hd ks)) = optValue (lastNonce b) + 1"
        and lt: "optValue (lastNonce b) < optValue (firstNonce (hd ks))"
        using False unfolding contiguous_append follows_def by auto
      have "optValue (firstNonce (hd ks)) \<le> optValue (lastNonce (last ks))"
        by (rule contiguous_last_ge)
           (use coh' False in \<open>auto simp: ks_def coherent_def wf_breadcrumb_def known_def\<close>)
      with lt have ne: "optValue (lastNonce (last ks)) \<noteq> optValue (lastNonce b)" by auto
      have "optValue (firstNonce b) \<le> optValue (lastNonce b)"
        using wf \<open>known b\<close> by (auto simp: wf_breadcrumb_def known_def)
      with lt fl have mx: "max (optValue (firstNonce b)) (optValue (lastNonce b) + 1) = optValue (firstNonce (hd ks))"
        by (metis max.absorb2 order.strict_implies_order order.trans)
      have ne': "someNonce (optValue (lastNonce (last ks))) \<noteq> lastNonce b"
        using ne b(1) by (metis OptionalUint64.select_convs(1))
      have g1: "gab_of (b # bs) = \<lparr>gab_firstNonce = someNonce (optValue (firstNonce b)),
          gab_lastNonce = someNonce (optValue (lastNonce (last ks))),
          gab_consumedBalance = consumedBalance b + sum_list (map consumedBalance bs)\<rparr>"
        using False \<open>known b\<close> by (simp add: closed(1) ks_def range_of_def)
      have g0: "gab_of bs = \<lparr>gab_firstNonce = someNonce (optValue (firstNonce (hd ks))),
          gab_lastNonce = someNonce (optValue (lastNonce (last ks))),
          gab_consumedBalance = sum_list (map consumedBalance bs)\<rparr>"
        using False by (simp add: closed(2) ks_def range_of_def)
      show ?thesis unfolding updateOnRemovedBreadcrumbWithSameNonceOrBelow_def del red
        using b(2) mx ne' by (simp add: g1 g0 isUser_def reduceLeftNonceRange_def Let_def)
    qed
  qed
qed

section \<open>The compiler keeps one aggregate per account\<close>

definition aggregates ::
  "(bytes \<times> globalAccountBreadcrumb) list \<Rightarrow> (bytes \<Rightarrow> accountBreadcrumb list) \<Rightarrow> bool" where
  "aggregates gm hist \<longleftrightarrow>
     distinct (map fst gm) \<and>
     (\<forall>a. map_of gm a = (if hist a = [] then None else Some (gab_of (hist a))))"

definition list_of :: "'x option \<Rightarrow> 'x list" where
  "list_of o' = (case o' of None \<Rightarrow> [] | Some x \<Rightarrow> [x])"

lemma list_of_simps [simp]: "list_of None = []" "list_of (Some x) = [x]"
  by (simp_all add: list_of_def)

lemma aggregates_update:
  "aggregates gm hist \<Longrightarrow> bs \<noteq> [] \<Longrightarrow> aggregates (AList.update a (gab_of bs) gm) (hist(a := bs))"
  by (auto simp: aggregates_def distinct_update update_conv')

lemma aggregates_delete: "aggregates gm hist \<Longrightarrow> aggregates (AList.delete a gm) (hist(a := []))"
  by (auto simp: aggregates_def distinct_delete delete_conv')

lemma aggregates_cong: "aggregates gm hist \<Longrightarrow> (\<And>a. hist a = hist' a) \<Longrightarrow> aggregates gm hist'"
  by (simp add: aggregates_def)

lemma added_loop_aggregates:
  "aggregates gm hist \<Longrightarrow> distinct (map fst bcs) \<Longrightarrow>
   aggregates (added_loop gm bcs) (\<lambda>a. hist a @ list_of (map_of bcs a))"
proof (induction gm bcs arbitrary: hist rule: added_loop.induct)
  case (2 gm account b bs)
  have "(case map_of gm account of Some g \<Rightarrow> g | None \<Rightarrow> newGlobalAccountBreadcrumb) = gab_of (hist account)"
    using "2.prems"(1) by (simp add: aggregates_def gab_of_def)
  moreover have "aggregates (AList.update account (updateOnAddedBreadcrumb (gab_of (hist account)) b) gm)
      (hist(account := hist account @ [b]))"
    using aggregates_update [OF "2.prems"(1), of "hist account @ [b]" account] by (simp add: gab_of_snoc)
  ultimately have "aggregates (added_loop gm ((account, b) # bs))
      (\<lambda>a. (hist(account := hist account @ [b])) a @ list_of (map_of bs a))"
    using "2.IH" [OF refl, of "hist(account := hist account @ [b])"] "2.prems"(2)
    unfolding added_loop.simps Let_def by (simp del: fun_upd_apply)
  moreover have "map_of bs account = None" using "2.prems"(2) by (simp add: map_of_eq_None_iff)
  ultimately show ?case
    by (elim aggregates_cong) (auto split: if_splits)
qed simp

lemma removed_loop_aggregates:
  assumes "aggregates gm full" and "distinct (map fst bcs)"
    and "\<And>a b. (a, b) \<in> set bcs \<Longrightarrow>
      full a \<noteq> [] \<and> upd (gab_of (full a)) b = (Inr (hist a = []), gab_of (hist a))"
    and "\<And>a. a \<notin> fst ` set bcs \<Longrightarrow> full a = hist a"
  shows "\<exists>gm'. removed_loop upd gm bcs = (None, gm') \<and> aggregates gm' hist"
  using assms
proof (induction bcs arbitrary: gm full)
  case Nil
  then show ?case by (auto intro: aggregates_cong)
next
  case (Cons p bs)
  obtain account b where p: "p = (account, b)" by fastforce
  have gm: "map_of gm account = Some (gab_of (full account))"
    using Cons.prems(1,3) p by (auto simp: aggregates_def)
  have upd: "upd (gab_of (full account)) b = (Inr (hist account = []), gab_of (hist account))"
    using Cons.prems(3) p by auto
  define gm1 where "gm1 = (if hist account = [] then AList.delete account gm
      else AList.update account (gab_of (hist account)) gm)"
  have agg: "aggregates gm1 (full(account := hist account))"
    using aggregates_delete [OF Cons.prems(1), of account]
      aggregates_update [OF Cons.prems(1), of "hist account" account] by (simp add: gm1_def)
  have "\<exists>gm'. removed_loop upd gm1 bs = (None, gm') \<and> aggregates gm' hist"
  proof (rule Cons.IH [OF agg])
    show "distinct (map fst bs)" using Cons.prems(2) by simp
    fix a c assume ac: "(a, c) \<in> set bs"
    then have "a \<noteq> account" using Cons.prems(2) p by force
    with ac Cons.prems(3) [of a c] show "(full(account := hist account)) a \<noteq> [] \<and>
        upd (gab_of ((full(account := hist account)) a)) c = (Inr (hist a = []), gab_of (hist a))"
      by simp
  next
    fix a assume "a \<notin> fst ` set bs"
    with Cons.prems(4) [of a] p show "(full(account := hist account)) a = hist a" by auto
  qed
  then show ?case using gm upd by (cases "hist account = []") (simp_all add: p gm1_def)
qed

section \<open>Properties\<close>

text \<open>
  C31: compiling a block succeeds exactly when the nonces of every sender are consecutive in block
  order. On success every account of the block has the breadcrumb that describes it (its nonce range,
  and what it transfers and pays in fees), the other accounts have none, and the returned map gives
  the highest nonce of each sender; otherwise the error is the nonce gap.
\<close>

theorem compileBreadcrumbs_correct:
  "case compileBreadcrumbs (newTrackedBlock nonce hash prevHash) txs of
     (Inr lastNonces, tb) \<Rightarrow>
       (\<forall>a. consecutive (nonces_of a txs)) \<and>
       map_of (breadcrumbsByAddress tb) = spec_breadcrumb txs \<and>
       (\<forall>a. map_of lastNonces a = foldl opt_max None (nonces_of a txs))
   | (Inl e, tb) \<Rightarrow> e = errNonceGap \<and> (\<exists>a. \<not> consecutive (nonces_of a txs))"
proof -
  let ?tb = "newTrackedBlock nonce hash prevHash"
  have "\<forall>a. consecutive (nonces_of a [])" by (simp add: nonces_of_def)
  from compile_loop_represents [OF represents_new [of nonce hash prevHash] this, of txs "[]"]
    compile_loop_last_nonces [of ?tb "[]" txs]
  show ?thesis
    by (cases "compile_loop ?tb [] txs")
       (auto simp: compileBreadcrumbs_def represents_def split: sum.splits)
qed

end
