(* ===== verification/Sender_List.thy ===== *)
theory Sender_List
  imports Breadcrumbs
begin

text \<open>
  \<open>txListForSender.go\<close> and the sweeping of \<open>autoClean.go\<close>: the list of one sender with its byte count,
  its size constraints and the selection offset that hides the transactions already proposed. Of the
  selection tracker, these operations only ask \<open>IsTransactionTracked\<close>, which reads the global
  breadcrumbs; a nil tracker is \<open>None\<close>. The mutex of the list makes every operation atomic.
\<close>

section \<open>The list of a sender\<close>

text \<open>The argument is \<open>None\<close> for a nil wrapper or a wrapper without a transaction.\<close>

definition IsTransactionTracked ::
  "globalAccountBreadcrumbsCompiler \<Rightarrow> WrappedTransaction option \<Rightarrow> bool" where
  "IsTransactionTracked gabc transaction =
     (case transaction of
        None \<Rightarrow> False
      | Some tx \<Rightarrow>
          (case getGlobalBreadcrumbByAddress gabc (senderOf tx) of
             Inl _ \<Rightarrow> False
           | Inr gab \<Rightarrow>
               let minNonce = gab_firstNonce gab; maxNonce = gab_lastNonce gab
               in if \<not> optHasValue minNonce \<or> \<not> optHasValue maxNonce then False
                  else if nonceOf tx < optValue minNonce \<or> nonceOf tx > optValue maxNonce then False
                  else True))"

record txListForSender =
  sender :: bytes
  list :: orderedTransactionsList
  totalBytes :: int
  constraints :: senderConstraints
  selectionOffset :: int

definition newTxListForSender :: "bytes \<Rightarrow> senderConstraints \<Rightarrow> txListForSender" where
  "newTxListForSender s c =
     \<lparr>sender = s, list = newOrderedTransactionsList, totalBytes = 0, constraints = c, selectionOffset = 0\<rparr>"

text \<open>The conversion of a length (a non-negative \<open>int\<close>) to \<open>uint64\<close> is exact.\<close>

definition countTx :: "txListForSender \<Rightarrow> int" where
  "countTx l = otl_len (list l)"

definition isCapacityExceeded :: "txListForSender \<Rightarrow> bool" where
  "isCapacityExceeded l =
     (let tooManyBytes = totalBytes l > uint (maxNumBytes (constraints l));
          tooManyTxs = countTx l > uint (maxNumTxs (constraints l))
      in tooManyBytes \<or> tooManyTxs)"

definition onAddedTransaction :: "txListForSender \<Rightarrow> WrappedTransaction \<Rightarrow> txListForSender" where
  "onAddedTransaction l tx = l\<lparr>totalBytes := totalBytes l + Size tx\<rparr>"

definition onRemovedTransaction :: "txListForSender \<Rightarrow> WrappedTransaction \<Rightarrow> txListForSender" where
  "onRemovedTransaction l tx = l\<lparr>totalBytes := totalBytes l - Size tx\<rparr>"

text \<open>The loop goes from the back to the front; the last argument is the number of indices left,
  so the index is always in the list.\<close>

fun apply_loop ::
  "globalAccountBreadcrumbsCompiler \<Rightarrow> txListForSender \<Rightarrow> bytes list \<Rightarrow> nat \<Rightarrow>
   bytes list \<times> txListForSender" where
  "apply_loop tracker l evicted 0 = (evicted, l)"
| "apply_loop tracker l evicted (Suc i) =
     (if \<not> isCapacityExceeded l then (evicted, l)
      else case otl_get (list l) (int i) of
             None \<Rightarrow> apply_loop tracker l evicted i
           | Some tx \<Rightarrow>
               if \<not> IsTransactionTracked tracker (Some tx)
               then let l = l\<lparr>list := snd (removeAt (list l) (int i))\<rparr>;
                        l = onRemovedTransaction l tx;
                        l = (if int i < selectionOffset l
                             then l\<lparr>selectionOffset := selectionOffset l - 1\<rparr> else l)
                    in apply_loop tracker l (evicted @ [TxHash tx]) i
               else apply_loop tracker l evicted i)"

definition applySizeConstraints ::
  "globalAccountBreadcrumbsCompiler \<Rightarrow> txListForSender \<Rightarrow> bytes list \<times> txListForSender" where
  "applySizeConstraints tracker l = apply_loop tracker l [] (nat (otl_len (list l)))"

definition sl_AddTx ::
  "globalAccountBreadcrumbsCompiler option \<Rightarrow> txListForSender \<Rightarrow> WrappedTransaction \<Rightarrow>
   bool \<times> bytes list \<times> txListForSender" where
  "sl_AddTx tracker l tx =
     (case tracker of
        None \<Rightarrow> (False, [], l)
      | Some t \<Rightarrow>
          let insertionIndex = findInsertionIndex (list l) tx;
              (added, otl) = insertAt (list l) tx insertionIndex;
              l = l\<lparr>list := otl\<rparr>
          in if \<not> added then (False, [], l)
             else let l = (if insertionIndex < selectionOffset l
                           then l\<lparr>selectionOffset := selectionOffset l + 1\<rparr> else l);
                      l = onAddedTransaction l tx;
                      (evicted, l) = applySizeConstraints t l
                  in (True, evicted, l))"

definition sl_IsEmpty :: "txListForSender \<Rightarrow> bool" where
  "sl_IsEmpty l \<longleftrightarrow> countTx l = 0"

definition getTxs :: "txListForSender \<Rightarrow> WrappedTransaction list" where
  "getTxs l = getAll (list l)"

definition getTxsReversed :: "txListForSender \<Rightarrow> WrappedTransaction list" where
  "getTxsReversed l = rev (items (list l))"

definition decrementSelectionOffset :: "txListForSender \<Rightarrow> int \<Rightarrow> txListForSender" where
  "decrementSelectionOffset l n =
     (let l = l\<lparr>selectionOffset := selectionOffset l - n\<rparr>
      in if selectionOffset l < 0 then l\<lparr>selectionOffset := 0\<rparr> else l)"

definition incrementSelectionOffset :: "txListForSender \<Rightarrow> int \<Rightarrow> txListForSender" where
  "incrementSelectionOffset l n =
     (let l = l\<lparr>selectionOffset := selectionOffset l + n\<rparr>
      in if selectionOffset l > otl_len (list l) then l\<lparr>selectionOffset := otl_len (list l)\<rparr> else l)"

definition sl_removeTransactionsWithLowerOrEqualNonceReturnHashes ::
  "txListForSender \<Rightarrow> u64 \<Rightarrow> bytes list \<times> txListForSender" where
  "sl_removeTransactionsWithLowerOrEqualNonceReturnHashes l targetNonce =
     (let (removed, otl) = removeBeforeNonce (list l) targetNonce;
          l = foldl onRemovedTransaction (l\<lparr>list := otl\<rparr>) removed
      in (map TxHash removed, decrementSelectionOffset l (int (length removed))))"

definition sl_removeTransactionsWithHigherOrEqualNonce :: "txListForSender \<Rightarrow> u64 \<Rightarrow> txListForSender" where
  "sl_removeTransactionsWithHigherOrEqualNonce l givenNonce =
     (let (removed, otl) = removeAfterNonce (list l) givenNonce;
          l = foldl onRemovedTransaction (l\<lparr>list := otl\<rparr>) removed
      in if selectionOffset l > otl_len (list l) then l\<lparr>selectionOffset := otl_len (list l)\<rparr> else l)"

definition getTxsForSelection :: "txListForSender \<Rightarrow> WrappedTransaction list" where
  "getTxsForSelection l = getAllFromIndex (list l) (selectionOffset l)"

definition resetSelectionOffset :: "txListForSender \<Rightarrow> txListForSender" where
  "resetSelectionOffset l = l\<lparr>selectionOffset := 0\<rparr>"

definition resetSelectionOffsetByNonce :: "txListForSender \<Rightarrow> u64 \<Rightarrow> txListForSender" where
  "resetSelectionOffsetByNonce l startNonce = l\<lparr>selectionOffset := findIndexByNonce (list l) startNonce\<rparr>"

definition getSelectionOffset :: "txListForSender \<Rightarrow> int" where
  "getSelectionOffset l = selectionOffset l"

text \<open>The sweep: the cutoff is the first index above the target nonce; below it only the tracked
  transactions are kept.\<close>

fun sweep_cutoff :: "u64 \<Rightarrow> nat \<Rightarrow> WrappedTransaction list \<Rightarrow> nat" where
  "sweep_cutoff targetNonce i [] = i"
| "sweep_cutoff targetNonce i (tx # txs) =
     (if nonceOf tx > targetNonce then i else sweep_cutoff targetNonce (i + 1) txs)"

fun sweep_loop ::
  "globalAccountBreadcrumbsCompiler \<Rightarrow> txListForSender \<Rightarrow> WrappedTransaction list \<Rightarrow> bytes list \<Rightarrow>
   WrappedTransaction list \<Rightarrow> bytes list \<times> WrappedTransaction list \<times> txListForSender" where
  "sweep_loop tracker l keptItems evict [] = (evict, keptItems, l)"
| "sweep_loop tracker l keptItems evict (tx # txs) =
     (if \<not> IsTransactionTracked tracker (Some tx)
      then sweep_loop tracker (onRemovedTransaction l tx) keptItems (evict @ [TxHash tx]) txs
      else sweep_loop tracker l (keptItems @ [tx]) evict txs)"

definition removeSweepableTransactionsReturnHashes ::
  "globalAccountBreadcrumbsCompiler \<Rightarrow> txListForSender \<Rightarrow> u64 \<Rightarrow> bytes list \<times> txListForSender" where
  "removeSweepableTransactionsReturnHashes tracker l targetNonce =
     (let its = items (list l);
          cutoffIndex = sweep_cutoff targetNonce 0 its;
          (evict, keptItems, l) = sweep_loop tracker l [] [] (take cutoffIndex its)
      in (evict, l\<lparr>list := (list l)\<lparr>items := keptItems @ drop cutoffIndex its\<rparr>\<rparr>))"

section \<open>The invariant\<close>

abbreviation txs_of :: "txListForSender \<Rightarrow> WrappedTransaction list" where
  "txs_of l \<equiv> items (list l)"

definition bytes_of :: "WrappedTransaction list \<Rightarrow> int" where
  "bytes_of txs = sum_list (map Size txs)"

definition sl_inv :: "txListForSender \<Rightarrow> bool" where
  "sl_inv l \<longleftrightarrow>
     ordered (txs_of l) \<and> (\<forall>tx \<in> set (txs_of l). senderOf tx = sender l) \<and>
     totalBytes l = bytes_of (txs_of l) \<and> 0 \<le> selectionOffset l"

text \<open>The offset points into the list; only the sweep may break this.\<close>

definition aligned :: "txListForSender \<Rightarrow> bool" where
  "aligned l \<longleftrightarrow> selectionOffset l \<le> int (length (txs_of l))"

text \<open>The transactions hidden from and visible to the selection.\<close>

definition hidden :: "txListForSender \<Rightarrow> WrappedTransaction list" where
  "hidden l = take (nat (selectionOffset l)) (txs_of l)"

definition visible :: "txListForSender \<Rightarrow> WrappedTransaction list" where
  "visible l = drop (nat (selectionOffset l)) (txs_of l)"

lemma bytes_of_simps [simp]:
  "bytes_of [] = 0" "bytes_of (tx # txs) = Size tx + bytes_of txs" "bytes_of (xs @ ys) = bytes_of xs + bytes_of ys"
  by (simp_all add: bytes_of_def)

lemma bytes_of_mset: "mset xs = mset ys \<Longrightarrow> bytes_of xs = bytes_of ys"
  unfolding bytes_of_def by (metis mset_map sum_mset_sum_list)

lemma visible_selection: "sl_inv l \<Longrightarrow> getTxsForSelection l = visible l"
  by (simp add: getTxsForSelection_def getAllFromIndex_def visible_def sl_inv_def Let_def)

lemma foldl_onRemoved:
  "foldl onRemovedTransaction l removed = l\<lparr>totalBytes := totalBytes l - bytes_of removed\<rparr>"
  by (induction removed arbitrary: l) (simp_all add: onRemovedTransaction_def)

lemma sl_inv_new [simp]: "sl_inv (newTxListForSender s c)" "aligned (newTxListForSender s c)"
  by (simp_all add: newTxListForSender_def sl_inv_def aligned_def newOrderedTransactionsList_def)

section \<open>Removals by nonce\<close>

text \<open>Filtering a suffix of a list that is split by the predicate.\<close>

lemma filter_drop_split:
  assumes "\<forall>x \<in> set ys. \<not> Q x" and "\<forall>x \<in> set zs. Q x"
  shows "filter Q (drop j (ys @ zs)) = drop (j - length ys) zs"
    and "filter (\<lambda>x. \<not> Q x) (drop j (ys @ zs)) = drop j ys"
proof -
  have "\<forall>x \<in> set (drop j ys). \<not> Q x" "\<forall>x \<in> set (drop (j - length ys) zs). Q x"
    using assms by (meson in_set_dropD)+
  then show "filter Q (drop j (ys @ zs)) = drop (j - length ys) zs"
    and "filter (\<lambda>x. \<not> Q x) (drop j (ys @ zs)) = drop j ys"
    by (simp_all add: filter_empty_conv)
qed

lemma ordered_split:
  assumes "sl_inv l" and up: "\<And>m m' :: u64. Q m \<Longrightarrow> m \<le> m' \<Longrightarrow> Q m'"
  obtains ys zs where "txs_of l = ys @ zs" "\<forall>tx \<in> set ys. \<not> Q (nonceOf tx)" "\<forall>tx \<in> set zs. Q (nonceOf tx)"
    and "filter (\<lambda>tx. \<not> Q (nonceOf tx)) (txs_of l) = ys" "filter (\<lambda>tx. Q (nonceOf tx)) (txs_of l) = zs"
proof -
  let ?xs = "txs_of l" and ?P = "\<lambda>tx. \<not> Q (nonceOf tx)"
  have "sorted (map nonceOf ?xs)" using assms(1) by (simp add: sl_inv_def ordered_nonces)
  then have "sorted_wrt (\<lambda>a b. nonceOf a \<le> nonceOf b) ?xs" by (simp add: sorted_map)
  then have "sorted_wrt (\<lambda>a b. ?P b \<longrightarrow> ?P a) ?xs" by (rule sorted_wrt_mono_rel [rotated]) (use up in blast)
  note tw = takeWhile_filter_prefix [OF this]
  have "takeWhile ?P ?xs @ dropWhile ?P ?xs = ?xs" by simp
  then have "?xs = filter ?P ?xs @ filter (\<lambda>tx. Q (nonceOf tx)) ?xs" unfolding tw by simp
  then show thesis by (rule that) simp_all
qed

lemma removeLower_result:
  assumes inv: "sl_inv l" and res: "sl_removeTransactionsWithLowerOrEqualNonceReturnHashes l n = (hashes, l')"
  shows "sl_inv l'" and "aligned l \<Longrightarrow> aligned l'"
    and "txs_of l' = filter (\<lambda>tx. n < nonceOf tx) (txs_of l)"
    and "hashes = map TxHash (filter (\<lambda>tx. nonceOf tx \<le> n) (txs_of l))"
    and "visible l' = filter (\<lambda>tx. n < nonceOf tx) (visible l)"
    and "sender l' = sender l \<and> constraints l' = constraints l"
proof -
  have ord: "ordered (txs_of l)" using inv by (simp add: sl_inv_def)
  obtain ys zs where sp: "txs_of l = ys @ zs" "\<forall>tx \<in> set ys. nonceOf tx \<le> n" "\<forall>tx \<in> set zs. n < nonceOf tx"
    and fl: "filter (\<lambda>tx. nonceOf tx \<le> n) (txs_of l) = ys" "filter (\<lambda>tx. n < nonceOf tx) (txs_of l) = zs"
    by (rule ordered_split [OF inv, of "\<lambda>m. n < m", OF order_less_le_trans, unfolded not_less])
  from res have l': "hashes = map TxHash ys" "txs_of l' = zs" "totalBytes l' = totalBytes l - bytes_of ys"
    "selectionOffset l' = max 0 (selectionOffset l - int (length ys))" "sender l' = sender l"
    "constraints l' = constraints l"
    by (auto simp: sl_removeTransactionsWithLowerOrEqualNonceReturnHashes_def removeBeforeNonce_filter ord fl
        foldl_onRemoved decrementSelectionOffset_def Let_def max_def)
  show "sl_inv l'" using inv ord l' sp(1) by (auto simp: sl_inv_def txcmp.increasing_append)
  show "aligned l \<Longrightarrow> aligned l'" using l' sp(1) by (auto simp: aligned_def)
  show "txs_of l' = filter (\<lambda>tx. n < nonceOf tx) (txs_of l)"
    "hashes = map TxHash (filter (\<lambda>tx. nonceOf tx \<le> n) (txs_of l))" using l' fl by simp_all
  have "nat (selectionOffset l') = nat (selectionOffset l) - length ys" using l'(4) by simp
  then show "visible l' = filter (\<lambda>tx. n < nonceOf tx) (visible l)"
    using filter_drop_split(1) [of ys "\<lambda>tx. n < nonceOf tx" zs] sp l'(2) by (simp add: visible_def not_less)
  show "sender l' = sender l \<and> constraints l' = constraints l" using l' by simp
qed

lemma removeHigher_result:
  assumes inv: "sl_inv l" and res: "l' = sl_removeTransactionsWithHigherOrEqualNonce l n"
  shows "sl_inv l'" and "aligned l'"
    and "txs_of l' = filter (\<lambda>tx. nonceOf tx < n) (txs_of l)"
    and "visible l' = filter (\<lambda>tx. nonceOf tx < n) (visible l)"
    and "sender l' = sender l \<and> constraints l' = constraints l"
proof -
  have ord: "ordered (txs_of l)" using inv by (simp add: sl_inv_def)
  obtain ys zs where sp: "txs_of l = ys @ zs" "\<forall>tx \<in> set ys. nonceOf tx < n" "\<forall>tx \<in> set zs. n \<le> nonceOf tx"
    and fl: "filter (\<lambda>tx. nonceOf tx < n) (txs_of l) = ys" "filter (\<lambda>tx. n \<le> nonceOf tx) (txs_of l) = zs"
    by (rule ordered_split [OF inv, of "\<lambda>m. n \<le> m", OF order_trans, unfolded not_le])
  from res have l': "txs_of l' = ys" "totalBytes l' = totalBytes l - bytes_of zs"
    "selectionOffset l' = min (selectionOffset l) (int (length ys))" "sender l' = sender l"
    "constraints l' = constraints l"
    by (auto simp: sl_removeTransactionsWithHigherOrEqualNonce_def removeAfterNonce_filter ord fl
        foldl_onRemoved otl_len_def Let_def)
  show "sl_inv l'" using inv ord l' sp(1) by (auto simp: sl_inv_def txcmp.increasing_append)
  show "aligned l'" using l' by (simp add: aligned_def)
  show "txs_of l' = filter (\<lambda>tx. nonceOf tx < n) (txs_of l)" using l' fl by simp
  show "visible l' = filter (\<lambda>tx. nonceOf tx < n) (visible l)"
    using filter_drop_split(2) [of ys "\<lambda>tx. n \<le> nonceOf tx" zs] sp l' by (simp add: visible_def not_le min_def)
  show "sender l' = sender l \<and> constraints l' = constraints l" using l' by simp
qed

lemma resetOffsetByNonce_result:
  assumes inv: "sl_inv l"
  shows "sl_inv (resetSelectionOffsetByNonce l n)" and "aligned (resetSelectionOffsetByNonce l n)"
    and "visible (resetSelectionOffsetByNonce l n) = filter (\<lambda>tx. n \<le> nonceOf tx) (txs_of l)"
proof -
  let ?xs = "txs_of l" and ?P = "\<lambda>tx. nonceOf tx < n"
  have s: "sorted (map nonceOf ?xs)" using inv by (simp add: sl_inv_def ordered_nonces)
  have off: "selectionOffset (resetSelectionOffsetByNonce l n) = int (length (takeWhile ?P ?xs))"
    by (simp add: resetSelectionOffsetByNonce_def findIndexByNonce_sorted [OF s])
  have l: "txs_of (resetSelectionOffsetByNonce l n) = ?xs" by (simp add: resetSelectionOffsetByNonce_def)
  show "sl_inv (resetSelectionOffsetByNonce l n)"
    using inv by (simp add: sl_inv_def resetSelectionOffsetByNonce_def findIndexByNonce_sorted [OF s])
  show "aligned (resetSelectionOffsetByNonce l n)" by (simp add: aligned_def off l length_takeWhile_le)
  show "visible (resetSelectionOffsetByNonce l n) = filter (\<lambda>tx. n \<le> nonceOf tx) ?xs"
    by (simp add: visible_def off l dropWhile_eq_drop [symmetric] sorted_takeWhile_filter(4) [OF s])
qed

section \<open>Adding under size constraints\<close>

text \<open>Removing one element keeps the others on their side of an offset that follows.\<close>

lemma offset_after_removal:
  fixes as bs :: "'a list"
  defines "k1 \<equiv> (\<lambda>k. if length as < k then k - 1 else k)"
  shows "set (take (k1 k) (as @ bs)) \<subseteq> set (take k (as @ x # bs))"
    and "set (drop (k1 k) (as @ bs)) \<subseteq> set (drop k (as @ x # bs))"
proof -
  have "k - 1 - length as = k - length as - 1" by simp
  then show "set (take (k1 k) (as @ bs)) \<subseteq> set (take k (as @ x # bs))"
    and "set (drop (k1 k) (as @ bs)) \<subseteq> set (drop k (as @ x # bs))"
    by (cases "k - length as"; auto simp: k1_def)+
qed

lemma apply_loop_result:
  assumes "apply_loop t l ev i = (ev', l')" and "sl_inv l" and "i \<le> length (txs_of l)"
    and "\<forall>tx \<in> set (drop i (txs_of l)). IsTransactionTracked t (Some tx)"
  shows "sl_inv l' \<and> (aligned l \<longrightarrow> aligned l') \<and> sender l' = sender l \<and> constraints l' = constraints l \<and>
    (\<exists>removed. mset (txs_of l) = mset (txs_of l') + mset removed \<and> ev' = ev @ map TxHash removed \<and>
      (\<forall>tx \<in> set removed. \<not> IsTransactionTracked t (Some tx))) \<and>
    set (hidden l') \<subseteq> set (hidden l) \<and> set (visible l') \<subseteq> set (visible l) \<and>
    (isCapacityExceeded l' \<longrightarrow> (\<forall>tx \<in> set (txs_of l'). IsTransactionTracked t (Some tx)))"
  using assms
proof (induction i arbitrary: l ev)
  case 0
  then show ?case by (auto intro!: exI [of _ "[]"])
next
  case (Suc i)
  note IH = Suc.IH
  let ?xs = "txs_of l" and ?tx = "txs_of l ! i"
  have i: "i < length ?xs" using Suc.prems(3) by simp
  have get: "otl_get (list l) (int i) = Some ?tx" using i by (simp add: otl_get_def)
  show ?case
  proof (cases "isCapacityExceeded l")
    case False
    with Suc.prems show ?thesis by (auto intro!: exI [of _ "[]"])
  next
    case exc: True
    have di: "drop i ?xs = ?tx # drop (Suc i) ?xs" using i by (rule Cons_nth_drop_Suc [symmetric])
    show ?thesis
    proof (cases "IsTransactionTracked t (Some ?tx)")
      case True
      have "\<forall>tx \<in> set (drop i ?xs). IsTransactionTracked t (Some tx)" using Suc.prems(4) True di by simp
      moreover have "apply_loop t l ev i = (ev', l')" using Suc.prems(1) exc get True by simp
      ultimately show ?thesis using IH [of l ev] Suc.prems(2) i by simp
    next
      case False
      define l1 where "l1 = l\<lparr>list := (list l)\<lparr>items := take i ?xs @ drop (Suc i) ?xs\<rparr>,
          totalBytes := totalBytes l - Size ?tx,
          selectionOffset := (if int i < selectionOffset l then selectionOffset l - 1 else selectionOffset l)\<rparr>"
      have loop: "apply_loop t l1 (ev @ [TxHash ?tx]) i = (ev', l')"
        using Suc.prems(1) exc get False i
        by (auto simp: l1_def removeAt_def onRemovedTransaction_def Let_def split: if_splits)
      have xs: "?xs = take i ?xs @ ?tx # drop (Suc i) ?xs" using i by (rule id_take_nth_drop)
      have xs1: "txs_of l1 = take i ?xs @ drop (Suc i) ?xs" by (simp add: l1_def)
      have mset: "mset ?xs = add_mset ?tx (mset (txs_of l1))"
        by (subst xs) (simp add: xs1)
      have "bytes_of ?xs = Size ?tx + bytes_of (txs_of l1)" by (subst xs) (simp add: xs1)
      moreover have "ordered (txs_of l1)"
        using Suc.prems(2) unfolding sl_inv_def by (subst (asm) (1) xs) (simp add: xs1 txcmp.increasing_append)
      moreover have "set (txs_of l1) \<subseteq> set ?xs" by (auto simp: xs1 dest: in_set_takeD in_set_dropD)
      ultimately have inv1: "sl_inv l1" using Suc.prems(2) by (auto simp: sl_inv_def l1_def)
      have off: "0 \<le> selectionOffset l" using Suc.prems(2) by (simp add: sl_inv_def)
      have al1: "aligned l \<Longrightarrow> aligned l1" using i by (auto simp: aligned_def l1_def)
      have hid: "set (hidden l1) \<subseteq> set (hidden l)" and vis: "set (visible l1) \<subseteq> set (visible l)"
      proof -
        define o' where "o' = nat (selectionOffset l)"
        have o: "int i < selectionOffset l \<longleftrightarrow> i < o'" using off by (simp add: o'_def zless_nat_eq_int_zless)
        have o1: "nat (selectionOffset l1) = (if i < o' then o' - 1 else o')"
          using o off by (auto simp: l1_def o'_def)
        show "set (hidden l1) \<subseteq> set (hidden l)"
          unfolding hidden_def o1 xs1 o'_def [symmetric]
          using offset_after_removal(1) [of "take i ?xs" o' "drop (Suc i) ?xs" ?tx, folded xs] i by simp
        show "set (visible l1) \<subseteq> set (visible l)"
          unfolding visible_def o1 xs1 o'_def [symmetric]
          using offset_after_removal(2) [of "take i ?xs" o' "drop (Suc i) ?xs" ?tx, folded xs] i by simp
      qed
      have tr: "\<forall>tx \<in> set (drop i (txs_of l1)). IsTransactionTracked t (Some tx)"
        using Suc.prems(4) i by (simp add: xs1)
      have "\<exists>removed. mset (txs_of l1) = mset (txs_of l') + mset removed \<and>
          ev' = (ev @ [TxHash ?tx]) @ map TxHash removed \<and>
          (\<forall>tx \<in> set removed. \<not> IsTransactionTracked t (Some tx))"
        and rest: "sl_inv l'" "aligned l1 \<longrightarrow> aligned l'" "sender l' = sender l1" "constraints l' = constraints l1"
          "set (hidden l') \<subseteq> set (hidden l1)" "set (visible l') \<subseteq> set (visible l1)"
          "isCapacityExceeded l' \<longrightarrow> (\<forall>tx \<in> set (txs_of l'). IsTransactionTracked t (Some tx))"
        using IH [OF loop inv1 _ tr] i by (simp_all add: xs1)
      then obtain removed where "mset (txs_of l1) = mset (txs_of l') + mset removed"
          "ev' = (ev @ [TxHash ?tx]) @ map TxHash removed"
          "\<forall>tx \<in> set removed. \<not> IsTransactionTracked t (Some tx)" by blast
      then have ex: "\<exists>removed. mset ?xs = mset (txs_of l') + mset removed \<and> ev' = ev @ map TxHash removed \<and>
          (\<forall>tx \<in> set removed. \<not> IsTransactionTracked t (Some tx))"
        using mset False by (intro exI [of _ "?tx # removed"]) simp
      have "sender l1 = sender l" "constraints l1 = constraints l" by (simp_all add: l1_def)
      with rest(3,4) have "sender l' = sender l" "constraints l' = constraints l" by simp_all
      with ex rest(1,2,7) al1 subset_trans [OF rest(5) hid] subset_trans [OF rest(6) vis] show ?thesis by blast
    qed
  qed
qed

lemma offset_after_insertion:
  "set (take (if length as < k then k + 1 else k) (as @ x # bs)) \<subseteq> insert x (set (take k (as @ bs)))"
  "set (drop (if length as < k then k + 1 else k) (as @ x # bs)) \<subseteq> insert x (set (drop k (as @ bs)))"
proof -
  have "k + 1 - length as = Suc (k - length as)" if "length as < k" using that by simp
  then show "set (take (if length as < k then k + 1 else k) (as @ x # bs)) \<subseteq> insert x (set (take k (as @ bs)))"
    "set (drop (if length as < k then k + 1 else k) (as @ x # bs)) \<subseteq> insert x (set (drop k (as @ bs)))"
    by auto
qed

lemma insert_step:
  assumes inv: "sl_inv l" and tx: "senderOf tx = sender l"
    and ins: "insertAt (list l) tx idx = (True, otl)" and idx: "idx = findInsertionIndex (list l) tx"
    and l1: "l1 = onAddedTransaction (l\<lparr>list := otl, selectionOffset :=
      (if idx < selectionOffset l then selectionOffset l + 1 else selectionOffset l)\<rparr>) tx"
  shows "sl_inv l1" "aligned l \<Longrightarrow> aligned l1" "mset (txs_of l1) = add_mset tx (mset (txs_of l))"
    "set (hidden l1) \<subseteq> insert tx (set (hidden l))" "set (visible l1) \<subseteq> insert tx (set (visible l))"
proof -
  let ?xs = "txs_of l"
  have ord: "ordered ?xs" using inv by (simp add: sl_inv_def)
  note res = insertAt_result [OF ord ins [unfolded idx]]
  have b: "0 \<le> idx" "idx \<le> int (length ?xs)" using findInsertionIndex_bounds [OF ord] idx by auto
  define i where "i = nat idx"
  have i: "idx = int i" "i \<le> length ?xs" using b by (simp_all add: i_def)
  have otl: "items otl = take i ?xs @ tx # drop i ?xs"
    using ins i by (auto simp: insertAt_def split: if_splits)
  have off: "0 \<le> selectionOffset l" using inv by (simp add: sl_inv_def)
  show m: "mset (txs_of l1) = add_mset tx (mset ?xs)" using res(3) by (simp add: l1 onAddedTransaction_def)
  then have "bytes_of (txs_of l1) = Size tx + bytes_of ?xs" using bytes_of_mset [of "txs_of l1" "tx # ?xs"] by simp
  moreover have "set (txs_of l1) = insert tx (set ?xs)" using m by (metis set_mset_add_mset_insert set_mset_mset)
  ultimately show "sl_inv l1"
    using inv res(2) off tx unfolding sl_inv_def by (simp add: l1 onAddedTransaction_def)
  have len: "length (items otl) = Suc (length ?xs)" using otl i(2) by simp
  show "aligned l \<Longrightarrow> aligned l1" using len by (simp add: aligned_def l1 onAddedTransaction_def)
  define k where "k = nat (selectionOffset l)"
  have k1: "nat (selectionOffset l1) = (if i < k then k + 1 else k)"
    using off i by (auto simp: l1 onAddedTransaction_def k_def zless_nat_eq_int_zless)
  have t1: "txs_of l1 = take i ?xs @ tx # drop i ?xs" using otl by (simp add: l1 onAddedTransaction_def)
  show "set (hidden l1) \<subseteq> insert tx (set (hidden l))" "set (visible l1) \<subseteq> insert tx (set (visible l))"
    using offset_after_insertion [where as = "take i ?xs" and bs = "drop i ?xs" and k = k and x = tx] i(2)
    unfolding hidden_def visible_def k1 t1 k_def [symmetric] by simp_all
qed

lemma AddTx_result:
  assumes inv: "sl_inv l" and tx: "senderOf tx = sender l"
    and add: "sl_AddTx (Some t) l tx = (added, evicted, l')"
  shows "added \<longleftrightarrow> (\<forall>y \<in> set (txs_of l). compareTxs y tx \<noteq> 0)"
    and "\<not> added \<Longrightarrow> evicted = [] \<and> l' = l"
    and "added \<Longrightarrow> \<exists>removed. add_mset tx (mset (txs_of l)) = mset (txs_of l') + mset removed \<and>
      evicted = map TxHash removed \<and> (\<forall>r \<in> set removed. \<not> IsTransactionTracked t (Some r))"
    and "added \<Longrightarrow> isCapacityExceeded l' \<Longrightarrow> \<forall>r \<in> set (txs_of l'). IsTransactionTracked t (Some r)"
    and "sl_inv l' \<and> (aligned l \<longrightarrow> aligned l') \<and> sender l' = sender l \<and> constraints l' = constraints l"
    and "set (hidden l') \<subseteq> insert tx (set (hidden l)) \<and> set (visible l') \<subseteq> insert tx (set (visible l))"
proof -
  define idx where "idx = findInsertionIndex (list l) tx"
  obtain ad otl where ins: "insertAt (list l) tx idx = (ad, otl)" by fastforce
  have ord: "ordered (txs_of l)" using inv by (simp add: sl_inv_def)
  note res = insertAt_result(1) [OF ord ins [unfolded idx_def]]
  define l1 where "l1 = onAddedTransaction (l\<lparr>list := otl, selectionOffset :=
      (if idx < selectionOffset l then selectionOffset l + 1 else selectionOffset l)\<rparr>) tx"
  have l1': "l1 = onAddedTransaction (let l = l\<lparr>list := otl\<rparr> in if idx < selectionOffset l
      then l\<lparr>selectionOffset := selectionOffset l + 1\<rparr> else l) tx" by (simp add: l1_def)
  have ad: "added = ad" and no: "\<not> ad \<Longrightarrow> evicted = [] \<and> l' = l"
    and yes: "ad \<Longrightarrow> apply_loop t l1 [] (length (txs_of l1)) = (evicted, l')"
    using add ins unfolding sl_AddTx_def idx_def [symmetric] l1'
    by (auto simp: insertAt_def applySizeConstraints_def otl_len_def Let_def split: if_splits prod.splits)
  show "added \<longleftrightarrow> (\<forall>y \<in> set (txs_of l). compareTxs y tx \<noteq> 0)" using res ad by simp
  show "\<not> added \<Longrightarrow> evicted = [] \<and> l' = l" using no ad by simp
  have sc: "sender l1 = sender l" "constraints l1 = constraints l" by (simp_all add: l1_def onAddedTransaction_def)
  have A: "sl_inv l' \<and> (aligned l \<longrightarrow> aligned l') \<and> sender l' = sender l \<and> constraints l' = constraints l \<and>
    (\<exists>removed. add_mset tx (mset (txs_of l)) = mset (txs_of l') + mset removed \<and> evicted = map TxHash removed \<and>
      (\<forall>r \<in> set removed. \<not> IsTransactionTracked t (Some r))) \<and>
    set (hidden l') \<subseteq> insert tx (set (hidden l)) \<and> set (visible l') \<subseteq> insert tx (set (visible l)) \<and>
    (isCapacityExceeded l' \<longrightarrow> (\<forall>r \<in> set (txs_of l'). IsTransactionTracked t (Some r)))" if "ad"
  proof -
    note st = insert_step [OF inv tx ins [unfolded that [THEN eqTrueI]] idx_def l1_def]
    from apply_loop_result [OF yes [OF that] st(1)]
    show ?thesis using st(2,4,5) unfolding st(3) sc by auto
  qed
  show "added \<Longrightarrow> \<exists>removed. add_mset tx (mset (txs_of l)) = mset (txs_of l') + mset removed \<and>
      evicted = map TxHash removed \<and> (\<forall>r \<in> set removed. \<not> IsTransactionTracked t (Some r))"
    and "added \<Longrightarrow> isCapacityExceeded l' \<Longrightarrow> \<forall>r \<in> set (txs_of l'). IsTransactionTracked t (Some r)"
    using A ad by blast+
  show "sl_inv l' \<and> (aligned l \<longrightarrow> aligned l') \<and> sender l' = sender l \<and> constraints l' = constraints l"
    and "set (hidden l') \<subseteq> insert tx (set (hidden l)) \<and> set (visible l') \<subseteq> insert tx (set (visible l))"
    using A no inv by (cases ad; auto)+
qed

section \<open>Sweeping\<close>

lemma sweep_cutoff_takeWhile: "sweep_cutoff n i xs = i + length (takeWhile (\<lambda>tx. nonceOf tx \<le> n) xs)"
  by (induction n i xs rule: sweep_cutoff.induct) auto

lemma sweep_loop_result:
  "sweep_loop t l kept ev txs =
     (ev @ map TxHash (filter (\<lambda>tx. \<not> IsTransactionTracked t (Some tx)) txs),
      kept @ filter (\<lambda>tx. IsTransactionTracked t (Some tx)) txs,
      l\<lparr>totalBytes := totalBytes l - bytes_of (filter (\<lambda>tx. \<not> IsTransactionTracked t (Some tx)) txs)\<rparr>)"
  by (induction t l kept ev txs rule: sweep_loop.induct) (simp_all add: onRemovedTransaction_def)

lemma bytes_of_partition: "bytes_of (filter P xs) + bytes_of (filter (\<lambda>x. \<not> P x) xs) = bytes_of xs"
  by (induction xs) auto

text \<open>The sweep removes exactly the untracked transactions up to the target nonce; the selection
  offset stays what it was.\<close>

lemma sweep_result:
  assumes inv: "sl_inv l" and res: "removeSweepableTransactionsReturnHashes t l n = (hashes, l')"
  defines "swept \<equiv> (\<lambda>tx. nonceOf tx \<le> n \<and> \<not> IsTransactionTracked t (Some tx))"
  shows "hashes = map TxHash (filter swept (txs_of l))" and "txs_of l' = filter (\<lambda>tx. \<not> swept tx) (txs_of l)"
    and "sl_inv l'" and "selectionOffset l' = selectionOffset l"
    and "sender l' = sender l \<and> constraints l' = constraints l"
proof -
  let ?xs = "txs_of l" and ?T = "\<lambda>tx. IsTransactionTracked t (Some tx)"
  obtain ys zs where sp: "?xs = ys @ zs" "\<forall>tx \<in> set ys. nonceOf tx \<le> n" "\<forall>tx \<in> set zs. n < nonceOf tx"
    and fl: "filter (\<lambda>tx. nonceOf tx \<le> n) ?xs = ys" "filter (\<lambda>tx. n < nonceOf tx) ?xs = zs"
    by (rule ordered_split [OF inv, of "\<lambda>m. n < m", OF order_less_le_trans, unfolded not_less])
  have "takeWhile (\<lambda>tx. nonceOf tx \<le> n) ?xs = ys"
    using sorted_takeWhile_filter(1) [of ?xs n] inv fl(1) by (simp add: sl_inv_def ordered_nonces)
  then have cut: "sweep_cutoff n 0 ?xs = length ys" by (simp add: sweep_cutoff_takeWhile)
  have fys: "filter swept ?xs = filter (\<lambda>tx. \<not> ?T tx) ys" "filter (\<lambda>tx. \<not> swept tx) ?xs = filter ?T ys @ zs"
  proof -
    have "filter swept ys = filter (\<lambda>tx. \<not> ?T tx) ys" "filter (\<lambda>tx. \<not> swept tx) ys = filter ?T ys"
      using sp(2) by (auto simp: swept_def cong: filter_cong)
    moreover have "filter swept zs = []" "filter (\<lambda>tx. \<not> swept tx) zs = zs"
      using sp(3) by (force simp: swept_def filter_empty_conv filter_id_conv)+
    ultimately show "filter swept ?xs = filter (\<lambda>tx. \<not> ?T tx) ys" "filter (\<lambda>tx. \<not> swept tx) ?xs = filter ?T ys @ zs"
      unfolding sp(1) by simp_all
  qed
  have td: "take (sweep_cutoff n 0 ?xs) ?xs = ys" "drop (sweep_cutoff n 0 ?xs) ?xs = zs"
    unfolding cut by (simp_all add: sp(1))
  from res have l': "hashes = map TxHash (filter (\<lambda>tx. \<not> ?T tx) ys)" "txs_of l' = filter ?T ys @ zs"
    "totalBytes l' = totalBytes l - bytes_of (filter (\<lambda>tx. \<not> ?T tx) ys)" "selectionOffset l' = selectionOffset l"
    "sender l' = sender l" "constraints l' = constraints l"
    by (auto simp: removeSweepableTransactionsReturnHashes_def td sweep_loop_result Let_def)
  show "hashes = map TxHash (filter swept ?xs)" "txs_of l' = filter (\<lambda>tx. \<not> swept tx) ?xs"
    "selectionOffset l' = selectionOffset l" "sender l' = sender l \<and> constraints l' = constraints l"
    using l' fys by simp_all
  have "totalBytes l' = bytes_of (txs_of l')"
    using inv l'(2,3) bytes_of_partition [of ?T ys] by (simp add: sl_inv_def sp(1))
  moreover have "ordered (txs_of l')"
    using inv txcmp.increasing_filter [of ?xs "\<lambda>tx. \<not> swept tx"] l'(2) fys(2) by (simp add: sl_inv_def)
  ultimately show "sl_inv l'" using inv l' sp(1) by (auto simp: sl_inv_def)
qed

section \<open>Properties\<close>

text \<open>A sender list of two transactions, the first one already proposed.\<close>

definition sample_sl_tx :: "u64 \<Rightarrow> WrappedTransaction" where
  "sample_sl_tx n =
     \<lparr>Tx = \<lparr>GetNonce = n, GetSndAddr = Some [1], GetGasLimit = 50, GetGasPrice = 1,
            GetData = [], GetRelayerAddr = None\<rparr>,
      TxHash = [1, ucast n], SenderShardID = 0, ReceiverShardID = 0, Size = 100, ReceivedAt = 0,
      Fee = Some 50, PricePerUnit = 1, TransferredValue = Some 7, FeePayer = Some [1]\<rparr>"

definition sample_sl :: txListForSender where
  "sample_sl =
     \<lparr>sender = [1], list = \<lparr>items = [sample_sl_tx 4, sample_sl_tx 5]\<rparr>, totalBytes = 200,
      constraints = \<lparr>maxNumTxs = 2, maxNumBytes = 1000\<rparr>, selectionOffset = 1\<rparr>"

definition sample_sl_tracker :: globalAccountBreadcrumbsCompiler where
  "sample_sl_tracker =
     \<lparr>globalAccountBreadcrumbs =
        [([1], \<lparr>gab_firstNonce = someNonce 4, gab_lastNonce = someNonce 4, gab_consumedBalance = 57\<rparr>)]\<rparr>"

lemma sample_sl_inv: "sl_inv sample_sl" "aligned sample_sl"
  by (simp_all add: sl_inv_def aligned_def sample_sl_def sample_sl_tx_def compareTxs_def)

text \<open>
  Adding a transaction to the list of its sender. It is refused exactly when the list holds one
  with the same nonce, gas price and hash. When it is added, the list keeps the execution order and the
  byte count, no earlier transaction moves between the part hidden from selection and the visible part,
  only untracked transactions are evicted (their hashes are returned), and the size constraints hold
  afterwards unless everything left is tracked.
\<close>

theorem sender_list_AddTx:
  assumes "sl_inv l" and "aligned l" and "senderOf tx = sender l"
    and "sl_AddTx (Some t) l tx = (added, evicted, l')"
  shows "(added \<longleftrightarrow> (\<forall>y \<in> set (txs_of l). compareTxs y tx \<noteq> 0)) \<and>
    sl_inv l' \<and> aligned l' \<and>
    (if added then
       (\<exists>removed. add_mset tx (mset (txs_of l)) = mset (txs_of l') + mset removed \<and>
          evicted = map TxHash removed \<and> (\<forall>r \<in> set removed. \<not> IsTransactionTracked t (Some r))) \<and>
       (isCapacityExceeded l' \<longrightarrow> (\<forall>r \<in> set (txs_of l'). IsTransactionTracked t (Some r)))
     else evicted = [] \<and> l' = l) \<and>
    set (hidden l') \<subseteq> insert tx (set (hidden l)) \<and> set (visible l') \<subseteq> insert tx (set (visible l))"
  using AddTx_result [OF assms(1,3,4)] assms(2) by simp

theorem sender_list_AddTx_witness:
  "\<exists>l'. sl_AddTx (Some sample_sl_tracker) sample_sl (sample_sl_tx 6) = (True, [[1, 6]], l') \<and>
     sl_inv l' \<and> aligned l' \<and> set (visible l') \<subseteq> insert (sample_sl_tx 6) (set (visible sample_sl))"
proof -
  have "fst (sl_AddTx (Some sample_sl_tracker) sample_sl (sample_sl_tx 6)) \<and>
      fst (snd (sl_AddTx (Some sample_sl_tracker) sample_sl (sample_sl_tx 6))) = [[1, 6]]" by code_simp
  then obtain l' where l': "sl_AddTx (Some sample_sl_tracker) sample_sl (sample_sl_tx 6) = (True, [[1, 6]], l')"
    by (cases "sl_AddTx (Some sample_sl_tracker) sample_sl (sample_sl_tx 6)") auto
  have "senderOf (sample_sl_tx 6) = sender sample_sl" by (simp add: sample_sl_def sample_sl_tx_def)
  from sender_list_AddTx [OF sample_sl_inv this l'] l' show ?thesis by blast
qed

text \<open>
  The removals by nonce split the list of a sender exactly at the nonce, return the hashes of what
  they remove, keep the invariant, and leave visible to the selection exactly the visible transactions
  they keep; resetting the offset by nonce makes visible exactly the transactions from that nonce on.
\<close>

theorem sender_list_by_nonce:
  assumes "sl_inv l"
  shows "(\<exists>l1. sl_removeTransactionsWithLowerOrEqualNonceReturnHashes l n =
        (map TxHash (filter (\<lambda>tx. nonceOf tx \<le> n) (txs_of l)), l1) \<and>
      txs_of l1 = filter (\<lambda>tx. n < nonceOf tx) (txs_of l) \<and> sl_inv l1 \<and>
      getTxsForSelection l1 = filter (\<lambda>tx. n < nonceOf tx) (getTxsForSelection l)) \<and>
    txs_of (sl_removeTransactionsWithHigherOrEqualNonce l n) = filter (\<lambda>tx. nonceOf tx < n) (txs_of l) \<and>
      sl_inv (sl_removeTransactionsWithHigherOrEqualNonce l n) \<and>
      getTxsForSelection (sl_removeTransactionsWithHigherOrEqualNonce l n) =
        filter (\<lambda>tx. nonceOf tx < n) (getTxsForSelection l) \<and>
    getTxsForSelection (resetSelectionOffsetByNonce l n) = filter (\<lambda>tx. n \<le> nonceOf tx) (txs_of l) \<and>
      sl_inv (resetSelectionOffsetByNonce l n)"
proof -
  obtain h l1 where r: "sl_removeTransactionsWithLowerOrEqualNonceReturnHashes l n = (h, l1)" by fastforce
  show ?thesis
    using r removeLower_result [OF assms r] removeHigher_result [OF assms refl, of n]
      resetOffsetByNonce_result [OF assms, of n] visible_selection [OF assms]
    by (simp add: visible_selection)
qed

theorem sender_list_by_nonce_witness:
  "txs_of (sl_removeTransactionsWithHigherOrEqualNonce sample_sl 5) = [sample_sl_tx 4] \<and>
   getTxsForSelection (resetSelectionOffsetByNonce sample_sl 5) = [sample_sl_tx 5]"
  using sender_list_by_nonce [OF sample_sl_inv(1), of 5]
  by (simp add: sample_sl_def sample_sl_tx_def)

text \<open>
  C37: the sweep of a sender list removes exactly the untracked transactions up to the target nonce and leaves
  the selection offset unchanged. So when all visible transactions are above the target nonce (the swept ones
  lie in front of the offset), it hides from the selection as many of them as it removes: the first \<open>k\<close>
  visible transactions, for \<open>k\<close> removed ones, although it keeps them in the list.
\<close>

theorem sweep_hides_pending:
  assumes "sl_inv l" and "removeSweepableTransactionsReturnHashes t l n = (hashes, l')"
    and "\<forall>tx \<in> set (getTxsForSelection l). n < nonceOf tx"
  shows "selectionOffset l' = selectionOffset l \<and>
    txs_of l' = filter (\<lambda>tx. n < nonceOf tx \<or> IsTransactionTracked t (Some tx)) (txs_of l) \<and>
    set (getTxsForSelection l) \<subseteq> set (txs_of l') \<and>
    getTxsForSelection l' = drop (length hashes) (getTxsForSelection l)"
proof -
  let ?kept = "\<lambda>tx. n < nonceOf tx \<or> IsTransactionTracked t (Some tx)"
  let ?off = "nat (selectionOffset l)"
  let ?hidden = "take ?off (txs_of l)" and ?seen = "drop ?off (txs_of l)"
  note s = sweep_result [OF assms(1,2)]
  have l': "txs_of l' = filter ?kept (txs_of l)" using s(2) by (simp add: not_le)
  have seen: "getTxsForSelection l = ?seen" by (simp add: visible_selection [OF assms(1)] visible_def)
  have all: "filter ?kept ?seen = ?seen" using assms(3) seen by (simp add: filter_id_conv)
  have split: "filter P (txs_of l) = filter P ?hidden @ filter P ?seen" for P
    by (metis append_take_drop_id filter_append)
  have "filter (\<lambda>tx. \<not> ?kept tx) ?seen = []" using assms(3) seen by (simp add: filter_empty_conv)
  then have "length hashes = length (filter (\<lambda>tx. \<not> ?kept tx) ?hidden)"
    using s(1) split [of "\<lambda>tx. \<not> ?kept tx"] by (simp add: not_less)
  then have len: "length ?hidden = length (filter ?kept ?hidden) + length hashes"
    using sum_length_filter_compl [of ?kept ?hidden] by simp
  have "drop ?off (filter ?kept ?hidden @ ?seen) = drop (length hashes) ?seen"
  proof (cases "?off \<le> length (txs_of l)")
    case True
    then have "?off = length (filter ?kept ?hidden) + length hashes" using len by simp
    from arg_cong [OF this, of "\<lambda>k. drop k (filter ?kept ?hidden @ ?seen)"] show ?thesis
      by (simp only: drop_append) simp
  next
    case False
    then have "?seen = []" "length (filter ?kept ?hidden) \<le> ?off" using len by simp_all
    then show ?thesis unfolding \<open>?seen = []\<close> by simp
  qed
  then have "getTxsForSelection l' = drop (length hashes) ?seen"
    unfolding visible_selection [OF s(3)] visible_def s(4) l' split all .
  moreover have "set ?seen \<subseteq> set (txs_of l')" unfolding l' split all by simp
  ultimately show ?thesis using s(4) l' seen by simp
qed

theorem sweep_hides_pending_witness:
  "\<exists>hashes l'. removeSweepableTransactionsReturnHashes newGlobalAccountBreadcrumbsCompiler sample_sl 4 = (hashes, l') \<and>
     getTxsForSelection sample_sl = [sample_sl_tx 5] \<and> sample_sl_tx 5 \<in> set (txs_of l') \<and> getTxsForSelection l' = []"
proof -
  let ?t = newGlobalAccountBreadcrumbsCompiler
  obtain hashes l' where r: "removeSweepableTransactionsReturnHashes ?t sample_sl 4 = (hashes, l')" by fastforce
  have seen: "getTxsForSelection sample_sl = [sample_sl_tx 5]"
    unfolding visible_selection [OF sample_sl_inv(1)] by (simp add: visible_def sample_sl_def)
  then have "\<forall>tx \<in> set (getTxsForSelection sample_sl). 4 < nonceOf tx" by (simp add: sample_sl_tx_def)
  note h = sweep_hides_pending [OF sample_sl_inv(1) r this]
  have "fst (removeSweepableTransactionsReturnHashes ?t sample_sl 4) = [[1, 4]]" by code_simp
  with r have "length hashes = 1" by simp
  moreover from h have "set (getTxsForSelection sample_sl) \<subseteq> set (txs_of l')"
    "getTxsForSelection l' = drop (length hashes) (getTxsForSelection sample_sl)" by blast+
  ultimately have "sample_sl_tx 5 \<in> set (txs_of l') \<and> getTxsForSelection l' = []" unfolding seen by simp
  with r seen show ?thesis by blast
qed

end
