(* ===== verification/Concurrent_Map.thy ===== *)
theory Concurrent_Map
  imports Prelude
begin

unbundle bit_operations_syntax

text \<open>
  \<open>txcache/maps/concurrentMap.go\<close>: a string-keyed map split into chunks, the chunk of a key chosen by
  its 32-bit FNV hash. Every operation is modelled on the chunks as the code has them; the
  interpretation at the end shows that together they behave as one finite map. The locks make each
  operation atomic, so an operation is one step.
\<close>

section \<open>The chunked map\<close>

record 'v ConcurrentMap =
  nChunks :: u32
  chunks :: "(bytes \<times> 'v) list list"

definition initializeChunks :: "'v ConcurrentMap \<Rightarrow> 'v ConcurrentMap" where
  "initializeChunks m = m\<lparr>chunks := replicate (unat (nChunks m)) []\<rparr>"

definition NewConcurrentMap :: "u32 \<Rightarrow> 'v ConcurrentMap" where
  "NewConcurrentMap n =
     initializeChunks \<lparr>nChunks = (if n = 0 then 1 else n), chunks = []\<rparr>"

definition fnv32 :: "bytes \<Rightarrow> u32" where
  "fnv32 key = foldl (\<lambda>hash b. (hash * 16777619) XOR ucast b) 2166136261 key"

definition getChunk :: "'v ConcurrentMap \<Rightarrow> bytes \<Rightarrow> nat" where
  "getChunk m key = unat (fnv32 key mod nChunks m)"

definition cm_Set :: "'v ConcurrentMap \<Rightarrow> bytes \<Rightarrow> 'v \<Rightarrow> 'v ConcurrentMap" where
  "cm_Set m key v =
     (let i = getChunk m key in m\<lparr>chunks := (chunks m)[i := AList.update key v (chunks m ! i)]\<rparr>)"

definition cm_Get :: "'v ConcurrentMap \<Rightarrow> bytes \<Rightarrow> 'v option" where
  "cm_Get m key = map_of (chunks m ! getChunk m key) key"

definition cm_Has :: "'v ConcurrentMap \<Rightarrow> bytes \<Rightarrow> bool" where
  "cm_Has m key \<longleftrightarrow> map_of (chunks m ! getChunk m key) key \<noteq> None"

definition cm_SetIfAbsent :: "'v ConcurrentMap \<Rightarrow> bytes \<Rightarrow> 'v \<Rightarrow> bool \<times> 'v ConcurrentMap" where
  "cm_SetIfAbsent m key v =
     (case map_of (chunks m ! getChunk m key) key of
        None \<Rightarrow> (True, cm_Set m key v)
      | Some _ \<Rightarrow> (False, m))"

definition cm_Remove :: "'v ConcurrentMap \<Rightarrow> bytes \<Rightarrow> 'v option \<times> 'v ConcurrentMap" where
  "cm_Remove m key =
     (let i = getChunk m key
      in (map_of (chunks m ! i) key, m\<lparr>chunks := (chunks m)[i := AList.delete key (chunks m ! i)]\<rparr>))"

definition cm_Clear :: "'v ConcurrentMap \<Rightarrow> 'v ConcurrentMap" where
  "cm_Clear m = initializeChunks m"

definition cm_Count :: "'v ConcurrentMap \<Rightarrow> nat" where
  "cm_Count m = foldl (\<lambda>count chunk. count + length chunk) 0 (chunks m)"

definition cm_Keys :: "'v ConcurrentMap \<Rightarrow> bytes list" where
  "cm_Keys m = concat (map (map fst) (chunks m))"

text \<open>\<open>IterCb\<close> calls its argument on the entries chunk by chunk; the entries it visits, in order.\<close>

definition cm_IterCb :: "'v ConcurrentMap \<Rightarrow> (bytes \<times> 'v) list" where
  "cm_IterCb m = concat (chunks m)"

section \<open>Invariant\<close>

definition cm_inv :: "'v ConcurrentMap \<Rightarrow> bool" where
  "cm_inv m \<longleftrightarrow>
     nChunks m \<noteq> 0 \<and> length (chunks m) = unat (nChunks m) \<and>
     (\<forall>i < length (chunks m). distinct (map fst (chunks m ! i)) \<and>
        (\<forall>k \<in> fst ` set (chunks m ! i). getChunk m k = i))"

lemma getChunk_less: "cm_inv m \<Longrightarrow> getChunk m k < length (chunks m)"
  by (simp add: cm_inv_def getChunk_def unat_mod unat_gt_0)

lemma getChunk_update [simp]: "getChunk (m\<lparr>chunks := c\<rparr>) k = getChunk m k"
  by (simp add: getChunk_def)

lemma cm_inv_initializeChunks: "nChunks m \<noteq> 0 \<Longrightarrow> cm_inv (initializeChunks m)"
  by (simp add: cm_inv_def initializeChunks_def)

lemma cm_inv_New [simp]: "cm_inv (NewConcurrentMap n)"
  unfolding NewConcurrentMap_def by (rule cm_inv_initializeChunks) simp

lemma cm_inv_Clear: "cm_inv m \<Longrightarrow> cm_inv (cm_Clear m)"
  unfolding cm_Clear_def by (rule cm_inv_initializeChunks) (simp add: cm_inv_def)

lemma cm_inv_replace_chunk:
  assumes "cm_inv m" and "i = getChunk m k" and "distinct (map fst c)"
    and "fst ` set c \<subseteq> insert k (fst ` set (chunks m ! i))"
  shows "cm_inv (m\<lparr>chunks := (chunks m)[i := c]\<rparr>)"
proof -
  have i: "i < length (chunks m)" using assms(2) getChunk_less [OF assms(1), of k] by simp
  have "getChunk m k' = i" if "k' \<in> fst ` set c" for k'
  proof (cases "k' = k")
    case False
    with that assms(4) have "k' \<in> fst ` set (chunks m ! i)" by blast
    with assms(1) i show ?thesis by (auto simp: cm_inv_def)
  qed (simp add: assms(2))
  with assms(1,3) i show ?thesis
    by (simp add: cm_inv_def nth_list_update)
qed

lemma distinct_chunk: "cm_inv m \<Longrightarrow> distinct (map fst (chunks m ! getChunk m k))"
  using getChunk_less [of m k] by (simp add: cm_inv_def)

lemma cm_inv_Set: "cm_inv m \<Longrightarrow> cm_inv (cm_Set m k v)"
  unfolding cm_Set_def Let_def
  by (rule cm_inv_replace_chunk)
     (auto simp: distinct_update dom_update distinct_chunk)

lemma cm_inv_Remove: "cm_inv m \<Longrightarrow> cm_inv (snd (cm_Remove m k))"
  unfolding cm_Remove_def Let_def snd_conv
  by (rule cm_inv_replace_chunk)
     (simp_all add: distinct_delete distinct_chunk subset_insertI2 dom_delete_subset)

section \<open>The map it implements\<close>

lemma cm_Get_Set: "cm_inv m \<Longrightarrow> cm_Get (cm_Set m k v) = (cm_Get m)(k \<mapsto> v)"
  using getChunk_less [of m k]
  by (auto simp: fun_eq_iff cm_Get_def cm_Set_def Let_def nth_list_update update_conv')

lemma cm_Get_Remove: "cm_inv m \<Longrightarrow> cm_Get (snd (cm_Remove m k)) = (cm_Get m)(k := None)"
  using getChunk_less [of m k]
  by (auto simp: fun_eq_iff cm_Get_def cm_Remove_def Let_def nth_list_update delete_conv')

lemma cm_Get_initializeChunks:
  assumes "nChunks m \<noteq> 0" shows "cm_Get (initializeChunks m) = Map.empty"
proof
  fix k
  have "getChunk m k < unat (nChunks m)"
    using assms by (simp add: getChunk_def unat_mod unat_gt_0)
  then show "cm_Get (initializeChunks m) k = None"
    by (simp add: cm_Get_def initializeChunks_def)
qed

lemma cm_Get_New [simp]: "cm_Get (NewConcurrentMap n) = Map.empty"
  unfolding NewConcurrentMap_def by (rule cm_Get_initializeChunks) simp

lemma cm_Get_Clear: "cm_inv m \<Longrightarrow> cm_Get (cm_Clear m) = Map.empty"
  unfolding cm_Clear_def by (rule cm_Get_initializeChunks) (simp add: cm_inv_def)

lemma cm_Has_Get: "cm_Has m k \<longleftrightarrow> cm_Get m k \<noteq> None"
  by (simp add: cm_Has_def cm_Get_def)

lemma fst_cm_Remove [simp]: "fst (cm_Remove m k) = cm_Get m k"
  by (simp add: cm_Remove_def cm_Get_def Let_def)

lemma cm_SetIfAbsent_conv:
  "cm_SetIfAbsent m k v = (if cm_Get m k = None then (True, cm_Set m k v) else (False, m))"
  by (auto simp: cm_SetIfAbsent_def cm_Get_def split: option.splits)

lemma distinct_concat_chunks:
  "\<lbrakk>\<forall>i < length cs. distinct (map fst (cs ! i)) \<and> (\<forall>k \<in> fst ` set (cs ! i). g k = i + n)\<rbrakk> \<Longrightarrow>
   distinct (map fst (concat cs)) \<and> (\<forall>k \<in> fst ` set (concat cs). n \<le> g k)"
proof (induction cs arbitrary: n)
  case (Cons c cs)
  have "\<forall>i < length cs. distinct (map fst (cs ! i)) \<and> (\<forall>k \<in> fst ` set (cs ! i). g k = i + Suc n)"
    using Cons.prems by (metis Suc_less_eq add_Suc_shift length_Cons nth_Cons_Suc)
  from Cons.IH [OF this] have IH: "distinct (map fst (concat cs))"
    "\<forall>k \<in> fst ` set (concat cs). Suc n \<le> g k" by auto
  moreover have "distinct (map fst c)" "\<forall>k \<in> fst ` set c. g k = n"
    using Cons.prems [rule_format, of 0] by auto
  ultimately show ?case by fastforce
qed simp

lemma distinct_IterCb: "cm_inv m \<Longrightarrow> distinct (map fst (cm_IterCb m))"
  unfolding cm_IterCb_def
  by (rule distinct_concat_chunks [of "chunks m" "getChunk m" 0, THEN conjunct1])
     (simp add: cm_inv_def)

lemma map_of_IterCb: "cm_inv m \<Longrightarrow> map_of (cm_IterCb m) = cm_Get m"
proof
  fix k assume inv: "cm_inv m"
  have iff: "(k, v) \<in> set (cm_IterCb m) \<longleftrightarrow> (k, v) \<in> set (chunks m ! getChunk m k)" for v
  proof
    assume "(k, v) \<in> set (cm_IterCb m)"
    then obtain i where "i < length (chunks m)" "(k, v) \<in> set (chunks m ! i)"
      by (auto simp: cm_IterCb_def in_set_conv_nth [of _ "chunks m"])
    with inv show "(k, v) \<in> set (chunks m ! getChunk m k)"
      by (auto simp: cm_inv_def) (metis fst_conv image_eqI)
  next
    assume "(k, v) \<in> set (chunks m ! getChunk m k)"
    with getChunk_less [OF inv, of k] show "(k, v) \<in> set (cm_IterCb m)"
      by (auto simp: cm_IterCb_def intro!: nth_mem)
  qed
  have d: "distinct (map fst (chunks m ! getChunk m k))"
    using inv getChunk_less [OF inv, of k] by (simp add: cm_inv_def)
  show "map_of (cm_IterCb m) k = cm_Get m k"
  proof (cases "cm_Get m k")
    case None
    then have "k \<notin> fst ` set (cm_IterCb m)" using iff
      by (force simp: cm_Get_def map_of_eq_None_iff)
    with None show ?thesis by (simp add: map_of_eq_None_iff)
  next
    case (Some v)
    then have "(k, v) \<in> set (cm_IterCb m)" using iff by (auto simp: cm_Get_def dest: map_of_SomeD)
    with Some distinct_IterCb [OF inv] show ?thesis by simp
  qed
qed

lemma cm_Count_length: "cm_Count (m :: 'v ConcurrentMap) = length (cm_IterCb m)"
proof -
  have "foldl (\<lambda>count chunk. count + length chunk) c cs = c + length (concat cs)"
    for c and cs :: "(bytes \<times> 'v) list list"
    by (induction cs arbitrary: c) auto
  then show ?thesis by (simp add: cm_Count_def cm_IterCb_def)
qed

lemma cm_Keys_IterCb: "cm_Keys m = map fst (cm_IterCb m)"
  by (simp add: cm_Keys_def cm_IterCb_def map_concat)

section \<open>The interface the caches rely on\<close>

text \<open>
  A keyed store with an iterator. The clients count its entries and sum a measure over them; those
  sums change by the entry that is added or removed, which the locale derives once.
\<close>

locale keyed_store =
  fixes get :: "'m \<Rightarrow> bytes \<Rightarrow> 'v option"
    and put :: "'m \<Rightarrow> bytes \<Rightarrow> 'v \<Rightarrow> 'm"
    and del :: "'m \<Rightarrow> bytes \<Rightarrow> 'm"
    and entries :: "'m \<Rightarrow> (bytes \<times> 'v) list"
    and inv :: "'m \<Rightarrow> bool"
  assumes get_put: "inv m \<Longrightarrow> get (put m k v) = (get m)(k \<mapsto> v)"
    and get_del: "inv m \<Longrightarrow> get (del m k) = (get m)(k := None)"
    and inv_put: "inv m \<Longrightarrow> inv (put m k v)"
    and inv_del: "inv m \<Longrightarrow> inv (del m k)"
    and distinct_entries: "inv m \<Longrightarrow> distinct (map fst (entries m))"
    and map_of_entries: "inv m \<Longrightarrow> map_of (entries m) = get m"
begin

definition total :: "('v \<Rightarrow> int) \<Rightarrow> 'm \<Rightarrow> int" where
  "total f m = (\<Sum>(k, v) \<leftarrow> entries m. f v)"

lemma mem_entries: "inv m \<Longrightarrow> (k, v) \<in> set (entries m) \<longleftrightarrow> get m k = Some v"
  by (metis distinct_entries map_of_entries map_of_eq_Some_iff)

lemma total_sum: "inv m \<Longrightarrow> total f m = (\<Sum>k \<in> dom (get m). f (the (get m k)))"
proof -
  assume inv: "inv m"
  have "total f m = (\<Sum>e \<in> set (entries m). f (snd e))"
    using distinct_entries [OF inv]
    by (simp add: total_def distinct_map sum_list_distinct_conv_sum_set case_prod_beta')
  also have "\<dots> = (\<Sum>k \<in> dom (get m). f (the (get m k)))"
    by (rule sum.reindex_bij_witness [where i = "\<lambda>k. (k, the (get m k))" and j = fst])
       (use mem_entries [OF inv] in \<open>auto simp: dom_def\<close>)
  finally show ?thesis .
qed

lemma finite_dom: "inv m \<Longrightarrow> finite (dom (get m))"
  by (metis finite_dom_map_of map_of_entries)

lemma total_put_new: "inv m \<Longrightarrow> get m k = None \<Longrightarrow> total f (put m k v) = total f m + f v"
proof -
  assume inv: "inv m" and k: "get m k = None"
  have "total f (put m k v) = (\<Sum>j \<in> insert k (dom (get m)). f (the (((get m)(k \<mapsto> v)) j)))"
    by (simp add: total_sum inv_put get_put inv)
  also have "\<dots> = f v + (\<Sum>j \<in> dom (get m). f (the (((get m)(k \<mapsto> v)) j)))"
    by (subst sum.insert) (use k finite_dom [OF inv] in auto)
  also have "(\<Sum>j \<in> dom (get m). f (the (((get m)(k \<mapsto> v)) j))) = total f m"
    unfolding total_sum [OF inv] by (rule sum.cong) (use k in auto)
  finally show ?thesis by simp
qed

lemma total_del: "inv m \<Longrightarrow> get m k = Some v \<Longrightarrow> total f (del m k) = total f m - f v"
proof -
  assume inv: "inv m" and k: "get m k = Some v"
  have "total f (del m k) = (\<Sum>j \<in> dom (get m) - {k}. f (the (get m j)))"
    by (simp add: total_sum inv_del get_del inv)
  also have "\<dots> = (\<Sum>j \<in> dom (get m). f (the (get m j))) - f v"
    by (subst sum_diff1) (use k finite_dom [OF inv] in auto)
  finally show ?thesis by (simp add: total_sum inv)
qed

lemma total_del_None: "inv m \<Longrightarrow> get m k = None \<Longrightarrow> total f (del m k) = total f m"
  by (simp add: total_sum inv_del get_del domIff)

lemma total_one: "total (\<lambda>_. 1) m = int (length (entries m))"
  by (simp add: total_def case_prod_beta' sum_list_triv)

lemma length_entries_card: "inv m \<Longrightarrow> length (entries m) = card (dom (get m))"
  using total_one [of m] total_sum [of m "\<lambda>_. 1"] by simp

lemma entries_Nil: "inv m \<Longrightarrow> get m = Map.empty \<Longrightarrow> entries m = []"
  using mem_entries [of m] by (cases "entries m") auto

lemma length_put_new: "inv m \<Longrightarrow> get m k = None \<Longrightarrow> length (entries (put m k v)) = Suc (length (entries m))"
  using total_put_new [of m k "\<lambda>_. 1" v] by (simp add: total_one)

lemma length_put_old: "inv m \<Longrightarrow> get m k = Some w \<Longrightarrow> length (entries (put m k v)) = length (entries m)"
  by (simp add: length_entries_card inv_put get_put insert_absorb domI)

lemma length_del: "inv m \<Longrightarrow> get m k = Some v \<Longrightarrow> Suc (length (entries (del m k))) = length (entries m)"
  using total_del [of m k v "\<lambda>_. 1"] by (simp add: total_one)

lemma sum_entries_le: "(\<And>v. 0 \<le> f v) \<Longrightarrow> 0 \<le> total f m"
  unfolding total_def by (rule sum_list_nonneg) auto

end

interpretation cm: keyed_store cm_Get cm_Set "\<lambda>m k. snd (cm_Remove m k)" cm_IterCb cm_inv
  by unfold_locales
     (simp_all add: cm_Get_Set cm_Get_Remove cm_inv_Set cm_inv_Remove distinct_IterCb map_of_IterCb)

lemma cm_entries_New [simp]: "cm_IterCb (NewConcurrentMap n) = []"
  by (rule cm.entries_Nil) simp_all

lemma cm_entries_Clear: "cm_inv m \<Longrightarrow> cm_IterCb (cm_Clear m) = []"
  by (rule cm.entries_Nil) (simp_all add: cm_inv_Clear cm_Get_Clear)

end
