(* ===== verification/Tx_Maps.thy ===== *)
theory Tx_Maps
  imports Sender_List Concurrent_Map
begin

text \<open>
  \<open>txByHashMap.go\<close> and \<open>txListBySenderMap.go\<close>: the two indexes of the transaction cache, each a
  concurrent map with counters. A list of the sender map is a pointer in the code; the model writes the
  changed list back under its key. The lemmas show what each operation does to the two finite maps and
  that the counters follow.
\<close>

section \<open>Transactions by hash\<close>

record txByHashMap =
  bh_backingMap :: "WrappedTransaction ConcurrentMap"
  bh_counter :: int
  numBytes :: int

definition newTxByHashMap :: "u32 \<Rightarrow> txByHashMap" where
  "newTxByHashMap nChunksHint =
     \<lparr>bh_backingMap = NewConcurrentMap nChunksHint, bh_counter = 0, numBytes = 0\<rparr>"

definition bh_addTx :: "txByHashMap \<Rightarrow> WrappedTransaction \<Rightarrow> bool \<times> txByHashMap" where
  "bh_addTx m tx =
     (let (added, bm) = cm_SetIfAbsent (bh_backingMap m) (TxHash tx) tx;
          m = m\<lparr>bh_backingMap := bm\<rparr>
      in if added then (True, m\<lparr>bh_counter := bh_counter m + 1, numBytes := numBytes m + Size tx\<rparr>)
         else (False, m))"

definition bh_removeTx :: "txByHashMap \<Rightarrow> bytes \<Rightarrow> WrappedTransaction option \<times> txByHashMap" where
  "bh_removeTx m txHash =
     (let (item, bm) = cm_Remove (bh_backingMap m) txHash;
          m = m\<lparr>bh_backingMap := bm\<rparr>
      in case item of
           None \<Rightarrow> (None, m)
         | Some tx \<Rightarrow> (Some tx, m\<lparr>bh_counter := bh_counter m - 1, numBytes := numBytes m - Size tx\<rparr>))"

definition hasTx :: "txByHashMap \<Rightarrow> bytes \<Rightarrow> bool" where
  "hasTx m txHash = cm_Has (bh_backingMap m) txHash"

definition getTx :: "txByHashMap \<Rightarrow> bytes \<Rightarrow> WrappedTransaction option" where
  "getTx m txHash = cm_Get (bh_backingMap m) txHash"

fun GetTxsBulk :: "txByHashMap \<Rightarrow> bytes list \<Rightarrow> WrappedTransaction list" where
  "GetTxsBulk m [] = []"
| "GetTxsBulk m (txHash # txHashes) =
     (case cm_Get (bh_backingMap m) txHash of
        None \<Rightarrow> GetTxsBulk m txHashes
      | Some tx \<Rightarrow> tx # GetTxsBulk m txHashes)"

fun bulk_remove :: "txByHashMap \<Rightarrow> u32 \<Rightarrow> bytes list \<Rightarrow> u32 \<times> txByHashMap" where
  "bulk_remove m numRemoved [] = (numRemoved, m)"
| "bulk_remove m numRemoved (txHash # txHashes) =
     (case bh_removeTx m txHash of
        (None, m) \<Rightarrow> bulk_remove m numRemoved txHashes
      | (Some _, m) \<Rightarrow> bulk_remove m (numRemoved + 1) txHashes)"

definition RemoveTxsBulk :: "txByHashMap \<Rightarrow> bytes list \<Rightarrow> u32 \<times> txByHashMap" where
  "RemoveTxsBulk m txHashes = bulk_remove m 0 txHashes"

text \<open>The entries \<open>forEach\<close> passes to its function, in order.\<close>

definition bh_forEach :: "txByHashMap \<Rightarrow> (bytes \<times> WrappedTransaction) list" where
  "bh_forEach m = cm_IterCb (bh_backingMap m)"

definition bh_clear :: "txByHashMap \<Rightarrow> txByHashMap" where
  "bh_clear m = m\<lparr>bh_backingMap := cm_Clear (bh_backingMap m), bh_counter := 0\<rparr>"

definition bh_keys :: "txByHashMap \<Rightarrow> bytes list" where
  "bh_keys m = cm_Keys (bh_backingMap m)"

section \<open>Lists by sender\<close>

record txListBySenderMap =
  bs_backingMap :: "txListForSender ConcurrentMap"
  bs_constraints :: senderConstraints
  bs_counter :: int

definition newTxListBySenderMap :: "u32 \<Rightarrow> senderConstraints \<Rightarrow> txListBySenderMap" where
  "newTxListBySenderMap nChunksHint c =
     \<lparr>bs_backingMap = NewConcurrentMap nChunksHint, bs_constraints = c, bs_counter = 0\<rparr>"

definition getListForSender :: "txListBySenderMap \<Rightarrow> bytes \<Rightarrow> txListForSender option" where
  "getListForSender m s = cm_Get (bs_backingMap m) s"

definition addSender :: "txListBySenderMap \<Rightarrow> bytes \<Rightarrow> txListForSender \<times> txListBySenderMap" where
  "addSender m s =
     (let l = newTxListForSender s (bs_constraints m)
      in (l, m\<lparr>bs_backingMap := cm_Set (bs_backingMap m) s l, bs_counter := bs_counter m + 1\<rparr>))"

definition getOrAddListForSender :: "txListBySenderMap \<Rightarrow> bytes \<Rightarrow> txListForSender \<times> txListBySenderMap" where
  "getOrAddListForSender m s =
     (case getListForSender m s of
        Some l \<Rightarrow> (l, m)
      | None \<Rightarrow> addSender m s)"

text \<open>What a mutation through the list pointer leaves in the map.\<close>

definition storeList :: "txListBySenderMap \<Rightarrow> bytes \<Rightarrow> txListForSender \<Rightarrow> txListBySenderMap" where
  "storeList m s l = m\<lparr>bs_backingMap := cm_Set (bs_backingMap m) s l\<rparr>"

definition addTxReturnEvicted ::
  "txListBySenderMap \<Rightarrow> WrappedTransaction \<Rightarrow> globalAccountBreadcrumbsCompiler option \<Rightarrow>
   bool \<times> bytes list \<times> txListBySenderMap" where
  "addTxReturnEvicted m tx tracker =
     (let s = senderOf tx;
          (l, m) = getOrAddListForSender m s;
          (added, evictedHashes, l) = sl_AddTx tracker l tx
      in (added, evictedHashes, storeList m s l))"

definition removeSender :: "txListBySenderMap \<Rightarrow> bytes \<Rightarrow> bool \<times> txListBySenderMap" where
  "removeSender m s =
     (let (removed, bm) = cm_Remove (bs_backingMap m) s; m = m\<lparr>bs_backingMap := bm\<rparr>
      in if removed \<noteq> None then (True, m\<lparr>bs_counter := bs_counter m - 1\<rparr>) else (False, m))"

definition removeSenderIfEmpty :: "txListBySenderMap \<Rightarrow> txListForSender \<Rightarrow> txListBySenderMap" where
  "removeSenderIfEmpty m l = (if sl_IsEmpty l then snd (removeSender m (sender l)) else m)"

definition bs_removeTransactionsWithLowerOrEqualNonceReturnHashes ::
  "txListBySenderMap \<Rightarrow> WrappedTransaction \<Rightarrow> bytes list \<times> txListBySenderMap" where
  "bs_removeTransactionsWithLowerOrEqualNonceReturnHashes m tx =
     (let s = senderOf tx
      in case getListForSender m s of
           None \<Rightarrow> ([], m)
         | Some l \<Rightarrow>
             (let (evicted, l) = sl_removeTransactionsWithLowerOrEqualNonceReturnHashes l (nonceOf tx)
              in (evicted, removeSenderIfEmpty (storeList m s l) l)))"

fun senders_bulk :: "txListBySenderMap \<Rightarrow> u32 \<Rightarrow> bytes list \<Rightarrow> u32 \<times> txListBySenderMap" where
  "senders_bulk m numRemoved [] = (numRemoved, m)"
| "senders_bulk m numRemoved (s # ss) =
     (case removeSender m s of
        (True, m) \<Rightarrow> senders_bulk m (numRemoved + 1) ss
      | (False, m) \<Rightarrow> senders_bulk m numRemoved ss)"

definition RemoveSendersBulk :: "txListBySenderMap \<Rightarrow> bytes list \<Rightarrow> u32 \<times> txListBySenderMap" where
  "RemoveSendersBulk m senders = senders_bulk m 0 senders"

definition bs_removeTransactionsWithHigherOrEqualNonce ::
  "txListBySenderMap \<Rightarrow> bytes \<Rightarrow> u64 \<Rightarrow> txListBySenderMap" where
  "bs_removeTransactionsWithHigherOrEqualNonce m accountKey nonce =
     (case getListForSender m accountKey of
        None \<Rightarrow> m
      | Some l \<Rightarrow>
          let l = sl_removeTransactionsWithHigherOrEqualNonce l nonce
          in removeSenderIfEmpty (storeList m accountKey l) l)"

definition getSenders :: "txListBySenderMap \<Rightarrow> txListForSender list" where
  "getSenders m = map snd (cm_IterCb (bs_backingMap m))"

definition bs_clear :: "txListBySenderMap \<Rightarrow> txListBySenderMap" where
  "bs_clear m = m\<lparr>bs_backingMap := cm_Clear (bs_backingMap m), bs_counter := 0\<rparr>"

section \<open>The index by hash\<close>

text \<open>The byte counter may be off by a constant, which \<open>bh_clear\<close> leaves behind: \<open>slack\<close>.\<close>

definition slack :: "txByHashMap \<Rightarrow> int" where
  "slack m = numBytes m - cm.total Size (bh_backingMap m)"

definition bh_inv :: "txByHashMap \<Rightarrow> bool" where
  "bh_inv m \<longleftrightarrow>
     cm_inv (bh_backingMap m) \<and> bh_counter m = int (length (cm_IterCb (bh_backingMap m))) \<and>
     (\<forall>h tx. getTx m h = Some tx \<longrightarrow> TxHash tx = h)"

lemma getTx_conv: "getTx m = cm_Get (bh_backingMap m)"
  by (simp add: getTx_def fun_eq_iff)

lemma bh_new:
  "bh_inv (newTxByHashMap n)" "getTx (newTxByHashMap n) = Map.empty" "slack (newTxByHashMap n) = 0"
  by (simp_all add: bh_inv_def newTxByHashMap_def getTx_conv slack_def cm.total_def)

lemma bh_addTx_result:
  assumes inv: "bh_inv m" and add: "bh_addTx m tx = (added, m')"
  shows "bh_inv m'" and "slack m' = slack m"
    and "added \<longleftrightarrow> getTx m (TxHash tx) = None"
    and "getTx m' = (if added then (getTx m)(TxHash tx \<mapsto> tx) else getTx m)"
  using assms
  by (auto simp: bh_inv_def bh_addTx_def slack_def getTx_conv cm_SetIfAbsent_conv cm_inv_Set cm_Get_Set
      cm.length_put_new cm.total_put_new Let_def split: if_splits)

lemma bh_removeTx_result:
  assumes inv: "bh_inv m" and rem: "bh_removeTx m h = (tx, m')"
  shows "bh_inv m'" and "slack m' = slack m" and "tx = getTx m h" and "getTx m' = (getTx m)(h := None)"
proof -
  let ?bm = "bh_backingMap m"
  have cm: "cm_inv ?bm" using inv by (simp add: bh_inv_def)
  define bm where "bm = snd (cm_Remove ?bm h)"
  have rm: "cm_Remove ?bm h = (cm_Get ?bm h, bm)" unfolding bm_def by (metis fst_cm_Remove prod.collapse)
  have bm: "cm_inv bm" "cm_Get bm = (cm_Get ?bm)(h := None)"
    using cm_Get_Remove [OF cm, of h] cm_inv_Remove [OF cm, of h] by (simp_all add: bm_def)
  show tx: "tx = getTx m h" and m': "getTx m' = (getTx m)(h := None)"
    using rem rm bm(2) by (auto simp: bh_removeTx_def getTx_conv Let_def split: option.splits)
  have "bh_inv m' \<and> slack m' = slack m"
  proof (cases "cm_Get ?bm h")
    case None
    then have "cm.total f bm = cm.total f ?bm" for f using cm.total_del_None [OF cm] by (simp add: bm_def)
    moreover have "length (cm_IterCb bm) = length (cm_IterCb ?bm)"
      using calculation [of "\<lambda>_. 1"] by (simp add: cm.total_one)
    ultimately show ?thesis using None rem rm inv bm
      by (auto simp: bh_removeTx_def bh_inv_def slack_def getTx_conv Let_def split: if_splits)
  next
    case (Some x)
    have "cm.total f bm = cm.total f ?bm - f x" for f using cm.total_del [OF cm Some] by (simp add: bm_def)
    moreover have "Suc (length (cm_IterCb bm)) = length (cm_IterCb ?bm)"
      using cm.length_del [OF cm Some] by (simp add: bm_def)
    ultimately show ?thesis using Some rem rm inv bm
      by (auto simp: bh_removeTx_def bh_inv_def slack_def getTx_conv Let_def split: if_splits)
  qed
  then show "bh_inv m'" "slack m' = slack m" by blast+
qed

lemma bulk_remove_result:
  assumes "bh_inv m" and "bulk_remove m n hs = (n', m')"
  shows "bh_inv m' \<and> slack m' = slack m \<and> getTx m' = (getTx m) |` (- set hs)"
  using assms
proof (induction m n hs rule: bulk_remove.induct)
  case (2 m n h hs)
  obtain tx m1 where r: "bh_removeTx m h = (tx, m1)" by fastforce
  note r1 = bh_removeTx_result [OF "2.prems"(1) r]
  have "bh_inv m' \<and> slack m' = slack m1 \<and> getTx m' = (getTx m1) |` (- set hs)"
    using "2.IH" "2.prems"(2) r r1(1) by (cases tx) auto
  then show ?case using r1(2,4) by (auto simp: restrict_map_def)
qed (auto simp: restrict_map_def)

lemma RemoveTxsBulk_result:
  assumes "bh_inv m" and "RemoveTxsBulk m hs = (n, m')"
  shows "bh_inv m'" "slack m' = slack m" "getTx m' = (getTx m) |` (- set hs)"
  using bulk_remove_result [of m 0 hs n m'] assms by (simp_all add: RemoveTxsBulk_def)

lemma bh_clear_result:
  assumes "bh_inv m"
  shows "bh_inv (bh_clear m)" "getTx (bh_clear m) = Map.empty" "slack (bh_clear m) = numBytes m"
  using assms
  by (auto simp: bh_inv_def bh_clear_def getTx_conv slack_def cm_inv_Clear cm_Get_Clear cm_entries_Clear cm.total_def)

lemma GetTxsBulk_conv: "GetTxsBulk m hs = List.map_filter (getTx m) hs"
  by (induction hs) (simp_all add: getTx_def List.map_filter_simps split: option.splits)

section \<open>The index by sender\<close>

text \<open>The transactions of a sender.\<close>

definition pool :: "txListBySenderMap \<Rightarrow> bytes \<Rightarrow> WrappedTransaction list" where
  "pool m s = (case getListForSender m s of None \<Rightarrow> [] | Some l \<Rightarrow> txs_of l)"

definition bs_inv :: "txListBySenderMap \<Rightarrow> bool" where
  "bs_inv m \<longleftrightarrow>
     cm_inv (bs_backingMap m) \<and> bs_counter m = int (length (cm_IterCb (bs_backingMap m))) \<and>
     (\<forall>s l. getListForSender m s = Some l \<longrightarrow>
       sl_inv l \<and> sender l = s \<and> constraints l = bs_constraints m)"

definition bs_aligned :: "txListBySenderMap \<Rightarrow> bool" where
  "bs_aligned m \<longleftrightarrow> (\<forall>s l. getListForSender m s = Some l \<longrightarrow> aligned l)"

lemma getListForSender_conv: "getListForSender m = cm_Get (bs_backingMap m)"
  by (simp add: getListForSender_def fun_eq_iff)

lemma bs_invD:
  assumes "bs_inv m" and "getListForSender m s = Some l"
  shows "sl_inv l" "sender l = s" "constraints l = bs_constraints m"
  using assms by (auto simp: bs_inv_def)

lemma bs_new:
  "bs_inv (newTxListBySenderMap n c)" "bs_aligned (newTxListBySenderMap n c)"
  "getListForSender (newTxListBySenderMap n c) = Map.empty"
  by (simp_all add: bs_inv_def bs_aligned_def newTxListBySenderMap_def getListForSender_conv)

text \<open>Putting a list under its sender, new or not.\<close>

lemma bs_put:
  assumes inv: "bs_inv m" and l: "sl_inv l" "sender l = s" "constraints l = bs_constraints m"
    and c: "c = (if getListForSender m s = None then bs_counter m + 1 else bs_counter m)"
    and m': "m' = m\<lparr>bs_backingMap := cm_Set (bs_backingMap m) s l, bs_counter := c\<rparr>"
  shows "bs_inv m'" and "getListForSender m' = (getListForSender m)(s \<mapsto> l)"
    and "bs_aligned m \<Longrightarrow> aligned l \<Longrightarrow> bs_aligned m'"
proof -
  let ?bm = "bs_backingMap m"
  have cm: "cm_inv ?bm" using inv by (simp add: bs_inv_def)
  show get: "getListForSender m' = (getListForSender m)(s \<mapsto> l)"
    by (simp add: getListForSender_conv m' cm_Get_Set [OF cm])
  have "c = int (length (cm_IterCb (cm_Set ?bm s l)))"
    using inv c cm.length_put_new [OF cm, of s l] cm.length_put_old [OF cm, of s _ l]
    by (auto simp: bs_inv_def getListForSender_conv)
  then show "bs_inv m'" using inv l get cm_inv_Set [OF cm] by (auto simp: bs_inv_def m')
  show "bs_aligned m \<Longrightarrow> aligned l \<Longrightarrow> bs_aligned m'" using get by (simp add: bs_aligned_def)
qed

lemma storeList_result:
  assumes "bs_inv m" and "getListForSender m s \<noteq> None" and "sl_inv l" "sender l = s" "constraints l = bs_constraints m"
  shows "bs_inv (storeList m s l)" "getListForSender (storeList m s l) = (getListForSender m)(s \<mapsto> l)"
    and "bs_aligned m \<Longrightarrow> aligned l \<Longrightarrow> bs_aligned (storeList m s l)"
    and "bs_constraints (storeList m s l) = bs_constraints m"
  using bs_put [OF assms(1,3,4,5) refl, of "storeList m s l"] assms(2) by (simp_all add: storeList_def)

lemma getOrAdd_result:
  assumes inv: "bs_inv m" and get: "getOrAddListForSender m s = (l, m')"
  shows "bs_inv m'" "getListForSender m' = (getListForSender m)(s \<mapsto> l)"
    and "sl_inv l" "sender l = s" "constraints l = bs_constraints m'" "txs_of l = pool m s"
    and "bs_aligned m \<Longrightarrow> bs_aligned m' \<and> aligned l" and "bs_constraints m' = bs_constraints m"
proof -
  have all: "bs_inv m' \<and> getListForSender m' = (getListForSender m)(s \<mapsto> l) \<and> sl_inv l \<and> sender l = s \<and>
      constraints l = bs_constraints m' \<and> txs_of l = pool m s \<and> (bs_aligned m \<longrightarrow> bs_aligned m' \<and> aligned l) \<and>
      bs_constraints m' = bs_constraints m"
  proof (cases "getListForSender m s")
    case None
    then have l: "l = newTxListForSender s (bs_constraints m)"
      and m': "m' = m\<lparr>bs_backingMap := cm_Set (bs_backingMap m) s l, bs_counter := bs_counter m + 1\<rparr>"
      using get by (auto simp: getOrAddListForSender_def addSender_def Let_def)
    have "sl_inv l" "aligned l" "sender l = s" "constraints l = bs_constraints m" "txs_of l = []"
      by (simp_all add: l, simp_all add: newTxListForSender_def newOrderedTransactionsList_def)
    with bs_put [OF inv this(1,3,4) _ m'] None show ?thesis by (simp add: pool_def m')
  next
    case (Some l0)
    with get have "l = l0" "m' = m" by (simp_all add: getOrAddListForSender_def)
    with Some inv bs_invD [OF inv Some] show ?thesis
      by (auto simp: pool_def bs_aligned_def fun_upd_idem)
  qed
  then show "bs_inv m'" "getListForSender m' = (getListForSender m)(s \<mapsto> l)"
    and "sl_inv l" "sender l = s" "constraints l = bs_constraints m'" "txs_of l = pool m s"
    and "bs_aligned m \<Longrightarrow> bs_aligned m' \<and> aligned l" and "bs_constraints m' = bs_constraints m"
    by blast+
qed

lemma removeSender_result:
  assumes inv: "bs_inv m" and rem: "removeSender m s = (removed, m')"
  shows "bs_inv m'" "getListForSender m' = (getListForSender m)(s := None)"
    and "removed \<longleftrightarrow> getListForSender m s \<noteq> None" and "bs_aligned m \<Longrightarrow> bs_aligned m'"
    and "bs_constraints m' = bs_constraints m"
proof -
  let ?bm = "bs_backingMap m"
  have cm: "cm_inv ?bm" using inv by (simp add: bs_inv_def)
  define bm where "bm = snd (cm_Remove ?bm s)"
  have rm: "cm_Remove ?bm s = (cm_Get ?bm s, bm)" unfolding bm_def by (metis fst_cm_Remove prod.collapse)
  have bm: "cm_inv bm" "cm_Get bm = (cm_Get ?bm)(s := None)"
    using cm_Get_Remove [OF cm, of s] cm_inv_Remove [OF cm, of s] by (simp_all add: bm_def)
  have len: "cm_Get ?bm s = None \<Longrightarrow> length (cm_IterCb bm) = length (cm_IterCb ?bm)"
    "cm_Get ?bm s = Some l \<Longrightarrow> Suc (length (cm_IterCb bm)) = length (cm_IterCb ?bm)" for l
    using cm.total_del_None [OF cm, of s "\<lambda>_. 1"] cm.length_del [OF cm, of s] by (simp_all add: bm_def cm.total_one)
  have m': "bs_backingMap m' = bm" "removed \<longleftrightarrow> cm_Get ?bm s \<noteq> None" "bs_constraints m' = bs_constraints m"
    "bs_counter m' = (if removed then bs_counter m - 1 else bs_counter m)"
    using rem rm by (auto simp: removeSender_def Let_def split: if_splits)
  show get: "getListForSender m' = (getListForSender m)(s := None)"
    by (simp add: getListForSender_conv m' bm)
  have "bs_counter m' = int (length (cm_IterCb bm))"
    using inv m'(2,4) len by (cases "cm_Get ?bm s") (auto simp: bs_inv_def)
  then show "bs_inv m'" using inv get bm m' by (auto simp: bs_inv_def)
  show "removed \<longleftrightarrow> getListForSender m s \<noteq> None" using m'(2) by (simp add: getListForSender_conv)
  show "bs_aligned m \<Longrightarrow> bs_aligned m'" using get by (auto simp: bs_aligned_def)
  show "bs_constraints m' = bs_constraints m" by (rule m'(3))
qed

lemma sl_IsEmpty_iff: "sl_IsEmpty l \<longleftrightarrow> txs_of l = []"
  by (simp add: sl_IsEmpty_def countTx_def otl_len_def)

text \<open>Replacing the list of a sender by a shorter one and dropping the sender when nothing is left.\<close>

lemma storeOrDrop_result:
  assumes inv: "bs_inv m" and s: "getListForSender m s \<noteq> None" and l: "sl_inv l" "sender l = s"
    "constraints l = bs_constraints m" and m': "m' = removeSenderIfEmpty (storeList m s l) l"
  shows "bs_inv m'" "pool m' = (pool m)(s := txs_of l)" "bs_aligned m \<Longrightarrow> aligned l \<Longrightarrow> bs_aligned m'"
    "bs_constraints m' = bs_constraints m"
    "getListForSender m' = (getListForSender m)(s := (if txs_of l = [] then None else Some l))"
proof -
  note st = storeList_result [OF inv s l]
  obtain r m1 where rm: "removeSender (storeList m s l) s = (r, m1)" by fastforce
  note rr = removeSender_result [OF st(1) rm]
  have m1: "m' = (if txs_of l = [] then m1 else storeList m s l)"
    using rm l(2) by (simp add: m' removeSenderIfEmpty_def sl_IsEmpty_iff)
  show get: "getListForSender m' = (getListForSender m)(s := (if txs_of l = [] then None else Some l))"
    using st(2) rr(2) m1 by simp
  show "pool m' = (pool m)(s := txs_of l)" by (auto simp: fun_eq_iff pool_def get)
  show "bs_inv m'" "bs_aligned m \<Longrightarrow> aligned l \<Longrightarrow> bs_aligned m'" "bs_constraints m' = bs_constraints m"
    using st rr m1 by auto
qed

lemma addTxReturnEvicted_result:
  assumes inv: "bs_inv m" and add: "addTxReturnEvicted m tx (Some t) = (added, evicted, m')"
  shows "bs_inv m'" "bs_aligned m \<Longrightarrow> bs_aligned m'" "bs_constraints m' = bs_constraints m"
    and "added \<longleftrightarrow> (\<forall>y \<in> set (pool m (senderOf tx)). compareTxs y tx \<noteq> 0)"
    and "\<exists>removed. evicted = map TxHash removed \<and>
      pool m' = (pool m)(senderOf tx := pool m' (senderOf tx)) \<and>
      (if added then add_mset tx (mset (pool m (senderOf tx))) else mset (pool m (senderOf tx))) =
        mset (pool m' (senderOf tx)) + mset removed \<and>
      (\<forall>r \<in> set removed. \<not> IsTransactionTracked t (Some r))"
    and "added \<Longrightarrow> \<exists>l. getListForSender m' (senderOf tx) = Some l \<and>
      (isCapacityExceeded l \<longrightarrow> (\<forall>r \<in> set (txs_of l). IsTransactionTracked t (Some r)))"
proof -
  let ?s = "senderOf tx"
  obtain l m1 where get: "getOrAddListForSender m ?s = (l, m1)" by fastforce
  note g = getOrAdd_result [OF inv get]
  obtain l' where ad: "sl_AddTx (Some t) l tx = (added, evicted, l')"
    and m': "m' = storeList m1 ?s l'"
    using add get by (auto simp: addTxReturnEvicted_def Let_def split: prod.splits)
  note a = AddTx_result [OF g(3) g(4) [symmetric] ad]
  have al: "bs_aligned m \<Longrightarrow> aligned l \<and> bs_aligned m1" using g(7) by simp
  have l': "sl_inv l'" "aligned l \<longrightarrow> aligned l'" "sender l' = ?s" "constraints l' = bs_constraints m1"
    using a(5) g(4,5) by simp_all
  have "getListForSender m1 ?s \<noteq> None" using g(2) by simp
  note st = storeList_result [OF g(1) this l'(1,3,4)]
  show "bs_inv m'" "bs_aligned m \<Longrightarrow> bs_aligned m'" "bs_constraints m' = bs_constraints m"
    using st al l' g(8) by (simp_all add: m')
  show "added \<longleftrightarrow> (\<forall>y \<in> set (pool m ?s). compareTxs y tx \<noteq> 0)" using a(1) g(6) by simp
  have pool': "pool m' = (pool m)(?s := txs_of l')"
    using st(2) g(2) by (auto simp: fun_eq_iff pool_def m')
  show "\<exists>removed. evicted = map TxHash removed \<and> pool m' = (pool m)(?s := pool m' ?s) \<and>
      (if added then add_mset tx (mset (pool m ?s)) else mset (pool m ?s)) = mset (pool m' ?s) + mset removed \<and>
      (\<forall>r \<in> set removed. \<not> IsTransactionTracked t (Some r))"
    using a(2,3) g(6) unfolding pool'
    by (cases added) (auto intro: exI [of _ "[]"])
  show "added \<Longrightarrow> \<exists>l. getListForSender m' ?s = Some l \<and>
      (isCapacityExceeded l \<longrightarrow> (\<forall>r \<in> set (txs_of l). IsTransactionTracked t (Some r)))"
    using a(4) st(2) by (simp add: m')
qed

lemma bs_removeLower_result:
  assumes inv: "bs_inv m" and rem: "bs_removeTransactionsWithLowerOrEqualNonceReturnHashes m tx = (hs, m')"
  shows "bs_inv m'" "bs_aligned m \<Longrightarrow> bs_aligned m'" "bs_constraints m' = bs_constraints m"
    and "hs = map TxHash (filter (\<lambda>t. nonceOf t \<le> nonceOf tx) (pool m (senderOf tx)))"
    and "pool m' = (pool m)(senderOf tx := filter (\<lambda>t. nonceOf tx < nonceOf t) (pool m (senderOf tx)))"
proof -
  let ?s = "senderOf tx"
  have "bs_inv m' \<and> (bs_aligned m \<longrightarrow> bs_aligned m') \<and> bs_constraints m' = bs_constraints m \<and>
    hs = map TxHash (filter (\<lambda>t. nonceOf t \<le> nonceOf tx) (pool m ?s)) \<and>
    pool m' = (pool m)(?s := filter (\<lambda>t. nonceOf tx < nonceOf t) (pool m ?s))"
  proof (cases "getListForSender m ?s")
    case None
    with rem inv show ?thesis
      by (auto simp: bs_removeTransactionsWithLowerOrEqualNonceReturnHashes_def pool_def fun_upd_idem)
  next
    case (Some l)
    obtain l' where r: "sl_removeTransactionsWithLowerOrEqualNonceReturnHashes l (nonceOf tx) = (hs, l')"
      and m': "m' = removeSenderIfEmpty (storeList m ?s l') l'"
      using rem Some by (auto simp: bs_removeTransactionsWithLowerOrEqualNonceReturnHashes_def split: prod.splits)
    note l = bs_invD [OF inv Some] and l' = removeLower_result [OF bs_invD(1) [OF inv Some] r]
    have "getListForSender m ?s \<noteq> None" using Some by simp
    from storeOrDrop_result [OF inv this l'(1) _ _ m'] l l'(2,3,4,6) Some show ?thesis
      by (auto simp: pool_def bs_aligned_def)
  qed
  then show "bs_inv m'" "bs_aligned m \<Longrightarrow> bs_aligned m'" "bs_constraints m' = bs_constraints m"
    and "hs = map TxHash (filter (\<lambda>t. nonceOf t \<le> nonceOf tx) (pool m ?s))"
    and "pool m' = (pool m)(?s := filter (\<lambda>t. nonceOf tx < nonceOf t) (pool m ?s))"
    by blast+
qed

lemma bs_removeHigher_result:
  assumes inv: "bs_inv m" and m': "m' = bs_removeTransactionsWithHigherOrEqualNonce m s n"
  shows "bs_inv m'" "bs_aligned m \<Longrightarrow> bs_aligned m'" "bs_constraints m' = bs_constraints m"
    and "pool m' = (pool m)(s := filter (\<lambda>t. nonceOf t < n) (pool m s))"
proof -
  have "bs_inv m' \<and> (bs_aligned m \<longrightarrow> bs_aligned m') \<and> bs_constraints m' = bs_constraints m \<and>
    pool m' = (pool m)(s := filter (\<lambda>t. nonceOf t < n) (pool m s))"
  proof (cases "getListForSender m s")
    case None
    with m' inv show ?thesis
      by (auto simp: bs_removeTransactionsWithHigherOrEqualNonce_def pool_def fun_upd_idem)
  next
    case (Some l)
    define l' where "l' = sl_removeTransactionsWithHigherOrEqualNonce l n"
    have m1: "m' = removeSenderIfEmpty (storeList m s l') l'"
      using m' Some by (simp add: bs_removeTransactionsWithHigherOrEqualNonce_def l'_def Let_def)
    note l = bs_invD [OF inv Some] and l' = removeHigher_result [OF bs_invD(1) [OF inv Some] l'_def]
    have "getListForSender m s \<noteq> None" using Some by simp
    from storeOrDrop_result [OF inv this l'(1) _ _ m1] l l'(2,3,5) Some show ?thesis
      by (auto simp: pool_def)
  qed
  then show "bs_inv m'" "bs_aligned m \<Longrightarrow> bs_aligned m'" "bs_constraints m' = bs_constraints m"
    and "pool m' = (pool m)(s := filter (\<lambda>t. nonceOf t < n) (pool m s))"
    by blast+
qed

text \<open>The senders the iteration visits.\<close>

lemma getSenders_iff:
  assumes "bs_inv m" shows "l \<in> set (getSenders m) \<longleftrightarrow> getListForSender m (sender l) = Some l"
proof -
  have cm: "cm_inv (bs_backingMap m)" using assms by (simp add: bs_inv_def)
  have "l \<in> set (getSenders m) \<longleftrightarrow> (\<exists>s. getListForSender m s = Some l)"
    using cm.mem_entries [OF cm] by (force simp: getSenders_def getListForSender_conv)
  then show ?thesis using bs_invD(2) [OF assms] by metis
qed

lemma distinct_getSenders: "bs_inv m \<Longrightarrow> distinct (map sender (getSenders m))"
proof -
  assume inv: "bs_inv m"
  then have cm: "cm_inv (bs_backingMap m)" by (simp add: bs_inv_def)
  have "map sender (getSenders m) = map fst (cm_IterCb (bs_backingMap m))"
    using cm.mem_entries [OF cm] bs_invD(2) [OF inv]
    by (auto simp: getSenders_def getListForSender_conv)
  then show ?thesis using cm.distinct_entries [OF cm] by simp
qed

lemma bs_clear_result:
  assumes "bs_inv m"
  shows "bs_inv (bs_clear m)" "getListForSender (bs_clear m) = Map.empty" "bs_aligned (bs_clear m)"
    "bs_constraints (bs_clear m) = bs_constraints m"
  using assms
  by (auto simp: bs_inv_def bs_clear_def getListForSender_conv bs_aligned_def cm_inv_Clear cm_Get_Clear cm_entries_Clear)

text \<open>Changing only the offset of a list.\<close>

lemma storeList_same_txs:
  assumes inv: "bs_inv m" and get: "getListForSender m s = Some l" and l': "sl_inv l'"
    "sender l' = sender l" "constraints l' = constraints l" "txs_of l' = txs_of l"
  shows "bs_inv (storeList m s l')" "pool (storeList m s l') = pool m" "bs_constraints (storeList m s l') = bs_constraints m"
    and "bs_aligned m \<Longrightarrow> aligned l' \<Longrightarrow> bs_aligned (storeList m s l')"
proof -
  note l = bs_invD [OF inv get]
  have "getListForSender m s \<noteq> None" "sender l' = s" "constraints l' = bs_constraints m" using get l l' by simp_all
  note st = storeList_result [OF inv this(1) l'(1) this(2,3)]
  show "bs_inv (storeList m s l')" "bs_constraints (storeList m s l') = bs_constraints m"
    and "bs_aligned m \<Longrightarrow> aligned l' \<Longrightarrow> bs_aligned (storeList m s l')" using st by simp_all
  show "pool (storeList m s l') = pool m" using st(2) get l'(4) by (auto simp: fun_eq_iff pool_def)
qed

end
