(* ===== verification/Virtual_Accounts.thy ===== *)
theory Virtual_Accounts
  imports Breadcrumbs
begin

text \<open>
  The accounts as a selection sees them: session balances reduced by what the tracked blocks consume.
  Models \<open>virtualAccountBalance.go\<close>, \<open>virtualAccountRecord.go\<close>, \<open>virtualSelectionSession.go\<close>,
  \<open>virtualSessionComputer.go\<close> and \<open>accountBreadcrumbsValidator.go\<close>. A pointer to a record of the
  session is the record's address in the map.
\<close>

section \<open>Balances and records\<close>

record virtualAccountBalance =
  initialBalance :: int
  vb_consumedBalance :: int

definition newVirtualAccountBalance :: "int option \<Rightarrow> virtualAccountBalance result" where
  "newVirtualAccountBalance b =
     (case b of None \<Rightarrow> Inl errNilBalance
      | Some x \<Rightarrow> Inr \<lparr>initialBalance = x, vb_consumedBalance = 0\<rparr>)"

definition vb_accumulateConsumedBalance :: "virtualAccountBalance \<Rightarrow> int \<Rightarrow> virtualAccountBalance" where
  "vb_accumulateConsumedBalance vb v = vb\<lparr>vb_consumedBalance := vb_consumedBalance vb + v\<rparr>"

definition vb_validateBalance :: "virtualAccountBalance \<Rightarrow> txcache_error option" where
  "vb_validateBalance vb =
     (if vb_consumedBalance vb > initialBalance vb then Some errExceededBalance else None)"

record virtualAccountRecord =
  initialNonce :: OptionalUint64
  virtualBalance :: virtualAccountBalance
  hasPendingChangeGuardianTransaction :: bool

definition newVirtualAccountRecord :: "OptionalUint64 \<Rightarrow> int option \<Rightarrow> virtualAccountRecord result" where
  "newVirtualAccountRecord nonce balance =
     (case newVirtualAccountBalance balance of
        Inl e \<Rightarrow> Inl e
      | Inr vb \<Rightarrow> Inr \<lparr>initialNonce = nonce, virtualBalance = vb,
                       hasPendingChangeGuardianTransaction = False\<rparr>)"

definition getInitialNonce :: "virtualAccountRecord \<Rightarrow> u64 result" where
  "getInitialNonce r =
     (if \<not> optHasValue (initialNonce r) then Inl errNonceNotSet else Inr (optValue (initialNonce r)))"

definition getInitialBalance :: "virtualAccountRecord \<Rightarrow> int" where
  "getInitialBalance r = initialBalance (virtualBalance r)"

definition getConsumedBalance :: "virtualAccountRecord \<Rightarrow> int" where
  "getConsumedBalance r = vb_consumedBalance (virtualBalance r)"

definition vr_accumulateConsumedBalance :: "virtualAccountRecord \<Rightarrow> int \<Rightarrow> virtualAccountRecord" where
  "vr_accumulateConsumedBalance r v = r\<lparr>virtualBalance := vb_accumulateConsumedBalance (virtualBalance r) v\<rparr>"

definition hasPendingChangeGuardian :: "virtualAccountRecord \<Rightarrow> bool" where
  "hasPendingChangeGuardian r = hasPendingChangeGuardianTransaction r"

lemma vr_accumulate_simps [simp]:
  "getInitialBalance (vr_accumulateConsumedBalance r v) = getInitialBalance r"
  "getConsumedBalance (vr_accumulateConsumedBalance r v) = getConsumedBalance r + v"
  "initialNonce (vr_accumulateConsumedBalance r v) = initialNonce r"
  "hasPendingChangeGuardianTransaction (vr_accumulateConsumedBalance r v) =
     hasPendingChangeGuardianTransaction r"
  by (simp_all add: vr_accumulateConsumedBalance_def vb_accumulateConsumedBalance_def
      getInitialBalance_def getConsumedBalance_def)

section \<open>The virtual session\<close>

record virtualSelectionSession =
  vs_session :: SelectionSession
  virtualAccountsByAddress :: "(bytes \<times> virtualAccountRecord) list"

definition newVirtualSelectionSession ::
  "SelectionSession \<Rightarrow> (bytes \<times> virtualAccountRecord) list \<Rightarrow> virtualSelectionSession" where
  "newVirtualSelectionSession session accounts =
     \<lparr>vs_session = session, virtualAccountsByAddress = accounts\<rparr>"

definition createAccountRecord :: "virtualSelectionSession \<Rightarrow> bytes \<Rightarrow> virtualAccountRecord result" where
  "createAccountRecord vs address =
     (case GetAccountNonceAndBalance (vs_session vs) address of
        Inl e \<Rightarrow> Inl e
      | Inr (nonce, balance) \<Rightarrow> newVirtualAccountRecord (someNonce nonce) balance)"

definition getRecord ::
  "virtualSelectionSession \<Rightarrow> bytes \<Rightarrow> virtualAccountRecord result \<times> virtualSelectionSession" where
  "getRecord vs address =
     (case map_of (virtualAccountsByAddress vs) address of
        Some r \<Rightarrow> (Inr r, vs)
      | None \<Rightarrow>
          (case createAccountRecord vs address of
             Inl e \<Rightarrow> (Inl e, vs)
           | Inr r \<Rightarrow>
               (Inr r, vs\<lparr>virtualAccountsByAddress :=
                         AList.update address r (virtualAccountsByAddress vs)\<rparr>)))"

text \<open>Mutation through a record pointer: the record stored under the address.\<close>

definition modifyRecord ::
  "virtualSelectionSession \<Rightarrow> bytes \<Rightarrow> (virtualAccountRecord \<Rightarrow> virtualAccountRecord) \<Rightarrow>
   virtualSelectionSession" where
  "modifyRecord vs address f =
     (case map_of (virtualAccountsByAddress vs) address of
        None \<Rightarrow> vs
      | Some r \<Rightarrow> vs\<lparr>virtualAccountsByAddress :=
                     AList.update address (f r) (virtualAccountsByAddress vs)\<rparr>)"

definition accumulate_opt ::
  "virtualSelectionSession \<Rightarrow> bytes \<Rightarrow> int option \<Rightarrow> virtualSelectionSession" where
  "accumulate_opt vs address v =
     (case v of None \<Rightarrow> vs | Some x \<Rightarrow> modifyRecord vs address (\<lambda>r. vr_accumulateConsumedBalance r x))"

text \<open>\<open>senderRecord\<close> is the record of the sender of the heap item, given by its address.\<close>

definition vs_accumulateConsumedBalance ::
  "virtualSelectionSession \<Rightarrow> WrappedTransaction \<Rightarrow> bytes \<Rightarrow>
   txcache_error option \<times> virtualSelectionSession" where
  "vs_accumulateConsumedBalance vs tx senderRecord =
     (if isFeePayerSameAsSender tx
      then (None, accumulate_opt (accumulate_opt vs senderRecord (Fee tx)) senderRecord (TransferredValue tx))
      else (case getRecord vs (payerOf tx) of
              (Inl e, vs) \<Rightarrow> (Some e, vs)
            | (Inr _, vs) \<Rightarrow>
                (None, accumulate_opt (accumulate_opt vs (payerOf tx) (Fee tx)) senderRecord
                         (TransferredValue tx))))"

definition consumedBalanceExceedsInitialBalance ::
  "virtualSelectionSession \<Rightarrow> bytes \<Rightarrow> int \<Rightarrow> bool \<times> virtualSelectionSession" where
  "consumedBalanceExceedsInitialBalance vs address v =
     (case getRecord vs address of
        (Inl e, vs) \<Rightarrow> (True, vs)
      | (Inr r, vs) \<Rightarrow> (getConsumedBalance r + v > getInitialBalance r, vs))"

text \<open>The argument is \<open>None\<close> for a nil wrapper or a wrapper without a transaction.\<close>

definition detectWillBalanceBeExceeded ::
  "virtualSelectionSession \<Rightarrow> WrappedTransaction option \<Rightarrow> bool \<times> virtualSelectionSession" where
  "detectWillBalanceBeExceeded vs otx =
     (case otx of
        None \<Rightarrow> (True, vs)
      | Some tx \<Rightarrow>
          (case TransferredValue tx of
             None \<Rightarrow> (True, vs)
           | Some transferredValue \<Rightarrow>
               (let (exceeded, vs) = consumedBalanceExceedsInitialBalance vs (senderOf tx) transferredValue
                in if exceeded then (True, vs)
                   else case Fee tx of
                          None \<Rightarrow> (True, vs)
                        | Some fee \<Rightarrow>
                            (let (exceeded, vs) = consumedBalanceExceedsInitialBalance vs (payerOf tx) fee
                             in if exceeded then (True, vs)
                                else if slice_Equal (GetSndAddr (Tx tx)) (FeePayer tx)
                                then consumedBalanceExceedsInitialBalance vs (senderOf tx)
                                       (transferredValue + fee)
                                else (False, vs)))))"

definition isIncorrectlyGuarded :: "virtualSelectionSession \<Rightarrow> Transaction \<Rightarrow> bool" where
  "isIncorrectlyGuarded vs tx = IsIncorrectlyGuarded (vs_session vs) tx"

definition setChangeGuardianIfNeeded ::
  "virtualSelectionSession \<Rightarrow> Transaction \<Rightarrow> virtualSelectionSession" where
  "setChangeGuardianIfNeeded vs tx =
     (if \<not> IsGuarded (vs_session vs) tx then vs
      else if isIncorrectlyGuarded vs tx then vs
      else (case getRecord vs (slice_str (GetSndAddr tx)) of
              (Inl e, vs) \<Rightarrow> vs
            | (Inr _, vs) \<Rightarrow>
                modifyRecord vs (slice_str (GetSndAddr tx))
                  (\<lambda>r. r\<lparr>hasPendingChangeGuardianTransaction := True\<rparr>)))"

section \<open>From global breadcrumbs to virtual records\<close>

record virtualSessionComputer =
  vsc_session :: SelectionSession
  vsc_accounts :: "(bytes \<times> virtualAccountRecord) list"

definition newVirtualSessionComputer :: "SelectionSession \<Rightarrow> virtualSessionComputer" where
  "newVirtualSessionComputer session = \<lparr>vsc_session = session, vsc_accounts = []\<rparr>"

definition fromGlobalBreadcrumbToVirtualRecord ::
  "virtualSessionComputer \<Rightarrow> bytes \<Rightarrow> u64 \<Rightarrow> int option \<Rightarrow> globalAccountBreadcrumb \<Rightarrow>
   txcache_error option \<times> virtualSessionComputer" where
  "fromGlobalBreadcrumbToVirtualRecord c address accountNonce accountBalance gab =
     (case map_of (vsc_accounts c) address of
        Some _ \<Rightarrow> (None, c)
      | None \<Rightarrow>
          let nonce = (if isUser gab then someNonce (optValue (gab_lastNonce gab) + 1)
                       else someNonce accountNonce)
          in (case newVirtualAccountRecord nonce accountBalance of
                Inl e \<Rightarrow> (Some e, c)
              | Inr r \<Rightarrow>
                  (None, c\<lparr>vsc_accounts :=
                    AList.update address (vr_accumulateConsumedBalance r (gab_consumedBalance gab))
                      (vsc_accounts c)\<rparr>)))"

definition createBlockedVirtualRecord ::
  "virtualSessionComputer \<Rightarrow> bytes \<Rightarrow> int option \<Rightarrow> globalAccountBreadcrumb \<Rightarrow>
   txcache_error option \<times> virtualSessionComputer" where
  "createBlockedVirtualRecord c address accountBalance gab =
     (case map_of (vsc_accounts c) address of
        Some _ \<Rightarrow> (None, c)
      | None \<Rightarrow>
          (case newVirtualAccountRecord noNonce accountBalance of
             Inl e \<Rightarrow> (Some e, c)
           | Inr r \<Rightarrow>
               (None, c\<lparr>vsc_accounts :=
                 AList.update address (vr_accumulateConsumedBalance r (gab_consumedBalance gab))
                   (vsc_accounts c)\<rparr>)))"

fun handleGlobalAccountBreadcrumbs ::
  "virtualSessionComputer \<Rightarrow> (bytes \<times> globalAccountBreadcrumb) list \<Rightarrow>
   txcache_error option \<times> virtualSessionComputer" where
  "handleGlobalAccountBreadcrumbs c [] = (None, c)"
| "handleGlobalAccountBreadcrumbs c ((address, gab) # gabs) =
     (case GetAccountNonceAndBalance (vsc_session c) address of
        Inl e \<Rightarrow> (Some e, c)
      | Inr (accountNonce, accountBalance) \<Rightarrow>
          (case (if \<not> isContinuousWithSessionNonce gab accountNonce
                 then createBlockedVirtualRecord c address accountBalance gab
                 else fromGlobalBreadcrumbToVirtualRecord c address accountNonce accountBalance gab) of
             (Some e, c) \<Rightarrow> (Some e, c)
           | (None, c) \<Rightarrow> handleGlobalAccountBreadcrumbs c gabs))"

definition createVirtualSelectionSession ::
  "virtualSessionComputer \<Rightarrow> (bytes \<times> globalAccountBreadcrumb) list \<Rightarrow> virtualSelectionSession result" where
  "createVirtualSelectionSession c gabs =
     (case handleGlobalAccountBreadcrumbs c gabs of
        (Some e, _) \<Rightarrow> Inl e
      | (None, c) \<Rightarrow> Inr (newVirtualSelectionSession (vsc_session c) (vsc_accounts c)))"

section \<open>Validating breadcrumbs against the session\<close>

record breadcrumbsValidator =
  sendersInContinuityWithSessionNonce :: "bytes list"
  accountPreviousBreadcrumb :: "(bytes \<times> accountBreadcrumb) list"
  virtualBalancesByAddress :: "(bytes \<times> virtualAccountBalance) list"
  discontinuousAddresses :: "bytes list"

definition newBreadcrumbValidator :: breadcrumbsValidator where
  "newBreadcrumbValidator =
     \<lparr>sendersInContinuityWithSessionNonce = [], accountPreviousBreadcrumb = [],
      virtualBalancesByAddress = [], discontinuousAddresses = []\<rparr>"

definition validateContinuityWithSessionNonce ::
  "breadcrumbsValidator \<Rightarrow> bytes \<Rightarrow> u64 \<Rightarrow> accountBreadcrumb \<Rightarrow> bool \<times> breadcrumbsValidator" where
  "validateContinuityWithSessionNonce v address accountNonce b =
     (if address \<in> set (sendersInContinuityWithSessionNonce v) then (True, v)
      else if \<not> verifyContinuityWithSessionNonce b accountNonce then (False, v)
      else (True, v\<lparr>sendersInContinuityWithSessionNonce :=
                   List.insert address (sendersInContinuityWithSessionNonce v)\<rparr>))"

definition validateContinuityWithPreviousBreadcrumb ::
  "breadcrumbsValidator \<Rightarrow> bytes \<Rightarrow> accountBreadcrumb \<Rightarrow> bool \<times> breadcrumbsValidator" where
  "validateContinuityWithPreviousBreadcrumb v address b =
     (let previousBreadcrumb = map_of (accountPreviousBreadcrumb v) address
      in if \<not> verifyContinuityBetweenAccountBreadcrumbs b previousBreadcrumb then (False, v)
         else (True, v\<lparr>accountPreviousBreadcrumb :=
                      AList.update address b (accountPreviousBreadcrumb v)\<rparr>))"

definition validateNonceContinuityOfBreadcrumb ::
  "breadcrumbsValidator \<Rightarrow> bytes \<Rightarrow> u64 \<Rightarrow> accountBreadcrumb \<Rightarrow> bool \<times> breadcrumbsValidator" where
  "validateNonceContinuityOfBreadcrumb v address accountSessionNonce b =
     (if hasUnknownNonce b then (True, v)
      else case validateContinuityWithSessionNonce v address accountSessionNonce b of
             (False, v) \<Rightarrow> (False, v)
           | (True, v) \<Rightarrow>
               (case validateContinuityWithPreviousBreadcrumb v address b of
                  (False, v) \<Rightarrow> (False, v)
                | (True, v) \<Rightarrow> (True, v)))"

definition markAddressAsDiscontinuous :: "breadcrumbsValidator \<Rightarrow> bytes \<Rightarrow> breadcrumbsValidator" where
  "markAddressAsDiscontinuous v address =
     v\<lparr>discontinuousAddresses := List.insert address (discontinuousAddresses v)\<rparr>"

definition isAddressDiscontinuous :: "breadcrumbsValidator \<Rightarrow> bytes \<Rightarrow> bool" where
  "isAddressDiscontinuous v address \<longleftrightarrow> address \<in> set (discontinuousAddresses v)"

definition val_validateBalance ::
  "breadcrumbsValidator \<Rightarrow> bytes \<Rightarrow> int option \<Rightarrow> accountBreadcrumb \<Rightarrow>
   txcache_error option \<times> breadcrumbsValidator" where
  "val_validateBalance v address balance b =
     (case (case map_of (virtualBalancesByAddress v) address of
              Some vb \<Rightarrow> Inr vb
            | None \<Rightarrow> newVirtualAccountBalance balance) of
        Inl e \<Rightarrow> (Some e, v)
      | Inr vb \<Rightarrow>
          let vb = vb_accumulateConsumedBalance vb (consumedBalance b)
          in (vb_validateBalance vb,
              v\<lparr>virtualBalancesByAddress := AList.update address vb (virtualBalancesByAddress v)\<rparr>))"

section \<open>Records of a session\<close>

abbreviation rec_of :: "virtualSelectionSession \<Rightarrow> bytes \<Rightarrow> virtualAccountRecord option" where
  "rec_of vs \<equiv> map_of (virtualAccountsByAddress vs)"

lemma rec_of_modify [simp]:
  "rec_of (modifyRecord vs a f) = (\<lambda>x. if x = a then map_option f (rec_of vs a) else rec_of vs x)"
  by (auto simp: modifyRecord_def update_conv' fun_eq_iff split: option.splits)

lemma vs_session_modify [simp]: "vs_session (modifyRecord vs a f) = vs_session vs"
  by (simp add: modifyRecord_def split: option.splits)

lemma vs_session_getRecord: "getRecord vs a = (r, vs') \<Longrightarrow> vs_session vs' = vs_session vs"
  by (auto simp: getRecord_def split: option.splits sum.splits)

lemma getRecord_stored: "getRecord vs a = (Inr r, vs') \<Longrightarrow> rec_of vs' a = Some r"
  by (auto simp: getRecord_def update_conv' split: option.splits sum.splits)

text \<open>Looking a record up never changes a record; it may add one for a new account, with nothing
  consumed.\<close>

lemma rec_of_getRecord:
  assumes "getRecord vs a = (res, vs')"
  shows "rec_of vs' x = rec_of vs x \<or>
    x = a \<and> rec_of vs x = None \<and> (\<exists>r. rec_of vs' x = Some r \<and> getConsumedBalance r = 0 \<and>
      createAccountRecord vs x = Inr r)"
proof -
  have "getConsumedBalance r = 0" if "createAccountRecord vs a = Inr r" for r
    using that by (auto simp: createAccountRecord_def newVirtualAccountRecord_def
        newVirtualAccountBalance_def getConsumedBalance_def split: sum.splits option.splits)
  with assms show ?thesis
    by (auto simp: getRecord_def update_conv' split: option.splits sum.splits if_splits)
qed

lemma accumulate_opt_simps [simp]:
  "accumulate_opt vs a None = vs"
  "accumulate_opt vs a (Some x) = modifyRecord vs a (\<lambda>r. vr_accumulateConsumedBalance r x)"
  by (simp_all add: accumulate_opt_def)

end
