(* ===== verification/Selection.thy ===== *)
theory Selection
  imports Virtual_Accounts
begin

text \<open>
  Transaction selection: \<open>transactionsHeapItem.go\<close>, \<open>transactionsHeap.go\<close> and the selection loop of
  \<open>selection.go\<close> over the heap of \<open>Go_Heap\<close>. The loop is total: every iteration consumes a transaction
  of some bunch. The wall clock and the time budget callback are arguments: \<open>now\<close> and the answer of
  the n-th call of \<open>HaveTimeForSelection\<close>.
\<close>

section \<open>Heap items\<close>

record transactionsHeapItem =
  item_sender :: bytes
  bunch :: bunchOfTransactions
  currentTransactionIndex :: nat
  currentTransaction :: WrappedTransaction
  currentTransactionNonce :: u64
  latestSelectedTransaction :: "WrappedTransaction option"
  latestSelectedTransactionNonce :: u64

definition newTransactionsHeapItem :: "bunchOfTransactions \<Rightarrow> transactionsHeapItem result" where
  "newTransactionsHeapItem txs =
     (case txs of
        [] \<Rightarrow> Inl errEmptyBunchOfTransactions
      | firstTransaction # _ \<Rightarrow>
          Inr \<lparr>item_sender = senderOf firstTransaction, bunch = txs, currentTransactionIndex = 0,
               currentTransaction = firstTransaction, currentTransactionNonce = nonceOf firstTransaction,
               latestSelectedTransaction = None, latestSelectedTransactionNonce = 0\<rparr>)"

definition getCurrentTransaction :: "transactionsHeapItem \<Rightarrow> WrappedTransaction" where
  "getCurrentTransaction item = currentTransaction item"

definition selectCurrentTransaction :: "transactionsHeapItem \<Rightarrow> transactionsHeapItem" where
  "selectCurrentTransaction item =
     item\<lparr>latestSelectedTransaction := Some (currentTransaction item),
          latestSelectedTransactionNonce := currentTransactionNonce item\<rparr>"

text \<open>\<open>None\<close> when there is no next transaction (the method returns false and changes nothing).\<close>

definition gotoNextTransaction :: "transactionsHeapItem \<Rightarrow> transactionsHeapItem option" where
  "gotoNextTransaction item =
     (if currentTransactionIndex item + 1 \<ge> length (bunch item) then None
      else let i = currentTransactionIndex item + 1; tx = bunch item ! i
           in Some (item\<lparr>currentTransactionIndex := i, currentTransaction := tx,
                         currentTransactionNonce := nonceOf tx\<rparr>))"

definition detectInitialGap :: "transactionsHeapItem \<Rightarrow> u64 \<Rightarrow> bool" where
  "detectInitialGap item senderNonce =
     (if latestSelectedTransaction item \<noteq> None then False else currentTransactionNonce item > senderNonce)"

definition detectMiddleGap :: "transactionsHeapItem \<Rightarrow> bool" where
  "detectMiddleGap item =
     (if latestSelectedTransaction item = None then False
      else currentTransactionNonce item > latestSelectedTransactionNonce item + 1)"

definition detectLowerNonce :: "transactionsHeapItem \<Rightarrow> u64 \<Rightarrow> bool" where
  "detectLowerNonce item senderNonce \<longleftrightarrow> currentTransactionNonce item < senderNonce"

definition detectIncorrectlyGuarded :: "transactionsHeapItem \<Rightarrow> virtualSelectionSession \<Rightarrow> bool" where
  "detectIncorrectlyGuarded item vs = isIncorrectlyGuarded vs (Tx (currentTransaction item))"

definition detectNonceDuplicate :: "transactionsHeapItem \<Rightarrow> bool" where
  "detectNonceDuplicate item =
     (if latestSelectedTransaction item = None then False
      else currentTransactionNonce item = latestSelectedTransactionNonce item)"

definition isCurrentTransactionMoreValuableForNetwork ::
  "transactionsHeapItem \<Rightarrow> transactionsHeapItem \<Rightarrow> bool" where
  "isCurrentTransactionMoreValuableForNetwork item other =
     isTransactionMoreValuableForNetwork (currentTransaction item) (currentTransaction other)"

text \<open>The \<open>less\<close> functions of the two heaps.\<close>

definition minHeapLess :: "transactionsHeapItem \<Rightarrow> transactionsHeapItem \<Rightarrow> bool" where
  "minHeapLess x y = isCurrentTransactionMoreValuableForNetwork y x"

definition maxHeapLess :: "transactionsHeapItem \<Rightarrow> transactionsHeapItem \<Rightarrow> bool" where
  "maxHeapLess x y = isCurrentTransactionMoreValuableForNetwork x y"

interpretation maxheap: heap_order maxHeapLess
  by unfold_locales
     (auto simp: maxHeapLess_def isCurrentTransactionMoreValuableForNetwork_def
       dest: moreValuable_asym moreValuable_neg_trans)

interpretation minheap: heap_order minHeapLess
  by unfold_locales
     (auto simp: minHeapLess_def isCurrentTransactionMoreValuableForNetwork_def
       dest: moreValuable_asym moreValuable_neg_trans)

text \<open>Initialising a heap with the first transaction of each bunch; empty bunches are skipped.\<close>

fun push_bunches ::
  "(transactionsHeapItem \<Rightarrow> transactionsHeapItem \<Rightarrow> bool) \<Rightarrow> transactionsHeapItem list \<Rightarrow>
   bunchOfTransactions list \<Rightarrow> transactionsHeapItem list" where
  "push_bunches lt h [] = h"
| "push_bunches lt h (b # bs) =
     (case newTransactionsHeapItem b of
        Inl _ \<Rightarrow> push_bunches lt h bs
      | Inr item \<Rightarrow> push_bunches lt (heap_Push lt h item) bs)"

text \<open>What is left to visit; it shrinks with every iteration of the loops over a heap.\<close>

definition item_remaining :: "transactionsHeapItem \<Rightarrow> nat" where
  "item_remaining item = Suc (length (bunch item) - currentTransactionIndex item)"

definition heap_remaining :: "transactionsHeapItem list \<Rightarrow> nat" where
  "heap_remaining h = (\<Sum>item \<in># mset h. item_remaining item)"

lemma heap_remaining_Pop:
  "heap_Pop lt h = Some (item, h') \<Longrightarrow> heap_remaining h = item_remaining item + heap_remaining h'"
  by (drule mset_heap_Pop) (simp add: heap_remaining_def)

lemma heap_remaining_Push [simp]:
  "heap_remaining (heap_Push lt h item) = item_remaining item + heap_remaining h"
  by (simp add: heap_remaining_def)

lemma item_remaining_pos: "0 < item_remaining item"
  by (simp add: item_remaining_def)

lemma item_remaining_next: "gotoNextTransaction item = Some item' \<Longrightarrow> item_remaining item' < item_remaining item"
  by (auto simp: gotoNextTransaction_def item_remaining_def Let_def split: if_splits)

section \<open>Skipping\<close>

definition IsBuiltinFuncCallWithParam :: "bytes \<Rightarrow> bytes \<Rightarrow> bool" where
  "IsBuiltinFuncCallWithParam txData function =
     (let expectedTxDataPrefix = function @ [64]
      in take (length expectedTxDataPrefix) txData = expectedTxDataPrefix)"

text \<open>The name of the set-guardian built-in function is a constant of another module, an argument
  here.\<close>

definition IsSetGuardianCall :: "bytes \<Rightarrow> bytes \<Rightarrow> bool" where
  "IsSetGuardianCall setGuardian txData = IsBuiltinFuncCallWithParam txData setGuardian"

definition detectSkippableSender ::
  "bytes \<Rightarrow> virtualSelectionSession \<Rightarrow> transactionsHeapItem \<Rightarrow> virtualAccountRecord \<Rightarrow>
   bool \<times> virtualSelectionSession" where
  "detectSkippableSender setGuardian vs item virtualRecord =
     (case getInitialNonce virtualRecord of
        Inl _ \<Rightarrow> (True, vs)
      | Inr nonce \<Rightarrow>
          if hasPendingChangeGuardian virtualRecord then (True, vs)
          else if detectInitialGap item nonce then (True, vs)
          else if detectMiddleGap item then (True, vs)
          else (let (exceeded, vs) = detectWillBalanceBeExceeded vs (Some (currentTransaction item))
                in if exceeded then (True, vs)
                   else if \<not> IsSetGuardianCall setGuardian (GetData (Tx (currentTransaction item)))
                   then (False, vs)
                   else (False, setChangeGuardianIfNeeded vs (Tx (currentTransaction item)))))"

definition detectSkippableTransaction ::
  "virtualSelectionSession \<Rightarrow> transactionsHeapItem \<Rightarrow> virtualAccountRecord \<Rightarrow> bool" where
  "detectSkippableTransaction vs item virtualRecord =
     (case getInitialNonce virtualRecord of
        Inl _ \<Rightarrow> True
      | Inr nonce \<Rightarrow>
          if detectLowerNonce item nonce then True
          else if detectIncorrectlyGuarded item vs then True
          else detectNonceDuplicate item)"

section \<open>The selection loop\<close>

text \<open>\<open>TxSelectionOptions\<close> of \<open>common/holders/txSelectionOptions.go\<close>.\<close>

record txSelectionOptions =
  gasRequested :: u64
  opt_maxNumTxs :: int
  loopDurationCheckInterval :: int
  haveTimeForSelection :: "nat \<Rightarrow> bool"

definition maxAccountsPerBlock :: int where
  "maxAccountsPerBlock = 12000"

record selectionState =
  sel_heap :: "transactionsHeapItem list"
  selectedTransactions :: bunchOfTransactions
  accumulatedGas :: u64
  uniqueSenderCount :: int
  processedTxs :: int
  timeChecks :: nat
  sel_vs :: virtualSelectionSession

text \<open>One iteration ends with \<open>break\<close>, with the next iteration, or with the division-by-zero panic of
  a zero check interval.\<close>

datatype 's iteration = Break 's | Continue 's | Panic

definition push_next :: "selectionState \<Rightarrow> transactionsHeapItem \<Rightarrow> selectionState iteration" where
  "push_next s item =
     (case gotoNextTransaction item of
        None \<Rightarrow> Continue s
      | Some item' \<Rightarrow> Continue (s\<lparr>sel_heap := heap_Push maxHeapLess (sel_heap s) item'\<rparr>))"

definition select_item ::
  "bytes \<Rightarrow> selectionState \<Rightarrow> transactionsHeapItem \<Rightarrow> selectionState iteration" where
  "select_item setGuardian s item =
     (case getRecord (sel_vs s) (item_sender item) of
        (Inl e, vs) \<Rightarrow> Continue (s\<lparr>sel_vs := vs\<rparr>)
      | (Inr senderRecord, vs) \<Rightarrow>
          (let (shouldSkipSender, vs) = detectSkippableSender setGuardian vs item senderRecord
           in if shouldSkipSender then Continue (s\<lparr>sel_vs := vs\<rparr>)
              else if detectSkippableTransaction vs item senderRecord then push_next (s\<lparr>sel_vs := vs\<rparr>) item
              else (case vs_accumulateConsumedBalance vs (getCurrentTransaction item) (item_sender item) of
                      (Some e, vs) \<Rightarrow> push_next (s\<lparr>sel_vs := vs\<rparr>) item
                    | (None, vs) \<Rightarrow>
                        (let isNewSender = (latestSelectedTransaction item = None);
                             count = (if isNewSender then uniqueSenderCount s + 1 else uniqueSenderCount s);
                             s = s\<lparr>sel_vs := vs, uniqueSenderCount := count\<rparr>
                         in if isNewSender \<and> count > maxAccountsPerBlock then Break s
                            else push_next
                              (s\<lparr>accumulatedGas :=
                                   accumulatedGas s + GetGasLimit (Tx (currentTransaction item)),
                                 selectedTransactions :=
                                   selectedTransactions s @ [getCurrentTransaction item]\<rparr>)
                              (selectCurrentTransaction item)))))"

definition select_iteration ::
  "bytes \<Rightarrow> txSelectionOptions \<Rightarrow> int \<Rightarrow> int \<Rightarrow> selectionState \<Rightarrow> selectionState iteration" where
  "select_iteration setGuardian options propagationGracePeriod selectionCutoff s =
     (case heap_Pop maxHeapLess (sel_heap s) of
        None \<Rightarrow> Panic
      | Some (item, heap) \<Rightarrow>
          (let s = s\<lparr>sel_heap := heap, processedTxs := processedTxs s + 1\<rparr>;
               gasLimit = GetGasLimit (Tx (currentTransaction item))
           in if accumulatedGas s + gasLimit > gasRequested options then Break s
              else if int (length (selectedTransactions s)) \<ge> opt_maxNumTxs options then Break s
              else if loopDurationCheckInterval options = 0 then Panic
              else let check = (processedTxs s mod loopDurationCheckInterval options = 0);
                       haveTime = haveTimeForSelection options (timeChecks s);
                       s = (if check then s\<lparr>timeChecks := timeChecks s + 1\<rparr> else s)
                   in if check \<and> \<not> haveTime then Break s
                      else if propagationGracePeriod > 0 \<and>
                        ReceivedAt (currentTransaction item) > selectionCutoff then Continue s
                      else select_item setGuardian s item))"

lemma push_next_remaining:
  "push_next s item = Continue s' \<Longrightarrow> heap_remaining (sel_heap s') < heap_remaining (sel_heap s) + item_remaining item"
  by (auto simp: push_next_def item_remaining_pos dest: item_remaining_next split: option.splits)

lemma item_remaining_select [simp]: "item_remaining (selectCurrentTransaction item) = item_remaining item"
  by (simp add: item_remaining_def selectCurrentTransaction_def)

lemma select_item_remaining:
  "select_item g s item = Continue s' \<Longrightarrow> heap_remaining (sel_heap s') < heap_remaining (sel_heap s) + item_remaining item"
  by (auto simp: select_item_def Let_def item_remaining_pos dest!: push_next_remaining
      split: prod.splits sum.splits option.splits if_splits)

lemma select_iteration_remaining:
  assumes "select_iteration g opts grace cutoff s = Continue s'"
  shows "heap_remaining (sel_heap s') < heap_remaining (sel_heap s)"
proof -
  from assms obtain item h where pop: "heap_Pop maxHeapLess (sel_heap s) = Some (item, h)"
    by (auto simp: select_iteration_def split: option.splits)
  have "heap_remaining (sel_heap s') < heap_remaining h + item_remaining item"
    using assms pop
    by (auto simp: select_iteration_def Let_def item_remaining_pos dest!: select_item_remaining
        split: if_splits)
  with heap_remaining_Pop [OF pop] show ?thesis by simp
qed

text \<open>\<open>None\<close> is the panic.\<close>

function select_loop ::
  "bytes \<Rightarrow> txSelectionOptions \<Rightarrow> int \<Rightarrow> int \<Rightarrow> selectionState \<Rightarrow> selectionState option" where
  "select_loop setGuardian options grace cutoff s =
     (if sel_heap s = [] then Some s
      else case select_iteration setGuardian options grace cutoff s of
             Break s' \<Rightarrow> Some s'
           | Continue s' \<Rightarrow> select_loop setGuardian options grace cutoff s'
           | Panic \<Rightarrow> None)"
  by pat_completeness auto
termination
  by (relation "measure (\<lambda>(g, opts, grace, cutoff, s). heap_remaining (sel_heap s))")
     (auto simp: select_iteration_remaining)

declare select_loop.simps [simp del]

definition selection_start ::
  "virtualSelectionSession \<Rightarrow> bunchOfTransactions list \<Rightarrow> selectionState" where
  "selection_start vs bunches =
     \<lparr>sel_heap = push_bunches maxHeapLess (heap_Init maxHeapLess []) bunches,
      selectedTransactions = [], accumulatedGas = 0, uniqueSenderCount = 0, processedTxs = 0,
      timeChecks = 0, sel_vs = vs\<rparr>"

definition selectTransactionsFromBunches ::
  "bytes \<Rightarrow> virtualSelectionSession \<Rightarrow> bunchOfTransactions list \<Rightarrow> txSelectionOptions \<Rightarrow> int \<Rightarrow> int \<Rightarrow>
   (bunchOfTransactions \<times> u64) option" where
  "selectTransactionsFromBunches setGuardian vs bunches options propagationGracePeriod now =
     (case select_loop setGuardian options propagationGracePeriod (now - propagationGracePeriod)
             (selection_start vs bunches) of
        None \<Rightarrow> None
      | Some s \<Rightarrow> Some (selectedTransactions s, accumulatedGas s))"

end
