(* ===== verification/Selection_Tracker.thy ===== *)
theory Selection_Tracker
  imports Sender_List Selection
begin

text \<open>
  \<open>selectionTracker.go\<close>, \<open>blocks.go\<close> and \<open>trackerInfo.go\<close>: the proposed blocks that are not executed yet.
  The tracker calls back the cache that owns it through the interface
  \<open>txCacheForSelectionTracker\<close>; the model passes that interface as a record of functions on the
  cache state, as the code passes the interface value. The mutex of the tracker makes every operation
  atomic. The pre-emption callback only cancels work of another component and changes nothing here.
\<close>

section \<open>Blocks\<close>

text \<open>What the tracker reads of a block body and a header. The types of miniblocks other than the two
  it selects are not told apart.\<close>

datatype miniBlockType = TxBlock | InvalidBlock | OtherBlock

record MiniBlock =
  mb_Type :: miniBlockType
  mb_SenderShardID :: u32
  mb_TxHashes :: "bytes list"

record Body =
  MiniBlocks :: "MiniBlock list"

record HeaderHandler =
  hdr_GetNonce :: u64
  hdr_GetPrevHash :: slice
  hdr_numExecutionResults :: nat

text \<open>\<open>AccountNonceAndBalanceProvider\<close>: the state the proposed blocks are validated against.\<close>

record AccountNonceAndBalanceProvider =
  prov_GetRootHash :: "slice result"
  prov_GetAccountNonceAndBalance :: "bytes \<Rightarrow> (u64 \<times> int option) result"

record 'c txCacheForSelectionTracker =
  GetByTxHash :: "'c \<Rightarrow> bytes \<Rightarrow> WrappedTransaction option"
  SetSelectionOffsetsByLastNonce :: "'c \<Rightarrow> (bytes \<times> u64) list \<Rightarrow> 'c"
  ResetSelectionOffsetsToNonce :: "'c \<Rightarrow> (bytes \<times> u64) list \<Rightarrow> 'c"
  ResetAllSelectionOffsets :: "'c \<Rightarrow> 'c"

fun get_txs :: "(bytes \<Rightarrow> WrappedTransaction option) \<Rightarrow> bytes list \<Rightarrow> WrappedTransaction list result" where
  "get_txs lookup [] = Inr []"
| "get_txs lookup (txHash # txHashes) =
     (case lookup txHash of
        None \<Rightarrow> Inl errNotFoundTx
      | Some tx \<Rightarrow>
          (case get_txs lookup txHashes of Inl e \<Rightarrow> Inl e | Inr txs \<Rightarrow> Inr (tx # txs)))"

fun get_miniblocks_txs ::
  "(bytes \<Rightarrow> WrappedTransaction option) \<Rightarrow> u32 \<Rightarrow> MiniBlock list \<Rightarrow> WrappedTransaction list result" where
  "get_miniblocks_txs lookup selfShardId [] = Inr []"
| "get_miniblocks_txs lookup selfShardId (mb # mbs) =
     (if mb_Type mb \<noteq> TxBlock \<and> mb_Type mb \<noteq> InvalidBlock then get_miniblocks_txs lookup selfShardId mbs
      else if mb_SenderShardID mb \<noteq> selfShardId then get_miniblocks_txs lookup selfShardId mbs
      else case get_txs lookup (mb_TxHashes mb) of
             Inl e \<Rightarrow> Inl e
           | Inr txs \<Rightarrow>
               (case get_miniblocks_txs lookup selfShardId mbs of
                  Inl e \<Rightarrow> Inl e
                | Inr rest \<Rightarrow> Inr (txs @ rest)))"

definition getTransactionsInBlock ::
  "Body \<Rightarrow> (bytes \<Rightarrow> WrappedTransaction option) \<Rightarrow> u32 \<Rightarrow> WrappedTransaction list result" where
  "getTransactionsInBlock body lookup selfShardId = get_miniblocks_txs lookup selfShardId (MiniBlocks body)"

definition computeNumberOfTxsInMiniBlocks :: "MiniBlock list \<Rightarrow> nat" where
  "computeNumberOfTxsInMiniBlocks mbs = foldl (\<lambda>n mb. n + length (mb_TxHashes mb)) 0 mbs"

section \<open>The tracker\<close>

record selectionTracker =
  latestNonce :: u64
  latestRootHash :: slice
  blocks :: "(bytes \<times> trackedBlock) list"
  globalBreadcrumbsCompiler :: globalAccountBreadcrumbsCompiler
  selfShardId :: u32
  maxTrackedBlocks :: u32

definition NewSelectionTracker :: "bool \<Rightarrow> u32 \<Rightarrow> u32 \<Rightarrow> selectionTracker result" where
  "NewSelectionTracker txCacheIsNil shardId maxTracked =
     (if txCacheIsNil then Inl errNilTxCache
      else if maxTracked = 0 then Inl errInvalidMaxTrackedBlocks
      else Inr \<lparr>latestNonce = 0, latestRootHash = None, blocks = [],
                globalBreadcrumbsCompiler = newGlobalAccountBreadcrumbsCompiler,
                selfShardId = shardId, maxTrackedBlocks = maxTracked\<rparr>)"

definition verifyBlockArgs ::
  "slice \<Rightarrow> Body option \<Rightarrow> HeaderHandler option \<Rightarrow> txcache_error option" where
  "verifyBlockArgs blockHash blockBody blockHeader =
     (if length (slice_str blockHash) = 0 then Some errNilBlockHash
      else if blockBody = None then Some errNilBlockBody
      else if blockHeader = None then Some errNilBlockHeader
      else None)"

definition checkReceivedBlockNoLock ::
  "selectionTracker \<Rightarrow> Body \<Rightarrow> HeaderHandler \<Rightarrow> txcache_error option" where
  "checkReceivedBlockNoLock st body header =
     (if int (length (blocks st)) < uint (maxTrackedBlocks st) then None
      else let hasNewTransactions = (length (MiniBlocks body) \<noteq> 0);
               hasNoNewExecutionResults = (hdr_numExecutionResults header = 0)
           in if hasNewTransactions \<and> hasNoNewExecutionResults
              then Some errBadBlockWhileMaxTrackedBlocksReached else None)"

text \<open>The loop over the breadcrumbs of one block; a \<open>continue\<close> goes to the next breadcrumb.\<close>

fun validate_block ::
  "AccountNonceAndBalanceProvider \<Rightarrow> bool \<Rightarrow> breadcrumbsValidator \<Rightarrow> (bytes \<times> accountBreadcrumb) list \<Rightarrow>
   txcache_error option \<times> breadcrumbsValidator" where
  "validate_block prov isNewBlock v [] = (None, v)"
| "validate_block prov isNewBlock v ((address, b) # bs) =
     (if isNewBlock \<and> isAddressDiscontinuous v address then (Some errDiscontinuousBreadcrumbs, v)
      else case prov_GetAccountNonceAndBalance prov address of
             Inl e \<Rightarrow> (Some e, v)
           | Inr (sessionNonce, sessionBalance) \<Rightarrow>
               (case validateNonceContinuityOfBreadcrumb v address sessionNonce b of
                  (False, v) \<Rightarrow>
                    if isNewBlock then (Some errDiscontinuousBreadcrumbs, v)
                    else validate_block prov isNewBlock (markAddressAsDiscontinuous v address) bs
                | (True, v) \<Rightarrow>
                    if isAddressDiscontinuous v address then validate_block prov isNewBlock v bs
                    else (case val_validateBalance v address sessionBalance b of
                            (Some e, v) \<Rightarrow> (Some e, v)
                          | (None, v) \<Rightarrow> validate_block prov isNewBlock v bs)))"

fun validate_chain ::
  "AccountNonceAndBalanceProvider \<Rightarrow> breadcrumbsValidator \<Rightarrow> trackedBlock list \<Rightarrow> txcache_error option" where
  "validate_chain prov v [] = None"
| "validate_chain prov v (tb # tbs) =
     (case validate_block prov (tbs = []) v (breadcrumbsByAddress tb) of
        (Some e, _) \<Rightarrow> Some e
      | (None, v) \<Rightarrow> validate_chain prov v tbs)"

definition validateBreadcrumbsOfTrackedBlocks ::
  "trackedBlock list \<Rightarrow> AccountNonceAndBalanceProvider \<Rightarrow> txcache_error option" where
  "validateBreadcrumbsOfTrackedBlocks chainOfTrackedBlocks prov =
     validate_chain prov newBreadcrumbValidator chainOfTrackedBlocks"

text \<open>The loop of \<open>getChainOfTrackedPendingBlocks\<close>; the chain is built from the tail and reversed at
  the end. The nonce decreases, so the loop ends.\<close>

function chain_loop ::
  "(bytes \<times> trackedBlock) list \<Rightarrow> bytes \<Rightarrow> trackedBlock list \<Rightarrow> trackedBlock option \<Rightarrow> u64 \<Rightarrow>
   trackedBlock list result" where
  "chain_loop blks latestExecutedBlockHash chain previousBlock nonceOfNextBlock =
     (if nonceOfNextBlock = 0 then Inr (rev chain)
      else case previousBlock of
             None \<Rightarrow> Inl errBlockNotFound
           | Some pb \<Rightarrow>
               if tb_nonce pb \<noteq> nonceOfNextBlock - 1 then Inl errDiscontinuousSequenceOfBlocks
               else let chain = chain @ [pb]; previousBlockHash = tb_prevHash pb
                    in if latestExecutedBlockHash = previousBlockHash then Inr (rev chain)
                       else chain_loop blks latestExecutedBlockHash chain (map_of blks previousBlockHash)
                              (nonceOfNextBlock - 1))"
  by pat_completeness auto
termination
  by (relation "measure (\<lambda>(blks, latest, chain, pb, n). unat n)") (auto simp: unat_minus_one unat_gt_0)

declare chain_loop.simps [simp del]

definition getChainOfTrackedPendingBlocks ::
  "selectionTracker \<Rightarrow> bytes \<Rightarrow> bytes \<Rightarrow> u64 \<Rightarrow> trackedBlock list result" where
  "getChainOfTrackedPendingBlocks st latestExecutedBlockHash previousHashToBeFound nonceOfNextBlock =
     (if latestExecutedBlockHash = previousHashToBeFound then Inr []
      else chain_loop (blocks st) latestExecutedBlockHash [] (map_of (blocks st) previousHashToBeFound)
             nonceOfNextBlock)"

definition validateTrackedBlocksAndCompileBreadcrumbsNoLock ::
  "selectionTracker \<Rightarrow> (bytes \<Rightarrow> WrappedTransaction option) \<Rightarrow> Body \<Rightarrow> trackedBlock \<Rightarrow>
   AccountNonceAndBalanceProvider \<Rightarrow> bytes \<Rightarrow> ((bytes \<times> u64) list) result \<times> trackedBlock" where
  "validateTrackedBlocksAndCompileBreadcrumbsNoLock st lookup body blockToTrack prov latestExecutedHash =
     (case getChainOfTrackedPendingBlocks st latestExecutedHash (tb_prevHash blockToTrack) (tb_nonce blockToTrack) of
        Inl e \<Rightarrow> (Inl e, blockToTrack)
      | Inr blocksToBeValidated \<Rightarrow>
          (case getTransactionsInBlock body lookup (selfShardId st) of
             Inl e \<Rightarrow> (Inl e, blockToTrack)
           | Inr txs \<Rightarrow>
               (case compileBreadcrumbs blockToTrack txs of
                  (Inl e, tb) \<Rightarrow> (Inl e, tb)
                | (Inr lastNoncePerSender, tb) \<Rightarrow>
                    (case validateBreadcrumbsOfTrackedBlocks (blocksToBeValidated @ [tb]) prov of
                       Some e \<Rightarrow> (Inl e, tb)
                     | None \<Rightarrow> (Inr lastNoncePerSender, tb)))))"

section \<open>Removing and adding blocks\<close>

text \<open>A pair of the block map is a \<open>blockWithHash\<close>.\<close>

fun remove_upto_loop ::
  "selectionTracker \<Rightarrow> (bytes \<times> trackedBlock) list \<Rightarrow> txcache_error option \<times> selectionTracker" where
  "remove_upto_loop st [] = (None, st)"
| "remove_upto_loop st ((hash, b) # mbs) =
     (let st = st\<lparr>blocks := AList.delete hash (blocks st)\<rparr>;
          (err, gabc) = updateOnRemovedBlockWithSameNonceOrBelow (globalBreadcrumbsCompiler st) b;
          st = st\<lparr>globalBreadcrumbsCompiler := gabc\<rparr>
      in case err of Some e \<Rightarrow> (Some e, st) | None \<Rightarrow> remove_upto_loop st mbs)"

definition removeUpToBlockNoLock ::
  "selectionTracker \<Rightarrow> trackedBlock \<Rightarrow> txcache_error option \<times> selectionTracker" where
  "removeUpToBlockNoLock st searchedBlock =
     (let matchingBlocks = filter (\<lambda>(hash, b). hasSameNonceOrLower b searchedBlock) (blocks st);
          matchingBlocks = sort_Slice (\<lambda>x y. tb_nonce (snd x) < tb_nonce (snd y)) matchingBlocks
      in remove_upto_loop st matchingBlocks)"

fun collect_first_nonces ::
  "(bytes \<times> u64) list \<Rightarrow> (bytes \<times> accountBreadcrumb) list \<Rightarrow> (bytes \<times> u64) list" where
  "collect_first_nonces m [] = m"
| "collect_first_nonces m ((address, b) # bs) =
     (if optHasValue (firstNonce b) \<and>
         (case map_of m address of None \<Rightarrow> True | Some existingNonce \<Rightarrow> optValue (firstNonce b) < existingNonce)
      then collect_first_nonces (AList.update address (optValue (firstNonce b)) m) bs
      else collect_first_nonces m bs)"

fun delete_loop ::
  "selectionTracker \<Rightarrow> (bytes \<times> u64) list \<Rightarrow> (bytes \<times> trackedBlock) list \<Rightarrow>
   ((bytes \<times> u64) list) result \<times> selectionTracker" where
  "delete_loop st sendersWithFirstNonce [] = (Inr sendersWithFirstNonce, st)"
| "delete_loop st sendersWithFirstNonce ((hash, b) # mbs) =
     (let m = collect_first_nonces sendersWithFirstNonce (breadcrumbsByAddress b);
          st = st\<lparr>blocks := AList.delete hash (blocks st)\<rparr>;
          (err, gabc) = updateOnRemovedBlockWithSameNonceOrAbove (globalBreadcrumbsCompiler st) b;
          st = st\<lparr>globalBreadcrumbsCompiler := gabc\<rparr>
      in case err of Some e \<Rightarrow> (Inl e, st) | None \<Rightarrow> delete_loop st m mbs)"

definition deleteMatchedBlocksWithSameNonceOrAboveNoLock ::
  "'c txCacheForSelectionTracker \<Rightarrow> selectionTracker \<Rightarrow> 'c \<Rightarrow> (bytes \<times> trackedBlock) list \<Rightarrow>
   txcache_error option \<times> selectionTracker \<times> 'c" where
  "deleteMatchedBlocksWithSameNonceOrAboveNoLock tc st cache matchingBlocks =
     (let matchingBlocks = sort_Slice (\<lambda>x y. tb_nonce (snd x) > tb_nonce (snd y)) matchingBlocks
      in case delete_loop st [] matchingBlocks of
           (Inl e, st) \<Rightarrow> (Some e, st, cache)
         | (Inr sendersWithFirstNonce, st) \<Rightarrow>
             if length sendersWithFirstNonce > 0
             then (None, st, ResetSelectionOffsetsToNonce tc cache sendersWithFirstNonce)
             else (None, st, cache))"

definition removeBlocksAboveOrEqualToNonceNoLock ::
  "'c txCacheForSelectionTracker \<Rightarrow> selectionTracker \<Rightarrow> 'c \<Rightarrow> u64 \<Rightarrow>
   txcache_error option \<times> selectionTracker \<times> 'c" where
  "removeBlocksAboveOrEqualToNonceNoLock tc st cache nonce =
     deleteMatchedBlocksWithSameNonceOrAboveNoLock tc st cache
       (filter (\<lambda>(hash, tb). hasSameNonceOrHigherThanGivenNonce tb nonce) (blocks st))"

definition addNewTrackedBlockNoLock ::
  "'c txCacheForSelectionTracker \<Rightarrow> selectionTracker \<Rightarrow> 'c \<Rightarrow> bytes \<Rightarrow> trackedBlock option \<Rightarrow>
   txcache_error option \<times> selectionTracker \<times> 'c" where
  "addNewTrackedBlockNoLock tc st cache blockHash blockToBeAdded =
     (case blockToBeAdded of
        None \<Rightarrow> (Some errNilTrackedBlock, st, cache)
      | Some tb \<Rightarrow>
          (case removeBlocksAboveOrEqualToNonceNoLock tc st cache (tb_nonce tb) of
             (Some e, st, cache) \<Rightarrow> (Some e, st, cache)
           | (None, st, cache) \<Rightarrow>
               (None, st\<lparr>blocks := AList.update blockHash tb (blocks st),
                         globalBreadcrumbsCompiler := updateOnAddedBlock (globalBreadcrumbsCompiler st) tb\<rparr>,
                cache)))"

section \<open>The notifications\<close>

fun unique_accounts_loop :: "bytes list \<Rightarrow> WrappedTransaction list \<Rightarrow> txcache_error option" where
  "unique_accounts_loop uniqueAccounts [] = None"
| "unique_accounts_loop uniqueAccounts (tx # txs) =
     (let uniqueAccounts = List.insert (senderOf tx) uniqueAccounts
      in if int (length uniqueAccounts) > maxAccountsPerBlock then Some errToManyUniqueAccountsInBlock
         else unique_accounts_loop uniqueAccounts txs)"

definition checkUniqueAccountsLimit ::
  "selectionTracker \<Rightarrow> (bytes \<Rightarrow> WrappedTransaction option) \<Rightarrow> Body \<Rightarrow> txcache_error option" where
  "checkUniqueAccountsLimit st lookup body =
     (case getTransactionsInBlock body lookup (selfShardId st) of
        Inl _ \<Rightarrow> None
      | Inr txsInBlock \<Rightarrow> unique_accounts_loop [] txsInBlock)"

text \<open>A body handler that is not a \<open>*block.Body\<close> fails the type assertion.\<close>

datatype bodyHandler = NotABody | BlockBody "Body option"

definition OnProposedBlock ::
  "'c txCacheForSelectionTracker \<Rightarrow> selectionTracker \<Rightarrow> 'c \<Rightarrow> slice \<Rightarrow> bodyHandler \<Rightarrow> HeaderHandler option \<Rightarrow>
   AccountNonceAndBalanceProvider option \<Rightarrow> slice \<Rightarrow> txcache_error option \<times> selectionTracker \<times> 'c" where
  "OnProposedBlock tc st cache blockHash bodyHandler blockHeader accountsProvider latestExecutedHash =
     (case bodyHandler of
        NotABody \<Rightarrow> (Some errWrongTypeAssertion, st, cache)
      | BlockBody blockBody \<Rightarrow>
          (case verifyBlockArgs blockHash blockBody blockHeader of
             Some e \<Rightarrow> (Some e, st, cache)
           | None \<Rightarrow>
               (case accountsProvider of
                  None \<Rightarrow> (Some errNilAccountNonceAndBalanceProvider, st, cache)
                | Some prov \<Rightarrow>
                    (case prov_GetRootHash prov of
                       Inl e \<Rightarrow> (Some e, st, cache)
                     | Inr accountsRootHash \<Rightarrow>
                         let body = the blockBody; header = the blockHeader; lookup = GetByTxHash tc cache
                         in (case checkUniqueAccountsLimit st lookup body of
                               Some e \<Rightarrow> (Some e, st, cache)
                             | None \<Rightarrow>
                                 if \<not> slice_Equal (latestRootHash st) accountsRootHash
                                 then (Some errRootHashMismatch, st, cache)
                                 else
                                   let tBlock = newTrackedBlock (hdr_GetNonce header) (slice_str blockHash)
                                                  (slice_str (hdr_GetPrevHash header))
                                   in (case checkReceivedBlockNoLock st body header of
                                         Some e \<Rightarrow> (Some e, st, cache)
                                       | None \<Rightarrow>
                                           (case validateTrackedBlocksAndCompileBreadcrumbsNoLock st lookup body
                                                   tBlock prov (slice_str latestExecutedHash) of
                                              (Inl e, _) \<Rightarrow> (Some e, st, cache)
                                            | (Inr lastNoncePerSender, tBlock) \<Rightarrow>
                                                (case addNewTrackedBlockNoLock tc st cache (slice_str blockHash)
                                                        (Some tBlock) of
                                                   (Some e, st, cache) \<Rightarrow> (Some e, st, cache)
                                                 | (None, st, cache) \<Rightarrow>
                                                     (None, st,
                                                      SetSelectionOffsetsByLastNonce tc cache
                                                        lastNoncePerSender)))))))))"

definition OnBackfilledBlock ::
  "'c txCacheForSelectionTracker \<Rightarrow> selectionTracker \<Rightarrow> 'c \<Rightarrow> slice \<Rightarrow> bodyHandler \<Rightarrow> HeaderHandler option \<Rightarrow>
   txcache_error option \<times> selectionTracker \<times> 'c" where
  "OnBackfilledBlock tc st cache blockHash bodyHandler blockHeader =
     (case bodyHandler of
        NotABody \<Rightarrow> (Some errWrongTypeAssertion, st, cache)
      | BlockBody blockBody \<Rightarrow>
          (case verifyBlockArgs blockHash blockBody blockHeader of
             Some e \<Rightarrow> (Some e, st, cache)
           | None \<Rightarrow>
               let header = the blockHeader;
                   tBlock = newTrackedBlock (hdr_GetNonce header) (slice_str blockHash)
                              (slice_str (hdr_GetPrevHash header))
               in (case getTransactionsInBlock (the blockBody) (GetByTxHash tc cache) (selfShardId st) of
                     Inl e \<Rightarrow> (Some e, st, cache)
                   | Inr txs \<Rightarrow>
                       (case compileBreadcrumbs tBlock txs of
                          (Inl e, _) \<Rightarrow> (Some e, st, cache)
                        | (Inr lastNoncePerSender, tBlock) \<Rightarrow>
                            (case addNewTrackedBlockNoLock tc st cache (slice_str blockHash) (Some tBlock) of
                               (Some e, st, cache) \<Rightarrow> (Some e, st, cache)
                             | (None, st, cache) \<Rightarrow>
                                 (None, st, SetSelectionOffsetsByLastNonce tc cache lastNoncePerSender))))))"

definition updateLatestRootHashNoLock :: "selectionTracker \<Rightarrow> u64 \<Rightarrow> slice \<Rightarrow> selectionTracker" where
  "updateLatestRootHashNoLock st receivedNonce receivedRootHash =
     (if latestRootHash st = None then st\<lparr>latestRootHash := receivedRootHash, latestNonce := receivedNonce\<rparr>
      else if latestNonce st \<ge> receivedNonce then st
      else st\<lparr>latestRootHash := receivedRootHash, latestNonce := receivedNonce\<rparr>)"

definition OnExecutedBlock ::
  "selectionTracker \<Rightarrow> HeaderHandler option \<Rightarrow> slice \<Rightarrow> txcache_error option \<times> selectionTracker" where
  "OnExecutedBlock st blockHeader rootHash =
     (case blockHeader of
        None \<Rightarrow> (Some errNilBlockHeader, st)
      | Some header \<Rightarrow>
          let nonce = hdr_GetNonce header;
              tempTrackedBlock = newTrackedBlock nonce [] (slice_str (hdr_GetPrevHash header))
          in (case removeUpToBlockNoLock st tempTrackedBlock of
                (Some e, st) \<Rightarrow> (Some e, st)
              | (None, st) \<Rightarrow> (None, updateLatestRootHashNoLock st nonce rootHash)))"

definition ResetTrackedBlocks ::
  "'c txCacheForSelectionTracker \<Rightarrow> selectionTracker \<Rightarrow> 'c \<Rightarrow> selectionTracker \<times> 'c" where
  "ResetTrackedBlocks tc st cache =
     (st\<lparr>latestRootHash := None, latestNonce := 0, blocks := [],
         globalBreadcrumbsCompiler := cleanGlobalBreadcrumbs (globalBreadcrumbsCompiler st)\<rparr>,
      ResetAllSelectionOffsets tc cache)"

definition canDoSimulateSelection :: "selectionTracker \<Rightarrow> u64 \<Rightarrow> bool" where
  "canDoSimulateSelection st nonce =
     (if nonce = 0 then True
      else let lastTrackedBlockNonce =
             foldl (\<lambda>n tb. if tb_nonce tb > n then tb_nonce tb else n) (latestNonce st) (map snd (blocks st))
           in nonce = lastTrackedBlockNonce + 1)"

definition getGlobalAccountsBreadcrumbs :: "selectionTracker \<Rightarrow> (bytes \<times> globalAccountBreadcrumb) list" where
  "getGlobalAccountsBreadcrumbs st = getGlobalBreadcrumbs (globalBreadcrumbsCompiler st)"

definition deriveVirtualSelectionSession ::
  "'c txCacheForSelectionTracker \<Rightarrow> selectionTracker \<Rightarrow> 'c \<Rightarrow> SelectionSession \<Rightarrow> u64 \<Rightarrow> bool \<Rightarrow>
   virtualSelectionSession result \<times> selectionTracker \<times> 'c" where
  "deriveVirtualSelectionSession tc st cache session nonce isSimulation =
     (case (if \<not> isSimulation then removeBlocksAboveOrEqualToNonceNoLock tc st cache nonce
            else if \<not> canDoSimulateSelection st nonce then (Some errSimulateSelectionContextInvalid, st, cache)
            else (None, st, cache)) of
        (Some e, st, cache) \<Rightarrow> (Inl e, st, cache)
      | (None, st, cache) \<Rightarrow>
          (case GetRootHash session of
             Inl e \<Rightarrow> (Inl e, st, cache)
           | Inr rootHash \<Rightarrow>
               if \<not> slice_Equal (latestRootHash st) rootHash then (Inl errRootHashMismatch, st, cache)
               else (createVirtualSelectionSession (newVirtualSessionComputer session)
                       (getGlobalAccountsBreadcrumbs st), st, cache)))"

definition getVirtualNonceOfAccountWithRootHash :: "selectionTracker \<Rightarrow> bytes \<Rightarrow> (u64 \<times> slice) result" where
  "getVirtualNonceOfAccountWithRootHash st address =
     (case getGlobalBreadcrumbByAddress (globalBreadcrumbsCompiler st) address of
        Inl _ \<Rightarrow> Inl errGlobalBreadcrumbDoesNotExist
      | Inr b \<Rightarrow>
          if \<not> optHasValue (gab_lastNonce b) then Inl errLastNonceNotFound
          else Inr (optValue (gab_lastNonce b) + 1, latestRootHash st))"

record trackerDiagnosis =
  numTrackedBlocks :: u64
  numTrackedAccounts :: u64

definition getTrackerDiagnosis :: "selectionTracker \<Rightarrow> trackerDiagnosis" where
  "getTrackerDiagnosis st =
     \<lparr>numTrackedBlocks = of_nat (length (blocks st)),
      numTrackedAccounts = getNumGlobalBreadcrumbs (globalBreadcrumbsCompiler st)\<rparr>"

end
