(* ===== verification/Tx_Cache.thy ===== *)
theory Tx_Cache
  imports Tx_Maps Selection_Tracker
begin

text \<open>
  \<open>txCache.go\<close>, \<open>eviction.go\<close>, \<open>autoClean.go\<close> and the entry of \<open>selection.go\<close>: the transaction cache on
  top of its two indexes and its tracker. Every public operation is modelled on the whole state, in
  the order of the code; the wall clock is an argument. The operation mutex makes additions, removals
  and sweeps atomic, so a history of the cache is a sequence of operations. \<open>TxCache.go\<close> also owns
  the tracker, which calls back the cache through the functions collected in \<open>cache_ops\<close>.
\<close>

section \<open>State\<close>

text \<open>What the cache calls in other modules: the unsigned reading of an atomic counter, the SHA-256
  hasher, the name of the set-guardian function, and \<open>sort.Slice\<close> applied to a \<open>less\<close> that reads the
  slice and two indices (see the shuffle below).\<close>

record externals =
  GetUint64 :: "int \<Rightarrow> u64"
  ComputeHash :: "bytes \<Rightarrow> bytes"
  BuiltInFunctionSetGuardian :: bytes
  SortByIndex :: "(bytes list \<Rightarrow> nat \<Rightarrow> nat \<Rightarrow> bool) \<Rightarrow> bytes list \<Rightarrow> bytes list"

record TxCache =
  cache_name :: bytes
  txListBySender :: txListBySenderMap
  txByHash :: txByHashMap
  config :: ConfigSourceMe
  host :: MempoolHost
  isEvictionInProgress :: bool
  tracker :: selectionTracker
  propagationGracePeriod :: int

definition NewTxCache :: "ConfigSourceMe \<Rightarrow> MempoolHost option \<Rightarrow> u32 \<Rightarrow> TxCache result" where
  "NewTxCache c h selfShard =
     (case source_verify c of
        Some e \<Rightarrow> Inl e
      | None \<Rightarrow>
          (case h of
             None \<Rightarrow> Inl errNilMempoolHost
           | Some hst \<Rightarrow>
               (case NewSelectionTracker False selfShard (MaxTrackedBlocks (BoundsConfig c)) of
                  Inl e \<Rightarrow> Inl e
                | Inr t \<Rightarrow>
                    Inr \<lparr>cache_name = Name c,
                         txListBySender = newTxListBySenderMap (NumChunks c) (getSenderConstraints c),
                         txByHash = newTxByHashMap (NumChunks c), config = c, host = hst,
                         isEvictionInProgress = False, tracker = t,
                         propagationGracePeriod = uint (PropagationGracePeriodMs (BoundsConfig c)) * 1000000\<rparr>)))"

definition tracked :: "TxCache \<Rightarrow> WrappedTransaction \<Rightarrow> bool" where
  "tracked c tx = IsTransactionTracked (globalBreadcrumbsCompiler (tracker c)) (Some tx)"

definition NumBytes :: "externals \<Rightarrow> TxCache \<Rightarrow> int" where
  "NumBytes ext c = sint (GetUint64 ext (numBytes (txByHash c)))"

definition CountTx :: "externals \<Rightarrow> TxCache \<Rightarrow> u64" where
  "CountTx ext c = GetUint64 ext (bh_counter (txByHash c))"

definition CountSenders :: "externals \<Rightarrow> TxCache \<Rightarrow> u64" where
  "CountSenders ext c = GetUint64 ext (bs_counter (txListBySender c))"

section \<open>Eviction\<close>

definition areThereTooManyBytes :: "externals \<Rightarrow> TxCache \<Rightarrow> bool" where
  "areThereTooManyBytes ext c \<longleftrightarrow> NumBytes ext c > uint (NumBytesThreshold (config c))"

definition areThereTooManySenders :: "externals \<Rightarrow> TxCache \<Rightarrow> bool" where
  "areThereTooManySenders ext c \<longleftrightarrow> CountSenders ext c > ucast (CountThreshold (config c))"

definition areThereTooManyTxs :: "externals \<Rightarrow> TxCache \<Rightarrow> bool" where
  "areThereTooManyTxs ext c \<longleftrightarrow> CountTx ext c > ucast (CountThreshold (config c))"

definition cache_isCapacityExceeded :: "externals \<Rightarrow> TxCache \<Rightarrow> bool" where
  "cache_isCapacityExceeded ext c \<longleftrightarrow>
     areThereTooManyBytes ext c \<or> areThereTooManySenders ext c \<or> areThereTooManyTxs ext c"

record evictionJournal =
  numEvicted :: nat
  numEvictedByPass :: "nat list"

text \<open>One pass over the heap: the transactions to evict and the heap that is left. At the limit, the
  loop breaks after an item was popped.\<close>

function evict_pick ::
  "(WrappedTransaction \<Rightarrow> bool) \<Rightarrow> int \<Rightarrow> transactionsHeapItem list \<Rightarrow> WrappedTransaction list \<Rightarrow>
   WrappedTransaction list \<times> transactionsHeapItem list" where
  "evict_pick isTracked limit heap acc =
     (case heap_Pop minHeapLess heap of
        None \<Rightarrow> (acc, heap)
      | Some (item, heap) \<Rightarrow>
          if int (length acc) \<ge> limit then (acc, heap)
          else let acc = (if \<not> isTracked (currentTransaction item) then acc @ [currentTransaction item] else acc)
               in (case gotoNextTransaction item of
                     None \<Rightarrow> evict_pick isTracked limit heap acc
                   | Some item' \<Rightarrow> evict_pick isTracked limit (heap_Push minHeapLess heap item') acc))"
  by pat_completeness auto
termination
  by (relation "measure (\<lambda>(t, l, h, acc). heap_remaining h)")
     (auto dest!: heap_remaining_Pop item_remaining_next simp: item_remaining_pos)

declare evict_pick.simps [simp del]

lemma evict_pick_remaining:
  "evict_pick t l h acc = (acc', h') \<Longrightarrow> heap_remaining h' \<le> heap_remaining h \<and> (acc' \<noteq> acc \<longrightarrow> heap_remaining h' < heap_remaining h)"
proof (induction t l h acc arbitrary: acc' h' rule: evict_pick.induct)
  case (1 t l h acc)
  show ?case
  proof (cases "heap_Pop minHeapLess h")
    case None
    with "1.prems" show ?thesis by (simp add: evict_pick.simps [of _ _ h])
  next
    case (Some p)
    obtain item h1 where p: "p = (item, h1)" by fastforce
    note pop = Some [unfolded p]
    have rem: "heap_remaining h = item_remaining item + heap_remaining h1" by (rule heap_remaining_Pop [OF pop])
    show ?thesis
    proof (cases "int (length acc) \<ge> l")
      case True
      with "1.prems" pop rem item_remaining_pos [of item] show ?thesis by (auto simp: evict_pick.simps [of _ _ h])
    next
      case False
      define acc1 where "acc1 = (if \<not> t (currentTransaction item) then acc @ [currentTransaction item] else acc)"
      show ?thesis
      proof (cases "gotoNextTransaction item")
        case None
        with "1.prems" pop False have "evict_pick t l h1 acc1 = (acc', h')"
          by (simp add: evict_pick.simps [of _ _ h] acc1_def)
        from "1.IH"(1) [OF pop refl False acc1_def None this] rem item_remaining_pos [of item] show ?thesis by auto
      next
        case (Some item')
        with "1.prems" pop False have "evict_pick t l (heap_Push minHeapLess h1 item') acc1 = (acc', h')"
          by (simp add: evict_pick.simps [of _ _ h] acc1_def)
        from "1.IH"(2) [OF pop refl False acc1_def Some this] rem item_remaining_next [OF Some] show ?thesis by auto
      qed
    qed
  qed
qed

text \<open>The lowest nonce to evict per sender is the last one picked for it.\<close>

definition lowestToEvictBySender :: "WrappedTransaction list \<Rightarrow> (bytes \<times> u64) list" where
  "lowestToEvictBySender txs = foldl (\<lambda>m tx. AList.update (senderOf tx) (nonceOf tx) m) [] txs"

definition evict_transactions :: "TxCache \<Rightarrow> WrappedTransaction list \<Rightarrow> TxCache" where
  "evict_transactions c transactionsToEvict =
     (let c = c\<lparr>txListBySender :=
            foldl (\<lambda>m (s, n). bs_removeTransactionsWithHigherOrEqualNonce m s n) (txListBySender c)
              (lowestToEvictBySender transactionsToEvict)\<rparr>
      in c\<lparr>txByHash := snd (RemoveTxsBulk (txByHash c) (map TxHash transactionsToEvict))\<rparr>)"

function evict_passes ::
  "externals \<Rightarrow> TxCache \<Rightarrow> transactionsHeapItem list \<Rightarrow> evictionJournal \<Rightarrow> evictionJournal \<times> TxCache" where
  "evict_passes ext c heap journal =
     (if \<not> cache_isCapacityExceeded ext c then (journal, c)
      else case evict_pick (tracked c) (uint (NumItemsToPreemptivelyEvict (config c))) heap [] of
             (transactionsToEvict, heap') \<Rightarrow>
               if length transactionsToEvict = 0 then (journal, c)
               else evict_passes ext (evict_transactions c transactionsToEvict) heap'
                      (journal\<lparr>numEvictedByPass := numEvictedByPass journal @ [length transactionsToEvict],
                               numEvicted := numEvicted journal + length transactionsToEvict\<rparr>))"
  by pat_completeness auto
termination
  by (relation "measure (\<lambda>(ext, c, h, j). heap_remaining h)") (auto dest: evict_pick_remaining [OF sym])

declare evict_passes.simps [simp del]

definition evictLeastLikelyToSelectTransactions :: "externals \<Rightarrow> TxCache \<Rightarrow> evictionJournal \<times> TxCache" where
  "evictLeastLikelyToSelectTransactions ext c =
     (let bunches = map getTxsReversed (getSenders (txListBySender c));
          heap = push_bunches minHeapLess (heap_Init minHeapLess []) bunches
      in evict_passes ext c heap \<lparr>numEvicted = 0, numEvictedByPass = []\<rparr>)"

definition doEviction :: "externals \<Rightarrow> TxCache \<Rightarrow> evictionJournal option \<times> TxCache" where
  "doEviction ext c =
     (if isEvictionInProgress c then (None, c)
      else if \<not> cache_isCapacityExceeded ext c then (None, c)
      else let (journal, c) = evictLeastLikelyToSelectTransactions ext (c\<lparr>isEvictionInProgress := True\<rparr>)
           in (Some journal, c\<lparr>isEvictionInProgress := False\<rparr>))"

section \<open>Adding, reading and removing transactions\<close>

text \<open>The argument is \<open>None\<close> for a nil wrapper or a wrapper without a transaction; the result is
  \<open>(ok, added)\<close> and the cache.\<close>

definition AddTx :: "externals \<Rightarrow> int \<Rightarrow> TxCache \<Rightarrow> WrappedTransaction option \<Rightarrow> (bool \<times> bool) \<times> TxCache" where
  "AddTx ext now c otx =
     (case otx of
        None \<Rightarrow> ((False, False), c)
      | Some tx \<Rightarrow>
          if hasTx (txByHash c) (TxHash tx) then ((True, False), c)
          else
            let tx = (precomputeFields (host c) tx)\<lparr>ReceivedAt := now\<rparr>;
                c = (if EvictionEnabled (config c) then snd (doEviction ext c) else c);
                (addedInByHash, bh) = bh_addTx (txByHash c) tx;
                c = c\<lparr>txByHash := bh\<rparr>;
                (addedInBySender, evicted, bs) =
                  addTxReturnEvicted (txListBySender c) tx (Some (globalBreadcrumbsCompiler (tracker c)));
                c = c\<lparr>txListBySender := bs\<rparr>;
                c = (if length evicted > 0 then c\<lparr>txByHash := snd (RemoveTxsBulk (txByHash c) evicted)\<rparr> else c)
            in ((True, addedInByHash \<or> addedInBySender), c))"

definition cache_GetByTxHash :: "TxCache \<Rightarrow> bytes \<Rightarrow> WrappedTransaction option" where
  "cache_GetByTxHash c txHash = getTx (txByHash c) txHash"

definition RemoveTxByHash :: "TxCache \<Rightarrow> bytes \<Rightarrow> bool \<times> TxCache" where
  "RemoveTxByHash c txHash =
     (case bh_removeTx (txByHash c) txHash of
        (None, bh) \<Rightarrow> (False, c\<lparr>txByHash := bh\<rparr>)
      | (Some tx, bh) \<Rightarrow>
          let c = c\<lparr>txByHash := bh\<rparr>;
              (evicted, bs) = bs_removeTransactionsWithLowerOrEqualNonceReturnHashes (txListBySender c) tx;
              c = c\<lparr>txListBySender := bs\<rparr>
          in (True, if length evicted > 0 then c\<lparr>txByHash := snd (RemoveTxsBulk (txByHash c) evicted)\<rparr> else c))"

definition ForEachTransaction :: "TxCache \<Rightarrow> (bytes \<times> WrappedTransaction) list" where
  "ForEachTransaction c = bh_forEach (txByHash c)"

definition getAllTransactions :: "TxCache \<Rightarrow> WrappedTransaction list" where
  "getAllTransactions c = map snd (ForEachTransaction c)"

definition GetTransactionsPoolForSender :: "TxCache \<Rightarrow> bytes \<Rightarrow> WrappedTransaction list" where
  "GetTransactionsPoolForSender c s =
     (case getListForSender (txListBySender c) s of None \<Rightarrow> [] | Some l \<Rightarrow> getTxs l)"

definition cache_Clear :: "TxCache \<Rightarrow> TxCache" where
  "cache_Clear c = c\<lparr>txListBySender := bs_clear (txListBySender c), txByHash := bh_clear (txByHash c)\<rparr>"

definition cache_Get :: "TxCache \<Rightarrow> bytes \<Rightarrow> Transaction option" where
  "cache_Get c key = map_option Tx (cache_GetByTxHash c key)"

definition cache_Has :: "TxCache \<Rightarrow> bytes \<Rightarrow> bool" where
  "cache_Has c key \<longleftrightarrow> cache_GetByTxHash c key \<noteq> None"

definition cache_Remove :: "TxCache \<Rightarrow> bytes \<Rightarrow> TxCache" where
  "cache_Remove c key = snd (RemoveTxByHash c key)"

definition cache_Keys :: "TxCache \<Rightarrow> bytes list" where
  "cache_Keys c = bh_keys (txByHash c)"

definition cache_MaxSize :: "TxCache \<Rightarrow> int" where
  "cache_MaxSize c = uint (CountThreshold (config c))"

section \<open>Selection offsets: what the tracker calls back\<close>

definition update_list :: "TxCache \<Rightarrow> bytes \<Rightarrow> (txListForSender \<Rightarrow> txListForSender) \<Rightarrow> TxCache" where
  "update_list c s f =
     (case getListForSender (txListBySender c) s of
        None \<Rightarrow> c
      | Some l \<Rightarrow> c\<lparr>txListBySender := storeList (txListBySender c) s (f l)\<rparr>)"

definition cache_SetSelectionOffsetsByLastNonce :: "TxCache \<Rightarrow> (bytes \<times> u64) list \<Rightarrow> TxCache" where
  "cache_SetSelectionOffsetsByLastNonce c lastNoncePerSender =
     foldl (\<lambda>c (s, lastNonce). update_list c s (\<lambda>l. resetSelectionOffsetByNonce l (lastNonce + 1))) c
       lastNoncePerSender"

definition cache_ResetAllSelectionOffsets :: "TxCache \<Rightarrow> TxCache" where
  "cache_ResetAllSelectionOffsets c =
     foldl (\<lambda>c l. update_list c (sender l) resetSelectionOffset) c (getSenders (txListBySender c))"

definition cache_ResetSelectionOffsetsToNonce :: "TxCache \<Rightarrow> (bytes \<times> u64) list \<Rightarrow> TxCache" where
  "cache_ResetSelectionOffsetsToNonce c sendersWithFirstNonce =
     foldl (\<lambda>c (s, nonce). update_list c s (\<lambda>l. resetSelectionOffsetByNonce l nonce)) c sendersWithFirstNonce"

definition cache_ops :: "TxCache txCacheForSelectionTracker" where
  "cache_ops =
     \<lparr>GetByTxHash = cache_GetByTxHash, SetSelectionOffsetsByLastNonce = cache_SetSelectionOffsetsByLastNonce,
      ResetSelectionOffsetsToNonce = cache_ResetSelectionOffsetsToNonce,
      ResetAllSelectionOffsets = cache_ResetAllSelectionOffsets\<rparr>"

section \<open>Selection and notifications\<close>

definition acquireBunchesOfTransactions :: "TxCache \<Rightarrow> bunchOfTransactions list" where
  "acquireBunchesOfTransactions c =
     filter (\<lambda>bunch. length bunch > 0) (map getTxsForSelection (getSenders (txListBySender c)))"

definition doSelectTransactions ::
  "externals \<Rightarrow> int \<Rightarrow> TxCache \<Rightarrow> virtualSelectionSession \<Rightarrow> txSelectionOptions \<Rightarrow>
   (bunchOfTransactions \<times> u64) option" where
  "doSelectTransactions ext now c vs options =
     selectTransactionsFromBunches (BuiltInFunctionSetGuardian ext) vs (acquireBunchesOfTransactions c)
       options (propagationGracePeriod c) now"

text \<open>The inner \<open>None\<close> is the panic of a zero check interval.\<close>

definition selectTransactions ::
  "externals \<Rightarrow> int \<Rightarrow> TxCache \<Rightarrow> SelectionSession option \<Rightarrow> txSelectionOptions \<Rightarrow> u64 \<Rightarrow> bool \<Rightarrow>
   (bunchOfTransactions \<times> u64) option result \<times> TxCache" where
  "selectTransactions ext now c session options nonce isSimulation =
     (case session of
        None \<Rightarrow> (Inl errNilSelectionSession, c)
      | Some s \<Rightarrow>
          (case deriveVirtualSelectionSession cache_ops (tracker c) c s nonce isSimulation of
             (Inl e, st, c) \<Rightarrow> (Inl e, c\<lparr>tracker := st\<rparr>)
           | (Inr vs, st, c) \<Rightarrow>
               let c = c\<lparr>tracker := st\<rparr> in (Inr (doSelectTransactions ext now c vs options), c)))"

definition SelectTransactions ::
  "externals \<Rightarrow> int \<Rightarrow> TxCache \<Rightarrow> SelectionSession option \<Rightarrow> txSelectionOptions \<Rightarrow> u64 \<Rightarrow>
   (bunchOfTransactions \<times> u64) option result \<times> TxCache" where
  "SelectTransactions ext now c session options blockNonce =
     selectTransactions ext now c session options blockNonce False"

definition SimulateSelectTransactions ::
  "externals \<Rightarrow> int \<Rightarrow> TxCache \<Rightarrow> SelectionSession option \<Rightarrow> txSelectionOptions \<Rightarrow> u64 \<Rightarrow>
   (bunchOfTransactions \<times> u64) option result \<times> TxCache" where
  "SimulateSelectTransactions ext now c session options currentBlockNonce =
     selectTransactions ext now c session options currentBlockNonce True"

definition GetVirtualNonceAndRootHash :: "TxCache \<Rightarrow> bytes \<Rightarrow> (u64 \<times> slice) result" where
  "GetVirtualNonceAndRootHash c address = getVirtualNonceOfAccountWithRootHash (tracker c) address"

definition cache_OnProposedBlock ::
  "TxCache \<Rightarrow> slice \<Rightarrow> bodyHandler \<Rightarrow> HeaderHandler option \<Rightarrow> AccountNonceAndBalanceProvider option \<Rightarrow> slice \<Rightarrow>
   txcache_error option \<times> TxCache" where
  "cache_OnProposedBlock c blockHash body header provider latestExecutedHash =
     (let (err, st, c) = OnProposedBlock cache_ops (tracker c) c blockHash body header provider latestExecutedHash
      in (err, c\<lparr>tracker := st\<rparr>))"

definition cache_OnBackfilledBlock ::
  "TxCache \<Rightarrow> slice \<Rightarrow> bodyHandler \<Rightarrow> HeaderHandler option \<Rightarrow> txcache_error option \<times> TxCache" where
  "cache_OnBackfilledBlock c blockHash body header =
     (let (err, st, c) = OnBackfilledBlock cache_ops (tracker c) c blockHash body header
      in (err, c\<lparr>tracker := st\<rparr>))"

definition cache_OnExecutedBlock ::
  "TxCache \<Rightarrow> HeaderHandler option \<Rightarrow> slice \<Rightarrow> txcache_error option \<times> TxCache" where
  "cache_OnExecutedBlock c header rootHash =
     (let (err, st) = OnExecutedBlock (tracker c) header rootHash in (err, c\<lparr>tracker := st\<rparr>))"

definition cache_ResetTracker :: "TxCache \<Rightarrow> TxCache" where
  "cache_ResetTracker c = (let (st, c) = ResetTrackedBlocks cache_ops (tracker c) c in c\<lparr>tracker := st\<rparr>)"

section \<open>Cleanup\<close>

definition little_endian :: "u64 \<Rightarrow> bytes" where
  "little_endian r = map (\<lambda>i. ucast (drop_bit (8 * i) r)) [0..<8]"

text \<open>The comparison reads the hash keys by index, and the keys stay where they are while the sort moves
  the senders.\<close>

definition shuffleSendersAddresses :: "externals \<Rightarrow> bytes list \<Rightarrow> u64 \<Rightarrow> bytes list" where
  "shuffleSendersAddresses ext senders randomness =
     (let keys = map (\<lambda>addr. ComputeHash ext (addr @ little_endian randomness)) senders
      in SortByIndex ext
           (\<lambda>senders i j.
              let cmp = bytes_Compare (keys ! i) (keys ! j)
              in if cmp \<noteq> 0 then cmp > 0 else bytes_Compare (senders ! i) (senders ! j) > 0)
           senders)"

definition getDeterministicallyShuffledSenders :: "externals \<Rightarrow> TxCache \<Rightarrow> u64 \<Rightarrow> txListForSender list" where
  "getDeterministicallyShuffledSenders ext c randomness =
     List.map_filter (cm_Get (bs_backingMap (txListBySender c)))
       (shuffleSendersAddresses ext (cm_Keys (bs_backingMap (txListBySender c))) randomness)"

text \<open>The nonce provider answers per address; the answer of the i-th time check is \<open>late i\<close>.\<close>

fun sweep_senders ::
  "(bytes \<Rightarrow> u64 result) \<Rightarrow> (nat \<Rightarrow> bool) \<Rightarrow> int \<Rightarrow> nat \<Rightarrow> TxCache \<Rightarrow> bytes list \<Rightarrow> txListForSender list \<Rightarrow>
   bytes list \<times> TxCache" where
  "sweep_senders GetAccountNonce late maxNum i c evicted [] = (evicted, c)"
| "sweep_senders GetAccountNonce late maxNum i c evicted (l # ls) =
     (case GetAccountNonce (sender l) of
        Inl _ \<Rightarrow> sweep_senders GetAccountNonce late maxNum i c evicted ls
      | Inr accountNonce \<Rightarrow>
          if accountNonce = 0 then sweep_senders GetAccountNonce late maxNum i c evicted ls
          else if int (length evicted) \<ge> maxNum then (evicted, c)
          else if late i then (evicted, c)
          else let (hashes, l') = removeSweepableTransactionsReturnHashes
                                    (globalBreadcrumbsCompiler (tracker c)) l (accountNonce - 1);
                   c = c\<lparr>txListBySender := storeList (txListBySender c) (sender l) l'\<rparr>
               in sweep_senders GetAccountNonce late maxNum (i + 1) c (evicted @ hashes) ls)"

definition RemoveSweepableTxs ::
  "externals \<Rightarrow> (bytes \<Rightarrow> u64 result) \<Rightarrow> (nat \<Rightarrow> bool) \<Rightarrow> u64 \<Rightarrow> int \<Rightarrow> TxCache \<Rightarrow> u64 \<times> TxCache" where
  "RemoveSweepableTxs ext GetAccountNonce late randomness maxNum c =
     (let (evicted, c) = sweep_senders GetAccountNonce late maxNum 0 c []
                           (getDeterministicallyShuffledSenders ext c randomness);
          c = (if length evicted > 0 then c\<lparr>txByHash := snd (RemoveTxsBulk (txByHash c) evicted)\<rparr> else c)
      in (of_nat (length evicted), c))"

definition Cleanup ::
  "externals \<Rightarrow> (bytes \<Rightarrow> u64 result) \<Rightarrow> (nat \<Rightarrow> bool) \<Rightarrow> u64 \<Rightarrow> int \<Rightarrow> TxCache \<Rightarrow> u64 \<times> TxCache" where
  "Cleanup ext GetAccountNonce late randomness maxNum c =
     RemoveSweepableTxs ext GetAccountNonce late randomness maxNum c"

end
