(* ===== verification/Cache_Inv.thy ===== *)
theory Cache_Inv
  imports Tx_Cache
begin

text \<open>
  The consistency of the transaction cache. \<open>cache_inv\<close> says that both indexes are sound and that every
  transaction listed under a sender is found by its hash. The lemmas show what removal by hash does
  and that it keeps the invariant; \<open>Eviction_Props\<close> and \<open>Cache_Props\<close> treat the other operations.
\<close>

section \<open>The invariant\<close>

abbreviation pools :: "TxCache \<Rightarrow> bytes \<Rightarrow> WrappedTransaction list" where
  "pools c \<equiv> pool (txListBySender c)"

definition indexed :: "(bytes \<Rightarrow> WrappedTransaction list) \<Rightarrow> (bytes \<Rightarrow> WrappedTransaction option) \<Rightarrow> bool" where
  "indexed p g \<longleftrightarrow> (\<forall>s. \<forall>tx \<in> set (p s). g (TxHash tx) = Some tx)"

definition cache_inv :: "TxCache \<Rightarrow> bool" where
  "cache_inv c \<longleftrightarrow> bh_inv (txByHash c) \<and> bs_inv (txListBySender c) \<and> indexed (pools c) (getTx (txByHash c))"

lemma pool_sl_inv:
  assumes "bs_inv m"
  obtains l where "sl_inv l" "sender l = s" "txs_of l = pool m s"
proof (cases "getListForSender m s")
  case None
  then show thesis
    by (intro that [of "newTxListForSender s undefined"])
      (simp_all add: pool_def, simp_all add: newTxListForSender_def newOrderedTransactionsList_def)
next
  case (Some l)
  then show thesis using bs_invD(1,2) [OF assms Some] by (intro that [of l]) (simp_all add: pool_def)
qed

lemma pool_sender: "bs_inv m \<Longrightarrow> tx \<in> set (pool m s) \<Longrightarrow> senderOf tx = s"
  by (rule pool_sl_inv [of m s]) (auto simp: sl_inv_def)

lemma pool_ordered: "bs_inv m \<Longrightarrow> ordered (pool m s)"
  by (rule pool_sl_inv [of m s]) (auto simp: sl_inv_def)

text \<open>Removing from the hash index only what no list holds any more.\<close>

lemma indexed_restrict:
  assumes "indexed p g" and "\<And>s tx. tx \<in> set (p' s) \<Longrightarrow> tx \<in> set (p s) \<and> TxHash tx \<notin> H"
  shows "indexed p' (g |` (- H))"
  using assms by (auto simp: indexed_def restrict_map_def)

lemma cache_inv_new: "NewTxCache cfg h shard = Inr c \<Longrightarrow> cache_inv c"
  by (auto simp: NewTxCache_def cache_inv_def bh_new bs_new indexed_def pool_def split: option.splits sum.splits)

section \<open>Removal by hash\<close>

lemma RemoveTxsBulk_cache:
  assumes "bh_inv bh"
  shows "bh_inv (snd (RemoveTxsBulk bh hs))" "getTx (snd (RemoveTxsBulk bh hs)) = getTx bh |` (- set hs)"
    "slack (snd (RemoveTxsBulk bh hs)) = slack bh"
  using RemoveTxsBulk_result [OF assms, of hs "fst (RemoveTxsBulk bh hs)" "snd (RemoveTxsBulk bh hs)"] by simp_all

lemma RemoveTxByHash_result:
  assumes inv: "cache_inv c" and rem: "RemoveTxByHash c h = (found, c')"
  shows "cache_inv c'" and "found \<longleftrightarrow> getTx (txByHash c) h \<noteq> None"
    and "getTx (txByHash c) h = Some tx \<Longrightarrow>
      pools c' = (pools c)(senderOf tx := filter (\<lambda>t. nonceOf tx < nonceOf t) (pools c (senderOf tx))) \<and>
      getTx (txByHash c') = getTx (txByHash c) |`
        (- insert h (TxHash ` {t \<in> set (pools c (senderOf tx)). nonceOf t \<le> nonceOf tx}))"
    and "getTx (txByHash c) h = None \<Longrightarrow> pools c' = pools c \<and> getTx (txByHash c') = getTx (txByHash c)"
proof -
  have bh: "bh_inv (txByHash c)" and bs: "bs_inv (txListBySender c)" and ix: "indexed (pools c) (getTx (txByHash c))"
    using inv by (simp_all add: cache_inv_def)
  obtain otx bh1 where r: "bh_removeTx (txByHash c) h = (otx, bh1)" by fastforce
  note r1 = bh_removeTx_result [OF bh r]
  show "found \<longleftrightarrow> getTx (txByHash c) h \<noteq> None"
    using rem r r1(3) by (auto simp: RemoveTxByHash_def Let_def split: option.splits prod.splits)
  show none: "pools c' = pools c \<and> getTx (txByHash c') = getTx (txByHash c)" if "getTx (txByHash c) h = None"
    using rem r r1 that by (auto simp: RemoveTxByHash_def fun_upd_idem)
  have some: "cache_inv c' \<and>
      pools c' = (pools c)(senderOf t := filter (\<lambda>u. nonceOf t < nonceOf u) (pools c (senderOf t))) \<and>
      getTx (txByHash c') = getTx (txByHash c) |`
        (- insert h (TxHash ` {u \<in> set (pools c (senderOf t)). nonceOf u \<le> nonceOf t}))"
    if t: "getTx (txByHash c) h = Some t" for t
  proof -
    let ?s = "senderOf t" and ?E = "filter (\<lambda>u. nonceOf u \<le> nonceOf t) (pools c (senderOf t))"
    obtain evicted bs1 where e: "bs_removeTransactionsWithLowerOrEqualNonceReturnHashes (txListBySender c) t = (evicted, bs1)"
      by fastforce
    note e1 = bs_removeLower_result [OF bs e]
    have c': "txListBySender c' = bs1" "txByHash c' = snd (RemoveTxsBulk bh1 evicted) \<or> txByHash c' = bh1 \<and> evicted = []"
      using rem r r1(3) t e by (auto simp: RemoveTxByHash_def Let_def split: if_splits)
    have g: "getTx (txByHash c') = getTx (txByHash c) |` (- insert h (set evicted))"
      using c'(2) RemoveTxsBulk_cache(2) [OF r1(1), of evicted] r1(4)
      by (auto simp: restrict_map_def fun_eq_iff)
    have ev: "set evicted = TxHash ` set ?E" using e1(4) by simp
    have th: "TxHash t = h" using bh t by (simp add: bh_inv_def)
    have "indexed (pools c') (getTx (txByHash c) |` (- insert h (set evicted)))"
    proof (rule indexed_restrict [OF ix])
      fix s tx assume tx: "tx \<in> set (pools c' s)"
      then have p: "tx \<in> set (pools c s)" and nn: "s = ?s \<longrightarrow> nonceOf t < nonceOf tx"
        using e1(5) c'(1) by (auto split: if_splits)
      have gx: "getTx (txByHash c) (TxHash tx) = Some tx" using ix p by (simp add: indexed_def)
      have "TxHash tx \<noteq> TxHash u" if "u \<in> set ?E \<or> u = t" for u
      proof
        assume eq: "TxHash tx = TxHash u"
        have "getTx (txByHash c) (TxHash u) = Some u" using that ix t th by (auto simp: indexed_def)
        with gx eq have "tx = u" by simp
        moreover have "s = ?s" using calculation that p pool_sender [OF bs] by auto
        ultimately show False using nn that by auto
      qed
      then show "tx \<in> set (pools c s) \<and> TxHash tx \<notin> insert h (set evicted)" using p th ev by fastforce
    qed
    moreover have "bh_inv (txByHash c')" using c'(2) RemoveTxsBulk_cache(1) [OF r1(1)] r1(1) by auto
    ultimately have "cache_inv c'" using e1(1) c'(1) g by (simp add: cache_inv_def)
    moreover have "pools c' = (pools c)(?s := filter (\<lambda>u. nonceOf t < nonceOf u) (pools c ?s))"
      using e1(5) c'(1) by simp
    ultimately show ?thesis using g ev by simp
  qed
  then show "getTx (txByHash c) h = Some tx \<Longrightarrow>
      pools c' = (pools c)(senderOf tx := filter (\<lambda>t. nonceOf tx < nonceOf t) (pools c (senderOf tx))) \<and>
      getTx (txByHash c') = getTx (txByHash c) |`
        (- insert h (TxHash ` {t \<in> set (pools c (senderOf tx)). nonceOf t \<le> nonceOf tx}))" by blast
  show "cache_inv c'"
  proof (cases "getTx (txByHash c) h")
    case None
    have "bh_inv (txByHash c') \<and> txListBySender c' = txListBySender c"
      using rem r r1(1,3) None by (auto simp: RemoveTxByHash_def)
    with none [OF None] bs ix show ?thesis by (simp add: cache_inv_def)
  next
    case (Some t)
    with some show ?thesis by blast
  qed
qed

end
