(* ===== verification/Eviction_Props.thy ===== *)
theory Eviction_Props
  imports Cache_Inv
begin

text \<open>
  Eviction: what the passes over the heap of the least valuable transactions remove. A pass picks
  transactions of the snapshot, per sender from the highest nonce down; the sender lists then lose
  everything from the lowest picked nonce on, and the hash index loses the picked transactions.
\<close>

section \<open>The pick of a pass\<close>

text \<open>Items over a bunch in descending nonce order.\<close>

definition descending :: "WrappedTransaction list \<Rightarrow> bool" where
  "descending txs \<longleftrightarrow> sorted_wrt (\<lambda>a b. senderOf a = senderOf b \<longrightarrow> nonceOf b \<le> nonceOf a) txs"

definition ev_item :: "WrappedTransaction set \<Rightarrow> transactionsHeapItem \<Rightarrow> bool" where
  "ev_item U item \<longleftrightarrow>
     currentTransactionIndex item < length (bunch item) \<and>
     currentTransaction item = bunch item ! currentTransactionIndex item \<and> descending (bunch item) \<and>
     (\<forall>tx \<in> set (bunch item). senderOf tx = item_sender item \<and> tx \<in> U)"

definition ev_heap :: "WrappedTransaction set \<Rightarrow> WrappedTransaction list \<Rightarrow> transactionsHeapItem list \<Rightarrow> bool" where
  "ev_heap U acc h \<longleftrightarrow>
     (\<forall>item \<in> set h. ev_item U item \<and>
       (\<forall>a \<in> set acc. senderOf a = item_sender item \<longrightarrow> nonceOf (currentTransaction item) \<le> nonceOf a)) \<and>
     distinct (map item_sender h)"

lemma ev_item_current: "ev_item U item \<Longrightarrow> senderOf (currentTransaction item) = item_sender item \<and> currentTransaction item \<in> U"
  by (simp add: ev_item_def)

lemma ev_item_next:
  assumes item: "ev_item U item" and nxt: "gotoNextTransaction item = Some item'"
  shows "ev_item U item'" "item_sender item' = item_sender item"
    "nonceOf (currentTransaction item') \<le> nonceOf (currentTransaction item)"
proof -
  let ?i = "currentTransactionIndex item"
  have i: "?i + 1 < length (bunch item)" and item': "item' = item\<lparr>currentTransactionIndex := ?i + 1,
      currentTransaction := bunch item ! (?i + 1), currentTransactionNonce := nonceOf (bunch item ! (?i + 1))\<rparr>"
    using nxt by (auto simp: gotoNextTransaction_def Let_def split: if_splits)
  show "ev_item U item'" "item_sender item' = item_sender item"
    using item i by (simp_all add: item' ev_item_def)
  have "senderOf (bunch item ! ?i) = senderOf (bunch item ! (?i + 1))" using item i by (simp add: ev_item_def)
  then show "nonceOf (currentTransaction item') \<le> nonceOf (currentTransaction item)"
    using item i by (auto simp: item' ev_item_def descending_def sorted_wrt_iff_nth_less)
qed

lemma ev_heap_pop:
  assumes h: "ev_heap U acc h" and pop: "heap_Pop minHeapLess h = Some (item, h1)"
  shows "ev_heap U acc h1" "ev_item U item" "item_sender item \<notin> item_sender ` set h1"
    "\<forall>a \<in> set acc. senderOf a = item_sender item \<longrightarrow> nonceOf (currentTransaction item) \<le> nonceOf a"
proof -
  have m: "mset h = add_mset item (mset h1)" by (rule mset_heap_Pop [OF pop])
  then have st: "set h = insert item (set h1)" by (metis set_mset_add_mset_insert set_mset_mset)
  have "mset (map item_sender h) = mset (map item_sender (item # h1))" using m by simp
  then have "distinct (map item_sender (item # h1))" using h by (metis ev_heap_def mset_eq_imp_distinct_iff)
  with h st show "ev_heap U acc h1" "ev_item U item" "item_sender item \<notin> item_sender ` set h1"
    "\<forall>a \<in> set acc. senderOf a = item_sender item \<longrightarrow> nonceOf (currentTransaction item) \<le> nonceOf a"
    by (auto simp: ev_heap_def)
qed

lemma ev_heap_push:
  assumes h: "ev_heap U acc h" and item: "ev_item U item" "item_sender item \<notin> item_sender ` set h"
    "\<forall>a \<in> set acc. senderOf a = item_sender item \<longrightarrow> nonceOf (currentTransaction item) \<le> nonceOf a"
  shows "ev_heap U acc (heap_Push minHeapLess h item)"
proof -
  have st: "set (heap_Push minHeapLess h item) = insert item (set h)"
    by (metis mset_heap_Push set_mset_add_mset_insert set_mset_mset)
  have "mset (map item_sender (heap_Push minHeapLess h item)) = mset (map item_sender (item # h))" by simp
  then have "distinct (map item_sender (heap_Push minHeapLess h item))"
    using h item(2) by (metis distinct.simps(2) ev_heap_def image_set list.simps(9) mset_eq_imp_distinct_iff)
  with h item st show ?thesis by (auto simp: ev_heap_def)
qed

lemma ev_heap_pick:
  assumes h: "ev_heap U acc h" and item: "ev_item U item" "item_sender item \<notin> item_sender ` set h"
  shows "ev_heap U (acc @ [currentTransaction item]) h"
  using h item(2) ev_item_current [OF item(1)] by (force simp: ev_heap_def)

definition picked :: "WrappedTransaction set \<Rightarrow> (WrappedTransaction \<Rightarrow> bool) \<Rightarrow> WrappedTransaction list \<Rightarrow> bool" where
  "picked U isTracked acc \<longleftrightarrow> descending acc \<and> set acc \<subseteq> {tx \<in> U. \<not> isTracked tx}"

lemma evict_pick_result:
  assumes "ev_heap U acc h" "picked U t acc" "evict_pick t l h acc = (acc', h')"
  shows "ev_heap U acc' h' \<and> picked U t acc'"
  using assms
proof (induction t l h acc rule: evict_pick.induct)
  case (1 t l h acc)
  show ?case
  proof (cases "heap_Pop minHeapLess h")
    case None
    with "1.prems" show ?thesis by (simp add: evict_pick.simps [of _ _ h])
  next
    case (Some p)
    obtain item h1 where p: "p = (item, h1)" by fastforce
    note pop = Some [unfolded p] and o = ev_heap_pop [OF "1.prems"(1) Some [unfolded p]]
    define acc1 where "acc1 = (if \<not> t (currentTransaction item) then acc @ [currentTransaction item] else acc)"
    have h1: "ev_heap U acc1 h1" using o ev_heap_pick [OF o(1-3)] by (simp add: acc1_def)
    have pk: "picked U t acc1"
      using "1.prems"(2) o(4) ev_item_current [OF o(2)]
      by (auto simp: acc1_def picked_def descending_def sorted_wrt_append)
    show ?thesis
    proof (cases "int (length acc) \<ge> l")
      case True
      with "1.prems" pop o(1) show ?thesis by (simp add: evict_pick.simps [of _ _ h])
    next
      case False
      show ?thesis
      proof (cases "gotoNextTransaction item")
        case None
        with "1.prems"(3) pop False have "evict_pick t l h1 acc1 = (acc', h')"
          by (simp add: evict_pick.simps [of _ _ h] acc1_def)
        from "1.IH"(1) [OF pop refl False acc1_def None h1 pk this] show ?thesis .
      next
        case (Some item')
        with "1.prems"(3) pop False have e: "evict_pick t l (heap_Push minHeapLess h1 item') acc1 = (acc', h')"
          by (simp add: evict_pick.simps [of _ _ h] acc1_def)
        note n = ev_item_next [OF o(2) Some]
        have "\<forall>a \<in> set acc1. senderOf a = item_sender item' \<longrightarrow> nonceOf (currentTransaction item') \<le> nonceOf a"
          using o(4) n(2,3) by (auto simp: acc1_def intro: order_trans)
        with ev_heap_push [OF h1 n(1)] o(3) n(2) have "ev_heap U acc1 (heap_Push minHeapLess h1 item')" by simp
        from "1.IH"(2) [OF pop refl False acc1_def Some this pk e] show ?thesis .
      qed
    qed
  qed
qed

lemma push_bunches_ev:
  assumes "ev_heap U [] h" "\<forall>b \<in> set bs. descending b \<and> set b \<subseteq> U"
    "\<forall>b \<in> set bs. \<forall>x \<in> set b. senderOf x = f b" "distinct (map f bs)" "f ` set bs \<inter> item_sender ` set h = {}"
  shows "ev_heap U [] (push_bunches minHeapLess h bs)"
  using assms
proof (induction bs arbitrary: h)
  case (Cons b bs)
  show ?case
  proof (cases b)
    case Nil
    with Cons show ?thesis by (auto simp: newTransactionsHeapItem_def)
  next
    case (Cons tx txs)
    define item where "item = \<lparr>item_sender = senderOf tx, bunch = b, currentTransactionIndex = 0,
      currentTransaction = tx, currentTransactionNonce = nonceOf tx, latestSelectedTransaction = None,
      latestSelectedTransactionNonce = 0\<rparr>"
    have i: "newTransactionsHeapItem b = Inr item" "item_sender item = f b" "ev_item U item"
      using Cons.prems(2,3) Cons by (auto simp: newTransactionsHeapItem_def item_def ev_item_def)
    have "ev_heap U [] (heap_Push minHeapLess h item)"
      using Cons.prems(1,5) i by (intro ev_heap_push) auto
    moreover have "set (heap_Push minHeapLess h item) = insert item (set h)"
      by (metis mset_heap_Push set_mset_add_mset_insert set_mset_mset)
    ultimately show ?thesis using Cons.IH [of "heap_Push minHeapLess h item"] Cons.prems i by auto
  qed
qed simp

section \<open>The passes\<close>

text \<open>The lowest nonce per sender.\<close>

lemma lowest_conv: "map_of (lowestToEvictBySender txs) s =
    map_option nonceOf (List.find (\<lambda>tx. senderOf tx = s) (rev txs))"
proof (induction txs rule: rev_induct)
  case (snoc tx txs)
  then show ?case by (simp add: lowestToEvictBySender_def AList.update_conv')
qed (simp add: lowestToEvictBySender_def)

lemma lowest_distinct: "distinct (map fst (lowestToEvictBySender txs))"
  by (induction txs rule: rev_induct) (simp_all add: lowestToEvictBySender_def distinct_update)

lemma lowest_mem:
  assumes "descending txs"
  shows "(\<exists>p \<in> set (lowestToEvictBySender txs). fst p = s \<and> snd p \<le> n) \<longleftrightarrow> (\<exists>tx \<in> set txs. senderOf tx = s \<and> nonceOf tx \<le> n)"
proof -
  have "(\<exists>p \<in> set (lowestToEvictBySender txs). fst p = s \<and> snd p \<le> n) \<longleftrightarrow>
      (\<exists>m. map_of (lowestToEvictBySender txs) s = Some m \<and> m \<le> n)"
    unfolding map_of_eq_Some_iff [OF lowest_distinct] by (metis fst_conv prod.collapse snd_conv)
  also have "\<dots> \<longleftrightarrow> (\<exists>tx \<in> set txs. senderOf tx = s \<and> nonceOf tx \<le> n)"
    using assms
  proof (induction txs rule: rev_induct)
    case (snoc tx txs)
    have "descending txs" using snoc.prems by (simp add: descending_def sorted_wrt_append)
    note ih = snoc.IH [OF this]
    have "senderOf a = s \<Longrightarrow> senderOf tx = s \<Longrightarrow> nonceOf tx \<le> nonceOf a" if "a \<in> set txs" for a
      using snoc.prems that by (auto simp: descending_def sorted_wrt_append)
    with ih show ?case by (auto simp: lowest_conv dest: order_trans)
  qed (simp add: lowest_conv)
  finally show ?thesis .
qed

lemma removeHigher_fold:
  assumes "bs_inv m" and "m' = foldl (\<lambda>m (s, n). bs_removeTransactionsWithHigherOrEqualNonce m s n) m L"
  shows "bs_inv m' \<and> bs_constraints m' = bs_constraints m \<and> (bs_aligned m \<longrightarrow> bs_aligned m') \<and>
    pool m' = (\<lambda>s. filter (\<lambda>t. \<forall>p \<in> set L. fst p = s \<longrightarrow> nonceOf t < snd p) (pool m s))"
  using assms
proof (induction L arbitrary: m)
  case (Cons p L)
  obtain s n where p: "p = (s, n)" by fastforce
  define m1 where "m1 = bs_removeTransactionsWithHigherOrEqualNonce m s n"
  note r = bs_removeHigher_result [OF Cons.prems(1) m1_def]
  have "m' = foldl (\<lambda>m (s, n). bs_removeTransactionsWithHigherOrEqualNonce m s n) m1 L"
    using Cons.prems(2) by (simp add: p m1_def)
  from Cons.IH [OF r(1) this] r show ?case by (auto simp: p fun_eq_iff intro!: filter_cong)
qed simp

text \<open>What an eviction of the transactions \<open>E\<close> leaves of a cache.\<close>

definition evicted_from :: "TxCache \<Rightarrow> WrappedTransaction list \<Rightarrow> TxCache \<Rightarrow> bool" where
  "evicted_from c E c' \<longleftrightarrow>
     pools c' = (\<lambda>s. filter (\<lambda>t. \<forall>e \<in> set E. senderOf e = s \<longrightarrow> nonceOf t < nonceOf e) (pools c s)) \<and>
     getTx (txByHash c') = getTx (txByHash c) |` (- TxHash ` set E) \<and>
     tracker c' = tracker c \<and> config c' = config c \<and> host c' = host c \<and>
     isEvictionInProgress c' = isEvictionInProgress c \<and>
     bs_constraints (txListBySender c') = bs_constraints (txListBySender c) \<and>
     slack (txByHash c') = slack (txByHash c) \<and> (bs_aligned (txListBySender c) \<longrightarrow> bs_aligned (txListBySender c'))"

lemma evicted_from_refl: "evicted_from c [] c"
  by (simp add: evicted_from_def fun_eq_iff restrict_map_def)

lemma evicted_from_trans: "evicted_from c E c1 \<Longrightarrow> evicted_from c1 F c2 \<Longrightarrow> evicted_from c (E @ F) c2"
  by (auto simp: evicted_from_def fun_eq_iff restrict_map_def conj_commute intro!: filter_cong)

text \<open>The transactions of the snapshot are still the ones found by their hash, or gone.\<close>

definition snapshot :: "WrappedTransaction set \<Rightarrow> TxCache \<Rightarrow> bool" where
  "snapshot U c \<longleftrightarrow> (\<forall>tx \<in> U. getTx (txByHash c) (TxHash tx) \<in> {None, Some tx})"

lemma snapshot_evicted: "snapshot U c \<Longrightarrow> evicted_from c E c' \<Longrightarrow> snapshot U c'"
  by (auto simp: snapshot_def evicted_from_def restrict_map_def)

lemma evict_transactions_result:
  assumes inv: "cache_inv c" and snap: "snapshot U c" and E: "set E \<subseteq> U" "descending E"
  shows "cache_inv (evict_transactions c E)" "evicted_from c E (evict_transactions c E)"
proof -
  let ?c = "evict_transactions c E"
  have bh: "bh_inv (txByHash c)" and bs: "bs_inv (txListBySender c)" and ix: "indexed (pools c) (getTx (txByHash c))"
    using inv by (simp_all add: cache_inv_def)
  define m where "m = foldl (\<lambda>m (s, n). bs_removeTransactionsWithHigherOrEqualNonce m s n) (txListBySender c)
    (lowestToEvictBySender E)"
  have c: "?c = c\<lparr>txListBySender := m, txByHash := snd (RemoveTxsBulk (txByHash c) (map TxHash E))\<rparr>"
    by (simp add: evict_transactions_def m_def)
  note f = removeHigher_fold [OF bs m_def] and h = RemoveTxsBulk_cache [OF bh, of "map TxHash E"]
  have "(\<forall>p \<in> set (lowestToEvictBySender E). fst p = s \<longrightarrow> nonceOf t < snd p) \<longleftrightarrow>
      (\<forall>e \<in> set E. senderOf e = s \<longrightarrow> nonceOf t < nonceOf e)" for s t
    using lowest_mem [OF E(2), of s "nonceOf t"] by (auto simp: not_le [symmetric])
  then have p: "pools ?c = (\<lambda>s. filter (\<lambda>t. \<forall>e \<in> set E. senderOf e = s \<longrightarrow> nonceOf t < nonceOf e) (pools c s))"
    using f by (simp add: c)
  then show ev: "evicted_from c E ?c" using f h by (simp add: evicted_from_def c)
  have "indexed (pools ?c) (getTx (txByHash c) |` (- TxHash ` set E))"
  proof (rule indexed_restrict [OF ix])
    fix s tx assume tx: "tx \<in> set (pools ?c s)"
    then have mem: "tx \<in> set (pools c s)" by (simp add: p)
    have "TxHash tx \<noteq> TxHash e" if e: "e \<in> set E" for e
    proof
      assume "TxHash tx = TxHash e"
      moreover have "getTx (txByHash c) (TxHash tx) = Some tx" using ix mem by (simp add: indexed_def)
      moreover have "getTx (txByHash c) (TxHash e) \<in> {None, Some e}" using snap E(1) e unfolding snapshot_def by blast
      ultimately have "tx = e" by auto
      with tx e pool_sender [OF bs mem] show False by (auto simp: p)
    qed
    with mem show "tx \<in> set (pools c s) \<and> TxHash tx \<notin> TxHash ` set E" by auto
  qed
  then show "cache_inv ?c" using f h by (simp add: cache_inv_def c)
qed

lemma evict_passes_result:
  assumes "cache_inv c" "snapshot U c" "ev_heap U [] h" "evict_passes ext c h j = (j', c')"
  shows "\<exists>E. cache_inv c' \<and> evicted_from c E c' \<and> set E \<subseteq> {tx \<in> U. \<not> tracked c tx} \<and>
    numEvicted j' = numEvicted j + length E"
  using assms
proof (induction ext c h j rule: evict_passes.induct)
  case (1 ext c h j)
  obtain E h1 where e: "evict_pick (tracked c) (uint (NumItemsToPreemptivelyEvict (config c))) h [] = (E, h1)" by fastforce
  show ?case
  proof (cases "cache_isCapacityExceeded ext c \<and> E \<noteq> []")
    case False
    then have "c' = c" "j' = j" using "1.prems"(4) e by (auto simp: evict_passes.simps [of _ c] split: if_splits)
    with "1.prems"(1) show ?thesis by (auto intro!: exI [of _ "[]"] evicted_from_refl)
  next
    case True
    define j1 where "j1 = j\<lparr>numEvictedByPass := numEvictedByPass j @ [length E], numEvicted := numEvicted j + length E\<rparr>"
    define c1 where "c1 = evict_transactions c E"
    have pk: "ev_heap U E h1" "picked U (tracked c) E"
      using evict_pick_result [OF "1.prems"(3) _ e] by (simp_all add: picked_def descending_def)
    then have E: "set E \<subseteq> U" "descending E" "set E \<subseteq> {tx \<in> U. \<not> tracked c tx}" by (auto simp: picked_def)
    have h1: "ev_heap U [] h1" using pk(1) by (simp add: ev_heap_def)
    note r = evict_transactions_result [OF "1.prems"(1,2) E(1,2), folded c1_def]
    have "evict_passes ext c1 h1 j1 = (j', c')"
      using "1.prems"(4) e True by (simp add: evict_passes.simps [of _ c] j1_def c1_def)
    with "1.IH" [OF _ e [symmetric]] True r(1) snapshot_evicted [OF "1.prems"(2) r(2)] h1
    obtain F where F: "cache_inv c'" "evicted_from c1 F c'" "set F \<subseteq> {tx \<in> U. \<not> tracked c1 tx}"
      "numEvicted j' = numEvicted j1 + length F" unfolding c1_def j1_def by auto
    have "tracked c1 = tracked c" using r(2) by (simp add: tracked_def evicted_from_def fun_eq_iff)
    with F E(3) evicted_from_trans [OF r(2) F(2)] show ?thesis
      by (intro exI [of _ "E @ F"]) (auto simp: j1_def)
  qed
qed

section \<open>The whole eviction\<close>

lemma descending_getTxsReversed: "sl_inv l \<Longrightarrow> descending (getTxsReversed l)"
proof -
  assume "sl_inv l"
  then have "sorted_wrt (\<lambda>a b. nonceOf a \<le> nonceOf b) (txs_of l)"
    using ordered_nonces [of "txs_of l"] by (simp add: sl_inv_def sorted_map)
  then have "sorted_wrt (\<lambda>a b. nonceOf b \<le> nonceOf a) (rev (txs_of l))" by (simp add: sorted_wrt_rev)
  then show ?thesis unfolding descending_def getTxsReversed_def by (rule sorted_wrt_mono_rel [rotated]) simp
qed

definition listed :: "TxCache \<Rightarrow> WrappedTransaction set" where
  "listed c = {tx. tx \<in> set (pools c (senderOf tx))}"

lemma getSenders_pool:
  assumes inv: "bs_inv m" and l: "l \<in> set (getSenders m)"
  shows "sl_inv l" "txs_of l = pool m (sender l)" "tx \<in> set (txs_of l) \<Longrightarrow> senderOf tx = sender l"
proof -
  have get: "getListForSender m (sender l) = Some l" using l by (simp add: getSenders_iff [OF inv])
  show "sl_inv l" "txs_of l = pool m (sender l)" "tx \<in> set (txs_of l) \<Longrightarrow> senderOf tx = sender l"
    using bs_invD(1) [OF inv get] get by (simp_all add: pool_def sl_inv_def)
qed

lemma eviction_heap:
  assumes "cache_inv c"
  shows "ev_heap (listed c) [] (push_bunches minHeapLess [] (map getTxsReversed (getSenders (txListBySender c))))"
proof -
  let ?L = "getSenders (txListBySender c)"
  have bs: "bs_inv (txListBySender c)" using assms by (simp add: cache_inv_def)
  note g = getSenders_pool [OF bs]
  have sd: "map (\<lambda>b. senderOf (hd b)) (filter (\<lambda>b. b \<noteq> []) (map getTxsReversed ?L)) = map sender (filter (\<lambda>l. txs_of l \<noteq> []) ?L)"
  proof -
    have "senderOf (hd (rev (txs_of l))) = sender l" if "l \<in> set ?L" "txs_of l \<noteq> []" for l
      using g(3) [OF that(1), of "hd (rev (txs_of l))"] that(2) by (metis hd_in_set rev_is_Nil_conv set_rev)
    then show ?thesis by (auto simp: getTxsReversed_def filter_map comp_def)
  qed
  have "distinct (map sender (filter (\<lambda>l. txs_of l \<noteq> []) ?L))"
    using distinct_getSenders [OF bs] by (rule distinct_map_filter)
  have "ev_heap (listed c) [] (push_bunches minHeapLess [] (filter (\<lambda>b. b \<noteq> []) (map getTxsReversed ?L)))"
  proof (rule push_bunches_ev [where f = "\<lambda>b. senderOf (hd b)"])
    show "\<forall>b \<in> set (filter (\<lambda>b. b \<noteq> []) (map getTxsReversed ?L)). descending b \<and> set b \<subseteq> listed c"
    proof -
      have "descending (getTxsReversed l) \<and> set (getTxsReversed l) \<subseteq> listed c" if "l \<in> set ?L" for l
        using g(2,3) [OF that] descending_getTxsReversed [OF g(1) [OF that]]
        by (auto simp: listed_def getTxsReversed_def)
      then show ?thesis by auto
    qed
    show "\<forall>b \<in> set (filter (\<lambda>b. b \<noteq> []) (map getTxsReversed ?L)). \<forall>x \<in> set b. senderOf x = senderOf (hd b)"
      using g(3) by (auto simp: getTxsReversed_def) (metis hd_in_set rev_is_Nil_conv set_rev)
    show "distinct (map (\<lambda>b. senderOf (hd b)) (filter (\<lambda>b. b \<noteq> []) (map getTxsReversed ?L)))"
      using distinct_getSenders [OF bs] unfolding sd by (rule distinct_map_filter)
  qed (simp_all add: ev_heap_def)
  moreover have "push_bunches minHeapLess h (filter (\<lambda>b. b \<noteq> []) bs) = push_bunches minHeapLess h bs" for h bs
    by (induction bs arbitrary: h) (auto simp: newTransactionsHeapItem_def split: list.splits)
  ultimately show ?thesis by simp
qed

lemma doEviction_result:
  assumes inv: "cache_inv c" and ev: "doEviction ext c = (journal, c')"
  shows "\<exists>E. cache_inv c' \<and> evicted_from c E c' \<and> set E \<subseteq> {tx \<in> listed c. \<not> tracked c tx} \<and>
    (case journal of None \<Rightarrow> E = [] | Some j \<Rightarrow> numEvicted j = length E)"
proof (cases "isEvictionInProgress c \<or> \<not> cache_isCapacityExceeded ext c")
  case True
  then have "c' = c" "journal = None" using ev by (auto simp: doEviction_def split: if_splits)
  with inv show ?thesis by (auto intro!: exI [of _ "[]"] evicted_from_refl)
next
  case False
  define d where "d = c\<lparr>isEvictionInProgress := True\<rparr>"
  obtain j d' where r: "evictLeastLikelyToSelectTransactions ext d = (j, d')" by fastforce
  have c': "c' = d'\<lparr>isEvictionInProgress := False\<rparr>" and jn: "journal = Some j"
    using ev False r by (auto simp: doEviction_def d_def)
  have d: "cache_inv d" "listed d = listed c" "tracked d = tracked c"
    using inv by (simp_all add: d_def cache_inv_def listed_def tracked_def fun_eq_iff)
  have "snapshot (listed d) d"
    using d(1) by (auto simp: snapshot_def listed_def cache_inv_def indexed_def)
  moreover have "evict_passes ext d (push_bunches minHeapLess [] (map getTxsReversed (getSenders (txListBySender d))))
      \<lparr>numEvicted = 0, numEvictedByPass = []\<rparr> = (j, d')"
    using r by (simp add: evictLeastLikelyToSelectTransactions_def Let_def)
  ultimately obtain E where E: "cache_inv d'" "evicted_from d E d'" "set E \<subseteq> {tx \<in> listed d. \<not> tracked d tx}" "numEvicted j = length E"
    using evict_passes_result [OF d(1) _ eviction_heap [OF d(1)], of ext "\<lparr>numEvicted = 0, numEvictedByPass = []\<rparr>" j d']
    by auto
  have "evicted_from c E c'" using E(2) False by (simp add: evicted_from_def d_def c')
  moreover have "cache_inv c'" using E(1) by (simp add: cache_inv_def c')
  ultimately show ?thesis using E d(2,3) jn by auto
qed

section \<open>What a pass leaves behind\<close>

text \<open>No transaction still ahead of an item is among the picked ones.\<close>

definition unpicked :: "WrappedTransaction list \<Rightarrow> transactionsHeapItem \<Rightarrow> bool" where
  "unpicked acc item \<longleftrightarrow> distinct (bunch item) \<and> set acc \<inter> set (drop (currentTransactionIndex item) (bunch item)) = {}"

lemma unpicked_pick:
  assumes "ev_item U item" "ev_item U other" "item_sender other \<noteq> item_sender item" "unpicked acc other"
  shows "unpicked (acc @ [currentTransaction item]) other"
proof -
  have "currentTransaction item \<notin> set (bunch other)" using assms(1-3) by (auto simp: ev_item_def)
  then have "currentTransaction item \<notin> set (drop (currentTransactionIndex other) (bunch other))" by (meson in_set_dropD)
  with assms(4) show ?thesis by (simp add: unpicked_def)
qed

lemma unpicked_next:
  assumes "ev_item U item" "unpicked acc item" "gotoNextTransaction item = Some item'"
  shows "unpicked acc item'" "unpicked (acc @ [currentTransaction item]) item'"
proof -
  let ?i = "currentTransactionIndex item"
  have i: "?i < length (bunch item)" "currentTransaction item = bunch item ! ?i" using assms(1) by (simp_all add: ev_item_def)
  have item': "bunch item' = bunch item" "currentTransactionIndex item' = Suc ?i"
    using assms(3) by (auto simp: gotoNextTransaction_def Let_def split: if_splits)
  have d: "drop ?i (bunch item) = currentTransaction item # drop (Suc ?i) (bunch item)"
    using i by (simp add: Cons_nth_drop_Suc)
  have "distinct (drop ?i (bunch item))" using assms(2) by (simp add: unpicked_def)
  with assms(2) show "unpicked acc item'" "unpicked (acc @ [currentTransaction item]) item'"
    unfolding unpicked_def item' d by auto
qed

lemma set_heap_Pop: "heap_Pop minHeapLess h = Some (item, h1) \<Longrightarrow> set h = insert item (set h1)"
  by (metis mset_heap_Pop set_mset_add_mset_insert set_mset_mset)

lemma set_heap_Push: "set (heap_Push minHeapLess h item) = insert item (set h)"
  by (metis mset_heap_Push set_mset_add_mset_insert set_mset_mset)

text \<open>The item a pass drops: what it holds is not picked, its sender is not in the heap any more, and no
  transaction the heap goes on with is less valuable.\<close>

definition dropped :: "WrappedTransaction set \<Rightarrow> WrappedTransaction list \<Rightarrow> transactionsHeapItem list \<Rightarrow> transactionsHeapItem \<Rightarrow> bool" where
  "dropped U acc h item \<longleftrightarrow> ev_item U item \<and> unpicked acc item \<and> item_sender item \<notin> item_sender ` set h \<and>
     (\<forall>other \<in> set h. \<not> isTransactionMoreValuableForNetwork (currentTransaction item) (currentTransaction other))"

lemma evict_pick_walk:
  assumes "ev_heap U acc h" "minheap.is_heap h" "\<forall>item \<in> set h. unpicked acc item" "evict_pick t l h acc = (acc', h')"
  shows "senderOf ` set acc' \<subseteq> senderOf ` set acc \<union> item_sender ` set h \<and> item_sender ` set h' \<subseteq> item_sender ` set h \<and>
    minheap.is_heap h' \<and> (\<forall>item \<in> set h'. unpicked acc' item) \<and> (h' \<noteq> [] \<longrightarrow> (\<exists>item. dropped U acc' h' item))"
  using assms
proof (induction t l h acc rule: evict_pick.induct)
  case (1 t l h acc)
  show ?case
  proof (cases "heap_Pop minHeapLess h")
    case None
    with "1.prems"(2-4) show ?thesis by (auto simp: evict_pick.simps [of _ _ h])
  next
    case (Some p)
    obtain item h1 where p: "p = (item, h1)" by fastforce
    note pop = Some [unfolded p]
    note o = ev_heap_pop [OF "1.prems"(1) pop] and st = set_heap_Pop [OF pop]
    have heap: "minheap.is_heap h1" by (rule minheap.is_heap_Pop [OF "1.prems"(2) pop])
    show ?thesis
    proof (cases "int (length acc) \<ge> l")
      case True
      have "\<not> isTransactionMoreValuableForNetwork (currentTransaction item) (currentTransaction other)" if "other \<in> set h1" for other
        using minheap.heap_Pop_least [OF "1.prems"(2) pop, of other] that st
        by (simp add: minHeapLess_def isCurrentTransactionMoreValuableForNetwork_def)
      then have "dropped U acc h1 item" using o(2,3) "1.prems"(3) st by (simp add: dropped_def)
      with True pop "1.prems"(3,4) st heap show ?thesis by (auto simp: evict_pick.simps [of _ _ h])
    next
      case False
      define acc1 where "acc1 = (if \<not> t (currentTransaction item) then acc @ [currentTransaction item] else acc)"
      have h1: "ev_heap U acc1 h1" using o ev_heap_pick [OF o(1-3)] by (simp add: acc1_def)
      have un: "\<forall>other \<in> set h1. unpicked acc1 other"
      proof
        fix other assume other: "other \<in> set h1"
        then have "ev_item U other" "unpicked acc other" using o(1) "1.prems"(3) st by (auto simp: ev_heap_def)
        moreover have "item_sender other \<noteq> item_sender item" using o(3) other by (metis imageI)
        ultimately show "unpicked acc1 other" using unpicked_pick [OF o(2)] by (simp add: acc1_def)
      qed
      have s1: "senderOf ` set acc1 \<subseteq> senderOf ` set acc \<union> item_sender ` set h"
        using ev_item_current [OF o(2)] st by (auto simp: acc1_def)
      show ?thesis
      proof (cases "gotoNextTransaction item")
        case None
        with "1.prems"(4) pop False have "evict_pick t l h1 acc1 = (acc', h')"
          by (simp add: evict_pick.simps [of _ _ h] acc1_def)
        from "1.IH"(1) [OF pop refl False acc1_def None h1 heap un this] s1 show ?thesis unfolding st image_insert by blast
      next
        case (Some item')
        with "1.prems"(4) pop False have e: "evict_pick t l (heap_Push minHeapLess h1 item') acc1 = (acc', h')"
          by (simp add: evict_pick.simps [of _ _ h] acc1_def)
        note n = ev_item_next [OF o(2) Some]
        have "\<forall>a \<in> set acc1. senderOf a = item_sender item' \<longrightarrow> nonceOf (currentTransaction item') \<le> nonceOf a"
          using o(4) n(2,3) by (auto simp: acc1_def intro: order_trans)
        with ev_heap_push [OF h1 n(1)] o(3) n(2) have h2: "ev_heap U acc1 (heap_Push minHeapLess h1 item')" by simp
        have "unpicked acc1 item'" using unpicked_next [OF o(2) _ Some] "1.prems"(3) st by (simp add: acc1_def)
        with un have "\<forall>other \<in> set (heap_Push minHeapLess h1 item'). unpicked acc1 other" by (simp add: set_heap_Push)
        from "1.IH"(2) [OF pop refl False acc1_def Some h2 minheap.is_heap_Push [OF heap] this e] s1
        show ?thesis unfolding st set_heap_Push image_insert n(2) by blast
      qed
    qed
  qed
qed

text \<open>The passes touch the senders of their heap only.\<close>

lemma evict_passes_senders:
  assumes "cache_inv c" "snapshot U c" "ev_heap U [] h" "minheap.is_heap h" "\<forall>item \<in> set h. distinct (bunch item)"
    and "evict_passes ext c h j = (j', c')" "s \<notin> item_sender ` set h"
  shows "pools c' s = pools c s"
  using assms
proof (induction ext c h j rule: evict_passes.induct)
  case (1 ext c h j)
  obtain E h1 where e: "evict_pick (tracked c) (uint (NumItemsToPreemptivelyEvict (config c))) h [] = (E, h1)" by fastforce
  show ?case
  proof (cases "cache_isCapacityExceeded ext c \<and> E \<noteq> []")
    case False
    then have "c' = c" using "1.prems"(6) e by (auto simp: evict_passes.simps [of _ c] split: if_splits)
    then show ?thesis by simp
  next
    case True
    define c1 where "c1 = evict_transactions c E"
    have "\<forall>item \<in> set h. unpicked [] item" using "1.prems"(5) by (simp add: unpicked_def)
    note walk = evict_pick_walk [OF "1.prems"(3,4) this e]
    have pk: "ev_heap U E h1" "picked U (tracked c) E"
      using evict_pick_result [OF "1.prems"(3) _ e] by (simp_all add: picked_def descending_def)
    then have E: "set E \<subseteq> U" "descending E" by (auto simp: picked_def)
    have h1: "ev_heap U [] h1" using pk(1) by (simp add: ev_heap_def)
    note r = evict_transactions_result [OF "1.prems"(1,2) E, folded c1_def]
    have p: "pools c1 s = pools c s" using r(2) walk "1.prems"(7) by (auto simp: evicted_from_def filter_id_conv)
    have rest: "evict_passes ext c1 h1 (j\<lparr>numEvictedByPass := numEvictedByPass j @ [length E], numEvicted := numEvicted j + length E\<rparr>) = (j', c')"
      using "1.prems"(6) e True by (simp add: evict_passes.simps [of _ c] c1_def)
    have "pools c' s = pools c1 s"
      using "1.IH" [OF _ e [symmetric]] True r(1) snapshot_evicted [OF "1.prems"(2) r(2)] h1 rest walk "1.prems"(7)
      unfolding c1_def unpicked_def by blast
    with p show ?thesis by simp
  qed
qed

end
