(* ===== verification/Selection_Props.thy ===== *)
theory Selection_Props
  imports Selection
begin

text \<open>
  What the selection loop guarantees. The loop is also given as a step relation; its invariants are
  proved by rule induction: the gas and count budgets, the order of the heap (the loop is greedy), the
  nonces of each sender (consecutive from the virtual nonce), and the balances (nothing selected
  exceeds what the virtual session leaves to an account).
\<close>

section \<open>Accounts as the session shows them\<close>

definition acct :: "virtualSelectionSession \<Rightarrow> bytes \<Rightarrow> (OptionalUint64 \<times> int \<times> int) option" where
  "acct vs a =
     (case fst (getRecord vs a) of
        Inl _ \<Rightarrow> None
      | Inr r \<Rightarrow> Some (initialNonce r, getInitialBalance r, getConsumedBalance r))"

definition same_view :: "virtualSelectionSession \<Rightarrow> virtualSelectionSession \<Rightarrow> bool" where
  "same_view vs vs' \<longleftrightarrow> vs_session vs' = vs_session vs \<and> acct vs' = acct vs \<and>
     (\<forall>a. rec_of vs a \<noteq> None \<longrightarrow> rec_of vs' a \<noteq> None)"

lemma same_view_refl [simp]: "same_view vs vs"
  by (simp add: same_view_def)

lemma same_view_trans [trans]: "same_view a b \<Longrightarrow> same_view b c \<Longrightarrow> same_view a c"
  by (simp add: same_view_def)

lemma createAccountRecord_cong:
  "vs_session vs' = vs_session vs \<Longrightarrow> createAccountRecord vs' a = createAccountRecord vs a"
  by (simp add: createAccountRecord_def)

lemma acct_conv:
  "acct vs a =
     (case rec_of vs a of
        Some r \<Rightarrow> Some (initialNonce r, getInitialBalance r, getConsumedBalance r)
      | None \<Rightarrow> (case createAccountRecord vs a of
                  Inl _ \<Rightarrow> None
                | Inr r \<Rightarrow> Some (initialNonce r, getInitialBalance r, getConsumedBalance r)))"
  by (simp add: acct_def getRecord_def split: option.splits sum.splits)

lemma getRecord_view:
  assumes "getRecord vs a = (res, vs')"
  shows "same_view vs vs'"
    and "res = Inr r \<Longrightarrow> rec_of vs' a = Some r \<and>
      acct vs a = Some (initialNonce r, getInitialBalance r, getConsumedBalance r)"
proof -
  have sess: "vs_session vs' = vs_session vs" using assms by (rule vs_session_getRecord)
  have "acct vs' x = acct vs x \<and> (rec_of vs x \<noteq> None \<longrightarrow> rec_of vs' x \<noteq> None)" for x
    using rec_of_getRecord [OF assms, of x]
    by (auto simp: acct_conv createAccountRecord_cong [OF sess] split: option.splits)
  with sess show "same_view vs vs'" by (auto simp: same_view_def)
  show "res = Inr r \<Longrightarrow> rec_of vs' a = Some r \<and>
      acct vs a = Some (initialNonce r, getInitialBalance r, getConsumedBalance r)"
    using assms getRecord_stored by (auto simp: acct_def)
qed

lemma acct_modify:
  assumes "rec_of vs a \<noteq> None"
  shows "acct (modifyRecord vs a f) x =
    (if x = a then map_option (\<lambda>r. (initialNonce (f r), getInitialBalance (f r), getConsumedBalance (f r)))
       (rec_of vs a) else acct vs x)"
  using assms by (auto simp: acct_conv createAccountRecord_cong [OF vs_session_modify] split: option.splits)

section \<open>Checking and charging a transaction\<close>

text \<open>What a transaction takes from an account.\<close>

definition charged :: "bytes \<Rightarrow> WrappedTransaction \<Rightarrow> int" where
  "charged a tx =
     (if senderOf tx = a then opt_int (TransferredValue tx) else 0) +
     (if payerOf tx = a then opt_int (Fee tx) else 0)"

definition charged_by :: "bytes \<Rightarrow> WrappedTransaction list \<Rightarrow> int" where
  "charged_by a txs = sum_list (map (charged a) txs)"

definition affordable :: "virtualSelectionSession \<Rightarrow> WrappedTransaction \<Rightarrow> bool" where
  "affordable vs tx \<longleftrightarrow>
     TransferredValue tx \<noteq> None \<and> Fee tx \<noteq> None \<and>
     (\<forall>a. a = senderOf tx \<or> a = payerOf tx \<longrightarrow>
       (\<exists>n i c. acct vs a = Some (n, i, c) \<and> c + charged a tx \<le> i))"

lemma exceeds_view:
  assumes "consumedBalanceExceedsInitialBalance vs a v = (exceeded, vs')"
  shows "same_view vs vs'"
    and "\<not> exceeded \<Longrightarrow> rec_of vs' a \<noteq> None \<and> (\<exists>n i c. acct vs a = Some (n, i, c) \<and> c + v \<le> i)"
  using assms getRecord_view [of vs a]
  by (auto simp: consumedBalanceExceedsInitialBalance_def not_less split: prod.splits sum.splits)

lemma willBeExceeded_view:
  assumes "detectWillBalanceBeExceeded vs (Some tx) = (exceeded, vs')"
  shows "same_view vs vs'"
    and "\<not> exceeded \<Longrightarrow> affordable vs tx \<and> rec_of vs' (senderOf tx) \<noteq> None \<and> rec_of vs' (payerOf tx) \<noteq> None"
proof -
  have conj: "same_view vs vs' \<and> (\<not> exceeded \<longrightarrow>
      affordable vs tx \<and> rec_of vs' (senderOf tx) \<noteq> None \<and> rec_of vs' (payerOf tx) \<noteq> None)"
  proof (cases "TransferredValue tx")
    case None
    with assms show ?thesis by (simp add: detectWillBalanceBeExceeded_def)
  next
    case tv: (Some tv)
    obtain e1 vs1 where c1: "consumedBalanceExceedsInitialBalance vs (senderOf tx) tv = (e1, vs1)" by fastforce
    note v1 = exceeds_view [OF c1]
    show ?thesis
    proof (cases "e1 \<or> Fee tx = None")
      case True
      with assms tv c1 v1(1) show ?thesis
        by (auto simp: detectWillBalanceBeExceeded_def split: if_splits)
    next
      case False
      then obtain fee where fee: "Fee tx = Some fee" "\<not> e1" by auto
      obtain e2 vs2 where c2: "consumedBalanceExceedsInitialBalance vs1 (payerOf tx) fee = (e2, vs2)" by fastforce
      note v2 = exceeds_view [OF c2]
      have v12: "same_view vs vs2" using v1(1) v2(1) same_view_trans by blast
      obtain e3 vs3 where c3: "consumedBalanceExceedsInitialBalance vs2 (senderOf tx) (tv + fee) = (e3, vs3)"
        by fastforce
      note v3 = exceeds_view [OF c3]
      have v13: "same_view vs vs3" using v12 v3(1) same_view_trans by blast
      have res: "(exceeded, vs') = (if e2 then (True, vs2)
          else if senderOf tx = payerOf tx then (e3, vs3) else (False, vs2))"
        using assms tv fee c1 c2 c3
        by (auto simp: detectWillBalanceBeExceeded_def slice_Equal_def split: if_splits)
      show ?thesis
      proof (cases "exceeded")
        case True
        with res v12 v13 show ?thesis by (auto split: if_splits)
      next
        case False
        then show ?thesis using res v12 v13 v1(2) v2 v3(2) tv fee
          unfolding affordable_def same_view_def charged_def
          by (auto simp: opt_int_def split: if_splits)
      qed
    qed
  qed
  then show "same_view vs vs'"
    and "\<not> exceeded \<Longrightarrow> affordable vs tx \<and> rec_of vs' (senderOf tx) \<noteq> None \<and> rec_of vs' (payerOf tx) \<noteq> None"
    by blast+
qed

lemma guardian_view: "same_view vs (setChangeGuardianIfNeeded vs tx)"
proof -
  obtain res vs1 where get: "getRecord vs (slice_str (GetSndAddr tx)) = (res, vs1)" by fastforce
  show ?thesis
  proof (cases res)
    case (Inl e)
    with get getRecord_view(1) [OF get] show ?thesis by (simp add: setChangeGuardianIfNeeded_def)
  next
    case (Inr r)
    let ?vs2 = "modifyRecord vs1 (slice_str (GetSndAddr tx)) (\<lambda>r. r\<lparr>hasPendingChangeGuardianTransaction := True\<rparr>)"
    have r: "rec_of vs1 (slice_str (GetSndAddr tx)) = Some r" using getRecord_view(2) [OF get Inr] by simp
    have "acct ?vs2 x = acct vs1 x" for x
      using r by (simp add: acct_modify) (simp add: acct_conv getInitialBalance_def getConsumedBalance_def)
    then have "same_view vs1 ?vs2" using r by (auto simp: same_view_def fun_eq_iff)
    with getRecord_view(1) [OF get] have "same_view vs ?vs2" by (rule same_view_trans)
    with Inr get show ?thesis by (simp add: setChangeGuardianIfNeeded_def)
  qed
qed

lemma accumulate_opt_view:
  assumes "rec_of vs a \<noteq> None"
  shows "acct (accumulate_opt vs a v) x =
      (if x = a then map_option (\<lambda>(n, i, c). (n, i, c + opt_int v)) (acct vs x) else acct vs x)"
    and "rec_of (accumulate_opt vs a v) y = None \<longleftrightarrow> rec_of vs y = None"
    and "vs_session (accumulate_opt vs a v) = vs_session vs"
  using assms by (cases v; auto simp: acct_modify opt_int_def; simp add: acct_conv)+

lemma accumulate_view:
  assumes rs: "rec_of vs (senderOf tx) \<noteq> None" and rp: "rec_of vs (payerOf tx) \<noteq> None"
  obtains vs' where "vs_accumulateConsumedBalance vs tx (senderOf tx) = (None, vs')"
    and "vs_session vs' = vs_session vs"
    and "\<And>a. acct vs' a = map_option (\<lambda>(n, i, c). (n, i, c + charged a tx)) (acct vs a)"
proof -
  obtain r where r: "rec_of vs (payerOf tx) = Some r" using rp by blast
  define vs1 where "vs1 = accumulate_opt vs (payerOf tx) (Fee tx)"
  define vs2 where "vs2 = accumulate_opt vs1 (senderOf tx) (TransferredValue tx)"
  have "rec_of vs1 (senderOf tx) \<noteq> None" using accumulate_opt_view(2) [OF rp] rs by (simp add: vs1_def)
  note v2 = accumulate_opt_view [OF this] and v1 = accumulate_opt_view [OF rp]
  have "acct vs2 a = map_option (\<lambda>(n, i, c). (n, i, c + charged a tx)) (acct vs a)" for a
    unfolding vs2_def v2 unfolding vs1_def v1
    by (cases "acct vs a") (auto simp: charged_def)
  moreover have "vs_accumulateConsumedBalance vs tx (senderOf tx) = (None, vs2)"
    using r by (auto simp: vs_accumulateConsumedBalance_def isFeePayerSameAsSender_iff getRecord_def
        vs1_def vs2_def)
  moreover have "vs_session vs2 = vs_session vs" unfolding vs2_def v2 unfolding vs1_def v1 by simp
  ultimately show thesis using that by blast
qed

section \<open>Outcomes of one iteration\<close>

definition selectable :: "virtualSelectionSession \<Rightarrow> transactionsHeapItem \<Rightarrow> bool" where
  "selectable vs item \<longleftrightarrow>
     affordable vs (currentTransaction item) \<and>
     (\<exists>n i c. acct vs (item_sender item) = Some (n, i, c) \<and> optHasValue n \<and>
       \<not> detectInitialGap item (optValue n) \<and> \<not> detectLowerNonce item (optValue n)) \<and>
     \<not> detectMiddleGap item \<and> \<not> detectNonceDuplicate item"

lemma skippableSender_view:
  assumes "detectSkippableSender g vs item r = (skip, vs')"
  shows "same_view vs vs'"
    and "\<not> skip \<Longrightarrow> affordable vs (currentTransaction item) \<and>
      rec_of vs' (senderOf (currentTransaction item)) \<noteq> None \<and>
      rec_of vs' (payerOf (currentTransaction item)) \<noteq> None \<and> optHasValue (initialNonce r) \<and>
      \<not> detectInitialGap item (optValue (initialNonce r)) \<and> \<not> detectMiddleGap item"
proof -
  obtain e vs1 where w: "detectWillBalanceBeExceeded vs (Some (currentTransaction item)) = (e, vs1)" by fastforce
  note v = willBeExceeded_view [OF w] guardian_view [of vs1 "Tx (currentTransaction item)"]
  have vg: "same_view vs (setChangeGuardianIfNeeded vs1 (Tx (currentTransaction item)))"
    using v(1,3) same_view_trans by blast
  show "same_view vs vs'"
    using assms w v(1) vg by (auto simp: detectSkippableSender_def split: sum.splits if_splits)
  assume "\<not> skip"
  with assms w have ok: "\<not> e" "optHasValue (initialNonce r)"
    "\<not> detectInitialGap item (optValue (initialNonce r))" "\<not> detectMiddleGap item"
    "vs' = vs1 \<or> vs' = setChangeGuardianIfNeeded vs1 (Tx (currentTransaction item))"
    by (auto simp: detectSkippableSender_def getInitialNonce_def split: if_splits)
  with v(2) [OF ok(1)] v(3) show "affordable vs (currentTransaction item) \<and>
      rec_of vs' (senderOf (currentTransaction item)) \<noteq> None \<and>
      rec_of vs' (payerOf (currentTransaction item)) \<noteq> None \<and> optHasValue (initialNonce r) \<and>
      \<not> detectInitialGap item (optValue (initialNonce r)) \<and> \<not> detectMiddleGap item"
    unfolding same_view_def by blast
qed

lemma select_item_cases:
  assumes sender: "item_sender item = senderOf (currentTransaction item)"
  obtains (skip) vs where "select_item g s item = Continue (s\<lparr>sel_vs := vs\<rparr>)" "same_view (sel_vs s) vs"
  | (pass) vs where "select_item g s item = push_next (s\<lparr>sel_vs := vs\<rparr>) item" "same_view (sel_vs s) vs"
  | (limit) vs n where "select_item g s item = Break (s\<lparr>sel_vs := vs, uniqueSenderCount := n\<rparr>)"
  | (select) vs n where
      "select_item g s item =
         push_next (s\<lparr>sel_vs := vs, uniqueSenderCount := n,
           accumulatedGas := accumulatedGas s + GetGasLimit (Tx (currentTransaction item)),
           selectedTransactions := selectedTransactions s @ [currentTransaction item]\<rparr>)
         (selectCurrentTransaction item)"
      "selectable (sel_vs s) item"
      "\<And>a. acct vs a = map_option (\<lambda>(n, i, c). (n, i, c + charged a (currentTransaction item))) (acct (sel_vs s) a)"
proof -
  let ?tx = "currentTransaction item"
  obtain res vs1 where get: "getRecord (sel_vs s) (item_sender item) = (res, vs1)" by fastforce
  note v1 = getRecord_view [OF get]
  show thesis
  proof (cases res)
    case (Inl e)
    with get v1(1) skip show ?thesis by (simp add: select_item_def)
  next
    case (Inr r)
    obtain sk vs2 where sk: "detectSkippableSender g vs1 item r = (sk, vs2)" by fastforce
    note v2 = skippableSender_view [OF sk]
    have v12: "same_view (sel_vs s) vs2" using v1(1) v2(1) same_view_trans by blast
    consider "sk" | "\<not> sk" "detectSkippableTransaction vs2 item r" | "\<not> sk" "\<not> detectSkippableTransaction vs2 item r"
      by blast
    then show ?thesis
    proof cases
      case 1
      with get Inr sk v12 skip show ?thesis by (simp add: select_item_def)
    next
      case 2
      with get Inr sk v12 pass show ?thesis by (simp add: select_item_def)
    next
      case 3
      note ok = v2(2) [OF 3(1)]
      obtain vs3 where acc: "vs_accumulateConsumedBalance vs2 ?tx (item_sender item) = (None, vs3)"
        and acct3: "\<And>a. acct vs3 a = map_option (\<lambda>(n, i, c). (n, i, c + charged a ?tx)) (acct vs2 a)"
        using accumulate_view [of vs2 ?tx] ok unfolding sender by blast
      have sel: "selectable (sel_vs s) item"
        using 3(2) ok v1(1) v1(2) [OF Inr]
        by (auto simp: selectable_def detectSkippableTransaction_def getInitialNonce_def same_view_def
            affordable_def split: if_splits)
      have eq: "acct vs2 = acct (sel_vs s)" using v12 by (simp add: same_view_def)
      define n where "n = (if latestSelectedTransaction item = None then uniqueSenderCount s + 1
          else uniqueSenderCount s)"
      show ?thesis
      proof (cases "latestSelectedTransaction item = None \<and> n > maxAccountsPerBlock")
        case True
        with get Inr sk 3 acc show ?thesis
          by (intro limit [of n vs3]) (auto simp: select_item_def getCurrentTransaction_def n_def Let_def)
      next
        case False
        with get Inr sk 3 acc acct3 sel show ?thesis
          by (intro select [of n vs3]) (auto simp: select_item_def getCurrentTransaction_def n_def eq Let_def)
      qed
    qed
  qed
qed

lemma select_iteration_cases:
  assumes it: "select_iteration g opts grace cutoff s = r" and r: "r \<noteq> Panic"
  obtains item h p t where "heap_Pop maxHeapLess (sel_heap s) = Some (item, h)"
    and "r = Break (s\<lparr>sel_heap := h, processedTxs := p, timeChecks := t\<rparr>) \<or>
         r = Continue (s\<lparr>sel_heap := h, processedTxs := p, timeChecks := t\<rparr>) \<or>
         r = select_item g (s\<lparr>sel_heap := h, processedTxs := p, timeChecks := t\<rparr>) item \<and>
         accumulatedGas s + GetGasLimit (Tx (currentTransaction item)) \<le> gasRequested opts \<and>
         int (length (selectedTransactions s)) < opt_maxNumTxs opts"
proof -
  from it r obtain item h where pop: "heap_Pop maxHeapLess (sel_heap s) = Some (item, h)"
    by (auto simp: select_iteration_def split: option.splits)
  let ?p = "processedTxs s + 1"
  have t: "s\<lparr>sel_heap := h, processedTxs := ?p\<rparr> = s\<lparr>sel_heap := h, processedTxs := ?p, timeChecks := timeChecks s\<rparr>"
    by simp
  show thesis
    using that [OF pop, of "timeChecks s" ?p] that [OF pop, of "timeChecks s + 1" ?p] it r pop
    by (auto simp: select_iteration_def Let_def not_less not_le split: if_splits)
qed

section \<open>The items of the heap\<close>

definition wf_bunches :: "bunchOfTransactions list \<Rightarrow> bool" where
  "wf_bunches bs \<longleftrightarrow>
     (\<forall>b \<in> set bs. sorted (map nonceOf b) \<and> (\<forall>t \<in> set b. senderOf t = senderOf (hd b))) \<and>
     distinct (map (senderOf \<circ> hd) (filter (\<lambda>b. b \<noteq> []) bs))"

definition wf_item :: "bunchOfTransactions list \<Rightarrow> transactionsHeapItem \<Rightarrow> bool" where
  "wf_item bs item \<longleftrightarrow>
     bunch item \<in> set bs \<and> currentTransactionIndex item < length (bunch item) \<and>
     currentTransaction item = bunch item ! currentTransactionIndex item \<and>
     currentTransactionNonce item = nonceOf (currentTransaction item) \<and>
     item_sender item = senderOf (currentTransaction item)"

text \<open>The item remembers the last selected nonce of its sender.\<close>

definition linked :: "WrappedTransaction list \<Rightarrow> transactionsHeapItem \<Rightarrow> bool" where
  "linked sel item \<longleftrightarrow>
     (let ns = nonces_of (item_sender item) sel
      in if latestSelectedTransaction item = None then ns = []
         else ns \<noteq> [] \<and> last ns = latestSelectedTransactionNonce item \<and>
              latestSelectedTransactionNonce item \<le> currentTransactionNonce item)"

definition heap_ok :: "bunchOfTransactions list \<Rightarrow> WrappedTransaction list \<Rightarrow> transactionsHeapItem list \<Rightarrow> bool" where
  "heap_ok bs sel h \<longleftrightarrow>
     (\<forall>item \<in> set h. wf_item bs item \<and> linked sel item) \<and> distinct (map item_sender h) \<and> maxheap.is_heap h"

lemma distinct_map_mset:
  "mset h = add_mset x (mset h') \<Longrightarrow> distinct (map f h) \<longleftrightarrow> distinct (map f (x # h'))"
  by (rule mset_eq_imp_distinct_iff) simp

lemma heap_ok_Pop:
  assumes ok: "heap_ok bs sel h" and pop: "heap_Pop maxHeapLess h = Some (item, h')"
  shows "heap_ok bs sel h'" "wf_item bs item" "linked sel item" "item_sender item \<notin> item_sender ` set h'"
proof -
  have m: "mset h = add_mset item (mset h')" using pop by (rule mset_heap_Pop)
  then have st: "set h = insert item (set h')" by (metis set_mset_add_mset_insert set_mset_mset)
  have d: "distinct (map item_sender (item # h'))"
    using ok distinct_map_mset [OF m, of item_sender] by (simp add: heap_ok_def)
  show "heap_ok bs sel h'" "wf_item bs item" "linked sel item" "item_sender item \<notin> item_sender ` set h'"
    using ok d maxheap.is_heap_Pop [OF _ pop] by (auto simp: heap_ok_def st)
qed

lemma heap_ok_Push:
  assumes ok: "heap_ok bs sel h" and "wf_item bs item" "linked sel item" "item_sender item \<notin> item_sender ` set h"
  shows "heap_ok bs sel (heap_Push maxHeapLess h item)"
proof -
  have m: "mset (heap_Push maxHeapLess h item) = add_mset item (mset h)" by simp
  then have st: "set (heap_Push maxHeapLess h item) = insert item (set h)"
    by (metis set_mset_add_mset_insert set_mset_mset)
  show ?thesis
    using assms maxheap.is_heap_Push [of h item] distinct_map_mset [OF m, of item_sender]
    by (simp add: heap_ok_def st)
qed

lemma gotoNext_ok:
  assumes bs: "wf_bunches bs" and item: "wf_item bs item" "linked sel item"
    and nxt: "gotoNextTransaction item = Some item'"
  shows "wf_item bs item'" "linked sel item'" "item_sender item' = item_sender item"
proof -
  let ?i = "currentTransactionIndex item"
  have i: "?i + 1 < length (bunch item)" and item': "item' = item\<lparr>currentTransactionIndex := ?i + 1,
      currentTransaction := bunch item ! (?i + 1), currentTransactionNonce := nonceOf (bunch item ! (?i + 1))\<rparr>"
    using nxt by (auto simp: gotoNextTransaction_def Let_def split: if_splits)
  have b: "sorted (map nonceOf (bunch item))" "\<forall>t \<in> set (bunch item). senderOf t = senderOf (hd (bunch item))"
    using bs item(1) by (auto simp: wf_bunches_def wf_item_def)
  have "senderOf (bunch item ! (?i + 1)) = senderOf (bunch item ! ?i)"
    using b(2) i by (metis add_lessD1 nth_mem)
  then show "wf_item bs item'" "item_sender item' = item_sender item"
    using item(1) i by (simp_all add: item' wf_item_def)
  have "nonceOf (bunch item ! ?i) \<le> nonceOf (bunch item ! (?i + 1))"
    using sorted_nth_nonce [OF b(1), of ?i "?i + 1"] i by simp
  then show "linked sel item'"
    using item by (auto simp: item' linked_def wf_item_def Let_def split: if_splits)
qed

lemma push_next_heap_ok:
  assumes bs: "wf_bunches bs" and ok: "heap_ok bs sel (sel_heap s)"
    and item: "wf_item bs item" "linked sel item" "item_sender item \<notin> item_sender ` set (sel_heap s)"
  obtains h where "push_next s item = Continue (s\<lparr>sel_heap := h\<rparr>)" "heap_ok bs sel h"
proof (cases "gotoNextTransaction item")
  case None
  then show ?thesis using that [of "sel_heap s"] ok by (simp add: push_next_def)
next
  case (Some item')
  note n = gotoNext_ok [OF bs item(1,2) Some]
  show ?thesis
    using that [of "heap_Push maxHeapLess (sel_heap s) item'"] heap_ok_Push [OF ok n(1,2)] n(3) item(3) Some
    by (simp add: push_next_def)
qed

lemma linked_other: "item_sender item \<noteq> senderOf tx \<Longrightarrow> linked (sel @ [tx]) item \<longleftrightarrow> linked sel item"
  by (simp add: linked_def nonces_of_snoc)

lemma heap_ok_select:
  assumes "heap_ok bs sel h" "senderOf tx \<notin> item_sender ` set h"
  shows "heap_ok bs (sel @ [tx]) h"
  using assms by (auto simp: heap_ok_def linked_other image_iff)

lemma select_linked:
  assumes "wf_item bs item"
  shows "wf_item bs (selectCurrentTransaction item)"
    and "linked (sel @ [currentTransaction item]) (selectCurrentTransaction item)"
    and "item_sender (selectCurrentTransaction item) = item_sender item"
  using assms by (simp_all add: wf_item_def selectCurrentTransaction_def linked_def nonces_of_snoc)

lemma push_bunches_ok:
  assumes "heap_ok bs [] h" and "set rest \<subseteq> set bs" and "wf_bunches bs"
    and "distinct (map (senderOf \<circ> hd) (filter (\<lambda>b. b \<noteq> []) rest))"
    and "item_sender ` set h \<inter> (senderOf \<circ> hd) ` set (filter (\<lambda>b. b \<noteq> []) rest) = {}"
  shows "heap_ok bs [] (push_bunches maxHeapLess h rest)"
  using assms
proof (induction rest arbitrary: h)
  case (Cons b rest)
  show ?case
  proof (cases b)
    case Nil
    with Cons show ?thesis by (simp add: newTransactionsHeapItem_def)
  next
    case (Cons tx txs)
    obtain item where item: "newTransactionsHeapItem b = Inr item" by (simp add: Cons newTransactionsHeapItem_def)
    have i: "item_sender item = senderOf tx" "wf_item bs item" "linked [] item"
      using item Cons Cons.prems(2)
      by (auto simp: newTransactionsHeapItem_def wf_item_def linked_def nonces_of_def)
    have "senderOf tx \<notin> item_sender ` set h" using Cons.prems(5) Cons by auto
    with i have ok: "heap_ok bs [] (heap_Push maxHeapLess h item)"
      by (intro heap_ok_Push Cons.prems(1)) simp_all
    have "set (heap_Push maxHeapLess h item) = insert item (set h)"
      by (metis mset_heap_Push set_mset_add_mset_insert set_mset_mset)
    with Cons.prems Cons i(1) show ?thesis
      unfolding push_bunches.simps item sum.case by (intro Cons.IH ok) auto
  qed
qed simp

lemma selection_start_ok: "wf_bunches bs \<Longrightarrow> heap_ok bs [] (sel_heap (selection_start vs bs))"
  unfolding selection_start_def selectionState.select_convs heap_Init_Nil
  by (rule push_bunches_ok) (auto simp: wf_bunches_def heap_ok_def maxheap.heap_upto_def)

section \<open>What holds of the selected transactions\<close>

definition balance_view :: "virtualSelectionSession \<Rightarrow> virtualSelectionSession \<Rightarrow> WrappedTransaction list \<Rightarrow> bool" where
  "balance_view vs0 vs sel \<longleftrightarrow>
     (\<forall>a. acct vs a = map_option (\<lambda>(n, i, c). (n, i, c + charged_by a sel)) (acct vs0 a))"

definition funded :: "virtualSelectionSession \<Rightarrow> WrappedTransaction list \<Rightarrow> bool" where
  "funded vs0 sel \<longleftrightarrow>
     (\<forall>tx \<in> set sel. \<forall>a. a = senderOf tx \<or> a = payerOf tx \<longrightarrow>
       (\<exists>n i c. acct vs0 a = Some (n, i, c) \<and> c + charged_by a sel \<le> i))"

definition in_sequence :: "virtualSelectionSession \<Rightarrow> WrappedTransaction list \<Rightarrow> bool" where
  "in_sequence vs0 sel \<longleftrightarrow>
     (\<forall>a. let ns = nonces_of a sel
          in consecutive ns \<and> sorted_wrt (<) ns \<and>
             (ns \<noteq> [] \<longrightarrow> (\<exists>n i c. acct vs0 a = Some (n, i, c) \<and> optHasValue n \<and> hd ns = optValue n)))"

definition gas_of :: "WrappedTransaction list \<Rightarrow> nat" where
  "gas_of txs = sum_list (map (\<lambda>tx. unat (GetGasLimit (Tx tx))) txs)"

definition in_budget ::
  "txSelectionOptions \<Rightarrow> bunchOfTransactions list \<Rightarrow> WrappedTransaction list \<Rightarrow> u64 \<Rightarrow> bool" where
  "in_budget opts bs sel gas \<longleftrightarrow>
     gas = of_nat (gas_of sel) \<and> gas \<le> gasRequested opts \<and>
     int (length sel) \<le> max 0 (opt_maxNumTxs opts) \<and> set sel \<subseteq> \<Union> (set ` set bs) \<and>
     ((\<forall>b \<in> set bs. \<forall>tx \<in> set b. unat (gasRequested opts) + unat (GetGasLimit (Tx tx)) < 2 ^ 64) \<longrightarrow>
       unat gas = gas_of sel)"

lemma charged_by_snoc [simp]: "charged_by a (txs @ [tx]) = charged_by a txs + charged a tx"
  by (simp add: charged_by_def)

lemma charged_other: "a \<noteq> senderOf tx \<Longrightarrow> a \<noteq> payerOf tx \<Longrightarrow> charged a tx = 0"
  by (auto simp: charged_def)

lemma funded_snoc:
  assumes "balance_view vs0 vs sel" "funded vs0 sel" "affordable vs tx"
  shows "funded vs0 (sel @ [tx])"
proof -
  have new: "\<exists>n i c. acct vs0 a = Some (n, i, c) \<and> c + charged_by a (sel @ [tx]) \<le> i"
    if "a = senderOf tx \<or> a = payerOf tx" for a
  proof -
    from assms(3) that obtain n i c where "acct vs a = Some (n, i, c)" "c + charged a tx \<le> i"
      unfolding affordable_def by blast
    with assms(1) show ?thesis by (auto simp: balance_view_def)
  qed
  show ?thesis unfolding funded_def
  proof (intro ballI allI impI)
    fix t a assume t: "t \<in> set (sel @ [tx])" "a = senderOf t \<or> a = payerOf t"
    show "\<exists>n i c. acct vs0 a = Some (n, i, c) \<and> c + charged_by a (sel @ [tx]) \<le> i"
    proof (cases "a = senderOf tx \<or> a = payerOf tx")
      case False
      with t have "t \<in> set sel" by auto
      with assms(2) t obtain n i c where "acct vs0 a = Some (n, i, c)" "c + charged_by a sel \<le> i"
        unfolding funded_def by blast
      with False charged_other [of a tx] show ?thesis by auto
    qed (rule new)
  qed
qed

lemma in_sequence_snoc:
  assumes seq: "in_sequence vs0 sel" and bal: "balance_view vs0 vs sel"
    and item: "wf_item bs item" "linked sel item" and sel: "selectable vs item"
  shows "in_sequence vs0 (sel @ [currentTransaction item])"
proof -
  let ?tx = "currentTransaction item" and ?a = "item_sender item"
  define ns where "ns = nonces_of ?a sel"
  have cur: "currentTransactionNonce item = nonceOf ?tx" "senderOf ?tx = ?a"
    using item(1) by (simp_all add: wf_item_def)
  obtain n i c where acct: "acct vs ?a = Some (n, i, c)" "optHasValue n"
    and gaps: "\<not> detectInitialGap item (optValue n)" "\<not> detectLowerNonce item (optValue n)"
      "\<not> detectMiddleGap item" "\<not> detectNonceDuplicate item"
    using sel unfolding selectable_def by blast
  obtain c0 where acct0: "acct vs0 ?a = Some (n, i, c0)" using bal acct(1) by (auto simp: balance_view_def)
  have nsa: "consecutive ns" "sorted_wrt (<) ns"
    "ns \<noteq> [] \<longrightarrow> (\<exists>n i c. acct vs0 ?a = Some (n, i, c) \<and> optHasValue n \<and> hd ns = optValue n)"
    using seq by (simp_all add: in_sequence_def ns_def Let_def)
  have new: "consecutive (ns @ [nonceOf ?tx]) \<and> sorted_wrt (<) (ns @ [nonceOf ?tx]) \<and>
      hd (ns @ [nonceOf ?tx]) = optValue n"
  proof (cases "latestSelectedTransaction item = None")
    case True
    with item(2) have "ns = []" by (simp add: linked_def ns_def)
    with True gaps(1,2) cur show ?thesis by (simp add: detectInitialGap_def detectLowerNonce_def)
  next
    case False
    define l where "l = latestSelectedTransactionNonce item"
    from False item(2) have l: "ns \<noteq> []" "last ns = l" "l \<le> nonceOf ?tx"
      using cur by (auto simp: linked_def ns_def l_def Let_def)
    have "nonceOf ?tx \<noteq> l" "nonceOf ?tx \<le> l + 1"
      using False gaps(3,4) cur by (auto simp: detectMiddleGap_def detectNonceDuplicate_def l_def)
    with l(3) have lt: "l < nonceOf ?tx" and eq: "nonceOf ?tx = l + 1"
      using inc_le [of l "nonceOf ?tx"] by auto
    have "\<forall>x \<in> set ns. x \<le> l"
      using nsa(2) l(1,2) by (metis (no_types, lifting) append_butlast_last_id empty_iff empty_set less_imp_le
          order_refl set_ConsD sorted_wrt_append Un_iff set_append list.set_intros(1))
    with lt have "sorted_wrt (<) (ns @ [nonceOf ?tx])" using nsa(2) by (auto simp: sorted_wrt_append)
    moreover have "hd ns = optValue n" using nsa(3) l(1) acct0 by auto
    ultimately show ?thesis using nsa(1) l(1,2) eq by (simp add: consecutive_snoc)
  qed
  show ?thesis unfolding in_sequence_def
  proof
    fix a
    show "let ns = nonces_of a (sel @ [?tx])
          in consecutive ns \<and> sorted_wrt (<) ns \<and>
             (ns \<noteq> [] \<longrightarrow> (\<exists>n i c. acct vs0 a = Some (n, i, c) \<and> optHasValue n \<and> hd ns = optValue n))"
    proof (cases "a = ?a")
      case True
      with new acct0 acct(2) cur(2) show ?thesis by (simp add: nonces_of_snoc ns_def)
    next
      case False
      with seq cur(2) show ?thesis by (simp add: nonces_of_snoc in_sequence_def Let_def)
    qed
  qed
qed

lemma in_budget_snoc:
  assumes ok: "in_budget opts bs sel gas" and tx: "tx \<in> \<Union> (set ` set bs)"
    and le: "gas + GetGasLimit (Tx tx) \<le> gasRequested opts" "int (length sel) < opt_maxNumTxs opts"
  shows "in_budget opts bs (sel @ [tx]) (gas + GetGasLimit (Tx tx))"
proof -
  have "unat (gas + GetGasLimit (Tx tx)) = unat gas + unat (GetGasLimit (Tx tx))"
    if "\<forall>b \<in> set bs. \<forall>tx \<in> set b. unat (gasRequested opts) + unat (GetGasLimit (Tx tx)) < 2 ^ 64"
  proof -
    have "unat gas \<le> unat (gasRequested opts)"
      using ok unfolding in_budget_def word_le_nat_alt by blast
    with that tx have "unat gas + unat (GetGasLimit (Tx tx)) < 2 ^ 64" by fastforce
    then show ?thesis by (subst unat_add_lem [symmetric]) simp
  qed
  with ok tx le show ?thesis by (auto simp: in_budget_def gas_of_def)
qed

section \<open>The loop as a step relation\<close>

inductive sel_reach ::
  "bytes \<Rightarrow> txSelectionOptions \<Rightarrow> int \<Rightarrow> int \<Rightarrow> selectionState \<Rightarrow> selectionState \<Rightarrow> bool"
  for g :: bytes and opts :: txSelectionOptions and grace :: int and cutoff :: int and s0 :: selectionState where
  start: "sel_reach g opts grace cutoff s0 s0"
| step: "sel_reach g opts grace cutoff s0 s \<Longrightarrow> select_iteration g opts grace cutoff s = Continue s' \<Longrightarrow>
    sel_reach g opts grace cutoff s0 s'"

text \<open>The loop returns a reached state with an empty heap, or the state after the \<open>break\<close> of a
  reached state.\<close>

lemma select_loop_reach:
  assumes "sel_reach g opts grace cutoff s0 s" and "select_loop g opts grace cutoff s = Some s'"
  shows "sel_reach g opts grace cutoff s0 s' \<and> sel_heap s' = [] \<or>
    (\<exists>s1. sel_reach g opts grace cutoff s0 s1 \<and> select_iteration g opts grace cutoff s1 = Break s')"
  using assms
proof (induction g opts grace cutoff s rule: select_loop.induct)
  case (1 g opts grace cutoff s)
  show ?case
  proof (cases "sel_heap s = []")
    case True
    with 1 show ?thesis by (simp add: select_loop.simps [of _ _ _ _ s])
  next
    case False
    note it = 1(3) [unfolded select_loop.simps [of _ _ _ _ s] if_not_P [OF False]]
    show ?thesis
    proof (cases "select_iteration g opts grace cutoff s")
      case (Break s1)
      with it 1(2) show ?thesis by auto
    next
      case (Continue s1)
      with it show ?thesis using "1.IH" [OF False Continue sel_reach.step [OF 1(2) Continue]] by simp
    next
      case Panic
      with it show ?thesis by simp
    qed
  qed
qed

definition sel_inv ::
  "virtualSelectionSession \<Rightarrow> bunchOfTransactions list \<Rightarrow> txSelectionOptions \<Rightarrow> selectionState \<Rightarrow> bool" where
  "sel_inv vs0 bs opts s \<longleftrightarrow>
     heap_ok bs (selectedTransactions s) (sel_heap s) \<and>
     balance_view vs0 (sel_vs s) (selectedTransactions s)"

definition sel_result ::
  "virtualSelectionSession \<Rightarrow> bunchOfTransactions list \<Rightarrow> txSelectionOptions \<Rightarrow> selectionState \<Rightarrow> bool" where
  "sel_result vs0 bs opts s \<longleftrightarrow>
     funded vs0 (selectedTransactions s) \<and> in_sequence vs0 (selectedTransactions s) \<and>
     in_budget opts bs (selectedTransactions s) (accumulatedGas s)"

lemma balance_view_same: "balance_view vs0 vs sel \<Longrightarrow> same_view vs vs' \<Longrightarrow> balance_view vs0 vs' sel"
  by (simp add: balance_view_def same_view_def)

lemma select_item_inv:
  assumes bs: "wf_bunches bs" and inv: "sel_inv vs0 bs opts s" and res: "sel_result vs0 bs opts s"
    and item: "wf_item bs item" "linked (selectedTransactions s) item"
      "item_sender item \<notin> item_sender ` set (sel_heap s)"
    and gas: "accumulatedGas s + GetGasLimit (Tx (currentTransaction item)) \<le> gasRequested opts"
    and num: "int (length (selectedTransactions s)) < opt_maxNumTxs opts"
  shows "case select_item g s item of
      Continue s' \<Rightarrow> sel_inv vs0 bs opts s' \<and> sel_result vs0 bs opts s'
    | Break s' \<Rightarrow> sel_result vs0 bs opts s' | Panic \<Rightarrow> False"
proof -
  let ?tx = "currentTransaction item"
  have sender: "item_sender item = senderOf ?tx" using item(1) by (simp add: wf_item_def)
  have mem: "?tx \<in> \<Union> (set ` set bs)" using item(1) unfolding wf_item_def by (metis UN_I nth_mem)
  have heap: "heap_ok bs (selectedTransactions s) (sel_heap s)"
    and bal: "balance_view vs0 (sel_vs s) (selectedTransactions s)" using inv by (simp_all add: sel_inv_def)
  from sender show ?thesis
  proof (cases rule: select_item_cases [where g = g and s = s])
    case (skip vs)
    with inv res balance_view_same [OF bal] show ?thesis by (simp add: sel_inv_def sel_result_def)
  next
    case (pass vs)
    have "heap_ok bs (selectedTransactions s) (sel_heap (s\<lparr>sel_vs := vs\<rparr>))"
      "item_sender item \<notin> item_sender ` set (sel_heap (s\<lparr>sel_vs := vs\<rparr>))" using heap item(3) by simp_all
    from push_next_heap_ok [OF bs this(1) item(1,2) this(2)] pass
    obtain h where "select_item g s item = Continue (s\<lparr>sel_vs := vs, sel_heap := h\<rparr>)"
      "heap_ok bs (selectedTransactions s) h" by metis
    with pass(2) res balance_view_same [OF bal] show ?thesis by (simp add: sel_inv_def sel_result_def)
  next
    case (limit vs n)
    with res show ?thesis by (simp add: sel_result_def)
  next
    case (select vs n)
    define s1 where "s1 = s\<lparr>sel_vs := vs, uniqueSenderCount := n,
        accumulatedGas := accumulatedGas s + GetGasLimit (Tx ?tx),
        selectedTransactions := selectedTransactions s @ [?tx]\<rparr>"
    have h1: "heap_ok bs (selectedTransactions s @ [?tx]) (sel_heap s1)"
      using heap_ok_select [OF heap] item(3) sender by (simp add: s1_def)
    note l = select_linked [OF item(1)]
    have notin: "item_sender (selectCurrentTransaction item) \<notin> item_sender ` set (sel_heap s1)"
      using item(3) by (simp add: s1_def l(3))
    from push_next_heap_ok [OF bs h1 l(1,2) notin] select(1)
    obtain h where h: "select_item g s item = Continue (s1\<lparr>sel_heap := h\<rparr>)"
      "heap_ok bs (selectedTransactions s @ [?tx]) h" unfolding s1_def by metis
    have "balance_view vs0 vs (selectedTransactions s @ [?tx])"
      unfolding balance_view_def
    proof
      fix a
      show "acct vs a = map_option (\<lambda>(n, i, c). (n, i, c + charged_by a (selectedTransactions s @ [?tx]))) (acct vs0 a)"
        using bal select(3) [of a] by (cases "acct vs0 a") (auto simp: balance_view_def add.assoc)
    qed
    moreover have "funded vs0 (selectedTransactions s @ [?tx])"
      using funded_snoc [OF bal] res select(2) by (simp add: sel_result_def selectable_def)
    moreover have "in_sequence vs0 (selectedTransactions s @ [?tx])"
      using in_sequence_snoc [OF _ bal item(1,2) select(2)] res by (simp add: sel_result_def)
    moreover have "in_budget opts bs (selectedTransactions s @ [?tx]) (accumulatedGas s + GetGasLimit (Tx ?tx))"
      using in_budget_snoc [OF _ mem gas num] res by (simp add: sel_result_def)
    ultimately show ?thesis using h by (simp add: sel_inv_def sel_result_def s1_def)
  qed
qed

lemma select_iteration_inv:
  assumes bs: "wf_bunches bs" and inv: "sel_inv vs0 bs opts s" and res: "sel_result vs0 bs opts s"
  shows "case select_iteration g opts grace cutoff s of
      Continue s' \<Rightarrow> sel_inv vs0 bs opts s' \<and> sel_result vs0 bs opts s'
    | Break s' \<Rightarrow> sel_result vs0 bs opts s' | Panic \<Rightarrow> True"
proof (cases "select_iteration g opts grace cutoff s = Panic")
  case False
  then obtain item h p t where pop: "heap_Pop maxHeapLess (sel_heap s) = Some (item, h)"
    and r: "select_iteration g opts grace cutoff s = Break (s\<lparr>sel_heap := h, processedTxs := p, timeChecks := t\<rparr>) \<or>
         select_iteration g opts grace cutoff s = Continue (s\<lparr>sel_heap := h, processedTxs := p, timeChecks := t\<rparr>) \<or>
         select_iteration g opts grace cutoff s =
           select_item g (s\<lparr>sel_heap := h, processedTxs := p, timeChecks := t\<rparr>) item \<and>
         accumulatedGas s + GetGasLimit (Tx (currentTransaction item)) \<le> gasRequested opts \<and>
         int (length (selectedTransactions s)) < opt_maxNumTxs opts"
    by (rule select_iteration_cases [OF refl])
  define s1 where "s1 = s\<lparr>sel_heap := h, processedTxs := p, timeChecks := t\<rparr>"
  have "heap_ok bs (selectedTransactions s) (sel_heap s)" using inv by (simp add: sel_inv_def)
  note popped = heap_ok_Pop [OF this pop]
  have inv1: "sel_inv vs0 bs opts s1" and res1: "sel_result vs0 bs opts s1"
    using inv res popped(1) by (simp_all add: s1_def sel_inv_def sel_result_def)
  have "case select_item g s1 item of
      Continue s' \<Rightarrow> sel_inv vs0 bs opts s' \<and> sel_result vs0 bs opts s'
    | Break s' \<Rightarrow> sel_result vs0 bs opts s' | Panic \<Rightarrow> False"
    if "accumulatedGas s + GetGasLimit (Tx (currentTransaction item)) \<le> gasRequested opts"
      "int (length (selectedTransactions s)) < opt_maxNumTxs opts"
    by (rule select_item_inv [OF bs inv1 res1]) (use popped that in \<open>simp_all add: s1_def\<close>)
  with r inv1 res1 show ?thesis unfolding s1_def by (auto split: iteration.splits)
qed simp

lemma selection_start_inv:
  assumes "wf_bunches bs"
  shows "sel_inv vs bs opts (selection_start vs bs)" "sel_result vs bs opts (selection_start vs bs)"
proof -
  have "map_option (\<lambda>(n, i, c). (n, i, c + charged_by a [])) x = x"
    for a and x :: "(OptionalUint64 \<times> int \<times> int) option"
    by (cases x) (auto simp: charged_by_def)
  with selection_start_ok [OF assms, of vs]
  show "sel_inv vs bs opts (selection_start vs bs)"
    by (simp add: sel_inv_def balance_view_def selection_start_def)
  show "sel_result vs bs opts (selection_start vs bs)"
    by (simp add: sel_result_def selection_start_def funded_def in_sequence_def in_budget_def gas_of_def
        nonces_of_def)
qed

lemma sel_reach_inv:
  assumes "sel_reach g opts grace cutoff (selection_start vs bs) s" and bs: "wf_bunches bs"
  shows "sel_inv vs bs opts s \<and> sel_result vs bs opts s"
  using assms(1)
proof (induction rule: sel_reach.induct)
  case start
  show ?case using selection_start_inv [OF bs] by blast
next
  case (step s s')
  with select_iteration_inv [OF bs, of vs opts s g grace cutoff] show ?case by simp
qed

lemma selected_result:
  assumes bs: "wf_bunches bs"
    and sel: "selectTransactionsFromBunches g vs bs opts grace now = Some (sel, gas)"
  shows "funded vs sel" "in_sequence vs sel" "in_budget opts bs sel gas"
proof -
  let ?c = "now - grace"
  from sel obtain s' where loop: "select_loop g opts grace ?c (selection_start vs bs) = Some s'"
    and s': "sel = selectedTransactions s'" "gas = accumulatedGas s'"
    by (auto simp: selectTransactionsFromBunches_def split: option.splits)
  from select_loop_reach [OF sel_reach.start loop] have "sel_result vs bs opts s'"
  proof
    assume "sel_reach g opts grace ?c (selection_start vs bs) s' \<and> sel_heap s' = []"
    with sel_reach_inv [OF _ bs] show ?thesis by blast
  next
    assume "\<exists>s1. sel_reach g opts grace ?c (selection_start vs bs) s1 \<and>
        select_iteration g opts grace ?c s1 = Break s'"
    then obtain s1 where r: "sel_reach g opts grace ?c (selection_start vs bs) s1"
      and b: "select_iteration g opts grace ?c s1 = Break s'" by blast
    from sel_reach_inv [OF r bs] select_iteration_inv [OF bs, of vs opts s1 g grace ?c] b show ?thesis by simp
  qed
  then show "funded vs sel" "in_sequence vs sel" "in_budget opts bs sel gas"
    by (simp_all add: sel_result_def s')
qed

section \<open>A sample selection\<close>

text \<open>Two senders; the second one has a nonce gap after its first transaction.\<close>

definition sample_tx :: "u8 \<Rightarrow> u64 \<Rightarrow> u64 \<Rightarrow> WrappedTransaction" where
  "sample_tx sender nonce price =
     \<lparr>Tx = \<lparr>GetNonce = nonce, GetSndAddr = Some [sender], GetGasLimit = 50, GetGasPrice = price,
            GetData = [], GetRelayerAddr = None\<rparr>,
      TxHash = [sender, ucast nonce], SenderShardID = 0, ReceiverShardID = 0, Size = 100, ReceivedAt = 0,
      Fee = Some 50, PricePerUnit = price, TransferredValue = Some 7, FeePayer = Some [sender]\<rparr>"

definition sample_session :: SelectionSession where
  "sample_session =
     \<lparr>GetAccountNonceAndBalance = (\<lambda>a. Inr (if a = [1] then 5 else 0, Some 1000)),
      GetRootHash = Inr None, IsIncorrectlyGuarded = (\<lambda>_. False), IsGuarded = (\<lambda>_. False)\<rparr>"

definition sample_vs :: virtualSelectionSession where
  "sample_vs = newVirtualSelectionSession sample_session []"

definition sample_bunches :: "bunchOfTransactions list" where
  "sample_bunches = [[sample_tx 1 5 3, sample_tx 1 6 2], [sample_tx 2 0 9, sample_tx 2 2 9]]"

definition sample_options :: txSelectionOptions where
  "sample_options = \<lparr>gasRequested = 1000, opt_maxNumTxs = 10, loopDurationCheckInterval = 2,
     haveTimeForSelection = (\<lambda>_. True)\<rparr>"

lemma sample_selection:
  "selectTransactionsFromBunches [] sample_vs sample_bunches sample_options 0 0 =
     Some ([sample_tx 2 0 9, sample_tx 1 5 3, sample_tx 1 6 2], 150)"
  by code_simp

lemma sample_bunches_wf: "wf_bunches sample_bunches"
  by code_simp

section \<open>Properties\<close>

text \<open>
  C3: the nonces of the transactions selected for one sender are consecutive (no gap, no duplicate,
  no wrap-around) and start at the nonce the virtual session holds for the sender; a sender without a
  nonce there (a blocked record) gets nothing selected.
\<close>

theorem selection_nonces:
  assumes "wf_bunches bs" and "selectTransactionsFromBunches g vs bs opts grace now = Some (sel, gas)"
    and "ns = nonces_of a sel" and "ns \<noteq> []"
  shows "\<exists>n i c. acct vs a = Some (someNonce n, i, c) \<and> hd ns = n \<and> consecutive ns \<and> sorted_wrt (<) ns"
proof -
  have "\<exists>n i c. acct vs a = Some (n, i, c) \<and> optHasValue n \<and> hd ns = optValue n"
    and "consecutive ns" "sorted_wrt (<) ns"
    using selected_result(2) [OF assms(1,2)] assms(3,4) by (simp_all add: in_sequence_def Let_def)
  then show ?thesis by (metis (full_types) OptionalUint64.surjective old.unit.exhaust)
qed

theorem selection_nonces_witness:
  "\<exists>n i c. acct sample_vs [1] = Some (someNonce n, i, c) \<and> hd [5, 6] = n \<and>
     consecutive [5, 6 :: u64] \<and> sorted_wrt (<) [5, 6 :: u64]"
proof -
  have "[5, 6] = nonces_of [1] [sample_tx 2 0 9, sample_tx 1 5 3, sample_tx 1 6 2]" by code_simp
  from selection_nonces [OF sample_bunches_wf sample_selection this] show ?thesis by simp
qed

text \<open>
  C4: the selection never overspends an account. What the selected transactions take from a sender or
  fee payer, on top of what the tracked blocks already consume, stays within its balance.
\<close>

theorem selection_balances:
  assumes "wf_bunches bs" and "selectTransactionsFromBunches g vs bs opts grace now = Some (sel, gas)"
    and "tx \<in> set sel" and "a = senderOf tx \<or> a = payerOf tx"
  shows "\<exists>n balance consumed. acct vs a = Some (n, balance, consumed) \<and>
    consumed + sum_list (map (charged a) sel) \<le> balance"
  using selected_result(1) [OF assms(1,2)] assms(3,4) unfolding funded_def charged_by_def by blast

theorem selection_balances_witness:
  "\<exists>n balance consumed. acct sample_vs [1] = Some (n, balance, consumed) \<and>
     consumed + sum_list (map (charged [1]) [sample_tx 2 0 9, sample_tx 1 5 3, sample_tx 1 6 2]) \<le> balance"
  by (rule selection_balances [OF sample_bunches_wf sample_selection, of "sample_tx 1 5 3"])
     (simp_all add: sample_tx_def)

text \<open>
  The selection returns the gas of what it selects, which stays within the requested gas, selects
  at most the requested number of transactions, and only from the given bunches. The gas is the true
  sum, without wrap-around, when no gas limit overflows the requested gas.
\<close>

theorem selection_budget:
  assumes "wf_bunches bs" and "selectTransactionsFromBunches g vs bs opts grace now = Some (sel, gas)"
    and "\<forall>b \<in> set bs. \<forall>tx \<in> set b. unat (gasRequested opts) + unat (GetGasLimit (Tx tx)) < 2 ^ 64"
  shows "unat gas = sum_list (map (\<lambda>tx. unat (GetGasLimit (Tx tx))) sel) \<and>
    unat gas \<le> unat (gasRequested opts) \<and> int (length sel) \<le> max 0 (opt_maxNumTxs opts) \<and>
    set sel \<subseteq> \<Union> (set ` set bs)"
proof -
  have b: "in_budget opts bs sel gas" using selected_result(3) [OF assms(1,2)] .
  then have "gas \<le> gasRequested opts" and "unat gas = gas_of sel"
    unfolding in_budget_def using assms(3) by blast+
  then show ?thesis using b unfolding in_budget_def gas_of_def word_le_nat_alt by blast
qed

theorem selection_budget_witness:
  "unat (150 :: u64) = sum_list (map (\<lambda>tx. unat (GetGasLimit (Tx tx)))
     [sample_tx 2 0 9, sample_tx 1 5 3, sample_tx 1 6 2]) \<and>
   unat (150 :: u64) \<le> unat (gasRequested sample_options) \<and>
   int (length [sample_tx 2 0 9, sample_tx 1 5 3, sample_tx 1 6 2]) \<le> max 0 (opt_maxNumTxs sample_options) \<and>
   set [sample_tx 2 0 9, sample_tx 1 5 3, sample_tx 1 6 2] \<subseteq> \<Union> (set ` set sample_bunches)"
  by (rule selection_budget [OF sample_bunches_wf sample_selection])
     (simp add: sample_bunches_def sample_tx_def sample_options_def)

text \<open>
  The loop is greedy. In every state it reaches, the transaction it looks at next is a most
  valuable one (price per unit, then gas limit, then hash) among the current transactions of all the
  senders still in play.
\<close>

theorem selection_greedy:
  assumes "wf_bunches bs" and "sel_reach g opts grace cutoff (selection_start vs bs) s"
    and "heap_Pop maxHeapLess (sel_heap s) = Some (item, h)" and "other \<in> set (sel_heap s)"
  shows "\<not> isTransactionMoreValuableForNetwork (currentTransaction other) (currentTransaction item)"
proof -
  have "maxheap.is_heap (sel_heap s)" using sel_reach_inv [OF assms(2,1)] by (simp add: sel_inv_def heap_ok_def)
  from maxheap.heap_Pop_least [OF this assms(3)] assms(4) show ?thesis
    by (simp add: maxHeapLess_def isCurrentTransactionMoreValuableForNetwork_def)
qed

theorem selection_greedy_witness:
  "\<not> isTransactionMoreValuableForNetwork (sample_tx 1 5 3) (sample_tx 2 0 9)"
proof -
  let ?h = "sel_heap (selection_start sample_vs sample_bunches)"
  have "map_option (currentTransaction \<circ> fst) (heap_Pop maxHeapLess ?h) = Some (sample_tx 2 0 9)" by code_simp
  then obtain item h where pop: "heap_Pop maxHeapLess ?h = Some (item, h)"
    and item: "currentTransaction item = sample_tx 2 0 9" by auto
  have "\<exists>other \<in> set ?h. currentTransaction other = sample_tx 1 5 3" by code_simp
  then obtain other where "other \<in> set ?h" "currentTransaction other = sample_tx 1 5 3" ..
  with selection_greedy [OF sample_bunches_wf sel_reach.start pop] item show ?thesis by metis
qed

lemma select_iteration_no_panic:
  "sel_heap s \<noteq> [] \<Longrightarrow> loopDurationCheckInterval opts \<noteq> 0 \<Longrightarrow>
   select_iteration g opts grace cutoff s \<noteq> Panic"
proof -
  assume "sel_heap s \<noteq> []" and i: "loopDurationCheckInterval opts \<noteq> 0"
  then obtain item h where pop: "heap_Pop maxHeapLess (sel_heap s) = Some (item, h)"
    by (cases "heap_Pop maxHeapLess (sel_heap s)") auto
  have "select_item g s1 item \<noteq> Panic" for s1
    by (auto simp: select_item_def push_next_def Let_def split: prod.splits sum.splits option.splits)
  with pop i show ?thesis by (simp add: select_iteration_def Let_def)
qed

lemma select_loop_total:
  assumes "loopDurationCheckInterval opts \<noteq> 0"
  shows "\<exists>s'. select_loop g opts grace cutoff s = Some s'"
  using assms
proof (induction g opts grace cutoff s rule: select_loop.induct)
  case (1 g opts grace cutoff s)
  then show ?case
    using select_iteration_no_panic [of s opts g grace cutoff]
    by (cases "sel_heap s = []"; cases "select_iteration g opts grace cutoff s")
       (auto simp: select_loop.simps [of _ _ _ _ s])
qed

text \<open>
  The selection always returns, whatever the session, the bunches and the time budget, as long as
  the interval between two time checks is not zero (with zero, the remainder panics).
\<close>

theorem selection_returns:
  "loopDurationCheckInterval opts \<noteq> 0 \<Longrightarrow>
   \<exists>sel gas. selectTransactionsFromBunches g vs bs opts grace now = Some (sel, gas)"
  using select_loop_total [of opts g grace "now - grace" "selection_start vs bs"]
  by (auto simp: selectTransactionsFromBunches_def)

theorem selection_returns_witness:
  "loopDurationCheckInterval sample_options \<noteq> 0 \<and>
   (\<exists>sel gas. selectTransactionsFromBunches [] sample_vs sample_bunches sample_options 0 0 = Some (sel, gas))"
  using selection_returns [of sample_options "[]" sample_vs sample_bunches 0 0]
  by (simp add: sample_options_def)

end
