(* ===== verification/Tracker_Props.thy ===== *)
theory Tracker_Props
  imports Selection_Tracker Selection_Props
begin

text \<open>
  The tracker keeps, incrementally, the breadcrumbs of the blocks it tracks. \<open>tracks st L\<close> says that
  the tracked blocks, in nonce order, are \<open>L\<close>, and that the global breadcrumbs are those recomputed
  from \<open>L\<close>; every operation keeps it. The rest gives the meaning of the chain search and of the
  validation of a proposed block, and ends with the agreement of selection and validation.
\<close>

section \<open>What is tracked\<close>

text \<open>The breadcrumbs of an account along a chain of blocks.\<close>

definition hist :: "trackedBlock list \<Rightarrow> bytes \<Rightarrow> accountBreadcrumb list" where
  "hist chain a = concat (map (\<lambda>tb. list_of (map_of (breadcrumbsByAddress tb) a)) chain)"

lemma hist_simps [simp]:
  "hist [] a = []"
  "hist (tb # chain) a = list_of (map_of (breadcrumbsByAddress tb) a) @ hist chain a"
  "hist (xs @ ys) a = hist xs a @ hist ys a"
  by (simp_all add: hist_def)

abbreviation nonce_less :: "bytes \<times> trackedBlock \<Rightarrow> bytes \<times> trackedBlock \<Rightarrow> bool" where
  "nonce_less x y \<equiv> tb_nonce (snd x) < tb_nonce (snd y)"

definition tracks :: "selectionTracker \<Rightarrow> (bytes \<times> trackedBlock) list \<Rightarrow> bool" where
  "tracks st L \<longleftrightarrow>
     mset (blocks st) = mset L \<and> sorted_wrt nonce_less L \<and> distinct (map fst L) \<and>
     (\<forall>(h, tb) \<in> set L. distinct (map fst (breadcrumbsByAddress tb))) \<and>
     (\<forall>a. coherent (hist (map snd L) a)) \<and>
     aggregates (globalAccountBreadcrumbs (globalBreadcrumbsCompiler st)) (hist (map snd L))"

lemma tracks_new: "NewSelectionTracker False shard n = Inr st \<Longrightarrow> tracks st []"
  by (auto simp: NewSelectionTracker_def tracks_def aggregates_def newGlobalAccountBreadcrumbsCompiler_def
      coherent_def split: if_splits)

lemma mset_delete_key:
  assumes "mset xs = add_mset (h, b) (mset ys)" and "h \<notin> fst ` set ys"
  shows "mset (AList.delete h xs) = mset ys"
proof -
  have "AList.delete h xs = filter (\<lambda>(k, _). k \<noteq> h) xs" by (auto simp: AList.delete_eq intro: filter_cong)
  then have "mset (AList.delete h xs) = filter_mset (\<lambda>(k, _). k \<noteq> h) (mset xs)" by simp
  also have "\<dots> = filter_mset (\<lambda>(k, _). k \<noteq> h) (mset ys)" using assms(1) by simp
  also have "\<dots> = mset ys" using assms(2) by (auto simp: filter_mset_eq_conv image_iff)
  finally show ?thesis .
qed

lemma removed_agg:
  assumes agg: "aggregates gm full" and d: "distinct (map fst bcs)"
    and full: "\<And>a. full a = pre a @ list_of (map_of bcs a) @ post a"
    and upd: "\<And>a b. map_of bcs a = Some b \<Longrightarrow>
      upd (gab_of (pre a @ b # post a)) b = (Inr (pre a @ post a = []), gab_of (pre a @ post a))"
  shows "\<exists>gm'. removed_loop upd gm bcs = (None, gm') \<and> aggregates gm' (\<lambda>a. pre a @ post a)"
proof (rule removed_loop_aggregates [OF agg d])
  fix a b assume "(a, b) \<in> set bcs"
  with d have "map_of bcs a = Some b" by simp
  with full [of a] upd [of a b] show "full a \<noteq> [] \<and>
      upd (gab_of (full a)) b = (Inr (pre a @ post a = []), gab_of (pre a @ post a))" by simp
next
  fix a assume "a \<notin> fst ` set bcs"
  then have "map_of bcs a = None" by (simp add: map_of_eq_None_iff)
  with full [of a] show "full a = pre a @ post a" by simp
qed

lemma drop_earliest:
  assumes tr: "tracks st ((h, b) # L)"
  shows "\<exists>gabc. updateOnRemovedBlockWithSameNonceOrBelow (globalBreadcrumbsCompiler st) b = (None, gabc) \<and>
    tracks (st\<lparr>blocks := AList.delete h (blocks st), globalBreadcrumbsCompiler := gabc\<rparr>) L"
proof -
  let ?gm = "globalAccountBreadcrumbs (globalBreadcrumbsCompiler st)" and ?H = "hist (map snd L)"
  have t: "mset (blocks st) = add_mset (h, b) (mset L)" "h \<notin> fst ` set L" "sorted_wrt nonce_less L"
    "distinct (map fst L)" "\<forall>(h, tb) \<in> set L. distinct (map fst (breadcrumbsByAddress tb))"
    "distinct (map fst (breadcrumbsByAddress b))"
    "aggregates ?gm (\<lambda>a. list_of (map_of (breadcrumbsByAddress b) a) @ ?H a)"
    and coh: "\<And>a. coherent (list_of (map_of (breadcrumbsByAddress b) a) @ ?H a)"
    using tr by (auto simp: tracks_def elim: aggregates_cong)
  have "updateOnRemovedBreadcrumbWithSameNonceOrBelow (gab_of ([] @ c # ?H a)) c = (Inr ([] @ ?H a = []), gab_of ([] @ ?H a))"
    if "map_of (breadcrumbsByAddress b) a = Some c" for a c
    using coh [of a] that remove_earliest [of c "?H a"] by simp
  from removed_agg [OF t(7,6), where pre = "\<lambda>_. []" and post = ?H, OF _ this]
  obtain gm' where gm': "removed_loop updateOnRemovedBreadcrumbWithSameNonceOrBelow ?gm (breadcrumbsByAddress b) =
      (None, gm')" "aggregates gm' ?H" by auto
  have "mset (AList.delete h (blocks st)) = mset L" by (rule mset_delete_key [OF t(1,2)])
  moreover have "coherent (?H a)" for a using coh coherent_append_right by blast
  ultimately show ?thesis using t gm'
    by (auto simp: updateOnRemovedBlockWithSameNonceOrBelow_def tracks_def)
qed

lemma drop_latest:
  assumes tr: "tracks st (L @ [(h, b)])"
  shows "\<exists>gabc. updateOnRemovedBlockWithSameNonceOrAbove (globalBreadcrumbsCompiler st) b = (None, gabc) \<and>
    tracks (st\<lparr>blocks := AList.delete h (blocks st), globalBreadcrumbsCompiler := gabc\<rparr>) L"
proof -
  let ?gm = "globalAccountBreadcrumbs (globalBreadcrumbsCompiler st)" and ?H = "hist (map snd L)"
  have t: "mset (blocks st) = add_mset (h, b) (mset L)" "h \<notin> fst ` set L" "sorted_wrt nonce_less L"
    "distinct (map fst L)" "\<forall>(h, tb) \<in> set L. distinct (map fst (breadcrumbsByAddress tb))"
    "distinct (map fst (breadcrumbsByAddress b))"
    "aggregates ?gm (\<lambda>a. ?H a @ list_of (map_of (breadcrumbsByAddress b) a))"
    and coh: "\<And>a. coherent (?H a @ list_of (map_of (breadcrumbsByAddress b) a))"
    using tr by (auto simp: tracks_def sorted_wrt_append elim: aggregates_cong)
  have "updateOnRemoveBreadcrumbWithSameNonceOrAbove (gab_of (?H a @ c # [])) c = (Inr (?H a @ [] = []), gab_of (?H a @ []))"
    if "map_of (breadcrumbsByAddress b) a = Some c" for a c
    using coh [of a] that remove_latest [of "?H a" c] by simp
  from removed_agg [OF t(7,6), where pre = ?H and post = "\<lambda>_. []", OF _ this]
  obtain gm' where gm': "removed_loop updateOnRemoveBreadcrumbWithSameNonceOrAbove ?gm (breadcrumbsByAddress b) =
      (None, gm')" "aggregates gm' ?H" by auto
  have "mset (AList.delete h (blocks st)) = mset L" by (rule mset_delete_key [OF t(1,2)])
  moreover have "coherent (?H a)" for a using coh coherent_append_left by blast
  ultimately show ?thesis using t gm'
    by (auto simp: updateOnRemovedBlockWithSameNonceOrAbove_def tracks_def)
qed

text \<open>The fields that the removals leave alone.\<close>

definition same_config :: "selectionTracker \<Rightarrow> selectionTracker \<Rightarrow> bool" where
  "same_config st st' \<longleftrightarrow>
     latestNonce st' = latestNonce st \<and> latestRootHash st' = latestRootHash st \<and>
     selfShardId st' = selfShardId st \<and> maxTrackedBlocks st' = maxTrackedBlocks st"

lemma remove_upto_loop_tracks:
  "tracks st (P @ L) \<Longrightarrow> \<exists>st'. remove_upto_loop st P = (None, st') \<and> tracks st' L \<and> same_config st st'"
proof (induction P arbitrary: st)
  case (Cons p P)
  obtain h b where p: "p = (h, b)" by fastforce
  with Cons.prems drop_earliest [of st h b "P @ L"] obtain gabc where
    u: "updateOnRemovedBlockWithSameNonceOrBelow (globalBreadcrumbsCompiler st) b = (None, gabc)"
      "tracks (st\<lparr>blocks := AList.delete h (blocks st), globalBreadcrumbsCompiler := gabc\<rparr>) (P @ L)" by auto
  from Cons.IH [OF u(2)] show ?case
    using u(1) by (auto simp: p same_config_def)
qed (simp add: same_config_def)

lemma delete_loop_tracks:
  "tracks st (L @ P) \<Longrightarrow> \<exists>m' st'. delete_loop st m (rev P) = (Inr m', st') \<and> tracks st' L \<and> same_config st st'"
proof (induction P arbitrary: st m rule: rev_induct)
  case (snoc p P)
  obtain h b where p: "p = (h, b)" by fastforce
  with snoc.prems drop_latest [of st "L @ P" h b] obtain gabc where
    u: "updateOnRemovedBlockWithSameNonceOrAbove (globalBreadcrumbsCompiler st) b = (None, gabc)"
      "tracks (st\<lparr>blocks := AList.delete h (blocks st), globalBreadcrumbsCompiler := gabc\<rparr>) (L @ P)" by auto
  from snoc.IH [OF u(2), of "collect_first_nonces m (breadcrumbsByAddress b)"] show ?case
    using u(1) by (auto simp: p same_config_def)
qed (simp add: same_config_def)

lemma sorted_matching:
  assumes tr: "tracks st L"
  shows "sort_Slice nonce_less (filter Q (blocks st)) = filter Q L"
    and "sort_Slice (\<lambda>x y. nonce_less y x) (filter Q (blocks st)) = rev (filter Q L)"
proof -
  have m: "mset (filter Q (blocks st)) = mset (filter Q L)" using tr by (simp add: tracks_def)
  have s: "sorted_wrt nonce_less (filter Q L)" using tr by (simp add: tracks_def sorted_wrt_filter)
  then have s': "sorted_wrt (\<lambda>x y. nonce_less y x) (rev (filter Q L))" by (simp add: sorted_wrt_rev)
  have d: "distinct (filter Q (blocks st))"
    using tr m by (metis distinct_filter distinct_map mset_eq_imp_distinct_iff tracks_def)
  have tot: "nonce_less x y \<or> nonce_less y x" if "x \<in> set (filter Q (blocks st))" "y \<in> set (filter Q (blocks st))" "x \<noteq> y" for x y
  proof -
    have "x \<in> set (filter Q L)" "y \<in> set (filter Q L)" using that m by (metis mset_eq_setD)+
    then obtain i j where ij: "i < length (filter Q L)" "j < length (filter Q L)" "x = filter Q L ! i" "y = filter Q L ! j"
      by (metis in_set_conv_nth)
    with that(3) have "i \<noteq> j" by auto
    with ij s show ?thesis by (metis linorder_neqE_nat sorted_wrt_nth_less)
  qed
  have "sorted_wrt nonce_less (sort_Slice nonce_less (filter Q (blocks st)))"
    by (rule sorted_sort_Slice [OF _ tot d]) auto
  then show "sort_Slice nonce_less (filter Q (blocks st)) = filter Q L"
    by (rule sort_Slice_unique [where lt = nonce_less, rotated]) (use m s in auto)
  have "sorted_wrt (\<lambda>x y. nonce_less y x) (sort_Slice (\<lambda>x y. nonce_less y x) (filter Q (blocks st)))"
    by (rule sorted_sort_Slice) (use tot d in auto)
  then show "sort_Slice (\<lambda>x y. nonce_less y x) (filter Q (blocks st)) = rev (filter Q L)"
    by (rule sort_Slice_unique [where lt = "\<lambda>x y. nonce_less y x", rotated]) (use m s' in auto)
qed

lemma tracked_split:
  assumes "sorted_wrt nonce_less L" and "\<And>x y :: bytes \<times> trackedBlock. nonce_less x y \<Longrightarrow> Q y \<Longrightarrow> Q x"
  shows "L = filter Q L @ filter (\<lambda>x. \<not> Q x) L"
proof -
  have "sorted_wrt (\<lambda>x y. Q y \<longrightarrow> Q x) L"
    using assms(1) by (rule sorted_wrt_mono_rel [rotated]) (use assms(2) in blast)
  from takeWhile_filter_prefix [OF this] show ?thesis by (metis takeWhile_dropWhile_id)
qed

lemma removeUpTo_tracks:
  assumes tr: "tracks st L"
  obtains st' where "removeUpToBlockNoLock st sb = (None, st')" "same_config st st'"
    "tracks st' (filter (\<lambda>(h, b). tb_nonce sb < tb_nonce b) L)"
proof -
  let ?Q = "\<lambda>(h, b). hasSameNonceOrLower b sb"
  have "L = filter ?Q L @ filter (\<lambda>x. \<not> ?Q x) L"
    by (rule tracked_split) (use tr in \<open>auto simp: tracks_def hasSameNonceOrLower_def\<close>)
  with tr have "tracks st (filter ?Q L @ filter (\<lambda>x. \<not> ?Q x) L)" by metis
  moreover have nq: "(\<lambda>x. \<not> ?Q x) = (\<lambda>(h, b). tb_nonce sb < tb_nonce b)"
    by (auto simp: hasSameNonceOrLower_def fun_eq_iff not_le)
  ultimately have "tracks st (filter ?Q L @ filter (\<lambda>(h, b). tb_nonce sb < tb_nonce b) L)" by metis
  from remove_upto_loop_tracks [OF this] show thesis
    using that sorted_matching(1) [OF tr, of ?Q] by (auto simp: removeUpToBlockNoLock_def)
qed

lemma removeAbove_tracks:
  assumes tr: "tracks st L"
  obtains st' cache' where "removeBlocksAboveOrEqualToNonceNoLock tc st cache n = (None, st', cache')"
    "same_config st st'" "tracks st' (filter (\<lambda>(h, b). tb_nonce b < n) L)"
    "cache' = cache \<or> (\<exists>m. cache' = ResetSelectionOffsetsToNonce tc cache m)"
proof -
  let ?Q = "\<lambda>(h, b). hasSameNonceOrHigherThanGivenNonce b n" and ?R = "\<lambda>(h, b). tb_nonce b < n"
  have nq: "(\<lambda>x. \<not> ?R x) = ?Q"
    by (auto simp: hasSameNonceOrHigherThanGivenNonce_def fun_eq_iff not_less)
  have "L = filter ?R L @ filter (\<lambda>x. \<not> ?R x) L"
    by (rule tracked_split) (use tr in \<open>auto simp: tracks_def\<close>)
  with tr have "tracks st (filter ?R L @ filter ?Q L)" unfolding nq by metis
  from delete_loop_tracks [OF this, of "[]"] obtain m' st' where
    "delete_loop st [] (rev (filter ?Q L)) = (Inr m', st')" "tracks st' (filter ?R L)" "same_config st st'" by blast
  then show thesis
    using that [of st' "if m' \<noteq> [] then ResetSelectionOffsetsToNonce tc cache m' else cache"]
      sorted_matching(2) [OF tr, of ?Q]
    by (cases "m' = []") (auto simp: removeBlocksAboveOrEqualToNonceNoLock_def deleteMatchedBlocksWithSameNonceOrAboveNoLock_def)
qed

lemma mset_update_new: "k \<notin> fst ` set xs \<Longrightarrow> mset (AList.update k v xs) = add_mset (k, v) (mset xs)"
  by (induction xs) (auto split: prod.splits)

lemma add_tracks:
  assumes tr: "tracks st L" and above: "\<forall>(h, b) \<in> set L. tb_nonce b < tb_nonce tb" and new: "hash \<notin> fst ` set L"
    and d: "distinct (map fst (breadcrumbsByAddress tb))"
    and coh: "\<And>a. coherent (hist (map snd L) a @ list_of (map_of (breadcrumbsByAddress tb) a))"
  shows "tracks (st\<lparr>blocks := AList.update hash tb (blocks st),
    globalBreadcrumbsCompiler := updateOnAddedBlock (globalBreadcrumbsCompiler st) tb\<rparr>) (L @ [(hash, tb)])"
proof -
  have "set (blocks st) = set L" using tr by (metis mset_eq_setD tracks_def)
  with new have "hash \<notin> fst ` set (blocks st)" by simp
  then have "mset (AList.update hash tb (blocks st)) = add_mset (hash, tb) (mset (blocks st))"
    by (rule mset_update_new)
  moreover have "aggregates (added_loop (globalAccountBreadcrumbs (globalBreadcrumbsCompiler st))
      (breadcrumbsByAddress tb)) (hist (map snd (L @ [(hash, tb)])))"
  proof -
    have "aggregates (globalAccountBreadcrumbs (globalBreadcrumbsCompiler st)) (hist (map snd L))"
      using tr by (simp add: tracks_def)
    from added_loop_aggregates [OF this d] show ?thesis by (rule aggregates_cong) simp
  qed
  ultimately show ?thesis
    using assms by (auto simp: tracks_def sorted_wrt_append updateOnAddedBlock_def)
qed

section \<open>The chain of pending blocks\<close>

text \<open>A chain of tracked blocks: consecutive nonces, each block found under the hash the next one names
  as its predecessor.\<close>

fun linked_chain :: "(bytes \<times> trackedBlock) list \<Rightarrow> trackedBlock list \<Rightarrow> bytes \<Rightarrow> u64 \<Rightarrow> bool" where
  "linked_chain blks [] hash nonce \<longleftrightarrow> True"
| "linked_chain blks (tb # tail) hash nonce \<longleftrightarrow>
     map_of blks hash = Some tb \<and> tb_nonce tb = nonce - 1 \<and> nonce \<noteq> 0 \<and>
     linked_chain blks tail (tb_prevHash tb) (tb_nonce tb)"

lemma chain_loop_result:
  assumes "chain_loop blks latest acc (map_of blks hash) nonce = Inr chain"
  shows "\<exists>tail. chain = rev (acc @ tail) \<and> linked_chain blks tail hash nonce \<and>
    (tail \<noteq> [] \<longrightarrow> tb_prevHash (last tail) = latest \<or> tb_nonce (last tail) = 0) \<and> (tail = [] \<longrightarrow> nonce = 0)"
  using assms
proof (induction blks latest acc "map_of blks hash" nonce arbitrary: hash rule: chain_loop.induct)
  case (1 blks latest acc nonce)
  show ?case
  proof (cases "nonce = 0")
    case True
    with "1.prems" show ?thesis by (auto simp: chain_loop.simps [of _ _ _ _ 0] intro!: exI [of _ "[]"])
  next
    case False
    then obtain pb where pb: "map_of blks hash = Some pb" "tb_nonce pb = nonce - 1"
      using "1.prems" by (auto simp: chain_loop.simps [of _ _ _ _ nonce] split: option.splits if_splits)
    show ?thesis
    proof (cases "latest = tb_prevHash pb")
      case True
      with "1.prems" False pb have "chain = rev (acc @ [pb])"
        by (simp add: chain_loop.simps [of _ _ _ _ nonce])
      with True False pb show ?thesis by (intro exI [of _ "[pb]"]) simp
    next
      case ne: False
      with "1.prems" False pb have "chain_loop blks latest (acc @ [pb]) (map_of blks (tb_prevHash pb)) (nonce - 1) = Inr chain"
        by (simp add: chain_loop.simps [of _ _ _ _ nonce])
      from "1.hyps" [OF False pb(1) _ refl refl ne refl this] pb(2) obtain tail where
        "chain = rev ((acc @ [pb]) @ tail)" "linked_chain blks tail (tb_prevHash pb) (nonce - 1)"
        "tail \<noteq> [] \<longrightarrow> tb_prevHash (last tail) = latest \<or> tb_nonce (last tail) = 0" "tail = [] \<longrightarrow> nonce - 1 = 0"
        by auto
      with pb False show ?thesis by (intro exI [of _ "pb # tail"]) auto
    qed
  qed
qed

section \<open>What the validation of a proposed block checks\<close>

definition kn :: "accountBreadcrumb list \<Rightarrow> accountBreadcrumb list" where
  "kn bs = filter (\<lambda>b. \<not> hasUnknownNonce b) bs"

text \<open>The next breadcrumb of an account continues its nonces: from the session nonce, or from the
  previous breadcrumb.\<close>

definition continues :: "u64 \<Rightarrow> accountBreadcrumb list \<Rightarrow> accountBreadcrumb \<Rightarrow> bool" where
  "continues n bs b \<longleftrightarrow>
     hasUnknownNonce b \<or>
     optValue (firstNonce b) = (if kn bs = [] then n else optValue (lastNonce (last (kn bs))) + 1)"

definition sum_consumed :: "accountBreadcrumb list \<Rightarrow> int" where
  "sum_consumed bs = sum_list (map consumedBalance bs)"

text \<open>The breadcrumbs of an account are acceptable on a session: all nonces continue, and the running
  consumption stays within the balance.\<close>

fun acceptable :: "u64 \<Rightarrow> int \<Rightarrow> accountBreadcrumb list \<Rightarrow> accountBreadcrumb list \<Rightarrow> bool" where
  "acceptable n bal done [] \<longleftrightarrow> True"
| "acceptable n bal done (b # bs) \<longleftrightarrow>
     continues n done b \<and> sum_consumed (done @ [b]) \<le> bal \<and> acceptable n bal (done @ [b]) bs"

lemma acceptable_snoc:
  "acceptable n bal done (bs @ [b]) \<longleftrightarrow>
     acceptable n bal done bs \<and> continues n (done @ bs) b \<and> sum_consumed (done @ bs @ [b]) \<le> bal"
  by (induction bs arbitrary: "done") auto

text \<open>What the validator knows of an account after its breadcrumbs \<open>bs\<close>.\<close>

definition vknows :: "AccountNonceAndBalanceProvider \<Rightarrow> breadcrumbsValidator \<Rightarrow> bytes \<Rightarrow> accountBreadcrumb list \<Rightarrow> bool" where
  "vknows prov v a bs \<longleftrightarrow>
     (a \<in> set (sendersInContinuityWithSessionNonce v) \<longleftrightarrow> kn bs \<noteq> []) \<and>
     map_of (accountPreviousBreadcrumb v) a = (if kn bs = [] then None else Some (last (kn bs))) \<and>
     (bs = [] \<longrightarrow> map_of (virtualBalancesByAddress v) a = None) \<and>
     (bs \<noteq> [] \<longrightarrow> (\<exists>n bal. prov_GetAccountNonceAndBalance prov a = Inr (n, Some bal) \<and> acceptable n bal [] bs \<and>
       map_of (virtualBalancesByAddress v) a = Some \<lparr>initialBalance = bal, vb_consumedBalance = sum_consumed bs\<rparr>))"

lemma sum_consumed_snoc [simp]: "sum_consumed (bs @ [b]) = sum_consumed bs + consumedBalance b"
  by (simp add: sum_consumed_def)

lemma kn_snoc: "kn (bs @ [b]) = (if hasUnknownNonce b then kn bs else kn bs @ [b])"
  by (simp add: kn_def)

text \<open>The validator of one account does not touch the others.\<close>

definition same_at :: "bytes \<Rightarrow> breadcrumbsValidator \<Rightarrow> breadcrumbsValidator \<Rightarrow> bool" where
  "same_at x v v' \<longleftrightarrow>
     (x \<in> set (sendersInContinuityWithSessionNonce v') \<longleftrightarrow> x \<in> set (sendersInContinuityWithSessionNonce v)) \<and>
     map_of (accountPreviousBreadcrumb v') x = map_of (accountPreviousBreadcrumb v) x \<and>
     map_of (virtualBalancesByAddress v') x = map_of (virtualBalancesByAddress v) x"

lemma vknows_same: "vknows prov v x bs \<Longrightarrow> same_at x v v' \<Longrightarrow> vknows prov v' x bs"
  by (simp add: vknows_def same_at_def)

lemma nonce_check_frame:
  assumes "validateNonceContinuityOfBreadcrumb v a n b = (ok, v')"
  shows "discontinuousAddresses v' = discontinuousAddresses v" "x \<noteq> a \<Longrightarrow> same_at x v v'"
    "virtualBalancesByAddress v' = virtualBalancesByAddress v"
  using assms
  by (auto simp: validateNonceContinuityOfBreadcrumb_def validateContinuityWithSessionNonce_def
      validateContinuityWithPreviousBreadcrumb_def same_at_def update_conv' Let_def split: if_splits prod.splits)

lemma nonce_check:
  assumes k: "vknows prov v a bs" and c: "validateNonceContinuityOfBreadcrumb v a n b = (ok, v')"
  shows "ok \<longleftrightarrow> continues n bs b"
    and "ok \<Longrightarrow> (a \<in> set (sendersInContinuityWithSessionNonce v') \<longleftrightarrow> kn (bs @ [b]) \<noteq> []) \<and>
      map_of (accountPreviousBreadcrumb v') a = (if kn (bs @ [b]) = [] then None else Some (last (kn (bs @ [b]))))"
  using assms
  by (auto simp: validateNonceContinuityOfBreadcrumb_def validateContinuityWithSessionNonce_def
      validateContinuityWithPreviousBreadcrumb_def verifyContinuityWithSessionNonce_def
      verifyContinuityBetweenAccountBreadcrumbs_def vknows_def continues_def kn_snoc update_conv' Let_def
      split: if_splits prod.splits)

text \<open>One breadcrumb of an account that is not marked as discontinuous.\<close>

lemma breadcrumb_check:
  assumes k: "vknows prov v a bs" and p: "prov_GetAccountNonceAndBalance prov a = Inr (n, obal)"
    and c: "validateNonceContinuityOfBreadcrumb v a n b = (True, v1)"
    and bal: "val_validateBalance v1 a obal b = (err, v2)"
  shows "err = None \<longleftrightarrow> (\<exists>bal. obal = Some bal \<and> sum_consumed (bs @ [b]) \<le> bal)"
    and "err = None \<Longrightarrow> vknows prov v2 a (bs @ [b])" and "x \<noteq> a \<Longrightarrow> same_at x v v2"
    and "discontinuousAddresses v2 = discontinuousAddresses v"
proof -
  note fr = nonce_check_frame [OF c] and ch = nonce_check [OF k c]
  show "err = None \<longleftrightarrow> (\<exists>bal. obal = Some bal \<and> sum_consumed (bs @ [b]) \<le> bal)"
    using bal k p fr(3)
    by (cases "bs = []"; cases obal)
       (auto simp: val_validateBalance_def vknows_def newVirtualAccountBalance_def vb_validateBalance_def
          vb_accumulateConsumedBalance_def sum_consumed_def Let_def split: if_splits)
  show "vknows prov v2 a (bs @ [b])" if "err = None"
    using bal k p fr(3) ch that
    by (cases "bs = []"; cases obal)
       (auto simp: val_validateBalance_def vknows_def newVirtualAccountBalance_def vb_validateBalance_def
          vb_accumulateConsumedBalance_def sum_consumed_def acceptable_snoc update_conv' Let_def split: if_splits)
  show "x \<noteq> a \<Longrightarrow> same_at x v v2" and "discontinuousAddresses v2 = discontinuousAddresses v"
    using bal fr(1,2)
    by (auto simp: val_validateBalance_def same_at_def update_conv' Let_def split: sum.splits option.splits)
qed

definition vinv :: "AccountNonceAndBalanceProvider \<Rightarrow> breadcrumbsValidator \<Rightarrow> (bytes \<Rightarrow> accountBreadcrumb list) \<Rightarrow> bool" where
  "vinv prov v seen \<longleftrightarrow> (\<forall>a. a \<notin> set (discontinuousAddresses v) \<longrightarrow> vknows prov v a (seen a))"

lemma vinv_step:
  assumes "vinv prov v seen" and "\<And>x. x \<noteq> a \<Longrightarrow> same_at x v v1"
    and "set (discontinuousAddresses v) \<subseteq> set (discontinuousAddresses v1)"
    and "a \<notin> set (discontinuousAddresses v1) \<Longrightarrow> vknows prov v1 a (seen a @ [b])"
  shows "vinv prov v1 (seen(a := seen a @ [b]))"
  unfolding vinv_def
proof (intro allI impI)
  fix x assume x: "x \<notin> set (discontinuousAddresses v1)"
  show "vknows prov v1 x ((seen(a := seen a @ [b])) x)"
  proof (cases "x = a")
    case True
    with x assms(4) show ?thesis by simp
  next
    case False
    have "vknows prov v x (seen x)" using assms(1,3) x by (auto simp: vinv_def)
    from vknows_same [OF this assms(2) [OF False]] False show ?thesis by simp
  qed
qed

lemma validate_block_sound:
  assumes "validate_block prov isNew v bcs = (None, v')" and "distinct (map fst bcs)" and "vinv prov v seen"
  shows "vinv prov v' (\<lambda>a. seen a @ list_of (map_of bcs a)) \<and>
    set (discontinuousAddresses v) \<subseteq> set (discontinuousAddresses v') \<and>
    (isNew \<longrightarrow> (\<forall>a \<in> fst ` set bcs. a \<notin> set (discontinuousAddresses v')) \<and>
      discontinuousAddresses v' = discontinuousAddresses v)"
  using assms
proof (induction bcs arbitrary: v seen)
  case Nil
  then show ?case by auto
next
  case (Cons p bcs)
  obtain a b where p: "p = (a, b)" by fastforce
  obtain n obal where prov: "prov_GetAccountNonceAndBalance prov a = Inr (n, obal)"
    using Cons.prems(1) by (auto simp: p split: if_splits sum.splits)
  obtain ok v1 where c: "validateNonceContinuityOfBreadcrumb v a n b = (ok, v1)" by fastforce
  note fr = nonce_check_frame [OF c]
  have new: "isNew \<Longrightarrow> a \<notin> set (discontinuousAddresses v)"
    using Cons.prems(1) by (auto simp: p isAddressDiscontinuous_def split: if_splits)
  have "\<exists>v2. validate_block prov isNew v2 bcs = (None, v') \<and> vinv prov v2 (seen(a := seen a @ [b])) \<and>
      set (discontinuousAddresses v) \<subseteq> set (discontinuousAddresses v2) \<and>
      (isNew \<longrightarrow> discontinuousAddresses v2 = discontinuousAddresses v)"
  proof (cases ok)
    case False
    with Cons.prems(1) prov c new have nn: "\<not> isNew"
      and rest: "validate_block prov isNew (markAddressAsDiscontinuous v1 a) bcs = (None, v')"
      by (auto simp: p isAddressDiscontinuous_def split: if_splits)
    have "vinv prov (markAddressAsDiscontinuous v1 a) (seen(a := seen a @ [b]))"
      by (rule vinv_step [OF Cons.prems(3)]) (use fr in \<open>auto simp: markAddressAsDiscontinuous_def same_at_def\<close>)
    with nn rest fr(1) show ?thesis by (auto simp: markAddressAsDiscontinuous_def)
  next
    case True
    show ?thesis
    proof (cases "a \<in> set (discontinuousAddresses v)")
      case d: True
      have "vinv prov v1 (seen(a := seen a @ [b]))"
        by (rule vinv_step [OF Cons.prems(3)]) (use fr d in auto)
      with Cons.prems(1) prov c True d fr(1) new show ?thesis
        by (auto simp: p isAddressDiscontinuous_def split: if_splits)
    next
      case nd: False
      obtain err v2 where bl: "val_validateBalance v1 a obal b = (err, v2)" by fastforce
      have k: "vknows prov v a (seen a)" using Cons.prems(3) nd by (simp add: vinv_def)
      note bc = breadcrumb_check [OF k prov c [unfolded True [THEN eqTrueI]] bl]
      have rest: "err = None" "validate_block prov isNew v2 bcs = (None, v')"
        using Cons.prems(1) prov c True nd bl fr(1)
        by (auto simp: p isAddressDiscontinuous_def split: if_splits option.splits)
      have "vinv prov v2 (seen(a := seen a @ [b]))"
        by (rule vinv_step [OF Cons.prems(3)]) (use bc rest in auto)
      with rest bc(4) show ?thesis by auto
    qed
  qed
  then obtain v2 where v2: "validate_block prov isNew v2 bcs = (None, v')" "vinv prov v2 (seen(a := seen a @ [b]))"
      "set (discontinuousAddresses v) \<subseteq> set (discontinuousAddresses v2)"
      "isNew \<longrightarrow> discontinuousAddresses v2 = discontinuousAddresses v" by blast
  have "map_of bcs a = None" using Cons.prems(2) p by (simp add: map_of_eq_None_iff)
  then have seen: "(\<lambda>x. (seen(a := seen a @ [b])) x @ list_of (map_of bcs x)) = (\<lambda>x. seen x @ list_of (map_of (p # bcs) x))"
    by (auto simp: p fun_eq_iff)
  from Cons.IH [OF v2(1) _ v2(2)] Cons.prems(2) have IH: "vinv prov v' (\<lambda>x. seen x @ list_of (map_of (p # bcs) x))"
      "set (discontinuousAddresses v2) \<subseteq> set (discontinuousAddresses v')"
      "isNew \<longrightarrow> (\<forall>a \<in> fst ` set bcs. a \<notin> set (discontinuousAddresses v')) \<and> discontinuousAddresses v' = discontinuousAddresses v2"
    unfolding seen by auto
  then show ?case using v2(3,4) new by (auto simp: p)
qed

lemma validate_chain_sound:
  assumes "validate_chain prov v tbs = None" and "tbs \<noteq> []" and "\<forall>tb \<in> set tbs. distinct (map fst (breadcrumbsByAddress tb))"
    and "vinv prov v seen" and "a \<in> fst ` set (breadcrumbsByAddress (last tbs))"
  shows "\<exists>n bal. prov_GetAccountNonceAndBalance prov a = Inr (n, Some bal) \<and> acceptable n bal [] (seen a @ hist tbs a)"
  using assms
proof (induction tbs arbitrary: v seen)
  case (Cons tb tbs)
  obtain v1 where v1: "validate_block prov (tbs = []) v (breadcrumbsByAddress tb) = (None, v1)"
    "validate_chain prov v1 tbs = None"
    using Cons.prems(1) by (auto split: prod.splits option.splits)
  have "distinct (map fst (breadcrumbsByAddress tb))" using Cons.prems(3) by simp
  note sound = validate_block_sound [OF v1(1) this Cons.prems(4)]
  show ?case
  proof (cases "tbs = []")
    case True
    with Cons.prems(5) sound have "a \<notin> set (discontinuousAddresses v1)" by auto
    with sound have k: "vknows prov v1 a (seen a @ list_of (map_of (breadcrumbsByAddress tb) a))" by (simp add: vinv_def)
    have "map_of (breadcrumbsByAddress tb) a \<noteq> None" using Cons.prems(5) True by (simp add: map_of_eq_None_iff)
    with k True show ?thesis by (auto simp: vknows_def)
  next
    case False
    from Cons.IH [OF v1(2) False _ conjunct1 [OF sound]] Cons.prems(3,5) False show ?thesis by simp
  qed
qed simp

lemma validate_block_complete:
  assumes "discontinuousAddresses v = []" and "vinv prov v seen" and "distinct (map fst bcs)"
    and "\<And>a b. map_of bcs a = Some b \<Longrightarrow> \<exists>n bal. prov_GetAccountNonceAndBalance prov a = Inr (n, Some bal) \<and>
      continues n (seen a) b \<and> sum_consumed (seen a @ [b]) \<le> bal"
  shows "\<exists>v'. validate_block prov isNew v bcs = (None, v') \<and> discontinuousAddresses v' = []"
  using assms
proof (induction bcs arbitrary: v seen)
  case (Cons p bcs)
  obtain a b where p: "p = (a, b)" by fastforce
  obtain n bal where prov: "prov_GetAccountNonceAndBalance prov a = Inr (n, Some bal)"
    and ok: "continues n (seen a) b" "sum_consumed (seen a @ [b]) \<le> bal"
    using Cons.prems(4) [of a b] by (auto simp: p)
  have k: "vknows prov v a (seen a)" using Cons.prems(1,2) by (simp add: vinv_def)
  obtain r v1 where c0: "validateNonceContinuityOfBreadcrumb v a n b = (r, v1)" by fastforce
  with nonce_check(1) [OF k c0] ok(1) have c: "validateNonceContinuityOfBreadcrumb v a n b = (True, v1)" by simp
  obtain err v2 where bl: "val_validateBalance v1 a (Some bal) b = (err, v2)" by fastforce
  note bc = breadcrumb_check [OF k prov c bl]
  have err: "err = None" using bc(1) ok(2) by simp
  have d2: "discontinuousAddresses v2 = []" using bc(4) Cons.prems(1) by simp
  have inv2: "vinv prov v2 (seen(a := seen a @ [b]))"
    by (rule vinv_step [OF Cons.prems(2)]) (use bc err Cons.prems(1) in auto)
  have an: "a \<notin> fst ` set bcs" using Cons.prems(3) p by simp
  have "\<exists>v'. validate_block prov isNew v2 bcs = (None, v') \<and> discontinuousAddresses v' = []"
  proof (rule Cons.IH [OF d2 inv2])
    show "distinct (map fst bcs)" using Cons.prems(3) by simp
    fix x c assume x: "map_of bcs x = Some c"
    then have "x \<noteq> a" using an by (metis domIff dom_map_of_conv_image_fst option.distinct(1))
    with x Cons.prems(4) [of x c] show "\<exists>n bal. prov_GetAccountNonceAndBalance prov x = Inr (n, Some bal) \<and>
        continues n ((seen(a := seen a @ [b])) x) c \<and> sum_consumed ((seen(a := seen a @ [b])) x @ [c]) \<le> bal"
      by (simp add: p)
  qed
  moreover have "validate_block prov isNew v (p # bcs) = validate_block prov isNew v2 bcs"
    using Cons.prems(1) prov c bl err nonce_check_frame(1) [OF c] by (simp add: p isAddressDiscontinuous_def)
  ultimately show ?case by simp
qed simp

lemma validate_chain_complete:
  assumes "discontinuousAddresses v = []" and "vinv prov v seen"
    and "\<forall>tb \<in> set tbs. distinct (map fst (breadcrumbsByAddress tb))"
    and "\<And>a. hist tbs a \<noteq> [] \<Longrightarrow> \<exists>n bal. prov_GetAccountNonceAndBalance prov a = Inr (n, Some bal) \<and>
      acceptable n bal (seen a) (hist tbs a)"
  shows "validate_chain prov v tbs = None"
  using assms
proof (induction tbs arbitrary: v seen)
  case (Cons tb tbs)
  let ?bcs = "breadcrumbsByAddress tb"
  have d: "distinct (map fst ?bcs)" using Cons.prems(3) by simp
  have "\<exists>n bal. prov_GetAccountNonceAndBalance prov a = Inr (n, Some bal) \<and>
      continues n (seen a) b \<and> sum_consumed (seen a @ [b]) \<le> bal" if "map_of ?bcs a = Some b" for a b
    using Cons.prems(4) [of a] that by auto
  from validate_block_complete [OF Cons.prems(1,2) d this] obtain v1 where
    v1: "validate_block prov (tbs = []) v ?bcs = (None, v1)" "discontinuousAddresses v1 = []" by blast
  have inv1: "vinv prov v1 (\<lambda>a. seen a @ list_of (map_of ?bcs a))"
    using validate_block_sound [OF v1(1) d Cons.prems(2)] by simp
  have "validate_chain prov v1 tbs = None"
  proof (rule Cons.IH [OF v1(2) inv1])
    show "\<forall>tb \<in> set tbs. distinct (map fst (breadcrumbsByAddress tb))" using Cons.prems(3) by simp
    fix a assume "hist tbs a \<noteq> []"
    with Cons.prems(4) [of a] show "\<exists>n bal. prov_GetAccountNonceAndBalance prov a = Inr (n, Some bal) \<and>
        acceptable n bal (seen a @ list_of (map_of ?bcs a)) (hist tbs a)"
      by (cases "map_of ?bcs a") auto
  qed
  with v1 show ?case by simp
qed simp

lemma vinv_new: "vinv prov newBreadcrumbValidator (\<lambda>_. [])"
  by (simp add: vinv_def vknows_def newBreadcrumbValidator_def kn_def)

section \<open>The virtual session of the tracked blocks\<close>

definition vnonce :: "u64 \<Rightarrow> globalAccountBreadcrumb \<Rightarrow> OptionalUint64" where
  "vnonce n gab =
     (if \<not> isContinuousWithSessionNonce gab n then noNonce
      else if isUser gab then someNonce (optValue (gab_lastNonce gab) + 1) else someNonce n)"

lemma new_record:
  "newVirtualAccountRecord nonce (Some bal) =
     Inr \<lparr>initialNonce = nonce, virtualBalance = \<lparr>initialBalance = bal, vb_consumedBalance = 0\<rparr>,
          hasPendingChangeGuardianTransaction = False\<rparr>"
  "newVirtualAccountRecord nonce None = Inl errNilBalance"
  by (simp_all add: newVirtualAccountRecord_def newVirtualAccountBalance_def)

lemma handle_step:
  assumes "handleGlobalAccountBreadcrumbs c ((a, gab) # gabs) = (None, c')" and "map_of (vsc_accounts c) a = None"
  obtains n bal r c1 where "GetAccountNonceAndBalance (vsc_session c) a = Inr (n, Some bal)"
    and "handleGlobalAccountBreadcrumbs c1 gabs = (None, c')" and "vsc_session c1 = vsc_session c"
    and "map_of (vsc_accounts c1) = (map_of (vsc_accounts c))(a \<mapsto> r)" and "initialNonce r = vnonce n gab"
    and "getInitialBalance r = bal" and "getConsumedBalance r = gab_consumedBalance gab"
proof -
  from assms(1) obtain n obal where p: "GetAccountNonceAndBalance (vsc_session c) a = Inr (n, obal)"
    by (auto split: sum.splits)
  with assms obtain bal where obal: "obal = Some bal"
    by (cases obal)
       (auto simp: createBlockedVirtualRecord_def fromGlobalBreadcrumbToVirtualRecord_def new_record Let_def
         split: if_splits)
  define r where "r = vr_accumulateConsumedBalance \<lparr>initialNonce = vnonce n gab,
      virtualBalance = \<lparr>initialBalance = bal, vb_consumedBalance = 0\<rparr>, hasPendingChangeGuardianTransaction = False\<rparr>
      (gab_consumedBalance gab)"
  define c1 where "c1 = c\<lparr>vsc_accounts := AList.update a r (vsc_accounts c)\<rparr>"
  have "handleGlobalAccountBreadcrumbs c ((a, gab) # gabs) = handleGlobalAccountBreadcrumbs c1 gabs"
    using p assms(2)
    by (simp add: obal createBlockedVirtualRecord_def fromGlobalBreadcrumbToVirtualRecord_def new_record
        c1_def r_def vnonce_def Let_def)
  then show thesis using that [of n bal c1 r] p assms(1)
    by (simp add: obal c1_def update_conv' r_def) (simp add: getInitialBalance_def getConsumedBalance_def)
qed

lemma handle_result:
  assumes "handleGlobalAccountBreadcrumbs c gabs = (None, c')" and "distinct (map fst gabs)"
    and "\<forall>a \<in> fst ` set gabs. map_of (vsc_accounts c) a = None"
  shows "vsc_session c' = vsc_session c \<and>
    (\<forall>a. case map_of gabs a of
       None \<Rightarrow> map_of (vsc_accounts c') a = map_of (vsc_accounts c) a
     | Some gab \<Rightarrow> (\<exists>n bal r. GetAccountNonceAndBalance (vsc_session c) a = Inr (n, Some bal) \<and>
         map_of (vsc_accounts c') a = Some r \<and> initialNonce r = vnonce n gab \<and> getInitialBalance r = bal \<and>
         getConsumedBalance r = gab_consumedBalance gab))"
  using assms
proof (induction gabs arbitrary: c)
  case (Cons p gabs)
  obtain a gab where p: "p = (a, gab)" by fastforce
  have an: "map_of (vsc_accounts c) a = None" "a \<notin> fst ` set gabs" using Cons.prems(2,3) p by auto
  obtain n bal r c1 where st: "GetAccountNonceAndBalance (vsc_session c) a = Inr (n, Some bal)"
    "handleGlobalAccountBreadcrumbs c1 gabs = (None, c')" "vsc_session c1 = vsc_session c"
    "map_of (vsc_accounts c1) = (map_of (vsc_accounts c))(a \<mapsto> r)" "initialNonce r = vnonce n gab"
    "getInitialBalance r = bal" "getConsumedBalance r = gab_consumedBalance gab"
    by (rule handle_step [OF Cons.prems(1) [unfolded p] an(1)])
  have "\<forall>x \<in> fst ` set gabs. map_of (vsc_accounts c1) x = None" using Cons.prems(3) an(2) st(4) by auto
  from Cons.IH [OF st(2) _ this] Cons.prems(2)
  have IH: "vsc_session c' = vsc_session c1" "\<And>x. case map_of gabs x of
       None \<Rightarrow> map_of (vsc_accounts c') x = map_of (vsc_accounts c1) x
     | Some gab \<Rightarrow> (\<exists>n bal r. GetAccountNonceAndBalance (vsc_session c1) x = Inr (n, Some bal) \<and>
         map_of (vsc_accounts c') x = Some r \<and> initialNonce r = vnonce n gab \<and> getInitialBalance r = bal \<and>
         getConsumedBalance r = gab_consumedBalance gab)" by auto
  have none: "map_of gabs a = None" using an(2) by (simp add: map_of_eq_None_iff)
  show ?case
  proof (intro conjI allI)
    show "vsc_session c' = vsc_session c" using IH(1) st(3) by simp
    fix x
    show "case map_of (p # gabs) x of
       None \<Rightarrow> map_of (vsc_accounts c') x = map_of (vsc_accounts c) x
     | Some gab \<Rightarrow> (\<exists>n bal r. GetAccountNonceAndBalance (vsc_session c) x = Inr (n, Some bal) \<and>
         map_of (vsc_accounts c') x = Some r \<and> initialNonce r = vnonce n gab \<and> getInitialBalance r = bal \<and>
         getConsumedBalance r = gab_consumedBalance gab)"
      using IH(2) [of x] st none unfolding st(3) by (cases "x = a") (simp_all add: p split: option.splits)
  qed
qed simp

text \<open>An account of the derived session: with tracked breadcrumbs, its balance is reduced by what they
  consume and its nonce continues them; without, it is what the session says.\<close>

lemma derived_acct:
  assumes c: "createVirtualSelectionSession (newVirtualSessionComputer session) gabs = Inr vs"
    and d: "distinct (map fst gabs)"
  shows "vs_session vs = session"
    and "map_of gabs a = Some gab \<Longrightarrow> \<exists>n bal. GetAccountNonceAndBalance session a = Inr (n, Some bal) \<and>
      acct vs a = Some (vnonce n gab, bal, gab_consumedBalance gab)"
    and "map_of gabs a = None \<Longrightarrow> acct vs a =
      (case GetAccountNonceAndBalance session a of
         Inr (n, Some bal) \<Rightarrow> Some (someNonce n, bal, 0) | _ \<Rightarrow> None)"
proof -
  from c obtain c' where h: "handleGlobalAccountBreadcrumbs (newVirtualSessionComputer session) gabs = (None, c')"
    and vs: "vs = newVirtualSelectionSession (vsc_session c') (vsc_accounts c')"
    by (auto simp: createVirtualSelectionSession_def split: prod.splits option.splits)
  have "\<forall>a \<in> fst ` set gabs. map_of (vsc_accounts (newVirtualSessionComputer session)) a = None"
    by (simp add: newVirtualSessionComputer_def)
  note res = handle_result [OF h d this]
  have "vsc_session (newVirtualSessionComputer session) = session" by (simp add: newVirtualSessionComputer_def)
  with res show s: "vs_session vs = session" by (simp add: vs newVirtualSelectionSession_def)
  have rec: "rec_of vs = map_of (vsc_accounts c')" by (simp add: vs newVirtualSelectionSession_def)
  show "\<exists>n bal. GetAccountNonceAndBalance session a = Inr (n, Some bal) \<and>
      acct vs a = Some (vnonce n gab, bal, gab_consumedBalance gab)" if "map_of gabs a = Some gab"
    using res [THEN conjunct2, rule_format, of a] that
    by (auto simp: acct_conv rec newVirtualSessionComputer_def)
  have "rec_of vs a = None" if "map_of gabs a = None"
    using res [THEN conjunct2, rule_format, of a] that by (simp add: rec newVirtualSessionComputer_def)
  then show "acct vs a = (case GetAccountNonceAndBalance session a of
         Inr (n, Some bal) \<Rightarrow> Some (someNonce n, bal, 0) | _ \<Rightarrow> None)" if "map_of gabs a = None"
    using that
    by (auto simp: acct_conv createAccountRecord_def s new_record getInitialBalance_def getConsumedBalance_def
        split: sum.splits option.splits)
qed

section \<open>Selection agrees with validation\<close>

lemma acceptable_coherent:
  assumes "coherent bs" and "kn bs \<noteq> [] \<Longrightarrow> optValue (firstNonce (hd (kn bs))) = n" and "sum_consumed bs \<le> bal"
  shows "acceptable n bal [] bs"
  using assms
proof (induction bs rule: rev_induct)
  case (snoc b bs)
  have kn: "kn xs = filter known xs" if "coherent xs" for xs
    unfolding kn_def using that wf_unknown by (auto simp: coherent_def intro!: filter_cong)
  have c: "coherent bs" "wf_breadcrumb b"
    using coherent_append_left [OF snoc.prems(1)] snoc.prems(1) by (simp_all add: coherent_def)
  have "0 \<le> consumedBalance b" using c(2) by (simp add: wf_breadcrumb_def)
  with snoc.prems(3) have "sum_consumed bs \<le> bal" by simp
  moreover have "kn bs \<noteq> [] \<Longrightarrow> optValue (firstNonce (hd (kn bs))) = n"
    using snoc.prems(2) by (cases "hasUnknownNonce b") (simp_all add: kn_snoc)
  moreover have "continues n bs b"
  proof (cases "hasUnknownNonce b")
    case False
    then have kb: "kn (bs @ [b]) = kn bs @ [b]" by (simp add: kn_snoc)
    show ?thesis
    proof (cases "kn bs = []")
      case True
      with kb snoc.prems(2) False show ?thesis by (simp add: continues_def)
    next
      case ne: False
      have "contiguous (kn bs @ [b])" using snoc.prems(1) kn [OF snoc.prems(1)] kb by (simp add: coherent_def)
      with ne False show ?thesis by (simp add: continues_def contiguous_append)
    qed
  qed (simp add: continues_def)
  ultimately show ?case using snoc c by (simp add: acceptable_snoc)
qed simp

text \<open>The tracked blocks are fine on the session: every account they touch continues its nonce there,
  and can pay for what they consume.\<close>

definition healthy :: "AccountNonceAndBalanceProvider \<Rightarrow> trackedBlock list \<Rightarrow> bool" where
  "healthy prov chain \<longleftrightarrow>
     (\<forall>a. hist chain a \<noteq> [] \<longrightarrow> (\<exists>n bal. prov_GetAccountNonceAndBalance prov a = Inr (n, Some bal) \<and>
       (kn (hist chain a) \<noteq> [] \<longrightarrow> optValue (firstNonce (hd (kn (hist chain a)))) = n) \<and>
       sum_consumed (hist chain a) \<le> bal))"

lemma charged_by_consumed:
  "\<forall>tx \<in> set txs. FeePayer tx \<noteq> None \<Longrightarrow> charged_by a txs = consumed_by a txs"
  by (induction txs) (auto simp: charged_by_def consumed_by_def charged_def spent_by_def)

lemma compile_loop_distinct:
  "compile_loop tb m txs = (r, tb') \<Longrightarrow> distinct (map fst (breadcrumbsByAddress tb)) \<Longrightarrow>
   distinct (map fst (breadcrumbsByAddress tb'))"
proof (induction tb m txs rule: compile_loop.induct)
  case (2 tb m tx txs)
  have "distinct (map fst (breadcrumbsByAddress tb1))" if "compileBreadcrumb tb tx = (e, tb1)" for e tb1
    using that "2.prems"(2)
    by (auto simp: compileBreadcrumb_def getOrCreateBreadcrumbWithNonce_def getOrCreateBreadcrumb_def
        storeBreadcrumb_def distinct_update Let_def split: option.splits prod.splits if_splits)
  with 2 show ?case by (auto simp: Let_def split: prod.splits option.splits if_splits)
qed simp

lemma compileBreadcrumbs_distinct:
  "compileBreadcrumbs (newTrackedBlock n h p) txs = (r, tb) \<Longrightarrow> distinct (map fst (breadcrumbsByAddress tb))"
  by (simp add: compileBreadcrumbs_def newTrackedBlock_def compile_loop_distinct)

lemma selected_compile:
  assumes "in_sequence vs sel"
  obtains m tb where "compileBreadcrumbs (newTrackedBlock n h p) sel = (Inr m, tb)"
    and "map_of (breadcrumbsByAddress tb) = spec_breadcrumb sel"
proof -
  let ?tb = "newTrackedBlock n h p"
  have c: "\<forall>a. consecutive (nonces_of a [])" by (simp add: nonces_of_def)
  have "\<forall>a. consecutive (nonces_of a sel)" using assms by (simp add: in_sequence_def Let_def)
  with compile_loop_represents [OF represents_new [of n h p] c, of sel "[]"]
  obtain m tb where "compile_loop ?tb [] sel = (Inr m, tb)" "represents tb sel"
    by (cases "compile_loop ?tb [] sel") (auto split: sum.splits)
  then show thesis using that by (simp add: compileBreadcrumbs_def represents_def)
qed

text \<open>The virtual nonce and balance of an account, in terms of the tracked chain.\<close>

lemma derived_chain_acct:
  assumes tr: "tracks st L" and ok: "healthy prov (map snd L)"
    and s: "GetAccountNonceAndBalance session = prov_GetAccountNonceAndBalance prov"
    and vs: "createVirtualSelectionSession (newVirtualSessionComputer session) (getGlobalAccountsBreadcrumbs st) = Inr vs"
    and acct: "acct vs a = Some (vn, bal, consumed)"
  shows "\<exists>n. prov_GetAccountNonceAndBalance prov a = Inr (n, Some bal) \<and>
    consumed = sum_consumed (hist (map snd L) a) \<and>
    vn = someNonce (if kn (hist (map snd L) a) = [] then n else optValue (lastNonce (last (kn (hist (map snd L) a)))) + 1)"
proof -
  let ?H = "hist (map snd L) a" and ?gm = "getGlobalAccountsBreadcrumbs st"
  have gm: "?gm = globalAccountBreadcrumbs (globalBreadcrumbsCompiler st)" by (simp add: getGlobalAccountsBreadcrumbs_def)
  have d: "distinct (map fst ?gm)" and mo: "map_of ?gm a = (if ?H = [] then None else Some (gab_of ?H))"
    and coh: "coherent ?H" using tr by (simp_all add: tracks_def aggregates_def gm)
  have kn: "kn ?H = filter known ?H"
    unfolding kn_def using coh wf_unknown by (auto simp: coherent_def intro!: filter_cong)
  show ?thesis
  proof (cases "?H = []")
    case True
    with derived_acct(3) [OF vs d, of a] mo acct s show ?thesis
      by (auto simp: kn_def sum_consumed_def split: sum.splits prod.splits option.splits)
  next
    case False
    from derived_acct(2) [OF vs d, of a "gab_of ?H"] mo False s acct obtain n where
      n: "prov_GetAccountNonceAndBalance prov a = Inr (n, Some bal)" "vn = vnonce n (gab_of ?H)"
        "consumed = gab_consumedBalance (gab_of ?H)" by auto
    have first: "kn ?H \<noteq> [] \<Longrightarrow> optValue (firstNonce (hd (kn ?H))) = n"
      using ok False n(1) unfolding healthy_def by fastforce
    have "vn = someNonce (if kn ?H = [] then n else optValue (lastNonce (last (kn ?H))) + 1)"
      using first
      by (cases "kn ?H = []")
         (simp_all add: n(2) vnonce_def isContinuousWithSessionNonce_def isUser_def gab_of_closed [OF coh]
            range_of_def kn [symmetric])
    with n show ?thesis by (auto simp: gab_of_closed [OF coh] sum_consumed_def)
  qed
qed

lemma selected_breadcrumb_ok:
  assumes tr: "tracks st L" and ok: "healthy prov (map snd L)"
    and s: "GetAccountNonceAndBalance session = prov_GetAccountNonceAndBalance prov"
    and vs: "createVirtualSelectionSession (newVirtualSessionComputer session) (getGlobalAccountsBreadcrumbs st) = Inr vs"
    and sel: "funded vs sel" "in_sequence vs sel" and fp: "\<forall>tx \<in> set sel. FeePayer tx \<noteq> None"
    and b: "spec_breadcrumb sel a = Some b"
  shows "\<exists>n bal. prov_GetAccountNonceAndBalance prov a = Inr (n, Some bal) \<and>
    continues n (hist (map snd L) a) b \<and> sum_consumed (hist (map snd L) a @ [b]) \<le> bal"
proof -
  let ?H = "hist (map snd L) a"
  obtain tx where "tx \<in> set sel" "involves a tx" and bv: "b = \<lparr>firstNonce = opt_first (nonces_of a sel),
      lastNonce = opt_last (nonces_of a sel), consumedBalance = consumed_by a sel\<rparr>"
    using b by (auto simp: spec_breadcrumb_def split: if_splits)
  then have "a = senderOf tx \<or> a = payerOf tx" "tx \<in> set sel" by (auto simp: involves_def)
  with sel(1) obtain vn bal c where ac: "acct vs a = Some (vn, bal, c)" "c + charged_by a sel \<le> bal"
    unfolding funded_def by blast
  from derived_chain_acct [OF tr ok s vs ac(1)] obtain n where
    n: "prov_GetAccountNonceAndBalance prov a = Inr (n, Some bal)" "c = sum_consumed ?H"
      "vn = someNonce (if kn ?H = [] then n else optValue (lastNonce (last (kn ?H))) + 1)" by blast
  have "continues n ?H b"
  proof (cases "nonces_of a sel")
    case Nil
    then show ?thesis by (simp add: continues_def bv hasUnknownNonce_def opt_first_def opt_last_def)
  next
    case (Cons m ms)
    have "nonces_of a sel \<noteq> [] \<longrightarrow> (\<exists>n i c. acct vs a = Some (n, i, c) \<and> optHasValue n \<and>
        hd (nonces_of a sel) = optValue n)" using sel(2) by (simp add: in_sequence_def Let_def)
    with Cons ac(1) have "m = optValue vn" by auto
    with n(3) show ?thesis by (simp add: continues_def bv Cons opt_first_def)
  qed
  moreover have "sum_consumed (?H @ [b]) \<le> bal"
    using ac(2) n(2) charged_by_consumed [OF fp, of a] by (simp add: bv)
  ultimately show ?thesis using n(1) by blast
qed

lemma selected_validates:
  assumes tr: "tracks st L" and ok: "healthy prov (map snd L)"
    and s: "GetAccountNonceAndBalance session = prov_GetAccountNonceAndBalance prov"
    and vs: "createVirtualSelectionSession (newVirtualSessionComputer session) (getGlobalAccountsBreadcrumbs st) = Inr vs"
    and sel: "funded vs sel" "in_sequence vs sel" and fp: "\<forall>tx \<in> set sel. FeePayer tx \<noteq> None"
  shows "\<exists>m tb. compileBreadcrumbs (newTrackedBlock nonce hash prevHash) sel = (Inr m, tb) \<and>
    validateBreadcrumbsOfTrackedBlocks (map snd L @ [tb]) prov = None"
proof -
  obtain m tb where c: "compileBreadcrumbs (newTrackedBlock nonce hash prevHash) sel = (Inr m, tb)"
    and tb: "map_of (breadcrumbsByAddress tb) = spec_breadcrumb sel" by (rule selected_compile [OF sel(2)])
  have "validate_chain prov newBreadcrumbValidator (map snd L @ [tb]) = None"
  proof (rule validate_chain_complete [OF _ vinv_new])
    show "discontinuousAddresses newBreadcrumbValidator = []" by (simp add: newBreadcrumbValidator_def)
    show "\<forall>b \<in> set (map snd L @ [tb]). distinct (map fst (breadcrumbsByAddress b))"
      using tr compileBreadcrumbs_distinct [OF c] by (auto simp: tracks_def)
    fix a assume ne: "hist (map snd L @ [tb]) a \<noteq> []"
    let ?H = "hist (map snd L) a"
    have coh: "coherent ?H" using tr by (simp add: tracks_def)
    have H: "\<exists>n bal. prov_GetAccountNonceAndBalance prov a = Inr (n, Some bal) \<and> acceptable n bal [] ?H" if "?H \<noteq> []"
      using ok that acceptable_coherent [OF coh] unfolding healthy_def by metis
    show "\<exists>n bal. prov_GetAccountNonceAndBalance prov a = Inr (n, Some bal) \<and>
        acceptable n bal [] (hist (map snd L @ [tb]) a)"
    proof (cases "spec_breadcrumb sel a")
      case None
      with ne H show ?thesis by (simp add: tb)
    next
      case (Some b)
      from selected_breadcrumb_ok [OF tr ok s vs sel fp Some] obtain n bal where
        "prov_GetAccountNonceAndBalance prov a = Inr (n, Some bal)" "continues n ?H b" "sum_consumed (?H @ [b]) \<le> bal"
        by blast
      with H Some show ?thesis by (cases "?H = []") (auto simp: tb acceptable_snoc)
    qed
  qed
  with c show ?thesis by (auto simp: validateBreadcrumbsOfTrackedBlocks_def)
qed

section \<open>A sample tracker\<close>

definition sample_breadcrumb :: accountBreadcrumb where
  "sample_breadcrumb = \<lparr>firstNonce = someNonce 4, lastNonce = someNonce 4, consumedBalance = 57\<rparr>"

definition sample_block :: trackedBlock where
  "sample_block =
     \<lparr>tb_nonce = 7, tb_hash = [9], tb_prevHash = [8], breadcrumbsByAddress = [([1], sample_breadcrumb)]\<rparr>"

definition sample_tracker0 :: selectionTracker where
  "sample_tracker0 =
     \<lparr>latestNonce = 6, latestRootHash = Some [3], blocks = [],
      globalBreadcrumbsCompiler = newGlobalAccountBreadcrumbsCompiler, selfShardId = 0, maxTrackedBlocks = 10\<rparr>"

definition sample_tracker :: selectionTracker where
  "sample_tracker = sample_tracker0\<lparr>blocks := AList.update [9] sample_block (blocks sample_tracker0),
     globalBreadcrumbsCompiler := updateOnAddedBlock (globalBreadcrumbsCompiler sample_tracker0) sample_block\<rparr>"

text \<open>A cache that ignores the callbacks.\<close>

definition sample_tc :: "unit txCacheForSelectionTracker" where
  "sample_tc = \<lparr>GetByTxHash = (\<lambda>_ h. if h = [1, 5] then Some (sample_tx 1 5 3) else None),
     SetSelectionOffsetsByLastNonce = (\<lambda>c _. c), ResetSelectionOffsetsToNonce = (\<lambda>c _. c),
     ResetAllSelectionOffsets = (\<lambda>c. c)\<rparr>"

definition sample_prov :: AccountNonceAndBalanceProvider where
  "sample_prov = \<lparr>prov_GetRootHash = Inr (Some [3]),
     prov_GetAccountNonceAndBalance = (\<lambda>a. Inr (if a = [1] then 4 else 0, Some 1000))\<rparr>"

definition sample_header :: "u64 \<Rightarrow> HeaderHandler" where
  "sample_header n = \<lparr>hdr_GetNonce = n, hdr_GetPrevHash = Some [9], hdr_numExecutionResults = 0\<rparr>"

lemma sample_tracks: "tracks sample_tracker [([9], sample_block)]"
proof -
  have "tracks sample_tracker0 []"
    by (simp add: tracks_def sample_tracker0_def newGlobalAccountBreadcrumbsCompiler_def aggregates_def coherent_def)
  from add_tracks [OF this, of sample_block "[9]"] show ?thesis
    by (simp add: sample_tracker_def sample_block_def sample_breadcrumb_def coherent_def wf_breadcrumb_def known_def
        list_of_def split: option.splits)
qed

section \<open>Properties\<close>

text \<open>
  C7: executing a block never fails on a consistent tracker: the blocks up to its nonce leave, the
  later ones stay, and the global breadcrumbs are again those recomputed from the blocks that stay (so
  an account is forgotten exactly when no remaining block touches it).
\<close>

theorem executed_block_tracks:
  assumes "tracks st L"
  shows "\<exists>st'. OnExecutedBlock st (Some header) rootHash = (None, st') \<and>
    tracks st' (filter (\<lambda>(h, b). hdr_GetNonce header < tb_nonce b) L)"
proof -
  let ?sb = "newTrackedBlock (hdr_GetNonce header) [] (slice_str (hdr_GetPrevHash header))"
  obtain st1 where r: "removeUpToBlockNoLock st ?sb = (None, st1)"
    and t: "tracks st1 (filter (\<lambda>(h, b). tb_nonce ?sb < tb_nonce b) L)" by (rule removeUpTo_tracks [OF assms])
  have "tracks (updateLatestRootHashNoLock st1 (hdr_GetNonce header) rootHash)
      (filter (\<lambda>(h, b). hdr_GetNonce header < tb_nonce b) L)"
    using t by (auto simp: tracks_def updateLatestRootHashNoLock_def newTrackedBlock_def)
  with r show ?thesis by (simp add: OnExecutedBlock_def)
qed

theorem executed_block_tracks_witness:
  "\<exists>st'. OnExecutedBlock sample_tracker (Some (sample_header 7)) (Some [4]) = (None, st') \<and> tracks st' []"
  using executed_block_tracks [OF sample_tracks, of "sample_header 7" "Some [4]"]
  by (simp add: sample_header_def sample_block_def)

text \<open>
  C6: tracking a new block replaces every block of its nonce or above, keeps those below, and makes
  the global breadcrumbs those recomputed from the new chain. It never fails when the new block
  continues the breadcrumbs below it.
\<close>

theorem added_block_tracks:
  assumes "tracks st L" and "below = filter (\<lambda>(h, b). tb_nonce b < tb_nonce tb) L" and "hash \<notin> fst ` set below"
    and "distinct (map fst (breadcrumbsByAddress tb))"
    and "\<forall>a. coherent (hist (map snd below @ [tb]) a)"
  shows "\<exists>st' cache'. addNewTrackedBlockNoLock tc st cache hash (Some tb) = (None, st', cache') \<and>
    tracks st' (below @ [(hash, tb)])"
proof -
  obtain st1 c1 where r: "removeBlocksAboveOrEqualToNonceNoLock tc st cache (tb_nonce tb) = (None, st1, c1)"
    and t: "tracks st1 below" using removeAbove_tracks [OF assms(1)] assms(2) by metis
  have "\<forall>(h, b) \<in> set below. tb_nonce b < tb_nonce tb" by (auto simp: assms(2))
  moreover have "coherent (hist (map snd below) a @ list_of (map_of (breadcrumbsByAddress tb) a))" for a
    using assms(5) [rule_format, of a] by simp
  ultimately have "tracks (st1\<lparr>blocks := AList.update hash tb (blocks st1),
      globalBreadcrumbsCompiler := updateOnAddedBlock (globalBreadcrumbsCompiler st1) tb\<rparr>) (below @ [(hash, tb)])"
    by (intro add_tracks [OF t _ assms(3,4)]) auto
  with r show ?thesis by (simp add: addNewTrackedBlockNoLock_def)
qed

theorem added_block_tracks_witness:
  "\<exists>st' cache'. addNewTrackedBlockNoLock sample_tc sample_tracker () [10] (Some sample_block) = (None, st', cache') \<and>
     tracks st' [([10], sample_block)]"
proof -
  have "\<forall>a. coherent (hist (map snd [] @ [sample_block]) a)"
    by (simp add: sample_block_def sample_breadcrumb_def coherent_def wf_breadcrumb_def known_def
        list_of_def split: option.splits)
  from added_block_tracks [OF sample_tracks _ _ _ this, of "[10]" sample_tc "()"] show ?thesis
    by (simp add: sample_block_def)
qed

text \<open>
  The chain of pending blocks below a new block. When the search succeeds, the blocks are tracked,
  in nonce order without a gap up to the new block, each one is the predecessor its successor names,
  and the first one is on top of the latest executed block (or is the genesis block).
\<close>

theorem pending_chain_linked:
  assumes "getChainOfTrackedPendingBlocks st latest prevHash nonce = Inr chain"
  shows "linked_chain (blocks st) (rev chain) prevHash nonce \<and>
    (if chain = [] then prevHash = latest \<or> nonce = 0
     else tb_prevHash (hd chain) = latest \<or> tb_nonce (hd chain) = 0)"
proof (cases "latest = prevHash")
  case True
  with assms show ?thesis by (simp add: getChainOfTrackedPendingBlocks_def)
next
  case False
  with assms have "chain_loop (blocks st) latest [] (map_of (blocks st) prevHash) nonce = Inr chain"
    by (simp add: getChainOfTrackedPendingBlocks_def)
  from chain_loop_result [OF this] show ?thesis by (auto simp: hd_rev)
qed

theorem pending_chain_linked_witness:
  "getChainOfTrackedPendingBlocks sample_tracker [8] [9] 8 = Inr [sample_block] \<and>
   linked_chain (blocks sample_tracker) [sample_block] [9] 8"
proof -
  have c: "getChainOfTrackedPendingBlocks sample_tracker [8] [9] 8 = Inr [sample_block]" by code_simp
  from pending_chain_linked [OF c] c show ?thesis by simp
qed

text \<open>
  C5: a proposed block that the tracker accepts compiles without a nonce gap, sits on a chain of
  pending blocks, and every account it touches is acceptable over the whole chain: the nonces continue
  from the nonce of the account without a gap, and what the chain and the block consume together never
  exceeds the balance of the account.
\<close>

theorem proposed_block_validated:
  assumes "OnProposedBlock tc st cache (Some hash) (BlockBody (Some body)) (Some header) (Some prov) latest = (None, st', cache')"
    and "\<forall>(h, b) \<in> set (blocks st). distinct (map fst (breadcrumbsByAddress b))"
  shows "\<exists>txs lastNonces tb chain.
    getTransactionsInBlock body (GetByTxHash tc cache) (selfShardId st) = Inr txs \<and>
    compileBreadcrumbs (newTrackedBlock (hdr_GetNonce header) hash (slice_str (hdr_GetPrevHash header))) txs =
      (Inr lastNonces, tb) \<and>
    getChainOfTrackedPendingBlocks st (slice_str latest) (slice_str (hdr_GetPrevHash header)) (hdr_GetNonce header) =
      Inr chain \<and>
    (\<forall>a b. map_of (breadcrumbsByAddress tb) a = Some b \<longrightarrow>
      (\<exists>n bal. prov_GetAccountNonceAndBalance prov a = Inr (n, Some bal) \<and>
        acceptable n bal [] (hist chain a @ [b])))"
proof -
  let ?tb0 = "newTrackedBlock (hdr_GetNonce header) hash (slice_str (hdr_GetPrevHash header))"
  have tb0: "tb_nonce ?tb0 = hdr_GetNonce header" "tb_prevHash ?tb0 = slice_str (hdr_GetPrevHash header)"
    by (simp_all add: newTrackedBlock_def)
  obtain m tb where v: "validateTrackedBlocksAndCompileBreadcrumbsNoLock st (GetByTxHash tc cache) body ?tb0 prov
      (slice_str latest) = (Inr m, tb)"
    using assms(1) by (auto simp: OnProposedBlock_def verifyBlockArgs_def Let_def
        split: if_splits sum.splits option.splits prod.splits)
  then obtain chain txs where
    c: "getChainOfTrackedPendingBlocks st (slice_str latest) (slice_str (hdr_GetPrevHash header)) (hdr_GetNonce header) = Inr chain"
    and t: "getTransactionsInBlock body (GetByTxHash tc cache) (selfShardId st) = Inr txs"
    and b: "compileBreadcrumbs ?tb0 txs = (Inr m, tb)"
    and val: "validate_chain prov newBreadcrumbValidator (chain @ [tb]) = None"
    unfolding validateTrackedBlocksAndCompileBreadcrumbsNoLock_def tb0 validateBreadcrumbsOfTrackedBlocks_def
    by (auto split: sum.splits option.splits prod.splits)
  have "set chain \<subseteq> snd ` set (blocks st)"
  proof -
    have "set xs \<subseteq> snd ` set blks" if "linked_chain blks xs h n" for blks xs h n
      using that by (induction blks xs h n rule: linked_chain.induct) (auto dest: map_of_SomeD intro: rev_image_eqI)
    moreover have "linked_chain (blocks st) (rev chain) (slice_str (hdr_GetPrevHash header)) (hdr_GetNonce header)"
      using c chain_loop_result by (fastforce simp: getChainOfTrackedPendingBlocks_def split: if_splits)
    ultimately show ?thesis by (metis set_rev)
  qed
  with assms(2) compileBreadcrumbs_distinct [OF b]
  have d: "\<forall>x \<in> set (chain @ [tb]). distinct (map fst (breadcrumbsByAddress x))" by fastforce
  have "\<exists>n bal. prov_GetAccountNonceAndBalance prov a = Inr (n, Some bal) \<and> acceptable n bal [] (hist chain a @ [x])"
    if "map_of (breadcrumbsByAddress tb) a = Some x" for a x
  proof -
    have "a \<in> fst ` set (breadcrumbsByAddress (last (chain @ [tb])))"
      using that by (simp add: dom_map_of_conv_image_fst [symmetric] domI)
    from validate_chain_sound [OF val _ d vinv_new this] that show ?thesis by simp
  qed
  with t b c show ?thesis by blast
qed

theorem proposed_block_validated_witness:
  "\<exists>st' cache' txs lastNonces tb chain.
    OnProposedBlock sample_tc sample_tracker () (Some [10])
      (BlockBody (Some \<lparr>MiniBlocks = [\<lparr>mb_Type = TxBlock, mb_SenderShardID = 0, mb_TxHashes = [[1, 5]]\<rparr>]\<rparr>))
      (Some (sample_header 8)) (Some sample_prov) (Some [8]) = (None, st', cache') \<and>
    compileBreadcrumbs (newTrackedBlock 8 [10] [9]) txs = (Inr lastNonces, tb) \<and>
    getChainOfTrackedPendingBlocks sample_tracker [8] [9] 8 = Inr chain"
proof -
  let ?r = "OnProposedBlock sample_tc sample_tracker () (Some [10])
      (BlockBody (Some \<lparr>MiniBlocks = [\<lparr>mb_Type = TxBlock, mb_SenderShardID = 0, mb_TxHashes = [[1, 5]]\<rparr>]\<rparr>))
      (Some (sample_header 8)) (Some sample_prov) (Some [8])"
  have "fst ?r = None" by code_simp
  then obtain st' cache' where r: "?r = (None, st', cache')" by (cases ?r) auto
  have "\<forall>(h, b) \<in> set (blocks sample_tracker). distinct (map fst (breadcrumbsByAddress b))" by code_simp
  from proposed_block_validated [OF r this] r show ?thesis by (fastforce simp: sample_header_def)
qed

end
