(* ===== verification/Cache_Props.thy ===== *)
theory Cache_Props
  imports Eviction_Props Tracker_Props
begin

text \<open>
  The public operations of the cache: what each does to the two indexes, and that every one of them
  keeps \<open>cache_inv\<close>, so that it holds in every cache reached from a new one. The interface of the tracker
  to the cache is the locale \<open>tracker_cache\<close>, interpreted on the cache's own callbacks.
\<close>

section \<open>Adding\<close>

lemma indexedD: "indexed p g \<Longrightarrow> tx \<in> set (p s) \<Longrightarrow> g (TxHash tx) = Some tx"
  by (auto simp: indexed_def)

text \<open>Removing the listed transactions \<open>R\<close> from both indexes.\<close>

lemma cache_inv_remove:
  assumes ix: "indexed p g" and R: "\<And>r. r \<in> R \<Longrightarrow> g (TxHash r) = Some r"
    and p': "\<And>s tx. tx \<in> set (p' s) \<Longrightarrow> tx \<in> set (p s) \<and> tx \<notin> R"
  shows "indexed p' (g |` (- TxHash ` R))"
proof (rule indexed_restrict [OF ix])
  fix s tx assume tx: "tx \<in> set (p' s)"
  have "g (TxHash tx) = Some tx" using indexedD [OF ix] p' [OF tx] by blast
  then have "TxHash tx \<noteq> TxHash r" if "r \<in> R" for r using R [OF that] p' [OF tx] that by (metis option.inject)
  then show "tx \<in> set (p s) \<and> TxHash tx \<notin> TxHash ` R" using p' [OF tx] by auto
qed

definition wrapped :: "TxCache \<Rightarrow> int \<Rightarrow> WrappedTransaction \<Rightarrow> WrappedTransaction" where
  "wrapped c now tx = (precomputeFields (host c) tx)\<lparr>ReceivedAt := now\<rparr>"

lemma wrapped_keeps [simp]:
  "TxHash (wrapped c now tx) = TxHash tx" "Tx (wrapped c now tx) = Tx tx" "Size (wrapped c now tx) = Size tx"
  by (simp_all add: wrapped_def)

text \<open>The step after the eviction: both indexes get the transaction, the size constraints of its sender
  remove \<open>R\<close>.\<close>

definition added_to :: "TxCache \<Rightarrow> WrappedTransaction \<Rightarrow> WrappedTransaction list \<Rightarrow> TxCache \<Rightarrow> bool" where
  "added_to c w R c' \<longleftrightarrow>
     pools c' = (pools c)(senderOf w := pools c' (senderOf w)) \<and>
     add_mset w (mset (pools c (senderOf w))) = mset (pools c' (senderOf w)) + mset R \<and>
     getTx (txByHash c') = (getTx (txByHash c))(TxHash w \<mapsto> w) |` (- TxHash ` set R) \<and>
     (\<forall>r \<in> set R. \<not> tracked c r) \<and>
     (\<exists>l. getListForSender (txListBySender c') (senderOf w) = Some l \<and>
        (isCapacityExceeded l \<longrightarrow> (\<forall>r \<in> set (txs_of l). tracked c r)))"

lemma AddTx_split:
  assumes "AddTx ext now c (Some tx) = (res, c')"
  shows "(getTx (txByHash c) (TxHash tx) \<noteq> None \<and> res = (True, False) \<and> c' = c) \<or>
    (getTx (txByHash c) (TxHash tx) = None \<and>
     (\<exists>c1 b bh b2 evicted bs.
        c1 = (if EvictionEnabled (config c) then snd (doEviction ext c) else c) \<and>
        bh_addTx (txByHash c1) (wrapped c now tx) = (b, bh) \<and>
        addTxReturnEvicted (txListBySender c1) (wrapped c now tx) (Some (globalBreadcrumbsCompiler (tracker c1))) =
          (b2, evicted, bs) \<and>
        res = (True, b \<or> b2) \<and>
        c' = c1\<lparr>txListBySender := bs,
                txByHash := (if evicted = [] then bh else snd (RemoveTxsBulk bh evicted))\<rparr>))"
proof (cases "getTx (txByHash c) (TxHash tx)")
  case None
  define c1 where "c1 = (if EvictionEnabled (config c) then snd (doEviction ext c) else c)"
  obtain b bh where bh: "bh_addTx (txByHash c1) (wrapped c now tx) = (b, bh)" by fastforce
  obtain b2 evicted bs where bs: "addTxReturnEvicted (txListBySender c1) (wrapped c now tx)
      (Some (globalBreadcrumbsCompiler (tracker c1))) = (b2, evicted, bs)" by (metis prod_cases3)
  have "\<not> hasTx (txByHash c) (TxHash tx)" using None by (simp add: hasTx_def getTx_conv cm_Has_Get)
  with assms bh bs have "res = (True, b \<or> b2)" "c' = c1\<lparr>txListBySender := bs,
      txByHash := (if evicted = [] then bh else snd (RemoveTxsBulk bh evicted))\<rparr>"
    by (auto simp: AddTx_def wrapped_def c1_def [symmetric] Let_def)
  with None bh bs show ?thesis by (auto simp: c1_def)
next
  case (Some x)
  then have "hasTx (txByHash c) (TxHash tx)" by (simp add: hasTx_def getTx_conv cm_Has_Get)
  with assms Some show ?thesis by (simp add: AddTx_def)
qed

lemma AddTx_cache_result:
  assumes inv: "cache_inv c" and new: "getTx (txByHash c) (TxHash tx) = None"
    and add: "AddTx ext now c (Some tx) = (res, c')"
  shows "res = (True, True) \<and> cache_inv c' \<and> (\<exists>E c1 R. evicted_from c E c1 \<and> cache_inv c1 \<and>
    set E \<subseteq> {t \<in> listed c. \<not> tracked c t} \<and> (EvictionEnabled (config c) \<or> E = []) \<and>
    added_to c1 (wrapped c now tx) R c' \<and> tracker c' = tracker c \<and> config c' = config c \<and> host c' = host c)"
proof -
  let ?w = "wrapped c now tx"
  define c1 where "c1 = (if EvictionEnabled (config c) then snd (doEviction ext c) else c)"
  from AddTx_split [OF add] new obtain b bh b2 evicted bs where
    bh: "bh_addTx (txByHash c1) ?w = (b, bh)" and
    bs: "addTxReturnEvicted (txListBySender c1) ?w (Some (globalBreadcrumbsCompiler (tracker c1))) = (b2, evicted, bs)" and
    res: "res = (True, b \<or> b2)" and
    c': "c' = c1\<lparr>txListBySender := bs, txByHash := (if evicted = [] then bh else snd (RemoveTxsBulk bh evicted))\<rparr>"
    by (auto simp: c1_def)
  obtain E where E: "cache_inv c1" "evicted_from c E c1" "set E \<subseteq> {t \<in> listed c. \<not> tracked c t}"
    "EvictionEnabled (config c) \<or> E = []"
  proof (cases "EvictionEnabled (config c)")
    case True
    with doEviction_result [OF inv, of ext] show ?thesis
      by (cases "doEviction ext c") (auto simp: c1_def intro: that)
  next
    case False
    with inv show ?thesis by (intro that [of "[]"]) (simp_all add: c1_def evicted_from_refl)
  qed
  have i1: "bh_inv (txByHash c1)" "bs_inv (txListBySender c1)" "indexed (pools c1) (getTx (txByHash c1))"
    using E(1) by (simp_all add: cache_inv_def)
  have tr: "tracked c1 = tracked c" "tracker c1 = tracker c" "config c1 = config c" "host c1 = host c"
    using E(2) by (simp_all add: tracked_def evicted_from_def fun_eq_iff)
  have "getTx (txByHash c1) (TxHash ?w) = None" using new E(2) by (simp add: evicted_from_def restrict_map_def)
  with bh_addTx_result [OF i1(1) bh] have b: b "bh_inv bh" "getTx bh = (getTx (txByHash c1))(TxHash tx \<mapsto> ?w)" by simp_all
  note r = addTxReturnEvicted_result [OF i1(2) bs]
  have fresh: "TxHash y \<noteq> TxHash ?w" if "y \<in> set (pools c1 s)" for y s
    using indexedD [OF i1(3) that] \<open>getTx (txByHash c1) (TxHash ?w) = None\<close> by auto
  then have "compareTxs y ?w \<noteq> 0" if "y \<in> set (pools c1 (senderOf ?w))" for y
    using that by (auto simp: compareTxs_zero)
  then have b2: b2 using r(4) by blast
  with r(5) obtain R where R: "evicted = map TxHash R" "pools c' = (pools c1)(senderOf ?w := pools c' (senderOf ?w))"
    "add_mset ?w (mset (pools c1 (senderOf ?w))) = mset (pools c' (senderOf ?w)) + mset R" "\<forall>r \<in> set R. \<not> tracked c1 r"
    by (auto simp: c' tracked_def)
  have g: "getTx (txByHash c') = (getTx (txByHash c1))(TxHash ?w \<mapsto> ?w) |` (- TxHash ` set R)"
    using RemoveTxsBulk_cache(2) [OF b(2), of evicted] b(3) R(1) by (auto simp: c' restrict_map_def fun_eq_iff)
  have ad: "added_to c1 ?w R c'"
    using R g r(6) [OF b2] by (auto simp: added_to_def c' tracked_def)
  have "indexed (pools c') (getTx (txByHash c'))" unfolding g
  proof (rule cache_inv_remove)
    let ?s = "senderOf ?w"
    let ?p = "(pools c1)(?s := ?w # pools c1 ?s)" and ?g = "(getTx (txByHash c1))(TxHash ?w \<mapsto> ?w)"
    show ix: "indexed ?p ?g" using indexedD [OF i1(3)] fresh by (auto simp: indexed_def)
    have sub: "set (pools c' ?s) \<union> set R = insert ?w (set (pools c1 ?s))"
      using arg_cong [OF R(3), of set_mset] by simp
    show "?g (TxHash x) = Some x" if "x \<in> set R" for x
    proof -
      have "x \<in> set (?p ?s)" using that sub by auto
      then show ?thesis by (rule indexedD [OF ix])
    qed
    have "distinct (?w # pools c1 ?s)" using txcmp.increasing_distinct [OF pool_ordered [OF i1(2)]] fresh [of ?w ?s] by auto
    then have dis: "set (pools c' ?s) \<inter> set R = {}"
      using R(3) by (metis distinct_append mset.simps(2) mset_append mset_eq_imp_distinct_iff)
    fix s t assume t: "t \<in> set (pools c' s)"
    show "t \<in> set (?p s) \<and> t \<notin> set R"
    proof (cases "s = ?s")
      case True
      with t sub dis show ?thesis by auto
    next
      case False
      then have "t \<in> set (pools c1 s)" using t R(2) by (metis fun_upd_apply)
      moreover have "senderOf r = ?s" if "r \<in> set R" for r
      proof -
        have "r = ?w \<or> r \<in> set (pools c1 ?s)" using that sub by blast
        then show ?thesis using pool_sender [OF i1(2), of r ?s] by auto
      qed
      ultimately show ?thesis using False pool_sender [OF i1(2), of t s] by auto
    qed
  qed
  moreover have "bh_inv (txByHash c')" "bs_inv (txListBySender c')"
    using RemoveTxsBulk_cache(1) [OF b(2)] b(2) r(1) by (simp_all add: c')
  ultimately have "cache_inv c'" by (simp add: cache_inv_def)
  moreover have "tracker c' = tracker c" "config c' = config c" "host c' = host c" using tr by (simp_all add: c')
  ultimately show ?thesis using E ad res b(1) by blast
qed

section \<open>Clearing\<close>

lemma Clear_result:
  assumes "cache_inv c"
  shows "cache_inv (cache_Clear c)" "pools (cache_Clear c) = (\<lambda>s. [])" "getTx (txByHash (cache_Clear c)) = Map.empty"
  using assms bh_clear_result [of "txByHash c"] bs_clear_result [of "txListBySender c"]
  by (simp_all add: cache_inv_def cache_Clear_def pool_def fun_eq_iff indexed_def)

section \<open>What the tracker may call\<close>

text \<open>The interface of the tracker to its cache: the callbacks keep the cache good and change nothing
  that the lookup by hash or the rest of the node can see.\<close>

locale tracker_cache =
  fixes tc :: "'c txCacheForSelectionTracker" and good :: "'c \<Rightarrow> bool" and view :: "'c \<Rightarrow> 'v"
  assumes set_offsets: "good c \<Longrightarrow> good (SetSelectionOffsetsByLastNonce tc c xs) \<and> view (SetSelectionOffsetsByLastNonce tc c xs) = view c"
    and reset_offsets: "good c \<Longrightarrow> good (ResetSelectionOffsetsToNonce tc c xs) \<and> view (ResetSelectionOffsetsToNonce tc c xs) = view c"
    and reset_all: "good c \<Longrightarrow> good (ResetAllSelectionOffsets tc c) \<and> view (ResetAllSelectionOffsets tc c) = view c"
begin

definition keeps :: "'c \<Rightarrow> 'c \<Rightarrow> bool" where
  "keeps c c' \<longleftrightarrow> good c' \<and> view c' = view c"

lemma keeps_refl: "good c \<Longrightarrow> keeps c c"
  by (simp add: keeps_def)

lemma removeAbove_keeps:
  "good c \<Longrightarrow> removeBlocksAboveOrEqualToNonceNoLock tc st c n = (e, st', c') \<Longrightarrow> keeps c c'"
  by (auto simp: removeBlocksAboveOrEqualToNonceNoLock_def deleteMatchedBlocksWithSameNonceOrAboveNoLock_def
      keeps_def reset_offsets Let_def split: prod.splits sum.splits if_splits)

lemma addNew_keeps:
  "good c \<Longrightarrow> addNewTrackedBlockNoLock tc st c h tb = (e, st', c') \<Longrightarrow> keeps c c'"
  by (auto simp: addNewTrackedBlockNoLock_def keeps_def split: option.splits prod.splits
      dest: removeAbove_keeps [unfolded keeps_def])

lemma set_keeps: "keeps c c' \<Longrightarrow> keeps c (SetSelectionOffsetsByLastNonce tc c' xs)"
  by (auto simp: keeps_def set_offsets)

lemma OnProposedBlock_keeps:
  "good c \<Longrightarrow> OnProposedBlock tc st c h body hdr prov lh = (e, st', c') \<Longrightarrow> keeps c c'"
  by (auto simp: OnProposedBlock_def Let_def intro: set_keeps keeps_refl dest: addNew_keeps
      split: bodyHandler.splits option.splits sum.splits prod.splits if_splits)

lemma OnBackfilledBlock_keeps:
  "good c \<Longrightarrow> OnBackfilledBlock tc st c h body hdr = (e, st', c') \<Longrightarrow> keeps c c'"
  by (auto simp: OnBackfilledBlock_def Let_def intro: set_keeps keeps_refl dest: addNew_keeps
      split: bodyHandler.splits option.splits sum.splits prod.splits)

lemma ResetTrackedBlocks_keeps: "good c \<Longrightarrow> ResetTrackedBlocks tc st c = (st', c') \<Longrightarrow> keeps c c'"
  by (auto simp: ResetTrackedBlocks_def keeps_def reset_all)

lemma derive_keeps:
  "good c \<Longrightarrow> deriveVirtualSelectionSession tc st c session n sim = (r, st', c') \<Longrightarrow> keeps c c'"
  by (auto simp: deriveVirtualSelectionSession_def intro: keeps_refl dest: removeAbove_keeps
      split: prod.splits option.splits sum.splits if_splits)

end

text \<open>Everything of a cache but the selection offsets.\<close>

definition cache_view :: "TxCache \<Rightarrow> (bytes \<Rightarrow> WrappedTransaction list) \<times> txByHashMap \<times> senderConstraints \<times>
    ConfigSourceMe \<times> MempoolHost \<times> bool \<times> selectionTracker" where
  "cache_view c = (pools c, txByHash c, bs_constraints (txListBySender c), config c, host c,
     isEvictionInProgress c, tracker c)"

lemma update_list_keeps:
  assumes inv: "cache_inv c"
    and f: "\<And>l. sl_inv l \<Longrightarrow> sl_inv (f l) \<and> sender (f l) = sender l \<and> constraints (f l) = constraints l \<and> txs_of (f l) = txs_of l"
  shows "cache_inv (update_list c s f) \<and> cache_view (update_list c s f) = cache_view c"
proof (cases "getListForSender (txListBySender c) s")
  case None
  with inv show ?thesis by (simp add: update_list_def)
next
  case (Some l)
  have bs: "bs_inv (txListBySender c)" using inv by (simp add: cache_inv_def)
  note st = storeList_same_txs [OF bs Some, of "f l"]
  from f [OF bs_invD(1) [OF bs Some]] st inv Some show ?thesis
    by (simp add: update_list_def cache_inv_def cache_view_def)
qed

lemma reset_list:
  "sl_inv l \<Longrightarrow> sl_inv (resetSelectionOffsetByNonce l n) \<and> sender (resetSelectionOffsetByNonce l n) = sender l \<and>
     constraints (resetSelectionOffsetByNonce l n) = constraints l \<and> txs_of (resetSelectionOffsetByNonce l n) = txs_of l"
  "sl_inv l \<Longrightarrow> sl_inv (resetSelectionOffset l) \<and> sender (resetSelectionOffset l) = sender l \<and>
     constraints (resetSelectionOffset l) = constraints l \<and> txs_of (resetSelectionOffset l) = txs_of l"
  using resetOffsetByNonce_result(1) [of l n]
  by (simp_all add: resetSelectionOffsetByNonce_def resetSelectionOffset_def sl_inv_def)

lemma update_fold_keeps:
  assumes "cache_inv c"
    and "\<And>x l. sl_inv l \<Longrightarrow> sl_inv (f x l) \<and> sender (f x l) = sender l \<and> constraints (f x l) = constraints l \<and> txs_of (f x l) = txs_of l"
  shows "cache_inv (foldl (\<lambda>c x. update_list c (k x) (f x)) c xs) \<and>
    cache_view (foldl (\<lambda>c x. update_list c (k x) (f x)) c xs) = cache_view c"
  using assms(1)
proof (induction xs arbitrary: c)
  case (Cons x xs)
  from update_list_keeps [OF Cons.prems assms(2)] Cons.IH show ?case by simp
qed simp

interpretation tcache: tracker_cache cache_ops cache_inv cache_view
proof
  fix c xs assume inv: "cache_inv c"
  show "cache_inv (SetSelectionOffsetsByLastNonce cache_ops c xs) \<and>
      cache_view (SetSelectionOffsetsByLastNonce cache_ops c xs) = cache_view c"
    using update_fold_keeps [OF inv, of "\<lambda>x l. resetSelectionOffsetByNonce l (snd x + 1)" fst xs] reset_list(1)
    by (simp add: cache_ops_def cache_SetSelectionOffsetsByLastNonce_def case_prod_unfold)
  show "cache_inv (ResetSelectionOffsetsToNonce cache_ops c xs) \<and>
      cache_view (ResetSelectionOffsetsToNonce cache_ops c xs) = cache_view c"
    using update_fold_keeps [OF inv, of "\<lambda>x l. resetSelectionOffsetByNonce l (snd x)" fst xs] reset_list(1)
    by (simp add: cache_ops_def cache_ResetSelectionOffsetsToNonce_def case_prod_unfold)
  show "cache_inv (ResetAllSelectionOffsets cache_ops c) \<and>
      cache_view (ResetAllSelectionOffsets cache_ops c) = cache_view c"
    using update_fold_keeps [OF inv, of "\<lambda>_. resetSelectionOffset" sender "getSenders (txListBySender c)"] reset_list(2)
    by (simp add: cache_ops_def cache_ResetAllSelectionOffsets_def)
qed

section \<open>Sweeping\<close>

definition sweepable :: "(bytes \<Rightarrow> u64 result) \<Rightarrow> TxCache \<Rightarrow> WrappedTransaction \<Rightarrow> bool" where
  "sweepable GetAccountNonce c tx \<longleftrightarrow>
     tx \<in> listed c \<and> \<not> tracked c tx \<and> (\<exists>n. GetAccountNonce (senderOf tx) = Inr n \<and> nonceOf tx < n)"

text \<open>What a sweep of the transactions \<open>R\<close> leaves of the sender index.\<close>

definition swept_from :: "TxCache \<Rightarrow> WrappedTransaction list \<Rightarrow> TxCache \<Rightarrow> bool" where
  "swept_from c R c' \<longleftrightarrow>
     pools c' = (\<lambda>s. filter (\<lambda>t. t \<notin> set R) (pools c s)) \<and> txByHash c' = txByHash c \<and>
     bs_inv (txListBySender c') \<and> tracker c' = tracker c \<and> config c' = config c \<and> host c' = host c"

lemma sweep_one:
  assumes bs: "bs_inv (txListBySender c)" and get: "getListForSender (txListBySender c) (sender l) = Some l"
    and n: "GetAccountNonce (sender l) = Inr n" "n \<noteq> 0"
    and rm: "removeSweepableTransactionsReturnHashes (globalBreadcrumbsCompiler (tracker c)) l (n - 1) = (hs, l')"
    and c': "c' = c\<lparr>txListBySender := storeList (txListBySender c) (sender l) l'\<rparr>"
  shows "\<exists>R. hs = map TxHash R \<and> swept_from c R c' \<and> (\<forall>r \<in> set R. sweepable GetAccountNonce c r \<and> senderOf r = sender l) \<and>
    (\<forall>s. s \<noteq> sender l \<longrightarrow> getListForSender (txListBySender c') s = getListForSender (txListBySender c) s)"
proof -
  note l = bs_invD [OF bs get] and sw = sweep_result [OF bs_invD(1) [OF bs get] rm]
  let ?R = "filter (\<lambda>tx. nonceOf tx \<le> n - 1 \<and> \<not> IsTransactionTracked (globalBreadcrumbsCompiler (tracker c)) (Some tx)) (txs_of l)"
  have p: "pools c (sender l) = txs_of l" using get by (simp add: pool_def)
  have "getListForSender (txListBySender c) (sender l) \<noteq> None" "sender l' = sender l" "constraints l' = bs_constraints (txListBySender c)"
    using get sw(5) l by simp_all
  note st = storeList_result [OF bs this(1) sw(3) this(2,3)]
  have nn: "nonceOf tx \<le> n - 1 \<longleftrightarrow> nonceOf tx < n" for tx
  proof -
    have "unat (n - 1) = unat n - 1" "0 < unat n" using n(2) by (simp_all add: unat_minus_one unat_gt_0)
    then show ?thesis unfolding word_le_nat_alt word_less_nat_alt by linarith
  qed
  have "pools c' s = filter (\<lambda>t. t \<notin> set ?R) (pools c s)" for s
  proof (cases "s = sender l")
    case True
    then have "pools c' s = txs_of l'" using st(2) by (simp add: pool_def c')
    then show ?thesis using True sw(2) p by (auto intro!: filter_cong)
  next
    case False
    then have "pools c' s = pools c s" using st(2) by (simp add: pool_def c')
    moreover have "t \<notin> set ?R" if "t \<in> set (pools c s)" for t
      using False pool_sender [OF bs that] pool_sender [OF bs, of t "sender l"] p by auto
    ultimately show ?thesis by (simp add: filter_id_conv)
  qed
  then have "swept_from c ?R c'" using st(1) by (simp add: swept_from_def c' fun_eq_iff)
  moreover have "sweepable GetAccountNonce c r \<and> senderOf r = sender l" if "r \<in> set ?R" for r
    using that pool_sender [OF bs, of r "sender l"] p n nn by (auto simp: sweepable_def listed_def tracked_def)
  ultimately show ?thesis using sw(1) st(2) by (intro exI [of _ ?R]) (simp add: c')
qed

lemma swept_from_trans:
  "swept_from c R c1 \<Longrightarrow> swept_from c1 S c2 \<Longrightarrow> swept_from c (R @ S) c2"
  by (auto simp: swept_from_def fun_eq_iff conj_commute intro!: filter_cong)

lemma sweepable_swept: "swept_from c R c1 \<Longrightarrow> sweepable g c1 tx \<Longrightarrow> sweepable g c tx"
  by (auto simp: swept_from_def sweepable_def listed_def tracked_def)

lemma sweep_senders_result:
  assumes "bs_inv (txListBySender c)" "\<forall>l \<in> set ls. getListForSender (txListBySender c) (sender l) = Some l"
    "distinct (map sender ls)" "sweep_senders g late m i c ev ls = (ev', c')"
  shows "\<exists>R. ev' = ev @ map TxHash R \<and> swept_from c R c' \<and> (\<forall>r \<in> set R. sweepable g c r)"
  using assms
proof (induction g late m i c ev ls rule: sweep_senders.induct)
  case (1 g late m i c ev)
  then show ?case by (intro exI [of _ "[]"]) (simp add: swept_from_def)
next
  case (2 g late m i c ev l ls)
  have stop: "\<exists>R. ev = ev @ map TxHash R \<and> swept_from c R c \<and> (\<forall>r \<in> set R. sweepable g c r)"
    using "2.prems"(1) by (intro exI [of _ "[]"]) (simp add: swept_from_def)
  show ?case
  proof (cases "g (sender l)")
    case (Inl e)
    with "2.IH"(1) "2.prems" show ?thesis by simp
  next
    case (Inr n)
    show ?thesis
    proof (cases "n = 0 \<or> int (length ev) \<ge> m \<or> late i")
      case True
      with "2.IH"(2) "2.prems" stop Inr show ?thesis by (auto split: if_splits)
    next
      case False
      obtain hs l' where rm: "removeSweepableTransactionsReturnHashes (globalBreadcrumbsCompiler (tracker c)) l (n - 1) = (hs, l')"
        by fastforce
      define c1 where "c1 = c\<lparr>txListBySender := storeList (txListBySender c) (sender l) l'\<rparr>"
      have n: "n \<noteq> 0" "\<not> int (length ev) \<ge> m" "\<not> late i" using False by simp_all
      have get: "getListForSender (txListBySender c) (sender l) = Some l" using "2.prems"(2) by simp
      from sweep_one [where GetAccountNonce = g, OF "2.prems"(1) get Inr n(1) rm c1_def] obtain R where
        R: "hs = map TxHash R" "swept_from c R c1" "\<forall>r \<in> set R. sweepable g c r"
        "\<forall>s. s \<noteq> sender l \<longrightarrow> getListForSender (txListBySender c1) s = getListForSender (txListBySender c) s" by blast
      have "\<forall>x \<in> set ls. getListForSender (txListBySender c1) (sender x) = Some x"
      proof
        fix x assume x: "x \<in> set ls"
        then have "sender x \<noteq> sender l" using "2.prems"(3) by (metis distinct.simps(2) image_eqI list.simps(9) set_map)
        with R(4) x "2.prems"(2) show "getListForSender (txListBySender c1) (sender x) = Some x" by simp
      qed
      moreover have "bs_inv (txListBySender c1)" using R(2) by (simp add: swept_from_def)
      moreover have "sweep_senders g late m (i + 1) c1 (ev @ hs) ls = (ev', c')"
        using "2.prems"(4) Inr n rm by (simp add: c1_def)
      ultimately obtain S where S: "ev' = (ev @ hs) @ map TxHash S" "swept_from c1 S c'" "\<forall>r \<in> set S. sweepable g c1 r"
        using "2.IH"(3) [OF Inr n rm [symmetric] refl c1_def] "2.prems"(3) by auto
      from S R swept_from_trans [OF R(2) S(2)] sweepable_swept [OF R(2)] show ?thesis
        by (intro exI [of _ "R @ S"]) auto
    qed
  qed
qed

text \<open>\<open>sort.Slice\<close> permutes the slice, whatever the comparison.\<close>

definition permuting :: "externals \<Rightarrow> bool" where
  "permuting ext \<longleftrightarrow> (\<forall>lt xs. mset (SortByIndex ext lt xs) = mset xs)"

lemma shuffled_senders:
  assumes "permuting ext" "bs_inv (txListBySender c)"
  shows "\<forall>l \<in> set (getDeterministicallyShuffledSenders ext c r). getListForSender (txListBySender c) (sender l) = Some l"
    "distinct (map sender (getDeterministicallyShuffledSenders ext c r))"
proof -
  let ?m = "txListBySender c" and ?ks = "shuffleSendersAddresses ext (cm_Keys (bs_backingMap (txListBySender c))) r"
  have cm: "cm_inv (bs_backingMap ?m)" using assms(2) by (simp add: bs_inv_def)
  have "mset ?ks = mset (cm_Keys (bs_backingMap ?m))"
    using assms(1) by (simp add: shuffleSendersAddresses_def permuting_def Let_def)
  then have d: "distinct ?ks" using cm.distinct_entries [OF cm] by (metis cm_Keys_IterCb mset_eq_imp_distinct_iff)
  have m: "map sender (List.map_filter (getListForSender ?m) ks) = filter (\<lambda>k. getListForSender ?m k \<noteq> None) ks" for ks
    by (induction ks) (auto simp: List.map_filter_simps dest: bs_invD(2) [OF assms(2)])
  then show "distinct (map sender (getDeterministicallyShuffledSenders ext c r))"
    using d by (simp add: getDeterministicallyShuffledSenders_def getListForSender_conv)
  show "\<forall>l \<in> set (getDeterministicallyShuffledSenders ext c r). getListForSender ?m (sender l) = Some l"
    using bs_invD(2) [OF assms(2)]
    by (auto simp: getDeterministicallyShuffledSenders_def getListForSender_conv [symmetric] List.map_filter_def)
qed

lemma Cleanup_result:
  assumes inv: "cache_inv c" and perm: "permuting ext" and cl: "Cleanup ext g late r m c = (n, c')"
  shows "\<exists>R. cache_inv c' \<and> n = of_nat (length R) \<and> (\<forall>t \<in> set R. sweepable g c t) \<and>
    pools c' = (\<lambda>s. filter (\<lambda>t. t \<notin> set R) (pools c s)) \<and>
    getTx (txByHash c') = getTx (txByHash c) |` (- TxHash ` set R) \<and> tracker c' = tracker c \<and> config c' = config c"
proof -
  have i: "bh_inv (txByHash c)" "bs_inv (txListBySender c)" "indexed (pools c) (getTx (txByHash c))"
    using inv by (simp_all add: cache_inv_def)
  obtain ev c1 where sw: "sweep_senders g late m 0 c [] (getDeterministicallyShuffledSenders ext c r) = (ev, c1)" by fastforce
  from sweep_senders_result [OF i(2) shuffled_senders [OF perm i(2)] sw] obtain R where
    R: "ev = map TxHash R" "swept_from c R c1" "\<forall>t \<in> set R. sweepable g c t" by auto
  have c': "c' = c1\<lparr>txByHash := (if ev = [] then txByHash c else snd (RemoveTxsBulk (txByHash c) ev))\<rparr>" "n = of_nat (length R)"
    using cl sw R(1,2) by (auto simp: Cleanup_def RemoveSweepableTxs_def swept_from_def)
  have g: "getTx (txByHash c') = getTx (txByHash c) |` (- TxHash ` set R)"
    using RemoveTxsBulk_cache(2) [OF i(1), of ev] R(1) by (auto simp: c' fun_eq_iff restrict_map_def)
  have p: "pools c' = (\<lambda>s. filter (\<lambda>t. t \<notin> set R) (pools c s))" "bs_inv (txListBySender c')"
    using R(2) by (simp_all add: swept_from_def c')
  have "indexed (pools c') (getTx (txByHash c'))"
    unfolding g using i(3) by (rule cache_inv_remove) (use R(3) indexedD [OF i(3)] in \<open>auto simp: sweepable_def listed_def p\<close>)
  then have "cache_inv c'" using p RemoveTxsBulk_cache(1) [OF i(1)] i(1) by (simp add: cache_inv_def c')
  with c' R g p show ?thesis by (intro exI [of _ R]) (simp add: swept_from_def)
qed

end
