(* ===== verification/Cache_Reach.thy ===== *)
theory Cache_Reach
  imports Cache_Props
begin

text \<open>
  The cache as a state machine: its public operations are the steps, and \<open>cache_inv\<close> holds in every
  reached state. The properties of the cache follow, with a sample cache built by the operations.
\<close>

section \<open>The steps of a cache\<close>

inductive cache_step :: "externals \<Rightarrow> TxCache \<Rightarrow> TxCache \<Rightarrow> bool" for ext :: externals where
  add: "AddTx ext now c tx = (res, c') \<Longrightarrow> cache_step ext c c'"
| remove: "RemoveTxByHash c h = (found, c') \<Longrightarrow> cache_step ext c c'"
| clear: "cache_step ext c (cache_Clear c)"
| cleanup: "Cleanup ext GetAccountNonce late randomness maxNum c = (n, c') \<Longrightarrow> cache_step ext c c'"
| select: "selectTransactions ext now c session options nonce isSimulation = (r, c') \<Longrightarrow> cache_step ext c c'"
| propose: "cache_OnProposedBlock c hash body header prov executed = (err, c') \<Longrightarrow> cache_step ext c c'"
| backfill: "cache_OnBackfilledBlock c hash body header = (err, c') \<Longrightarrow> cache_step ext c c'"
| execute: "cache_OnExecutedBlock c header2 rootHash = (err, c') \<Longrightarrow> cache_step ext c c'"
| reset: "cache_step ext c (cache_ResetTracker c)"

inductive cache_reach :: "externals \<Rightarrow> TxCache \<Rightarrow> bool" for ext :: externals where
  new: "NewTxCache cfg h shard = Inr c \<Longrightarrow> cache_reach ext c"
| step: "cache_reach ext c \<Longrightarrow> cache_step ext c c' \<Longrightarrow> cache_reach ext c'"

inductive_cases cache_stepE: "cache_step ext c c'"

lemma cache_inv_tracker [simp]: "cache_inv (c\<lparr>tracker := t\<rparr>) = cache_inv c"
  by (simp add: cache_inv_def)

lemma AddTx_inv: "cache_inv c \<Longrightarrow> AddTx ext now c otx = (res, c') \<Longrightarrow> cache_inv c'"
proof (cases otx)
  case (Some tx)
  assume inv: "cache_inv c" and add: "AddTx ext now c otx = (res, c')"
  show ?thesis
  proof (cases "getTx (txByHash c) (TxHash tx)")
    case None
    with AddTx_cache_result [OF inv None add [unfolded Some]] show ?thesis by blast
  next
    case (Some y)
    with AddTx_split [OF add [unfolded \<open>otx = Some tx\<close>]] inv show ?thesis by auto
  qed
qed (simp add: AddTx_def)

text \<open>The notifications and the selection leave the pool as it is.\<close>

definition same_pool :: "TxCache \<Rightarrow> TxCache \<Rightarrow> bool" where
  "same_pool c c' \<longleftrightarrow> cache_inv c' \<and> pools c' = pools c \<and> txByHash c' = txByHash c \<and> config c' = config c \<and> host c' = host c"

lemma same_pool_refl: "cache_inv c \<Longrightarrow> same_pool c c"
  by (simp add: same_pool_def)

lemma keeps_same_pool: "tcache.keeps c c' \<Longrightarrow> same_pool c (c'\<lparr>tracker := st\<rparr>)"
  by (simp add: tcache.keeps_def same_pool_def cache_view_def)

lemma propose_same_pool: "cache_inv c \<Longrightarrow> cache_OnProposedBlock c hash body header prov executed = (err, c') \<Longrightarrow> same_pool c c'"
  by (auto simp: cache_OnProposedBlock_def split: prod.splits intro: keeps_same_pool dest!: tcache.OnProposedBlock_keeps)

lemma backfill_same_pool: "cache_inv c \<Longrightarrow> cache_OnBackfilledBlock c hash body header = (err, c') \<Longrightarrow> same_pool c c'"
  by (auto simp: cache_OnBackfilledBlock_def split: prod.splits intro: keeps_same_pool dest!: tcache.OnBackfilledBlock_keeps)

lemma execute_same_pool: "cache_inv c \<Longrightarrow> cache_OnExecutedBlock c header rootHash = (err, c') \<Longrightarrow> same_pool c c'"
  by (auto simp: cache_OnExecutedBlock_def same_pool_def split: prod.splits)

lemma reset_same_pool: "cache_inv c \<Longrightarrow> same_pool c (cache_ResetTracker c)"
  by (auto simp: cache_ResetTracker_def split: prod.splits intro: keeps_same_pool dest!: tcache.ResetTrackedBlocks_keeps)

lemma select_same_pool:
  "cache_inv c \<Longrightarrow> selectTransactions ext now c session options nonce sim = (r, c') \<Longrightarrow> same_pool c c'"
  by (cases session) (auto simp: selectTransactions_def Let_def
      split: prod.splits sum.splits intro: same_pool_refl keeps_same_pool dest!: tcache.derive_keeps [rotated])

lemma same_pool_inv: "same_pool c c' \<Longrightarrow> cache_inv c'"
  by (simp add: same_pool_def)

lemmas step_inv = AddTx_inv RemoveTxByHash_result(1) same_pool_inv [OF propose_same_pool]
  same_pool_inv [OF backfill_same_pool] same_pool_inv [OF execute_same_pool] same_pool_inv [OF select_same_pool]

lemma cache_step_inv:
  assumes "cache_step ext c c'" "cache_inv c" "permuting ext"
  shows "cache_inv c'"
  using assms(1)
proof cases
  case clear
  with Clear_result(1) [OF assms(2)] show ?thesis by simp
next
  case reset
  with reset_same_pool [OF assms(2)] show ?thesis by (simp add: same_pool_def)
next
  case (cleanup g late r m n)
  with Cleanup_result [OF assms(2,3)] show ?thesis by blast
qed (rule step_inv [OF assms(2)], assumption)+

lemma cache_reach_inv: "cache_reach ext c \<Longrightarrow> permuting ext \<Longrightarrow> cache_inv c"
  by (induction rule: cache_reach.induct) (auto intro: cache_inv_new cache_step_inv)

section \<open>A sample cache\<close>

text \<open>Go's \<open>sort.Slice\<close> is an insertion sort on a slice of at most twelve elements.\<close>

fun insert_left :: "(bytes list \<Rightarrow> nat \<Rightarrow> nat \<Rightarrow> bool) \<Rightarrow> nat \<Rightarrow> bytes list \<Rightarrow> bytes list" where
  "insert_left lt 0 xs = xs"
| "insert_left lt (Suc j) xs = (if lt xs (Suc j) j then insert_left lt j (swap xs (Suc j) j) else xs)"

definition insertionSort_func :: "(bytes list \<Rightarrow> nat \<Rightarrow> nat \<Rightarrow> bool) \<Rightarrow> bytes list \<Rightarrow> bytes list" where
  "insertionSort_func lt xs = foldl (\<lambda>xs i. insert_left lt i xs) xs [1..<length xs]"

lemma mset_insert_left: "j < length xs \<Longrightarrow> mset (insert_left lt j xs) = mset xs"
  by (induction lt j xs rule: insert_left.induct) (simp_all add: mset_swap_list)

lemma mset_insertionSort_func: "mset (insertionSort_func lt xs) = mset xs"
proof -
  have "mset (foldl (\<lambda>xs i. insert_left lt i xs) ys idx) = mset ys" if "\<forall>i \<in> set idx. i < length ys" for ys idx
    using that
  proof (induction idx arbitrary: ys)
    case (Cons i idx)
    then have m: "mset (insert_left lt i ys) = mset ys" by (simp add: mset_insert_left)
    then have "length (insert_left lt i ys) = length ys" by (metis size_mset)
    with Cons m show ?case by simp
  qed simp
  then show ?thesis by (simp add: insertionSort_func_def)
qed

definition sample_ext :: externals where
  "sample_ext = \<lparr>GetUint64 = word_of_int, ComputeHash = rev, BuiltInFunctionSetGuardian = [],
     SortByIndex = insertionSort_func\<rparr>"

lemma sample_ext_permuting: "permuting sample_ext"
  by (simp add: permuting_def sample_ext_def mset_insertionSort_func)

definition sample_config :: ConfigSourceMe where
  "sample_config =
     \<lparr>Name = [1], NumChunks = 2, EvictionEnabled = True, NumBytesThreshold = 1000, NumBytesPerSenderThreshold = 1000,
      CountThreshold = 4, CountPerSenderThreshold = 2, NumItemsToPreemptivelyEvict = 1,
      BoundsConfig = \<lparr>MaxNumBytesPerSenderUpperBound = 1000, MaxTrackedBlocks = 5, PropagationGracePeriodMs = 0\<rparr>\<rparr>"

definition sample_host :: MempoolHost where
  "sample_host = \<lparr>ComputeTxFee = (\<lambda>tx. uint (GetGasPrice tx) * uint (GetGasLimit tx)), GetTransferredValue = (\<lambda>_. Some 7)\<rparr>"

definition sample_add :: "TxCache \<Rightarrow> WrappedTransaction \<Rightarrow> TxCache" where
  "sample_add c tx = snd (AddTx sample_ext 0 c (Some tx))"

definition sample_empty :: TxCache where
  "sample_empty = projr (NewTxCache sample_config (Some sample_host) 0)"

definition sample_cache :: TxCache where
  "sample_cache = foldl sample_add sample_empty [sample_tx 1 5 3, sample_tx 2 0 9, sample_tx 1 6 2]"

lemma sample_empty_new: "NewTxCache sample_config (Some sample_host) 0 = Inr sample_empty"
  by (simp add: sample_empty_def NewTxCache_def source_verify_def sample_config_def NewSelectionTracker_def config_bounds_defs)

lemma sample_add_reach: "cache_reach sample_ext c \<Longrightarrow> cache_reach sample_ext (sample_add c tx)"
  unfolding sample_add_def by (rule cache_reach.step [OF _ cache_step.add [OF surjective_pairing]])

lemma sample_reach: "cache_reach sample_ext sample_cache"
  by (simp add: sample_cache_def sample_add_reach cache_reach.new [OF sample_empty_new])

lemma sample_inv: "cache_inv sample_cache"
  by (rule cache_reach_inv [OF sample_reach sample_ext_permuting])

section \<open>Properties\<close>

text \<open>A transaction that is found by its hash and is not in the list of its sender.\<close>

definition unlisted :: "TxCache \<Rightarrow> WrappedTransaction set" where
  "unlisted c = {tx. cache_GetByTxHash c (TxHash tx) = Some tx \<and> tx \<notin> set (GetTransactionsPoolForSender c (senderOf tx))}"

lemma unlisted_conv: "unlisted c = {tx. getTx (txByHash c) (TxHash tx) = Some tx \<and> tx \<notin> listed c}"
  by (simp add: unlisted_def listed_def cache_GetByTxHash_def GetTransactionsPoolForSender_def pool_def getTxs_def
      getAll_def split: option.splits)

text \<open>An eviction cuts the list of a sender at the lowest evicted nonce. Whatever else is cut there, and every
  transaction an operation unlists without removing it from the hash index, has been cut this way.\<close>

definition cut_by_eviction :: "TxCache \<Rightarrow> TxCache \<Rightarrow> WrappedTransaction \<Rightarrow> bool" where
  "cut_by_eviction c c' tx \<longleftrightarrow> EvictionEnabled (config c) \<and>
     (\<exists>evicted \<in> listed c. cache_GetByTxHash c' (TxHash evicted) = None \<and> senderOf evicted = senderOf tx \<and>
        nonceOf evicted \<le> nonceOf tx)"

lemma AddTx_unlisted:
  assumes inv: "cache_inv c" and add: "AddTx ext now c (Some tx) = (res, c')" and t: "t \<in> unlisted c'"
  shows "t \<in> unlisted c \<or> cut_by_eviction c c' t"
proof (cases "getTx (txByHash c) (TxHash tx)")
  case (Some y)
  with AddTx_split [OF add] t show ?thesis by simp
next
  case None
  from AddTx_cache_result [OF inv None add] obtain E c1 R where ev: "evicted_from c E c1"
    and E: "set E \<subseteq> {t \<in> listed c. \<not> tracked c t}" "EvictionEnabled (config c) \<or> E = []"
    and ad: "added_to c1 (wrapped c now tx) R c'" by blast
  let ?w = "wrapped c now tx"
  have pools: "pools c' = (pools c1)(senderOf ?w := pools c' (senderOf ?w))"
    "add_mset ?w (mset (pools c1 (senderOf ?w))) = mset (pools c' (senderOf ?w)) + mset R"
    and hash: "getTx (txByHash c') = (getTx (txByHash c1))(TxHash ?w \<mapsto> ?w) |` (- TxHash ` set R)"
    using ad by (simp_all add: added_to_def)
  have found: "getTx (txByHash c') (TxHash t) = Some t" and not: "t \<notin> listed c'" using t by (simp_all add: unlisted_conv)
  have "TxHash t \<notin> TxHash ` set R" by (rule ccontr) (use found in \<open>simp add: hash restrict_map_def\<close>)
  then have R: "t \<notin> set R" by blast
  have members: "insert ?w (set (pools c1 (senderOf ?w))) = set (pools c' (senderOf ?w)) \<union> set R"
    using arg_cong [OF pools(2), of set_mset] by simp
  have "t \<noteq> ?w"
  proof
    assume "t = ?w"
    with R members have "t \<in> set (pools c' (senderOf t))" by blast
    with not show False by (simp add: listed_def)
  qed
  then have c1: "getTx (txByHash c1) (TxHash t) = Some t" "t \<notin> listed c1"
    using found not R members fun_cong [OF pools(1), of "senderOf t"]
    by (auto simp: hash restrict_map_def listed_def split: if_splits)
  have gone: "cache_GetByTxHash c' (TxHash e) = None" if "e \<in> set E" for e
  proof -
    have "getTx (txByHash c) (TxHash e) = Some e" using inv E(1) that by (auto simp: cache_inv_def indexed_def listed_def)
    then have "TxHash e \<noteq> TxHash ?w" using None by auto
    then show ?thesis using that ev by (simp add: cache_GetByTxHash_def hash evicted_from_def restrict_map_def)
  qed
  show ?thesis
  proof (cases "t \<in> listed c")
    case True
    with c1(2) ev obtain e where "e \<in> set E" "senderOf e = senderOf t" "nonceOf e \<le> nonceOf t"
      by (auto simp: evicted_from_def listed_def not_less)
    with gone E show ?thesis by (auto simp: cut_by_eviction_def)
  next
    case False
    with c1(1) ev show ?thesis by (auto simp: unlisted_conv evicted_from_def restrict_map_def split: if_splits)
  qed
qed

lemma RemoveTxByHash_unlisted:
  assumes "cache_inv c" "RemoveTxByHash c h = (found, c')"
  shows "unlisted c' \<subseteq> unlisted c"
proof (cases "getTx (txByHash c) h")
  case None
  with RemoveTxByHash_result(4) [OF assms] show ?thesis by (simp add: unlisted_conv listed_def)
next
  case (Some tx)
  from RemoveTxByHash_result(3) [OF assms Some] show ?thesis
    by (auto simp: unlisted_conv listed_def restrict_map_def split: if_splits)
qed

lemma Cleanup_unlisted:
  assumes "cache_inv c" "permuting ext" "Cleanup ext g late randomness maxNum c = (n, c')"
  shows "unlisted c' \<subseteq> unlisted c"
  using Cleanup_result [OF assms] by (auto simp: unlisted_conv listed_def restrict_map_def split: if_splits)

lemma same_pool_unlisted: "same_pool c c' \<Longrightarrow> unlisted c' \<subseteq> unlisted c"
  by (simp add: same_pool_def unlisted_conv listed_def)

lemmas step_unlisted = same_pool_unlisted [OF propose_same_pool] same_pool_unlisted [OF backfill_same_pool]
  same_pool_unlisted [OF execute_same_pool] same_pool_unlisted [OF select_same_pool]

lemma cache_step_unlisted:
  assumes "cache_step ext c c'" "cache_inv c" "permuting ext" "t \<in> unlisted c'"
  shows "t \<in> unlisted c \<or> cut_by_eviction c c' t"
  using assms(1)
proof cases
  case (add now tx res)
  then show ?thesis
  proof (cases tx)
    case (Some x)
    from AddTx_unlisted [OF assms(2) add [unfolded Some] assms(4)] show ?thesis .
  qed (use assms(4) in \<open>simp add: AddTx_def\<close>)
next
  case clear
  with Clear_result(3) [OF assms(2)] assms(4) show ?thesis by (simp add: unlisted_conv)
next
  case reset
  with same_pool_unlisted [OF reset_same_pool [OF assms(2)]] assms(4) show ?thesis by blast
qed (use assms(4) in \<open>auto dest!: RemoveTxByHash_unlisted [OF assms(2)] Cleanup_unlisted [OF assms(2,3)]
      step_unlisted [OF assms(2)]\<close>)

text \<open>
  C2: in every cache reached from a new one by its operations (additions, removals, evictions, sweeps,
  clearing, selections and the notifications about blocks), the transactions of a sender are strictly
  ordered (by nonce, then gas price, then hash), belong to the sender, and are found by their hash; the
  hash index is keyed by the hash; and the two counters are the numbers of transactions and senders. The
  other direction is not an invariant, and what breaks it is exactly this: an operation leaves a transaction
  in the hash index that is not (or no longer) listed under its sender only if that was so before, or if it
  evicts a transaction of the same sender with a nonce that is not higher, and the eviction is enabled.
\<close>

theorem cache_consistent:
  assumes "cache_reach ext c" and "permuting ext"
  shows "(\<forall>s. ordered (GetTransactionsPoolForSender c s) \<and>
      (\<forall>tx \<in> set (GetTransactionsPoolForSender c s). senderOf tx = s \<and> cache_GetByTxHash c (TxHash tx) = Some tx)) \<and>
    (\<forall>h tx. cache_GetByTxHash c h = Some tx \<longrightarrow> TxHash tx = h) \<and>
    bh_counter (txByHash c) = int (card (dom (cache_GetByTxHash c))) \<and>
    bs_counter (txListBySender c) = int (card (dom (getListForSender (txListBySender c)))) \<and>
    (\<forall>c'. cache_step ext c c' \<longrightarrow> (\<forall>tx \<in> unlisted c'. tx \<in> unlisted c \<or> cut_by_eviction c c' tx))"
proof -
  have inv: "cache_inv c" using cache_reach_inv assms .
  then have bs: "bs_inv (txListBySender c)" by (simp add: cache_inv_def)
  have p: "GetTransactionsPoolForSender c s = pools c s" for s
    by (simp add: GetTransactionsPoolForSender_def pool_def getTxs_def getAll_def split: option.splits)
  have g: "cache_GetByTxHash c = getTx (txByHash c)" by (simp add: cache_GetByTxHash_def fun_eq_iff)
  have "bh_counter (txByHash c) = int (card (dom (getTx (txByHash c))))"
    using inv cm.length_entries_card [of "bh_backingMap (txByHash c)"] by (simp add: cache_inv_def bh_inv_def getTx_conv)
  moreover have "bs_counter (txListBySender c) = int (card (dom (getListForSender (txListBySender c))))"
    using bs cm.length_entries_card [of "bs_backingMap (txListBySender c)"] by (simp add: bs_inv_def getListForSender_conv)
  moreover have "\<forall>tx \<in> unlisted c'. tx \<in> unlisted c \<or> cut_by_eviction c c' tx" if "cache_step ext c c'" for c'
    using cache_step_unlisted [OF that inv assms(2)] by blast
  ultimately show ?thesis
    using inv pool_ordered [OF bs] pool_sender [OF bs] by (auto simp: p g cache_inv_def bh_inv_def indexed_def)
qed

theorem cache_consistent_witness:
  "senderOf (wrapped sample_empty 0 (sample_tx 1 6 2)) = [1] \<and>
   bh_counter (txByHash sample_cache) = int (card (dom (cache_GetByTxHash sample_cache)))"
proof -
  have "wrapped sample_empty 0 (sample_tx 1 6 2) \<in> set (GetTransactionsPoolForSender sample_cache [1])" by code_simp
  with cache_consistent [OF sample_reach sample_ext_permuting] show ?thesis by blast
qed

text \<open>
  C32: adding a transaction. One whose hash is known is ignored and nothing changes. Otherwise it is
  added to both indexes, with its fee and fee payer computed and its arrival stamped, after an eviction
  of untracked transactions when enabled; the size constraints of its sender may remove untracked
  transactions \<open>R\<close> again (also the new one), from both indexes, until they hold or all that is left is
  tracked. No other sender loses anything to them.
\<close>

theorem cache_AddTx:
  assumes "cache_inv c" and "AddTx ext now c (Some tx) = ((ok, added), c')"
  shows "ok \<and> cache_inv c' \<and> (added \<longleftrightarrow> cache_GetByTxHash c (TxHash tx) = None) \<and> (\<not> added \<longrightarrow> c' = c) \<and>
    (added \<longrightarrow> (\<exists>E c1 R. evicted_from c E c1 \<and> set E \<subseteq> {t \<in> listed c. \<not> tracked c t} \<and>
       (EvictionEnabled (config c) \<or> E = []) \<and> added_to c1 (wrapped c now tx) R c'))"
proof (cases "getTx (txByHash c) (TxHash tx)")
  case None
  from AddTx_cache_result [OF assms(1) None assms(2)] None show ?thesis by (auto simp: cache_GetByTxHash_def)
next
  case (Some y)
  with AddTx_split [OF assms(2)] assms(1) show ?thesis by (auto simp: cache_GetByTxHash_def)
qed

theorem cache_AddTx_witness:
  "cache_inv (snd (AddTx sample_ext 0 sample_cache (Some (sample_tx 1 7 2)))) \<and>
   fst (AddTx sample_ext 0 sample_cache (Some (sample_tx 1 7 2))) = (True, True) \<and>
   fst (AddTx sample_ext 0 sample_cache (Some (sample_tx 1 6 2))) = (True, False)"
proof -
  have "fst (AddTx sample_ext 0 sample_cache (Some (sample_tx 1 7 2))) = (True, True)"
    "fst (AddTx sample_ext 0 sample_cache (Some (sample_tx 1 6 2))) = (True, False)" by code_simp+
  moreover from this(1) have "AddTx sample_ext 0 sample_cache (Some (sample_tx 1 7 2)) =
      ((True, True), snd (AddTx sample_ext 0 sample_cache (Some (sample_tx 1 7 2))))" by (metis prod.collapse)
  ultimately show ?thesis using cache_AddTx [OF sample_inv] by blast
qed

text \<open>
  Removing a transaction by hash (it was executed) also removes the transactions of its sender with
  a lower or the same nonce, from both indexes, and nothing else; an unknown hash changes nothing.
\<close>

theorem cache_RemoveTxByHash:
  assumes "cache_inv c" and "RemoveTxByHash c h = (found, c')"
  shows "cache_inv c' \<and> (found \<longleftrightarrow> cache_Has c h) \<and>
    (case cache_GetByTxHash c h of
       None \<Rightarrow> pools c' = pools c \<and> cache_GetByTxHash c' = cache_GetByTxHash c
     | Some tx \<Rightarrow>
         pools c' = (pools c)(senderOf tx := filter (\<lambda>t. nonceOf tx < nonceOf t) (pools c (senderOf tx))) \<and>
         cache_GetByTxHash c' = cache_GetByTxHash c |`
           (- insert h (TxHash ` {t \<in> set (pools c (senderOf tx)). nonceOf t \<le> nonceOf tx})))"
proof -
  have "cache_GetByTxHash d = getTx (txByHash d)" for d by (simp add: cache_GetByTxHash_def fun_eq_iff)
  with RemoveTxByHash_result [OF assms] show ?thesis by (simp add: cache_Has_def split: option.split)
qed

theorem cache_RemoveTxByHash_witness:
  "fst (RemoveTxByHash sample_cache [1, 6]) \<and> pools (snd (RemoveTxByHash sample_cache [1, 6])) [1] = []"
proof -
  have g: "cache_GetByTxHash sample_cache [1, 6] = Some (wrapped sample_empty 0 (sample_tx 1 6 2))" by code_simp
  have "filter (\<lambda>t. 6 < nonceOf t) (pools sample_cache [1]) = []" by code_simp
  moreover have "senderOf (wrapped sample_empty 0 (sample_tx 1 6 2)) = [1]" "nonceOf (wrapped sample_empty 0 (sample_tx 1 6 2)) = 6"
    by (simp_all add: sample_tx_def)
  ultimately show ?thesis
    using cache_RemoveTxByHash [OF sample_inv surjective_pairing, of "[1, 6]"] g by (simp add: cache_Has_def)
qed

text \<open>
  C33: an eviction removes a set of listed, untracked transactions from the hash index, as many as its
  journal says, and cuts the list of each sender just below the lowest nonce evicted for it; the
  indexes stay consistent and the transactions of other senders stay.
\<close>

theorem cache_eviction:
  assumes "cache_inv c" and "doEviction ext c = (Some journal, c')"
  shows "\<exists>E. length E = numEvicted journal \<and> set E \<subseteq> {tx \<in> listed c. \<not> tracked c tx} \<and> cache_inv c' \<and>
    pools c' = (\<lambda>s. filter (\<lambda>t. \<forall>e \<in> set E. senderOf e = s \<longrightarrow> nonceOf t < nonceOf e) (pools c s)) \<and>
    cache_GetByTxHash c' = cache_GetByTxHash c |` (- TxHash ` set E) \<and> \<not> isEvictionInProgress c'"
proof -
  have g: "cache_GetByTxHash d = getTx (txByHash d)" for d by (simp add: cache_GetByTxHash_def fun_eq_iff)
  have "\<not> isEvictionInProgress c" using assms(2) by (auto simp: doEviction_def)
  with doEviction_result [OF assms] show ?thesis unfolding g by (fastforce simp: evicted_from_def)
qed

definition sample_full :: TxCache where
  "sample_full = sample_cache\<lparr>config := sample_config\<lparr>CountThreshold := 1\<rparr>\<rparr>"

theorem cache_eviction_witness:
  "\<exists>journal c'. doEviction sample_ext sample_full = (Some journal, c') \<and> cache_inv c' \<and>
     (\<exists>E. length E = numEvicted journal \<and> set E \<subseteq> {tx \<in> listed sample_full. \<not> tracked sample_full tx})"
proof -
  have "cache_inv sample_full" using sample_inv by (simp add: sample_full_def cache_inv_def)
  moreover have "fst (doEviction sample_ext sample_full) \<noteq> None" by code_simp
  then obtain j where "doEviction sample_ext sample_full = (Some j, snd (doEviction sample_ext sample_full))"
    by (metis not_None_eq prod.collapse)
  ultimately show ?thesis using cache_eviction by blast
qed

text \<open>
  A cleanup removes exactly the transactions it counts, from both indexes; each was listed, below
  the nonce its account has (the provider answers for it), and not part of a tracked block.
\<close>

theorem cache_cleanup:
  assumes "cache_inv c" and "permuting ext" and "Cleanup ext g late randomness maxNum c = (n, c')"
  shows "\<exists>R. n = of_nat (length R) \<and> cache_inv c' \<and>
    (\<forall>t \<in> set R. t \<in> listed c \<and> \<not> tracked c t \<and> (\<exists>k. g (senderOf t) = Inr k \<and> nonceOf t < k)) \<and>
    pools c' = (\<lambda>s. filter (\<lambda>t. t \<notin> set R) (pools c s)) \<and>
    cache_GetByTxHash c' = cache_GetByTxHash c |` (- TxHash ` set R)"
proof -
  have g: "cache_GetByTxHash d = getTx (txByHash d)" for d by (simp add: cache_GetByTxHash_def fun_eq_iff)
  from Cleanup_result [OF assms] show ?thesis unfolding g sweepable_def by blast
qed

theorem cache_cleanup_witness:
  "\<exists>R c'. Cleanup sample_ext (\<lambda>_. Inr 6) (\<lambda>_. False) 3 100 sample_cache = (2, c') \<and> cache_inv c' \<and>
     2 = (of_nat (length R) :: u64) \<and> (\<forall>t \<in> set R. t \<in> listed sample_cache \<and> nonceOf t < 6)"
proof -
  have "fst (Cleanup sample_ext (\<lambda>_. Inr 6) (\<lambda>_. False) 3 100 sample_cache) = 2" by code_simp
  then obtain c' where "Cleanup sample_ext (\<lambda>_. Inr 6) (\<lambda>_. False) 3 100 sample_cache = (2, c')" by (metis prod.collapse)
  from cache_cleanup [OF sample_inv sample_ext_permuting this] this show ?thesis by auto
qed

text \<open>
  The notifications about blocks and the selection never add or lose a transaction: the lists of
  the senders, the hash index and the consistency of the cache stay, whatever the outcome.
\<close>

theorem cache_notifications:
  assumes "cache_inv c"
    and "cache_OnProposedBlock c hash body header prov executed = (err, c') \<or>
      cache_OnBackfilledBlock c hash body header = (err, c') \<or> cache_OnExecutedBlock c header rootHash = (err, c') \<or>
      cache_ResetTracker c = c' \<or> selectTransactions ext now c session options nonce isSimulation = (r, c')"
  shows "cache_inv c' \<and> pools c' = pools c \<and> txByHash c' = txByHash c"
proof -
  have "same_pool c c'"
    using assms(2) propose_same_pool [OF assms(1)] backfill_same_pool [OF assms(1)] execute_same_pool [OF assms(1)]
      reset_same_pool [OF assms(1)] select_same_pool [OF assms(1)] by (elim disjE) simp_all
  then show ?thesis by (simp add: same_pool_def)
qed

definition sample_state :: AccountNonceAndBalanceProvider where
  "sample_state = \<lparr>prov_GetRootHash = Inr None,
     prov_GetAccountNonceAndBalance = GetAccountNonceAndBalance sample_session\<rparr>"

definition sample_propose :: "txcache_error option \<times> TxCache" where
  "sample_propose = cache_OnProposedBlock sample_cache (Some [7])
     (BlockBody (Some \<lparr>MiniBlocks = [\<lparr>mb_Type = TxBlock, mb_SenderShardID = 0, mb_TxHashes = [[1, 5]]\<rparr>]\<rparr>))
     (Some \<lparr>hdr_GetNonce = 1, hdr_GetPrevHash = Some [8], hdr_numExecutionResults = 0\<rparr>) (Some sample_state) (Some [8])"

theorem cache_notifications_witness:
  "fst sample_propose = None \<and> length (blocks (tracker (snd sample_propose))) = 1 \<and>
   cache_inv (snd sample_propose) \<and> pools (snd sample_propose) = pools sample_cache"
proof -
  have "fst sample_propose = None" "length (blocks (tracker (snd sample_propose))) = 1" by code_simp+
  with cache_notifications [OF sample_inv, of "Some [7]"
    "BlockBody (Some \<lparr>MiniBlocks = [\<lparr>mb_Type = TxBlock, mb_SenderShardID = 0, mb_TxHashes = [[1, 5]]\<rparr>]\<rparr>)"
    "Some \<lparr>hdr_GetNonce = 1, hdr_GetPrevHash = Some [8], hdr_numExecutionResults = 0\<rparr>" "Some sample_state" "Some [8]"
    "fst sample_propose" "snd sample_propose"]
  show ?thesis by (simp add: sample_propose_def)
qed

section \<open>Selection from the cache\<close>

lemma acquired_bunch:
  assumes "bs_inv (txListBySender c)" "b \<in> set (acquireBunchesOfTransactions c)"
  obtains l where "l \<in> set (getSenders (txListBySender c))" "b = visible l" "b \<noteq> []" "sl_inv l"
    "set b \<subseteq> set (pools c (sender l))" "\<forall>t \<in> set b. senderOf t = sender l"
proof -
  from assms(2) obtain l where l: "l \<in> set (getSenders (txListBySender c))" "b = getTxsForSelection l" "b \<noteq> []"
    by (auto simp: acquireBunchesOfTransactions_def)
  note g = getSenders_pool [OF assms(1) l(1)]
  have b: "b = visible l" using l(2) visible_selection [OF g(1)] by simp
  then have "set b \<subseteq> set (txs_of l)" by (auto simp: visible_def dest: in_set_dropD)
  with g b l show thesis by (intro that [of l]) auto
qed

lemma acquired_wf:
  assumes "cache_inv c"
  shows "wf_bunches (acquireBunchesOfTransactions c)" "\<Union> (set ` set (acquireBunchesOfTransactions c)) \<subseteq> listed c"
proof -
  have bs: "bs_inv (txListBySender c)" using assms by (simp add: cache_inv_def)
  let ?L = "getSenders (txListBySender c)"
  have hd: "senderOf (hd (getTxsForSelection l)) = sender l" if "l \<in> set ?L" "getTxsForSelection l \<noteq> []" for l
  proof -
    note g = getSenders_pool [OF bs that(1)]
    have "hd (getTxsForSelection l) \<in> set (txs_of l)"
      using hd_in_set [OF that(2)] visible_selection [OF g(1)] unfolding visible_def by (metis in_set_dropD)
    then show ?thesis by (rule g(3))
  qed
  have "map (senderOf \<circ> hd) (acquireBunchesOfTransactions c) = map sender (filter (\<lambda>l. getTxsForSelection l \<noteq> []) ?L)"
    using hd by (auto simp: acquireBunchesOfTransactions_def filter_map comp_def)
  then have "distinct (map (senderOf \<circ> hd) (acquireBunchesOfTransactions c))"
    using distinct_map_filter [OF distinct_getSenders [OF bs]] by simp
  moreover have "sorted (map nonceOf b) \<and> (\<forall>t \<in> set b. senderOf t = senderOf (hd b)) \<and> set b \<subseteq> listed c"
    if "b \<in> set (acquireBunchesOfTransactions c)" for b
  proof -
    from acquired_bunch [OF bs that] obtain l where l: "l \<in> set ?L" "b = visible l" "b \<noteq> []" "sl_inv l"
      "set b \<subseteq> set (pools c (sender l))" "\<forall>t \<in> set b. senderOf t = sender l" .
    have "sorted (map nonceOf (txs_of l))" using l(4) by (simp add: sl_inv_def ordered_nonces)
    then have "sorted (map nonceOf b)" by (simp add: l(2) visible_def drop_map [symmetric] sorted_wrt_drop)
    with l(3,5,6) show ?thesis by (auto simp: listed_def)
  qed
  ultimately show "wf_bunches (acquireBunchesOfTransactions c)" "\<Union> (set ` set (acquireBunchesOfTransactions c)) \<subseteq> listed c"
    by (auto simp: wf_bunches_def intro: distinct_map_filter)
qed

lemma selection_of_cache:
  assumes "cache_inv c" and "SelectTransactions ext now c (Some session) options nonce = (Inr (Some (sel, gas)), c')"
  shows "\<exists>vs. fst (deriveVirtualSelectionSession cache_ops (tracker c) c session nonce False) = Inr vs \<and>
    set sel \<subseteq> listed c \<and> gas = of_nat (\<Sum>tx \<leftarrow> sel. unat (GetGasLimit (Tx tx))) \<and> gas \<le> gasRequested options \<and>
    ((\<forall>tx \<in> listed c. unat (gasRequested options) + unat (GetGasLimit (Tx tx)) < 2 ^ 64) \<longrightarrow>
      (\<Sum>tx \<leftarrow> sel. unat (GetGasLimit (Tx tx))) \<le> unat (gasRequested options)) \<and>
    int (length sel) \<le> max 0 (opt_maxNumTxs options) \<and> funded vs sel \<and> in_sequence vs sel \<and> pools c' = pools c"
proof -
  obtain r st c1 where d: "deriveVirtualSelectionSession cache_ops (tracker c) c session nonce False = (r, st, c1)"
    by (metis prod_cases3)
  then obtain vs where vs: "r = Inr vs" and c': "c' = c1\<lparr>tracker := st\<rparr>"
    and s: "doSelectTransactions ext now c' vs options = Some (sel, gas)"
    using assms(2) by (cases r) (auto simp: SelectTransactions_def selectTransactions_def Let_def)
  have same: "same_pool c c'" using tcache.derive_keeps [OF assms(1) d] by (simp add: c' keeps_same_pool)
  then have inv: "cache_inv c'" by (rule same_pool_inv)
  note res = selected_result [OF acquired_wf(1) [OF inv] s [unfolded doSelectTransactions_def]]
  have "listed c' = listed c" using same by (simp add: same_pool_def listed_def)
  then have "set sel \<subseteq> listed c" using res(3) acquired_wf(2) [OF inv] unfolding in_budget_def by blast
  moreover have gas: "gas = of_nat (\<Sum>tx \<leftarrow> sel. unat (GetGasLimit (Tx tx)))" "gas \<le> gasRequested options"
    "int (length sel) \<le> max 0 (opt_maxNumTxs options)"
    using res(3) unfolding in_budget_def gas_of_def by blast+
  moreover have "(\<Sum>tx \<leftarrow> sel. unat (GetGasLimit (Tx tx))) \<le> unat (gasRequested options)"
    if "\<forall>tx \<in> listed c. unat (gasRequested options) + unat (GetGasLimit (Tx tx)) < 2 ^ 64"
  proof -
    have "\<forall>b \<in> set (acquireBunchesOfTransactions c'). \<forall>tx \<in> set b. unat (gasRequested options) + unat (GetGasLimit (Tx tx)) < 2 ^ 64"
      using that acquired_wf(2) [OF inv] \<open>listed c' = listed c\<close> by blast
    then have "unat gas = (\<Sum>tx \<leftarrow> sel. unat (GetGasLimit (Tx tx)))"
      using res(3) unfolding in_budget_def gas_of_def by blast
    with gas(2) show ?thesis unfolding word_le_nat_alt by simp
  qed
  ultimately show ?thesis using res(1,2) same d vs by (simp add: same_pool_def)
qed

text \<open>
  C8: what a selection from the cache returns. The session is derived from the tracked blocks; the
  selected transactions are listed in the cache; the returned gas is the sum of their gas limits (modulo
  2^64) and within the requested gas, and so is the true sum when no listed gas limit overflows with the
  requested gas; at most the requested number is selected; no sender and no fee payer is taken beyond its
  balance after the tracked blocks; each sender continues, without gap or duplicate, the nonce the derived
  session holds. The pool is unchanged.
\<close>

theorem cache_selection:
  assumes "cache_inv c" and "SelectTransactions ext now c (Some session) options nonce = (Inr (Some (sel, gas)), c')"
  shows "\<exists>vs. fst (deriveVirtualSelectionSession cache_ops (tracker c) c session nonce False) = Inr vs \<and>
    set sel \<subseteq> listed c \<and> gas = of_nat (\<Sum>tx \<leftarrow> sel. unat (GetGasLimit (Tx tx))) \<and> gas \<le> gasRequested options \<and>
    ((\<forall>tx \<in> listed c. unat (gasRequested options) + unat (GetGasLimit (Tx tx)) < 2 ^ 64) \<longrightarrow>
      (\<Sum>tx \<leftarrow> sel. unat (GetGasLimit (Tx tx))) \<le> unat (gasRequested options)) \<and>
    int (length sel) \<le> max 0 (opt_maxNumTxs options) \<and> funded vs sel \<and> in_sequence vs sel \<and> pools c' = pools c"
  using selection_of_cache [OF assms] .

theorem cache_selection_witness:
  "\<exists>sel c'. SelectTransactions sample_ext 1 sample_cache (Some sample_session) sample_options 1 = (Inr (Some (sel, 150)), c') \<and>
     set sel \<subseteq> listed sample_cache \<and> length sel = 3 \<and> 150 = (of_nat (\<Sum>tx \<leftarrow> sel. unat (GetGasLimit (Tx tx))) :: u64)"
proof -
  let ?r = "SelectTransactions sample_ext 1 sample_cache (Some sample_session) sample_options 1"
  have "(case fst ?r of Inr (Some (sel, gas)) \<Rightarrow> gas = 150 \<and> length sel = 3 | _ \<Rightarrow> False)" by code_simp
  then obtain sel where "fst ?r = Inr (Some (sel, 150))" "length sel = 3"
    by (auto split: sum.splits option.splits)
  moreover from this(1) have "?r = (Inr (Some (sel, 150)), snd ?r)" by (metis prod.collapse)
  ultimately show ?thesis using cache_selection [OF sample_inv] by blast
qed

section \<open>Deviations\<close>

text \<open>
  The byte counter of a cache is the total size of its transactions plus a constant that every
  operation but \<open>Clear\<close> keeps; \<open>Clear\<close> empties both indexes and leaves the whole byte count behind as that
  constant, so an emptied cache can still exceed its byte threshold.
\<close>

theorem clear_keeps_bytes:
  assumes "cache_inv c"
  shows "cache_GetByTxHash (cache_Clear c) = Map.empty \<and> pools (cache_Clear c) = (\<lambda>s. []) \<and>
    numBytes (txByHash (cache_Clear c)) = numBytes (txByHash c) \<and>
    areThereTooManyBytes ext (cache_Clear c) = areThereTooManyBytes ext c"
proof -
  have "cache_GetByTxHash d = getTx (txByHash d)" for d by (simp add: cache_GetByTxHash_def fun_eq_iff)
  with Clear_result(2,3) [OF assms] show ?thesis
    by (simp add: cache_Clear_def bh_clear_def areThereTooManyBytes_def NumBytes_def)
qed

theorem clear_keeps_bytes_witness:
  "cache_GetByTxHash (cache_Clear sample_cache) = Map.empty \<and> numBytes (txByHash (cache_Clear sample_cache)) = 300"
proof -
  have "numBytes (txByHash sample_cache) = 300" by code_simp
  with clear_keeps_bytes [OF sample_inv] show ?thesis by simp
qed

text \<open>The heap an eviction starts with: the list of every sender, the highest nonce first.\<close>

abbreviation eviction_start :: "TxCache \<Rightarrow> transactionsHeapItem list" where
  "eviction_start c \<equiv> push_bunches minHeapLess [] (map getTxsReversed (getSenders (txListBySender c)))"

lemma push_bunches_heap:
  "minheap.is_heap h \<Longrightarrow> minheap.is_heap (push_bunches minHeapLess h bs)"
  by (induction bs arbitrary: h) (auto split: sum.split intro: minheap.is_heap_Push)

lemma push_bunches_members:
  "item \<in> set (push_bunches minHeapLess h bs) \<Longrightarrow> item \<in> set h \<or> bunch item \<in> set bs"
proof (induction bs arbitrary: h)
  case (Cons b bs)
  show ?case
  proof (cases b)
    case Nil
    with Cons show ?thesis by (auto simp: newTransactionsHeapItem_def)
  next
    case (Cons tx txs)
    with Cons.IH Cons.prems show ?thesis by (fastforce simp: newTransactionsHeapItem_def set_heap_Push)
  qed
qed simp

text \<open>
  C38: a pass of the eviction that leaves items in the heap has dropped one. For every consistent cache, let
  the first pass pick the transactions \<open>E\<close> and leave the non-empty heap \<open>h\<close>. Then there is a transaction that is
  listed, is not evicted by this pass, is not more valuable than the current transaction of any item the
  heap goes on with, and whose sender the later passes do not touch at all, however many there are and
  whatever they evict: a pass that reaches its limit has already popped the next item and does not push it
  back.
\<close>

theorem eviction_drops_item:
  assumes "cache_inv c" and "evict_pick (tracked c) limit (eviction_start c) [] = (E, h)" and "h \<noteq> []"
  shows "\<exists>tx \<in> listed c. tx \<notin> set E \<and>
    (\<forall>item \<in> set h. \<not> isTransactionMoreValuableForNetwork tx (currentTransaction item)) \<and>
    (\<forall>j j' c'. evict_passes ext (evict_transactions c E) h j = (j', c') \<longrightarrow>
       pools c' (senderOf tx) = pools (evict_transactions c E) (senderOf tx))"
proof -
  have bs: "bs_inv (txListBySender c)" using assms(1) by (simp add: cache_inv_def)
  have start: "ev_heap (listed c) [] (eviction_start c)" by (rule eviction_heap [OF assms(1)])
  have heap: "minheap.is_heap (eviction_start c)" by (rule push_bunches_heap [OF minheap.is_heap_Nil])
  have "distinct (bunch item)" if "item \<in> set (eviction_start c)" for item
    using push_bunches_members [OF that] getSenders_pool(1) [OF bs] txcmp.increasing_distinct
    by (auto simp: getTxsReversed_def sl_inv_def)
  then have "\<forall>item \<in> set (eviction_start c). unpicked [] item" by (simp add: unpicked_def)
  note walk = evict_pick_walk [OF start heap this assms(2)]
  then obtain item where item: "dropped (listed c) E h item" using assms(3) by blast
  let ?tx = "currentTransaction item"
  have pk: "ev_heap (listed c) E h" "picked (listed c) (tracked c) E"
    using evict_pick_result [OF start _ assms(2)] by (simp_all add: picked_def descending_def)
  have snap: "snapshot (listed c) c" using assms(1) by (auto simp: snapshot_def listed_def cache_inv_def indexed_def)
  have E: "set E \<subseteq> listed c" "descending E" using pk(2) by (auto simp: picked_def)
  note r = evict_transactions_result [OF assms(1) snap E]
  have "ev_heap (listed c) [] h" using pk(1) by (simp add: ev_heap_def)
  moreover have "\<forall>item \<in> set h. distinct (bunch item)" using walk by (simp add: unpicked_def)
  ultimately have "pools c' (senderOf ?tx) = pools (evict_transactions c E) (senderOf ?tx)"
    if "evict_passes ext (evict_transactions c E) h j = (j', c')" for j j' c'
    using evict_passes_senders [OF r(1) snapshot_evicted [OF snap r(2)] _ _ _ that] walk item
      ev_item_current [of "listed c" item] by (simp add: dropped_def)
  moreover have "?tx \<in> set (drop (currentTransactionIndex item) (bunch item))"
    using item by (simp add: dropped_def ev_item_def) (metis Cons_nth_drop_Suc list.set_intros(1))
  then have "?tx \<notin> set E" using item by (auto simp: dropped_def unpicked_def)
  ultimately show ?thesis using item ev_item_current [of "listed c" item] by (intro bexI [of _ ?tx]) (auto simp: dropped_def)
qed

definition sample_overfull :: TxCache where
  "sample_overfull = foldl sample_add sample_empty [sample_tx 1 0 1, sample_tx 2 0 2, sample_tx 3 0 3, sample_tx 4 0 4]"

theorem eviction_drops_item_witness:
  "\<exists>E h. evict_pick (tracked sample_overfull) 1 (eviction_start sample_overfull) [] = (E, h) \<and> length h = 2 \<and>
     (\<exists>tx. tx \<in> listed sample_overfull \<and> tx \<notin> set E)"
proof -
  let ?r = "evict_pick (tracked sample_overfull) 1 (eviction_start sample_overfull) []"
  have "cache_inv sample_overfull"
    by (rule cache_reach_inv [OF _ sample_ext_permuting])
      (simp add: sample_overfull_def sample_add_reach cache_reach.new [OF sample_empty_new])
  moreover have "length (snd ?r) = 2" by code_simp
  ultimately show ?thesis using eviction_drops_item [of sample_overfull 1 "fst ?r" "snd ?r"]
    by (metis list.size(3) prod.collapse zero_neq_numeral)
qed

text \<open>
  The shuffle of the senders is not the one the randomness asks for: the order of the result depends
  on the order of the input, because the comparison reads the hash keys by position while the sort moves
  the senders only.
\<close>

theorem shuffle_depends_on_input:
  "mset [[1], [2], [3]] = mset [[2], [1], [3 :: u8]] \<and>
   shuffleSendersAddresses sample_ext [[1], [2], [3]] 0 \<noteq> shuffleSendersAddresses sample_ext [[2], [1], [3]] 0"
  by code_simp

end
