(* ===== verification/Trie_Keys.thy ===== *)
theory Trie_Keys
  imports Prelude
begin

unbundle bit_operations_syntax

text \<open>
  The keys of the Patricia Merkle trie: \<open>keyBytesToHex\<close> and \<open>prefixLen\<close> of \<open>trie/node.go\<close> and the key
  builder of \<open>trie/keyBuilder/keyBuilder.go\<close>. A key becomes its nibbles, last byte first and low nibble
  first, closed by a terminator; the loops of the code write them by index. The lemmas give the
  nibbles in closed form, the round trip, and that no key is a prefix of another.
\<close>

section \<open>Nibbles\<close>

definition hexTerminator :: u8 where "hexTerminator = 16"

definition nrOfChildren :: nat where "nrOfChildren = 17"

fun hex_loop :: "bytes \<Rightarrow> nat \<Rightarrow> bytes \<Rightarrow> bytes" where
  "hex_loop nibbles i [] = nibbles"
| "hex_loop nibbles i (b # str) =
     hex_loop (nibbles[i := drop_bit 4 b, i - 1 := b AND 15]) (i - 2) str"

definition keyBytesToHex :: "bytes \<Rightarrow> bytes" where
  "keyBytesToHex str =
     (let hexLength = length str * 2 + 1
      in hex_loop ((replicate hexLength 0)[hexLength - 1 := hexTerminator]) (hexLength - 2) str)"

definition prefixLen :: "bytes \<Rightarrow> bytes \<Rightarrow> nat" where
  "prefixLen a b = length (takeWhile (\<lambda>(x, y). x = y) (zip a b))"

definition trie_concat :: "bytes \<Rightarrow> bytes \<Rightarrow> bytes" where
  "trie_concat s1 s2 = s1 @ s2"

definition childPosOutOfRange :: "u8 \<Rightarrow> bool" where
  "childPosOutOfRange pos \<longleftrightarrow> unat pos \<ge> nrOfChildren"

section \<open>Key builder\<close>

datatype key_error = ErrInvalidLength | KeyIndexOutOfRange

text \<open>\<open>i\<close> positions of the key are left to write, the last one first.\<close>

fun key_loop :: "bytes \<Rightarrow> nat \<Rightarrow> nat \<Rightarrow> bytes \<Rightarrow> bytes" where
  "key_loop hex j 0 key = key"
| "key_loop hex j (Suc i) key = key_loop hex (j + 2) i (key[i := push_bit 4 (hex ! (j + 1)) OR hex ! j])"

text \<open>Slicing off the terminator panics on an empty slice.\<close>

definition hexToTrieKeyBytes :: "bytes \<Rightarrow> key_error + bytes" where
  "hexToTrieKeyBytes hex =
     (if hex = [] then Inl KeyIndexOutOfRange
      else let hex = butlast hex
           in if length hex mod 2 \<noteq> 0 then Inl ErrInvalidLength
              else Inr (key_loop hex 0 (length hex div 2) (replicate (length hex div 2) 0)))"

record keyBuilder =
  kb_key :: bytes

definition NewKeyBuilder :: keyBuilder where
  "NewKeyBuilder = \<lparr>kb_key = []\<rparr>"

definition BuildKey :: "keyBuilder \<Rightarrow> bytes \<Rightarrow> keyBuilder" where
  "BuildKey kb keyPart = kb\<lparr>kb_key := kb_key kb @ keyPart\<rparr>"

definition GetKey :: "keyBuilder \<Rightarrow> key_error + bytes" where
  "GetKey kb = hexToTrieKeyBytes (kb_key kb)"

definition GetRawKey :: "keyBuilder \<Rightarrow> bytes" where
  "GetRawKey kb = kb_key kb"

definition kb_Size :: "keyBuilder \<Rightarrow> nat" where
  "kb_Size kb = length (kb_key kb)"

section \<open>Closed forms\<close>

definition nibbles_of :: "u8 \<Rightarrow> bytes" where
  "nibbles_of b = [b AND 15, drop_bit 4 b]"

lemma hex_loop_conv:
  "length ns = 2 * length str \<Longrightarrow>
   hex_loop (ns @ rest) (2 * length str - 1) str = concat (map nibbles_of (rev str)) @ rest"
proof (induction str arbitrary: ns rest)
  case (Cons b str)
  let ?n = "length str"
  obtain ns1 x y where ns: "ns = ns1 @ [x, y]" and n1: "length ns1 = 2 * ?n"
  proof (cases ns rule: rev_cases)
    case (snoc ms y)
    then show thesis using Cons.prems that by (cases ms rule: rev_cases) auto
  qed (use Cons.prems in simp)
  have "(ns @ rest)[2 * length (b # str) - 1 := drop_bit 4 b, 2 * length (b # str) - 1 - 1 := b AND 15] =
      ns1 @ (nibbles_of b @ rest)" by (simp add: ns n1 list_update_append nibbles_of_def)
  moreover have "hex_loop (ns1 @ (nibbles_of b @ rest)) (2 * ?n - 1) str = concat (map nibbles_of (rev str)) @ (nibbles_of b @ rest)"
    by (rule Cons.IH [OF n1])
  ultimately show ?case by simp
qed simp

lemma keyBytesToHex_conv: "keyBytesToHex str = concat (map nibbles_of (rev str)) @ [hexTerminator]"
proof -
  have "(replicate (length str * 2 + 1) 0)[length str * 2 := hexTerminator] =
      replicate (2 * length str) 0 @ [hexTerminator]"
    by (simp add: replicate_append_same [symmetric] list_update_append mult.commute)
  then show ?thesis
    using hex_loop_conv [of "replicate (2 * length str) 0" str "[hexTerminator]"]
    by (simp add: keyBytesToHex_def Let_def mult.commute)
qed

lemma join_nibbles: "push_bit 4 (drop_bit 4 b) OR (b AND 15) = (b :: u8)"
proof -
  have "b AND 15 = take_bit 4 b" by (simp add: take_bit_eq_mask mask_eq_exp_minus_1)
  then show ?thesis
    by (auto intro!: bit_eqI simp: bit_or_iff bit_push_bit_iff bit_drop_bit_eq bit_take_bit_iff)
qed

lemma key_loop_conv:
  "key_loop (pre @ concat (map nibbles_of (rev str)) @ post) (length pre) (length str) (replicate (length str) x @ rest) = str @ rest"
proof (induction str arbitrary: pre rest rule: rev_induct)
  case (snoc b str)
  let ?hex = "pre @ concat (map nibbles_of (rev (str @ [b]))) @ post"
  have h: "?hex ! (length pre + 1) = drop_bit 4 b" "?hex ! length pre = b AND 15"
    by (simp_all add: nth_append nibbles_of_def)
  have "(replicate (length (str @ [b])) x @ rest)[length str := b] = replicate (length str) x @ (b # rest)"
    by (simp add: replicate_append_same [symmetric] list_update_append)
  with h snoc.IH [of "pre @ nibbles_of b" "b # rest"] show ?case
    by (simp add: join_nibbles) (simp add: nibbles_of_def)
qed simp

lemma length_nibbles: "length (concat (map nibbles_of bs)) = 2 * length bs"
  by (induction bs) (simp_all add: nibbles_of_def)

section \<open>Well-formed keys\<close>

text \<open>A key of the trie: nibbles, then the terminator.\<close>

definition hex_key :: "bytes \<Rightarrow> bool" where
  "hex_key k \<longleftrightarrow> (\<exists>ns. k = ns @ [hexTerminator] \<and> (\<forall>x \<in> set ns. x < 16))"

lemma hex_key_keyBytesToHex: "hex_key (keyBytesToHex str)"
proof -
  have "x < 16" if "x \<in> set (nibbles_of b)" for x b
  proof -
    have "b AND 15 = take_bit 4 b" by (simp add: take_bit_eq_mask mask_eq_exp_minus_1)
    moreover have "unat (take_bit 4 b) < 2 ^ 4" unfolding unsigned_take_bit_eq by (rule take_bit_nat_less_exp)
    ultimately have "unat (b AND 15) < 16" by simp
    moreover have "unat (drop_bit 4 b) < 16"
    proof -
      have "unat b < 2 ^ LENGTH(8)" by (rule unsigned_less)
      then show ?thesis by (simp add: drop_bit_eq_div unat_div_distrib less_mult_imp_div_less)
    qed
    ultimately show ?thesis using that by (auto simp: nibbles_of_def word_less_nat_alt)
  qed
  then show ?thesis unfolding hex_key_def keyBytesToHex_conv by fastforce
qed

lemma keyBytesToHex_roundtrip: "hexToTrieKeyBytes (keyBytesToHex str) = Inr str"
  using key_loop_conv [of "[]" str "[]" 0 "[]"]
  by (simp add: hexToTrieKeyBytes_def keyBytesToHex_conv length_nibbles)

lemma keyBytesToHex_inject [simp]: "keyBytesToHex a = keyBytesToHex b \<longleftrightarrow> a = b"
  using keyBytesToHex_roundtrip by (metis sum.inject(2))

text \<open>Two keys of which one extends the other are equal.\<close>

lemma hex_key_prefix_free: "hex_key k \<Longrightarrow> hex_key (k @ r) \<Longrightarrow> r = []"
proof -
  assume k: "hex_key k" and kr: "hex_key (k @ r)"
  then obtain ns ms where ns: "k = ns @ [hexTerminator]" and ms: "k @ r = ms @ [hexTerminator]" "\<forall>x \<in> set ms. x < 16"
    by (auto simp: hex_key_def)
  show "r = []"
  proof (rule ccontr)
    assume "r \<noteq> []"
    then have "ms = ns @ [hexTerminator] @ butlast r" using ms(1) ns by (metis append.assoc butlast_append butlast_snoc append_is_Nil_conv)
    with ms(2) show False by (simp add: hexTerminator_def)
  qed
qed

section \<open>Common prefixes\<close>

lemma prefixLen_le: "prefixLen a b \<le> length a" "prefixLen a b \<le> length b"
  unfolding prefixLen_def
  using length_takeWhile_le [of "\<lambda>(x, y). x = y" "zip a b"] by auto

lemma prefixLen_Cons: "prefixLen (x # a) (y # b) = (if x = y then Suc (prefixLen a b) else 0)"
  by (simp add: prefixLen_def)

lemma prefixLen_Nil [simp]: "prefixLen [] b = 0" "prefixLen a [] = 0"
  by (simp_all add: prefixLen_def)

lemma prefixLen_take: "take (prefixLen a b) a = take (prefixLen a b) b"
proof (induction a arbitrary: b)
  case (Cons x a)
  then show ?case by (cases b) (auto simp: prefixLen_Cons)
qed simp

lemma prefixLen_differ: "prefixLen a b < length a \<Longrightarrow> prefixLen a b < length b \<Longrightarrow> a ! prefixLen a b \<noteq> b ! prefixLen a b"
proof (induction a arbitrary: b)
  case (Cons x a)
  then show ?case by (cases b) (auto simp: prefixLen_Cons)
qed simp

lemma prefixLen_full: "prefixLen a b = length b \<longleftrightarrow> (\<exists>r. a = b @ r)"
proof (induction b arbitrary: a)
  case (Cons y b)
  then show ?case by (cases a) (auto simp: prefixLen_Cons)
qed simp

text \<open>Either key is a prefix of the other, or both go on after the common prefix with different nibbles.\<close>

lemma prefixLen_cases:
  obtains (longer) r where "a = b @ r" "prefixLen a b = length b"
  | (shorter) r where "b = a @ r" "r \<noteq> []" "prefixLen a b = length a"
  | (split) p x y a' b' where "a = p @ x # a'" "b = p @ y # b'" "x \<noteq> y" "length p = prefixLen a b"
proof -
  let ?n = "prefixLen a b"
  show thesis
  proof (cases "?n = length b")
    case True
    with prefixLen_full longer show ?thesis by blast
  next
    case b: False
    show ?thesis
    proof (cases "?n = length a")
      case True
      then have "take (length a) b = a" using prefixLen_take [of a b] by simp
      then have "b = a @ drop (length a) b" by (metis append_take_drop_id)
      moreover have "drop (length a) b \<noteq> []" using b True prefixLen_le(2) [of a b] by auto
      ultimately show ?thesis using shorter True by blast
    next
      case False
      with b have n: "?n < length a" "?n < length b" using prefixLen_le [of a b] by auto
      have "a = take ?n a @ a ! ?n # drop (Suc ?n) a" "b = take ?n a @ b ! ?n # drop (Suc ?n) b"
        using id_take_nth_drop [OF n(1)] id_take_nth_drop [OF n(2)] prefixLen_take [of a b] by simp_all
      then show ?thesis using split [of "take ?n a" "a ! ?n"] prefixLen_differ [OF n] n by simp
    qed
  qed
qed

end
