(* ===== verification/Trie_Node.thy ===== *)
theory Trie_Node
  imports Trie_Keys
begin

text \<open>
  The nodes of the Patricia Merkle trie: \<open>trie/node.go\<close>, \<open>leafNode.go\<close>, \<open>extensionNode.go\<close>, \<open>branchNode.go\<close>.
  A node keeps its hash, a dirty flag and its children, in memory or collapsed to their hash. Go
  changes nodes in place; an operation of the model returns the changed receiver. The marshaller and
  the hasher, which are other modules, are the record \<open>trie_env\<close>; the storage is read through a lookup
  function. Branch nodes have 17 children, 17 encoded children and 0 or 17 versions: the constructors
  and the decoder make them so and no operation changes these lengths (\<open>wf_node\<close>), hence an index below
  17 is in range.
\<close>

section \<open>Nodes\<close>

datatype trie_error =
    ErrInvalidNode | ErrInvalidEncoding | ErrValueTooShort | ErrChildPosOutOfRange | ErrNodeNotFound
  | ErrEmptyBranchNode | ErrEmptyExtensionNode | ErrEmptyLeafNode | ErrNilNode | ErrInvalidNodeVersion
  | ErrInvalidLevelValue | ErrNilTrieStorage | ErrNilRootHashHolder | GetNodeFromDBErr | MarshalErr | PutErr
  | ErrKeyNotFound | ErrClosing | StorerErr | PanicIndexOutOfRange | PanicNilDereference

type_synonym 'a tresult = "trie_error + 'a"

record TrieData =
  td_Key :: bytes
  td_Value :: slice
  td_Version :: u8

record CollapsedBn =
  EncodedChildren :: "bytes list"
  ChildrenVersion :: bytes

record CollapsedEn =
  en_Key :: bytes
  EncodedChild :: bytes
  ChildVersion :: u32

record CollapsedLn =
  ln_Key :: bytes
  ln_Value :: slice
  ln_Version :: u32

record baseNode =
  node_hash :: slice
  node_dirty :: bool

datatype node =
    LeafNode CollapsedLn baseNode
  | ExtensionNode CollapsedEn "node option" baseNode
  | BranchNode CollapsedBn "node option list" baseNode

text \<open>The marshaller writes and reads the collapsed part of a node; the hasher hashes bytes.
  \<open>NotSpecified\<close> is the constant of the core module.\<close>

record trie_env =
  MarshalLn :: "CollapsedLn \<Rightarrow> bytes tresult"
  MarshalEn :: "CollapsedEn \<Rightarrow> bytes tresult"
  MarshalBn :: "CollapsedBn \<Rightarrow> bytes tresult"
  UnmarshalLn :: "bytes \<Rightarrow> CollapsedLn tresult"
  UnmarshalEn :: "bytes \<Rightarrow> CollapsedEn tresult"
  UnmarshalBn :: "bytes \<Rightarrow> CollapsedBn tresult"
  Compute :: "bytes \<Rightarrow> bytes"
  NotSpecified :: u8

definition fresh_base :: baseNode where
  "fresh_base = \<lparr>node_hash = None, node_dirty = True\<rparr>"

definition newLeafNode :: "TrieData \<Rightarrow> node" where
  "newLeafNode newData =
     LeafNode \<lparr>ln_Key = td_Key newData, ln_Value = td_Value newData, ln_Version = ucast (td_Version newData)\<rparr>
       fresh_base"

definition newBranchNode :: "CollapsedBn \<times> node option list \<times> baseNode" where
  "newBranchNode =
     (\<lparr>EncodedChildren = replicate nrOfChildren [], ChildrenVersion = []\<rparr>, replicate nrOfChildren None, fresh_base)"

primrec base_of :: "node \<Rightarrow> baseNode" where
  "base_of (LeafNode ln b) = b"
| "base_of (ExtensionNode en c b) = b"
| "base_of (BranchNode bn cs b) = b"

primrec with_base :: "baseNode \<Rightarrow> node \<Rightarrow> node" where
  "with_base b (LeafNode ln _) = LeafNode ln b"
| "with_base b (ExtensionNode en c _) = ExtensionNode en c b"
| "with_base b (BranchNode bn cs _) = BranchNode bn cs b"

definition getHash :: "node \<Rightarrow> slice" where
  "getHash n = node_hash (base_of n)"

definition isDirty :: "node \<Rightarrow> bool" where
  "isDirty n = node_dirty (base_of n)"

definition setGivenHash :: "node \<Rightarrow> bytes \<Rightarrow> node" where
  "setGivenHash n h = with_base ((base_of n)\<lparr>node_hash := Some h\<rparr>) n"

definition setDirty :: "node \<Rightarrow> bool \<Rightarrow> node" where
  "setDirty n d = with_base ((base_of n)\<lparr>node_dirty := d\<rparr>) n"

section \<open>Emptiness and collapsed children\<close>

definition present :: "CollapsedBn \<Rightarrow> node option list \<Rightarrow> nat \<Rightarrow> bool" where
  "present bn cs i \<longleftrightarrow> cs ! i \<noteq> None \<or> length (EncodedChildren bn ! i) \<noteq> 0"

primrec isEmptyOrNil :: "node \<Rightarrow> trie_error option" where
  "isEmptyOrNil (LeafNode ln b) = (if ln_Value ln = None then Some ErrEmptyLeafNode else None)"
| "isEmptyOrNil (ExtensionNode en c b) =
     (if c = None \<and> length (EncodedChild en) = 0 then Some ErrEmptyExtensionNode else None)"
| "isEmptyOrNil (BranchNode bn cs b) =
     (if list_ex (present bn cs) [0..<nrOfChildren] then None else Some ErrEmptyBranchNode)"

primrec isPosCollapsed :: "node \<Rightarrow> nat \<Rightarrow> bool" where
  "isPosCollapsed (LeafNode ln b) pos = False"
| "isPosCollapsed (ExtensionNode en c b) pos = (c = None \<and> length (EncodedChild en) \<noteq> 0)"
| "isPosCollapsed (BranchNode bn cs b) pos = (cs ! pos = None \<and> length (EncodedChildren bn ! pos) \<noteq> 0)"

primrec isCollapsed :: "node \<Rightarrow> bool" where
  "isCollapsed (LeafNode ln b) = False"
| "isCollapsed (ExtensionNode en c b) = (c = None \<and> length (EncodedChild en) \<noteq> 0)"
| "isCollapsed (BranchNode bn cs b) = list_all (\<lambda>c. c = None) cs"

definition getChildPosition :: "CollapsedBn \<Rightarrow> node option list \<Rightarrow> nat \<times> nat" where
  "getChildPosition bn cs =
     foldl (\<lambda>(nr, pos) i. if present bn cs i then (nr + 1, i) else (nr, pos)) (0, 0) [0..<nrOfChildren]"

primrec isValid :: "node \<Rightarrow> bool" where
  "isValid (LeafNode ln b) = (length (slice_str (ln_Value ln)) > 0)"
| "isValid (ExtensionNode en c b) =
     (if length (EncodedChild en) = 0 \<and> c = None then False else length (en_Key en) \<noteq> 0)"
| "isValid (BranchNode bn cs b) = (length (filter (present bn cs) [0..<nrOfChildren]) \<ge> 2)"

section \<open>Versions\<close>

definition narrow_version :: "u32 \<Rightarrow> u8 tresult" where
  "narrow_version v = (if v > 255 then Inl ErrInvalidNodeVersion else Inr (ucast v))"

text \<open>The version of a branch is the one all its children share.\<close>

definition bn_version :: "trie_env \<Rightarrow> CollapsedBn \<Rightarrow> node option list \<Rightarrow> u8" where
  "bn_version env bn cs =
     (if length (ChildrenVersion bn) = 0 then NotSpecified env
      else case filter (present bn cs) [0..<nrOfChildren] of
             [] \<Rightarrow> 0
           | i # is \<Rightarrow>
               let nodeVersion = ChildrenVersion bn ! i
               in if list_ex (\<lambda>j. ChildrenVersion bn ! j \<noteq> nodeVersion) is then NotSpecified env else nodeVersion)"

primrec getVersion :: "trie_env \<Rightarrow> node \<Rightarrow> u8 tresult" where
  "getVersion env (LeafNode ln b) = narrow_version (ln_Version ln)"
| "getVersion env (ExtensionNode en c b) = narrow_version (ChildVersion en)"
| "getVersion env (BranchNode bn cs b) = Inr (bn_version env bn cs)"

definition revertChildrenVersionSliceIfNeeded :: "trie_env \<Rightarrow> CollapsedBn \<Rightarrow> CollapsedBn" where
  "revertChildrenVersionSliceIfNeeded env bn =
     (if list_ex (\<lambda>v. v \<noteq> NotSpecified env) (ChildrenVersion bn) then bn else bn\<lparr>ChildrenVersion := []\<rparr>)"

definition setVersionForChild :: "trie_env \<Rightarrow> CollapsedBn \<Rightarrow> u8 \<Rightarrow> nat \<Rightarrow> CollapsedBn" where
  "setVersionForChild env bn version childPos =
     (let sliceNotInitialized = (length (ChildrenVersion bn) = 0)
      in if version = NotSpecified env \<and> sliceNotInitialized then bn
         else let bn = (if sliceNotInitialized then bn\<lparr>ChildrenVersion := replicate nrOfChildren 0\<rparr> else bn);
                  bn = bn\<lparr>ChildrenVersion := (ChildrenVersion bn)[childPos := version]\<rparr>
              in if version = NotSpecified env then revertChildrenVersionSliceIfNeeded env bn else bn)"

definition getVersionForChild :: "trie_env \<Rightarrow> CollapsedBn \<Rightarrow> nat \<Rightarrow> u8" where
  "getVersionForChild env bn childIndex =
     (if length (ChildrenVersion bn) = 0 then NotSpecified env else ChildrenVersion bn ! childIndex)"

definition newExtensionNode :: "trie_env \<Rightarrow> bytes \<Rightarrow> node option \<Rightarrow> node tresult" where
  "newExtensionNode env key child =
     (case child of
        None \<Rightarrow> Inl ErrNilNode
      | Some c \<Rightarrow>
          (case getVersion env c of
             Inl e \<Rightarrow> Inl e
           | Inr childVersion \<Rightarrow>
               Inr (ExtensionNode \<lparr>en_Key = key, EncodedChild = [], ChildVersion = ucast childVersion\<rparr> child fresh_base)))"

section \<open>Encoding\<close>

text \<open>The last byte of an encoded node is its type.\<close>

definition extension_type :: u8 where "extension_type = 0"
definition leaf_type :: u8 where "leaf_type = 1"
definition branch_type :: u8 where "branch_type = 2"

definition getEncodedNode :: "trie_env \<Rightarrow> node \<Rightarrow> bytes tresult" where
  "getEncodedNode env n =
     (case isEmptyOrNil n of
        Some e \<Rightarrow> Inl e
      | None \<Rightarrow>
          (case n of
             LeafNode ln _ \<Rightarrow>
               (case MarshalLn env ln of Inl e \<Rightarrow> Inl e | Inr m \<Rightarrow> Inr (m @ [leaf_type]))
           | ExtensionNode en _ _ \<Rightarrow>
               (case MarshalEn env en of Inl e \<Rightarrow> Inl e | Inr m \<Rightarrow> Inr (m @ [extension_type]))
           | BranchNode bn _ _ \<Rightarrow>
               (case MarshalBn env bn of Inl e \<Rightarrow> Inl e | Inr m \<Rightarrow> Inr (m @ [branch_type]))))"

definition encodeNodeAndGetHash :: "trie_env \<Rightarrow> node \<Rightarrow> bytes tresult" where
  "encodeNodeAndGetHash env n =
     (case getEncodedNode env n of Inl e \<Rightarrow> Inl e | Inr encNode \<Rightarrow> Inr (Compute env encNode))"

definition clean_base :: baseNode where
  "clean_base = \<lparr>node_hash = None, node_dirty = False\<rparr>"

primrec validateDecodedNode :: "node \<Rightarrow> trie_error option" where
  "validateDecodedNode (LeafNode ln b) = None"
| "validateDecodedNode (ExtensionNode en c b) = None"
| "validateDecodedNode (BranchNode bn cs b) =
     (if length (EncodedChildren bn) \<noteq> nrOfChildren then Some ErrInvalidEncoding
      else if length (ChildrenVersion bn) \<noteq> 0 \<and> length (ChildrenVersion bn) \<noteq> nrOfChildren then Some ErrInvalidEncoding
      else None)"

definition unmarshalNode :: "trie_env \<Rightarrow> u8 \<Rightarrow> bytes \<Rightarrow> node tresult" where
  "unmarshalNode env nodeType encNode =
     (if nodeType = extension_type then
        (case UnmarshalEn env encNode of Inl e \<Rightarrow> Inl e | Inr en \<Rightarrow> Inr (ExtensionNode en None clean_base))
      else if nodeType = leaf_type then
        (case UnmarshalLn env encNode of Inl e \<Rightarrow> Inl e | Inr ln \<Rightarrow> Inr (LeafNode ln clean_base))
      else if nodeType = branch_type then
        (case UnmarshalBn env encNode of
           Inl e \<Rightarrow> Inl e | Inr bn \<Rightarrow> Inr (BranchNode bn (replicate nrOfChildren None) clean_base))
      else Inl ErrInvalidNode)"

definition decodeNode :: "trie_env \<Rightarrow> bytes \<Rightarrow> node tresult" where
  "decodeNode env encNode =
     (if length encNode < 1 then Inl ErrInvalidEncoding
      else case unmarshalNode env (last encNode) (butlast encNode) of
             Inl e \<Rightarrow> Inl e
           | Inr newNode \<Rightarrow>
               (case validateDecodedNode newNode of Some e \<Rightarrow> Inl e | None \<Rightarrow> Inr newNode))"

definition getNodeFromDBAndDecode :: "trie_env \<Rightarrow> (bytes \<Rightarrow> bytes tresult) \<Rightarrow> bytes \<Rightarrow> node tresult" where
  "getNodeFromDBAndDecode env db n =
     (case db n of Inl e \<Rightarrow> Inl GetNodeFromDBErr | Inr encChild \<Rightarrow> decodeNode env encChild)"

section \<open>Resolving collapsed children\<close>

definition load :: "trie_env \<Rightarrow> (bytes \<Rightarrow> bytes tresult) \<Rightarrow> bytes \<Rightarrow> node tresult" where
  "load env db h =
     (case getNodeFromDBAndDecode env db h of Inl e \<Rightarrow> Inl e | Inr child \<Rightarrow> Inr (setGivenHash child h))"

definition resolveCollapsed ::
  "trie_env \<Rightarrow> (bytes \<Rightarrow> bytes tresult) \<Rightarrow> node \<Rightarrow> u8 \<Rightarrow> trie_error option \<times> node" where
  "resolveCollapsed env db n pos =
     (case n of
        LeafNode ln b \<Rightarrow> (None, n)
      | ExtensionNode en c b \<Rightarrow>
          (case isEmptyOrNil n of
             Some e \<Rightarrow> (Some e, n)
           | None \<Rightarrow>
               (case load env db (EncodedChild en) of
                  Inl e \<Rightarrow> (Some e, n)
                | Inr child \<Rightarrow> (None, ExtensionNode en (Some child) b)))
      | BranchNode bn cs b \<Rightarrow>
          (case isEmptyOrNil n of
             Some e \<Rightarrow> (Some e, n)
           | None \<Rightarrow>
               if childPosOutOfRange pos then (Some ErrChildPosOutOfRange, n)
               else if length (EncodedChildren bn ! unat pos) \<noteq> 0 then
                 (case load env db (EncodedChildren bn ! unat pos) of
                    Inl e \<Rightarrow> (Some e, n)
                  | Inr child \<Rightarrow> (None, BranchNode bn (cs[unat pos := Some child]) b))
               else (None, n)))"

definition resolveIfCollapsed ::
  "trie_env \<Rightarrow> (bytes \<Rightarrow> bytes tresult) \<Rightarrow> node \<Rightarrow> u8 \<Rightarrow> trie_error option \<times> node" where
  "resolveIfCollapsed env db n pos =
     (case isEmptyOrNil n of
        Some e \<Rightarrow> (Some e, n)
      | None \<Rightarrow> if \<not> isPosCollapsed n (unat pos) then (None, n) else resolveCollapsed env db n pos)"

section \<open>Type invariant\<close>

text \<open>What the constructors and the decoder give.\<close>

definition wf_bn :: "CollapsedBn \<Rightarrow> node option list \<Rightarrow> bool" where
  "wf_bn bn cs \<longleftrightarrow>
     length cs = nrOfChildren \<and> length (EncodedChildren bn) = nrOfChildren \<and>
     length (ChildrenVersion bn) \<in> {0, nrOfChildren}"

lemma wf_bn_new: "newBranchNode = (bn, cs, b) \<Longrightarrow> wf_bn bn cs"
  by (auto simp: newBranchNode_def wf_bn_def)

lemma wf_bn_decode: "decodeNode env enc = Inr (BranchNode bn cs b) \<Longrightarrow> wf_bn bn cs"
  by (auto simp: decodeNode_def unmarshalNode_def wf_bn_def split: if_splits sum.splits option.splits)

lemma wf_bn_setVersion [simp]: "wf_bn bn cs \<Longrightarrow> wf_bn (setVersionForChild env bn v i) cs"
  by (auto simp: wf_bn_def setVersionForChild_def revertChildrenVersionSliceIfNeeded_def Let_def)

lemma wf_bn_child [simp]: "wf_bn bn cs \<Longrightarrow> wf_bn bn (cs[i := c])"
  by (simp add: wf_bn_def)

lemma EncodedChildren_setVersion [simp]: "EncodedChildren (setVersionForChild env bn v i) = EncodedChildren bn"
  by (simp add: setVersionForChild_def revertChildrenVersionSliceIfNeeded_def Let_def)

end
