(* ===== verification/Trie_Ops.thy ===== *)
theory Trie_Ops
  imports Trie_Node
begin

text \<open>
  Lookup, insertion and deletion in the Patricia Merkle trie: the methods \<open>tryGetWithVersion\<close>, \<open>getNext\<close>,
  \<open>insert\<close>, \<open>delete\<close> and \<open>reduceNode\<close> of \<open>leafNode.go\<close>, \<open>extensionNode.go\<close> and \<open>branchNode.go\<close>. Every method is a
  definition of its own; a call through the interface \<open>node\<close> is the argument \<open>rec\<close>, which the dispatching
  function closes. A collapsed child is read from the storage, so the depth of a trie is not bounded
  by the node in memory: the dispatching functions have fuel and the value \<open>None\<close> says that the call has
  not returned. A method returns its results and the receiver as it is after the call.
\<close>

type_synonym db_get = "bytes \<Rightarrow> bytes tresult"
type_synonym get_res = "slice \<times> u32 \<times> u32 \<times> trie_error option"
type_synonym ins_res = "(node option \<times> slice list) tresult"
type_synonym del_res = "(bool \<times> node option \<times> slice list) tresult"

section \<open>Fields\<close>

primrec child_at :: "node \<Rightarrow> nat \<Rightarrow> node option" where
  "child_at (LeafNode ln b) i = None"
| "child_at (ExtensionNode en c b) i = c"
| "child_at (BranchNode bn cs b) i = cs ! i"

primrec set_child :: "node \<Rightarrow> nat \<Rightarrow> node option \<Rightarrow> node" where
  "set_child (LeafNode ln b) i c = LeafNode ln b"
| "set_child (ExtensionNode en c0 b) i c = ExtensionNode en c b"
| "set_child (BranchNode bn cs b) i c = BranchNode bn (cs[i := c]) b"

definition obsolete :: "node \<Rightarrow> slice list" where
  "obsolete n = (if isDirty n then [] else [getHash n])"

section \<open>Lookup\<close>

definition leaf_tryGetWithVersion :: "node \<Rightarrow> CollapsedLn \<Rightarrow> bytes \<Rightarrow> u32 \<Rightarrow> get_res \<times> node" where
  "leaf_tryGetWithVersion n ln key currentDepth =
     (case isEmptyOrNil n of
        Some e \<Rightarrow> ((None, currentDepth, 0, Some e), n)
      | None \<Rightarrow>
          if key = ln_Key ln then ((ln_Value ln, currentDepth, ln_Version ln, None), n)
          else ((None, currentDepth, 0, None), n))"

definition en_tryGetWithVersion ::
  "(node \<Rightarrow> bytes \<Rightarrow> u32 \<Rightarrow> (get_res \<times> node) option) \<Rightarrow> trie_env \<Rightarrow> db_get \<Rightarrow> node \<Rightarrow> CollapsedEn \<Rightarrow>
   bytes \<Rightarrow> u32 \<Rightarrow> (get_res \<times> node) option" where
  "en_tryGetWithVersion rec env db n en key currentDepth =
     (case isEmptyOrNil n of
        Some e \<Rightarrow> Some ((None, currentDepth, 0, Some e), n)
      | None \<Rightarrow>
          if length key < length (en_Key en) then Some ((None, currentDepth, 0, None), n)
          else if en_Key en \<noteq> take (length (en_Key en)) key then Some ((None, currentDepth, 0, None), n)
          else
            (case resolveIfCollapsed env db n 0 of
               (Some e, n) \<Rightarrow> Some ((None, currentDepth, 0, Some e), n)
             | (None, n) \<Rightarrow>
                 (case child_at n 0 of
                    None \<Rightarrow> Some ((None, currentDepth, 0, Some PanicNilDereference), n)
                  | Some child \<Rightarrow>
                      (case rec child (drop (length (en_Key en)) key) (currentDepth + 1) of
                         None \<Rightarrow> None
                       | Some (r, child) \<Rightarrow> Some (r, set_child n 0 (Some child))))))"

definition bn_tryGetWithVersion ::
  "(node \<Rightarrow> bytes \<Rightarrow> u32 \<Rightarrow> (get_res \<times> node) option) \<Rightarrow> trie_env \<Rightarrow> db_get \<Rightarrow> node \<Rightarrow> bytes \<Rightarrow> u32 \<Rightarrow> (get_res \<times> node) option" where
  "bn_tryGetWithVersion rec env db n key currentDepth =
     (case isEmptyOrNil n of
        Some e \<Rightarrow> Some ((None, currentDepth, 0, Some e), n)
      | None \<Rightarrow>
          (case key of
             [] \<Rightarrow> Some ((None, currentDepth, 0, None), n)
           | childPos # key \<Rightarrow>
               if childPosOutOfRange childPos then Some ((None, currentDepth, 0, Some ErrChildPosOutOfRange), n)
               else
                 (case resolveIfCollapsed env db n childPos of
                    (Some e, n) \<Rightarrow> Some ((None, currentDepth, 0, Some e), n)
                  | (None, n) \<Rightarrow>
                      (case child_at n (unat childPos) of
                         None \<Rightarrow> Some ((None, currentDepth, 0, None), n)
                       | Some child \<Rightarrow>
                           (case rec child key (currentDepth + 1) of
                              None \<Rightarrow> None
                            | Some (r, child) \<Rightarrow> Some (r, set_child n (unat childPos) (Some child)))))))"

fun tryGetWithVersion ::
  "nat \<Rightarrow> trie_env \<Rightarrow> db_get \<Rightarrow> node \<Rightarrow> bytes \<Rightarrow> u32 \<Rightarrow> (get_res \<times> node) option" where
  "tryGetWithVersion 0 env db n key currentDepth = None"
| "tryGetWithVersion (Suc fuel) env db n key currentDepth =
     (case n of
        LeafNode ln b \<Rightarrow> Some (leaf_tryGetWithVersion n ln key currentDepth)
      | ExtensionNode en c b \<Rightarrow> en_tryGetWithVersion (tryGetWithVersion fuel env db) env db n en key currentDepth
      | BranchNode bn cs b \<Rightarrow> bn_tryGetWithVersion (tryGetWithVersion fuel env db) env db n key currentDepth)"

text \<open>\<open>getNext\<close> gives the next node on the path, none at the leaf. It does not recurse; the receiver
  keeps the child that was read.\<close>

definition leaf_getNext :: "node \<Rightarrow> CollapsedLn \<Rightarrow> bytes \<Rightarrow> (node option \<times> bytes) tresult \<times> node" where
  "leaf_getNext n ln key =
     (case isEmptyOrNil n of
        Some e \<Rightarrow> (Inl e, n)
      | None \<Rightarrow> if key = ln_Key ln then (Inr (None, []), n) else (Inl ErrNodeNotFound, n))"

definition en_getNext ::
  "trie_env \<Rightarrow> db_get \<Rightarrow> node \<Rightarrow> CollapsedEn \<Rightarrow> bytes \<Rightarrow> (node option \<times> bytes) tresult \<times> node" where
  "en_getNext env db n en key =
     (case isEmptyOrNil n of
        Some e \<Rightarrow> (Inl e, n)
      | None \<Rightarrow>
          if length key < length (en_Key en) then (Inl ErrNodeNotFound, n)
          else if en_Key en \<noteq> take (length (en_Key en)) key then (Inl ErrNodeNotFound, n)
          else
            (case resolveIfCollapsed env db n 0 of
               (Some e, n) \<Rightarrow> (Inl e, n)
             | (None, n) \<Rightarrow> (Inr (child_at n 0, drop (length (en_Key en)) key), n)))"

definition bn_getNext ::
  "trie_env \<Rightarrow> db_get \<Rightarrow> node \<Rightarrow> bytes \<Rightarrow> (node option \<times> bytes) tresult \<times> node" where
  "bn_getNext env db n key =
     (case isEmptyOrNil n of
        Some e \<Rightarrow> (Inl e, n)
      | None \<Rightarrow>
          (case key of
             [] \<Rightarrow> (Inl ErrValueTooShort, n)
           | childPos # key \<Rightarrow>
               if childPosOutOfRange childPos then (Inl ErrChildPosOutOfRange, n)
               else
                 (case resolveIfCollapsed env db n childPos of
                    (Some e, n) \<Rightarrow> (Inl e, n)
                  | (None, n) \<Rightarrow>
                      (case child_at n (unat childPos) of
                         None \<Rightarrow> (Inl ErrNodeNotFound, n)
                       | Some child \<Rightarrow> (Inr (Some child, key), n)))))"

definition getNext ::
  "trie_env \<Rightarrow> db_get \<Rightarrow> node \<Rightarrow> bytes \<Rightarrow> (node option \<times> bytes) tresult \<times> node" where
  "getNext env db n key =
     (case n of
        LeafNode ln b \<Rightarrow> leaf_getNext n ln key
      | ExtensionNode en c b \<Rightarrow> en_getNext env db n en key
      | BranchNode bn cs b \<Rightarrow> bn_getNext env db n key)"

section \<open>Insertion\<close>

definition leaf_insertInSameLn :: "CollapsedLn \<Rightarrow> baseNode \<Rightarrow> TrieData \<Rightarrow> slice list \<Rightarrow> ins_res \<times> node" where
  "leaf_insertInSameLn ln b newData oldHashes =
     (if slice_str (ln_Value ln) = slice_str (td_Value newData) then (Inr (None, []), LeafNode ln b)
      else let n = LeafNode (ln\<lparr>ln_Value := td_Value newData, ln_Version := ucast (td_Version newData)\<rparr>)
                     (b\<lparr>node_dirty := True, node_hash := None\<rparr>)
           in (Inr (Some n, oldHashes), n))"

definition leaf_insertInNewBn :: "trie_env \<Rightarrow> CollapsedLn \<Rightarrow> TrieData \<Rightarrow> nat \<Rightarrow> node tresult" where
  "leaf_insertInNewBn env ln newData keyMatchLen =
     (if keyMatchLen \<ge> length (ln_Key ln) \<or> keyMatchLen \<ge> length (td_Key newData) then Inl PanicIndexOutOfRange
      else let oldChildPos = ln_Key ln ! keyMatchLen; newChildPos = td_Key newData ! keyMatchLen
           in if childPosOutOfRange oldChildPos \<or> childPosOutOfRange newChildPos then Inl ErrChildPosOutOfRange
              else case narrow_version (ln_Version ln) of
                     Inl e \<Rightarrow> Inl e
                   | Inr oldLnVersion \<Rightarrow>
                       let (bn, cs, b) = newBranchNode;
                           oldLnData = \<lparr>td_Key = drop (keyMatchLen + 1) (ln_Key ln), td_Value = ln_Value ln, td_Version = oldLnVersion\<rparr>;
                           cs = cs[unat oldChildPos := Some (newLeafNode oldLnData)];
                           bn = setVersionForChild env bn oldLnVersion (unat oldChildPos);
                           newData = newData\<lparr>td_Key := drop (keyMatchLen + 1) (td_Key newData)\<rparr>;
                           cs = cs[unat newChildPos := Some (newLeafNode newData)];
                           bn = setVersionForChild env bn (td_Version newData) (unat newChildPos)
                       in Inr (BranchNode bn cs b))"

definition leaf_insert :: "trie_env \<Rightarrow> CollapsedLn \<Rightarrow> baseNode \<Rightarrow> TrieData \<Rightarrow> ins_res \<times> node" where
  "leaf_insert env ln b newData =
     (let n = LeafNode ln b; nodeKey = ln_Key ln
      in case isEmptyOrNil n of
           Some e \<Rightarrow> (Inl e, n)
         | None \<Rightarrow>
             let oldHash = obsolete n
             in if td_Key newData = nodeKey then leaf_insertInSameLn ln b newData oldHash
                else let keyMatchLen = prefixLen (td_Key newData) nodeKey
                     in case leaf_insertInNewBn env ln newData keyMatchLen of
                          Inl e \<Rightarrow> (Inl e, n)
                        | Inr bn \<Rightarrow>
                            if keyMatchLen = 0 then (Inr (Some bn, oldHash), n)
                            else case newExtensionNode env (take keyMatchLen nodeKey) (Some bn) of
                                   Inl e \<Rightarrow> (Inl e, n)
                                 | Inr newEn \<Rightarrow> (Inr (Some newEn, oldHash), n))"

definition en_insertInSameEn ::
  "(node \<Rightarrow> TrieData \<Rightarrow> (ins_res \<times> node) option) \<Rightarrow> trie_env \<Rightarrow> node \<Rightarrow> CollapsedEn \<Rightarrow> TrieData \<Rightarrow> nat \<Rightarrow> (ins_res \<times> node) option" where
  "en_insertInSameEn rec env n en newData keyMatchLen =
     (case child_at n 0 of
        None \<Rightarrow> Some (Inl PanicNilDereference, n)
      | Some child \<Rightarrow>
          (case rec child (newData\<lparr>td_Key := drop keyMatchLen (td_Key newData)\<rparr>) of
             None \<Rightarrow> None
           | Some (r, child) \<Rightarrow>
               let n = set_child n 0 (Some child)
               in case r of
                    Inl e \<Rightarrow> Some (Inl e, n)
                  | Inr (None, _) \<Rightarrow> Some (Inr (None, []), n)
                  | Inr (Some newNode, oldHashes) \<Rightarrow>
                      let oldHashes = oldHashes @ obsolete n
                      in case newExtensionNode env (en_Key en) (Some newNode) of
                           Inl e \<Rightarrow> Some (Inl e, n)
                         | Inr newEn \<Rightarrow> Some (Inr (Some newEn, oldHashes), n)))"

definition en_insertOldChildInBn ::
  "trie_env \<Rightarrow> CollapsedEn \<Rightarrow> node option \<Rightarrow> CollapsedBn \<Rightarrow> node option list \<Rightarrow> u8 \<Rightarrow> nat \<Rightarrow>
   (CollapsedBn \<times> node option list) tresult" where
  "en_insertOldChildInBn env en c bn cs oldChildPos keyMatchLen =
     (let keyReminder = drop (keyMatchLen + 1) (en_Key en)
      in case c of
           None \<Rightarrow> Inl PanicNilDereference
         | Some child \<Rightarrow>
             (case getVersion env child of
                Inl e \<Rightarrow> Inl e
              | Inr childVersion \<Rightarrow>
                  let bn = setVersionForChild env bn childVersion (unat oldChildPos)
                  in if length keyReminder < 1 then Inr (bn, cs[unat oldChildPos := c])
                     else case newExtensionNode env (drop (keyMatchLen + 1) (en_Key en)) c of
                            Inl e \<Rightarrow> Inl e
                          | Inr followingExtensionNode \<Rightarrow> Inr (bn, cs[unat oldChildPos := Some followingExtensionNode])))"

definition en_insertNewChildInBn ::
  "trie_env \<Rightarrow> CollapsedBn \<Rightarrow> node option list \<Rightarrow> TrieData \<Rightarrow> u8 \<Rightarrow> nat \<Rightarrow> CollapsedBn \<times> node option list" where
  "en_insertNewChildInBn env bn cs newData newChildPos keyMatchLen =
     (let newData = newData\<lparr>td_Key := drop (keyMatchLen + 1) (td_Key newData)\<rparr>
      in (setVersionForChild env bn (td_Version newData) (unat newChildPos), cs[unat newChildPos := Some (newLeafNode newData)]))"

definition en_insertInNewBn :: "trie_env \<Rightarrow> node \<Rightarrow> CollapsedEn \<Rightarrow> TrieData \<Rightarrow> nat \<Rightarrow> ins_res" where
  "en_insertInNewBn env n en newData keyMatchLen =
     (let oldHash = obsolete n
      in if keyMatchLen \<ge> length (en_Key en) \<or> keyMatchLen \<ge> length (td_Key newData) then Inl PanicIndexOutOfRange
         else let oldChildPos = en_Key en ! keyMatchLen; newChildPos = td_Key newData ! keyMatchLen
              in if childPosOutOfRange oldChildPos \<or> childPosOutOfRange newChildPos then Inl ErrChildPosOutOfRange
                 else let (bn, cs, b) = newBranchNode
                      in case en_insertOldChildInBn env en (child_at n 0) bn cs oldChildPos keyMatchLen of
                           Inl e \<Rightarrow> Inl e
                         | Inr (bn, cs) \<Rightarrow>
                             let (bn, cs) = en_insertNewChildInBn env bn cs newData newChildPos keyMatchLen
                             in if keyMatchLen = 0 then Inr (Some (BranchNode bn cs b), oldHash)
                                else case newExtensionNode env (take keyMatchLen (en_Key en)) (Some (BranchNode bn cs b)) of
                                       Inl e \<Rightarrow> Inl e
                                     | Inr newEn \<Rightarrow> Inr (Some newEn, oldHash))"

definition en_insert ::
  "(node \<Rightarrow> TrieData \<Rightarrow> (ins_res \<times> node) option) \<Rightarrow> trie_env \<Rightarrow> db_get \<Rightarrow> node \<Rightarrow> CollapsedEn \<Rightarrow> TrieData \<Rightarrow> (ins_res \<times> node) option" where
  "en_insert rec env db n en newData =
     (case isEmptyOrNil n of
        Some e \<Rightarrow> Some (Inl e, n)
      | None \<Rightarrow>
          (case resolveIfCollapsed env db n 0 of
             (Some e, n) \<Rightarrow> Some (Inl e, n)
           | (None, n) \<Rightarrow>
               let keyMatchLen = prefixLen (td_Key newData) (en_Key en)
               in if keyMatchLen = length (en_Key en) then en_insertInSameEn rec env n en newData keyMatchLen
                  else Some (en_insertInNewBn env n en newData keyMatchLen, n)))"

definition bn_modifyNodeAfterInsert ::
  "trie_env \<Rightarrow> node \<Rightarrow> slice list \<Rightarrow> u8 \<Rightarrow> node \<Rightarrow> slice list tresult \<times> node" where
  "bn_modifyNodeAfterInsert env n modifiedHashes childPos newNode =
     (let modifiedHashes = modifiedHashes @ obsolete n
      in case getVersion env newNode of
           Inl e \<Rightarrow> (Inl e, n)
         | Inr childVersion \<Rightarrow>
             (case n of
                BranchNode bn cs b \<Rightarrow>
                  (Inr modifiedHashes,
                   BranchNode (setVersionForChild env bn childVersion (unat childPos)) (cs[unat childPos := Some newNode])
                     (b\<lparr>node_dirty := True, node_hash := None\<rparr>))
              | _ \<Rightarrow> (Inl ErrInvalidNode, n)))"

definition bn_insertOnNilChild :: "trie_env \<Rightarrow> node \<Rightarrow> TrieData \<Rightarrow> u8 \<Rightarrow> ins_res \<times> node" where
  "bn_insertOnNilChild env n newData childPos =
     (case bn_modifyNodeAfterInsert env n [] childPos (newLeafNode newData) of
        (Inl e, n) \<Rightarrow> (Inl e, n)
      | (Inr modifiedHashes, n) \<Rightarrow> (Inr (Some n, modifiedHashes), n))"

definition bn_insertOnExistingChild ::
  "(node \<Rightarrow> TrieData \<Rightarrow> (ins_res \<times> node) option) \<Rightarrow> trie_env \<Rightarrow> node \<Rightarrow> node \<Rightarrow> TrieData \<Rightarrow> u8 \<Rightarrow> (ins_res \<times> node) option" where
  "bn_insertOnExistingChild rec env n child newData childPos =
     (case rec child newData of
        None \<Rightarrow> None
      | Some (r, child) \<Rightarrow>
          let n = set_child n (unat childPos) (Some child)
          in case r of
               Inl e \<Rightarrow> Some (Inl e, n)
             | Inr (None, _) \<Rightarrow> Some (Inr (None, []), n)
             | Inr (Some newNode, modifiedHashes) \<Rightarrow>
                 (case bn_modifyNodeAfterInsert env n modifiedHashes childPos newNode of
                    (Inl e, n) \<Rightarrow> Some (Inl e, n)
                  | (Inr modifiedHashes, n) \<Rightarrow> Some (Inr (Some n, modifiedHashes), n)))"

definition bn_insert ::
  "(node \<Rightarrow> TrieData \<Rightarrow> (ins_res \<times> node) option) \<Rightarrow> trie_env \<Rightarrow> db_get \<Rightarrow> node \<Rightarrow> TrieData \<Rightarrow> (ins_res \<times> node) option" where
  "bn_insert rec env db n newData =
     (case isEmptyOrNil n of
        Some e \<Rightarrow> Some (Inl e, n)
      | None \<Rightarrow>
          (case td_Key newData of
             [] \<Rightarrow> Some (Inl ErrValueTooShort, n)
           | childPos # key \<Rightarrow>
               if childPosOutOfRange childPos then Some (Inl ErrChildPosOutOfRange, n)
               else let newData = newData\<lparr>td_Key := key\<rparr>
                    in case resolveIfCollapsed env db n childPos of
                         (Some e, n) \<Rightarrow> Some (Inl e, n)
                       | (None, n) \<Rightarrow>
                           (case child_at n (unat childPos) of
                              None \<Rightarrow> Some (bn_insertOnNilChild env n newData childPos)
                            | Some child \<Rightarrow> bn_insertOnExistingChild rec env n child newData childPos)))"

fun node_insert :: "nat \<Rightarrow> trie_env \<Rightarrow> db_get \<Rightarrow> node \<Rightarrow> TrieData \<Rightarrow> (ins_res \<times> node) option" where
  "node_insert 0 env db n newData = None"
| "node_insert (Suc fuel) env db n newData =
     (case n of
        LeafNode ln b \<Rightarrow> Some (leaf_insert env ln b newData)
      | ExtensionNode en c b \<Rightarrow> en_insert (node_insert fuel env db) env db n en newData
      | BranchNode bn cs b \<Rightarrow> bn_insert (node_insert fuel env db) env db n newData)"

section \<open>Deletion\<close>

definition leaf_delete :: "node \<Rightarrow> CollapsedLn \<Rightarrow> bytes \<Rightarrow> del_res" where
  "leaf_delete n ln key =
     (if key = ln_Key ln then Inr (True, None, obsolete n) else Inr (False, Some n, []))"

definition leaf_reduceNode :: "CollapsedLn \<Rightarrow> nat \<Rightarrow> (node \<times> bool) tresult" where
  "leaf_reduceNode ln pos =
     (case narrow_version (ln_Version ln) of
        Inl e \<Rightarrow> Inl e
      | Inr oldLnVersion \<Rightarrow>
          Inr (newLeafNode \<lparr>td_Key = of_nat pos # ln_Key ln, td_Value = ln_Value ln, td_Version = oldLnVersion\<rparr>, True))"

definition en_reduceNode :: "trie_env \<Rightarrow> CollapsedEn \<Rightarrow> node option \<Rightarrow> nat \<Rightarrow> (node \<times> bool) tresult" where
  "en_reduceNode env en c pos =
     (case newExtensionNode env (of_nat pos # en_Key en) c of Inl e \<Rightarrow> Inl e | Inr newEn \<Rightarrow> Inr (newEn, True))"

definition bn_reduceNode :: "trie_env \<Rightarrow> node \<Rightarrow> nat \<Rightarrow> (node \<times> bool) tresult" where
  "bn_reduceNode env n pos =
     (case newExtensionNode env [of_nat pos] (Some n) of Inl e \<Rightarrow> Inl e | Inr newEn \<Rightarrow> Inr (newEn, False))"

definition reduceNode :: "trie_env \<Rightarrow> node \<Rightarrow> nat \<Rightarrow> (node \<times> bool) tresult" where
  "reduceNode env n pos =
     (case n of
        LeafNode ln b \<Rightarrow> leaf_reduceNode ln pos
      | ExtensionNode en c b \<Rightarrow> en_reduceNode env en c pos
      | BranchNode bn cs b \<Rightarrow> bn_reduceNode env n pos)"

text \<open>The type switch of the extension node on what its child has become.\<close>

definition en_merge :: "trie_env \<Rightarrow> CollapsedEn \<Rightarrow> node option \<Rightarrow> slice list \<Rightarrow> del_res" where
  "en_merge env en newNode oldHashes =
     (case newNode of
        Some (LeafNode ln _) \<Rightarrow>
          Inr (True, Some (newLeafNode \<lparr>td_Key = trie_concat (en_Key en) (ln_Key ln), td_Value = ln_Value ln,
                                        td_Version = ucast (ln_Version ln)\<rparr>), oldHashes)
      | Some (ExtensionNode en' c _) \<Rightarrow>
          (case newExtensionNode env (trie_concat (en_Key en) (en_Key en')) c of
             Inl e \<Rightarrow> Inl e | Inr n \<Rightarrow> Inr (True, Some n, oldHashes))
      | Some (BranchNode bn cs b) \<Rightarrow>
          (case newExtensionNode env (en_Key en) newNode of
             Inl e \<Rightarrow> Inl e | Inr n \<Rightarrow> Inr (True, Some n, oldHashes))
      | None \<Rightarrow> Inr (True, None, oldHashes))"

definition en_delete ::
  "(node \<Rightarrow> bytes \<Rightarrow> (del_res \<times> node) option) \<Rightarrow> trie_env \<Rightarrow> db_get \<Rightarrow> node \<Rightarrow> CollapsedEn \<Rightarrow> bytes \<Rightarrow> (del_res \<times> node) option" where
  "en_delete rec env db n en key =
     (case isEmptyOrNil n of
        Some e \<Rightarrow> Some (Inl e, n)
      | None \<Rightarrow>
          if length key = 0 then Some (Inl ErrValueTooShort, n)
          else if prefixLen key (en_Key en) < length (en_Key en) then Some (Inr (False, Some n, []), n)
          else
            (case resolveIfCollapsed env db n 0 of
               (Some e, n) \<Rightarrow> Some (Inl e, n)
             | (None, n) \<Rightarrow>
                 (case child_at n 0 of
                    None \<Rightarrow> Some (Inl PanicNilDereference, n)
                  | Some child \<Rightarrow>
                      (case rec child (drop (length (en_Key en)) key) of
                         None \<Rightarrow> None
                       | Some (r, child) \<Rightarrow>
                           let n = set_child n 0 (Some child)
                           in case r of
                                Inl e \<Rightarrow> Some (Inl e, n)
                              | Inr (dirty, newNode, oldHashes) \<Rightarrow>
                                  if \<not> dirty then Some (Inr (False, Some n, []), n)
                                  else Some (en_merge env en newNode (oldHashes @ obsolete n), n)))))"

definition bn_setNewChild :: "trie_env \<Rightarrow> node \<Rightarrow> u8 \<Rightarrow> node option \<Rightarrow> trie_error option \<times> node" where
  "bn_setNewChild env n childPos newNode =
     (case n of
        BranchNode bn cs b \<Rightarrow>
          let b = b\<lparr>node_hash := None\<rparr>; cs = cs[unat childPos := newNode]
          in (case newNode of
                None \<Rightarrow>
                  let bn = setVersionForChild env bn (NotSpecified env) (unat childPos)
                  in (None, BranchNode (bn\<lparr>EncodedChildren := (EncodedChildren bn)[unat childPos := []]\<rparr>) cs b)
              | Some new \<Rightarrow>
                  (case getVersion env new of
                     Inl e \<Rightarrow> (Some e, BranchNode bn cs b)
                   | Inr childVersion \<Rightarrow> (None, BranchNode (setVersionForChild env bn childVersion (unat childPos)) cs b)))
      | _ \<Rightarrow> (Some ErrInvalidNode, n))"

text \<open>The branch that has lost a child: with one child left it is replaced by what the child reduces
  to, otherwise it stays and is dirty.\<close>

definition bn_reduce_or_keep :: "trie_env \<Rightarrow> db_get \<Rightarrow> node \<Rightarrow> slice list \<Rightarrow> del_res \<times> node" where
  "bn_reduce_or_keep env db n oldHashes =
     (case n of
        BranchNode bn cs b \<Rightarrow>
          let (numChildren, pos) = getChildPosition bn cs
          in if numChildren = 1 then
               (case resolveIfCollapsed env db n (of_nat pos) of
                  (Some e, n) \<Rightarrow> (Inl e, n)
                | (None, n) \<Rightarrow>
                    (case child_at n pos of
                       None \<Rightarrow> (Inl PanicNilDereference, n)
                     | Some child \<Rightarrow>
                         (case resolveIfCollapsed env db child (of_nat pos) of
                            (Some e, child) \<Rightarrow> (Inl e, set_child n pos (Some child))
                          | (None, child) \<Rightarrow>
                              let n = set_child n pos (Some child)
                              in case reduceNode env child pos of
                                   Inl e \<Rightarrow> (Inl e, n)
                                 | Inr (newNode, newChildHash) \<Rightarrow>
                                     (Inr (True, Some newNode, oldHashes @ (if newChildHash then obsolete child else [])), n))))
             else let n = BranchNode bn cs (b\<lparr>node_dirty := True\<rparr>) in (Inr (True, Some n, oldHashes), n)
      | _ \<Rightarrow> (Inl ErrInvalidNode, n))"

definition bn_delete ::
  "(node \<Rightarrow> bytes \<Rightarrow> (del_res \<times> node) option) \<Rightarrow> trie_env \<Rightarrow> db_get \<Rightarrow> node \<Rightarrow> bytes \<Rightarrow> (del_res \<times> node) option" where
  "bn_delete rec env db n key =
     (case isEmptyOrNil n of
        Some e \<Rightarrow> Some (Inl e, n)
      | None \<Rightarrow>
          (case key of
             [] \<Rightarrow> Some (Inl ErrValueTooShort, n)
           | childPos # key \<Rightarrow>
               if childPosOutOfRange childPos then Some (Inl ErrChildPosOutOfRange, n)
               else
                 (case resolveIfCollapsed env db n childPos of
                    (Some e, n) \<Rightarrow> Some (Inl e, n)
                  | (None, n) \<Rightarrow>
                      (case child_at n (unat childPos) of
                         None \<Rightarrow> Some (Inr (False, Some n, []), n)
                       | Some child \<Rightarrow>
                           (case rec child key of
                              None \<Rightarrow> None
                            | Some (r, child) \<Rightarrow>
                                let n = set_child n (unat childPos) (Some child)
                                in case r of
                                     Inl e \<Rightarrow> Some (Inl e, n)
                                   | Inr (dirty, newNode, oldHashes) \<Rightarrow>
                                       if \<not> dirty then Some (Inr (False, Some n, []), n)
                                       else let oldHashes = oldHashes @ obsolete n
                                            in case bn_setNewChild env n childPos newNode of
                                                 (Some e, n) \<Rightarrow> Some (Inl e, n)
                                               | (None, n) \<Rightarrow> Some (bn_reduce_or_keep env db n oldHashes))))))"

fun node_delete :: "nat \<Rightarrow> trie_env \<Rightarrow> db_get \<Rightarrow> node \<Rightarrow> bytes \<Rightarrow> (del_res \<times> node) option" where
  "node_delete 0 env db n key = None"
| "node_delete (Suc fuel) env db n key =
     (case n of
        LeafNode ln b \<Rightarrow> Some (leaf_delete n ln key, n)
      | ExtensionNode en c b \<Rightarrow> en_delete (node_delete fuel env db) env db n en key
      | BranchNode bn cs b \<Rightarrow> bn_delete (node_delete fuel env db) env db n key)"

end
