(* ===== verification/Trie_Hash.thy ===== *)
theory Trie_Hash
  imports Trie_Ops
begin

text \<open>
  Hashing and committing the nodes of the Patricia Merkle trie: \<open>setHash\<close>, \<open>setRootHash\<close>, \<open>hashChildren\<close>,
  \<open>hashNode\<close>, \<open>getCollapsed\<close>, \<open>commitDirty\<close>, \<open>getDirtyHashes\<close> and \<open>getNextHashAndKey\<close> of the three node types,
  with \<open>hasValidHash\<close>, \<open>computeAndSetNodeHash\<close>, \<open>collapseAndEncodeNode\<close> and \<open>encodeNodeAndCommitToDB\<close> of \<open>node.go\<close>.
  These methods stay in memory, so they recurse on the node: what a call on a child gives is an
  argument of the method of the parent. The storage to write to is a record of its operations.
\<close>

section \<open>Hashes\<close>

definition hasValidHash :: "node \<Rightarrow> bool tresult" where
  "hasValidHash n =
     (case isEmptyOrNil n of
        Some e \<Rightarrow> Inl e
      | None \<Rightarrow> if getHash n = None \<or> isDirty n then Inr False else Inr True)"

definition leaf_hashNode :: "trie_env \<Rightarrow> node \<Rightarrow> bytes tresult" where
  "leaf_hashNode env n = (case isEmptyOrNil n of Some e \<Rightarrow> Inl e | None \<Rightarrow> encodeNodeAndGetHash env n)"

definition leaf_setHash :: "trie_env \<Rightarrow> node \<Rightarrow> trie_error option \<times> node" where
  "leaf_setHash env n =
     (case isEmptyOrNil n of
        Some e \<Rightarrow> (Some e, n)
      | None \<Rightarrow>
          if getHash n \<noteq> None then (None, n)
          else case leaf_hashNode env n of Inl e \<Rightarrow> (Some e, n) | Inr hash \<Rightarrow> (None, setGivenHash n hash))"

text \<open>\<open>child.setHash()\<close> of the extension node has the error and the child of \<open>rc\<close>.\<close>

definition en_hashChildren ::
  "node \<Rightarrow> (trie_error option \<times> node) option \<Rightarrow> trie_error option \<times> node" where
  "en_hashChildren n rc =
     (case isEmptyOrNil n of
        Some e \<Rightarrow> (Some e, n)
      | None \<Rightarrow> (case rc of None \<Rightarrow> (None, n) | Some (err, child) \<Rightarrow> (err, set_child n 0 (Some child))))"

definition en_hashNode :: "trie_env \<Rightarrow> node \<Rightarrow> bytes tresult \<times> node" where
  "en_hashNode env n =
     (case isEmptyOrNil n of
        Some e \<Rightarrow> (Inl e, n)
      | None \<Rightarrow>
          (case n of
             ExtensionNode en (Some child) b \<Rightarrow>
               (case encodeNodeAndGetHash env child of
                  Inl e \<Rightarrow> (Inl e, n)
                | Inr encChild \<Rightarrow>
                    let n = ExtensionNode (en\<lparr>EncodedChild := encChild\<rparr>) (Some child) b
                    in (encodeNodeAndGetHash env n, n))
           | _ \<Rightarrow> (encodeNodeAndGetHash env n, n)))"

definition set_or_fail :: "bytes tresult \<times> node \<Rightarrow> trie_error option \<times> node" where
  "set_or_fail r = (case r of (Inl e, n) \<Rightarrow> (Some e, n) | (Inr hash, n) \<Rightarrow> (None, setGivenHash n hash))"

definition en_setHash ::
  "trie_env \<Rightarrow> node \<Rightarrow> (trie_error option \<times> node) option \<Rightarrow> trie_error option \<times> node" where
  "en_setHash env n rc =
     (case isEmptyOrNil n of
        Some e \<Rightarrow> (Some e, n)
      | None \<Rightarrow>
          if getHash n \<noteq> None then (None, n)
          else if isCollapsed n then set_or_fail (encodeNodeAndGetHash env n, n)
          else case en_hashChildren n rc of
                 (Some e, n) \<Rightarrow> (Some e, n)
               | (None, n) \<Rightarrow> set_or_fail (en_hashNode env n))"

text \<open>The children of a branch in order, the first error ends the loop.\<close>

fun hash_loop ::
  "(node option \<times> (trie_error option \<times> node) option) list \<Rightarrow> trie_error option \<times> node option list" where
  "hash_loop [] = (None, [])"
| "hash_loop ((c, None) # cs) = (let (err, cs') = hash_loop cs in (err, c # cs'))"
| "hash_loop ((c, Some (Some e, child)) # cs) = (Some e, Some child # map fst cs)"
| "hash_loop ((c, Some (None, child)) # cs) = (let (err, cs') = hash_loop cs in (err, Some child # cs'))"

definition bn_hashChildren ::
  "node \<Rightarrow> (trie_error option \<times> node) option list \<Rightarrow> trie_error option \<times> node" where
  "bn_hashChildren n rcs =
     (case isEmptyOrNil n of
        Some e \<Rightarrow> (Some e, n)
      | None \<Rightarrow>
          (case n of
             BranchNode bn cs b \<Rightarrow> (let (err, cs) = hash_loop (zip cs rcs) in (err, BranchNode bn cs b))
           | _ \<Rightarrow> (None, n)))"

text \<open>\<open>hashNode\<close> of the branch writes the hash of every child in memory over its encoded child.\<close>

fun encode_loop :: "trie_env \<Rightarrow> bytes list \<Rightarrow> node option list \<Rightarrow> trie_error option \<times> bytes list" where
  "encode_loop env (e # encs) (Some child # cs) =
     (case encodeNodeAndGetHash env child of
        Inl err \<Rightarrow> (Some err, e # encs)
      | Inr encChild \<Rightarrow> (let (err, encs') = encode_loop env encs cs in (err, encChild # encs')))"
| "encode_loop env (e # encs) (None # cs) = (let (err, encs') = encode_loop env encs cs in (err, e # encs'))"
| "encode_loop env encs cs = (None, encs)"

definition bn_hashNode :: "trie_env \<Rightarrow> node \<Rightarrow> bytes tresult \<times> node" where
  "bn_hashNode env n =
     (case isEmptyOrNil n of
        Some e \<Rightarrow> (Inl e, n)
      | None \<Rightarrow>
          (case n of
             BranchNode bn cs b \<Rightarrow>
               (case encode_loop env (EncodedChildren bn) cs of
                  (Some e, encs) \<Rightarrow> (Inl e, BranchNode (bn\<lparr>EncodedChildren := encs\<rparr>) cs b)
                | (None, encs) \<Rightarrow>
                    let n = BranchNode (bn\<lparr>EncodedChildren := encs\<rparr>) cs b
                    in (encodeNodeAndGetHash env n, n))
           | _ \<Rightarrow> (Inl ErrInvalidNode, n)))"

definition bn_setHash ::
  "trie_env \<Rightarrow> node \<Rightarrow> (trie_error option \<times> node) option list \<Rightarrow> trie_error option \<times> node" where
  "bn_setHash env n rcs =
     (case isEmptyOrNil n of
        Some e \<Rightarrow> (Some e, n)
      | None \<Rightarrow>
          if getHash n \<noteq> None then (None, n)
          else if isCollapsed n then set_or_fail (encodeNodeAndGetHash env n, n)
          else case bn_hashChildren n rcs of
                 (Some e, n) \<Rightarrow> (Some e, n)
               | (None, n) \<Rightarrow> set_or_fail (bn_hashNode env n))"

primrec setHash :: "trie_env \<Rightarrow> node \<Rightarrow> trie_error option \<times> node" where
  "setHash env (LeafNode ln b) = leaf_setHash env (LeafNode ln b)"
| "setHash env (ExtensionNode en c b) = en_setHash env (ExtensionNode en c b) (map_option (setHash env) c)"
| "setHash env (BranchNode bn cs b) = bn_setHash env (BranchNode bn cs b) (map (map_option (setHash env)) cs)"

section \<open>The root hash\<close>

text \<open>
  The branch at the root hashes its children in one goroutine each and waits for all of them. A
  goroutine works on its own child and sends its error to a channel; \<open>order\<close> is the order in which the
  goroutines end, and the first error sent is the one returned.
\<close>

definition setHashConcurrent :: "trie_env \<Rightarrow> node \<Rightarrow> trie_error list \<Rightarrow> trie_error list \<times> node" where
  "setHashConcurrent env n c = (case setHash env n of (None, n) \<Rightarrow> (c, n) | (Some e, n) \<Rightarrow> (c @ [e], n))"

fun concurrent_loop ::
  "trie_env \<Rightarrow> nat list \<Rightarrow> trie_error list \<Rightarrow> node option list \<Rightarrow> trie_error list \<times> node option list" where
  "concurrent_loop env [] errc cs = (errc, cs)"
| "concurrent_loop env (i # order) errc cs =
     (case cs ! i of
        None \<Rightarrow> concurrent_loop env order errc cs
      | Some child \<Rightarrow>
          (let (errc, child) = setHashConcurrent env child errc
           in concurrent_loop env order errc (cs[i := Some child])))"

definition bn_setRootHash :: "trie_env \<Rightarrow> nat list \<Rightarrow> node \<Rightarrow> trie_error option \<times> node" where
  "bn_setRootHash env order n =
     (case isEmptyOrNil n of
        Some e \<Rightarrow> (Some e, n)
      | None \<Rightarrow>
          if getHash n \<noteq> None then (None, n)
          else if isCollapsed n then set_or_fail (encodeNodeAndGetHash env n, n)
          else case n of
                 BranchNode bn cs b \<Rightarrow>
                   (let (errc, cs) = concurrent_loop env order [] cs; n = BranchNode bn cs b
                    in case errc of e # _ \<Rightarrow> (Some e, n) | [] \<Rightarrow> set_or_fail (bn_hashNode env n))
               | _ \<Rightarrow> (None, n))"

definition setRootHash :: "trie_env \<Rightarrow> nat list \<Rightarrow> node \<Rightarrow> trie_error option \<times> node" where
  "setRootHash env order n = (case n of BranchNode bn cs b \<Rightarrow> bn_setRootHash env order n | _ \<Rightarrow> setHash env n)"

section \<open>Collapsing\<close>

text \<open>The clone of an extension node is a copy. The clone of a branch shares the array of encoded
  children with the branch, so both get the hashes of the children.\<close>

definition getCollapsedEn :: "trie_env \<Rightarrow> node \<Rightarrow> node tresult \<times> node" where
  "getCollapsedEn env n =
     (case isEmptyOrNil n of
        Some e \<Rightarrow> (Inl e, n)
      | None \<Rightarrow>
          if isCollapsed n then (Inr n, n)
          else case n of
                 ExtensionNode en (Some child) b \<Rightarrow>
                   (case hasValidHash child of
                      Inl e \<Rightarrow> (Inl e, n)
                    | Inr ok \<Rightarrow>
                        (case (if ok then (None, child) else setHash env child) of
                           (Some e, child) \<Rightarrow> (Inl e, ExtensionNode en (Some child) b)
                         | (None, child) \<Rightarrow>
                             (Inr (ExtensionNode (en\<lparr>EncodedChild := slice_str (getHash child)\<rparr>) None b),
                              ExtensionNode en (Some child) b)))
               | _ \<Rightarrow> (Inl PanicNilDereference, n))"

fun collapse_loop :: "trie_env \<Rightarrow> bytes list \<Rightarrow> node option list \<Rightarrow> trie_error option \<times> bytes list \<times> node option list" where
  "collapse_loop env (e # encs) (Some child # cs) =
     (case hasValidHash child of
        Inl err \<Rightarrow> (Some err, e # encs, Some child # cs)
      | Inr ok \<Rightarrow>
          (case (if ok then (None, child) else setHash env child) of
             (Some err, child) \<Rightarrow> (Some err, e # encs, Some child # cs)
           | (None, child) \<Rightarrow>
               (let (err, encs', cs') = collapse_loop env encs cs
                in (err, slice_str (getHash child) # encs', Some child # cs'))))"
| "collapse_loop env (e # encs) (None # cs) =
     (let (err, encs', cs') = collapse_loop env encs cs in (err, e # encs', None # cs'))"
| "collapse_loop env encs cs = (None, encs, cs)"

definition getCollapsedBn :: "trie_env \<Rightarrow> node \<Rightarrow> node tresult \<times> node" where
  "getCollapsedBn env n =
     (case isEmptyOrNil n of
        Some e \<Rightarrow> (Inl e, n)
      | None \<Rightarrow>
          if isCollapsed n then (Inr n, n)
          else case n of
                 BranchNode bn cs b \<Rightarrow>
                   (case collapse_loop env (EncodedChildren bn) cs of
                      (Some e, encs, cs) \<Rightarrow> (Inl e, BranchNode (bn\<lparr>EncodedChildren := encs\<rparr>) cs b)
                    | (None, encs, cs) \<Rightarrow>
                        let bn = bn\<lparr>EncodedChildren := encs\<rparr>
                        in (Inr (BranchNode bn (map (\<lambda>_. None) cs) b), BranchNode bn cs b))
               | _ \<Rightarrow> (Inl ErrInvalidNode, n))"

definition getCollapsed :: "trie_env \<Rightarrow> node \<Rightarrow> node tresult \<times> node" where
  "getCollapsed env n =
     (case n of
        LeafNode ln b \<Rightarrow> (Inr n, n)
      | ExtensionNode en c b \<Rightarrow> getCollapsedEn env n
      | BranchNode bn cs b \<Rightarrow> getCollapsedBn env n)"

section \<open>Committing\<close>

text \<open>The storage: \<open>Get\<close> and \<open>Put\<close> of the storage manager on its state.\<close>

record 'd storer =
  st_Get :: "'d \<Rightarrow> db_get"
  st_Put :: "'d \<Rightarrow> bytes \<Rightarrow> bytes \<Rightarrow> trie_error option \<times> 'd"

definition computeAndSetNodeHash :: "trie_env \<Rightarrow> node \<Rightarrow> bytes tresult \<times> node" where
  "computeAndSetNodeHash env n =
     (let key = slice_str (getHash n)
      in if length key \<noteq> 0 then (Inr key, n)
         else case setHash env n of
                (Some e, n) \<Rightarrow> (Inl e, n)
              | (None, n) \<Rightarrow> (Inr (slice_str (getHash n)), n))"

definition collapseAndEncodeNode :: "trie_env \<Rightarrow> node \<Rightarrow> bytes tresult \<times> node" where
  "collapseAndEncodeNode env n =
     (case getCollapsed env n of
        (Inl e, n) \<Rightarrow> (Inl e, n)
      | (Inr collapsed, n) \<Rightarrow> (getEncodedNode env collapsed, n))"

definition encodeNodeAndCommitToDB ::
  "trie_env \<Rightarrow> 'd storer \<Rightarrow> node \<Rightarrow> 'd \<Rightarrow> trie_error option \<times> node \<times> 'd" where
  "encodeNodeAndCommitToDB env S n d =
     (case computeAndSetNodeHash env n of
        (Inl e, n) \<Rightarrow> (Some e, n, d)
      | (Inr key, n) \<Rightarrow>
          (case collapseAndEncodeNode env n of
             (Inl e, n) \<Rightarrow> (Some e, n, d)
           | (Inr val, n) \<Rightarrow> (let (err, d) = st_Put S d key val in (err, n, d))))"

type_synonym 'd commit = "u8 \<Rightarrow> u64 \<Rightarrow> 'd \<Rightarrow> trie_error option \<times> node \<times> 'd"

definition leaf_commitDirty :: "trie_env \<Rightarrow> 'd storer \<Rightarrow> node \<Rightarrow> 'd commit" where
  "leaf_commitDirty env S n level maxTrieLevelInMemory d =
     (case isEmptyOrNil n of
        Some e \<Rightarrow> (Some e, n, d)
      | None \<Rightarrow> if \<not> isDirty n then (None, n, d) else encodeNodeAndCommitToDB env S (setDirty n False) d)"

text \<open>What both inner nodes do once their children are committed.\<close>

definition commit_self :: "trie_env \<Rightarrow> 'd storer \<Rightarrow> (trie_env \<Rightarrow> node \<Rightarrow> node tresult \<times> node) \<Rightarrow> node \<Rightarrow> 'd commit" where
  "commit_self env S collapse n level maxTrieLevelInMemory d =
     (case encodeNodeAndCommitToDB env S (setDirty n False) d of
        (Some e, n, d) \<Rightarrow> (Some e, n, d)
      | (None, n, d) \<Rightarrow>
          if ucast level = maxTrieLevelInMemory then
            (case collapse env n of (Inl e, n) \<Rightarrow> (Some e, n, d) | (Inr collapsed, n) \<Rightarrow> (None, collapsed, d))
          else (None, n, d))"

definition en_commitDirty :: "trie_env \<Rightarrow> 'd storer \<Rightarrow> node \<Rightarrow> 'd commit option \<Rightarrow> 'd commit" where
  "en_commitDirty env S n rc level maxTrieLevelInMemory d =
     (let level = level + 1
      in case isEmptyOrNil n of
           Some e \<Rightarrow> (Some e, n, d)
         | None \<Rightarrow>
             if \<not> isDirty n then (None, n, d)
             else (case rc of
                     None \<Rightarrow> commit_self env S getCollapsedEn n level maxTrieLevelInMemory d
                   | Some commitChild \<Rightarrow>
                       (case commitChild level maxTrieLevelInMemory d of
                          (Some e, child, d) \<Rightarrow> (Some e, set_child n 0 (Some child), d)
                        | (None, child, d) \<Rightarrow>
                            commit_self env S getCollapsedEn (set_child n 0 (Some child)) level maxTrieLevelInMemory d)))"

fun commit_loop ::
  "u8 \<Rightarrow> u64 \<Rightarrow> (node option \<times> 'd commit option) list \<Rightarrow> 'd \<Rightarrow> trie_error option \<times> node option list \<times> 'd" where
  "commit_loop level maxTrieLevelInMemory [] d = (None, [], d)"
| "commit_loop level maxTrieLevelInMemory ((c, None) # cs) d =
     (let (err, cs', d) = commit_loop level maxTrieLevelInMemory cs d in (err, c # cs', d))"
| "commit_loop level maxTrieLevelInMemory ((c, Some commitChild) # cs) d =
     (case commitChild level maxTrieLevelInMemory d of
        (Some e, child, d) \<Rightarrow> (Some e, Some child # map fst cs, d)
      | (None, child, d) \<Rightarrow>
          (let (err, cs', d) = commit_loop level maxTrieLevelInMemory cs d in (err, Some child # cs', d)))"

definition bn_commitDirty :: "trie_env \<Rightarrow> 'd storer \<Rightarrow> node \<Rightarrow> 'd commit option list \<Rightarrow> 'd commit" where
  "bn_commitDirty env S n rcs level maxTrieLevelInMemory d =
     (let level = level + 1
      in case isEmptyOrNil n of
           Some e \<Rightarrow> (Some e, n, d)
         | None \<Rightarrow>
             if \<not> isDirty n then (None, n, d)
             else (case n of
                     BranchNode bn cs b \<Rightarrow>
                       (case commit_loop level maxTrieLevelInMemory (zip cs rcs) d of
                          (Some e, cs, d) \<Rightarrow> (Some e, BranchNode bn cs b, d)
                        | (None, cs, d) \<Rightarrow>
                            commit_self env S getCollapsedBn (BranchNode bn cs b) level maxTrieLevelInMemory d)
                   | _ \<Rightarrow> (Some ErrInvalidNode, n, d)))"

primrec commitDirty :: "trie_env \<Rightarrow> 'd storer \<Rightarrow> node \<Rightarrow> 'd commit" where
  "commitDirty env S (LeafNode ln b) = leaf_commitDirty env S (LeafNode ln b)"
| "commitDirty env S (ExtensionNode en c b) =
     en_commitDirty env S (ExtensionNode en c b) (map_option (commitDirty env S) c)"
| "commitDirty env S (BranchNode bn cs b) =
     bn_commitDirty env S (BranchNode bn cs b) (map (map_option (commitDirty env S)) cs)"

section \<open>Walking the hashes\<close>

text \<open>An index of the branch beyond its 17 encoded children panics.\<close>

definition leaf_getNextHashAndKey :: "CollapsedLn \<Rightarrow> bytes \<Rightarrow> bool \<times> bytes \<times> bytes" where
  "leaf_getNextHashAndKey ln key = (if key = ln_Key ln then (True, [], []) else (False, [], []))"

definition en_getNextHashAndKey :: "CollapsedEn \<Rightarrow> bytes \<Rightarrow> bool \<times> bytes \<times> bytes" where
  "en_getNextHashAndKey en key =
     (if length key = 0 then (False, [], [])
      else if length (en_Key en) > length key \<or> take (length (en_Key en)) key \<noteq> en_Key en then (False, [], [])
      else (False, EncodedChild en, drop (length (en_Key en)) key))"

definition bn_getNextHashAndKey :: "CollapsedBn \<Rightarrow> bytes \<Rightarrow> (bool \<times> bytes \<times> bytes) tresult" where
  "bn_getNextHashAndKey bn key =
     (case key of
        [] \<Rightarrow> Inr (False, [], [])
      | pos # nextKey \<Rightarrow>
          if unat pos \<ge> length (EncodedChildren bn) then Inl PanicIndexOutOfRange
          else Inr (False, EncodedChildren bn ! unat pos, nextKey))"

definition getNextHashAndKey :: "node \<Rightarrow> bytes \<Rightarrow> (bool \<times> bytes \<times> bytes) tresult" where
  "getNextHashAndKey n key =
     (case n of
        LeafNode ln b \<Rightarrow> Inr (leaf_getNextHashAndKey ln key)
      | ExtensionNode en c b \<Rightarrow> Inr (en_getNextHashAndKey en key)
      | BranchNode bn cs b \<Rightarrow> bn_getNextHashAndKey bn key)"

primrec getValue :: "node \<Rightarrow> slice" where
  "getValue (LeafNode ln b) = ln_Value ln"
| "getValue (ExtensionNode en c b) = Some []"
| "getValue (BranchNode bn cs b) = Some []"

text \<open>The hashes of the dirty nodes, a Go map used as a set.\<close>

definition en_getDirtyHashes ::
  "node \<Rightarrow> (bytes list \<Rightarrow> trie_error option \<times> bytes list) option \<Rightarrow> bytes list \<Rightarrow> trie_error option \<times> bytes list" where
  "en_getDirtyHashes n rc hashes =
     (case isEmptyOrNil n of
        Some e \<Rightarrow> (Some e, hashes)
      | None \<Rightarrow>
          if \<not> isDirty n then (None, hashes)
          else case rc of
                 None \<Rightarrow> (None, hashes)
               | Some child \<Rightarrow>
                   (case child hashes of
                      (Some e, hashes) \<Rightarrow> (Some e, hashes)
                    | (None, hashes) \<Rightarrow> (None, List.insert (slice_str (getHash n)) hashes)))"

fun dirty_loop :: "(bytes list \<Rightarrow> trie_error option \<times> bytes list) option list \<Rightarrow> bytes list \<Rightarrow> trie_error option \<times> bytes list" where
  "dirty_loop [] hashes = (None, hashes)"
| "dirty_loop (None # cs) hashes = dirty_loop cs hashes"
| "dirty_loop (Some child # cs) hashes =
     (case child hashes of (Some e, hashes) \<Rightarrow> (Some e, hashes) | (None, hashes) \<Rightarrow> dirty_loop cs hashes)"

definition bn_getDirtyHashes ::
  "node \<Rightarrow> (bytes list \<Rightarrow> trie_error option \<times> bytes list) option list \<Rightarrow> bytes list \<Rightarrow> trie_error option \<times> bytes list" where
  "bn_getDirtyHashes n rcs hashes =
     (case isEmptyOrNil n of
        Some e \<Rightarrow> (Some e, hashes)
      | None \<Rightarrow>
          if \<not> isDirty n then (None, hashes)
          else case dirty_loop rcs hashes of
                 (Some e, hashes) \<Rightarrow> (Some e, hashes)
               | (None, hashes) \<Rightarrow> (None, List.insert (slice_str (getHash n)) hashes))"

definition leaf_getDirtyHashes :: "node \<Rightarrow> bytes list \<Rightarrow> trie_error option \<times> bytes list" where
  "leaf_getDirtyHashes n hashes =
     (case isEmptyOrNil n of
        Some e \<Rightarrow> (Some e, hashes)
      | None \<Rightarrow> if \<not> isDirty n then (None, hashes) else (None, List.insert (slice_str (getHash n)) hashes))"

primrec getDirtyHashes :: "node \<Rightarrow> bytes list \<Rightarrow> trie_error option \<times> bytes list" where
  "getDirtyHashes (LeafNode ln b) = leaf_getDirtyHashes (LeafNode ln b)"
| "getDirtyHashes (ExtensionNode en c b) = en_getDirtyHashes (ExtensionNode en c b) (map_option getDirtyHashes c)"
| "getDirtyHashes (BranchNode bn cs b) = bn_getDirtyHashes (BranchNode bn cs b) (map (map_option getDirtyHashes) cs)"

end
