(* ===== verification/Trie.thy ===== *)
theory Trie
  imports Trie_Hash
begin

text \<open>
  The Patricia Merkle trie of \<open>trie/patriciaMerkleTrie.go\<close> and the proof verifier of
  \<open>trie/proofVerifier.go\<close>: the record of the trie and its operations. The marshaller and the hasher are
  \<open>env\<close>, the storage is \<open>S\<close> with its state \<open>d\<close>, \<open>order\<close> is the order in which the hashing goroutines end; the lock
  that every operation takes makes the operations atomic. Every operation returns the changed trie.
\<close>

section \<open>The trie\<close>

record patriciaMerkleTrie =
  root :: "node option"
  oldHashes :: "slice list"
  oldRoot :: slice
  maxTrieLevelInMemory :: u64

definition NewTrie :: "u64 \<Rightarrow> patriciaMerkleTrie tresult" where
  "NewTrie maxLevel =
     (if maxLevel = 0 then Inl ErrInvalidLevelValue
      else Inr \<lparr>root = None, oldHashes = [], oldRoot = Some [], maxTrieLevelInMemory = maxLevel\<rparr>)"

definition rootDepthLevel :: u32 where "rootDepthLevel = 0"

definition GetWithVersion ::
  "nat \<Rightarrow> trie_env \<Rightarrow> db_get \<Rightarrow> patriciaMerkleTrie \<Rightarrow> bytes \<Rightarrow> (get_res \<times> patriciaMerkleTrie) option" where
  "GetWithVersion fuel env db tr key =
     (case root tr of
        None \<Rightarrow> Some ((None, 0, 0, None), tr)
      | Some n \<Rightarrow>
          (case tryGetWithVersion fuel env db n (keyBytesToHex key) rootDepthLevel of
             None \<Rightarrow> None
           | Some ((value, depth, version, err), n) \<Rightarrow>
               let tr = tr\<lparr>root := Some n\<rparr>
               in case err of
                    Some e \<Rightarrow> Some ((None, depth, 0, Some e), tr)
                  | None \<Rightarrow> Some ((value, depth, version, None), tr)))"

definition trie_Get ::
  "nat \<Rightarrow> trie_env \<Rightarrow> db_get \<Rightarrow> patriciaMerkleTrie \<Rightarrow> bytes \<Rightarrow> ((slice \<times> u32 \<times> trie_error option) \<times> patriciaMerkleTrie) option" where
  "trie_Get fuel env db tr key =
     (case GetWithVersion fuel env db tr key of
        None \<Rightarrow> None
      | Some ((value, depth, version, err), tr) \<Rightarrow> Some ((value, depth, err), tr))"

text \<open>Before an update of a clean trie its root hash is remembered.\<close>

definition remember_root :: "patriciaMerkleTrie \<Rightarrow> node \<Rightarrow> patriciaMerkleTrie" where
  "remember_root tr n = (if isDirty n then tr else tr\<lparr>oldRoot := getHash n\<rparr>)"

definition trie_delete ::
  "nat \<Rightarrow> trie_env \<Rightarrow> db_get \<Rightarrow> patriciaMerkleTrie \<Rightarrow> bytes \<Rightarrow> (trie_error option \<times> patriciaMerkleTrie) option" where
  "trie_delete fuel env db tr hexKey =
     (case root tr of
        None \<Rightarrow> Some (None, tr)
      | Some n \<Rightarrow>
          let tr = remember_root tr n
          in case node_delete fuel env db n hexKey of
               None \<Rightarrow> None
             | Some (Inl e, n) \<Rightarrow> Some (Some e, tr\<lparr>root := Some n\<rparr>)
             | Some (Inr (dirty, newRoot, old), n) \<Rightarrow>
                 Some (None, tr\<lparr>root := newRoot, oldHashes := oldHashes tr @ old\<rparr>))"

definition trie_update ::
  "nat \<Rightarrow> trie_env \<Rightarrow> db_get \<Rightarrow> patriciaMerkleTrie \<Rightarrow> bytes \<Rightarrow> bytes \<Rightarrow> u8 \<Rightarrow> (trie_error option \<times> patriciaMerkleTrie) option" where
  "trie_update fuel env db tr key value version =
     (let hexKey = keyBytesToHex key
      in if length value \<noteq> 0 then
           (let newData = \<lparr>td_Key = hexKey, td_Value = Some value, td_Version = version\<rparr>
            in case root tr of
                 None \<Rightarrow> Some (None, tr\<lparr>root := Some (newLeafNode newData)\<rparr>)
               | Some n \<Rightarrow>
                   let tr = remember_root tr n
                   in case node_insert fuel env db n newData of
                        None \<Rightarrow> None
                      | Some (Inl e, n) \<Rightarrow> Some (Some e, tr\<lparr>root := Some n\<rparr>)
                      | Some (Inr (None, _), n) \<Rightarrow> Some (None, tr\<lparr>root := Some n\<rparr>)
                      | Some (Inr (Some newRoot, old), _) \<Rightarrow>
                          Some (None, tr\<lparr>root := Some newRoot, oldHashes := oldHashes tr @ old\<rparr>))
         else trie_delete fuel env db tr hexKey)"

definition Update ::
  "nat \<Rightarrow> trie_env \<Rightarrow> db_get \<Rightarrow> patriciaMerkleTrie \<Rightarrow> bytes \<Rightarrow> bytes \<Rightarrow> (trie_error option \<times> patriciaMerkleTrie) option" where
  "Update fuel env db tr key value = trie_update fuel env db tr key value (NotSpecified env)"

definition UpdateWithVersion ::
  "nat \<Rightarrow> trie_env \<Rightarrow> db_get \<Rightarrow> patriciaMerkleTrie \<Rightarrow> bytes \<Rightarrow> bytes \<Rightarrow> u8 \<Rightarrow> (trie_error option \<times> patriciaMerkleTrie) option" where
  "UpdateWithVersion fuel env db tr key value version = trie_update fuel env db tr key value version"

definition Delete ::
  "nat \<Rightarrow> trie_env \<Rightarrow> db_get \<Rightarrow> patriciaMerkleTrie \<Rightarrow> bytes \<Rightarrow> (trie_error option \<times> patriciaMerkleTrie) option" where
  "Delete fuel env db tr key = trie_delete fuel env db tr (keyBytesToHex key)"

section \<open>Root hash, commit and recreate\<close>

definition EmptyTrieHash :: bytes where
  "EmptyTrieHash = replicate 32 0"

definition IsEmptyTrie :: "bytes \<Rightarrow> bool" where
  "IsEmptyTrie r \<longleftrightarrow> length r = 0 \<or> r = EmptyTrieHash"

definition getRootHash :: "trie_env \<Rightarrow> nat list \<Rightarrow> patriciaMerkleTrie \<Rightarrow> bytes tresult \<times> patriciaMerkleTrie" where
  "getRootHash env order tr =
     (case root tr of
        None \<Rightarrow> (Inr EmptyTrieHash, tr)
      | Some n \<Rightarrow>
          (case getHash n of
             Some hash \<Rightarrow> (Inr hash, tr)
           | None \<Rightarrow>
               (case setRootHash env order n of
                  (Some e, n) \<Rightarrow> (Inl e, tr\<lparr>root := Some n\<rparr>)
                | (None, n) \<Rightarrow> (Inr (slice_str (getHash n)), tr\<lparr>root := Some n\<rparr>))))"

definition RootHash :: "trie_env \<Rightarrow> nat list \<Rightarrow> patriciaMerkleTrie \<Rightarrow> bytes tresult \<times> patriciaMerkleTrie" where
  "RootHash env order tr = getRootHash env order tr"

definition Commit ::
  "trie_env \<Rightarrow> 'd storer \<Rightarrow> nat list \<Rightarrow> patriciaMerkleTrie \<Rightarrow> 'd \<Rightarrow> trie_error option \<times> patriciaMerkleTrie \<times> 'd" where
  "Commit env S order tr d =
     (case root tr of
        None \<Rightarrow> (None, tr, d)
      | Some n \<Rightarrow>
          if \<not> isDirty n then (None, tr, d)
          else case setRootHash env order n of
                 (Some e, n) \<Rightarrow> (Some e, tr\<lparr>root := Some n\<rparr>, d)
               | (None, n) \<Rightarrow>
                   let tr = tr\<lparr>oldRoot := Some [], oldHashes := []\<rparr>
                   in case commitDirty env S n 0 (maxTrieLevelInMemory tr) d of
                        (err, n, d) \<Rightarrow> (err, tr\<lparr>root := Some n\<rparr>, d))"

definition recreateFromDb ::
  "trie_env \<Rightarrow> db_get \<Rightarrow> patriciaMerkleTrie \<Rightarrow> bytes \<Rightarrow> patriciaMerkleTrie tresult" where
  "recreateFromDb env db tr rootHash =
     (case NewTrie (maxTrieLevelInMemory tr) of
        Inl e \<Rightarrow> Inl e
      | Inr newTr \<Rightarrow>
          (case getNodeFromDBAndDecode env db rootHash of
             Inl e \<Rightarrow> Inl e
           | Inr newRoot \<Rightarrow> Inr (newTr\<lparr>root := Some (setGivenHash newRoot rootHash)\<rparr>)))"

definition recreate ::
  "trie_env \<Rightarrow> db_get \<Rightarrow> patriciaMerkleTrie \<Rightarrow> bytes \<Rightarrow> patriciaMerkleTrie tresult" where
  "recreate env db tr rootHash =
     (if IsEmptyTrie rootHash then NewTrie (maxTrieLevelInMemory tr) else recreateFromDb env db tr rootHash)"

definition GetObsoleteHashes :: "patriciaMerkleTrie \<Rightarrow> slice list" where
  "GetObsoleteHashes tr = oldHashes tr"

definition GetOldRoot :: "patriciaMerkleTrie \<Rightarrow> slice" where
  "GetOldRoot tr = oldRoot tr"

definition GetDirtyHashes :: "trie_env \<Rightarrow> nat list \<Rightarrow> patriciaMerkleTrie \<Rightarrow> bytes list tresult \<times> patriciaMerkleTrie" where
  "GetDirtyHashes env order tr =
     (case root tr of
        None \<Rightarrow> (Inr [], tr)
      | Some n \<Rightarrow>
          (case setRootHash env order n of
             (Some e, n) \<Rightarrow> (Inl e, tr\<lparr>root := Some n\<rparr>)
           | (None, n) \<Rightarrow>
               (case getDirtyHashes n [] of
                  (Some e, _) \<Rightarrow> (Inl e, tr\<lparr>root := Some n\<rparr>)
                | (None, hashes) \<Rightarrow> (Inr hashes, tr\<lparr>root := Some n\<rparr>))))"

definition GetSerializedNode :: "db_get \<Rightarrow> bytes \<Rightarrow> bytes tresult" where
  "GetSerializedNode db hash = db hash"

text \<open>\<open>versionForNewlyAddedData\<close> is given by the epochs handler.\<close>

definition IsMigratedToLatestVersion :: "trie_env \<Rightarrow> u8 \<Rightarrow> patriciaMerkleTrie \<Rightarrow> bool tresult" where
  "IsMigratedToLatestVersion env versionForNewlyAddedData tr =
     (case root tr of
        None \<Rightarrow> Inr True
      | Some n \<Rightarrow>
          (case getVersion env n of Inl e \<Rightarrow> Inl e | Inr version \<Rightarrow> Inr (version = versionForNewlyAddedData)))"

section \<open>Merkle proofs\<close>

text \<open>The loop of \<open>GetProof\<close> goes down the nodes in place; \<open>next_pos\<close> is the child it goes to.\<close>

definition next_pos :: "node \<Rightarrow> bytes \<Rightarrow> nat" where
  "next_pos n key = (case n of BranchNode bn cs b \<Rightarrow> unat (hd key) | _ \<Rightarrow> 0)"

fun proof_loop ::
  "nat \<Rightarrow> trie_env \<Rightarrow> db_get \<Rightarrow> node \<Rightarrow> bytes \<Rightarrow> bytes list \<Rightarrow> ((bytes list \<times> slice) tresult \<times> node) option" where
  "proof_loop 0 env db currentNode hexKey nodes = None"
| "proof_loop (Suc fuel) env db currentNode hexKey nodes =
     (case getEncodedNode env currentNode of
        Inl e \<Rightarrow> Some (Inl e, currentNode)
      | Inr encodedNode \<Rightarrow>
          let nodes = nodes @ [encodedNode]; value = getValue currentNode
          in case getNext env db currentNode hexKey of
               (Inl e, n) \<Rightarrow> Some (Inl e, n)
             | (Inr (None, _), n) \<Rightarrow> Some (Inr (nodes, value), n)
             | (Inr (Some child, key), n) \<Rightarrow>
                 (case proof_loop fuel env db child key nodes of
                    None \<Rightarrow> None
                  | Some (r, child) \<Rightarrow> Some (r, set_child n (next_pos n hexKey) (Some child))))"

definition GetProof ::
  "nat \<Rightarrow> trie_env \<Rightarrow> db_get \<Rightarrow> nat list \<Rightarrow> patriciaMerkleTrie \<Rightarrow> bytes \<Rightarrow>
   ((bytes list \<times> slice) tresult \<times> patriciaMerkleTrie) option" where
  "GetProof fuel env db order tr key =
     (case root tr of
        None \<Rightarrow> Some (Inl ErrNilNode, tr)
      | Some n \<Rightarrow>
          (case setRootHash env order n of
             (Some e, n) \<Rightarrow> Some (Inl e, tr\<lparr>root := Some n\<rparr>)
           | (None, n) \<Rightarrow>
               (case proof_loop fuel env db n (keyBytesToHex key) [] of
                  None \<Rightarrow> None
                | Some (r, n) \<Rightarrow> Some (r, tr\<lparr>root := Some n\<rparr>))))"

fun verify_loop :: "trie_env \<Rightarrow> bytes \<Rightarrow> bytes \<Rightarrow> slice list \<Rightarrow> bool tresult" where
  "verify_loop env wantHash key [] = Inr False"
| "verify_loop env wantHash key (None # nodes) = Inr False"
| "verify_loop env wantHash key (Some encodedNode # nodes) =
     (if wantHash \<noteq> Compute env encodedNode then Inr False
      else case decodeNode env encodedNode of
             Inl e \<Rightarrow> Inl e
           | Inr n \<Rightarrow>
               (case getNextHashAndKey n key of
                  Inl e \<Rightarrow> Inl e
                | Inr (proofVerified, wantHash, key) \<Rightarrow>
                    if proofVerified then Inr True else verify_loop env wantHash key nodes))"

definition verifyProof :: "trie_env \<Rightarrow> bytes \<Rightarrow> bytes \<Rightarrow> slice list \<Rightarrow> bool tresult" where
  "verifyProof env rootHash key nodes = verify_loop env rootHash (keyBytesToHex key) nodes"

definition VerifyProof :: "trie_env \<Rightarrow> bytes \<Rightarrow> bytes \<Rightarrow> slice list \<Rightarrow> bool tresult" where
  "VerifyProof env rootHash key nodes =
     (case verifyProof env rootHash (Compute env key) nodes of
        Inl e \<Rightarrow> Inl e
      | Inr ok \<Rightarrow> if ok then Inr True else verifyProof env rootHash key nodes)"

text \<open>The stand-alone verifier has a trie that holds only the marshaller and the hasher.\<close>

record merkleProofVerifier =
  mpv_env :: trie_env

definition NewMerkleProofVerifier :: "trie_env \<Rightarrow> merkleProofVerifier" where
  "NewMerkleProofVerifier env = \<lparr>mpv_env = env\<rparr>"

definition mpv_VerifyProof :: "merkleProofVerifier \<Rightarrow> bytes \<Rightarrow> bytes \<Rightarrow> slice list \<Rightarrow> bool tresult" where
  "mpv_VerifyProof mpv rootHash key nodes = VerifyProof (mpv_env mpv) rootHash key nodes"

end
