(* ===== verification/Trie_Spec.thy ===== *)
theory Trie_Spec
  imports Trie
begin

text \<open>
  What the nodes of the Patricia Merkle trie stand for: a Patricia tree with all children present
  (\<open>ptree\<close>), and the map from keys to values and versions it holds. \<open>repr\<close> relates a node, with its collapsed
  children, cached hashes and dirty flags, to its tree: a cached hash is the hash of the tree, a
  clean or collapsed node is in the storage.
\<close>

section \<open>The codec and the hasher\<close>

text \<open>Byte strings whose length the encoding can carry.\<close>

definition sized :: "bytes \<Rightarrow> bool" where
  "sized x \<longleftrightarrow> length x < 2 ^ 31"

text \<open>
  What the trie relies on: the marshaller reads back what it has written (an empty value is read
  back as nil, hence the condition on leaves), the hasher gives neither an empty hash nor the hash
  reserved for the empty trie, and the version that new data does not specify is 0.
\<close>

locale node_codec =
  fixes env :: trie_env
  assumes notSpecified: "NotSpecified env = 0"
    and leaf_codec: "ln_Value ln = Some v \<Longrightarrow> v \<noteq> [] \<Longrightarrow> sized v \<Longrightarrow> sized (ln_Key ln) \<Longrightarrow>
      \<exists>m. MarshalLn env ln = Inr m \<and> UnmarshalLn env m = Inr ln"
    and extension_codec: "sized (en_Key en) \<Longrightarrow> sized (EncodedChild en) \<Longrightarrow>
      \<exists>m. MarshalEn env en = Inr m \<and> UnmarshalEn env m = Inr en"
    and branch_codec: "length (EncodedChildren bn) = nrOfChildren \<Longrightarrow> list_all sized (EncodedChildren bn) \<Longrightarrow>
      length (ChildrenVersion bn) \<in> {0, nrOfChildren} \<Longrightarrow>
      \<exists>m. MarshalBn env bn = Inr m \<and> UnmarshalBn env m = Inr bn"
    and hash_sized: "sized (Compute env x)"
    and hash_nonempty: "Compute env x \<noteq> []"
    and hash_not_reserved: "Compute env x \<noteq> EmptyTrieHash"

section \<open>Patricia trees\<close>

datatype ptree =
    PLeaf bytes bytes u8
  | PExt bytes ptree
  | PBranch "nat \<Rightarrow> ptree option"

type_synonym trie_map = "bytes \<rightharpoonup> bytes \<times> u8"

primrec pmap :: "ptree \<Rightarrow> trie_map" where
  "pmap (PLeaf k v ver) = [k \<mapsto> (v, ver)]"
| "pmap (PExt p t) = (\<lambda>k. if take (length p) k = p then pmap t (drop (length p) k) else None)"
| "pmap (PBranch f) =
     (\<lambda>k. case k of [] \<Rightarrow> None | x # r \<Rightarrow> (case map_option pmap (f (unat x)) of None \<Rightarrow> None | Some m \<Rightarrow> m r))"

definition is_branch :: "ptree \<Rightarrow> bool" where
  "is_branch t \<longleftrightarrow> (\<exists>f. t = PBranch f)"

text \<open>The shape the operations keep: no empty extension, no extension below an extension, no branch
  with less than two children.\<close>

primrec canonical :: "ptree \<Rightarrow> bool" where
  "canonical (PLeaf k v ver) \<longleftrightarrow> v \<noteq> [] \<and> sized k \<and> sized v"
| "canonical (PExt p t) \<longleftrightarrow> p \<noteq> [] \<and> sized p \<and> is_branch t \<and> canonical t"
| "canonical (PBranch f) \<longleftrightarrow>
     (\<forall>i. f i \<noteq> None \<longrightarrow> i < nrOfChildren) \<and> (\<exists>i j. i \<noteq> j \<and> f i \<noteq> None \<and> f j \<noteq> None) \<and>
     (\<forall>i. case map_option canonical (f i) of None \<Rightarrow> True | Some c \<Rightarrow> c)"

lemma pmap_PBranch [simp]:
  "pmap (PBranch f) [] = None"
  "pmap (PBranch f) (x # r) = (case f (unat x) of None \<Rightarrow> None | Some t \<Rightarrow> pmap t r)"
  by (simp_all add: option.case_eq_if option.map_sel)

lemma pmap_PExt [simp]: "pmap (PExt p t) (p @ r) = pmap t r"
  by simp

declare pmap.simps(3) [simp del]

lemma canonical_PBranch [simp]:
  "canonical (PBranch f) \<longleftrightarrow>
     (\<forall>i. f i \<noteq> None \<longrightarrow> i < nrOfChildren) \<and> (\<exists>i j. i \<noteq> j \<and> f i \<noteq> None \<and> f j \<noteq> None) \<and>
     (\<forall>i t. f i = Some t \<longrightarrow> canonical t)"
  by (auto simp: split: option.splits)

declare canonical.simps(3) [simp del]

section \<open>Versions, encodings and hashes of trees\<close>

text \<open>The versions a branch keeps for children whose versions are \<open>vs\<close>: none at all when no version is
  specified.\<close>

definition pversions :: "(nat \<Rightarrow> u8 option) \<Rightarrow> bytes" where
  "pversions vs =
     (let l = map (\<lambda>i. case vs i of None \<Rightarrow> 0 | Some v \<Rightarrow> v) [0..<nrOfChildren]
      in if list_all (\<lambda>v. v = 0) l then [] else l)"

definition common_version :: "(nat \<Rightarrow> u8 option) \<Rightarrow> u8" where
  "common_version vs =
     (case filter (\<lambda>i. vs i \<noteq> None) [0..<nrOfChildren] of
        [] \<Rightarrow> 0
      | i # is \<Rightarrow> if list_ex (\<lambda>j. vs j \<noteq> vs i) is then 0 else the (vs i))"

primrec pversion :: "ptree \<Rightarrow> u8" where
  "pversion (PLeaf k v ver) = ver"
| "pversion (PExt p t) = pversion t"
| "pversion (PBranch f) = common_version (\<lambda>i. map_option pversion (f i))"

definition or_empty :: "bytes tresult \<Rightarrow> bytes" where
  "or_empty r = (case r of Inl e \<Rightarrow> [] | Inr m \<Rightarrow> m)"

text \<open>The collapsed node of a tree whose children have the given hashes.\<close>

definition pl_node :: "bytes \<Rightarrow> bytes \<Rightarrow> u8 \<Rightarrow> CollapsedLn" where
  "pl_node k v ver = \<lparr>ln_Key = k, ln_Value = Some v, ln_Version = ucast ver\<rparr>"

definition pe_node :: "bytes \<Rightarrow> bytes \<Rightarrow> u8 \<Rightarrow> CollapsedEn" where
  "pe_node p h ver = \<lparr>en_Key = p, EncodedChild = h, ChildVersion = ucast ver\<rparr>"

definition pb_node :: "(nat \<Rightarrow> bytes option) \<Rightarrow> (nat \<Rightarrow> u8 option) \<Rightarrow> CollapsedBn" where
  "pb_node hs vs =
     \<lparr>EncodedChildren = map (\<lambda>i. case hs i of None \<Rightarrow> [] | Some h \<Rightarrow> h) [0..<nrOfChildren], ChildrenVersion = pversions vs\<rparr>"

text \<open>The encoding of the node of a tree; its hash is the key of the node in the storage.\<close>

primrec penc :: "trie_env \<Rightarrow> ptree \<Rightarrow> bytes" where
  "penc env (PLeaf k v ver) = or_empty (MarshalLn env (pl_node k v ver)) @ [leaf_type]"
| "penc env (PExt p t) = or_empty (MarshalEn env (pe_node p (Compute env (penc env t)) (pversion t))) @ [extension_type]"
| "penc env (PBranch f) =
     or_empty (MarshalBn env (pb_node (\<lambda>i. map_option (\<lambda>e. Compute env e) (map_option (penc env) (f i)))
       (\<lambda>i. map_option pversion (f i)))) @ [branch_type]"

definition phash :: "trie_env \<Rightarrow> ptree \<Rightarrow> bytes" where
  "phash env t = Compute env (penc env t)"

definition branch_node :: "trie_env \<Rightarrow> (nat \<Rightarrow> ptree option) \<Rightarrow> CollapsedBn" where
  "branch_node env f = pb_node (\<lambda>i. map_option (phash env) (f i)) (\<lambda>i. map_option pversion (f i))"

lemma penc_PExt: "penc env (PExt p t) = or_empty (MarshalEn env (pe_node p (phash env t) (pversion t))) @ [extension_type]"
  by (simp add: phash_def)

lemma penc_PBranch: "penc env (PBranch f) = or_empty (MarshalBn env (branch_node env f)) @ [branch_type]"
  by (simp add: branch_node_def phash_def [abs_def] option.map_comp comp_def)

declare penc.simps(2,3) [simp del]

section \<open>Representation\<close>

text \<open>The tree is in the storage, node by node.\<close>

primrec stored :: "trie_env \<Rightarrow> db_get \<Rightarrow> ptree \<Rightarrow> bool" where
  "stored env db (PLeaf k v ver) \<longleftrightarrow> db (phash env (PLeaf k v ver)) = Inr (penc env (PLeaf k v ver))"
| "stored env db (PExt p t) \<longleftrightarrow> db (phash env (PExt p t)) = Inr (penc env (PExt p t)) \<and> stored env db t"
| "stored env db (PBranch f) \<longleftrightarrow>
     db (phash env (PBranch f)) = Inr (penc env (PBranch f)) \<and>
     (\<forall>i. case map_option (stored env db) (f i) of None \<Rightarrow> True | Some s \<Rightarrow> s)"

lemma stored_PBranch [simp]:
  "stored env db (PBranch f) \<longleftrightarrow>
     db (phash env (PBranch f)) = Inr (penc env (PBranch f)) \<and> (\<forall>i t. f i = Some t \<longrightarrow> stored env db t)"
  by (auto split: option.splits)

declare stored.simps(3) [simp del]

lemma stored_db: "stored env db t \<Longrightarrow> db (phash env t) = Inr (penc env t)"
  by (cases t) simp_all

text \<open>The encodings of the nodes of a tree are in \<open>U\<close>. Freedom from collisions is only ever asked of the
  encodings in such a set: a hash of bounded length has collisions.\<close>

primrec tracked :: "trie_env \<Rightarrow> bytes set \<Rightarrow> ptree \<Rightarrow> bool" where
  "tracked env U (PLeaf k v ver) \<longleftrightarrow> penc env (PLeaf k v ver) \<in> U"
| "tracked env U (PExt p t) \<longleftrightarrow> penc env (PExt p t) \<in> U \<and> tracked env U t"
| "tracked env U (PBranch f) \<longleftrightarrow>
     penc env (PBranch f) \<in> U \<and> (\<forall>i. case map_option (tracked env U) (f i) of None \<Rightarrow> True | Some s \<Rightarrow> s)"

lemma tracked_PBranch [simp]:
  "tracked env U (PBranch f) \<longleftrightarrow> penc env (PBranch f) \<in> U \<and> (\<forall>i t. f i = Some t \<longrightarrow> tracked env U t)"
  by (auto split: option.splits)

declare tracked.simps(3) [simp del]

lemma tracked_enc: "tracked env U t \<Longrightarrow> penc env t \<in> U"
  by (cases t) simp_all

text \<open>A cached hash is right and the encoded children are up to date with it; a clean node is in the
  storage.\<close>

definition base_ok :: "trie_env \<Rightarrow> db_get \<Rightarrow> ptree \<Rightarrow> bool \<Rightarrow> baseNode \<Rightarrow> bool" where
  "base_ok env db t synced b \<longleftrightarrow>
     (\<forall>h. node_hash b = Some h \<longrightarrow> h = phash env t \<and> synced) \<and>
     (\<not> node_dirty b \<longrightarrow> node_hash b \<noteq> None \<and> stored env db t)"

text \<open>A child in memory represents its tree by \<open>R\<close>; a collapsed one is given by its hash.\<close>

definition child_ok :: "trie_env \<Rightarrow> db_get \<Rightarrow> (node \<Rightarrow> bool) \<Rightarrow> ptree \<Rightarrow> node option \<Rightarrow> bytes \<Rightarrow> bool" where
  "child_ok env db R t c enc \<longleftrightarrow>
     (case c of Some child \<Rightarrow> R child | None \<Rightarrow> enc = phash env t \<and> stored env db t)"

text \<open>A node with a hash has no child in memory without one.\<close>

definition hashed :: "node option \<Rightarrow> bool" where
  "hashed c \<longleftrightarrow> (case c of None \<Rightarrow> True | Some n \<Rightarrow> getHash n \<noteq> None)"

primrec repr :: "trie_env \<Rightarrow> db_get \<Rightarrow> ptree \<Rightarrow> node \<Rightarrow> bool" where
  "repr env db (PLeaf k v ver) n \<longleftrightarrow>
     (\<exists>b. n = LeafNode (pl_node k v ver) b \<and> base_ok env db (PLeaf k v ver) True b)"
| "repr env db (PExt p t) n \<longleftrightarrow>
     (\<exists>enc c b. n = ExtensionNode (pe_node p enc (pversion t)) c b \<and> child_ok env db (repr env db t) t c enc \<and>
        base_ok env db (PExt p t) (enc = phash env t \<and> hashed c) b)"
| "repr env db (PBranch f) n \<longleftrightarrow>
     (\<exists>bn cs b. n = BranchNode bn cs b \<and> wf_bn bn cs \<and> ChildrenVersion bn = pversions (\<lambda>i. map_option pversion (f i)) \<and>
        (\<forall>i < nrOfChildren.
           case map_option (repr env db) (f i) of
             None \<Rightarrow> cs ! i = None \<and> EncodedChildren bn ! i = []
           | Some R \<Rightarrow> child_ok env db R (the (f i)) (cs ! i) (EncodedChildren bn ! i)) \<and>
        base_ok env db (PBranch f) (bn = branch_node env f \<and> list_all hashed cs) b)"

text \<open>The children of a branch node against the children of the tree.\<close>

definition children_ok :: "trie_env \<Rightarrow> db_get \<Rightarrow> (nat \<Rightarrow> ptree option) \<Rightarrow> CollapsedBn \<Rightarrow> node option list \<Rightarrow> bool" where
  "children_ok env db f bn cs \<longleftrightarrow>
     wf_bn bn cs \<and> ChildrenVersion bn = pversions (\<lambda>i. map_option pversion (f i)) \<and>
     (\<forall>i < nrOfChildren.
        case f i of
          None \<Rightarrow> cs ! i = None \<and> EncodedChildren bn ! i = []
        | Some t \<Rightarrow> child_ok env db (repr env db t) t (cs ! i) (EncodedChildren bn ! i))"

lemma repr_PBranch [simp]:
  "repr env db (PBranch f) n \<longleftrightarrow>
     (\<exists>bn cs b. n = BranchNode bn cs b \<and> children_ok env db f bn cs \<and> base_ok env db (PBranch f) (bn = branch_node env f \<and> list_all hashed cs) b)"
proof -
  have "(case map_option (repr env db) (f i) of
             None \<Rightarrow> cs ! i = None \<and> EncodedChildren bn ! i = []
           | Some R \<Rightarrow> child_ok env db R (the (f i)) (cs ! i) (EncodedChildren bn ! i)) =
        (case f i of
          None \<Rightarrow> cs ! i = None \<and> EncodedChildren bn ! i = []
        | Some t \<Rightarrow> child_ok env db (repr env db t) t (cs ! i) (EncodedChildren bn ! i))" for bn :: CollapsedBn and cs i
    by (simp split: option.splits)
  then show ?thesis unfolding repr.simps(3) children_ok_def by (simp only: conj_assoc)
qed

declare repr.simps(3) [simp del]

end
