(* ===== verification/Trie_Refine.thy ===== *)
theory Trie_Refine
  imports Trie_Spec
begin

text \<open>
  The nodes of the trie against the maps they stand for, under the laws of the codec and the hasher:
  versions of branches, stored nodes are read back, resolving a collapsed child keeps what a node
  represents, and a lookup gives what the map holds. Enough fuel is one more than the length of the key.
\<close>

section \<open>Keys of a map\<close>

text \<open>No key continues another one, every nibble is a position of a branch, and the length is one the
  encoding can carry.\<close>

definition trie_keys :: "bytes set \<Rightarrow> bool" where
  "trie_keys S \<longleftrightarrow> (\<forall>a \<in> S. \<forall>b. a @ b \<in> S \<longrightarrow> b = []) \<and>
     (\<forall>k \<in> S. sized k \<and> (\<forall>x \<in> set k. unat x < nrOfChildren))"

lemma trie_keys_suffix: "trie_keys S \<Longrightarrow> (\<And>k. k \<in> S' \<Longrightarrow> p @ k \<in> S) \<Longrightarrow> trie_keys S'"
proof -
  assume S: "trie_keys S" "\<And>k. k \<in> S' \<Longrightarrow> p @ k \<in> S"
  have "b = []" if "a \<in> S'" "a @ b \<in> S'" for a b
    using S(1) S(2) [OF that(1)] S(2) [OF that(2)] unfolding trie_keys_def by (metis append.assoc)
  moreover have "sized k \<and> (\<forall>x \<in> set k. unat x < nrOfChildren)" if "k \<in> S'" for k
  proof -
    have "sized (p @ k)" "\<forall>x \<in> set (p @ k). unat x < nrOfChildren" using S(1) S(2) [OF that] unfolding trie_keys_def by blast+
    then show ?thesis by (simp add: sized_def)
  qed
  ultimately show ?thesis unfolding trie_keys_def by blast
qed

lemma trie_keys_PExt:
  "trie_keys (insert (p @ r) (dom (pmap (PExt p t)))) \<Longrightarrow> trie_keys (insert r (dom (pmap t)))"
  by (rule trie_keys_suffix [where p = p]) auto

lemma trie_keys_PBranch:
  "trie_keys (insert (x # r) (dom (pmap (PBranch f)))) \<Longrightarrow> f (unat x) = Some t \<Longrightarrow> trie_keys (insert r (dom (pmap t)))"
  by (rule trie_keys_suffix [where p = "[x]"]) auto

lemma hex_key_nibbles: "hex_key k \<Longrightarrow> x \<in> set k \<Longrightarrow> unat x < nrOfChildren"
  by (force simp: hex_key_def hexTerminator_def nrOfChildren_def word_less_nat_alt)

lemma trie_keys_hex: "\<forall>k \<in> S. hex_key k \<and> sized k \<Longrightarrow> trie_keys S"
  unfolding trie_keys_def using hex_key_prefix_free hex_key_nibbles by blast

lemma of_nat_child: "i < nrOfChildren \<Longrightarrow> unat (of_nat i :: u8) = i"
  by (simp add: nrOfChildren_def unat_of_nat)

lemma canonical_dom: "canonical t \<Longrightarrow> \<exists>k. pmap t k \<noteq> None"
proof (induction t)
  case (PExt p t)
  then show ?case by (metis canonical.simps(2) pmap_PExt)
next
  case (PBranch f)
  then obtain i t where i: "i < nrOfChildren" "f i = Some t" "canonical t" by auto
  have "f i \<in> range f" by simp
  then obtain k where "pmap t k \<noteq> None" using PBranch.IH [of "f i" t] i by auto
  then have "pmap (PBranch f) (of_nat i # k) \<noteq> None" using i by (simp add: of_nat_child)
  then show ?case by blast
qed auto

lemma trie_keys_ext_nibble:
  assumes "trie_keys (insert key (dom (pmap (PExt p t))))" "canonical t" "x \<in> set p"
  shows "unat x < nrOfChildren"
proof -
  obtain k where "pmap t k \<noteq> None" using canonical_dom assms(2) by blast
  then have "p @ k \<in> dom (pmap (PExt p t))" by (simp add: domIff)
  then have "\<forall>y \<in> set (p @ k). unat y < nrOfChildren" using assms(1) unfolding trie_keys_def by blast
  then show ?thesis using assms(3) by simp
qed

lemma branch_key_Cons:
  assumes "canonical (PBranch f)" "trie_keys (insert key (dom (pmap (PBranch f))))"
  shows "\<exists>x r. key = x # r"
proof (cases key)
  case Nil
  obtain k where k: "pmap (PBranch f) k \<noteq> None" using canonical_dom assms(1) by blast
  then have "[] @ k \<in> dom (pmap (PBranch f))" by (simp add: domIff)
  then have "k = []" using assms(2) Nil unfolding trie_keys_def by blast
  then show ?thesis using k by simp
qed simp

section \<open>Versions\<close>

lemma pversions_default: "pversions (vs(i \<mapsto> 0)) = pversions (vs(i := None))"
proof -
  have "(case (vs(i \<mapsto> 0)) j of None \<Rightarrow> 0 | Some v \<Rightarrow> v) = (case (vs(i := None)) j of None \<Rightarrow> 0 | Some v \<Rightarrow> v)" for j by simp
  then show ?thesis by (simp add: pversions_def)
qed

lemma length_pversions: "length (pversions vs) = 0 \<or> length (pversions vs) = nrOfChildren"
  by (simp add: pversions_def Let_def)

lemma pversions_nth: "pversions vs \<noteq> [] \<Longrightarrow> i < nrOfChildren \<Longrightarrow> vs i = Some v \<Longrightarrow> pversions vs ! i = v"
  by (auto simp: pversions_def Let_def split: if_splits)

lemma pversions_Nil: "pversions vs = [] \<Longrightarrow> i < nrOfChildren \<Longrightarrow> vs i = Some v \<Longrightarrow> v = 0"
  by (force simp: pversions_def Let_def list_all_iff nrOfChildren_def split: if_splits)

lemma setVersion_pversions:
  assumes "NotSpecified env = 0" "ChildrenVersion bn = pversions vs" "i < nrOfChildren"
  shows "ChildrenVersion (setVersionForChild env bn v i) = pversions (vs(i \<mapsto> v))"
proof -
  let ?l = "map (\<lambda>i. case vs i of None \<Rightarrow> 0 | Some v \<Rightarrow> v) [0..<nrOfChildren]"
  have upd: "map (\<lambda>j. case (vs(i \<mapsto> v)) j of None \<Rightarrow> 0 | Some v \<Rightarrow> v) [0..<nrOfChildren] = ?l[i := v]"
    by (rule nth_equalityI) (auto simp: nth_list_update)
  have l: "length ?l = nrOfChildren" by simp
  have new: "pversions (vs(i \<mapsto> v)) = (if list_all (\<lambda>v. v = 0) (?l[i := v]) then [] else ?l[i := v])"
    unfolding pversions_def upd Let_def ..
  show ?thesis
  proof (cases "list_all (\<lambda>v. v = 0) ?l")
    case True
    then have z: "?l = replicate nrOfChildren 0" using l by (intro replicate_eqI) (auto simp: list_all_iff)
    have cv: "ChildrenVersion bn = []" using True assms(2) by (simp add: pversions_def)
    show ?thesis
    proof (cases "v = 0")
      case True
      have "?l[i := v] = ?l" using z True assms(3) by (metis list_update_id nth_replicate)
      then show ?thesis using new True assms(1) cv \<open>list_all _ ?l\<close> by (simp add: setVersionForChild_def Let_def)
    next
      case False
      then have "\<not> list_all (\<lambda>v. v = 0) (?l[i := v])"
        using assms(3) l by (metis (mono_tags, lifting) list_all_iff set_update_memI)
      then show ?thesis using new False assms(1) cv z by (simp add: setVersionForChild_def Let_def)
    qed
  next
    case False
    then have cv: "ChildrenVersion bn = ?l" using assms(2) by (simp add: pversions_def Let_def)
    have rev: "list_ex (\<lambda>v. v \<noteq> 0) xs \<longleftrightarrow> \<not> list_all (\<lambda>v. v = 0) xs" for xs :: bytes
      by (auto simp: list_ex_iff list_all_iff)
    have "ChildrenVersion bn \<noteq> []" using cv l by (simp add: nrOfChildren_def)
    moreover have "v \<noteq> 0 \<Longrightarrow> \<not> list_all (\<lambda>v. v = 0) (?l[i := v])"
      using assms(3) l by (metis (mono_tags, lifting) list_all_iff set_update_memI)
    ultimately show ?thesis
      unfolding setVersionForChild_def revertChildrenVersionSliceIfNeeded_def assms(1) rev new
      using cv l by (simp add: Let_def)
  qed
qed

lemma ucast_down: "ucast (ucast (v :: u8) :: u32) = v"
  by (simp add: unsigned_ucast_eq take_bit_word_eq_self)

lemma narrow_ucast: "narrow_version (ucast (v :: u8)) = Inr v"
proof -
  have "unat v < 2 ^ LENGTH(8)" by (rule unsigned_less)
  then have "\<not> 255 < (ucast v :: u32)" by (simp add: word_less_nat_alt unsigned_ucast_eq take_bit_nat_eq_self)
  then show ?thesis by (simp add: narrow_version_def ucast_down)
qed

section \<open>Branch nodes\<close>

context node_codec
begin

lemma phash_nonempty [simp]: "phash env t \<noteq> []" "[] \<noteq> phash env t"
  using hash_nonempty [of "penc env t"] by (auto simp: phash_def)

lemma phash_sized [simp]: "sized (phash env t)"
  by (simp add: phash_def hash_sized)

lemma base_ok_fresh [simp]: "base_ok env db t s fresh_base" "base_ok env db t s (b\<lparr>node_dirty := True, node_hash := None\<rparr>)"
  "base_ok env db t s (b\<lparr>node_hash := None, node_dirty := True\<rparr>)"
  by (simp_all add: base_ok_def fresh_base_def)

lemma child_present:
  "children_ok env db f bn cs \<Longrightarrow> i < nrOfChildren \<Longrightarrow> present bn cs i \<longleftrightarrow> f i \<noteq> None"
  by (fastforce simp: children_ok_def present_def child_ok_def split: option.splits)

lemma children_ok_lengths:
  "children_ok env db f bn cs \<Longrightarrow> length cs = nrOfChildren"
  "children_ok env db f bn cs \<Longrightarrow> length (EncodedChildren bn) = nrOfChildren"
  by (simp_all add: children_ok_def wf_bn_def)

lemma filter_present:
  "children_ok env db f bn cs \<Longrightarrow> filter (present bn cs) [0..<nrOfChildren] = filter (\<lambda>i. f i \<noteq> None) [0..<nrOfChildren]"
  by (rule filter_cong) (simp_all add: child_present)

lemma bn_version_ok:
  assumes c: "children_ok env db f bn cs"
  shows "bn_version env bn cs = pversion (PBranch f)"
proof -
  let ?vs = "\<lambda>i. map_option pversion (f i)"
  have cv: "ChildrenVersion bn = pversions ?vs" using c by (simp add: children_ok_def)
  have dom: "filter (\<lambda>i. ?vs i \<noteq> None) [0..<nrOfChildren] = filter (\<lambda>i. f i \<noteq> None) [0..<nrOfChildren]" by simp
  show ?thesis
  proof (cases "pversions ?vs = []")
    case True
    have "common_version ?vs = 0"
    proof (cases "filter (\<lambda>i. ?vs i \<noteq> None) [0..<nrOfChildren]")
      case (Cons i js)
      then have "i \<in> set (filter (\<lambda>i. ?vs i \<noteq> None) [0..<nrOfChildren])" by simp
      then obtain v where v: "?vs i = Some v" "i < nrOfChildren" by auto
      then have "v = 0" by (intro pversions_Nil [OF True])
      with v(1) Cons show ?thesis unfolding common_version_def by (simp only: list.case option.sel if_cancel)
    qed (simp add: common_version_def)
    then show ?thesis using True cv by (simp add: bn_version_def notSpecified)
  next
    case False
    show ?thesis
    proof (cases "filter (\<lambda>i. f i \<noteq> None) [0..<nrOfChildren]")
      case Nil
      then show ?thesis unfolding bn_version_def common_version_def pversion.simps dom filter_present [OF c]
        using False cv by simp
    next
      case (Cons i js)
      have in_range: "j < nrOfChildren \<and> f j \<noteq> None" if "j \<in> set (i # js)" for j
        using that unfolding Cons [symmetric] by simp
      have nth: "ChildrenVersion bn ! j = the (?vs j)" if "j \<in> set (i # js)" for j
        using in_range [OF that] pversions_nth [OF False] cv by auto
      have "list_ex (\<lambda>j. ChildrenVersion bn ! j \<noteq> ChildrenVersion bn ! i) js \<longleftrightarrow> list_ex (\<lambda>j. ?vs j \<noteq> ?vs i) js"
        unfolding list_ex_iff using in_range nth by (metis list.set_intros option.expand option.map_disc_iff)
      then show ?thesis unfolding bn_version_def common_version_def pversion.simps dom filter_present [OF c]
        using False cv Cons nth by (simp add: notSpecified)
    qed
  qed
qed

lemma getVersion_repr: "repr env db t n \<Longrightarrow> getVersion env n = Inr (pversion t)"
  by (cases t) (auto simp: pl_node_def pe_node_def narrow_ucast bn_version_ok simp del: pversion.simps(3))

lemma newExtensionNode_repr:
  "repr env db t n \<Longrightarrow> \<exists>en. newExtensionNode env p (Some n) = Inr (ExtensionNode en (Some n) fresh_base) \<and>
     repr env db (PExt p t) (ExtensionNode en (Some n) fresh_base)"
  by (simp add: newExtensionNode_def getVersion_repr pe_node_def child_ok_def)

lemma newLeafNode_repr: "repr env db (PLeaf k v ver) (newLeafNode \<lparr>td_Key = k, td_Value = Some v, td_Version = ver\<rparr>)"
  by (simp add: newLeafNode_def pl_node_def)

lemma children_ok_new: "newBranchNode = (bn, cs, b) \<Longrightarrow> children_ok env db Map.empty bn cs \<and> b = fresh_base"
  by (auto simp: newBranchNode_def children_ok_def wf_bn_def pversions_def list_all_iff)

lemma children_ok_set:
  assumes c: "children_ok env db f bn cs" and i: "i < nrOfChildren" and r: "repr env db t n"
  shows "children_ok env db (f(i \<mapsto> t)) (setVersionForChild env bn (pversion t) i) (cs[i := Some n])"
proof -
  have "ChildrenVersion bn = pversions (\<lambda>j. map_option pversion (f j))" using c by (simp add: children_ok_def)
  from setVersion_pversions [OF notSpecified this i, of "pversion t"]
  have "ChildrenVersion (setVersionForChild env bn (pversion t) i) = pversions (\<lambda>j. map_option pversion ((f(i \<mapsto> t)) j))"
    by (simp add: fun_upd_def if_distrib cong: if_cong)
  with assms show ?thesis
    by (auto simp: children_ok_def child_ok_def nth_list_update wf_bn_def [of _ cs] split: option.splits)
qed

lemma children_ok_unset:
  assumes c: "children_ok env db f bn cs" and i: "i < nrOfChildren"
  defines "bn' \<equiv> setVersionForChild env bn (NotSpecified env) i"
  shows "children_ok env db (f(i := None)) (bn'\<lparr>EncodedChildren := (EncodedChildren bn')[i := []]\<rparr>) (cs[i := None])"
proof -
  have "ChildrenVersion bn = pversions (\<lambda>j. map_option pversion (f j))" using c by (simp add: children_ok_def)
  from setVersion_pversions [OF notSpecified this i, of 0]
  have "ChildrenVersion bn' = pversions (\<lambda>j. map_option pversion ((f(i := None)) j))"
    by (simp add: bn'_def notSpecified pversions_default) (simp add: fun_upd_def if_distrib cong: if_cong)
  moreover have "wf_bn (bn'\<lparr>EncodedChildren := (EncodedChildren bn')[i := []]\<rparr>) (cs[i := None])"
    using wf_bn_setVersion [of bn cs env "NotSpecified env" i] c unfolding children_ok_def bn'_def wf_bn_def
    by (simp del: One_nat_def) metis
  ultimately show ?thesis using c i
    by (auto simp: children_ok_def child_ok_def nth_list_update wf_bn_def bn'_def split: option.splits)
qed

lemma children_ok_same:
  "children_ok env db f bn cs \<Longrightarrow> i < nrOfChildren \<Longrightarrow> f i = Some t \<Longrightarrow> repr env db t n \<Longrightarrow>
   children_ok env db f bn (cs[i := Some n])"
  by (auto simp: children_ok_def child_ok_def nth_list_update wf_bn_def split: option.splits)

end

section \<open>Reading nodes from the storage\<close>

text \<open>The collapsed node of a tree.\<close>

definition pnode :: "trie_env \<Rightarrow> ptree \<Rightarrow> baseNode \<Rightarrow> node" where
  "pnode env t b =
     (case t of
        PLeaf k v ver \<Rightarrow> LeafNode (pl_node k v ver) b
      | PExt p u \<Rightarrow> ExtensionNode (pe_node p (phash env u) (pversion u)) None b
      | PBranch f \<Rightarrow> BranchNode (branch_node env f) (replicate nrOfChildren None) b)"

lemma base_of_pnode [simp]: "base_of (pnode env t b) = b"
  by (cases t) (simp_all add: pnode_def)

context node_codec
begin

lemma encode_leaf: "canonical (PLeaf k v ver) \<Longrightarrow>
    MarshalLn env (pl_node k v ver) = Inr (butlast (penc env (PLeaf k v ver))) \<and>
    UnmarshalLn env (butlast (penc env (PLeaf k v ver))) = Inr (pl_node k v ver)"
  using leaf_codec [of "pl_node k v ver" v] by (auto simp: pl_node_def or_empty_def)

lemma encode_extension: "canonical (PExt p t) \<Longrightarrow>
    MarshalEn env (pe_node p (phash env t) (pversion t)) = Inr (butlast (penc env (PExt p t))) \<and>
    UnmarshalEn env (butlast (penc env (PExt p t))) = Inr (pe_node p (phash env t) (pversion t))"
  using extension_codec [of "pe_node p (phash env t) (pversion t)"] by (auto simp: pe_node_def or_empty_def penc_PExt)

lemma branch_node_wf: "length (EncodedChildren (branch_node env f)) = nrOfChildren"
  "length (ChildrenVersion (branch_node env f)) \<in> {0, nrOfChildren}"
  "list_all sized (EncodedChildren (branch_node env f))"
  using length_pversions
  by (auto simp: branch_node_def pb_node_def list_all_iff sized_def [of "[]"] split: option.splits)

lemma encode_branch: "MarshalBn env (branch_node env f) = Inr (butlast (penc env (PBranch f))) \<and>
    UnmarshalBn env (butlast (penc env (PBranch f))) = Inr (branch_node env f)"
  using branch_codec [OF branch_node_wf(1,3,2), of f] by (auto simp: penc_PBranch or_empty_def)

lemma children_ok_collapsed:
  "\<forall>i t. f i = Some t \<longrightarrow> stored env db t \<Longrightarrow> \<forall>i. f i \<noteq> None \<longrightarrow> i < nrOfChildren \<Longrightarrow>
   children_ok env db f (branch_node env f) (replicate nrOfChildren None)"
  using branch_node_wf [of f]
  by (auto simp: children_ok_def wf_bn_def child_ok_def branch_node_def pb_node_def split: option.splits)

text \<open>Changing a child in memory to another node for the same tree.\<close>

lemma ext_repr_same:
  "base_ok env db (PExt p t) (enc = phash env t \<and> hashed c) b \<Longrightarrow> repr env db t child \<Longrightarrow>
   (hashed c \<longrightarrow> getHash child \<noteq> None) \<Longrightarrow> repr env db (PExt p t) (ExtensionNode (pe_node p enc (pversion t)) (Some child) b)"
  by (auto simp: child_ok_def base_ok_def hashed_def pe_node_def)

lemma branch_repr_same:
  "base_ok env db (PBranch f) (bn = branch_node env f \<and> list_all hashed cs) b \<Longrightarrow> children_ok env db f bn cs' \<Longrightarrow>
   (list_all hashed cs \<longrightarrow> list_all hashed cs') \<Longrightarrow> repr env db (PBranch f) (BranchNode bn cs' b)"
  by (auto simp: base_ok_def)

text \<open>An encoded node is decoded to the collapsed node of its tree; a stored node is read back as a
  clean node.\<close>

lemma decode_pnode: "canonical t \<Longrightarrow> decodeNode env (penc env t) = Inr (pnode env t clean_base)"
proof (cases t)
  case (PLeaf k v ver)
  moreover assume "canonical t"
  ultimately show ?thesis using encode_leaf
    by (auto simp: decodeNode_def unmarshalNode_def leaf_type_def extension_type_def branch_type_def pnode_def)
next
  case (PExt p t')
  moreover assume "canonical t"
  moreover have "last (penc env t) = extension_type" "penc env t \<noteq> []" by (simp_all add: PExt penc_PExt)
  ultimately show ?thesis using encode_extension
    by (auto simp: decodeNode_def unmarshalNode_def extension_type_def pnode_def)
next
  case (PBranch f)
  moreover have "last (penc env t) = branch_type" "penc env t \<noteq> []" by (simp_all add: PBranch penc_PBranch)
  ultimately show ?thesis using encode_branch [of f] branch_node_wf [of f]
    by (auto simp: decodeNode_def unmarshalNode_def leaf_type_def extension_type_def branch_type_def pnode_def)
qed

lemma repr_pnode:
  assumes "canonical t" "stored env db t" "node_hash b = Some (phash env t)"
  shows "repr env db t (pnode env t b)"
proof (cases t)
  case (PBranch f)
  have "children_ok env db f (branch_node env f) (replicate nrOfChildren None)"
    using assms PBranch by (intro children_ok_collapsed) auto
  then show ?thesis using assms PBranch by (auto simp: pnode_def base_ok_def list_all_iff hashed_def)
qed (use assms in \<open>auto simp: pnode_def base_ok_def child_ok_def hashed_def\<close>)

lemma load_stored:
  assumes "canonical t" "stored env db t"
  shows "\<exists>n. load env db (phash env t) = Inr n \<and> repr env db t n \<and> getHash n \<noteq> None"
proof -
  have "setGivenHash (pnode env t clean_base) (phash env t) = pnode env t (clean_base\<lparr>node_hash := Some (phash env t)\<rparr>)"
    by (cases t) (simp_all add: setGivenHash_def pnode_def)
  then show ?thesis using decode_pnode [OF assms(1)] stored_db [OF assms(2)] repr_pnode [OF assms, of "clean_base\<lparr>node_hash := Some (phash env t)\<rparr>"]
    by (simp add: load_def getNodeFromDBAndDecode_def getHash_def del: repr.simps)
qed

text \<open>A node that represents a tree is never empty.\<close>

lemma repr_not_empty: "canonical t \<Longrightarrow> repr env db t n \<Longrightarrow> isEmptyOrNil n = None"
proof (cases t)
  case (PBranch f)
  assume "canonical t" "repr env db t n"
  then obtain bn cs b where n: "n = BranchNode bn cs b" "children_ok env db f bn cs" using PBranch by auto
  obtain i where "i < nrOfChildren" "f i \<noteq> None" using \<open>canonical t\<close> PBranch by auto
  then have "present bn cs i" "i < nrOfChildren" using child_present n(2) by blast+
  with n show ?thesis by (auto simp: list_ex_iff)
qed (auto simp: pl_node_def pe_node_def child_ok_def)

lemma children_not_empty:
  "children_ok env db f bn cs \<Longrightarrow> i < nrOfChildren \<Longrightarrow> f i \<noteq> None \<Longrightarrow> isEmptyOrNil (BranchNode bn cs b) = None"
  using child_present [of db f bn cs i] by (auto simp: list_ex_iff)

lemma hashed_set: "list_all hashed cs \<Longrightarrow> getHash n \<noteq> None \<Longrightarrow> list_all hashed (cs[i := Some n])"
  by (auto simp: list_all_iff hashed_def [of "Some n"] dest!: set_update_subset_insert [THEN subsetD])

lemma hashed_update:
  "list_all hashed cs \<Longrightarrow> cs ! i = Some n \<Longrightarrow> getHash m = getHash n \<Longrightarrow> list_all hashed (cs[i := Some m])"
  by (cases "i < length cs") (auto simp: list_all_length hashed_def nth_list_update split: option.splits)

lemma getHash_repr: "base_of n = base_of m \<Longrightarrow> getHash n = getHash m" "base_of n = base_of m \<Longrightarrow> isDirty n = isDirty m"
  by (simp_all add: getHash_def isDirty_def)

lemma resolve_ext:
  assumes "canonical t" "child_ok env db (repr env db t) t c enc"
  shows "\<exists>child. resolveIfCollapsed env db (ExtensionNode (pe_node p enc ver) c b) 0 =
      (None, ExtensionNode (pe_node p enc ver) (Some child) b) \<and> repr env db t child \<and> (hashed c \<longrightarrow> getHash child \<noteq> None)"
proof (cases c)
  case None
  then have enc: "enc = phash env t" "stored env db t" using assms(2) by (simp_all add: child_ok_def)
  with load_stored [OF assms(1) enc(2)] None show ?thesis
    by (auto simp: resolveIfCollapsed_def resolveCollapsed_def pe_node_def)
qed (use assms in \<open>simp add: resolveIfCollapsed_def child_ok_def hashed_def\<close>)

lemma resolve_branch:
  assumes c: "children_ok env db f bn cs" and f: "\<forall>i t. f i = Some t \<longrightarrow> canonical t"
    and ne: "f j \<noteq> None" "j < nrOfChildren" and i: "unat pos < nrOfChildren"
  shows "\<exists>cs'. resolveIfCollapsed env db (BranchNode bn cs b) pos = (None, BranchNode bn cs' b) \<and>
      children_ok env db f bn cs' \<and> (list_all hashed cs \<longrightarrow> list_all hashed cs') \<and>
      (case f (unat pos) of None \<Rightarrow> cs' ! unat pos = None | Some t \<Rightarrow> \<exists>child. cs' ! unat pos = Some child \<and> repr env db t child)"
proof -
  let ?i = "unat pos"
  have len: "length cs = nrOfChildren" using c by (rule children_ok_lengths)
  have nonempty: "isEmptyOrNil (BranchNode bn cs b) = None" using children_not_empty [OF c ne(2,1)] .
  show ?thesis
  proof (cases "f ?i")
    case None
    then have "cs ! ?i = None" "EncodedChildren bn ! ?i = []" using c i by (auto simp: children_ok_def)
    then show ?thesis using nonempty c None by (simp add: resolveIfCollapsed_def)
  next
    case (Some t)
    then have child: "child_ok env db (repr env db t) t (cs ! ?i) (EncodedChildren bn ! ?i)"
      using c i by (auto simp: children_ok_def)
    show ?thesis
    proof (cases "cs ! ?i")
      case None
      then have enc: "EncodedChildren bn ! ?i = phash env t" "stored env db t" using child by (simp_all add: child_ok_def)
      obtain n where n: "load env db (phash env t) = Inr n" "repr env db t n" "getHash n \<noteq> None"
        using load_stored enc(2) f Some by blast
      have "children_ok env db f bn (cs[?i := Some n])" using children_ok_same c i Some n(2) by blast
      then show ?thesis using nonempty None enc n Some i len
        by (auto simp: resolveIfCollapsed_def resolveCollapsed_def childPosOutOfRange_def hashed_set)
    next
      case in_memory: (Some n)
      then show ?thesis using nonempty c Some child by (simp add: resolveIfCollapsed_def child_ok_def)
    qed
  qed
qed

end

section \<open>Lookup\<close>

text \<open>The results of a lookup whose answer is \<open>r\<close>.\<close>

definition found :: "(bytes \<times> u8) option \<Rightarrow> u32 \<Rightarrow> get_res" where
  "found r depth = (case r of None \<Rightarrow> (None, depth, 0, None) | Some (v, ver) \<Rightarrow> (Some v, depth, ucast ver, None))"

context node_codec
begin

lemma get_repr:
  "repr env db t n \<Longrightarrow> canonical t \<Longrightarrow> \<forall>x \<in> set key. unat x < nrOfChildren \<Longrightarrow> length key < fuel \<Longrightarrow>
   \<exists>n' d'. tryGetWithVersion fuel env db n key d = Some (found (pmap t key) d', n') \<and> repr env db t n' \<and> base_of n' = base_of n"
proof (induction t arbitrary: n key fuel d)
  case (PLeaf k v ver)
  then obtain fuel' where "fuel = Suc fuel'" by (cases fuel) auto
  with PLeaf show ?case by (auto simp: leaf_tryGetWithVersion_def pl_node_def found_def)
next
  case (PExt p t)
  then obtain fuel' where fuel: "fuel = Suc fuel'" by (cases fuel) auto
  obtain enc c b where n: "n = ExtensionNode (pe_node p enc (pversion t)) c b"
    and c: "child_ok env db (repr env db t) t c enc" and b: "base_ok env db (PExt p t) (enc = phash env t \<and> hashed c) b"
    using PExt.prems(1) by auto
  have can: "canonical t" "p \<noteq> []" using PExt.prems(2) by auto
  have ne: "isEmptyOrNil n = None" using repr_not_empty PExt.prems by blast
  show ?case
  proof (cases "take (length p) key = p")
    case False
    then have "length key < length p \<or> p \<noteq> take (length p) key" by auto
    then show ?thesis using False ne n fuel PExt.prems(1)
      by (auto simp: en_tryGetWithVersion_def pe_node_def found_def simp del: isEmptyOrNil.simps)
  next
    case True
    obtain child where res: "resolveIfCollapsed env db n 0 = (None, ExtensionNode (pe_node p enc (pversion t)) (Some child) b)"
      and child: "repr env db t child" "hashed c \<longrightarrow> getHash child \<noteq> None" using resolve_ext [OF can(1) c] n by blast
    have len: "length key \<ge> length p" using True by (metis length_take min.absorb_iff2 nat_le_linear take_all)
    have "length (drop (length p) key) < fuel'" using PExt.prems(4) fuel can(2) len
      by (cases p) auto
    moreover have "\<forall>x \<in> set (drop (length p) key). unat x < nrOfChildren" using PExt.prems(3) by (meson in_set_dropD)
    ultimately obtain child' d' where
      get: "tryGetWithVersion fuel' env db child (drop (length p) key) (d + 1) = Some (found (pmap t (drop (length p) key)) d', child')"
      "repr env db t child'" "base_of child' = base_of child" using PExt.IH [OF child(1) can(1)] by blast
    have "repr env db (PExt p t) (ExtensionNode (pe_node p enc (pversion t)) (Some child') b)"
      using ext_repr_same [OF b get(2)] child(2) getHash_repr(1) [OF get(3)] by simp
    then show ?thesis using True len ne n fuel res get(1)
      by (auto simp: en_tryGetWithVersion_def pe_node_def simp del: isEmptyOrNil.simps repr.simps)
  qed
next
  case (PBranch f)
  then obtain fuel' where fuel: "fuel = Suc fuel'" by (cases fuel) auto
  obtain bn cs b where n: "n = BranchNode bn cs b" and c: "children_ok env db f bn cs"
    and b: "base_ok env db (PBranch f) (bn = branch_node env f \<and> list_all hashed cs) b" using PBranch.prems(1) by auto
  have ne: "isEmptyOrNil n = None" using repr_not_empty PBranch.prems by blast
  obtain j where j: "f j \<noteq> None" "j < nrOfChildren" using PBranch.prems(2) by auto
  have can: "\<forall>i t. f i = Some t \<longrightarrow> canonical t" using PBranch.prems(2) by simp
  show ?case
  proof (cases key)
    case Nil
    then show ?thesis using ne n fuel PBranch.prems(1)
      by (auto simp: bn_tryGetWithVersion_def found_def simp del: isEmptyOrNil.simps)
  next
    case (Cons x r)
    have x: "unat x < nrOfChildren" using PBranch.prems(3) Cons by simp
    obtain cs' where res: "resolveIfCollapsed env db n x = (None, BranchNode bn cs' b)" and c': "children_ok env db f bn cs'" "list_all hashed cs \<longrightarrow> list_all hashed cs'"
      and ch: "case f (unat x) of None \<Rightarrow> cs' ! unat x = None | Some t \<Rightarrow> \<exists>child. cs' ! unat x = Some child \<and> repr env db t child"
      using resolve_branch [OF c can j x] n by blast
    have n': "repr env db (PBranch f) (BranchNode bn cs' b)" using branch_repr_same b c' by blast
    show ?thesis
    proof (cases "f (unat x)")
      case None
      then show ?thesis using ne n fuel Cons x res ch n'
        by (auto simp: bn_tryGetWithVersion_def found_def childPosOutOfRange_def simp del: isEmptyOrNil.simps)
    next
      case (Some t)
      with ch obtain child where child: "cs' ! unat x = Some child" "repr env db t child" by auto
      have "f (unat x) \<in> range f" "t \<in> set_option (f (unat x))" using Some by simp_all (metis rangeI)
      from PBranch.IH [OF this child(2)] obtain child' d' where
        get: "tryGetWithVersion fuel' env db child r (d + 1) = Some (found (pmap t r) d', child')" "repr env db t child'" "base_of child' = base_of child"
        using can Some PBranch.prems(3,4) Cons fuel by (metis Suc_less_SucD length_Cons list.set_intros(2))
      have "repr env db (PBranch f) (BranchNode bn (cs'[unat x := Some child']) b)"
        using branch_repr_same [OF b children_ok_same [OF c'(1) x Some get(2)]] c'(2)
          hashed_update [OF _ child(1) getHash_repr(1) [OF get(3)]] by blast
      then show ?thesis using ne n fuel Cons x res child(1) get(1) Some
        by (auto simp: bn_tryGetWithVersion_def childPosOutOfRange_def simp del: isEmptyOrNil.simps repr_PBranch)
    qed
  qed
qed

end

end
