(* ===== verification/Trie_Insert.thy ===== *)
theory Trie_Insert
  imports Trie_Refine
begin

text \<open>
  Insertion into a node implements the update of the map it stands for, whichever way the new key parts
  from the keys that are there.
\<close>

section \<open>Maps of changed trees\<close>

definition pext :: "bytes \<Rightarrow> ptree \<Rightarrow> ptree" where
  "pext p t = (if p = [] then t else PExt p t)"

lemma pmap_pext: "pmap (pext p t) = pmap (PExt p t)"
  by (auto simp: pext_def)

lemma pversion_pext [simp]: "pversion (pext p t) = pversion t"
  by (simp add: pext_def)

lemma pmap_PExt_other: "\<nexists>r. k = p @ r \<Longrightarrow> pmap (PExt p t) k = None"
  by simp (metis append_take_drop_id)

lemma pmap_PExt_append: "pmap (PExt (p @ q) t) = pmap (PExt p (PExt q t))"
proof
  fix k
  show "pmap (PExt (p @ q) t) k = pmap (PExt p (PExt q t)) k"
  proof (cases "\<exists>r. k = p @ r")
    case False
    moreover from this have "\<nexists>r. k = (p @ q) @ r" by auto
    ultimately show ?thesis by (metis pmap_PExt_other)
  qed (auto simp: add.commute)
qed

lemma pmap_PExt_pext: "pmap (PExt (p @ q) t) = pmap (PExt p (pext q t))"
  by (cases "q = []") (simp_all add: pext_def pmap_PExt_append del: pmap.simps)

lemma pmap_PLeaf_append: "pmap (PLeaf (p @ k) v ver) = pmap (PExt p (PLeaf k v ver))"
proof
  fix j
  show "pmap (PLeaf (p @ k) v ver) j = pmap (PExt p (PLeaf k v ver)) j"
    by (cases "\<exists>r. j = p @ r") (auto simp: pmap_PExt_other simp del: pmap.simps(2) split: if_splits)
qed

lemma pmap_PExt_upd: "pmap t' = (pmap t)(r := e) \<Longrightarrow> pmap (PExt p t') = (pmap (PExt p t))(p @ r := e)"
proof
  fix k assume t': "pmap t' = (pmap t)(r := e)"
  show "pmap (PExt p t') k = ((pmap (PExt p t))(p @ r := e)) k"
  proof (cases "\<exists>r. k = p @ r")
    case False
    moreover from this have "k \<noteq> p @ r" by blast
    ultimately show ?thesis by (simp add: pmap_PExt_other del: pmap.simps)
  qed (auto simp: t')
qed

lemma pmap_PBranch_upd:
  assumes "(case t' of None \<Rightarrow> Map.empty | Some t' \<Rightarrow> pmap t') = (case f (unat x) of None \<Rightarrow> Map.empty | Some t \<Rightarrow> pmap t)(r := e)"
  shows "pmap (PBranch (f(unat x := t'))) = (pmap (PBranch f))(x # r := e)"
proof
  fix k
  have "(case t' of None \<Rightarrow> None | Some t' \<Rightarrow> pmap t' s) = (if s = r then e else case f (unat x) of None \<Rightarrow> None | Some t \<Rightarrow> pmap t s)" for s
    using fun_cong [OF assms, of s] by (auto split: option.splits)
  then show "pmap (PBranch (f(unat x := t'))) k = ((pmap (PBranch f))(x # r := e)) k"
    by (cases k) (auto simp: word_unat_eq_iff [symmetric])
qed

text \<open>Two keys that part after \<open>p\<close>: the tree \<open>s\<close> below \<open>p @ [x]\<close> and a new leaf below \<open>p @ [y]\<close>.\<close>

lemma pmap_split:
  assumes "x \<noteq> (y :: u8)"
  shows "pmap (pext p (PBranch [unat x \<mapsto> s, unat y \<mapsto> PLeaf k v ver])) = (pmap (PExt (p @ [x]) s))(p @ y # k \<mapsto> (v, ver))"
proof -
  have "pmap (PBranch [unat x \<mapsto> s]) = pmap (PExt [x] s)"
  proof
    fix k show "pmap (PBranch [unat x \<mapsto> s]) k = pmap (PExt [x] s) k" by (cases k) (auto simp: word_unat_eq_iff [symmetric])
  qed
  then have "pmap (PBranch [unat x \<mapsto> s, unat y \<mapsto> PLeaf k v ver]) = (pmap (PExt [x] s))(y # k \<mapsto> (v, ver))"
    using assms pmap_PBranch_upd [of "Some (PLeaf k v ver)" "[unat x \<mapsto> s]" y k "Some (v, ver)"]
    by (simp add: word_unat_eq_iff)
  then show ?thesis unfolding pmap_pext pmap_PExt_append by (rule pmap_PExt_upd)
qed

lemma canonical_pext: "canonical (PBranch f) \<Longrightarrow> sized p \<Longrightarrow> canonical (pext p (PBranch f))"
  by (auto simp: pext_def is_branch_def)

lemma canonical_set:
  "canonical (PBranch f) \<Longrightarrow> i < nrOfChildren \<Longrightarrow> canonical t \<Longrightarrow> canonical (PBranch (f(i \<mapsto> t)))"
  by auto metis

lemma canonical_two:
  "i \<noteq> j \<Longrightarrow> i < nrOfChildren \<Longrightarrow> j < nrOfChildren \<Longrightarrow> canonical s \<Longrightarrow> canonical t \<Longrightarrow> canonical (PBranch [i \<mapsto> s, j \<mapsto> t])"
  by auto

lemma sized_append: "sized (p @ q) \<Longrightarrow> sized p" "sized (p @ q) \<Longrightarrow> sized q" "sized (x # q) \<Longrightarrow> sized q"
  by (simp_all add: sized_def)

section \<open>Insertion\<close>

text \<open>What an insertion gives: nothing when the key holds the value already, whatever its version, and
  otherwise a node for the updated map.\<close>

definition inserted :: "trie_env \<Rightarrow> db_get \<Rightarrow> ptree \<Rightarrow> bytes \<Rightarrow> bytes \<Rightarrow> u8 \<Rightarrow> node option \<Rightarrow> node \<Rightarrow> node \<Rightarrow> bool" where
  "inserted env db t key v ver res n n0 \<longleftrightarrow>
     (case res of
        None \<Rightarrow> (\<exists>ver'. pmap t key = Some (v, ver')) \<and> repr env db t n \<and> base_of n = base_of n0
      | Some m \<Rightarrow>
          (\<forall>ver'. pmap t key \<noteq> Some (v, ver')) \<and>
          (\<exists>t'. repr env db t' m \<and> canonical t' \<and> pmap t' = (pmap t)(key \<mapsto> (v, ver)) \<and> (is_branch t \<longrightarrow> is_branch t')))"

context node_codec
begin

lemma two_children:
  assumes new: "newBranchNode = (bn, cs, b)" and i: "i < nrOfChildren" "j < nrOfChildren"
    and r: "repr env db s m" "repr env db t n" and v: "v = pversion s" "w = pversion t"
  shows "repr env db (PBranch [i \<mapsto> s, j \<mapsto> t])
    (BranchNode (setVersionForChild env (setVersionForChild env bn v i) w j) (cs[i := Some m, j := Some n]) b)"
proof -
  have "children_ok env db Map.empty bn cs" "b = fresh_base" using children_ok_new new by blast+
  then show ?thesis using children_ok_set [OF children_ok_set [OF _ i(1) r(1)] i(2) r(2)] v by simp
qed

lemma pext_repr:
  "repr env db t m \<Longrightarrow>
   \<exists>m'. (if p = [] then Inr m else newExtensionNode env p (Some m)) = Inr m' \<and> repr env db (pext p t) m'"
  using newExtensionNode_repr [of db t m p] by (cases "p = []") (auto simp: pext_def simp del: repr.simps)

lemma leaf_insertInNewBn_repr:
  assumes "x \<noteq> y" "unat x < nrOfChildren" "unat y < nrOfChildren"
  shows "\<exists>m. leaf_insertInNewBn env (pl_node (p @ x # k) v' ver') \<lparr>td_Key = p @ y # key, td_Value = Some v, td_Version = ver\<rparr> (length p) = Inr m \<and>
    repr env db (PBranch [unat x \<mapsto> PLeaf k v' ver', unat y \<mapsto> PLeaf key v ver]) m"
proof -
  obtain bn cs b where new: "newBranchNode = (bn, cs, b)" by (cases newBranchNode)
  show ?thesis
    using two_children [OF new assms(2,3) newLeafNode_repr newLeafNode_repr refl refl, of db k v' ver' key v ver] assms
    by (simp add: new leaf_insertInNewBn_def pl_node_def childPosOutOfRange_def narrow_ucast Let_def del: repr_PBranch)
qed

lemma insert_leaf:
  assumes r: "repr env db (PLeaf k v' ver') n" and can: "canonical (PLeaf k v' ver')" and v: "v \<noteq> []" "sized v" "sized key"
    and keys: "trie_keys (insert key (dom (pmap (PLeaf k v' ver'))))"
  shows "\<exists>res hs n'. node_insert (Suc fuel) env db n \<lparr>td_Key = key, td_Value = Some v, td_Version = ver\<rparr> = Some (Inr (res, hs), n') \<and>
    inserted env db (PLeaf k v' ver') key v ver res n' n"
proof -
  obtain b where n: "n = LeafNode (pl_node k v' ver') b" using r by auto
  have ne: "isEmptyOrNil n = None" using repr_not_empty can r by blast
  show ?thesis
  proof (cases "key = k")
    case True
    have upd: "(pl_node k v' ver')\<lparr>ln_Value := Some v, ln_Version := ucast ver\<rparr> = pl_node k v ver" by (simp add: pl_node_def)
    have "repr env db (PLeaf k v ver) (LeafNode (pl_node k v ver) (b\<lparr>node_dirty := True, node_hash := None\<rparr>))" by simp
    moreover have "canonical (PLeaf k v ver)" using can v by simp
    moreover have "pmap (PLeaf k v ver) = (pmap (PLeaf k v' ver'))(key \<mapsto> (v, ver))" using True by simp
    ultimately have "\<exists>t'. repr env db t' (LeafNode (pl_node k v ver) (b\<lparr>node_dirty := True, node_hash := None\<rparr>)) \<and>
        canonical t' \<and> pmap t' = (pmap (PLeaf k v' ver'))(key \<mapsto> (v, ver))" by blast
    then show ?thesis using True r n v upd
      by (auto simp: leaf_insert_def leaf_insertInSameLn_def inserted_def Let_def is_branch_def pl_node_def)
  next
    case False
    obtain p x y k' key' where split: "k = p @ x # k'" "key = p @ y # key'" "x \<noteq> y" "length p = prefixLen key k"
    proof (cases rule: prefixLen_cases [of key k])
      case (longer r)
      then have "r = []" using keys by (auto simp: trie_keys_def)
      then show thesis using longer False by simp
    next
      case (shorter r)
      then have "r = []" using keys by (auto simp: trie_keys_def)
      then show thesis using shorter by simp
    next
      case (split p x y a' b')
      then show thesis using that by metis
    qed
    have xy: "unat x < nrOfChildren" "unat y < nrOfChildren" using keys split by (auto simp: trie_keys_def)
    let ?t = "PBranch [unat x \<mapsto> PLeaf k' v' ver', unat y \<mapsto> PLeaf key' v ver]"
    obtain m where m: "leaf_insertInNewBn env (pl_node k v' ver') \<lparr>td_Key = key, td_Value = Some v, td_Version = ver\<rparr> (prefixLen key k) = Inr m"
      "repr env db ?t m" using leaf_insertInNewBn_repr [OF split(3) xy] split by metis
    have sizes: "sized k'" "sized key'" "sized p" using can v split by (simp_all add: sized_def)
    have can'': "canonical (pext p ?t)"
      using can v sizes xy split(3) by (intro canonical_pext canonical_two) (simp_all add: word_unat_eq_iff)
    have map: "pmap (pext p ?t) = (pmap (PLeaf k v' ver'))(key \<mapsto> (v, ver))"
      unfolding pmap_split [OF split(3)] using split pmap_PLeaf_append [of "p @ [x]" k' v' ver'] by simp
    obtain m' where m': "(if p = [] then Inr m else newExtensionNode env p (Some m)) = Inr m'" "repr env db (pext p ?t) m'"
      using pext_repr [OF m(2)] by blast
    have take: "take (prefixLen key k) k = p" using split by (metis append_eq_conv_conj)
    have "prefixLen key k = 0 \<longleftrightarrow> p = []" using split(4) by auto
    then have "node_insert (Suc fuel) env db n \<lparr>td_Key = key, td_Value = Some v, td_Version = ver\<rparr> = Some (Inr (Some m', obsolete n), n)"
      using ne n False m(1) m'(1) take
      by (auto simp: leaf_insert_def Let_def pl_node_def simp del: isEmptyOrNil.simps split: if_splits)
    moreover have "inserted env db (PLeaf k v' ver') key v ver (Some m') n n"
      using False m'(2) can'' map by (auto simp: inserted_def is_branch_def)
    ultimately show ?thesis by blast
  qed
qed

lemma insertOldChildInBn_repr:
  assumes "repr env db t child"
  shows "\<exists>m. en_insertOldChildInBn env (pe_node (p @ x # q) enc ver') (Some child) bn cs x (length p) =
      Inr (setVersionForChild env bn (pversion t) (unat x), cs[unat x := Some m]) \<and> repr env db (pext q t) m"
  using newExtensionNode_repr [OF assms, of q] assms getVersion_repr [OF assms]
  by (auto simp: en_insertOldChildInBn_def pe_node_def pext_def Let_def Suc_le_eq simp del: repr.simps)

lemma insert_ext_split:
  assumes n: "n = ExtensionNode (pe_node (p @ x # q) enc (pversion t)) (Some child) b" and child: "repr env db t child"
    and xy: "x \<noteq> y" "unat x < nrOfChildren" "unat y < nrOfChildren"
  shows "\<exists>m. en_insertInNewBn env n (pe_node (p @ x # q) enc (pversion t)) \<lparr>td_Key = p @ y # key, td_Value = Some v, td_Version = ver\<rparr> (length p) =
      Inr (Some m, obsolete n) \<and> repr env db (pext p (PBranch [unat x \<mapsto> pext q t, unat y \<mapsto> PLeaf key v ver])) m"
proof -
  obtain bn cs b' where new: "newBranchNode = (bn, cs, b')" by (cases newBranchNode)
  obtain m where m: "en_insertOldChildInBn env (pe_node (p @ x # q) enc (pversion t)) (Some child) bn cs x (length p) =
      Inr (setVersionForChild env bn (pversion t) (unat x), cs[unat x := Some m])" "repr env db (pext q t) m"
    using insertOldChildInBn_repr [OF child] by blast
  let ?leaf = "newLeafNode \<lparr>td_Key = key, td_Value = Some v, td_Version = ver\<rparr>"
  let ?bn = "BranchNode (setVersionForChild env (setVersionForChild env bn (pversion t) (unat x)) ver (unat y))
      (cs[unat x := Some m, unat y := Some ?leaf]) b'"
  have bn: "repr env db (PBranch [unat x \<mapsto> pext q t, unat y \<mapsto> PLeaf key v ver]) ?bn"
    by (rule two_children [OF new xy(2,3) m(2) newLeafNode_repr]) simp_all
  obtain m' where m': "(if p = [] then Inr ?bn else newExtensionNode env p (Some ?bn)) = Inr m'"
    "repr env db (pext p (PBranch [unat x \<mapsto> pext q t, unat y \<mapsto> PLeaf key v ver])) m'"
    using pext_repr [OF bn] by blast
  then show ?thesis using m(1) xy
    by (auto simp: n new en_insertInNewBn_def Let_def en_insertNewChildInBn_def childPosOutOfRange_def pe_node_def
        simp del: repr_PBranch repr.simps split: if_splits)
qed

lemma insert_ext:
  assumes r: "repr env db (PExt p t) n" and can: "canonical (PExt p t)" and v: "v \<noteq> []" "sized v" "sized key"
    and keys: "trie_keys (insert key (dom (pmap (PExt p t))))"
    and IH: "\<And>child r. repr env db t child \<Longrightarrow> key = p @ r \<Longrightarrow>
      \<exists>res hs n'. node_insert fuel env db child \<lparr>td_Key = r, td_Value = Some v, td_Version = ver\<rparr> = Some (Inr (res, hs), n') \<and>
        inserted env db t r v ver res n' child"
  shows "\<exists>res hs n'. node_insert (Suc fuel) env db n \<lparr>td_Key = key, td_Value = Some v, td_Version = ver\<rparr> = Some (Inr (res, hs), n') \<and>
    inserted env db (PExt p t) key v ver res n' n"
proof -
  let ?d = "\<lparr>td_Key = key, td_Value = Some v, td_Version = ver\<rparr>"
  obtain enc c b where n: "n = ExtensionNode (pe_node p enc (pversion t)) c b"
    and c: "child_ok env db (repr env db t) t c enc" and b: "base_ok env db (PExt p t) (enc = phash env t \<and> hashed c) b"
    using r by auto
  have can': "canonical t" "is_branch t" "p \<noteq> []" "sized p" using can by auto
  let ?en = "pe_node p enc (pversion t)"
  obtain child where res: "resolveIfCollapsed env db n 0 = (None, ExtensionNode ?en (Some child) b)"
    and child: "repr env db t child" and hc: "hashed c \<longrightarrow> getHash child \<noteq> None" using resolve_ext [OF can'(1) c] n by blast
  let ?n = "ExtensionNode ?en (Some child) b"
  have ne: "isEmptyOrNil n = None" using repr_not_empty can r by blast
  have step: "node_insert (Suc fuel) env db n ?d =
      (if prefixLen key p = length p then en_insertInSameEn (node_insert fuel env db) env ?n ?en ?d (prefixLen key p)
       else Some (en_insertInNewBn env ?n ?en ?d (prefixLen key p), ?n))"
    using ne res n by (simp add: en_insert_def Let_def pe_node_def del: isEmptyOrNil.simps)
  show ?thesis
  proof (cases rule: prefixLen_cases [of key p])
    case (longer r)
    obtain res hs child' where ins: "node_insert fuel env db child \<lparr>td_Key = r, td_Value = Some v, td_Version = ver\<rparr> = Some (Inr (res, hs), child')"
      "inserted env db t r v ver res child' child" using IH [OF child longer(1)] by blast
    have get: "pmap (PExt p t) key = pmap t r" using longer(1) by simp
    show ?thesis
    proof (cases res)
      case None
      then have "repr env db (PExt p t) (ExtensionNode ?en (Some child') b)"
        using ins(2) ext_repr_same [OF b] hc getHash_repr(1) [of child' child] by (auto simp: inserted_def simp del: repr.simps)
      then show ?thesis using step longer ins None get n
        by (simp add: en_insertInSameEn_def inserted_def Let_def del: repr.simps pmap.simps)
    next
      case (Some m)
      then obtain t' where t': "repr env db t' m" "canonical t'" "pmap t' = (pmap t)(r \<mapsto> (v, ver))" "is_branch t'"
        "\<forall>ver'. pmap t r \<noteq> Some (v, ver')" using ins(2) can' by (auto simp: inserted_def)
      obtain en where en: "newExtensionNode env p (Some m) = Inr (ExtensionNode en (Some m) fresh_base)"
        "repr env db (PExt p t') (ExtensionNode en (Some m) fresh_base)" using newExtensionNode_repr [OF t'(1)] by blast
      have "pmap (PExt p t') = (pmap (PExt p t))(key \<mapsto> (v, ver))" using pmap_PExt_upd [OF t'(3)] longer(1) by simp
      moreover have "canonical (PExt p t')" using can' t' by simp
      ultimately have "inserted env db (PExt p t) key v ver (Some (ExtensionNode en (Some m) fresh_base)) n' n" for n'
        using en(2) t'(5) get unfolding inserted_def by (auto simp: is_branch_def simp del: repr.simps pmap.simps)
      then show ?thesis using step longer ins(1) Some en(1)
        by (auto simp: en_insertInSameEn_def Let_def pe_node_def)
    qed
  next
    case (shorter r)
    obtain k where "pmap t k \<noteq> None" using canonical_dom can' by blast
    then have "key @ (r @ k) \<in> dom (pmap (PExt p t))" using shorter(1) pmap_PExt [of p t k] by (simp add: domIff del: pmap.simps pmap_PExt)
    then have "r @ k = []" using keys unfolding trie_keys_def by blast
    then show ?thesis using shorter(2) by simp
  next
    case (split q y x key' p')
    have xy: "unat x < nrOfChildren" "unat y < nrOfChildren"
      using trie_keys_ext_nibble [OF keys can'(1)] split(2) keys split(1) by (auto simp: trie_keys_def)
    have x: "x \<noteq> y" using split(3) by simp
    let ?t = "PBranch [unat x \<mapsto> pext p' t, unat y \<mapsto> PLeaf key' v ver]"
    obtain m where m: "en_insertInNewBn env ?n ?en ?d (prefixLen key p) = Inr (Some m, obsolete ?n)" "repr env db (pext q ?t) m"
      using insert_ext_split [OF refl child x xy] split by metis
    have sizes: "sized p'" "sized key'" "sized q" using can' v split by (simp_all add: sized_def)
    have "canonical (pext p' t)" using can' sizes by (auto simp: pext_def)
    then have can'': "canonical (pext q ?t)"
      using v sizes xy x by (intro canonical_pext canonical_two) (simp_all add: word_unat_eq_iff)
    have p: "pmap (PExt p t) = pmap (PExt (q @ [x]) (pext p' t))"
      using pmap_PExt_pext [of "q @ [x]" p' t] split(2) by (simp del: pmap.simps)
    then have map: "pmap (pext q ?t) = (pmap (PExt p t))(key \<mapsto> (v, ver))" unfolding pmap_split [OF x] using split by simp
    have "pmap (PExt p t) key = None"
      unfolding p by (rule pmap_PExt_other) (use split x in auto)
    then have "inserted env db (PExt p t) key v ver (Some m) ?n n"
      using m(2) can'' map unfolding inserted_def by (auto simp: is_branch_def simp del: repr.simps pmap.simps)
    moreover have "prefixLen key p \<noteq> length p" using split by auto
    ultimately show ?thesis using step m(1) by simp
  qed
qed

lemma insert_branch:
  assumes r: "repr env db (PBranch f) n" and can: "canonical (PBranch f)" and v: "v \<noteq> []" "sized v" "sized key"
    and keys: "trie_keys (insert key (dom (pmap (PBranch f))))"
    and IH: "\<And>t child x r. repr env db t child \<Longrightarrow> key = x # r \<Longrightarrow> f (unat x) = Some t \<Longrightarrow>
      \<exists>res hs n'. node_insert fuel env db child \<lparr>td_Key = r, td_Value = Some v, td_Version = ver\<rparr> = Some (Inr (res, hs), n') \<and>
        inserted env db t r v ver res n' child"
  shows "\<exists>res hs n'. node_insert (Suc fuel) env db n \<lparr>td_Key = key, td_Value = Some v, td_Version = ver\<rparr> = Some (Inr (res, hs), n') \<and>
    inserted env db (PBranch f) key v ver res n' n"
proof -
  obtain bn cs b where n: "n = BranchNode bn cs b" and c: "children_ok env db f bn cs"
    and b: "base_ok env db (PBranch f) (bn = branch_node env f \<and> list_all hashed cs) b" using r by auto
  have ne: "isEmptyOrNil n = None" using repr_not_empty can r by blast
  obtain j where j: "f j \<noteq> None" "j < nrOfChildren" using can by auto
  have can': "\<forall>i t. f i = Some t \<longrightarrow> canonical t" using can by simp
  obtain x r where key: "key = x # r" using branch_key_Cons [OF can keys] by blast
  have x: "unat x < nrOfChildren" using keys key by (simp add: trie_keys_def)
  obtain cs' where res: "resolveIfCollapsed env db n x = (None, BranchNode bn cs' b)" and c': "children_ok env db f bn cs'" "list_all hashed cs \<longrightarrow> list_all hashed cs'"
    and ch: "case f (unat x) of None \<Rightarrow> cs' ! unat x = None | Some t \<Rightarrow> \<exists>child. cs' ! unat x = Some child \<and> repr env db t child"
    using resolve_branch [OF c can' j x] n by blast
  let ?d = "\<lparr>td_Key = r, td_Value = Some v, td_Version = ver\<rparr>"
  have step: "node_insert (Suc fuel) env db n \<lparr>td_Key = key, td_Value = Some v, td_Version = ver\<rparr> =
      (case cs' ! unat x of None \<Rightarrow> Some (bn_insertOnNilChild env (BranchNode bn cs' b) ?d x)
       | Some child \<Rightarrow> bn_insertOnExistingChild (node_insert fuel env db) env (BranchNode bn cs' b) child ?d x)"
    using ne n key x res by (simp add: bn_insert_def childPosOutOfRange_def Let_def del: isEmptyOrNil.simps)
  text \<open>Setting the child gives the updated branch.\<close>
  have set_child: "\<exists>hs' n'. bn_modifyNodeAfterInsert env (BranchNode bn cs'' b) hs x m = (Inr hs', n') \<and>
      (\<exists>t''. repr env db t'' n' \<and> canonical t'' \<and> pmap t'' = (pmap (PBranch f))(key \<mapsto> (v, ver)) \<and> is_branch t'')"
    if "children_ok env db f bn cs''" "repr env db t' m" "canonical t'"
      "pmap t' = (case f (unat x) of None \<Rightarrow> Map.empty | Some t \<Rightarrow> pmap t)(r \<mapsto> (v, ver))" for cs'' hs m t'
  proof -
    let ?bn = "setVersionForChild env bn (pversion t') (unat x)"
    have "repr env db (PBranch (f(unat x \<mapsto> t'))) (BranchNode ?bn (cs''[unat x := Some m]) (b\<lparr>node_dirty := True, node_hash := None\<rparr>))"
      using children_ok_set [OF that(1) x that(2)] by simp
    moreover have "canonical (PBranch (f(unat x \<mapsto> t')))" using canonical_set can x that(3) by blast
    moreover have "pmap (PBranch (f(unat x \<mapsto> t'))) = (pmap (PBranch f))(key \<mapsto> (v, ver))"
      unfolding key by (rule pmap_PBranch_upd) (use that(4) in simp)
    ultimately show ?thesis using getVersion_repr [OF that(2)]
      by (auto simp: bn_modifyNodeAfterInsert_def is_branch_def simp del: repr_PBranch canonical_PBranch)
  qed
  show ?thesis
  proof (cases "f (unat x)")
    case None
    have "canonical (PLeaf r v ver)" using v key by (simp add: sized_def)
    with set_child [OF c'(1) newLeafNode_repr, of r v ver "[]"] None obtain hs' n' where
      "bn_modifyNodeAfterInsert env (BranchNode bn cs' b) [] x (newLeafNode ?d) = (Inr hs', n')"
      "\<exists>t''. repr env db t'' n' \<and> canonical t'' \<and> pmap t'' = (pmap (PBranch f))(key \<mapsto> (v, ver)) \<and> is_branch t''" by auto
    then show ?thesis using step ch None key by (auto simp: bn_insertOnNilChild_def inserted_def)
  next
    case (Some t)
    with ch obtain child where child: "cs' ! unat x = Some child" "repr env db t child" by auto
    obtain res hs child' where ins: "node_insert fuel env db child ?d = Some (Inr (res, hs), child')"
      "inserted env db t r v ver res child' child" using IH [OF child(2) key Some] by blast
    have get: "pmap (PBranch f) key = pmap t r" using key Some by simp
    show ?thesis
    proof (cases res)
      case None
      then have "repr env db (PBranch f) (BranchNode bn (cs'[unat x := Some child']) b)"
        using branch_repr_same [OF b children_ok_same [OF c'(1) x Some]] c'(2) ins(2)
          hashed_update [OF _ child(1) getHash_repr(1)] by (auto simp: inserted_def simp del: repr_PBranch)
      then show ?thesis using step child(1) ins None get n
        by (simp add: bn_insertOnExistingChild_def inserted_def del: repr_PBranch)
    next
      case res: (Some m)
      then obtain t' where t': "repr env db t' m" "canonical t'" "pmap t' = (pmap t)(r \<mapsto> (v, ver))"
        "\<forall>ver'. pmap t r \<noteq> Some (v, ver')" using ins(2) by (auto simp: inserted_def)
      have len: "unat x < length cs'" using children_ok_lengths(1) [OF c'(1)] x by simp
      text \<open>The child as the insertion left it is overwritten.\<close>
      have over: "bn_modifyNodeAfterInsert env (BranchNode bn (cs'[unat x := Some child']) b) hs x m =
          bn_modifyNodeAfterInsert env (BranchNode bn cs' b) hs x m"
        using getVersion_repr [OF t'(1)] by (simp add: bn_modifyNodeAfterInsert_def obsolete_def isDirty_def getHash_def)
      obtain hs' n' where "bn_modifyNodeAfterInsert env (BranchNode bn cs' b) hs x m = (Inr hs', n')"
        "\<exists>t''. repr env db t'' n' \<and> canonical t'' \<and> pmap t'' = (pmap (PBranch f))(key \<mapsto> (v, ver)) \<and> is_branch t''"
        using set_child [OF c'(1) t'(1,2), of hs] t'(3) Some by auto
      then show ?thesis using step child(1) ins(1) res over get t'(4)
        by (auto simp: bn_insertOnExistingChild_def inserted_def)
    qed
  qed
qed

lemma insert_repr:
  "repr env db t n \<Longrightarrow> canonical t \<Longrightarrow> v \<noteq> [] \<Longrightarrow> sized v \<Longrightarrow> sized key \<Longrightarrow>
   trie_keys (insert key (dom (pmap t))) \<Longrightarrow> length key < fuel \<Longrightarrow>
   \<exists>res hs n'. node_insert fuel env db n \<lparr>td_Key = key, td_Value = Some v, td_Version = ver\<rparr> = Some (Inr (res, hs), n') \<and>
     inserted env db t key v ver res n' n"
proof (induction t arbitrary: n key fuel)
  case (PLeaf k v' ver')
  then obtain fuel' where "fuel = Suc fuel'" by (cases fuel) auto
  then show ?case using insert_leaf [OF PLeaf.prems(1-6)] by blast
next
  case (PExt p t)
  then obtain fuel' where fuel: "fuel = Suc fuel'" by (cases fuel) auto
  have "p \<noteq> []" "canonical t" using PExt.prems(2) by auto
  then have "\<exists>res hs n'. node_insert fuel' env db child \<lparr>td_Key = r, td_Value = Some v, td_Version = ver\<rparr> = Some (Inr (res, hs), n') \<and>
      inserted env db t r v ver res n' child" if "repr env db t child" "key = p @ r" for child r
  proof -
    have "trie_keys (insert r (dom (pmap t)))" using trie_keys_PExt PExt.prems(6) that(2) by blast
    moreover have "length r < fuel'" "sized r" using PExt.prems(5,7) that(2) fuel \<open>p \<noteq> []\<close>
      by (cases p; simp add: sized_def)+
    ultimately show ?thesis using PExt.IH [OF that(1) \<open>canonical t\<close> PExt.prems(3,4)] by blast
  qed
  then show ?case unfolding fuel by (rule insert_ext [OF PExt.prems(1-6)])
next
  case (PBranch f)
  then obtain fuel' where fuel: "fuel = Suc fuel'" by (cases fuel) auto
  have "\<exists>res hs n'. node_insert fuel' env db child \<lparr>td_Key = r, td_Value = Some v, td_Version = ver\<rparr> = Some (Inr (res, hs), n') \<and>
      inserted env db t r v ver res n' child" if "repr env db t child" "key = x # r" "f (unat x) = Some t" for t child x r
  proof -
    have "f (unat x) \<in> range f" "t \<in> set_option (f (unat x))" using that(3) by simp_all (metis rangeI)
    moreover have "canonical t" using PBranch.prems(2) that(3) by simp
    moreover have "trie_keys (insert r (dom (pmap t)))" using trie_keys_PBranch PBranch.prems(6) that by blast
    moreover have "length r < fuel'" "sized r" using PBranch.prems(5,7) that(2) fuel by (simp_all add: sized_def)
    ultimately show ?thesis using PBranch.IH [OF _ _ that(1) _ PBranch.prems(3,4)] by blast
  qed
  then show ?case unfolding fuel by (rule insert_branch [OF PBranch.prems(1-6)])
qed

end

end
