(* ===== verification/Trie_Delete.thy ===== *)
theory Trie_Delete
  imports Trie_Insert
begin

text \<open>
  Deletion from a node implements the removal of the key from the map it stands for, and keeps the
  shape of the tree: a branch that is left with one child is joined with it.
\<close>

section \<open>Deletion\<close>

text \<open>What a deletion gives: the receiver itself when the key is not there, otherwise a node for the map
  without the key, and no node at all when the map is empty then. An extension node that comes out has
  its child in memory.\<close>

primrec loaded :: "node \<Rightarrow> bool" where
  "loaded (LeafNode ln b) = True"
| "loaded (ExtensionNode en c b) = (c \<noteq> None)"
| "loaded (BranchNode bn cs b) = True"

definition deleted :: "trie_env \<Rightarrow> db_get \<Rightarrow> ptree \<Rightarrow> bytes \<Rightarrow> bool \<Rightarrow> node option \<Rightarrow> node \<Rightarrow> node \<Rightarrow> bool" where
  "deleted env db t key dirty res n n0 \<longleftrightarrow>
     (dirty \<longleftrightarrow> pmap t key \<noteq> None) \<and>
     (if dirty then
        (case res of
           None \<Rightarrow> (\<exists>v ver. t = PLeaf key v ver)
         | Some m \<Rightarrow> loaded m \<and> (\<exists>t'. repr env db t' m \<and> canonical t' \<and> pmap t' = (pmap t)(key := None)))
      else res = Some n \<and> repr env db t n \<and> base_of n = base_of n0)"

lemma getChildPosition_spec:
  assumes "\<And>i. i < nrOfChildren \<Longrightarrow> present bn cs i \<longleftrightarrow> f i"
  shows "fst (getChildPosition bn cs) = length (filter f [0..<nrOfChildren])"
    "getChildPosition bn cs = (Suc 0, pos) \<Longrightarrow> pos < nrOfChildren \<and> f pos"
proof -
  let ?step = "\<lambda>(nr, pos) i. if present bn cs i then (nr + 1, i) else (nr, pos)"
  have loop: "let (nr, pos) = foldl ?step (0, 0) [0..<m] in
      nr = length (filter f [0..<m]) \<and> (nr > 0 \<longrightarrow> pos < m \<and> f pos)" if "m \<le> nrOfChildren" for m
    using that
  proof (induction m)
    case (Suc m)
    then show ?case using assms [of m] by (auto simp: case_prod_unfold Let_def)
  qed simp
  show "fst (getChildPosition bn cs) = length (filter f [0..<nrOfChildren])"
    using loop [OF order_refl] by (simp add: getChildPosition_def Let_def case_prod_unfold)
  show "getChildPosition bn cs = (Suc 0, pos) \<Longrightarrow> pos < nrOfChildren \<and> f pos"
    using loop [OF order_refl] by (simp add: getChildPosition_def Let_def case_prod_unfold)
qed

lemma one_child:
  assumes "length (filter f [0..<m]) = Suc 0" "i < m" "f i" "j < m" "f j"
  shows "i = j"
proof -
  have "card (set (filter f [0..<m])) = 1" using assms(1) by (subst distinct_card) simp_all
  then obtain k where "set (filter f [0..<m]) = {k}" by (auto simp: card_1_singleton_iff)
  moreover have "i \<in> set (filter f [0..<m])" "j \<in> set (filter f [0..<m])" using assms by simp_all
  ultimately show ?thesis by (metis singletonD)
qed

lemma two_or_more:
  assumes "length (filter f [0..<m]) \<noteq> Suc 0" "i < m" "f i"
  shows "\<exists>i j. i \<noteq> j \<and> f i \<and> f j"
proof -
  let ?l = "filter f [0..<m]"
  have "i \<in> set ?l" using assms by simp
  then have "?l \<noteq> []" by (metis empty_iff list.set(1))
  then obtain a b r where l: "?l = a # b # r" using assms(1) by (metis length_Cons list.size(3) neq_Nil_conv)
  have "distinct ?l" by simp
  then have "a \<noteq> b" unfolding l by simp
  moreover have "a \<in> set ?l" "b \<in> set ?l" unfolding l by simp_all
  then have "f a" "f b" by simp_all
  ultimately show ?thesis by blast
qed

text \<open>A branch with the only child \<open>t\<close> at \<open>x\<close> becomes a leaf or an extension, and so does an extension
  whose branch has become \<open>t\<close>.\<close>

definition pjoin :: "bytes \<Rightarrow> ptree \<Rightarrow> ptree" where
  "pjoin q t = (case t of PLeaf k v ver \<Rightarrow> PLeaf (q @ k) v ver | PExt p t' \<Rightarrow> PExt (q @ p) t' | PBranch f \<Rightarrow> PExt q t)"

lemma pmap_pjoin: "pmap (pjoin q t) = pmap (PExt q t)"
  by (cases t) (simp_all add: pjoin_def pmap_PLeaf_append pmap_PExt_append del: pmap.simps)

lemma canonical_pjoin:
  assumes "canonical t" "q \<noteq> []" "\<And>k. pmap t k \<noteq> None \<Longrightarrow> sized (q @ k)"
  shows "canonical (pjoin q t)"
proof (cases t)
  case (PLeaf k v ver)
  then show ?thesis using assms by (simp add: pjoin_def)
next
  case (PExt p t')
  then obtain k where "pmap t' k \<noteq> None" using canonical_dom assms(1) by (metis canonical.simps(2))
  then have "sized (q @ p @ k)" using assms(3) PExt pmap_PExt by metis
  then show ?thesis using assms PExt sized_append(1) [of "q @ p" k] by (simp add: pjoin_def)
next
  case (PBranch f)
  obtain k where "pmap t k \<noteq> None" using canonical_dom assms(1) by blast
  then have "sized q" using assms(3) sized_append(1) by blast
  then show ?thesis using PBranch assms by (auto simp: pjoin_def is_branch_def)
qed

context node_codec
begin

lemma reduceNode_repr:
  assumes r: "repr env db t n" and "loaded n" and i: "i < nrOfChildren"
  shows "\<exists>m new. reduceNode env n i = Inr (m, new) \<and> repr env db (pjoin [of_nat i] t) m \<and> loaded m"
proof (cases t)
  case (PLeaf k v ver)
  then show ?thesis using r newLeafNode_repr [of db "of_nat i # k" v ver]
    by (auto simp: reduceNode_def leaf_reduceNode_def pjoin_def pl_node_def narrow_ucast newLeafNode_def)
next
  case (PExt p t')
  then obtain enc c b where n: "n = ExtensionNode (pe_node p enc (pversion t')) (Some c) b" "repr env db t' c"
    using r assms(2) by (auto simp: child_ok_def)
  then show ?thesis using newExtensionNode_repr [OF n(2), of "of_nat i # p"] PExt
    by (auto simp: reduceNode_def en_reduceNode_def pjoin_def pe_node_def simp del: repr.simps)
next
  case (PBranch f)
  then show ?thesis using newExtensionNode_repr [OF r, of "[of_nat i]"] r
    by (auto simp: reduceNode_def bn_reduceNode_def pjoin_def simp del: repr.simps)
qed

lemma en_merge_repr:
  assumes r: "repr env db t n" and "loaded n" and p: "p \<noteq> []"
  shows "\<exists>m. en_merge env (pe_node p enc ver) (Some n) hs = Inr (True, Some m, hs) \<and> repr env db (pjoin p t) m \<and> loaded m"
proof (cases t)
  case (PLeaf k v ver)
  then show ?thesis using r newLeafNode_repr [of db "p @ k" v ver]
    by (auto simp: en_merge_def pjoin_def pl_node_def pe_node_def ucast_down newLeafNode_def trie_concat_def)
next
  case (PExt q t')
  then obtain enc c b where n: "n = ExtensionNode (pe_node q enc (pversion t')) (Some c) b" "repr env db t' c"
    using r assms(2) by (auto simp: child_ok_def)
  then show ?thesis using newExtensionNode_repr [OF n(2), of "p @ q"] PExt
    by (auto simp: en_merge_def pjoin_def pe_node_def trie_concat_def simp del: repr.simps)
next
  case (PBranch f)
  then show ?thesis using newExtensionNode_repr [OF r, of p] r
    by (auto simp: en_merge_def pjoin_def pe_node_def simp del: repr.simps)
qed

text \<open>Reading a child of a node that is in memory, whatever the position, keeps what it represents.\<close>

lemma resolve_any:
  assumes "repr env db t n" "canonical t" "unat pos < nrOfChildren"
  shows "\<exists>n'. resolveIfCollapsed env db n pos = (None, n') \<and> repr env db t n' \<and> loaded n'"
proof (cases t)
  case (PLeaf k v ver)
  then show ?thesis using assms repr_not_empty [OF assms(2,1)] by (auto simp: resolveIfCollapsed_def)
next
  case (PExt p t')
  then obtain enc c b where n: "n = ExtensionNode (pe_node p enc (pversion t')) c b" "child_ok env db (repr env db t') t' c enc"
    "base_ok env db t (enc = phash env t' \<and> hashed c) b" using assms(1) by auto
  have "resolveIfCollapsed env db n pos = resolveIfCollapsed env db n 0"
    by (simp add: n(1) resolveIfCollapsed_def resolveCollapsed_def)
  moreover obtain child where "resolveIfCollapsed env db n 0 = (None, ExtensionNode (pe_node p enc (pversion t')) (Some child) b)"
    "repr env db t' child" "hashed c \<longrightarrow> getHash child \<noteq> None" using resolve_ext [OF _ n(2), of p "pversion t'" b] assms(2) PExt n(1) by auto
  ultimately show ?thesis using ext_repr_same n(3) PExt by auto
next
  case (PBranch f)
  then obtain bn cs b where n: "n = BranchNode bn cs b" "children_ok env db f bn cs"
    "base_ok env db t (bn = branch_node env f \<and> list_all hashed cs) b" using assms(1) by auto
  obtain j where "f j \<noteq> None" "j < nrOfChildren" using assms(2) PBranch by auto
  moreover have "\<forall>i t. f i = Some t \<longrightarrow> canonical t" using assms(2) PBranch by simp
  ultimately obtain cs' where "resolveIfCollapsed env db n pos = (None, BranchNode bn cs' b)" "children_ok env db f bn cs'"
    "list_all hashed cs \<longrightarrow> list_all hashed cs'" using resolve_branch [OF n(2) _ _ _ assms(3), of j b] n(1) by blast
  then show ?thesis using branch_repr_same n(3) PBranch by auto
qed

end

lemma pmap_single: "pmap (PBranch [unat x \<mapsto> t]) = pmap (PExt [x] t)"
proof
  fix k show "pmap (PBranch [unat x \<mapsto> t]) k = pmap (PExt [x] t) k" by (cases k) (auto simp: word_unat_eq_iff [symmetric])
qed

context node_codec
begin

lemma reduce_or_keep:
  assumes c: "children_ok env db f bn cs" and can: "\<forall>i t. f i = Some t \<longrightarrow> canonical t" and j: "f j \<noteq> None"
    and range: "\<forall>i. f i \<noteq> None \<longrightarrow> i < nrOfChildren" and sizes: "\<forall>k. pmap (PBranch f) k \<noteq> None \<longrightarrow> sized k"
    and b: "node_hash b = None"
  shows "\<exists>m hs' n'. bn_reduce_or_keep env db (BranchNode bn cs b) hs = (Inr (True, Some m, hs'), n') \<and> loaded m \<and>
    (\<exists>t'. repr env db t' m \<and> canonical t' \<and> pmap t' = pmap (PBranch f))"
proof -
  obtain nr pos where gp: "getChildPosition bn cs = (nr, pos)" by (cases "getChildPosition bn cs")
  note spec = getChildPosition_spec [where f = "\<lambda>i. f i \<noteq> None", OF child_present [OF c]]
  have nr: "nr = length (filter (\<lambda>i. f i \<noteq> None) [0..<nrOfChildren])" using spec(1) gp by simp
  have jr: "j < nrOfChildren" using range j by blast
  show ?thesis
  proof (cases "nr = Suc 0")
    case False
    have "canonical (PBranch f)" using range can two_or_more [of "\<lambda>i. f i \<noteq> None" nrOfChildren j] False nr j jr by simp
    moreover have "repr env db (PBranch f) (BranchNode bn cs (b\<lparr>node_dirty := True\<rparr>))" using c b by (simp add: base_ok_def)
    ultimately show ?thesis using gp False by (auto simp: bn_reduce_or_keep_def Let_def simp del: repr_PBranch canonical_PBranch)
  next
    case True
    then obtain t where pos: "pos < nrOfChildren" "f pos = Some t" using spec(2) [of pos] gp by auto
    have pos8: "unat (of_nat pos :: u8) = pos" using pos(1) by (rule of_nat_child)
    have f: "f = [pos \<mapsto> t]"
    proof
      fix i
      have "i = pos" if "f i \<noteq> None"
      proof (rule one_child [of "\<lambda>i. f i \<noteq> None" nrOfChildren])
        show "length (filter (\<lambda>i. f i \<noteq> None) [0..<nrOfChildren]) = Suc 0" using True nr by simp
        show "i < nrOfChildren" using range that by blast
      qed (use pos that in simp_all)
      then show "f i = [pos \<mapsto> t] i" using pos(2) by (cases "f i") auto
    qed
    obtain cs' child where res: "resolveIfCollapsed env db (BranchNode bn cs b) (of_nat pos) = (None, BranchNode bn cs' b)"
      "cs' ! pos = Some child" "repr env db t child"
      using resolve_branch [OF c can j jr, of "of_nat pos" b] pos pos8 by auto
    have cant: "canonical t" using can pos(2) by blast
    obtain child' where child': "resolveIfCollapsed env db child (of_nat pos) = (None, child')" "repr env db t child'" "loaded child'"
      using resolve_any [OF res(3) cant, of "of_nat pos"] pos pos8 by auto
    obtain m new where m: "reduceNode env child' pos = Inr (m, new)" "repr env db (pjoin [of_nat pos] t) m" "loaded m"
      using reduceNode_repr [OF child'(2,3) pos(1)] by blast
    have map: "pmap (PBranch f) = pmap (PExt [of_nat pos] t)" using pmap_single [of "of_nat pos" t] f pos8 by simp
    then have "sized ([of_nat pos] @ k)" if "pmap t k \<noteq> None" for k using sizes pmap_PExt that by metis
    then have "canonical (pjoin [of_nat pos] t)" using cant by (intro canonical_pjoin) auto
    then show ?thesis using gp True res child' m map
      by (auto simp: bn_reduce_or_keep_def pmap_pjoin Let_def simp del: pmap.simps)
  qed
qed

lemma delete_leaf:
  assumes "repr env db (PLeaf k v ver) n"
  shows "\<exists>dirty res hs n'. node_delete (Suc fuel) env db n key = Some (Inr (dirty, res, hs), n') \<and>
    deleted env db (PLeaf k v ver) key dirty res n' n"
  using assms by (auto simp: leaf_delete_def deleted_def pl_node_def)

lemma delete_ext:
  assumes r: "repr env db (PExt p t) n" and can: "canonical (PExt p t)"
    and keys: "trie_keys (insert key (dom (pmap (PExt p t))))"
    and IH: "\<And>child r. repr env db t child \<Longrightarrow> key = p @ r \<Longrightarrow>
      \<exists>dirty res hs n'. node_delete fuel env db child r = Some (Inr (dirty, res, hs), n') \<and> deleted env db t r dirty res n' child"
  shows "\<exists>dirty res hs n'. node_delete (Suc fuel) env db n key = Some (Inr (dirty, res, hs), n') \<and>
    deleted env db (PExt p t) key dirty res n' n"
proof -
  obtain enc c b where n: "n = ExtensionNode (pe_node p enc (pversion t)) c b"
    and c: "child_ok env db (repr env db t) t c enc" and b: "base_ok env db (PExt p t) (enc = phash env t \<and> hashed c) b"
    using r by auto
  have can': "canonical t" "is_branch t" "p \<noteq> []" "sized p" using can by auto
  have ne: "isEmptyOrNil n = None" using repr_not_empty can r by blast
  obtain k where k: "pmap t k \<noteq> None" using canonical_dom can' by blast
  have "key \<noteq> []"
  proof
    assume "key = []"
    moreover have "[] @ p @ k \<in> dom (pmap (PExt p t))" using k by (simp add: domIff)
    ultimately have "p @ k = []" using keys unfolding trie_keys_def by blast
    then show False using can' by simp
  qed
  show ?thesis
  proof (cases "\<exists>r. key = p @ r")
    case False
    then have "prefixLen key p < length p" using prefixLen_full [of key p] prefixLen_le(2) [of key p] by fastforce
    then show ?thesis using ne n \<open>key \<noteq> []\<close> r pmap_PExt_other [OF False]
      by (auto simp: en_delete_def deleted_def pe_node_def simp del: isEmptyOrNil.simps repr.simps pmap.simps)
  next
    case True
    then obtain r where key: "key = p @ r" by blast
    then have full: "prefixLen key p = length p" using prefixLen_full by blast
    let ?en = "pe_node p enc (pversion t)"
    obtain child where res: "resolveIfCollapsed env db n 0 = (None, ExtensionNode ?en (Some child) b)"
      and child: "repr env db t child" and hc: "hashed c \<longrightarrow> getHash child \<noteq> None" using resolve_ext [OF can'(1) c] n by blast
    obtain dirty res' hs child' where del: "node_delete fuel env db child r = Some (Inr (dirty, res', hs), child')"
      "deleted env db t r dirty res' child' child" using IH [OF child key] by blast
    have get: "pmap (PExt p t) key = pmap t r" using key by simp
    let ?n = "ExtensionNode ?en (Some child') b"
    have step: "node_delete (Suc fuel) env db n key =
        Some (if \<not> dirty then Inr (False, Some ?n, []) else en_merge env ?en res' (hs @ obsolete ?n), ?n)"
      using ne n can'(3) full res del(1) key
      by (simp add: en_delete_def Let_def pe_node_def del: isEmptyOrNil.simps)
    show ?thesis
    proof (cases dirty)
      case False
      then have "repr env db (PExt p t) ?n"
        using del(2) ext_repr_same [OF b] hc getHash_repr(1) [of child' child] by (auto simp: deleted_def simp del: repr.simps)
      then show ?thesis using step False del(2) get n by (auto simp: deleted_def simp del: repr.simps pmap.simps)
    next
      case True
      have "res' \<noteq> None" using del(2) True can'(2) by (auto simp: deleted_def is_branch_def split: option.splits)
      then obtain m t' where m: "res' = Some m" "loaded m" "repr env db t' m" "canonical t'" "pmap t' = (pmap t)(r := None)"
        "pmap t r \<noteq> None" using del(2) True by (auto simp: deleted_def)
      obtain m' where m': "en_merge env ?en res' (hs @ obsolete ?n) = Inr (True, Some m', hs @ obsolete ?n)"
        "repr env db (pjoin p t') m'" "loaded m'" using en_merge_repr [OF m(3,2) can'(3)] m(1) by blast
      have map: "pmap (pjoin p t') = (pmap (PExt p t))(key := None)"
        unfolding pmap_pjoin key by (rule pmap_PExt_upd [OF m(5)])
      have "sized (p @ k)" if "pmap t' k \<noteq> None" for k
      proof -
        have "pmap t k \<noteq> None" using that m(5) by (simp split: if_splits)
        then have "p @ k \<in> dom (pmap (PExt p t))" by (simp add: domIff)
        then show ?thesis using keys unfolding trie_keys_def by blast
      qed
      then have "canonical (pjoin p t')" using m(4) can' by (intro canonical_pjoin) auto
      then have "deleted env db (PExt p t) key True (Some m') ?n n"
        using m' map m(6) get by (auto simp: deleted_def simp del: repr.simps pmap.simps)
      then show ?thesis using step True m'(1) by auto
    qed
  qed
qed

lemma setNewChild_repr:
  assumes c: "children_ok env db f bn cs" and x: "unat x < nrOfChildren"
    and res: "case res of None \<Rightarrow> s = None | Some m \<Rightarrow> \<exists>t. s = Some t \<and> repr env db t m"
  shows "\<exists>bn' cs'. bn_setNewChild env (BranchNode bn cs b) x res = (None, BranchNode bn' cs' (b\<lparr>node_hash := None\<rparr>)) \<and>
    children_ok env db (f(unat x := s)) bn' cs'"
proof (cases res)
  case None
  then show ?thesis using res children_ok_unset [OF c x] by (auto simp: bn_setNewChild_def Let_def)
next
  case (Some m)
  then obtain t where "s = Some t" "repr env db t m" using res by auto
  then show ?thesis using Some children_ok_set [OF c x] getVersion_repr by (auto simp: bn_setNewChild_def Let_def)
qed

lemma delete_branch:
  assumes r: "repr env db (PBranch f) n" and can: "canonical (PBranch f)"
    and keys: "trie_keys (insert key (dom (pmap (PBranch f))))"
    and IH: "\<And>t child x r. repr env db t child \<Longrightarrow> key = x # r \<Longrightarrow> f (unat x) = Some t \<Longrightarrow>
      \<exists>dirty res hs n'. node_delete fuel env db child r = Some (Inr (dirty, res, hs), n') \<and> deleted env db t r dirty res n' child"
  shows "\<exists>dirty res hs n'. node_delete (Suc fuel) env db n key = Some (Inr (dirty, res, hs), n') \<and>
    deleted env db (PBranch f) key dirty res n' n"
proof -
  obtain bn cs b where n: "n = BranchNode bn cs b" and c: "children_ok env db f bn cs"
    and b: "base_ok env db (PBranch f) (bn = branch_node env f \<and> list_all hashed cs) b" using r by auto
  have ne: "isEmptyOrNil n = None" using repr_not_empty can r by blast
  obtain j where j: "f j \<noteq> None" "j < nrOfChildren" using can by auto
  have can': "\<forall>i t. f i = Some t \<longrightarrow> canonical t" using can by simp
  obtain x r where key: "key = x # r" using branch_key_Cons [OF can keys] by blast
  have x: "unat x < nrOfChildren" using keys key by (simp add: trie_keys_def)
  obtain cs' where res: "resolveIfCollapsed env db n x = (None, BranchNode bn cs' b)" and c': "children_ok env db f bn cs'" "list_all hashed cs \<longrightarrow> list_all hashed cs'"
    and ch: "case f (unat x) of None \<Rightarrow> cs' ! unat x = None | Some t \<Rightarrow> \<exists>child. cs' ! unat x = Some child \<and> repr env db t child"
    using resolve_branch [OF c can' j x] n by blast
  show ?thesis
  proof (cases "f (unat x)")
    case None
    have "repr env db (PBranch f) (BranchNode bn cs' b)" using branch_repr_same b c' by blast
    then show ?thesis using ne n key x res ch None
      by (auto simp: bn_delete_def deleted_def childPosOutOfRange_def simp del: isEmptyOrNil.simps repr_PBranch)
  next
    case (Some t)
    with ch obtain child where child: "cs' ! unat x = Some child" "repr env db t child" by auto
    obtain dirty res' hs child' where del: "node_delete fuel env db child r = Some (Inr (dirty, res', hs), child')"
      "deleted env db t r dirty res' child' child" using IH [OF child(2) key Some] by blast
    have get: "pmap (PBranch f) key = pmap t r" using key Some by simp
    let ?n = "BranchNode bn (cs'[unat x := Some child']) b"
    have step: "node_delete (Suc fuel) env db n key =
        (if \<not> dirty then Some (Inr (False, Some ?n, []), ?n)
         else case bn_setNewChild env ?n x res' of
                (Some e, n) \<Rightarrow> Some (Inl e, n)
              | (None, n) \<Rightarrow> Some (bn_reduce_or_keep env db n (hs @ obsolete ?n)))"
      using ne n key x res child(1) del(1)
      by (simp add: bn_delete_def childPosOutOfRange_def Let_def del: isEmptyOrNil.simps)
    show ?thesis
    proof (cases dirty)
      case False
      then have "repr env db (PBranch f) ?n"
        using branch_repr_same [OF b children_ok_same [OF c'(1) x Some]] c'(2) del(2)
          hashed_update [OF _ child(1) getHash_repr(1)] by (auto simp: deleted_def simp del: repr_PBranch)
      then show ?thesis using step False del(2) get n by (auto simp: deleted_def simp del: repr_PBranch)
    next
      case True
      define s where "s = (case res' of None \<Rightarrow> None | Some m \<Rightarrow>
        Some (SOME t'. repr env db t' m \<and> canonical t' \<and> pmap t' = (pmap t)(r := None)))"
      have s: "case res' of None \<Rightarrow> s = None | Some m \<Rightarrow> \<exists>t. s = Some t \<and> repr env db t m"
        "\<forall>t'. s = Some t' \<longrightarrow> canonical t'" "(case s of None \<Rightarrow> Map.empty | Some t' \<Rightarrow> pmap t') = (pmap t)(r := None)"
        "pmap t r \<noteq> None"
        using del(2) True someI_ex [of "\<lambda>t'. repr env db t' (the res') \<and> canonical t' \<and> pmap t' = (pmap t)(r := None)"]
        by (auto simp: s_def deleted_def split: option.splits)
      let ?f = "f(unat x := s)"
      have over: "bn_setNewChild env ?n x res' = bn_setNewChild env (BranchNode bn cs' b) x res'"
        by (simp add: bn_setNewChild_def)
      obtain bn' cs'' where set: "bn_setNewChild env ?n x res' = (None, BranchNode bn' cs'' (b\<lparr>node_hash := None\<rparr>))"
        "children_ok env db ?f bn' cs''" unfolding over using setNewChild_repr [OF c'(1) x s(1), of b] by blast
      have map: "pmap (PBranch ?f) = (pmap (PBranch f))(key := None)"
        unfolding key by (rule pmap_PBranch_upd) (use s(3) Some in simp)
      have "\<forall>k \<in> dom (pmap (PBranch f)). sized k" using keys unfolding trie_keys_def by blast
      then have sizes: "\<forall>k. pmap (PBranch ?f) k \<noteq> None \<longrightarrow> sized k" unfolding map by (simp add: domIff)
      have "\<exists>j. ?f j \<noteq> None" using can by (auto simp: fun_upd_def) metis
      then obtain j' where j': "?f j' \<noteq> None" by blast
      have f': "\<forall>i t. ?f i = Some t \<longrightarrow> canonical t" "\<forall>i. ?f i \<noteq> None \<longrightarrow> i < nrOfChildren"
        using can' s(2) can x by auto
      have "node_hash (b\<lparr>node_hash := None\<rparr>) = None" by simp
      from reduce_or_keep [OF set(2) f'(1) j' f'(2) sizes this] obtain m hs' n' where "bn_reduce_or_keep env db (BranchNode bn' cs'' (b\<lparr>node_hash := None\<rparr>)) (hs @ obsolete ?n) =
          (Inr (True, Some m, hs'), n')" "loaded m" "\<exists>t'. repr env db t' m \<and> canonical t' \<and> pmap t' = pmap (PBranch ?f)"
        by blast
      then show ?thesis using step True set(1) map get s(4) by (auto simp: deleted_def)
    qed
  qed
qed

lemma delete_repr:
  "repr env db t n \<Longrightarrow> canonical t \<Longrightarrow> trie_keys (insert key (dom (pmap t))) \<Longrightarrow> length key < fuel \<Longrightarrow>
   \<exists>dirty res hs n'. node_delete fuel env db n key = Some (Inr (dirty, res, hs), n') \<and> deleted env db t key dirty res n' n"
proof (induction t arbitrary: n key fuel)
  case (PLeaf k v ver)
  then obtain fuel' where "fuel = Suc fuel'" by (cases fuel) auto
  then show ?case using delete_leaf [OF PLeaf.prems(1)] by blast
next
  case (PExt p t)
  then obtain fuel' where fuel: "fuel = Suc fuel'" by (cases fuel) auto
  have p: "p \<noteq> []" "canonical t" using PExt.prems(2) by auto
  have "\<exists>dirty res hs n'. node_delete fuel' env db child r = Some (Inr (dirty, res, hs), n') \<and> deleted env db t r dirty res n' child"
    if "repr env db t child" "key = p @ r" for child r
  proof -
    have "trie_keys (insert r (dom (pmap t)))" using trie_keys_PExt PExt.prems(3) that(2) by blast
    moreover have "length r < fuel'" using PExt.prems(4) that(2) fuel p(1) by (cases p) simp_all
    ultimately show ?thesis using PExt.IH [OF that(1) p(2)] by blast
  qed
  then show ?case unfolding fuel by (rule delete_ext [OF PExt.prems(1-3)])
next
  case (PBranch f)
  then obtain fuel' where fuel: "fuel = Suc fuel'" by (cases fuel) auto
  have "\<exists>dirty res hs n'. node_delete fuel' env db child r = Some (Inr (dirty, res, hs), n') \<and> deleted env db t r dirty res n' child"
    if "repr env db t child" "key = x # r" "f (unat x) = Some t" for t child x r
  proof -
    have "f (unat x) \<in> range f" "t \<in> set_option (f (unat x))" using that(3) by simp_all (metis rangeI)
    moreover have "canonical t" using PBranch.prems(2) that(3) by simp
    moreover have "trie_keys (insert r (dom (pmap t)))" using trie_keys_PBranch PBranch.prems(3) that by blast
    moreover have "length r < fuel'" using PBranch.prems(4) that(2) fuel by simp
    ultimately show ?thesis using PBranch.IH [OF _ _ that(1)] by blast
  qed
  then show ?case unfolding fuel by (rule delete_branch [OF PBranch.prems(1-3)])
qed

end

end
