(* ===== verification/Trie_Hashing.thy ===== *)
theory Trie_Hashing
  imports Trie_Delete
begin

text \<open>
  Hashing computes the hash of the tree a node stands for. The concurrent hashing of the children of
  the root ends with the same nodes as the sequential one, in whatever order the goroutines end. A tree in
  canonical form is determined by its map, hence so is the root hash.
\<close>

section \<open>Concurrent hashing\<close>

definition child_error :: "trie_env \<Rightarrow> node option \<Rightarrow> trie_error option" where
  "child_error env c = (case c of None \<Rightarrow> None | Some n \<Rightarrow> fst (setHash env n))"

definition child_hashed :: "trie_env \<Rightarrow> node option \<Rightarrow> node option" where
  "child_hashed env c = map_option (\<lambda>n. snd (setHash env n)) c"

lemma hash_loop_spec:
  "hash_loop (zip cs (map (map_option (setHash env)) cs)) =
     (if list_all (\<lambda>c. child_error env c = None) cs then (None, map (child_hashed env) cs)
      else hash_loop (zip cs (map (map_option (setHash env)) cs)))"
  "fst (hash_loop (zip cs (map (map_option (setHash env)) cs))) = None \<longleftrightarrow> list_all (\<lambda>c. child_error env c = None) cs"
proof (induction cs)
  case (Cons c cs)
  {
    case 1
    then show ?case using Cons
      by (cases c; cases "setHash env (the c)"; cases "fst (setHash env (the c))")
        (auto simp: child_error_def child_hashed_def Let_def split: if_splits)
  next
    case 2
    then show ?case using Cons
      by (cases c; cases "setHash env (the c)"; cases "fst (setHash env (the c))")
        (auto simp: child_error_def child_hashed_def Let_def case_prod_unfold)
  }
qed simp_all

lemma concurrent_loop_spec:
  assumes "distinct order" "\<forall>i \<in> set order. i < length cs"
  shows "concurrent_loop env order errc cs =
    (errc @ concat (map (\<lambda>i. case child_error env (cs ! i) of None \<Rightarrow> [] | Some e \<Rightarrow> [e]) order),
     map (\<lambda>i. if i \<in> set order then child_hashed env (cs ! i) else cs ! i) [0..<length cs])"
  using assms
proof (induction order arbitrary: errc cs)
  case Nil
  then show ?case by (simp add: map_nth)
next
  case (Cons i order)
  let ?cs = "cs[i := child_hashed env (cs ! i)]"
  have step: "concurrent_loop env (i # order) errc cs =
      concurrent_loop env order (errc @ (case child_error env (cs ! i) of None \<Rightarrow> [] | Some e \<Rightarrow> [e])) ?cs"
  proof (cases "cs ! i")
    case None
    then show ?thesis using list_update_id [of cs i] by (simp add: child_error_def child_hashed_def)
  next
    case (Some n)
    then show ?thesis
      by (cases "setHash env n"; cases "fst (setHash env n)") (auto simp: child_error_def child_hashed_def setHashConcurrent_def)
  qed
  have same: "?cs ! j = cs ! j" if "j \<in> set order" for j using Cons.prems(1) that by (cases "i = j") auto
  have upd: "map (\<lambda>j. if j \<in> set order then child_hashed env (?cs ! j) else ?cs ! j) [0..<length cs] =
      map (\<lambda>j. if j \<in> set (i # order) then child_hashed env (cs ! j) else cs ! j) [0..<length cs]"
    using Cons.prems same by (auto simp: nth_list_update)
  have errs: "map (\<lambda>j. case child_error env (?cs ! j) of None \<Rightarrow> [] | Some e \<Rightarrow> [e]) order =
      map (\<lambda>j. case child_error env (cs ! j) of None \<Rightarrow> [] | Some e \<Rightarrow> [e]) order"
    using same by (intro map_cong) simp_all
  have "distinct order" "\<forall>j \<in> set order. j < length ?cs" using Cons.prems by simp_all
  note IH = Cons.IH [OF this, unfolded length_list_update upd errs]
  show ?case unfolding step IH by simp
qed

text \<open>Every order of the goroutines gives the result of the sequential hashing, or an error when that
  gives an error.\<close>

lemma setRootHash_sequential:
  assumes "distinct order" "set order = {..<nrOfChildren}" "\<And>bn cs b. n = BranchNode bn cs b \<Longrightarrow> length cs = nrOfChildren"
  shows "fst (setRootHash env order n) = None \<longleftrightarrow> fst (setHash env n) = None"
    "fst (setHash env n) = None \<Longrightarrow> setRootHash env order n = setHash env n"
proof -
  have "(fst (setRootHash env order n) = None \<longleftrightarrow> fst (setHash env n) = None) \<and>
      (fst (setHash env n) = None \<longrightarrow> setRootHash env order n = setHash env n)"
  proof (cases n)
    case (BranchNode bn cs b)
    have len: "length cs = nrOfChildren" using assms(3) BranchNode by blast
    let ?errs = "concat (map (\<lambda>i. case child_error env (cs ! i) of None \<Rightarrow> [] | Some e \<Rightarrow> [e]) order)"
    have conc: "concurrent_loop env order [] cs = (?errs, map (child_hashed env) cs)"
    proof -
      have "map (\<lambda>i. if i \<in> set order then child_hashed env (cs ! i) else cs ! i) [0..<length cs] = map (child_hashed env) cs"
        using assms(2) len by (intro nth_equalityI) simp_all
      then show ?thesis using concurrent_loop_spec [of order cs env "[]"] assms(1,2) len by simp
    qed
    have errs: "?errs = [] \<longleftrightarrow> list_all (\<lambda>c. child_error env c = None) cs"
      using assms(2) len by (auto simp: list_all_length split: option.splits)
    note seq = hash_loop_spec [of cs env]
    show ?thesis
    proof (cases "isEmptyOrNil n = None \<and> getHash n = None \<and> \<not> isCollapsed n")
      case False
      then show ?thesis using BranchNode
        by (auto simp: setRootHash_def bn_setRootHash_def bn_setHash_def simp del: isEmptyOrNil.simps isCollapsed.simps split: option.splits)
    next
      case True
      show ?thesis
      proof (cases "list_all (\<lambda>c. child_error env c = None) cs")
        case no_error: True
        then have "concurrent_loop env order [] cs = ([], map (child_hashed env) cs)" using conc errs by metis
        then show ?thesis using True BranchNode no_error seq(1)
          by (simp add: setRootHash_def bn_setRootHash_def bn_setHash_def bn_hashChildren_def
              del: isEmptyOrNil.simps isCollapsed.simps)
      next
        case error: False
        then obtain e es where "?errs = e # es" using errs by (cases ?errs) auto
        moreover obtain e' cs' where "hash_loop (zip cs (map (map_option (setHash env)) cs)) = (Some e', cs')"
          using seq(2) error by (cases "hash_loop (zip cs (map (map_option (setHash env)) cs))") auto
        ultimately show ?thesis using True BranchNode conc
          by (simp add: setRootHash_def bn_setRootHash_def bn_setHash_def bn_hashChildren_def
              del: isEmptyOrNil.simps isCollapsed.simps)
      qed
    qed
  qed (simp_all add: setRootHash_def)
  then show "fst (setRootHash env order n) = None \<longleftrightarrow> fst (setHash env n) = None"
    "fst (setHash env n) = None \<Longrightarrow> setRootHash env order n = setHash env n" by blast+
qed

section \<open>The map determines the tree\<close>

lemma branch_two_keys:
  assumes "canonical (PBranch f)"
  shows "\<exists>x r y s. x \<noteq> y \<and> pmap (PBranch f) (x # r) \<noteq> None \<and> pmap (PBranch f) (y # s) \<noteq> None"
proof -
  obtain i j t u where ij: "i \<noteq> j" "f i = Some t" "f j = Some u" "i < nrOfChildren" "j < nrOfChildren" "canonical t" "canonical u"
    using assms by auto
  obtain r s where "pmap t r \<noteq> None" "pmap u s \<noteq> None" using canonical_dom ij by blast
  then have "pmap (PBranch f) (of_nat i # r) \<noteq> None" "pmap (PBranch f) (of_nat j # s) \<noteq> None" using ij by (simp_all add: of_nat_child)
  moreover have "(of_nat i :: u8) \<noteq> of_nat j" using ij of_nat_child by metis
  ultimately show ?thesis by blast
qed

lemma pmap_PExt_Some: "pmap (PExt p t) k \<noteq> None \<Longrightarrow> \<exists>r. k = p @ r \<and> pmap t r \<noteq> None"
  using pmap_PExt_other pmap_PExt by metis

lemma ext_two_keys:
  assumes "canonical (PExt p t)"
  shows "\<exists>x r y s. x \<noteq> y \<and> pmap (PExt p t) (p @ x # r) \<noteq> None \<and> pmap (PExt p t) (p @ y # s) \<noteq> None"
proof -
  obtain f where t: "t = PBranch f" "canonical (PBranch f)" using assms by (auto simp: is_branch_def)
  then show ?thesis using branch_two_keys [OF t(2)] pmap_PExt by metis
qed

lemma common_prefix: "q @ a = p @ x # r \<Longrightarrow> q @ b = p @ y # s \<Longrightarrow> x \<noteq> y \<Longrightarrow> \<exists>c. p = q @ c"
proof (induction q arbitrary: p)
  case (Cons z q)
  then show ?case by (cases p) auto
qed simp

lemma ext_same_prefix:
  assumes "canonical (PExt p t)" "canonical (PExt q u)" "pmap (PExt p t) = pmap (PExt q u)"
  shows "p = q"
proof -
  have pre: "\<exists>c. p = q @ c" if can: "canonical (PExt p t)" and eq: "pmap (PExt p t) = pmap (PExt q u)" for p q t u
  proof -
    obtain x r y s where xy: "x \<noteq> y" "pmap (PExt q u) (p @ x # r) \<noteq> None" "pmap (PExt q u) (p @ y # s) \<noteq> None"
      using ext_two_keys [OF can] unfolding eq by blast
    obtain a where a: "p @ x # r = q @ a" using pmap_PExt_Some [OF xy(2)] by blast
    obtain b where b: "p @ y # s = q @ b" using pmap_PExt_Some [OF xy(3)] by blast
    show ?thesis using common_prefix [OF a [symmetric] b [symmetric] xy(1)] .
  qed
  obtain c where c: "p = q @ c" using pre assms(1,3) by blast
  obtain d where d: "q = p @ d" using pre assms(2,3) by metis
  from c d show ?thesis by simp
qed

text \<open>A leaf has one key, a branch two that differ at once, an extension two that agree on its key.\<close>

lemma leaf_not_other:
  assumes "canonical t" "pmap (PLeaf k v ver) = pmap t"
  shows "t = PLeaf k v ver"
proof (cases t)
  case (PLeaf k' v' ver')
  then have "pmap (PLeaf k v ver) k = pmap (PLeaf k' v' ver') k" using assms by simp
  then show ?thesis using PLeaf by (simp split: if_splits)
next
  case (PExt p u)
  then obtain x r y s where "x \<noteq> y" "pmap t (p @ x # r) \<noteq> None" "pmap t (p @ y # s) \<noteq> None" using ext_two_keys assms(1) by metis
  then show ?thesis using assms(2) by (metis append_same_eq fun_upd_apply list.inject pmap.simps(1) same_append_eq)
next
  case (PBranch f)
  then obtain x r y s where "x \<noteq> y" "pmap t (x # r) \<noteq> None" "pmap t (y # s) \<noteq> None" using branch_two_keys assms(1) by metis
  then show ?thesis using assms(2) by (metis fun_upd_apply list.inject pmap.simps(1))
qed

lemma ext_not_branch:
  assumes "canonical (PExt p t)" "canonical (PBranch f)"
  shows "pmap (PExt p t) \<noteq> pmap (PBranch f)"
proof
  assume eq: "pmap (PExt p t) = pmap (PBranch f)"
  obtain x r y s where xy: "x \<noteq> y" "pmap (PExt p t) (x # r) \<noteq> None" "pmap (PExt p t) (y # s) \<noteq> None"
    using branch_two_keys [OF assms(2)] unfolding eq [symmetric] by blast
  obtain a b where "x # r = p @ a" "y # s = p @ b" using pmap_PExt_Some xy(2,3) by metis
  moreover have "p \<noteq> []" using assms(1) by simp
  ultimately show False using xy(1) by (cases p) auto
qed

lemma pmap_inject: "canonical t \<Longrightarrow> canonical u \<Longrightarrow> pmap t = pmap u \<Longrightarrow> t = u"
proof (induction t arbitrary: u)
  case (PLeaf k v ver)
  then show ?case using leaf_not_other by metis
next
  case (PExt p t)
  show ?case
  proof (cases u)
    case (PLeaf k v ver)
    then show ?thesis using leaf_not_other PExt.prems by metis
  next
    case u: (PExt q v)
    have p: "p = q" using ext_same_prefix PExt.prems unfolding u by blast
    have "pmap t r = pmap v r" for r using fun_cong [OF PExt.prems(3), of "p @ r"] unfolding u p pmap_PExt .
    then have "t = v" using PExt.IH [of v] PExt.prems(1,2) u by auto
    then show ?thesis using u p by simp
  next
    case (PBranch f)
    then show ?thesis using ext_not_branch PExt.prems by metis
  qed
next
  case (PBranch f)
  show ?case
  proof (cases u)
    case (PLeaf k v ver)
    then show ?thesis using leaf_not_other PBranch.prems by metis
  next
    case (PExt p t)
    then show ?thesis using ext_not_branch PBranch.prems by metis
  next
    case u: (PBranch g)
    have child: "(case f i of None \<Rightarrow> None | Some t \<Rightarrow> pmap t r) = (case g i of None \<Rightarrow> None | Some t \<Rightarrow> pmap t r)"
      if "i < nrOfChildren" for i r
      using fun_cong [OF PBranch.prems(3), of "of_nat i # r"] unfolding u pmap_PBranch of_nat_child [OF that] .
    have "f i = g i" for i
    proof (cases "i < nrOfChildren")
      case False
      then show ?thesis using PBranch.prems(1,2) unfolding u canonical_PBranch by metis
    next
      case True
      have dom: "\<exists>r. pmap t r \<noteq> None" if "f i = Some t \<or> g i = Some t" for t
        using canonical_dom that PBranch.prems(1,2) unfolding u by auto
      show ?thesis
      proof (cases "f i")
        case None
        have "g i = None"
        proof (rule ccontr)
          assume "g i \<noteq> None"
          then obtain v where v: "g i = Some v" by blast
          then obtain r where "pmap v r \<noteq> None" using dom by blast
          then show False using child [OF True, of r] None v by simp
        qed
        then show ?thesis using None by simp
      next
        case (Some t)
        then obtain r where "pmap t r \<noteq> None" using dom by blast
        then obtain v where v: "g i = Some v" using child [OF True, of r] Some by (cases "g i") auto
        have "pmap t = pmap v"
        proof
          fix r show "pmap t r = pmap v r" using child [OF True, of r] Some v by simp
        qed
        moreover have "canonical t" "canonical v" using PBranch.prems(1,2) Some v unfolding u by auto
        moreover have "f i \<in> range f" "t \<in> set_option (f i)" using Some by simp_all (metis rangeI)
        ultimately have "t = v" using PBranch.IH by blast
        then show ?thesis using Some v by simp
      qed
    qed
    then have "f = g" ..
    then show ?thesis using u by simp
  qed
qed

section \<open>The hash of a tree\<close>

text \<open>What hashing a node for \<open>t\<close> gives: no error, the hash of \<open>t\<close>, and a node for \<open>t\<close>.\<close>

definition hashes_to :: "trie_env \<Rightarrow> db_get \<Rightarrow> ptree \<Rightarrow> node \<Rightarrow> trie_error option \<times> node \<Rightarrow> bool" where
  "hashes_to env db t n r \<longleftrightarrow>
     (\<exists>n'. r = (None, n') \<and> repr env db t n' \<and> getHash n' = Some (phash env t) \<and> isDirty n' = isDirty n)"

context node_codec
begin

lemma bn_eq: "EncodedChildren bn = EncodedChildren bn' \<Longrightarrow> ChildrenVersion bn = ChildrenVersion bn' \<Longrightarrow> (bn :: CollapsedBn) = bn'"
  by (simp add: CollapsedBn.equality)

lemma branch_node_sel [simp]:
  "length (EncodedChildren (branch_node env f)) = nrOfChildren"
  "i < nrOfChildren \<Longrightarrow> EncodedChildren (branch_node env f) ! i = (case f i of None \<Rightarrow> [] | Some t \<Rightarrow> phash env t)"
  "ChildrenVersion (branch_node env f) = pversions (\<lambda>i. map_option pversion (f i))"
  by (auto simp: branch_node_def pb_node_def split: option.splits)

text \<open>The encoded children are right once every child in memory has been written to them.\<close>

lemma branch_node_complete:
  assumes "children_ok env db f bn cs" "length encs = nrOfChildren"
    "\<And>i. i < nrOfChildren \<Longrightarrow> encs ! i = (case cs ! i of None \<Rightarrow> EncodedChildren bn ! i | Some n \<Rightarrow> phash env (the (f i)))"
  shows "bn\<lparr>EncodedChildren := encs\<rparr> = branch_node env f"
proof (rule bn_eq)
  show "EncodedChildren (bn\<lparr>EncodedChildren := encs\<rparr>) = EncodedChildren (branch_node env f)"
  proof (rule nth_equalityI)
    fix i assume "i < length (EncodedChildren (bn\<lparr>EncodedChildren := encs\<rparr>))"
    then have i: "i < nrOfChildren" using assms(2) by simp
    then show "EncodedChildren (bn\<lparr>EncodedChildren := encs\<rparr>) ! i = EncodedChildren (branch_node env f) ! i"
      using assms(1) assms(3) [OF i] by (auto simp: children_ok_def child_ok_def split: option.splits)
  qed (simp add: assms(2))
qed (use assms(1) in \<open>simp add: children_ok_def\<close>)

lemma branch_collapsed:
  assumes c: "children_ok env db f bn cs" and "list_all (\<lambda>c. c = None) cs"
  shows "bn = branch_node env f"
proof -
  have "\<And>i. i < nrOfChildren \<Longrightarrow> cs ! i = None" using assms children_ok_lengths(1) [OF c] by (simp add: list_all_length)
  then show ?thesis using branch_node_complete [OF c children_ok_lengths(2) [OF c]] by simp
qed

lemma encode_repr_leaf: "canonical (PLeaf k v ver) \<Longrightarrow> getEncodedNode env (LeafNode (pl_node k v ver) b) = Inr (penc env (PLeaf k v ver))"
  using leaf_codec [of "pl_node k v ver" v] by (auto simp: getEncodedNode_def pl_node_def or_empty_def)

lemma encode_repr_ext:
  "canonical (PExt p t) \<Longrightarrow> getEncodedNode env (ExtensionNode (pe_node p (phash env t) (pversion t)) c b) = Inr (penc env (PExt p t))"
  using extension_codec [of "pe_node p (phash env t) (pversion t)"]
  by (auto simp: getEncodedNode_def pe_node_def or_empty_def penc_PExt)

lemma encode_repr_branch:
  assumes "canonical (PBranch f)" "length cs = nrOfChildren"
  shows "getEncodedNode env (BranchNode (branch_node env f) cs b) = Inr (penc env (PBranch f))"
proof -
  obtain i t where i: "i < nrOfChildren" "f i = Some t" using assms(1) by auto
  then have "isEmptyOrNil (BranchNode (branch_node env f) cs b) = None" by (force simp: list_ex_iff present_def)
  then show ?thesis using branch_codec [OF branch_node_wf(1,3,2), of f]
    by (auto simp: getEncodedNode_def or_empty_def penc_PBranch simp del: isEmptyOrNil.simps)
qed

text \<open>A node whose hash is set encodes to the encoding of its tree.\<close>

lemma encode_hashed:
  assumes "repr env db t n" "canonical t" "getHash n \<noteq> None"
  shows "getEncodedNode env n = Inr (penc env t)"
proof (cases t)
  case (PLeaf k v ver)
  then show ?thesis using assms encode_repr_leaf by auto
next
  case (PExt p t')
  then show ?thesis using assms encode_repr_ext [of p t'] by (auto simp: base_ok_def getHash_def)
next
  case (PBranch f)
  then obtain bn cs b where n: "n = BranchNode bn cs b" "children_ok env db f bn cs" "bn = branch_node env f"
    using assms by (auto simp: base_ok_def getHash_def)
  then show ?thesis using encode_repr_branch assms(2) PBranch children_ok_lengths(1) by blast
qed

lemma encode_loop_spec:
  "length encs = length cs \<Longrightarrow> (\<And>i n. i < length cs \<Longrightarrow> cs ! i = Some n \<Longrightarrow> encodeNodeAndGetHash env n = Inr (g i)) \<Longrightarrow>
   encode_loop env encs cs = (None, map (\<lambda>i. case cs ! i of None \<Rightarrow> encs ! i | Some n \<Rightarrow> g i) [0..<length cs])"
proof (induction encs cs arbitrary: g rule: list_induct2)
  case (Cons e encs c cs)
  have IH: "encode_loop env encs cs = (None, map (\<lambda>i. case cs ! i of None \<Rightarrow> encs ! i | Some n \<Rightarrow> g (Suc i)) [0..<length cs])"
    using Cons.IH [of "\<lambda>i. g (Suc i)"] Cons.prems [of "Suc _"] by simp
  have split: "[0..<length (c # cs)] = 0 # map Suc [0..<length cs]" by (metis length_Cons map_Suc_upt upt_conv_Cons zero_less_Suc)
  show ?case unfolding split using IH Cons.prems [of 0] by (cases c) (auto simp: comp_def split: option.splits)
qed simp

lemma hashes_to_done:
  assumes "repr env db t n" "canonical t" "getHash n \<noteq> None"
  shows "hashes_to env db t n (None, n)"
proof -
  have "getHash n = Some (phash env t)" using assms(1,3) by (cases t) (auto simp: base_ok_def getHash_def)
  then show ?thesis using assms(1) by (simp add: hashes_to_def)
qed

lemma encodeNodeAndGetHash_ok: "getEncodedNode env n = Inr (penc env t) \<Longrightarrow> encodeNodeAndGetHash env n = Inr (phash env t)"
  by (simp add: encodeNodeAndGetHash_def phash_def)

lemma base_ok_set:
  "base_ok env db t s b \<Longrightarrow> s' \<Longrightarrow> base_ok env db t s' (b\<lparr>node_hash := Some (phash env t)\<rparr>)"
  by (auto simp: base_ok_def)

lemma setHash_leaf:
  assumes "repr env db (PLeaf k v ver) n" "canonical (PLeaf k v ver)"
  shows "hashes_to env db (PLeaf k v ver) n (setHash env n)"
proof -
  obtain b where n: "n = LeafNode (pl_node k v ver) b" and b: "base_ok env db (PLeaf k v ver) True b" using assms(1) by auto
  have ne: "isEmptyOrNil n = None" using repr_not_empty assms by blast
  have enc: "encodeNodeAndGetHash env n = Inr (phash env (PLeaf k v ver))"
    unfolding n using encodeNodeAndGetHash_ok [OF encode_repr_leaf [OF assms(2)]] .
  show ?thesis
  proof (cases "getHash n = None")
    case True
    then have "setHash env n = (None, LeafNode (pl_node k v ver) (b\<lparr>node_hash := Some (phash env (PLeaf k v ver))\<rparr>))"
      using ne enc unfolding n
      by (simp add: leaf_setHash_def leaf_hashNode_def setGivenHash_def del: isEmptyOrNil.simps)
    then show ?thesis using base_ok_set [OF b, of True] n by (auto simp: hashes_to_def getHash_def isDirty_def)
  next
    case False
    then show ?thesis using hashes_to_done [OF assms] ne n by (simp add: leaf_setHash_def del: isEmptyOrNil.simps repr.simps)
  qed
qed

lemma setHash_ext:
  assumes r: "repr env db (PExt p t) n" and can: "canonical (PExt p t)"
    and IH: "\<And>child. repr env db t child \<Longrightarrow> hashes_to env db t child (setHash env child)"
  shows "hashes_to env db (PExt p t) n (setHash env n)"
proof -
  obtain enc c b where n: "n = ExtensionNode (pe_node p enc (pversion t)) c b"
    and c: "child_ok env db (repr env db t) t c enc" and b: "base_ok env db (PExt p t) (enc = phash env t \<and> hashed c) b"
    using r by auto
  have ne: "isEmptyOrNil n = None" using repr_not_empty can r by blast
  let ?h = "phash env (PExt p t)" and ?en = "pe_node p (phash env t) (pversion t)"
  have enc_ok: "encodeNodeAndGetHash env (ExtensionNode ?en c' b') = Inr ?h" for c' b'
    using encodeNodeAndGetHash_ok [OF encode_repr_ext [OF can]] .
  show ?thesis
  proof (cases "getHash n = None")
    case False
    then show ?thesis using hashes_to_done [OF r can] ne n by (simp add: en_setHash_def del: isEmptyOrNil.simps repr.simps)
  next
    case True
    have fin: "hashes_to env db (PExt p t) n (None, ExtensionNode ?en c' (b\<lparr>node_hash := Some ?h\<rparr>))"
      if "child_ok env db (repr env db t) t c' (phash env t)" "hashed c'" for c'
      using base_ok_set [OF b, of True] that n by (auto simp: hashes_to_def getHash_def isDirty_def)
    show ?thesis
    proof (cases c)
      case None
      then have enc: "enc = phash env t" "stored env db t" using c by (auto simp: child_ok_def)
      then have "setHash env n = (None, ExtensionNode ?en None (b\<lparr>node_hash := Some ?h\<rparr>))"
        using True ne enc_ok [of None b] None unfolding n
        by (simp add: en_setHash_def set_or_fail_def setGivenHash_def del: isEmptyOrNil.simps) (simp add: pe_node_def)
      then show ?thesis using fin [of None] enc by (simp add: child_ok_def hashed_def)
    next
      case (Some child)
      then obtain child' where child': "setHash env child = (None, child')" "repr env db t child'" "getHash child' = Some (phash env t)"
        using c IH by (auto simp: child_ok_def hashes_to_def)
      have "encodeNodeAndGetHash env child' = Inr (phash env t)"
        using encodeNodeAndGetHash_ok [OF encode_hashed] child' can by simp
      moreover have "isEmptyOrNil (ExtensionNode (pe_node p enc (pversion t)) (Some child') b) = None" by simp
      ultimately have "setHash env n = (None, ExtensionNode ?en (Some child') (b\<lparr>node_hash := Some ?h\<rparr>))"
        using True ne enc_ok [of "Some child'" b] Some child'(1) unfolding n
        by (simp add: en_setHash_def en_hashChildren_def en_hashNode_def set_or_fail_def setGivenHash_def Let_def pe_node_def
            del: isEmptyOrNil.simps)
      then show ?thesis using fin [of "Some child'"] child' by (simp add: child_ok_def hashed_def)
    qed
  qed
qed

lemma children_ok_synced: "children_ok env db f bn cs \<Longrightarrow> children_ok env db f (branch_node env f) cs"
  using branch_node_wf(2) [of f]
  by (auto simp: children_ok_def wf_bn_def child_ok_def split: option.splits)

lemma setHash_branch:
  assumes r: "repr env db (PBranch f) n" and can: "canonical (PBranch f)"
    and IH: "\<And>i t child. f i = Some t \<Longrightarrow> repr env db t child \<Longrightarrow> hashes_to env db t child (setHash env child)"
  shows "hashes_to env db (PBranch f) n (setHash env n)"
proof -
  obtain bn cs b where n: "n = BranchNode bn cs b" and c: "children_ok env db f bn cs"
    and b: "base_ok env db (PBranch f) (bn = branch_node env f \<and> list_all hashed cs) b" using r by auto
  have ne: "isEmptyOrNil n = None" using repr_not_empty can r by blast
  have len: "length cs = nrOfChildren" "length (EncodedChildren bn) = nrOfChildren" using children_ok_lengths c by blast+
  let ?h = "phash env (PBranch f)" and ?bn = "branch_node env f"
  have enc_ok: "encodeNodeAndGetHash env (BranchNode ?bn cs' b') = Inr ?h" if "length cs' = nrOfChildren" for cs' b'
    using encodeNodeAndGetHash_ok [OF encode_repr_branch [OF can that]] .
  have fin: "hashes_to env db (PBranch f) n (None, BranchNode ?bn cs' (b\<lparr>node_hash := Some ?h\<rparr>))"
    if "children_ok env db f bn cs'" "list_all hashed cs'" for cs'
    using base_ok_set [OF b, of "list_all hashed cs'"] that children_ok_synced n by (auto simp: hashes_to_def getHash_def isDirty_def)
  show ?thesis
  proof (cases "getHash n = None")
    case False
    then show ?thesis using hashes_to_done [OF r can] ne n by (simp add: bn_setHash_def del: isEmptyOrNil.simps repr_PBranch)
  next
    case True
    show ?thesis
    proof (cases "isCollapsed n")
      case collapsed: True
      then have bn: "bn = ?bn" "list_all hashed cs" using branch_collapsed [OF c] n by (auto simp: list_all_iff hashed_def)
      then have "setHash env n = (None, BranchNode ?bn cs (b\<lparr>node_hash := Some ?h\<rparr>))"
        using True ne enc_ok [OF len(1)] collapsed unfolding n
        by (simp add: bn_setHash_def set_or_fail_def setGivenHash_def del: isEmptyOrNil.simps isCollapsed.simps)
      then show ?thesis using fin [OF c bn(2)] by simp
    next
      case False
      let ?cs = "map (child_hashed env) cs"
      have child: "(cs ! i = None \<and> ?cs ! i = None) \<or> (\<exists>child child' t. cs ! i = Some child \<and> f i = Some t \<and> setHash env child = (None, child') \<and>
          ?cs ! i = Some child' \<and> repr env db t child' \<and> getHash child' = Some (phash env t))" if i: "i < nrOfChildren" for i
      proof (cases "cs ! i")
        case None
        then show ?thesis using i len by (simp add: child_hashed_def)
      next
        case (Some child)
        then obtain t where t: "f i = Some t" "repr env db t child" using c i
          by (auto simp: children_ok_def child_ok_def split: option.splits)
        then show ?thesis using IH [OF t] Some i len by (auto simp: hashes_to_def child_hashed_def)
      qed
      have no_error: "list_all (\<lambda>c. child_error env c = None) cs"
        unfolding list_all_length len using child by (force simp: child_error_def)
      have c': "children_ok env db f bn ?cs" unfolding children_ok_def
      proof (intro conjI allI impI)
        fix i assume i: "i < nrOfChildren"
        have "case f i of None \<Rightarrow> cs ! i = None \<and> EncodedChildren bn ! i = []
          | Some t \<Rightarrow> child_ok env db (repr env db t) t (cs ! i) (EncodedChildren bn ! i)" using c i by (simp add: children_ok_def)
        then show "case f i of None \<Rightarrow> ?cs ! i = None \<and> EncodedChildren bn ! i = []
          | Some t \<Rightarrow> child_ok env db (repr env db t) t (?cs ! i) (EncodedChildren bn ! i)"
          using child [OF i] by (auto simp: child_ok_def split: option.splits)
      qed (use c in \<open>auto simp: children_ok_def wf_bn_def\<close>)
      have hashed': "list_all hashed ?cs" unfolding list_all_length length_map len
        using child by (fastforce simp: hashed_def split: option.splits)
      let ?encs = "map (\<lambda>i. case ?cs ! i of None \<Rightarrow> EncodedChildren bn ! i | Some n \<Rightarrow> phash env (the (f i))) [0..<nrOfChildren]"
      have "encodeNodeAndGetHash env m = Inr (phash env (the (f i)))" if i: "i < nrOfChildren" and m: "?cs ! i = Some m" for i m
      proof -
        obtain t where "f i = Some t" "repr env db t m" "getHash m = Some (phash env t)" using child [OF i] m by auto
        then show ?thesis using encodeNodeAndGetHash_ok [OF encode_hashed] can by simp
      qed
      then have loop: "encode_loop env (EncodedChildren bn) ?cs = (None, ?encs)"
        using encode_loop_spec [of "EncodedChildren bn" ?cs "\<lambda>i. phash env (the (f i))"] len by simp
      have complete: "bn\<lparr>EncodedChildren := ?encs\<rparr> = ?bn" by (rule branch_node_complete [OF c']) (auto split: option.split)
      have ne': "isEmptyOrNil (BranchNode bn ?cs b) = None" using repr_not_empty [OF can] branch_repr_same [OF b c'] hashed' by blast
      have hl: "hash_loop (zip cs (map (map_option (setHash env)) cs)) = (None, ?cs)"
        using hash_loop_spec(1) [of cs env] no_error by simp
      have "setHash env n = (None, BranchNode ?bn ?cs (b\<lparr>node_hash := Some ?h\<rparr>))"
        using True ne ne' False hl loop complete enc_ok [of ?cs b] len unfolding n
        by (simp add: bn_setHash_def bn_hashChildren_def bn_hashNode_def set_or_fail_def setGivenHash_def Let_def
            del: isEmptyOrNil.simps isCollapsed.simps)
      then show ?thesis using fin [OF c' hashed'] by simp
    qed
  qed
qed

lemma setHash_repr: "repr env db t n \<Longrightarrow> canonical t \<Longrightarrow> hashes_to env db t n (setHash env n)"
proof (induction t arbitrary: n)
  case (PLeaf k v ver)
  then show ?case by (rule setHash_leaf)
next
  case (PExt p t)
  then show ?case by (intro setHash_ext) auto
next
  case (PBranch f)
  then show ?case by (intro setHash_branch) (auto intro: PBranch.IH [OF rangeI])
qed

lemma setRootHash_repr:
  assumes "distinct order" "set order = {..<nrOfChildren}" "repr env db t n" "canonical t"
  shows "hashes_to env db t n (setRootHash env order n)"
proof -
  have "length cs = nrOfChildren" if "n = BranchNode bn cs b" for bn cs b
    using assms(3) that children_ok_lengths by (cases t) auto
  moreover have h: "hashes_to env db t n (setHash env n)" using setHash_repr assms by blast
  moreover have "fst (setHash env n) = None" using h by (auto simp: hashes_to_def)
  ultimately show ?thesis using setRootHash_sequential(2) [OF assms(1,2)] by metis
qed

end

end
