(* ===== verification/Trie_Commit.thy ===== *)
theory Trie_Commit
  imports Trie_Hashing
begin

text \<open>
  Committing a trie writes every dirty node under its hash, never touches what is stored, and leaves a
  clean node for the same tree, collapsed at the level the trie keeps in memory.
\<close>

section \<open>The storage\<close>

text \<open>What the trie relies on: a value that is put is what is read under its key from then on. An empty
  value is excepted: the storage manager reports it as missing.\<close>

locale trie_storage =
  fixes S :: "'d storer"
  assumes put_get: "v \<noteq> [] \<Longrightarrow> \<exists>d'. st_Put S d k v = (None, d') \<and> st_Get S d' = (st_Get S d)(k := Inr v)"

text \<open>The hasher has no collisions among the encodings in \<open>U\<close>.\<close>

locale node_hashing = node_codec env for env :: trie_env +
  fixes U :: "bytes set"
  assumes collision_free: "x \<in> U \<Longrightarrow> y \<in> U \<Longrightarrow> Compute env x = Compute env y \<Longrightarrow> x = y"

locale trie_db = node_hashing env U + trie_storage S for env :: trie_env and U :: "bytes set" and S :: "'d storer"

lemma penc_not_Nil: "penc env t \<noteq> []"
  by (cases t) (simp_all add: penc_PExt penc_PBranch)

definition extends :: "trie_env \<Rightarrow> bytes set \<Rightarrow> db_get \<Rightarrow> db_get \<Rightarrow> bool" where
  "extends env U db db' \<longleftrightarrow> (\<forall>u. tracked env U u \<longrightarrow> stored env db u \<longrightarrow> stored env db' u)"

lemma extends_refl [simp]: "extends env U db db"
  by (simp add: extends_def)

lemma extends_trans: "extends env U db db' \<Longrightarrow> extends env U db' db'' \<Longrightarrow> extends env U db db''"
  by (simp add: extends_def)

lemma base_ok_mono: "extends env U db db' \<Longrightarrow> tracked env U t \<Longrightarrow> base_ok env db t s b \<Longrightarrow> base_ok env db' t s b"
  by (auto simp: base_ok_def extends_def)

lemma children_ok_mono:
  assumes "extends env U db db'" "children_ok env db f bn cs" "\<forall>i t. f i = Some t \<longrightarrow> tracked env U t"
    "\<And>i t c. f i = Some t \<Longrightarrow> repr env db t c \<Longrightarrow> repr env db' t c"
  shows "children_ok env db' f bn cs"
  unfolding children_ok_def
proof (intro conjI allI impI)
  fix i assume "i < nrOfChildren"
  then have "case f i of None \<Rightarrow> cs ! i = None \<and> EncodedChildren bn ! i = []
      | Some t \<Rightarrow> child_ok env db (repr env db t) t (cs ! i) (EncodedChildren bn ! i)"
    using assms(2) unfolding children_ok_def by blast
  then show "case f i of None \<Rightarrow> cs ! i = None \<and> EncodedChildren bn ! i = []
      | Some t \<Rightarrow> child_ok env db' (repr env db' t) t (cs ! i) (EncodedChildren bn ! i)"
    using assms(1,3,4) by (auto simp: child_ok_def extends_def split: option.splits)
qed (use assms(2) in \<open>simp_all add: children_ok_def\<close>)

lemma child_in_memory:
  assumes "children_ok env db f bn cs" "i < nrOfChildren" "cs ! i = Some m"
  shows "\<exists>t. f i = Some t \<and> repr env db t m"
proof -
  have "case f i of None \<Rightarrow> cs ! i = None \<and> EncodedChildren bn ! i = []
      | Some t \<Rightarrow> child_ok env db (repr env db t) t (cs ! i) (EncodedChildren bn ! i)"
    using assms(1,2) unfolding children_ok_def by blast
  then show ?thesis using assms(3) by (cases "f i") (simp_all add: child_ok_def)
qed

lemma repr_mono: "extends env U db db' \<Longrightarrow> tracked env U t \<Longrightarrow> repr env db t n \<Longrightarrow> repr env db' t n"
proof (induction t arbitrary: n)
  case (PLeaf k v ver)
  then show ?case using base_ok_mono by auto
next
  case (PExt p t)
  then obtain enc c b where n: "n = ExtensionNode (pe_node p enc (pversion t)) c b" "child_ok env db (repr env db t) t c enc"
    "base_ok env db (PExt p t) (enc = phash env t \<and> hashed c) b" by auto
  have "child_ok env db' (repr env db' t) t c enc"
    using n(2) PExt.IH PExt.prems(1,2) by (auto simp: child_ok_def extends_def split: option.splits)
  then show ?case using n base_ok_mono [OF PExt.prems(1,2)] by auto
next
  case (PBranch f)
  then obtain bn cs b where n: "n = BranchNode bn cs b" "children_ok env db f bn cs"
    "base_ok env db (PBranch f) (bn = branch_node env f \<and> list_all hashed cs) b" by auto
  have "repr env db' t c" if "f i = Some t" "repr env db t c" for i t c
    using PBranch.IH [OF rangeI, of t i c] PBranch.prems(1,2) that by simp
  moreover have "\<forall>i t. f i = Some t \<longrightarrow> tracked env U t" using PBranch.prems(2) by simp
  ultimately have "children_ok env db' f bn cs" by (intro children_ok_mono [OF PBranch.prems(1) n(2)]) blast+
  then show ?case using n base_ok_mono [OF PBranch.prems(1,2)] by auto
qed

section \<open>Collapsing\<close>

context node_codec
begin

lemma encode_pnode: "canonical t \<Longrightarrow> getEncodedNode env (pnode env t b) = Inr (penc env t)"
  by (cases t) (simp_all add: pnode_def encode_repr_leaf encode_repr_ext encode_repr_branch del: canonical_PBranch canonical.simps penc.simps)

lemma hash_repr: "repr env db t n \<Longrightarrow> getHash n \<noteq> None \<Longrightarrow> getHash n = Some (phash env t)"
  by (cases t) (auto simp: base_ok_def getHash_def)

lemma child_hash:
  assumes "repr env db t child" "canonical t" "getHash child \<noteq> None"
  shows "\<exists>ok. hasValidHash child = Inr ok" "setHash env child = (None, child)" "getHash child = Some (phash env t)"
proof -
  have ne: "isEmptyOrNil child = None" using repr_not_empty assms by blast
  show "\<exists>ok. hasValidHash child = Inr ok" using ne by (auto simp: hasValidHash_def)
  show "setHash env child = (None, child)"
    using ne assms(3) by (cases child) (simp_all add: leaf_setHash_def en_setHash_def bn_setHash_def del: isEmptyOrNil.simps)
  show "getHash child = Some (phash env t)" using hash_repr assms by blast
qed

lemma collapse_loop_spec:
  "length encs = length cs \<Longrightarrow>
   (\<And>i n. i < length cs \<Longrightarrow> cs ! i = Some n \<Longrightarrow>
      (\<exists>ok. hasValidHash n = Inr ok) \<and> setHash env n = (None, n) \<and> getHash n = Some (encs ! i)) \<Longrightarrow>
   collapse_loop env encs cs = (None, encs, cs)"
proof (induction encs cs rule: list_induct2)
  case (Cons e encs c cs)
  have IH: "collapse_loop env encs cs = (None, encs, cs)" using Cons.IH Cons.prems [of "Suc _"] by simp
  show ?case
  proof (cases c)
    case (Some n)
    then show ?thesis using IH Cons.prems [of 0 n] by auto
  qed (simp add: IH)
qed simp

text \<open>A node with its hash set collapses to the collapsed node of its tree and is itself unchanged.\<close>

lemma getCollapsed_repr:
  assumes r: "repr env db t n" and can: "canonical t" and h: "getHash n \<noteq> None"
  shows "getCollapsed env n = (Inr (pnode env t (base_of n)), n)"
proof (cases t)
  case (PLeaf k v ver)
  then show ?thesis using r by (auto simp: getCollapsed_def pnode_def)
next
  case (PExt p u)
  then obtain c b where n: "n = ExtensionNode (pe_node p (phash env u) (pversion u)) c b"
    and c: "child_ok env db (repr env db u) u c (phash env u)" "hashed c" using r h by (auto simp: base_ok_def getHash_def)
  have ne: "isEmptyOrNil n = None" using repr_not_empty can r by blast
  show ?thesis
  proof (cases c)
    case None
    then have "isCollapsed n" by (simp add: n pe_node_def)
    then show ?thesis using ne n PExt None by (simp add: getCollapsed_def getCollapsedEn_def pnode_def del: isEmptyOrNil.simps isCollapsed.simps)
  next
    case (Some child)
    then have child: "repr env db u child" "getHash child \<noteq> None" using c by (simp_all add: child_ok_def hashed_def)
    note ch = child_hash [OF child(1) _ child(2)]
    have "canonical u" using can PExt by simp
    then obtain ok where "hasValidHash child = Inr ok" "setHash env child = (None, child)" "getHash child = Some (phash env u)"
      using ch by blast
    then show ?thesis using ne n PExt Some
      by (auto simp: getCollapsed_def getCollapsedEn_def pnode_def pe_node_def simp del: isEmptyOrNil.simps)
  qed
next
  case (PBranch f)
  then obtain cs b where n: "n = BranchNode (branch_node env f) cs b"
    and c: "children_ok env db f (branch_node env f) cs" "list_all hashed cs" using r h by (auto simp: base_ok_def getHash_def)
  have ne: "isEmptyOrNil n = None" using repr_not_empty can r by blast
  have len: "length cs = nrOfChildren" using children_ok_lengths(1) [OF c(1)] .
  have none: "map (\<lambda>_. None) cs = replicate nrOfChildren (None :: node option)" using len by (metis map_replicate_const)
  have "collapse_loop env (EncodedChildren (branch_node env f)) cs = (None, EncodedChildren (branch_node env f), cs)"
  proof (rule collapse_loop_spec)
    fix i m assume i: "i < length cs" "cs ! i = Some m"
    then obtain u where u: "f i = Some u" "repr env db u m" using child_in_memory [OF c(1)] len by auto
    have "getHash m \<noteq> None" using c(2) i by (auto simp: list_all_length hashed_def split: option.splits)
    moreover have "canonical u" using can PBranch u by simp
    moreover have "EncodedChildren (branch_node env f) ! i = phash env u" using i u len by simp
    ultimately show "(\<exists>ok. hasValidHash m = Inr ok) \<and> setHash env m = (None, m) \<and> getHash m = Some (EncodedChildren (branch_node env f) ! i)"
      using child_hash [OF u(2)] by simp
  qed (simp add: len)
  moreover have "cs = replicate nrOfChildren None" if "isCollapsed n"
    using that n len by (auto simp: list_all_iff intro: replicate_eqI)
  ultimately show ?thesis using ne n PBranch none
    by (auto simp: getCollapsed_def getCollapsedBn_def pnode_def Let_def simp del: isEmptyOrNil.simps isCollapsed.simps)
qed

end

section \<open>Committing\<close>

text \<open>What committing a node for \<open>t\<close> gives: no error, a clean node for \<open>t\<close>, and a storage that has lost
  nothing.\<close>

definition commits_to :: "trie_env \<Rightarrow> bytes set \<Rightarrow> 'd storer \<Rightarrow> ptree \<Rightarrow> 'd \<Rightarrow> trie_error option \<times> node \<times> 'd \<Rightarrow> bool" where
  "commits_to env U S t d r \<longleftrightarrow>
     (\<exists>n' d'. r = (None, n', d') \<and> repr env (st_Get S d') t n' \<and> \<not> isDirty n' \<and> extends env U (st_Get S d) (st_Get S d'))"

lemma setDirty_simps [simp]:
  "getHash (setDirty n x) = getHash n" "isDirty (setDirty n x) = x" "base_of (setDirty n x) = (base_of n)\<lparr>node_dirty := x\<rparr>"
  by (cases n; simp add: getHash_def isDirty_def setDirty_def)+

lemma getHash_pnode [simp]: "getHash (pnode env t b) = node_hash b" "isDirty (pnode env t b) = node_dirty b"
  by (simp_all add: getHash_def isDirty_def)

text \<open>The subtrees below the root of a tree are stored.\<close>

definition kids_stored :: "trie_env \<Rightarrow> db_get \<Rightarrow> ptree \<Rightarrow> bool" where
  "kids_stored env db t \<longleftrightarrow>
     (case t of PLeaf k v ver \<Rightarrow> True | PExt p u \<Rightarrow> stored env db u | PBranch f \<Rightarrow> \<forall>i u. f i = Some u \<longrightarrow> stored env db u)"

lemma stored_kids: "stored env db t \<longleftrightarrow> kids_stored env db t \<and> db (phash env t) = Inr (penc env t)"
  by (cases t) (auto simp: kids_stored_def)

text \<open>Committing a list of children, each for the tree at its position.\<close>

definition child_commits :: "trie_env \<Rightarrow> bytes set \<Rightarrow> 'd storer \<Rightarrow> 'd \<Rightarrow> node option \<Rightarrow> ptree option \<Rightarrow> bool" where
  "child_commits env U S d c u \<longleftrightarrow>
     (case c of None \<Rightarrow> True
      | Some n \<Rightarrow> \<exists>t. u = Some t \<and> canonical t \<and> tracked env U t \<and> repr env (st_Get S d) t n \<and> getHash n \<noteq> None)"

definition child_committed :: "trie_env \<Rightarrow> 'd storer \<Rightarrow> 'd \<Rightarrow> node option \<Rightarrow> node option \<Rightarrow> ptree option \<Rightarrow> bool" where
  "child_committed env S d c c' u \<longleftrightarrow>
     (case c of None \<Rightarrow> c' = None
      | Some n \<Rightarrow> \<exists>t n'. u = Some t \<and> c' = Some n' \<and> repr env (st_Get S d) t n' \<and> \<not> isDirty n')"

context trie_db
begin

text \<open>Writing a node under its hash keeps what is stored: no other node has this hash.\<close>

lemma put_stored: "tracked env U t \<Longrightarrow> extends env U db (db(phash env t := Inr (penc env t)))"
  unfolding extends_def
proof (intro allI impI)
  assume t: "tracked env U t"
  have same: "penc env u \<in> U \<Longrightarrow> db (phash env u) = Inr (penc env u) \<Longrightarrow> (db(phash env t := Inr (penc env t))) (phash env u) = Inr (penc env u)" for u
    using collision_free [of "penc env u" "penc env t"] tracked_enc [OF t] by (auto simp: phash_def)
  fix u show "tracked env U u \<Longrightarrow> stored env db u \<Longrightarrow> stored env (db(phash env t := Inr (penc env t))) u"
  proof (induction u)
    case (PBranch f)
    have "stored env (db(phash env t := Inr (penc env t))) u" if "f i = Some u" for i u
    proof (rule PBranch.IH [OF rangeI])
      show "u \<in> set_option (f i)" "tracked env U u" "stored env db u" using PBranch.prems that by simp_all
    qed
    then show ?case using PBranch.prems same [of "PBranch f"] unfolding stored_PBranch tracked_PBranch by blast
  next
    case (PExt p u)
    then show ?case using same [of "PExt p u"] unfolding stored.simps tracked.simps by blast
  next
    case (PLeaf k v ver)
    then show ?case using same [of "PLeaf k v ver"] unfolding stored.simps tracked.simps by blast
  qed
qed

lemma repr_clean:
  assumes "repr env db t n" "getHash n \<noteq> None" "stored env db t"
  shows "repr env db t (setDirty n False)"
  using assms by (cases t) (auto simp: base_ok_def getHash_def setDirty_def)

lemma encodeNodeAndCommitToDB_repr:
  assumes r: "repr env (st_Get S d) t n" and can: "canonical t" and h: "getHash n \<noteq> None" and kids: "kids_stored env (st_Get S d) t" and tr: "tracked env U t"
  shows "\<exists>d'. encodeNodeAndCommitToDB env S (setDirty n False) d = (None, setDirty n False, d') \<and>
    repr env (st_Get S d') t (setDirty n False) \<and> stored env (st_Get S d') t \<and> extends env U (st_Get S d) (st_Get S d')"
proof -
  let ?n = "setDirty n False"
  obtain d' where put: "st_Put S d (phash env t) (penc env t) = (None, d')"
    "st_Get S d' = (st_Get S d)(phash env t := Inr (penc env t))" using put_get penc_not_Nil by blast
  have ext: "extends env U (st_Get S d) (st_Get S d')" unfolding put(2) by (rule put_stored [OF tr])
  then have "kids_stored env (st_Get S d') t" using kids tr by (auto simp: kids_stored_def extends_def split: ptree.splits)
  then have st: "stored env (st_Get S d') t" unfolding stored_kids by (simp add: put(2))
  have r': "repr env (st_Get S d') t ?n" using repr_clean [OF repr_mono [OF ext tr r] h st] .
  have h': "getHash ?n = Some (phash env t)" using hash_repr [OF r h] by simp
  have "collapseAndEncodeNode env ?n = (Inr (penc env t), ?n)"
    using getCollapsed_repr [OF r' can] h' encode_pnode [OF can] by (simp add: collapseAndEncodeNode_def)
  then have "encodeNodeAndCommitToDB env S ?n d = (None, ?n, d')"
    using h' put(1) by (simp add: encodeNodeAndCommitToDB_def computeAndSetNodeHash_def)
  then show ?thesis using r' st ext by blast
qed

lemma commit_self_repr:
  assumes r: "repr env (st_Get S d) t n" and can: "canonical t" and h: "getHash n \<noteq> None" and kids: "kids_stored env (st_Get S d) t" and tr: "tracked env U t"
    and collapse: "collapse env (setDirty n False) = getCollapsed env (setDirty n False)"
  shows "commits_to env U S t d (commit_self env S collapse n level mx d)"
proof -
  let ?n = "setDirty n False"
  obtain d' where c: "encodeNodeAndCommitToDB env S ?n d = (None, ?n, d')"
    "repr env (st_Get S d') t ?n" "stored env (st_Get S d') t" "extends env U (st_Get S d) (st_Get S d')"
    using encodeNodeAndCommitToDB_repr [OF r can h kids tr] by blast
  have col: "collapse env ?n = (Inr (pnode env t (base_of ?n)), ?n)"
    unfolding collapse using getCollapsed_repr [OF c(2) can] h by simp
  have "node_hash (base_of ?n) = Some (phash env t)" using hash_repr [OF r h] by (simp add: getHash_def)
  then have "repr env (st_Get S d') t (pnode env t (base_of ?n))" using repr_pnode [OF can c(3)] by blast
  then show ?thesis using c col by (auto simp: commit_self_def commits_to_def)
qed

lemma commit_clean:
  assumes "repr env (st_Get S d) t n" "\<not> isDirty n"
  shows "commits_to env U S t d (None, n, d)" "stored env (st_Get S d) t"
  using assms by (auto simp: commits_to_def) (cases t; auto simp: base_ok_def isDirty_def)+

lemma commit_loop_repr:
  assumes "list_all2 (child_commits env U S d) cs us"
    and "\<And>t n level d. Some t \<in> set us \<Longrightarrow> repr env (st_Get S d) t n \<Longrightarrow> canonical t \<Longrightarrow> tracked env U t \<Longrightarrow> getHash n \<noteq> None \<Longrightarrow>
      commits_to env U S t d (commitDirty env S n level mx d)"
  shows "\<exists>cs' d'. commit_loop level mx (zip cs (map (map_option (commitDirty env S)) cs)) d = (None, cs', d') \<and>
    length cs' = length cs \<and> extends env U (st_Get S d) (st_Get S d') \<and>
    (\<forall>i < length cs. child_committed env S d' (cs ! i) (cs' ! i) (us ! i))"
  using assms
proof (induction cs arbitrary: us d)
  case (Cons c cs us0)
  then obtain u us where us0: "us0 = u # us" and hyps: "child_commits env U S d c u" "list_all2 (child_commits env U S d) cs us"
    by (auto simp: list_all2_Cons1)
  have rest: "\<exists>cs' d''. commit_loop level mx (zip cs (map (map_option (commitDirty env S)) cs)) d' = (None, cs', d'') \<and>
      length cs' = length cs \<and> extends env U (st_Get S d') (st_Get S d'') \<and>
      (\<forall>i < length cs. child_committed env S d'' (cs ! i) (cs' ! i) (us ! i))" if ext: "extends env U (st_Get S d) (st_Get S d')" for d'
  proof -
    have "child_commits env U S d' c u" if "child_commits env U S d c u" for c u
      using that repr_mono [OF ext] by (auto simp: child_commits_def split: option.splits)
    then have "list_all2 (child_commits env U S d') cs us" using hyps(2) by (metis list_all2_mono)
    then show ?thesis using Cons.IH Cons.prems(2) us0 by simp
  qed
  show ?case
  proof (cases c)
    case None
    obtain cs' d' where "commit_loop level mx (zip cs (map (map_option (commitDirty env S)) cs)) d = (None, cs', d')"
      "length cs' = length cs" "extends env U (st_Get S d) (st_Get S d')" "\<forall>i < length cs. child_committed env S d' (cs ! i) (cs' ! i) (us ! i)"
      using rest [of d] by auto
    then show ?thesis using None us0 by (auto simp: less_Suc_eq_0_disj child_committed_def [of _ _ _ None])
  next
    case (Some n)
    then obtain t where t: "u = Some t" "canonical t" "repr env (st_Get S d) t n" "getHash n \<noteq> None" "tracked env U t"
      using hyps(1) by (auto simp: child_commits_def)
    obtain n' d' where n': "commitDirty env S n level mx d = (None, n', d')" "repr env (st_Get S d') t n'" "\<not> isDirty n'"
      "extends env U (st_Get S d) (st_Get S d')" using Cons.prems(2) [of t d n level] t us0 by (auto simp: commits_to_def)
    obtain cs' d'' where r: "commit_loop level mx (zip cs (map (map_option (commitDirty env S)) cs)) d' = (None, cs', d'')"
      "length cs' = length cs" "extends env U (st_Get S d') (st_Get S d'')" "\<forall>i < length cs. child_committed env S d'' (cs ! i) (cs' ! i) (us ! i)"
      using rest [OF n'(4)] by blast
    have "child_committed env S d'' c (Some n') u" using Some t n' repr_mono [OF r(3) t(5)] by (auto simp: child_committed_def)
    moreover have "extends env U (st_Get S d) (st_Get S d'')" using n'(4) r(3) extends_trans by blast
    ultimately show ?thesis using Some n'(1) r us0 by (auto simp: less_Suc_eq_0_disj)
  qed
qed simp

lemma commit_repr:
  "repr env (st_Get S d) t n \<Longrightarrow> canonical t \<Longrightarrow> tracked env U t \<Longrightarrow> getHash n \<noteq> None \<Longrightarrow> commits_to env U S t d (commitDirty env S n level mx d)"
proof (induction t arbitrary: n level d)
  case (PLeaf k v ver)
  obtain b where n: "n = LeafNode (pl_node k v ver) b" using PLeaf.prems(1) by auto
  have ne: "isEmptyOrNil n = None" using repr_not_empty PLeaf.prems by blast
  have "kids_stored env (st_Get S d) (PLeaf k v ver)" by (simp add: kids_stored_def)
  then show ?case
    using encodeNodeAndCommitToDB_repr [OF PLeaf.prems(1,2,4) _ PLeaf.prems(3)] commit_clean(1) [OF PLeaf.prems(1)] ne n
    by (auto simp: leaf_commitDirty_def commits_to_def simp del: isEmptyOrNil.simps repr.simps)
next
  case (PExt p t)
  obtain enc c b where n: "n = ExtensionNode (pe_node p enc (pversion t)) c b" "child_ok env (st_Get S d) (repr env (st_Get S d) t) t c enc"
    "base_ok env (st_Get S d) (PExt p t) (enc = phash env t \<and> hashed c) b" "enc = phash env t" "hashed c"
    using PExt.prems(1,4) by (auto simp: base_ok_def getHash_def)
  have ne: "isEmptyOrNil n = None" using repr_not_empty PExt.prems by blast
  show ?case
  proof (cases "isDirty n")
    case False
    then show ?thesis using commit_clean(1) [OF PExt.prems(1)] ne n
      by (simp add: en_commitDirty_def Let_def del: isEmptyOrNil.simps repr.simps)
  next
    case True
    have col: "getCollapsedEn env (setDirty (ExtensionNode en' c' b') False) = getCollapsed env (setDirty (ExtensionNode en' c' b') False)"
      for en' c' b' by (simp add: setDirty_def getCollapsed_def)
    show ?thesis
    proof (cases c)
      case None
      then have "kids_stored env (st_Get S d) (PExt p t)" using n by (simp add: kids_stored_def child_ok_def)
      then have "commits_to env U S (PExt p t) d (commit_self env S getCollapsedEn n (level + 1) mx d)"
        using commit_self_repr [OF PExt.prems(1,2,4) _ PExt.prems(3)] col n(1) by blast
      then show ?thesis using True ne n None by (simp add: en_commitDirty_def Let_def del: isEmptyOrNil.simps)
    next
      case (Some child)
      then have child: "repr env (st_Get S d) t child" "getHash child \<noteq> None" using n by (simp_all add: child_ok_def hashed_def)
      have "canonical t" "tracked env U t" using PExt.prems(2,3) by simp_all
      from PExt.IH [OF child(1) this child(2), of "level + 1"] obtain child' d' where
        com: "commitDirty env S child (level + 1) mx d = (None, child', d')" "repr env (st_Get S d') t child'" "\<not> isDirty child'"
        "extends env U (st_Get S d) (st_Get S d')" by (auto simp: commits_to_def)
      have st: "stored env (st_Get S d') t" using commit_clean(2) com(2,3) by blast
      have "getHash child' \<noteq> None" using com(2,3) by (cases t) (auto simp: base_ok_def getHash_def isDirty_def)
      then have r': "repr env (st_Get S d') (PExt p t) (ExtensionNode (pe_node p enc (pversion t)) (Some child') b)"
        using ext_repr_same base_ok_mono [OF com(4) PExt.prems(3) n(3)] com(2) by blast
      have "commits_to env U S (PExt p t) d' (commit_self env S getCollapsedEn (ExtensionNode (pe_node p enc (pversion t)) (Some child') b) (level + 1) mx d')"
        using commit_self_repr [OF r' PExt.prems(2) _ _ PExt.prems(3)] col st PExt.prems(4) n(1) by (simp add: kids_stored_def getHash_def)
      then show ?thesis using True ne n(1) Some com(1,4) extends_trans
        by (auto simp: en_commitDirty_def Let_def commits_to_def simp del: isEmptyOrNil.simps repr.simps)
    qed
  qed
next
  case (PBranch f)
  obtain bn cs b where n: "n = BranchNode bn cs b" "children_ok env (st_Get S d) f bn cs"
    "base_ok env (st_Get S d) (PBranch f) (bn = branch_node env f \<and> list_all hashed cs) b" "bn = branch_node env f" "list_all hashed cs"
    using PBranch.prems(1,4) by (auto simp: base_ok_def getHash_def)
  have ne: "isEmptyOrNil n = None" using repr_not_empty PBranch.prems by blast
  have len: "length cs = nrOfChildren" using children_ok_lengths(1) n(2) by blast
  show ?case
  proof (cases "isDirty n")
    case False
    then show ?thesis using commit_clean(1) [OF PBranch.prems(1)] ne n
      by (simp add: bn_commitDirty_def Let_def del: isEmptyOrNil.simps repr_PBranch)
  next
    case True
    let ?us = "map f [0..<nrOfChildren]"
    have "child_commits env U S d (cs ! i) (f i)" if "i < nrOfChildren" for i
      using child_in_memory [OF n(2) that] n(5) PBranch.prems(2,3) that len
      by (fastforce simp: child_commits_def list_all_length hashed_def split: option.splits)
    then have "list_all2 (child_commits env U S d) cs ?us" by (simp add: list_all2_conv_all_nth len)
    moreover have "commits_to env U S t d (commitDirty env S n level mx d)"
      if us: "Some t \<in> set ?us" and rep: "repr env (st_Get S d) t n" "canonical t" "tracked env U t" "getHash n \<noteq> None" for t n level d
    proof -
      obtain i where "f i = Some t" using us by auto
      then show ?thesis using PBranch.IH [OF rangeI, of t i] rep by simp
    qed
    ultimately obtain cs' d' where loop: "commit_loop (level + 1) mx (zip cs (map (map_option (commitDirty env S)) cs)) d = (None, cs', d')"
      "length cs' = length cs" "extends env U (st_Get S d) (st_Get S d')" "\<forall>i < length cs. child_committed env S d' (cs ! i) (cs' ! i) (?us ! i)"
      using commit_loop_repr [of d cs ?us mx "level + 1"] by blast
    have comm: "(cs ! i = None \<and> cs' ! i = None) \<or> (\<exists>t m. f i = Some t \<and> cs' ! i = Some m \<and> repr env (st_Get S d') t m \<and> \<not> isDirty m)"
      if "i < nrOfChildren" for i
      using loop(4) that len by (auto simp: child_committed_def split: option.splits)
    have st: "stored env (st_Get S d') u" if "f i = Some u" for i u
    proof -
      have i: "i < nrOfChildren" using PBranch.prems(2) that by auto
      then have "child_ok env (st_Get S d) (repr env (st_Get S d) u) u (cs ! i) (EncodedChildren bn ! i)"
        using n(2) that by (auto simp: children_ok_def)
      then show ?thesis using comm [OF i] commit_clean(2) loop(3) that PBranch.prems(3) by (auto simp: child_ok_def extends_def)
    qed
    have c': "children_ok env (st_Get S d') f bn cs'" unfolding children_ok_def
    proof (intro conjI allI impI)
      show "wf_bn bn cs'" using n(2) loop(2) by (auto simp: children_ok_def wf_bn_def)
      show "ChildrenVersion bn = pversions (\<lambda>i. map_option pversion (f i))" using n(2) by (simp add: children_ok_def)
      fix i assume i: "i < nrOfChildren"
      have "case f i of None \<Rightarrow> cs ! i = None \<and> EncodedChildren bn ! i = []
          | Some t \<Rightarrow> child_ok env (st_Get S d) (repr env (st_Get S d) t) t (cs ! i) (EncodedChildren bn ! i)"
        using n(2) i unfolding children_ok_def by blast
      then show "case f i of None \<Rightarrow> cs' ! i = None \<and> EncodedChildren bn ! i = []
          | Some t \<Rightarrow> child_ok env (st_Get S d') (repr env (st_Get S d') t) t (cs' ! i) (EncodedChildren bn ! i)"
        using comm [OF i] st by (cases "f i") (auto simp: child_ok_def)
    qed
    have "getHash m \<noteq> None" if "repr env (st_Get S d') t m" "\<not> isDirty m" for t m
      using that by (cases t) (auto simp: base_ok_def getHash_def isDirty_def)
    then have "list_all hashed cs'" using comm loop(2) len by (fastforce simp: list_all_length hashed_def split: option.splits)
    then have r': "repr env (st_Get S d') (PBranch f) (BranchNode bn cs' b)"
      using branch_repr_same [OF base_ok_mono [OF loop(3) PBranch.prems(3) n(3)] c'] by blast
    have "commits_to env U S (PBranch f) d' (commit_self env S getCollapsedBn (BranchNode bn cs' b) (level + 1) mx d')"
      using commit_self_repr [OF r' PBranch.prems(2) _ _ PBranch.prems(3)] st PBranch.prems(4) n(1)
      by (simp add: kids_stored_def getHash_def getCollapsed_def setDirty_def)
    then show ?thesis using True ne n(1) loop(1,3) extends_trans
      by (auto simp: bn_commitDirty_def Let_def commits_to_def simp del: isEmptyOrNil.simps repr_PBranch)
  qed
qed

end

end
