(* ===== verification/Trie_Proof.thy ===== *)
theory Trie_Proof
  imports Trie_Commit
begin

text \<open>
  Merkle proofs. The proof that \<open>GetProof\<close> gives is the list of encoded nodes on the path of the key; the
  verifier accepts it, and accepts for a root hash only keys that the tree with this hash holds.
\<close>

section \<open>Paths\<close>

primrec ppath :: "trie_env \<Rightarrow> ptree \<Rightarrow> bytes \<Rightarrow> bytes list" where
  "ppath env (PLeaf k v ver) key = [penc env (PLeaf k v ver)]"
| "ppath env (PExt p t) key = penc env (PExt p t) # ppath env t (drop (length p) key)"
| "ppath env (PBranch f) key =
     penc env (PBranch f) #
     (case key of [] \<Rightarrow> [] | x # r \<Rightarrow> (case map_option (ppath env) (f (unat x)) of None \<Rightarrow> [] | Some g \<Rightarrow> g r))"

lemma ppath_PBranch:
  "f (unat x) = Some t \<Longrightarrow> ppath env (PBranch f) (x # r) = penc env (PBranch f) # ppath env t r"
  by simp

lemma ppath_encodings:
  "canonical t \<Longrightarrow> list_all (\<lambda>e. \<exists>u. canonical u \<and> e = penc env u) (ppath env t key)"
proof (induction t arbitrary: key)
  case (PLeaf k v ver)
  then have "\<exists>u. canonical u \<and> penc env (PLeaf k v ver) = penc env u" by blast
  then show ?case by simp
next
  case (PExt p t)
  then have "\<exists>u. canonical u \<and> penc env (PExt p t) = penc env u" by blast
  then show ?case using PExt by simp
next
  case (PBranch f)
  have "list_all (\<lambda>e. \<exists>u. canonical u \<and> e = penc env u)
      (case key of [] \<Rightarrow> [] | x # r \<Rightarrow> (case map_option (ppath env) (f (unat x)) of None \<Rightarrow> [] | Some g \<Rightarrow> g r))"
  proof (cases key)
    case (Cons x r)
    show ?thesis
    proof (cases "f (unat x)")
      case (Some t)
      then show ?thesis using PBranch.IH [OF rangeI, of t "unat x" r] PBranch.prems Cons by simp
    qed (simp add: Cons)
  qed simp
  then show ?case using PBranch.prems unfolding ppath.simps list.pred_inject by blast
qed

section \<open>Verification\<close>

context node_codec
begin

text \<open>The next hash and key a decoded node gives.\<close>

lemma next_pnode:
  "getNextHashAndKey (pnode env (PLeaf k v ver) b) key = Inr (key = k, [], [])"
  "getNextHashAndKey (pnode env (PExt p t) b) key =
     (if key \<noteq> [] \<and> take (length p) key = p then Inr (False, phash env t, drop (length p) key) else Inr (False, [], []))"
  "getNextHashAndKey (pnode env (PBranch f) b) (x # r) =
     (if unat x < nrOfChildren then Inr (False, case f (unat x) of None \<Rightarrow> [] | Some t \<Rightarrow> phash env t, r)
      else Inl PanicIndexOutOfRange)"
  "getNextHashAndKey (pnode env (PBranch f) b) [] = Inr (False, [], [])"
proof -
  show "getNextHashAndKey (pnode env (PLeaf k v ver) b) key = Inr (key = k, [], [])"
    by (simp add: pnode_def getNextHashAndKey_def leaf_getNextHashAndKey_def pl_node_def)
  have "length p \<le> length key" if "take (length p) key = p" using that by (metis length_take min.cobounded2 nat_le_linear take_all)
  then show "getNextHashAndKey (pnode env (PExt p t) b) key =
     (if key \<noteq> [] \<and> take (length p) key = p then Inr (False, phash env t, drop (length p) key) else Inr (False, [], []))"
    by (auto simp: pnode_def getNextHashAndKey_def en_getNextHashAndKey_def pe_node_def)
qed (simp_all add: pnode_def getNextHashAndKey_def bn_getNextHashAndKey_def)

text \<open>No encoded node hashes to nothing, so a missing child ends the verification.\<close>

lemma verify_loop_nil: "verify_loop env [] key nodes = Inr False"
proof (cases nodes)
  case (Cons e es)
  then show ?thesis using hash_nonempty by (cases e) (auto simp: eq_commute [of "[]"])
qed simp

lemma verify_ppath:
  "canonical t \<Longrightarrow> pmap t key \<noteq> None \<Longrightarrow> \<forall>x \<in> set key. unat x < nrOfChildren \<Longrightarrow>
   verify_loop env (phash env t) key (map Some (ppath env t key)) = Inr True"
proof (induction t arbitrary: key)
  case (PLeaf k v ver)
  then show ?case using decode_pnode [OF PLeaf.prems(1)] next_pnode(1)
    by (simp add: phash_def split: if_splits)
next
  case (PExt p t)
  have key: "take (length p) key = p" "pmap t (drop (length p) key) \<noteq> None" "key \<noteq> []"
    using PExt.prems by (auto split: if_splits)
  have "\<forall>x \<in> set (drop (length p) key). unat x < nrOfChildren" using PExt.prems(3) by (meson in_set_dropD)
  then show ?case using PExt.IH [of "drop (length p) key"] PExt.prems(1) key decode_pnode [OF PExt.prems(1)] next_pnode(2)
    by (simp add: phash_def [of env "PExt p t"])
next
  case (PBranch f)
  then obtain x r t where key: "key = x # r" "f (unat x) = Some t" "pmap t r \<noteq> None"
    by (cases key) (auto split: option.splits)
  then show ?case
    using PBranch.IH [OF rangeI, of t "unat x" r] PBranch.prems decode_pnode [OF PBranch.prems(1)] next_pnode(3) [of f clean_base x r]
    by (simp add: ppath_PBranch phash_def [of env "PBranch f"])
qed

lemma verify_no_error:
  "list_all (\<lambda>e. \<exists>u. canonical u \<and> e = penc env u) es \<Longrightarrow> \<forall>x \<in> set key. unat x < nrOfChildren \<Longrightarrow>
   \<exists>ok. verify_loop env w key (map Some es) = Inr ok"
proof (induction es arbitrary: w key)
  case (Cons e es)
  then obtain u where u: "canonical u" "e = penc env u" by auto
  have d: "decodeNode env e = Inr (pnode env u clean_base)" using decode_pnode u by simp
  have IH: "\<exists>ok. verify_loop env w' key' (map Some es) = Inr ok" if "set key' \<subseteq> set key" for w' key'
    using Cons.IH Cons.prems that by (auto simp: subset_eq)
  have "\<exists>b w' key'. getNextHashAndKey (pnode env u clean_base) key = Inr (b, w', key') \<and> set key' \<subseteq> set key"
  proof (cases u)
    case (PExt p t)
    then show ?thesis using next_pnode(2) [of p t clean_base key] by (auto dest: in_set_dropD)
  next
    case (PBranch f)
    then show ?thesis using next_pnode(3,4) [of f clean_base] Cons.prems(2) by (cases key) auto
  next
    case (PLeaf k v ver)
    then show ?thesis using next_pnode(1) [of k v ver clean_base key] by (intro exI [of _ "key = k"] exI [of _ "[]"]) simp
  qed
  then obtain b w' key' where "getNextHashAndKey (pnode env u clean_base) key = Inr (b, w', key')" "set key' \<subseteq> set key" by blast
  then show ?case using d IH by auto
qed auto

end

section \<open>Producing a proof\<close>

context node_codec
begin

lemma encode_hashed_node:
  assumes "repr env db t n" "canonical t" "getHash n \<noteq> None"
  shows "proof_loop (Suc fuel) env db n key acc =
    (case getNext env db n key of
       (Inl e, n) \<Rightarrow> Some (Inl e, n)
     | (Inr (None, _), n') \<Rightarrow> Some (Inr (acc @ [penc env t], getValue n), n')
     | (Inr (Some child, key'), n') \<Rightarrow>
         (case proof_loop fuel env db child key' (acc @ [penc env t]) of
            None \<Rightarrow> None
          | Some (r, child) \<Rightarrow> Some (r, set_child n' (next_pos n' key) (Some child))))"
  using encode_hashed [OF assms] by (simp add: Let_def)

lemma proof_loop_repr:
  "repr env db t n \<Longrightarrow> canonical t \<Longrightarrow> getHash n \<noteq> None \<Longrightarrow> \<forall>x \<in> set key. unat x < nrOfChildren \<Longrightarrow> length key < fuel \<Longrightarrow>
   \<exists>n' e. proof_loop fuel env db n key acc =
       Some (case pmap t key of None \<Rightarrow> Inl e | Some (v, ver) \<Rightarrow> Inr (acc @ ppath env t key, Some v), n') \<and>
     repr env db t n' \<and> base_of n' = base_of n"
proof (induction t arbitrary: n key fuel acc)
  case (PLeaf k v ver)
  then obtain fuel' where fuel: "fuel = Suc fuel'" by (cases fuel) auto
  have ne: "isEmptyOrNil n = None" using repr_not_empty PLeaf.prems by blast
  obtain b where n: "n = LeafNode (pl_node k v ver) b" using PLeaf.prems(1) by auto
  show ?case unfolding fuel encode_hashed_node [OF PLeaf.prems(1-3)]
    using ne PLeaf.prems(1) by (auto simp: n getNext_def leaf_getNext_def pl_node_def)
next
  case (PExt p t)
  then obtain fuel' where fuel: "fuel = Suc fuel'" by (cases fuel) auto
  obtain enc c b where n: "n = ExtensionNode (pe_node p enc (pversion t)) c b"
    and c: "child_ok env db (repr env db t) t c enc" and b: "base_ok env db (PExt p t) (enc = phash env t \<and> hashed c) b" "hashed c"
    using PExt.prems(1,3) by (auto simp: base_ok_def getHash_def)
  have can: "canonical t" "p \<noteq> []" using PExt.prems(2) by auto
  have ne: "isEmptyOrNil n = None" using repr_not_empty PExt.prems by blast
  show ?case
  proof (cases "take (length p) key = p")
    case False
    then have "length key < length p \<or> p \<noteq> take (length p) key" by auto
    then have "getNext env db n key = (Inl ErrNodeNotFound, n)"
      using ne by (auto simp: n getNext_def en_getNext_def pe_node_def simp del: isEmptyOrNil.simps)
    then show ?thesis unfolding fuel encode_hashed_node [OF PExt.prems(1-3)] using False PExt.prems(1) by (auto simp del: repr.simps)
  next
    case True
    obtain child where res: "resolveIfCollapsed env db n 0 = (None, ExtensionNode (pe_node p enc (pversion t)) (Some child) b)"
      and child: "repr env db t child" "getHash child \<noteq> None" using resolve_ext [OF can(1) c] n b(2) by blast
    have len: "length key \<ge> length p" using True by (metis length_take min.absorb_iff2 nat_le_linear take_all)
    have "length (drop (length p) key) < fuel'" using PExt.prems(5) fuel can(2) len by (cases p) auto
    moreover have "\<forall>x \<in> set (drop (length p) key). unat x < nrOfChildren" using PExt.prems(4) by (meson in_set_dropD)
    ultimately obtain child' e where loop: "proof_loop fuel' env db child (drop (length p) key) (acc @ [penc env (PExt p t)]) =
        Some (case pmap t (drop (length p) key) of None \<Rightarrow> Inl e
              | Some (v, ver) \<Rightarrow> Inr ((acc @ [penc env (PExt p t)]) @ ppath env t (drop (length p) key), Some v), child')"
      "repr env db t child'" "base_of child' = base_of child" using PExt.IH [OF child(1) can(1) child(2)] by blast
    have "repr env db (PExt p t) (ExtensionNode (pe_node p enc (pversion t)) (Some child') b)"
      using ext_repr_same [OF b(1) loop(2)] child(2) getHash_repr(1) [OF loop(3)] by simp
    moreover have "getNext env db n key = (Inr (Some child, drop (length p) key), ExtensionNode (pe_node p enc (pversion t)) (Some child) b)"
      using ne len True res by (simp add: n getNext_def en_getNext_def pe_node_def del: isEmptyOrNil.simps)
    ultimately show ?thesis unfolding fuel encode_hashed_node [OF PExt.prems(1-3)]
      using loop(1) True by (auto simp: n simp del: repr.simps split: option.splits)
  qed
next
  case (PBranch f)
  then obtain fuel' where fuel: "fuel = Suc fuel'" by (cases fuel) auto
  obtain bn cs b where n: "n = BranchNode bn cs b" and c: "children_ok env db f bn cs"
    and b: "base_ok env db (PBranch f) (bn = branch_node env f \<and> list_all hashed cs) b" "list_all hashed cs"
    using PBranch.prems(1,3) by (auto simp: base_ok_def getHash_def)
  have ne: "isEmptyOrNil n = None" using repr_not_empty PBranch.prems by blast
  obtain j where j: "f j \<noteq> None" "j < nrOfChildren" using PBranch.prems(2) by auto
  have can: "\<forall>i t. f i = Some t \<longrightarrow> canonical t" using PBranch.prems(2) by simp
  show ?case
  proof (cases key)
    case Nil
    then have "getNext env db n key = (Inl ErrValueTooShort, n)" using ne by (simp add: n getNext_def bn_getNext_def del: isEmptyOrNil.simps)
    then show ?thesis unfolding fuel encode_hashed_node [OF PBranch.prems(1-3)] using Nil PBranch.prems(1) by auto
  next
    case (Cons x r)
    have x: "unat x < nrOfChildren" using PBranch.prems(4) Cons by simp
    obtain cs' where res: "resolveIfCollapsed env db n x = (None, BranchNode bn cs' b)" and c': "children_ok env db f bn cs'" "list_all hashed cs'"
      and ch: "case f (unat x) of None \<Rightarrow> cs' ! unat x = None | Some t \<Rightarrow> \<exists>child. cs' ! unat x = Some child \<and> repr env db t child"
      using resolve_branch [OF c can j x] n b(2) by blast
    have n': "repr env db (PBranch f) (BranchNode bn cs' b)" using branch_repr_same [OF b(1) c'(1)] c'(2) by blast
    show ?thesis
    proof (cases "f (unat x)")
      case None
      then have "getNext env db n key = (Inl ErrNodeNotFound, BranchNode bn cs' b)"
        using ne x res ch Cons by (simp add: n getNext_def bn_getNext_def childPosOutOfRange_def del: isEmptyOrNil.simps)
      then show ?thesis unfolding fuel encode_hashed_node [OF PBranch.prems(1-3)] using None Cons n' n by auto
    next
      case (Some t)
      with ch obtain child where child: "cs' ! unat x = Some child" "repr env db t child" by auto
      have len: "unat x < length cs'" using children_ok_lengths(1) [OF c'(1)] x by simp
      have hc: "getHash child \<noteq> None" using c'(2) child(1) len by (auto simp: list_all_length hashed_def split: option.splits)
      have "length r < fuel'" "\<forall>x \<in> set r. unat x < nrOfChildren" "canonical t" "t \<in> set_option (f (unat x))"
        using PBranch.prems(4,5) Cons fuel can Some by simp_all
      from PBranch.IH [OF rangeI this(4) child(2) this(3) hc this(2,1)] obtain child' e where
        loop: "proof_loop fuel' env db child r (acc @ [penc env (PBranch f)]) =
          Some (case pmap t r of None \<Rightarrow> Inl e | Some (v, ver) \<Rightarrow> Inr ((acc @ [penc env (PBranch f)]) @ ppath env t r, Some v), child')"
        "repr env db t child'" "base_of child' = base_of child" by blast
      have "repr env db (PBranch f) (BranchNode bn (cs'[unat x := Some child']) b)"
        using branch_repr_same [OF b(1) children_ok_same [OF c'(1) x Some loop(2)]] c'(2)
          hashed_update [OF _ child(1) getHash_repr(1) [OF loop(3)]] by blast
      moreover have "getNext env db n key = (Inr (Some child, r), BranchNode bn cs' b)"
        using ne x res child(1) Cons by (simp add: n getNext_def bn_getNext_def childPosOutOfRange_def del: isEmptyOrNil.simps)
      ultimately show ?thesis unfolding fuel encode_hashed_node [OF PBranch.prems(1-3)]
        using loop(1) Cons Some by (auto simp: n next_pos_def simp del: repr_PBranch split: option.splits)
    qed
  qed
qed

end

section \<open>Soundness\<close>

context node_hashing
begin

text \<open>A verified key is in the tree with the root hash.\<close>

lemma verify_sound:
  "canonical t \<Longrightarrow> tracked env U t \<Longrightarrow> \<forall>e. Some e \<in> set nodes \<longrightarrow> e \<in> U \<Longrightarrow> verify_loop env (phash env t) key nodes = Inr True \<Longrightarrow> pmap t key \<noteq> None"
proof (induction t arbitrary: key nodes)
  case (PLeaf k v ver)
  then obtain e es where nodes: "nodes = Some e # es" "Compute env e = phash env (PLeaf k v ver)"
    by (cases nodes; cases "hd nodes") (auto split: if_splits)
  then have "e = penc env (PLeaf k v ver)" using collision_free [of e "penc env (PLeaf k v ver)"] PLeaf.prems(2,3) by (auto simp: phash_def simp del: penc.simps)
  then show ?case using PLeaf.prems nodes decode_pnode [OF PLeaf.prems(1)] next_pnode(1) verify_loop_nil
    by (auto split: if_splits)
next
  case (PExt p t)
  then obtain e es where nodes: "nodes = Some e # es" "Compute env e = phash env (PExt p t)"
    by (cases nodes; cases "hd nodes") (auto split: if_splits)
  then have "e = penc env (PExt p t)" using collision_free [of e "penc env (PExt p t)"] PExt.prems(2,3) by (auto simp: phash_def)
  then have "take (length p) key = p" "verify_loop env (phash env t) (drop (length p) key) es = Inr True"
    using PExt.prems nodes decode_pnode [OF PExt.prems(1)] next_pnode(2) [of p t clean_base key] verify_loop_nil
    by (auto split: if_splits)
  then show ?case using PExt.IH [of es "drop (length p) key"] PExt.prems(1-3) nodes by simp
next
  case (PBranch f)
  then obtain e es where nodes: "nodes = Some e # es" "Compute env e = phash env (PBranch f)"
    by (cases nodes; cases "hd nodes") (auto split: if_splits)
  then have e: "e = penc env (PBranch f)" using collision_free [of e "penc env (PBranch f)"] PBranch.prems(2,3) by (auto simp: phash_def)
  then obtain x r where key: "key = x # r"
    using PBranch.prems(4) nodes decode_pnode [OF PBranch.prems(1)] next_pnode(4) [of f clean_base] verify_loop_nil
    by (cases key) (auto split: if_splits)
  then obtain t where "f (unat x) = Some t" "verify_loop env (phash env t) r es = Inr True"
    using PBranch.prems(4) nodes e decode_pnode [OF PBranch.prems(1)] next_pnode(3) [of f clean_base x r] verify_loop_nil
    by (auto split: if_splits option.splits)
  then show ?case using PBranch.IH [OF rangeI, of t "unat x" es r] PBranch.prems(1-3) nodes key by simp
qed

end

end
