(* ===== verification/Trie_Proto.thy ===== *)
theory Trie_Proto
  imports Trie_Spec
begin

unbundle bit_operations_syntax

text \<open>
  The wire format of the nodes: \<open>Size\<close>, \<open>MarshalToSizedBuffer\<close>, \<open>Marshal\<close> and \<open>Unmarshal\<close> of \<open>trie/node.pb.go\<close> for the
  three messages, with \<open>encodeVarintNode\<close>, \<open>sovNode\<close> and \<open>skipNode\<close>. The buffer is filled from its end: \<open>buffer\<close>
  holds the number of bytes still free and what is written behind them. Lengths and indexes are 64-bit
  signed integers, so the overflow checks of the decoder are kept. The lemmas show that \<open>Size\<close> is the
  number of bytes written and that a node is read back as it was, for lengths the format can carry.
\<close>

section \<open>Variable length integers\<close>

datatype pb_error =
    ErrIntOverflowNode | ErrUnexpectedEOF | ErrInvalidLengthNode | ErrUnexpectedEndOfGroupNode
  | ErrEndGroupForNonGroup | ErrIllegalTag | ErrWrongWireType | ErrIllegalWireType | ErrNotReturned

fun bits_len :: "nat \<Rightarrow> nat" where
  "bits_len n = (if n = 0 then 0 else Suc (bits_len (n div 2)))"

declare bits_len.simps [simp del]

definition sovNode :: "u64 \<Rightarrow> nat" where
  "sovNode x = (bits_len (unat (x OR 1)) + 6) div 7"

text \<open>The bytes that the loop of \<open>encodeVarintNode\<close> writes from its offset on.\<close>

function varint :: "u64 \<Rightarrow> bytes" where
  "varint v = (if v \<ge> 128 then (ucast (v AND 127) OR 128) # varint (drop_bit 7 v) else [ucast v])"
  by auto
termination
proof (relation "measure unat")
  fix v :: u64 assume "128 \<le> v"
  then have "128 \<le> unat v" by (simp add: word_le_nat_alt)
  then show "(drop_bit 7 v, v) \<in> measure unat" by (simp add: drop_bit_eq_div unat_div_distrib)
qed simp

declare varint.simps [simp del]

section \<open>Marshalling\<close>

record buffer =
  free :: nat
  written :: bytes

definition put_bytes :: "bytes \<Rightarrow> buffer \<Rightarrow> buffer tresult" where
  "put_bytes x buf =
     (if length x \<le> free buf then Inr \<lparr>free = free buf - length x, written = x @ written buf\<rparr> else Inl PanicIndexOutOfRange)"

text \<open>The offset goes back by \<open>sovNode v\<close>; the bytes written from there on must end at the old offset.\<close>

definition encodeVarintNode :: "u64 \<Rightarrow> buffer \<Rightarrow> buffer tresult" where
  "encodeVarintNode v buf =
     (if sovNode v = length (varint v) then put_bytes (varint v) buf else Inl PanicIndexOutOfRange)"

definition andThen :: "'a tresult \<Rightarrow> ('a \<Rightarrow> 'b tresult) \<Rightarrow> 'b tresult" where
  "andThen r f = (case r of Inl e \<Rightarrow> Inl e | Inr x \<Rightarrow> f x)"

definition put_field :: "u8 \<Rightarrow> bytes \<Rightarrow> buffer \<Rightarrow> buffer tresult" where
  "put_field tag x buf = andThen (put_bytes x buf) (\<lambda>buf. andThen (encodeVarintNode (of_nat (length x)) buf) (put_bytes [tag]))"

definition put_number :: "u8 \<Rightarrow> u32 \<Rightarrow> buffer \<Rightarrow> buffer tresult" where
  "put_number tag v buf = andThen (encodeVarintNode (ucast v) buf) (put_bytes [tag])"

definition put_if :: "bool \<Rightarrow> (buffer \<Rightarrow> buffer tresult) \<Rightarrow> buffer \<Rightarrow> buffer tresult" where
  "put_if c f buf = (if c then f buf else Inr buf)"

fun put_children :: "bytes list \<Rightarrow> buffer \<Rightarrow> buffer tresult" where
  "put_children [] buf = Inr buf"
| "put_children (x # xs) buf = andThen (put_children xs buf) (put_field 0x0a x)"

definition field_size :: "nat \<Rightarrow> nat" where
  "field_size l = 1 + l + sovNode (of_nat l)"

definition bn_Size :: "CollapsedBn \<Rightarrow> nat" where
  "bn_Size m =
     sum_list (map (\<lambda>b. field_size (length b)) (EncodedChildren m)) +
     (let l = length (ChildrenVersion m) in if l > 0 then field_size l else 0)"

definition en_Size :: "CollapsedEn \<Rightarrow> nat" where
  "en_Size m =
     (let l = length (en_Key m) in if l > 0 then field_size l else 0) +
     (let l = length (EncodedChild m) in if l > 0 then field_size l else 0) +
     (if ChildVersion m \<noteq> 0 then 1 + sovNode (ucast (ChildVersion m)) else 0)"

definition ln_Size :: "CollapsedLn \<Rightarrow> nat" where
  "ln_Size m =
     (let l = length (ln_Key m) in if l > 0 then field_size l else 0) +
     (let l = length (slice_str (ln_Value m)) in if l > 0 then field_size l else 0) +
     (if ln_Version m \<noteq> 0 then 1 + sovNode (ucast (ln_Version m)) else 0)"

definition bn_MarshalToSizedBuffer :: "CollapsedBn \<Rightarrow> buffer \<Rightarrow> buffer tresult" where
  "bn_MarshalToSizedBuffer m buf =
     andThen (put_if (length (ChildrenVersion m) > 0) (put_field 0x12 (ChildrenVersion m)) buf)
       (put_if (length (EncodedChildren m) > 0) (put_children (EncodedChildren m)))"

definition en_MarshalToSizedBuffer :: "CollapsedEn \<Rightarrow> buffer \<Rightarrow> buffer tresult" where
  "en_MarshalToSizedBuffer m buf =
     andThen (put_if (ChildVersion m \<noteq> 0) (put_number 0x18 (ChildVersion m)) buf) (\<lambda>buf.
     andThen (put_if (length (EncodedChild m) > 0) (put_field 0x12 (EncodedChild m)) buf)
       (put_if (length (en_Key m) > 0) (put_field 0x0a (en_Key m))))"

definition ln_MarshalToSizedBuffer :: "CollapsedLn \<Rightarrow> buffer \<Rightarrow> buffer tresult" where
  "ln_MarshalToSizedBuffer m buf =
     andThen (put_if (ln_Version m \<noteq> 0) (put_number 0x18 (ln_Version m)) buf) (\<lambda>buf.
     andThen (put_if (length (slice_str (ln_Value m)) > 0) (put_field 0x12 (slice_str (ln_Value m))) buf)
       (put_if (length (ln_Key m) > 0) (put_field 0x0a (ln_Key m))))"

text \<open>\<open>Marshal\<close> returns as many bytes of the buffer as were written.\<close>

definition marshal_with :: "nat \<Rightarrow> (buffer \<Rightarrow> buffer tresult) \<Rightarrow> bytes tresult" where
  "marshal_with sz f =
     andThen (f \<lparr>free = sz, written = []\<rparr>)
       (\<lambda>buf. Inr (take (sz - free buf) (replicate (free buf) 0 @ written buf)))"

definition bn_Marshal :: "CollapsedBn \<Rightarrow> bytes tresult" where
  "bn_Marshal m = marshal_with (bn_Size m) (bn_MarshalToSizedBuffer m)"

definition en_Marshal :: "CollapsedEn \<Rightarrow> bytes tresult" where
  "en_Marshal m = marshal_with (en_Size m) (en_MarshalToSizedBuffer m)"

definition ln_Marshal :: "CollapsedLn \<Rightarrow> bytes tresult" where
  "ln_Marshal m = marshal_with (ln_Size m) (ln_MarshalToSizedBuffer m)"

section \<open>Unmarshalling\<close>

function read_varint :: "bytes \<Rightarrow> nat \<Rightarrow> nat \<Rightarrow> 'a::len word \<Rightarrow> pb_error + ('a word \<times> nat)" where
  "read_varint dAtA iNdEx shift v =
     (if shift \<ge> 64 then Inl ErrIntOverflowNode
      else if iNdEx \<ge> length dAtA then Inl ErrUnexpectedEOF
      else let b = dAtA ! iNdEx; v = v OR push_bit shift (ucast (b AND 0x7f))
           in if b < 0x80 then Inr (v, iNdEx + 1) else read_varint dAtA (iNdEx + 1) (shift + 7) v)"
  by auto
termination by (relation "measure (\<lambda>(d, i, shift, v). 64 - shift)") auto

declare read_varint.simps [simp del]

text \<open>The end of a field of \<open>byteLen\<close> bytes; both numbers are signed.\<close>

definition post_index :: "bytes \<Rightarrow> nat \<Rightarrow> u64 \<Rightarrow> pb_error + nat" where
  "post_index dAtA iNdEx byteLen =
     (if sint byteLen < 0 then Inl ErrInvalidLengthNode
      else let postIndex = of_nat iNdEx + byteLen
           in if sint postIndex < 0 then Inl ErrInvalidLengthNode
              else if sint postIndex > int (length dAtA) then Inl ErrUnexpectedEOF
              else Inr (nat (sint postIndex)))"

definition read_bytes :: "bytes \<Rightarrow> nat \<Rightarrow> pb_error + (bytes \<times> nat)" where
  "read_bytes dAtA iNdEx =
     (case read_varint dAtA iNdEx 0 (0 :: u64) of
        Inl e \<Rightarrow> Inl e
      | Inr (byteLen, iNdEx) \<Rightarrow>
          (case post_index dAtA iNdEx byteLen of
             Inl e \<Rightarrow> Inl e
           | Inr postIndex \<Rightarrow> Inr (take (postIndex - iNdEx) (drop iNdEx dAtA), postIndex)))"

text \<open>One iteration of the loop of \<open>skipNode\<close>: the new index and depth. The index is signed.\<close>

definition skip_field :: "bytes \<Rightarrow> nat \<Rightarrow> nat \<Rightarrow> pb_error + (u64 \<times> nat)" where
  "skip_field dAtA iNdEx depth =
     (case read_varint dAtA iNdEx 0 (0 :: u64) of
        Inl e \<Rightarrow> Inl e
      | Inr (wire, iNdEx) \<Rightarrow>
          let wireType = unat (wire AND 7)
          in if wireType = 0 then
               (case read_varint dAtA iNdEx 0 (0 :: u64) of Inl e \<Rightarrow> Inl e | Inr (_, iNdEx) \<Rightarrow> Inr (of_nat iNdEx, depth))
             else if wireType = 1 then Inr (of_nat iNdEx + 8, depth)
             else if wireType = 2 then
               (case read_varint dAtA iNdEx 0 (0 :: u64) of
                  Inl e \<Rightarrow> Inl e
                | Inr (len, iNdEx) \<Rightarrow> if sint len < 0 then Inl ErrInvalidLengthNode else Inr (of_nat iNdEx + len, depth))
             else if wireType = 3 then Inr (of_nat iNdEx, depth + 1)
             else if wireType = 4 then
               (if depth = 0 then Inl ErrUnexpectedEndOfGroupNode else Inr (of_nat iNdEx, depth - 1))
             else if wireType = 5 then Inr (of_nat iNdEx + 4, depth)
             else Inl ErrIllegalWireType)"

fun skipNode :: "nat \<Rightarrow> bytes \<Rightarrow> nat \<Rightarrow> nat \<Rightarrow> pb_error + u64" where
  "skipNode 0 dAtA iNdEx depth = Inl ErrNotReturned"
| "skipNode (Suc fuel) dAtA iNdEx depth =
     (if iNdEx \<ge> length dAtA then Inl ErrUnexpectedEOF
      else case skip_field dAtA iNdEx depth of
             Inl e \<Rightarrow> Inl e
           | Inr (iNdEx, depth) \<Rightarrow>
               if sint iNdEx < 0 then Inl ErrInvalidLengthNode
               else if depth = 0 then Inr iNdEx
               else skipNode fuel dAtA (unat iNdEx) depth)"

definition skip_unknown :: "bytes \<Rightarrow> nat \<Rightarrow> pb_error + nat" where
  "skip_unknown dAtA preIndex =
     (case skipNode (Suc (length dAtA)) (drop preIndex dAtA) 0 0 of
        Inl e \<Rightarrow> Inl e
      | Inr skippy \<Rightarrow>
          if sint skippy < 0 then Inl ErrInvalidLengthNode
          else if sint (of_nat preIndex + skippy) < 0 then Inl ErrInvalidLengthNode
          else if sint (of_nat preIndex + skippy) > int (length dAtA) then Inl ErrUnexpectedEOF
          else Inr (preIndex + unat skippy))"

text \<open>The tag at the start of an iteration: field number, wire type and the index behind it.\<close>

definition read_tag :: "bytes \<Rightarrow> nat \<Rightarrow> pb_error + (int \<times> nat \<times> nat)" where
  "read_tag dAtA iNdEx =
     (case read_varint dAtA iNdEx 0 (0 :: u64) of
        Inl e \<Rightarrow> Inl e
      | Inr (wire, iNdEx) \<Rightarrow>
          let fieldNum = sint (ucast (drop_bit 3 wire) :: u32); wireType = unat (wire AND 7)
          in if wireType = 4 then Inl ErrEndGroupForNonGroup
             else if fieldNum \<le> 0 then Inl ErrIllegalTag
             else Inr (fieldNum, wireType, iNdEx))"

definition bytes_field :: "nat \<Rightarrow> bytes \<Rightarrow> nat \<Rightarrow> (bytes \<Rightarrow> 'm) \<Rightarrow> pb_error + ('m \<times> nat)" where
  "bytes_field wireType dAtA iNdEx assign =
     (if wireType \<noteq> 2 then Inl ErrWrongWireType
      else case read_bytes dAtA iNdEx of Inl e \<Rightarrow> Inl e | Inr (x, iNdEx) \<Rightarrow> Inr (assign x, iNdEx))"

definition number_field :: "nat \<Rightarrow> bytes \<Rightarrow> nat \<Rightarrow> (u32 \<Rightarrow> 'm) \<Rightarrow> pb_error + ('m \<times> nat)" where
  "number_field wireType dAtA iNdEx assign =
     (if wireType \<noteq> 0 then Inl ErrWrongWireType
      else case read_varint dAtA iNdEx 0 0 of Inl e \<Rightarrow> Inl e | Inr (x, iNdEx) \<Rightarrow> Inr (assign x, iNdEx))"

text \<open>One iteration of the loop of \<open>Unmarshal\<close>, and the loop.\<close>

definition bn_field :: "bytes \<Rightarrow> nat \<Rightarrow> CollapsedBn \<Rightarrow> pb_error + (CollapsedBn \<times> nat)" where
  "bn_field dAtA preIndex m =
     (case read_tag dAtA preIndex of
        Inl e \<Rightarrow> Inl e
      | Inr (fieldNum, wireType, iNdEx) \<Rightarrow>
          if fieldNum = 1 then bytes_field wireType dAtA iNdEx (\<lambda>x. m\<lparr>EncodedChildren := EncodedChildren m @ [x]\<rparr>)
          else if fieldNum = 2 then bytes_field wireType dAtA iNdEx (\<lambda>x. m\<lparr>ChildrenVersion := x\<rparr>)
          else (case skip_unknown dAtA preIndex of Inl e \<Rightarrow> Inl e | Inr iNdEx \<Rightarrow> Inr (m, iNdEx)))"

definition en_field :: "bytes \<Rightarrow> nat \<Rightarrow> CollapsedEn \<Rightarrow> pb_error + (CollapsedEn \<times> nat)" where
  "en_field dAtA preIndex m =
     (case read_tag dAtA preIndex of
        Inl e \<Rightarrow> Inl e
      | Inr (fieldNum, wireType, iNdEx) \<Rightarrow>
          if fieldNum = 1 then bytes_field wireType dAtA iNdEx (\<lambda>x. m\<lparr>en_Key := x\<rparr>)
          else if fieldNum = 2 then bytes_field wireType dAtA iNdEx (\<lambda>x. m\<lparr>EncodedChild := x\<rparr>)
          else if fieldNum = 3 then number_field wireType dAtA iNdEx (\<lambda>x. m\<lparr>ChildVersion := x\<rparr>)
          else (case skip_unknown dAtA preIndex of Inl e \<Rightarrow> Inl e | Inr iNdEx \<Rightarrow> Inr (m, iNdEx)))"

definition ln_field :: "bytes \<Rightarrow> nat \<Rightarrow> CollapsedLn \<Rightarrow> pb_error + (CollapsedLn \<times> nat)" where
  "ln_field dAtA preIndex m =
     (case read_tag dAtA preIndex of
        Inl e \<Rightarrow> Inl e
      | Inr (fieldNum, wireType, iNdEx) \<Rightarrow>
          if fieldNum = 1 then bytes_field wireType dAtA iNdEx (\<lambda>x. m\<lparr>ln_Key := x\<rparr>)
          else if fieldNum = 2 then bytes_field wireType dAtA iNdEx (\<lambda>x. m\<lparr>ln_Value := Some x\<rparr>)
          else if fieldNum = 3 then number_field wireType dAtA iNdEx (\<lambda>x. m\<lparr>ln_Version := x\<rparr>)
          else (case skip_unknown dAtA preIndex of Inl e \<Rightarrow> Inl e | Inr iNdEx \<Rightarrow> Inr (m, iNdEx)))"

fun field_loop :: "nat \<Rightarrow> (bytes \<Rightarrow> nat \<Rightarrow> 'm \<Rightarrow> pb_error + ('m \<times> nat)) \<Rightarrow> bytes \<Rightarrow> nat \<Rightarrow> 'm \<Rightarrow> pb_error + 'm" where
  "field_loop 0 field dAtA iNdEx m = Inl ErrNotReturned"
| "field_loop (Suc fuel) field dAtA iNdEx m =
     (if iNdEx < length dAtA then
        (case field dAtA iNdEx m of Inl e \<Rightarrow> Inl e | Inr (m, iNdEx) \<Rightarrow> field_loop fuel field dAtA iNdEx m)
      else if iNdEx > length dAtA then Inl ErrUnexpectedEOF
      else Inr m)"

definition bn_Unmarshal :: "bytes \<Rightarrow> pb_error + CollapsedBn" where
  "bn_Unmarshal dAtA = field_loop (Suc (length dAtA)) bn_field dAtA 0 \<lparr>EncodedChildren = [], ChildrenVersion = []\<rparr>"

definition en_Unmarshal :: "bytes \<Rightarrow> pb_error + CollapsedEn" where
  "en_Unmarshal dAtA = field_loop (Suc (length dAtA)) en_field dAtA 0 \<lparr>en_Key = [], EncodedChild = [], ChildVersion = 0\<rparr>"

definition ln_Unmarshal :: "bytes \<Rightarrow> pb_error + CollapsedLn" where
  "ln_Unmarshal dAtA = field_loop (Suc (length dAtA)) ln_field dAtA 0 \<lparr>ln_Key = [], ln_Value = None, ln_Version = 0\<rparr>"

text \<open>The marshaller of the trie with these encodings, for a given hasher.\<close>

definition pb_result :: "pb_error + 'a \<Rightarrow> 'a tresult" where
  "pb_result r = (case r of Inl e \<Rightarrow> Inl MarshalErr | Inr x \<Rightarrow> Inr x)"

definition proto_env :: "(bytes \<Rightarrow> bytes) \<Rightarrow> trie_env" where
  "proto_env hash =
     \<lparr>MarshalLn = ln_Marshal, MarshalEn = en_Marshal, MarshalBn = bn_Marshal,
      UnmarshalLn = (\<lambda>b. pb_result (ln_Unmarshal b)), UnmarshalEn = (\<lambda>b. pb_result (en_Unmarshal b)),
      UnmarshalBn = (\<lambda>b. pb_result (bn_Unmarshal b)), Compute = hash, NotSpecified = 0\<rparr>"

section \<open>The size of a variable length integer\<close>

lemma bits_len_small: "n < 2 ^ k \<Longrightarrow> bits_len n \<le> k"
proof (induction k arbitrary: n)
  case (Suc k)
  then have "n div 2 < 2 ^ k" by auto
  then show ?case using Suc.IH by (subst bits_len.simps) simp
qed (simp add: bits_len.simps)

lemma bits_len_step: "64 \<le> n \<Longrightarrow> bits_len n = 7 + bits_len (n div 128)"
proof -
  assume n: "64 \<le> n"
  have "bits_len n = Suc (bits_len (n div 2))" if "0 < n" for n using that by (subst bits_len.simps) simp
  then show ?thesis using n by (simp add: div_mult2_eq [symmetric])
qed

lemma sovNode_alt: "sovNode v = Suc (bits_len (unat v div 2) div 7)"
proof -
  have "unat (v OR 1) div 2 = drop_bit 1 (unat v OR 1)" by (simp add: unsigned_or_eq drop_bit_eq_div)
  also have "\<dots> = unat v div 2" by (simp add: drop_bit_or) (simp add: drop_bit_eq_div)
  finally have half: "unat (v OR 1) div 2 = unat v div 2" .
  have "bit (v OR 1) 0" by (simp add: bit_or_iff)
  then have "v OR 1 \<noteq> 0" by auto
  then have "bits_len (unat (v OR 1)) = Suc (bits_len (unat v div 2))" by (subst bits_len.simps) (simp add: half unsigned_eq_0_iff)
  then show ?thesis by (simp add: sovNode_def)
qed

lemma length_varint: "length (varint v) = sovNode v"
proof (induction v rule: varint.induct)
  case (1 v)
  show ?case
  proof (cases "128 \<le> v")
    case True
    then have v: "128 \<le> unat v" by (simp add: word_le_nat_alt)
    have "unat (drop_bit 7 v) = unat v div 128" by (simp add: drop_bit_eq_div unat_div_distrib)
    then have "sovNode v = Suc (sovNode (drop_bit 7 v))"
      using bits_len_step [of "unat v div 2"] v by (simp add: sovNode_alt div_mult2_eq [symmetric])
    then show ?thesis using 1 True by (subst varint.simps) simp
  next
    case False
    then have "unat v div 2 < 2 ^ 6" by (simp add: word_le_nat_alt)
    then have "bits_len (unat v div 2) \<le> 6" by (rule bits_len_small)
    then show ?thesis using False by (subst varint.simps) (simp add: sovNode_alt)
  qed
qed

section \<open>What is written\<close>

definition enc_field :: "u8 \<Rightarrow> bytes \<Rightarrow> bytes" where
  "enc_field tag x = tag # varint (of_nat (length x)) @ x"

definition enc_number :: "u8 \<Rightarrow> u32 \<Rightarrow> bytes" where
  "enc_number tag v = tag # varint (ucast v)"

lemma length_enc_field: "length (enc_field tag x) = field_size (length x)"
  by (simp add: enc_field_def field_size_def length_varint)

lemma put_field_ok:
  "field_size (length x) \<le> f \<Longrightarrow> put_field tag x \<lparr>free = f, written = w\<rparr> = Inr \<lparr>free = f - field_size (length x), written = enc_field tag x @ w\<rparr>"
  by (auto simp: put_field_def andThen_def put_bytes_def encodeVarintNode_def length_varint enc_field_def field_size_def)

lemma put_number_ok:
  "1 + sovNode (ucast v) \<le> f \<Longrightarrow> put_number tag v \<lparr>free = f, written = w\<rparr> = Inr \<lparr>free = f - (1 + sovNode (ucast v)), written = enc_number tag v @ w\<rparr>"
  by (simp add: put_number_def andThen_def put_bytes_def encodeVarintNode_def length_varint enc_number_def)

lemma put_children_ok:
  "sum_list (map (\<lambda>b. field_size (length b)) xs) \<le> f \<Longrightarrow>
   put_children xs \<lparr>free = f, written = w\<rparr> =
     Inr \<lparr>free = f - sum_list (map (\<lambda>b. field_size (length b)) xs), written = concat (map (enc_field 0x0a) xs) @ w\<rparr>"
  by (induction xs) (simp_all add: andThen_def put_field_ok)

lemma bn_Marshal_conv:
  "bn_Marshal m = Inr (concat (map (enc_field 0x0a) (EncodedChildren m)) @
     (if ChildrenVersion m = [] then [] else enc_field 0x12 (ChildrenVersion m)))"
proof -
  let ?c = "sum_list (map (\<lambda>b. field_size (length b)) (EncodedChildren m))"
  have len: "length (concat (map (enc_field 0x0a) xs)) = sum_list (map (\<lambda>b. field_size (length b)) xs)" for xs
    by (induction xs) (simp_all add: length_enc_field)
  show ?thesis
    by (auto simp: bn_Marshal_def marshal_with_def bn_Size_def bn_MarshalToSizedBuffer_def andThen_def put_if_def put_field_ok
        put_children_ok Let_def len length_enc_field)
qed

definition enc_opt :: "u8 \<Rightarrow> bytes \<Rightarrow> bytes" where
  "enc_opt tag x = (if x = [] then [] else enc_field tag x)"

definition enc_num_opt :: "u8 \<Rightarrow> u32 \<Rightarrow> bytes" where
  "enc_num_opt tag v = (if v = 0 then [] else enc_number tag v)"

lemma en_Marshal_conv:
  "en_Marshal m = Inr (enc_opt 0x0a (en_Key m) @ enc_opt 0x12 (EncodedChild m) @ enc_num_opt 0x18 (ChildVersion m))"
  by (auto simp: en_Marshal_def marshal_with_def en_Size_def en_MarshalToSizedBuffer_def andThen_def put_if_def put_field_ok
      put_number_ok Let_def enc_opt_def enc_num_opt_def length_enc_field enc_number_def length_varint)

lemma ln_Marshal_conv:
  "ln_Marshal m = Inr (enc_opt 0x0a (ln_Key m) @ enc_opt 0x12 (slice_str (ln_Value m)) @ enc_num_opt 0x18 (ln_Version m))"
  by (auto simp: ln_Marshal_def marshal_with_def ln_Size_def ln_MarshalToSizedBuffer_def andThen_def put_if_def put_field_ok
      put_number_ok Let_def enc_opt_def enc_num_opt_def length_enc_field enc_number_def length_varint)

section \<open>Reading back\<close>

lemma low_bits: "v AND 127 = take_bit 7 v" for v :: "'a::len word"
  by (simp add: take_bit_eq_mask mask_eq_exp_minus_1)

lemma chunk_last: "ucast ((ucast v :: u8) AND 127) = (ucast (take_bit 7 v) :: 'a::len word)" for v :: u64
  unfolding low_bits by (rule bit_word_eqI) (auto simp: bit_ucast_iff bit_take_bit_iff)

lemma chunk_more: "ucast ((ucast (take_bit 7 v) OR 128 :: u8) AND 127) = (ucast (take_bit 7 v) :: 'a::len word)" for v :: u64
proof -
  have "(128 :: u8) = 2 ^ 7" by simp
  then show ?thesis unfolding low_bits
    by (intro bit_word_eqI) (auto simp: bit_ucast_iff bit_take_bit_iff bit_or_iff bit_exp_iff simp del: power_numeral)
qed

lemma chunk_high: "\<not> (ucast (take_bit 7 v) OR 128 :: u8) < 128" for v :: u64
proof -
  have eq: "(128 :: u8) = 2 ^ 7" by simp
  have "bit (ucast (take_bit 7 v) OR 128 :: u8) 7" unfolding eq by (simp add: bit_or_iff bit_exp_iff del: power_numeral)
  moreover have "\<not> bit w 7" if "w < 128" for w :: u8
  proof -
    have "unat w < 2 ^ 7" using that by (simp add: word_less_nat_alt)
    then have "take_bit 7 w = w" by (simp add: word_eq_iff_unsigned [where ?'a = nat] unsigned_take_bit_eq take_bit_nat_eq_self)
    then show ?thesis by (metis bit_take_bit_iff less_irrefl)
  qed
  ultimately show ?thesis by blast
qed

lemma join_chunks:
  fixes v :: u64
  shows "push_bit s (ucast (take_bit 7 v)) OR push_bit (s + 7) (ucast (drop_bit 7 v)) = push_bit s (ucast v :: 'a::len word)"
proof (rule bit_word_eqI)
  fix n assume "n < LENGTH('a)"
  then show "bit (push_bit s (ucast (take_bit 7 v)) OR push_bit (s + 7) (ucast (drop_bit 7 v) :: 'a word)) n =
      bit (push_bit s (ucast v :: 'a word)) n"
    by (cases "n < s + 7") (auto simp: bit_or_iff bit_push_bit_iff bit_ucast_iff bit_take_bit_iff bit_drop_bit_eq)
qed

lemma read_varint_varint:
  "s < 64 \<Longrightarrow> unat v < 2 ^ (64 - s) \<Longrightarrow> drop i d = varint v @ rest \<Longrightarrow>
   read_varint d i s (acc :: 'a::len word) = Inr (acc OR push_bit s (ucast v), i + length (varint v))"
proof (induction v arbitrary: i s acc rule: varint.induct)
  case (1 v)
  have "drop i d \<noteq> []" using "1.prems"(3) varint.simps [of v] by (auto split: if_splits)
  then have i: "i < length d" by simp
  have b: "d ! i = hd (varint v @ rest)" using "1.prems"(3) i by (metis hd_drop_conv_nth)
  show ?case
  proof (cases "128 \<le> v")
    case False
    then have v: "varint v = [ucast v]" by (simp add: varint.simps)
    have small: "unat v < 2 ^ 7" using False by (simp add: word_le_nat_alt)
    then have "take_bit 7 v = v" by (simp add: word_eq_iff_unsigned [where ?'a = nat] unsigned_take_bit_eq take_bit_nat_eq_self)
    then have "ucast ((ucast v :: u8) AND 127) = (ucast v :: 'a word)" using chunk_last [of v] by simp
    moreover have "(ucast v :: u8) < 128" using small by (simp add: word_less_nat_alt unsigned_ucast_eq take_bit_nat_eq_self)
    ultimately show ?thesis using i b v "1.prems"(1) by (subst read_varint.simps) simp
  next
    case True
    let ?b = "ucast (take_bit 7 v) OR 128 :: u8"
    have v: "varint v = ?b # varint (drop_bit 7 v)" using True by (subst varint.simps) (simp add: low_bits)
    have big: "2 ^ 7 \<le> unat v" using True by (simp add: word_le_nat_alt)
    then have "(2 :: nat) ^ 7 < 2 ^ (64 - s)" using "1.prems"(2) by linarith
    then have s: "s + 7 < 64" by (metis Suc_lessI add.commute less_diff_conv nat_neq_iff power_strict_increasing_iff rel_simps(49) semiring_norm(76) add_Suc_right)
    have "unat (drop_bit 7 v) < 2 ^ (64 - (s + 7))"
    proof -
      have "64 - s = (64 - (s + 7)) + 7" using s by simp
      then have "(2 :: nat) ^ (64 - s) = 2 ^ (64 - (s + 7)) * 128" by (simp only: power_add) simp
      then show ?thesis using "1.prems"(2) by (simp add: drop_bit_eq_div unat_div_distrib less_mult_imp_div_less)
    qed
    moreover have "drop (Suc i) d = varint (drop_bit 7 v) @ rest"
      using "1.prems"(3) v by (metis append_Cons drop_Suc list.sel(3) tl_drop)
    ultimately have "read_varint d (Suc i) (s + 7) (acc OR push_bit s (ucast (take_bit 7 v))) =
        Inr ((acc OR push_bit s (ucast (take_bit 7 v))) OR push_bit (s + 7) (ucast (drop_bit 7 v)), Suc i + length (varint (drop_bit 7 v)))"
      using "1.IH" [OF True s] by blast
    moreover have "(acc OR push_bit s (ucast (take_bit 7 v))) OR push_bit (s + 7) (ucast (drop_bit 7 v)) = acc OR push_bit s (ucast v)"
      using join_chunks [of s v, where ?'a = 'a] by (simp add: or.assoc)
    ultimately show ?thesis using i b v "1.prems"(1) chunk_high [of v] chunk_more [of v, where ?'a = 'a]
      by (subst read_varint.simps) (simp add: Let_def)
  qed
qed

lemma read_varint_start:
  "drop i d = varint v @ rest \<Longrightarrow> read_varint d i 0 (0 :: 'a::len word) = Inr (ucast v, i + length (varint v))"
proof -
  assume "drop i d = varint v @ rest"
  moreover have "unat v < 2 ^ 64" using unsigned_less [of v, where ?'a = nat] by simp
  ultimately show ?thesis using read_varint_varint [of 0 v i d rest "0 :: 'a word"] by simp
qed

lemma sint_of_nat: "n < 2 ^ 63 \<Longrightarrow> sint (of_nat n :: u64) = int n"
  by (simp add: signed_of_nat signed_take_bit_int_eq_self)

text \<open>A field is read back, whatever follows it.\<close>

lemma read_bytes_ok:
  assumes "length d < 2 ^ 63" "drop i d = varint (of_nat (length x)) @ x @ rest"
  shows "read_bytes d i = Inr (x, i + length (varint (of_nat (length x))) + length x)"
proof -
  let ?v = "varint (of_nat (length x))" and ?j = "i + length (varint (of_nat (length x)))"
  have rv: "read_varint d i 0 (0 :: u64) = Inr (of_nat (length x), ?j)" using read_varint_start [OF assms(2), where ?'a = 64] by simp
  have len: "length d = i + length ?v + length x + length rest"
  proof -
    have "drop i d \<noteq> []" using assms(2) varint.simps [of "of_nat (length x)"] by (auto split: if_splits)
    then have "i \<le> length d" by simp
    moreover have "length d - i = length ?v + length x + length rest" using arg_cong [OF assms(2), of length] by simp
    ultimately show ?thesis by linarith
  qed
  have post: "post_index d ?j (of_nat (length x)) = Inr (?j + length x)"
  proof -
    have "of_nat ?j + (of_nat (length x) :: u64) = of_nat (?j + length x)" by simp
    moreover have "sint (of_nat (?j + length x) :: u64) = int (?j + length x)" "sint (of_nat (length x) :: u64) = int (length x)"
      using assms(1) len by (intro sint_of_nat; linarith)+
    ultimately show ?thesis using len by (simp add: post_index_def Let_def del: of_nat_add)
  qed
  have "drop ?j d = x @ rest" using assms(2) by (metis add.commute append_eq_conv_conj drop_drop)
  then show ?thesis using rv post by (simp add: read_bytes_def)
qed

lemma read_tag_ok:
  assumes "drop i d = tag # rest" "tag \<in> {0x0a, 0x12, 0x18}"
  shows "read_tag d i = Inr (int (unat tag div 8), unat tag mod 8, Suc i)"
proof -
  have i: "i < length d" "d ! i = tag" using assms(1) by (metis drop_eq_Nil list.discI not_le, metis nth_via_drop)
  have "read_varint d i 0 (0 :: u64) = Inr (ucast (tag AND 127), Suc i)" using i assms(2)
    by (subst read_varint.simps) auto
  then show ?thesis using assms(2) by (auto simp: read_tag_def)
qed

text \<open>The loop comes to \<open>r\<close> from index \<open>i\<close> on, with one iteration for every byte that is left.\<close>

definition loops_to :: "(bytes \<Rightarrow> nat \<Rightarrow> 'm \<Rightarrow> pb_error + ('m \<times> nat)) \<Rightarrow> bytes \<Rightarrow> nat \<Rightarrow> 'm \<Rightarrow> 'm \<Rightarrow> bool" where
  "loops_to field d i m r \<longleftrightarrow> (\<forall>fuel > length d - i. field_loop fuel field d i m = Inr r)"

lemma loops_to_end: "i = length d \<Longrightarrow> loops_to field d i m m"
  unfolding loops_to_def
proof (intro allI impI)
  fix fuel assume "i = length d" "length d - i < fuel"
  then show "field_loop fuel field d i m = Inr m" by (cases fuel) auto
qed

lemma loops_to_step:
  assumes "field d i m = Inr (m', i')" "i < i'" "i' \<le> length d" "loops_to field d i' m' r"
  shows "loops_to field d i m r"
  unfolding loops_to_def
proof (intro allI impI)
  fix fuel assume "length d - i < fuel"
  then obtain fuel' where "fuel = Suc fuel'" "length d - i' < fuel'" using assms(2,3) by (cases fuel) auto
  then show "field_loop fuel field d i m = Inr r" using assms by (auto simp: loops_to_def)
qed

lemma drop_length: "drop i d = xs @ rest \<Longrightarrow> i \<le> length d \<Longrightarrow> i + length xs \<le> length d \<and> drop (i + length xs) d = rest"
proof
  assume d: "drop i d = xs @ rest" "i \<le> length d"
  then have "length d - i = length xs + length rest" by (metis length_append length_drop)
  then show "i + length xs \<le> length d" using d(2) by linarith
  show "drop (i + length xs) d = rest" using d(1) by (metis add.commute append_eq_conv_conj drop_drop)
qed

text \<open>A field with tag \<open>0x0a\<close> or \<open>0x12\<close> of a message.\<close>

lemma bytes_field_ok:
  assumes "length d < 2 ^ 63" "drop i d = enc_field tag x @ rest"
  shows "bytes_field 2 d (Suc i) f = Inr (f x, i + length (enc_field tag x))"
proof -
  have "drop (Suc i) d = varint (of_nat (length x)) @ x @ rest"
    using assms(2) by (metis append.assoc append_Cons drop_Suc enc_field_def list.sel(3) tl_drop)
  from read_bytes_ok [OF assms(1) this] show ?thesis by (simp add: bytes_field_def enc_field_def)
qed

lemma number_field_ok:
  assumes "drop i d = enc_number tag v @ rest"
  shows "number_field 0 d (Suc i) f = Inr (f v, i + length (enc_number tag v))"
proof -
  have "drop (Suc i) d = varint (ucast v) @ rest"
    using assms by (metis append_Cons drop_Suc enc_number_def list.sel(3) tl_drop)
  from read_varint_start [OF this, where ?'a = 32] show ?thesis
    by (simp add: number_field_def enc_number_def unsigned_ucast_eq take_bit_word_eq_self)
qed

lemma enc_not_Nil [simp]: "enc_field tag x \<noteq> []" "enc_number tag v \<noteq> []"
  by (simp_all add: enc_field_def enc_number_def)

lemma tag_bytes: "drop i d = enc_field 0x0a x @ rest \<Longrightarrow> read_tag d i = Inr (1, 2, Suc i)"
  "drop i d = enc_field 0x12 x @ rest \<Longrightarrow> read_tag d i = Inr (2, 2, Suc i)"
  by (simp_all add: enc_field_def read_tag_ok)

lemma tag_number: "drop i d = enc_number 0x18 v @ rest \<Longrightarrow> read_tag d i = Inr (3, 0, Suc i)"
  by (simp add: enc_number_def read_tag_ok)

text \<open>A field that is written only when it is not empty.\<close>

lemma loops_opt:
  assumes "drop i d = enc @ rest" "i \<le> length d"
    and "enc \<noteq> [] \<Longrightarrow> field d i m = Inr (m', i + length enc)" "enc = [] \<Longrightarrow> m' = m"
    and "loops_to field d (i + length enc) m' r"
  shows "loops_to field d i m r"
proof (cases "enc = []")
  case False
  then show ?thesis using loops_to_step [OF assms(3) _ _ assms(5)] drop_length [OF assms(1,2)] by simp
qed (use assms in simp)

text \<open>One iteration of each loop, at a field that is written.\<close>

lemma bn_field_ok:
  assumes "length d < 2 ^ 63"
  shows "drop i d = enc_field 0x0a x @ rest \<Longrightarrow>
      bn_field d i m = Inr (m\<lparr>EncodedChildren := EncodedChildren m @ [x]\<rparr>, i + length (enc_field 0x0a x))"
    and "drop i d = enc_field 0x12 x @ rest \<Longrightarrow> bn_field d i m = Inr (m\<lparr>ChildrenVersion := x\<rparr>, i + length (enc_field 0x12 x))"
  by (simp_all add: bn_field_def tag_bytes bytes_field_ok [OF assms])

lemma en_field_ok:
  assumes "length d < 2 ^ 63"
  shows "drop i d = enc_field 0x0a x @ rest \<Longrightarrow> en_field d i m = Inr (m\<lparr>en_Key := x\<rparr>, i + length (enc_field 0x0a x))"
    and "drop i d = enc_field 0x12 x @ rest \<Longrightarrow> en_field d i m = Inr (m\<lparr>EncodedChild := x\<rparr>, i + length (enc_field 0x12 x))"
    and "drop i d = enc_number 0x18 v @ rest \<Longrightarrow> en_field d i m = Inr (m\<lparr>ChildVersion := v\<rparr>, i + length (enc_number 0x18 v))"
  by (simp_all add: en_field_def tag_bytes tag_number bytes_field_ok [OF assms] number_field_ok)

lemma ln_field_ok:
  assumes "length d < 2 ^ 63"
  shows "drop i d = enc_field 0x0a x @ rest \<Longrightarrow> ln_field d i m = Inr (m\<lparr>ln_Key := x\<rparr>, i + length (enc_field 0x0a x))"
    and "drop i d = enc_field 0x12 x @ rest \<Longrightarrow> ln_field d i m = Inr (m\<lparr>ln_Value := Some x\<rparr>, i + length (enc_field 0x12 x))"
    and "drop i d = enc_number 0x18 v @ rest \<Longrightarrow> ln_field d i m = Inr (m\<lparr>ln_Version := v\<rparr>, i + length (enc_number 0x18 v))"
  by (simp_all add: ln_field_def tag_bytes tag_number bytes_field_ok [OF assms] number_field_ok)

text \<open>Three optional fields, the way extensions and leaves are written.\<close>

lemma loops_three:
  assumes d: "d = enc_opt 0x0a x @ enc_opt 0x12 y @ enc_num_opt 0x18 v"
    and f1: "\<And>rest. x \<noteq> [] \<Longrightarrow> drop 0 d = enc_field 0x0a x @ rest \<Longrightarrow> field d 0 m0 = Inr (m1, 0 + length (enc_field 0x0a x))"
    and n1: "x = [] \<Longrightarrow> m1 = m0"
    and f2: "\<And>i rest. y \<noteq> [] \<Longrightarrow> drop i d = enc_field 0x12 y @ rest \<Longrightarrow> field d i m1 = Inr (m2, i + length (enc_field 0x12 y))"
    and n2: "y = [] \<Longrightarrow> m2 = m1"
    and f3: "\<And>i rest. v \<noteq> 0 \<Longrightarrow> drop i d = enc_number 0x18 v @ rest \<Longrightarrow> field d i m2 = Inr (m3, i + length (enc_number 0x18 v))"
    and n3: "v = 0 \<Longrightarrow> m3 = m2"
  shows "loops_to field d 0 m0 m3"
proof -
  let ?k = "enc_opt 0x0a x" and ?c = "enc_opt 0x12 y" and ?v = "enc_num_opt 0x18 v"
  have i: "drop 0 d = ?k @ ?c @ ?v" "drop (0 + length ?k) d = ?c @ ?v" "drop (0 + length ?k + length ?c) d = ?v @ []"
    "0 \<le> length d" "0 + length ?k \<le> length d" "0 + length ?k + length ?c \<le> length d" unfolding d by simp_all
  have opt: "enc_opt tag z \<noteq> [] \<Longrightarrow> z \<noteq> [] \<and> enc_opt tag z = enc_field tag z" "enc_opt tag z = [] \<Longrightarrow> z = []" for tag z
    by (simp_all add: enc_opt_def split: if_splits)
  have num: "?v \<noteq> [] \<Longrightarrow> v \<noteq> 0 \<and> ?v = enc_number 0x18 v" "?v = [] \<Longrightarrow> v = 0" by (simp_all add: enc_num_opt_def split: if_splits)
  have "loops_to field d (0 + length ?k + length ?c + length ?v) m3 m3" by (rule loops_to_end) (simp add: d)
  then have "loops_to field d (0 + length ?k + length ?c) m2 m3"
    by (rule loops_opt [OF i(3,6), rotated -1]) (metis num(1) f3 i(3), metis num(2) n3)
  then have "loops_to field d (0 + length ?k) m1 m3"
    by (rule loops_opt [OF i(2,5), rotated -1]) (metis opt(1) f2 i(2), metis opt(2) n2)
  then show ?thesis
    by (rule loops_opt [OF i(1,4), rotated -1]) (metis opt(1) f1 i(1), metis opt(2) n1)
qed

lemma bn_children_loop:
  assumes "length d < 2 ^ 63" "drop i d = concat (map (enc_field 0x0a) xs) @ rest" "i \<le> length d"
    and "loops_to bn_field d (i + length (concat (map (enc_field 0x0a) xs))) (m\<lparr>EncodedChildren := EncodedChildren m @ xs\<rparr>) r"
  shows "loops_to bn_field d i m r"
  using assms(2-4)
proof (induction xs arbitrary: i m)
  case (Cons x xs)
  let ?m = "m\<lparr>EncodedChildren := EncodedChildren m @ [x]\<rparr>" and ?i = "i + length (enc_field 0x0a x)"
  have d: "drop i d = enc_field 0x0a x @ (concat (map (enc_field 0x0a) xs) @ rest)" using Cons.prems(1) by simp
  have step: "bn_field d i m = Inr (?m, ?i)" by (rule bn_field_ok(1) [OF assms(1) d])
  have "loops_to bn_field d ?i ?m r" using Cons.IH [of ?i ?m] drop_length [OF d Cons.prems(2)] Cons.prems(3) by (simp add: add.assoc)
  then show ?case using loops_to_step [of bn_field d i m, OF step] drop_length [OF d Cons.prems(2)] by (simp add: enc_field_def)
qed simp

section \<open>Round trips\<close>

lemma bn_roundtrip:
  assumes "length d < 2 ^ 63" "bn_Marshal m = Inr d"
  shows "bn_Unmarshal d = Inr m"
proof -
  let ?c = "concat (map (enc_field 0x0a) (EncodedChildren m))" and ?v = "enc_opt 0x12 (ChildrenVersion m)"
  have d: "d = ?c @ ?v" using assms(2) by (simp add: bn_Marshal_conv enc_opt_def)
  have v: "drop (length ?c) d = ?v @ []" "length ?c \<le> length d" unfolding d by simp_all
  let ?m = "\<lparr>EncodedChildren = EncodedChildren m, ChildrenVersion = []\<rparr>"
  have last: "loops_to bn_field d (length ?c + length ?v) m m" by (rule loops_to_end) (simp add: d)
  have "loops_to bn_field d (length ?c) ?m m"
  proof (cases "ChildrenVersion m = []")
    case True
    then have eq: "?m = m" by simp
    show ?thesis unfolding eq using last True by (simp add: enc_opt_def)
  next
    case False
    then have v': "drop (length ?c) d = enc_field 0x12 (ChildrenVersion m) @ []" using v(1) by (simp add: enc_opt_def)
    have step: "bn_field d (length ?c) ?m = Inr (m, length ?c + length (enc_field 0x12 (ChildrenVersion m)))"
      using bn_field_ok(2) [OF assms(1) v', of ?m] by simp
    have last': "loops_to bn_field d (length ?c + length (enc_field 0x12 (ChildrenVersion m))) m m"
      using last False by (simp add: enc_opt_def)
    show ?thesis
      by (rule loops_to_step [OF step _ conjunct1 [OF drop_length [OF v' v(2)]] last']) simp
  qed
  then have kids: "loops_to bn_field d (0 + length ?c)
      (\<lparr>EncodedChildren = [], ChildrenVersion = []\<rparr>\<lparr>EncodedChildren := EncodedChildren \<lparr>EncodedChildren = [], ChildrenVersion = []\<rparr> @ EncodedChildren m\<rparr>) m"
    by simp
  have "drop 0 d = ?c @ ?v" using d by simp
  then have "loops_to bn_field d 0 \<lparr>EncodedChildren = [], ChildrenVersion = []\<rparr> m"
    by (rule bn_children_loop [OF assms(1) _ le0 kids])
  then show ?thesis by (simp add: bn_Unmarshal_def loops_to_def del: field_loop.simps)
qed

lemma en_roundtrip:
  assumes "length d < 2 ^ 63" "en_Marshal m = Inr d"
  shows "en_Unmarshal d = Inr m"
proof -
  have "loops_to en_field d 0 \<lparr>en_Key = [], EncodedChild = [], ChildVersion = 0\<rparr> m"
    by (rule loops_three [where x = "en_Key m" and y = "EncodedChild m" and v = "ChildVersion m"
          and ?m1.0 = "\<lparr>en_Key = en_Key m, EncodedChild = [], ChildVersion = 0\<rparr>"
          and ?m2.0 = "\<lparr>en_Key = en_Key m, EncodedChild = EncodedChild m, ChildVersion = 0\<rparr>"])
      (use assms in \<open>simp_all add: en_Marshal_conv en_field_ok\<close>)
  then show ?thesis by (simp add: en_Unmarshal_def loops_to_def del: field_loop.simps)
qed

text \<open>A leaf with an empty value comes back with a nil value.\<close>

lemma ln_roundtrip:
  assumes "length d < 2 ^ 63" "ln_Marshal m = Inr d"
  shows "ln_Unmarshal d = Inr (m\<lparr>ln_Value := (if slice_str (ln_Value m) = [] then None else ln_Value m)\<rparr>)"
proof -
  let ?v = "if slice_str (ln_Value m) = [] then None else ln_Value m"
  have some: "slice_str s \<noteq> [] \<Longrightarrow> s = Some (slice_str s)" for s :: "bytes option" by (cases s) (simp_all add: slice_str_def)
  have "loops_to ln_field d 0 \<lparr>ln_Key = [], ln_Value = None, ln_Version = 0\<rparr> (m\<lparr>ln_Value := ?v\<rparr>)"
  proof (rule loops_three [where x = "ln_Key m" and y = "slice_str (ln_Value m)" and v = "ln_Version m"
          and ?m1.0 = "\<lparr>ln_Key = ln_Key m, ln_Value = None, ln_Version = 0\<rparr>"
          and ?m2.0 = "\<lparr>ln_Key = ln_Key m, ln_Value = ?v, ln_Version = 0\<rparr>"])
    fix i rest assume dr: "drop i d = enc_field 0x12 (slice_str (ln_Value m)) @ rest"
    show "ln_field d i \<lparr>ln_Key = ln_Key m, ln_Value = None, ln_Version = 0\<rparr> =
        Inr (\<lparr>ln_Key = ln_Key m, ln_Value = ?v, ln_Version = 0\<rparr>, i + length (enc_field 0x12 (slice_str (ln_Value m))))"
      if "slice_str (ln_Value m) \<noteq> []"
      using ln_field_ok(2) [OF assms(1) dr] some [OF that] that by simp
  qed (use assms in \<open>simp_all add: ln_Marshal_conv ln_field_ok\<close>)
  then show ?thesis by (simp add: ln_Unmarshal_def loops_to_def del: field_loop.simps)
qed


section \<open>The codec of the trie\<close>

lemma sovNode_bound: "sovNode v \<le> 10"
proof -
  have "unat v < 2 ^ 64" using unsigned_less [of v, where ?'a = nat] by simp
  then have "bits_len (unat v div 2) \<le> 63" by (intro bits_len_small) simp
  then show ?thesis by (simp add: sovNode_alt)
qed

lemma enc_bounds:
  "length (enc_field tag x) \<le> length x + 11" "length (enc_opt tag x) \<le> length x + 11" "length (enc_num_opt tag v) \<le> 11"
  using sovNode_bound [of "of_nat (length x)"] sovNode_bound [of "ucast v"]
  by (auto simp: enc_opt_def enc_num_opt_def enc_field_def enc_number_def length_varint)

lemma concat_bound:
  "\<forall>x \<in> set xs. length x \<le> b \<Longrightarrow> length (concat (map (enc_field tag) xs)) \<le> length xs * (b + 11)"
proof (induction xs)
  case (Cons x xs)
  then show ?case using enc_bounds(1) [of tag x] by simp
qed simp

lemma proto_codec:
  assumes "\<And>x. hash x \<noteq> []" "\<And>x. sized (hash x)" "\<And>x. hash x \<noteq> EmptyTrieHash"
  shows "node_codec (proto_env hash)"
proof unfold_locales
  show "NotSpecified (proto_env hash) = 0" by (simp add: proto_env_def)
  show "Compute (proto_env hash) x \<noteq> []" "sized (Compute (proto_env hash) x)" "Compute (proto_env hash) x \<noteq> EmptyTrieHash" for x
    using assms by (simp_all add: proto_env_def)
  show "\<exists>m. MarshalLn (proto_env hash) ln = Inr m \<and> UnmarshalLn (proto_env hash) m = Inr ln"
    if "ln_Value ln = Some v" "v \<noteq> []" "sized v" "sized (ln_Key ln)" for ln v
  proof -
    let ?d = "enc_opt 0x0a (ln_Key ln) @ enc_opt 0x12 (slice_str (ln_Value ln)) @ enc_num_opt 0x18 (ln_Version ln)"
    have "length ?d < 2 ^ 63"
      using that enc_bounds(2) [of "0x0a" "ln_Key ln"] enc_bounds(2) [of "0x12" v] enc_bounds(3) [of "0x18" "ln_Version ln"]
      by (simp add: sized_def)
    then have "ln_Unmarshal ?d = Inr (ln\<lparr>ln_Value := Some v\<rparr>)" using ln_roundtrip [OF _ ln_Marshal_conv, of ln] that by simp
    then show ?thesis using that(1) by (simp add: proto_env_def ln_Marshal_conv pb_result_def)
  qed
  show "\<exists>m. MarshalEn (proto_env hash) en = Inr m \<and> UnmarshalEn (proto_env hash) m = Inr en"
    if "sized (en_Key en)" "sized (EncodedChild en)" for en
  proof -
    let ?d = "enc_opt 0x0a (en_Key en) @ enc_opt 0x12 (EncodedChild en) @ enc_num_opt 0x18 (ChildVersion en)"
    have "length ?d < 2 ^ 63"
      using that enc_bounds(2) [of "0x0a" "en_Key en"] enc_bounds(2) [of "0x12" "EncodedChild en"] enc_bounds(3) [of "0x18" "ChildVersion en"]
      by (simp add: sized_def)
    then show ?thesis using en_roundtrip [OF _ en_Marshal_conv] by (simp add: proto_env_def en_Marshal_conv pb_result_def)
  qed
  show "\<exists>m. MarshalBn (proto_env hash) bn = Inr m \<and> UnmarshalBn (proto_env hash) m = Inr bn"
    if "length (EncodedChildren bn) = nrOfChildren" "list_all sized (EncodedChildren bn)"
      "length (ChildrenVersion bn) \<in> {0, nrOfChildren}" for bn
  proof -
    let ?d = "concat (map (enc_field 0x0a) (EncodedChildren bn)) @ (if ChildrenVersion bn = [] then [] else enc_field 0x12 (ChildrenVersion bn))"
    have "length (if ChildrenVersion bn = [] then [] else enc_field 0x12 (ChildrenVersion bn)) \<le> 17 + 11"
      using that(3) enc_bounds(1) [of "0x12" "ChildrenVersion bn"] by (auto simp: nrOfChildren_def)
    then have "length ?d < 2 ^ 63"
      using that(1,2) concat_bound [of "EncodedChildren bn" "2 ^ 31" "0x0a"]
      by (simp add: nrOfChildren_def list_all_iff sized_def less_imp_le)
    then show ?thesis using bn_roundtrip [OF _ bn_Marshal_conv] by (simp add: proto_env_def bn_Marshal_conv pb_result_def)
  qed
qed

section \<open>Decoding returns\<close>

text \<open>Every iteration goes forward, so the loops of the decoder end on every input.\<close>

lemma read_varint_forward: "read_varint d i s (v :: 'a::len word) = Inr (w, j) \<Longrightarrow> i < j \<and> j \<le> length d"
proof (induction d i s v rule: read_varint.induct)
  case (1 d i s v)
  show ?case
    using "1.prems" "1.IH" [OF _ _ refl refl] by (subst (asm) read_varint.simps) (auto simp: Let_def split: if_splits)
qed

lemma read_varint_returns: "read_varint d i s (v :: 'a::len word) \<noteq> Inl ErrNotReturned"
proof (induction d i s v rule: read_varint.induct)
  case (1 d i s v)
  show ?case using "1.IH" [OF _ _ refl refl] by (subst read_varint.simps) (auto simp: Let_def)
qed

lemma sint_nonneg: "0 \<le> sint (l :: u64) \<longleftrightarrow> unat l < 2 ^ 63"
proof -
  have "0 \<le> sint l \<longleftrightarrow> \<not> bit l 63" using bit_last_iff [of l] by (simp add: not_less [symmetric])
  also have "\<dots> \<longleftrightarrow> \<not> bit (unat l) 63" by (simp add: bit_unsigned_iff)
  also have "\<dots> \<longleftrightarrow> even (unat l div 2 ^ 63)" by (simp only: bit_iff_odd not_not)
  also have "\<dots> \<longleftrightarrow> unat l < 2 ^ 63"
  proof -
    have "unat l < 2 ^ 64" using unsigned_less [of l, where ?'a = nat] by simp
    then have "unat l div 2 ^ 63 < 2" by simp
    then have "unat l div 2 ^ 63 = 0 \<or> unat l div 2 ^ 63 = 1" by linarith
    then show ?thesis by (auto simp: div_eq_0_iff)
  qed
  finally show ?thesis .
qed

lemma add_forward:
  fixes l :: u64
  assumes "j < 2 ^ 63" "0 \<le> sint l" "0 \<le> sint (of_nat j + l)"
  shows "unat (of_nat j + l) = j + unat l" "j + unat l < 2 ^ 63"
proof -
  have l: "unat l < 2 ^ 63" "unat (of_nat j + l) < 2 ^ 63" using assms by (simp_all only: sint_nonneg)
  have "unat (of_nat j + l) = (j + unat l) mod 2 ^ 64" using assms(1) by (simp add: unat_word_ariths unat_of_nat)
  moreover have "j + unat l < 2 ^ 64" using l(1) assms(1) by simp
  ultimately show "unat (of_nat j + l) = j + unat l" by simp
  then show "j + unat l < 2 ^ 63" using l(2) by simp
qed

lemma skip_field_forward:
  assumes "length d < 2 ^ 63" "skip_field d i depth = Inr (k, depth')" "0 \<le> sint k"
  shows "i < unat k"
proof -
  obtain wire j where j: "read_varint d i 0 (0 :: u64) = Inr (wire, j)" using assms(2) by (auto simp: skip_field_def split: sum.splits)
  have at: "i < j" "j \<le> length d" using read_varint_forward [OF j] by simp_all
  have "k \<in> {of_nat j + 0, of_nat j + 8, of_nat j + 4} \<or>
      (\<exists>l j'. read_varint d j 0 (0 :: u64) = Inr (l, j') \<and> (k = of_nat j' + 0 \<or> 0 \<le> sint l \<and> k = of_nat j' + l))"
    using assms(2) by (auto simp: skip_field_def j Let_def split: sum.splits if_splits)
  then consider c where "c \<in> {0, 8, 4}" "k = of_nat j + c"
    | l j' where "read_varint d j 0 (0 :: u64) = Inr (l, j')" "k = of_nat j' + 0 \<or> 0 \<le> sint l \<and> k = of_nat j' + l" by blast
  then have "\<exists>j' l. i < j' \<and> j' \<le> length d \<and> 0 \<le> sint l \<and> k = of_nat j' + (l :: u64)"
  proof cases
    case (1 c)
    then have "0 \<le> sint c" by (auto simp: sint_nonneg)
    then show ?thesis using 1(2) at by blast
  next
    case (2 l j')
    have "i < j'" "j' \<le> length d" "0 \<le> sint (0 :: u64)" using read_varint_forward [OF 2(1)] at by simp_all
    then show ?thesis using 2(2) by blast
  qed
  then show ?thesis using add_forward(1) assms(1,3) by (metis le_less_trans trans_less_add1)
qed

lemma skip_field_returns: "skip_field d i depth \<noteq> Inl ErrNotReturned"
  using read_varint_returns by (auto simp: skip_field_def Let_def split: sum.splits if_splits)

lemma skipNode_returns:
  "length d < 2 ^ 63 \<Longrightarrow> length d - i < fuel \<Longrightarrow>
   skipNode fuel d i depth \<noteq> Inl ErrNotReturned \<and> (\<forall>k. skipNode fuel d i depth = Inr k \<longrightarrow> i < unat k \<and> 0 \<le> sint k)"
proof (induction fuel arbitrary: i depth)
  case (Suc fuel)
  show ?case
  proof (cases "i < length d \<and> (\<exists>k depth'. skip_field d i depth = Inr (k, depth') \<and> 0 \<le> sint k)")
    case True
    then obtain k depth' where k: "skip_field d i depth = Inr (k, depth')" "0 \<le> sint k" "i < length d" by blast
    have fwd: "i < unat k" using skip_field_forward [OF Suc.prems(1) k(1,2)] .
    then have "length d - unat k < fuel" using k(3) Suc.prems(2) by linarith
    from Suc.IH [OF Suc.prems(1) this, of depth'] show ?thesis using k fwd by auto
  next
    case False
    then show ?thesis using skip_field_returns [of d i depth] by (auto split: sum.splits)
  qed
qed simp

text \<open>A step from index \<open>i\<close> that returns, and goes forward when it gives no error.\<close>

definition forward :: "nat \<Rightarrow> pb_error + ('m \<times> nat) \<Rightarrow> bool" where
  "forward i r \<longleftrightarrow> r \<noteq> Inl ErrNotReturned \<and> (\<forall>m j. r = Inr (m, j) \<longrightarrow> i < j)"

lemma forward_skip:
  assumes "length d < 2 ^ 63" "i < length d"
  shows "forward i (case skip_unknown d i of Inl e \<Rightarrow> Inl e | Inr iNdEx \<Rightarrow> Inr (m, iNdEx))"
proof -
  have "skipNode (Suc (length d)) (drop i d) 0 0 \<noteq> Inl ErrNotReturned \<and>
      (\<forall>k. skipNode (Suc (length d)) (drop i d) 0 0 = Inr k \<longrightarrow> 0 < unat k \<and> 0 \<le> sint k)"
    using assms by (intro skipNode_returns) simp_all
  then show ?thesis by (auto simp: forward_def skip_unknown_def simp del: skipNode.simps split: sum.splits if_splits)
qed

lemma forward_tag:
  assumes "\<And>f w j. i < j \<Longrightarrow> forward i (k f w j)"
  shows "forward i (case read_tag d i of Inl e \<Rightarrow> Inl e | Inr (f, w, j) \<Rightarrow> k f w j)"
proof (cases "read_tag d i")
  case (Inl e)
  then show ?thesis using read_varint_returns [of d i 0 "0 :: u64"]
    by (auto simp: forward_def read_tag_def Let_def split: sum.splits if_splits)
next
  case (Inr r)
  then have "i < snd (snd r)" using read_varint_forward [of d i 0 "0 :: u64"]
    by (auto simp: read_tag_def Let_def split: sum.splits if_splits)
  then show ?thesis using assms [of "snd (snd r)" "fst r" "fst (snd r)"] Inr by (cases r) simp
qed

lemma forward_bytes:
  assumes "length d < 2 ^ 63" "i0 < i"
  shows "forward i0 (bytes_field w d i f)"
proof (cases "bytes_field w d i f")
  case (Inl e)
  then show ?thesis using read_varint_returns [of d i 0 "0 :: u64"]
    by (auto simp: forward_def bytes_field_def read_bytes_def post_index_def Let_def split: sum.splits if_splits)
next
  case (Inr r)
  obtain m j where r: "r = (m, j)" by (cases r)
  obtain l k where k: "read_varint d i 0 (0 :: u64) = Inr (l, k)" "post_index d k l = Inr j"
    using Inr r by (auto simp: bytes_field_def read_bytes_def split: sum.splits if_splits)
  then have s: "0 \<le> sint l" "0 \<le> sint (of_nat k + l)" "j = nat (sint (of_nat k + l))"
    by (auto simp: post_index_def Let_def split: if_splits)
  have ik: "k < 2 ^ 63" "i < k" using read_varint_forward [OF k(1)] assms by simp_all
  have "of_nat k + l = of_nat (k + unat l)" by simp
  then have "sint (of_nat k + l) = int (k + unat l)" using sint_of_nat [OF add_forward(2) [OF ik(1) s(1,2)]] by metis
  then have "i0 < j" using s(3) ik(2) assms(2) by (simp del: of_nat_add)
  then show ?thesis using Inr r by (simp add: forward_def)
qed

lemma forward_number: "i0 < i \<Longrightarrow> forward i0 (number_field w d i f)"
  using read_varint_returns [of d i 0 "0 :: u32"] read_varint_forward [of d i 0 "0 :: u32"]
  by (auto simp: forward_def number_field_def split: sum.splits if_splits)

lemma forward_if: "forward i a \<Longrightarrow> forward i b \<Longrightarrow> forward i (if c then a else b)"
  by simp

lemma fields_forward:
  assumes "length d < 2 ^ 63" "i < length d"
  shows "forward i (bn_field d i bn)" "forward i (en_field d i en)" "forward i (ln_field d i ln)"
  unfolding bn_field_def en_field_def ln_field_def
  by (intro forward_tag forward_if forward_bytes forward_number forward_skip assms; assumption)+

lemma field_loop_returns:
  "(\<And>i m. i < length d \<Longrightarrow> forward i (field d i m)) \<Longrightarrow> length d - i < fuel \<Longrightarrow> field_loop fuel field d i m \<noteq> Inl ErrNotReturned"
proof (induction fuel arbitrary: i m)
  case (Suc fuel)
  show ?case
  proof (cases "i < length d \<and> (\<exists>m' j. field d i m = Inr (m', j))")
    case True
    then obtain m' j where f: "field d i m = Inr (m', j)" "i < length d" "i < j" using Suc.prems(1) unfolding forward_def by blast
    then have "length d - j < fuel" using Suc.prems(2) by linarith
    then show ?thesis using Suc.IH [OF Suc.prems(1), of j m'] f by simp
  next
    case False
    then show ?thesis using Suc.prems(1) [of i m] unfolding forward_def by (auto split: sum.splits)
  qed
qed simp

end
