(* ===== verification/Trie_Storage.thy ===== *)
theory Trie_Storage
  imports Trie_Proof Trie_Proto
begin

text \<open>
  The storage manager of the tries (\<open>trie/trieStorageManager.go\<close>) and its variants: without pruning, without
  snapshots, for syncing, and for reading at an epoch. The main storer is a parameter, a record of its
  operations on its own state; \<open>bs_epochs\<close> holds the operations of a storer that also implements
  \<open>snapshotPruningStorer\<close>. The snapshot goroutines are not modelled here. The locales of the trie are interpreted
  on the wire format, for every hasher, and on this storage manager.
\<close>

section \<open>The main storer\<close>

record 'd epoch_ops =
  es_GetFromCurrentEpoch :: "'d \<Rightarrow> bytes \<Rightarrow> slice \<times> trie_error option"
  es_GetFromEpoch :: "'d \<Rightarrow> bytes \<Rightarrow> u32 \<Rightarrow> slice \<times> trie_error option"
  es_PutInEpoch :: "'d \<Rightarrow> bytes \<Rightarrow> bytes \<Rightarrow> u32 \<Rightarrow> trie_error option \<times> 'd"
  es_PutInEpochWithoutCache :: "'d \<Rightarrow> bytes \<Rightarrow> bytes \<Rightarrow> u32 \<Rightarrow> trie_error option \<times> 'd"
  es_RemoveFromCurrentEpoch :: "'d \<Rightarrow> bytes \<Rightarrow> trie_error option \<times> 'd"
  es_RemoveFromAllActiveEpochs :: "'d \<Rightarrow> bytes \<Rightarrow> trie_error option \<times> 'd"
  es_GetLatestStorageEpoch :: "'d \<Rightarrow> u32 tresult"

record 'd BaseStorer =
  bs_Get :: "'d \<Rightarrow> bytes \<Rightarrow> slice \<times> trie_error option"
  bs_Put :: "'d \<Rightarrow> bytes \<Rightarrow> bytes \<Rightarrow> trie_error option \<times> 'd"
  bs_Remove :: "'d \<Rightarrow> bytes \<Rightarrow> trie_error option \<times> 'd"
  bs_epochs :: "'d epoch_ops option"

section \<open>Operations\<close>

definition tsm_Get :: "'d BaseStorer \<Rightarrow> 'd \<Rightarrow> bytes \<Rightarrow> bytes tresult" where
  "tsm_Get main d key =
     (let (val, err) = bs_Get main d key
      in if err = Some ErrClosing then Inl ErrClosing
         else if length (slice_str val) = 0 then Inl ErrKeyNotFound
         else Inr (slice_str val))"

definition tsm_GetFromCurrentEpoch :: "'d BaseStorer \<Rightarrow> 'd \<Rightarrow> bytes \<Rightarrow> slice \<times> trie_error option" where
  "tsm_GetFromCurrentEpoch main d key =
     (case bs_epochs main of None \<Rightarrow> (None, Some StorerErr) | Some es \<Rightarrow> es_GetFromCurrentEpoch es d key)"

definition tsm_Put :: "'d BaseStorer \<Rightarrow> 'd \<Rightarrow> bytes \<Rightarrow> bytes \<Rightarrow> trie_error option \<times> 'd" where
  "tsm_Put main d key val = bs_Put main d key val"

definition tsm_PutInEpoch :: "'d BaseStorer \<Rightarrow> 'd \<Rightarrow> bytes \<Rightarrow> bytes \<Rightarrow> u32 \<Rightarrow> trie_error option \<times> 'd" where
  "tsm_PutInEpoch main d key val epoch =
     (case bs_epochs main of None \<Rightarrow> (Some StorerErr, d) | Some es \<Rightarrow> es_PutInEpoch es d key val epoch)"

definition tsm_PutInEpochWithoutCache :: "'d BaseStorer \<Rightarrow> 'd \<Rightarrow> bytes \<Rightarrow> bytes \<Rightarrow> u32 \<Rightarrow> trie_error option \<times> 'd" where
  "tsm_PutInEpochWithoutCache main d key val epoch =
     (case bs_epochs main of None \<Rightarrow> (Some StorerErr, d) | Some es \<Rightarrow> es_PutInEpochWithoutCache es d key val epoch)"

definition tsm_GetLatestStorageEpoch :: "'d BaseStorer \<Rightarrow> 'd \<Rightarrow> u32 tresult" where
  "tsm_GetLatestStorageEpoch main d =
     (case bs_epochs main of None \<Rightarrow> Inl StorerErr | Some es \<Rightarrow> es_GetLatestStorageEpoch es d)"

definition tsm_Remove :: "'d BaseStorer \<Rightarrow> 'd \<Rightarrow> bytes \<Rightarrow> trie_error option \<times> 'd" where
  "tsm_Remove main d hash =
     (case bs_epochs main of None \<Rightarrow> bs_Remove main d hash | Some es \<Rightarrow> es_RemoveFromCurrentEpoch es d hash)"

definition tsm_RemoveFromAllActiveEpochs :: "'d BaseStorer \<Rightarrow> 'd \<Rightarrow> bytes \<Rightarrow> trie_error option \<times> 'd" where
  "tsm_RemoveFromAllActiveEpochs main d hash =
     (case bs_epochs main of None \<Rightarrow> (Some StorerErr, d) | Some es \<Rightarrow> es_RemoveFromAllActiveEpochs es d hash)"

text \<open>The counter of operations that block pruning.\<close>

definition EnterPruningBufferingMode :: "u32 \<Rightarrow> u32" where
  "EnterPruningBufferingMode pruningBlockingOps = pruningBlockingOps + 1"

definition ExitPruningBufferingMode :: "u32 \<Rightarrow> u32" where
  "ExitPruningBufferingMode pruningBlockingOps =
     (if pruningBlockingOps < 1 then pruningBlockingOps else pruningBlockingOps - 1)"

definition IsPruningBlocked :: "u32 \<Rightarrow> bool" where
  "IsPruningBlocked pruningBlockingOps \<longleftrightarrow> pruningBlockingOps \<noteq> 0"

definition snapshotsGoroutineNum :: "u32 \<Rightarrow> int \<Rightarrow> int" where
  "snapshotsGoroutineNum perCore gomaxprocs =
     (let num = uint perCore * gomaxprocs
      in if num < 4 then 4 else if num > 2147483647 then 2147483647 else num)"

section \<open>Variants\<close>

definition withoutPruning_Remove :: "'d \<Rightarrow> bytes \<Rightarrow> trie_error option \<times> 'd" where
  "withoutPruning_Remove d hash = (None, d)"

definition withoutSnapshot_GetFromCurrentEpoch :: "'d BaseStorer \<Rightarrow> 'd \<Rightarrow> bytes \<Rightarrow> bytes tresult" where
  "withoutSnapshot_GetFromCurrentEpoch main d key = tsm_Get main d key"

definition withoutSnapshot_PutInEpoch :: "'d BaseStorer \<Rightarrow> 'd \<Rightarrow> bytes \<Rightarrow> bytes \<Rightarrow> u32 \<Rightarrow> trie_error option \<times> 'd" where
  "withoutSnapshot_PutInEpoch main d key val epoch = tsm_Put main d key val"

record syncTrieStorageManager =
  sync_epoch :: u32

definition NewSyncTrieStorageManager :: "'d BaseStorer \<Rightarrow> 'd \<Rightarrow> syncTrieStorageManager tresult" where
  "NewSyncTrieStorageManager main d =
     (case tsm_GetLatestStorageEpoch main d of Inl e \<Rightarrow> Inl e | Inr epoch \<Rightarrow> Inr \<lparr>sync_epoch = epoch\<rparr>)"

definition sync_Put :: "'d BaseStorer \<Rightarrow> syncTrieStorageManager \<Rightarrow> 'd \<Rightarrow> bytes \<Rightarrow> bytes \<Rightarrow> trie_error option \<times> 'd" where
  "sync_Put main stsm d key val =
     (case tsm_PutInEpoch main d key val (sync_epoch stsm) of
        (Some e, d) \<Rightarrow> (Some e, d)
      | (None, d) \<Rightarrow> if sync_epoch stsm = 0 then (None, d) else tsm_PutInEpoch main d key val (sync_epoch stsm - 1))"

definition numEpochsToVerify :: nat where "numEpochsToVerify = 2"

fun inEpoch_loop :: "'d epoch_ops \<Rightarrow> 'd \<Rightarrow> u32 \<Rightarrow> bytes \<Rightarrow> nat list \<Rightarrow> bytes tresult" where
  "inEpoch_loop es d epoch key [] = Inl ErrKeyNotFound"
| "inEpoch_loop es d epoch key (i # is) =
     (if of_nat i > epoch then Inl ErrKeyNotFound
      else let (val, err) = es_GetFromEpoch es d key (epoch - of_nat i)
           in if length (slice_str val) \<noteq> 0 then Inr (slice_str val) else inEpoch_loop es d epoch key is)"

definition inEpoch_Get :: "'d epoch_ops \<Rightarrow> u32 \<Rightarrow> 'd \<Rightarrow> bytes \<Rightarrow> bytes tresult" where
  "inEpoch_Get es epoch d key = inEpoch_loop es d epoch key [0..<numEpochsToVerify]"

section \<open>The manager as the storage of a trie\<close>

definition tsm_storer :: "'d BaseStorer \<Rightarrow> 'd storer" where
  "tsm_storer main = \<lparr>st_Get = tsm_Get main, st_Put = tsm_Put main\<rparr>"

text \<open>What is asked of the main storer: a value that is put is read under its key from then on, and
  nothing else changes.\<close>

definition main_storer_ok :: "'d BaseStorer \<Rightarrow> bool" where
  "main_storer_ok main \<longleftrightarrow>
     (\<forall>d k v. \<exists>d'. bs_Put main d k v = (None, d') \<and> bs_Get main d' = (bs_Get main d)(k := (Some v, None)))"

lemma tsm_trie_storage: "main_storer_ok main \<Longrightarrow> trie_storage (tsm_storer main)"
proof
  fix d k v assume main: "main_storer_ok main" and v: "v \<noteq> ([] :: bytes)"
  obtain d' where "bs_Put main d k v = (None, d')" "bs_Get main d' = (bs_Get main d)(k := (Some v, None))"
    using main unfolding main_storer_ok_def by metis
  then show "\<exists>d'. st_Put (tsm_storer main) d k v = (None, d') \<and> st_Get (tsm_storer main) d' = (st_Get (tsm_storer main) d)(k := Inr v)"
    using v by (intro exI [of _ d']) (auto simp: tsm_storer_def tsm_Put_def tsm_Get_def [abs_def])
qed

text \<open>The memory storer: a map from keys to values.\<close>

definition mem_Get :: "(bytes \<rightharpoonup> bytes) \<Rightarrow> bytes \<Rightarrow> slice \<times> trie_error option" where
  "mem_Get db key = (case db key of None \<Rightarrow> (None, Some StorerErr) | Some val \<Rightarrow> (Some val, None))"

definition mem_Put :: "(bytes \<rightharpoonup> bytes) \<Rightarrow> bytes \<Rightarrow> bytes \<Rightarrow> trie_error option \<times> (bytes \<rightharpoonup> bytes)" where
  "mem_Put db key val = (None, db(key \<mapsto> val))"

definition mem_Remove :: "(bytes \<rightharpoonup> bytes) \<Rightarrow> bytes \<Rightarrow> trie_error option \<times> (bytes \<rightharpoonup> bytes)" where
  "mem_Remove db key = (None, db(key := None))"

definition memDb :: "(bytes \<rightharpoonup> bytes) BaseStorer" where
  "memDb = \<lparr>bs_Get = mem_Get, bs_Put = mem_Put, bs_Remove = mem_Remove, bs_epochs = None\<rparr>"

lemma memDb_ok: "main_storer_ok memDb"
  by (auto simp: main_storer_ok_def memDb_def mem_Put_def mem_Get_def)

interpretation mem: trie_storage "tsm_storer memDb"
  by (rule tsm_trie_storage [OF memDb_ok])

section \<open>Hashers\<close>

text \<open>What is asked of the hasher: a hash is neither empty nor too long for the encoding nor the hash
  reserved for the empty trie.\<close>

definition hasher_ok :: "(bytes \<Rightarrow> bytes) \<Rightarrow> bool" where
  "hasher_ok hash \<longleftrightarrow> (\<forall>x. hash x \<noteq> [] \<and> sized (hash x) \<and> hash x \<noteq> EmptyTrieHash)"

text \<open>A hasher together with inputs on which it has no collisions.\<close>

definition long_hash :: "bytes \<Rightarrow> bytes" where
  "long_hash x = 1 # take (2 ^ 30) x"

lemma hasher_ok_long: "hasher_ok long_hash"
proof -
  have "hd EmptyTrieHash = 0" by (simp add: EmptyTrieHash_def)
  then have "1 # x \<noteq> EmptyTrieHash" for x by (metis list.sel(1) zero_neq_one)
  then show ?thesis by (simp add: hasher_ok_def long_hash_def sized_def min_less_iff_disj)
qed

lemma inj_on_long: "inj_on long_hash {x. length x \<le> 2 ^ 30}"
  by (simp add: inj_on_def long_hash_def)

typedef hasher = "{(h, U). hasher_ok h \<and> inj_on h U}"
  morphisms hasher_rep Hasher
proof
  show "(long_hash, {}) \<in> {(h, U). hasher_ok h \<and> inj_on h U}" using hasher_ok_long by simp
qed

definition hash_of :: "hasher \<Rightarrow> bytes \<Rightarrow> bytes" where
  "hash_of h = fst (hasher_rep h)"

definition inputs_of :: "hasher \<Rightarrow> bytes set" where
  "inputs_of h = snd (hasher_rep h)"

lemma hasher_laws: "hasher_ok (hash_of h)" "inj_on (hash_of h) (inputs_of h)"
  using hasher_rep [of h] by (auto simp: hash_of_def inputs_of_def)

lemma hasher_cases:
  assumes "hasher_ok hash" "inj_on hash U"
  obtains h where "hash = hash_of h" "U = inputs_of h"
  using Hasher_inverse [of "(hash, U)"] assms that [of "Hasher (hash, U)"] by (simp add: hash_of_def inputs_of_def)

interpretation pb: node_hashing "proto_env (hash_of h)" "inputs_of h" for h
proof -
  have "node_codec (proto_env (hash_of h))" using hasher_laws(1) [of h] by (intro proto_codec) (auto simp: hasher_ok_def)
  then show "node_hashing (proto_env (hash_of h)) (inputs_of h)"
    using hasher_laws(2) [of h] by (auto simp: node_hashing_def node_hashing_axioms_def proto_env_def inj_on_def)
qed

interpretation mdb: trie_db "proto_env (hash_of h)" "inputs_of h" "tsm_storer memDb" for h ..

lemma tsm_trie_db: "main_storer_ok main \<Longrightarrow> trie_db (proto_env (hash_of h)) (inputs_of h) (tsm_storer main)"
  by (intro trie_db.intro tsm_trie_storage pb.node_hashing_axioms)

end
