(* ===== verification/Trie_Map.thy ===== *)
theory Trie_Map
  imports Trie_Storage
begin

text \<open>
  The trie as a map from keys to values and versions. \<open>trie_rep\<close> says that a trie holds a map; every
  operation is shown to act on the map as it should, whatever part of the trie is in memory. The root
  hash depends on the map alone and determines it; a committed trie can be read back from its root
  hash; the proofs the trie gives are accepted, and only keys of the map are. All statements are about
  the wire format of the nodes, for a given hasher and storage.
\<close>

section \<open>Tries and maps\<close>

text \<open>A tree holds the map: its keys are the nibbles of the keys of the map.\<close>

definition content :: "ptree \<Rightarrow> trie_map \<Rightarrow> bool" where
  "content t M \<longleftrightarrow> dom (pmap t) \<subseteq> keyBytesToHex ` {k. length k < 2 ^ 30} \<and> M = (\<lambda>k. pmap t (keyBytesToHex k))"

definition trie_rep :: "trie_env \<Rightarrow> db_get \<Rightarrow> patriciaMerkleTrie \<Rightarrow> trie_map \<Rightarrow> bool" where
  "trie_rep env db tr M \<longleftrightarrow>
     maxTrieLevelInMemory tr \<noteq> 0 \<and>
     (case root tr of
        None \<Rightarrow> M = Map.empty
      | Some n \<Rightarrow> \<exists>t. repr env db t n \<and> canonical t \<and> content t M)"

text \<open>The encoded nodes of the trie for a map are in \<open>U\<close>.\<close>

definition in_use :: "trie_env \<Rightarrow> bytes set \<Rightarrow> trie_map \<Rightarrow> bool" where
  "in_use env U M \<longleftrightarrow> (\<forall>t. canonical t \<longrightarrow> content t M \<longrightarrow> tracked env U t)"

lemma length_keyBytesToHex: "length (keyBytesToHex k) = 2 * length k + 1"
  by (simp add: keyBytesToHex_conv length_nibbles)

lemma hex_nibbles: "\<forall>x \<in> set (keyBytesToHex k). unat x < nrOfChildren"
  using hex_key_nibbles hex_key_keyBytesToHex by blast

lemma content_keys: "content t M \<Longrightarrow> length k < 2 ^ 30 \<Longrightarrow> trie_keys (insert (keyBytesToHex k) (dom (pmap t)))"
proof (rule trie_keys_hex, rule ballI)
  fix x assume "content t M" "length k < 2 ^ 30" "x \<in> insert (keyBytesToHex k) (dom (pmap t))"
  then obtain k' where "x = keyBytesToHex k'" "length k' < 2 ^ 30" unfolding content_def by blast
  then show "hex_key x \<and> sized x" by (simp add: hex_key_keyBytesToHex sized_def length_keyBytesToHex)
qed

lemma content_upd:
  "content t M \<Longrightarrow> length k < 2 ^ 30 \<Longrightarrow> pmap t' = (pmap t)(keyBytesToHex k := e) \<Longrightarrow> content t' (M(k := e))"
proof -
  assume t: "content t M" and k: "length k < 2 ^ 30" and t': "pmap t' = (pmap t)(keyBytesToHex k := e)"
  have "dom (pmap t') \<subseteq> insert (keyBytesToHex k) (dom (pmap t))" unfolding t' by (auto split: if_splits)
  moreover have "insert (keyBytesToHex k) (dom (pmap t)) \<subseteq> keyBytesToHex ` {k. length k < 2 ^ 30}" using t k unfolding content_def by blast
  ultimately have "dom (pmap t') \<subseteq> keyBytesToHex ` {k. length k < 2 ^ 30}" by blast
  moreover have "M(k := e) = (\<lambda>x. pmap t' (keyBytesToHex x))" using t t' by (auto simp: content_def)
  ultimately show ?thesis unfolding content_def by blast
qed

lemma content_unique: "canonical t \<Longrightarrow> canonical u \<Longrightarrow> content t M \<Longrightarrow> content u M \<Longrightarrow> t = u"
proof (rule pmap_inject)
  assume *: "content t M" "content u M"
  show "pmap t = pmap u"
  proof
    fix x show "pmap t x = pmap u x"
    proof (cases "x \<in> range keyBytesToHex")
      case True
      then show ?thesis using * by (auto simp: content_def fun_eq_iff)
    next
      case False
      then have "x \<notin> dom (pmap t)" "x \<notin> dom (pmap u)" using * unfolding content_def by blast+
      then show ?thesis by (metis domIff)
    qed
  qed
qed

lemma content_leaf: "length k < 2 ^ 30 \<Longrightarrow> content (PLeaf (keyBytesToHex k) v ver) [k \<mapsto> (v, ver)]"
  by (auto simp: content_def fun_eq_iff)

lemma content_not_empty: "canonical t \<Longrightarrow> content t M \<Longrightarrow> M \<noteq> Map.empty"
  using canonical_dom [of t] by (fastforce simp: content_def fun_eq_iff)

lemma trie_rep_Some:
  "trie_rep env db tr M \<Longrightarrow> root tr = Some n \<Longrightarrow> (\<And>t. repr env db t n \<Longrightarrow> canonical t \<Longrightarrow> content t M \<Longrightarrow> P) \<Longrightarrow> P"
  by (auto simp: trie_rep_def)

lemma trie_repI:
  "repr env db t n \<Longrightarrow> canonical t \<Longrightarrow> content t M \<Longrightarrow> root tr = Some n \<Longrightarrow> maxTrieLevelInMemory tr \<noteq> 0 \<Longrightarrow> trie_rep env db tr M"
  by (auto simp: trie_rep_def)

lemma trie_rep_level: "trie_rep env db tr M \<Longrightarrow> maxTrieLevelInMemory tr \<noteq> 0"
  by (simp add: trie_rep_def)

lemma remember_root_simps [simp]:
  "root (remember_root tr n) = root tr" "maxTrieLevelInMemory (remember_root tr n) = maxTrieLevelInMemory tr"
  by (simp_all add: remember_root_def)

section \<open>Operations on the map\<close>

text \<open>What an update makes of the map: an empty value deletes, and a value that is there already keeps
  its version.\<close>

definition map_update :: "bytes \<Rightarrow> bytes \<Rightarrow> u8 \<Rightarrow> trie_map \<Rightarrow> trie_map" where
  "map_update k v ver M =
     (if v = [] then M(k := None) else if map_option fst (M k) = Some v then M else M(k \<mapsto> (v, ver)))"

text \<open>The root hash of a map.\<close>

definition hash_for :: "trie_env \<Rightarrow> trie_map \<Rightarrow> bytes \<Rightarrow> bool" where
  "hash_for env M h \<longleftrightarrow> (if M = Map.empty then h = EmptyTrieHash else \<exists>t. canonical t \<and> content t M \<and> h = phash env t)"

lemma hash_for_unique: "hash_for env M h \<Longrightarrow> hash_for env M h' \<Longrightarrow> h = h'"
  using content_unique by (auto simp: hash_for_def split: if_splits)

context node_codec
begin

lemma get_map:
  assumes "trie_rep env db tr M" "2 * length k + 1 < fuel"
  shows "\<exists>depth tr'. GetWithVersion fuel env db tr k = Some (found (M k) depth, tr') \<and> trie_rep env db tr' M"
proof (cases "root tr")
  case None
  then show ?thesis using assms(1) by (auto simp: GetWithVersion_def trie_rep_def found_def)
next
  case (Some n)
  obtain t where t: "repr env db t n" "canonical t" "content t M" using trie_rep_Some [OF assms(1) Some] .
  obtain n' d' where g: "tryGetWithVersion fuel env db n (keyBytesToHex k) rootDepthLevel = Some (found (pmap t (keyBytesToHex k)) d', n')"
    "repr env db t n'" using get_repr [OF t(1,2) hex_nibbles] assms(2) by (metis length_keyBytesToHex)
  have "pmap t (keyBytesToHex k) = M k" using t(3) by (simp add: content_def)
  moreover have "trie_rep env db (tr\<lparr>root := Some n'\<rparr>) M" using g(2) t trie_rep_level [OF assms(1)] by (auto intro: trie_repI)
  ultimately show ?thesis using g(1) Some by (auto simp: GetWithVersion_def found_def split: option.splits)
qed

lemma delete_map:
  assumes "trie_rep env db tr M" "length k < 2 ^ 30" "2 * length k + 1 < fuel"
  shows "\<exists>tr'. trie_delete fuel env db tr (keyBytesToHex k) = Some (None, tr') \<and> trie_rep env db tr' (M(k := None))"
proof (cases "root tr")
  case None
  then show ?thesis using assms(1) by (auto simp: trie_delete_def trie_rep_def)
next
  case (Some n)
  obtain t where t: "repr env db t n" "canonical t" "content t M" using trie_rep_Some [OF assms(1) Some] .
  obtain dirty res hs n' where d: "node_delete fuel env db n (keyBytesToHex k) = Some (Inr (dirty, res, hs), n')"
    "deleted env db t (keyBytesToHex k) dirty res n' n"
    using delete_repr [OF t(1,2) content_keys [OF t(3) assms(2)]] assms(3) by (metis length_keyBytesToHex)
  let ?tr = "(remember_root tr n)\<lparr>root := res, oldHashes := oldHashes (remember_root tr n) @ hs\<rparr>"
  have "trie_rep env db ?tr (M(k := None))"
  proof (cases dirty)
    case False
    then have "repr env db t n'" "res = Some n'" "M k = None" using d(2) t(3) unfolding deleted_def content_def by (simp_all (no_asm_simp)) metis
    moreover have "M(k := None) = M" using \<open>M k = None\<close> by auto
    ultimately show ?thesis using t trie_rep_level [OF assms(1)] by (auto intro!: trie_repI)
  next
    case dirty: True
    show ?thesis
    proof (cases res)
      case None
      then obtain v ver where "t = PLeaf (keyBytesToHex k) v ver" using d(2) dirty by (auto simp: deleted_def)
      then have "M(k := None) = Map.empty" using t(3) by (auto simp: content_def fun_eq_iff)
      then show ?thesis using None trie_rep_level [OF assms(1)] by (simp add: trie_rep_def)
    next
      case (Some m)
      then obtain t' where "repr env db t' m" "canonical t'" "pmap t' = (pmap t)(keyBytesToHex k := None)"
        using d(2) dirty by (auto simp: deleted_def)
      then show ?thesis using Some content_upd [OF t(3) assms(2)] trie_rep_level [OF assms(1)] by (auto intro!: trie_repI)
    qed
  qed
  then show ?thesis using d(1) Some by (simp add: trie_delete_def Let_def)
qed

lemma update_map:
  assumes "trie_rep env db tr M" "length k < 2 ^ 30" "sized v" "2 * length k + 1 < fuel"
  shows "\<exists>tr'. trie_update fuel env db tr k v ver = Some (None, tr') \<and> trie_rep env db tr' (map_update k v ver M)"
proof (cases "v = []")
  case True
  then show ?thesis using delete_map [OF assms(1,2,4)] by (simp add: trie_update_def map_update_def)
next
  case v: False
  have hex: "sized (keyBytesToHex k)" using assms(2) by (simp add: sized_def length_keyBytesToHex)
  show ?thesis
  proof (cases "root tr")
    case None
    let ?tr = "tr\<lparr>root := Some (newLeafNode \<lparr>td_Key = keyBytesToHex k, td_Value = Some v, td_Version = ver\<rparr>)\<rparr>"
    have "trie_rep env db ?tr [k \<mapsto> (v, ver)]"
      using v assms(3) hex trie_rep_level [OF assms(1)] by (intro trie_repI [OF newLeafNode_repr _ content_leaf [OF assms(2)]]) simp_all
    then show ?thesis using None v assms(1) by (simp add: trie_update_def map_update_def trie_rep_def)
  next
    case (Some n)
    obtain t where t: "repr env db t n" "canonical t" "content t M" using trie_rep_Some [OF assms(1) Some] .
    obtain res hs n' where i: "node_insert fuel env db n \<lparr>td_Key = keyBytesToHex k, td_Value = Some v, td_Version = ver\<rparr> = Some (Inr (res, hs), n')"
      "inserted env db t (keyBytesToHex k) v ver res n' n"
      using insert_repr [OF t(1,2) v assms(3) hex content_keys [OF t(3) assms(2)]] assms(4) by (metis length_keyBytesToHex)
    have M: "pmap t (keyBytesToHex k) = M k" using t(3) by (simp add: content_def)
    show ?thesis
    proof (cases res)
      case None
      then have "map_update k v ver M = M" "repr env db t n'" using i(2) v M by (auto simp: inserted_def map_update_def)
      then have "trie_rep env db ((remember_root tr n)\<lparr>root := Some n'\<rparr>) (map_update k v ver M)"
        using t trie_rep_level [OF assms(1)] by (auto intro!: trie_repI)
      then show ?thesis using None v i(1) Some by (simp add: trie_update_def Let_def)
    next
      case res: (Some m)
      then obtain t' where t': "repr env db t' m" "canonical t'" "pmap t' = (pmap t)(keyBytesToHex k \<mapsto> (v, ver))"
        and new: "\<forall>ver'. M k \<noteq> Some (v, ver')" using i(2) M by (auto simp: inserted_def)
      have "map_update k v ver M = M(k \<mapsto> (v, ver))" using new v by (auto simp: map_update_def)
      then have "trie_rep env db ((remember_root tr n)\<lparr>root := Some m, oldHashes := oldHashes (remember_root tr n) @ hs\<rparr>) (map_update k v ver M)"
        using t' content_upd [OF t(3) assms(2) t'(3)] trie_rep_level [OF assms(1)] by (auto intro!: trie_repI)
      then show ?thesis using res v i(1) Some by (simp add: trie_update_def Let_def)
    qed
  qed
qed

text \<open>The root hash is that of the tree.\<close>

lemma rootHash_map:
  assumes "distinct order" "set order = {..<nrOfChildren}" "trie_rep env db tr M"
  shows "\<exists>h tr'. RootHash env order tr = (Inr h, tr') \<and> hash_for env M h \<and> trie_rep env db tr' M"
proof (cases "root tr")
  case None
  then show ?thesis using assms(3) by (auto simp: RootHash_def getRootHash_def trie_rep_def hash_for_def)
next
  case (Some n)
  obtain t where t: "repr env db t n" "canonical t" "content t M" using trie_rep_Some [OF assms(3) Some] .
  have "\<exists>tr'. RootHash env order tr = (Inr (phash env t), tr') \<and> trie_rep env db tr' M"
  proof (cases "getHash n")
    case (Some h)
    then show ?thesis using t \<open>root tr = Some n\<close> assms(3) hash_repr [OF t(1)] by (simp add: RootHash_def getRootHash_def)
  next
    case None
    then show ?thesis using setRootHash_repr [OF assms(1,2) t(1,2)] \<open>root tr = Some n\<close> t trie_rep_level [OF assms(3)]
      by (auto simp: RootHash_def getRootHash_def hashes_to_def intro!: trie_repI)
  qed
  moreover have "hash_for env M (phash env t)" using t content_not_empty unfolding hash_for_def by auto
  ultimately show ?thesis by blast
qed

end

section \<open>Commit and recreate\<close>

context node_codec
begin

lemma recreate_map:
  assumes "canonical t" "content t M" "stored env db t" "maxTrieLevelInMemory tr \<noteq> 0"
  shows "\<exists>tr'. recreate env db tr (phash env t) = Inr tr' \<and> trie_rep env db tr' M"
proof -
  let ?b = "clean_base\<lparr>node_hash := Some (phash env t)\<rparr>"
  have "setGivenHash (pnode env t clean_base) (phash env t) = pnode env t ?b"
    by (cases t) (simp_all add: setGivenHash_def pnode_def)
  moreover have "getNodeFromDBAndDecode env db (phash env t) = Inr (pnode env t clean_base)"
    using decode_pnode [OF assms(1)] stored_db [OF assms(3)] by (simp add: getNodeFromDBAndDecode_def)
  moreover have "\<not> IsEmptyTrie (phash env t)" using hash_not_reserved by (simp add: IsEmptyTrie_def phash_def hash_nonempty)
  moreover have "repr env db t (pnode env t ?b)" by (rule repr_pnode [OF assms(1,3)]) simp
  ultimately show ?thesis using assms by (auto simp: recreate_def recreateFromDb_def NewTrie_def intro!: trie_repI)
qed

end

lemma trie_rep_mono:
  assumes "extends env U db db'" "in_use env U M" "trie_rep env db tr M"
  shows "trie_rep env db' tr M"
proof (cases "root tr")
  case None
  then show ?thesis using assms(3) by (simp add: trie_rep_def)
next
  case (Some n)
  obtain t where t: "repr env db t n" "canonical t" "content t M" using trie_rep_Some [OF assms(3) Some] .
  then have "repr env db' t n" using repr_mono [OF assms(1)] assms(2) by (simp add: in_use_def)
  then show ?thesis using t Some trie_rep_level [OF assms(3)] by (auto intro: trie_repI)
qed

context trie_db
begin

lemma commit_map:
  assumes "distinct order" "set order = {..<nrOfChildren}" "trie_rep env (st_Get S d) tr M" "in_use env U M"
  shows "\<exists>tr' d'. Commit env S order tr d = (None, tr', d') \<and> trie_rep env (st_Get S d') tr' M \<and>
    extends env U (st_Get S d) (st_Get S d') \<and> (\<forall>t. canonical t \<longrightarrow> content t M \<longrightarrow> stored env (st_Get S d') t)"
proof (cases "root tr")
  case None
  then have "M = Map.empty" using assms(3) by (simp add: trie_rep_def)
  then show ?thesis using None assms(3) content_not_empty by (auto simp: Commit_def)
next
  case (Some n)
  obtain t where t: "repr env (st_Get S d) t n" "canonical t" "content t M" using trie_rep_Some [OF assms(3) Some] .
  have only: "u = t" if "canonical u" "content u M" for u using content_unique t that by blast
  have tracked: "tracked env U t" using assms(4) t by (simp add: in_use_def)
  show ?thesis
  proof (cases "isDirty n")
    case False
    then show ?thesis using commit_clean(2) [OF t(1)] Some assms(3) only by (auto simp: Commit_def)
  next
    case True
    obtain n1 where n1: "setRootHash env order n = (None, n1)" "repr env (st_Get S d) t n1" "getHash n1 \<noteq> None"
      using setRootHash_repr [OF assms(1,2) t(1,2)] by (auto simp: hashes_to_def)
    obtain n' d' where c: "commitDirty env S n1 0 (maxTrieLevelInMemory tr) d = (None, n', d')" "repr env (st_Get S d') t n'"
      "\<not> isDirty n'" "extends env U (st_Get S d) (st_Get S d')"
      using commit_repr [OF n1(2) t(2) tracked n1(3), of 0 "maxTrieLevelInMemory tr"] unfolding commits_to_def by blast
    have "stored env (st_Get S d') t" using commit_clean(2) [OF c(2,3)] .
    moreover have "trie_rep env (st_Get S d') (tr\<lparr>oldRoot := Some [], oldHashes := [], root := Some n'\<rparr>) M"
      using c(2) t trie_rep_level [OF assms(3)] by (auto intro!: trie_repI)
    ultimately show ?thesis using True Some n1(1) c(1,4) only by (auto simp: Commit_def Let_def)
  qed
qed

lemma commit_recreate:
  assumes "distinct order" "set order = {..<nrOfChildren}" "trie_rep env (st_Get S d) tr M" "in_use env U M" "hash_for env M h"
  shows "\<exists>tr' d' tr''. Commit env S order tr d = (None, tr', d') \<and> recreate env (st_Get S d') tr' h = Inr tr'' \<and>
    trie_rep env (st_Get S d') tr' M \<and> trie_rep env (st_Get S d') tr'' M \<and>
    (\<forall>tr0 M0. in_use env U M0 \<longrightarrow> trie_rep env (st_Get S d) tr0 M0 \<longrightarrow> trie_rep env (st_Get S d') tr0 M0)"
proof -
  obtain tr' d' where c: "Commit env S order tr d = (None, tr', d')" "trie_rep env (st_Get S d') tr' M"
    "extends env U (st_Get S d) (st_Get S d')" "\<forall>t. canonical t \<longrightarrow> content t M \<longrightarrow> stored env (st_Get S d') t"
    using commit_map [OF assms(1-4)] by blast
  have "\<exists>tr''. recreate env (st_Get S d') tr' h = Inr tr'' \<and> trie_rep env (st_Get S d') tr'' M"
  proof (cases "M = Map.empty")
    case True
    then show ?thesis using assms(5) trie_rep_level [OF c(2)]
      by (auto simp: hash_for_def recreate_def IsEmptyTrie_def NewTrie_def trie_rep_def)
  next
    case False
    then show ?thesis using assms(5) recreate_map [OF _ _ _ trie_rep_level [OF c(2)]] c(4) by (auto simp: hash_for_def)
  qed
  then show ?thesis using c trie_rep_mono [OF c(3)] by blast
qed

end

section \<open>Proofs\<close>

context node_codec
begin

lemma verify_path:
  assumes "canonical t" "content t M" "M k \<noteq> None"
  shows "VerifyProof env (phash env t) k (map Some (ppath env t (keyBytesToHex k))) = Inr True"
proof -
  obtain ok where "verifyProof env (phash env t) (Compute env k) (map Some (ppath env t (keyBytesToHex k))) = Inr ok"
    using verify_no_error [OF ppath_encodings [OF assms(1)] hex_nibbles] unfolding verifyProof_def by blast
  moreover have "verifyProof env (phash env t) k (map Some (ppath env t (keyBytesToHex k))) = Inr True"
    using verify_ppath [OF assms(1) _ hex_nibbles] assms(2,3) by (simp add: verifyProof_def content_def)
  ultimately show ?thesis by (simp add: VerifyProof_def)
qed

lemma proof_map:
  assumes "distinct order" "set order = {..<nrOfChildren}" "trie_rep env db tr M" "2 * length k + 1 < fuel"
  shows "\<exists>r tr'. GetProof fuel env db order tr k = Some (r, tr') \<and> trie_rep env db tr' M \<and>
    (case M k of
       None \<Rightarrow> \<exists>e. r = Inl e
     | Some (v, ver) \<Rightarrow> \<exists>nodes. r = Inr (nodes, Some v) \<and> (\<forall>h. hash_for env M h \<longrightarrow> VerifyProof env h k (map Some nodes) = Inr True))"
proof (cases "root tr")
  case None
  then show ?thesis using assms(3) by (auto simp: GetProof_def trie_rep_def)
next
  case (Some n)
  obtain t where t: "repr env db t n" "canonical t" "content t M" using trie_rep_Some [OF assms(3) Some] .
  obtain n1 where n1: "setRootHash env order n = (None, n1)" "repr env db t n1" "getHash n1 \<noteq> None"
    using setRootHash_repr [OF assms(1,2) t(1,2)] by (auto simp: hashes_to_def)
  have M: "pmap t (keyBytesToHex k) = M k" using t(3) by (simp add: content_def)
  obtain n' e where loop: "proof_loop fuel env db n1 (keyBytesToHex k) [] =
      Some (case M k of None \<Rightarrow> Inl e | Some (v, ver) \<Rightarrow> Inr ([] @ ppath env t (keyBytesToHex k), Some v), n')" "repr env db t n'"
    using proof_loop_repr [OF n1(2) t(2) n1(3) hex_nibbles, of k fuel] assms(4) unfolding length_keyBytesToHex M by blast
  have "trie_rep env db (tr\<lparr>root := Some n'\<rparr>) M" using loop(2) t trie_rep_level [OF assms(3)] by (auto intro!: trie_repI)
  moreover have "VerifyProof env h k (map Some (ppath env t (keyBytesToHex k))) = Inr True" if "hash_for env M h" "M k \<noteq> None" for h
  proof -
    have "h = phash env t" using that(1) content_unique [OF t(2) _ t(3)] content_not_empty [OF t(2,3)] by (auto simp: hash_for_def)
    then show ?thesis using verify_path [OF t(2,3) that(2)] by simp
  qed
  ultimately show ?thesis using Some n1(1) loop(1) by (cases "M k") (auto simp: GetProof_def)
qed

end

context node_hashing
begin

lemma sound_map:
  assumes "hash_for env M h" "in_use env U M" "\<forall>e. Some e \<in> set nodes \<longrightarrow> e \<in> U" "VerifyProof env h k nodes = Inr True"
  shows "M k \<noteq> None \<or> M (Compute env k) \<noteq> None"
proof (cases "M = Map.empty")
  case True
  then have "verifyProof env h k' nodes = Inr False" for k'
    using assms(1) hash_not_reserved unfolding verifyProof_def hash_for_def by (cases nodes; cases "hd nodes") (auto simp: eq_commute [of EmptyTrieHash])
  then show ?thesis using assms(4) by (simp add: VerifyProof_def)
next
  case False
  then obtain t where t: "canonical t" "content t M" "h = phash env t" using assms(1) by (auto simp: hash_for_def)
  have "tracked env U t" using assms(2) t by (simp add: in_use_def)
  then have "M k' \<noteq> None" if "verifyProof env h k' nodes = Inr True" for k'
    using verify_sound [OF t(1) _ assms(3), of "keyBytesToHex k'"] that t(2,3) by (simp add: verifyProof_def content_def)
  then show ?thesis using assms(4) by (auto simp: VerifyProof_def split: sum.splits if_splits)
qed

lemma pnode_same: "canonical t \<Longrightarrow> canonical u \<Longrightarrow> tracked env U t \<Longrightarrow> tracked env U u \<Longrightarrow> phash env t = phash env u \<Longrightarrow>
   pnode env t clean_base = pnode env u clean_base"
proof -
  assume "canonical t" "canonical u" "tracked env U t" "tracked env U u" "phash env t = phash env u"
  then have "penc env t = penc env u" using collision_free tracked_enc by (simp add: phash_def)
  then show ?thesis using decode_pnode [OF \<open>canonical t\<close>] decode_pnode [OF \<open>canonical u\<close>] by simp
qed

lemma phash_inject:
  "canonical t \<Longrightarrow> canonical u \<Longrightarrow> tracked env U t \<Longrightarrow> tracked env U u \<Longrightarrow> phash env t = phash env u \<Longrightarrow> t = u"
proof (induction t arbitrary: u)
  case (PLeaf k v ver)
  have "ucast ver = (ucast ver' :: u32) \<longleftrightarrow> ver = ver'" for ver' :: u8 by (metis ucast_down)
  then show ?case using pnode_same [OF PLeaf.prems] by (cases u) (auto simp: pnode_def pl_node_def)
next
  case (PExt p t)
  then obtain t' where u: "u = PExt p t'" "phash env t = phash env t'" using pnode_same [OF PExt.prems] by (cases u) (auto simp: pnode_def pe_node_def)
  then show ?case using PExt.IH [of t'] PExt.prems by auto
next
  case (PBranch f)
  then obtain g where u: "u = PBranch g" "branch_node env f = branch_node env g" using pnode_same [OF PBranch.prems] by (cases u) (auto simp: pnode_def)
  have "f i = g i" for i
  proof (cases "i < nrOfChildren")
    case True
    have "EncodedChildren (branch_node env f) ! i = EncodedChildren (branch_node env g) ! i" using u(2) by simp
    then have hashes: "(case f i of None \<Rightarrow> [] | Some t \<Rightarrow> phash env t) = (case g i of None \<Rightarrow> [] | Some t \<Rightarrow> phash env t)"
      using True by (simp add: branch_node_def pb_node_def split: option.splits)
    show ?thesis
    proof (cases "f i")
      case None
      then show ?thesis using hashes by (cases "g i") auto
    next
      case (Some t)
      then obtain t' where g: "g i = Some t'" "phash env t = phash env t'" using hashes by (cases "g i") auto
      moreover have "t = t'"
        by (rule PBranch.IH [OF rangeI, of t i]) (use Some g PBranch.prems u(1) in auto)
      ultimately show ?thesis using Some by simp
    qed
  next
    case False
    then show ?thesis using PBranch.prems(1,2) u(1) by (metis canonical_PBranch)
  qed
  then show ?case using u(1) by auto
qed

lemma hash_for_inject:
  assumes "hash_for env M h" "hash_for env M' h" "in_use env U M" "in_use env U M'"
  shows "M = M'"
proof (cases "M = Map.empty \<or> M' = Map.empty")
  case True
  then show ?thesis using assms(1,2) not_sym [OF hash_not_reserved] by (auto simp: hash_for_def phash_def split: if_splits)
next
  case False
  then obtain t u where t: "canonical t" "content t M" "h = phash env t" and u: "canonical u" "content u M'" "h = phash env u"
    using assms(1,2) by (auto simp: hash_for_def)
  then have "t = u" using phash_inject assms(3,4) by (simp add: in_use_def)
  then show ?thesis using t(2) u(2) by (simp add: content_def)
qed

end

end
