(* ===== verification/Trie_Props.thy ===== *)
theory Trie_Props
  imports Trie_Map
begin

text \<open>
  The properties of the trie over its wire format: \<open>proto_env hash\<close> is the marshaller with the hasher \<open>hash\<close>,
  \<open>tsm_storer main\<close> the storage manager on top of the storer \<open>main\<close>. Fuel above the number of nibbles of the key
  is always enough. The last section shows what a failed deletion leaves behind.
\<close>

section \<open>Histories\<close>

text \<open>A list of updates, stopped by the first error; an empty value deletes.\<close>

type_synonym trie_write = "bytes \<times> bytes \<times> u8"

fun update_all ::
  "nat \<Rightarrow> trie_env \<Rightarrow> db_get \<Rightarrow> trie_write list \<Rightarrow> patriciaMerkleTrie \<Rightarrow> (trie_error option \<times> patriciaMerkleTrie) option" where
  "update_all fuel env db [] tr = Some (None, tr)"
| "update_all fuel env db ((k, v, ver) # ws) tr =
     (case UpdateWithVersion fuel env db tr k v ver of
        None \<Rightarrow> None
      | Some (Some e, tr) \<Rightarrow> Some (Some e, tr)
      | Some (None, tr) \<Rightarrow> update_all fuel env db ws tr)"

definition map_of_writes :: "trie_write list \<Rightarrow> trie_map" where
  "map_of_writes ws = foldl (\<lambda>M (k, v, ver). map_update k v ver M) Map.empty ws"

definition write_fits :: "nat \<Rightarrow> trie_write \<Rightarrow> bool" where
  "write_fits fuel w \<longleftrightarrow> (case w of (k, v, ver) \<Rightarrow> length k < 2 ^ 30 \<and> sized v \<and> 2 * length k + 1 < fuel)"

text \<open>An order in which the goroutines that hash the children of the root can end.\<close>

definition goroutine_order :: "nat list \<Rightarrow> bool" where
  "goroutine_order order \<longleftrightarrow> distinct order \<and> set order = {..<nrOfChildren}"

lemma trie_rep_new: "NewTrie lvl = Inr tr \<Longrightarrow> trie_rep env db tr Map.empty"
  by (auto simp: NewTrie_def trie_rep_def split: if_splits)

context node_codec
begin

lemma update_all_map:
  "trie_rep env db tr M \<Longrightarrow> list_all (write_fits fuel) ws \<Longrightarrow>
   \<exists>tr'. update_all fuel env db ws tr = Some (None, tr') \<and>
     trie_rep env db tr' (foldl (\<lambda>M (k, v, ver). map_update k v ver M) M ws)"
proof (induction ws arbitrary: tr M)
  case (Cons w ws)
  obtain k v ver where w: "w = (k, v, ver)" by (cases w)
  obtain tr' where "UpdateWithVersion fuel env db tr k v ver = Some (None, tr')" "trie_rep env db tr' (map_update k v ver M)"
    using update_map [OF Cons.prems(1)] Cons.prems(2) w by (fastforce simp: write_fits_def UpdateWithVersion_def)
  then show ?case using Cons.IH [of tr'] Cons.prems(2) w by simp
qed simp

lemma history_rep:
  assumes "NewTrie lvl = Inr tr0" "list_all (write_fits fuel) ws"
  shows "\<exists>tr. update_all fuel env db ws tr0 = Some (None, tr) \<and> trie_rep env db tr (map_of_writes ws)"
  using update_all_map [OF trie_rep_new [OF assms(1)] assms(2)] by (simp add: map_of_writes_def)

end

section \<open>A trie with two keys\<close>

definition two_keys :: trie_map where
  "two_keys = [[0x12] \<mapsto> ([5], 0), [0x13] \<mapsto> ([6, 7], 0)]"

definition two_writes :: "trie_write list" where
  "two_writes = [([0x13], [1], 0), ([0x12], [5], 0), ([0x13], [6, 7], 0)]"

lemma two_writes_map: "map_of_writes two_writes = two_keys"
  by (simp add: map_of_writes_def two_writes_def two_keys_def map_update_def fun_eq_iff)

lemma two_writes_fit: "list_all (write_fits 10) two_writes"
  by (simp add: two_writes_def write_fits_def sized_def)

definition up_to_16 :: "nat list" where
  "up_to_16 = [0..<nrOfChildren]"

lemma up_to_16_order: "goroutine_order up_to_16" "goroutine_order (rev up_to_16)"
  by (auto simp: goroutine_order_def up_to_16_def)

lemma NewTrie_5: "NewTrie 5 = Inr \<lparr>root = None, oldHashes = [], oldRoot = Some [], maxTrieLevelInMemory = 5\<rparr>"
  by (simp add: NewTrie_def)

lemma two_keys_rep: "\<exists>tr. trie_rep (proto_env long_hash) db tr two_keys"
proof -
  obtain h where "long_hash = hash_of h" using hasher_cases [OF hasher_ok_long inj_on_long] by metis
  then show ?thesis using pb.history_rep [of 5, OF NewTrie_5 two_writes_fit] two_writes_map by metis
qed

section \<open>Reading and writing\<close>

text \<open>C9: An update of a trie that holds the map \<open>M\<close> gives a trie that holds \<open>M\<close> with the key bound to the
  value and version; an empty value removes the key, and a value that the key has already changes
  nothing. The update returns and gives no error, whichever nodes are in memory.\<close>

theorem trie_refines_map:
  assumes "hasher_ok hash" "trie_rep (proto_env hash) db tr M" "length k < 2 ^ 30" "sized v" "2 * length k + 1 < fuel"
  shows "\<exists>tr'. UpdateWithVersion fuel (proto_env hash) db tr k v ver = Some (None, tr') \<and>
    trie_rep (proto_env hash) db tr' (map_update k v ver M)"
proof -
  obtain h where h: "hash = hash_of h" using hasher_cases [OF assms(1) inj_on_empty] by metis
  show ?thesis using pb.update_map [OF assms(2-5) [unfolded h]] unfolding h UpdateWithVersion_def .
qed

theorem trie_refines_map_witness:
  "\<exists>tr tr'. trie_rep (proto_env long_hash) (\<lambda>_. Inl ErrKeyNotFound) tr two_keys \<and>
     UpdateWithVersion 10 (proto_env long_hash) (\<lambda>_. Inl ErrKeyNotFound) tr [0x12] [] 0 = Some (None, tr') \<and>
     trie_rep (proto_env long_hash) (\<lambda>_. Inl ErrKeyNotFound) tr' [[0x13] \<mapsto> ([6, 7], 0)]"
proof -
  obtain tr where tr: "trie_rep (proto_env long_hash) (\<lambda>_. Inl ErrKeyNotFound) tr two_keys" using two_keys_rep by blast
  have "map_update [0x12] [] 0 two_keys = [[0x13] \<mapsto> ([6, 7], 0)]" by (simp add: map_update_def two_keys_def fun_eq_iff)
  then show ?thesis using trie_refines_map [OF hasher_ok_long tr, of "[0x12]" "[]" 10 0] tr by (auto simp: sized_def)
qed

text \<open>C14: A lookup in a trie that holds the map \<open>M\<close> returns, without an error, the value and the version of
  the key in \<open>M\<close>, or no value when \<open>M\<close> does not have the key, and the trie still holds \<open>M\<close>.\<close>

theorem trie_lookup:
  assumes "hasher_ok hash" "trie_rep (proto_env hash) db tr M" "2 * length k + 1 < fuel"
  shows "\<exists>depth tr'. GetWithVersion fuel (proto_env hash) db tr k = Some (found (M k) depth, tr') \<and>
    trie_rep (proto_env hash) db tr' M"
proof -
  obtain h where h: "hash = hash_of h" using hasher_cases [OF assms(1) inj_on_empty] by metis
  show ?thesis using pb.get_map [OF assms(2,3) [unfolded h]] unfolding h .
qed

theorem trie_lookup_witness:
  "\<exists>tr depth tr'. GetWithVersion 10 (proto_env long_hash) (\<lambda>_. Inl ErrKeyNotFound) tr [0x13] =
     Some ((Some [6, 7], depth, 0, None), tr')"
proof -
  obtain tr where tr: "trie_rep (proto_env long_hash) (\<lambda>_. Inl ErrKeyNotFound) tr two_keys" using two_keys_rep by blast
  show ?thesis using trie_lookup [OF hasher_ok_long tr, of "[0x13]" 10] by (auto simp: two_keys_def found_def)
qed

text \<open>A deletion from a trie that holds the map \<open>M\<close> returns without an error and leaves a trie that holds
  \<open>M\<close> without the key.\<close>

theorem trie_delete_refines:
  assumes "hasher_ok hash" "trie_rep (proto_env hash) db tr M" "length k < 2 ^ 30" "2 * length k + 1 < fuel"
  shows "\<exists>tr'. Delete fuel (proto_env hash) db tr k = Some (None, tr') \<and> trie_rep (proto_env hash) db tr' (M(k := None))"
proof -
  obtain h where h: "hash = hash_of h" using hasher_cases [OF assms(1) inj_on_empty] by metis
  show ?thesis using pb.delete_map [OF assms(2-4) [unfolded h]] unfolding h Delete_def .
qed

theorem trie_delete_refines_witness:
  "\<exists>tr tr'. Delete 10 (proto_env long_hash) (\<lambda>_. Inl ErrKeyNotFound) tr [0x13] = Some (None, tr') \<and>
     trie_rep (proto_env long_hash) (\<lambda>_. Inl ErrKeyNotFound) tr' [[0x12] \<mapsto> ([5], 0)]"
proof -
  obtain tr where tr: "trie_rep (proto_env long_hash) (\<lambda>_. Inl ErrKeyNotFound) tr two_keys" using two_keys_rep by blast
  have "two_keys([0x13] := None) = [[0x12] \<mapsto> ([5], 0)]" by (simp add: two_keys_def fun_eq_iff)
  then show ?thesis using trie_delete_refines [OF hasher_ok_long tr, of "[0x13]" 10] by auto
qed

section \<open>Root hashes\<close>

text \<open>C10: Two tries that were filled by different histories of updates and deletions have the same root
  hash when the histories leave the same map, in whatever order the hashing goroutines end, and
  hashing gives no error.\<close>

theorem root_hash_history:
  assumes "hasher_ok hash" "NewTrie lvl = Inr tr1" "NewTrie lvl' = Inr tr2"
    and "list_all (write_fits fuel) ws1" "list_all (write_fits fuel) ws2" "map_of_writes ws1 = map_of_writes ws2"
    and "goroutine_order order1" "goroutine_order order2"
  shows "\<exists>tr1' tr2' h. update_all fuel (proto_env hash) db1 ws1 tr1 = Some (None, tr1') \<and>
    update_all fuel (proto_env hash) db2 ws2 tr2 = Some (None, tr2') \<and>
    fst (RootHash (proto_env hash) order1 tr1') = Inr h \<and> fst (RootHash (proto_env hash) order2 tr2') = Inr h"
proof -
  obtain h where h: "hash = hash_of h" using hasher_cases [OF assms(1) inj_on_empty] by metis
  obtain tr1' where 1: "update_all fuel (proto_env (hash_of h)) db1 ws1 tr1 = Some (None, tr1')"
    "trie_rep (proto_env (hash_of h)) db1 tr1' (map_of_writes ws1)" using pb.history_rep [OF assms(2,4)] by blast
  obtain tr2' where 2: "update_all fuel (proto_env (hash_of h)) db2 ws2 tr2 = Some (None, tr2')"
    "trie_rep (proto_env (hash_of h)) db2 tr2' (map_of_writes ws1)" using pb.history_rep [OF assms(3,5)] assms(6) by metis
  obtain x y where "fst (RootHash (proto_env (hash_of h)) order1 tr1') = Inr x" "hash_for (proto_env (hash_of h)) (map_of_writes ws1) x"
    "fst (RootHash (proto_env (hash_of h)) order2 tr2') = Inr y" "hash_for (proto_env (hash_of h)) (map_of_writes ws1) y"
    using pb.rootHash_map [OF _ _ 1(2)] pb.rootHash_map [OF _ _ 2(2)] assms(7,8) unfolding goroutine_order_def by (metis fst_conv)
  then show ?thesis using 1(1) 2(1) hash_for_unique unfolding h by metis
qed

theorem root_hash_history_witness:
  "\<exists>tr1 tr2 h.
     update_all 10 (proto_env long_hash) (\<lambda>_. Inl ErrKeyNotFound) two_writes
       \<lparr>root = None, oldHashes = [], oldRoot = Some [], maxTrieLevelInMemory = 5\<rparr> = Some (None, tr1) \<and>
     update_all 10 (proto_env long_hash) (\<lambda>_. Inl ErrKeyNotFound) [([0x12], [5], 0), ([0x14], [1], 0), ([0x13], [6, 7], 0), ([0x14], [], 0)]
       \<lparr>root = None, oldHashes = [], oldRoot = Some [], maxTrieLevelInMemory = 5\<rparr> = Some (None, tr2) \<and>
     fst (RootHash (proto_env long_hash) up_to_16 tr1) = Inr h \<and> fst (RootHash (proto_env long_hash) (rev up_to_16) tr2) = Inr h"
proof -
  let ?ws = "[([0x12], [5], 0), ([0x14], [1], 0), ([0x13], [6, 7], 0), ([0x14], [], 0)] :: trie_write list"
  have "map_of_writes two_writes = map_of_writes ?ws" unfolding two_writes_map
    by (simp add: map_of_writes_def map_update_def two_keys_def fun_eq_iff)
  moreover have "list_all (write_fits 10) ?ws" by (simp add: write_fits_def sized_def)
  ultimately show ?thesis
    using root_hash_history [OF hasher_ok_long NewTrie_5 NewTrie_5 two_writes_fit _ _ up_to_16_order, of ?ws] by blast
qed

section \<open>The trie with two keys is in use\<close>

definition two_tree :: ptree where
  "two_tree = PBranch [2 \<mapsto> PLeaf [1, 16] [5] 0, 3 \<mapsto> PLeaf [1, 16] [6, 7] 0]"

definition short :: "bytes set" where
  "short = {x. length x \<le> 2 ^ 30}"

lemma canonical_two_tree: "canonical two_tree"
  unfolding two_tree_def canonical_PBranch
  by (intro conjI exI [of _ "2 :: nat"] exI [of _ "3 :: nat"]) (auto simp: sized_def nrOfChildren_def)

lemma content_two_tree: "content two_tree two_keys"
proof -
  have hex: "keyBytesToHex [0x12] = [2, 1, 16]" "keyBytesToHex [0x13] = [3, 1, 16]"
    by (simp_all add: keyBytesToHex_conv nibbles_of_def hexTerminator_def)
  have "pmap two_tree = [[2, 1, 16] \<mapsto> ([5], 0), [3, 1, 16] \<mapsto> ([6, 7], 0)]"
  proof
    fix k show "pmap two_tree k = [[2, 1, 16] \<mapsto> ([5], 0), [3, 1, 16] \<mapsto> ([6, 7], 0)] k"
    proof (cases k)
      case (Cons x r)
      have "unat x = 2 \<longleftrightarrow> x = 2" "unat x = 3 \<longleftrightarrow> x = 3" by (simp_all add: word_unat_eq_iff)
      then show ?thesis by (auto simp: two_tree_def Cons)
    qed (simp add: two_tree_def)
  qed
  then have p: "pmap two_tree = [keyBytesToHex [0x12] \<mapsto> ([5], 0), keyBytesToHex [0x13] \<mapsto> ([6, 7], 0)]" by (simp add: hex)
  show ?thesis unfolding content_def p two_keys_def by (auto simp: fun_eq_iff split: if_splits)
qed

lemma two_keys_in_use: "in_use (proto_env long_hash) short two_keys"
proof -
  let ?env = "proto_env long_hash"
  have leaf: "length (penc ?env (PLeaf k v 0)) \<le> length k + length v + 40" for k v
    using enc_bounds(2) [of "0x0a" k] enc_bounds(2) [of "0x12" v] enc_bounds(3) [of "0x18" 0]
    by (simp add: proto_env_def ln_Marshal_conv or_empty_def pl_node_def)
  have hash: "length (phash ?env t) \<le> Suc (length (penc ?env t))" for t by (simp add: phash_def proto_env_def long_hash_def)
  let ?f = "[2 :: nat \<mapsto> PLeaf [1, 16] [5] 0, 3 \<mapsto> PLeaf [1, 16] [6, 7] 0]"
  have child: "length (case map_option (phash ?env) (?f i) of None \<Rightarrow> [] | Some h \<Rightarrow> h) \<le> 45" for i
    using leaf [of "[1, 16]" "[5]"] leaf [of "[1, 16]" "[6, 7]"] hash [of "PLeaf [1, 16] [5] 0"] hash [of "PLeaf [1, 16] [6, 7] 0"]
    by auto
  have "pversions (\<lambda>i. map_option pversion (?f i)) = []" by (auto simp: pversions_def list_all_iff)
  then have "length (penc ?env two_tree) \<le> 56 * 17 + 1"
    using concat_bound [of "map (\<lambda>i. case map_option (phash ?env) (?f i) of None \<Rightarrow> [] | Some h \<Rightarrow> h) [0..<nrOfChildren]" 45 "0x0a"] child unfolding two_tree_def penc_PBranch
    by (simp add: proto_env_def branch_node_def pb_node_def bn_Marshal_conv or_empty_def nrOfChildren_def del: upt_conv_Nil upt_rec_numeral)
  then have "tracked ?env short two_tree"
    using leaf [of "[1, 16]" "[5]"] leaf [of "[1, 16]" "[6, 7]"]
    by (auto simp: short_def two_tree_def split: if_splits simp del: penc.simps)
  then show ?thesis using content_unique [OF _ canonical_two_tree _ content_two_tree] by (auto simp: in_use_def)
qed

lemma two_keys_hash: "trie_rep (proto_env long_hash) db tr two_keys \<Longrightarrow> \<exists>r. fst (RootHash (proto_env long_hash) up_to_16 tr) = Inr r"
proof -
  obtain h where h: "long_hash = hash_of h" using hasher_cases [OF hasher_ok_long inj_on_empty] by metis
  assume "trie_rep (proto_env long_hash) db tr two_keys"
  then show ?thesis
    using pb.rootHash_map [of up_to_16 h db tr two_keys] up_to_16_order(1) unfolding goroutine_order_def h by (metis fst_conv)
qed

section \<open>What a root hash says\<close>

text \<open>C15: Two tries with the same root hash hold the same map, as long as the hasher has no collisions
  among the encoded nodes of the two.\<close>

theorem root_hash_binding:
  assumes "hasher_ok hash" "inj_on hash U" "in_use (proto_env hash) U M1" "in_use (proto_env hash) U M2"
    and "trie_rep (proto_env hash) db1 tr1 M1" "trie_rep (proto_env hash) db2 tr2 M2"
    and "goroutine_order order1" "goroutine_order order2"
    and "fst (RootHash (proto_env hash) order1 tr1) = fst (RootHash (proto_env hash) order2 tr2)"
  shows "M1 = M2"
proof -
  obtain h where h: "hash = hash_of h" "U = inputs_of h" using hasher_cases [OF assms(1,2)] by metis
  note rep = assms(3-6) [unfolded h]
  have "\<exists>x. fst (RootHash (proto_env (hash_of h)) order1 tr1) = Inr x \<and> hash_for (proto_env (hash_of h)) M1 x"
    using pb.rootHash_map [OF _ _ rep(3)] assms(7) unfolding goroutine_order_def by (metis fst_conv)
  moreover have "\<exists>y. fst (RootHash (proto_env (hash_of h)) order2 tr2) = Inr y \<and> hash_for (proto_env (hash_of h)) M2 y"
    using pb.rootHash_map [OF _ _ rep(4)] assms(8) unfolding goroutine_order_def by (metis fst_conv)
  ultimately obtain x where "hash_for (proto_env (hash_of h)) M1 x" "hash_for (proto_env (hash_of h)) M2 x"
    using assms(9) unfolding h by (metis sum.inject(2))
  then show ?thesis using pb.hash_for_inject rep(1,2) by blast
qed

theorem root_hash_binding_witness:
  "\<exists>tr. trie_rep (proto_env long_hash) (\<lambda>_. Inl ErrKeyNotFound) tr two_keys \<and>
     fst (RootHash (proto_env long_hash) up_to_16 tr) \<noteq>
     fst (RootHash (proto_env long_hash) up_to_16 \<lparr>root = None, oldHashes = [], oldRoot = Some [], maxTrieLevelInMemory = 5\<rparr>)"
proof -
  obtain tr where tr: "trie_rep (proto_env long_hash) (\<lambda>_. Inl ErrKeyNotFound) tr two_keys" using two_keys_rep by blast
  have inj: "inj_on long_hash short" using inj_on_long by (simp add: short_def)
  have none: "in_use (proto_env long_hash) short Map.empty" using content_not_empty by (auto simp: in_use_def)
  have ne: "two_keys \<noteq> Map.empty" by (rule content_not_empty [OF canonical_two_tree content_two_tree])
  show ?thesis using root_hash_binding [OF hasher_ok_long inj two_keys_in_use none tr trie_rep_new [OF NewTrie_5] up_to_16_order(1) up_to_16_order(1)] tr ne
    by metis
qed

text \<open>C11: Committing a trie gives no error, and a trie that is then created anew from the root hash and
  the storage holds the same map; so does every trie over this storage afterwards that held a map
  before. The hasher must have no collisions among the encoded nodes in use.\<close>

theorem commit_then_recreate:
  assumes "hasher_ok hash" "inj_on hash U" "main_storer_ok main" "in_use (proto_env hash) U M" "goroutine_order order"
    and "trie_rep (proto_env hash) (tsm_Get main d) tr M" "fst (RootHash (proto_env hash) order tr) = Inr r"
  shows "\<exists>tr' d' tr''. Commit (proto_env hash) (tsm_storer main) order tr d = (None, tr', d') \<and>
    recreate (proto_env hash) (tsm_Get main d') tr' r = Inr tr'' \<and>
    trie_rep (proto_env hash) (tsm_Get main d') tr' M \<and> trie_rep (proto_env hash) (tsm_Get main d') tr'' M \<and>
    (\<forall>tr0 M0. in_use (proto_env hash) U M0 \<longrightarrow> trie_rep (proto_env hash) (tsm_Get main d) tr0 M0 \<longrightarrow>
       trie_rep (proto_env hash) (tsm_Get main d') tr0 M0)"
proof -
  obtain h where h: "hash = hash_of h" "U = inputs_of h" using hasher_cases [OF assms(1,2)] by metis
  have order: "distinct order" "set order = {..<nrOfChildren}" using assms(5) by (simp_all add: goroutine_order_def)
  have get: "st_Get (tsm_storer main) = tsm_Get main" by (simp add: tsm_storer_def)
  note rep = assms(4,6,7) [unfolded h]
  have "hash_for (proto_env (hash_of h)) M r" using pb.rootHash_map [OF order rep(2)] rep(3) by auto
  then show ?thesis
    using trie_db.commit_recreate [OF tsm_trie_db [OF assms(3)] order, unfolded get, OF rep(2,1)] unfolding h by blast
qed

theorem commit_then_recreate_witness:
  "\<exists>tr r tr' d' tr''. fst (RootHash (proto_env long_hash) up_to_16 tr) = Inr r \<and>
     Commit (proto_env long_hash) (tsm_storer memDb) up_to_16 tr Map.empty = (None, tr', d') \<and>
     recreate (proto_env long_hash) (tsm_Get memDb d') tr' r = Inr tr'' \<and>
     trie_rep (proto_env long_hash) (tsm_Get memDb d') tr'' two_keys"
proof -
  obtain tr where tr: "trie_rep (proto_env long_hash) (tsm_Get memDb Map.empty) tr two_keys" using two_keys_rep by blast
  have inj: "inj_on long_hash short" using inj_on_long by (simp add: short_def)
  obtain r where r: "fst (RootHash (proto_env long_hash) up_to_16 tr) = Inr r" using two_keys_hash [OF tr] by blast
  show ?thesis using commit_then_recreate [OF hasher_ok_long inj memDb_ok two_keys_in_use up_to_16_order(1) tr r] r by blast
qed

section \<open>Merkle proofs\<close>

text \<open>C12: \<open>GetProof\<close> for a key of the map gives the value of the key and a proof that \<open>VerifyProof\<close> accepts for
  the root hash of the trie and this key; for any other key it gives an error.\<close>

theorem proof_accepted:
  assumes "hasher_ok hash" "trie_rep (proto_env hash) db tr M" "goroutine_order order" "2 * length k + 1 < fuel"
    and "fst (RootHash (proto_env hash) order tr) = Inr rootHash"
  shows "\<exists>r tr'. GetProof fuel (proto_env hash) db order tr k = Some (r, tr') \<and> trie_rep (proto_env hash) db tr' M \<and>
    (case M k of
       None \<Rightarrow> \<exists>e. r = Inl e
     | Some (v, ver) \<Rightarrow> \<exists>nodes. r = Inr (nodes, Some v) \<and> VerifyProof (proto_env hash) rootHash k (map Some nodes) = Inr True)"
proof -
  obtain h where h: "hash = hash_of h" using hasher_cases [OF assms(1) inj_on_empty] by metis
  have order: "distinct order" "set order = {..<nrOfChildren}" using assms(3) by (simp_all add: goroutine_order_def)
  have r: "hash_for (proto_env (hash_of h)) M rootHash"
    using pb.rootHash_map [OF order assms(2) [unfolded h]] assms(5) unfolding h by auto
  show ?thesis using pb.proof_map [OF order assms(2) [unfolded h] assms(4)] r unfolding h
    by (cases "M k") (auto split: prod.splits)
qed

theorem proof_accepted_witness:
  "\<exists>tr rootHash nodes tr'. GetProof 10 (proto_env long_hash) (\<lambda>_. Inl ErrKeyNotFound) up_to_16 tr [0x13] = Some (Inr (nodes, Some [6, 7]), tr') \<and>
     fst (RootHash (proto_env long_hash) up_to_16 tr) = Inr rootHash \<and>
     VerifyProof (proto_env long_hash) rootHash [0x13] (map Some nodes) = Inr True"
proof -
  obtain tr where tr: "trie_rep (proto_env long_hash) (\<lambda>_. Inl ErrKeyNotFound) tr two_keys" using two_keys_rep by blast
  obtain r where r: "fst (RootHash (proto_env long_hash) up_to_16 tr) = Inr r" using two_keys_hash [OF tr] by blast
  have "two_keys [0x13] = Some ([6, 7], 0)" by (simp add: two_keys_def)
  then show ?thesis using proof_accepted [OF hasher_ok_long tr up_to_16_order(1) _ r, of "[0x13]" 10] r by auto
qed

text \<open>C13: A list of nodes that \<open>VerifyProof\<close> accepts for a root hash and a key shows that the trie with this
  root hash has the key, or the hash of the key, as a key. The hasher must have no collisions among
  the given nodes and the encoded nodes of the trie.\<close>

theorem proof_sound:
  assumes "hasher_ok hash" "inj_on hash U" "in_use (proto_env hash) U M" "trie_rep (proto_env hash) db tr M" "goroutine_order order"
    and "fst (RootHash (proto_env hash) order tr) = Inr rootHash"
    and "\<forall>e. Some e \<in> set nodes \<longrightarrow> e \<in> U" "VerifyProof (proto_env hash) rootHash k nodes = Inr True"
  shows "M k \<noteq> None \<or> M (hash k) \<noteq> None"
proof -
  obtain h where h: "hash = hash_of h" "U = inputs_of h" using hasher_cases [OF assms(1,2)] by metis
  have order: "distinct order" "set order = {..<nrOfChildren}" using assms(5) by (simp_all add: goroutine_order_def)
  have "hash_for (proto_env (hash_of h)) M rootHash" using pb.rootHash_map [OF order assms(4) [unfolded h]] assms(6) unfolding h by auto
  then have "M k \<noteq> None \<or> M (Compute (proto_env (hash_of h)) k) \<noteq> None"
    using pb.sound_map assms(3,7,8) unfolding h by blast
  then show ?thesis unfolding h by (simp add: proto_env_def)
qed

text \<open>The proof of a key does not prove another one.\<close>

theorem proof_sound_witness:
  "\<exists>tr rootHash. fst (RootHash (proto_env long_hash) up_to_16 tr) = Inr rootHash \<and>
     VerifyProof (proto_env long_hash) rootHash [0x14] [Some (penc (proto_env long_hash) two_tree)] \<noteq> Inr True"
proof -
  obtain tr where tr: "trie_rep (proto_env long_hash) (\<lambda>_. Inl ErrKeyNotFound) tr two_keys" using two_keys_rep by blast
  have inj: "inj_on long_hash short" using inj_on_long by (simp add: short_def)
  obtain r where r: "fst (RootHash (proto_env long_hash) up_to_16 tr) = Inr r" using two_keys_hash [OF tr] by blast
  have "penc (proto_env long_hash) two_tree \<in> short"
    using two_keys_in_use canonical_two_tree content_two_tree tracked_enc by (auto simp: in_use_def)
  moreover have "two_keys [0x14] = None" "two_keys (long_hash [0x14]) = None" by (simp_all add: two_keys_def long_hash_def)
  ultimately show ?thesis
    using proof_sound [OF hasher_ok_long inj two_keys_in_use tr up_to_16_order(1) r, of "[Some (penc (proto_env long_hash) two_tree)]" "[0x14]"] r
    by auto
qed

section \<open>Hashing in parallel\<close>

text \<open>C34: For a root with a full list of children, the hashing that starts a goroutine per child ends
  without an error exactly when the sequential hashing does, and then with the same node, in whatever
  order the goroutines end.\<close>

theorem parallel_hashing:
  assumes "goroutine_order order" "\<And>bn cs b. n = BranchNode bn cs b \<Longrightarrow> length cs = nrOfChildren"
  shows "(fst (setRootHash env order n) = None \<longleftrightarrow> fst (setHash env n) = None) \<and>
    (fst (setHash env n) = None \<longrightarrow> setRootHash env order n = setHash env n)"
  using setRootHash_sequential [of order n env] assms unfolding goroutine_order_def by blast

definition two_leaves :: node where
  "two_leaves =
     BranchNode \<lparr>EncodedChildren = replicate nrOfChildren [], ChildrenVersion = []\<rparr>
       ((replicate nrOfChildren None)
          [2 := Some (newLeafNode \<lparr>td_Key = [1, 16], td_Value = Some [5], td_Version = 0\<rparr>),
           3 := Some (newLeafNode \<lparr>td_Key = [1, 16], td_Value = Some [6, 7], td_Version = 0\<rparr>)]) fresh_base"

theorem parallel_hashing_witness:
  "fst (setHash (proto_env (\<lambda>_. [1])) two_leaves) = None \<and>
   setRootHash (proto_env (\<lambda>_. [1])) (rev up_to_16) two_leaves = setHash (proto_env (\<lambda>_. [1])) two_leaves"
proof -
  have "fst (setHash (proto_env (\<lambda>_. [1])) two_leaves) = None" by code_simp
  moreover have "length cs = nrOfChildren" if "two_leaves = BranchNode bn cs b" for bn cs b using that by (auto simp: two_leaves_def)
  ultimately show ?thesis using parallel_hashing [OF up_to_16_order(2), of two_leaves "proto_env (\<lambda>_. [1])"] by blast
qed

section \<open>The wire format\<close>

text \<open>The nodes that can be encoded, and what is left of a node when it is decoded.\<close>

primrec encodable :: "node \<Rightarrow> bool" where
  "encodable (LeafNode ln b) \<longleftrightarrow> (\<exists>v. ln_Value ln = Some v \<and> v \<noteq> [] \<and> sized v) \<and> sized (ln_Key ln)"
| "encodable (ExtensionNode en c b) \<longleftrightarrow> sized (en_Key en) \<and> sized (EncodedChild en)"
| "encodable (BranchNode bn cs b) \<longleftrightarrow>
     length (EncodedChildren bn) = nrOfChildren \<and> list_all sized (EncodedChildren bn) \<and> length (ChildrenVersion bn) \<in> {0, nrOfChildren}"

primrec decoded :: "node \<Rightarrow> node" where
  "decoded (LeafNode ln b) = LeafNode ln clean_base"
| "decoded (ExtensionNode en c b) = ExtensionNode en None clean_base"
| "decoded (BranchNode bn cs b) = BranchNode bn (replicate nrOfChildren None) clean_base"

text \<open>C35: A node that is not empty and whose fields have lengths the format can carry is encoded, and
  decoding the result gives the node back, with its children collapsed to their hashes.\<close>

theorem node_wire_roundtrip:
  assumes "hasher_ok hash" "encodable n" "isEmptyOrNil n = None"
  shows "\<exists>e. getEncodedNode (proto_env hash) n = Inr e \<and> decodeNode (proto_env hash) e = Inr (decoded n)"
proof -
  obtain h where h: "hash = hash_of h" using hasher_cases [OF assms(1) inj_on_empty] by metis
  note types = extension_type_def leaf_type_def branch_type_def
  show ?thesis
  proof (cases n)
    case (LeafNode ln b)
    then obtain m where "MarshalLn (proto_env hash) ln = Inr m" "UnmarshalLn (proto_env hash) m = Inr ln"
      using pb.leaf_codec assms(2) unfolding h by fastforce
    then show ?thesis using assms(3) LeafNode by (simp add: getEncodedNode_def decodeNode_def unmarshalNode_def types)
  next
    case (ExtensionNode en c b)
    then obtain m where "MarshalEn (proto_env hash) en = Inr m" "UnmarshalEn (proto_env hash) m = Inr en"
      using pb.extension_codec assms(2) unfolding h by fastforce
    then show ?thesis using assms(3) ExtensionNode
      by (simp add: getEncodedNode_def decodeNode_def unmarshalNode_def types del: isEmptyOrNil.simps)
  next
    case (BranchNode bn cs b)
    then obtain m where "MarshalBn (proto_env hash) bn = Inr m" "UnmarshalBn (proto_env hash) m = Inr bn"
      using pb.branch_codec assms(2) unfolding h by fastforce
    then show ?thesis using assms(2,3) BranchNode
      by (auto simp: getEncodedNode_def decodeNode_def unmarshalNode_def types simp del: isEmptyOrNil.simps)
  qed
qed

theorem node_wire_roundtrip_witness:
  "\<exists>e. getEncodedNode (proto_env long_hash) two_leaves = Inr e \<and> decodeNode (proto_env long_hash) e = Inr (decoded two_leaves)"
proof (rule node_wire_roundtrip [OF hasher_ok_long])
  show "encodable two_leaves" by (simp add: two_leaves_def list_all_iff sized_def)
  show "isEmptyOrNil two_leaves = None" by (auto simp: two_leaves_def present_def nrOfChildren_def list_ex_iff intro!: bexI [of _ 3])
qed

text \<open>C40: Decoding a branch, an extension or a leaf returns on every byte string below 2^63 bytes, well formed
  or not: the loops over the fields and over the parts of an unknown field, which may be nested groups, go
  forward in every iteration, so that they never run out of the steps they have, one per byte and one more
  (\<open>ErrNotReturned\<close> stands for a loop that did not end; the code has no such error).\<close>

theorem decoding_returns:
  assumes "length d < 2 ^ 63"
  shows "bn_Unmarshal d \<noteq> Inl ErrNotReturned \<and> en_Unmarshal d \<noteq> Inl ErrNotReturned \<and> ln_Unmarshal d \<noteq> Inl ErrNotReturned"
proof -
  have "length d - 0 < Suc (length d)" by simp
  then show ?thesis unfolding bn_Unmarshal_def en_Unmarshal_def ln_Unmarshal_def
    using fields_forward [OF assms] field_loop_returns by metis
qed

theorem decoding_returns_witness:
  "bn_Unmarshal [0x1b, 0x1b, 0x0a, 0x01, 0x07, 0x1c] \<noteq> Inl ErrNotReturned \<and>
   en_Unmarshal [0x1b, 0x1b, 0x0a, 0x01, 0x07, 0x1c] \<noteq> Inl ErrNotReturned \<and>
   ln_Unmarshal [0x1b, 0x1b, 0x0a, 0x01, 0x07, 0x1c] \<noteq> Inl ErrNotReturned"
  by (rule decoding_returns) simp

section \<open>A deletion that fails\<close>

text \<open>A branch with two children: a leaf in memory at \<open>i\<close>, and one at \<open>j\<close> that is collapsed to its hash.\<close>

definition half_loaded :: "CollapsedBn \<Rightarrow> node option list \<Rightarrow> nat \<Rightarrow> CollapsedLn \<Rightarrow> nat \<Rightarrow> bool" where
  "half_loaded bn cs i ln j \<longleftrightarrow> length cs = nrOfChildren \<and> length (EncodedChildren bn) = nrOfChildren \<and>
     i < nrOfChildren \<and> (\<exists>lb. cs ! i = Some (LeafNode ln lb)) \<and> ln_Value ln \<noteq> None \<and>
     j < nrOfChildren \<and> j \<noteq> i \<and> cs ! j = None \<and> EncodedChildren bn ! j \<noteq> [] \<and>
     (\<forall>k < nrOfChildren. k \<noteq> i \<longrightarrow> k \<noteq> j \<longrightarrow> cs ! k = None \<and> EncodedChildren bn ! k = [])"

lemma half_loaded_present:
  assumes "half_loaded bn cs i ln j" "k < nrOfChildren"
  shows "present (setVersionForChild env bn v i\<lparr>EncodedChildren := (EncodedChildren bn)[i := []]\<rparr>) (cs[i := None]) k \<longleftrightarrow> k = j"
  using assms by (cases "k = i") (auto simp: half_loaded_def present_def nth_list_update)

lemma half_loaded_last:
  assumes "half_loaded bn cs i ln j"
  shows "getChildPosition (setVersionForChild env bn v i\<lparr>EncodedChildren := (EncodedChildren bn)[i := []]\<rparr>) (cs[i := None]) = (1, j)"
proof -
  let ?g = "getChildPosition (setVersionForChild env bn v i\<lparr>EncodedChildren := (EncodedChildren bn)[i := []]\<rparr>) (cs[i := None])"
  note spec = getChildPosition_spec [where f = "\<lambda>k. k = j", OF half_loaded_present [OF assms]]
  have "{k. k = j} \<inter> set [0..<nrOfChildren] = {j}" using assms by (auto simp: half_loaded_def)
  then have "fst ?g = 1" using spec(1) by (simp add: distinct_length_filter)
  then obtain pos where "?g = (Suc 0, pos)" by (cases ?g) simp
  with spec(2) show ?thesis by simp
qed

text \<open>C36: Let the root be a branch with exactly two children, of which the one under the key is a leaf with a
  value in memory and the other one is collapsed and not readable from the storage. Then the lookup of
  the key finds the value, the deletion of the key gives an error, and the key is gone from the trie all
  the same: the lookup after it finds nothing. The root keeps its dirty mark as it was, so that of a clean
  trie stays clean and a commit would not write the changed node, while its hash has been dropped.\<close>

theorem failed_delete_loses_key:
  assumes "root tr = Some (BranchNode bn cs b)" and "half_loaded bn cs (unat i) ln j"
    and "keyBytesToHex key = i # ln_Key ln" and "db (EncodedChildren bn ! j) = Inl err" and "2 \<le> fuel"
  shows "(\<exists>depth. GetWithVersion fuel env db tr key = Some ((ln_Value ln, depth, ln_Version ln, None), tr)) \<and>
    (\<exists>tr'. Delete fuel env db tr key = Some (Some GetNodeFromDBErr, tr') \<and>
      (\<exists>depth. GetWithVersion fuel env db tr' key = Some ((None, depth, 0, None), tr')) \<and>
      map_option isDirty (root tr') = Some (node_dirty b) \<and> map_option getHash (root tr') = Some None)"
proof -
  obtain f where f: "fuel = Suc (Suc f)" using assms(5) by (metis Suc_le_D numeral_2_eq_2 Suc_le_mono)
  obtain lb where lb: "cs ! unat i = Some (LeafNode ln lb)" using assms(2) by (auto simp: half_loaded_def)
  let ?pos = "unat i"
  let ?bn = "setVersionForChild env bn (NotSpecified env) ?pos\<lparr>EncodedChildren := (EncodedChildren bn)[?pos := []]\<rparr>"
  let ?n = "BranchNode ?bn (cs[?pos := None]) (b\<lparr>node_hash := None\<rparr>)"
  have h: "?pos < nrOfChildren" "j < nrOfChildren" "j \<noteq> ?pos" "cs ! j = None" "EncodedChildren bn ! j \<noteq> []"
    "length cs = nrOfChildren" "length (EncodedChildren bn) = nrOfChildren" "ln_Value ln \<noteq> None"
    using assms(2) by (simp_all add: half_loaded_def)
  have range: "\<not> childPosOutOfRange i" using h(1) by (simp add: childPosOutOfRange_def nrOfChildren_def word_le_nat_alt)
  have ne: "isEmptyOrNil (BranchNode bn cs b) = None"
    using h(1) lb by (auto simp: list_ex_iff present_def intro!: bexI [of _ ?pos])
  have ne': "isEmptyOrNil ?n = None"
    using half_loaded_present [OF assms(2) h(2), of env "NotSpecified env"] h(2) by (auto simp: list_ex_iff intro!: bexI [of _ j])
  have same: "cs[?pos := Some (LeafNode ln lb)] = cs" using lb by (metis list_update_id)
  have jw: "unat (of_nat j :: u8) = j" using h(2) by (simp add: nrOfChildren_def unat_of_nat)
  have jr: "\<not> childPosOutOfRange (of_nat j)" using h(2) jw by (simp add: childPosOutOfRange_def nrOfChildren_def word_le_nat_alt)
  have before: "\<exists>depth. GetWithVersion fuel env db tr key = Some ((ln_Value ln, depth, ln_Version ln, None), tr)"
    using assms(1,3) range ne lb same h(8)
    by (simp add: GetWithVersion_def f bn_tryGetWithVersion_def resolveIfCollapsed_def leaf_tryGetWithVersion_def Let_def del: isEmptyOrNil.simps(3))
  have set: "bn_setNewChild env (BranchNode bn cs b) i None = (None, ?n)"
    by (simp add: bn_setNewChild_def Let_def)
  have "resolveIfCollapsed env db ?n (of_nat j) = (Some GetNodeFromDBErr, ?n)"
    using ne' jw jr h assms(4)
    by (simp add: resolveIfCollapsed_def resolveCollapsed_def load_def getNodeFromDBAndDecode_def del: isEmptyOrNil.simps(3))
  then have "bn_reduce_or_keep env db ?n old = (Inl GetNodeFromDBErr, ?n)" for old
    by (simp add: bn_reduce_or_keep_def half_loaded_last [OF assms(2)] Let_def)
  then have delete: "Delete fuel env db tr key = Some (Some GetNodeFromDBErr, (remember_root tr (BranchNode bn cs b))\<lparr>root := Some ?n\<rparr>)"
    using assms(1,3) range ne lb same set
    by (simp add: Delete_def trie_delete_def f bn_delete_def resolveIfCollapsed_def leaf_delete_def Let_def del: isEmptyOrNil.simps(3))
  have "GetWithVersion fuel env db ((remember_root tr (BranchNode bn cs b))\<lparr>root := Some ?n\<rparr>) key =
      Some ((None, rootDepthLevel, 0, None), (remember_root tr (BranchNode bn cs b))\<lparr>root := Some ?n\<rparr>)"
    using assms(3) range ne' h
    by (simp add: GetWithVersion_def f bn_tryGetWithVersion_def resolveIfCollapsed_def Let_def del: isEmptyOrNil.simps(3))
  with before delete show ?thesis by (simp add: isDirty_def getHash_def)
qed

definition half_loaded_bn :: CollapsedBn where
  "half_loaded_bn = \<lparr>EncodedChildren = (replicate 17 [])[2 := [20], 3 := [21]], ChildrenVersion = []\<rparr>"

definition half_loaded_leaf :: CollapsedLn where
  "half_loaded_leaf = \<lparr>ln_Key = [1, 16], ln_Value = Some [5], ln_Version = 0\<rparr>"

definition half_loaded_trie :: patriciaMerkleTrie where
  "half_loaded_trie =
     \<lparr>root = Some (BranchNode half_loaded_bn
        ((replicate 17 None)[2 := Some (LeafNode half_loaded_leaf \<lparr>node_hash = Some [20], node_dirty = False\<rparr>)])
        \<lparr>node_hash = Some [22], node_dirty = False\<rparr>),
      oldHashes = [], oldRoot = Some [], maxTrieLevelInMemory = 5\<rparr>"

theorem failed_delete_loses_key_witness:
  "\<exists>tr'. Delete 5 (proto_env long_hash) (\<lambda>_. Inl ErrKeyNotFound) half_loaded_trie [0x12] = Some (Some GetNodeFromDBErr, tr') \<and>
     map_option isDirty (root tr') = Some False"
proof -
  let ?leaf = "Some (LeafNode half_loaded_leaf \<lparr>node_hash = Some [20], node_dirty = False\<rparr>)"
  have "half_loaded half_loaded_bn ((replicate 17 None)[2 := ?leaf]) (unat (2 :: u8)) half_loaded_leaf 3"
    by (auto simp: half_loaded_def half_loaded_bn_def half_loaded_leaf_def nrOfChildren_def nth_list_update)
  moreover have "keyBytesToHex [0x12] = 2 # ln_Key half_loaded_leaf" by code_simp
  ultimately show ?thesis
    using failed_delete_loses_key [of half_loaded_trie half_loaded_bn "(replicate 17 None)[2 := ?leaf]"
        "\<lparr>node_hash = Some [22], node_dirty = False\<rparr>" 2 half_loaded_leaf 3 "[0x12]" "\<lambda>_. Inl ErrKeyNotFound" ErrKeyNotFound 5
        "proto_env long_hash"]
    by (simp add: half_loaded_trie_def) blast
qed

end
