(* ===== verification/Shard_Coordinator.thy ===== *)
theory Shard_Coordinator
  imports Prelude
begin

unbundle bit_operations_syntax

text \<open>
  The assignment of addresses to shards, \<open>sharding/multiShardCoordinator.go\<close>. What the file takes from the
  core module is the record \<open>core_consts\<close>: the identifier of the metachain and the recognition of empty
  addresses and of contracts on the metachain. The number of bits is computed in the code with a
  floating point logarithm, which is exact for 32-bit numbers; \<open>negOne\<close> is what the conversion of \<open>-1.0\<close> to an
  unsigned integer gives, which Go leaves to the implementation.
\<close>

section \<open>The coordinator\<close>

record core_consts =
  MetachainShardId :: u32
  IsEmptyAddress :: "bytes \<Rightarrow> bool"
  IsSmartContractOnMetachain :: "bytes \<Rightarrow> bytes \<Rightarrow> bool"

record multiShardCoordinator =
  maskHigh :: u32
  maskLow :: u32
  msc_selfId :: u32
  numberOfShards :: u32

datatype sharding_error = ErrInvalidNumberOfShards | ErrInvalidShardId

fun ceil_log2 :: "nat \<Rightarrow> nat" where
  "ceil_log2 n = (if n \<le> 1 then 0 else Suc (ceil_log2 ((n + 1) div 2)))"

declare ceil_log2.simps [simp del]

definition calculateMasks :: "nat \<Rightarrow> u32 \<Rightarrow> u32 \<times> u32" where
  "calculateMasks negOne shards =
     (let n = ceil_log2 (unat shards)
      in (push_bit n 1 - 1, push_bit (if n = 0 then negOne else n - 1) 1 - 1))"

definition NewMultiShardCoordinator :: "core_consts \<Rightarrow> nat \<Rightarrow> u32 \<Rightarrow> u32 \<Rightarrow> sharding_error + multiShardCoordinator" where
  "NewMultiShardCoordinator core negOne shards selfId =
     (if shards < 1 then Inl ErrInvalidNumberOfShards
      else if selfId \<ge> shards \<and> selfId \<noteq> MetachainShardId core then Inl ErrInvalidShardId
      else let (high, low) = calculateMasks negOne shards
           in Inr \<lparr>maskHigh = high, maskLow = low, msc_selfId = selfId, numberOfShards = shards\<rparr>)"

definition bytesNeed :: "u32 \<Rightarrow> nat" where
  "bytesNeed shards = (if shards \<le> 256 then 1 else if shards \<le> 65536 then 2 else if shards \<le> 16777216 then 3 else 4)"

definition addr_number :: "bytes \<Rightarrow> u32" where
  "addr_number buffNeeded = foldl (\<lambda>addr b. push_bit 8 addr + ucast b) 0 buffNeeded"

definition ComputeIdFromBytes :: "core_consts \<Rightarrow> multiShardCoordinator \<Rightarrow> bytes \<Rightarrow> u32" where
  "ComputeIdFromBytes core msc address =
     (if IsEmptyAddress core address then msc_selfId msc
      else let need = bytesNeed (numberOfShards msc);
               startingIndex = (if length address > need then length address - need else 0);
               buffNeeded = drop startingIndex address
           in if IsSmartContractOnMetachain core buffNeeded address then MetachainShardId core
              else let addr = addr_number buffNeeded; shard = addr AND maskHigh msc
                   in if shard > numberOfShards msc - 1 then addr AND maskLow msc else shard)"

definition ComputeId :: "core_consts \<Rightarrow> multiShardCoordinator \<Rightarrow> bytes \<Rightarrow> u32" where
  "ComputeId core msc address = ComputeIdFromBytes core msc address"

definition SameShard :: "core_consts \<Rightarrow> multiShardCoordinator \<Rightarrow> bytes \<Rightarrow> bytes \<Rightarrow> bool" where
  "SameShard core msc firstAddress secondAddress \<longleftrightarrow>
     IsEmptyAddress core firstAddress \<or> IsEmptyAddress core secondAddress \<or> firstAddress = secondAddress \<or>
     ComputeId core msc firstAddress = ComputeId core msc secondAddress"

section \<open>Masks\<close>

lemma ceil_log2_upper: "n \<le> 2 ^ ceil_log2 n"
proof (induction n rule: ceil_log2.induct)
  case (1 n)
  then show ?case
  proof (cases "n \<le> 1")
    case False
    then have "n \<le> 2 * ((n + 1) div 2)" by linarith
    also have "\<dots> \<le> 2 ^ ceil_log2 n" using 1 False by (subst ceil_log2.simps) simp
    finally show ?thesis .
  qed (simp add: ceil_log2.simps)
qed

lemma ceil_log2_lower: "ceil_log2 n = Suc k \<Longrightarrow> 2 ^ k < n"
proof (induction n arbitrary: k rule: ceil_log2.induct)
  case (1 n)
  have n: "\<not> n \<le> 1" using "1.prems" by (auto simp: ceil_log2.simps [of n])
  then have k: "ceil_log2 ((n + 1) div 2) = k" using "1.prems" by (subst (asm) ceil_log2.simps) simp
  show ?case
  proof (cases k)
    case (Suc k')
    then have "2 ^ k' < (n + 1) div 2" using "1.IH" [OF n] k by simp
    then show ?thesis using Suc by simp
  qed (use n in simp)
qed

lemma ceil_log2_least: "n \<le> 2 ^ k \<Longrightarrow> ceil_log2 n \<le> k"
proof (rule ccontr)
  assume "n \<le> 2 ^ k" "\<not> ceil_log2 n \<le> k"
  then obtain j where j: "ceil_log2 n = Suc j" "k \<le> j" by (cases "ceil_log2 n") auto
  then have "(2 :: nat) ^ k \<le> 2 ^ j" by (simp add: power_increasing)
  then show False using ceil_log2_lower [OF j(1)] \<open>n \<le> 2 ^ k\<close> by linarith
qed

lemma mask_AND: "x AND (push_bit n 1 - 1) = take_bit n x" for x :: u32
  by (simp add: push_bit_eq_mult take_bit_eq_mask mask_eq_exp_minus_1)

lemma take_bit_less: "unat (take_bit n x) < 2 ^ n" for x :: u32
  by (simp add: unsigned_take_bit_eq)

lemma above_last: "0 < shards \<Longrightarrow> x > shards - 1 \<longleftrightarrow> \<not> x < shards" for x shards :: u32
proof -
  assume "0 < shards"
  then have "unat (shards - 1) = unat shards - 1" "0 < unat shards"
    using unat_minus_one [of shards] by (auto simp: word_gt_0 unat_gt_0)
  then show ?thesis unfolding word_less_nat_alt by linarith
qed

lemma shard_in_range:
  fixes shards :: u32
  assumes "0 < shards" "(high, low) = calculateMasks negOne shards"
  shows "(if addr AND high > shards - 1 then addr AND low else addr AND high) < shards"
proof -
  let ?n = "ceil_log2 (unat shards)"
  note pred = above_last [OF assms(1)]
  have high: "high = push_bit ?n 1 - 1" and low: "low = push_bit (if ?n = 0 then negOne else ?n - 1) 1 - 1"
    using assms(2) by (simp_all add: calculateMasks_def Let_def)
  show ?thesis
  proof (cases "addr AND high < shards")
    case False
    have "unat (addr AND high) < 2 ^ ?n" unfolding high mask_AND by (rule take_bit_less)
    then have "?n \<noteq> 0" using False assms(1) by (intro notI) (simp add: word_less_nat_alt)
    then obtain k where k: "?n = Suc k" by (cases ?n) auto
    have "unat (addr AND low) < 2 ^ k" unfolding low mask_AND using k take_bit_less [of k addr] by simp
    also have "\<dots> < unat shards" by (rule ceil_log2_lower [OF k])
    finally show ?thesis using False pred by (simp add: word_less_nat_alt)
  qed (use pred in simp)
qed


section \<open>Suffixes\<close>

text \<open>The last \<open>n\<close> bytes of a number, most significant first.\<close>

primrec be_bytes :: "nat \<Rightarrow> u32 \<Rightarrow> bytes" where
  "be_bytes 0 s = []"
| "be_bytes (Suc n) s = be_bytes n (drop_bit 8 s) @ [ucast s]"

lemma length_be_bytes [simp]: "length (be_bytes n s) = n"
  by (induction n arbitrary: s) simp_all

lemma addr_number_be_bytes: "addr_number (be_bytes n s) = take_bit (8 * n) s"
proof (induction n arbitrary: s)
  case (Suc n)
  have "push_bit 8 (take_bit (8 * n) (drop_bit 8 s)) + ucast (ucast s :: u8) = take_bit (8 * Suc n) s"
  proof (subst disjunctive_add)
    show "\<not> bit (push_bit 8 (take_bit (8 * n) (drop_bit 8 s))) k \<or> \<not> bit (ucast (ucast s :: u8) :: u32) k" for k
      by (auto simp: bit_push_bit_iff bit_ucast_iff)
    show "push_bit 8 (take_bit (8 * n) (drop_bit 8 s)) OR ucast (ucast s :: u8) = take_bit (8 * Suc n) s"
      by (rule bit_word_eqI) (auto simp: bit_or_iff bit_push_bit_iff bit_take_bit_iff bit_drop_bit_eq bit_ucast_iff)
  qed
  then show ?case using Suc.IH [of "drop_bit 8 s"] by (simp add: addr_number_def)
qed (simp add: addr_number_def)

lemma bytesNeed_enough: "s < shards \<Longrightarrow> unat s < 2 ^ (8 * bytesNeed shards)"
  using unsigned_less [of s, where ?'a = nat] by (auto simp: bytesNeed_def word_less_nat_alt word_le_nat_alt split: if_splits)

lemma small_number: "unat s < 2 ^ n \<Longrightarrow> take_bit n s = s" for s :: u32
  by (simp add: word_eq_iff_unsigned [where ?'a = nat] unsigned_take_bit_eq take_bit_nat_eq_self)

lemma ComputeId_suffix:
  assumes "\<not> IsEmptyAddress core (p @ be_bytes (bytesNeed (numberOfShards msc)) s)"
    "\<not> IsSmartContractOnMetachain core (be_bytes (bytesNeed (numberOfShards msc)) s) (p @ be_bytes (bytesNeed (numberOfShards msc)) s)"
    "NewMultiShardCoordinator core negOne shards selfId = Inr msc" "s < shards"
  shows "ComputeId core msc (p @ be_bytes (bytesNeed (numberOfShards msc)) s) = s"
proof -
  have msc: "numberOfShards msc = shards" "maskHigh msc = push_bit (ceil_log2 (unat shards)) 1 - 1"
    using assms(3) by (auto simp: NewMultiShardCoordinator_def calculateMasks_def Let_def split: if_splits)
  have "unat s < 2 ^ ceil_log2 (unat shards)"
    using assms(4) ceil_log2_upper [of "unat shards"] by (simp add: word_less_nat_alt)
  then have "addr_number (be_bytes (bytesNeed shards) s) AND maskHigh msc = s"
    unfolding addr_number_be_bytes msc(2) mask_AND using small_number bytesNeed_enough [OF assms(4)] by simp
  moreover have "\<not> s > shards - 1" using assms(4) above_last [of shards s] by (metis word_gt_0 not_less_zero leD word_not_simps(1))
  moreover have "drop (if length (p @ be_bytes n s) > n then length (p @ be_bytes n s) - n else 0) (p @ be_bytes n s) = be_bytes n s" for n
    by simp
  ultimately show ?thesis using assms(1,2) unfolding ComputeId_def ComputeIdFromBytes_def msc(1) Let_def by simp
qed

section \<open>Properties\<close>

text \<open>C23: An address that is neither empty nor a contract of the metachain is assigned to one of the shards,
  an empty one to the own shard. Every shard has addresses: whatever the first bytes of an address are,
  its last bytes can be chosen so that it belongs to a given shard.\<close>

theorem address_has_shard:
  assumes "NewMultiShardCoordinator core negOne shards selfId = Inr msc"
  shows "ComputeId core msc a \<in> (if IsEmptyAddress core a then {selfId} else {MetachainShardId core} \<union> {..<shards}) \<and>
    (s < shards \<longrightarrow>
       (\<exists>suffix. length suffix = bytesNeed shards \<and>
          (IsEmptyAddress core (p @ suffix) \<or> IsSmartContractOnMetachain core suffix (p @ suffix) \<or> ComputeId core msc (p @ suffix) = s)))"
proof
  have new: "0 < shards" "msc_selfId msc = selfId" "numberOfShards msc = shards" "(maskHigh msc, maskLow msc) = calculateMasks negOne shards"
    using assms by (auto simp: NewMultiShardCoordinator_def word_less_1 word_gt_0 split: if_splits prod.splits)
  show "ComputeId core msc a \<in> (if IsEmptyAddress core a then {selfId} else {MetachainShardId core} \<union> {..<shards})"
    using shard_in_range [OF new(1,4)] by (auto simp: ComputeId_def ComputeIdFromBytes_def Let_def new(2,3) split: if_splits)
  show "s < shards \<longrightarrow> (\<exists>suffix. length suffix = bytesNeed shards \<and>
      (IsEmptyAddress core (p @ suffix) \<or> IsSmartContractOnMetachain core suffix (p @ suffix) \<or> ComputeId core msc (p @ suffix) = s))"
    using ComputeId_suffix [OF _ _ assms, of p s] unfolding new(3) by (intro impI exI [of _ "be_bytes (bytesNeed shards) s"]) auto
qed

definition sample_core :: core_consts where
  "sample_core = \<lparr>MetachainShardId = 0xFFFFFFFF, IsEmptyAddress = (\<lambda>a. list_all (\<lambda>b. b = 0) a),
     IsSmartContractOnMetachain = (\<lambda>buff a. False)\<rparr>"

theorem address_has_shard_witness:
  "ComputeId sample_core \<lparr>maskHigh = 3, maskLow = 1, msc_selfId = 0, numberOfShards = 3\<rparr> [7, 9, 0x0f] \<in> {0xFFFFFFFF} \<union> {..<3} \<and>
   (\<exists>suffix. length suffix = bytesNeed 3 \<and>
      (list_all (\<lambda>b. b = 0) ([7, 9] @ suffix) \<or> False \<or>
       ComputeId sample_core \<lparr>maskHigh = 3, maskLow = 1, msc_selfId = 0, numberOfShards = 3\<rparr> ([7, 9] @ suffix) = 2))"
proof -
  have "NewMultiShardCoordinator sample_core 0 3 0 = Inr \<lparr>maskHigh = 3, maskLow = 1, msc_selfId = 0, numberOfShards = 3\<rparr>"
    by (simp add: NewMultiShardCoordinator_def calculateMasks_def ceil_log2.simps)
  from address_has_shard [OF this, of "[7, 9, 0x0f]" 2 "[7, 9]"] show ?thesis by (simp add: sample_core_def)
qed

end
