(* ===== verification/Consensus_Selection.thy ===== *)
theory Consensus_Selection
  imports Prelude
begin

text \<open>
  The choice of a consensus group: \<open>selectorExpandedList\<close> (\<open>expandedListSampling.go\<close>) repeats every validator
  as often as its weight, \<open>SelectionBasedProvider\<close> (\<open>selectionBasedProvider.go\<close>) draws from this list without
  drawing a validator twice. It keeps the intervals of the drawn validators instead of removing them;
  the lemmas show that it draws what one would draw from the list with the drawn validators removed.
  The hasher is a parameter. Positions in the list are natural numbers; lists are shorter than \<open>2 ^ 63\<close>.
\<close>

section \<open>The provider\<close>

datatype sampling_error = ErrNilWeights | ErrInvalidWeight | ErrNilRandomness | ErrInvalidSampleSize | PanicSampling

type_synonym 'a sampled = "sampling_error + 'a"

record validatorEntry =
  startIndex :: nat
  numAppearances :: nat

record SelectionBasedProvider =
  sortedSlice :: "validatorEntry list"
  sbp_size :: nat

fun scan_back :: "u32 list \<Rightarrow> u32 \<Rightarrow> nat \<Rightarrow> nat" where
  "scan_back l val 0 = 0"
| "scan_back l val (Suc i) = (if l ! i \<noteq> val then i + 1 else scan_back l val i)"

function scan_forward :: "u32 list \<Rightarrow> u32 \<Rightarrow> nat \<Rightarrow> nat" where
  "scan_forward l val i = (if i < length l then if l ! i \<noteq> val then i - 1 else scan_forward l val (i + 1) else length l - 1)"
  by auto
termination by (relation "measure (\<lambda>(l, val, i). length l - i)") auto

declare scan_forward.simps [simp del]

definition computeStartIndexAndNumAppearancesForValidator :: "u32 list \<Rightarrow> nat \<Rightarrow> nat \<times> nat" where
  "computeStartIndexAndNumAppearancesForValidator expEligibleList idx =
     (let val = expEligibleList ! idx;
          startIdx = scan_back expEligibleList val idx;
          endIdx = scan_forward expEligibleList val (idx + 1)
      in (startIdx, endIdx + 1 - startIdx))"

definition NewSelectionBasedProvider :: SelectionBasedProvider where
  "NewSelectionBasedProvider = \<lparr>sortedSlice = [], sbp_size = 0\<rparr>"

fun insert_entry :: "validatorEntry \<Rightarrow> validatorEntry list \<Rightarrow> validatorEntry list" where
  "insert_entry ve [] = [ve]"
| "insert_entry ve (e # es) = (if startIndex e \<ge> startIndex ve then ve # e # es else e # insert_entry ve es)"

definition addToSortedSlice :: "SelectionBasedProvider \<Rightarrow> validatorEntry \<Rightarrow> SelectionBasedProvider" where
  "addToSortedSlice sbp ve =
     \<lparr>sortedSlice = insert_entry ve (sortedSlice sbp), sbp_size = sbp_size sbp + numAppearances ve\<rparr>"

definition sbp_add :: "SelectionBasedProvider \<Rightarrow> u32 list \<Rightarrow> nat \<Rightarrow> SelectionBasedProvider" where
  "sbp_add sbp expElList index =
     (let (startIdx, num) = computeStartIndexAndNumAppearancesForValidator expElList index
      in addToSortedSlice sbp \<lparr>startIndex = startIdx, numAppearances = num\<rparr>)"

fun adjust_loop :: "validatorEntry list \<Rightarrow> nat \<Rightarrow> nat" where
  "adjust_loop [] index = index"
| "adjust_loop (entry # es) index = (if startIndex entry > index then index else adjust_loop es (index + numAppearances entry))"

definition adjustIndex :: "SelectionBasedProvider \<Rightarrow> nat \<Rightarrow> nat" where
  "adjustIndex sbp index = adjust_loop (sortedSlice sbp) index"

text \<open>\<open>binary.BigEndian\<close>.\<close>

primrec put_be :: "nat \<Rightarrow> u64 \<Rightarrow> bytes" where
  "put_be 0 v = []"
| "put_be (Suc n) v = put_be n (drop_bit 8 v) @ [ucast v]"

definition uint64_be :: "bytes \<Rightarrow> u64 sampled" where
  "uint64_be b = (if length b < 8 then Inl PanicSampling else Inr (foldl (\<lambda>v x. push_bit 8 v + ucast x) 0 (take 8 b)))"

definition computeRandomnessAsUint64 :: "(bytes \<Rightarrow> bytes) \<Rightarrow> bytes \<Rightarrow> nat \<Rightarrow> u64 sampled" where
  "computeRandomnessAsUint64 compute randomness index = uint64_be (compute (put_be 8 (of_nat index) @ randomness))"

fun get_loop ::
  "(bytes \<Rightarrow> bytes) \<Rightarrow> bytes \<Rightarrow> u32 list \<Rightarrow> SelectionBasedProvider \<Rightarrow> nat list \<Rightarrow> u32 list \<Rightarrow> u32 list sampled" where
  "get_loop compute randomness l sbp [] validators = Inr validators"
| "get_loop compute randomness l sbp (i # is) validators =
     (case computeRandomnessAsUint64 compute randomness i of
        Inl e \<Rightarrow> Inl e
      | Inr newRandomness \<Rightarrow>
          if sbp_size sbp \<ge> length l then Inl ErrInvalidSampleSize
          else let index = unat newRandomness mod (length l - sbp_size sbp);
                   index = adjustIndex sbp index
               in if index \<ge> length l then Inl PanicSampling
                  else get_loop compute randomness l (sbp_add sbp l index) is (validators @ [l ! index]))"

text \<open>The deferred \<open>clean\<close> empties the slice at the end, so every call starts from an empty one.\<close>

definition sbp_Get :: "(bytes \<Rightarrow> bytes) \<Rightarrow> bytes \<Rightarrow> nat \<Rightarrow> u32 list \<Rightarrow> u32 list sampled" where
  "sbp_Get compute randomness numValidators expandedEligibleList =
     (if length randomness = 0 then Inl ErrNilRandomness
      else if numValidators > length expandedEligibleList then Inl ErrInvalidSampleSize
      else get_loop compute randomness expandedEligibleList NewSelectionBasedProvider [0..<numValidators] [])"

section \<open>The selector\<close>

record selectorExpandedList =
  expandedList :: "u32 list"
  uniqueItems :: u32

definition minWeight :: u32 where "minWeight = 1"

fun expand_loop :: "u32 list \<Rightarrow> nat \<Rightarrow> u32 list \<Rightarrow> u32 list sampled" where
  "expand_loop [] i acc = Inr acc"
| "expand_loop (w # ws) i acc =
     (if w < minWeight then Inl ErrInvalidWeight else expand_loop ws (i + 1) (acc @ replicate (unat w) (of_nat i)))"

definition expandList :: "u32 list \<Rightarrow> u32 list sampled" where
  "expandList weightList = expand_loop weightList 0 []"

definition NewSelectorExpandedList :: "u32 list \<Rightarrow> selectorExpandedList sampled" where
  "NewSelectorExpandedList weightList =
     (if length weightList = 0 then Inl ErrNilWeights
      else case expandList weightList of
             Inl e \<Rightarrow> Inl e
           | Inr l \<Rightarrow> Inr \<lparr>expandedList = l, uniqueItems = of_nat (length weightList)\<rparr>)"

definition sel_Select :: "(bytes \<Rightarrow> bytes) \<Rightarrow> selectorExpandedList \<Rightarrow> bytes \<Rightarrow> u32 \<Rightarrow> u32 list sampled" where
  "sel_Select compute s randSeed sampleSize =
     (if length randSeed = 0 then Inl ErrNilRandomness
      else if sampleSize = 0 \<or> sampleSize > uniqueItems s then Inl ErrInvalidSampleSize
      else sbp_Get compute randSeed (unat sampleSize) (expandedList s))"

section \<open>Drawing from the remaining list\<close>

text \<open>The reference: draw, then remove the drawn validator from the list.\<close>

fun reslice :: "(nat \<Rightarrow> u64) \<Rightarrow> u32 list \<Rightarrow> nat list \<Rightarrow> u32 list sampled" where
  "reslice rnd l [] = Inr []"
| "reslice rnd l (i # is) =
     (if l = [] then Inl ErrInvalidSampleSize
      else let v = l ! (unat (rnd i) mod length l)
           in case reslice rnd (filter (\<lambda>x. x \<noteq> v) l) is of Inl e \<Rightarrow> Inl e | Inr vs \<Rightarrow> Inr (v # vs))"

text \<open>The appearances of a validator stand together.\<close>

definition grouped :: "u32 list \<Rightarrow> bool" where
  "grouped l \<longleftrightarrow> (\<forall>i j k. i < j \<longrightarrow> j < k \<longrightarrow> k < length l \<longrightarrow> l ! i = l ! k \<longrightarrow> l ! j = l ! i)"

section \<open>Intervals\<close>

lemma scan_back_spec:
  "scan_back l v i \<le> i" "scan_back l v i \<le> q \<Longrightarrow> q < i \<Longrightarrow> l ! q = v"
  "0 < scan_back l v i \<Longrightarrow> l ! (scan_back l v i - 1) \<noteq> v"
  by (induction i) (auto simp: less_Suc_eq split: if_splits)

lemma scan_forward_spec:
  "0 < i \<Longrightarrow> i \<le> length l \<Longrightarrow>
   i - 1 \<le> scan_forward l v i \<and> scan_forward l v i < length l \<and>
   (\<forall>q. i \<le> q \<longrightarrow> q \<le> scan_forward l v i \<longrightarrow> l ! q = v) \<and>
   (scan_forward l v i + 1 < length l \<longrightarrow> l ! (scan_forward l v i + 1) \<noteq> v)"
proof (induction l v i rule: scan_forward.induct)
  case (1 l v i)
  show ?case
  proof (cases "i < length l \<and> l ! i = v")
    case True
    then have eq: "scan_forward l v i = scan_forward l v (i + 1)" by (subst scan_forward.simps) simp
    have IH: "i \<le> scan_forward l v (i + 1)" "scan_forward l v (i + 1) < length l"
      "\<forall>q. i + 1 \<le> q \<longrightarrow> q \<le> scan_forward l v (i + 1) \<longrightarrow> l ! q = v"
      "scan_forward l v (i + 1) + 1 < length l \<longrightarrow> l ! (scan_forward l v (i + 1) + 1) \<noteq> v"
      using "1.IH" True by simp_all
    have "l ! q = v" if "i \<le> q" "q \<le> scan_forward l v (i + 1)" for q using IH(3) that True by (cases "q = i") auto
    then show ?thesis unfolding eq using IH by auto
  next
    case False
    then have eq: "scan_forward l v i = i - 1" using "1.prems" by (subst scan_forward.simps) auto
    have none: "l ! q = v" if "i \<le> q" "q \<le> i - 1" for q using that "1.prems"(1) by linarith
    then show ?thesis unfolding eq using False "1.prems" by auto
  qed
qed

lemma interval_spec:
  assumes "grouped l" "p < length l" "computeStartIndexAndNumAppearancesForValidator l p = (s, n)"
  shows "s + n \<le> length l" "q < length l \<Longrightarrow> l ! q = l ! p \<longleftrightarrow> s \<le> q \<and> q < s + n"
proof -
  let ?v = "l ! p" and ?e = "scan_forward l (l ! p) (p + 1)"
  have s: "s = scan_back l ?v p" and n: "n = ?e + 1 - s"
    using assms(3) by (auto simp: computeStartIndexAndNumAppearancesForValidator_def Let_def)
  have sp: "s \<le> p" unfolding s by (rule scan_back_spec(1))
  have e: "p \<le> ?e" "?e < length l" "\<forall>q. p + 1 \<le> q \<longrightarrow> q \<le> ?e \<longrightarrow> l ! q = ?v" "?e + 1 < length l \<longrightarrow> l ! (?e + 1) \<noteq> ?v"
    using scan_forward_spec [of "p + 1" l ?v] assms(2) by simp_all
  then have sn: "s + n = ?e + 1" using sp n by simp
  then show "s + n \<le> length l" using e by simp
  show "l ! q = ?v \<longleftrightarrow> s \<le> q \<and> q < s + n" if "q < length l"
  proof
    assume q: "s \<le> q \<and> q < s + n"
    consider "q < p" | "q = p" | "p + 1 \<le> q" "q \<le> ?e" using q sn by linarith
    then show "l ! q = ?v"
    proof cases
      case 1
      then show ?thesis using scan_back_spec(2) [of l ?v p q] s q by blast
    next
      case 3
      then show ?thesis using e(3) by blast
    qed simp
  next
    assume q: "l ! q = ?v"
    show "s \<le> q \<and> q < s + n"
    proof (rule ccontr)
      assume "\<not> (s \<le> q \<and> q < s + n)"
      then consider "q < s" | "s + n \<le> q" by linarith
      then show False
      proof cases
        case 1
        then have "l ! (s - 1) \<noteq> ?v" using scan_back_spec(3) [of l ?v p] s by simp
        moreover have "l ! (s - 1) = l ! q"
        proof (cases "q = s - 1")
          case False
          then have "q < s - 1" "s - 1 < p" using 1 sp by linarith+
          then show ?thesis using assms(1,2) q unfolding grouped_def by blast
        qed simp
        ultimately show False using q by simp
      next
        case 2
        then have "l ! (?e + 1) \<noteq> ?v" using e(4) that sn by simp
        moreover have "l ! (?e + 1) = ?v"
        proof (cases "q = ?e + 1")
          case False
          then have "p < ?e + 1" "?e + 1 < q" using 2 sn e by linarith+
          then show ?thesis using assms(1) q that unfolding grouped_def by metis
        qed (use q in simp)
        ultimately show False by simp
      qed
    qed
  qed
qed


section \<open>Positions\<close>

text \<open>The number of positions below \<open>p\<close> that the entries cover.\<close>

definition covered :: "validatorEntry list \<Rightarrow> nat \<Rightarrow> nat" where
  "covered es p = sum_list (map (\<lambda>e. min (numAppearances e) (p - startIndex e)) es)"

lemma covered_insert: "covered (insert_entry ve es) p = covered es p + min (numAppearances ve) (p - startIndex ve)"
  by (induction es) (simp_all add: covered_def)

lemma sorted_insert: "sorted (map startIndex es) \<Longrightarrow> sorted (map startIndex (insert_entry ve es))"
proof -
  have "set (insert_entry ve es) = insert ve (set es)" for es by (induction es) auto
  then show "sorted (map startIndex es) \<Longrightarrow> sorted (map startIndex (insert_entry ve es))" by (induction es) auto
qed

text \<open>The adjusted index is covered by no entry, and has moved by the covered positions below it.\<close>

lemma adjust_spec:
  "sorted (map startIndex es) \<Longrightarrow>
   adjust_loop es i = i + covered es (adjust_loop es i) \<and>
   (\<forall>e \<in> set es. \<not> (startIndex e \<le> adjust_loop es i \<and> adjust_loop es i < startIndex e + numAppearances e))"
proof (induction es arbitrary: i)
  case (Cons e es)
  show ?case
  proof (cases "startIndex e > i")
    case True
    then have "\<forall>e' \<in> set es. i < startIndex e'" using Cons.prems by auto
    then have "covered es i = 0" by (auto simp: covered_def)
    then show ?thesis using True \<open>\<forall>e' \<in> set es. i < startIndex e'\<close> by (auto simp: covered_def)
  next
    case False
    let ?p = "adjust_loop es (i + numAppearances e)"
    have IH: "?p = i + numAppearances e + covered es ?p"
      "\<forall>e' \<in> set es. \<not> (startIndex e' \<le> ?p \<and> ?p < startIndex e' + numAppearances e')" using Cons by simp_all
    then have "startIndex e + numAppearances e \<le> ?p" using False by linarith
    then show ?thesis using IH False by (simp add: covered_def)
  qed
qed (simp add: covered_def)

text \<open>The entries cover exactly the positions of the validators in \<open>C\<close>.\<close>

definition covers :: "u32 list \<Rightarrow> u32 set \<Rightarrow> SelectionBasedProvider \<Rightarrow> bool" where
  "covers l C sbp \<longleftrightarrow>
     sorted (map startIndex (sortedSlice sbp)) \<and> sbp_size sbp = length (filter (\<lambda>x. x \<in> C) l) \<and>
     sbp_size sbp = sum_list (map numAppearances (sortedSlice sbp)) \<and>
     (\<forall>p \<le> length l. covered (sortedSlice sbp) p = length (filter (\<lambda>x. x \<in> C) (take p l)))"

lemma covers_new: "covers l {} NewSelectionBasedProvider"
  by (simp add: covers_def NewSelectionBasedProvider_def covered_def)

lemma covered_total: "covered es p \<le> sum_list (map numAppearances es)"
  unfolding covered_def by (rule sum_list_mono) simp

lemma covered_step:
  "\<forall>e \<in> set es. \<not> (startIndex e \<le> p \<and> p < startIndex e + numAppearances e) \<Longrightarrow> covered es (Suc p) = covered es p"
  unfolding covered_def by (intro arg_cong [of _ _ sum_list] map_cong) auto

lemma length_filter_split: "length (filter P xs) + length (filter (\<lambda>x. \<not> P x) xs) = length xs"
  by (induction xs) auto

lemma filter_nth_take: "p < length l \<Longrightarrow> P (l ! p) \<Longrightarrow> filter P l ! length (filter P (take p l)) = l ! p"
proof -
  assume p: "p < length l" "P (l ! p)"
  have "l = take p l @ l ! p # drop (Suc p) l" using p(1) by (rule id_take_nth_drop)
  then have "filter P l = filter P (take p l) @ l ! p # filter P (drop (Suc p) l)" using p(2)
    by (metis filter.simps(2) filter_append)
  then show ?thesis by simp
qed

lemma adjust_draws:
  assumes "covers l C sbp" "i < length l - sbp_size sbp" "p = adjustIndex sbp i"
  shows "p < length l" "l ! p \<notin> C" "l ! p = filter (\<lambda>x. x \<notin> C) l ! i"
proof -
  let ?es = "sortedSlice sbp"
  have spec: "p = i + covered ?es p" "\<forall>e \<in> set ?es. \<not> (startIndex e \<le> p \<and> p < startIndex e + numAppearances e)"
    using adjust_spec [of ?es i] assms(1,3) by (simp_all add: covers_def adjustIndex_def)
  have size: "sbp_size sbp = sum_list (map numAppearances ?es)" using assms(1) by (simp add: covers_def)
  show p: "p < length l" using spec(1) covered_total [of ?es p] size assms(2) by linarith
  have cov: "covered ?es q = length (filter (\<lambda>x. x \<in> C) (take q l))" if "q \<le> length l" for q
    using assms(1) that by (simp add: covers_def)
  have "length (filter (\<lambda>x. x \<in> C) (take (Suc p) l)) = length (filter (\<lambda>x. x \<in> C) (take p l))"
    using cov [of p] cov [of "Suc p"] covered_step [OF spec(2)] p by simp
  then show out: "l ! p \<notin> C" using p by (auto simp: take_Suc_conv_app_nth)
  have "length (filter (\<lambda>x. x \<notin> C) (take p l)) = i"
    using length_filter_split [of "\<lambda>x. x \<in> C" "take p l"] cov [of p] spec(1) p by simp
  then show "l ! p = filter (\<lambda>x. x \<notin> C) l ! i" using filter_nth_take [of p l "\<lambda>x. x \<notin> C"] p out by simp
qed

lemma interval_count:
  assumes "grouped l" "p < length l" "computeStartIndexAndNumAppearancesForValidator l p = (s, n)" "q \<le> length l"
  shows "length (filter (\<lambda>x. x = l ! p) (take q l)) = min n (q - s)"
proof -
  have "{k. k < length (take q l) \<and> take q l ! k = l ! p} = {s..<min q (s + n)}"
    using interval_spec [OF assms(1-3)] assms(4) by auto
  then have "length (filter (\<lambda>x. x = l ! p) (take q l)) = card {s..<min q (s + n)}" by (simp add: length_filter_conv_card)
  then show ?thesis by (auto simp: min_def)
qed

lemma filter_insert:
  "v \<notin> C \<Longrightarrow> length (filter (\<lambda>x. x \<in> insert v C) xs) = length (filter (\<lambda>x. x \<in> C) xs) + length (filter (\<lambda>x. x = v) xs)"
  by (induction xs) auto

lemma covers_add:
  assumes "grouped l" "covers l C sbp" "p < length l" "l ! p \<notin> C"
  shows "covers l (insert (l ! p) C) (sbp_add sbp l p)"
proof -
  obtain s n where sn: "computeStartIndexAndNumAppearancesForValidator l p = (s, n)" by fastforce
  note count = interval_count [OF assms(1,3) sn] filter_insert [OF assms(4)]
  have "n = min n (length l - s)" using interval_spec(1) [OF assms(1,3) sn] by simp
  then have total: "n = length (filter (\<lambda>x. x = l ! p) l)" using count(1) [of "length l"] by simp
  have "sum_list (map numAppearances (insert_entry ve es)) = sum_list (map numAppearances es) + numAppearances ve" for ve es
    by (induction es) simp_all
  then show ?thesis using assms(2) total count sn
    by (simp add: covers_def sbp_add_def addToSortedSlice_def covered_insert sorted_insert)
qed

section \<open>The provider draws from the remaining list\<close>

lemma get_loop_reslice:
  assumes "grouped l" "\<And>i. computeRandomnessAsUint64 compute randomness i = Inr (rnd i)"
  shows "covers l C sbp \<Longrightarrow> get_loop compute randomness l sbp is acc =
    (case reslice rnd (filter (\<lambda>x. x \<notin> C) l) is of Inl e \<Rightarrow> Inl e | Inr vs \<Rightarrow> Inr (acc @ vs))"
proof (induction "is" arbitrary: C sbp acc)
  case (Cons i js)
  let ?R = "filter (\<lambda>x. x \<notin> C) l"
  have len: "length ?R = length l - sbp_size sbp"
    using length_filter_split [of "\<lambda>x. x \<in> C" l] Cons.prems by (simp add: covers_def)
  show ?case
  proof (cases "?R = []")
    case True
    then show ?thesis using len assms(2) by simp
  next
    case False
    let ?i = "unat (rnd i) mod length ?R"
    let ?p = "adjustIndex sbp ?i"
    have "0 < length ?R" using False by simp
    then have "?i < length l - sbp_size sbp" using mod_less_divisor len by metis
    note d = adjust_draws [OF Cons.prems this refl]
    have "filter (\<lambda>x. x \<notin> insert (l ! ?p) C) l = filter (\<lambda>x. x \<noteq> l ! ?p) ?R" by (simp add: conj_commute cong: filter_cong)
    moreover have "\<not> sbp_size sbp \<ge> length l" using False len by auto
    ultimately show ?thesis
      using Cons.IH [OF covers_add [OF assms(1) Cons.prems d(1,2)], of "acc @ [l ! ?p]"] d False len assms(2)
      by (simp add: Let_def split: sum.splits)
  qed
qed simp


lemma reslice_total:
  "length is \<le> card (set l) \<Longrightarrow>
   \<exists>vs. reslice rnd l is = Inr vs \<and> length vs = length is \<and> distinct vs \<and> set vs \<subseteq> set l"
proof (induction "is" arbitrary: l)
  case (Cons i js)
  then have "l \<noteq> []" by auto
  let ?v = "l ! (unat (rnd i) mod length l)"
  have v: "?v \<in> set l" using \<open>l \<noteq> []\<close> by simp
  have rest: "set (filter (\<lambda>x. x \<noteq> ?v) l) = set l - {?v}" by auto
  have "card (set l - {?v}) = card (set l) - 1" using v by simp
  then have "length js \<le> card (set (filter (\<lambda>x. x \<noteq> ?v) l))" using Cons.prems unfolding rest by simp
  then obtain vs where "reslice rnd (filter (\<lambda>x. x \<noteq> ?v) l) js = Inr vs" "length vs = length js" "distinct vs" "set vs \<subseteq> set l - {?v}"
    using Cons.IH [of "filter (\<lambda>x. x \<noteq> ?v) l"] rest by metis
  then show ?case using \<open>l \<noteq> []\<close> v by (intro exI [of _ "?v # vs"]) (auto simp: Let_def)
qed simp

section \<open>The expanded list\<close>

lemma sorted_grouped: "sorted l \<Longrightarrow> grouped l"
  unfolding grouped_def
proof (intro allI impI)
  fix i j k assume l: "sorted l" and ijk: "i < j" "j < k" "k < length l" "l ! i = l ! k"
  have "l ! i \<le> l ! j" "l ! j \<le> l ! k" using sorted_nth_mono [OF l, of i j] sorted_nth_mono [OF l, of j k] ijk(1-3) by simp_all
  then show "l ! j = l ! i" using ijk(4) by simp
qed

lemma expand_loop_spec:
  "list_all (\<lambda>w. 1 \<le> w) ws \<Longrightarrow> i + length ws < 2 ^ 32 \<Longrightarrow> sorted acc \<Longrightarrow> \<forall>x \<in> set acc. unat x < i \<Longrightarrow>
   \<exists>l. expand_loop ws i acc = Inr l \<and> sorted l \<and> set l = set acc \<union> of_nat ` {i..<i + length ws}"
proof (induction ws arbitrary: i acc)
  case (Cons w ws)
  let ?acc = "acc @ replicate (unat w) (of_nat i)"
  have w: "\<not> w < minWeight" "0 < unat w" using Cons.prems(1) by (auto simp: minWeight_def word_le_nat_alt)
  have i: "unat (of_nat i :: u32) = i" using Cons.prems(2) by (simp add: unat_of_nat)
  have "x \<le> of_nat i" if "x \<in> set acc" for x using Cons.prems(4) that i unfolding word_le_nat_alt by (simp add: less_imp_le)
  then have "sorted ?acc" using Cons.prems(3) by (auto simp: sorted_append)
  moreover have "\<forall>x \<in> set ?acc. unat x < i + 1" using Cons.prems(4) i by (auto simp: less_Suc_eq)
  ultimately obtain l where l: "expand_loop ws (i + 1) ?acc = Inr l" "sorted l" "set l = set ?acc \<union> of_nat ` {i + 1..<i + 1 + length ws}"
    using Cons.IH [of "i + 1" ?acc] Cons.prems(1,2) by auto
  have "{i..<i + length (w # ws)} = insert i {i + 1..<i + 1 + length ws}" by auto
  then show ?case using l w by auto
qed simp

lemma expanded:
  assumes "list_all (\<lambda>w. 1 \<le> w) ws" "length ws < 2 ^ 32"
  obtains l where "expandList ws = Inr l" "grouped l" "set l = of_nat ` {..<length ws}" "card (set l) = length ws" "length ws \<le> length l"
proof -
  obtain l where l: "expandList ws = Inr l" "sorted l" "set l = of_nat ` {..<length ws}"
    using expand_loop_spec [OF assms(1), of 0 "[]"] assms(2) by (auto simp: expandList_def atLeast0LessThan)
  have "inj_on (of_nat :: nat \<Rightarrow> u32) {..<length ws}"
  proof (rule inj_onI)
    fix i j assume ij: "i \<in> {..<length ws}" "j \<in> {..<length ws}" and eq: "(of_nat i :: u32) = of_nat j"
    have "unat (of_nat i :: u32) = i" "unat (of_nat j :: u32) = j" using assms(2) ij by (simp_all add: unat_of_nat)
    then show "i = j" using eq by metis
  qed
  then have card: "card (set l) = length ws" using l(3) by (simp add: card_image)
  then have "length ws \<le> length l" using card_length [of l] by simp
  then show thesis using that l sorted_grouped card by blast
qed

section \<open>The consensus group\<close>

text \<open>The numbers drawn for a seed.\<close>

definition drawn :: "(bytes \<Rightarrow> bytes) \<Rightarrow> bytes \<Rightarrow> nat \<Rightarrow> u64" where
  "drawn compute seed i = (case computeRandomnessAsUint64 compute seed i of Inl e \<Rightarrow> 0 | Inr r \<Rightarrow> r)"

text \<open>C22: For weights of at least one, a group of any size up to the number of validators is chosen, without
  an error. Its members are distinct validators, and they are those one draws from the expanded list
  when each drawn validator is removed from the list before the next draw.\<close>

theorem consensus_group:
  assumes "list_all (\<lambda>w. 1 \<le> w) ws" "length ws < 2 ^ 32" "\<And>x. 8 \<le> length (compute x)" "seed \<noteq> []" "0 < k" "k \<le> length ws"
  shows "\<exists>s vs. NewSelectorExpandedList ws = Inr s \<and> sel_Select compute s seed (of_nat k) = Inr vs \<and>
    length vs = k \<and> distinct vs \<and> set vs \<subseteq> of_nat ` {..<length ws} \<and>
    reslice (drawn compute seed) (expandedList s) [0..<k] = Inr vs"
proof -
  obtain l where l: "expandList ws = Inr l" "grouped l" "set l = of_nat ` {..<length ws}" "card (set l) = length ws" "length ws \<le> length l"
    using expanded [OF assms(1,2)] by blast
  have rnd: "computeRandomnessAsUint64 compute seed i = Inr (drawn compute seed i)" for i
    using assms(3) [of "put_be 8 (of_nat i) @ seed"] by (simp add: drawn_def computeRandomnessAsUint64_def uint64_be_def)
  obtain vs where vs: "reslice (drawn compute seed) l [0..<k] = Inr vs" "length vs = k" "distinct vs" "set vs \<subseteq> set l"
    using reslice_total [of "[0..<k]" l] l(4) assms(6) by auto
  have "sbp_Get compute seed k l = Inr vs"
    using get_loop_reslice [OF l(2) rnd covers_new, of "[0..<k]" "[]"] vs(1) assms(4,6) l(5) by (simp add: sbp_Get_def)
  moreover have k: "unat (of_nat k :: u32) = k" "unat (of_nat (length ws) :: u32) = length ws" using assms(2,6) by (simp_all add: unat_of_nat)
  moreover have "(of_nat k :: u32) \<noteq> 0" "\<not> (of_nat k :: u32) > of_nat (length ws)"
    using k assms(5,6) by (auto simp: word_less_nat_alt)
  ultimately have "sel_Select compute \<lparr>expandedList = l, uniqueItems = of_nat (length ws)\<rparr> seed (of_nat k) = Inr vs"
    using assms(4) by (simp add: sel_Select_def)
  moreover have "NewSelectorExpandedList ws = Inr \<lparr>expandedList = l, uniqueItems = of_nat (length ws)\<rparr>"
    using l(1) assms(5,6) by (auto simp: NewSelectorExpandedList_def)
  ultimately show ?thesis using vs l(3) by auto
qed

definition pad_hash :: "bytes \<Rightarrow> bytes" where
  "pad_hash x = rev x @ replicate 8 7"

theorem consensus_group_witness:
  "\<exists>s vs. NewSelectorExpandedList [2, 1, 3, 1] = Inr s \<and> sel_Select pad_hash s [42] (of_nat 3) = Inr vs \<and>
     length vs = 3 \<and> distinct vs \<and> set vs \<subseteq> of_nat ` {..<length [2, 1, 3, 1 :: u32]} \<and>
     reslice (drawn pad_hash [42]) (expandedList s) [0..<3] = Inr vs"
  by (rule consensus_group) (simp_all add: pad_hash_def)

end
