(* ===== verification/Validator_Shuffler.thy ===== *)
theory Validator_Shuffler
  imports Complex_Main Prelude
begin

text \<open>
  The redistribution of the validators at the start of an epoch: \<open>randHashShuffler\<close>
  (\<open>hashValidatorShuffler.go\<close>) and its two distributors (\<open>validatorDistributor.go\<close>). A map from shards to
  lists of validators is an association list in iteration order. The hasher and the shard id of the
  metachain (of \<open>mx-chain-core-go\<close>), the rounding of the product of a float32 and an integer, and the order
  in which the one loop visits a map where the order matters are given by an environment.
\<close>

section \<open>Data\<close>

record Validator =
  pubKey :: bytes
  chances :: u32
  index :: u32

datatype shuffler_error =
    ErrNilPubKey | ErrNilNodeShufflerArguments | ErrNilEnableEpochsHandler | ErrSmallShardEligibleListSize
  | ErrNilOrEmptyDestinationForDistribute | ErrReceivedNewListNodeInStakingV4 | ErrIncompatibleHandler
  | PanicDivideByZero

type_synonym 'a shuffled = "shuffler_error + 'a"
type_synonym vmap = "(u32 \<times> Validator list) list"
type_synonym nums = "u32 \<rightharpoonup> int"

definition NewValidator :: "slice \<Rightarrow> u32 \<Rightarrow> u32 \<Rightarrow> Validator shuffled" where
  "NewValidator pk ch idx =
     (case pk of None \<Rightarrow> Inl ErrNilPubKey | Some k \<Rightarrow> Inr \<lparr>pubKey = k, chances = ch, index = idx\<rparr>)"

definition validator_Size :: "Validator \<Rightarrow> nat" where
  "validator_Size v = length (pubKey v) + 8"

record MaxNodesChangeConfig =
  EpochEnable :: u32
  MaxNumNodes :: u32
  NodesToShufflePerShard :: u32

record ChainParametersByEpochConfig =
  Hysteresis :: rat
  ShardMinNumNodes :: u32
  MetachainMinNumNodes :: u32
  Adaptivity :: bool

datatype epoch_flag = BalanceWaitingListsFlag | CleanupAuctionOnLowWaitingListFlag

type_synonym epochs_handler = "epoch_flag \<Rightarrow> u32 \<Rightarrow> bool"

datatype distributor = IntraShardValidatorDistributor | CrossShardValidatorDistributor

record NodesShufflerArgs =
  sa_ShuffleBetweenShards :: bool
  sa_MaxNodesEnableConfig :: "MaxNodesChangeConfig list"
  sa_EnableEpochsHandler :: "epochs_handler option"
  sa_StakingV4Step2EnableEpoch :: u32
  sa_StakingV4Step3EnableEpoch :: u32

record randHashShuffler =
  shuffleBetweenShards :: bool
  activeNodesConfig :: MaxNodesChangeConfig
  availableNodesConfigs :: "MaxNodesChangeConfig list"
  validatorDistributor :: distributor
  enableEpochsHandler :: epochs_handler
  stakingV4Step2EnableEpoch :: u32
  rhs_flagStakingV4Step2 :: bool
  stakingV4Step3EnableEpoch :: u32
  rhs_flagStakingV4Step3 :: bool

record shuffleNodesArg =
  eligible :: vmap
  waiting :: vmap
  unstakeLeaving :: "Validator list"
  additionalLeaving :: "Validator list"
  newNodes :: "Validator list"
  auction :: "Validator list"
  randomness :: bytes
  distributor_of :: distributor
  nodesMeta :: u32
  nodesPerShard :: u32
  nbShards :: u32
  maxNodesToSwapPerShard :: u32
  maxNumNodes :: u32
  flagBalanceWaitingLists :: bool
  flagStakingV4Step2 :: bool
  flagStakingV4Step3 :: bool
  flagCleanupAuctionOnLowWaitingList :: bool

record shuffledNodesConfig =
  numShuffled :: u32
  numNewEligible :: u32
  numNewWaiting :: u32
  numSelectedAuction :: u32
  cfg_maxNumNodes :: u32
  cfg_flagStakingV4Step2 :: bool

record ArgsUpdateNodes =
  ChainParameters :: ChainParametersByEpochConfig
  au_Eligible :: vmap
  au_Waiting :: vmap
  NewNodes :: "Validator list"
  UnStakeLeaving :: "Validator list"
  AdditionalLeaving :: "Validator list"
  Auction :: "Validator list"
  Rand :: bytes
  NbShards :: u32
  Epoch :: u32

record ResUpdateNodes =
  Eligible :: vmap
  Waiting :: vmap
  ShuffledOut :: vmap
  Leaving :: "Validator list"
  StillRemaining :: "Validator list"
  LowWaitingList :: bool

text \<open>\<open>scale h n\<close> is \<open>uint32(h * float32(n))\<close>; \<open>visit m\<close> is \<open>m\<close> in the order a loop visits it.\<close>

record shuffle_env =
  MetachainShardId :: u32
  Compute :: "bytes \<Rightarrow> bytes"
  visit :: "vmap \<Rightarrow> vmap"
  scale :: "rat \<Rightarrow> u32 \<Rightarrow> u32"

section \<open>Maps of validators\<close>

text \<open>Reading a missing shard gives the nil list.\<close>

definition lst :: "vmap \<Rightarrow> u32 \<Rightarrow> Validator list" where
  "lst m k = (case map_of m k of None \<Rightarrow> [] | Some vs \<Rightarrow> vs)"

definition num :: "nums \<Rightarrow> u32 \<Rightarrow> int" where
  "num m k = (case m k of None \<Rightarrow> 0 | Some n \<Rightarrow> n)"

definition sortKeys :: "vmap \<Rightarrow> u32 list" where
  "sortKeys nodes = sort (map fst nodes)"

definition copyValidatorMap :: "vmap \<Rightarrow> vmap" where
  "copyValidatorMap validatorsMap = foldl (\<lambda>result (shardId, validators). AList.update shardId validators result) [] validatorsMap"

definition getNumPubKeys :: "vmap \<Rightarrow> u32" where
  "getNumPubKeys m = foldl (\<lambda>n (_, validatorsInShard). n + of_nat (length validatorsInShard)) 0 m"

definition getMaxListSize :: "vmap \<Rightarrow> nat" where
  "getMaxListSize m = foldl (\<lambda>maxSize (_, l). if maxSize < length l then length l else maxSize) 0 m"

definition searchInMap :: "vmap \<Rightarrow> bytes \<Rightarrow> bool \<times> u32" where
  "searchInMap validatorMap pk =
     (case find (\<lambda>(shardId, vs). \<exists>val \<in> set vs. pubKey val = pk) validatorMap of
        None \<Rightarrow> (False, 0)
      | Some (shardId, _) \<Rightarrow> (True, shardId))"

definition createListsForAllShards :: "u32 \<Rightarrow> vmap \<Rightarrow> u32 \<Rightarrow> vmap" where
  "createListsForAllShards meta shardMap shards =
     (let shardMap = foldl (\<lambda>m shardId. if map_of m shardId = None then AList.update shardId [] m else m)
            shardMap (map of_nat [0..<unat shards])
      in if map_of shardMap meta = None then AList.update meta [] shardMap else shardMap)"

section \<open>Removing validators\<close>

text \<open>The element at the index is replaced by the last one.\<close>

definition removeValidatorFromList :: "Validator list \<Rightarrow> int \<Rightarrow> Validator list" where
  "removeValidatorFromList validatorList i =
     (if i > int (length validatorList) - 1 \<or> i < 0 then validatorList
      else butlast (validatorList[nat i := last validatorList]))"

definition removeValidatorFromListKeepOrder :: "Validator list \<Rightarrow> int \<Rightarrow> Validator list" where
  "removeValidatorFromListKeepOrder validatorList i =
     (if i > int (length validatorList) - 1 \<or> i < 0 then validatorList
      else take (nat i) validatorList @ drop (nat i + 1) validatorList)"

text \<open>The scan from the end of the list for a key.\<close>

fun find_from_end :: "Validator list \<Rightarrow> bytes \<Rightarrow> nat \<Rightarrow> nat option" where
  "find_from_end l pk 0 = None"
| "find_from_end l pk (Suc i) = (if pubKey (l ! i) = pk then Some i else find_from_end l pk i)"

fun remove_loop :: "Validator list \<Rightarrow> int \<Rightarrow> Validator list \<Rightarrow> Validator list \<Rightarrow> Validator list \<times> Validator list" where
  "remove_loop [] maxToRemove resultedList removed = (resultedList, removed)"
| "remove_loop (valToRemove # vs) maxToRemove resultedList removed =
     (if int (length removed) = maxToRemove then (resultedList, removed)
      else case find_from_end resultedList (pubKey valToRemove) (length resultedList) of
             None \<Rightarrow> remove_loop vs maxToRemove resultedList removed
           | Some i \<Rightarrow> remove_loop vs maxToRemove (removeValidatorFromList resultedList (int i)) (removed @ [resultedList ! i]))"

definition removeValidatorsFromList :: "Validator list \<Rightarrow> Validator list \<Rightarrow> int \<Rightarrow> Validator list \<times> Validator list" where
  "removeValidatorsFromList validatorList validatorsToRemove maxToRemove = remove_loop validatorsToRemove maxToRemove validatorList []"

fun duplicates_loop :: "Validator list \<Rightarrow> bytes \<Rightarrow> nat \<Rightarrow> Validator list" where
  "duplicates_loop l pk 0 = l"
| "duplicates_loop l pk (Suc i) =
     duplicates_loop (if pk = pubKey (l ! i) then removeValidatorFromList l (int i) else l) pk i"

definition removeDuplicates :: "Validator list \<Rightarrow> Validator list \<Rightarrow> Validator list" where
  "removeDuplicates unstake additional =
     foldl (\<lambda>additionalCopy unstakeValidator. duplicates_loop additionalCopy (pubKey unstakeValidator) (length additionalCopy))
       additional unstake"

text \<open>The map and the remaining leaving nodes, with the number of removed nodes.\<close>

definition removeNodesFromShard :: "vmap \<Rightarrow> Validator list \<Rightarrow> u32 \<Rightarrow> int \<Rightarrow> vmap \<times> Validator list \<times> nat" where
  "removeNodesFromShard existingNodes leavingNodes shard nbToRemove =
     (let nbToRemove = if int (length leavingNodes) < nbToRemove then int (length leavingNodes) else nbToRemove;
          (vList, removedNodes) = removeValidatorsFromList (lst existingNodes shard) leavingNodes nbToRemove;
          (leavingNodes, _) = removeValidatorsFromList leavingNodes removedNodes (int (length removedNodes))
      in (AList.update shard vList existingNodes, leavingNodes, length removedNodes))"

fun nodes_loop :: "u32 list \<Rightarrow> vmap \<Rightarrow> Validator list \<Rightarrow> nums \<Rightarrow> vmap \<times> Validator list \<times> nums" where
  "nodes_loop [] existingNodes leavingNodes numToRemove = (existingNodes, leavingNodes, numToRemove)"
| "nodes_loop (shardId # ss) existingNodes leavingNodes numToRemove =
     (let (existingNodes, leavingNodes, numRemoved) = removeNodesFromShard existingNodes leavingNodes shardId (num numToRemove shardId)
      in nodes_loop ss existingNodes leavingNodes (numToRemove(shardId \<mapsto> num numToRemove shardId - int numRemoved)))"

definition removeNodesFromMap :: "vmap \<Rightarrow> Validator list \<Rightarrow> nums \<Rightarrow> vmap \<times> Validator list \<times> nums" where
  "removeNodesFromMap existingNodes leavingNodes numToRemove =
     nodes_loop (sortKeys existingNodes) existingNodes leavingNodes numToRemove"

definition removeLeavingNodesNotExistingInEligibleOrWaiting ::
  "Validator list \<Rightarrow> vmap \<Rightarrow> vmap \<Rightarrow> Validator list \<times> Validator list" where
  "removeLeavingNodesNotExistingInEligibleOrWaiting leavingValidators w e =
     (let notFoundValidators = filter (\<lambda>v. \<not> fst (searchInMap w (pubKey v)) \<and> \<not> fst (searchInMap e (pubKey v))) leavingValidators
      in removeValidatorsFromList leavingValidators notFoundValidators (int (length notFoundValidators)))"

definition removeLeavingNodesFromValidatorMaps ::
  "vmap \<Rightarrow> vmap \<Rightarrow> nums \<Rightarrow> Validator list \<Rightarrow> vmap \<times> vmap \<times> Validator list \<times> nums" where
  "removeLeavingNodesFromValidatorMaps e w numToRemove leaving =
     (let (newWaiting, stillRemainingInLeaving, numToRemove) = removeNodesFromMap w leaving numToRemove;
          (newEligible, stillRemainingInLeaving, numToRemove) = removeNodesFromMap e stillRemainingInLeaving numToRemove
      in (newEligible, newWaiting, stillRemainingInLeaving, numToRemove))"

section \<open>How many nodes may leave a shard\<close>

definition computeNumToRemovePerShard :: "nat \<Rightarrow> nat \<Rightarrow> nat \<Rightarrow> int shuffled" where
  "computeNumToRemovePerShard numEligible numWaiting nodes =
     (if numEligible + numWaiting < nodes then Inl ErrSmallShardEligibleListSize
      else Inr (int numEligible + int numWaiting - int nodes))"

fun num_loop :: "shuffleNodesArg \<Rightarrow> u32 list \<Rightarrow> nums \<Rightarrow> nums shuffled" where
  "num_loop arg [] numToRemove = Inr numToRemove"
| "num_loop arg (shardId # ss) numToRemove =
     (case computeNumToRemovePerShard (length (lst (eligible arg) shardId)) (length (lst (waiting arg) shardId))
             (unat (nodesPerShard arg)) of
        Inl e \<Rightarrow> Inl e
      | Inr maxToRemove \<Rightarrow> num_loop arg ss (numToRemove(shardId \<mapsto> maxToRemove)))"

definition computeNumToRemove :: "u32 \<Rightarrow> shuffleNodesArg \<Rightarrow> nums shuffled" where
  "computeNumToRemove meta arg =
     (if nbShards arg = 0 then Inr Map.empty
      else case num_loop arg (map of_nat [0..<unat (nbShards arg)]) Map.empty of
             Inl e \<Rightarrow> Inl e
           | Inr numToRemove \<Rightarrow>
               (case computeNumToRemovePerShard (length (lst (eligible arg) meta))
                       (length (lst (waiting arg) meta)) (unat (nodesMeta arg)) of
                  Inl e \<Rightarrow> Inl e
                | Inr maxToRemove \<Rightarrow> Inr (numToRemove(meta \<mapsto> maxToRemove))))"

definition clamp :: "u32 \<Rightarrow> nums \<Rightarrow> nums" where
  "clamp maxNodesToSwap numToRemove =
     (\<lambda>i. map_option (\<lambda>toRemove. if toRemove > int (unat maxNodesToSwap) then int (unat maxNodesToSwap) else toRemove) (numToRemove i))"

section \<open>Shuffling\<close>

definition shuffleList :: "(bytes \<Rightarrow> bytes) \<Rightarrow> Validator list \<Rightarrow> bytes \<Rightarrow> Validator list" where
  "shuffleList compute validators rand =
     (let ks = map (\<lambda>v. compute (pubKey v @ rand)) validators;
          mapValidators = Map.empty(ks [\<mapsto>] validators);
          ks = sort_Slice (\<lambda>x y. bytes_Compare x y < 0) ks
      in map (\<lambda>k. the (mapValidators k)) ks)"

definition shuffleOutShard :: "(bytes \<Rightarrow> bytes) \<Rightarrow> Validator list \<Rightarrow> int \<Rightarrow> bytes \<Rightarrow> Validator list \<times> Validator list" where
  "shuffleOutShard compute validators validatorsToSelect rand =
     (let validatorsToSelect = if int (length validators) < validatorsToSelect then int (length validators) else validatorsToSelect;
          shardShuffledEligible = shuffleList compute validators rand
      in (take (nat validatorsToSelect) shardShuffledEligible, drop (nat validatorsToSelect) shardShuffledEligible))"

definition shuffleOutNodes :: "(bytes \<Rightarrow> bytes) \<Rightarrow> vmap \<Rightarrow> nums \<Rightarrow> bytes \<Rightarrow> vmap \<times> vmap" where
  "shuffleOutNodes compute e numToShuffle rand =
     foldl (\<lambda>(shuffledOutMap, newEligible) shardId.
         let (shardShuffledOut, validators) = shuffleOutShard compute (lst e shardId) (num numToShuffle shardId) rand
         in (AList.update shardId shardShuffledOut shuffledOutMap,
             AList.update shardId (fst (removeValidatorsFromList validators shardShuffledOut (int (length shardShuffledOut)))) newEligible))
       ([], []) (sortKeys e)"

section \<open>Moving and distributing\<close>

text \<open>A nil destination is \<open>None\<close>. The results are the destination and the source, which is emptied.\<close>

definition moveNodesToMap :: "vmap option \<Rightarrow> vmap \<Rightarrow> (vmap \<times> vmap) shuffled" where
  "moveNodesToMap destination source =
     (case destination of
        None \<Rightarrow> Inl ErrNilOrEmptyDestinationForDistribute
      | Some d \<Rightarrow>
          Inr (foldl (\<lambda>(d, s) (shardId, validators).
              (AList.update shardId (lst d shardId @ validators) d, AList.update shardId [] s)) (d, source) source))"

definition computeNeededNodes :: "Validator list \<Rightarrow> Validator list \<Rightarrow> u32 \<Rightarrow> u32" where
  "computeNeededNodes destination source maxNodes =
     (let numCurrentNodes = of_nat (length destination) :: u32;
          numSourceNodes = of_nat (length source) :: u32;
          numNeededNodes = if maxNodes > numCurrentNodes then maxNodes - numCurrentNodes else 0
      in if numSourceNodes < numNeededNodes then numSourceNodes else numNeededNodes)"

definition moveMaxNumNodesToMap :: "u32 \<Rightarrow> vmap option \<Rightarrow> vmap \<Rightarrow> u32 \<Rightarrow> u32 \<Rightarrow> (vmap \<times> vmap) shuffled" where
  "moveMaxNumNodesToMap meta destination source numMeta numShard =
     (case destination of
        None \<Rightarrow> Inl ErrNilOrEmptyDestinationForDistribute
      | Some d \<Rightarrow>
          Inr (foldl (\<lambda>(d, s) (shardId, validators).
              let maxNodes = if shardId = meta then numMeta else numShard;
                  numNeededNodes = unat (computeNeededNodes (lst d shardId) (lst s shardId) maxNodes)
              in (AList.update shardId (lst d shardId @ take numNeededNodes validators) d,
                  AList.update shardId (drop numNeededNodes validators) s)) (d, source) source))"

definition equalizeValidatorsLists :: "vmap \<Rightarrow> Validator list \<Rightarrow> vmap \<times> Validator list" where
  "equalizeValidatorsLists destLists validators =
     (let maxListSize = getMaxListSize destLists
      in foldl (\<lambda>(d, validators) shardID.
             let shardList = lst d shardID
             in if length shardList < maxListSize
                then let toMove = maxListSize - length shardList;
                         toMove = if toMove > length validators then length validators else toMove
                     in (AList.update shardID (shardList @ take toMove validators) d, drop toMove validators)
                else (d, validators))
           (destLists, validators) (sortKeys destLists))"

fun distribute_loop :: "u32 list \<Rightarrow> nat \<Rightarrow> Validator list \<Rightarrow> vmap \<Rightarrow> vmap" where
  "distribute_loop sortedShardIds i [] destLists = destLists"
| "distribute_loop sortedShardIds i (v # vs) destLists =
     (let shardId = sortedShardIds ! unat ((of_nat i :: u32) mod of_nat (length sortedShardIds))
      in distribute_loop sortedShardIds (i + 1) vs (AList.update shardId (lst destLists shardId @ [v]) destLists))"

definition distributeValidators :: "(bytes \<Rightarrow> bytes) \<Rightarrow> vmap \<Rightarrow> Validator list \<Rightarrow> bytes \<Rightarrow> bool \<Rightarrow> vmap shuffled" where
  "distributeValidators compute destLists validators rand balanced =
     (if length destLists = 0 then Inl ErrNilOrEmptyDestinationForDistribute
      else let shuffledValidators = shuffleList compute validators rand;
               sortedShardIds = sortKeys destLists;
               (destLists, shuffledValidators) =
                 (if balanced then equalizeValidatorsLists destLists shuffledValidators else (destLists, shuffledValidators))
           in Inr (distribute_loop sortedShardIds 0 shuffledValidators destLists))"

definition DistributeValidators ::
  "shuffle_env \<Rightarrow> distributor \<Rightarrow> vmap \<Rightarrow> vmap \<Rightarrow> bytes \<Rightarrow> bool \<Rightarrow> (vmap \<times> vmap) shuffled" where
  "DistributeValidators env vd destination source rand balanced =
     (case vd of
        IntraShardValidatorDistributor \<Rightarrow> moveNodesToMap (Some destination) source
      | CrossShardValidatorDistributor \<Rightarrow>
          (let allValidators = concat (map snd (visit env source))
           in case distributeValidators (Compute env) destination allValidators rand balanced of
                Inl e \<Rightarrow> Inl e | Inr d \<Rightarrow> Inr (d, source)))"

definition checkAndDistributeNewNodes :: "(bytes \<Rightarrow> bytes) \<Rightarrow> vmap \<Rightarrow> Validator list \<Rightarrow> bytes \<Rightarrow> bool \<Rightarrow> vmap shuffled" where
  "checkAndDistributeNewNodes compute w nodes rand step3 =
     (if \<not> step3 then distributeValidators compute w nodes rand False
      else if length nodes > 0 then Inl ErrReceivedNewListNodeInStakingV4
      else Inr w)"

definition shouldDistributeShuffledToWaitingInStakingV4 :: "shuffledNodesConfig \<Rightarrow> bool" where
  "shouldDistributeShuffledToWaitingInStakingV4 cfg =
     (if \<not> cfg_flagStakingV4Step2 cfg then False
      else let totalNewWaiting = numNewWaiting cfg + numSelectedAuction cfg;
               totalNodes = totalNewWaiting + numNewEligible cfg + numShuffled cfg
           in totalNodes \<le> cfg_maxNumNodes cfg)"

section \<open>The shuffler\<close>

definition shuffleNodes :: "shuffle_env \<Rightarrow> shuffleNodesArg \<Rightarrow> ResUpdateNodes shuffled" where
  "shuffleNodes env arg =
     (let allLeaving = unstakeLeaving arg @ additionalLeaving arg;
          waitingCopy = createListsForAllShards (MetachainShardId env) (copyValidatorMap (waiting arg)) (nbShards arg);
          eligibleCopy = copyValidatorMap (eligible arg)
      in case computeNumToRemove (MetachainShardId env) arg of
           Inl e \<Rightarrow> Inl e
         | Inr numToRemove \<Rightarrow>
         (let numToRemove = clamp (maxNodesToSwapPerShard arg) numToRemove;
              remainingUnstakeLeaving = fst (removeLeavingNodesNotExistingInEligibleOrWaiting (unstakeLeaving arg) waitingCopy eligibleCopy);
              remainingAdditionalLeaving = fst (removeLeavingNodesNotExistingInEligibleOrWaiting (additionalLeaving arg) waitingCopy eligibleCopy);
              (newEligible, newWaiting, stillRemainingUnstakeLeaving, numToRemove) =
                removeLeavingNodesFromValidatorMaps eligibleCopy waitingCopy numToRemove remainingUnstakeLeaving;
              (newEligible, newWaiting, stillRemainingAdditionalLeaving, numToRemove) =
                removeLeavingNodesFromValidatorMaps newEligible newWaiting numToRemove remainingAdditionalLeaving;
              stillRemainingInLeaving = stillRemainingUnstakeLeaving @ stillRemainingAdditionalLeaving;
              (shuffledOutMap, newEligible) = shuffleOutNodes (Compute env) newEligible numToRemove (randomness arg)
          in case moveMaxNumNodesToMap (MetachainShardId env) (Some newEligible) newWaiting (nodesMeta arg) (nodesPerShard arg) of
               Inl e \<Rightarrow> Inl e
             | Inr (newEligible, newWaiting) \<Rightarrow>
           (case checkAndDistributeNewNodes (Compute env) newWaiting (newNodes arg) (randomness arg) (flagStakingV4Step3 arg) of
              Inl e \<Rightarrow> Inl e
            | Inr newWaiting \<Rightarrow>
            (let cfg = \<lparr>numShuffled = getNumPubKeys shuffledOutMap, numNewEligible = getNumPubKeys newEligible,
                        numNewWaiting = getNumPubKeys newWaiting, numSelectedAuction = of_nat (length (auction arg)),
                        cfg_maxNumNodes = maxNumNodes arg, cfg_flagStakingV4Step2 = flagStakingV4Step2 arg\<rparr>;
                 lowWaitingList = shouldDistributeShuffledToWaitingInStakingV4 cfg
             in case (if flagStakingV4Step3 arg \<or> lowWaitingList
                      then distributeValidators (Compute env) newWaiting (auction arg) (randomness arg) (flagBalanceWaitingLists arg)
                      else Inr newWaiting) of
                  Inl e \<Rightarrow> Inl e
                | Inr newWaiting \<Rightarrow>
              (case (if \<not> flagStakingV4Step2 arg \<or> lowWaitingList
                     then DistributeValidators env (distributor_of arg) newWaiting shuffledOutMap (randomness arg)
                            (flagBalanceWaitingLists arg)
                     else Inr (newWaiting, shuffledOutMap)) of
                 Inl e \<Rightarrow> Inl e
               | Inr (newWaiting, shuffledOutMap) \<Rightarrow>
                   Inr \<lparr>Eligible = newEligible, Waiting = newWaiting, ShuffledOut = shuffledOutMap,
                        Leaving = fst (removeValidatorsFromList allLeaving stillRemainingInLeaving (int (length stillRemainingInLeaving))),
                        StillRemaining = stillRemainingInLeaving,
                        LowWaitingList = (flagCleanupAuctionOnLowWaitingList arg \<and> lowWaitingList)\<rparr>)))))"

definition sortConfigs :: "randHashShuffler \<Rightarrow> randHashShuffler" where
  "sortConfigs rhs = rhs\<lparr>availableNodesConfigs := sort_Slice (\<lambda>a b. EpochEnable a < EpochEnable b) (availableNodesConfigs rhs)\<rparr>"

text \<open>\<open>checkCompatibility\<close> is \<open>core.CheckHandlerCompatibility\<close> for the two flags.\<close>

definition NewHashValidatorsShuffler ::
  "(epochs_handler \<Rightarrow> bool) \<Rightarrow> NodesShufflerArgs option \<Rightarrow> randHashShuffler shuffled" where
  "NewHashValidatorsShuffler checkCompatibility arguments =
     (case arguments of
        None \<Rightarrow> Inl ErrNilNodeShufflerArguments
      | Some args \<Rightarrow>
         (case sa_EnableEpochsHandler args of
            None \<Rightarrow> Inl ErrNilEnableEpochsHandler
          | Some h \<Rightarrow>
              if \<not> checkCompatibility h then Inl ErrIncompatibleHandler
              else Inr (sortConfigs
                \<lparr>shuffleBetweenShards = sa_ShuffleBetweenShards args,
                 activeNodesConfig = \<lparr>EpochEnable = 0, MaxNumNodes = 0, NodesToShufflePerShard = 0\<rparr>,
                 availableNodesConfigs = sa_MaxNodesEnableConfig args,
                 validatorDistributor = (if sa_ShuffleBetweenShards args then CrossShardValidatorDistributor else IntraShardValidatorDistributor),
                 enableEpochsHandler = h,
                 stakingV4Step2EnableEpoch = sa_StakingV4Step2EnableEpoch args, rhs_flagStakingV4Step2 = False,
                 stakingV4Step3EnableEpoch = sa_StakingV4Step3EnableEpoch args, rhs_flagStakingV4Step3 = False\<rparr>)))"

definition UpdateShufflerConfig :: "randHashShuffler \<Rightarrow> u32 \<Rightarrow> ChainParametersByEpochConfig \<Rightarrow> randHashShuffler" where
  "UpdateShufflerConfig rhs epoch chainParameters =
     (let active = (activeNodesConfig rhs)\<lparr>NodesToShufflePerShard := ShardMinNumNodes chainParameters\<rparr>;
          active = foldl (\<lambda>active maxNodesConfig. if epoch \<ge> EpochEnable maxNodesConfig then maxNodesConfig else active)
                     active (availableNodesConfigs rhs)
      in rhs\<lparr>activeNodesConfig := active, rhs_flagStakingV4Step3 := epoch \<ge> stakingV4Step3EnableEpoch rhs,
             rhs_flagStakingV4Step2 := epoch \<ge> stakingV4Step2EnableEpoch rhs\<rparr>)"

definition metaHysteresis :: "shuffle_env \<Rightarrow> ChainParametersByEpochConfig \<Rightarrow> u32" where
  "metaHysteresis env chainParameters = scale env (Hysteresis chainParameters) (MetachainMinNumNodes chainParameters)"

definition shardHysteresis :: "shuffle_env \<Rightarrow> ChainParametersByEpochConfig \<Rightarrow> u32" where
  "shardHysteresis env chainParameters = scale env (Hysteresis chainParameters) (ShardMinNumNodes chainParameters)"

definition computeNewShards ::
  "shuffle_env \<Rightarrow> ChainParametersByEpochConfig \<Rightarrow> vmap \<Rightarrow> vmap \<Rightarrow> nat \<Rightarrow> nat \<Rightarrow> u32 \<Rightarrow> u32 shuffled" where
  "computeNewShards env chainParameters e w numNewNodes numLeavingNodes shards =
     (let (nbEligible, nbWaiting) = foldl (\<lambda>(ne, nw) (shard, _). (ne + length (lst e shard), nw + length (lst w shard))) (0, 0) e;
          nodesNewEpoch = of_int (int nbEligible + int nbWaiting + int numNewNodes - int numLeavingNodes) :: u32;
          maxNodesMeta = MetachainMinNumNodes chainParameters + metaHysteresis env chainParameters;
          maxNodesShard = ShardMinNumNodes chainParameters + shardHysteresis env chainParameters;
          nodesForSplit = (shards + 1) * maxNodesShard + maxNodesMeta;
          nodesForMerge = shards * ShardMinNumNodes chainParameters + MetachainMinNumNodes chainParameters
      in if nodesNewEpoch > nodesForSplit
         then if maxNodesShard = 0 then Inl PanicDivideByZero
              else Inr ((nodesNewEpoch - maxNodesMeta) div maxNodesShard)
         else if nodesNewEpoch < nodesForMerge then Inr (shards - 1)
         else Inr shards)"

definition splitShards :: "vmap \<Rightarrow> vmap \<Rightarrow> u32 \<Rightarrow> vmap \<times> vmap" where
  "splitShards e w newNbShards = (copyValidatorMap e, copyValidatorMap w)"

definition mergeShards :: "vmap \<Rightarrow> vmap \<Rightarrow> u32 \<Rightarrow> vmap \<times> vmap" where
  "mergeShards e w newNbShards = (copyValidatorMap e, copyValidatorMap w)"

definition UpdateNodeLists ::
  "shuffle_env \<Rightarrow> randHashShuffler \<Rightarrow> ArgsUpdateNodes
     \<Rightarrow> randHashShuffler \<times> ResUpdateNodes shuffled" where
  "UpdateNodeLists env rhs args =
     (let rhs = UpdateShufflerConfig rhs (Epoch args) (ChainParameters args);
          chainParameters = ChainParameters args;
          eligibleAfterReshard = copyValidatorMap (au_Eligible args);
          waitingAfterReshard = copyValidatorMap (au_Waiting args);
          additional = removeDuplicates (UnStakeLeaving args) (AdditionalLeaving args);
          totalLeavingNum = length additional + length (UnStakeLeaving args)
      in case computeNewShards env chainParameters (au_Eligible args) (au_Waiting args) (length (NewNodes args))
                totalLeavingNum (NbShards args) of
           Inl e \<Rightarrow> (rhs, Inl e)
         | Inr newNbShards \<Rightarrow>
             let canSplit = Adaptivity chainParameters \<and> newNbShards > NbShards args;
                 canMerge = Adaptivity chainParameters \<and> newNbShards < NbShards args;
                 (eligibleAfterReshard, waitingAfterReshard) =
                   (if canSplit then splitShards (au_Eligible args) (au_Waiting args) newNbShards
                    else (eligibleAfterReshard, waitingAfterReshard));
                 (eligibleAfterReshard, waitingAfterReshard) =
                   (if canMerge then mergeShards (au_Eligible args) (au_Waiting args) newNbShards
                    else (eligibleAfterReshard, waitingAfterReshard))
             in (rhs, shuffleNodes env
                  \<lparr>eligible = eligibleAfterReshard, waiting = waitingAfterReshard,
                   unstakeLeaving = UnStakeLeaving args, additionalLeaving = additional, newNodes = NewNodes args,
                   auction = Auction args, randomness = Rand args, distributor_of = validatorDistributor rhs,
                   nodesMeta = MetachainMinNumNodes chainParameters, nodesPerShard = ShardMinNumNodes chainParameters,
                   nbShards = NbShards args, maxNodesToSwapPerShard = NodesToShufflePerShard (activeNodesConfig rhs),
                   maxNumNodes = MaxNumNodes (activeNodesConfig rhs),
                   flagBalanceWaitingLists = enableEpochsHandler rhs BalanceWaitingListsFlag (Epoch args),
                   flagStakingV4Step2 = rhs_flagStakingV4Step2 rhs, flagStakingV4Step3 = rhs_flagStakingV4Step3 rhs,
                   flagCleanupAuctionOnLowWaitingList = enableEpochsHandler rhs CleanupAuctionOnLowWaitingListFlag (Epoch args)\<rparr>))"

end
