(* ===== verification/Shuffler_Props.thy ===== *)
theory Shuffler_Props
  imports Validator_Shuffler
begin

text \<open>
  What the shuffler keeps: no validator is lost or doubled, every shard keeps its minimum of eligible
  nodes, the update fails only for the documented reasons, and its result does not depend on the order
  in which the maps are visited.
\<close>

section \<open>The keys of lists and maps\<close>

definition keys_of :: "Validator list \<Rightarrow> bytes multiset" where
  "keys_of vs = mset (map pubKey vs)"

definition map_keys :: "vmap \<Rightarrow> bytes multiset" where
  "map_keys m = keys_of (concat (map snd m))"

abbreviation shards_of :: "vmap \<Rightarrow> u32 list" where
  "shards_of m \<equiv> map fst m"

lemma keys_of_simps [simp]:
  "keys_of [] = {#}" "keys_of (v # vs) = add_mset (pubKey v) (keys_of vs)" "keys_of (vs @ ws) = keys_of vs + keys_of ws"
  by (simp_all add: keys_of_def)

lemma size_keys_of [simp]: "size (keys_of vs) = length vs"
  by (simp add: keys_of_def)

lemma set_keys_of [simp]: "set_mset (keys_of vs) = pubKey ` set vs"
  by (simp add: keys_of_def)

lemma keys_of_mset: "mset vs = mset ws \<Longrightarrow> keys_of vs = keys_of ws"
  by (simp add: keys_of_def)

lemma keys_of_take_drop: "keys_of (take n vs) + keys_of (drop n vs) = keys_of vs"
  by (simp flip: keys_of_simps(3))

lemma map_keys_simps [simp]: "map_keys [] = {#}" "map_keys ((k, vs) # m) = keys_of vs + map_keys m"
  by (simp_all add: map_keys_def)

lemma lst_simps [simp]: "lst [] k = []" "lst ((j, vs) # m) k = (if j = k then vs else lst m k)"
  by (simp_all add: lst_def)

lemma lst_missing: "k \<notin> set (shards_of m) \<Longrightarrow> lst m k = []"
  by (simp add: lst_def map_of_eq_None_iff [THEN iffD2])

lemma lst_update [simp]: "lst (AList.update k vs m) j = (if j = k then vs else lst m j)"
  by (simp add: lst_def update_conv)

lemma num_update [simp]: "num (m(k \<mapsto> n)) j = (if j = k then n else num m j)"
  by (simp add: num_def)

lemma set_shards_update [simp]: "fst ` set (AList.update k vs m) = insert k (fst ` set m)"
  by (simp add: dom_update)

lemma distinct_shards_update [simp]: "distinct (shards_of m) \<Longrightarrow> distinct (shards_of (AList.update k vs m))"
  by (rule distinct_update)

lemma shards_update_mem: "k \<in> set (shards_of m) \<Longrightarrow> shards_of (AList.update k vs m) = shards_of m"
  by (induction m) auto

lemma map_keys_update: "distinct (shards_of m) \<Longrightarrow> map_keys (AList.update k vs m) + keys_of (lst m k) = map_keys m + keys_of vs"
  by (induction m) (auto simp: lst_missing ac_simps)

lemma keys_of_lst_subset: "distinct (shards_of m) \<Longrightarrow> keys_of (lst m k) \<subseteq># map_keys m"
  using map_keys_update [of m k "[]"] by (metis keys_of_simps(1) add_0_right mset_subset_eq_add_right)

lemma set_sortKeys [simp]: "set (sortKeys m) = set (shards_of m)"
  by (simp add: sortKeys_def)

lemma distinct_sortKeys [simp]: "distinct (sortKeys m) \<longleftrightarrow> distinct (shards_of m)"
  by (simp add: sortKeys_def)

lemma copy_append:
  "distinct (shards_of (m @ m')) \<Longrightarrow>
     foldl (\<lambda>result (shardId, validators). AList.update shardId validators result) m m' = m @ m'"
proof (induction m' arbitrary: m)
  case (Cons p m')
  obtain k vs where p: "p = (k, vs)" by (cases p)
  have "AList.update k vs m = m @ [(k, vs)]"
    using Cons.prems p by (induction m) auto
  then show ?case using Cons.IH [of "m @ [(k, vs)]"] Cons.prems p by simp
qed simp

lemma copyValidatorMap_id [simp]: "distinct (shards_of m) \<Longrightarrow> copyValidatorMap m = m"
  using copy_append [of "[]" m] by (simp add: copyValidatorMap_def)

lemma searchInMap_iff: "distinct (shards_of m) \<Longrightarrow> fst (searchInMap m pk) \<longleftrightarrow> pk \<in># map_keys m"
proof -
  have "fst (searchInMap m pk) \<longleftrightarrow> (\<exists>(k, vs) \<in> set m. pk \<in> pubKey ` set vs)"
    by (auto simp: searchInMap_def find_None_iff split: option.splits dest!: find_None_iff2 [THEN iffD1] find_Some_iff [THEN iffD1])
       (metis (mono_tags, lifting) case_prodI2 fst_conv image_iff nth_mem prod.collapse snd_conv)+
  also have "\<dots> \<longleftrightarrow> pk \<in># map_keys m"
    by (force simp: map_keys_def)
  finally show ?thesis .
qed

section \<open>Removals\<close>

lemma find_from_end_Some: "find_from_end l pk n = Some i \<Longrightarrow> i < n \<and> pubKey (l ! i) = pk"
  by (induction n) (auto split: if_splits)

lemma find_from_end_None: "find_from_end l pk n = None \<Longrightarrow> i < n \<Longrightarrow> pubKey (l ! i) \<noteq> pk"
  by (induction n) (auto simp: less_Suc_eq split: if_splits)

lemma find_from_end_None_iff: "find_from_end l pk (length l) = None \<longleftrightarrow> pk \<notin># keys_of l"
  using find_from_end_None [of l pk "length l"] find_from_end_Some [of l pk "length l"]
  by (auto simp: in_set_conv_nth image_iff) (metis not_None_eq nth_mem)+

lemma mset_removeValidatorFromList:
  assumes "i < length l"
  shows "add_mset (l ! i) (mset (removeValidatorFromList l (int i))) = mset l"
proof -
  obtain ys y where l: "l = ys @ [y]" using assms by (cases l rule: rev_exhaust) auto
  show ?thesis
  proof (cases "i = length ys")
    case True
    then show ?thesis by (simp add: removeValidatorFromList_def l)
  next
    case False
    then have "i < length ys" using assms l by simp
    then have "add_mset (ys ! i) (mset (ys[i := y])) = add_mset y (mset ys)"
      by (simp add: mset_update)
    then show ?thesis
      using \<open>i < length ys\<close> by (simp add: removeValidatorFromList_def l list_update_append nth_append butlast_append)
  qed
qed

lemma keys_of_removeValidatorFromList:
  "i < length l \<Longrightarrow> add_mset (pubKey (l ! i)) (keys_of (removeValidatorFromList l (int i))) = keys_of l"
  using mset_removeValidatorFromList [of i l] unfolding keys_of_def by (metis image_mset_add_mset mset_map)

lemma remove_loop_spec:
  assumes "remove_loop vs maxn res rem = (res', rem')"
  shows "\<exists>r. rem' = rem @ r \<and> mset res' + mset r = mset res \<and> keys_of r \<subseteq># keys_of vs \<and>
      (int (length rem) \<le> maxn \<longrightarrow> int (length rem') \<le> maxn)"
  using assms
proof (induction vs maxn res rem rule: remove_loop.induct)
  case (2 v vs maxn res rem)
  show ?case
  proof (cases "int (length rem) = maxn")
    case True
    with 2 show ?thesis by auto
  next
    case False
    show ?thesis
    proof (cases "find_from_end res (pubKey v) (length res)")
      case None
      then obtain r where "rem' = rem @ r" "mset res' + mset r = mset res" "keys_of r \<subseteq># keys_of vs"
          "int (length rem) \<le> maxn \<longrightarrow> int (length rem') \<le> maxn"
        using "2.IH"(1) [OF False None] "2.prems" False by auto
      then show ?thesis by (auto intro: subset_mset.trans [OF _ mset_subset_eq_add_right [of _ "{#_#}"], simplified])
    next
      case (Some i)
      note i = find_from_end_Some [OF Some]
      obtain r where r: "rem' = (rem @ [res ! i]) @ r" "mset res' + mset r = mset (removeValidatorFromList res (int i))"
          "keys_of r \<subseteq># keys_of vs" "int (length (rem @ [res ! i])) \<le> maxn \<longrightarrow> int (length rem') \<le> maxn"
        using "2.IH"(2) [OF False Some] "2.prems" False Some by auto
      have "mset res' + mset (res ! i # r) = mset res"
        using r(2) mset_removeValidatorFromList [of i res] i by simp
      moreover have "keys_of (res ! i # r) \<subseteq># keys_of (v # vs)" using r(3) i by simp
      moreover have "int (length rem) \<le> maxn \<longrightarrow> int (length rem') \<le> maxn" using r(4) False by auto
      moreover have "rem' = rem @ res ! i # r" using r(1) by simp
      ultimately show ?thesis by blast
    qed
  qed
qed simp

text \<open>Without a limit, what is removed is what both lists have.\<close>

lemma remove_loop_all:
  assumes "remove_loop vs maxn res rem = (res', rem')" and "int (length rem + length vs) \<le> maxn"
  shows "keys_of res' = keys_of res - keys_of vs"
  using assms
proof (induction vs maxn res rem rule: remove_loop.induct)
  case (2 v vs maxn res rem)
  then have no: "int (length rem) \<noteq> maxn" by simp
  show ?case
  proof (cases "find_from_end res (pubKey v) (length res)")
    case None
    then have "keys_of res' = keys_of res - keys_of vs" using "2.IH"(1) [OF no None] "2.prems" no by simp
    moreover have "pubKey v \<notin># keys_of res" using None by (simp add: find_from_end_None_iff)
    ultimately show ?thesis
      by (simp del: set_keys_of add: diff_right_commute [of "keys_of res" "{#pubKey v#}"] flip: diff_union_swap2)
  next
    case (Some i)
    note i = find_from_end_Some [OF Some]
    have "keys_of res' = keys_of (removeValidatorFromList res (int i)) - keys_of vs"
      using "2.IH"(2) [OF no Some] "2.prems" no Some by simp
    moreover have "keys_of res = add_mset (pubKey v) (keys_of (removeValidatorFromList res (int i)))"
      using keys_of_removeValidatorFromList [of i res] i by simp
    ultimately show ?thesis by simp
  qed
qed simp

text \<open>
  Removing leaving nodes from a map: the nodes taken from the lists are taken from the leaving nodes,
  and the number that may still be removed from a shard goes down with the length of its list.
\<close>

definition taken :: "vmap \<Rightarrow> Validator list \<Rightarrow> nums \<Rightarrow> vmap \<Rightarrow> Validator list \<Rightarrow> nums \<Rightarrow> bool" where
  "taken m lv n m' lv' n' \<longleftrightarrow>
     shards_of m' = shards_of m \<and>
     (\<exists>R. map_keys m = map_keys m' + R \<and> keys_of lv = keys_of lv' + R) \<and>
     (\<forall>k. 0 \<le> num n' k \<and> int (length (lst m' k)) - num n' k = int (length (lst m k)) - num n k \<and>
          keys_of (lst m' k) \<subseteq># keys_of (lst m k))"

lemma taken_refl: "\<forall>k. 0 \<le> num n k \<Longrightarrow> taken m lv n m lv n"
  by (simp add: taken_def)

lemma taken_trans:
  assumes "taken m lv n m' lv' n'" and "taken m' lv' n' m'' lv'' n''"
  shows "taken m lv n m'' lv'' n''"
proof -
  obtain R R' where "map_keys m = map_keys m' + R" "keys_of lv = keys_of lv' + R"
      "map_keys m' = map_keys m'' + R'" "keys_of lv' = keys_of lv'' + R'"
    using assms unfolding taken_def by blast
  then have "map_keys m = map_keys m'' + (R' + R) \<and> keys_of lv = keys_of lv'' + (R' + R)"
    by (simp add: ac_simps)
  then show ?thesis
    using assms unfolding taken_def by (metis subset_mset.trans)
qed

lemma removeNodesFromShard_taken:
  assumes "removeNodesFromShard m lv s (num n s) = (m', lv', r)"
    and "distinct (shards_of m)" "s \<in> set (shards_of m)" "\<forall>k. 0 \<le> num n k"
  shows "taken m lv n m' lv' (n(s \<mapsto> num n s - int r))"
proof -
  define nb where "nb = (if int (length lv) < num n s then int (length lv) else num n s)"
  obtain vl removed where rm: "removeValidatorsFromList (lst m s) lv nb = (vl, removed)" by fastforce
  obtain lv2 x where rm2: "removeValidatorsFromList lv removed (int (length removed)) = (lv2, x)" by fastforce
  have m': "m' = AList.update s vl m" "lv' = lv2" "r = length removed"
    using assms(1) rm rm2 by (auto simp: removeNodesFromShard_def nb_def)
  have 1: "mset vl + mset removed = mset (lst m s)" "keys_of removed \<subseteq># keys_of lv" "int (length removed) \<le> nb"
    using remove_loop_spec [OF rm [unfolded removeValidatorsFromList_def]] assms(4) by (auto simp: nb_def)
  have vl: "keys_of vl + keys_of removed = keys_of (lst m s)"
    using keys_of_mset [of "vl @ removed" "lst m s"] 1(1) by simp
  have "keys_of lv2 = keys_of lv - keys_of removed"
    using remove_loop_all [OF rm2 [unfolded removeValidatorsFromList_def]] by simp
  then have lv: "keys_of lv = keys_of lv2 + keys_of removed" using 1(2) by simp
  have m: "map_keys m = map_keys m' + keys_of removed"
  proof -
    have "map_keys m' + keys_of removed + keys_of vl = map_keys m + keys_of vl"
      using map_keys_update [OF assms(2), of s vl] unfolding m'(1) vl [symmetric] by (simp only: ac_simps)
    then show ?thesis by simp
  qed
  have "length vl + length removed = length (lst m s)"
    using arg_cong [OF vl, of size] by simp
  moreover have "int (length removed) \<le> num n s" using 1(3) by (simp add: nb_def split: if_splits)
  moreover have "keys_of vl \<subseteq># keys_of (lst m s)" using vl by (metis mset_subset_eq_add_left)
  ultimately show ?thesis
    unfolding taken_def using m lv m' assms(3,4) by (auto simp: shards_update_mem)
qed

lemma nodes_loop_taken:
  assumes "nodes_loop ss m lv n = (m', lv', n')"
    and "distinct (shards_of m)" "set ss \<subseteq> set (shards_of m)" "\<forall>k. 0 \<le> num n k"
  shows "taken m lv n m' lv' n'"
  using assms
proof (induction ss arbitrary: m lv n)
  case Nil
  then show ?case by (simp add: taken_refl)
next
  case (Cons s ss)
  obtain m1 lv1 r where r: "removeNodesFromShard m lv s (num n s) = (m1, lv1, r)" by (metis prod_cases3)
  have t: "taken m lv n m1 lv1 (n(s \<mapsto> num n s - int r))"
    using removeNodesFromShard_taken [OF r] Cons.prems by simp
  moreover have "taken m1 lv1 (n(s \<mapsto> num n s - int r)) m' lv' n'"
  proof (rule Cons.IH)
    show "nodes_loop ss m1 lv1 (n(s \<mapsto> num n s - int r)) = (m', lv', n')" using Cons.prems(1) r by simp
    show "distinct (shards_of m1)" "set ss \<subseteq> set (shards_of m1)" "\<forall>k. 0 \<le> num (n(s \<mapsto> num n s - int r)) k"
      using t Cons.prems unfolding taken_def by (metis, metis set_subset_Cons subset_trans, blast)
  qed
  ultimately show ?case by (rule taken_trans)
qed

lemma removeNodesFromMap_taken:
  assumes "removeNodesFromMap m lv n = (m', lv', n')" and "distinct (shards_of m)" "\<forall>k. 0 \<le> num n k"
  shows "taken m lv n m' lv' n'"
  using nodes_loop_taken [OF assms(1) [unfolded removeNodesFromMap_def]] assms(2,3) by simp

text \<open>The same for the eligible and the waiting nodes together.\<close>

definition taken2 :: "vmap \<Rightarrow> vmap \<Rightarrow> nums \<Rightarrow> bytes multiset \<Rightarrow> vmap \<Rightarrow> vmap \<Rightarrow> nums \<Rightarrow> bool" where
  "taken2 e w n R e' w' n' \<longleftrightarrow>
     shards_of e' = shards_of e \<and> shards_of w' = shards_of w \<and>
     map_keys e + map_keys w = map_keys e' + map_keys w' + R \<and>
     (\<forall>k. 0 \<le> num n' k \<and>
          int (length (lst e' k)) + int (length (lst w' k)) - num n' k =
          int (length (lst e k)) + int (length (lst w k)) - num n k \<and>
          keys_of (lst e' k) \<subseteq># keys_of (lst e k) \<and> keys_of (lst w' k) \<subseteq># keys_of (lst w k))"

lemma taken2_trans:
  "taken2 e w n R e' w' n' \<Longrightarrow> taken2 e' w' n' R' e'' w'' n'' \<Longrightarrow> taken2 e w n (R + R') e'' w'' n''"
  unfolding taken2_def by (auto simp: ac_simps intro: subset_mset.trans)

lemma removeLeavingNodesFromValidatorMaps_taken2:
  assumes "removeLeavingNodesFromValidatorMaps e w n lv = (e', w', lv', n')"
    and "distinct (shards_of e)" "distinct (shards_of w)" "\<forall>k. 0 \<le> num n k"
  shows "\<exists>R. taken2 e w n R e' w' n' \<and> keys_of lv = keys_of lv' + R"
proof -
  obtain w1 lv1 n1 where r1: "removeNodesFromMap w lv n = (w1, lv1, n1)" by (metis prod_cases3)
  note t1 = removeNodesFromMap_taken [OF r1 assms(3,4)]
  obtain e1 lv2 n2 where r2: "removeNodesFromMap e lv1 n1 = (e1, lv2, n2)" by (metis prod_cases3)
  have t2: "taken e lv1 n1 e1 lv2 n2"
    by (rule removeNodesFromMap_taken [OF r2 assms(2)]) (use t1 in \<open>auto simp: taken_def\<close>)
  have eq: "e' = e1" "w' = w1" "lv' = lv2" "n' = n2"
    using assms(1) r1 r2 by (auto simp: removeLeavingNodesFromValidatorMaps_def)
  obtain R1 R2 where R: "map_keys w = map_keys w1 + R1" "keys_of lv = keys_of lv1 + R1"
      "map_keys e = map_keys e1 + R2" "keys_of lv1 = keys_of lv2 + R2"
    using t1 t2 unfolding taken_def by blast
  have len: "0 \<le> num n2 k \<and> int (length (lst e1 k)) + int (length (lst w1 k)) - num n2 k =
      int (length (lst e k)) + int (length (lst w k)) - num n k" for k
  proof -
    have "int (length (lst w1 k)) - num n1 k = int (length (lst w k)) - num n k" using t1 unfolding taken_def by blast
    moreover have "0 \<le> num n2 k \<and> int (length (lst e1 k)) - num n2 k = int (length (lst e k)) - num n1 k"
      using t2 unfolding taken_def by blast
    ultimately show ?thesis by linarith
  qed
  have "taken2 e w n (R1 + R2) e1 w1 n2"
    unfolding taken2_def using len R t1 t2 by (auto simp: taken_def ac_simps)
  then show ?thesis using R eq by (metis union_assoc union_commute)
qed

section \<open>Shuffling\<close>

lemma length_shuffleList [simp]: "length (shuffleList c vs r) = length vs"
  by (simp add: shuffleList_def Let_def mset_sort_Slice [THEN mset_eq_length])

text \<open>The hash of a key is enough to find a validator with this key.\<close>

lemma shuffleList_lookup:
  assumes "v \<in> set vs"
  shows "\<exists>v' \<in> set vs. (Map.empty(map f vs [\<mapsto>] vs)) (f v) = Some v' \<and> f v' = f v"
proof -
  have "f v \<in> dom (map_of (rev (zip (map f vs) vs)))"
  proof -
    have "dom (map_of (rev (zip (map f vs) vs))) = set (map fst (zip (map f vs) vs))"
      by (simp only: dom_map_of_conv_image_fst set_rev list.set_map)
    also have "\<dots> = f ` set vs" by (simp only: map_fst_zip length_map list.set_map)
    finally show ?thesis using assms by blast
  qed
  then obtain v' where v': "map_of (rev (zip (map f vs) vs)) (f v) = Some v'" by blast
  then have "(f v, v') \<in> set (zip (map f vs) vs)" by (metis map_of_SomeD set_rev)
  then have "v' \<in> set vs \<and> f v' = f v" by (auto simp: set_zip)
  then show ?thesis using v' by (auto simp: map_upds_def)
qed

lemma keys_shuffleList:
  assumes inj: "inj_on (\<lambda>k. c (k @ r)) (pubKey ` set vs)"
  shows "keys_of (shuffleList c vs r) = keys_of vs"
proof -
  define f where "f = (\<lambda>v :: Validator. c (pubKey v @ r))"
  define g where "g = (\<lambda>k. pubKey (the ((Map.empty(map f vs [\<mapsto>] vs)) k)))"
  have g: "g (f v) = pubKey v" if v: "v \<in> set vs" for v
  proof -
    obtain v' where "v' \<in> set vs" "(Map.empty(map f vs [\<mapsto>] vs)) (f v) = Some v'" "f v' = f v"
      using shuffleList_lookup [OF v, of f] by blast
    then show ?thesis using inj v by (auto simp: g_def f_def inj_on_def)
  qed
  have "shuffleList c vs r = map (\<lambda>k. the ((Map.empty(map f vs [\<mapsto>] vs)) k)) (sort_Slice (\<lambda>x y. bytes_Compare x y < 0) (map f vs))"
    unfolding shuffleList_def Let_def f_def ..
  then have "keys_of (shuffleList c vs r) = image_mset g (mset (map f vs))"
    by (simp add: keys_of_def g_def image_mset.compositionality comp_def)
  also have "\<dots> = keys_of vs"
    using g by (auto simp: keys_of_def image_mset.compositionality comp_def intro!: image_mset_cong)
  finally show ?thesis .
qed

text \<open>A map built shard by shard.\<close>

definition tabulate :: "u32 list \<Rightarrow> (u32 \<Rightarrow> Validator list) \<Rightarrow> vmap" where
  "tabulate ks f = map (\<lambda>k. (k, f k)) ks"

lemma shards_tabulate [simp]: "shards_of (tabulate ks f) = ks"
  by (simp add: tabulate_def comp_def)

lemma lst_tabulate [simp]: "lst (tabulate ks f) k = (if k \<in> set ks then f k else [])"
  by (induction ks) (auto simp: tabulate_def)

lemma tabulate_lst: "distinct (shards_of m) \<Longrightarrow> tabulate (shards_of m) (lst m) = m"
proof (induction m)
  case (Cons p m)
  have "tabulate (shards_of m) (lst (p # m)) = tabulate (shards_of m) (lst m)"
    using Cons.prems by (cases p) (auto simp: tabulate_def)
  with Cons show ?case by (cases p) (auto simp: tabulate_def)
qed (simp add: tabulate_def)

lemma map_keys_tabulate: "map_keys (tabulate ks f) = (\<Sum>k\<in>#mset ks. keys_of (f k))"
  by (induction ks) (auto simp: tabulate_def)

lemma map_keys_sum: "distinct (shards_of m) \<Longrightarrow> map_keys m = (\<Sum>k\<in>#mset (shards_of m). keys_of (lst m k))"
  using tabulate_lst [of m] map_keys_tabulate [of "shards_of m" "lst m"] by simp

lemma update_tabulate: "k \<notin> set ks \<Longrightarrow> AList.update k vs (tabulate ks f) = tabulate ks f @ [(k, vs)]"
  by (induction ks) (auto simp: tabulate_def)

definition out_count :: "vmap \<Rightarrow> nums \<Rightarrow> u32 \<Rightarrow> nat" where
  "out_count e n k = nat (min (num n k) (int (length (lst e k))))"

definition shuffled_out :: "(bytes \<Rightarrow> bytes) \<Rightarrow> vmap \<Rightarrow> nums \<Rightarrow> bytes \<Rightarrow> u32 \<Rightarrow> Validator list" where
  "shuffled_out c e n r k = take (out_count e n k) (shuffleList c (lst e k) r)"

definition kept_in :: "(bytes \<Rightarrow> bytes) \<Rightarrow> vmap \<Rightarrow> nums \<Rightarrow> bytes \<Rightarrow> u32 \<Rightarrow> Validator list" where
  "kept_in c e n r k =
     fst (removeValidatorsFromList (drop (out_count e n k) (shuffleList c (lst e k) r)) (shuffled_out c e n r k)
            (int (length (shuffled_out c e n r k))))"

lemma shuffleOutNodes_tabulate:
  assumes "distinct (shards_of e)"
  shows "shuffleOutNodes c e n r = (tabulate (sortKeys e) (shuffled_out c e n r), tabulate (sortKeys e) (kept_in c e n r))"
proof -
  define F where "F = (\<lambda>(shuffledOutMap, newEligible) shardId.
         let (shardShuffledOut, validators) = shuffleOutShard c (lst e shardId) (num n shardId) r
         in (AList.update shardId shardShuffledOut shuffledOutMap,
             AList.update shardId (fst (removeValidatorsFromList validators shardShuffledOut (int (length shardShuffledOut)))) newEligible))"
  have out: "shuffleOutShard c (lst e k) (num n k) r =
      (shuffled_out c e n r k, drop (out_count e n k) (shuffleList c (lst e k) r))" for k
    by (simp add: shuffleOutShard_def Let_def shuffled_out_def out_count_def min_def)
  have "foldl F (tabulate ks (shuffled_out c e n r), tabulate ks (kept_in c e n r)) js =
      (tabulate (ks @ js) (shuffled_out c e n r), tabulate (ks @ js) (kept_in c e n r))"
    if "distinct (ks @ js)" for ks js
    using that
  proof (induction js arbitrary: ks)
    case (Cons j js)
    have "F (tabulate ks (shuffled_out c e n r), tabulate ks (kept_in c e n r)) j =
        (tabulate (ks @ [j]) (shuffled_out c e n r), tabulate (ks @ [j]) (kept_in c e n r))"
      using Cons.prems by (simp add: F_def out update_tabulate) (simp add: tabulate_def kept_in_def)
    with Cons.IH [of "ks @ [j]"] Cons.prems show ?case by simp
  qed simp
  from this [of "[]" "sortKeys e"] show ?thesis
    using assms unfolding shuffleOutNodes_def F_def [symmetric] by (simp add: tabulate_def)
qed

definition keys_distinct :: "vmap \<Rightarrow> bool" where
  "keys_distinct m \<longleftrightarrow> (\<forall>k. distinct (map pubKey (lst m k)))"

definition injective_on :: "(bytes \<Rightarrow> bytes) \<Rightarrow> bytes \<Rightarrow> bytes set \<Rightarrow> bool" where
  "injective_on c r K \<longleftrightarrow> inj_on (\<lambda>k. c (k @ r)) K"

lemma mset_diff_disjoint: "set_mset A \<inter> set_mset B = {} \<Longrightarrow> A - B = A"
  by (rule multiset_eqI) (metis count_diff diff_zero disjoint_iff not_in_iff diff_0_eq_0)

lemma keys_of_kept_in:
  assumes "distinct (map pubKey (lst e k))" and "injective_on c r (pubKey ` set (lst e k))"
  shows "keys_of (kept_in c e n r k) + keys_of (shuffled_out c e n r k) = keys_of (lst e k)"
proof -
  let ?s = "shuffleList c (lst e k) r" and ?k = "out_count e n k"
  have ks: "keys_of ?s = keys_of (lst e k)"
    using assms(2) by (intro keys_shuffleList) (simp add: injective_on_def)
  then have "distinct (map pubKey ?s)"
    using assms(1) unfolding keys_of_def by (metis mset_eq_imp_distinct_iff)
  then have disj: "pubKey ` set (drop ?k ?s) \<inter> pubKey ` set (take ?k ?s) = {}"
    by (metis append_take_drop_id distinct_append inf_commute list.set_map map_append)
  obtain res rem where rm: "remove_loop (take ?k ?s) (int (length (take ?k ?s))) (drop ?k ?s) [] = (res, rem)" by fastforce
  have "keys_of res = keys_of (drop ?k ?s) - keys_of (take ?k ?s)"
    by (rule remove_loop_all [OF rm]) simp
  also have "\<dots> = keys_of (drop ?k ?s)"
    by (rule mset_diff_disjoint) (use disj in simp)
  finally show ?thesis
    using rm ks keys_of_take_drop [of ?k ?s] by (simp add: kept_in_def shuffled_out_def removeValidatorsFromList_def ac_simps)
qed

lemma map_keys_tabulate_add:
  "\<forall>k \<in> set ks. keys_of (f k) + keys_of (g k) = keys_of (h k) \<Longrightarrow>
     map_keys (tabulate ks f) + map_keys (tabulate ks g) = map_keys (tabulate ks h)"
  by (auto simp: map_keys_tabulate sum_mset.distrib [symmetric] intro!: arg_cong [where f = sum_mset] image_mset_cong)

lemma shuffleOutNodes_spec:
  assumes "shuffleOutNodes c e n r = (out, e')" "distinct (shards_of e)" "keys_distinct e"
    and inj: "injective_on c r (set_mset (map_keys e))"
  shows "map_keys e' + map_keys out = map_keys e"
    and "distinct (shards_of e')" "distinct (shards_of out)" "set (shards_of e') = set (shards_of e)"
    and "\<And>k. length (lst e' k) + length (lst out k) = length (lst e k)"
    and "\<And>k. 0 \<le> num n k \<Longrightarrow> int (length (lst out k)) \<le> num n k"
    and "\<And>k. keys_of (lst e' k) \<subseteq># keys_of (lst e k)"
proof -
  have eq: "out = tabulate (sortKeys e) (shuffled_out c e n r)" "e' = tabulate (sortKeys e) (kept_in c e n r)"
    using assms(1) shuffleOutNodes_tabulate [OF assms(2)] by auto
  have k: "keys_of (kept_in c e n r k) + keys_of (shuffled_out c e n r k) = keys_of (lst e k)" for k
  proof (rule keys_of_kept_in)
    show "distinct (map pubKey (lst e k))" using assms(3) by (simp add: keys_distinct_def)
    show "injective_on c r (pubKey ` set (lst e k))"
      using inj keys_of_lst_subset [OF assms(2), of k] unfolding injective_on_def
      by (metis inj_on_subset set_keys_of set_mset_mono)
  qed
  have "map_keys (tabulate (sortKeys e) (lst e)) = map_keys (tabulate (shards_of e) (lst e))"
    by (simp add: map_keys_tabulate sortKeys_def)
  then show "map_keys e' + map_keys out = map_keys e"
    using map_keys_tabulate_add [of "sortKeys e" "kept_in c e n r" "shuffled_out c e n r" "lst e"] k
    by (simp add: eq tabulate_lst [OF assms(2)])
  show "distinct (shards_of e')" "distinct (shards_of out)" "set (shards_of e') = set (shards_of e)"
    using assms(2) by (simp_all only: eq shards_tabulate distinct_sortKeys set_sortKeys)
  fix j
  show "length (lst e' j) + length (lst out j) = length (lst e j)"
    using arg_cong [OF k, of size j] by (auto simp: eq lst_missing)
  show "int (length (lst out j)) \<le> num n j" if "0 \<le> num n j"
    using that by (auto simp: eq shuffled_out_def out_count_def)
  show "keys_of (lst e' j) \<subseteq># keys_of (lst e j)"
    using k [of j] by (auto simp: eq) (metis mset_subset_eq_add_left)
qed

section \<open>Moving and distributing\<close>

text \<open>A loop that moves a part of each list of the source to the end of the list of the destination.\<close>

definition moves :: "(u32 \<Rightarrow> Validator list \<Rightarrow> Validator list \<Rightarrow> nat) \<Rightarrow> (vmap \<times> vmap \<Rightarrow> u32 \<times> Validator list \<Rightarrow> vmap \<times> vmap) \<Rightarrow> bool" where
  "moves amount F \<longleftrightarrow>
     (\<forall>d s k vs. lst s k = vs \<longrightarrow>
        F (d, s) (k, vs) = (AList.update k (lst d k @ take (amount k (lst d k) vs) vs) d, AList.update k (drop (amount k (lst d k) vs) vs) s))"

lemma foldl_moves:
  assumes F: "moves amount F" and "distinct (shards_of xs)" "\<forall>(k, vs) \<in> set xs. lst s k = vs"
    and "distinct (shards_of d)" "distinct (shards_of s)"
  shows "\<exists>d' s'. foldl F (d, s) xs = (d', s') \<and> map_keys d' + map_keys s' = map_keys d + map_keys s \<and>
      distinct (shards_of d') \<and> distinct (shards_of s') \<and>
      set (shards_of d') = set (shards_of xs) \<union> set (shards_of d) \<and> set (shards_of s') = set (shards_of xs) \<union> set (shards_of s) \<and>
      (\<forall>k. lst d' k = (if k \<in> set (shards_of xs) then lst d k @ take (amount k (lst d k) (lst s k)) (lst s k) else lst d k)) \<and>
      (\<forall>k. lst s' k = (if k \<in> set (shards_of xs) then drop (amount k (lst d k) (lst s k)) (lst s k) else lst s k))"
  using assms(2-)
proof (induction xs arbitrary: d s)
  case (Cons x xs)
  obtain k vs where x: "x = (k, vs)" by (cases x)
  have vs: "lst s k = vs" using Cons.prems x by auto
  let ?n = "amount k (lst d k) vs"
  let ?d = "AList.update k (lst d k @ take ?n vs) d" and ?s = "AList.update k (drop ?n vs) s"
  have step: "F (d, s) x = (?d, ?s)" using F vs x unfolding moves_def by blast
  have kd: "map_keys ?d = map_keys d + keys_of (take ?n vs)"
    using map_keys_update [of d k "lst d k @ take ?n vs"] Cons.prems by simp
  have "map_keys ?s + keys_of vs = map_keys s + keys_of (drop ?n vs)"
    using map_keys_update [of s k "drop ?n vs"] Cons.prems vs by simp
  then have "map_keys ?s + keys_of (take ?n vs) + keys_of (drop ?n vs) = map_keys s + keys_of (drop ?n vs)"
    by (metis keys_of_take_drop union_assoc)
  then have ks: "map_keys ?s + keys_of (take ?n vs) = map_keys s" by (rule add_right_imp_eq)
  have keys: "map_keys ?d + map_keys ?s = map_keys d + map_keys s" unfolding kd ks [symmetric] by (simp only: ac_simps)
  have "k \<notin> set (shards_of xs)" using Cons.prems x by simp
  have "\<exists>d' s'. foldl F (?d, ?s) xs = (d', s') \<and> map_keys d' + map_keys s' = map_keys ?d + map_keys ?s \<and>
      distinct (shards_of d') \<and> distinct (shards_of s') \<and>
      set (shards_of d') = set (shards_of xs) \<union> set (shards_of ?d) \<and> set (shards_of s') = set (shards_of xs) \<union> set (shards_of ?s) \<and>
      (\<forall>k. lst d' k = (if k \<in> set (shards_of xs) then lst ?d k @ take (amount k (lst ?d k) (lst ?s k)) (lst ?s k) else lst ?d k)) \<and>
      (\<forall>k. lst s' k = (if k \<in> set (shards_of xs) then drop (amount k (lst ?d k) (lst ?s k)) (lst ?s k) else lst ?s k))"
  proof (rule Cons.IH)
    show "\<forall>(k', vs') \<in> set xs. lst ?s k' = vs'"
      using Cons.prems(2) \<open>k \<notin> set (shards_of xs)\<close> by (force split: prod.splits)
  qed (use Cons.prems in simp_all)
  then obtain d' s' where 1: "foldl F (?d, ?s) xs = (d', s')" "map_keys d' + map_keys s' = map_keys ?d + map_keys ?s"
      "distinct (shards_of d')" "distinct (shards_of s')"
      "set (shards_of d') = set (shards_of xs) \<union> set (shards_of ?d)" "set (shards_of s') = set (shards_of xs) \<union> set (shards_of ?s)"
      "\<forall>k. lst d' k = (if k \<in> set (shards_of xs) then lst ?d k @ take (amount k (lst ?d k) (lst ?s k)) (lst ?s k) else lst ?d k)"
      "\<forall>k. lst s' k = (if k \<in> set (shards_of xs) then drop (amount k (lst ?d k) (lst ?s k)) (lst ?s k) else lst ?s k)"
    by blast
  have "lst d' j = (if j \<in> set (shards_of (x # xs)) then lst d j @ take (amount j (lst d j) (lst s j)) (lst s j) else lst d j)"
       "lst s' j = (if j \<in> set (shards_of (x # xs)) then drop (amount j (lst d j) (lst s j)) (lst s j) else lst s j)" for j
    using 1(7,8) [THEN spec, of j] \<open>k \<notin> set (shards_of xs)\<close> x vs by auto
  moreover have "foldl F (d, s) (x # xs) = (d', s')" using 1(1) step by simp
  moreover have "set (shards_of d') = set (shards_of (x # xs)) \<union> set (shards_of d)" "set (shards_of s') = set (shards_of (x # xs)) \<union> set (shards_of s)"
    using 1(5,6) x by auto
  ultimately show ?case using 1(2-4) keys by - (rule exI [of _ d'], rule exI [of _ s'], metis)
qed auto

lemma lst_mem: "distinct (shards_of m) \<Longrightarrow> \<forall>(k, vs) \<in> set m. lst m k = vs"
  by (auto simp: lst_def)

lemma moveMaxNumNodesToMap_spec:
  assumes "distinct (shards_of d)" "distinct (shards_of s)"
  shows "\<exists>d' s'. moveMaxNumNodesToMap meta (Some d) s numMeta numShard = Inr (d', s') \<and> map_keys d' + map_keys s' = map_keys d + map_keys s \<and>
      distinct (shards_of d') \<and> distinct (shards_of s') \<and> set (shards_of d') = set (shards_of s) \<union> set (shards_of d) \<and>
      set (shards_of s') = set (shards_of s) \<and>
      (\<forall>k. let n = unat (computeNeededNodes (lst d k) (lst s k) (if k = meta then numMeta else numShard))
           in lst d' k = lst d k @ take n (lst s k) \<and> lst s' k = drop n (lst s k))"
proof -
  define F where "F = (\<lambda>(d, s) (shardId, validators).
              let maxNodes = if shardId = meta then numMeta else numShard;
                  numNeededNodes = unat (computeNeededNodes (lst d shardId) (lst s shardId) maxNodes)
              in (AList.update shardId (lst d shardId @ take numNeededNodes validators) d,
                  AList.update shardId (drop numNeededNodes validators) s))"
  have "moves (\<lambda>k d s. unat (computeNeededNodes d s (if k = meta then numMeta else numShard))) F"
    by (simp add: moves_def F_def Let_def)
  from foldl_moves [OF this assms(2) lst_mem [OF assms(2)] assms] obtain d' s' where
    1: "foldl F (d, s) s = (d', s')" "map_keys d' + map_keys s' = map_keys d + map_keys s"
      "distinct (shards_of d')" "distinct (shards_of s')" "set (shards_of d') = set (shards_of s) \<union> set (shards_of d)"
      "set (shards_of s') = set (shards_of s)"
      "\<forall>k. lst d' k = (if k \<in> set (shards_of s) then lst d k @ take (unat (computeNeededNodes (lst d k) (lst s k) (if k = meta then numMeta else numShard))) (lst s k) else lst d k)"
      "\<forall>k. lst s' k = (if k \<in> set (shards_of s) then drop (unat (computeNeededNodes (lst d k) (lst s k) (if k = meta then numMeta else numShard))) (lst s k) else lst s k)"
    by auto
  have "moveMaxNumNodesToMap meta (Some d) s numMeta numShard = Inr (d', s')"
    using 1(1) unfolding moveMaxNumNodesToMap_def F_def by simp
  moreover have "lst d' k = lst d k @ take (unat (computeNeededNodes (lst d k) (lst s k) (if k = meta then numMeta else numShard))) (lst s k)"
      "lst s' k = drop (unat (computeNeededNodes (lst d k) (lst s k) (if k = meta then numMeta else numShard))) (lst s k)" for k
    using 1(7,8) lst_missing [of k s] by auto
  ultimately show ?thesis using 1(2-6) by - (rule exI [of _ d'], rule exI [of _ s'], simp add: Let_def)
qed

lemma moveNodesToMap_spec:
  assumes "distinct (shards_of d)" "distinct (shards_of s)"
  shows "\<exists>d' s'. moveNodesToMap (Some d) s = Inr (d', s') \<and> map_keys d' = map_keys d + map_keys s \<and> map_keys s' = {#} \<and>
      distinct (shards_of d') \<and> set (shards_of d') = set (shards_of s) \<union> set (shards_of d) \<and>
      distinct (shards_of s') \<and> set (shards_of s') = set (shards_of s) \<and> (\<forall>k. lst d' k = lst d k @ lst s k \<and> lst s' k = [])"
proof -
  define F where "F = (\<lambda>(d, s) (shardId, validators).
              (AList.update shardId (lst d shardId @ validators) d, AList.update shardId ([] :: Validator list) s))"
  have "moves (\<lambda>k d s. length s) F"
    by (simp add: moves_def F_def)
  from foldl_moves [OF this assms(2) lst_mem [OF assms(2)] assms] obtain d' s' where
    1: "foldl F (d, s) s = (d', s')" "map_keys d' + map_keys s' = map_keys d + map_keys s"
      "distinct (shards_of d')" "distinct (shards_of s')" "set (shards_of d') = set (shards_of s) \<union> set (shards_of d)"
      "set (shards_of s') = set (shards_of s)"
      "\<forall>k. lst d' k = (if k \<in> set (shards_of s) then lst d k @ lst s k else lst d k)"
      "\<forall>k. lst s' k = (if k \<in> set (shards_of s) then [] else lst s k)"
    by auto
  have lsts: "lst d' k = lst d k @ lst s k" "lst s' k = []" for k
    using 1(7,8) lst_missing [of k s] by auto
  then have "map_keys s' = {#}" using map_keys_sum [OF 1(4)] by simp
  moreover have "moveNodesToMap (Some d) s = Inr (d', s')"
    using 1(1) unfolding moveNodesToMap_def F_def by simp
  ultimately show ?thesis using 1(2-6) lsts by - (rule exI [of _ d'], rule exI [of _ s'], simp)
qed

lemma equalize_fold:
  assumes "foldl (\<lambda>(d, validators) shardID.
             let shardList = lst d shardID
             in if length shardList < mx
                then let toMove = mx - length shardList;
                         toMove = if toMove > length validators then length validators else toMove
                     in (AList.update shardID (shardList @ take toMove validators) d, drop toMove validators)
                else (d, validators)) (d, vs) js = (d', vs')"
    and "distinct (shards_of d)" "set js \<subseteq> set (shards_of d)"
  shows "map_keys d' + keys_of vs' = map_keys d + keys_of vs \<and> shards_of d' = shards_of d"
  using assms
proof (induction js arbitrary: d vs)
  case (Cons j js)
  have j: "j \<in> set (shards_of d)" using Cons.prems by simp
  show ?case
  proof (cases "length (lst d j) < mx")
    case True
    define n where "n = (if mx - length (lst d j) > length vs then length vs else mx - length (lst d j))"
    let ?d = "AList.update j (lst d j @ take n vs) d"
    have "map_keys d' + keys_of vs' = map_keys ?d + keys_of (drop n vs) \<and> shards_of d' = shards_of ?d"
      by (rule Cons.IH) (use Cons.prems True n_def j in \<open>auto simp: shards_update_mem Let_def\<close>)
    moreover have "map_keys ?d = map_keys d + keys_of (take n vs)"
      using map_keys_update [of d j "lst d j @ take n vs"] Cons.prems by simp
    ultimately show ?thesis
      using keys_of_take_drop [of n vs] j by (simp add: shards_update_mem ac_simps)
  next
    case False
    with Cons show ?thesis by simp
  qed
qed simp

lemma equalizeValidatorsLists_spec:
  assumes "equalizeValidatorsLists d vs = (d', vs')" "distinct (shards_of d)"
  shows "map_keys d' + keys_of vs' = map_keys d + keys_of vs \<and> shards_of d' = shards_of d"
  using equalize_fold [OF assms(1) [unfolded equalizeValidatorsLists_def Let_def [of "getMaxListSize d"]] assms(2)] by simp

lemma distribute_index:
  assumes "ids \<noteq> []"
  shows "unat ((of_nat i :: u32) mod of_nat (length ids)) < length ids"
proof (cases "(of_nat (length ids) :: u32) = 0")
  case True
  then have "2 ^ 32 dvd length ids" by (simp add: word_of_nat_eq_0_iff)
  then have "2 ^ 32 \<le> length ids" using assms by (simp add: dvd_imp_le)
  moreover have "unat (of_nat i :: u32) < 2 ^ 32" using unsigned_less [of "of_nat i :: u32"] by simp
  ultimately show ?thesis using True by simp
next
  case False
  then have "unat ((of_nat i :: u32) mod of_nat (length ids)) < unat (of_nat (length ids) :: u32)"
    by (simp add: unat_mod unat_eq_zero flip: neq0_conv)
  also have "\<dots> \<le> length ids" by (simp add: unat_of_nat)
  finally show ?thesis .
qed

lemma distribute_loop_spec:
  assumes "distinct (shards_of d)" "ids \<noteq> []" "set ids \<subseteq> set (shards_of d)"
  shows "map_keys (distribute_loop ids i vs d) = map_keys d + keys_of vs \<and> shards_of (distribute_loop ids i vs d) = shards_of d"
  using assms
proof (induction vs arbitrary: i d)
  case (Cons v vs)
  define k where "k = ids ! unat ((of_nat i :: u32) mod of_nat (length ids))"
  have k: "k \<in> set (shards_of d)" using distribute_index [OF Cons.prems(2), of i] Cons.prems(3) unfolding k_def by auto
  let ?d = "AList.update k (lst d k @ [v]) d"
  have "map_keys (distribute_loop ids (i + 1) vs ?d) = map_keys ?d + keys_of vs \<and> shards_of (distribute_loop ids (i + 1) vs ?d) = shards_of ?d"
    by (rule Cons.IH) (use Cons.prems k in \<open>simp_all add: shards_update_mem\<close>)
  moreover have "map_keys ?d = map_keys d + keys_of [v]"
    using map_keys_update [of d k "lst d k @ [v]"] Cons.prems by simp
  moreover have "distribute_loop ids i (v # vs) d = distribute_loop ids (i + 1) vs ?d"
    by (simp add: Let_def k_def)
  ultimately show ?case using k by (simp add: shards_update_mem ac_simps)
qed simp

lemma distributeValidators_spec:
  assumes "distinct (shards_of d)" "d \<noteq> []" "injective_on c r (pubKey ` set vs)"
  shows "\<exists>d'. distributeValidators c d vs r b = Inr d' \<and> map_keys d' = map_keys d + keys_of vs \<and> shards_of d' = shards_of d"
proof -
  obtain d1 vs1 where e: "(if b then equalizeValidatorsLists d (shuffleList c vs r) else (d, shuffleList c vs r)) = (d1, vs1)"
    by fastforce
  have k: "keys_of (shuffleList c vs r) = keys_of vs"
    using assms(3) by (intro keys_shuffleList) (simp add: injective_on_def)
  have 1: "map_keys d1 + keys_of vs1 = map_keys d + keys_of vs \<and> shards_of d1 = shards_of d"
    using e equalizeValidatorsLists_spec [OF _ assms(1)] k by (auto split: if_splits)
  have "map_keys (distribute_loop (sortKeys d) 0 vs1 d1) = map_keys d1 + keys_of vs1 \<and>
      shards_of (distribute_loop (sortKeys d) 0 vs1 d1) = shards_of d1"
  proof (rule distribute_loop_spec)
    show "distinct (shards_of d1)" "set (sortKeys d) \<subseteq> set (shards_of d1)" using 1 assms(1) by (simp_all del: list.set_map)
    show "sortKeys d \<noteq> []" using assms(2) by (metis list.map_disc_iff set_empty set_sortKeys)
  qed
  then show ?thesis
    using 1 assms(2) e by (auto simp: distributeValidators_def Let_def)
qed

section \<open>Shards and numbers\<close>

lemma set_shard_ids: "set (map of_nat [0..<unat nb]) = {..<nb :: u32}"
proof (intro set_eqI iffI)
  fix k :: u32 assume "k \<in> set (map of_nat [0..<unat nb])"
  then obtain i where i: "k = of_nat i" "i < unat nb" by auto
  then have "unat k \<le> i" by (simp add: unat_of_nat)
  with i show "k \<in> {..<nb}" by (simp add: word_less_nat_alt)
next
  fix k :: u32 assume "k \<in> {..<nb}"
  then have "k = of_nat (unat k)" "unat k < unat nb" by (simp_all add: word_less_nat_alt)
  then show "k \<in> set (map of_nat [0..<unat nb])" by (metis atLeastLessThan_iff image_eqI le0 list.set_map set_upt)
qed

lemma create_fold:
  fixes m :: vmap
  defines "g \<equiv> \<lambda>m shardId. if map_of m shardId = None then AList.update shardId [] m else m"
  assumes "distinct (shards_of m)"
  shows "distinct (shards_of (foldl g m ks)) \<and> map_keys (foldl g m ks) = map_keys m \<and>
      (\<forall>k. lst (foldl g m ks) k = lst m k) \<and> set (shards_of (foldl g m ks)) = set ks \<union> set (shards_of m)"
  using assms(2)
proof (induction ks arbitrary: m)
  case (Cons k ks)
  have "distinct (shards_of (g m k)) \<and> map_keys (g m k) = map_keys m \<and> (\<forall>j. lst (g m k) j = lst m j) \<and>
      set (shards_of (g m k)) = insert k (set (shards_of m))"
    using Cons.prems map_keys_update [of m k "[]"] by (auto simp: g_def map_of_eq_None_iff lst_missing dest: map_of_SomeD intro: rev_image_eqI)
  with Cons.IH [of "g m k"] show ?case by simp
qed simp

lemma createListsForAllShards_spec:
  assumes "distinct (shards_of m)"
  shows "distinct (shards_of (createListsForAllShards meta m nb))" "map_keys (createListsForAllShards meta m nb) = map_keys m"
    "lst (createListsForAllShards meta m nb) k = lst m k"
    "set (shards_of (createListsForAllShards meta m nb)) = insert meta ({..<nb} \<union> set (shards_of m))"
proof -
  have eq: "createListsForAllShards meta m nb =
      foldl (\<lambda>m shardId. if map_of m shardId = None then AList.update shardId [] m else m) m (map of_nat [0..<unat nb] @ [meta])"
    by (simp add: createListsForAllShards_def Let_def)
  show "distinct (shards_of (createListsForAllShards meta m nb))" "map_keys (createListsForAllShards meta m nb) = map_keys m"
    "lst (createListsForAllShards meta m nb) k = lst m k"
    "set (shards_of (createListsForAllShards meta m nb)) = insert meta ({..<nb} \<union> set (shards_of m))"
    using create_fold [OF assms, of "map of_nat [0..<unat nb] @ [meta]"] set_shard_ids [of nb]
    by (simp_all add: eq)
qed

definition minimum :: "u32 \<Rightarrow> shuffleNodesArg \<Rightarrow> u32 \<Rightarrow> u32" where
  "minimum meta arg k = (if k = meta then nodesMeta arg else nodesPerShard arg)"

definition nodes_in :: "shuffleNodesArg \<Rightarrow> u32 \<Rightarrow> nat" where
  "nodes_in arg k = length (lst (eligible arg) k) + length (lst (waiting arg) k)"

definition enough :: "u32 \<Rightarrow> shuffleNodesArg \<Rightarrow> bool" where
  "enough meta arg \<longleftrightarrow> (\<forall>k \<in> insert meta {..<nbShards arg}. unat (minimum meta arg k) \<le> nodes_in arg k)"

lemma num_loop_spec:
  "num_loop arg ss n =
     (if \<forall>s \<in> set ss. unat (nodesPerShard arg) \<le> nodes_in arg s
      then Inr (\<lambda>k. if k \<in> set ss then Some (int (nodes_in arg k) - int (unat (nodesPerShard arg))) else n k)
      else Inl ErrSmallShardEligibleListSize)"
proof (induction ss arbitrary: n)
  case (Cons s ss)
  show ?case
    by (simp add: computeNumToRemovePerShard_def nodes_in_def [symmetric] Cons.IH not_less [symmetric])
       (auto simp: nodes_in_def fun_eq_iff)
qed simp

lemma computeNumToRemove_spec:
  assumes "meta \<notin> {..<nbShards arg}" and "nbShards arg \<noteq> 0"
  shows "computeNumToRemove meta arg =
     (if enough meta arg
      then Inr (\<lambda>k. if k \<in> insert meta {..<nbShards arg} then Some (int (nodes_in arg k) - int (unat (minimum meta arg k))) else None)
      else Inl ErrSmallShardEligibleListSize)"
proof -
  have "enough meta arg \<longleftrightarrow> (\<forall>s \<in> {..<nbShards arg}. unat (nodesPerShard arg) \<le> nodes_in arg s) \<and> unat (nodesMeta arg) \<le> nodes_in arg meta"
    using assms(1) by (auto simp: enough_def minimum_def)
  moreover have "num_loop arg (map of_nat [0..<unat (nbShards arg)]) Map.empty =
      (if \<forall>s \<in> {..<nbShards arg}. unat (nodesPerShard arg) \<le> nodes_in arg s
       then Inr (\<lambda>k. if k \<in> {..<nbShards arg} then Some (int (nodes_in arg k) - int (unat (nodesPerShard arg))) else None)
       else Inl ErrSmallShardEligibleListSize)"
    by (simp only: num_loop_spec set_shard_ids)
  ultimately show ?thesis
    using assms by (auto simp: computeNumToRemove_def computeNumToRemovePerShard_def fun_eq_iff minimum_def not_less nodes_in_def)
qed

lemma num_clamp: "0 \<le> num n k \<Longrightarrow> num (clamp mx n) k = min (num n k) (int (unat mx))"
  by (simp add: clamp_def num_def split: option.splits)

text \<open>The leaving nodes that are eligible or waiting.\<close>

lemma keys_of_filter: "keys_of (filter (\<lambda>v. P (pubKey v)) vs) = filter_mset P (keys_of vs)"
  by (induction vs) auto

lemma removeLeavingNodesNotExisting_spec:
  assumes "distinct (shards_of w)" "distinct (shards_of e)"
  shows "keys_of (fst (removeLeavingNodesNotExistingInEligibleOrWaiting lv w e)) =
      filter_mset (\<lambda>k. k \<in># map_keys e + map_keys w) (keys_of lv)"
proof -
  define P where "P = (\<lambda>k. k \<in># map_keys e + map_keys w)"
  have nf: "filter (\<lambda>v. \<not> fst (searchInMap w (pubKey v)) \<and> \<not> fst (searchInMap e (pubKey v))) lv = filter (\<lambda>v. \<not> P (pubKey v)) lv"
    using assms by (auto simp: searchInMap_iff P_def intro: filter_cong)
  obtain res rem where rm: "remove_loop (filter (\<lambda>v. \<not> P (pubKey v)) lv) (int (length (filter (\<lambda>v. \<not> P (pubKey v)) lv))) lv [] = (res, rem)"
    by fastforce
  have "keys_of res = keys_of lv - keys_of (filter (\<lambda>v. \<not> P (pubKey v)) lv)"
    by (rule remove_loop_all [OF rm]) simp
  also have "\<dots> = filter_mset P (keys_of lv)"
    unfolding keys_of_filter [of "\<lambda>k. \<not> P k"] by (metis add_diff_cancel_right' multiset_partition)
  finally show ?thesis
    using rm by (simp add: removeLeavingNodesNotExistingInEligibleOrWaiting_def nf removeValidatorsFromList_def P_def)
qed

text \<open>The first part of the update: the removal of the leaving nodes.\<close>

definition removal :: "shuffle_env \<Rightarrow> shuffleNodesArg \<Rightarrow> nums \<Rightarrow> vmap \<times> vmap \<times> Validator list \<times> nums" where
  "removal env arg n =
     (let w = createListsForAllShards (MetachainShardId env) (copyValidatorMap (waiting arg)) (nbShards arg);
          e = copyValidatorMap (eligible arg);
          ru = fst (removeLeavingNodesNotExistingInEligibleOrWaiting (unstakeLeaving arg) w e);
          ra = fst (removeLeavingNodesNotExistingInEligibleOrWaiting (additionalLeaving arg) w e);
          (e1, w1, lu, n1) = removeLeavingNodesFromValidatorMaps e w (clamp (maxNodesToSwapPerShard arg) n) ru;
          (e2, w2, la, n2) = removeLeavingNodesFromValidatorMaps e1 w1 n1 ra
      in (e2, w2, lu @ la, n2))"

lemma removal_spec:
  assumes "removal env arg n = (e, w, still, n')"
    and "distinct (shards_of (eligible arg))" "distinct (shards_of (waiting arg))" "\<forall>k. 0 \<le> num n k"
  shows "\<exists>R. taken2 (eligible arg) (createListsForAllShards (MetachainShardId env) (waiting arg) (nbShards arg))
               (clamp (maxNodesToSwapPerShard arg) n) R e w n' \<and>
      filter_mset (\<lambda>k. k \<in># map_keys (eligible arg) + map_keys (waiting arg))
        (keys_of (unstakeLeaving arg @ additionalLeaving arg)) = keys_of still + R"
proof -
  let ?w = "createListsForAllShards (MetachainShardId env) (waiting arg) (nbShards arg)" and ?e = "eligible arg"
    and ?n = "clamp (maxNodesToSwapPerShard arg) n"
  let ?ru = "fst (removeLeavingNodesNotExistingInEligibleOrWaiting (unstakeLeaving arg) ?w ?e)"
    and ?ra = "fst (removeLeavingNodesNotExistingInEligibleOrWaiting (additionalLeaving arg) ?w ?e)"
  note w = createListsForAllShards_spec [OF assms(3)]
  obtain e1 w1 lu n1 where r1: "removeLeavingNodesFromValidatorMaps ?e ?w ?n ?ru = (e1, w1, lu, n1)" by (metis prod_cases4)
  obtain e2 w2 la n2 where r2: "removeLeavingNodesFromValidatorMaps e1 w1 n1 ?ra = (e2, w2, la, n2)" by (metis prod_cases4)
  have eq: "e = e2" "w = w2" "still = lu @ la" "n' = n2"
    using assms(1) r1 r2 by (simp_all add: removal_def Let_def assms(2,3))
  have n0: "\<forall>k. 0 \<le> num ?n k" using assms(4) by (simp add: num_clamp)
  obtain R1 where R1: "taken2 ?e ?w ?n R1 e1 w1 n1" "keys_of ?ru = keys_of lu + R1"
    using removeLeavingNodesFromValidatorMaps_taken2 [OF r1 assms(2) w(1) n0] by blast
  have "\<exists>R. taken2 e1 w1 n1 R e2 w2 n2 \<and> keys_of ?ra = keys_of la + R"
    by (rule removeLeavingNodesFromValidatorMaps_taken2 [OF r2]) (use R1 assms(2) w(1) in \<open>auto simp: taken2_def\<close>)
  then obtain R2 where R2: "taken2 e1 w1 n1 R2 e2 w2 n2" "keys_of ?ra = keys_of la + R2" by blast
  have "taken2 ?e ?w ?n (R1 + R2) e w n'" using taken2_trans [OF R1(1) R2(1)] eq by simp
  moreover have "filter_mset (\<lambda>k. k \<in># map_keys ?e + map_keys (waiting arg)) (keys_of (unstakeLeaving arg @ additionalLeaving arg)) =
      keys_of ?ru + keys_of ?ra"
    by (simp add: removeLeavingNodesNotExisting_spec [OF w(1) assms(2)] w(2))
  ultimately show ?thesis using R1(2) R2(2) eq by (intro exI [of _ "R1 + R2"]) (simp add: ac_simps)
qed

text \<open>The rest of the update: shuffling out, promoting waiting nodes, distributing the incoming nodes.\<close>

definition finish :: "shuffle_env \<Rightarrow> shuffleNodesArg \<Rightarrow> vmap \<Rightarrow> vmap \<Rightarrow> Validator list \<Rightarrow> nums \<Rightarrow> ResUpdateNodes shuffled" where
  "finish env arg e w still n =
     (let (out, e) = shuffleOutNodes (Compute env) e n (randomness arg)
      in case moveMaxNumNodesToMap (MetachainShardId env) (Some e) w (nodesMeta arg) (nodesPerShard arg) of
           Inl err \<Rightarrow> Inl err
         | Inr (e, w) \<Rightarrow>
       (case checkAndDistributeNewNodes (Compute env) w (newNodes arg) (randomness arg) (flagStakingV4Step3 arg) of
          Inl err \<Rightarrow> Inl err
        | Inr w \<Rightarrow>
        (let low = shouldDistributeShuffledToWaitingInStakingV4
               \<lparr>numShuffled = getNumPubKeys out, numNewEligible = getNumPubKeys e,
                numNewWaiting = getNumPubKeys w, numSelectedAuction = of_nat (length (auction arg)),
                cfg_maxNumNodes = maxNumNodes arg, cfg_flagStakingV4Step2 = flagStakingV4Step2 arg\<rparr>
         in case (if flagStakingV4Step3 arg \<or> low
                  then distributeValidators (Compute env) w (auction arg) (randomness arg) (flagBalanceWaitingLists arg) else Inr w) of
              Inl err \<Rightarrow> Inl err
            | Inr w \<Rightarrow>
          (case (if \<not> flagStakingV4Step2 arg \<or> low
                 then DistributeValidators env (distributor_of arg) w out (randomness arg) (flagBalanceWaitingLists arg) else Inr (w, out)) of
             Inl err \<Rightarrow> Inl err
           | Inr (w, out) \<Rightarrow>
               Inr \<lparr>Eligible = e, Waiting = w, ShuffledOut = out,
                    Leaving = fst (removeValidatorsFromList (unstakeLeaving arg @ additionalLeaving arg) still (int (length still))),
                    StillRemaining = still, LowWaitingList = (flagCleanupAuctionOnLowWaitingList arg \<and> low)\<rparr>))))"

lemma shuffleNodes_parts:
  "shuffleNodes env arg =
     (case computeNumToRemove (MetachainShardId env) arg of
        Inl err \<Rightarrow> Inl err
      | Inr n \<Rightarrow> (case removal env arg n of (e, w, still, n') \<Rightarrow> finish env arg e w still n'))"
  by (simp add: shuffleNodes_def removal_def finish_def Let_def split: sum.splits prod.splits)

definition all_visited :: "shuffle_env \<Rightarrow> bool" where
  "all_visited env \<longleftrightarrow> (\<forall>m. mset (visit env m) = mset m)"

lemma keys_of_concat_visit:
  assumes "all_visited env"
  shows "keys_of (concat (map snd (visit env m))) = map_keys m"
proof -
  have v: "mset (visit env m) = mset m" using assms by (simp only: all_visited_def)
  have c: "mset (concat xss) = sum_mset (image_mset mset (mset xss))" for xss :: "Validator list list"
    by (induction xss) simp_all
  have "mset (concat (map snd (visit env m))) = mset (concat (map snd m))"
    unfolding c mset_map v ..
  then show ?thesis unfolding map_keys_def by (rule keys_of_mset)
qed

lemma DistributeValidators_spec:
  assumes "distinct (shards_of w)" "w \<noteq> []" "distinct (shards_of out)" "all_visited env"
    and "injective_on (Compute env) r (set_mset (map_keys out))"
  shows "\<exists>w' out'. DistributeValidators env vd w out r b = Inr (w', out') \<and> map_keys w' = map_keys w + map_keys out"
proof (cases vd)
  case IntraShardValidatorDistributor
  with moveNodesToMap_spec [OF assms(1,3)] show ?thesis by (auto simp: DistributeValidators_def)
next
  case CrossShardValidatorDistributor
  let ?all = "concat (map snd (visit env out))"
  note k = keys_of_concat_visit [OF assms(4), of out]
  have "pubKey ` set ?all = set_mset (map_keys out)" by (simp only: k flip: set_keys_of)
  with distributeValidators_spec [OF assms(1,2), of "Compute env" r ?all b] assms(5) CrossShardValidatorDistributor k show ?thesis
    by (auto simp: DistributeValidators_def)
qed

lemma injective_on_subset: "injective_on c r K \<Longrightarrow> L \<subseteq> K \<Longrightarrow> injective_on c r L"
  unfolding injective_on_def by (rule inj_on_subset)

definition incoming :: "shuffleNodesArg \<Rightarrow> bool \<Rightarrow> bytes multiset" where
  "incoming arg low =
     (if flagStakingV4Step3 arg then {#} else keys_of (newNodes arg)) +
     (if flagStakingV4Step3 arg \<or> low then keys_of (auction arg) else {#})"

lemma checkAndDistributeNewNodes_spec:
  assumes "distinct (shards_of w)" "w \<noteq> []" "injective_on c r (pubKey ` set vs)" "step3 \<Longrightarrow> vs = []"
  shows "\<exists>w'. checkAndDistributeNewNodes c w vs r step3 = Inr w' \<and> map_keys w' = map_keys w + (if step3 then {#} else keys_of vs) \<and>
      shards_of w' = shards_of w"
  using distributeValidators_spec [OF assms(1-3), of False] assms(4) by (auto simp: checkAndDistributeNewNodes_def)

lemma finish_spec:
  assumes d: "distinct (shards_of e)" "distinct (shards_of w)" "w \<noteq> []" and "keys_distinct e" "all_visited env"
    and inj: "injective_on (Compute env) (randomness arg) (set_mset (map_keys e + map_keys w + keys_of (newNodes arg) + keys_of (auction arg)))"
    and new: "flagStakingV4Step3 arg \<Longrightarrow> newNodes arg = []"
    and out: "shuffleOutNodes (Compute env) e n (randomness arg) = (out, e1)"
  shows "\<exists>res low. finish env arg e w still n = Inr res \<and> StillRemaining res = still \<and>
      Leaving res = fst (removeValidatorsFromList (unstakeLeaving arg @ additionalLeaving arg) still (int (length still))) \<and>
      LowWaitingList res = (flagCleanupAuctionOnLowWaitingList arg \<and> low) \<and> (low \<longrightarrow> flagStakingV4Step2 arg) \<and>
      map_keys (Eligible res) + map_keys (Waiting res) + (if \<not> flagStakingV4Step2 arg \<or> low then {#} else map_keys (ShuffledOut res)) =
        map_keys e + map_keys w + incoming arg low \<and>
      (\<forall>k. lst (Eligible res) k =
         lst e1 k @ take (unat (computeNeededNodes (lst e1 k) (lst w k) (minimum (MetachainShardId env) arg k))) (lst w k))"
proof -
  let ?c = "Compute env" and ?r = "randomness arg" and ?meta = "MetachainShardId env"
  note so = shuffleOutNodes_spec [OF out d(1) assms(4) injective_on_subset [OF inj]]
  have so1: "map_keys e1 + map_keys out = map_keys e" "distinct (shards_of e1)" "distinct (shards_of out)"
    using so(1-3) by auto
  obtain e2 w2 where mv: "moveMaxNumNodesToMap ?meta (Some e1) w (nodesMeta arg) (nodesPerShard arg) = Inr (e2, w2)"
      "map_keys e2 + map_keys w2 = map_keys e1 + map_keys w" "distinct (shards_of w2)" "set (shards_of w2) = set (shards_of w)"
      "\<forall>k. lst e2 k = lst e1 k @ take (unat (computeNeededNodes (lst e1 k) (lst w k) (minimum ?meta arg k))) (lst w k)"
    using moveMaxNumNodesToMap_spec [OF so1(2) d(2), of ?meta "nodesMeta arg" "nodesPerShard arg"]
    unfolding Let_def minimum_def by blast
  have w2: "w2 \<noteq> []" using mv(4) d(3) by (metis list.map_disc_iff set_empty)
  obtain w3 where nw: "checkAndDistributeNewNodes ?c w2 (newNodes arg) ?r (flagStakingV4Step3 arg) = Inr w3"
      "map_keys w3 = map_keys w2 + (if flagStakingV4Step3 arg then {#} else keys_of (newNodes arg))" "shards_of w3 = shards_of w2"
    using checkAndDistributeNewNodes_spec [OF mv(3) w2 injective_on_subset [OF inj], of "newNodes arg" "flagStakingV4Step3 arg"] new by auto
  define low where "low = shouldDistributeShuffledToWaitingInStakingV4
               \<lparr>numShuffled = getNumPubKeys out, numNewEligible = getNumPubKeys e2,
                numNewWaiting = getNumPubKeys w3, numSelectedAuction = of_nat (length (auction arg)),
                cfg_maxNumNodes = maxNumNodes arg, cfg_flagStakingV4Step2 = flagStakingV4Step2 arg\<rparr>"
  have low: "low \<longrightarrow> flagStakingV4Step2 arg" by (simp add: low_def shouldDistributeShuffledToWaitingInStakingV4_def)
  have w3: "distinct (shards_of w3)" "w3 \<noteq> []" using nw(3) mv(3) w2 by auto
  obtain w4 where au: "(if flagStakingV4Step3 arg \<or> low then distributeValidators ?c w3 (auction arg) ?r (flagBalanceWaitingLists arg) else Inr w3) = Inr w4"
      "map_keys w4 = map_keys w3 + (if flagStakingV4Step3 arg \<or> low then keys_of (auction arg) else {#})" "shards_of w4 = shards_of w3"
    using distributeValidators_spec [OF w3 injective_on_subset [OF inj], of "auction arg" "flagBalanceWaitingLists arg"]
    by (cases "flagStakingV4Step3 arg \<or> low") auto
  have w4: "distinct (shards_of w4)" "w4 \<noteq> []" using au(3) w3 by auto
  have "set_mset (map_keys out) \<subseteq> set_mset (map_keys e)" using so1(1) by (metis set_mset_mono mset_subset_eq_add_right)
  then have "injective_on ?c ?r (set_mset (map_keys out))" by (intro injective_on_subset [OF inj]) auto
  then obtain w5 out' where ds: "(if \<not> flagStakingV4Step2 arg \<or> low then DistributeValidators env (distributor_of arg) w4 out ?r (flagBalanceWaitingLists arg)
        else Inr (w4, out)) = Inr (w5, out')"
      "map_keys w5 + (if \<not> flagStakingV4Step2 arg \<or> low then {#} else map_keys out') = map_keys w4 + map_keys out"
    using DistributeValidators_spec [OF w4 so1(3) assms(5), of ?r "distributor_of arg" "flagBalanceWaitingLists arg"]
    by (cases "\<not> flagStakingV4Step2 arg \<or> low") auto
  define res where "res = \<lparr>Eligible = e2, Waiting = w5, ShuffledOut = out',
        Leaving = fst (removeValidatorsFromList (unstakeLeaving arg @ additionalLeaving arg) still (int (length still))),
        StillRemaining = still, LowWaitingList = (flagCleanupAuctionOnLowWaitingList arg \<and> low)\<rparr>"
  have run: "finish env arg e w still n = Inr res"
    unfolding finish_def out Let_def prod.case mv(1) sum.case nw(1) low_def [symmetric] au(1) ds(1) res_def ..
  have "map_keys e2 + (map_keys w5 + (if \<not> flagStakingV4Step2 arg \<or> low then {#} else map_keys out')) =
      map_keys e2 + map_keys w2 + map_keys out + incoming arg low"
    unfolding ds(2) au(2) nw(2) incoming_def by (simp only: ac_simps)
  also have "\<dots> = map_keys e + map_keys w + incoming arg low"
    unfolding mv(2) so1(1) [symmetric] by (simp only: ac_simps)
  finally have "map_keys (Eligible res) + map_keys (Waiting res) + (if \<not> flagStakingV4Step2 arg \<or> low then {#} else map_keys (ShuffledOut res)) =
        map_keys e + map_keys w + incoming arg low"
    by (simp only: res_def ResUpdateNodes.simps union_assoc)
  with run low mv(5) show ?thesis
    by - (rule exI [of _ res], rule exI [of _ low], simp add: res_def)
qed

section \<open>The whole update\<close>

lemma distinct_sub_mset:
  assumes "distinct xs" "mset ys \<subseteq># mset xs"
  shows "distinct ys"
proof -
  obtain zs where "mset xs = mset (ys @ zs)" using assms(2) by (metis ex_mset mset_append subset_mset.le_iff_add)
  then show ?thesis using assms(1) by (metis distinct_append mset_eq_imp_distinct_iff)
qed

lemma keys_distinct_subset:
  assumes "keys_distinct e" "\<forall>k. keys_of (lst e' k) \<subseteq># keys_of (lst e k)"
  shows "keys_distinct e'"
  unfolding keys_distinct_def
proof
  fix k
  have "distinct (map pubKey (lst e k))" "mset (map pubKey (lst e' k)) \<subseteq># mset (map pubKey (lst e k))"
    using assms by (auto simp: keys_distinct_def keys_of_def)
  then show "distinct (map pubKey (lst e' k))" by (rule distinct_sub_mset)
qed

lemma removal_ready:
  assumes "removal env arg n = (e, w, still, n')"
    and "distinct (shards_of (eligible arg))" "distinct (shards_of (waiting arg))" "\<forall>k. 0 \<le> num n k" "keys_distinct (eligible arg)"
  shows "distinct (shards_of e)" "distinct (shards_of w)" "w \<noteq> []" "keys_distinct e"
    "map_keys e + map_keys w \<subseteq># map_keys (eligible arg) + map_keys (waiting arg)"
proof -
  let ?w = "createListsForAllShards (MetachainShardId env) (waiting arg) (nbShards arg)"
  obtain R where R: "taken2 (eligible arg) ?w (clamp (maxNodesToSwapPerShard arg) n) R e w n'"
    using removal_spec [OF assms(1-4)] by blast
  note w = createListsForAllShards_spec [OF assms(3)]
  have sh: "shards_of e = shards_of (eligible arg)" "shards_of w = shards_of ?w" using R unfolding taken2_def by blast+
  show "distinct (shards_of e)" "distinct (shards_of w)" using sh assms(2) w(1) by simp_all
  have "set (shards_of w) \<noteq> {}" using sh(2) w(4) by (metis insert_not_empty)
  then show "w \<noteq> []" by auto
  show "keys_distinct e" using R unfolding taken2_def by (intro keys_distinct_subset [OF assms(5)]) blast
  have "map_keys (eligible arg) + map_keys (waiting arg) = map_keys e + map_keys w + R"
    using R w(2) unfolding taken2_def by simp
  then show "map_keys e + map_keys w \<subseteq># map_keys (eligible arg) + map_keys (waiting arg)"
    by (metis mset_subset_eq_add_left)
qed

lemma leaving_keys:
  assumes "filter_mset P (keys_of lv) = keys_of still + R"
  shows "filter_mset P (keys_of (fst (removeValidatorsFromList lv still (int (length still))))) = R"
proof -
  obtain res rem where rm: "remove_loop still (int (length still)) lv [] = (res, rem)" by fastforce
  have "keys_of res = keys_of lv - keys_of still" by (rule remove_loop_all [OF rm]) simp
  moreover have "filter_mset P (keys_of still) = keys_of still"
  proof -
    have "P x" if "x \<in># keys_of still" for x
      using that arg_cong [OF assms, of "\<lambda>M. x \<in># M"] by (simp del: set_keys_of)
    then show ?thesis by (metis filter_mset_cong filter_mset_True)
  qed
  ultimately show ?thesis using rm assms by (simp add: removeValidatorsFromList_def filter_diff_mset)
qed

definition usable :: "shuffle_env \<Rightarrow> shuffleNodesArg \<Rightarrow> bool" where
  "usable env arg \<longleftrightarrow>
     distinct (shards_of (eligible arg)) \<and> distinct (shards_of (waiting arg)) \<and> keys_distinct (eligible arg) \<and> all_visited env \<and>
     injective_on (Compute env) (randomness arg)
       (set_mset (map_keys (eligible arg) + map_keys (waiting arg) + keys_of (newNodes arg) + keys_of (auction arg)))"

lemma shuffleNodes_run:
  assumes ok: "usable env arg" and new: "flagStakingV4Step3 arg \<Longrightarrow> newNodes arg = []"
    and n: "computeNumToRemove (MetachainShardId env) arg = Inr n" "\<forall>k. 0 \<le> num n k"
    and rem: "removal env arg n = (e, w, still, n')"
    and out: "shuffleOutNodes (Compute env) e n' (randomness arg) = (out, e1)"
  shows "\<exists>res low. shuffleNodes env arg = Inr res \<and>
      LowWaitingList res = (flagCleanupAuctionOnLowWaitingList arg \<and> low) \<and> (low \<longrightarrow> flagStakingV4Step2 arg) \<and>
      map_keys (Eligible res) + map_keys (Waiting res) + (if \<not> flagStakingV4Step2 arg \<or> low then {#} else map_keys (ShuffledOut res)) +
        {#k \<in># keys_of (Leaving res). k \<in># map_keys (eligible arg) + map_keys (waiting arg)#} =
        map_keys (eligible arg) + map_keys (waiting arg) + incoming arg low \<and>
      (\<forall>k. lst (Eligible res) k =
         lst e1 k @ take (unat (computeNeededNodes (lst e1 k) (lst w k) (minimum (MetachainShardId env) arg k))) (lst w k))"
proof -
  let ?P = "\<lambda>k. k \<in># map_keys (eligible arg) + map_keys (waiting arg)"
  have d: "distinct (shards_of (eligible arg))" "distinct (shards_of (waiting arg))" "keys_distinct (eligible arg)" "all_visited env"
    using ok by (simp_all add: usable_def)
  note rd = removal_ready [OF rem d(1,2) n(2) d(3)]
  obtain R where R: "taken2 (eligible arg) (createListsForAllShards (MetachainShardId env) (waiting arg) (nbShards arg))
               (clamp (maxNodesToSwapPerShard arg) n) R e w n'"
      "filter_mset ?P (keys_of (unstakeLeaving arg @ additionalLeaving arg)) = keys_of still + R"
    using removal_spec [OF rem d(1,2) n(2)] by blast
  have tot: "map_keys (eligible arg) + map_keys (waiting arg) = map_keys e + map_keys w + R"
    using R(1) createListsForAllShards_spec(2) [OF d(2)] unfolding taken2_def by simp
  have inj: "injective_on (Compute env) (randomness arg) (set_mset (map_keys e + map_keys w + keys_of (newNodes arg) + keys_of (auction arg)))"
  proof (rule injective_on_subset)
    show "injective_on (Compute env) (randomness arg)
        (set_mset (map_keys (eligible arg) + map_keys (waiting arg) + keys_of (newNodes arg) + keys_of (auction arg)))"
      using ok by (simp only: usable_def)
    show "set_mset (map_keys e + map_keys w + keys_of (newNodes arg) + keys_of (auction arg)) \<subseteq>
        set_mset (map_keys (eligible arg) + map_keys (waiting arg) + keys_of (newNodes arg) + keys_of (auction arg))"
      by (intro set_mset_mono subset_mset.add_mono rd(5) subset_mset.order_refl)
  qed
  obtain res low where f: "finish env arg e w still n' = Inr res"
      "Leaving res = fst (removeValidatorsFromList (unstakeLeaving arg @ additionalLeaving arg) still (int (length still)))"
      "LowWaitingList res = (flagCleanupAuctionOnLowWaitingList arg \<and> low)" "low \<longrightarrow> flagStakingV4Step2 arg"
      "map_keys (Eligible res) + map_keys (Waiting res) + (if \<not> flagStakingV4Step2 arg \<or> low then {#} else map_keys (ShuffledOut res)) =
        map_keys e + map_keys w + incoming arg low"
      "\<forall>k. lst (Eligible res) k =
         lst e1 k @ take (unat (computeNeededNodes (lst e1 k) (lst w k) (minimum (MetachainShardId env) arg k))) (lst w k)"
    using finish_spec [OF rd(1-4) d(4) inj new out, of still] by blast
  have "shuffleNodes env arg = Inr res" by (simp add: shuffleNodes_parts n(1) rem f(1))
  moreover have "filter_mset ?P (keys_of (Leaving res)) = R" unfolding f(2) by (rule leaving_keys [OF R(2)])
  moreover have "map_keys e + map_keys w + incoming arg low + R = map_keys (eligible arg) + map_keys (waiting arg) + incoming arg low"
    unfolding tot by (simp only: ac_simps)
  ultimately have run: "shuffleNodes env arg = Inr res" and
      "map_keys (Eligible res) + map_keys (Waiting res) + (if \<not> flagStakingV4Step2 arg \<or> low then {#} else map_keys (ShuffledOut res)) +
        filter_mset ?P (keys_of (Leaving res)) = map_keys (eligible arg) + map_keys (waiting arg) + incoming arg low"
    unfolding f(5) by (simp_all only:)
  with f(3,4,6) show ?thesis
    by - (rule exI [of _ res], rule exI [of _ low], intro conjI; assumption)
qed

definition update_arg :: "randHashShuffler \<Rightarrow> ArgsUpdateNodes \<Rightarrow> shuffleNodesArg" where
  "update_arg rhs args =
     \<lparr>eligible = au_Eligible args, waiting = au_Waiting args, unstakeLeaving = UnStakeLeaving args,
      additionalLeaving = removeDuplicates (UnStakeLeaving args) (AdditionalLeaving args), newNodes = NewNodes args,
      auction = Auction args, randomness = Rand args, distributor_of = validatorDistributor rhs,
      nodesMeta = MetachainMinNumNodes (ChainParameters args), nodesPerShard = ShardMinNumNodes (ChainParameters args),
      nbShards = NbShards args, maxNodesToSwapPerShard = NodesToShufflePerShard (activeNodesConfig rhs),
      maxNumNodes = MaxNumNodes (activeNodesConfig rhs),
      flagBalanceWaitingLists = enableEpochsHandler rhs BalanceWaitingListsFlag (Epoch args),
      flagStakingV4Step2 = rhs_flagStakingV4Step2 rhs, flagStakingV4Step3 = rhs_flagStakingV4Step3 rhs,
      flagCleanupAuctionOnLowWaitingList = enableEpochsHandler rhs CleanupAuctionOnLowWaitingListFlag (Epoch args)\<rparr>"

lemma update_arg_simps [simp]:
  "eligible (update_arg rhs args) = au_Eligible args" "waiting (update_arg rhs args) = au_Waiting args"
  "newNodes (update_arg rhs args) = NewNodes args" "auction (update_arg rhs args) = Auction args"
  "randomness (update_arg rhs args) = Rand args" "nbShards (update_arg rhs args) = NbShards args"
  "nodesMeta (update_arg rhs args) = MetachainMinNumNodes (ChainParameters args)"
  "nodesPerShard (update_arg rhs args) = ShardMinNumNodes (ChainParameters args)"
  "maxNodesToSwapPerShard (update_arg rhs args) = NodesToShufflePerShard (activeNodesConfig rhs)"
  "flagStakingV4Step2 (update_arg rhs args) = rhs_flagStakingV4Step2 rhs"
  "flagStakingV4Step3 (update_arg rhs args) = rhs_flagStakingV4Step3 rhs"
  "flagCleanupAuctionOnLowWaitingList (update_arg rhs args) = enableEpochsHandler rhs CleanupAuctionOnLowWaitingListFlag (Epoch args)"
  by (simp_all add: update_arg_def)

lemma UpdateNodeLists_arg:
  assumes "distinct (shards_of (au_Eligible args))" "distinct (shards_of (au_Waiting args))"
  shows "UpdateNodeLists env rhs args =
     (let rhs' = UpdateShufflerConfig rhs (Epoch args) (ChainParameters args)
      in (rhs', case computeNewShards env (ChainParameters args) (au_Eligible args) (au_Waiting args) (length (NewNodes args))
                       (length (removeDuplicates (UnStakeLeaving args) (AdditionalLeaving args)) + length (UnStakeLeaving args)) (NbShards args) of
                  Inl e \<Rightarrow> Inl e
                | Inr nb \<Rightarrow> shuffleNodes env (update_arg rhs' args)))"
  using assms by (simp add: UpdateNodeLists_def Let_def update_arg_def splitShards_def mergeShards_def split: sum.split)

lemma computeNewShards_total:
  assumes "ShardMinNumNodes cp + shardHysteresis env cp \<noteq> 0"
  shows "\<exists>nb. computeNewShards env cp e w a b shards = Inr nb"
  using assms by (simp add: computeNewShards_def Let_def split: prod.split)

lemma computeNumToRemove_num:
  assumes "computeNumToRemove meta arg = Inr n" "meta \<notin> {..<nbShards arg}"
  shows "num n k = (if nbShards arg \<noteq> 0 \<and> k \<in> insert meta {..<nbShards arg} then int (nodes_in arg k - unat (minimum meta arg k)) else 0)"
    and "nbShards arg \<noteq> 0 \<Longrightarrow> enough meta arg"
proof -
  have n: "num n k = (if nbShards arg \<noteq> 0 \<and> k \<in> insert meta {..<nbShards arg} then int (nodes_in arg k) - int (unat (minimum meta arg k)) else 0) \<and>
      (nbShards arg \<noteq> 0 \<longrightarrow> enough meta arg)"
  proof (cases "nbShards arg = 0")
    case True
    with assms show ?thesis by (auto simp: computeNumToRemove_def num_def)
  next
    case False
    with assms computeNumToRemove_spec [OF assms(2) False] show ?thesis by (auto simp: num_def split: if_splits)
  qed
  then show "nbShards arg \<noteq> 0 \<Longrightarrow> enough meta arg" by blast
  then have "nbShards arg \<noteq> 0 \<Longrightarrow> k \<in> insert meta {..<nbShards arg} \<Longrightarrow> unat (minimum meta arg k) \<le> nodes_in arg k"
    unfolding enough_def by blast
  with n show "num n k = (if nbShards arg \<noteq> 0 \<and> k \<in> insert meta {..<nbShards arg} then int (nodes_in arg k - unat (minimum meta arg k)) else 0)"
    by (auto simp only: of_nat_diff split: if_splits)
qed

lemma shuffleNodes_new_nodes:
  assumes "shuffleNodes env arg = Inr res" "flagStakingV4Step3 arg"
  shows "newNodes arg = []"
  using assms by (auto simp: shuffleNodes_parts finish_def checkAndDistributeNewNodes_def Let_def split: sum.splits prod.splits if_splits)

text \<open>
  C19: A successful update neither loses nor doubles a validator. The eligible and the waiting nodes of
  the new epoch, together with the shuffled out nodes when these go to the auction, and the leaving nodes that
  were eligible or waiting, are the eligible and waiting nodes of the old epoch with the incoming
  ones: the new nodes before step 3 of staking v4, the selected auction nodes from step 3 on or when the waiting
  lists are low. The shuffled out nodes are back in the waiting lists before step 2 or when the waiting lists are low.
  The hash must separate the keys, and no key may be twice among the eligible nodes of a shard.
\<close>

theorem shuffler_conserves:
  assumes "UpdateNodeLists env rhs args = (rhs', Inr res)"
    and "distinct (map fst (au_Eligible args))" "distinct (map fst (au_Waiting args))" "keys_distinct (au_Eligible args)"
    and "all_visited env" "MetachainShardId env \<notin> {..<NbShards args}"
    and "injective_on (Compute env) (Rand args)
           (set_mset (map_keys (au_Eligible args) + map_keys (au_Waiting args) + keys_of (NewNodes args) + keys_of (Auction args)))"
  shows "\<exists>low. (low \<longrightarrow> rhs_flagStakingV4Step2 rhs') \<and>
      LowWaitingList res = (enableEpochsHandler rhs' CleanupAuctionOnLowWaitingListFlag (Epoch args) \<and> low) \<and>
      map_keys (Eligible res) + map_keys (Waiting res) +
        (if \<not> rhs_flagStakingV4Step2 rhs' \<or> low then {#} else map_keys (ShuffledOut res)) +
        {#k \<in># keys_of (Leaving res). k \<in># map_keys (au_Eligible args) + map_keys (au_Waiting args)#} =
      map_keys (au_Eligible args) + map_keys (au_Waiting args) +
        (if rhs_flagStakingV4Step3 rhs' then {#} else keys_of (NewNodes args)) +
        (if rhs_flagStakingV4Step3 rhs' \<or> low then keys_of (Auction args) else {#})"
proof -
  let ?arg = "update_arg rhs' args"
  have sh: "shuffleNodes env ?arg = Inr res"
    using assms(1) unfolding UpdateNodeLists_arg [OF assms(2,3)] by (auto simp: Let_def split: sum.splits)
  have ok: "usable env ?arg" using assms(2-5,7) by (simp only: usable_def update_arg_simps)
  obtain n where n: "computeNumToRemove (MetachainShardId env) ?arg = Inr n"
    using sh by (auto simp: shuffleNodes_parts split: sum.splits)
  obtain e w still n' where rem: "removal env ?arg n = (e, w, still, n')" by (metis prod_cases4)
  obtain out e1 where out: "shuffleOutNodes (Compute env) e n' (randomness ?arg) = (out, e1)" by fastforce
  have "0 \<le> num n k" for k using computeNumToRemove_num(1) [OF n, of k] assms(6) by (simp split: if_splits)
  with shuffleNodes_run [OF ok shuffleNodes_new_nodes [OF sh] n _ rem out] sh
  obtain low where "LowWaitingList res = (flagCleanupAuctionOnLowWaitingList ?arg \<and> low)" "low \<longrightarrow> flagStakingV4Step2 ?arg"
      "map_keys (Eligible res) + map_keys (Waiting res) + (if \<not> flagStakingV4Step2 ?arg \<or> low then {#} else map_keys (ShuffledOut res)) +
        {#k \<in># keys_of (Leaving res). k \<in># map_keys (eligible ?arg) + map_keys (waiting ?arg)#} =
        map_keys (eligible ?arg) + map_keys (waiting ?arg) + incoming ?arg low"
    by auto
  then show ?thesis
    unfolding update_arg_simps incoming_def union_assoc [symmetric] by blast
qed

text \<open>Promoting waiting nodes reaches the minimum when the shard has enough nodes.\<close>

lemma computeNeededNodes_enough:
  assumes "length d < 2 ^ 32" "length s < 2 ^ 32" "unat mx \<le> length d + length s"
  shows "unat mx \<le> length d + length (take (unat (computeNeededNodes d s mx)) s)"
proof -
  let ?d = "of_nat (length d) :: u32" and ?s = "of_nat (length s) :: u32"
  have d: "unat ?d = length d" "unat ?s = length s" using assms(1,2) by (simp_all add: unat_of_nat)
  show ?thesis
  proof (cases "mx > ?d")
    case True
    then have "unat (mx - ?d) = unat mx - length d" using d by (simp add: unat_sub word_less_nat_alt word_le_nat_alt)
    with True d assms(3) show ?thesis by (auto simp: computeNeededNodes_def Let_def word_less_nat_alt)
  next
    case False
    then show ?thesis using d by (simp add: word_less_nat_alt)
  qed
qed

lemma shuffler_lengths:
  assumes ok: "usable env arg" and meta: "MetachainShardId env \<notin> {..<nbShards arg}" and nb: "nbShards arg \<noteq> 0"
    and n: "computeNumToRemove (MetachainShardId env) arg = Inr n"
    and rem: "removal env arg n = (e, w, still, n')"
    and out: "shuffleOutNodes (Compute env) e n' (randomness arg) = (out, e1)"
    and k: "k \<in> insert (MetachainShardId env) {..<nbShards arg}"
  shows "unat (minimum (MetachainShardId env) arg k) \<le> length (lst e1 k) + length (lst w k)"
    and "length (lst e1 k) + length (lst w k) \<le> nodes_in arg k"
    and "length (lst (eligible arg) k) \<le> length (lst e1 k) + unat (maxNodesToSwapPerShard arg)"
    and "keys_of (lst e1 k) \<subseteq># keys_of (lst (eligible arg) k)"
proof -
  let ?min = "unat (minimum (MetachainShardId env) arg k)" and ?e0 = "lst (eligible arg) k" and ?w0 = "lst (waiting arg) k"
  have d: "distinct (shards_of (eligible arg))" "distinct (shards_of (waiting arg))" "keys_distinct (eligible arg)"
    using ok by (simp_all add: usable_def)
  have n0: "0 \<le> num n j" for j using computeNumToRemove_num(1) [OF n meta, of j] by simp
  note rd = removal_ready [OF rem d(1,2) _ d(3)]
  have nk: "num n k = int (nodes_in arg k) - int ?min" "?min \<le> nodes_in arg k"
  proof -
    show min: "?min \<le> nodes_in arg k" using computeNumToRemove_num(2) [OF n meta nb] k unfolding enough_def by blast
    have "num n k = int (nodes_in arg k - ?min)" using computeNumToRemove_num(1) [OF n meta, of k] nb k by (simp only: simp_thms if_True not_False_eq_True)
    then show "num n k = int (nodes_in arg k) - int ?min" using min by linarith
  qed
  obtain R where "taken2 (eligible arg) (createListsForAllShards (MetachainShardId env) (waiting arg) (nbShards arg))
               (clamp (maxNodesToSwapPerShard arg) n) R e w n'"
    using removal_spec [OF rem d(1,2)] n0 by blast
  then have t: "0 \<le> num n' k" "int (length (lst e k)) + int (length (lst w k)) - num n' k =
          int (length ?e0) + int (length ?w0) - num (clamp (maxNodesToSwapPerShard arg) n) k"
      "keys_of (lst e k) \<subseteq># keys_of ?e0" "keys_of (lst w k) \<subseteq># keys_of ?w0"
    unfolding taken2_def createListsForAllShards_spec(3) [OF d(2)] by blast+
  have le: "length (lst e k) \<le> length ?e0" "length (lst w k) \<le> length ?w0"
    using t(3,4) [THEN size_mset_mono] by simp_all
  have c: "num (clamp (maxNodesToSwapPerShard arg) n) k \<le> num n k"
      "num (clamp (maxNodesToSwapPerShard arg) n) k \<le> int (unat (maxNodesToSwapPerShard arg))"
    using num_clamp [OF n0 [of k], of "maxNodesToSwapPerShard arg"] by (simp_all del: of_nat_unat)
  have inj: "injective_on (Compute env) (randomness arg) (set_mset (map_keys e))"
  proof (rule injective_on_subset)
    show "injective_on (Compute env) (randomness arg)
        (set_mset (map_keys (eligible arg) + map_keys (waiting arg) + keys_of (newNodes arg) + keys_of (auction arg)))"
      using ok by (simp only: usable_def)
    show "set_mset (map_keys e) \<subseteq> set_mset (map_keys (eligible arg) + map_keys (waiting arg) + keys_of (newNodes arg) + keys_of (auction arg))"
      using set_mset_mono [OF rd(5)] n0 by auto
  qed
  have so: "length (lst e1 k) + length (lst out k) = length (lst e k)" "int (length (lst out k)) \<le> num n' k"
      "keys_of (lst e1 k) \<subseteq># keys_of (lst e k)"
    using shuffleOutNodes_spec(5-7) [OF out rd(1) rd(4) inj] n0 t(1) by auto
  show "?min \<le> length (lst e1 k) + length (lst w k)" "length (lst e1 k) + length (lst w k) \<le> nodes_in arg k"
      "length (lst (eligible arg) k) \<le> length (lst e1 k) + unat (maxNodesToSwapPerShard arg)"
    using so(1,2) t(1,2) le c nk unfolding nodes_in_def by linarith+
  show "keys_of (lst e1 k) \<subseteq># keys_of (lst (eligible arg) k)"
    using so(3) t(3) by (rule subset_mset.trans)
qed

text \<open>
  C20: The update succeeds whenever every shard and the metachain have their minimum of eligible and waiting
  nodes together (and fewer than 2^32) and no new nodes come from step 3 of staking v4 on. The number of
  shards is not zero, nor is the minimum of a shard with its hysteresis; the keys of the eligible nodes are
  distinct, and the hashes that order the shuffled nodes do not collide. Then every shard keeps its minimum
  of eligible nodes, and at most the configured number of its eligible nodes is replaced.
\<close>

theorem shuffler_sustains:
  assumes "distinct (map fst (au_Eligible args))" "distinct (map fst (au_Waiting args))" "keys_distinct (au_Eligible args)"
    and "all_visited env" "MetachainShardId env \<notin> {..<NbShards args}" "NbShards args \<noteq> 0"
    and "injective_on (Compute env) (Rand args)
           (set_mset (map_keys (au_Eligible args) + map_keys (au_Waiting args) + keys_of (NewNodes args) + keys_of (Auction args)))"
    and "ShardMinNumNodes (ChainParameters args) + shardHysteresis env (ChainParameters args) \<noteq> 0"
    and new: "Epoch args \<ge> stakingV4Step3EnableEpoch rhs \<longrightarrow> NewNodes args = []"
    and enough: "\<forall>k \<in> insert (MetachainShardId env) {..<NbShards args}.
        unat (if k = MetachainShardId env then MetachainMinNumNodes (ChainParameters args) else ShardMinNumNodes (ChainParameters args))
          \<le> length (lst (au_Eligible args) k) + length (lst (au_Waiting args) k) \<and>
        length (lst (au_Eligible args) k) + length (lst (au_Waiting args) k) < 2 ^ 32"
  shows "\<exists>rhs' res. UpdateNodeLists env rhs args = (rhs', Inr res) \<and>
     (\<forall>k \<in> insert (MetachainShardId env) {..<NbShards args}.
        unat (if k = MetachainShardId env then MetachainMinNumNodes (ChainParameters args) else ShardMinNumNodes (ChainParameters args))
          \<le> length (lst (Eligible res) k) \<and>
        size (keys_of (lst (au_Eligible args) k) - keys_of (lst (Eligible res) k)) \<le> unat (NodesToShufflePerShard (activeNodesConfig rhs')))"
proof -
  define rhs' where "rhs' = UpdateShufflerConfig rhs (Epoch args) (ChainParameters args)"
  let ?arg = "update_arg rhs' args" and ?meta = "MetachainShardId env"
  have ok: "usable env ?arg" using assms(1-4,7) by (simp only: usable_def update_arg_simps)
  have mn: "minimum ?meta ?arg k = (if k = ?meta then MetachainMinNumNodes (ChainParameters args) else ShardMinNumNodes (ChainParameters args))" for k
    by (simp add: minimum_def)
  have nd: "nodes_in ?arg k = length (lst (au_Eligible args) k) + length (lst (au_Waiting args) k)" for k
    by (simp add: nodes_in_def)
  have en: "enough ?meta ?arg" using enough by (simp only: enough_def mn nd update_arg_simps) blast
  have meta: "?meta \<notin> {..<nbShards ?arg}" "nbShards ?arg \<noteq> 0" using assms(5,6) by simp_all
  obtain n where n: "computeNumToRemove ?meta ?arg = Inr n"
    using computeNumToRemove_spec [OF meta] en by simp
  obtain e w still n' where rem: "removal env ?arg n = (e, w, still, n')" by (metis prod_cases4)
  obtain out e1 where out: "shuffleOutNodes (Compute env) e n' (randomness ?arg) = (out, e1)" by fastforce
  have n0: "\<forall>k. 0 \<le> num n k" using computeNumToRemove_num(1) [OF n meta(1)] by simp
  have nw: "flagStakingV4Step3 ?arg \<Longrightarrow> newNodes ?arg = []"
    using new by (simp add: rhs'_def UpdateShufflerConfig_def Let_def)
  obtain res where res: "shuffleNodes env ?arg = Inr res"
      "\<forall>k. lst (Eligible res) k = lst e1 k @ take (unat (computeNeededNodes (lst e1 k) (lst w k) (minimum ?meta ?arg k))) (lst w k)"
    using shuffleNodes_run [OF ok nw n n0 rem out] by blast
  obtain nb where "computeNewShards env (ChainParameters args) (au_Eligible args) (au_Waiting args) (length (NewNodes args))
      (length (removeDuplicates (UnStakeLeaving args) (AdditionalLeaving args)) + length (UnStakeLeaving args)) (NbShards args) = Inr nb"
    using computeNewShards_total [OF assms(8)] by blast
  then have run: "UpdateNodeLists env rhs args = (rhs', Inr res)"
    unfolding UpdateNodeLists_arg [OF assms(1,2)] rhs'_def [symmetric] using res(1) by simp
  have "unat (minimum ?meta ?arg k) \<le> length (lst (Eligible res) k) \<and>
      size (keys_of (lst (au_Eligible args) k) - keys_of (lst (Eligible res) k)) \<le> unat (NodesToShufflePerShard (activeNodesConfig rhs'))"
    if k: "k \<in> insert ?meta {..<NbShards args}" for k
  proof
    have k': "k \<in> insert ?meta {..<nbShards ?arg}" using k by (simp only: update_arg_simps)
    note len = shuffler_lengths [OF ok meta n rem out k']
    have "nodes_in ?arg k < 2 ^ 32" using enough k unfolding nd by blast
    with len(2) have "length (lst e1 k) < 2 ^ 32" "length (lst w k) < 2 ^ 32" by linarith+
    from computeNeededNodes_enough [OF this len(1)] show "unat (minimum ?meta ?arg k) \<le> length (lst (Eligible res) k)"
      using res(2) by simp
    have "size (keys_of (lst (au_Eligible args) k) - keys_of (lst (Eligible res) k)) \<le> size (keys_of (lst (au_Eligible args) k) - keys_of (lst e1 k))"
      using res(2) diff_subset_eq_self [of "keys_of (lst (au_Eligible args) k) - keys_of (lst e1 k)"] by (intro size_mset_mono) simp
    also have "\<dots> = length (lst (au_Eligible args) k) - length (lst e1 k)"
      using len(4) by (simp add: size_Diff_submset)
    also have "\<dots> \<le> unat (NodesToShufflePerShard (activeNodesConfig rhs'))" using len(3) by simp
    finally show "size (keys_of (lst (au_Eligible args) k) - keys_of (lst (Eligible res) k)) \<le> unat (NodesToShufflePerShard (activeNodesConfig rhs'))" .
  qed
  then show ?thesis using run unfolding mn by blast
qed

section \<open>A sample update\<close>

definition sample_node :: "u8 \<Rightarrow> Validator" where
  "sample_node b = \<lparr>pubKey = [b], chances = 1, index = 0\<rparr>"

definition sample_env :: shuffle_env where
  "sample_env = \<lparr>MetachainShardId = 0xFFFFFFFF, Compute = id, visit = rev, scale = (\<lambda>h n. 0)\<rparr>"

definition sample_args :: ArgsUpdateNodes where
  "sample_args =
     \<lparr>ChainParameters = \<lparr>Hysteresis = 0, ShardMinNumNodes = 2, MetachainMinNumNodes = 1, Adaptivity = False\<rparr>,
      au_Eligible = [(0xFFFFFFFF, [sample_node 1, sample_node 2]), (0, [sample_node 3, sample_node 4])],
      au_Waiting = [(0, [sample_node 5])], NewNodes = [sample_node 6], UnStakeLeaving = [sample_node 4, sample_node 9],
      AdditionalLeaving = [], Auction = [], Rand = [7], NbShards = 1, Epoch = 3\<rparr>"

definition sample_shuffler :: randHashShuffler where
  "sample_shuffler =
     \<lparr>shuffleBetweenShards = True, activeNodesConfig = \<lparr>EpochEnable = 0, MaxNumNodes = 0, NodesToShufflePerShard = 0\<rparr>,
      availableNodesConfigs = [\<lparr>EpochEnable = 2, MaxNumNodes = 8, NodesToShufflePerShard = 1\<rparr>],
      validatorDistributor = CrossShardValidatorDistributor, enableEpochsHandler = (\<lambda>f e. True),
      stakingV4Step2EnableEpoch = 10, rhs_flagStakingV4Step2 = False, stakingV4Step3EnableEpoch = 11, rhs_flagStakingV4Step3 = False\<rparr>"

lemma sample_run: "case UpdateNodeLists sample_env sample_shuffler sample_args of (r, res) \<Rightarrow> (\<not> isl res \<and> \<not> rhs_flagStakingV4Step2 r \<and> \<not> rhs_flagStakingV4Step3 r)"
  by code_simp

lemma sample_maps:
  "distinct (map fst (au_Eligible sample_args))" "distinct (map fst (au_Waiting sample_args))" "keys_distinct (au_Eligible sample_args)"
  "all_visited sample_env" "MetachainShardId sample_env \<notin> {..<NbShards sample_args}"
  "injective_on (Compute sample_env) (Rand sample_args) K"
  by (simp_all add: sample_args_def sample_env_def sample_node_def keys_distinct_def all_visited_def injective_on_def inj_on_def)

lemma sample_keys:
  "map_keys (au_Eligible sample_args) = {#[1], [2], [3], [4]#}" "map_keys (au_Waiting sample_args) = {#[5]#}"
  "keys_of (NewNodes sample_args) = {#[6]#}" "Auction sample_args = []"
  by (simp_all add: sample_args_def sample_node_def)

theorem shuffler_conserves_witness:
  "\<exists>rhs' res. UpdateNodeLists sample_env sample_shuffler sample_args = (rhs', Inr res) \<and>
     map_keys (Eligible res) + map_keys (Waiting res) + {#k \<in># keys_of (Leaving res). k \<in># {#[1], [2], [3], [4]#} + {#[5]#}#} =
     {#[1], [2], [3], [4]#} + {#[5]#} + {#[6]#}"
proof -
  obtain rhs' res where run: "UpdateNodeLists sample_env sample_shuffler sample_args = (rhs', Inr res)"
      and fl: "\<not> rhs_flagStakingV4Step2 rhs'" "\<not> rhs_flagStakingV4Step3 rhs'"
    using sample_run by (cases "UpdateNodeLists sample_env sample_shuffler sample_args"; cases "snd (UpdateNodeLists sample_env sample_shuffler sample_args)") auto
  show ?thesis
    using shuffler_conserves [OF run sample_maps(1-6)] run fl unfolding sample_keys by auto
qed

theorem shuffler_sustains_witness:
  "\<exists>rhs' res. UpdateNodeLists sample_env sample_shuffler sample_args = (rhs', Inr res) \<and>
     2 \<le> length (lst (Eligible res) 0) \<and> 1 \<le> length (lst (Eligible res) 0xFFFFFFFF)"
proof -
  have ok: "NbShards sample_args \<noteq> 0" "ShardMinNumNodes (ChainParameters sample_args) + shardHysteresis sample_env (ChainParameters sample_args) \<noteq> 0"
      "Epoch sample_args \<ge> stakingV4Step3EnableEpoch sample_shuffler \<longrightarrow> NewNodes sample_args = []"
    by (simp_all add: sample_args_def sample_env_def sample_shuffler_def shardHysteresis_def)
  have ids: "insert (MetachainShardId sample_env) {..<NbShards sample_args} = {0, 0xFFFFFFFF}"
    by (auto simp: sample_env_def sample_args_def word_less_nat_alt unat_eq_zero)
  have "\<exists>rhs' res. UpdateNodeLists sample_env sample_shuffler sample_args = (rhs', Inr res) \<and>
     (\<forall>k \<in> {0, 0xFFFFFFFF}.
        unat (if k = MetachainShardId sample_env then MetachainMinNumNodes (ChainParameters sample_args) else ShardMinNumNodes (ChainParameters sample_args))
          \<le> length (lst (Eligible res) k) \<and>
        size (keys_of (lst (au_Eligible sample_args) k) - keys_of (lst (Eligible res) k)) \<le> unat (NodesToShufflePerShard (activeNodesConfig rhs')))"
    by (rule shuffler_sustains [OF sample_maps(1-5) ok(1) sample_maps(6) ok(2,3), unfolded ids])
       (simp add: sample_args_def sample_env_def)
  then show ?thesis by (simp add: sample_env_def sample_args_def) blast
qed

end
