(* ===== verification/Shuffler_Order.thy ===== *)
theory Shuffler_Order
  imports Shuffler_Props
begin

text \<open>
  The nodes of the network compute the lists of the next epoch on their own, over Go maps that every
  process visits in another order. Here the result is shown to be the same for every order: each
  function of the shuffler maps maps with the same lists to maps with the same lists.
\<close>

section \<open>Maps with the same lists\<close>

definition same :: "vmap \<Rightarrow> vmap \<Rightarrow> bool" where
  "same m m' \<longleftrightarrow> distinct (shards_of m) \<and> distinct (shards_of m') \<and> set (shards_of m) = set (shards_of m') \<and> (\<forall>k. lst m k = lst m' k)"

lemma sameI:
  assumes "distinct (shards_of m)" "distinct (shards_of m')" "set (shards_of m) = set (shards_of m')" "\<And>k. lst m k = lst m' k"
  shows "same m m'"
  unfolding same_def using assms by blast

lemma same_mset:
  assumes "distinct (shards_of m)" "mset m = mset m'"
  shows "same m m'"
proof (rule sameI)
  have s: "mset (shards_of m) = mset (shards_of m')" using assms(2) by (simp only: mset_map)
  then show d: "distinct (shards_of m')" using assms(1) mset_eq_imp_distinct_iff by blast
  show "set (shards_of m) = set (shards_of m')" using s by (rule mset_eq_setD)
  show "lst m k = lst m' k" for k
    using assms d unfolding lst_def by (metis map_of_inject_set mset_eq_setD)
qed (rule assms(1))

lemma same_lst: "same m m' \<Longrightarrow> lst m k = lst m' k"
  by (simp add: same_def)

lemma same_distinct: "same m m' \<Longrightarrow> distinct (shards_of m)" "same m m' \<Longrightarrow> distinct (shards_of m')"
  by (simp_all add: same_def)

lemma same_shards: "same m m' \<Longrightarrow> mset (shards_of m) = mset (shards_of m')"
  using set_eq_iff_mset_eq_distinct [of "shards_of m" "shards_of m'"] unfolding same_def by blast

lemma same_sortKeys:
  assumes "same m m'"
  shows "sortKeys m = sortKeys m'"
  unfolding sortKeys_def
proof (rule properties_for_sort)
  show "mset (sort (shards_of m')) = mset (shards_of m)" unfolding mset_sort same_shards [OF assms] ..
  show "sorted (sort (shards_of m'))" by (rule sorted_sort)
qed

lemma same_map_keys: "same m m' \<Longrightarrow> map_keys m = map_keys m'"
proof -
  assume s: "same m m'"
  have "map_keys m = (\<Sum>k\<in>#mset (shards_of m). keys_of (lst m k))" using same_distinct(1) [OF s] by (rule map_keys_sum)
  also have "\<dots> = (\<Sum>k\<in>#mset (shards_of m'). keys_of (lst m' k))" unfolding same_shards [OF s] same_lst [OF s] ..
  also have "\<dots> = map_keys m'" using map_keys_sum [OF same_distinct(2) [OF s]] by (rule sym)
  finally show ?thesis .
qed

lemma same_empty: "same m m' \<Longrightarrow> m = [] \<longleftrightarrow> m' = []"
  unfolding same_def by (cases m; cases m') auto

lemma same_update: "same m m' \<Longrightarrow> same (AList.update k vs m) (AList.update k vs m')"
  by (rule sameI) (simp_all add: same_def)

lemma same_searchInMap:
  assumes "same m m'"
  shows "fst (searchInMap m pk) = fst (searchInMap m' pk)"
  unfolding searchInMap_iff [OF same_distinct(1) [OF assms]] searchInMap_iff [OF same_distinct(2) [OF assms]] same_map_keys [OF assms] ..

lemma same_createLists:
  assumes "same m m'"
  shows "same (createListsForAllShards meta m nb) (createListsForAllShards meta m' nb)"
proof (rule sameI)
  note d = same_distinct [OF assms]
  show "distinct (shards_of (createListsForAllShards meta m nb))" "distinct (shards_of (createListsForAllShards meta m' nb))"
    by (rule createListsForAllShards_spec(1) [OF d(1)], rule createListsForAllShards_spec(1) [OF d(2)])
  show "set (shards_of (createListsForAllShards meta m nb)) = set (shards_of (createListsForAllShards meta m' nb))"
    unfolding createListsForAllShards_spec(4) [OF d(1)] createListsForAllShards_spec(4) [OF d(2)] using assms unfolding same_def by blast
  show "lst (createListsForAllShards meta m nb) k = lst (createListsForAllShards meta m' nb) k" for k
    unfolding createListsForAllShards_spec(3) [OF d(1)] createListsForAllShards_spec(3) [OF d(2)] by (rule same_lst [OF assms])
qed

text \<open>The number of keys, and the length of the longest list.\<close>

lemma getNumPubKeys_size: "getNumPubKeys m = of_nat (size (map_keys m))"
proof -
  have "foldl (\<lambda>n (_, validatorsInShard). n + of_nat (length validatorsInShard)) a m = a + of_nat (size (map_keys m))" for a :: u32
    by (induction m arbitrary: a) auto
  then show ?thesis by (simp add: getNumPubKeys_def)
qed

lemma getMaxListSize_fold:
  "r = foldl (\<lambda>maxSize (_, l). if maxSize < length l then length l else maxSize) a m \<Longrightarrow>
     a \<le> r \<and> (\<forall>(k, l) \<in> set m. length l \<le> r) \<and> (r = a \<or> (\<exists>(k, l) \<in> set m. r = length l))"
proof (induction m arbitrary: a)
  case (Cons p m)
  obtain k l where p: "p = (k, l)" by (cases p)
  let ?a = "if a < length l then length l else a"
  have "?a \<le> r \<and> (\<forall>(k, l) \<in> set m. length l \<le> r) \<and> (r = ?a \<or> (\<exists>(k, l) \<in> set m. r = length l))"
    by (rule Cons.IH) (use Cons.prems p in simp)
  then show ?case by (auto simp: p split: if_splits)
qed simp

lemma getMaxListSize_spec:
  assumes "distinct (shards_of m)"
  shows "length (lst m k) \<le> getMaxListSize m" and "getMaxListSize m = 0 \<or> (\<exists>k. getMaxListSize m = length (lst m k))"
proof -
  let ?r = "getMaxListSize m"
  have b: "\<forall>(k, l) \<in> set m. length l \<le> ?r" and a: "?r = 0 \<or> (\<exists>(k, l) \<in> set m. ?r = length l)"
    using getMaxListSize_fold [OF refl, of 0 m] unfolding getMaxListSize_def by auto
  show "length (lst m k) \<le> ?r" using b by (auto simp: lst_def split: option.split dest!: map_of_SomeD)
  show "?r = 0 \<or> (\<exists>k. ?r = length (lst m k))" using a lst_mem [OF assms] by fastforce
qed

lemma same_getMaxListSize: "same m m' \<Longrightarrow> getMaxListSize m = getMaxListSize m'"
proof -
  have le: "getMaxListSize m \<le> getMaxListSize m'" if s: "same m m'" for m m'
    using getMaxListSize_spec(2) [OF same_distinct(1) [OF s]]
  proof (elim disjE exE)
    fix k assume "getMaxListSize m = length (lst m k)"
    then show ?thesis using getMaxListSize_spec(1) [OF same_distinct(2) [OF s], of k] same_lst [OF s, of k] by presburger
  qed simp
  assume s: "same m m'"
  then have "same m' m" unfolding same_def by metis
  with le s show ?thesis by (intro le_antisym)
qed

section \<open>The removal of leaving nodes\<close>

lemma same_removeNodesFromShard:
  assumes "same m m'"
  shows "\<exists>r r' lv' x. removeNodesFromShard m lv s n = (r, lv', x) \<and> removeNodesFromShard m' lv s n = (r', lv', x) \<and> same r r'"
  using assms same_update [OF assms] by (auto simp: removeNodesFromShard_def Let_def same_lst split: prod.split)

lemma same_nodes_loop:
  assumes "same m m'"
  shows "\<exists>r r' lv' x. nodes_loop ss m lv n = (r, lv', x) \<and> nodes_loop ss m' lv n = (r', lv', x) \<and> same r r'"
  using assms
proof (induction ss arbitrary: m m' lv n)
  case (Cons s ss)
  obtain r r' lv' x where 1: "removeNodesFromShard m lv s (num n s) = (r, lv', x)" "removeNodesFromShard m' lv s (num n s) = (r', lv', x)" "same r r'"
    using same_removeNodesFromShard [OF Cons.prems] by blast
  show ?case unfolding nodes_loop.simps 1 Let_def prod.case by (rule Cons.IH [OF 1(3)])
qed simp

lemma same_removeLeavingNodes:
  assumes "same e e'" "same w w'"
  shows "\<exists>e1 e1' w1 w1' lv1 n1. removeLeavingNodesFromValidatorMaps e w n lv = (e1, w1, lv1, n1) \<and>
      removeLeavingNodesFromValidatorMaps e' w' n lv = (e1', w1', lv1, n1) \<and> same e1 e1' \<and> same w1 w1'"
proof -
  obtain w1 w1' lv1 n1 where 1: "removeNodesFromMap w lv n = (w1, lv1, n1)" "removeNodesFromMap w' lv n = (w1', lv1, n1)" "same w1 w1'"
    using same_nodes_loop [OF assms(2)] same_sortKeys [OF assms(2)] unfolding removeNodesFromMap_def by metis
  obtain e1 e1' lv2 n2 where 2: "removeNodesFromMap e lv1 n1 = (e1, lv2, n2)" "removeNodesFromMap e' lv1 n1 = (e1', lv2, n2)" "same e1 e1'"
    using same_nodes_loop [OF assms(1)] same_sortKeys [OF assms(1)] unfolding removeNodesFromMap_def by metis
  show ?thesis by (simp add: removeLeavingNodesFromValidatorMaps_def 1 2)
qed

section \<open>Moving and distributing\<close>

lemma same_moveMax:
  assumes "same d d'" "same s s'"
  shows "\<exists>d1 d1' s1 s1'. moveMaxNumNodesToMap meta (Some d) s a b = Inr (d1, s1) \<and> moveMaxNumNodesToMap meta (Some d') s' a b = Inr (d1', s1') \<and>
      same d1 d1' \<and> same s1 s1'"
proof -
  obtain d1 s1 where 1: "moveMaxNumNodesToMap meta (Some d) s a b = Inr (d1, s1)" "distinct (shards_of d1)" "distinct (shards_of s1)"
      "set (shards_of d1) = set (shards_of s) \<union> set (shards_of d)" "set (shards_of s1) = set (shards_of s)"
      "\<forall>k. let n = unat (computeNeededNodes (lst d k) (lst s k) (if k = meta then a else b))
           in lst d1 k = lst d k @ take n (lst s k) \<and> lst s1 k = drop n (lst s k)"
    using moveMaxNumNodesToMap_spec [OF same_distinct(1) [OF assms(1)] same_distinct(1) [OF assms(2)]] by blast
  obtain d1' s1' where 2: "moveMaxNumNodesToMap meta (Some d') s' a b = Inr (d1', s1')" "distinct (shards_of d1')" "distinct (shards_of s1')"
      "set (shards_of d1') = set (shards_of s') \<union> set (shards_of d')" "set (shards_of s1') = set (shards_of s')"
      "\<forall>k. let n = unat (computeNeededNodes (lst d' k) (lst s' k) (if k = meta then a else b))
           in lst d1' k = lst d' k @ take n (lst s' k) \<and> lst s1' k = drop n (lst s' k)"
    using moveMaxNumNodesToMap_spec [OF same_distinct(2) [OF assms(1)] same_distinct(2) [OF assms(2)]] by blast
  have "same d1 d1'"
    by (rule sameI) (use 1 2 assms in \<open>simp_all only: same_def Let_def\<close>)
  moreover have "same s1 s1'"
    by (rule sameI) (use 1 2 assms in \<open>simp_all only: same_def Let_def\<close>)
  ultimately show ?thesis using 1(1) 2(1) by blast
qed

lemma same_moveNodes:
  assumes "same d d'" "same s s'"
  shows "\<exists>d1 d1' s1 s1'. moveNodesToMap (Some d) s = Inr (d1, s1) \<and> moveNodesToMap (Some d') s' = Inr (d1', s1') \<and> same d1 d1' \<and> same s1 s1'"
proof -
  obtain d1 s1 where 1: "moveNodesToMap (Some d) s = Inr (d1, s1)" "distinct (shards_of d1)" "set (shards_of d1) = set (shards_of s) \<union> set (shards_of d)"
      "distinct (shards_of s1)" "set (shards_of s1) = set (shards_of s)" "\<forall>k. lst d1 k = lst d k @ lst s k \<and> lst s1 k = []"
    using moveNodesToMap_spec [OF same_distinct(1) [OF assms(1)] same_distinct(1) [OF assms(2)]] by blast
  obtain d1' s1' where 2: "moveNodesToMap (Some d') s' = Inr (d1', s1')" "distinct (shards_of d1')" "set (shards_of d1') = set (shards_of s') \<union> set (shards_of d')"
      "distinct (shards_of s1')" "set (shards_of s1') = set (shards_of s')" "\<forall>k. lst d1' k = lst d' k @ lst s' k \<and> lst s1' k = []"
    using moveNodesToMap_spec [OF same_distinct(2) [OF assms(1)] same_distinct(2) [OF assms(2)]] by blast
  have "same d1 d1'" by (rule sameI) (use 1 2 assms in \<open>simp_all only: same_def\<close>)
  moreover have "same s1 s1'" by (rule sameI) (use 1 2 assms in \<open>simp_all only: same_def\<close>)
  ultimately show ?thesis using 1(1) 2(1) by blast
qed

lemma same_equalize:
  assumes "same d d'"
  shows "\<exists>r r' v. equalizeValidatorsLists d vs = (r, v) \<and> equalizeValidatorsLists d' vs = (r', v) \<and> same r r'"
proof -
  let ?F = "\<lambda>mx (d, validators) shardID.
             let shardList = lst d shardID
             in if length shardList < mx
                then let toMove = mx - length shardList;
                         toMove = if toMove > length validators then length validators else toMove
                     in (AList.update shardID (shardList @ take toMove validators) d, drop toMove validators)
                else (d, validators)"
  have "\<exists>r r' v. foldl (?F mx) (d, vs) js = (r, v) \<and> foldl (?F mx) (d', vs) js = (r', v) \<and> same r r'"
    if "same d d'" for mx js d d' vs
    using that
  proof (induction js arbitrary: d d' vs)
    case (Cons j js)
    obtain d1 d1' v where "?F mx (d, vs) j = (d1, v)" "?F mx (d', vs) j = (d1', v)" "same d1 d1'"
    proof (cases "length (lst d' j) < mx")
      case True
      let ?n = "if mx - length (lst d' j) > length vs then length vs else mx - length (lst d' j)"
      show ?thesis
        by (rule that [of "AList.update j (lst d' j @ take ?n vs) d" "drop ?n vs" "AList.update j (lst d' j @ take ?n vs) d'"])
           (use True same_update [OF Cons.prems] in \<open>simp_all only: prod.case same_lst [OF Cons.prems] Let_def if_True\<close>)
    next
      case False
      show ?thesis
        by (rule that [of d vs d']) (use False Cons.prems in \<open>simp_all only: prod.case same_lst [OF Cons.prems] Let_def if_False\<close>)
    qed
    with Cons.IH [of d1 d1' v] show ?case by (simp only: foldl_Cons)
  qed simp
  then show ?thesis
    using assms unfolding equalizeValidatorsLists_def same_getMaxListSize [OF assms] same_sortKeys [OF assms] Let_def by blast
qed

lemma same_distribute_loop: "same d d' \<Longrightarrow> same (distribute_loop ids i vs d) (distribute_loop ids i vs d')"
proof (induction vs arbitrary: i d d')
  case (Cons v vs)
  show ?case
    unfolding distribute_loop.simps Let_def same_lst [OF Cons.prems] by (intro Cons.IH same_update Cons.prems)
qed simp

lemma same_distributeValidators:
  assumes "same d d'" "d \<noteq> []" "shuffleList c vs r = shuffleList c vs' r"
  shows "\<exists>x x'. distributeValidators c d vs r b = Inr x \<and> distributeValidators c d' vs' r b = Inr x' \<and> same x x' \<and> x \<noteq> []"
proof -
  have ne: "length d \<noteq> 0" "length d' \<noteq> 0" using assms(2) same_empty [OF assms(1)] by simp_all
  obtain d1 d1' v where e: "(if b then equalizeValidatorsLists d (shuffleList c vs r) else (d, shuffleList c vs r)) = (d1, v)"
      "(if b then equalizeValidatorsLists d' (shuffleList c vs r) else (d', shuffleList c vs r)) = (d1', v)" "same d1 d1'"
    using same_equalize [OF assms(1), of "shuffleList c vs r"] assms(1) by (cases b) auto
  have run: "distributeValidators c d vs r b = Inr (distribute_loop (sortKeys d) 0 v d1)"
      "distributeValidators c d' vs' r b = Inr (distribute_loop (sortKeys d') 0 v d1')"
    using ne e(1,2) by (simp_all add: distributeValidators_def Let_def assms(3) [symmetric])
  have ids: "sortKeys d \<noteq> []" using assms(2) by (metis list.map_disc_iff set_empty set_sortKeys)
  have "shards_of d1 = shards_of d"
    using e(1) equalizeValidatorsLists_spec [OF _ same_distinct(1) [OF assms(1)]] by (auto split: if_splits)
  then have "shards_of (distribute_loop (sortKeys d) 0 v d1) = shards_of d"
    using distribute_loop_spec [OF same_distinct(1) [OF e(3)] ids] by (simp del: list.set_map)
  then have "distribute_loop (sortKeys d) 0 v d1 \<noteq> []" using assms(2) by auto
  then show ?thesis
    unfolding run same_sortKeys [OF assms(1)] using same_distribute_loop [OF e(3), of "sortKeys d'" 0 v] by blast
qed

section \<open>Shuffling\<close>

text \<open>The shuffled list depends on the validators only, not on their order.\<close>

lemma shuffleList_order:
  assumes "mset vs = mset ws" "distinct (map pubKey vs)" "injective_on c r (pubKey ` set vs)"
  shows "shuffleList c vs r = shuffleList c ws r"
proof -
  define f where "f = (\<lambda>v :: Validator. c (pubKey v @ r))"
  let ?lt = "\<lambda>x y. bytes_Compare x y < 0"
  have inj: "inj_on f (set vs)"
    using assms(2,3) unfolding f_def injective_on_def inj_on_def distinct_map by blast
  have "distinct vs" using assms(2) by (simp add: distinct_map)
  then have d: "distinct (map f vs)" using inj by (simp add: distinct_map)
  then have d': "distinct (map f ws)" using assms(1) by (metis mset_eq_imp_distinct_iff mset_map)
  have tot: "?lt a b \<or> ?lt b a" if "a \<noteq> b" for a b
    using that bytes_Compare_eq_0 [of a b] bytes_Compare_flip [of a b] by linarith
  have s: "sorted_wrt ?lt (sort_Slice ?lt xs)" if "distinct xs" for xs
    using bcmp.cmp_trans tot that by (rule sorted_sort_Slice)
  have ks: "sort_Slice ?lt (map f vs) = sort_Slice ?lt (map f ws)"
    by (rule sort_Slice_unique [OF bcmp.cmp_less_asym s [OF d] _ s [OF d']]) (use assms(1) in \<open>simp_all only: mset_sort_Slice mset_map\<close>)
  have sets: "set vs = set ws" using assms(1) by (rule mset_eq_setD)
  have "(Map.empty(map f vs [\<mapsto>] vs)) (f v) = (Map.empty(map f ws [\<mapsto>] ws)) (f v)" if v: "v \<in> set vs" for v
  proof -
    obtain v1 where 1: "v1 \<in> set vs" "(Map.empty(map f vs [\<mapsto>] vs)) (f v) = Some v1" "f v1 = f v"
      using shuffleList_lookup [OF v, of f] by blast
    obtain v2 where 2: "v2 \<in> set ws" "(Map.empty(map f ws [\<mapsto>] ws)) (f v) = Some v2" "f v2 = f v"
      using shuffleList_lookup [of v ws f] v sets by blast
    have "v1 = v" "v2 = v" using 1 2 v sets inj unfolding inj_on_def by blast+
    with 1(2) 2(2) show ?thesis by simp
  qed
  then have "map (\<lambda>k. the ((Map.empty(map f vs [\<mapsto>] vs)) k)) (sort_Slice ?lt (map f ws)) =
      map (\<lambda>k. the ((Map.empty(map f ws [\<mapsto>] ws)) k)) (sort_Slice ?lt (map f ws))"
    using sets by (intro map_cong refl) auto
  then show ?thesis
    using ks unfolding shuffleList_def Let_def f_def by argo
qed

lemma same_shuffleOutNodes:
  assumes "same e e'"
  shows "shuffleOutNodes c e n r = shuffleOutNodes c e' n r"
proof -
  have "shuffled_out c e n r = shuffled_out c e' n r"
    by (rule ext) (simp only: shuffled_out_def out_count_def same_lst [OF assms])
  moreover have "kept_in c e n r = kept_in c e' n r"
    by (rule ext) (simp only: kept_in_def shuffled_out_def out_count_def same_lst [OF assms])
  ultimately show ?thesis
    unfolding shuffleOutNodes_tabulate [OF same_distinct(1) [OF assms]] shuffleOutNodes_tabulate [OF same_distinct(2) [OF assms]]
      same_sortKeys [OF assms] by simp
qed

lemma same_refl: "distinct (shards_of m) \<Longrightarrow> same m m"
  by (rule sameI) simp_all

lemma same_DistributeValidators:
  assumes w: "same w w'" "w \<noteq> []" and out: "distinct (shards_of out)" "distinct (map pubKey (concat (map snd out)))"
    and v: "all_visited env" "all_visited (env\<lparr>visit := v\<rparr>)" and inj: "injective_on (Compute env) r (set_mset (map_keys out))"
  shows "\<exists>w1 w1' out1 out1'. DistributeValidators env vd w out r b = Inr (w1, out1) \<and>
      DistributeValidators (env\<lparr>visit := v\<rparr>) vd w' out r b = Inr (w1', out1') \<and> same w1 w1' \<and> same out1 out1'"
proof (cases vd)
  case IntraShardValidatorDistributor
  with same_moveNodes [OF w(1) same_refl [OF out(1)]] show ?thesis by (auto simp: DistributeValidators_def)
next
  case CrossShardValidatorDistributor
  let ?a = "concat (map snd (visit env out))" and ?a' = "concat (map snd (v out))"
  have c: "mset (concat xss) = sum_mset (image_mset mset (mset xss))" for xss :: "Validator list list"
    by (induction xss) simp_all
  have vis: "mset (visit env out) = mset out" "mset (v out) = mset out"
    using v unfolding all_visited_def by simp_all
  have ma: "mset ?a = mset (concat (map snd out))" "mset ?a' = mset (concat (map snd out))"
    unfolding c mset_map vis by (rule refl)+
  have "distinct (map pubKey ?a)" using out(2) ma(1) by (metis mset_eq_imp_distinct_iff mset_map)
  moreover have "pubKey ` set ?a = set_mset (map_keys out)"
    using keys_of_concat_visit [OF v(1), of out] set_keys_of [of ?a] by simp
  ultimately have "shuffleList (Compute env) ?a r = shuffleList (Compute env) ?a' r"
    using ma inj by (intro shuffleList_order) simp_all
  from same_distributeValidators [OF w this] obtain x x' where x: "distributeValidators (Compute env) w ?a r b = Inr x"
      "distributeValidators (Compute env) w' ?a' r b = Inr x'" "same x x'"
    by blast
  with CrossShardValidatorDistributor same_refl [OF out(1)] show ?thesis by (simp add: DistributeValidators_def)
qed

section \<open>The update\<close>

definition same_res :: "ResUpdateNodes \<Rightarrow> ResUpdateNodes \<Rightarrow> bool" where
  "same_res r r' \<longleftrightarrow> same (Eligible r) (Eligible r') \<and> same (Waiting r) (Waiting r') \<and> same (ShuffledOut r) (ShuffledOut r') \<and>
     Leaving r = Leaving r' \<and> StillRemaining r = StillRemaining r' \<and> LowWaitingList r = LowWaitingList r'"

definition same_outcome :: "ResUpdateNodes shuffled \<Rightarrow> ResUpdateNodes shuffled \<Rightarrow> bool" where
  "same_outcome x x' \<longleftrightarrow> rel_sum (=) same_res x x'"

definition all_keys_distinct :: "vmap \<Rightarrow> bool" where
  "all_keys_distinct m \<longleftrightarrow> distinct (map pubKey (concat (map snd m)))"

lemma all_keys_distinct_sub: "all_keys_distinct m \<Longrightarrow> map_keys m' \<subseteq># map_keys m \<Longrightarrow> all_keys_distinct m'"
  unfolding all_keys_distinct_def map_keys_def keys_of_def by (rule distinct_sub_mset)

lemma all_keys_distinct_lists:
  assumes "all_keys_distinct m" "distinct (shards_of m)"
  shows "keys_distinct m"
  unfolding keys_distinct_def
proof
  fix k
  show "distinct (map pubKey (lst m k))"
    using assms(1) keys_of_lst_subset [OF assms(2), of k]
    unfolding all_keys_distinct_def map_keys_def keys_of_def by (rule distinct_sub_mset)
qed

lemma same_checkAndDistribute:
  assumes "same w w'" "w \<noteq> []"
  shows "(\<exists>e. checkAndDistributeNewNodes c w vs r b = Inl e \<and> checkAndDistributeNewNodes c w' vs r b = Inl e) \<or>
    (\<exists>x x'. checkAndDistributeNewNodes c w vs r b = Inr x \<and> checkAndDistributeNewNodes c w' vs r b = Inr x' \<and> same x x' \<and> x \<noteq> [])"
proof (cases b)
  case True
  then show ?thesis using assms by (auto simp: checkAndDistributeNewNodes_def)
next
  case False
  obtain x x' where x: "distributeValidators c w vs r False = Inr x" "distributeValidators c w' vs r False = Inr x'" "same x x'" "x \<noteq> []"
    using same_distributeValidators [OF assms refl] by blast
  with x False show ?thesis by (simp add: checkAndDistributeNewNodes_def)
qed

lemma arg_sel:
  fixes env :: shuffle_env and arg :: shuffleNodesArg
  shows "Compute (env\<lparr>visit := vv\<rparr>) = Compute env" "MetachainShardId (env\<lparr>visit := vv\<rparr>) = MetachainShardId env"
    "unstakeLeaving (arg\<lparr>eligible := E', waiting := W'\<rparr>) = unstakeLeaving arg"
    "additionalLeaving (arg\<lparr>eligible := E', waiting := W'\<rparr>) = additionalLeaving arg"
    "newNodes (arg\<lparr>eligible := E', waiting := W'\<rparr>) = newNodes arg" "auction (arg\<lparr>eligible := E', waiting := W'\<rparr>) = auction arg"
    "randomness (arg\<lparr>eligible := E', waiting := W'\<rparr>) = randomness arg" "distributor_of (arg\<lparr>eligible := E', waiting := W'\<rparr>) = distributor_of arg"
    "nodesMeta (arg\<lparr>eligible := E', waiting := W'\<rparr>) = nodesMeta arg" "nodesPerShard (arg\<lparr>eligible := E', waiting := W'\<rparr>) = nodesPerShard arg"
    "maxNumNodes (arg\<lparr>eligible := E', waiting := W'\<rparr>) = maxNumNodes arg"
    "flagBalanceWaitingLists (arg\<lparr>eligible := E', waiting := W'\<rparr>) = flagBalanceWaitingLists arg"
    "flagStakingV4Step2 (arg\<lparr>eligible := E', waiting := W'\<rparr>) = flagStakingV4Step2 arg"
    "flagStakingV4Step3 (arg\<lparr>eligible := E', waiting := W'\<rparr>) = flagStakingV4Step3 arg"
    "flagCleanupAuctionOnLowWaitingList (arg\<lparr>eligible := E', waiting := W'\<rparr>) = flagCleanupAuctionOnLowWaitingList arg"
    "eligible (arg\<lparr>eligible := E', waiting := W'\<rparr>) = E'" "waiting (arg\<lparr>eligible := E', waiting := W'\<rparr>) = W'"
    "nbShards (arg\<lparr>eligible := E', waiting := W'\<rparr>) = nbShards arg"
  by simp_all

lemma same_finish:
  assumes e: "same e e'" "all_keys_distinct e" and w: "same w w'" "w \<noteq> []"
    and v: "all_visited env" "all_visited (env\<lparr>visit := vv\<rparr>)"
    and inj: "injective_on (Compute env) (randomness arg) (set_mset (map_keys e))"
  shows "same_outcome (finish env arg e w still n) (finish (env\<lparr>visit := vv\<rparr>) (arg\<lparr>eligible := E', waiting := W'\<rparr>) e' w' still n)"
proof -
  let ?c = "Compute env" and ?r = "randomness arg"
  obtain out e1 where out: "shuffleOutNodes ?c e n ?r = (out, e1)" by fastforce
  have out': "shuffleOutNodes ?c e' n ?r = (out, e1)" using out same_shuffleOutNodes [OF e(1)] by simp
  note so = shuffleOutNodes_spec [OF out same_distinct(1) [OF e(1)] all_keys_distinct_lists [OF e(2) same_distinct(1) [OF e(1)]] inj]
  have sub: "map_keys out \<subseteq># map_keys e" using so(1) by (metis mset_subset_eq_add_right)
  obtain e2 e2' w2 w2' where mv: "moveMaxNumNodesToMap (MetachainShardId env) (Some e1) w (nodesMeta arg) (nodesPerShard arg) = Inr (e2, w2)"
      "moveMaxNumNodesToMap (MetachainShardId env) (Some e1) w' (nodesMeta arg) (nodesPerShard arg) = Inr (e2', w2')" "same e2 e2'" "same w2 w2'"
    using same_moveMax [OF same_refl [OF so(2)] w(1)] by blast
  have w2: "w2 \<noteq> []"
  proof -
    have "set (shards_of w2) = set (shards_of w)"
      using moveMaxNumNodesToMap_spec [OF so(2) same_distinct(1) [OF w(1)], of "MetachainShardId env" "nodesMeta arg" "nodesPerShard arg"] mv(1) by auto
    then show ?thesis using w(2) by (cases w) auto
  qed
  from same_checkAndDistribute [OF mv(4) w2, of ?c "newNodes arg" ?r "flagStakingV4Step3 arg"] show ?thesis
  proof (elim disjE exE conjE)
    fix err assume "checkAndDistributeNewNodes ?c w2 (newNodes arg) ?r (flagStakingV4Step3 arg) = Inl err"
      "checkAndDistributeNewNodes ?c w2' (newNodes arg) ?r (flagStakingV4Step3 arg) = Inl err"
    then show ?thesis by (simp add: finish_def out out' mv Let_def same_outcome_def)
  next
    fix w3 w3' assume nw: "checkAndDistributeNewNodes ?c w2 (newNodes arg) ?r (flagStakingV4Step3 arg) = Inr w3"
      "checkAndDistributeNewNodes ?c w2' (newNodes arg) ?r (flagStakingV4Step3 arg) = Inr w3'" "same w3 w3'" "w3 \<noteq> []"
    define low where "low = shouldDistributeShuffledToWaitingInStakingV4
               \<lparr>numShuffled = getNumPubKeys out, numNewEligible = getNumPubKeys e2,
                numNewWaiting = getNumPubKeys w3, numSelectedAuction = of_nat (length (auction arg)),
                cfg_maxNumNodes = maxNumNodes arg, cfg_flagStakingV4Step2 = flagStakingV4Step2 arg\<rparr>"
    have low': "shouldDistributeShuffledToWaitingInStakingV4
               \<lparr>numShuffled = getNumPubKeys out, numNewEligible = getNumPubKeys e2',
                numNewWaiting = getNumPubKeys w3', numSelectedAuction = of_nat (length (auction arg)),
                cfg_maxNumNodes = maxNumNodes arg, cfg_flagStakingV4Step2 = flagStakingV4Step2 arg\<rparr> = low"
      unfolding low_def getNumPubKeys_size same_map_keys [OF mv(3)] same_map_keys [OF nw(3)] ..
    obtain w4 w4' where au: "(if flagStakingV4Step3 arg \<or> low then distributeValidators ?c w3 (auction arg) ?r (flagBalanceWaitingLists arg) else Inr w3) = Inr w4"
        "(if flagStakingV4Step3 arg \<or> low then distributeValidators ?c w3' (auction arg) ?r (flagBalanceWaitingLists arg) else Inr w3') = Inr w4'" "same w4 w4'" and w4: "w4 \<noteq> []"
      using same_distributeValidators [OF nw(3,4) refl, of ?c "auction arg" ?r "flagBalanceWaitingLists arg"] nw(3,4)
      by (cases "flagStakingV4Step3 arg \<or> low") auto
    obtain w5 w5' o5 o5' where ds: "(if \<not> flagStakingV4Step2 arg \<or> low then DistributeValidators env (distributor_of arg) w4 out ?r (flagBalanceWaitingLists arg)
          else Inr (w4, out)) = Inr (w5, o5)"
        "(if \<not> flagStakingV4Step2 arg \<or> low then DistributeValidators (env\<lparr>visit := vv\<rparr>) (distributor_of arg) w4' out ?r (flagBalanceWaitingLists arg)
          else Inr (w4', out)) = Inr (w5', o5')" "same w5 w5'" "same o5 o5'"
      using same_DistributeValidators [OF au(3) w4 so(3) all_keys_distinct_sub [OF e(2) sub, unfolded all_keys_distinct_def] v
          injective_on_subset [OF inj set_mset_mono [OF sub]], of "distributor_of arg" "flagBalanceWaitingLists arg"] au(3) same_refl [OF so(3)]
      by (cases "\<not> flagStakingV4Step2 arg \<or> low") auto
    have run: "finish env arg e w still n =
        Inr \<lparr>Eligible = e2, Waiting = w5, ShuffledOut = o5,
             Leaving = fst (removeValidatorsFromList (unstakeLeaving arg @ additionalLeaving arg) still (int (length still))),
             StillRemaining = still, LowWaitingList = (flagCleanupAuctionOnLowWaitingList arg \<and> low)\<rparr>"
      unfolding finish_def out Let_def prod.case mv(1) sum.case nw(1) low_def [symmetric] au(1) ds(1) ..
    have run': "finish (env\<lparr>visit := vv\<rparr>) (arg\<lparr>eligible := E', waiting := W'\<rparr>) e' w' still n =
        Inr \<lparr>Eligible = e2', Waiting = w5', ShuffledOut = o5',
             Leaving = fst (removeValidatorsFromList (unstakeLeaving arg @ additionalLeaving arg) still (int (length still))),
             StillRemaining = still, LowWaitingList = (flagCleanupAuctionOnLowWaitingList arg \<and> low)\<rparr>"
      unfolding finish_def arg_sel out' Let_def prod.case mv(2) sum.case nw(2) low' au(2) ds(2) ..
    show ?thesis
      unfolding run run' same_outcome_def using mv(3) ds(3,4) by (simp add: same_res_def)
  qed
qed

lemma same_removal:
  assumes e: "same (eligible arg) E'" and w: "same (waiting arg) W'"
  shows "\<exists>e1 e1' w1 w1' st n1. removal env arg n = (e1, w1, st, n1) \<and>
      removal (env\<lparr>visit := vv\<rparr>) (arg\<lparr>eligible := E', waiting := W'\<rparr>) n = (e1', w1', st, n1) \<and> same e1 e1' \<and> same w1 w1'"
proof -
  let ?w = "createListsForAllShards (MetachainShardId env) (waiting arg) (nbShards arg)"
    and ?w' = "createListsForAllShards (MetachainShardId env) W' (nbShards arg)"
  have cw: "same ?w ?w'" by (rule same_createLists [OF w])
  have nf: "removeLeavingNodesNotExistingInEligibleOrWaiting lv ?w (eligible arg) = removeLeavingNodesNotExistingInEligibleOrWaiting lv ?w' E'" for lv
    unfolding removeLeavingNodesNotExistingInEligibleOrWaiting_def same_searchInMap [OF cw] same_searchInMap [OF e] ..
  let ?ru = "fst (removeLeavingNodesNotExistingInEligibleOrWaiting (unstakeLeaving arg) ?w' E')"
    and ?ra = "fst (removeLeavingNodesNotExistingInEligibleOrWaiting (additionalLeaving arg) ?w' E')"
  obtain e1 e1' w1 w1' l1 n1 where 1: "removeLeavingNodesFromValidatorMaps (eligible arg) ?w (clamp (maxNodesToSwapPerShard arg) n) ?ru = (e1, w1, l1, n1)"
      "removeLeavingNodesFromValidatorMaps E' ?w' (clamp (maxNodesToSwapPerShard arg) n) ?ru = (e1', w1', l1, n1)" "same e1 e1'" "same w1 w1'"
    using same_removeLeavingNodes [OF e cw] by blast
  obtain e2 e2' w2 w2' l2 n2 where 2: "removeLeavingNodesFromValidatorMaps e1 w1 n1 ?ra = (e2, w2, l2, n2)"
      "removeLeavingNodesFromValidatorMaps e1' w1' n1 ?ra = (e2', w2', l2, n2)" "same e2 e2'" "same w2 w2'"
    using same_removeLeavingNodes [OF 1(3,4)] by blast
  have "removal env arg n = (e2, w2, l1 @ l2, n2)"
    by (simp add: removal_def Let_def copyValidatorMap_id same_distinct(1) [OF e] same_distinct(1) [OF w] nf 1 2)
  moreover have "removal (env\<lparr>visit := vv\<rparr>) (arg\<lparr>eligible := E', waiting := W'\<rparr>) n = (e2', w2', l1 @ l2, n2)"
    by (simp add: removal_def Let_def copyValidatorMap_id same_distinct(2) [OF e] same_distinct(2) [OF w] 1 2)
  ultimately show ?thesis using 2(3,4) by blast
qed

lemma same_computeNumToRemove:
  assumes e: "same (eligible arg) E'" and w: "same (waiting arg) W'"
  shows "computeNumToRemove meta (arg\<lparr>eligible := E', waiting := W'\<rparr>) = computeNumToRemove meta arg"
proof -
  have "nodes_in (arg\<lparr>eligible := E', waiting := W'\<rparr>) = nodes_in arg"
    by (rule ext) (simp add: nodes_in_def same_lst [OF e] same_lst [OF w])
  then have nl: "num_loop (arg\<lparr>eligible := E', waiting := W'\<rparr>) ss n = num_loop arg ss n" for ss n
    unfolding num_loop_spec arg_sel by (simp only:)
  show ?thesis unfolding computeNumToRemove_def nl arg_sel same_lst [OF e] same_lst [OF w] ..
qed

lemma sum_mset_sub: "(\<And>k. f k \<subseteq># g k) \<Longrightarrow> (\<Sum>k\<in>#M. f k) \<subseteq># (\<Sum>k\<in>#M. g k :: 'a multiset)"
  by (induction M) (auto intro: subset_mset.add_mono)

lemma same_shuffleNodes:
  assumes e: "same (eligible arg) E'" "all_keys_distinct (eligible arg)" and w: "same (waiting arg) W'"
    and v: "all_visited env" "all_visited (env\<lparr>visit := vv\<rparr>)" and meta: "MetachainShardId env \<notin> {..<nbShards arg}"
    and inj: "injective_on (Compute env) (randomness arg) (set_mset (map_keys (eligible arg)))"
  shows "same_outcome (shuffleNodes env arg) (shuffleNodes (env\<lparr>visit := vv\<rparr>) (arg\<lparr>eligible := E', waiting := W'\<rparr>))"
proof (cases "computeNumToRemove (MetachainShardId env) arg")
  case (Inl err)
  then show ?thesis by (simp add: shuffleNodes_parts same_computeNumToRemove [OF e(1) w] same_outcome_def)
next
  case (Inr n)
  obtain e1 e1' w1 w1' st n1 where r: "removal env arg n = (e1, w1, st, n1)"
      "removal (env\<lparr>visit := vv\<rparr>) (arg\<lparr>eligible := E', waiting := W'\<rparr>) n = (e1', w1', st, n1)" "same e1 e1'" "same w1 w1'"
    using same_removal [OF e(1) w] by blast
  have n0: "\<forall>k. 0 \<le> num n k" using computeNumToRemove_num(1) [OF Inr meta] by simp
  note d = same_distinct(1) [OF e(1)] same_distinct(1) [OF w]
  obtain R where R: "taken2 (eligible arg) (createListsForAllShards (MetachainShardId env) (waiting arg) (nbShards arg))
               (clamp (maxNodesToSwapPerShard arg) n) R e1 w1 n1"
    using removal_spec [OF r(1) d n0] by blast
  have sub: "map_keys e1 \<subseteq># map_keys (eligible arg)"
  proof -
    have "shards_of e1 = shards_of (eligible arg)" "keys_of (lst e1 k) \<subseteq># keys_of (lst (eligible arg) k)" for k
      using R unfolding taken2_def by blast+
    then show ?thesis
      using map_keys_sum [OF d(1)] map_keys_sum [of e1] d(1) by (simp only:) (rule sum_mset_sub)
  qed
  note rd = removal_ready [OF r(1) d n0 all_keys_distinct_lists [OF e(2) d(1)]]
  have "same_outcome (finish env arg e1 w1 st n1) (finish (env\<lparr>visit := vv\<rparr>) (arg\<lparr>eligible := E', waiting := W'\<rparr>) e1' w1' st n1)"
    by (rule same_finish [OF r(3) all_keys_distinct_sub [OF e(2) sub] r(4) rd(3) v injective_on_subset [OF inj set_mset_mono [OF sub]]])
  then show ?thesis by (simp add: shuffleNodes_parts same_computeNumToRemove [OF e(1) w] Inr r)
qed

lemma same_computeNewShards:
  assumes e: "same E E'" and w: "same W W'"
  shows "computeNewShards env cp E W a b nb = computeNewShards (env\<lparr>visit := vv\<rparr>) cp E' W' a b nb"
proof -
  have sum: "foldl (\<lambda>(ne, nw) (shard, _). (ne + length (lst E shard), nw + length (lst W shard))) (x, y) m =
      (x + (\<Sum>k\<in>#mset (shards_of m). length (lst E k)), y + (\<Sum>k\<in>#mset (shards_of m). length (lst W k)))" for E W m :: vmap and x y
    by (induction m arbitrary: x y) auto
  show ?thesis
    unfolding computeNewShards_def sum same_shards [OF e] same_lst [OF e] same_lst [OF w]
    by (simp add: metaHysteresis_def shardHysteresis_def)
qed

lemma update_arg_maps:
  "update_arg rhs (args\<lparr>au_Eligible := E', au_Waiting := W'\<rparr>) = (update_arg rhs args)\<lparr>eligible := E', waiting := W'\<rparr>"
  by (simp add: update_arg_def)

text \<open>
  C21: The update does not depend on the order in which maps are visited: two processes that hold the same
  eligible and waiting lists in maps with different iteration orders, and visit the shuffled out nodes in different
  orders, come to the same lists of every shard in the same order, the same leaving and remaining nodes, or the same error.
\<close>

theorem shuffler_deterministic:
  assumes "mset E' = mset (au_Eligible args)" "mset W' = mset (au_Waiting args)"
    and "distinct (map fst (au_Eligible args))" "distinct (map fst (au_Waiting args))"
    and "all_keys_distinct (au_Eligible args)" "all_visited env" "all_visited (env\<lparr>visit := vv\<rparr>)"
    and "MetachainShardId env \<notin> {..<NbShards args}"
    and "injective_on (Compute env) (Rand args) (set_mset (map_keys (au_Eligible args)))"
  shows "fst (UpdateNodeLists (env\<lparr>visit := vv\<rparr>) rhs (args\<lparr>au_Eligible := E', au_Waiting := W'\<rparr>)) = fst (UpdateNodeLists env rhs args) \<and>
         same_outcome (snd (UpdateNodeLists env rhs args))
           (snd (UpdateNodeLists (env\<lparr>visit := vv\<rparr>) rhs (args\<lparr>au_Eligible := E', au_Waiting := W'\<rparr>)))"
proof -
  have s: "same (au_Eligible args) E'" "same (au_Waiting args) W'" using same_mset [OF assms(3)] same_mset [OF assms(4)] assms(1,2) by simp_all
  let ?args' = "args\<lparr>au_Eligible := E', au_Waiting := W'\<rparr>"
  have u': "UpdateNodeLists (env\<lparr>visit := vv\<rparr>) rhs ?args' =
     (let rhs' = UpdateShufflerConfig rhs (Epoch args) (ChainParameters args)
      in (rhs', case computeNewShards (env\<lparr>visit := vv\<rparr>) (ChainParameters args) E' W' (length (NewNodes args))
                       (length (removeDuplicates (UnStakeLeaving args) (AdditionalLeaving args)) + length (UnStakeLeaving args)) (NbShards args) of
                  Inl e \<Rightarrow> Inl e
                | Inr nb \<Rightarrow> shuffleNodes (env\<lparr>visit := vv\<rparr>) ((update_arg rhs' args)\<lparr>eligible := E', waiting := W'\<rparr>)))"
    using UpdateNodeLists_arg [of ?args' "env\<lparr>visit := vv\<rparr>" rhs] same_distinct(2) [OF s(1)] same_distinct(2) [OF s(2)]
    unfolding update_arg_maps by simp
  have 1: "fst (UpdateNodeLists (env\<lparr>visit := vv\<rparr>) rhs ?args') = fst (UpdateNodeLists env rhs args)"
    unfolding u' UpdateNodeLists_arg [OF assms(3,4)] Let_def by simp
  have "same_outcome (shuffleNodes env (update_arg r args)) (shuffleNodes (env\<lparr>visit := vv\<rparr>) ((update_arg r args)\<lparr>eligible := E', waiting := W'\<rparr>))" for r
    by (rule same_shuffleNodes) (use s assms(5-9) in simp_all)
  then have "same_outcome (snd (UpdateNodeLists env rhs args)) (snd (UpdateNodeLists (env\<lparr>visit := vv\<rparr>) rhs ?args'))"
    unfolding u' UpdateNodeLists_arg [OF assms(3,4)] Let_def same_computeNewShards [OF s, of env _ _ _ _ vv]
    by (auto simp: same_outcome_def split: sum.split)
  with 1 show ?thesis by blast
qed

theorem shuffler_deterministic_witness:
  "same_outcome (snd (UpdateNodeLists sample_env sample_shuffler sample_args))
     (snd (UpdateNodeLists (sample_env\<lparr>visit := id\<rparr>) sample_shuffler
       (sample_args\<lparr>au_Eligible := rev (au_Eligible sample_args), au_Waiting := au_Waiting sample_args\<rparr>))) \<and>
   \<not> isl (snd (UpdateNodeLists sample_env sample_shuffler sample_args))"
proof
  have "all_visited (sample_env\<lparr>visit := id\<rparr>)" by (simp add: all_visited_def)
  moreover have "all_keys_distinct (au_Eligible sample_args)"
    by (simp add: all_keys_distinct_def sample_args_def sample_node_def)
  ultimately show "same_outcome (snd (UpdateNodeLists sample_env sample_shuffler sample_args))
     (snd (UpdateNodeLists (sample_env\<lparr>visit := id\<rparr>) sample_shuffler
       (sample_args\<lparr>au_Eligible := rev (au_Eligible sample_args), au_Waiting := au_Waiting sample_args\<rparr>)))"
    using shuffler_deterministic [OF _ refl sample_maps(1,2) _ sample_maps(4) _ sample_maps(5,6)] by (metis mset_rev)
  show "\<not> isl (snd (UpdateNodeLists sample_env sample_shuffler sample_args))"
    using sample_run by (simp add: case_prod_beta)
qed

end
