(* ===== verification/Staking_Queue.thy ===== *)
theory Staking_Queue
  imports Prelude
begin

text \<open>
  The storage of the staking contract: the registration data of the nodes (\<open>stakingSaveLoad.go\<close>) and the
  waiting list (\<open>stakingWaitingList.go\<close>), a doubly linked list whose elements live in the storage of the contract
  under the key of the node with a prefix. What the contract gets from elsewhere (block chain hook, marshalizer,
  enabled flags, other contracts) and its constants form the environment. Keys and data are byte strings; a deleted
  entry is empty. Return messages are recorded with the values they show.
\<close>

section \<open>Bytes and numbers\<close>

definition ascii :: "string \<Rightarrow> bytes" where
  "ascii s = map of_char s"

text \<open>\<open>big.Int.SetBytes\<close>, \<open>big.Int.Bytes\<close>, \<open>strconv.Itoa\<close>, \<open>hex.EncodeToString\<close> and \<open>copy\<close>.\<close>

definition big_SetBytes :: "bytes \<Rightarrow> nat" where
  "big_SetBytes b = foldl (\<lambda>v x. v * 256 + unat x) 0 b"

fun nat_Bytes :: "nat \<Rightarrow> bytes" where
  "nat_Bytes n = (if n = 0 then [] else nat_Bytes (n div 256) @ [of_nat n])"

definition big_Bytes :: "int \<Rightarrow> bytes" where
  "big_Bytes i = nat_Bytes (nat \<bar>i\<bar>)"

fun nat_Itoa :: "nat \<Rightarrow> bytes" where
  "nat_Itoa n = (if n < 10 then [48 + of_nat n] else nat_Itoa (n div 10) @ [48 + of_nat (n mod 10)])"

definition strconv_Itoa :: "int \<Rightarrow> bytes" where
  "strconv_Itoa i = (if i < 0 then 45 # nat_Itoa (nat (- i)) else nat_Itoa (nat i))"

definition hex_digit :: "nat \<Rightarrow> u8" where
  "hex_digit n = (if n < 10 then 48 + of_nat n else 87 + of_nat n)"

definition hex_EncodeToString :: "bytes \<Rightarrow> bytes" where
  "hex_EncodeToString b = concat (map (\<lambda>x. [hex_digit (unat x div 16), hex_digit (unat x mod 16)]) b)"

definition go_copy :: "bytes \<Rightarrow> bytes \<Rightarrow> bytes" where
  "go_copy dst src = take (length dst) src @ drop (length src) dst"

declare nat_Bytes.simps [simp del] nat_Itoa.simps [simp del]

section \<open>Data\<close>

record StakedDataV2_0 =
  RegisterNonce :: u64
  StakedNonce :: u64
  Staked :: bool
  UnStakedNonce :: u64
  UnStakedEpoch :: u32
  RewardAddress :: bytes
  StakeValue :: int
  JailedRound :: u64
  JailedNonce :: u64
  UnJailedNonce :: u64
  Jailed :: bool
  Waiting :: bool
  NumJailed :: u32
  SlashValue :: "int option"
  OwnerAddress :: bytes

text \<open>The older formats have the first twelve and the first fourteen fields.\<close>

record StakedDataV1_0 =
  v0_RegisterNonce :: u64
  v0_StakedNonce :: u64
  v0_Staked :: bool
  v0_UnStakedNonce :: u64
  v0_UnStakedEpoch :: u32
  v0_RewardAddress :: bytes
  v0_StakeValue :: int
  v0_JailedRound :: u64
  v0_JailedNonce :: u64
  v0_UnJailedNonce :: u64
  v0_Jailed :: bool
  v0_Waiting :: bool

record StakedDataV1_1 = StakedDataV1_0 +
  v1_NumJailed :: u32
  v1_SlashValue :: "int option"

text \<open>The counters are \<open>int64\<close>.\<close>

record StakingNodesConfig =
  MinNumNodes :: u64
  MaxNumNodes :: u64
  StakedNodes :: u64
  JailedNodes :: u64

record ElementInList =
  BLSPublicKey :: bytes
  PreviousKey :: bytes
  NextKey :: bytes

record WaitingList =
  FirstKey :: bytes
  LastKey :: bytes
  Length :: u32
  LastJailedKey :: bytes

record waitingListReturnData =
  blsKeys :: "bytes list"
  stakedDataList :: "StakedDataV2_0 list"
  lastKey :: bytes
  afterLastJailed :: bool

text \<open>What the contract reads of the data of an owner in the validator contract.\<close>

record ValidatorDataV2 =
  BlsPubKeys :: "bytes list"
  TotalStakeValue :: int

datatype staking_error = ErrElementNotFound | ErrInvalidWaitingList | ErrWaitingListDisabled | ErrBLSPublicKeyAlreadyJailed
  | ErrUnmarshal | ErrMarshal | ErrExternal | PanicDivisionByZero

datatype message = Msg string "bytes list" | MsgErr string staking_error

datatype ReturnCode = Ok | UserError | OutOfGas | ExecutionFailed | Panic

datatype staking_flag = CorrectFirstQueuedFlag | ValidatorToDelegationFlag | StakingV2Flag | CorrectLastUnJailedFlag
  | CorrectJailedNotUnStakedEmptyQueueFlag | StakeFlag | StakingV4StartedFlag | StakingV4Step1Flag
  | FixCorrectSmallIntAndGasLimitsFlag

record eei =
  store :: "bytes \<Rightarrow> slice"
  eei_output :: "bytes list"
  returnMessage :: "message list"
  gasRemaining :: u64

record stakingSC =
  unBondPeriod :: u64
  unBondPeriodSupernova :: u64
  stakeAccessAddr :: bytes
  jailAccessAddr :: bytes
  endOfEpochAccessAddr :: bytes
  gasCostGet :: u64
  gasCostFixWaitingListSize :: u64
  minNumNodes :: u64
  maxNumNodes :: u64
  stakeValue :: int
  walletAddressLen :: nat
  minNodePrice :: int
  IsFlagEnabled :: "staking_flag \<Rightarrow> bool"
  IsSupernovaRound :: "u64 \<Rightarrow> bool"
  CurrentNonce :: u64
  CurrentRound :: u64
  CurrentEpoch :: u32
  CanUnJail :: "bytes \<Rightarrow> bool"
  IsBadRating :: "bytes \<Rightarrow> bool"
  IsValidator :: "bytes \<Rightarrow> bool"
  SCDeployInitFunctionName :: string
  IsSmartContractAddress :: "bytes \<Rightarrow> bool"
  OnMetachain :: "bytes \<Rightarrow> bool"
  GetStorageFromAddress :: "bytes \<Rightarrow> bytes \<Rightarrow> bytes"
  ExecuteOnDestContext :: "bytes \<Rightarrow> bytes \<Rightarrow> bytes \<Rightarrow> eei \<Rightarrow> (staking_error + ReturnCode) \<times> eei"
  MarshalStaked :: "StakedDataV2_0 \<Rightarrow> bytes option"
  MarshalStakedV1_0 :: "StakedDataV1_0 \<Rightarrow> bytes option"
  MarshalStakedV1_1 :: "StakedDataV1_1 \<Rightarrow> bytes option"
  UnmarshalStaked :: "StakedDataV2_0 \<Rightarrow> bytes \<Rightarrow> StakedDataV2_0 option"
  MarshalConfig :: "StakingNodesConfig \<Rightarrow> bytes option"
  UnmarshalConfig :: "StakingNodesConfig \<Rightarrow> bytes \<Rightarrow> StakingNodesConfig option"
  MarshalElement :: "ElementInList \<Rightarrow> bytes option"
  UnmarshalElement :: "bytes \<Rightarrow> ElementInList option"
  MarshalList :: "WaitingList \<Rightarrow> bytes option"
  UnmarshalList :: "WaitingList \<Rightarrow> bytes \<Rightarrow> WaitingList option"
  UnmarshalValidator :: "bytes \<Rightarrow> ValidatorDataV2 option"

type_synonym result = "staking_error option \<times> eei"

definition andThen :: "result \<Rightarrow> (eei \<Rightarrow> result) \<Rightarrow> result" where
  "andThen r k = (case r of (Some e, st) \<Rightarrow> (Some e, st) | (None, st) \<Rightarrow> k st)"

lemma andThen_simps [simp]: "andThen (Some e, st) k = (Some e, st)" "andThen (None, st) k = k st"
  by (simp_all add: andThen_def)

definition GetStorage :: "eei \<Rightarrow> bytes \<Rightarrow> bytes" where
  "GetStorage st key = slice_str (store st key)"

definition SetStorage :: "bytes \<Rightarrow> bytes \<Rightarrow> eei \<Rightarrow> eei" where
  "SetStorage key v st = st\<lparr>store := (store st)(key := Some v)\<rparr>"

definition AddReturnMessage :: "message \<Rightarrow> eei \<Rightarrow> eei" where
  "AddReturnMessage m st = st\<lparr>returnMessage := returnMessage st @ [m]\<rparr>"

definition Finish :: "bytes \<Rightarrow> eei \<Rightarrow> eei" where
  "Finish v st = st\<lparr>eei_output := eei_output st @ [v]\<rparr>"

definition UseGas :: "u64 \<Rightarrow> eei \<Rightarrow> eei option" where
  "UseGas g st = (if gasRemaining st < g then None else Some (st\<lparr>gasRemaining := gasRemaining st - g\<rparr>))"

section \<open>Saving and loading\<close>

definition waitingListHeadKey :: bytes where "waitingListHeadKey = ascii ''waitingList''"
definition waitingElementPrefix :: bytes where "waitingElementPrefix = ascii ''w_''"
definition ownerKey :: bytes where "ownerKey = ascii ''owner''"
definition nodesConfigKey :: bytes where "nodesConfigKey = ascii ''nodesConfig''"

definition DefaultUnstakedEpoch :: u32 where "DefaultUnstakedEpoch = 0xFFFFFFFF"

definition base_config :: "stakingSC \<Rightarrow> StakingNodesConfig" where
  "base_config s = \<lparr>MinNumNodes = minNumNodes s, MaxNumNodes = maxNumNodes s, StakedNodes = 0, JailedNodes = 0\<rparr>"

definition getConfig :: "stakingSC \<Rightarrow> eei \<Rightarrow> StakingNodesConfig" where
  "getConfig s st =
     (let configData = GetStorage st nodesConfigKey
      in if length configData = 0 then base_config s
         else case UnmarshalConfig s (base_config s) configData of None \<Rightarrow> base_config s | Some c \<Rightarrow> c)"

definition setConfig :: "stakingSC \<Rightarrow> StakingNodesConfig \<Rightarrow> eei \<Rightarrow> eei" where
  "setConfig s config st = (case MarshalConfig s config of None \<Rightarrow> st | Some d \<Rightarrow> SetStorage nodesConfigKey d st)"

definition fresh_data :: StakedDataV2_0 where
  "fresh_data = \<lparr>RegisterNonce = 0, StakedNonce = - 1, Staked = False, UnStakedNonce = 0,
     UnStakedEpoch = DefaultUnstakedEpoch, RewardAddress = [], StakeValue = 0, JailedRound = - 1, JailedNonce = 0,
     UnJailedNonce = 0, Jailed = False, Waiting = False, NumJailed = 0, SlashValue = Some 0, OwnerAddress = []\<rparr>"

definition getOrCreateRegisteredData :: "stakingSC \<Rightarrow> eei \<Rightarrow> bytes \<Rightarrow> staking_error + StakedDataV2_0" where
  "getOrCreateRegisteredData s st key =
     (let d = GetStorage st key;
          fill = (\<lambda>r. Inr (if SlashValue r = None then r\<lparr>SlashValue := Some 0\<rparr> else r))
      in if length d > 0
         then case UnmarshalStaked s fresh_data d of None \<Rightarrow> Inl ErrUnmarshal | Some r \<Rightarrow> fill r
         else fill fresh_data)"

definition save_bytes :: "bytes \<Rightarrow> bytes option \<Rightarrow> eei \<Rightarrow> result" where
  "save_bytes key d st = (case d of None \<Rightarrow> (Some ErrMarshal, st) | Some b \<Rightarrow> (None, SetStorage key b st))"

definition as_v1_0 :: "StakedDataV2_0 \<Rightarrow> StakedDataV1_0" where
  "as_v1_0 d = \<lparr>v0_RegisterNonce = RegisterNonce d, v0_StakedNonce = StakedNonce d, v0_Staked = Staked d,
     v0_UnStakedNonce = UnStakedNonce d, v0_UnStakedEpoch = UnStakedEpoch d, v0_RewardAddress = RewardAddress d,
     v0_StakeValue = StakeValue d, v0_JailedRound = JailedRound d, v0_JailedNonce = JailedNonce d,
     v0_UnJailedNonce = UnJailedNonce d, v0_Jailed = Jailed d, v0_Waiting = Waiting d\<rparr>"

definition as_v1_1 :: "StakedDataV2_0 \<Rightarrow> StakedDataV1_1" where
  "as_v1_1 d = \<lparr>v0_RegisterNonce = RegisterNonce d, v0_StakedNonce = StakedNonce d, v0_Staked = Staked d,
     v0_UnStakedNonce = UnStakedNonce d, v0_UnStakedEpoch = UnStakedEpoch d, v0_RewardAddress = RewardAddress d,
     v0_StakeValue = StakeValue d, v0_JailedRound = JailedRound d, v0_JailedNonce = JailedNonce d,
     v0_UnJailedNonce = UnJailedNonce d, v0_Jailed = Jailed d, v0_Waiting = Waiting d,
     v1_NumJailed = NumJailed d, v1_SlashValue = SlashValue d\<rparr>"

definition saveAsStakingDataV1P0 :: "stakingSC \<Rightarrow> bytes \<Rightarrow> StakedDataV2_0 \<Rightarrow> eei \<Rightarrow> result" where
  "saveAsStakingDataV1P0 s key d st = save_bytes key (MarshalStakedV1_0 s (as_v1_0 d)) st"

definition saveAsStakingDataV1P1 :: "stakingSC \<Rightarrow> bytes \<Rightarrow> StakedDataV2_0 \<Rightarrow> eei \<Rightarrow> result" where
  "saveAsStakingDataV1P1 s key d st = save_bytes key (MarshalStakedV1_1 s (as_v1_1 d)) st"

definition saveStakingData :: "stakingSC \<Rightarrow> bytes \<Rightarrow> StakedDataV2_0 \<Rightarrow> eei \<Rightarrow> result" where
  "saveStakingData s key d st =
     (if \<not> IsFlagEnabled s StakeFlag then saveAsStakingDataV1P0 s key d st
      else if \<not> IsFlagEnabled s StakingV2Flag then saveAsStakingDataV1P1 s key d st
      else save_bytes key (MarshalStaked s d) st)"

section \<open>The waiting list\<close>

definition createWaitingListKey :: "bytes \<Rightarrow> bytes" where
  "createWaitingListKey blsKey = waitingElementPrefix @ blsKey"

definition getWaitingListElement :: "stakingSC \<Rightarrow> eei \<Rightarrow> bytes \<Rightarrow> staking_error + ElementInList" where
  "getWaitingListElement s st key =
     (let marshaledData = GetStorage st key
      in if length marshaledData = 0 then Inl ErrElementNotFound
         else case UnmarshalElement s marshaledData of None \<Rightarrow> Inl ErrUnmarshal | Some e \<Rightarrow> Inr e)"

definition saveWaitingListElement :: "stakingSC \<Rightarrow> bytes \<Rightarrow> ElementInList \<Rightarrow> eei \<Rightarrow> result" where
  "saveWaitingListElement s key element st = save_bytes key (MarshalElement s element) st"

definition empty_list :: WaitingList where
  "empty_list = \<lparr>FirstKey = [], LastKey = [], Length = 0, LastJailedKey = []\<rparr>"

definition getWaitingListHead :: "stakingSC \<Rightarrow> eei \<Rightarrow> staking_error + WaitingList" where
  "getWaitingListHead s st =
     (let marshaledData = GetStorage st waitingListHeadKey
      in if length marshaledData = 0 then Inr empty_list
         else case UnmarshalList s empty_list marshaledData of None \<Rightarrow> Inl ErrUnmarshal | Some l \<Rightarrow> Inr l)"

definition saveWaitingListHead :: "stakingSC \<Rightarrow> WaitingList \<Rightarrow> eei \<Rightarrow> result" where
  "saveWaitingListHead s waitingList st = save_bytes waitingListHeadKey (MarshalList s waitingList) st"

definition saveElementAndList :: "stakingSC \<Rightarrow> bytes \<Rightarrow> ElementInList \<Rightarrow> WaitingList \<Rightarrow> eei \<Rightarrow> result" where
  "saveElementAndList s key element waitingList st =
     andThen (saveWaitingListElement s key element st) (saveWaitingListHead s waitingList)"

definition startWaitingList :: "stakingSC \<Rightarrow> WaitingList \<Rightarrow> bool \<Rightarrow> bytes \<Rightarrow> eei \<Rightarrow> result" where
  "startWaitingList s wl addJailed blsKey st =
     (let inWaitingListKey = createWaitingListKey blsKey;
          wl = wl\<lparr>FirstKey := inWaitingListKey, LastKey := inWaitingListKey\<rparr>;
          wl = (if addJailed then wl\<lparr>LastJailedKey := inWaitingListKey\<rparr> else wl);
          element = \<lparr>BLSPublicKey = blsKey, PreviousKey = LastKey wl, NextKey = []\<rparr>
      in saveElementAndList s inWaitingListKey element wl st)"

definition addToEndOfTheList :: "stakingSC \<Rightarrow> WaitingList \<Rightarrow> bytes \<Rightarrow> eei \<Rightarrow> result" where
  "addToEndOfTheList s wl blsKey st =
     (let inWaitingListKey = createWaitingListKey blsKey; oldLastKey = LastKey wl
      in case getWaitingListElement s st (LastKey wl) of
           Inl e \<Rightarrow> (Some e, st)
         | Inr lastElement \<Rightarrow>
             andThen (saveWaitingListElement s oldLastKey (lastElement\<lparr>NextKey := inWaitingListKey\<rparr>) st)
               (saveElementAndList s inWaitingListKey
                  \<lparr>BLSPublicKey = blsKey, PreviousKey = oldLastKey, NextKey = []\<rparr> (wl\<lparr>LastKey := inWaitingListKey\<rparr>)))"

text \<open>Without jailed nodes the new element becomes the first one.\<close>

definition insert_first :: "stakingSC \<Rightarrow> WaitingList \<Rightarrow> bytes \<Rightarrow> eei \<Rightarrow> result" where
  "insert_first s wl blsKey st =
     (let inWaitingListKey = createWaitingListKey blsKey; previousFirstKey = FirstKey wl;
          wl = wl\<lparr>FirstKey := inWaitingListKey, LastJailedKey := inWaitingListKey\<rparr>;
          element = \<lparr>BLSPublicKey = blsKey, PreviousKey = inWaitingListKey, NextKey = previousFirstKey\<rparr>
      in if IsFlagEnabled s CorrectFirstQueuedFlag \<and> length previousFirstKey > 0
         then case getWaitingListElement s st previousFirstKey of
                Inl e \<Rightarrow> (Some e, st)
              | Inr previousFirstElement \<Rightarrow>
                  andThen (saveWaitingListElement s previousFirstKey (previousFirstElement\<lparr>PreviousKey := inWaitingListKey\<rparr>) st)
                    (saveElementAndList s inWaitingListKey element wl)
         else saveElementAndList s inWaitingListKey element wl st)"

definition insertAfterLastJailed :: "stakingSC \<Rightarrow> WaitingList \<Rightarrow> bytes \<Rightarrow> eei \<Rightarrow> result" where
  "insertAfterLastJailed s wl blsKey st =
     (let inWaitingListKey = createWaitingListKey blsKey
      in if length (LastJailedKey wl) = 0 then insert_first s wl blsKey st
         else case getWaitingListElement s st (LastJailedKey wl) of
                Inl e \<Rightarrow> (Some e, st)
              | Inr lastJailedElement \<Rightarrow>
                  if LastKey wl = LastJailedKey wl
                  then addToEndOfTheList s (wl\<lparr>LastJailedKey := inWaitingListKey\<rparr>) blsKey st
                  else case getWaitingListElement s st (NextKey lastJailedElement) of
                         Inl e \<Rightarrow> (Some e, st)
                       | Inr firstNonJailedElement \<Rightarrow>
                           let zeroKey = replicate (length inWaitingListKey) 0;
                               element = \<lparr>BLSPublicKey = blsKey, PreviousKey = go_copy zeroKey (LastJailedKey wl),
                                          NextKey = go_copy zeroKey (NextKey lastJailedElement)\<rparr>
                           in andThen (saveWaitingListElement s (PreviousKey element) (lastJailedElement\<lparr>NextKey := inWaitingListKey\<rparr>) st)
                                (\<lambda>st. andThen (saveWaitingListElement s (NextKey element) (firstNonJailedElement\<lparr>PreviousKey := inWaitingListKey\<rparr>) st)
                                (\<lambda>st. andThen (saveWaitingListElement s inWaitingListKey element st)
                                (saveWaitingListHead s (wl\<lparr>LastJailedKey := inWaitingListKey\<rparr>)))))"

definition addToWaitingList :: "stakingSC \<Rightarrow> bytes \<Rightarrow> bool \<Rightarrow> eei \<Rightarrow> result" where
  "addToWaitingList s blsKey addJailed st =
     (if length (GetStorage st (createWaitingListKey blsKey)) \<noteq> 0 then (None, st)
      else case getWaitingListHead s st of
             Inl e \<Rightarrow> (Some e, st)
           | Inr wl \<Rightarrow>
               let wl = wl\<lparr>Length := Length wl + 1\<rparr>
               in if Length wl = 1 then startWaitingList s wl addJailed blsKey st
                  else if addJailed then insertAfterLastJailed s wl blsKey st
                  else addToEndOfTheList s wl blsKey st)"

text \<open>
  The walk from the head to the element in front of the key: at most \<open>n\<close> elements, where \<open>n\<close> is the
  length in the head. It returns the element and its key.
\<close>

fun search_previous_loop :: "stakingSC \<Rightarrow> eei \<Rightarrow> bytes \<Rightarrow> nat \<Rightarrow> bytes \<Rightarrow> staking_error + ElementInList" where
  "search_previous_loop s st inKey 0 nextKey = Inl ErrElementNotFound"
| "search_previous_loop s st inKey (Suc n) nextKey =
     (if length nextKey = 0 then Inl ErrElementNotFound
      else case getWaitingListElement s st nextKey of
             Inl e \<Rightarrow> Inl e
           | Inr element \<Rightarrow>
               if inKey = NextKey element then Inr element
               else if length (NextKey element) = 0 then Inl ErrElementNotFound
               else search_previous_loop s st inKey n (NextKey element))"

definition searchPreviousFromHead ::
  "stakingSC \<Rightarrow> WaitingList \<Rightarrow> bytes \<Rightarrow> ElementInList \<Rightarrow> eei \<Rightarrow> staking_error + (ElementInList \<times> ElementInList)" where
  "searchPreviousFromHead s wl inWaitingListKey elementToRemove st =
     (case search_previous_loop s st inWaitingListKey (unat (Length wl)) (FirstKey wl) of
        Inl e \<Rightarrow> Inl e
      | Inr p \<Rightarrow> Inr (p, elementToRemove\<lparr>PreviousKey := createWaitingListKey (BLSPublicKey p)\<rparr>))"

definition remove_first :: "stakingSC \<Rightarrow> WaitingList \<Rightarrow> bytes \<Rightarrow> ElementInList \<Rightarrow> eei \<Rightarrow> result" where
  "remove_first s wl inWaitingListKey el st =
     (let wl = (if inWaitingListKey = LastJailedKey wl then wl\<lparr>LastJailedKey := []\<rparr> else wl)
      in case getWaitingListElement s st (NextKey el) of
           Inl e \<Rightarrow> (Some e, st)
         | Inr nextElement \<Rightarrow>
             saveElementAndList s (NextKey el) (nextElement\<lparr>PreviousKey := NextKey el\<rparr>) (wl\<lparr>FirstKey := NextKey el\<rparr>) st)"

definition unlink :: "stakingSC \<Rightarrow> WaitingList \<Rightarrow> ElementInList \<Rightarrow> ElementInList \<Rightarrow> eei \<Rightarrow> result" where
  "unlink s wl el previousElement st =
     (if length (NextKey el) = 0
      then saveElementAndList s (PreviousKey el) (previousElement\<lparr>NextKey := []\<rparr>) (wl\<lparr>LastKey := PreviousKey el\<rparr>) st
      else case getWaitingListElement s st (NextKey el) of
             Inl e \<Rightarrow> (Some e, st)
           | Inr nextElement \<Rightarrow>
               andThen (saveWaitingListElement s (NextKey el) (nextElement\<lparr>PreviousKey := PreviousKey el\<rparr>) st)
                 (saveElementAndList s (PreviousKey el) (previousElement\<lparr>NextKey := NextKey el\<rparr>) wl))"

definition remove_inner :: "stakingSC \<Rightarrow> WaitingList \<Rightarrow> bytes \<Rightarrow> ElementInList \<Rightarrow> eei \<Rightarrow> result" where
  "remove_inner s wl inWaitingListKey el st =
     (let wl = (if \<not> IsFlagEnabled s CorrectLastUnJailedFlag \<or> inWaitingListKey = LastJailedKey wl
                then wl\<lparr>LastJailedKey := PreviousKey el\<rparr> else wl)
      in case getWaitingListElement s st (PreviousKey el) of
           Inr previousElement \<Rightarrow> unlink s wl el previousElement st
         | Inl e \<Rightarrow>
             if IsFlagEnabled s CorrectFirstQueuedFlag
             then case searchPreviousFromHead s wl inWaitingListKey el st of
                    Inl e \<Rightarrow> (Some e, st)
                  | Inr (previousElement, el) \<Rightarrow> unlink s wl el previousElement st
             else (Some e, st))"

definition removeFromWaitingList :: "stakingSC \<Rightarrow> bytes \<Rightarrow> eei \<Rightarrow> result" where
  "removeFromWaitingList s blsKey st =
     (let inWaitingListKey = createWaitingListKey blsKey;
          marshaledData = GetStorage st inWaitingListKey
      in if length marshaledData = 0 then (None, st)
         else let st = SetStorage inWaitingListKey [] st
              in case UnmarshalElement s marshaledData of
                   None \<Rightarrow> (Some ErrUnmarshal, st)
                 | Some el \<Rightarrow>
                    (case getWaitingListHead s st of
                       Inl e \<Rightarrow> (Some e, st)
                     | Inr wl \<Rightarrow>
                         if Length wl = 0 then (Some ErrInvalidWaitingList, st)
                         else let wl = wl\<lparr>Length := Length wl - 1\<rparr>
                              in if Length wl = 0 then (None, SetStorage waitingListHeadKey [] st)
                                 else if (\<not> IsFlagEnabled s CorrectFirstQueuedFlag \<and> PreviousKey el = inWaitingListKey) \<or>
                                         (IsFlagEnabled s CorrectFirstQueuedFlag \<and> FirstKey wl = inWaitingListKey)
                                      then remove_first s wl inWaitingListKey el st
                                      else remove_inner s wl inWaitingListKey el st))"

text \<open>
  The walk over the first elements with their data: at most \<open>n\<close> elements. The result has the keys and data,
  the last key visited and whether the last jailed element was passed.
\<close>

fun first_elements_loop ::
  "stakingSC \<Rightarrow> eei \<Rightarrow> WaitingList \<Rightarrow> nat \<Rightarrow> bytes \<Rightarrow> waitingListReturnData \<Rightarrow> staking_error + waitingListReturnData" where
  "first_elements_loop s st wl 0 nextKey r = Inr (r\<lparr>lastKey := nextKey\<rparr>)"
| "first_elements_loop s st wl (Suc n) nextKey r =
     (if length nextKey = 0 then Inr (r\<lparr>lastKey := nextKey\<rparr>)
      else case getWaitingListElement s st nextKey of
             Inl e \<Rightarrow> Inl e
           | Inr element \<Rightarrow>
               let r = (if nextKey = LastJailedKey wl then r\<lparr>afterLastJailed := True\<rparr> else r)
               in case getOrCreateRegisteredData s st (BLSPublicKey element) of
                    Inl e \<Rightarrow> Inl e
                  | Inr stakedData \<Rightarrow>
                      let r = r\<lparr>blsKeys := blsKeys r @ [BLSPublicKey element], stakedDataList := stakedDataList r @ [stakedData]\<rparr>
                      in if length (NextKey element) = 0 then Inr (r\<lparr>lastKey := nextKey\<rparr>)
                         else first_elements_loop s st wl n (go_copy nextKey (NextKey element)) r)"

definition getFirstElementsFromWaitingList :: "stakingSC \<Rightarrow> u32 \<Rightarrow> eei \<Rightarrow> staking_error + waitingListReturnData" where
  "getFirstElementsFromWaitingList s numNodes st =
     (let r = \<lparr>blsKeys = [], stakedDataList = [], lastKey = [], afterLastJailed = False\<rparr>
      in case getWaitingListHead s st of
           Inl e \<Rightarrow> Inl e
         | Inr wl \<Rightarrow>
             if Length wl = 0 then Inr r
             else first_elements_loop s st wl (unat (min (Length wl) numNodes)) (FirstKey wl) r)"

end
