(* ===== verification/Staking_Queue_Props.thy ===== *)
theory Staking_Queue_Props
  imports Staking_Queue
begin

text \<open>
  The waiting list in the storage of the contract refines a pair of lists: the nodes that were jailed and
  unjailed, which go first, and the other nodes. Adding, removing and walking are shown against this pair.
\<close>

section \<open>The marshalizer\<close>

text \<open>
  What the code relies on: a value is decoded from its encoding whatever the struct held before, and the encoding of a
  value with a key, a length or a reward address is not empty.
\<close>

definition marshals :: "stakingSC \<Rightarrow> bool" where
  "marshals s \<longleftrightarrow>
     (\<forall>e. \<exists>b. MarshalElement s e = Some b \<and> UnmarshalElement s b = Some e \<and> (BLSPublicKey e \<noteq> [] \<longrightarrow> b \<noteq> [])) \<and>
     (\<forall>l f. \<exists>b. MarshalList s l = Some b \<and> UnmarshalList s f b = Some l \<and> (Length l \<noteq> 0 \<longrightarrow> b \<noteq> [])) \<and>
     (\<forall>d f. \<exists>b. MarshalStaked s d = Some b \<and> UnmarshalStaked s f b = Some d \<and> (RewardAddress d \<noteq> [] \<longrightarrow> b \<noteq> [])) \<and>
     (\<forall>c f. \<exists>b. MarshalConfig s c = Some b \<and> UnmarshalConfig s f b = Some c \<and> (MinNumNodes c \<noteq> 0 \<longrightarrow> b \<noteq> []))"

lemma marshals_element:
  assumes "marshals s"
  obtains b where "MarshalElement s e = Some b" "UnmarshalElement s b = Some e" "BLSPublicKey e \<noteq> [] \<Longrightarrow> b \<noteq> []"
  using assms unfolding marshals_def by blast

lemma marshals_list:
  assumes "marshals s"
  obtains b where "MarshalList s l = Some b" "\<And>f. UnmarshalList s f b = Some l" "Length l \<noteq> 0 \<Longrightarrow> b \<noteq> []"
proof -
  obtain b where b: "MarshalList s l = Some b" "Length l \<noteq> 0 \<longrightarrow> b \<noteq> []" using assms unfolding marshals_def by blast
  have "UnmarshalList s f b = Some l" for f using assms b(1) unfolding marshals_def by (metis option.inject)
  with b that show ?thesis by blast
qed

lemma marshals_staked:
  assumes "marshals s"
  obtains b where "MarshalStaked s d = Some b" "\<And>f. UnmarshalStaked s f b = Some d" "RewardAddress d \<noteq> [] \<Longrightarrow> b \<noteq> []"
proof -
  obtain b where b: "MarshalStaked s d = Some b" "RewardAddress d \<noteq> [] \<longrightarrow> b \<noteq> []" using assms unfolding marshals_def by blast
  have "UnmarshalStaked s f b = Some d" for f using assms b(1) unfolding marshals_def by (metis option.inject)
  with b that show ?thesis by blast
qed

lemma marshals_config:
  assumes "marshals s"
  obtains b where "MarshalConfig s c = Some b" "\<And>f. UnmarshalConfig s f b = Some c" "MinNumNodes c \<noteq> 0 \<Longrightarrow> b \<noteq> []"
proof -
  obtain b where b: "MarshalConfig s c = Some b" "MinNumNodes c \<noteq> 0 \<longrightarrow> b \<noteq> []" using assms unfolding marshals_def by blast
  have "UnmarshalConfig s f b = Some c" for f using assms b(1) unfolding marshals_def by (metis option.inject)
  with b that show ?thesis by blast
qed

section \<open>Keys\<close>

abbreviation wkey :: "bytes \<Rightarrow> bytes" where "wkey \<equiv> createWaitingListKey"

lemma wkey_inj [simp]: "wkey a = wkey b \<longleftrightarrow> a = b"
  by (simp add: createWaitingListKey_def)

lemma wkey_not_Nil [simp]: "wkey a \<noteq> []" "[] \<noteq> wkey a"
  by (simp_all add: createWaitingListKey_def waitingElementPrefix_def ascii_def)

lemma wkey_not_head [simp]: "wkey a \<noteq> waitingListHeadKey" "waitingListHeadKey \<noteq> wkey a"
  by (simp_all add: createWaitingListKey_def waitingElementPrefix_def waitingListHeadKey_def ascii_def)

lemma wkey_not_config [simp]: "wkey a \<noteq> nodesConfigKey" "nodesConfigKey \<noteq> wkey a"
  by (simp_all add: createWaitingListKey_def waitingElementPrefix_def nodesConfigKey_def ascii_def)

lemma head_not_config [simp]: "waitingListHeadKey \<noteq> nodesConfigKey" "nodesConfigKey \<noteq> waitingListHeadKey"
  by (simp_all add: waitingListHeadKey_def nodesConfigKey_def ascii_def)

lemma length_wkey [simp]: "length (wkey a) = length a + 2"
  by (simp add: createWaitingListKey_def waitingElementPrefix_def ascii_def)

lemma go_copy_same [simp]: "length dst = length src \<Longrightarrow> go_copy dst src = src"
  by (simp add: go_copy_def)

section \<open>Storage\<close>

lemma GetStorage_SetStorage [simp]: "GetStorage (SetStorage k b st) j = (if j = k then b else GetStorage st j)"
  by (simp add: GetStorage_def SetStorage_def)

lemma getWaitingListElement_Set:
  "getWaitingListElement s (SetStorage k b st) j =
     (if j = k then if b = [] then Inl ErrElementNotFound else case UnmarshalElement s b of None \<Rightarrow> Inl ErrUnmarshal | Some e \<Rightarrow> Inr e
      else getWaitingListElement s st j)"
  by (simp add: getWaitingListElement_def Let_def)

lemma getWaitingListElement_other [simp]: "j \<noteq> k \<Longrightarrow> getWaitingListElement s (SetStorage k b st) j = getWaitingListElement s st j"
  by (simp add: getWaitingListElement_Set)

lemma getWaitingListElement_stored [simp]:
  "UnmarshalElement s b = Some e \<Longrightarrow> b \<noteq> [] \<Longrightarrow> getWaitingListElement s (SetStorage k b st) k = Inr e"
  by (simp add: getWaitingListElement_Set)

lemma getWaitingListElement_stored_head [simp]:
  "getWaitingListElement s (SetStorage waitingListHeadKey b st) (wkey k) = getWaitingListElement s st (wkey k)"
  by simp

lemma getWaitingListHead_other [simp]: "k \<noteq> waitingListHeadKey \<Longrightarrow> getWaitingListHead s (SetStorage k b st) = getWaitingListHead s st"
  by (simp add: getWaitingListHead_def Let_def)

lemma getWaitingListHead_stored [simp]:
  "(\<And>f. UnmarshalList s f b = Some l) \<Longrightarrow> b \<noteq> [] \<Longrightarrow> getWaitingListHead s (SetStorage waitingListHeadKey b st) = Inr l"
  by (simp add: getWaitingListHead_def Let_def)

lemma getWaitingListHead_deleted [simp]: "getWaitingListHead s (SetStorage waitingListHeadKey [] st) = Inr empty_list"
  by (simp add: getWaitingListHead_def Let_def)

text \<open>Saving changes one entry.\<close>

lemma save_element:
  assumes "marshals s" "BLSPublicKey e \<noteq> []"
  obtains b where "saveWaitingListElement s k e st = (None, SetStorage k b st)" "UnmarshalElement s b = Some e" "b \<noteq> []"
  using marshals_element [OF assms(1), of e] assms(2) by (metis saveWaitingListElement_def save_bytes_def option.simps(5))

lemma save_head:
  assumes "marshals s" "Length l \<noteq> 0"
  obtains b where "saveWaitingListHead s l st = (None, SetStorage waitingListHeadKey b st)" "\<And>f. UnmarshalList s f b = Some l" "b \<noteq> []"
  using marshals_list [OF assms(1), of l] assms(2) by (metis saveWaitingListHead_def save_bytes_def option.simps(5))

section \<open>Linked lists in the storage\<close>

text \<open>
  The elements \<open>xs\<close> are linked in both directions: the first one points back to \<open>p\<close>, the last one forward to \<open>e\<close>.
\<close>

definition first_of :: "bytes list \<Rightarrow> bytes \<Rightarrow> bytes" where
  "first_of xs e = (case xs of [] \<Rightarrow> e | y # ys \<Rightarrow> wkey y)"

definition last_of :: "bytes \<Rightarrow> bytes list \<Rightarrow> bytes" where
  "last_of p xs = (if xs = [] then p else wkey (last xs))"

lemma ends_simps [simp]:
  "first_of [] e = e" "first_of (y # ys) e = wkey y" "last_of p [] = p" "last_of p (xs @ [x]) = wkey x"
  by (simp_all add: first_of_def last_of_def)

lemma first_of_append: "first_of (xs @ ys) e = first_of xs (first_of ys e)"
  by (cases xs) simp_all

lemma last_of_append: "last_of p (xs @ ys) = last_of (last_of p xs) ys"
  by (auto simp: last_of_def)

lemma last_of_Cons: "last_of p (x # xs) = last_of (wkey x) xs"
  by (simp add: last_of_def)

fun links :: "stakingSC \<Rightarrow> eei \<Rightarrow> bytes \<Rightarrow> bytes list \<Rightarrow> bytes \<Rightarrow> bool" where
  "links s st p [] e \<longleftrightarrow> True"
| "links s st p (x # xs) e \<longleftrightarrow>
     getWaitingListElement s st (wkey x) = Inr \<lparr>BLSPublicKey = x, PreviousKey = p, NextKey = first_of xs e\<rparr> \<and> links s st (wkey x) xs e"

lemma links_append: "links s st p (xs @ ys) e \<longleftrightarrow> links s st p xs (first_of ys e) \<and> links s st (last_of p xs) ys e"
  by (induction xs arbitrary: p) (auto simp: first_of_append last_of_Cons)

lemma links_frame:
  assumes "\<And>x. x \<in> set xs \<Longrightarrow> getWaitingListElement s st' (wkey x) = getWaitingListElement s st (wkey x)"
  shows "links s st' p xs e = links s st p xs e"
  using assms by (induction xs arbitrary: p) auto

lemma links_Set [simp]: "(\<And>x. x \<in> set xs \<Longrightarrow> k \<noteq> wkey x) \<Longrightarrow> links s (SetStorage k b st) p xs e = links s st p xs e"
  by (rule links_frame) force

lemma links_nth:
  "links s st p xs e \<Longrightarrow> i < length xs \<Longrightarrow>
     \<exists>q. getWaitingListElement s st (wkey (xs ! i)) = Inr \<lparr>BLSPublicKey = xs ! i, PreviousKey = q, NextKey = first_of (drop (Suc i) xs) e\<rparr>"
  by (induction xs arbitrary: p i) (auto simp: nth_Cons' drop_Suc gr0_conv_Suc)

text \<open>The queue: unjailed nodes \<open>js\<close> in front of the others, \<open>ns\<close>.\<close>

definition head_of :: "bytes list \<Rightarrow> bytes list \<Rightarrow> WaitingList" where
  "head_of js ns = (if js @ ns = [] then empty_list else
     \<lparr>FirstKey = wkey (hd (js @ ns)), LastKey = wkey (last (js @ ns)), Length = of_nat (length (js @ ns)), LastJailedKey = last_of [] js\<rparr>)"

definition queue :: "stakingSC \<Rightarrow> nat \<Rightarrow> eei \<Rightarrow> bytes list \<Rightarrow> bytes list \<Rightarrow> bool" where
  "queue s L st js ns \<longleftrightarrow>
     distinct (js @ ns) \<and> (\<forall>k \<in> set (js @ ns). length k = L) \<and> length (js @ ns) < 2 ^ 32 - 1 \<and>
     getWaitingListHead s st = Inr (head_of js ns) \<and>
     links s st (first_of (js @ ns) []) (js @ ns) [] \<and>
     (\<forall>k. length k = L \<and> k \<notin> set (js @ ns) \<longrightarrow> GetStorage st (wkey k) = [])"

text \<open>The queue is in the entries of the head and of the elements only.\<close>

lemma queue_frame:
  assumes "queue s L st js ns" and "GetStorage st' waitingListHeadKey = GetStorage st waitingListHeadKey"
    and "\<And>k. length k = L \<Longrightarrow> GetStorage st' (wkey k) = GetStorage st (wkey k)"
  shows "queue s L st' js ns"
proof -
  have "links s st' (first_of (js @ ns) []) (js @ ns) [] = links s st (first_of (js @ ns) []) (js @ ns) []"
    by (rule links_frame) (use assms in \<open>auto simp: queue_def getWaitingListElement_def\<close>)
  then show ?thesis using assms unfolding queue_def getWaitingListHead_def by simp
qed

section \<open>Changes of the storage\<close>

definition changed :: "bytes set \<Rightarrow> eei \<Rightarrow> eei \<Rightarrow> bool" where
  "changed K st st' \<longleftrightarrow> st' = st\<lparr>store := store st'\<rparr> \<and> (\<forall>j. j \<notin> K \<longrightarrow> store st' j = store st j)"

lemma changed_refl [simp]: "changed K st st"
  by (simp add: changed_def)

lemma changed_Set: "changed K st st' \<Longrightarrow> k \<in> K \<Longrightarrow> changed K st (SetStorage k b st')"
  unfolding changed_def SetStorage_def by (cases st; cases st') auto

lemma changed_trans: "changed K st st' \<Longrightarrow> changed K' st' st'' \<Longrightarrow> changed (K \<union> K') st st''"
  unfolding changed_def by (cases st; cases st'; cases st'') auto

lemma changed_mono: "changed K st st' \<Longrightarrow> K \<subseteq> K' \<Longrightarrow> changed K' st st'"
  unfolding changed_def by auto

lemma changed_Get: "changed K st st' \<Longrightarrow> j \<notin> K \<Longrightarrow> GetStorage st' j = GetStorage st j"
  unfolding changed_def GetStorage_def by simp

definition queue_keys :: "nat \<Rightarrow> bytes set" where
  "queue_keys L = insert waitingListHeadKey (wkey ` {k. length k = L})"

lemma queue_keys_simps [simp]: "waitingListHeadKey \<in> queue_keys L" "length k = L \<Longrightarrow> wkey k \<in> queue_keys L"
  by (simp_all add: queue_keys_def)

lemma config_not_queue [simp]: "nodesConfigKey \<notin> queue_keys L"
  by (auto simp: queue_keys_def)

lemma node_not_queue [simp]:
  assumes "length k = L" "L \<noteq> 11"
  shows "k \<notin> queue_keys L"
proof
  assume "k \<in> queue_keys L"
  then consider "k = waitingListHeadKey" | x where "k = wkey x" "length x = L" unfolding queue_keys_def by blast
  then show False
  proof cases
    case 1
    then have "length k = 11" by (simp add: waitingListHeadKey_def ascii_def)
    with assms show False by linarith
  next
    case (2 x)
    then have "length k = length x + 2" by (simp only: length_wkey)
    with assms 2(2) show False by linarith
  qed
qed

text \<open>After a change of the queue, what remains to be shown is the head, the links and the removed elements.\<close>

lemma queueI:
  assumes "distinct (js @ ns)" "\<And>k. k \<in> set (js @ ns) \<Longrightarrow> length k = L" "length (js @ ns) < 2 ^ 32 - 1"
    and "getWaitingListHead s st = Inr (head_of js ns)" "links s st (first_of (js @ ns) []) (js @ ns) []"
    and "\<And>k. length k = L \<Longrightarrow> k \<notin> set (js @ ns) \<Longrightarrow> GetStorage st (wkey k) = []"
  shows "queue s L st js ns"
  unfolding queue_def using assms by blast

lemma queueD:
  assumes "queue s L st js ns"
  shows "distinct (js @ ns)" "k \<in> set (js @ ns) \<Longrightarrow> length k = L" "length (js @ ns) < 2 ^ 32 - 1"
    "getWaitingListHead s st = Inr (head_of js ns)" "links s st (first_of (js @ ns) []) (js @ ns) []"
    "length k = L \<Longrightarrow> k \<notin> set (js @ ns) \<Longrightarrow> GetStorage st (wkey k) = []"
  using assms unfolding queue_def by blast+

lemma element_stored:
  assumes "getWaitingListElement s st j = Inr e"
  shows "GetStorage st j \<noteq> []" "UnmarshalElement s (GetStorage st j) = Some e"
  using assms by (auto simp: getWaitingListElement_def Let_def split: if_splits option.splits)

lemma links_mem:
  assumes "links s st p xs e" "x \<in> set xs"
  shows "\<exists>q n. getWaitingListElement s st (wkey x) = Inr \<lparr>BLSPublicKey = x, PreviousKey = q, NextKey = n\<rparr>"
  using assms by (induction xs arbitrary: p) auto

lemma queue_stored:
  assumes "queue s L st js ns" "length k = L"
  shows "GetStorage st (wkey k) = [] \<longleftrightarrow> k \<notin> set (js @ ns)"
  using queueD(6) [OF assms(1,2)] links_mem [OF queueD(5) [OF assms(1)], of k] element_stored(1) by blast

section \<open>Adding\<close>

lemma of_nat_length_neq_0: "xs \<noteq> [] \<Longrightarrow> length xs < 2 ^ 32 \<Longrightarrow> (of_nat (length xs) :: u32) \<noteq> 0"
  by (simp add: word_of_nat_eq_0_iff nat_dvd_not_less)

text \<open>Every save of the element of a node and of a list that is not empty succeeds.\<close>

lemma save_both:
  assumes "marshals s" "BLSPublicKey e \<noteq> []" "Length l \<noteq> 0" "k \<noteq> waitingListHeadKey"
  obtains st' where "saveElementAndList s k e l st = (None, st')" "changed {k, waitingListHeadKey} st st'"
    "getWaitingListElement s st' k = Inr e" "getWaitingListHead s st' = Inr l"
proof -
  obtain b where b: "saveWaitingListElement s k e st = (None, SetStorage k b st)" "UnmarshalElement s b = Some e" "b \<noteq> []"
    using save_element [OF assms(1,2)] by blast
  obtain h where h: "saveWaitingListHead s l (SetStorage k b st) = (None, SetStorage waitingListHeadKey h (SetStorage k b st))"
      "\<And>f. UnmarshalList s f h = Some l" "h \<noteq> []"
    using save_head [OF assms(1,3)] by blast
  show ?thesis
    by (rule that [of "SetStorage waitingListHeadKey h (SetStorage k b st)"])
      (use b h assms in \<open>auto simp: saveElementAndList_def intro!: changed_Set\<close>)
qed

lemma save_one:
  assumes "marshals s" "BLSPublicKey e \<noteq> []"
  obtains st' where "saveWaitingListElement s k e st = (None, st')" "changed {k} st st'" "getWaitingListElement s st' k = Inr e"
proof -
  obtain b where b: "saveWaitingListElement s k e st = (None, SetStorage k b st)" "UnmarshalElement s b = Some e" "b \<noteq> []"
    using save_element [OF assms] by blast
  show ?thesis by (rule that [of "SetStorage k b st"]) (use b in \<open>auto intro!: changed_Set\<close>)
qed

lemma changed_element: "changed K st st' \<Longrightarrow> j \<notin> K \<Longrightarrow> getWaitingListElement s st' j = getWaitingListElement s st j"
  using changed_Get by (simp add: getWaitingListElement_def)

lemma changed_head: "changed K st st' \<Longrightarrow> waitingListHeadKey \<notin> K \<Longrightarrow> getWaitingListHead s st' = getWaitingListHead s st"
  using changed_Get by (simp add: getWaitingListHead_def)

lemma changed_links: "changed K st st' \<Longrightarrow> (\<And>x. x \<in> set xs \<Longrightarrow> wkey x \<notin> K) \<Longrightarrow> links s st' p xs e = links s st p xs e"
  by (rule links_frame) (rule changed_element)

lemma add_end:
  assumes m: "marshals s" and l: "links s st p (ys @ [z]) []" and d: "distinct (ys @ [z])" and k: "k \<notin> set (ys @ [z])"
    and ne: "k \<noteq> []" "z \<noteq> []" and w: "LastKey wl = wkey z" "Length wl \<noteq> 0"
  obtains st' where "addToEndOfTheList s wl k st = (None, st')" "links s st' p (ys @ [z, k]) []"
    "getWaitingListHead s st' = Inr (wl\<lparr>LastKey := wkey k\<rparr>)" "changed {wkey z, wkey k, waitingListHeadKey} st st'"
proof -
  have z: "getWaitingListElement s st (wkey z) = Inr \<lparr>BLSPublicKey = z, PreviousKey = last_of p ys, NextKey = []\<rparr>"
    using l by (simp add: links_append)
  obtain st1 where 1: "saveWaitingListElement s (wkey z) \<lparr>BLSPublicKey = z, PreviousKey = last_of p ys, NextKey = wkey k\<rparr> st = (None, st1)"
      "changed {wkey z} st st1"
      "getWaitingListElement s st1 (wkey z) = Inr \<lparr>BLSPublicKey = z, PreviousKey = last_of p ys, NextKey = wkey k\<rparr>"
    using save_one [OF m, of "\<lparr>BLSPublicKey = z, PreviousKey = last_of p ys, NextKey = wkey k\<rparr>"] ne by auto
  obtain st2 where 2: "saveElementAndList s (wkey k) \<lparr>BLSPublicKey = k, PreviousKey = wkey z, NextKey = []\<rparr> (wl\<lparr>LastKey := wkey k\<rparr>) st1 = (None, st2)"
      "changed {wkey k, waitingListHeadKey} st1 st2" "getWaitingListHead s st2 = Inr (wl\<lparr>LastKey := wkey k\<rparr>)"
      "getWaitingListElement s st2 (wkey k) = Inr \<lparr>BLSPublicKey = k, PreviousKey = wkey z, NextKey = []\<rparr>"
    using save_both [OF m, of "\<lparr>BLSPublicKey = k, PreviousKey = wkey z, NextKey = []\<rparr>" "wl\<lparr>LastKey := wkey k\<rparr>" "wkey k" st1] ne w by auto
  have c: "changed {wkey z, wkey k, waitingListHeadKey} st st2"
    by (rule changed_mono [OF changed_trans [OF 1(2) 2(2)]]) auto
  have "links s st2 p ys (wkey z) = links s st p ys (wkey z)" using d k by (intro changed_links [OF c]) auto
  moreover have "getWaitingListElement s st2 (wkey z) = getWaitingListElement s st1 (wkey z)"
    using k by (intro changed_element [OF 2(2)]) auto
  ultimately show ?thesis
    using l 1 2 z w c by (intro that [of st2]) (simp_all add: addToEndOfTheList_def links_append)
qed

lemma add_first:
  assumes m: "marshals s" and l: "links s st (wkey z) (z # zs) []" and d: "distinct (z # zs)" and k: "k \<notin> set (z # zs)"
    and ne: "k \<noteq> []" "z \<noteq> []" and w: "FirstKey wl = wkey z" "Length wl \<noteq> 0" and f: "IsFlagEnabled s CorrectFirstQueuedFlag"
  obtains st' where "insert_first s wl k st = (None, st')" "links s st' (wkey k) (k # z # zs) []"
    "getWaitingListHead s st' = Inr (wl\<lparr>FirstKey := wkey k, LastJailedKey := wkey k\<rparr>)"
    "changed {wkey z, wkey k, waitingListHeadKey} st st'"
proof -
  let ?z = "\<lparr>BLSPublicKey = z, PreviousKey = wkey k, NextKey = first_of zs []\<rparr>"
  let ?k = "\<lparr>BLSPublicKey = k, PreviousKey = wkey k, NextKey = wkey z\<rparr>"
  let ?wl = "wl\<lparr>FirstKey := wkey k, LastJailedKey := wkey k\<rparr>"
  obtain st1 where 1: "saveWaitingListElement s (wkey z) ?z st = (None, st1)" "changed {wkey z} st st1"
      "getWaitingListElement s st1 (wkey z) = Inr ?z"
    using save_one [OF m, of ?z] ne by auto
  obtain st2 where 2: "saveElementAndList s (wkey k) ?k ?wl st1 = (None, st2)" "changed {wkey k, waitingListHeadKey} st1 st2"
      "getWaitingListHead s st2 = Inr ?wl" "getWaitingListElement s st2 (wkey k) = Inr ?k"
    using save_both [OF m, of ?k ?wl "wkey k" st1] ne w by auto
  have c: "changed {wkey z, wkey k, waitingListHeadKey} st st2"
    by (rule changed_mono [OF changed_trans [OF 1(2) 2(2)]]) auto
  have "links s st2 (wkey z) zs [] = links s st (wkey z) zs []" using d k by (intro changed_links [OF c]) auto
  moreover have "getWaitingListElement s st2 (wkey z) = getWaitingListElement s st1 (wkey z)"
    using k by (intro changed_element [OF 2(2)]) auto
  ultimately show ?thesis
    using l 1 2 w f c by (intro that [of st2]) (simp_all add: insert_first_def Let_def)
qed

lemma add_middle:
  assumes m: "marshals s" and l: "links s st p (ys @ [j]) (wkey n)" "links s st (wkey j) (n # zs) []"
    and d: "distinct (ys @ j # n # zs)" and k: "k \<notin> set (ys @ j # n # zs)" and ne: "k \<noteq> []" "j \<noteq> []" "n \<noteq> []"
    and len: "length j = length k" "length n = length k"
    and w: "LastJailedKey wl = wkey j" "LastKey wl = wkey (last (n # zs))" "Length wl \<noteq> 0"
  obtains st' where "insertAfterLastJailed s wl k st = (None, st')" "links s st' p (ys @ [j, k]) (wkey n)" "links s st' (wkey k) (n # zs) []"
    "getWaitingListHead s st' = Inr (wl\<lparr>LastJailedKey := wkey k\<rparr>)" "changed {wkey j, wkey n, wkey k, waitingListHeadKey} st st'"
proof -
  let ?j = "\<lparr>BLSPublicKey = j, PreviousKey = last_of p ys, NextKey = wkey k\<rparr>"
  let ?n = "\<lparr>BLSPublicKey = n, PreviousKey = wkey k, NextKey = first_of zs []\<rparr>"
  let ?k = "\<lparr>BLSPublicKey = k, PreviousKey = wkey j, NextKey = wkey n\<rparr>"
  let ?wl = "wl\<lparr>LastJailedKey := wkey k\<rparr>"
  obtain st1 where 1: "saveWaitingListElement s (wkey j) ?j st = (None, st1)" "changed {wkey j} st st1"
      "getWaitingListElement s st1 (wkey j) = Inr ?j"
    using save_one [OF m, of ?j] ne by auto
  obtain st2 where 2: "saveWaitingListElement s (wkey n) ?n st1 = (None, st2)" "changed {wkey n} st1 st2"
      "getWaitingListElement s st2 (wkey n) = Inr ?n"
    using save_one [OF m, of ?n] ne by auto
  obtain st3 where 3: "saveElementAndList s (wkey k) ?k ?wl st2 = (None, st3)" "changed {wkey k, waitingListHeadKey} st2 st3"
      "getWaitingListHead s st3 = Inr ?wl" "getWaitingListElement s st3 (wkey k) = Inr ?k"
    using save_both [OF m, of ?k ?wl "wkey k" st2] ne w by auto
  have c: "changed {wkey j, wkey n, wkey k, waitingListHeadKey} st st3"
    by (rule changed_mono [OF changed_trans [OF 1(2) changed_trans [OF 2(2) 3(2)]]]) auto
  have jn: "j \<noteq> last (n # zs)" using d last_in_set [of "n # zs"] by auto
  have "links s st3 p ys (wkey j) = links s st p ys (wkey j)" "links s st3 (wkey n) zs [] = links s st (wkey n) zs []"
    using d k by (intro changed_links [OF c]; auto)+
  moreover have "getWaitingListElement s st3 (wkey j) = Inr ?j"
    using 1(3) changed_element [OF 2(2), of "wkey j"] changed_element [OF 3(2), of "wkey j"] d k by auto
  moreover have "getWaitingListElement s st3 (wkey n) = Inr ?n"
    using 2(3) changed_element [OF 3(2), of "wkey n"] k by auto
  moreover have "getWaitingListElement s st (wkey j) = Inr \<lparr>BLSPublicKey = j, PreviousKey = last_of p ys, NextKey = wkey n\<rparr>"
      "getWaitingListElement s st (wkey n) = Inr \<lparr>BLSPublicKey = n, PreviousKey = wkey j, NextKey = first_of zs []\<rparr>"
    using l by (simp_all add: links_append)
  ultimately show ?thesis
    using l 1 2 3 w c jn len ne(1)
    by (intro that [of st3]) (simp_all add: insertAfterLastJailed_def saveElementAndList_def Let_def links_append)
qed

text \<open>The queue after an addition.\<close>

definition queue_add :: "bytes \<Rightarrow> bool \<Rightarrow> bytes list \<times> bytes list \<Rightarrow> bytes list \<times> bytes list" where
  "queue_add k addJailed q = (case q of (js, ns) \<Rightarrow>
     if k \<in> set js \<union> set ns then (js, ns) else if addJailed then (js @ [k], ns) else (js, ns @ [k]))"

lemma head_of_nonempty:
  "js @ ns \<noteq> [] \<Longrightarrow> head_of js ns =
     \<lparr>FirstKey = wkey (hd (js @ ns)), LastKey = wkey (last (js @ ns)), Length = of_nat (length (js @ ns)), LastJailedKey = last_of [] js\<rparr>"
  unfolding head_of_def by auto

lemma first_of_nonempty: "xs \<noteq> [] \<Longrightarrow> first_of xs e = wkey (hd xs)"
  by (cases xs) simp_all

lemma length_head_of [simp]: "Length (head_of js ns) = of_nat (length (js @ ns))"
  by (simp add: head_of_def empty_list_def)

lemma queue_grown:
  assumes q: "queue s L st js ns" and c: "changed K st st'" and K: "K \<subseteq> insert waitingListHeadKey (wkey ` set (js' @ ns'))"
    and s: "set (js' @ ns') = insert k (set (js @ ns))" "length k = L" "distinct (js' @ ns')" "length (js' @ ns') < 2 ^ 32 - 1"
    and h: "getWaitingListHead s st' = Inr (head_of js' ns')" and l: "links s st' (first_of (js' @ ns') []) (js' @ ns') []"
  shows "queue s L st' js' ns'"
proof (rule queueI [OF s(3) _ s(4) h l])
  fix j
  show "length j = L" if "j \<in> set (js' @ ns')" using that s(1,2) queueD(2) [OF q] by (auto simp del: set_append)
  assume j: "length j = L" "j \<notin> set (js' @ ns')"
  then have "wkey j \<notin> K" using K by auto
  then show "GetStorage st' (wkey j) = []" using changed_Get [OF c] queueD(6) [OF q j(1)] j(2) s(1) by auto
qed

lemma add_start:
  assumes m: "marshals s" and k: "k \<noteq> []"
  obtains st' where "startWaitingList s \<lparr>FirstKey = [], LastKey = [], Length = 1, LastJailedKey = []\<rparr> addJailed k st = (None, st')"
    "links s st' (wkey k) [k] []" "getWaitingListHead s st' = Inr (head_of (if addJailed then [k] else []) (if addJailed then [] else [k]))"
    "changed {wkey k, waitingListHeadKey} st st'"
proof -
  let ?k = "\<lparr>BLSPublicKey = k, PreviousKey = wkey k, NextKey = []\<rparr>"
  let ?wl = "head_of (if addJailed then [k] else []) (if addJailed then [] else [k])"
  have len: "Length ?wl \<noteq> 0" by (cases addJailed) simp_all
  obtain st' where 1: "saveElementAndList s (wkey k) ?k ?wl st = (None, st')" "changed {wkey k, waitingListHeadKey} st st'"
      "getWaitingListElement s st' (wkey k) = Inr ?k" "getWaitingListHead s st' = Inr ?wl"
    using save_both [OF m _ len, of ?k "wkey k" st] k by auto
  show ?thesis
    by (rule that [of st']) (use 1 in \<open>simp_all add: startWaitingList_def Let_def head_of_nonempty last_of_def split: if_splits\<close>)
qed

text \<open>The cases of an addition to a queue that is not empty.\<close>

lemma add_fresh:
  assumes m: "marshals s" and q: "queue s L st js ns" and k: "length k = L" "L > 0" "k \<notin> set (js @ ns)" and x: "js @ ns \<noteq> []"
    and f: "IsFlagEnabled s CorrectFirstQueuedFlag"
    and wl: "wl = (head_of js ns)\<lparr>Length := n\<rparr>" "n \<noteq> 0"
    and r: "js' = (if addJailed then js @ [k] else js)" "ns' = (if addJailed then ns else ns @ [k])"
  obtains st' K where "(if addJailed then insertAfterLastJailed s wl k st else addToEndOfTheList s wl k st) = (None, st')"
    "changed K st st'" "K \<subseteq> insert waitingListHeadKey (wkey ` set (js' @ ns'))"
    "getWaitingListHead s st' = Inr ((head_of js' ns')\<lparr>Length := n\<rparr>)" "links s st' (first_of (js' @ ns') []) (js' @ ns') []"
proof -
  note q' = queueD [OF q]
  have ne: "y \<noteq> []" if "y \<in> set (js @ ns)" for y using q'(2) [OF that] k(2) by auto
  have kne: "k \<noteq> []" using k by auto
  have fst: "first_of (js @ ns) [] = first_of (js @ ns @ [k]) []" using x by (cases js; cases ns) auto
  note w = wl(1) [unfolded head_of_nonempty [OF x]]
  consider "\<not> addJailed \<or> js \<noteq> [] \<and> ns = []" | z zs where "addJailed" "js = []" "ns = z # zs"
    | j ys z zs where "addJailed" "js = ys @ [j]" "ns = z # zs"
    using x by (cases js rule: rev_cases; cases ns) auto
  then show thesis
  proof cases
    case 1
    obtain ys z where yz: "js @ ns = ys @ [z]" using x by (cases "js @ ns" rule: rev_cases) auto
    let ?wl = "if addJailed then wl\<lparr>LastJailedKey := wkey k\<rparr> else wl"
    have lw: "LastKey ?wl = wkey z" "Length ?wl \<noteq> 0" using w wl(2) yz by simp_all
    obtain st' where st': "addToEndOfTheList s ?wl k st = (None, st')" "links s st' (first_of (js @ ns) []) (ys @ [z, k]) []"
        "getWaitingListHead s st' = Inr (?wl\<lparr>LastKey := wkey k\<rparr>)" "changed {wkey z, wkey k, waitingListHeadKey} st st'"
      using add_end [OF m q'(5,1) [unfolded yz] k(3) [unfolded yz] kne ne [of z] lw] yz by auto
    have el: "getWaitingListElement s st (wkey z) = Inr \<lparr>BLSPublicKey = z, PreviousKey = last_of (first_of (js @ ns) []) ys, NextKey = []\<rparr>"
      using q'(5) unfolding yz by (simp add: links_append)
    have "insertAfterLastJailed s wl k st = addToEndOfTheList s ?wl k st" if "addJailed"
      using that 1 w el yz by (simp add: insertAfterLastJailed_def Let_def last_of_def)
    moreover have eq: "js' @ ns' = ys @ [z, k]" using 1 r yz by auto
    moreover have "first_of (js' @ ns') [] = first_of (js @ ns) []" using 1 r fst by auto
    moreover have "(head_of js' ns')\<lparr>Length := n\<rparr> = ?wl\<lparr>LastKey := wkey k\<rparr>"
      using 1 r w x by (auto simp: head_of_nonempty last_of_def hd_append)
    ultimately show ?thesis using st' by (intro that [of st' "{wkey z, wkey k, waitingListHeadKey}"]) auto
  next
    case (2 z zs)
    have lz: "links s st (wkey z) (z # zs) []" "distinct (z # zs)" "k \<notin> set (z # zs)" "z \<noteq> []" using q'(5,1) k(3) 2 ne by auto
    obtain st' where st': "insert_first s wl k st = (None, st')" "links s st' (wkey k) (k # z # zs) []"
        "getWaitingListHead s st' = Inr (wl\<lparr>FirstKey := wkey k, LastJailedKey := wkey k\<rparr>)"
        "changed {wkey z, wkey k, waitingListHeadKey} st st'"
      using add_first [OF m lz(1-3) kne lz(4) _ _ f, of wl] w wl(2) 2 by auto
    then show ?thesis using 2 r w
      by (intro that [of st' "{wkey z, wkey k, waitingListHeadKey}"]) (auto simp: insertAfterLastJailed_def Let_def head_of_nonempty last_of_def)
  next
    case (3 j ys z zs)
    have lz: "links s st (first_of (js @ ns) []) (ys @ [j]) (wkey z)" "links s st (wkey j) (z # zs) []"
        "distinct (ys @ j # z # zs)" "k \<notin> set (ys @ j # z # zs)" "j \<noteq> []" "z \<noteq> []" "length j = length k" "length z = length k"
      using q'(5,1,2) k 3 ne by (auto simp: links_append last_of_append)
    have lw: "LastJailedKey wl = wkey j" "LastKey wl = wkey (last (z # zs))" "Length wl \<noteq> 0" using w wl(2) 3 by auto
    obtain st' where st': "insertAfterLastJailed s wl k st = (None, st')" "links s st' (first_of (js @ ns) []) (ys @ [j, k]) (wkey z)"
        "links s st' (wkey k) (z # zs) []" "getWaitingListHead s st' = Inr (wl\<lparr>LastJailedKey := wkey k\<rparr>)"
        "changed {wkey j, wkey z, wkey k, waitingListHeadKey} st st'"
      by (rule add_middle [OF m lz(1-4) kne lz(5-8) lw])
    have "first_of (js' @ ns') [] = first_of (js @ ns) []" using 3 r by (auto simp: first_of_append)
    then show ?thesis using st' 3 r w
      by (intro that [of st' "{wkey j, wkey z, wkey k, waitingListHeadKey}"])
        (auto simp: head_of_nonempty last_of_def links_append hd_append)
  qed
qed

lemma addToWaitingList_refines:
  assumes m: "marshals s" and q: "queue s L st js ns" and k: "length k = L" "L > 0"
    and f: "IsFlagEnabled s CorrectFirstQueuedFlag" and room: "length (js @ ns) + 1 < 2 ^ 32 - 1"
    and r: "queue_add k addJailed (js, ns) = (js', ns')"
  obtains st' where "addToWaitingList s k addJailed st = (None, st')" "queue s L st' js' ns'" "changed (queue_keys L) st st'"
proof (cases "k \<in> set (js @ ns)")
  case True
  then show ?thesis using queue_stored [OF q k(1)] r q by (intro that [of st]) (auto simp: addToWaitingList_def queue_add_def)
next
  case new: False
  have kne: "k \<noteq> []" using k by auto
  have st: "length (GetStorage st (wkey k)) = 0" using queue_stored [OF q k(1)] new by simp
  define n :: u32 where "n = of_nat (length (js @ ns)) + 1"
  define wl where "wl = (head_of js ns)\<lparr>Length := n\<rparr>"
  have n0: "n \<noteq> 0" using of_nat_length_neq_0 [of "k # js @ ns"] room by (simp add: n_def add.commute)
  have one: "n = 1 \<longleftrightarrow> js @ ns = []"
    using of_nat_length_neq_0 [of "js @ ns"] room by (auto simp: n_def simp del: of_nat_add length_append)
  have run: "addToWaitingList s k addJailed st =
      (if js @ ns = [] then startWaitingList s wl addJailed k st
       else if addJailed then insertAfterLastJailed s wl k st else addToEndOfTheList s wl k st)"
    using st queueD(4) [OF q] unfolding one [symmetric] addToWaitingList_def Let_def by (simp add: wl_def n_def)
  have res: "js' = (if addJailed then js @ [k] else js)" "ns' = (if addJailed then ns else ns @ [k])"
    using r new by (auto simp: queue_add_def)
  have n': "n = of_nat (length (js' @ ns'))" using res by (simp add: n_def)
  have s': "set (js' @ ns') = insert k (set (js @ ns))" "distinct (js' @ ns')" "length (js' @ ns') < 2 ^ 32 - 1"
    using res queueD(1) [OF q] new room by auto
  obtain st' K where st': "addToWaitingList s k addJailed st = (None, st')" "changed K st st'"
      "K \<subseteq> insert waitingListHeadKey (wkey ` set (js' @ ns'))"
      "getWaitingListHead s st' = Inr ((head_of js' ns')\<lparr>Length := n\<rparr>)" "links s st' (first_of (js' @ ns') []) (js' @ ns') []"
  proof (cases "js @ ns = []")
    case True
    then have "wl = \<lparr>FirstKey = [], LastKey = [], Length = 1, LastJailedKey = []\<rparr>" by (simp add: wl_def n_def head_of_def empty_list_def)
    moreover have "js' @ ns' = [k]" "(head_of js' ns')\<lparr>Length := n\<rparr> = head_of (if addJailed then [k] else []) (if addJailed then [] else [k])"
      using True res one by (auto simp: head_of_nonempty)
    ultimately show thesis using add_start [OF m kne, of addJailed st] run True that [of _ "{wkey k, waitingListHeadKey}"] by auto
  next
    case False
    show thesis
      by (rule add_fresh [OF m q k new False f wl_def n0 res]) (use run False in \<open>auto intro!: that\<close>)
  qed
  have "(head_of js' ns')\<lparr>Length := n\<rparr> = head_of js' ns'" using n' s'(1) by (auto simp: head_of_def)
  then have "queue s L st' js' ns'" using queue_grown [OF q st'(2,3) s'(1) k(1) s'(2,3)] st'(4,5) by simp
  moreover have "K \<subseteq> queue_keys L" using st'(3) queueD(2) [OF q] k(1) unfolding s'(1) by (auto simp: queue_keys_def)
  ultimately show ?thesis using st'(1,2) changed_mono by (blast intro: that)
qed

section \<open>Removing\<close>

definition queue_remove :: "bytes \<Rightarrow> bytes list \<times> bytes list \<Rightarrow> bytes list \<times> bytes list" where
  "queue_remove k q = (case q of (js, ns) \<Rightarrow> (remove1 k js, remove1 k ns))"

lemma queue_shrunk:
  assumes q: "queue s L st js ns" and c: "changed K st st'" and K: "K \<subseteq> insert waitingListHeadKey (wkey ` set (js @ ns))"
    and e: "GetStorage st' (wkey k) = []" and r: "js' = remove1 k js" "ns' = remove1 k ns"
    and h: "getWaitingListHead s st' = Inr (head_of js' ns')" and l: "links s st' (first_of (js' @ ns') []) (js' @ ns') []"
  shows "queue s L st' js' ns'"
proof (rule queueI [OF _ _ _ h l])
  have s: "set (js' @ ns') = set (js @ ns) - {k}" using queueD(1) [OF q] r by auto
  show "distinct (js' @ ns')" using queueD(1) [OF q] r by (auto dest: notin_set_remove1)
  have "length (js' @ ns') \<le> length (js @ ns)" using r by (auto simp: length_remove1)
  then show "length (js' @ ns') < 2 ^ 32 - 1" using queueD(3) [OF q] by linarith
  fix j
  show "length j = L" if "j \<in> set (js' @ ns')" using that s queueD(2) [OF q] by (auto simp del: set_append)
  assume j: "length j = L" "j \<notin> set (js' @ ns')"
  show "GetStorage st' (wkey j) = []"
  proof (cases "j = k")
    case False
    then have "j \<notin> set (js @ ns)" using j(2) s by blast
    moreover from this have "wkey j \<notin> K" using K by auto
    ultimately show ?thesis using changed_Get [OF c] queueD(6) [OF q j(1)] by simp
  qed (simp add: e)
qed

text \<open>The last unjailed node after a removal.\<close>

lemma last_jailed_removed:
  assumes "distinct (js @ ns)" "js @ ns = as @ k # bs"
  shows "last_of [] (remove1 k js) = (if last_of [] js = wkey k then last_of [] as else last_of [] js)"
proof (cases js rule: rev_cases)
  case (snoc ys j)
  show ?thesis
  proof (cases "j = k")
    case True
    have "ys @ k # ns = as @ k # bs" using assms(2) snoc True by simp
    moreover have "k \<notin> set ys" "k \<notin> set ns" using assms(1) snoc True by auto
    ultimately have "ys = as" using append_Cons_eq_iff [of k ys ns as bs] by simp
    then show ?thesis using snoc True \<open>k \<notin> set ys\<close> by (simp add: remove1_append)
  next
    case False
    then show ?thesis using snoc by (simp add: remove1_append)
  qed
qed simp

lemma removed_lists:
  assumes "distinct (js @ ns)" "js @ ns = as @ k # bs"
  shows "remove1 k js @ remove1 k ns = as @ bs"
proof -
  have "k \<in> set js \<Longrightarrow> k \<notin> set ns" using assms(1) by auto
  then have "remove1 k (js @ ns) = remove1 k js @ remove1 k ns" by (auto simp: remove1_append remove1_idem)
  moreover have "k \<notin> set as" using assms by (metis distinct_append disjoint_iff list.set_intros(1))
  then have "remove1 k (as @ k # bs) = as @ bs" by (simp add: remove1_append)
  ultimately show ?thesis using assms(2) by simp
qed

lemma first_removed:
  assumes m: "marshals s" and l: "links s st p (b # bs) []" and d: "distinct (b # bs)" and ne: "b \<noteq> []" and w: "Length wl \<noteq> 0"
  obtains st' where "remove_first s wl inKey \<lparr>BLSPublicKey = k, PreviousKey = q, NextKey = wkey b\<rparr> st = (None, st')"
    "links s st' (wkey b) (b # bs) []" "changed {wkey b, waitingListHeadKey} st st'"
    "getWaitingListHead s st' = Inr ((if inKey = LastJailedKey wl then wl\<lparr>LastJailedKey := []\<rparr> else wl)\<lparr>FirstKey := wkey b\<rparr>)"
proof -
  let ?b = "\<lparr>BLSPublicKey = b, PreviousKey = wkey b, NextKey = first_of bs []\<rparr>"
  let ?wl = "(if inKey = LastJailedKey wl then wl\<lparr>LastJailedKey := []\<rparr> else wl)\<lparr>FirstKey := wkey b\<rparr>"
  have len: "Length ?wl \<noteq> 0" using w by simp
  obtain st' where 1: "saveElementAndList s (wkey b) ?b ?wl st = (None, st')" "changed {wkey b, waitingListHeadKey} st st'"
      "getWaitingListElement s st' (wkey b) = Inr ?b" "getWaitingListHead s st' = Inr ?wl"
    using save_both [OF m _ len, of ?b "wkey b" st] ne by auto
  have "links s st' (wkey b) bs [] = links s st (wkey b) bs []" using d by (intro changed_links [OF 1(2)]) auto
  then show ?thesis using 1 l by (intro that [of st']) (auto simp: remove_first_def Let_def)
qed

lemma unlink_last:
  assumes m: "marshals s" and l: "links s st p (as @ [a]) x" and d: "distinct (as @ [a])" and ne: "a \<noteq> []" and w: "Length wl \<noteq> 0"
  obtains st' where "unlink s wl \<lparr>BLSPublicKey = k, PreviousKey = wkey a, NextKey = []\<rparr>
      \<lparr>BLSPublicKey = a, PreviousKey = last_of p as, NextKey = x\<rparr> st = (None, st')"
    "links s st' p (as @ [a]) []" "changed {wkey a, waitingListHeadKey} st st'" "getWaitingListHead s st' = Inr (wl\<lparr>LastKey := wkey a\<rparr>)"
proof -
  let ?a = "\<lparr>BLSPublicKey = a, PreviousKey = last_of p as, NextKey = []\<rparr>"
  let ?wl = "wl\<lparr>LastKey := wkey a\<rparr>"
  obtain st' where 1: "saveElementAndList s (wkey a) ?a ?wl st = (None, st')" "changed {wkey a, waitingListHeadKey} st st'"
      "getWaitingListElement s st' (wkey a) = Inr ?a" "getWaitingListHead s st' = Inr ?wl"
    using save_both [OF m, of ?a ?wl "wkey a" st] ne w by auto
  have "links s st' p as (wkey a) = links s st p as (wkey a)" using d by (intro changed_links [OF 1(2)]) auto
  then show ?thesis using 1 l by (intro that [of st']) (auto simp: unlink_def links_append)
qed

lemma unlink_middle:
  assumes m: "marshals s" and l: "links s st p (as @ [a]) x" "links s st y (b # bs) []" and d: "distinct (as @ a # b # bs)"
    and ne: "a \<noteq> []" "b \<noteq> []" and w: "Length wl \<noteq> 0"
  obtains st' where "unlink s wl \<lparr>BLSPublicKey = k, PreviousKey = wkey a, NextKey = wkey b\<rparr>
      \<lparr>BLSPublicKey = a, PreviousKey = last_of p as, NextKey = x\<rparr> st = (None, st')"
    "links s st' p (as @ a # b # bs) []" "changed {wkey a, wkey b, waitingListHeadKey} st st'" "getWaitingListHead s st' = Inr wl"
proof -
  let ?a = "\<lparr>BLSPublicKey = a, PreviousKey = last_of p as, NextKey = wkey b\<rparr>"
  let ?b = "\<lparr>BLSPublicKey = b, PreviousKey = wkey a, NextKey = first_of bs []\<rparr>"
  obtain st1 where 1: "saveWaitingListElement s (wkey b) ?b st = (None, st1)" "changed {wkey b} st st1"
      "getWaitingListElement s st1 (wkey b) = Inr ?b"
    using save_one [OF m, of ?b] ne by auto
  obtain st2 where 2: "saveElementAndList s (wkey a) ?a wl st1 = (None, st2)" "changed {wkey a, waitingListHeadKey} st1 st2"
      "getWaitingListElement s st2 (wkey a) = Inr ?a" "getWaitingListHead s st2 = Inr wl"
    using save_both [OF m, of ?a wl "wkey a" st1] ne w by auto
  have c: "changed {wkey a, wkey b, waitingListHeadKey} st st2"
    by (rule changed_mono [OF changed_trans [OF 1(2) 2(2)]]) auto
  have "links s st2 p as (wkey a) = links s st p as (wkey a)" "links s st2 (wkey b) bs [] = links s st (wkey b) bs []"
    using d by (intro changed_links [OF c]; auto)+
  moreover have "getWaitingListElement s st2 (wkey b) = Inr ?b" using 1(3) changed_element [OF 2(2), of "wkey b"] d by auto
  ultimately show ?thesis using 1 2 c l by (intro that [of st2]) (auto simp: unlink_def links_append)
qed

text \<open>The cases of a removal that leaves other elements; the element itself is already deleted.\<close>

lemma remove_linked:
  assumes m: "marshals s" and d: "distinct (js @ ns)" and x: "js @ ns = as @ k # bs" and ne: "as @ bs \<noteq> []" "[] \<notin> set (as @ bs)"
    and l: "links s st (first_of (js @ ns) []) as (wkey k)" "links s st (wkey k) bs []"
    and f: "IsFlagEnabled s CorrectLastUnJailedFlag"
    and wl: "wl = (head_of js ns)\<lparr>Length := n\<rparr>" "n \<noteq> 0" "n = of_nat (length (as @ bs))"
    and el: "el = \<lparr>BLSPublicKey = k, PreviousKey = last_of (first_of (js @ ns) []) as, NextKey = first_of bs []\<rparr>"
  obtains st' K where "(if FirstKey wl = wkey k then remove_first s wl (wkey k) el st else remove_inner s wl (wkey k) el st) = (None, st')"
    "changed K st st'" "K \<subseteq> insert waitingListHeadKey (wkey ` set (as @ bs))"
    "getWaitingListHead s st' = Inr (head_of (remove1 k js) (remove1 k ns))" "links s st' (first_of (as @ bs) []) (as @ bs) []"
proof -
  have w: "wl = \<lparr>FirstKey = first_of as (wkey k), LastKey = wkey (last (k # bs)), Length = n, LastJailedKey = last_of [] js\<rparr>"
    using wl(1) x by (cases as) (auto simp: head_of_def)
  note lj = last_jailed_removed [OF d x]
  have h: "head_of (remove1 k js) (remove1 k ns) = \<lparr>FirstKey = first_of (as @ bs) [], LastKey = wkey (last (as @ bs)), Length = n,
      LastJailedKey = if last_of [] js = wkey k then last_of [] as else last_of [] js\<rparr>"
    using wl(3) ne(1) unfolding head_of_def removed_lists [OF d x] lj by (auto simp: first_of_nonempty)
  have dk: "distinct (as @ bs)" "k \<notin> set (as @ bs)" using d unfolding x by auto
  consider b cs where "as = []" "bs = b # cs" | cs a where "as = cs @ [a]" "bs = []" | cs a b ds where "as = cs @ [a]" "bs = b # ds"
    using ne(1) by (cases as rule: rev_cases; cases bs) auto
  then show thesis
  proof cases
    case (1 b cs)
    have lb: "links s st (wkey k) (b # cs) []" "distinct (b # cs)" "b \<noteq> []" using l(2) dk ne(2) 1 by auto
    obtain st' where st': "remove_first s wl (wkey k) el st = (None, st')" "links s st' (wkey b) (b # cs) []"
        "changed {wkey b, waitingListHeadKey} st st'"
        "getWaitingListHead s st' = Inr ((if wkey k = LastJailedKey wl then wl\<lparr>LastJailedKey := []\<rparr> else wl)\<lparr>FirstKey := wkey b\<rparr>)"
      using first_removed [OF m lb, of wl "wkey k" k] w wl(2) el 1 by auto
    show ?thesis by (rule that [of st' "{wkey b, waitingListHeadKey}"]) (use st' w h 1 in auto)
  next
    case (2 cs a)
    have la: "links s st (first_of (js @ ns) []) (cs @ [a]) (wkey k)" "distinct (cs @ [a])" "a \<noteq> []" using l(1) dk ne(2) 2 by auto
    let ?wl = "if wkey k = LastJailedKey wl then wl\<lparr>LastJailedKey := wkey a\<rparr> else wl"
    have lw: "Length ?wl \<noteq> 0" using w wl(2) by auto
    obtain st' where st': "unlink s ?wl el \<lparr>BLSPublicKey = a, PreviousKey = last_of (first_of (js @ ns) []) cs, NextKey = wkey k\<rparr> st = (None, st')"
        "links s st' (first_of (js @ ns) []) (cs @ [a]) []" "changed {wkey a, waitingListHeadKey} st st'"
        "getWaitingListHead s st' = Inr (?wl\<lparr>LastKey := wkey a\<rparr>)"
      using unlink_last [OF m la lw, of k] el 2 by auto
    have "getWaitingListElement s st (wkey a) = Inr \<lparr>BLSPublicKey = a, PreviousKey = last_of (first_of (js @ ns) []) cs, NextKey = wkey k\<rparr>"
      using la(1) by (simp add: links_append)
    then have "remove_inner s wl (wkey k) el st = (None, st')" using st'(1) f el 2 unfolding remove_inner_def Let_def by auto
    moreover have "first_of (js @ ns) [] = first_of as []" "FirstKey wl \<noteq> wkey k" using x w dk 2 by (auto simp: first_of_append; cases cs; auto)+
    ultimately show ?thesis using st' w h 2 by (intro that [of st' "{wkey a, waitingListHeadKey}"]) (auto simp: first_of_nonempty)
  next
    case (3 cs a b ds)
    have la: "links s st (first_of (js @ ns) []) (cs @ [a]) (wkey k)" "links s st (wkey k) (b # ds) []" "distinct (cs @ a # b # ds)" "a \<noteq> []" "b \<noteq> []"
      using l dk ne(2) 3 by auto
    let ?wl = "if wkey k = LastJailedKey wl then wl\<lparr>LastJailedKey := wkey a\<rparr> else wl"
    have lw: "Length ?wl \<noteq> 0" using w wl(2) by auto
    obtain st' where st': "unlink s ?wl el \<lparr>BLSPublicKey = a, PreviousKey = last_of (first_of (js @ ns) []) cs, NextKey = wkey k\<rparr> st = (None, st')"
        "links s st' (first_of (js @ ns) []) (cs @ a # b # ds) []" "changed {wkey a, wkey b, waitingListHeadKey} st st'"
        "getWaitingListHead s st' = Inr ?wl"
      using unlink_middle [OF m la lw, of k] el 3 by auto
    have "getWaitingListElement s st (wkey a) = Inr \<lparr>BLSPublicKey = a, PreviousKey = last_of (first_of (js @ ns) []) cs, NextKey = wkey k\<rparr>"
      using la(1) by (simp add: links_append)
    then have "remove_inner s wl (wkey k) el st = (None, st')" using st'(1) f el 3 unfolding remove_inner_def Let_def by auto
    moreover have "first_of (js @ ns) [] = first_of (as @ bs) []" "FirstKey wl \<noteq> wkey k" using x w dk 3 by (auto simp: first_of_append; cases cs; auto)+
    ultimately show ?thesis using st' w h 3 by (intro that [of st' "{wkey a, wkey b, waitingListHeadKey}"]) (auto simp: first_of_nonempty hd_append)
  qed
qed

lemma removeFromWaitingList_refines:
  assumes m: "marshals s" and q: "queue s L st js ns" and k: "length k = L" "L > 0"
    and f: "IsFlagEnabled s CorrectFirstQueuedFlag" "IsFlagEnabled s CorrectLastUnJailedFlag"
    and r: "queue_remove k (js, ns) = (js', ns')"
  obtains st' where "removeFromWaitingList s k st = (None, st')" "queue s L st' js' ns'" "changed (queue_keys L) st st'"
proof (cases "k \<in> set (js @ ns)")
  case False
  then have "js' = js" "ns' = ns" using r by (auto simp: queue_remove_def remove1_idem)
  then show ?thesis using False queue_stored [OF q k(1)] q by (intro that [of st]) (auto simp: removeFromWaitingList_def Let_def)
next
  case True
  then obtain as bs where x: "js @ ns = as @ k # bs" by (meson split_list)
  note q' = queueD [OF q]
  have r': "js' = remove1 k js" "ns' = remove1 k ns" using r by (simp_all add: queue_remove_def)
  have xs': "js' @ ns' = as @ bs" using removed_lists [OF q'(1) x] r' by simp
  have ab: "k \<notin> set as" "k \<notin> set bs" using q'(1) unfolding x by auto
  define st1 where "st1 = SetStorage (wkey k) [] st"
  have c1: "changed {wkey k} st st1" by (simp add: st1_def changed_Set)
  define el where "el = \<lparr>BLSPublicKey = k, PreviousKey = last_of (first_of (js @ ns) []) as, NextKey = first_of bs []\<rparr>"
  have l: "links s st (first_of (js @ ns) []) as (wkey k)" "links s st (wkey k) bs []" "getWaitingListElement s st (wkey k) = Inr el"
    using q'(5) unfolding x by (auto simp: links_append el_def x)
  then have l1: "links s st1 (first_of (js @ ns) []) as (wkey k)" "links s st1 (wkey k) bs []"
    using changed_links [OF c1] ab by auto
  define n :: u32 where "n = of_nat (length (as @ bs))"
  define wl where "wl = (head_of js ns)\<lparr>Length := n\<rparr>"
  have len: "Length (head_of js ns) - 1 = n" by (simp add: n_def x del: length_append of_nat_add) (simp add: x)
  have small: "length (as @ bs) < 2 ^ 32" "length (js @ ns) < 2 ^ 32" using q'(3) x by auto
  have n0: "n = 0 \<longleftrightarrow> as @ bs = []" using of_nat_length_neq_0 [OF _ small(1)] by (auto simp: n_def simp del: of_nat_add length_append)
  have l0: "Length (head_of js ns) \<noteq> 0" using of_nat_length_neq_0 [OF _ small(2)] x by (simp del: of_nat_add length_append)
  have run: "removeFromWaitingList s k st =
      (if as @ bs = [] then (None, SetStorage waitingListHeadKey [] st1)
       else if FirstKey wl = wkey k then remove_first s wl (wkey k) el st1 else remove_inner s wl (wkey k) el st1)"
    using element_stored [OF l(3)] changed_head [OF c1, of s] q'(4) f l0
    unfolding removeFromWaitingList_def st1_def [symmetric] Let_def n0 [symmetric] by (simp add: len wl_def del: length_head_of)
  obtain st' K where st': "removeFromWaitingList s k st = (None, st')" "changed K st1 st'"
      "K \<subseteq> insert waitingListHeadKey (wkey ` set (as @ bs))" "getWaitingListHead s st' = Inr (head_of js' ns')"
      "links s st' (first_of (as @ bs) []) (as @ bs) []"
  proof (cases "as @ bs = []")
    case True
    show thesis by (rule that [of "SetStorage waitingListHeadKey [] st1" "{waitingListHeadKey}"])
        (use True run xs' in \<open>auto simp: changed_Set head_of_def\<close>)
  next
    case False
    have "[] \<notin> set (as @ bs)" using q'(2) k x by (metis Un_iff length_0_conv less_irrefl set_append list.set_intros(2))
    then show thesis
      by (rule remove_linked [OF m q'(1) x False _ l1 f(2) wl_def _ n_def el_def]) (use n0 False run r' in \<open>auto intro!: that\<close>)
  qed
  have c: "changed ({wkey k} \<union> K) st st'" by (rule changed_trans [OF c1 st'(2)])
  have K: "{wkey k} \<union> K \<subseteq> insert waitingListHeadKey (wkey ` set (js @ ns))" using st'(3) unfolding x by auto
  have "wkey k \<notin> K" using st'(3) ab by auto
  then have "GetStorage st' (wkey k) = []" using changed_Get [OF st'(2)] by (simp add: st1_def)
  then have "queue s L st' js' ns'" using queue_shrunk [OF q c K _ r'] st'(4,5) xs' by simp
  moreover have "{wkey k} \<union> K \<subseteq> queue_keys L" using K q'(2) by (auto simp: queue_keys_def)
  ultimately show ?thesis using st'(1) changed_mono [OF c] by (blast intro: that)
qed

section \<open>Walking\<close>

text \<open>The walk returns the keys in order with the data of the nodes.\<close>

lemma first_elements_loop_links:
  assumes "links s st p xs []" "\<And>x. x \<in> set xs \<Longrightarrow> getOrCreateRegisteredData s st x = Inr (d x) \<and> length x = L"
  shows "\<exists>r'. first_elements_loop s st wl n (first_of xs []) r = Inr r' \<and>
    blsKeys r' = blsKeys r @ take n xs \<and> stakedDataList r' = stakedDataList r @ map d (take n xs) \<and>
    afterLastJailed r' = (afterLastJailed r \<or> LastJailedKey wl \<in> wkey ` set (take n xs))"
  using assms
proof (induction n arbitrary: xs p r)
  case (Suc n)
  show ?case
  proof (cases xs)
    case (Cons y ys)
    note l = Suc.prems [unfolded Cons]
    define r1 where "r1 = (if wkey y = LastJailedKey wl then r\<lparr>afterLastJailed := True\<rparr> else r)"
    define r2 where "r2 = r1\<lparr>blsKeys := blsKeys r1 @ [y], stakedDataList := stakedDataList r1 @ [d y]\<rparr>"
    have y: "getWaitingListElement s st (wkey y) = Inr \<lparr>BLSPublicKey = y, PreviousKey = p, NextKey = first_of ys []\<rparr>"
      "getOrCreateRegisteredData s st y = Inr (d y)" "links s st (wkey y) ys []" using l by simp_all
    have step: "first_elements_loop s st wl (Suc n) (first_of xs []) r =
        (if ys = [] then Inr (r2\<lparr>lastKey := wkey y\<rparr>) else first_elements_loop s st wl n (first_of ys []) r2)"
      using l y by (cases ys) (simp_all add: Cons r1_def r2_def Let_def)
    have r2: "blsKeys r2 = blsKeys r @ [y]" "stakedDataList r2 = stakedDataList r @ [d y]"
      "afterLastJailed r2 = (afterLastJailed r \<or> LastJailedKey wl = wkey y)" by (auto simp: r1_def r2_def)
    show ?thesis
    proof (cases "ys = []")
      case False
      then show ?thesis using Suc.IH [OF y(3), of r2] l(2) step r2 Cons by auto
    qed (use step r2 Cons in auto)
  qed simp
qed simp

lemma getFirstElements_refines:
  assumes q: "queue s L st js ns" and d: "\<And>x. x \<in> set (js @ ns) \<Longrightarrow> getOrCreateRegisteredData s st x = Inr (d x)"
  obtains r where "getFirstElementsFromWaitingList s num st = Inr r" "blsKeys r = take (unat num) (js @ ns)"
    "stakedDataList r = map d (take (unat num) (js @ ns))"
    "afterLastJailed r \<longleftrightarrow> js \<noteq> [] \<and> length js \<le> unat num"
proof (cases "js @ ns = []")
  case True
  then show ?thesis using queueD(4) [OF q] by (intro that) (auto simp: getFirstElementsFromWaitingList_def head_of_def empty_list_def)
next
  case False
  note q' = queueD [OF q]
  let ?xs = "js @ ns" and ?r = "\<lparr>blsKeys = [], stakedDataList = [], lastKey = [], afterLastJailed = False\<rparr>"
  let ?n = "unat (min (Length (head_of js ns)) num)"
  have small: "length ?xs < 2 ^ 32" using q'(3) by linarith
  have l0: "Length (head_of js ns) \<noteq> 0" using of_nat_length_neq_0 [OF False small] by (simp del: length_append of_nat_add)
  have ul: "unat (Length (head_of js ns)) = length ?xs"
    using small by (simp add: unat_of_nat del: length_append of_nat_add)
  have n: "take ?n ?xs = take (unat num) ?xs" using ul by (auto simp: min_def word_le_nat_alt simp del: length_head_of)
  have f: "FirstKey (head_of js ns) = first_of ?xs []" "LastJailedKey (head_of js ns) = last_of [] js"
    using False unfolding head_of_nonempty [OF False] by (simp_all add: first_of_nonempty)
  have run: "getFirstElementsFromWaitingList s num st = first_elements_loop s st (head_of js ns) ?n (first_of ?xs []) ?r"
    using q'(4) l0 by (simp add: getFirstElementsFromWaitingList_def f del: length_head_of)
  obtain r where r: "first_elements_loop s st (head_of js ns) ?n (first_of ?xs []) ?r = Inr r"
      "blsKeys r = take ?n ?xs" "stakedDataList r = map d (take ?n ?xs)" "afterLastJailed r \<longleftrightarrow> last_of [] js \<in> wkey ` set (take ?n ?xs)"
    using first_elements_loop_links [OF q'(5), of d L "head_of js ns" ?n ?r] d q'(2) f(2) by auto
  have "last_of [] js \<in> wkey ` set (take (unat num) ?xs) \<longleftrightarrow> js \<noteq> [] \<and> length js \<le> unat num"
  proof (cases js rule: rev_cases)
    case (snoc ys j)
    have "j \<notin> set ns" using q'(1) snoc by auto
    have "j \<in> set (take (unat num) ?xs) \<longleftrightarrow> length ys < unat num"
    proof
      assume "j \<in> set (take (unat num) ?xs)"
      moreover have "j \<notin> set ys" using q'(1) snoc by auto
      ultimately show "length ys < unat num" using snoc by (auto dest: in_set_takeD intro: ccontr)
    next
      assume "length ys < unat num"
      then show "j \<in> set (take (unat num) ?xs)" using snoc by (auto simp: take_Cons')
    qed
    then show ?thesis using snoc by auto
  qed auto
  then show ?thesis by (intro that [of r]) (use run r n in \<open>simp_all only:\<close>)
qed

end
