(* ===== verification/Staking_SC.thy ===== *)
theory Staking_SC
  imports Staking_Queue
begin

text \<open>
  The staking contract (\<open>staking.go\<close> and the calls of \<open>stakingWaitingList.go\<close>): every function that \<open>Execute\<close> dispatches
  to, with its checks in the order of the code. A call gives a return code and the new state; the host discards the
  changes of a call that does not return \<open>Ok\<close>. A Go panic is the code \<open>Panic\<close>.
\<close>

section \<open>Calls\<close>

record ContractCallInput =
  CallerAddr :: slice
  Arguments :: "bytes list"
  CallValue :: "int option"
  Function :: string
  RecipientAddr :: slice
  ESDTTransfers :: nat

type_synonym outcome = "ReturnCode \<times> eei"

definition caller :: "ContractCallInput \<Rightarrow> bytes" where "caller args = slice_str (CallerAddr args)"
definition arg0 :: "ContractCallInput \<Rightarrow> bytes" where "arg0 args = Arguments args ! 0"
definition call_value :: "ContractCallInput \<Rightarrow> int" where "call_value args = (case CallValue args of None \<Rightarrow> 0 | Some v \<Rightarrow> v)"

definition fail :: "message \<Rightarrow> eei \<Rightarrow> outcome" where
  "fail m st = (UserError, AddReturnMessage m st)"

text \<open>The end of many calls: \<open>Ok\<close>, or a message with the error.\<close>

definition finish_with :: "string \<Rightarrow> result \<Rightarrow> outcome" where
  "finish_with text r = (case r of (None, st) \<Rightarrow> (Ok, st) | (Some e, st) \<Rightarrow> fail (MsgErr text e) st)"

definition CheckIfNil :: "ContractCallInput option \<Rightarrow> bool" where
  "CheckIfNil args =
     (case args of None \<Rightarrow> False
      | Some a \<Rightarrow> CallValue a \<noteq> None \<and> Function a \<noteq> [] \<and> CallerAddr a \<noteq> None \<and> RecipientAddr a \<noteq> None)"

section \<open>Counters\<close>

definition addToStakedNodes :: "stakingSC \<Rightarrow> u64 \<Rightarrow> eei \<Rightarrow> eei" where
  "addToStakedNodes s v st = (let c = getConfig s st in setConfig s (c\<lparr>StakedNodes := StakedNodes c + v\<rparr>) st)"

definition removeFromStakedNodes :: "stakingSC \<Rightarrow> eei \<Rightarrow> eei" where
  "removeFromStakedNodes s st =
     (let c = getConfig s st; c = (if sint (StakedNodes c) > 0 then c\<lparr>StakedNodes := StakedNodes c - 1\<rparr> else c) in setConfig s c st)"

definition removeFromJailedNodes :: "stakingSC \<Rightarrow> eei \<Rightarrow> eei" where
  "removeFromJailedNodes s st =
     (let c = getConfig s st; c = (if sint (JailedNodes c) > 0 then c\<lparr>JailedNodes := JailedNodes c - 1\<rparr> else c) in setConfig s c st)"

definition numSpareNodes :: "stakingSC \<Rightarrow> eei \<Rightarrow> u64" where
  "numSpareNodes s st = (let c = getConfig s st in StakedNodes c - JailedNodes c - MinNumNodes c)"

definition canStake :: "stakingSC \<Rightarrow> eei \<Rightarrow> bool" where
  "canStake s st =
     (IsFlagEnabled s StakingV4StartedFlag \<or> (let c = getConfig s st in sint (StakedNodes c) < sint (MaxNumNodes c)))"

definition canStakeIfOneRemoved :: "stakingSC \<Rightarrow> eei \<Rightarrow> bool" where
  "canStakeIfOneRemoved s st = (let c = getConfig s st in sint (StakedNodes c) \<le> sint (MaxNumNodes c))"

definition canUnStake :: "stakingSC \<Rightarrow> eei \<Rightarrow> bool" where
  "canUnStake s st = (sint (numSpareNodes s st) > 0)"

definition canUnBond :: "stakingSC \<Rightarrow> eei \<Rightarrow> bool" where
  "canUnBond s st = (sint (numSpareNodes s st) \<ge> 0)"

definition getUnBondPeriod :: "stakingSC \<Rightarrow> u64" where
  "getUnBondPeriod s = (if \<not> IsSupernovaRound s (CurrentRound s) then unBondPeriod s else unBondPeriodSupernova s)"

definition isNodeJailedOrWithBadRating :: "stakingSC \<Rightarrow> StakedDataV2_0 \<Rightarrow> bytes \<Rightarrow> bool" where
  "isNodeJailedOrWithBadRating s d blsKey = (Jailed d \<or> CanUnJail s blsKey \<or> IsBadRating s blsKey)"

section \<open>Staking and unstaking a node\<close>

definition activeStakingFor :: "stakingSC \<Rightarrow> StakedDataV2_0 \<Rightarrow> StakedDataV2_0" where
  "activeStakingFor s d = d\<lparr>RegisterNonce := CurrentNonce s, Staked := True, StakedNonce := CurrentNonce s,
     UnStakedEpoch := DefaultUnstakedEpoch, UnStakedNonce := 0, Waiting := False\<rparr>"

definition processStakeV1 :: "stakingSC \<Rightarrow> bytes \<Rightarrow> StakedDataV2_0 \<Rightarrow> bool \<Rightarrow> eei \<Rightarrow> staking_error option \<times> StakedDataV2_0 \<times> eei" where
  "processStakeV1 s blsKey d addFirst st =
     (if Staked d then (None, d, st)
      else let d = d\<lparr>RegisterNonce := CurrentNonce s\<rparr>
           in if \<not> canStake s st
              then let st = AddReturnMessage (Msg ''staking is full key put into waiting list '' [hex_EncodeToString blsKey]) st
                   in case addToWaitingList s blsKey addFirst st of
                        (Some e, st) \<Rightarrow> (Some e, d, AddReturnMessage (Msg ''error while adding to waiting'' []) st)
                      | (None, st) \<Rightarrow> (None, d\<lparr>Waiting := True\<rparr>, Finish [3] st)
              else case removeFromWaitingList s blsKey st of
                     (Some e, st) \<Rightarrow> (Some e, d, AddReturnMessage (Msg ''error while removing from waiting'' []) st)
                   | (None, st) \<Rightarrow> (None, activeStakingFor s d, addToStakedNodes s 1 st))"

definition processStakeV2 :: "stakingSC \<Rightarrow> StakedDataV2_0 \<Rightarrow> eei \<Rightarrow> staking_error option \<times> StakedDataV2_0 \<times> eei" where
  "processStakeV2 s d st =
     (if Staked d then (None, d, st)
      else let d = d\<lparr>RegisterNonce := CurrentNonce s\<rparr>; st = addToStakedNodes s 1 st in (None, activeStakingFor s d, st))"

definition processStake :: "stakingSC \<Rightarrow> bytes \<Rightarrow> StakedDataV2_0 \<Rightarrow> bool \<Rightarrow> eei \<Rightarrow> staking_error option \<times> StakedDataV2_0 \<times> eei" where
  "processStake s blsKey d addFirst st =
     (if IsFlagEnabled s StakingV4StartedFlag then processStakeV2 s d st else processStakeV1 s blsKey d addFirst st)"

definition unstaked_data :: "stakingSC \<Rightarrow> StakedDataV2_0 \<Rightarrow> StakedDataV2_0" where
  "unstaked_data s d = d\<lparr>Staked := False, UnStakedEpoch := CurrentEpoch s, UnStakedNonce := CurrentNonce s, Waiting := False\<rparr>"

definition doUnStake :: "stakingSC \<Rightarrow> bytes \<Rightarrow> StakedDataV2_0 \<Rightarrow> eei \<Rightarrow> outcome" where
  "doUnStake s key d st = finish_with ''cannot save staking data: error '' (saveStakingData s key (unstaked_data s d) st)"

definition tryUnStake :: "stakingSC \<Rightarrow> bytes \<Rightarrow> StakedDataV2_0 \<Rightarrow> eei \<Rightarrow> outcome" where
  "tryUnStake s key d st =
     (if \<not> canUnStake s st then fail (Msg ''unStake is not possible as too many left'' []) st
      else doUnStake s key d (removeFromStakedNodes s st))"

definition removeAndSetUnstaked :: "stakingSC \<Rightarrow> StakedDataV2_0 \<Rightarrow> eei \<Rightarrow> StakedDataV2_0 \<times> eei" where
  "removeAndSetUnstaked s d st =
     (d\<lparr>Staked := False, UnStakedEpoch := CurrentEpoch s, UnStakedNonce := CurrentNonce s, StakedNonce := - 1\<rparr>, removeFromStakedNodes s st)"

definition tryRemoveJailedNodeFromStaked :: "stakingSC \<Rightarrow> StakedDataV2_0 \<Rightarrow> eei \<Rightarrow> StakedDataV2_0 \<times> eei" where
  "tryRemoveJailedNodeFromStaked s d st =
     (if \<not> IsFlagEnabled s CorrectJailedNotUnStakedEmptyQueueFlag then removeAndSetUnstaked s d st
      else if canUnStake s st then removeAndSetUnstaked s d st
      else (d, AddReturnMessage (Msg ''did not switch as not enough validators remaining'' []) st))"

definition moveFirstFromWaitingToStaked :: "stakingSC \<Rightarrow> eei \<Rightarrow> (staking_error + bool) \<times> eei" where
  "moveFirstFromWaitingToStaked s st =
     (case getWaitingListHead s st of
        Inl e \<Rightarrow> (Inl e, st)
      | Inr wl \<Rightarrow>
          if Length wl = 0 then (Inr False, st)
          else case getWaitingListElement s st (FirstKey wl) of
                 Inl e \<Rightarrow> (Inl e, st)
               | Inr el \<Rightarrow>
                  (case removeFromWaitingList s (BLSPublicKey el) st of
                     (Some e, st) \<Rightarrow> (Inl e, st)
                   | (None, st) \<Rightarrow>
                      (case getOrCreateRegisteredData s st (BLSPublicKey el) of
                         Inl e \<Rightarrow> (Inl e, st)
                       | Inr d \<Rightarrow>
                           if length (RewardAddress d) = 0 \<or> Staked d then (Inl ErrInvalidWaitingList, st)
                           else (case saveStakingData s (BLSPublicKey el) (activeStakingFor s d) (addToStakedNodes s 1 st) of
                                   (Some e, st) \<Rightarrow> (Inl e, st)
                                 | (None, st) \<Rightarrow> (Inr True, st)))))"

definition moveFirstFromWaitingToStakedIfNeeded :: "stakingSC \<Rightarrow> bytes \<Rightarrow> eei \<Rightarrow> (staking_error + bool) \<times> eei" where
  "moveFirstFromWaitingToStakedIfNeeded s blsKey st =
     (case getWaitingListElement s st (createWaitingListKey blsKey) of
        Inr _ \<Rightarrow> (case removeFromWaitingList s blsKey st of (Some e, st) \<Rightarrow> (Inl e, st) | (None, st) \<Rightarrow> (Inr False, st))
      | Inl _ \<Rightarrow> moveFirstFromWaitingToStaked s st)"

definition checkUnStakeArgs :: "stakingSC \<Rightarrow> ContractCallInput \<Rightarrow> eei \<Rightarrow> outcome + StakedDataV2_0" where
  "checkUnStakeArgs s args st =
     (if caller args \<noteq> stakeAccessAddr s
      then Inl (fail (Msg ''unStake function not allowed to be called by address '' [caller args]) st)
      else if length (Arguments args) < 2 then Inl (fail (Msg ''not enough arguments, needed BLS key and reward address'' []) st)
      else case getOrCreateRegisteredData s st (arg0 args) of
             Inl e \<Rightarrow> Inl (fail (MsgErr ''cannot get or create registered data: error '' e) st)
           | Inr d \<Rightarrow>
               if length (RewardAddress d) = 0 then Inl (fail (Msg ''cannot unStake a key that is not registered'' []) st)
               else if Arguments args ! 1 \<noteq> RewardAddress d then Inl (fail (Msg ''unStake possible only from staker caller'' []) st)
               else if isNodeJailedOrWithBadRating s d (arg0 args)
                    then Inl (fail (Msg ''cannot unStake node which is jailed or with bad rating'' []) st)
               else if \<not> Staked d \<and> \<not> Waiting d then Inl (fail (Msg ''cannot unStake node which was already unStaked'' []) st)
               else Inr d)"

definition unStakeV1 :: "stakingSC \<Rightarrow> ContractCallInput \<Rightarrow> eei \<Rightarrow> outcome" where
  "unStakeV1 s args st =
     (case checkUnStakeArgs s args st of
        Inl r \<Rightarrow> r
      | Inr d \<Rightarrow>
          if \<not> Staked d
          then (case removeFromWaitingList s (arg0 args) st of
                  (Some e, st) \<Rightarrow> fail (MsgErr [] e) st
                | (None, st) \<Rightarrow> finish_with ''cannot save staking data: error '' (saveStakingData s (arg0 args) (d\<lparr>Waiting := False\<rparr>) st))
          else if \<not> IsFlagEnabled s CorrectLastUnJailedFlag \<or> canStakeIfOneRemoved s st
               then (case moveFirstFromWaitingToStaked s st of
                       (Inl e, st) \<Rightarrow> fail (MsgErr [] e) st
                     | (Inr _, st) \<Rightarrow> tryUnStake s (arg0 args) d st)
               else tryUnStake s (arg0 args) d st)"

definition unStakeV2 :: "stakingSC \<Rightarrow> ContractCallInput \<Rightarrow> eei \<Rightarrow> outcome" where
  "unStakeV2 s args st =
     (case checkUnStakeArgs s args st of
        Inl r \<Rightarrow> r
      | Inr d \<Rightarrow>
          if \<not> Staked d then (ExecutionFailed, AddReturnMessage (MsgErr [] ErrWaitingListDisabled) st)
          else tryUnStake s (arg0 args) d st)"

definition unStake :: "stakingSC \<Rightarrow> ContractCallInput \<Rightarrow> eei \<Rightarrow> outcome" where
  "unStake s args st = (if IsFlagEnabled s StakingV4StartedFlag then unStakeV2 s args st else unStakeV1 s args st)"

definition stake :: "stakingSC \<Rightarrow> ContractCallInput \<Rightarrow> bool \<Rightarrow> eei \<Rightarrow> outcome" where
  "stake s args onlyRegister st =
     (if caller args \<noteq> stakeAccessAddr s then fail (Msg ''stake function not allowed to be called by address '' [caller args]) st
      else if length (Arguments args) < 3
      then fail (Msg ''not enough arguments, needed BLS key, reward address and owner address'' []) st
      else case getOrCreateRegisteredData s st (arg0 args) of
             Inl e \<Rightarrow> fail (MsgErr ''cannot get or create registered data: error '' e) st
           | Inr d \<Rightarrow>
               if isNodeJailedOrWithBadRating s d (arg0 args)
               then fail (Msg ''cannot stake node which is jailed or with bad rating'' []) st
               else let d = d\<lparr>RewardAddress := Arguments args ! 1, OwnerAddress := Arguments args ! 2, StakeValue := stakeValue s\<rparr>
                    in case (if \<not> onlyRegister then processStake s (arg0 args) d False st else (None, d, st)) of
                         (Some e, d, st) \<Rightarrow> (UserError, st)
                       | (None, d, st) \<Rightarrow> finish_with ''cannot save staking registered data: error '' (saveStakingData s (arg0 args) d st))"

definition unStakeAtEndOfEpoch :: "stakingSC \<Rightarrow> ContractCallInput \<Rightarrow> eei \<Rightarrow> outcome" where
  "unStakeAtEndOfEpoch s args st =
     (if caller args \<noteq> endOfEpochAccessAddr s then (UserError, st)
      else if length (Arguments args) \<noteq> 1 then fail (Msg ''not enough arguments, needed the BLS key'' []) st
      else case getOrCreateRegisteredData s st (arg0 args) of
             Inl e \<Rightarrow> fail (MsgErr ''cannot get or create registered data: error '' e) st
           | Inr d \<Rightarrow>
               if length (RewardAddress d) = 0 then fail (Msg ''cannot unStake a key that is not registered'' []) st
               else if Jailed d \<and> \<not> Staked d then (Ok, AddReturnMessage (Msg ''already unStaked at switchJailedToWaiting'' []) st)
               else if \<not> Staked d \<and> \<not> Waiting d then (Ok, st)
               else let st = (if Staked d then removeFromStakedNodes s st else st)
                    in case (if Waiting d then removeFromWaitingList s (arg0 args) st else (None, st)) of
                         (Some e, st) \<Rightarrow> fail (MsgErr [] e) st
                       | (None, st) \<Rightarrow>
                           finish_with ''cannot save staking data: error '' (saveStakingData s (arg0 args) (unstaked_data s d) st))"

definition unBond :: "stakingSC \<Rightarrow> ContractCallInput \<Rightarrow> eei \<Rightarrow> outcome" where
  "unBond s args st =
     (if caller args \<noteq> stakeAccessAddr s then fail (Msg ''unBond function not allowed to be called by address '' [caller args]) st
      else if length (Arguments args) < 1 then fail (Msg ''not enough arguments, needed BLS key'' []) st
      else case getOrCreateRegisteredData s st (arg0 args) of
             Inl e \<Rightarrow> fail (MsgErr ''cannot get or create registered data: error '' e) st
           | Inr d \<Rightarrow>
               let enc = hex_EncodeToString (arg0 args)
               in if length (RewardAddress d) = 0 then fail (Msg ''cannot unBond key that is not registered'' [enc]) st
                  else if Staked d then fail (Msg ''unBond is not possible for key which is staked'' [enc]) st
                  else if isNodeJailedOrWithBadRating s d (arg0 args)
                       then fail (Msg ''cannot unBond node which is jailed or with bad rating '' [enc]) st
                  else if Waiting d then fail (Msg ''unBond in not possible for key which is in waiting list'' [enc]) st
                  else if IsFlagEnabled s FixCorrectSmallIntAndGasLimitsFlag \<and> UnStakedNonce d = 0
                       then fail (Msg ''cannot unBond key which was never unStaked'' [enc]) st
                  else if UnStakedNonce d > 0 \<and> CurrentNonce s - UnStakedNonce d < getUnBondPeriod s
                       then fail (Msg ''unBond is not possible for key because unBond period did not pass'' [enc]) st
                  else if \<not> canUnBond s st
                       then fail (Msg ''unBond is currently unavailable: number of total validators in the network is at minimum'' []) st
                  else if IsValidator s (arg0 args)
                       then fail (Msg ''unBond is not possible: the node with key is still a validator'' [enc]) st
                  else (Ok, SetStorage (arg0 args) [] st))"

section \<open>Jailing\<close>

fun unJailV1_loop :: "stakingSC \<Rightarrow> bytes list \<Rightarrow> eei \<Rightarrow> outcome" where
  "unJailV1_loop s [] st = (Ok, st)"
| "unJailV1_loop s (key # ks) st =
     (case getOrCreateRegisteredData s st key of
        Inl e \<Rightarrow> fail (MsgErr ''cannot get or created registered data: error '' e) st
      | Inr d \<Rightarrow>
          if length (RewardAddress d) = 0 then fail (Msg ''cannot unJail a key that is not registered'' []) st
          else let st = (if UnJailedNonce d \<le> JailedNonce d then removeFromJailedNodes s st else st)
               in case saveStakingData s key (d\<lparr>JailedRound := - 1, UnJailedNonce := CurrentNonce s\<rparr>) st of
                    (Some e, st) \<Rightarrow> fail (MsgErr ''cannot save staking data: error '' e) st
                  | (None, st) \<Rightarrow> unJailV1_loop s ks st)"

definition unJailV1 :: "stakingSC \<Rightarrow> ContractCallInput \<Rightarrow> eei \<Rightarrow> outcome" where
  "unJailV1 s args st =
     (if caller args \<noteq> stakeAccessAddr s then fail (Msg ''unJail function not allowed to be called by address '' [caller args]) st
      else unJailV1_loop s (Arguments args) st)"

definition unJail :: "stakingSC \<Rightarrow> ContractCallInput \<Rightarrow> eei \<Rightarrow> outcome" where
  "unJail s args st =
     (if \<not> IsFlagEnabled s StakeFlag then unJailV1 s args st
      else if caller args \<noteq> stakeAccessAddr s then fail (Msg ''unJail function not allowed to be called by address '' [caller args]) st
      else if length (Arguments args) \<noteq> 1 then fail (Msg ''wrong number of arguments, wanted 1'' []) st
      else case getOrCreateRegisteredData s st (arg0 args) of
             Inl e \<Rightarrow> fail (MsgErr ''cannot get or created registered data: error '' e) st
           | Inr d \<Rightarrow>
               if length (RewardAddress d) = 0 then fail (Msg ''cannot unJail a key that is not registered'' []) st
               else if \<not> Jailed d \<and> \<not> CanUnJail s (arg0 args) then fail (Msg ''cannot unJail a node which is not jailed'' []) st
               else let d = d\<lparr>JailedRound := - 1, UnJailedNonce := CurrentNonce s, Jailed := False\<rparr>
                    in case processStake s (arg0 args) d (NumJailed d = 1) st of
                         (Some e, d, st) \<Rightarrow> (UserError, st)
                       | (None, d, st) \<Rightarrow> finish_with ''cannot save staking data: error '' (saveStakingData s (arg0 args) d st))"

fun jail_loop :: "stakingSC \<Rightarrow> bytes list \<Rightarrow> eei \<Rightarrow> outcome" where
  "jail_loop s [] st = (Ok, st)"
| "jail_loop s (key # ks) st =
     (case getOrCreateRegisteredData s st key of
        Inl e \<Rightarrow> fail (MsgErr ''cannot get or create registered data: error '' e) st
      | Inr d \<Rightarrow>
          if length (RewardAddress d) = 0 then fail (Msg ''cannot jail a key that is not registered'' []) st
          else case saveStakingData s key (d\<lparr>JailedRound := CurrentRound s, JailedNonce := CurrentNonce s, Jailed := True,
                      NumJailed := NumJailed d + 1\<rparr>) st of
                 (Some e, st) \<Rightarrow> fail (MsgErr ''cannot save staking data: error '' e) st
               | (None, st) \<Rightarrow> jail_loop s ks st)"

definition jail :: "stakingSC \<Rightarrow> ContractCallInput \<Rightarrow> eei \<Rightarrow> outcome" where
  "jail s args st = (if caller args \<noteq> jailAccessAddr s then (UserError, st) else jail_loop s (Arguments args) st)"

definition waiting_list_disabled :: "stakingSC \<Rightarrow> bool" where
  "waiting_list_disabled s \<longleftrightarrow> IsFlagEnabled s StakingV4StartedFlag \<and> \<not> IsFlagEnabled s StakingV4Step1Flag"

definition switchJailedWithWaiting :: "stakingSC \<Rightarrow> ContractCallInput \<Rightarrow> eei \<Rightarrow> outcome" where
  "switchJailedWithWaiting s args st =
     (if waiting_list_disabled s then fail (MsgErr [] ErrWaitingListDisabled) st
      else if caller args \<noteq> endOfEpochAccessAddr s
           then fail (Msg ''switchJailedWithWaiting function not allowed to be called by address '' [caller args]) st
      else if length (Arguments args) \<noteq> 1 then (UserError, st)
      else case getOrCreateRegisteredData s st (arg0 args) of
             Inl e \<Rightarrow> fail (MsgErr [] e) st
           | Inr d \<Rightarrow>
               if length (RewardAddress d) = 0 then fail (Msg ''no need to jail as not a validator'' []) st
               else if \<not> Staked d then fail (Msg ''no need to jail as not a validator'' []) st
               else if Jailed d then fail (MsgErr [] ErrBLSPublicKeyAlreadyJailed) st
               else case moveFirstFromWaitingToStakedIfNeeded s (arg0 args) st of
                      (Inl e, st) \<Rightarrow> fail (MsgErr [] e) st
                    | (Inr switched, st) \<Rightarrow>
                        let d = d\<lparr>NumJailed := NumJailed d + 1, Jailed := True, JailedNonce := CurrentNonce s\<rparr>;
                            (d, st) = (if \<not> switched \<and> \<not> IsFlagEnabled s CorrectJailedNotUnStakedEmptyQueueFlag
                                       then (d, AddReturnMessage (Msg ''did not switch as nobody in waiting, but jailed'' []) st)
                                       else tryRemoveJailedNodeFromStaked s d st)
                        in finish_with ''cannot save staking data: error '' (saveStakingData s (arg0 args) d st))"

section \<open>Registration data\<close>

fun rewards_loop :: "stakingSC \<Rightarrow> bytes \<Rightarrow> bytes list \<Rightarrow> eei \<Rightarrow> outcome" where
  "rewards_loop s addr [] st = (Ok, st)"
| "rewards_loop s addr (key # ks) st =
     (case getOrCreateRegisteredData s st key of
        Inl e \<Rightarrow> fail (MsgErr ''cannot get or create registered data: error '' e) st
      | Inr d \<Rightarrow>
          if length (RewardAddress d) = 0 then rewards_loop s addr ks st
          else case saveStakingData s key (d\<lparr>RewardAddress := addr\<rparr>) st of
                 (Some e, st) \<Rightarrow> fail (MsgErr ''cannot save staking data: error '' e) st
               | (None, st) \<Rightarrow> rewards_loop s addr ks st)"

definition changeRewardAddress :: "stakingSC \<Rightarrow> ContractCallInput \<Rightarrow> eei \<Rightarrow> outcome" where
  "changeRewardAddress s args st =
     (if caller args \<noteq> stakeAccessAddr s then fail (Msg ''stake function not allowed to be called by address '' [caller args]) st
      else if length (Arguments args) < 2 then fail (Msg ''invalid number of arguments: expected min 2'' [nat_Itoa (length (Arguments args))]) st
      else if length (arg0 args) \<noteq> walletAddressLen s then fail (Msg ''invalid reward address'' []) st
      else rewards_loop s (arg0 args) (tl (Arguments args)) st)"

definition changeValidatorKey :: "stakingSC \<Rightarrow> ContractCallInput \<Rightarrow> eei \<Rightarrow> outcome" where
  "changeValidatorKey s args st =
     (if caller args \<noteq> stakeAccessAddr s then fail (Msg ''changeValidatorKey function not allowed to be called by address '' [caller args]) st
      else fail (Msg ''function is deprecated'' []) st)"

fun owners_loop :: "stakingSC \<Rightarrow> bytes list \<Rightarrow> eei \<Rightarrow> outcome" where
  "owners_loop s (key # addr # rest) st =
     (case getOrCreateRegisteredData s st key of
        Inl e \<Rightarrow> fail (Msg ''process stopped at index'' [hex_EncodeToString key]) (AddReturnMessage (MsgErr [] e) st)
      | Inr d \<Rightarrow>
          if length (RewardAddress d) = 0 then owners_loop s rest st
          else case saveStakingData s key (d\<lparr>OwnerAddress := addr\<rparr>) st of
                 (Some e, st) \<Rightarrow> fail (Msg ''process stopped at index'' [hex_EncodeToString key]) (AddReturnMessage (MsgErr [] e) st)
               | (None, st) \<Rightarrow> owners_loop s rest st)"
| "owners_loop s _ st = (Ok, st)"

definition setOwnersOnAddresses :: "stakingSC \<Rightarrow> ContractCallInput \<Rightarrow> eei \<Rightarrow> outcome" where
  "setOwnersOnAddresses s args st =
     (if \<not> IsFlagEnabled s StakingV2Flag then fail (Msg ''invalid method to call'' []) st
      else if caller args \<noteq> endOfEpochAccessAddr s
           then fail (Msg ''setOwnersOnAddresses function not allowed to be called by address '' [caller args]) st
      else if length (Arguments args) mod 2 \<noteq> 0
           then fail (Msg ''invalid number of arguments: expected an even number of arguments'' []) st
      else owners_loop s (Arguments args) st)"

fun migrate_loop :: "stakingSC \<Rightarrow> bytes \<Rightarrow> bytes list \<Rightarrow> eei \<Rightarrow> outcome" where
  "migrate_loop s addr [] st = (Ok, st)"
| "migrate_loop s addr (key # ks) st =
     (case getOrCreateRegisteredData s st key of
        Inl e \<Rightarrow> fail (MsgErr [] e) st
      | Inr d \<Rightarrow>
          if length (RewardAddress d) = 0
          then fail (Msg ''cannot change owner and reward address for a key which is not registered'' []) st
          else if Jailed d \<or> CanUnJail s key then fail (Msg ''can not migrate nodes while jailed nodes exists'' []) st
          else case saveStakingData s key (d\<lparr>OwnerAddress := addr, RewardAddress := addr\<rparr>) st of
                 (Some e, st) \<Rightarrow> fail (MsgErr [] e) st
               | (None, st) \<Rightarrow> migrate_loop s addr ks st)"

definition changeOwnerAndRewardAddress :: "stakingSC \<Rightarrow> ContractCallInput \<Rightarrow> eei \<Rightarrow> outcome" where
  "changeOwnerAndRewardAddress s args st =
     (if \<not> IsFlagEnabled s ValidatorToDelegationFlag then (UserError, st)
      else if caller args \<noteq> stakeAccessAddr s
           then fail (Msg ''change owner and reward address can be called by validator SC only'' []) st
      else if call_value args \<noteq> 0 then fail (Msg ''callValue must be 0'' []) st
      else if length (Arguments args) < 2 then fail (Msg ''number of arguments is 2 at minimum'' []) st
      else if \<not> IsSmartContractAddress s (arg0 args) then fail (Msg ''new address must be a smart contract address'' []) st
      else migrate_loop s (arg0 args) (tl (Arguments args)) st)"

section \<open>Configuration\<close>

definition init :: "stakingSC \<Rightarrow> ContractCallInput \<Rightarrow> eei \<Rightarrow> outcome" where
  "init s args st =
     (if store st ownerKey \<noteq> None then fail (Msg ''smart contract was already initialized'' []) st
      else let st = SetStorage ownerKey (caller args) st;
               st = SetStorage (caller args) (big_Bytes 0) st;
               st = setConfig s (base_config s) st;
               st = SetStorage (ascii ''epoch_'' @ nat_Itoa (unat (CurrentEpoch s))) (big_Bytes (stakeValue s)) st
           in (Ok, st))"

definition big_Int64 :: "bytes \<Rightarrow> u64" where
  "big_Int64 b = of_nat (big_SetBytes b)"

definition updateConfigMinNodes :: "stakingSC \<Rightarrow> ContractCallInput \<Rightarrow> eei \<Rightarrow> outcome" where
  "updateConfigMinNodes s args st =
     (if caller args \<noteq> endOfEpochAccessAddr s
      then fail (Msg ''updateConfigMinNodes function not allowed to be called by address '' [caller args]) st
      else let c = getConfig s st
           in if length (Arguments args) \<noteq> 1 then fail (Msg ''number of arguments must be 1'' []) st
              else let newMinNodes = big_Int64 (arg0 args)
                   in if sint newMinNodes \<le> 0 then fail (Msg ''new minimum number of nodes zero or negative'' []) st
                      else if sint newMinNodes > sint (maxNumNodes s)
                           then fail (Msg ''new minimum number of nodes greater than maximum number of nodes'' []) st
                      else (Ok, setConfig s (c\<lparr>MinNumNodes := newMinNodes\<rparr>) st))"

definition updateConfigMaxNodes :: "stakingSC \<Rightarrow> ContractCallInput \<Rightarrow> eei \<Rightarrow> outcome" where
  "updateConfigMaxNodes s args st =
     (if \<not> IsFlagEnabled s StakingV2Flag then fail (Msg ''invalid method to call'' []) st
      else if caller args \<noteq> endOfEpochAccessAddr s
           then fail (Msg ''updateConfigMaxNodes function not allowed to be called by address '' [caller args]) st
      else let c = getConfig s st
           in if length (Arguments args) \<noteq> 1 then fail (Msg ''number of arguments must be 1'' []) st
              else let newMaxNodes = big_Int64 (arg0 args)
                   in if sint newMaxNodes \<le> 0 then fail (Msg ''new max number of nodes zero or negative'' []) st
                      else if sint newMaxNodes < sint (minNumNodes s)
                           then fail (Msg ''new max number of nodes less than min number of nodes'' []) st
                      else let st = Finish (big_Bytes (sint (MaxNumNodes c))) st
                           in (Ok, setConfig s (c\<lparr>MaxNumNodes := newMaxNodes\<rparr>) st))"

section \<open>Views\<close>

definition get :: "stakingSC \<Rightarrow> ContractCallInput \<Rightarrow> eei \<Rightarrow> outcome" where
  "get s args st =
     (if IsFlagEnabled s StakingV2Flag then fail (Msg ''function deprecated'' []) st
      else if length (Arguments args) < 1 then fail (Msg ''invalid number of arguments: expected min 1, got 0'' []) st
      else (Ok, Finish (GetStorage st (arg0 args)) st))"

definition slash :: "stakingSC \<Rightarrow> ContractCallInput \<Rightarrow> eei \<Rightarrow> outcome" where
  "slash s args st = fail (Msg ''slash function called by not the owners address'' []) st"

definition isStaked :: "stakingSC \<Rightarrow> ContractCallInput \<Rightarrow> eei \<Rightarrow> outcome" where
  "isStaked s args st =
     (if length (Arguments args) < 1 then fail (Msg ''invalid number of arguments: expected min 1, got 0'' []) st
      else if call_value args \<noteq> 0 then fail (Msg ''transaction value must be zero'' []) st
      else case getOrCreateRegisteredData s st (arg0 args) of
             Inl e \<Rightarrow> fail (MsgErr ''cannot get or create registered data: error '' e) st
           | Inr d \<Rightarrow>
               if length (RewardAddress d) = 0 then fail (Msg ''key is not registered'' []) st
               else if Staked d then (Ok, st)
               else fail (Msg ''account not staked'' []) st)"

definition getStakedDataIfExists :: "stakingSC \<Rightarrow> ContractCallInput \<Rightarrow> eei \<Rightarrow> outcome + (StakedDataV2_0 \<times> eei)" where
  "getStakedDataIfExists s args st =
     (case UseGas (gasCostGet s) st of
        None \<Rightarrow> Inl (OutOfGas, AddReturnMessage (Msg ''insufficient gas'' []) st)
      | Some st \<Rightarrow>
          if length (Arguments args) \<noteq> 1 then Inl (fail (Msg ''number of arguments must be equal to 1'' []) st)
          else case getOrCreateRegisteredData s st (arg0 args) of
                 Inl e \<Rightarrow> Inl (fail (MsgErr [] e) st)
               | Inr d \<Rightarrow>
                   if length (RewardAddress d) = 0 then Inl (fail (Msg ''blsKey not registered in staking sc'' []) st)
                   else Inr (d, st))"

definition getRewardAddress :: "stakingSC \<Rightarrow> ContractCallInput \<Rightarrow> eei \<Rightarrow> outcome" where
  "getRewardAddress s args st =
     (if call_value args \<noteq> 0 then fail (Msg ''transaction value must be zero'' []) st
      else case getStakedDataIfExists s args st of
             Inl r \<Rightarrow> r
           | Inr (d, st) \<Rightarrow> (Ok, Finish (hex_EncodeToString (RewardAddress d)) st))"

definition getBLSKeyStatus :: "stakingSC \<Rightarrow> ContractCallInput \<Rightarrow> eei \<Rightarrow> outcome" where
  "getBLSKeyStatus s args st =
     (if call_value args \<noteq> 0 then fail (Msg ''transaction value must be zero'' []) st
      else case getStakedDataIfExists s args st of
             Inl r \<Rightarrow> r
           | Inr (d, st) \<Rightarrow>
               if Jailed d \<or> CanUnJail s (arg0 args) then (Ok, Finish (ascii ''jailed'') st)
               else if Waiting d then (Ok, Finish (ascii ''queued'') st)
               else if Staked d then (Ok, Finish (ascii ''staked'') st)
               else (Ok, Finish (ascii ''unStaked'') st))"

definition getTotalNumberOfRegisteredNodes :: "stakingSC \<Rightarrow> ContractCallInput \<Rightarrow> eei \<Rightarrow> outcome" where
  "getTotalNumberOfRegisteredNodes s args st =
     (if \<not> IsFlagEnabled s StakingV2Flag then fail (Msg ''invalid method to call'' []) st
      else if call_value args \<noteq> 0 then fail (Msg ''transaction value must be zero'' []) st
      else case getWaitingListHead s st of
             Inl e \<Rightarrow> fail (MsgErr [] e) st
           | Inr wl \<Rightarrow>
               let c = getConfig s st; total = StakedNodes c + JailedNodes c + ucast (Length wl)
               in (Ok, Finish (big_Bytes (sint total)) st))"

definition getRemainingUnbondPeriod :: "stakingSC \<Rightarrow> ContractCallInput \<Rightarrow> eei \<Rightarrow> outcome" where
  "getRemainingUnbondPeriod s args st =
     (if call_value args \<noteq> 0 then fail (Msg ''transaction value must be zero'' []) st
      else case getStakedDataIfExists s args st of
             Inl r \<Rightarrow> r
           | Inr (d, st) \<Rightarrow>
               if UnStakedNonce d = 0 then fail (Msg ''not in unbond period'' []) st
               else let passedNonce = CurrentNonce s - UnStakedNonce d
                    in if passedNonce \<ge> getUnBondPeriod s
                       then (Ok, Finish (if IsFlagEnabled s StakingV2Flag then big_Bytes 0 else ascii ''0'') st)
                       else let remaining = getUnBondPeriod s - passedNonce
                            in (Ok, Finish (if IsFlagEnabled s StakingV2Flag then big_Bytes (uint remaining) else strconv_Itoa (sint remaining)) st))"

definition getOwner :: "stakingSC \<Rightarrow> ContractCallInput \<Rightarrow> eei \<Rightarrow> outcome" where
  "getOwner s args st =
     (if \<not> IsFlagEnabled s StakingV2Flag then fail (Msg ''invalid method to call'' []) st
      else if caller args \<noteq> stakeAccessAddr s then fail (Msg ''this is only a view function'' []) st
      else if length (Arguments args) < 1 then fail (Msg ''invalid number of arguments: expected min 1'' []) st
      else case getOrCreateRegisteredData s st (arg0 args) of
             Inl e \<Rightarrow> fail (MsgErr [] e) st
           | Inr d \<Rightarrow>
               if length (OwnerAddress d) = 0 then fail (Msg ''owner address is nil'' []) st
               else (Ok, Finish (OwnerAddress d) st))"

fun index_loop :: "stakingSC \<Rightarrow> eei \<Rightarrow> bytes \<Rightarrow> nat \<Rightarrow> u32 \<Rightarrow> bytes \<Rightarrow> outcome" where
  "index_loop s st key 0 idx nextKey = fail (Msg ''element in waiting list not found'' []) st"
| "index_loop s st key (Suc n) idx nextKey =
     (if length nextKey = 0 then fail (Msg ''element in waiting list not found'' []) st
      else if nextKey = key then (Ok, Finish (nat_Itoa (unat idx)) st)
      else case getWaitingListElement s st nextKey of
             Inl e \<Rightarrow> fail (MsgErr [] e) st
           | Inr prevElement \<Rightarrow>
               if length (NextKey prevElement) = 0 then fail (Msg ''element in waiting list not found'' []) st
               else index_loop s st key n (idx + 1) (go_copy nextKey (NextKey prevElement)))"

definition getWaitingListIndex :: "stakingSC \<Rightarrow> ContractCallInput \<Rightarrow> eei \<Rightarrow> outcome" where
  "getWaitingListIndex s args st =
     (if IsFlagEnabled s StakingV4StartedFlag then fail (MsgErr [] ErrWaitingListDisabled) st
      else if caller args \<noteq> stakeAccessAddr s then fail (Msg ''this is only a view function'' []) st
      else if length (Arguments args) \<noteq> 1 then fail (Msg ''number of arguments must be equal to 1'' []) st
      else let key = createWaitingListKey (arg0 args)
           in case getWaitingListElement s st key of
                Inl e \<Rightarrow> fail (MsgErr [] e) st
              | Inr _ \<Rightarrow>
                 (case getWaitingListHead s st of
                    Inl e \<Rightarrow> fail (MsgErr [] e) st
                  | Inr wl \<Rightarrow>
                      if key = FirstKey wl then (Ok, Finish (nat_Itoa 1) st)
                      else if key = LastKey wl then (Ok, Finish (nat_Itoa (unat (Length wl))) st)
                      else case getWaitingListElement s st (FirstKey wl) of
                             Inl e \<Rightarrow> fail (MsgErr [] e) st
                           | Inr prevElement \<Rightarrow>
                               index_loop s st key (unat (Length wl) - 1) 2 (go_copy (replicate (length key) 0) (NextKey prevElement))))"

definition getWaitingListSize :: "stakingSC \<Rightarrow> ContractCallInput \<Rightarrow> eei \<Rightarrow> outcome" where
  "getWaitingListSize s args st =
     (if IsFlagEnabled s StakingV4StartedFlag then fail (MsgErr [] ErrWaitingListDisabled) st
      else if call_value args \<noteq> 0 then fail (Msg ''transaction value must be zero'' []) st
      else case UseGas (gasCostGet s) st of
             None \<Rightarrow> (OutOfGas, AddReturnMessage (Msg ''insufficient gas'' []) st)
           | Some st \<Rightarrow>
              (case getWaitingListHead s st of
                 Inl e \<Rightarrow> fail (MsgErr [] e) st
               | Inr wl \<Rightarrow> (Ok, Finish (nat_Itoa (unat (Length wl))) st)))"

fun register_loop :: "(bytes \<times> StakedDataV2_0) list \<Rightarrow> eei \<Rightarrow> eei" where
  "register_loop [] st = st"
| "register_loop ((key, d) # rest) st =
     register_loop rest (Finish (big_Bytes (sint (RegisterNonce d))) (Finish (RewardAddress d) (Finish key st)))"

definition getWaitingListRegisterNonceAndRewardAddress :: "stakingSC \<Rightarrow> ContractCallInput \<Rightarrow> eei \<Rightarrow> outcome" where
  "getWaitingListRegisterNonceAndRewardAddress s args st =
     (if caller args \<noteq> stakeAccessAddr s then fail (Msg ''this is only a view function'' []) st
      else if length (Arguments args) \<noteq> 0 then fail (Msg ''number of arguments must be equal to 0'' []) st
      else case getFirstElementsFromWaitingList s (- 1) st of
             Inl e \<Rightarrow> fail (MsgErr [] e) st
           | Inr r \<Rightarrow>
               if length (stakedDataList r) = 0 then fail (Msg ''no one in waitingList'' []) st
               else (Ok, register_loop (zip (blsKeys r) (stakedDataList r)) st))"

section \<open>Maintenance of the queue\<close>

definition resetLastUnJailedFromQueue :: "stakingSC \<Rightarrow> ContractCallInput \<Rightarrow> eei \<Rightarrow> outcome" where
  "resetLastUnJailedFromQueue s args st =
     (if \<not> IsFlagEnabled s CorrectLastUnJailedFlag then (UserError, st)
      else if waiting_list_disabled s then fail (MsgErr [] ErrWaitingListDisabled) st
      else if caller args \<noteq> endOfEpochAccessAddr s
           then fail (Msg ''stake nodes from waiting list can be called by endOfEpochAccess address only'' []) st
      else if length (Arguments args) \<noteq> 0 then fail (Msg ''number of arguments must be equal to 0'' []) st
      else case getWaitingListHead s st of
             Inl e \<Rightarrow> fail (MsgErr [] e) st
           | Inr wl \<Rightarrow>
               if length (LastJailedKey wl) = 0 then (Ok, st)
               else finish_with [] (saveWaitingListHead s (wl\<lparr>LastJailedKey := []\<rparr>) st))"

text \<open>The number of nodes to unstake per owner, once computed.\<close>

type_synonym funds = "bytes \<rightharpoonup> u32"

fun min_stake_loop :: "stakingSC \<Rightarrow> eei \<Rightarrow> bytes list \<Rightarrow> u64 \<Rightarrow> staking_error + u64" where
  "min_stake_loop s st [] n = Inr n"
| "min_stake_loop s st (key # ks) n =
     (case getOrCreateRegisteredData s st key of
        Inl e \<Rightarrow> Inl e
      | Inr d \<Rightarrow> min_stake_loop s st ks (if Staked d \<or> Waiting d \<or> Jailed d then n + 1 else n))"

definition checkValidatorFunds :: "stakingSC \<Rightarrow> funds \<Rightarrow> bytes \<Rightarrow> int \<Rightarrow> eei \<Rightarrow> staking_error + (u32 \<times> funds)" where
  "checkValidatorFunds s checked owner nodePrice st =
     (case checked owner of
        Some n \<Rightarrow> Inr (n, checked)
      | None \<Rightarrow>
          let marshaledData = GetStorageFromAddress s (stakeAccessAddr s) owner
          in if length marshaledData = 0 then Inr (- 1, checked(owner \<mapsto> - 1))
             else case UnmarshalValidator s marshaledData of
                    None \<Rightarrow> Inl ErrUnmarshal
                  | Some v \<Rightarrow>
                      if nodePrice = 0 then Inl PanicDivisionByZero
                      else let numRegisteredKeys = of_nat (length (BlsPubKeys v)) :: u64;
                               numQualified = of_int (TotalStakeValue v div nodePrice) :: u64
                           in if sint numQualified \<ge> sint numRegisteredKeys then Inr (0, checked(owner \<mapsto> 0))
                              else case min_stake_loop s st (BlsPubKeys v) 0 of
                                     Inl e \<Rightarrow> Inl e
                                   | Inr n \<Rightarrow>
                                       let numToUnStake = (if sint n > sint numQualified then ucast (n - numQualified) else 0 :: u32)
                                       in Inr (numToUnStake, checked(owner \<mapsto> numToUnStake)))"

text \<open>The error of a call that may panic.\<close>

definition fail_or_panic :: "staking_error \<Rightarrow> eei \<Rightarrow> outcome" where
  "fail_or_panic e st = (if e = PanicDivisionByZero then (Panic, st) else fail (MsgErr [] e) st)"

fun add_owner_key :: "(bytes \<times> bytes list) list \<Rightarrow> bytes \<Rightarrow> bytes \<Rightarrow> (bytes \<times> bytes list) list" where
  "add_owner_key [] owner key = [(owner, [key])]"
| "add_owner_key ((o1, ks) # rest) owner key =
     (if o1 = owner then (o1, ks @ [key]) # rest else (o1, ks) # add_owner_key rest owner key)"

text \<open>The loop from the end of the queue; the owners are in the order of their first key.\<close>

fun clean_loop ::
  "stakingSC \<Rightarrow> (bytes \<times> StakedDataV2_0) list \<Rightarrow> funds \<Rightarrow> (bytes \<times> bytes list) list \<Rightarrow> eei
     \<Rightarrow> (staking_error + (bytes \<times> bytes list) list) \<times> eei" where
  "clean_loop s [] checked owners st = (Inr owners, st)"
| "clean_loop s ((key, d) # rest) checked owners st =
     (case checkValidatorFunds s checked (OwnerAddress d) (stakeValue s) st of
        Inl e \<Rightarrow> (Inl e, st)
      | Inr (n, checked) \<Rightarrow>
          if n = 0 then clean_loop s rest checked owners st
          else let checked = checked(OwnerAddress d \<mapsto> n - 1)
               in case removeFromWaitingList s key st of
                    (Some e, st) \<Rightarrow> (Inl e, st)
                  | (None, st) \<Rightarrow>
                     (case getOrCreateRegisteredData s st key of
                        Inl e \<Rightarrow> (Inl e, st)
                      | Inr r \<Rightarrow>
                         (case saveStakingData s key (unstaked_data s r) st of
                            (Some e, st) \<Rightarrow> (Inl e, st)
                          | (None, st) \<Rightarrow> clean_loop s rest checked (add_owner_key owners (OwnerAddress d) key) st)))"

definition cleanAdditionalQueueNotEnoughFunds ::
  "stakingSC \<Rightarrow> waitingListReturnData \<Rightarrow> eei \<Rightarrow> (staking_error + (bytes \<times> bytes list) list) \<times> eei" where
  "cleanAdditionalQueueNotEnoughFunds s r st = clean_loop s (rev (zip (blsKeys r) (stakedDataList r))) Map.empty [] st"

definition finish_owner :: "bytes \<times> bytes list \<Rightarrow> eei \<Rightarrow> eei" where
  "finish_owner p st = fold Finish (snd p) (Finish (fst p) st)"

definition cleanAdditionalQueue :: "stakingSC \<Rightarrow> ContractCallInput \<Rightarrow> eei \<Rightarrow> outcome" where
  "cleanAdditionalQueue s args st =
     (if \<not> IsFlagEnabled s CorrectLastUnJailedFlag then fail (Msg ''invalid method to call'' []) st
      else if waiting_list_disabled s then fail (MsgErr [] ErrWaitingListDisabled) st
      else if caller args \<noteq> endOfEpochAccessAddr s
           then fail (Msg ''stake nodes from waiting list can be called by endOfEpochAccess address only'' []) st
      else if length (Arguments args) \<noteq> 0 then fail (Msg ''number of arguments must be 0'' []) st
      else case getFirstElementsFromWaitingList s (- 1) st of
             Inl e \<Rightarrow> fail (MsgErr [] e) st
           | Inr r \<Rightarrow>
               if length (blsKeys r) = 0 then (Ok, AddReturnMessage (Msg ''no nodes in queue'' []) st)
               else case cleanAdditionalQueueNotEnoughFunds s r st of
                      (Inl e, st) \<Rightarrow> fail_or_panic e st
                    | (Inr owners, st) \<Rightarrow> (Ok, fold finish_owner owners st))"

fun stake_queue_loop ::
  "stakingSC \<Rightarrow> int \<Rightarrow> u64 \<Rightarrow> (bytes \<times> StakedDataV2_0) list \<Rightarrow> funds \<Rightarrow> u64 \<Rightarrow> eei \<Rightarrow> (staking_error + u64) \<times> eei" where
  "stake_queue_loop s price numNodesToStake [] checked stakedNodes st = (Inr stakedNodes, st)"
| "stake_queue_loop s price numNodesToStake ((key, d) # rest) checked stakedNodes st =
     (if stakedNodes \<ge> numNodesToStake then (Inr stakedNodes, st)
      else case checkValidatorFunds s checked (OwnerAddress d) price st of
             Inl e \<Rightarrow> (Inl e, st)
           | Inr (n, checked) \<Rightarrow>
               if n > 0 then stake_queue_loop s price numNodesToStake rest checked stakedNodes st
               else let d = activeStakingFor s d
                    in case andThen (saveStakingData s key d st) (removeFromWaitingList s key) of
                         (Some e, st) \<Rightarrow> (Inl e, st)
                       | (None, st) \<Rightarrow>
                           stake_queue_loop s price numNodesToStake rest checked (stakedNodes + 1)
                             (Finish (RewardAddress d) (Finish key st)))"

definition stakeNodesFromQueue :: "stakingSC \<Rightarrow> ContractCallInput \<Rightarrow> eei \<Rightarrow> outcome" where
  "stakeNodesFromQueue s args st =
     (if \<not> IsFlagEnabled s StakingV2Flag then fail (Msg ''invalid method to call'' []) st
      else if waiting_list_disabled s then fail (MsgErr [] ErrWaitingListDisabled) st
      else if caller args \<noteq> endOfEpochAccessAddr s
           then fail (Msg ''stake nodes from waiting list can be called by endOfEpochAccess address only'' []) st
      else if length (Arguments args) \<noteq> 1 then fail (Msg ''number of arguments must be equal to 1'' []) st
      else let numNodesToStake = of_nat (big_SetBytes (arg0 args)) :: u64
           in case getFirstElementsFromWaitingList s (- 1) st of
                Inl e \<Rightarrow> fail (MsgErr [] e) st
              | Inr r \<Rightarrow>
                  if length (blsKeys r) = 0 then (Ok, AddReturnMessage (Msg ''no nodes in queue'' []) st)
                  else let price = (if IsFlagEnabled s CorrectLastUnJailedFlag then stakeValue s else minNodePrice s)
                       in case stake_queue_loop s price numNodesToStake (zip (blsKeys r) (stakedDataList r)) Map.empty 0 st of
                            (Inl e, st) \<Rightarrow> fail_or_panic e st
                          | (Inr stakedNodes, st) \<Rightarrow> (Ok, addToStakedNodes s stakedNodes st))"

definition executeOnStakeAtEndOfEpoch :: "stakingSC \<Rightarrow> bytes \<Rightarrow> bytes list \<Rightarrow> bytes \<Rightarrow> eei \<Rightarrow> outcome" where
  "executeOnStakeAtEndOfEpoch s destinationAddress listOfKeys senderAddress st =
     (let unStakeCall = ascii ''unStakeAtEndOfEpoch'' @ concat (map (\<lambda>key. ascii ''@'' @ hex_EncodeToString key) listOfKeys)
      in case ExecuteOnDestContext s destinationAddress senderAddress unStakeCall st of
           (Inl e, st) \<Rightarrow> fail (MsgErr [] e) st
         | (Inr code, st) \<Rightarrow> (code, st))"

fun unstake_all_loop ::
  "stakingSC \<Rightarrow> (bytes \<times> StakedDataV2_0) list \<Rightarrow> (bytes \<times> bytes list) list \<Rightarrow> eei \<Rightarrow> (ReturnCode + (bytes \<times> bytes list) list) \<times> eei" where
  "unstake_all_loop s [] owners st = (Inr owners, st)"
| "unstake_all_loop s ((key, d) # rest) owners st =
     (case doUnStake s key d st of
        (code, st) \<Rightarrow>
          if code \<noteq> Ok then (Inl code, st)
          else unstake_all_loop s rest (add_owner_key owners (OwnerAddress d) key) (SetStorage (createWaitingListKey key) [] st))"

fun notify_owners_loop :: "stakingSC \<Rightarrow> bytes \<Rightarrow> (bytes \<times> bytes list) list \<Rightarrow> eei \<Rightarrow> outcome" where
  "notify_owners_loop s recipient [] st = (Ok, st)"
| "notify_owners_loop s recipient ((owner, ks) # rest) st =
     (if \<not> OnMetachain s owner then notify_owners_loop s recipient rest st
      else case executeOnStakeAtEndOfEpoch s owner ks recipient st of
             (code, st) \<Rightarrow> if code \<noteq> Ok then (code, st) else notify_owners_loop s recipient rest st)"

definition unStakeAllNodesFromQueue :: "stakingSC \<Rightarrow> ContractCallInput \<Rightarrow> eei \<Rightarrow> outcome" where
  "unStakeAllNodesFromQueue s args st =
     (if \<not> IsFlagEnabled s StakingV4Step1Flag then fail (Msg ''invalid method to call'' []) st
      else if caller args \<noteq> endOfEpochAccessAddr s
           then fail (Msg ''stake nodes from waiting list can be called by endOfEpochAccess address only'' []) st
      else if length (Arguments args) \<noteq> 0 then fail (Msg ''number of arguments must be equal to 0'' []) st
      else case getFirstElementsFromWaitingList s (- 1) st of
             Inl e \<Rightarrow> fail (MsgErr [] e) st
           | Inr r \<Rightarrow>
               if length (blsKeys r) = 0 then (Ok, st)
               else case unstake_all_loop s (zip (blsKeys r) (stakedDataList r)) [] st of
                      (Inl code, st) \<Rightarrow> (code, st)
                    | (Inr owners, st) \<Rightarrow>
                        notify_owners_loop s (slice_str (RecipientAddr args)) owners (SetStorage waitingListHeadKey [] st))"

text \<open>The walk that recounts the queue: the index and key it ends with, and whether it met the last jailed element.\<close>

fun fix_loop :: "stakingSC \<Rightarrow> eei \<Rightarrow> WaitingList \<Rightarrow> nat \<Rightarrow> u32 \<Rightarrow> bytes \<Rightarrow> bool \<Rightarrow> staking_error + (u32 \<times> bytes \<times> bool)" where
  "fix_loop s st wl 0 idx nextKey found = Inr (idx, nextKey, found)"
| "fix_loop s st wl (Suc n) idx nextKey found =
     (if length nextKey = 0 then Inr (idx, nextKey, found)
      else case getWaitingListElement s st nextKey of
             Inl e \<Rightarrow> Inl e
           | Inr element \<Rightarrow>
               let found = (found \<or> LastJailedKey wl = nextKey)
               in case getOrCreateRegisteredData s st (BLSPublicKey element) of
                    Inl e \<Rightarrow> Inl e
                  | Inr _ \<Rightarrow>
                      if length (NextKey element) = 0 then Inr (idx, nextKey, found)
                      else fix_loop s st wl n (idx + 1) (go_copy nextKey (NextKey element)) found)"

definition fixWaitingListQueueSize :: "stakingSC \<Rightarrow> ContractCallInput \<Rightarrow> eei \<Rightarrow> outcome" where
  "fixWaitingListQueueSize s args st =
     (if \<not> IsFlagEnabled s CorrectFirstQueuedFlag then fail (Msg ''invalid method to call'' []) st
      else if IsFlagEnabled s StakingV4StartedFlag then fail (MsgErr [] ErrWaitingListDisabled) st
      else if call_value args \<noteq> 0 then fail (Msg ''transaction value must be zero'' []) st
      else case UseGas (gasCostFixWaitingListSize s) st of
             None \<Rightarrow> (OutOfGas, AddReturnMessage (Msg ''insufficient gas'' []) st)
           | Some st \<Rightarrow>
              (case getWaitingListHead s st of
                 Inl e \<Rightarrow> fail (MsgErr [] e) st
               | Inr wl \<Rightarrow>
                   if Length wl \<le> 1 then (Ok, st)
                   else case fix_loop s st wl (unat (Length wl)) 1 (FirstKey wl) (length (LastJailedKey wl) = 0) of
                          Inl e \<Rightarrow> fail (MsgErr [] e) st
                        | Inr (idx, nextKey, found) \<Rightarrow>
                            let wl = wl\<lparr>Length := idx, LastKey := nextKey\<rparr>;
                                wl = (if \<not> found then wl\<lparr>LastJailedKey := []\<rparr> else wl)
                            in finish_with [] (saveWaitingListHead s wl st)))"

definition addMissingNodeToQueue :: "stakingSC \<Rightarrow> ContractCallInput \<Rightarrow> eei \<Rightarrow> outcome" where
  "addMissingNodeToQueue s args st =
     (if \<not> IsFlagEnabled s CorrectFirstQueuedFlag then fail (Msg ''invalid method to call'' []) st
      else if IsFlagEnabled s StakingV4StartedFlag then fail (MsgErr [] ErrWaitingListDisabled) st
      else if call_value args \<noteq> 0 then fail (Msg ''transaction value must be zero'' []) st
      else case UseGas (gasCostFixWaitingListSize s) st of
             None \<Rightarrow> (OutOfGas, AddReturnMessage (Msg ''insufficient gas'' []) st)
           | Some st \<Rightarrow>
               if length (Arguments args) \<noteq> 1 then fail (Msg ''invalid number of arguments'' []) st
               else case getWaitingListElement s st (createWaitingListKey (arg0 args)) of
                      Inl e \<Rightarrow> fail (MsgErr [] e) st
                    | Inr _ \<Rightarrow>
                       (case getFirstElementsFromWaitingList s (- 1) st of
                          Inl e \<Rightarrow> fail (MsgErr [] e) st
                        | Inr r \<Rightarrow>
                            if list_ex (\<lambda>key. key = arg0 args) (blsKeys r) then fail (Msg ''key is in queue, not missing'' []) st
                            else case getWaitingListHead s st of
                                   Inl e \<Rightarrow> fail (MsgErr [] e) st
                                 | Inr wl \<Rightarrow>
                                     let wl = wl\<lparr>Length := Length wl + 1\<rparr>
                                     in if Length wl = 1 then finish_with [] (startWaitingList s wl False (arg0 args) st)
                                        else finish_with [] (addToEndOfTheList s wl (arg0 args) st)))"

section \<open>The dispatcher\<close>

definition dispatch :: "stakingSC \<Rightarrow> ContractCallInput \<Rightarrow> eei \<Rightarrow> outcome" where
  "dispatch s args st =
     (if Function args = SCDeployInitFunctionName s then init s args st
      else if Function args = ''stake'' then stake s args False st
      else if Function args = ''register'' then stake s args True st
      else if Function args = ''unStake'' then unStake s args st
      else if Function args = ''unBond'' then unBond s args st
      else if Function args = ''get'' then get s args st
      else if Function args = ''isStaked'' then isStaked s args st
      else if Function args = ''slash'' then slash s args st
      else if Function args = ''jail'' then jail s args st
      else if Function args = ''unJail'' then unJail s args st
      else if Function args = ''changeRewardAddress'' then changeRewardAddress s args st
      else if Function args = ''changeValidatorKeys'' then changeValidatorKey s args st
      else if Function args = ''switchJailedWithWaiting'' then switchJailedWithWaiting s args st
      else if Function args = ''getQueueIndex'' then getWaitingListIndex s args st
      else if Function args = ''getQueueSize'' then getWaitingListSize s args st
      else if Function args = ''getRewardAddress'' then getRewardAddress s args st
      else if Function args = ''getBLSKeyStatus'' then getBLSKeyStatus s args st
      else if Function args = ''getRemainingUnBondPeriod'' then getRemainingUnbondPeriod s args st
      else if Function args = ''getQueueRegisterNonceAndRewardAddress'' then getWaitingListRegisterNonceAndRewardAddress s args st
      else if Function args = ''updateConfigMinNodes'' then updateConfigMinNodes s args st
      else if Function args = ''setOwnersOnAddresses'' then setOwnersOnAddresses s args st
      else if Function args = ''getOwner'' then getOwner s args st
      else if Function args = ''updateConfigMaxNodes'' then updateConfigMaxNodes s args st
      else if Function args = ''stakeNodesFromQueue'' then stakeNodesFromQueue s args st
      else if Function args = ''unStakeAtEndOfEpoch'' then unStakeAtEndOfEpoch s args st
      else if Function args = ''getTotalNumberOfRegisteredNodes'' then getTotalNumberOfRegisteredNodes s args st
      else if Function args = ''resetLastUnJailedFromQueue'' then resetLastUnJailedFromQueue s args st
      else if Function args = ''cleanAdditionalQueue'' then cleanAdditionalQueue s args st
      else if Function args = ''changeOwnerAndRewardAddress'' then changeOwnerAndRewardAddress s args st
      else if Function args = ''fixWaitingListQueueSize'' then fixWaitingListQueueSize s args st
      else if Function args = ''addMissingNodeToQueue'' then addMissingNodeToQueue s args st
      else if Function args = ''unStakeAllNodesFromQueue'' then unStakeAllNodesFromQueue s args st
      else (UserError, st))"

definition Execute :: "stakingSC \<Rightarrow> ContractCallInput option \<Rightarrow> eei \<Rightarrow> outcome" where
  "Execute s input st =
     (case input of
        None \<Rightarrow> (UserError, st)
      | Some args \<Rightarrow>
          if \<not> CheckIfNil input then (UserError, st)
          else if ESDTTransfers args > 0 then fail (Msg ''cannot transfer ESDT to system SCs'' []) st
          else dispatch s args st)"

end
