(* ===== verification/Staking_State.thy ===== *)
theory Staking_State
  imports Staking_Queue_Props Staking_SC
begin

text \<open>
  The state of the staking contract as data: the queue, the registration of every node and the counters, and what each
  primitive operation of the contract does to them.
\<close>

section \<open>The environment\<close>

text \<open>
  Node keys have a length that differs from the other keys of the storage. The flags are those between the epochs that
  enabled the corrections of the queue and the one that removes the queue.
\<close>

definition staking_env :: "stakingSC \<Rightarrow> nat \<Rightarrow> bool" where
  "staking_env s L \<longleftrightarrow> marshals s \<and> L > 16 \<and> minNumNodes s \<noteq> 0 \<and> walletAddressLen s > 0 \<and>
     IsFlagEnabled s StakeFlag \<and> IsFlagEnabled s StakingV2Flag \<and> IsFlagEnabled s CorrectFirstQueuedFlag \<and>
     IsFlagEnabled s CorrectLastUnJailedFlag \<and> \<not> IsFlagEnabled s StakingV4StartedFlag \<and> \<not> IsFlagEnabled s StakingV4Step1Flag"

lemma env_facts:
  assumes "staking_env s L"
  shows "marshals s" "L > 16" "minNumNodes s \<noteq> 0" "walletAddressLen s > 0" "IsFlagEnabled s StakeFlag" "IsFlagEnabled s StakingV2Flag"
    "IsFlagEnabled s CorrectFirstQueuedFlag" "IsFlagEnabled s CorrectLastUnJailedFlag" "\<not> IsFlagEnabled s StakingV4StartedFlag"
    "\<not> IsFlagEnabled s StakingV4Step1Flag"
  using assms unfolding staking_env_def by blast+

section \<open>Views of the storage\<close>

definition view :: "stakingSC \<Rightarrow> nat \<Rightarrow> eei \<Rightarrow> bytes list \<Rightarrow> bytes list \<Rightarrow> (bytes \<Rightarrow> StakedDataV2_0) \<Rightarrow> StakingNodesConfig \<Rightarrow> bool" where
  "view s L st js ns D c \<longleftrightarrow> queue s L st js ns \<and> (\<forall>k. length k = L \<longrightarrow> getOrCreateRegisteredData s st k = Inr (D k)) \<and>
     getConfig s st = c \<and> MinNumNodes c \<noteq> 0 \<and> store st ownerKey \<noteq> None"

lemma viewD:
  assumes "view s L st js ns D c"
  shows "queue s L st js ns" "length k = L \<Longrightarrow> getOrCreateRegisteredData s st k = Inr (D k)" "getConfig s st = c" "MinNumNodes c \<noteq> 0"
    "store st ownerKey \<noteq> None"
  using assms unfolding view_def by blast+

text \<open>Only the storage counts.\<close>

lemma GetStorage_cong: "store st' = store st \<Longrightarrow> GetStorage st' = GetStorage st"
  by (simp add: GetStorage_def fun_eq_iff)

lemma view_cong:
  assumes "store st' = store st"
  shows "view s L st' js ns D c = view s L st js ns D c"
proof -
  note g = GetStorage_cong [OF assms]
  have "queue s L st' js ns = queue s L st js ns"
    using queue_frame [of s L st js ns st'] queue_frame [of s L st' js ns st] g by auto
  then show ?thesis unfolding view_def getOrCreateRegisteredData_def getConfig_def assms g by simp
qed

lemma store_simps [simp]: "store (AddReturnMessage m st) = store st" "store (Finish v st) = store st"
  by (simp_all add: AddReturnMessage_def Finish_def)

lemma view_simps [simp]:
  "view s L (AddReturnMessage m st) js ns D c = view s L st js ns D c" "view s L (Finish v st) js ns D c = view s L st js ns D c"
  by (rule view_cong, simp)+

lemma store_UseGas: "UseGas g st = Some st' \<Longrightarrow> store st' = store st"
  by (auto simp: UseGas_def split: if_splits)

lemma slash_value: "getOrCreateRegisteredData s st k = Inr d \<Longrightarrow> SlashValue d \<noteq> None"
  by (auto simp: getOrCreateRegisteredData_def Let_def split: if_splits option.splits)

text \<open>Keys of nodes are not keys of the contract.\<close>

lemma owner_keys: "ownerKey \<notin> queue_keys L" "ownerKey \<noteq> nodesConfigKey" "length ownerKey = 5" "length nodesConfigKey = 11" "length waitingListHeadKey = 11"
  by (auto simp: queue_keys_def ownerKey_def nodesConfigKey_def waitingListHeadKey_def createWaitingListKey_def waitingElementPrefix_def ascii_def)

lemma node_key:
  assumes "length k = L" "L > 16"
  shows "k \<noteq> ownerKey" "k \<noteq> nodesConfigKey" "k \<noteq> waitingListHeadKey" "k \<notin> queue_keys L"
  using assms owner_keys node_not_queue [of k L] by auto

text \<open>A change inside the queue keeps the rest.\<close>

lemma view_queue:
  assumes v: "view s L st js ns D c" and L: "L > 16" and q: "queue s L st' js' ns'" and ch: "changed (queue_keys L) st st'"
  shows "view s L st' js' ns' D c"
proof -
  have "getOrCreateRegisteredData s st' k = getOrCreateRegisteredData s st k" if "length k = L" for k
    using changed_Get [OF ch node_key(4) [OF that L]] by (simp add: getOrCreateRegisteredData_def)
  moreover have "getConfig s st' = getConfig s st" using changed_Get [OF ch, of nodesConfigKey] by (simp add: getConfig_def)
  moreover have "store st' ownerKey = store st ownerKey" using ch owner_keys(1) unfolding changed_def by blast
  ultimately show ?thesis using v q unfolding view_def by simp
qed

lemma view_add:
  assumes e: "staking_env s L" and v: "view s L st js ns D c" and k: "length k = L" and room: "length (js @ ns) + 1 < 2 ^ 32 - 1"
    and r: "queue_add k addJailed (js, ns) = (js', ns')"
  obtains st' where "addToWaitingList s k addJailed st = (None, st')" "view s L st' js' ns' D c"
proof -
  have L: "L > 0" using env_facts(2) [OF e] by linarith
  show ?thesis
    using addToWaitingList_refines [OF env_facts(1) [OF e] viewD(1) [OF v] k L env_facts(7) [OF e] room r]
      view_queue [OF v env_facts(2) [OF e]] that by metis
qed

lemma view_remove:
  assumes e: "staking_env s L" and v: "view s L st js ns D c" and k: "length k = L"
  obtains st' where "removeFromWaitingList s k st = (None, st')" "view s L st' (remove1 k js) (remove1 k ns) D c"
proof -
  have L: "L > 0" using env_facts(2) [OF e] by linarith
  have r: "queue_remove k (js, ns) = (remove1 k js, remove1 k ns)" by (simp add: queue_remove_def)
  show ?thesis
    using removeFromWaitingList_refines [OF env_facts(1) [OF e] viewD(1) [OF v] k L env_facts(7,8) [OF e] r]
      view_queue [OF v env_facts(2) [OF e]] that by metis
qed

text \<open>Saving and deleting the data of a node.\<close>

lemma queue_Set:
  assumes "queue s L st js ns" "k \<notin> queue_keys L"
  shows "queue s L (SetStorage k b st) js ns"
  by (rule queue_frame [OF assms(1)]) (use assms(2) in \<open>auto simp: queue_keys_def\<close>)

lemma store_Set [simp]: "store (SetStorage k b st) j = (if j = k then Some b else store st j)"
  by (simp add: SetStorage_def)

lemma view_data:
  assumes v: "view s L st js ns D c" and L: "L > 16" and k: "length k = L"
    and d: "b = [] \<and> d = fresh_data \<or> b \<noteq> [] \<and> UnmarshalStaked s fresh_data b = Some d \<and> SlashValue d \<noteq> None"
  shows "view s L (SetStorage k b st) js ns (D(k := d)) c"
proof -
  note nk = node_key [OF k L]
  have "getOrCreateRegisteredData s (SetStorage k b st) j = Inr ((D(k := d)) j)" if "length j = L" for j
    using d viewD(2) [OF v that] by (auto simp: getOrCreateRegisteredData_def Let_def fresh_data_def)
  moreover have "getConfig s (SetStorage k b st) = getConfig s st" using nk by (simp add: getConfig_def)
  ultimately show ?thesis using v queue_Set [OF viewD(1) [OF v] nk(4)] unfolding view_def by simp
qed

lemma view_save:
  assumes e: "staking_env s L" and v: "view s L st js ns D c" and k: "length k = L"
    and d: "RewardAddress d \<noteq> []" "SlashValue d \<noteq> None"
  obtains st' where "saveStakingData s k d st = (None, st')" "view s L st' js ns (D(k := d)) c"
proof -
  obtain b where b: "MarshalStaked s d = Some b" "\<And>f. UnmarshalStaked s f b = Some d" "b \<noteq> []"
    using marshals_staked [OF env_facts(1) [OF e], of d] d(1) by blast
  show ?thesis
    by (rule that [of "SetStorage k b st"])
      (use b d env_facts(5,6) [OF e] view_data [OF v env_facts(2) [OF e] k, of b d] in \<open>simp_all add: saveStakingData_def save_bytes_def\<close>)
qed

lemma view_delete:
  assumes "staking_env s L" "view s L st js ns D c" "length k = L"
  shows "view s L (SetStorage k [] st) js ns (D(k := fresh_data)) c"
  by (rule view_data [OF assms(2) env_facts(2) [OF assms(1)] assms(3)]) simp

text \<open>The counters.\<close>

lemma view_config:
  assumes e: "staking_env s L" and v: "view s L st js ns D c" and c: "MinNumNodes c' \<noteq> 0"
  shows "view s L (setConfig s c' st) js ns D c'"
proof -
  obtain b where b: "MarshalConfig s c' = Some b" "\<And>f. UnmarshalConfig s f b = Some c'" "b \<noteq> []"
    using marshals_config [OF env_facts(1) [OF e], of c'] c by blast
  have "getOrCreateRegisteredData s (SetStorage nodesConfigKey b st) j = Inr (D j)" if "length j = L" for j
    using viewD(2) [OF v that] node_key(2) [OF that env_facts(2) [OF e]] by (simp add: getOrCreateRegisteredData_def)
  moreover have "getConfig s (SetStorage nodesConfigKey b st) = c'" using b by (simp add: getConfig_def Let_def)
  ultimately show ?thesis using v c b queue_Set [OF viewD(1) [OF v] config_not_queue] unfolding view_def setConfig_def by simp
qed

lemma view_addStaked:
  assumes "staking_env s L" "view s L st js ns D c"
  shows "view s L (addToStakedNodes s v st) js ns D (c\<lparr>StakedNodes := StakedNodes c + v\<rparr>)"
  using view_config [OF assms, of "c\<lparr>StakedNodes := StakedNodes c + v\<rparr>"] viewD(3,4) [OF assms(2)] by (simp add: addToStakedNodes_def)

lemma view_removeStaked:
  assumes "staking_env s L" "view s L st js ns D c" "sint (StakedNodes c) > 0"
  shows "view s L (removeFromStakedNodes s st) js ns D (c\<lparr>StakedNodes := StakedNodes c - 1\<rparr>)"
  using view_config [OF assms(1,2), of "c\<lparr>StakedNodes := StakedNodes c - 1\<rparr>"] viewD(3,4) [OF assms(2)] assms(3)
  by (simp add: removeFromStakedNodes_def)

section \<open>Consistent data\<close>

text \<open>
  The queue has the waiting nodes, no node is staked and waiting, and the counter has the number of staked nodes, up to the
  \<open>m\<close> that a running call still has to add. The number of nodes is at most \<open>n\<close>.
\<close>

definition staked_keys :: "nat \<Rightarrow> (bytes \<Rightarrow> StakedDataV2_0) \<Rightarrow> bytes set" where
  "staked_keys L D = {k. length k = L \<and> Staked (D k)}"

definition good :: "nat \<Rightarrow> nat \<Rightarrow> u64 \<Rightarrow> bytes list \<Rightarrow> bytes list \<Rightarrow> (bytes \<Rightarrow> StakedDataV2_0) \<Rightarrow> StakingNodesConfig \<Rightarrow> bool" where
  "good L n m js ns D c \<longleftrightarrow> distinct (js @ ns) \<and>
     (\<forall>k. length k = L \<longrightarrow> Waiting (D k) = (k \<in> set js \<union> set ns)) \<and>
     (\<forall>k. length k = L \<and> Staked (D k) \<longrightarrow> \<not> Waiting (D k)) \<and>
     (\<forall>k. length k = L \<and> (Staked (D k) \<or> Waiting (D k)) \<longrightarrow> RewardAddress (D k) \<noteq> []) \<and>
     StakedNodes c + m = of_nat (card (staked_keys L D)) \<and>
     length (js @ ns) + card (staked_keys L D) \<le> n \<and> n < 2 ^ 31"

lemma goodD:
  assumes "good L n m js ns D c"
  shows "distinct (js @ ns)" "length k = L \<Longrightarrow> Waiting (D k) = (k \<in> set js \<union> set ns)"
    "length k = L \<Longrightarrow> Staked (D k) \<Longrightarrow> \<not> Waiting (D k)"
    "length k = L \<Longrightarrow> Staked (D k) \<or> Waiting (D k) \<Longrightarrow> RewardAddress (D k) \<noteq> []"
    "StakedNodes c + m = of_nat (card (staked_keys L D))" "length (js @ ns) + card (staked_keys L D) \<le> n" "n < 2 ^ 31"
  using assms unfolding good_def by blast+

lemma finite_staked [simp]: "finite (staked_keys L D)"
  by (rule finite_subset [OF _ finite_lists_length_eq [of UNIV L]]) (auto simp: staked_keys_def)

lemma staked_keys_upd:
  "length k = L \<Longrightarrow> staked_keys L (D(k := d)) = (if Staked d then insert k (staked_keys L D) else staked_keys L D - {k})"
  by (auto simp: staked_keys_def)

lemma good_more: "good L n m js ns D c \<Longrightarrow> n \<le> n' \<Longrightarrow> n' < 2 ^ 31 \<Longrightarrow> good L n' m js ns D c"
  unfolding good_def using le_trans by blast

lemma good_same:
  assumes "good L n m js ns D c" "length k = L" "Staked d = Staked (D k)" "Waiting d = Waiting (D k)"
    "Staked d \<or> Waiting d \<Longrightarrow> RewardAddress d \<noteq> []"
  shows "good L n m js ns (D(k := d)) c"
proof -
  have "staked_keys L (D(k := d)) = staked_keys L D" using assms by (auto simp: staked_keys_def)
  then show ?thesis using assms unfolding good_def by auto
qed

lemma remove1_queue: "distinct (js @ ns) \<Longrightarrow> set (remove1 k js) \<union> set (remove1 k ns) = (set js \<union> set ns) - {k}"
  by auto

lemma length_removed:
  assumes "distinct (js @ ns)"
  shows "length (remove1 k js @ remove1 k ns) + (if k \<in> set js \<union> set ns then 1 else 0) = length (js @ ns)"
proof (cases "k \<in> set js")
  case True
  then have "k \<notin> set ns" "length js > 0" using assms by auto
  then show ?thesis using True by (simp add: length_remove1 remove1_idem)
next
  case False
  then show ?thesis using length_pos_if_in_set [of k ns] by (auto simp: length_remove1 remove1_idem)
qed

text \<open>A node that was not staked is staked: the counter grows now or at the end of the call.\<close>

lemma good_stake:
  assumes g: "good L n m js ns D c" and k: "length k = L" "\<not> Staked (D k)"
    and d: "Staked d" "\<not> Waiting d" "RewardAddress d \<noteq> []" and m: "StakedNodes c' + m' = StakedNodes c + m + 1"
    and n: "n' < 2 ^ 31" "n' = (if Waiting (D k) then n else Suc n)"
  shows "good L n' m' (remove1 k js) (remove1 k ns) (D(k := d)) c'"
proof -
  note g' = goodD [OF g]
  have ns: "k \<notin> staked_keys L D" using k by (simp add: staked_keys_def)
  have c: "card (staked_keys L (D(k := d))) = Suc (card (staked_keys L D))"
    using k(1) d(1) ns by (simp add: staked_keys_upd)
  have s: "set (remove1 k js) \<union> set (remove1 k ns) = (set js \<union> set ns) - {k}" using g'(1) by (rule remove1_queue)
  have dist: "distinct (remove1 k js @ remove1 k ns)" using g'(1) by (auto dest: notin_set_remove1)
  have "length (remove1 k js @ remove1 k ns) + Suc (card (staked_keys L D)) \<le> n'"
    using g'(2) [OF k(1)] g'(6) n(2) length_removed [OF g'(1), of k] by (auto split: if_splits)
  then show ?thesis
    unfolding good_def c s using g' d dist m n(1) by (auto simp: algebra_simps)
qed

lemma good_unstake:
  assumes g: "good L n m js ns D c" and k: "length k = L" "Staked (D k)" and d: "\<not> Staked d" "\<not> Waiting d"
  shows "good L n m js ns (D(k := d)) (c\<lparr>StakedNodes := StakedNodes c - 1\<rparr>)"
proof -
  note g' = goodD [OF g]
  have i: "k \<in> staked_keys L D" using k by (simp add: staked_keys_def)
  have p: "card (staked_keys L D) = Suc (card (staked_keys L (D(k := d))))"
    using card_Suc_Diff1 [OF finite_staked i] d(1) k(1) by (simp add: staked_keys_upd del: card_Diff_insert card_Diff_singleton)
  then have "StakedNodes c - 1 + m = of_nat (card (staked_keys L (D(k := d))))" using g'(5) by (simp add: algebra_simps)
  then show ?thesis
    unfolding good_def using g' d g'(2,3) [OF k(1)] k(2) p by auto
qed

lemma good_wait:
  assumes g: "good L n m js ns D c" and k: "length k = L" "\<not> Staked (D k)" and d: "\<not> Staked d" "Waiting d" "RewardAddress d \<noteq> []"
    and n: "Suc n < 2 ^ 31" and r: "queue_add k addJailed (js, ns) = (js', ns')"
  shows "good L (Suc n) m js' ns' (D(k := d)) c"
proof -
  note g' = goodD [OF g]
  have c: "staked_keys L (D(k := d)) = staked_keys L D" using k d by (auto simp: staked_keys_def)
  have "set js' \<union> set ns' = insert k (set js \<union> set ns)" "distinct (js' @ ns')" "length (js' @ ns') \<le> Suc (length (js @ ns))"
    using r g'(1) by (auto simp: queue_add_def split: if_splits)
  then show ?thesis unfolding good_def c using g' d k n by auto
qed

lemma good_leave:
  assumes g: "good L n m js ns D c" and k: "length k = L" "\<not> Staked (D k)" and d: "\<not> Staked d" "\<not> Waiting d"
  shows "good L n m (remove1 k js) (remove1 k ns) (D(k := d)) c"
proof -
  note g' = goodD [OF g]
  have c: "staked_keys L (D(k := d)) = staked_keys L D" using k d by (auto simp: staked_keys_def)
  have "set (remove1 k js) \<union> set (remove1 k ns) = (set js \<union> set ns) - {k}" using g'(1) by (rule remove1_queue)
  moreover have "distinct (remove1 k js @ remove1 k ns)" using g'(1) by (auto dest: notin_set_remove1)
  moreover have "length (remove1 k js @ remove1 k ns) \<le> length (js @ ns)" by (auto simp: length_remove1)
  ultimately show ?thesis unfolding good_def c using g' d by auto
qed

text \<open>Without a pending part the counter, as the code reads it, is the number of staked nodes.\<close>

lemma staked_counter:
  assumes "good L n 0 js ns D c"
  shows "sint (StakedNodes c) = int (card (staked_keys L D))"
proof -
  have "card (staked_keys L D) < 2 ^ 31" using goodD(6,7) [OF assms] by linarith
  moreover have "StakedNodes c = word_of_int (int (card (staked_keys L D)))" using goodD(5) [OF assms] by simp
  ultimately show ?thesis by (simp only: sint_sbintrunc') (simp add: signed_take_bit_int_eq_self)
qed

lemma staked_positive:
  assumes "good L n 0 js ns D c" "length k = L" "Staked (D k)"
  shows "sint (StakedNodes c) > 0"
proof -
  have "k \<in> staked_keys L D" using assms by (simp add: staked_keys_def)
  then have "card (staked_keys L D) > 0" using finite_staked by (auto simp: card_gt_0_iff)
  then show ?thesis using staked_counter [OF assms(1)] by simp
qed

end
