(* ===== verification/Staking_Inv.thy ===== *)
theory Staking_Inv
  imports Staking_State
begin

text \<open>
  Every call of the staking contract that returns \<open>Ok\<close> keeps the queue, the registrations and the counter of staked
  nodes consistent.
\<close>

definition consistent :: "stakingSC \<Rightarrow> nat \<Rightarrow> nat \<Rightarrow> eei \<Rightarrow> bool" where
  "consistent s L n st \<longleftrightarrow> (\<exists>js ns D c. view s L st js ns D c \<and> good L n 0 js ns D c)"

lemma invI: "view s L st js ns D c \<Longrightarrow> good L n 0 js ns D c \<Longrightarrow> consistent s L n st"
  unfolding consistent_def by blast

lemma invE:
  assumes "consistent s L n st"
  obtains js ns D c where "view s L st js ns D c" "good L n 0 js ns D c"
  using assms unfolding consistent_def by blast

lemma inv_cong:
  assumes "store st' = store st"
  shows "consistent s L n st' = consistent s L n st"
  unfolding consistent_def view_cong [OF assms] ..

lemma inv_more: "consistent s L n st \<Longrightarrow> n \<le> n' \<Longrightarrow> n' < 2 ^ 31 \<Longrightarrow> consistent s L n' st"
  unfolding consistent_def using good_more by blast

lemma fail_Ok [simp]: "fail m st \<noteq> (Ok, st')" "fail m st = (code, st') \<longleftrightarrow> code = UserError \<and> st' = AddReturnMessage m st"
  by (auto simp: fail_def)

lemma finish_with_Ok [simp]: "finish_with t r = (Ok, st') \<longleftrightarrow> r = (None, st')"
  by (auto simp: finish_with_def split: prod.splits option.splits)

section \<open>The parts of the calls\<close>

lemma save_inv:
  assumes e: "staking_env s L" and v: "view s L st js ns D c" and g: "good L n 0 js ns (D(k := d)) c" and k: "length k = L"
    and d: "RewardAddress d \<noteq> []" "SlashValue d \<noteq> None" and r: "saveStakingData s k d st = (None, st')"
  shows "consistent s L n st'"
  using view_save [OF e v k d] r g by (metis invI prod.inject)

text \<open>A change of the registration that touches neither the staked nor the waiting mark.\<close>

lemma update_inv:
  assumes e: "staking_env s L" and i: "consistent s L n st" and k: "length k = L" and d: "getOrCreateRegisteredData s st k = Inr d"
    and d': "Staked d' = Staked d" "Waiting d' = Waiting d" "RewardAddress d' \<noteq> []" "SlashValue d' = SlashValue d"
    and r: "saveStakingData s k d' st = (None, st')"
  shows "consistent s L n st'"
proof -
  obtain js ns D c where v: "view s L st js ns D c" and g: "good L n 0 js ns D c" using i by (rule invE)
  have "D k = d" using viewD(2) [OF v k] d by simp
  then have "good L n 0 js ns (D(k := d')) c" using good_same [OF g k, of d'] d' by simp
  then show ?thesis using save_inv [OF e v _ k d'(3) _ r] slash_value [OF d] d'(4) by simp
qed

lemma processStake_view:
  assumes e: "staking_env s L" and v: "view s L st js ns D c" and g: "good L n 0 js ns D c" and k: "length k = L" and n: "Suc n < 2 ^ 31"
    and d: "Staked d = Staked (D k)" "Waiting d = Waiting (D k)" "RewardAddress d \<noteq> []" "SlashValue d \<noteq> None"
    and r: "processStake s k d addFirst st = (None, d', st')"
  obtains js' ns' c' where "view s L st' js' ns' D c'" "good L (Suc n) 0 js' ns' (D(k := d')) c'" "RewardAddress d' \<noteq> []" "SlashValue d' \<noteq> None"
proof -
  have r1: "processStakeV1 s k d addFirst st = (None, d', st')" using r env_facts(9) [OF e] by (simp add: processStake_def)
  consider "Staked d" | "\<not> Staked d" "\<not> canStake s st" | "\<not> Staked d" "canStake s st" by blast
  then show thesis
  proof cases
    case 1
    then have "d' = d" "st' = st" using r1 by (simp_all add: processStakeV1_def)
    moreover have "good L (Suc n) 0 js ns (D(k := d)) c" using good_more [OF good_same [OF g k], of d] d n by simp
    ultimately show ?thesis using that v d by simp
  next
    case 2
    obtain js' ns' where q: "queue_add k addFirst (js, ns) = (js', ns')" by fastforce
    have room: "length (js @ ns) + 1 < 2 ^ 32 - 1" using goodD(6) [OF g] n by simp
    define st1 where "st1 = AddReturnMessage (Msg ''staking is full key put into waiting list '' [hex_EncodeToString k]) st"
    have v1: "view s L st1 js ns D c" using v by (simp add: st1_def)
    obtain st2 where 2: "addToWaitingList s k addFirst st1 = (None, st2)" "view s L st2 js' ns' D c"
      by (rule view_add [OF e v1 k room q])
    have "d' = d\<lparr>RegisterNonce := CurrentNonce s, Waiting := True\<rparr>" "st' = Finish [3] st2"
      using r1 2 \<open>\<not> Staked d\<close> \<open>\<not> canStake s st\<close> by (simp_all add: processStakeV1_def Let_def flip: st1_def)
    moreover have "good L (Suc n) 0 js' ns' (D(k := d')) c"
      by (rule good_wait [OF g k _ _ _ _ n q]) (use \<open>\<not> Staked d\<close> d calculation in auto)
    ultimately show ?thesis using that 2(2) d by simp
  next
    case 3
    obtain st1 where 1: "removeFromWaitingList s k st = (None, st1)" "view s L st1 (remove1 k js) (remove1 k ns) D c"
      by (rule view_remove [OF e v k])
    have d': "d' = activeStakingFor s (d\<lparr>RegisterNonce := CurrentNonce s\<rparr>)" "st' = addToStakedNodes s 1 st1"
      using r1 1 3 by (simp_all add: processStakeV1_def Let_def)
    let ?c = "c\<lparr>StakedNodes := StakedNodes c + 1\<rparr>" and ?n = "if Waiting (D k) then n else Suc n"
    have "good L ?n 0 (remove1 k js) (remove1 k ns) (D(k := d')) ?c"
      by (rule good_stake [OF g k]) (use 3 d n d' in \<open>auto simp: activeStakingFor_def\<close>)
    then have "good L (Suc n) 0 (remove1 k js) (remove1 k ns) (D(k := d')) ?c" by (rule good_more) (use n in auto)
    then show ?thesis using that view_addStaked [OF e 1(2), of 1] d d' by (simp add: activeStakingFor_def)
  qed
qed

lemma processStake_inv:
  assumes e: "staking_env s L" and v: "view s L st js ns D c" and g: "good L n 0 js ns D c" and k: "length k = L" and n: "Suc n < 2 ^ 31"
    and d: "Staked d = Staked (D k)" "Waiting d = Waiting (D k)" "RewardAddress d \<noteq> []" "SlashValue d \<noteq> None"
    and r: "processStake s k d addFirst st = (None, d', st1)" "saveStakingData s k d' st1 = (None, st')"
  shows "consistent s L (Suc n) st'"
proof -
  obtain js' ns' c' where "view s L st1 js' ns' D c'" "good L (Suc n) 0 js' ns' (D(k := d')) c'" "RewardAddress d' \<noteq> []" "SlashValue d' \<noteq> None"
    by (rule processStake_view [OF e v g k n d r(1)])
  then show ?thesis using save_inv [OF e _ _ k _ _ r(2)] by blast
qed

text \<open>The first waiting node takes a place.\<close>

lemma head_empty:
  assumes "queue s L st js ns" "getWaitingListHead s st = Inr wl"
  shows "Length wl = 0 \<longleftrightarrow> js @ ns = []" "js @ ns \<noteq> [] \<Longrightarrow> FirstKey wl = wkey (hd (js @ ns))"
    "js @ ns \<noteq> [] \<Longrightarrow> \<exists>q m. getWaitingListElement s st (FirstKey wl) = Inr \<lparr>BLSPublicKey = hd (js @ ns), PreviousKey = q, NextKey = m\<rparr>"
proof -
  note q = queueD [OF assms(1)]
  have wl: "wl = head_of js ns" using assms(2) q(4) by simp
  have small: "length (js @ ns) < 2 ^ 32" using q(3) by linarith
  show "Length wl = 0 \<longleftrightarrow> js @ ns = []"
    unfolding wl length_head_of using of_nat_length_neq_0 [OF _ small] by (auto simp del: length_append of_nat_add)
  show f: "FirstKey wl = wkey (hd (js @ ns))" if "js @ ns \<noteq> []" unfolding wl head_of_nonempty [OF that] by simp
  show "\<exists>q m. getWaitingListElement s st (FirstKey wl) = Inr \<lparr>BLSPublicKey = hd (js @ ns), PreviousKey = q, NextKey = m\<rparr>" if "js @ ns \<noteq> []"
    using links_mem [OF q(5), of "hd (js @ ns)"] hd_in_set [OF that] f [OF that] by simp
qed

lemma moveFirst_runs:
  assumes e: "staking_env s L" and v: "view s L st js ns D c" and g: "good L n 0 js ns D c" and x: "js @ ns = x # xs"
  obtains st' where "moveFirstFromWaitingToStaked s st = (Inr True, st')" "length x = L" "\<not> Staked (D x)"
    "view s L st' (remove1 x js) (remove1 x ns) (D(x := activeStakingFor s (D x))) (c\<lparr>StakedNodes := StakedNodes c + 1\<rparr>)"
    "good L n 0 (remove1 x js) (remove1 x ns) (D(x := activeStakingFor s (D x))) (c\<lparr>StakedNodes := StakedNodes c + 1\<rparr>)"
proof -
  note q = viewD(1) [OF v]
  have ne: "js @ ns \<noteq> []" "hd (js @ ns) = x" using x by simp_all
  note h = head_empty [OF q queueD(4) [OF q], unfolded ne(2)]
  have xin: "x \<in> set (js @ ns)" using x by simp
  have lx: "length x = L" using queueD(2) [OF q xin] .
  have xw: "Waiting (D x)" using goodD(2) [OF g lx] xin by simp
  have xs: "\<not> Staked (D x)" using goodD(3) [OF g lx] xw by blast
  obtain p m where el: "getWaitingListElement s st (FirstKey (head_of js ns)) = Inr \<lparr>BLSPublicKey = x, PreviousKey = p, NextKey = m\<rparr>"
    using h(3) [OF ne(1)] by auto
  obtain st1 where 1: "removeFromWaitingList s x st = (None, st1)" "view s L st1 (remove1 x js) (remove1 x ns) D c"
    by (rule view_remove [OF e v lx])
  let ?d = "activeStakingFor s (D x)" and ?c = "c\<lparr>StakedNodes := StakedNodes c + 1\<rparr>"
  have rw: "RewardAddress (D x) \<noteq> []" using goodD(4) [OF g lx] xw by blast
  have sl: "SlashValue (D x) \<noteq> None" using slash_value [OF viewD(2) [OF v lx]] .
  have 2: "view s L (addToStakedNodes s 1 st1) (remove1 x js) (remove1 x ns) D ?c" using view_addStaked [OF e 1(2), of 1] .
  obtain st2 where 3: "saveStakingData s x ?d (addToStakedNodes s 1 st1) = (None, st2)" "view s L st2 (remove1 x js) (remove1 x ns) (D(x := ?d)) ?c"
    using view_save [OF e 2 lx, of ?d] rw sl by (auto simp: activeStakingFor_def)
  have l0: "Length (head_of js ns) \<noteq> 0" using h(1) ne(1) by blast
  have run: "moveFirstFromWaitingToStaked s st = (Inr True, st2)" using queueD(4) [OF q] l0 el 1(1) viewD(2) [OF 1(2) lx] rw xs 3(1)
    by (simp add: moveFirstFromWaitingToStaked_def del: length_head_of)
  have "good L n 0 (remove1 x js) (remove1 x ns) (D(x := ?d)) ?c"
    by (rule good_stake [OF g lx xs]) (use rw xw goodD(7) [OF g] in \<open>auto simp: activeStakingFor_def\<close>)
  then show ?thesis using that [OF run lx xs 3(2)] by blast
qed

lemma moveFirst_view:
  assumes e: "staking_env s L" and v: "view s L st js ns D c" and g: "good L n 0 js ns D c"
    and r: "moveFirstFromWaitingToStaked s st = (Inr b, st')"
  obtains js' ns' D' c' where "view s L st' js' ns' D' c'" "good L n 0 js' ns' D' c'" "\<And>k. length k = L \<Longrightarrow> Staked (D k) \<Longrightarrow> D' k = D k"
proof (cases "js @ ns")
  case Nil
  note q = viewD(1) [OF v]
  have "st' = st" using r head_empty(1) [OF q queueD(4) [OF q]] queueD(4) [OF q] Nil by (simp add: moveFirstFromWaitingToStaked_def)
  then show ?thesis using that v g by blast
next
  case (Cons x xs)
  let ?D = "D(x := activeStakingFor s (D x))" and ?c = "c\<lparr>StakedNodes := StakedNodes c + 1\<rparr>"
  obtain st2 where 1: "moveFirstFromWaitingToStaked s st = (Inr True, st2)" "\<not> Staked (D x)"
      "view s L st2 (remove1 x js) (remove1 x ns) ?D ?c" "good L n 0 (remove1 x js) (remove1 x ns) ?D ?c"
    by (rule moveFirst_runs [OF e v g Cons])
  show ?thesis by (rule that [of "remove1 x js" "remove1 x ns" ?D ?c]) (use 1 r in auto)
qed

lemma tryUnStake_inv:
  assumes e: "staking_env s L" and v: "view s L st js ns D c" and g: "good L n 0 js ns D c" and k: "length k = L" "Staked (D k)"
    and r: "tryUnStake s k (D k) st = (Ok, st')"
  shows "consistent s L n st'"
proof -
  let ?d = "unstaked_data s (D k)"
  have v1: "view s L (removeFromStakedNodes s st) js ns D (c\<lparr>StakedNodes := StakedNodes c - 1\<rparr>)"
    by (rule view_removeStaked [OF e v staked_positive [OF g k]])
  have "good L n 0 js ns (D(k := ?d)) (c\<lparr>StakedNodes := StakedNodes c - 1\<rparr>)"
    by (rule good_unstake [OF g k]) (simp_all add: unstaked_data_def)
  moreover have "RewardAddress ?d \<noteq> []" "SlashValue ?d \<noteq> None"
    using goodD(4) [OF g k(1)] k(2) slash_value [OF viewD(2) [OF v k(1)]] by (simp_all add: unstaked_data_def)
  moreover have "saveStakingData s k ?d (removeFromStakedNodes s st) = (None, st')"
    using r by (simp add: tryUnStake_def doUnStake_def split: if_splits)
  ultimately show ?thesis using save_inv [OF e v1 _ k(1)] by blast
qed

section \<open>The calls on one node\<close>

lemma fresh_good:
  assumes "good L n m js ns D c" "length k = L" "\<not> Staked (D k)" "\<not> Waiting (D k)"
  shows "good L n m js ns (D(k := fresh_data)) c"
  by (rule good_same [OF assms(1,2)]) (use assms in \<open>auto simp: fresh_data_def\<close>)

lemma stake_inv:
  assumes e: "staking_env s L" and i: "consistent s L n st" and n: "Suc n < 2 ^ 31"
    and a: "length (arg0 args) = L" "Arguments args ! 1 \<noteq> []" and r: "stake s args onlyRegister st = (Ok, st')"
  shows "consistent s L (Suc n) st'"
proof -
  obtain js ns D c where v: "view s L st js ns D c" and g: "good L n 0 js ns D c" using i by (rule invE)
  note d = viewD(2) [OF v a(1)]
  define d1 where "d1 = (D (arg0 args))\<lparr>RewardAddress := Arguments args ! 1, OwnerAddress := Arguments args ! 2, StakeValue := stakeValue s\<rparr>"
  have d1: "Staked d1 = Staked (D (arg0 args))" "Waiting d1 = Waiting (D (arg0 args))" "RewardAddress d1 \<noteq> []" "SlashValue d1 \<noteq> None"
    using a(2) slash_value [OF d] by (simp_all add: d1_def)
  show ?thesis
  proof (cases onlyRegister)
    case True
    then have "saveStakingData s (arg0 args) d1 st = (None, st')" using r d by (simp add: stake_def d1_def split: if_splits)
    moreover have "good L (Suc n) 0 js ns (D(arg0 args := d1)) c" using good_more [OF good_same [OF g a(1), of d1]] d1 n by simp
    ultimately show ?thesis using save_inv [OF e v _ a(1) d1(3,4)] by blast
  next
    case False
    then obtain d2 st1 where "processStake s (arg0 args) d1 False st = (None, d2, st1)" "saveStakingData s (arg0 args) d2 st1 = (None, st')"
      using r d by (auto simp: stake_def d1_def split: if_splits prod.splits option.splits)
    then show ?thesis using processStake_inv [OF e v g a(1) n d1] by blast
  qed
qed

lemma unJail_inv:
  assumes e: "staking_env s L" and i: "consistent s L n st" and n: "Suc n < 2 ^ 31"
    and a: "length (arg0 args) = L" and r: "unJail s args st = (Ok, st')"
  shows "consistent s L (Suc n) st'"
proof -
  obtain js ns D c where v: "view s L st js ns D c" and g: "good L n 0 js ns D c" using i by (rule invE)
  note d = viewD(2) [OF v a]
  define d1 where "d1 = (D (arg0 args))\<lparr>JailedRound := - 1, UnJailedNonce := CurrentNonce s, Jailed := False\<rparr>"
  have rw: "RewardAddress (D (arg0 args)) \<noteq> []" using r d env_facts(5) [OF e] by (auto simp: unJail_def split: if_splits)
  have d1: "Staked d1 = Staked (D (arg0 args))" "Waiting d1 = Waiting (D (arg0 args))" "RewardAddress d1 \<noteq> []" "SlashValue d1 \<noteq> None"
    using rw slash_value [OF d] by (simp_all add: d1_def)
  obtain d2 st1 where "processStake s (arg0 args) d1 (NumJailed d1 = 1) st = (None, d2, st1)" "saveStakingData s (arg0 args) d2 st1 = (None, st')"
    using r d env_facts(5) [OF e] by (auto simp: unJail_def d1_def Let_def split: if_splits prod.splits option.splits)
  then show ?thesis using processStake_inv [OF e v g a n d1] by blast
qed

text \<open>A waiting node leaves the queue.\<close>

lemma leave_inv:
  assumes e: "staking_env s L" and v: "view s L st js ns D c" and g: "good L n 0 js ns D c" and k: "length k = L" "\<not> Staked (D k)"
    and d: "\<not> Staked d" "\<not> Waiting d" "RewardAddress d \<noteq> []" "SlashValue d \<noteq> None"
    and r: "removeFromWaitingList s k st = (None, st1)" "saveStakingData s k d st1 = (None, st')"
  shows "consistent s L n st'"
proof -
  have "view s L st1 (remove1 k js) (remove1 k ns) D c" using view_remove [OF e v k(1)] r(1) by (metis prod.inject)
  then show ?thesis using save_inv [OF e _ good_leave [OF g k d(1,2)] k(1) d(3,4) r(2)] by blast
qed

lemma unStake_inv:
  assumes e: "staking_env s L" and i: "consistent s L n st" and a: "length (arg0 args) = L" and r: "unStake s args st = (Ok, st')"
  shows "consistent s L n st'"
proof -
  obtain js ns D c where v: "view s L st js ns D c" and g: "good L n 0 js ns D c" using i by (rule invE)
  note d = viewD(2) [OF v a]
  let ?d = "D (arg0 args)"
  have r1: "unStakeV1 s args st = (Ok, st')" using r env_facts(9) [OF e] by (simp add: unStake_def)
  then have ck: "checkUnStakeArgs s args st = Inr ?d" "RewardAddress ?d \<noteq> []"
    using d by (auto simp: unStakeV1_def checkUnStakeArgs_def split: if_splits)
  consider "\<not> Staked ?d" | "Staked ?d" "tryUnStake s (arg0 args) ?d st = (Ok, st')"
    | b st1 where "Staked ?d" "moveFirstFromWaitingToStaked s st = (Inr b, st1)" "tryUnStake s (arg0 args) ?d st1 = (Ok, st')"
    using r1 ck by (auto simp: unStakeV1_def split: if_splits prod.splits sum.splits)
  then show ?thesis
  proof cases
    case 1
    then obtain st1 where "removeFromWaitingList s (arg0 args) st = (None, st1)" "saveStakingData s (arg0 args) (?d\<lparr>Waiting := False\<rparr>) st1 = (None, st')"
      using r1 ck by (auto simp: unStakeV1_def split: if_splits prod.splits option.splits)
    then show ?thesis using leave_inv [OF e v g a 1, of "?d\<lparr>Waiting := False\<rparr>"] 1 ck(2) slash_value [OF d] by auto
  next
    case 2
    then show ?thesis using tryUnStake_inv [OF e v g a] by blast
  next
    case (3 b st1)
    obtain js' ns' D' c' where m: "view s L st1 js' ns' D' c'" "good L n 0 js' ns' D' c'" "D' (arg0 args) = ?d"
      using moveFirst_view [OF e v g 3(2)] a 3(1) by metis
    then show ?thesis using tryUnStake_inv [OF e m(1,2) a] 3 by simp
  qed
qed

lemma unStakeAtEndOfEpoch_inv:
  assumes e: "staking_env s L" and i: "consistent s L n st" and a: "length (arg0 args) = L" and r: "unStakeAtEndOfEpoch s args st = (Ok, st')"
  shows "consistent s L n st'"
proof -
  obtain js ns D c where v: "view s L st js ns D c" and g: "good L n 0 js ns D c" using i by (rule invE)
  note d = viewD(2) [OF v a]
  let ?d = "D (arg0 args)" and ?d' = "unstaked_data s (D (arg0 args))"
  have d': "\<not> Staked ?d'" "\<not> Waiting ?d'" "SlashValue ?d' \<noteq> None" using slash_value [OF d] by (simp_all add: unstaked_data_def)
  have rw: "RewardAddress ?d' \<noteq> []" using r d by (auto simp: unStakeAtEndOfEpoch_def unstaked_data_def split: if_splits)
  consider "st' = st \<or> (\<exists>m. st' = AddReturnMessage m st)"
    | "Staked ?d" "\<not> Waiting ?d" "saveStakingData s (arg0 args) ?d' (removeFromStakedNodes s st) = (None, st')"
    | st1 where "\<not> Staked ?d" "Waiting ?d" "removeFromWaitingList s (arg0 args) st = (None, st1)" "saveStakingData s (arg0 args) ?d' st1 = (None, st')"
    using r d goodD(3) [OF g a] by (auto simp: unStakeAtEndOfEpoch_def Let_def split: if_splits prod.splits option.splits)
  then show ?thesis
  proof cases
    case 1
    then have "store st' = store st" by auto
    then show ?thesis using inv_cong i by blast
  next
    case 2
    have "view s L (removeFromStakedNodes s st) js ns D (c\<lparr>StakedNodes := StakedNodes c - 1\<rparr>)"
      by (rule view_removeStaked [OF e v staked_positive [OF g a 2(1)]])
    then show ?thesis using save_inv [OF e _ good_unstake [OF g a 2(1) d'(1,2)] a rw d'(3) 2(3)] by blast
  next
    case (3 st1)
    then show ?thesis using leave_inv [OF e v g a 3(1) d'(1,2) rw d'(3)] by blast
  qed
qed

lemma unBond_inv:
  assumes e: "staking_env s L" and i: "consistent s L n st" and a: "length (arg0 args) = L" and r: "unBond s args st = (Ok, st')"
  shows "consistent s L n st'"
proof -
  obtain js ns D c where v: "view s L st js ns D c" and g: "good L n 0 js ns D c" using i by (rule invE)
  have "\<not> Staked (D (arg0 args))" "\<not> Waiting (D (arg0 args))" "st' = SetStorage (arg0 args) [] st"
    using r viewD(2) [OF v a] by (auto simp: unBond_def Let_def split: if_splits)
  then show ?thesis using view_delete [OF e v a] fresh_good [OF g a] invI by blast
qed

lemma switchJailed_inv:
  assumes e: "staking_env s L" and i: "consistent s L n st" and a: "length (arg0 args) = L" and r: "switchJailedWithWaiting s args st = (Ok, st')"
  shows "consistent s L n st'"
proof -
  obtain js ns D c where v: "view s L st js ns D c" and g: "good L n 0 js ns D c" using i by (rule invE)
  note d = viewD(2) [OF v a]
  let ?d = "D (arg0 args)"
  define d1 where "d1 = ?d\<lparr>NumJailed := NumJailed ?d + 1, Jailed := True, JailedNonce := CurrentNonce s\<rparr>"
  define d2 where "d2 = d1\<lparr>Staked := False, UnStakedEpoch := CurrentEpoch s, UnStakedNonce := CurrentNonce s, StakedNonce := - 1\<rparr>"
  have chk: "RewardAddress ?d \<noteq> []" "Staked ?d" using r d by (auto simp: switchJailedWithWaiting_def split: if_splits)
  have nw: "\<not> Waiting ?d" using goodD(3) [OF g a chk(2)] .
  have "GetStorage st (wkey (arg0 args)) = []" using queue_stored [OF viewD(1) [OF v] a] goodD(2) [OF g a] nw by simp
  then have mv: "moveFirstFromWaitingToStakedIfNeeded s (arg0 args) st = moveFirstFromWaitingToStaked s st"
    by (simp add: moveFirstFromWaitingToStakedIfNeeded_def getWaitingListElement_def)
  obtain b st1 where m: "moveFirstFromWaitingToStaked s st = (Inr b, st1)"
    using r d by (auto simp: switchJailedWithWaiting_def mv split: if_splits prod.splits sum.splits)
  define p where "p = (if \<not> b \<and> \<not> IsFlagEnabled s CorrectJailedNotUnStakedEmptyQueueFlag
    then (d1, AddReturnMessage (Msg ''did not switch as nobody in waiting, but jailed'' []) st1) else tryRemoveJailedNodeFromStaked s d1 st1)"
  define d3 st2 where "d3 = fst p" and "st2 = snd p"
  have t: "d3 = d1 \<and> store st2 = store st1 \<or> d3 = d2 \<and> st2 = removeFromStakedNodes s st1" "saveStakingData s (arg0 args) d3 st2 = (None, st')"
  proof -
    show "d3 = d1 \<and> store st2 = store st1 \<or> d3 = d2 \<and> st2 = removeFromStakedNodes s st1"
      by (simp add: d3_def st2_def p_def d2_def tryRemoveJailedNodeFromStaked_def removeAndSetUnstaked_def)
    show "saveStakingData s (arg0 args) d3 st2 = (None, st')"
      using r d m by (auto simp: switchJailedWithWaiting_def mv Let_def case_prod_unfold d3_def st2_def p_def d1_def split: if_splits)
  qed
  obtain js' ns' D' c' where w: "view s L st1 js' ns' D' c'" "good L n 0 js' ns' D' c'" "D' (arg0 args) = ?d"
    using moveFirst_view [OF e v g m] a chk(2) by metis
  have sl: "RewardAddress d3 \<noteq> []" "SlashValue d3 \<noteq> None" using t(1) chk(1) slash_value [OF d] by (auto simp: d1_def d2_def)
  from t(1) show ?thesis
  proof
    assume 1: "d3 = d1 \<and> store st2 = store st1"
    then have "view s L st2 js' ns' D' c'" using w(1) view_cong by blast
    moreover have "good L n 0 js' ns' (D'(arg0 args := d3)) c'"
      by (rule good_same [OF w(2) a]) (use 1 w(3) sl in \<open>auto simp: d1_def\<close>)
    ultimately show ?thesis using save_inv [OF e _ _ a sl t(2)] by blast
  next
    assume 2: "d3 = d2 \<and> st2 = removeFromStakedNodes s st1"
    have st: "Staked (D' (arg0 args))" using w(3) chk(2) by simp
    have "view s L st2 js' ns' D' (c'\<lparr>StakedNodes := StakedNodes c' - 1\<rparr>)"
      using 2 view_removeStaked [OF e w(1) staked_positive [OF w(2) a st]] by simp
    moreover have "good L n 0 js' ns' (D'(arg0 args := d3)) (c'\<lparr>StakedNodes := StakedNodes c' - 1\<rparr>)"
      by (rule good_unstake [OF w(2) a st]) (use 2 nw in \<open>auto simp: d1_def d2_def\<close>)
    ultimately show ?thesis using save_inv [OF e _ _ a sl t(2)] by blast
  qed
qed

section \<open>The calls on several nodes\<close>

lemma jail_loop_inv:
  "staking_env s L \<Longrightarrow> consistent s L n st \<Longrightarrow> (\<And>k. k \<in> set ks \<Longrightarrow> length k = L) \<Longrightarrow> jail_loop s ks st = (Ok, st') \<Longrightarrow> consistent s L n st'"
proof (induction s ks st rule: jail_loop.induct)
  case (2 s key ks st)
  obtain d st1 where d: "getOrCreateRegisteredData s st key = Inr d" "RewardAddress d \<noteq> []"
      "saveStakingData s key (d\<lparr>JailedRound := CurrentRound s, JailedNonce := CurrentNonce s, Jailed := True, NumJailed := NumJailed d + 1\<rparr>) st = (None, st1)"
      "jail_loop s ks st1 = (Ok, st')"
    using "2.prems"(4) by (auto split: sum.splits if_splits prod.splits option.splits)
  have "consistent s L n st1" by (rule update_inv [OF "2.prems"(1,2) _ d(1) _ _ _ _ d(3)]) (use "2.prems"(3) d(2) in auto)
  then show ?case using "2.IH" [OF d(1) _ d(3) [symmetric] _ "2.prems"(1)] "2.prems"(3) d(2,4) by auto
qed simp

lemma rewards_loop_inv:
  "staking_env s L \<Longrightarrow> consistent s L n st \<Longrightarrow> (\<And>k. k \<in> set ks \<Longrightarrow> length k = L) \<Longrightarrow> addr \<noteq> [] \<Longrightarrow>
   rewards_loop s addr ks st = (Ok, st') \<Longrightarrow> consistent s L n st'"
proof (induction ks arbitrary: st)
  case (Cons key ks)
  obtain d where d: "getOrCreateRegisteredData s st key = Inr d" using Cons.prems(5) by (auto split: sum.splits)
  show ?case
  proof (cases "RewardAddress d = []")
    case True
    then show ?thesis using Cons d by simp
  next
    case False
    then obtain st1 where 1: "saveStakingData s key (d\<lparr>RewardAddress := addr\<rparr>) st = (None, st1)" "rewards_loop s addr ks st1 = (Ok, st')"
      using Cons.prems(5) d by (auto split: prod.splits option.splits)
    have "consistent s L n st1" by (rule update_inv [OF Cons.prems(1,2) _ d _ _ _ _ 1(1)]) (use Cons.prems(3,4) in auto)
    then show ?thesis using Cons 1(2) by simp
  qed
qed simp

fun evens :: "'a list \<Rightarrow> 'a list" where
  "evens (x # y # zs) = x # evens zs"
| "evens xs = xs"

lemma owners_loop_inv:
  "staking_env s L \<Longrightarrow> consistent s L n st \<Longrightarrow> (\<And>k. k \<in> set (evens ks) \<Longrightarrow> length k = L) \<Longrightarrow> owners_loop s ks st = (Ok, st') \<Longrightarrow> consistent s L n st'"
proof (induction ks arbitrary: st rule: evens.induct)
  case (1 key addr rest)
  obtain d where d: "getOrCreateRegisteredData s st key = Inr d" using "1.prems"(4) by (auto split: sum.splits)
  show ?case
  proof (cases "RewardAddress d = []")
    case True
    then show ?thesis using 1 d by simp
  next
    case False
    then obtain st1 where s1: "saveStakingData s key (d\<lparr>OwnerAddress := addr\<rparr>) st = (None, st1)" "owners_loop s rest st1 = (Ok, st')"
      using "1.prems"(4) d by (auto split: prod.splits option.splits)
    have "consistent s L n st1" by (rule update_inv [OF "1.prems"(1,2) _ d _ _ _ _ s1(1)]) (use "1.prems"(3) False in auto)
    then show ?thesis using 1 s1(2) by simp
  qed
qed auto

lemma migrate_loop_inv:
  "staking_env s L \<Longrightarrow> consistent s L n st \<Longrightarrow> (\<And>k. k \<in> set ks \<Longrightarrow> length k = L) \<Longrightarrow> addr \<noteq> [] \<Longrightarrow>
   migrate_loop s addr ks st = (Ok, st') \<Longrightarrow> consistent s L n st'"
proof (induction ks arbitrary: st)
  case (Cons key ks)
  obtain d st1 where d: "getOrCreateRegisteredData s st key = Inr d"
      "saveStakingData s key (d\<lparr>OwnerAddress := addr, RewardAddress := addr\<rparr>) st = (None, st1)" "migrate_loop s addr ks st1 = (Ok, st')"
    using Cons.prems(5) by (auto split: sum.splits if_splits prod.splits option.splits)
  have "consistent s L n st1" by (rule update_inv [OF Cons.prems(1,2) _ d(1) _ _ _ _ d(2)]) (use Cons.prems(3,4) in auto)
  then show ?case using Cons d(3) by simp
qed simp

text \<open>The nodes of a list, all of them waiting, with their registrations.\<close>

definition waiting_nodes :: "nat \<Rightarrow> (bytes \<Rightarrow> StakedDataV2_0) \<Rightarrow> (bytes \<times> StakedDataV2_0) list \<Rightarrow> bool" where
  "waiting_nodes L D xs \<longleftrightarrow> distinct (map fst xs) \<and> (\<forall>(k, d) \<in> set xs. length k = L \<and> d = D k \<and> Waiting d)"

lemma waiting_nodes_Cons:
  assumes "waiting_nodes L D ((k, d) # xs)"
  shows "length k = L" "d = D k" "Waiting (D k)" "waiting_nodes L D xs" "waiting_nodes L (D(k := d')) xs"
  using assms unfolding waiting_nodes_def by (auto simp: rev_image_eqI)

lemma waiting_nodes_rev: "waiting_nodes L D (rev xs) = waiting_nodes L D xs"
  by (simp add: waiting_nodes_def flip: rev_map)

lemma stake_queue_loop_view:
  assumes e: "staking_env s L"
  shows "view s L st js ns D c \<Longrightarrow> good L n m js ns D c \<Longrightarrow> waiting_nodes L D xs \<Longrightarrow>
    stake_queue_loop s price num xs checked m st = (Inr m', st') \<Longrightarrow>
    \<exists>js' ns' D'. view s L st' js' ns' D' c \<and> good L n m' js' ns' D' c"
proof (induction xs arbitrary: st js ns D m checked)
  case (Cons x xs)
  obtain k d where x: "x = (k, d)" by fastforce
  note w = waiting_nodes_Cons [OF Cons.prems(3) [unfolded x]]
  note g = goodD [OF Cons.prems(2)]
  show ?case
  proof (cases "num \<le> m")
    case True
    then show ?thesis using Cons.prems x by auto
  next
    case False
    then obtain nn ch where ch: "checkValidatorFunds s checked (OwnerAddress d) price st = Inr (nn, ch)"
      using Cons.prems(4) x by (auto split: sum.splits)
    show ?thesis
    proof (cases "nn > 0")
      case True
      then have "stake_queue_loop s price num xs ch m st = (Inr m', st')" using Cons.prems(4) x False ch by simp
      then show ?thesis by (rule Cons.IH [OF Cons.prems(1,2) w(4)])
    next
      case nn: False
      let ?d = "activeStakingFor s d"
      have ns: "\<not> Staked (D k)" using g(3) [OF w(1)] w(3) by blast
      have d: "RewardAddress ?d \<noteq> []" "SlashValue ?d \<noteq> None" "Staked ?d" "\<not> Waiting ?d"
        using g(4) [OF w(1)] w(2,3) slash_value [OF viewD(2) [OF Cons.prems(1) w(1)]] by (auto simp: activeStakingFor_def)
      obtain st1 where 1: "saveStakingData s k ?d st = (None, st1)" "view s L st1 js ns (D(k := ?d)) c"
        by (rule view_save [OF e Cons.prems(1) w(1) d(1,2)])
      obtain st2 where 2: "removeFromWaitingList s k st1 = (None, st2)" "view s L st2 (remove1 k js) (remove1 k ns) (D(k := ?d)) c"
        by (rule view_remove [OF e 1(2) w(1)])
      define st3 where "st3 = Finish (RewardAddress ?d) (Finish k st2)"
      have v3: "view s L st3 (remove1 k js) (remove1 k ns) (D(k := ?d)) c" using 2(2) by (simp add: st3_def)
      have "good L n (m + 1) (remove1 k js) (remove1 k ns) (D(k := ?d)) c"
        by (rule good_stake [OF Cons.prems(2) w(1) ns d(3,4,1)]) (use g(7) w(3) in auto)
      moreover have "stake_queue_loop s price num xs ch (m + 1) st3 = (Inr m', st')"
        using Cons.prems(4) x False ch nn 1(1) 2(1) by (simp add: Let_def st3_def)
      ultimately show ?thesis using Cons.IH [OF v3 _ w(5)] by blast
    qed
  qed
qed auto

lemma clean_loop_view:
  assumes e: "staking_env s L"
  shows "view s L st js ns D c \<Longrightarrow> good L n 0 js ns D c \<Longrightarrow> waiting_nodes L D xs \<Longrightarrow>
    clean_loop s xs checked owners st = (Inr owners', st') \<Longrightarrow>
    \<exists>js' ns' D'. view s L st' js' ns' D' c \<and> good L n 0 js' ns' D' c"
proof (induction xs arbitrary: st js ns D checked owners)
  case (Cons x xs)
  obtain k d where x: "x = (k, d)" by fastforce
  note w = waiting_nodes_Cons [OF Cons.prems(3) [unfolded x]]
  note g = goodD [OF Cons.prems(2)]
  obtain nn ch where ch: "checkValidatorFunds s checked (OwnerAddress d) (stakeValue s) st = Inr (nn, ch)"
    using Cons.prems(4) x by (auto split: sum.splits)
  show ?case
  proof (cases "nn = 0")
    case True
    then have "clean_loop s xs ch owners st = (Inr owners', st')" using Cons.prems(4) x ch by simp
    then show ?thesis by (rule Cons.IH [OF Cons.prems(1,2) w(4)])
  next
    case nn: False
    let ?d = "unstaked_data s d"
    have ns: "\<not> Staked (D k)" using g(3) [OF w(1)] w(3) by blast
    have d: "RewardAddress ?d \<noteq> []" "SlashValue ?d \<noteq> None" "\<not> Staked ?d" "\<not> Waiting ?d"
      using g(4) [OF w(1)] w(2,3) slash_value [OF viewD(2) [OF Cons.prems(1) w(1)]] by (auto simp: unstaked_data_def)
    obtain st1 where 1: "removeFromWaitingList s k st = (None, st1)" "view s L st1 (remove1 k js) (remove1 k ns) D c"
      by (rule view_remove [OF e Cons.prems(1) w(1)])
    obtain st2 where 2: "saveStakingData s k ?d st1 = (None, st2)" "view s L st2 (remove1 k js) (remove1 k ns) (D(k := ?d)) c"
      by (rule view_save [OF e 1(2) w(1) d(1,2)])
    have "clean_loop s xs (ch(OwnerAddress d \<mapsto> nn - 1)) (add_owner_key owners (OwnerAddress d) k) st2 = (Inr owners', st')"
      using Cons.prems(4) x ch nn 1(1) 2(1) viewD(2) [OF 1(2) w(1)] w(2) by (simp add: Let_def)
    then show ?thesis using Cons.IH [OF 2(2) good_leave [OF Cons.prems(2) w(1) ns d(3,4)] w(5)] by blast
  qed
qed auto

section \<open>The calls on the queue\<close>

text \<open>Reading the whole queue.\<close>

lemma whole_queue:
  assumes v: "view s L st js ns D c" and g: "good L n m js ns D c" and r: "getFirstElementsFromWaitingList s (- 1) st = Inr r"
  shows "blsKeys r = js @ ns" "stakedDataList r = map D (js @ ns)" "waiting_nodes L D (zip (blsKeys r) (stakedDataList r))"
proof -
  note q = queueD [OF viewD(1) [OF v]]
  have D: "getOrCreateRegisteredData s st x = Inr (D x)" if "x \<in> set (js @ ns)" for x using viewD(2) [OF v q(2) [OF that]] .
  have "length (js @ ns) \<le> unat (- 1 :: u32)" using q(3) by (simp add: unsigned_minus_1_eq_mask mask_eq_exp_minus_1)
  then have t: "take (unat (- 1 :: u32)) (js @ ns) = js @ ns" by simp
  show 1: "blsKeys r = js @ ns" "stakedDataList r = map D (js @ ns)"
    using getFirstElements_refines [OF viewD(1) [OF v] D, of "- 1"] r t by (metis sum.inject(2))+
  have "zip (js @ ns) (map D (js @ ns)) = map (\<lambda>k. (k, D k)) (js @ ns)" by (simp only: zip_map2 zip_same_conv_map map_map) simp
  then show "waiting_nodes L D (zip (blsKeys r) (stakedDataList r))"
    unfolding 1 waiting_nodes_def using q(1,2) goodD(2) [OF g] by (auto simp: o_def simp del: map_append)
qed

lemma good_settle: "good L n m js ns D c \<Longrightarrow> good L n 0 js ns D (c\<lparr>StakedNodes := StakedNodes c + m\<rparr>)"
  unfolding good_def by auto

lemma stakeNodesFromQueue_inv:
  assumes e: "staking_env s L" and i: "consistent s L n st" and r: "stakeNodesFromQueue s args st = (Ok, st')"
  shows "consistent s L n st'"
proof -
  obtain js ns D c where v: "view s L st js ns D c" and g: "good L n 0 js ns D c" using i by (rule invE)
  consider "store st' = store st"
    | r1 price num m st1 where "getFirstElementsFromWaitingList s (- 1) st = Inr r1" "st' = addToStakedNodes s m st1"
        "stake_queue_loop s price num (zip (blsKeys r1) (stakedDataList r1)) Map.empty 0 st = (Inr m, st1)"
    using r by (auto simp: stakeNodesFromQueue_def fail_or_panic_def Let_def split: if_splits sum.splits prod.splits)
  then show ?thesis
  proof cases
    case 1
    then show ?thesis using inv_cong i by blast
  next
    case (2 r1 price num m st1)
    obtain js' ns' D' where w: "view s L st1 js' ns' D' c" "good L n m js' ns' D' c"
      using stake_queue_loop_view [OF e v g whole_queue(3) [OF v g 2(1)] 2(3)] by blast
    show ?thesis using invI [OF view_addStaked [OF e w(1), of m] good_settle [OF w(2)]] 2(2) by simp
  qed
qed

lemma store_finish_owner: "store (fold finish_owner owners st) = store st"
proof (induction owners arbitrary: st)
  case (Cons p owners)
  have "store (fold Finish ks st) = store st" for ks st by (induction ks arbitrary: st) simp_all
  then have "store (finish_owner p st) = store st" by (simp add: finish_owner_def)
  then show ?case using Cons by simp
qed simp

lemma cleanAdditionalQueue_inv:
  assumes e: "staking_env s L" and i: "consistent s L n st" and r: "cleanAdditionalQueue s args st = (Ok, st')"
  shows "consistent s L n st'"
proof -
  obtain js ns D c where v: "view s L st js ns D c" and g: "good L n 0 js ns D c" using i by (rule invE)
  consider "store st' = store st"
    | r1 owners st1 where "getFirstElementsFromWaitingList s (- 1) st = Inr r1" "st' = fold finish_owner owners st1"
        "clean_loop s (rev (zip (blsKeys r1) (stakedDataList r1))) Map.empty [] st = (Inr owners, st1)"
    using r by (auto simp: cleanAdditionalQueue_def cleanAdditionalQueueNotEnoughFunds_def fail_or_panic_def split: if_splits sum.splits prod.splits)
  then show ?thesis
  proof cases
    case 1
    then show ?thesis using inv_cong i by blast
  next
    case (2 r1 owners st1)
    have w: "waiting_nodes L D (rev (zip (blsKeys r1) (stakedDataList r1)))" using whole_queue(3) [OF v g 2(1)] waiting_nodes_rev by blast
    have "consistent s L n st1" using clean_loop_view [OF e v g w 2(3)] invI by blast
    then show ?thesis using inv_cong store_finish_owner 2(2) by blast
  qed
qed

text \<open>A new head over the same elements.\<close>

lemma view_head:
  assumes e: "staking_env s L" and v: "view s L st js ns D c" and x: "js' @ ns' = js @ ns" "js @ ns \<noteq> []"
    and r: "saveWaitingListHead s (head_of js' ns') st = (None, st')"
  shows "view s L st' js' ns' D c"
proof -
  note q = queueD [OF viewD(1) [OF v]]
  have "length (js' @ ns') < 2 ^ 32" using q(3) unfolding x by linarith
  then have "Length (head_of js' ns') \<noteq> 0" using of_nat_length_neq_0 [of "js' @ ns'"] x by (simp del: length_append of_nat_add)
  then obtain b where b: "st' = SetStorage waitingListHeadKey b st" "\<And>f. UnmarshalList s f b = Some (head_of js' ns')" "b \<noteq> []"
    using save_head [OF env_facts(1) [OF e]] r by (metis prod.inject)
  have "queue s L st' js' ns'"
  proof (rule queueI)
    show "getWaitingListHead s st' = Inr (head_of js' ns')" using b by simp
    show "links s st' (first_of (js' @ ns') []) (js' @ ns') []" using q(5) b(1) unfolding x by simp
    show "GetStorage st' (wkey k) = []" if "length k = L" "k \<notin> set (js' @ ns')" for k using q(6) that b(1) unfolding x by simp
  qed (use q(1,2,3) x(1) in metis)+
  then show ?thesis using view_queue [OF v env_facts(2) [OF e]] changed_Set [OF changed_refl queue_keys_simps(1)] b(1) by blast
qed

lemma resetLastUnJailed_inv:
  assumes e: "staking_env s L" and i: "consistent s L n st" and r: "resetLastUnJailedFromQueue s args st = (Ok, st')"
  shows "consistent s L n st'"
proof -
  obtain js ns D c where v: "view s L st js ns D c" and g: "good L n 0 js ns D c" using i by (rule invE)
  note q = queueD [OF viewD(1) [OF v]]
  consider "st' = st" | "LastJailedKey (head_of js ns) \<noteq> []" "saveWaitingListHead s ((head_of js ns)\<lparr>LastJailedKey := []\<rparr>) st = (None, st')"
    using r q(4) by (auto simp: resetLastUnJailedFromQueue_def split: if_splits)
  then show ?thesis
  proof cases
    case 2
    then have x: "js @ ns \<noteq> []" by (auto simp: head_of_def empty_list_def split: if_splits)
    have "(head_of js ns)\<lparr>LastJailedKey := []\<rparr> = head_of [] (js @ ns)" using x by (auto simp: head_of_def)
    then have "view s L st' [] (js @ ns) D c" using view_head [OF e v _ x, of "[]" "js @ ns"] 2(2) by simp
    moreover have "good L n 0 [] (js @ ns) D c" using g unfolding good_def by auto
    ultimately show ?thesis by (rule invI)
  qed (use i in simp)
qed

text \<open>The recount of a queue finds what its head says.\<close>

lemma fix_loop_links:
  assumes "links s st p xs []" "xs \<noteq> []" "length xs \<le> m" "\<And>x. x \<in> set xs \<Longrightarrow> \<exists>d. getOrCreateRegisteredData s st x = Inr d" "\<And>x. x \<in> set xs \<Longrightarrow> length x = L"
  shows "fix_loop s st wl m idx (first_of xs []) f =
    Inr (idx + of_nat (length xs - 1), wkey (last xs), f \<or> LastJailedKey wl \<in> wkey ` set xs)"
  using assms
proof (induction m arbitrary: xs p idx f)
  case (Suc m)
  then obtain y ys where xs: "xs = y # ys" by (cases xs) auto
  obtain d where d: "getOrCreateRegisteredData s st y = Inr d" using Suc.prems(4) xs by auto
  show ?case
  proof (cases ys)
    case Nil
    then show ?thesis using Suc.prems(1) xs d by simp
  next
    case (Cons z zs)
    have l: "length z = length y" using Suc.prems(5) xs Cons by simp
    have "fix_loop s st wl (Suc m) idx (first_of xs []) f = fix_loop s st wl m (idx + 1) (first_of ys []) (f \<or> LastJailedKey wl = wkey y)"
      using Suc.prems(1) xs d Cons l by simp
    also have "\<dots> = Inr (idx + 1 + of_nat (length ys - 1), wkey (last ys), (f \<or> LastJailedKey wl = wkey y) \<or> LastJailedKey wl \<in> wkey ` set ys)"
      by (rule Suc.IH) (use Suc.prems xs Cons in auto)
    finally show ?thesis using xs Cons by auto
  qed
qed simp

lemma fixWaitingList_inv:
  assumes e: "staking_env s L" and i: "consistent s L n st" and r: "fixWaitingListQueueSize s args st = (Ok, st')"
  shows "consistent s L n st'"
proof -
  obtain st1 where st1: "UseGas (gasCostFixWaitingListSize s) st = Some st1" using r by (auto simp: fixWaitingListQueueSize_def split: if_splits option.splits)
  have "consistent s L n st1" using inv_cong [OF store_UseGas [OF st1]] i by simp
  then obtain js ns D c where v: "view s L st1 js ns D c" and g: "good L n 0 js ns D c" by (rule invE)
  note q = queueD [OF viewD(1) [OF v]]
  let ?wl = "head_of js ns"
  show ?thesis
  proof (cases "Length ?wl \<le> 1")
    case True
    then have "st' = st1" using r st1 q(4) by (auto simp: fixWaitingListQueueSize_def split: if_splits)
    then show ?thesis using invI [OF v g] by simp
  next
    case False
    have x: "js @ ns \<noteq> []" using False by (auto simp: head_of_def empty_list_def)
    have small: "length (js @ ns) < 2 ^ 32" using q(3) by linarith
    have ul: "unat (Length ?wl) = length (js @ ns)" using small by (simp add: unat_of_nat del: length_append of_nat_add)
    have fl: "fix_loop s st1 ?wl (unat (Length ?wl)) 1 (FirstKey ?wl) (length (LastJailedKey ?wl) = 0) =
        Inr (1 + of_nat (length (js @ ns) - 1), wkey (last (js @ ns)), length (LastJailedKey ?wl) = 0 \<or> LastJailedKey ?wl \<in> wkey ` set (js @ ns))"
      unfolding ul using fix_loop_links [OF q(5) x le_refl, of L ?wl 1] viewD(2) [OF v] q(2) head_of_nonempty [OF x] first_of_nonempty [OF x] by auto
    have len: "(1 :: u32) + of_nat (length (js @ ns) - 1) = Length ?wl"
      using x by (cases "js @ ns") (auto simp: head_of_nonempty [OF x] simp del: length_append of_nat_add)
    have "LastJailedKey ?wl = [] \<or> LastJailedKey ?wl \<in> wkey ` set (js @ ns)"
      unfolding head_of_nonempty [OF x] by (cases js rule: rev_cases) auto
    then have same: "(let wl = ?wl\<lparr>Length := 1 + of_nat (length (js @ ns) - 1), LastKey := wkey (last (js @ ns))\<rparr>;
        wl = (if \<not> (length (LastJailedKey ?wl) = 0 \<or> LastJailedKey ?wl \<in> wkey ` set (js @ ns)) then wl\<lparr>LastJailedKey := []\<rparr> else wl) in wl) = ?wl"
      unfolding len Let_def using x by (auto simp: head_of_nonempty [OF x])
    have "saveWaitingListHead s ?wl st1 = (None, st')"
      using r st1 q(4) False fl same unfolding fixWaitingListQueueSize_def by (simp add: Let_def split: if_splits)
    then show ?thesis using view_head [OF e v refl x] g invI by blast
  qed
qed

lemma addMissing_fails:
  assumes e: "staking_env s L" and i: "consistent s L n st" and a: "length (arg0 args) = L"
  shows "addMissingNodeToQueue s args st \<noteq> (Ok, st')"
proof
  assume r: "addMissingNodeToQueue s args st = (Ok, st')"
  obtain st1 where st1: "UseGas (gasCostFixWaitingListSize s) st = Some st1" using r by (auto simp: addMissingNodeToQueue_def split: if_splits option.splits)
  have "consistent s L n st1" using inv_cong [OF store_UseGas [OF st1]] i by simp
  then obtain js ns D c where v: "view s L st1 js ns D c" and g: "good L n 0 js ns D c" by (rule invE)
  obtain el r1 where el: "getWaitingListElement s st1 (wkey (arg0 args)) = Inr el" "getFirstElementsFromWaitingList s (- 1) st1 = Inr r1"
      "\<not> list_ex (\<lambda>key. key = arg0 args) (blsKeys r1)"
    using r st1 by (auto simp: addMissingNodeToQueue_def split: if_splits sum.splits)
  have "arg0 args \<in> set (js @ ns)" using queue_stored [OF viewD(1) [OF v] a] element_stored(1) [OF el(1)] by blast
  then show False using el(3) whole_queue(1) [OF v g el(2)] by (simp add: list_ex_iff)
qed

section \<open>All calls\<close>

text \<open>The views change nothing in the storage.\<close>

lemma index_loop_store: "index_loop s st key m idx nextKey = (Ok, st') \<Longrightarrow> store st' = store st"
  by (induction m arbitrary: idx nextKey) (auto split: if_splits sum.splits)

lemma register_loop_store: "store (register_loop xs st) = store st"
  by (induction xs st rule: register_loop.induct) simp_all

lemma getStakedData_store: "getStakedDataIfExists s args st = Inr (d, st') \<Longrightarrow> store st' = store st"
  by (auto simp: getStakedDataIfExists_def dest: store_UseGas split: if_splits option.splits sum.splits)

lemma view_calls:
  "get s args st = (Ok, st') \<Longrightarrow> store st' = store st" "isStaked s args st = (Ok, st') \<Longrightarrow> store st' = store st"
  "getWaitingListIndex s args st = (Ok, st') \<Longrightarrow> store st' = store st" "getWaitingListSize s args st = (Ok, st') \<Longrightarrow> store st' = store st"
  "getWaitingListRegisterNonceAndRewardAddress s args st = (Ok, st') \<Longrightarrow> store st' = store st"
  "getTotalNumberOfRegisteredNodes s args st = (Ok, st') \<Longrightarrow> store st' = store st" "getOwner s args st = (Ok, st') \<Longrightarrow> store st' = store st"
  by (auto simp: get_def isStaked_def getWaitingListIndex_def getWaitingListSize_def getWaitingListRegisterNonceAndRewardAddress_def
      getTotalNumberOfRegisteredNodes_def getOwner_def Let_def register_loop_store
      dest: store_UseGas index_loop_store split: if_splits option.splits sum.splits)

lemma view_calls_staked:
  "getRewardAddress s args st = (Ok, st') \<Longrightarrow> store st' = store st" "getBLSKeyStatus s args st = (Ok, st') \<Longrightarrow> store st' = store st"
  "getRemainingUnbondPeriod s args st = (Ok, st') \<Longrightarrow> store st' = store st"
proof -
  have ni: "getStakedDataIfExists s args st \<noteq> Inl (Ok, st')"
    by (auto simp: getStakedDataIfExists_def split: if_splits option.splits sum.splits)
  show "getRewardAddress s args st = (Ok, st') \<Longrightarrow> store st' = store st" "getBLSKeyStatus s args st = (Ok, st') \<Longrightarrow> store st' = store st"
    "getRemainingUnbondPeriod s args st = (Ok, st') \<Longrightarrow> store st' = store st"
    using ni getStakedData_store [of s args st]
    by (auto simp: getRewardAddress_def getBLSKeyStatus_def getRemainingUnbondPeriod_def Let_def split: if_splits sum.splits)
qed

text \<open>The limits of the configuration.\<close>

lemma good_config: "good L n m js ns D c \<Longrightarrow> StakedNodes c' = StakedNodes c \<Longrightarrow> good L n m js ns D c'"
  unfolding good_def by auto

lemma updateConfig_inv:
  assumes e: "staking_env s L" and i: "consistent s L n st"
  shows "updateConfigMinNodes s args st = (Ok, st') \<Longrightarrow> consistent s L n st'" "updateConfigMaxNodes s args st = (Ok, st') \<Longrightarrow> consistent s L n st'"
proof -
  obtain js ns D c where v: "view s L st js ns D c" and g: "good L n 0 js ns D c" using i by (rule invE)
  note c = viewD(3,4) [OF v]
  have k: "consistent s L n (setConfig s c' st1)" if "store st1 = store st" "MinNumNodes c' \<noteq> 0" "StakedNodes c' = StakedNodes c" for c' st1
    using invI [OF view_config [OF e _ that(2)] good_config [OF g that(3)]] v view_cong [OF that(1)] by blast
  have nz: "x \<noteq> 0" if "\<not> sint x \<le> 0" for x :: u64 using that by auto
  show "consistent s L n st'" if "updateConfigMinNodes s args st = (Ok, st')"
    using that c k [of st] nz by (auto simp: updateConfigMinNodes_def Let_def split: if_splits)
  show "consistent s L n st'" if "updateConfigMaxNodes s args st = (Ok, st')"
    using that c k by (auto simp: updateConfigMaxNodes_def Let_def split: if_splits)
qed

text \<open>The arguments that are keys of nodes have the length of such keys, and addresses are not empty.\<close>

definition node_keys :: "ContractCallInput \<Rightarrow> bytes list" where
  "node_keys args =
     (if Function args = ''jail'' then Arguments args
      else if Function args \<in> {''changeRewardAddress'', ''changeOwnerAndRewardAddress''} then tl (Arguments args)
      else if Function args = ''setOwnersOnAddresses'' then evens (Arguments args)
      else if Function args \<in> {''stake'', ''register'', ''unStake'', ''unBond'', ''unJail'', ''switchJailedWithWaiting'',
                ''unStakeAtEndOfEpoch'', ''addMissingNodeToQueue''} then take 1 (Arguments args)
      else [])"

definition call_ok :: "nat \<Rightarrow> ContractCallInput \<Rightarrow> bool" where
  "call_ok L args \<longleftrightarrow> list_all (\<lambda>k. length k = L) (node_keys args) \<and>
     (Function args \<in> {''stake'', ''register''} \<longrightarrow> [] \<notin> set (take 2 (Arguments args))) \<and>
     (Function args = ''changeOwnerAndRewardAddress'' \<longrightarrow> [] \<notin> set (take 1 (Arguments args)))"

lemma call_ok_arg0:
  assumes "call_ok L args" "Arguments args \<noteq> []"
    "Function args \<in> {''stake'', ''register'', ''unStake'', ''unBond'', ''unJail'', ''switchJailedWithWaiting'', ''unStakeAtEndOfEpoch'', ''addMissingNodeToQueue''}"
  shows "length (arg0 args) = L"
  using assms unfolding call_ok_def node_keys_def arg0_def by (cases "Arguments args") auto

lemma has_args:
  "stake s args r st = (Ok, st') \<Longrightarrow> length (Arguments args) \<ge> 3" "unJail s args st = (Ok, st') \<Longrightarrow> IsFlagEnabled s StakeFlag \<Longrightarrow> Arguments args \<noteq> []"
  "unStake s args st = (Ok, st') \<Longrightarrow> Arguments args \<noteq> []" "unBond s args st = (Ok, st') \<Longrightarrow> Arguments args \<noteq> []"
  "switchJailedWithWaiting s args st = (Ok, st') \<Longrightarrow> Arguments args \<noteq> []" "unStakeAtEndOfEpoch s args st = (Ok, st') \<Longrightarrow> Arguments args \<noteq> []"
  "addMissingNodeToQueue s args st = (Ok, st') \<Longrightarrow> Arguments args \<noteq> []"
        apply (auto simp: stake_def unJail_def unBond_def switchJailedWithWaiting_def unStakeAtEndOfEpoch_def split: if_splits)[2]
      apply (auto simp: unStake_def unStakeV1_def unStakeV2_def checkUnStakeArgs_def split: if_splits)[1]
     apply (auto simp: unBond_def split: if_splits)[1]
    apply (auto simp: switchJailedWithWaiting_def split: if_splits)[1]
   apply (auto simp: unStakeAtEndOfEpoch_def split: if_splits)[1]
  apply (auto simp: addMissingNodeToQueue_def split: if_splits option.splits)[1]
  done

lemma if_outE: "(if b then x else y) = z \<Longrightarrow> (b \<Longrightarrow> x = z \<Longrightarrow> P) \<Longrightarrow> (\<not> b \<Longrightarrow> y = z \<Longrightarrow> P) \<Longrightarrow> P"
  by (cases b) simp_all

lemma never_Ok: "(UserError, st) \<noteq> (Ok, st')" "slash s args st \<noteq> (Ok, st')" "changeValidatorKey s args st \<noteq> (Ok, st')"
  "store st ownerKey \<noteq> None \<Longrightarrow> init s args st \<noteq> (Ok, st')"
  "\<not> IsFlagEnabled s StakingV4Step1Flag \<Longrightarrow> unStakeAllNodesFromQueue s args st \<noteq> (Ok, st')"
  by (simp_all add: slash_def changeValidatorKey_def init_def unStakeAllNodesFromQueue_def)

lemma dispatch_consistent:
  assumes e: "staking_env s L" and i: "consistent s L n st" and n: "Suc n < 2 ^ 31" and a: "call_ok L args"
    and r: "dispatch s args st = (Ok, st')"
  shows "consistent s L (Suc n) st'"
proof -
  have keep: "consistent s L (Suc n) st'" if "consistent s L n st'" using inv_more [OF that] n by simp
  have same: "consistent s L (Suc n) st'" if "store st' = store st" using keep inv_cong [OF that] i by simp
  note k0 = call_ok_arg0 [OF a]
  have owner: "store st ownerKey \<noteq> None" using i by (elim invE) (rule viewD(5))
  have all: "length k = L" if "Function args = ''jail''" "k \<in> set (Arguments args)" for k
    using a that by (simp add: call_ok_def node_keys_def list_all_iff)
  have rest: "length k = L" if "Function args \<in> {''changeRewardAddress'', ''changeOwnerAndRewardAddress''}" "k \<in> set (tl (Arguments args))" for k
    using a that by (auto simp: call_ok_def node_keys_def list_all_iff)
  have ev: "length k = L" if "Function args = ''setOwnersOnAddresses''" "k \<in> set (evens (Arguments args))" for k
    using a that by (simp add: call_ok_def node_keys_def list_all_iff)
  have f1: "stake s args b st = (Ok, st') \<Longrightarrow> consistent s L (Suc n) st'" if f: "Function args \<in> {''stake'', ''register''}" for b
  proof -
    assume r: "stake s args b st = (Ok, st')"
    have l: "length (Arguments args) \<ge> 3" by (rule has_args(1) [OF r])
    then have "Arguments args ! 1 \<in> set (take 2 (Arguments args))" by (cases "Arguments args" rule: remdups_adj.cases) auto
    then have "Arguments args ! 1 \<noteq> []" using a f unfolding call_ok_def by metis
    moreover have "Arguments args \<noteq> []" using l by auto
    ultimately show ?thesis using stake_inv [OF e i n _ _ r] k0 f by blast
  qed
  have own: "arg0 args \<noteq> []" if "Function args = ''changeOwnerAndRewardAddress''" "length (Arguments args) \<ge> 2"
    using a that unfolding call_ok_def arg0_def by (cases "Arguments args") auto
  have rw: "arg0 args \<noteq> []" if "length (arg0 args) = walletAddressLen s" using that env_facts(4) [OF e] by auto
  have c1: "consistent s L (Suc n) st'" if "unJail s args st = (Ok, st')" "Function args = ''unJail''"
    using unJail_inv [OF e i n k0 that(1)] has_args(2) [OF that(1) env_facts(5) [OF e]] that(2) by simp
  have c2: "consistent s L (Suc n) st'" if "unStake s args st = (Ok, st')" "Function args = ''unStake''"
    using keep unStake_inv [OF e i k0 that(1)] has_args(3) [OF that(1)] that(2) by simp
  have c3: "consistent s L (Suc n) st'" if "unBond s args st = (Ok, st')" "Function args = ''unBond''"
    using keep unBond_inv [OF e i k0 that(1)] has_args(4) [OF that(1)] that(2) by simp
  have c4: "consistent s L (Suc n) st'" if "switchJailedWithWaiting s args st = (Ok, st')" "Function args = ''switchJailedWithWaiting''"
    using keep switchJailed_inv [OF e i k0 that(1)] has_args(5) [OF that(1)] that(2) by simp
  have c5: "consistent s L (Suc n) st'" if "unStakeAtEndOfEpoch s args st = (Ok, st')" "Function args = ''unStakeAtEndOfEpoch''"
    using keep unStakeAtEndOfEpoch_inv [OF e i k0 that(1)] has_args(6) [OF that(1)] that(2) by simp
  have c6: "consistent s L (Suc n) st'" if "addMissingNodeToQueue s args st = (Ok, st')" "Function args = ''addMissingNodeToQueue''"
    using addMissing_fails [OF e i k0, of st'] has_args(7) [OF that(1)] that by simp
  have c7: "consistent s L (Suc n) st'" if "jail s args st = (Ok, st')" "Function args = ''jail''"
    using keep jail_loop_inv [OF e i all] that by (simp add: jail_def split: if_splits)
  have c8: "consistent s L (Suc n) st'" if "changeRewardAddress s args st = (Ok, st')" "Function args = ''changeRewardAddress''"
    using keep rewards_loop_inv [OF e i rest rw] that by (simp add: changeRewardAddress_def split: if_splits)
  have c9: "consistent s L (Suc n) st'" if "changeOwnerAndRewardAddress s args st = (Ok, st')" "Function args = ''changeOwnerAndRewardAddress''"
    using keep migrate_loop_inv [OF e i rest own] that by (simp add: changeOwnerAndRewardAddress_def split: if_splits)
  have c10: "consistent s L (Suc n) st'" if "setOwnersOnAddresses s args st = (Ok, st')" "Function args = ''setOwnersOnAddresses''"
    using keep owners_loop_inv [OF e i ev] that by (simp add: setOwnersOnAddresses_def split: if_splits)
  have st: "consistent s L (Suc n) st'" if "stake s args b st = (Ok, st')" "Function args = ''stake''" for b using f1 that by simp
  have re: "consistent s L (Suc n) st'" if "stake s args b st = (Ok, st')" "Function args = ''register''" for b using f1 that by simp
  note never = never_Ok(1-3) [THEN notE] never_Ok(4) [OF owner, THEN notE] never_Ok(5) [OF env_facts(10) [OF e], THEN notE]
  note queue_calls = stakeNodesFromQueue_inv [OF e i] cleanAdditionalQueue_inv [OF e i] resetLastUnJailed_inv [OF e i] fixWaitingList_inv [OF e i]
    updateConfig_inv [OF e i]
  from r show ?thesis unfolding dispatch_def
    by (elim if_outE) (rule never st re c1 c2 c3 c4 c5 c6 c7 c8 c9 c10 queue_calls [THEN keep] view_calls [THEN same] view_calls_staked [THEN same], assumption+)+
qed

text \<open>Every call, with the changes of a failed call discarded.\<close>

lemma Execute_consistent:
  assumes "staking_env s L" "consistent s L n st" "Suc n < 2 ^ 31" "call_ok L args" "Execute s (Some args) st = (Ok, st')"
  shows "consistent s L (Suc n) st'"
  using assms dispatch_consistent by (auto simp: Execute_def split: if_splits)

end
