(* ===== verification/Staking_Props.thy ===== *)
theory Staking_Props
  imports Staking_Inv
begin

text \<open>
  The properties of the staking contract: the queue against its specification, and the consistency of the contract in
  every run from its deployment. A small marshalizer shows that the hypotheses can hold.
\<close>

section \<open>Runs\<close>

text \<open>
  Between two calls the block, the flags, the ratings and the other contracts may change, the marshalizer and the
  limits of the contract do not. The host keeps the storage of a call that returns \<open>Ok\<close> and discards it otherwise; output,
  messages and gas are those of the next call.
\<close>

definition same_contract :: "stakingSC \<Rightarrow> stakingSC \<Rightarrow> bool" where
  "same_contract s s' \<longleftrightarrow>
     MarshalStaked s' = MarshalStaked s \<and> UnmarshalStaked s' = UnmarshalStaked s \<and>
     MarshalConfig s' = MarshalConfig s \<and> UnmarshalConfig s' = UnmarshalConfig s \<and>
     MarshalElement s' = MarshalElement s \<and> UnmarshalElement s' = UnmarshalElement s \<and>
     MarshalList s' = MarshalList s \<and> UnmarshalList s' = UnmarshalList s \<and>
     minNumNodes s' = minNumNodes s \<and> maxNumNodes s' = maxNumNodes s"

inductive staking_run :: "stakingSC \<Rightarrow> nat \<Rightarrow> nat \<Rightarrow> eei \<Rightarrow> bool" for s L where
  deployed: "staking_env s L \<Longrightarrow> store st0 = (\<lambda>_. None) \<Longrightarrow> init s args st0 = (Ok, st) \<Longrightarrow> staking_run s L 0 st"
| called: "staking_run s L n st \<Longrightarrow> same_contract s s' \<Longrightarrow> staking_env s' L \<Longrightarrow> call_ok L args \<Longrightarrow> store st0 = store st \<Longrightarrow>
    Execute s' (Some args) st0 = (code, st') \<Longrightarrow> staking_run s L (Suc n) (if code = Ok then st' else st)"

inductive_cases staking_run_called: "staking_run s L (Suc n) st"

lemma consistent_contract:
  assumes "same_contract s s'"
  shows "consistent s' L n st = consistent s L n st"
proof -
  note c = assms [unfolded same_contract_def]
  have el: "getWaitingListElement s' = getWaitingListElement s" "getWaitingListHead s' = getWaitingListHead s"
    by (intro ext, simp add: getWaitingListElement_def getWaitingListHead_def c Let_def)+
  have "links s' st p xs q = links s st p xs q" for p xs q by (induction xs arbitrary: p) (simp_all add: el)
  then have "queue s' L st js ns = queue s L st js ns" for js ns by (simp add: queue_def el)
  moreover have base: "base_config s' = base_config s" by (simp add: base_config_def c)
  have "getOrCreateRegisteredData s' = getOrCreateRegisteredData s" "getConfig s' = getConfig s"
    by (intro ext, simp add: getOrCreateRegisteredData_def getConfig_def base c Let_def split: option.split)+
  ultimately show ?thesis by (simp add: consistent_def view_def)
qed

text \<open>The contract after its deployment.\<close>

lemma nat_Itoa_length: "n < 10 ^ m \<Longrightarrow> m > 0 \<Longrightarrow> length (nat_Itoa n) \<le> m"
proof (induction m arbitrary: n)
  case (Suc m)
  show ?case
  proof (cases "n < 10")
    case False
    then have "n div 10 < 10 ^ m" "m > 0" using Suc.prems by (auto intro: less_mult_imp_div_less ccontr)
    then show ?thesis using Suc.IH [of "n div 10"] False by (subst nat_Itoa.simps) simp
  qed (simp add: nat_Itoa.simps)
qed simp

lemma init_view:
  assumes e: "staking_env s L" and st0: "store st0 = (\<lambda>_. None)" and r: "init s args st0 = (Ok, st)"
  shows "view s L st [] [] (\<lambda>_. fresh_data) (base_config s)"
proof -
  obtain b where b: "MarshalConfig s (base_config s) = Some b" "\<And>f. UnmarshalConfig s f b = Some (base_config s)" "b \<noteq> []"
    using marshals_config [OF env_facts(1) [OF e], of "base_config s"] env_facts(3) [OF e] by (auto simp: base_config_def)
  let ?k = "ascii ''epoch_'' @ nat_Itoa (unat (CurrentEpoch s))"
  have z: "big_Bytes 0 = []" by (simp add: big_Bytes_def nat_Bytes.simps [of 0])
  have st: "st = SetStorage ?k (big_Bytes (stakeValue s)) (SetStorage nodesConfigKey b (SetStorage (caller args) [] (SetStorage ownerKey (caller args) st0)))"
    using r b(1) by (simp add: init_def Let_def setConfig_def z split: if_splits)
  have len: "length ?k \<le> 16"
  proof -
    have "unat (CurrentEpoch s) < 2 ^ LENGTH(32)" by (rule unsigned_less)
    then show ?thesis using nat_Itoa_length [of "unat (CurrentEpoch s)" 10] by (simp add: ascii_def)
  qed
  have ne: "?k \<noteq> waitingListHeadKey" "?k \<noteq> nodesConfigKey" "?k \<noteq> wkey k" "ownerKey \<noteq> waitingListHeadKey" "ownerKey \<noteq> wkey k" for k
    by (simp_all add: waitingListHeadKey_def nodesConfigKey_def ownerKey_def createWaitingListKey_def waitingElementPrefix_def ascii_def)
  have g0: "GetStorage st0 k = []" for k using st0 by (simp add: GetStorage_def)
  have gq: "GetStorage st waitingListHeadKey = []" "GetStorage st (wkey k) = []" for k
    using ne ne(3,5) [THEN not_sym] g0 unfolding st by auto
  have gn: "GetStorage st k = []" if "length k = L" for k
    using node_key [OF that env_facts(2) [OF e]] len that env_facts(2) [OF e] g0 unfolding st by auto
  have "queue s L st [] []"
    by (rule queueI) (use gq in \<open>auto simp: getWaitingListHead_def head_of_def\<close>)
  moreover have "getOrCreateRegisteredData s st k = Inr fresh_data" if "length k = L" for k
    using gn [OF that] by (simp add: getOrCreateRegisteredData_def Let_def fresh_data_def)
  moreover have "getConfig s st = base_config s" using b ne(2) unfolding st by (simp add: getConfig_def Let_def)
  moreover have "store st ownerKey \<noteq> None" unfolding st by simp
  ultimately show ?thesis using env_facts(3) [OF e] unfolding view_def by (simp add: base_config_def)
qed

lemma init_good: "good L 0 0 [] [] (\<lambda>_. fresh_data) (base_config s)"
  by (simp add: good_def staked_keys_def fresh_data_def base_config_def)

lemma run_consistent: "staking_run s L n st \<Longrightarrow> n < 2 ^ 31 \<Longrightarrow> consistent s L n st"
proof (induction rule: staking_run.induct)
  case (deployed st0 args st)
  then show ?case using invI [OF init_view init_good] by blast
next
  case (called n st s' args st0 code st')
  then have i: "consistent s L n st" by simp
  show ?case
  proof (cases "code = Ok")
    case True
    have "consistent s' L n st0" using i consistent_contract [OF called(2)] inv_cong [OF called(5)] by blast
    then have "consistent s' L (Suc n) st'" using Execute_consistent [OF called(3)] called True by blast
    then show ?thesis using consistent_contract [OF called(2)] True by simp
  qed (use inv_more [OF i] called in simp)
qed

section \<open>A marshalizer\<close>

text \<open>Fields are byte strings with a mark in front of every byte and a terminator.\<close>

definition enc_bytes :: "bytes \<Rightarrow> bytes" where
  "enc_bytes b = concat (map (\<lambda>x. [1, x]) b) @ [0]"

fun dec_bytes :: "bytes \<Rightarrow> (bytes \<times> bytes) option" where
  "dec_bytes [] = None"
| "dec_bytes (m # rest) =
     (if m = 0 then Some ([], rest)
      else case rest of [] \<Rightarrow> None | x # rest \<Rightarrow> (case dec_bytes rest of None \<Rightarrow> None | Some (b, r) \<Rightarrow> Some (x # b, r)))"

definition enc_list :: "bytes list \<Rightarrow> bytes" where
  "enc_list xs = concat (map enc_bytes xs)"

fun dec_list :: "nat \<Rightarrow> bytes \<Rightarrow> bytes list option" where
  "dec_list 0 b = Some []"
| "dec_list (Suc n) b =
     (case dec_bytes b of None \<Rightarrow> None | Some (x, r) \<Rightarrow> (case dec_list n r of None \<Rightarrow> None | Some xs \<Rightarrow> Some (x # xs)))"

lemma dec_enc_bytes [simp]: "dec_bytes (enc_bytes b @ r) = Some (b, r)"
  by (induction b) (simp_all add: enc_bytes_def)

lemma dec_enc_list: "dec_list (length xs) (enc_list xs) = Some xs"
  by (induction xs) (simp_all add: enc_list_def)

lemma enc_list_not_Nil: "enc_list (x # xs) \<noteq> []"
  by (simp add: enc_list_def enc_bytes_def)

lemma big_SetBytes_snoc: "big_SetBytes (b @ [x]) = big_SetBytes b * 256 + unat x"
  by (simp add: big_SetBytes_def)

lemma SetBytes_Bytes [simp]: "big_SetBytes (nat_Bytes n) = n"
proof (induction n rule: nat_Bytes.induct)
  case (1 n)
  show ?case
  proof (cases "n = 0")
    case True
    then show ?thesis by (simp add: nat_Bytes.simps [of 0] big_SetBytes_def)
  next
    case False
    then have "big_SetBytes (nat_Bytes n) = n div 256 * 256 + unat (of_nat n :: u8)"
      using 1 nat_Bytes.simps [of n] by (simp add: big_SetBytes_snoc)
    then show ?thesis by (simp add: unat_of_nat)
  qed
qed

definition enc_num :: "'a::len word \<Rightarrow> bytes" where "enc_num w = nat_Bytes (unat w)"
definition dec_num :: "bytes \<Rightarrow> 'a::len word" where "dec_num b = of_nat (big_SetBytes b)"
definition enc_bool :: "bool \<Rightarrow> bytes" where "enc_bool b = (if b then [1] else [])"
definition enc_int :: "int \<Rightarrow> bytes" where "enc_int i = (if i < 0 then 1 else 0) # nat_Bytes (nat \<bar>i\<bar>)"
definition dec_int :: "bytes \<Rightarrow> int" where "dec_int b = (if hd b = 1 then - int (big_SetBytes (tl b)) else int (big_SetBytes (tl b)))"
definition enc_slash :: "int option \<Rightarrow> bytes" where "enc_slash v = (case v of None \<Rightarrow> [] | Some i \<Rightarrow> enc_int i)"
definition dec_slash :: "bytes \<Rightarrow> int option" where "dec_slash b = (if b = [] then None else Some (dec_int b))"

lemma field_simps_rt [simp]: "dec_num (enc_num w) = w" "(enc_bool b \<noteq> []) = b" "dec_int (enc_int i) = i" "dec_slash (enc_slash v) = v"
  by (auto simp: enc_num_def dec_num_def enc_bool_def dec_int_def enc_int_def dec_slash_def enc_slash_def split: option.splits)

definition enc_staked :: "StakedDataV2_0 \<Rightarrow> bytes list" where
  "enc_staked d = [enc_num (RegisterNonce d), enc_num (StakedNonce d), enc_bool (Staked d), enc_num (UnStakedNonce d), enc_num (UnStakedEpoch d),
     RewardAddress d, enc_int (StakeValue d), enc_num (JailedRound d), enc_num (JailedNonce d), enc_num (UnJailedNonce d), enc_bool (Jailed d),
     enc_bool (Waiting d), enc_num (NumJailed d), enc_slash (SlashValue d), OwnerAddress d]"

definition dec_staked :: "bytes list \<Rightarrow> StakedDataV2_0" where
  "dec_staked f = \<lparr>RegisterNonce = dec_num (f ! 0), StakedNonce = dec_num (f ! 1), Staked = (f ! 2 \<noteq> []), UnStakedNonce = dec_num (f ! 3),
     UnStakedEpoch = dec_num (f ! 4), RewardAddress = f ! 5, StakeValue = dec_int (f ! 6), JailedRound = dec_num (f ! 7),
     JailedNonce = dec_num (f ! 8), UnJailedNonce = dec_num (f ! 9), Jailed = (f ! 10 \<noteq> []), Waiting = (f ! 11 \<noteq> []),
     NumJailed = dec_num (f ! 12), SlashValue = dec_slash (f ! 13), OwnerAddress = f ! 14\<rparr>"

definition enc_config :: "StakingNodesConfig \<Rightarrow> bytes list" where
  "enc_config c = [enc_num (MinNumNodes c), enc_num (MaxNumNodes c), enc_num (StakedNodes c), enc_num (JailedNodes c)]"

definition dec_config :: "bytes list \<Rightarrow> StakingNodesConfig" where
  "dec_config f = \<lparr>MinNumNodes = dec_num (f ! 0), MaxNumNodes = dec_num (f ! 1), StakedNodes = dec_num (f ! 2), JailedNodes = dec_num (f ! 3)\<rparr>"

definition sample_sc :: stakingSC where
  "sample_sc = \<lparr>unBondPeriod = 10, unBondPeriodSupernova = 10, stakeAccessAddr = [1], jailAccessAddr = [2], endOfEpochAccessAddr = [3],
     gasCostGet = 1, gasCostFixWaitingListSize = 1, minNumNodes = 1, maxNumNodes = 1, stakeValue = 100, walletAddressLen = 32,
     minNodePrice = 100,
     IsFlagEnabled = (\<lambda>f. f \<noteq> StakingV4StartedFlag \<and> f \<noteq> StakingV4Step1Flag), IsSupernovaRound = (\<lambda>_. False),
     CurrentNonce = 7, CurrentRound = 8, CurrentEpoch = 2, CanUnJail = (\<lambda>_. False), IsBadRating = (\<lambda>_. False), IsValidator = (\<lambda>_. False),
     SCDeployInitFunctionName = ''_init'', IsSmartContractAddress = (\<lambda>_. False), OnMetachain = (\<lambda>_. False),
     GetStorageFromAddress = (\<lambda>_ _. []), ExecuteOnDestContext = (\<lambda>_ _ _ st. (Inr Ok, st)),
     MarshalStaked = (\<lambda>d. Some (enc_list (enc_staked d))), MarshalStakedV1_0 = (\<lambda>_. None), MarshalStakedV1_1 = (\<lambda>_. None),
     UnmarshalStaked = (\<lambda>_ b. map_option dec_staked (dec_list 15 b)),
     MarshalConfig = (\<lambda>c. Some (enc_list (enc_config c))), UnmarshalConfig = (\<lambda>_ b. map_option dec_config (dec_list 4 b)),
     MarshalElement = (\<lambda>e. Some (enc_list [BLSPublicKey e, PreviousKey e, NextKey e])),
     UnmarshalElement = (\<lambda>b. map_option (\<lambda>f. \<lparr>BLSPublicKey = f ! 0, PreviousKey = f ! 1, NextKey = f ! 2\<rparr>) (dec_list 3 b)),
     MarshalList = (\<lambda>l. Some (enc_list [FirstKey l, LastKey l, enc_num (Length l), LastJailedKey l])),
     UnmarshalList = (\<lambda>_ b. map_option (\<lambda>f. \<lparr>FirstKey = f ! 0, LastKey = f ! 1, Length = dec_num (f ! 2), LastJailedKey = f ! 3\<rparr>) (dec_list 4 b)),
     UnmarshalValidator = (\<lambda>_. None)\<rparr>"

lemma dec_list_enc: "length xs = n \<Longrightarrow> dec_list n (enc_list xs) = Some xs"
  using dec_enc_list by blast

lemma sample_marshals: "marshals sample_sc"
proof -
  have "dec_list 15 (enc_list (enc_staked d)) = Some (enc_staked d)" for d by (rule dec_list_enc) (simp add: enc_staked_def)
  moreover have "dec_staked (enc_staked d) = d" for d by (simp add: enc_staked_def dec_staked_def)
  moreover have "dec_list 4 (enc_list (enc_config c)) = Some (enc_config c)" for c by (rule dec_list_enc) (simp add: enc_config_def)
  moreover have "dec_config (enc_config c) = c" for c by (simp add: enc_config_def dec_config_def)
  moreover have "dec_list 3 (enc_list [x, y, z]) = Some [x, y, z]" for x y z by (rule dec_list_enc) simp
  moreover have "dec_list 4 (enc_list [x, y, z, w]) = Some [x, y, z, w]" for x y z w by (rule dec_list_enc) simp
  moreover have "enc_list (enc_staked d) \<noteq> []" "enc_list (enc_config c) \<noteq> []" for d c by (simp_all add: enc_staked_def enc_config_def enc_list_not_Nil)
  ultimately show ?thesis unfolding marshals_def sample_sc_def by (simp add: enc_list_not_Nil del: dec_list.simps)
qed

lemma sample_sc_env: "staking_env sample_sc 17"
  unfolding staking_env_def using sample_marshals by (simp add: sample_sc_def)

section \<open>The queue\<close>

datatype queue_op = Add bytes bool | Remove bytes

fun op_key :: "queue_op \<Rightarrow> bytes" where
  "op_key (Add k _) = k"
| "op_key (Remove k) = k"

fun run_op :: "stakingSC \<Rightarrow> queue_op \<Rightarrow> eei \<Rightarrow> result" where
  "run_op s (Add k addJailed) st = addToWaitingList s k addJailed st"
| "run_op s (Remove k) st = removeFromWaitingList s k st"

fun run_ops :: "stakingSC \<Rightarrow> queue_op list \<Rightarrow> eei \<Rightarrow> result" where
  "run_ops s [] st = (None, st)"
| "run_ops s (p # ops) st = andThen (run_op s p st) (run_ops s ops)"

fun spec_op :: "queue_op \<Rightarrow> bytes list \<times> bytes list \<Rightarrow> bytes list \<times> bytes list" where
  "spec_op (Add k addJailed) q = queue_add k addJailed q"
| "spec_op (Remove k) q = queue_remove k q"

lemma run_op_view:
  assumes e: "staking_env s L" and v: "view s L st js ns D c" and k: "length (op_key p) = L" and room: "length (js @ ns) + 1 < 2 ^ 32 - 1"
    and r: "spec_op p (js, ns) = (js', ns')"
  obtains st' where "run_op s p st = (None, st')" "view s L st' js' ns' D c" "length (js' @ ns') \<le> length (js @ ns) + 1"
proof (cases p)
  case (Add k b)
  have q: "queue_add k b (js, ns) = (js', ns')" and kl: "length k = L" using r k Add by simp_all
  then have "length (js' @ ns') \<le> length (js @ ns) + 1" by (auto simp: queue_add_def split: if_splits)
  then show ?thesis using view_add [OF e v kl room q] that Add by auto
next
  case (Remove k)
  have q: "js' = remove1 k js" "ns' = remove1 k ns" and kl: "length k = L" using r k Remove by (simp_all add: queue_remove_def)
  have "length (js' @ ns') \<le> length (js @ ns) + 1" unfolding q by (auto simp: length_remove1)
  then show ?thesis using view_remove [OF e v kl] that Remove q by auto
qed

text \<open>
  C17: the linked list in the storage of the contract refines the queue. Any sequence of additions and removals of nodes
  succeeds, and afterwards the contract reads, for every number of nodes it asks for, the first nodes of the queue of
  the specification with their registrations: unjailed nodes in their order in front of the others in theirs, a node at
  most once. The marshalizer decodes what it encoded, the flags of the corrections are on, the keys have the
  length of node keys and fewer than 2^32 - 1 nodes are queued.
\<close>

theorem queue_refines:
  assumes e: "staking_env s L" and v: "view s L st js ns D c" and k: "list_all (\<lambda>p. length (op_key p) = L) ops"
    and room: "length (js @ ns) + length ops < 2 ^ 32 - 1" and r: "fold spec_op ops (js, ns) = (js', ns')"
  shows "\<exists>st' r. run_ops s ops st = (None, st') \<and> getFirstElementsFromWaitingList s numNodes st' = Inr r \<and>
    blsKeys r = take (unat numNodes) (js' @ ns') \<and> stakedDataList r = map D (blsKeys r)"
  using v k room r
proof (induction ops arbitrary: st js ns)
  case Nil
  then have v: "view s L st js' ns' D c" by simp
  have D: "getOrCreateRegisteredData s st x = Inr (D x)" if "x \<in> set (js' @ ns')" for x
    using viewD(2) [OF v queueD(2) [OF viewD(1) [OF v] that]] .
  obtain r where "getFirstElementsFromWaitingList s numNodes st = Inr r" "blsKeys r = take (unat numNodes) (js' @ ns')"
      "stakedDataList r = map D (take (unat numNodes) (js' @ ns'))"
    by (rule getFirstElements_refines [OF viewD(1) [OF v] D])
  then show ?case by simp
next
  case (Cons p ops)
  obtain js1 ns1 where q: "spec_op p (js, ns) = (js1, ns1)" by fastforce
  have kp: "length (op_key p) = L" "list_all (\<lambda>p. length (op_key p) = L) ops" and rm: "length (js @ ns) + 1 < 2 ^ 32 - 1" using Cons.prems by auto
  obtain st1 where 1: "run_op s p st = (None, st1)" "view s L st1 js1 ns1 D c" "length (js1 @ ns1) \<le> length (js @ ns) + 1"
    by (rule run_op_view [OF e Cons.prems(1) kp(1) rm q])
  have "length (js1 @ ns1) + length ops < 2 ^ 32 - 1" "fold spec_op ops (js1, ns1) = (js', ns')" using 1(3) Cons.prems(3,4) q by simp_all
  then show ?case using Cons.IH [OF 1(2) kp(2)] 1(1) by simp
qed

definition sample_call :: "string \<Rightarrow> bytes list \<Rightarrow> bytes \<Rightarrow> ContractCallInput" where
  "sample_call f args callerAddr = \<lparr>CallerAddr = Some callerAddr, Arguments = args, CallValue = Some 0, Function = f,
     RecipientAddr = Some [8], ESDTTransfers = 0\<rparr>"

definition sample_fresh :: eei where
  "sample_fresh = \<lparr>store = (\<lambda>_. None), eei_output = [], returnMessage = [], gasRemaining = 0\<rparr>"

definition sample_deployed :: eei where
  "sample_deployed = snd (init sample_sc (sample_call ''_init'' [] [9]) sample_fresh)"

lemma sample_init_runs: "init sample_sc (sample_call ''_init'' [] [9]) sample_fresh = (Ok, sample_deployed)"
  by (simp add: sample_deployed_def init_def sample_fresh_def Let_def)

definition sample_key :: "u8 \<Rightarrow> bytes" where
  "sample_key b = replicate 17 b"

lemma sample_init: "view sample_sc 17 sample_deployed [] [] (\<lambda>_. fresh_data) (base_config sample_sc)"
  by (rule init_view [OF sample_sc_env _ sample_init_runs]) (simp add: sample_fresh_def)

theorem queue_refines_witness:
  "\<exists>st' r. run_ops sample_sc [Add (sample_key 1) False, Add (sample_key 2) False, Add (sample_key 3) True, Remove (sample_key 1)] sample_deployed = (None, st') \<and>
     getFirstElementsFromWaitingList sample_sc 5 st' = Inr r \<and> blsKeys r = [sample_key 3, sample_key 2] \<and>
     stakedDataList r = [fresh_data, fresh_data]"
proof -
  let ?ops = "[Add (sample_key 1) False, Add (sample_key 2) False, Add (sample_key 3) True, Remove (sample_key 1)]"
  have "fold spec_op ?ops ([], []) = ([sample_key 3], [sample_key 2])"
    by (simp add: queue_add_def queue_remove_def sample_key_def)
  from queue_refines [OF sample_sc_env sample_init _ _ this, of 5] obtain st' r where
    "run_ops sample_sc ?ops sample_deployed = (None, st')" "getFirstElementsFromWaitingList sample_sc 5 st' = Inr r"
    "blsKeys r = take (unat (5 :: u32)) ([sample_key 3] @ [sample_key 2])" "stakedDataList r = map (\<lambda>_. fresh_data) (blsKeys r)"
    by (auto simp: sample_key_def)
  then show ?thesis by (intro exI conjI) (assumption, assumption, simp_all)
qed

definition sample_stake :: "u8 \<Rightarrow> eei \<Rightarrow> outcome" where
  "sample_stake b st = Execute sample_sc (Some (sample_call ''stake'' [sample_key b, [5], [6]] [1])) st"

text \<open>Staking a node succeeds: it takes a place if there is one, and goes to the end of the queue otherwise.\<close>

lemma stake_runs:
  assumes e: "staking_env s L" and v: "view s L st js ns D c" and g: "good L n 0 js ns D c" and n: "Suc n < 2 ^ 31"
    and k: "length k = L" "\<not> Staked (D k)" "\<not> isNodeJailedOrWithBadRating s (D k) k"
    and a: "caller args = stakeAccessAddr s" "Arguments args = [k, reward, owner]" "reward \<noteq> []"
    and d: "d = (D k)\<lparr>RewardAddress := reward, OwnerAddress := owner, StakeValue := stakeValue s, RegisterNonce := CurrentNonce s\<rparr>"
    and q: "queue_add k False (js, ns) = (js', ns')"
  obtains st' where "stake s args False st = (Ok, st')"
    "sint (StakedNodes c) < sint (MaxNumNodes c) \<Longrightarrow> view s L st' (remove1 k js) (remove1 k ns) (D(k := activeStakingFor s d)) (c\<lparr>StakedNodes := StakedNodes c + 1\<rparr>)"
    "sint (StakedNodes c) < sint (MaxNumNodes c) \<Longrightarrow> good L (Suc n) 0 (remove1 k js) (remove1 k ns) (D(k := activeStakingFor s d)) (c\<lparr>StakedNodes := StakedNodes c + 1\<rparr>)"
    "\<not> sint (StakedNodes c) < sint (MaxNumNodes c) \<Longrightarrow> view s L st' js' ns' (D(k := d\<lparr>Waiting := True\<rparr>)) c"
    "\<not> sint (StakedNodes c) < sint (MaxNumNodes c) \<Longrightarrow> good L (Suc n) 0 js' ns' (D(k := d\<lparr>Waiting := True\<rparr>)) c"
proof -
  note dk = viewD(2) [OF v k(1)]
  have can: "canStake s st \<longleftrightarrow> sint (StakedNodes c) < sint (MaxNumNodes c)" using viewD(3) [OF v] env_facts(9) [OF e] by (simp add: canStake_def)
  have sl: "SlashValue (D k) \<noteq> None" by (rule slash_value [OF dk])
  have a0: "arg0 args = k" using a(2) by (simp add: arg0_def)
  have start: "stake s args False st = (case processStake s k (d\<lparr>RegisterNonce := RegisterNonce (D k)\<rparr>) False st of
      (Some e, d, st) \<Rightarrow> (UserError, st) | (None, d, st) \<Rightarrow> finish_with ''cannot save staking registered data: error '' (saveStakingData s k d st))"
    unfolding stake_def a0 using a dk k(3) by (simp add: Let_def d)
  have v1: "processStake s k (d\<lparr>RegisterNonce := RegisterNonce (D k)\<rparr>) False st = processStakeV1 s k (d\<lparr>RegisterNonce := RegisterNonce (D k)\<rparr>) False st"
    using env_facts(9) [OF e] by (simp add: processStake_def)
  have dd: "(d\<lparr>RegisterNonce := RegisterNonce (D k)\<rparr>)\<lparr>RegisterNonce := CurrentNonce s\<rparr> = d" "\<not> Staked d" using d k(2) by simp_all
  show thesis
  proof (cases "canStake s st")
    case True
    obtain st1 where 1: "removeFromWaitingList s k st = (None, st1)" "view s L st1 (remove1 k js) (remove1 k ns) D c"
      by (rule view_remove [OF e v k(1)])
    let ?d = "activeStakingFor s d" and ?c = "c\<lparr>StakedNodes := StakedNodes c + 1\<rparr>" and ?n = "if Waiting (D k) then n else Suc n"
    have rd: "RewardAddress ?d \<noteq> []" "SlashValue ?d \<noteq> None" using a(3) sl d by (simp_all add: activeStakingFor_def)
    obtain st2 where 2: "saveStakingData s k ?d (addToStakedNodes s 1 st1) = (None, st2)" "view s L st2 (remove1 k js) (remove1 k ns) (D(k := ?d)) ?c"
      by (rule view_save [OF e view_addStaked [OF e 1(2)] k(1) rd])
    have "good L ?n 0 (remove1 k js) (remove1 k ns) (D(k := ?d)) ?c"
      by (rule good_stake [OF g k(1,2)]) (use rd n in \<open>auto simp: activeStakingFor_def\<close>)
    then have "good L (Suc n) 0 (remove1 k js) (remove1 k ns) (D(k := ?d)) ?c" by (rule good_more) (use n in auto)
    moreover have "stake s args False st = (Ok, st2)" unfolding start v1 processStakeV1_def Let_def dd(1) using dd(2) True 1(1) 2(1) by simp
    ultimately show ?thesis using that 2(2) True can by blast
  next
    case False
    have room: "length (js @ ns) + 1 < 2 ^ 32 - 1" using goodD(6) [OF g] n by simp
    define st0 where "st0 = AddReturnMessage (Msg ''staking is full key put into waiting list '' [hex_EncodeToString k]) st"
    have v0: "view s L st0 js ns D c" using v by (simp add: st0_def)
    obtain st1 where 1: "addToWaitingList s k False st0 = (None, st1)" "view s L st1 js' ns' D c" by (rule view_add [OF e v0 k(1) room q])
    let ?d = "d\<lparr>Waiting := True\<rparr>"
    have rd: "RewardAddress ?d \<noteq> []" "SlashValue ?d \<noteq> None" using a(3) sl d by simp_all
    have vf: "view s L (Finish [3] st1) js' ns' D c" using 1(2) by simp
    obtain st2 where 2: "saveStakingData s k ?d (Finish [3] st1) = (None, st2)" "view s L st2 js' ns' (D(k := ?d)) c"
      by (rule view_save [OF e vf k(1) rd])
    have "good L (Suc n) 0 js' ns' (D(k := ?d)) c" by (rule good_wait [OF g k(1,2) _ _ _ n q]) (use rd dd(2) in auto)
    moreover have "stake s args False st = (Ok, st2)"
      unfolding start v1 processStakeV1_def Let_def dd(1) st0_def [symmetric] using dd(2) False 1(1) 2(1) by simp
    ultimately show ?thesis using that 2(2) False can by blast
  qed
qed

lemma Execute_stake:
  assumes "Function args = ''stake''" "CheckIfNil (Some args)" "ESDTTransfers args = 0" "SCDeployInitFunctionName s \<noteq> ''stake''"
  shows "Execute s (Some args) st = stake s args False st"
  using assms by (simp add: Execute_def dispatch_def)

text \<open>Two nodes stake: the first takes the only place, the second waits.\<close>

definition sample_st1 :: eei where "sample_st1 = snd (sample_stake 1 sample_deployed)"
definition sample_st2 :: eei where "sample_st2 = snd (sample_stake 2 sample_st1)"

definition sample_node :: StakedDataV2_0 where
  "sample_node = fresh_data\<lparr>RewardAddress := [5], OwnerAddress := [6], StakeValue := 100, RegisterNonce := 7\<rparr>"

definition sample_data :: "bytes \<Rightarrow> StakedDataV2_0" where
  "sample_data = (\<lambda>_. fresh_data)(sample_key 1 := activeStakingFor sample_sc sample_node, sample_key 2 := sample_node\<lparr>Waiting := True\<rparr>)"

lemma sample_stake_eq: "sample_stake b st = stake sample_sc (sample_call ''stake'' [sample_key b, [5], [6]] [1]) False st"
  unfolding sample_stake_def by (rule Execute_stake) (simp_all add: sample_call_def CheckIfNil_def sample_sc_def)

lemma sample_sc_keys: "length (sample_key b) = 17" "sample_key a = sample_key b \<longleftrightarrow> a = b"
  by (simp_all add: sample_key_def)

lemma sample_first:
  "sample_stake 1 sample_deployed = (Ok, sample_st1)"
  "view sample_sc 17 sample_st1 [] [] ((\<lambda>_. fresh_data)(sample_key 1 := activeStakingFor sample_sc sample_node)) ((base_config sample_sc)\<lparr>StakedNodes := 1\<rparr>)"
  "good 17 1 0 [] [] ((\<lambda>_. fresh_data)(sample_key 1 := activeStakingFor sample_sc sample_node)) ((base_config sample_sc)\<lparr>StakedNodes := 1\<rparr>)"
proof -
  obtain st' where 1: "stake sample_sc (sample_call ''stake'' [sample_key 1, [5], [6]] [1]) False sample_deployed = (Ok, st')"
    "view sample_sc 17 st' [] [] ((\<lambda>_. fresh_data)(sample_key 1 := activeStakingFor sample_sc sample_node)) ((base_config sample_sc)\<lparr>StakedNodes := 1\<rparr>)"
    "good 17 (Suc 0) 0 [] [] ((\<lambda>_. fresh_data)(sample_key 1 := activeStakingFor sample_sc sample_node)) ((base_config sample_sc)\<lparr>StakedNodes := 1\<rparr>)"
    by (rule stake_runs [OF sample_sc_env sample_init init_good, where k = "sample_key 1" and args = "sample_call ''stake'' [sample_key 1, [5], [6]] [1]"
          and reward = "[5]" and owner = "[6]" and d = sample_node and js' = "[]" and ns' = "[sample_key 1]"])
      (simp_all add: sample_sc_keys sample_node_def sample_call_def caller_def isNodeJailedOrWithBadRating_def sample_sc_def fresh_data_def
        base_config_def queue_add_def)
  then have "st' = sample_st1" by (simp add: sample_st1_def sample_stake_eq)
  then show "sample_stake 1 sample_deployed = (Ok, sample_st1)"
    "view sample_sc 17 sample_st1 [] [] ((\<lambda>_. fresh_data)(sample_key 1 := activeStakingFor sample_sc sample_node)) ((base_config sample_sc)\<lparr>StakedNodes := 1\<rparr>)"
    "good 17 1 0 [] [] ((\<lambda>_. fresh_data)(sample_key 1 := activeStakingFor sample_sc sample_node)) ((base_config sample_sc)\<lparr>StakedNodes := 1\<rparr>)"
    using 1 by (simp_all add: sample_stake_eq)
qed

lemma sample_second:
  "sample_stake 2 sample_st1 = (Ok, sample_st2)"
  "view sample_sc 17 sample_st2 [] [sample_key 2] sample_data ((base_config sample_sc)\<lparr>StakedNodes := 1\<rparr>)"
  "good 17 2 0 [] [sample_key 2] sample_data ((base_config sample_sc)\<lparr>StakedNodes := 1\<rparr>)"
proof -
  obtain st' where 1: "stake sample_sc (sample_call ''stake'' [sample_key 2, [5], [6]] [1]) False sample_st1 = (Ok, st')"
    "view sample_sc 17 st' [] [sample_key 2] sample_data ((base_config sample_sc)\<lparr>StakedNodes := 1\<rparr>)"
    "good 17 (Suc 1) 0 [] [sample_key 2] sample_data ((base_config sample_sc)\<lparr>StakedNodes := 1\<rparr>)"
    by (rule stake_runs [OF sample_sc_env sample_first(2,3), where k = "sample_key 2" and args = "sample_call ''stake'' [sample_key 2, [5], [6]] [1]"
          and reward = "[5]" and owner = "[6]" and d = sample_node and js' = "[]" and ns' = "[sample_key 2]"])
      (simp_all add: sample_sc_keys sample_node_def sample_data_def sample_call_def caller_def isNodeJailedOrWithBadRating_def sample_sc_def
        fresh_data_def base_config_def queue_add_def)
  then have "st' = sample_st2" by (simp add: sample_st2_def sample_stake_eq)
  then show "sample_stake 2 sample_st1 = (Ok, sample_st2)"
    "view sample_sc 17 sample_st2 [] [sample_key 2] sample_data ((base_config sample_sc)\<lparr>StakedNodes := 1\<rparr>)"
    "good 17 2 0 [] [sample_key 2] sample_data ((base_config sample_sc)\<lparr>StakedNodes := 1\<rparr>)"
    using 1 by (simp_all add: sample_stake_eq numeral_2_eq_2)
qed

section \<open>Consistency of the contract\<close>

text \<open>
  C16: the staking contract is consistent after every sequence of fewer than 2^31 calls from its deployment, when in every
  call, the deployment included, the flags for staking v2 and for both corrections of the queue (first queued node, last
  unjailed node) are on and those of staking v4 are off, and the marshalizer has its laws (\<open>staking_env\<close>). The epochs
  before the corrections, which could break the queue, are not covered. The whole queue and the registration of every node can be read; the queue has the waiting nodes, each once; no
  node is both staked and waiting; and the counter of staked nodes is their number. A call may be any function of the
  contract by any caller, with node keys of one length above 16 bytes and reward addresses that are not empty; block, ratings
  and other contracts may change between calls, and failed calls are undone by the host.
\<close>

theorem staking_consistent:
  assumes "staking_run s L n st" "n < 2 ^ 31"
  shows "\<exists>r D. getFirstElementsFromWaitingList s (- 1) st = Inr r \<and> distinct (blsKeys r) \<and>
    (\<forall>k. length k = L \<longrightarrow> getOrCreateRegisteredData s st k = Inr (D k) \<and> (Waiting (D k) \<longleftrightarrow> k \<in> set (blsKeys r)) \<and>
       \<not> (Staked (D k) \<and> Waiting (D k))) \<and>
    sint (StakedNodes (getConfig s st)) = int (card {k. length k = L \<and> Staked (D k)})"
proof -
  obtain js ns D c where v: "view s L st js ns D c" and g: "good L n 0 js ns D c" using run_consistent [OF assms] by (rule invE)
  note q = queueD [OF viewD(1) [OF v]]
  have D: "getOrCreateRegisteredData s st x = Inr (D x)" if "x \<in> set (js @ ns)" for x using viewD(2) [OF v q(2) [OF that]] .
  obtain r where r: "getFirstElementsFromWaitingList s (- 1) st = Inr r"
    using getFirstElements_refines [OF viewD(1) [OF v] D, of "- 1"] by blast
  have k: "blsKeys r = js @ ns" by (rule whole_queue(1) [OF v g r])
  have "sint (StakedNodes (getConfig s st)) = int (card {k. length k = L \<and> Staked (D k)})"
    using staked_counter [OF g] viewD(3) [OF v] by (simp add: staked_keys_def)
  then show ?thesis
    using r k q(1) viewD(2) [OF v] goodD(2,3) [OF g] by (intro exI [of _ r] exI [of _ D]) auto
qed

lemma sample_sc_run: "staking_run sample_sc 17 2 sample_st2"
proof -
  have ok: "call_ok 17 (sample_call ''stake'' [sample_key b, [5], [6]] [1])" for b
    by (simp add: call_ok_def node_keys_def sample_call_def sample_sc_keys) (auto simp: sample_key_def)
  have same: "same_contract sample_sc sample_sc" by (simp add: same_contract_def)
  have 0: "staking_run sample_sc 17 0 sample_deployed"
    by (rule deployed [OF sample_sc_env _ sample_init_runs]) (simp add: sample_fresh_def)
  have 1: "staking_run sample_sc 17 (Suc 0) sample_st1"
    using called [OF 0 same sample_sc_env ok refl sample_first(1) [unfolded sample_stake_def]] by simp
  show ?thesis using called [OF 1 same sample_sc_env ok refl sample_second(1) [unfolded sample_stake_def]] by (simp add: numeral_2_eq_2)
qed

theorem staking_consistent_witness:
  "\<exists>r D. getFirstElementsFromWaitingList sample_sc (- 1) sample_st2 = Inr r \<and> distinct (blsKeys r) \<and>
     getOrCreateRegisteredData sample_sc sample_st2 (sample_key 2) = Inr (D (sample_key 2)) \<and>
     (Waiting (D (sample_key 2)) \<longleftrightarrow> sample_key 2 \<in> set (blsKeys r)) \<and>
     sint (StakedNodes (getConfig sample_sc sample_st2)) = int (card {k. length k = 17 \<and> Staked (D k)})"
  using staking_consistent [OF sample_sc_run] sample_sc_keys(1) [of 2] by fastforce

section \<open>Promotion\<close>

text \<open>
  C18: when a staked node leaves through \<open>unStake\<close>, the first node of the queue takes its place. The conditions: the flags
  are those of C16, the contract is consistent and its queue is not empty, the node is staked and neither jailed nor
  of bad rating, the call comes from the address that may stake with the reward address of the node, the staked nodes
  do not exceed the maximum, and enough of them remain. Then the call succeeds: the first waiting node is staked, the caller's node is not any more, the
  rest of the queue keeps its order, the counter is unchanged and so is the registration of every other node.
\<close>

theorem unstake_promotes:
  assumes e: "staking_env s L" and v: "view s L st js ns D c" and g: "good L n 0 js ns D c" and x: "js @ ns = x # xs"
    and k: "length k = L" "Staked (D k)" "\<not> isNodeJailedOrWithBadRating s (D k) k"
    and a: "caller args = stakeAccessAddr s" "Arguments args = [k, RewardAddress (D k)]"
    and c: "sint (StakedNodes c) \<le> sint (MaxNumNodes c)" "sint (StakedNodes c + 1 - JailedNodes c - MinNumNodes c) > 0"
  shows "\<exists>st' js' ns'. unStake s args st = (Ok, st') \<and> js' @ ns' = xs \<and>
    view s L st' js' ns' (D(x := activeStakingFor s (D x), k := unstaked_data s (D k))) c"
proof -
  let ?D = "D(x := activeStakingFor s (D x))" and ?c = "c\<lparr>StakedNodes := StakedNodes c + 1\<rparr>" and ?d = "unstaked_data s (D k)"
  obtain st1 where 1: "moveFirstFromWaitingToStaked s st = (Inr True, st1)" "length x = L" "\<not> Staked (D x)"
      "view s L st1 (remove1 x js) (remove1 x ns) ?D ?c" "good L n 0 (remove1 x js) (remove1 x ns) ?D ?c"
    by (rule moveFirst_runs [OF e v g x])
  have kx: "?D k = D k" using 1(3) k(2) by auto
  have rw: "RewardAddress ?d \<noteq> []" "SlashValue ?d \<noteq> None"
    using goodD(4) [OF g k(1)] k(2) slash_value [OF viewD(2) [OF v k(1)]] by (simp_all add: unstaked_data_def)
  have pos: "sint (StakedNodes ?c) > 0" using staked_positive [OF 1(5) k(1)] kx k(2) by simp
  have cc: "?c\<lparr>StakedNodes := StakedNodes ?c - 1\<rparr> = c" by simp
  have v2: "view s L (removeFromStakedNodes s st1) (remove1 x js) (remove1 x ns) ?D c" using view_removeStaked [OF e 1(4) pos] unfolding cc .
  obtain st2 where 2: "saveStakingData s k ?d (removeFromStakedNodes s st1) = (None, st2)" "view s L st2 (remove1 x js) (remove1 x ns) (?D(k := ?d)) c"
    by (rule view_save [OF e v2 k(1) rw])
  have "tryUnStake s k (D k) st1 = (Ok, st2)"
    using 2(1) c(2) viewD(3) [OF 1(4)] by (simp add: tryUnStake_def doUnStake_def canUnStake_def numSpareNodes_def)
  moreover have "checkUnStakeArgs s args st = Inr (D k)"
    using a k viewD(2) [OF v k(1)] goodD(4) [OF g k(1)] by (simp add: checkUnStakeArgs_def arg0_def)
  moreover have "canStakeIfOneRemoved s st" using c(1) viewD(3) [OF v] by (simp add: canStakeIfOneRemoved_def)
  ultimately have "unStake s args st = (Ok, st2)"
    using env_facts(9) [OF e] k(2) 1(1) a(2) by (simp add: unStake_def unStakeV1_def arg0_def)
  moreover have "remove1 x js @ remove1 x ns = xs" using removed_lists [OF goodD(1) [OF g], of "[]" x xs] x by simp
  ultimately show ?thesis using 2(2) by blast
qed

theorem unstake_promotes_witness:
  "\<exists>st' js' ns'. unStake sample_sc (sample_call ''unStake'' [sample_key 1, [5]] [1]) sample_st2 = (Ok, st') \<and> js' @ ns' = [] \<and>
     view sample_sc 17 st' js' ns' (sample_data(sample_key 2 := activeStakingFor sample_sc (sample_data (sample_key 2)),
       sample_key 1 := unstaked_data sample_sc (sample_data (sample_key 1)))) ((base_config sample_sc)\<lparr>StakedNodes := 1\<rparr>)"
  by (rule unstake_promotes [OF sample_sc_env sample_second(2,3)])
    (simp_all add: sample_sc_keys sample_data_def sample_node_def activeStakingFor_def isNodeJailedOrWithBadRating_def sample_call_def caller_def
      sample_sc_def base_config_def fresh_data_def)

end
