(* ===== verification/Round_Exclusions.thy ===== *)
theory Round_Exclusions
  imports Prelude
begin

text \<open>
  Rounds a hardfork leaves out: \<open>src/common/roundExclusions.go\<close> (the sorted intervals and the binary
  search in them) and \<open>src/common/recoveryCheckpoint.go\<close> (the round whose headers are fixed by their
  hashes, followed by an excluded interval). The fork detector asks \<open>IsHeaderExcluded\<close> before it uses
  a header. \<open>excluded_rounds\<close> shows that the search finds exactly the rounds of the configured
  intervals, and that the constructor refuses exactly the invalid or overlapping configurations.
\<close>

section \<open>Configuration\<close>

record HardforkRoundExclusionConfig =
  StartRound :: u64
  EndRound :: u64

record HardforkRecoveryHeaderConfig =
  recShardID :: u32
  recHash :: string

record HardforkRecoveryCheckpointConfig =
  recEnabled :: bool
  recRound :: u64
  recHeaders :: "HardforkRecoveryHeaderConfig list"

record hardfork_config =
  HardforkRoundExclusions :: "HardforkRoundExclusionConfig list"
  HardforkRecoveryCheckpoint :: HardforkRecoveryCheckpointConfig

datatype exclusion_error = ErrInvalidHardforkRoundExclusion | ErrOverlappingHardforkRoundExclusions
  | ErrNilRoundExclusionHandler | ErrInvalidRecoveryCheckpoint

abbreviation MetachainShardId :: u32 where
  "MetachainShardId \<equiv> 0xFFFFFFFF"

section \<open>Recovery checkpoint\<close>

text \<open>\<open>headerHashes\<close> is the map from shards to hashes; a nil checkpoint is \<open>None\<close>.\<close>

record RecoveryCheckpoint =
  rcRound :: u64
  ExcludedEnd :: u64
  headerHashes :: "(u32 \<times> bytes) list"

text \<open>\<open>hex.DecodeString\<close>: pairs of hexadecimal digits; an odd length or another character is an error.\<close>

definition fromHexChar :: "char \<Rightarrow> u8 option" where
  "fromHexChar c = (let n = (of_char c :: nat) in
     if 48 \<le> n \<and> n \<le> 57 then Some (of_nat (n - 48))
     else if 97 \<le> n \<and> n \<le> 102 then Some (of_nat (n - 97 + 10))
     else if 65 \<le> n \<and> n \<le> 70 then Some (of_nat (n - 65 + 10))
     else None)"

fun hex_DecodeString :: "string \<Rightarrow> bytes option" where
  "hex_DecodeString [] = Some []"
| "hex_DecodeString [c] = None"
| "hex_DecodeString (a # b # cs) = (case fromHexChar a of None \<Rightarrow> None | Some x \<Rightarrow>
     (case fromHexChar b of None \<Rightarrow> None | Some y \<Rightarrow>
       (case hex_DecodeString cs of None \<Rightarrow> None | Some bs \<Rightarrow> Some ((x * 16 + y) # bs))))"

text \<open>The loop over the intervals: the checkpoint's round is not excluded, the interval that starts
  right after it gives the end of the excluded rounds. \<open>Round + 1\<close> does not wrap, because the round is
  below \<open>math.MaxInt64\<close>.\<close>

fun recovery_excluded_end ::
    "u64 \<Rightarrow> u64 \<Rightarrow> HardforkRoundExclusionConfig list \<Rightarrow> exclusion_error + u64" where
  "recovery_excluded_end round excludedEnd [] = Inr excludedEnd"
| "recovery_excluded_end round excludedEnd (interval # rest) =
     (if StartRound interval \<le> round \<and> round \<le> EndRound interval then Inl ErrInvalidRecoveryCheckpoint
      else recovery_excluded_end round
        (if StartRound interval = round + 1 then EndRound interval else excludedEnd) rest)"

fun recovery_hashes ::
    "(u32 \<times> bytes) list \<Rightarrow> HardforkRecoveryHeaderConfig list \<Rightarrow> exclusion_error + (u32 \<times> bytes) list" where
  "recovery_hashes hashes [] = Inr hashes"
| "recovery_hashes hashes (entry # rest) =
     (if map_of hashes (recShardID entry) \<noteq> None then Inl ErrInvalidRecoveryCheckpoint
      else (case hex_DecodeString (recHash entry) of
          None \<Rightarrow> Inl ErrInvalidRecoveryCheckpoint
        | Some hash \<Rightarrow>
            if length hash \<noteq> 32 then Inl ErrInvalidRecoveryCheckpoint
            else recovery_hashes (hashes @ [(recShardID entry, hash)]) rest))"

definition hash_len :: "(u32 \<times> bytes) list \<Rightarrow> u32 \<Rightarrow> nat" where
  "hash_len hashes shard = (case map_of hashes shard of None \<Rightarrow> 0 | Some hash \<Rightarrow> length hash)"

definition NewRecoveryCheckpoint ::
    "hardfork_config option \<Rightarrow> exclusion_error + RecoveryCheckpoint option" where
  "NewRecoveryCheckpoint cfg = (case cfg of None \<Rightarrow> Inl ErrInvalidRecoveryCheckpoint | Some cfg \<Rightarrow>
     (let checkpoint = HardforkRecoveryCheckpoint cfg; round = recRound checkpoint in
      if \<not> recEnabled checkpoint then Inr None
      else if round = 0 \<or> round > 2 ^ 63 - 2 then Inl ErrInvalidRecoveryCheckpoint
      else (case recovery_excluded_end round 0 (HardforkRoundExclusions cfg) of
          Inl err \<Rightarrow> Inl err
        | Inr excludedEnd \<Rightarrow>
            if excludedEnd < round + 1 then Inl ErrInvalidRecoveryCheckpoint
            else (case recovery_hashes [] (recHeaders checkpoint) of
                Inl err \<Rightarrow> Inl err
              | Inr hashes \<Rightarrow>
                  if length hashes < 2 \<or> hash_len hashes MetachainShardId = 0
                  then Inl ErrInvalidRecoveryCheckpoint
                  else Inr (Some \<lparr>rcRound = round, ExcludedEnd = excludedEnd,
                    headerHashes = hashes\<rparr>)))))"

definition HeaderHash :: "RecoveryCheckpoint option \<Rightarrow> u32 \<Rightarrow> bytes option" where
  "HeaderHash rc shard = (case rc of None \<Rightarrow> None | Some rc \<Rightarrow> map_of (headerHashes rc) shard)"

definition HasAllShards :: "RecoveryCheckpoint option \<Rightarrow> u32 \<Rightarrow> bool" where
  "HasAllShards rc numShards = (case rc of None \<Rightarrow> False | Some rc \<Rightarrow>
     length (headerHashes rc) = unat numShards + 1 \<and>
     (\<forall>k \<in> set [0..<unat numShards]. hash_len (headerHashes rc) (of_nat k) \<noteq> 0) \<and>
     hash_len (headerHashes rc) MetachainShardId \<noteq> 0)"

definition IsDiscarded :: "RecoveryCheckpoint option \<Rightarrow> u64 \<Rightarrow> u32 \<Rightarrow> bytes \<Rightarrow> bool" where
  "IsDiscarded rc round shard hash = (case rc of None \<Rightarrow> False | Some rc \<Rightarrow>
     if round > rcRound rc \<and> round \<le> ExcludedEnd rc then True
     else if round \<noteq> rcRound rc then False
     else (case map_of (headerHashes rc) shard of None \<Rightarrow> True | Some expected \<Rightarrow> expected \<noteq> hash))"

section \<open>Round exclusions\<close>

record roundExclusionHandler =
  intervals :: "HardforkRoundExclusionConfig list"
  checkpoint_of :: "RecoveryCheckpoint option"

text \<open>The loop over the sorted intervals; \<open>prev\<close> is the interval before, \<open>None\<close> at index 0.\<close>

fun check_intervals ::
    "HardforkRoundExclusionConfig option \<Rightarrow> HardforkRoundExclusionConfig list \<Rightarrow> exclusion_error option" where
  "check_intervals prev [] = None"
| "check_intervals prev (interval # rest) =
     (if StartRound interval > EndRound interval then Some ErrInvalidHardforkRoundExclusion
      else if (case prev of None \<Rightarrow> False | Some p \<Rightarrow> StartRound interval \<le> EndRound p)
      then Some ErrOverlappingHardforkRoundExclusions
      else check_intervals (Some interval) rest)"

definition NewRoundExclusionHandler ::
    "HardforkRoundExclusionConfig list \<Rightarrow> exclusion_error + roundExclusionHandler" where
  "NewRoundExclusionHandler ivs =
     (let ordered = sort_Slice (\<lambda>a b. StartRound a < StartRound b) ivs in
      case check_intervals None ordered of
        Some err \<Rightarrow> Inl err
      | None \<Rightarrow> Inr \<lparr>intervals = ordered, checkpoint_of = None\<rparr>)"

definition NewConfiguredRoundExclusionHandler ::
    "hardfork_config option \<Rightarrow> exclusion_error + roundExclusionHandler" where
  "NewConfiguredRoundExclusionHandler cfg = (case cfg of
       None \<Rightarrow> Inl ErrInvalidRecoveryCheckpoint
     | Some c \<Rightarrow> (case NewRoundExclusionHandler (HardforkRoundExclusions c) of
           Inl err \<Rightarrow> Inl err
         | Inr handler \<Rightarrow> (case NewRecoveryCheckpoint cfg of
               Inl err \<Rightarrow> Inl err
             | Inr checkpoint \<Rightarrow> Inr (handler\<lparr>checkpoint_of := checkpoint\<rparr>))))"

text \<open>The optional handlers of a constructor; a nil handler is \<open>None\<close>.\<close>

definition ResolveRoundExclusionHandler ::
    "roundExclusionHandler option list \<Rightarrow> exclusion_error + roundExclusionHandler" where
  "ResolveRoundExclusionHandler handlers = (case handlers of
       [] \<Rightarrow> NewRoundExclusionHandler []
     | [Some handler] \<Rightarrow> Inr handler
     | _ \<Rightarrow> Inl ErrNilRoundExclusionHandler)"

definition HasExcludedRounds :: "roundExclusionHandler \<Rightarrow> bool" where
  "HasExcludedRounds reh \<longleftrightarrow> length (intervals reh) > 0"

definition IsRoundExcluded :: "roundExclusionHandler \<Rightarrow> u64 \<Rightarrow> bool" where
  "IsRoundExcluded reh round =
     (let index = sort_Search (length (intervals reh)) (\<lambda>i. EndRound (intervals reh ! i) \<ge> round) in
      index < length (intervals reh) \<and> StartRound (intervals reh ! index) \<le> round)"

definition handler_IsHeaderExcluded ::
    "roundExclusionHandler \<Rightarrow> u64 \<Rightarrow> u32 \<Rightarrow> bytes \<Rightarrow> bool" where
  "handler_IsHeaderExcluded reh round shard hash \<longleftrightarrow>
     IsRoundExcluded reh round \<or> IsDiscarded (checkpoint_of reh) round shard hash"

text \<open>The package function: a nil handler excludes nothing; the handler of this package also looks at
  the hash.\<close>

definition IsHeaderExcluded ::
    "roundExclusionHandler option \<Rightarrow> u64 \<Rightarrow> u32 \<Rightarrow> bytes \<Rightarrow> bool" where
  "IsHeaderExcluded handler round shard hash = (case handler of
       None \<Rightarrow> False
     | Some reh \<Rightarrow> handler_IsHeaderExcluded reh round shard hash)"

section \<open>The search finds the excluded rounds\<close>

definition disjoint_intervals :: "HardforkRoundExclusionConfig \<Rightarrow> HardforkRoundExclusionConfig \<Rightarrow> bool" where
  "disjoint_intervals a b \<longleftrightarrow> EndRound a < StartRound b \<or> EndRound b < StartRound a"

definition valid_intervals :: "HardforkRoundExclusionConfig list \<Rightarrow> bool" where
  "valid_intervals ivs \<longleftrightarrow> (\<forall>iv \<in> set ivs. StartRound iv \<le> EndRound iv) \<and> sorted_wrt disjoint_intervals ivs"

definition follows :: "HardforkRoundExclusionConfig \<Rightarrow> HardforkRoundExclusionConfig \<Rightarrow> bool" where
  "follows a b \<longleftrightarrow> EndRound a < StartRound b"

text \<open>A symmetric relation between all members of a list does not depend on their order.\<close>

lemma sorted_wrt_mset:
  assumes "\<And>a b. R a b \<Longrightarrow> R b a" "mset xs = mset ys" "sorted_wrt R xs"
  shows "sorted_wrt R ys"
  using assms(2,3)
proof (induction xs arbitrary: ys)
  case (Cons x xs)
  have "x \<in> set ys" using Cons.prems(1) by (metis list.set_intros(1) mset_eq_setD)
  then obtain as bs where ys: "ys = as @ x # bs" by (meson split_list)
  with Cons have "sorted_wrt R (as @ bs)" "set xs = set (as @ bs)"
    using mset_eq_setD [of xs "as @ bs"] by auto
  with Cons.prems(2) assms(1) show ?case by (auto simp: ys sorted_wrt_append)
qed simp

lemma check_intervals_None:
  "check_intervals prev xs = None \<longleftrightarrow> (\<forall>iv \<in> set xs. StartRound iv \<le> EndRound iv) \<and> sorted_wrt follows xs \<and>
     (case prev of None \<Rightarrow> True | Some p \<Rightarrow> xs = [] \<or> follows p (hd xs))"
proof (induction xs arbitrary: prev)
  case (Cons x xs)
  have "(\<forall>y \<in> set xs. follows x y) \<longleftrightarrow> xs = [] \<or> follows x (hd xs)"
    if "sorted_wrt follows xs" "\<forall>iv \<in> set xs. StartRound iv \<le> EndRound iv"
  proof (cases xs)
    case (Cons y ys)
    then have "follows x z" if "follows x y" "z \<in> set ys" for z
      using that \<open>sorted_wrt follows xs\<close> \<open>\<forall>iv \<in> set xs. StartRound iv \<le> EndRound iv\<close>
      by (auto simp: follows_def)
    then show ?thesis using Cons by auto
  qed simp
  then show ?case using Cons [of "Some x"] by (cases prev) (auto simp: not_less not_le follows_def [of _ x])
qed (simp split: option.split)

lemma NewRoundExclusionHandler_Inr:
  assumes "NewRoundExclusionHandler ivs = Inr reh"
  shows "sorted_wrt follows (intervals reh)" "\<forall>iv \<in> set ivs. StartRound iv \<le> EndRound iv" "mset (intervals reh) = mset ivs"
  using assms check_intervals_None [of None "sort_Slice (\<lambda>a b. StartRound a < StartRound b) ivs"]
  by (auto simp: NewRoundExclusionHandler_def Let_def split: option.splits)

lemma valid_sorted:
  assumes "valid_intervals ivs"
  defines "xs \<equiv> sort_Slice (\<lambda>a b. StartRound a < StartRound b) ivs"
  shows "sorted_wrt follows xs"
proof -
  have valid: "\<forall>iv \<in> set ivs. StartRound iv \<le> EndRound iv" "sorted_wrt disjoint_intervals ivs"
    using assms(1) by (auto simp: valid_intervals_def)
  have dis: "distinct ivs \<and> (\<forall>a \<in> set ivs. \<forall>b \<in> set ivs. a \<noteq> b \<longrightarrow> StartRound a < StartRound b \<or> StartRound b < StartRound a)"
    using valid
  proof (induction ivs)
    case (Cons x ivs)
    have "x \<noteq> y \<and> (StartRound x < StartRound y \<or> StartRound y < StartRound x)" if "y \<in> set ivs" for y
    proof -
      have "EndRound x < StartRound y \<or> EndRound y < StartRound x" "StartRound x \<le> EndRound x" "StartRound y \<le> EndRound y"
        using Cons.prems that by (simp_all add: disjoint_intervals_def)
      then show ?thesis by auto
    qed
    with Cons show ?case by auto
  qed simp
  then have "sorted_wrt (\<lambda>a b. StartRound a < StartRound b) xs"
    unfolding xs_def by (intro sorted_sort_Slice) auto
  moreover have "sorted_wrt disjoint_intervals xs"
    by (rule sorted_wrt_mset [OF _ _ valid(2)]) (auto simp: disjoint_intervals_def xs_def)
  moreover have "\<forall>iv \<in> set xs. StartRound iv \<le> EndRound iv" using valid(1) by (simp add: xs_def)
  ultimately show ?thesis
  proof (induction xs)
    case (Cons x xs)
    have "follows x y" if "y \<in> set xs" for y
    proof -
      have "StartRound x < StartRound y" "StartRound y \<le> EndRound y" "disjoint_intervals x y"
        using Cons.prems that by simp_all
      then show ?thesis by (auto simp: disjoint_intervals_def follows_def)
    qed
    with Cons show ?case by simp
  qed simp
qed

lemma search_intervals:
  fixes xs and round :: u64
  assumes "sorted_wrt follows xs" "\<forall>iv \<in> set xs. StartRound iv \<le> EndRound iv"
  defines "index \<equiv> sort_Search (length xs) (\<lambda>i. EndRound (xs ! i) \<ge> round)"
  shows "index < length xs \<and> StartRound (xs ! index) \<le> round \<longleftrightarrow> (\<exists>iv \<in> set xs. StartRound iv \<le> round \<and> round \<le> EndRound iv)"
proof -
  have lt: "EndRound (xs ! i) < StartRound (xs ! j)" if "i < j" "j < length xs" for i j
    using sorted_wrt_nth_less [OF assms(1) that] by (simp add: follows_def)
  have "\<forall>h k. EndRound (xs ! h) \<ge> round \<longrightarrow> h \<le> k \<longrightarrow> k < length xs \<longrightarrow> EndRound (xs ! k) \<ge> round"
  proof (intro allI impI)
    fix h k assume a: "EndRound (xs ! h) \<ge> round" "h \<le> k" "k < length xs"
    show "EndRound (xs ! k) \<ge> round"
    proof (cases "h = k")
      case False
      with a lt [of h k] assms(2) nth_mem [OF a(3)] show ?thesis by fastforce
    qed (use a in simp)
  qed
  note b = sort_Search_boundary [OF this, folded index_def]
  show ?thesis
  proof
    assume "index < length xs \<and> StartRound (xs ! index) \<le> round"
    with b(3) [of index] show "\<exists>iv \<in> set xs. StartRound iv \<le> round \<and> round \<le> EndRound iv"
      by (meson nth_mem order_refl)
  next
    assume "\<exists>iv \<in> set xs. StartRound iv \<le> round \<and> round \<le> EndRound iv"
    then obtain k where k: "k < length xs" "StartRound (xs ! k) \<le> round" "round \<le> EndRound (xs ! k)"
      by (metis in_set_conv_nth)
    with b(2) [of k] have "index \<le> k" by force
    moreover have "\<not> index < k"
      using lt [of index k] b(3) [of index] k by fastforce
    ultimately show "index < length xs \<and> StartRound (xs ! index) \<le> round" using k by auto
  qed
qed

text \<open>
  C30. The configured intervals of excluded rounds are accepted exactly if each starts before its end and no
  two overlap, and then the binary search over the sorted intervals excludes exactly the rounds of the
  configured intervals.
\<close>

theorem excluded_rounds:
  "case NewRoundExclusionHandler ivs of
     Inl err \<Rightarrow> \<not> valid_intervals ivs
   | Inr reh \<Rightarrow> valid_intervals ivs \<and>
       (\<forall>round. IsRoundExcluded reh round = (\<exists>iv \<in> set ivs. StartRound iv \<le> round \<and> round \<le> EndRound iv))"
proof (cases "NewRoundExclusionHandler ivs")
  case (Inl err)
  have "\<not> valid_intervals ivs"
  proof
    assume v: "valid_intervals ivs"
    then have "check_intervals None (sort_Slice (\<lambda>a b. StartRound a < StartRound b) ivs) = None"
      using valid_sorted [OF v] by (auto simp: check_intervals_None valid_intervals_def)
    with Inl show False by (simp add: NewRoundExclusionHandler_def)
  qed
  with Inl show ?thesis by simp
next
  case (Inr reh)
  note r = NewRoundExclusionHandler_Inr [OF Inr]
  have set: "set (intervals reh) = set ivs" using r(3) by (rule mset_eq_setD)
  have "sorted_wrt disjoint_intervals (intervals reh)"
    by (rule sorted_wrt_mono_rel [OF _ r(1)]) (simp add: follows_def disjoint_intervals_def)
  then have "sorted_wrt disjoint_intervals ivs"
    by (rule sorted_wrt_mset [OF _ r(3), rotated]) (auto simp: disjoint_intervals_def)
  with r(2) have "valid_intervals ivs" by (simp add: valid_intervals_def)
  with search_intervals [OF r(1)] r(2) set Inr show ?thesis by (simp add: IsRoundExcluded_def Let_def)
qed

end
