(* ===== verification/Fork_Detector.thy ===== *)
theory Fork_Detector
  imports Round_Exclusions "HOL-Library.Signed_Division"
begin

text \<open>
  The fork detector of a node: \<open>src/process/sync/baseForkDetector.go\<close>, \<open>shardForkDetector.go\<close> and
  \<open>metaForkDetector.go\<close>. It collects what the node learns of headers (received, proven, processed,
  notarized by the metachain) per nonce, advances the final and the settled checkpoint, chooses the
  probable highest nonce, and reports forks.

  The state is the record \<open>baseForkDetector\<close>; every method is a function on it. The headers are a map
  from nonces, an association list whose order is the order of \<open>for range\<close>. The records behind the
  pointers of a slice are in no other slice, so a slice of pointers is a list of records. The mutexes
  are not modelled: a method runs without interruption, except that the proofs pool may change between
  the two looks the finalization takes at it (\<open>HasProofForDifferentHash\<close> and
  \<open>HasProofForDifferentHash_again\<close>). A checkpoint pointer is never nil once the constructor has run.
  What the detector calls outside (round handler, epochs and rounds of the flags, proofs pool, chain
  parameters, black list) is the record \<open>fd_env\<close>, given to every call anew.
\<close>

section \<open>Data\<close>

datatype BlockHeaderState = BHReceived | BHReceivedTooLate | BHProcessed | BHProposed | BHNotarized

record headerInfo =
  hi_epoch :: u32
  hi_nonce :: u64
  hi_round :: u64
  hi_hash :: bytes
  hi_prevHash :: bytes
  hi_state :: BlockHeaderState
  hi_hasProof :: bool
  hi_selectedByAuthority :: bool

record appendHeaderInfoResult =
  inserted :: bool
  enriched :: bool

record notarizedHeaderCandidate =
  nc_hash :: bytes
  nc_epoch :: u32
  nc_nonce :: u64

record notarizedHeaderSelection =
  ns_hash :: bytes
  ns_isV3 :: bool
  ns_selectedByAuthority :: bool
  ns_candidates :: "notarizedHeaderCandidate list"

datatype notarizedHeaderResolution =
  notarizedHeaderUnresolved | notarizedHeaderApplied | notarizedHeaderNeedsReconciliation

record checkpointInfo =
  cp_nonce :: u64
  cp_round :: u64
  cp_hash :: bytes

record forkInfo =
  fi_checkpoint :: "checkpointInfo list"
  fi_finalCheckpoint :: checkpointInfo
  fi_settledCheckpoint :: checkpointInfo
  fi_probableHighestNonce :: u64
  fi_highestNonceReceived :: u64
  fi_rollBackNonce :: u64
  fi_lastRoundWithForcedFork :: u64

text \<open>The value behind the interface \<open>forkDetector\<close> decides which \<open>computeFinalCheckpoint\<close> runs.\<close>

datatype detector_kind = ShardDetector | MetaDetector

record baseForkDetector =
  fd_headers :: "(u64 \<times> headerInfo list) list"
  fd_fork :: forkInfo
  fd_hasAmbiguousNotarization :: bool
  fd_shardID :: u32
  fd_genesisTime :: u64
  fd_supernovaGenesisTime :: u64
  fd_kind :: detector_kind
  fd_genesisNonce :: u64
  fd_genesisRound :: u64
  fd_maxForkHeaderEpoch :: u32
  fd_genesisEpoch :: u32

text \<open>What \<open>CheckFork\<close> returns (\<open>process.ForkInfo\<close>).\<close>

record ForkInfo =
  IsDetected :: bool
  fork_Nonce :: u64
  fork_Round :: u64
  fork_Hash :: bytes

definition NewForkInfo :: ForkInfo where
  "NewForkInfo = \<lparr>IsDetected = False, fork_Nonce = -1, fork_Round = -1, fork_Hash = []\<rparr>"

text \<open>The parts of a header and of a proof the detector reads.\<close>

record HeaderHandler =
  GetEpoch :: u32
  GetNonce :: u64
  GetRound :: u64
  GetPrevHash :: bytes
  GetShardID :: u32
  GetTimeStamp :: u64
  IsHeaderV3 :: bool
  IsStartOfEpochBlock :: bool

record HeaderProofHandler =
  GetHeaderEpoch :: u32
  GetHeaderNonce :: u64
  GetHeaderRound :: u64
  GetHeaderHash :: bytes

datatype fd_error = ErrNilHeader | ErrNilHash | ErrRoundExcluded | ErrHeaderIsBlackListed
  | ErrGenesisTimeMissmatch | ErrLowerRoundInBlock | ErrLowerNonceInBlock | ErrHigherRoundInBlock
  | ErrHigherNonceInBlock | ErrChainParameters

datatype epoch_flag = AndromedaFlag | SupernovaFlag

text \<open>
  The services the detector calls. An \<open>int64\<close> is a word read by \<open>sint\<close>. \<open>bl_Has\<close> is the black list
  after its sweep; the additions to it are an output of the calls.
\<close>

record fd_env =
  round_Index :: u64
  IndexForCurrentTime :: u64
  IsFlagEnabledInEpoch :: "epoch_flag \<Rightarrow> u32 \<Rightarrow> bool"
  GetActivationEpoch :: "epoch_flag \<Rightarrow> u32"
  IsFlagEnabledInRound :: "u64 \<Rightarrow> bool"
  GetActivationRound :: u64
  HasProof :: "u32 \<Rightarrow> bytes \<Rightarrow> bool"
  HasProofForDifferentHash :: "u32 \<Rightarrow> u64 \<Rightarrow> bytes \<Rightarrow> bool"
  HasProofForDifferentHash_again :: "u32 \<Rightarrow> u64 \<Rightarrow> bytes \<Rightarrow> bool"
  RoundDurationForEpoch :: "u32 \<Rightarrow> u64 option"
  GetMaxRoundsWithoutCommittedBlock :: "u64 \<Rightarrow> u32"
  roundExclusions :: "roundExclusionHandler option"
  bl_Has :: "bytes \<Rightarrow> bool"

section \<open>Functions of the package \<open>common\<close>\<close>

definition IsAsyncExecutionEnabledForEpochAndRound :: "fd_env \<Rightarrow> u32 \<Rightarrow> u64 \<Rightarrow> bool" where
  "IsAsyncExecutionEnabledForEpochAndRound e epoch round \<longleftrightarrow>
     IsFlagEnabledInEpoch e SupernovaFlag epoch \<and> IsFlagEnabledInRound e round"

definition IsCrossHeaderSettlementEnabledForHeader :: "fd_env \<Rightarrow> HeaderHandler \<Rightarrow> bool" where
  "IsCrossHeaderSettlementEnabledForHeader e header =
     IsAsyncExecutionEnabledForEpochAndRound e (GetEpoch header) (GetRound header)"

definition IsContendedRound :: "u64 \<Rightarrow> u64 \<Rightarrow> bool" where
  "IsContendedRound round parentRound \<longleftrightarrow> round > parentRound + 1"

definition IsProofsFlagEnabledForHeader :: "fd_env \<Rightarrow> HeaderHandler \<Rightarrow> bool" where
  "IsProofsFlagEnabledForHeader e header \<longleftrightarrow>
     IsFlagEnabledInEpoch e AndromedaFlag (GetEpoch header) \<and> GetNonce header \<noteq> 0"

definition IsEpochChangeBlockForFlagActivation :: "fd_env \<Rightarrow> HeaderHandler \<Rightarrow> epoch_flag \<Rightarrow> bool" where
  "IsEpochChangeBlockForFlagActivation e header flag \<longleftrightarrow>
     IsStartOfEpochBlock header \<and> GetEpoch header = GetActivationEpoch e flag"

definition IsFlagEnabledAfterEpochsStartBlock :: "fd_env \<Rightarrow> HeaderHandler \<Rightarrow> epoch_flag \<Rightarrow> bool" where
  "IsFlagEnabledAfterEpochsStartBlock e header flag \<longleftrightarrow>
     IsFlagEnabledInEpoch e flag (GetEpoch header) \<and>
     \<not> IsEpochChangeBlockForFlagActivation e header flag"

definition IsInProperRound :: "u64 \<Rightarrow> bool" where
  "IsInProperRound index \<longleftrightarrow> sint index mod 5 = 0"

section \<open>Access to the state\<close>

definition headers_at :: "baseForkDetector \<Rightarrow> u64 \<Rightarrow> headerInfo list" where
  "headers_at s nonce = (case map_of (fd_headers s) nonce of None \<Rightarrow> [] | Some infos \<Rightarrow> infos)"

definition finalCheckpoint :: "baseForkDetector \<Rightarrow> checkpointInfo" where
  "finalCheckpoint s = fi_finalCheckpoint (fd_fork s)"

definition settledCheckpoint :: "baseForkDetector \<Rightarrow> checkpointInfo" where
  "settledCheckpoint s = fi_settledCheckpoint (fd_fork s)"

definition probableHighestNonce :: "baseForkDetector \<Rightarrow> u64" where
  "probableHighestNonce s = fi_probableHighestNonce (fd_fork s)"

definition highestNonceReceived :: "baseForkDetector \<Rightarrow> u64" where
  "highestNonceReceived s = fi_highestNonceReceived (fd_fork s)"

definition getRollBackNonce :: "baseForkDetector \<Rightarrow> u64" where
  "getRollBackNonce s = fi_rollBackNonce (fd_fork s)"

definition lastRoundWithForcedFork :: "baseForkDetector \<Rightarrow> u64" where
  "lastRoundWithForcedFork s = fi_lastRoundWithForcedFork (fd_fork s)"

definition lastCheckpoint :: "baseForkDetector \<Rightarrow> checkpointInfo" where
  "lastCheckpoint s = (if fi_checkpoint (fd_fork s) = []
     then \<lparr>cp_nonce = fd_genesisNonce s, cp_round = fd_genesisRound s, cp_hash = []\<rparr>
     else last (fi_checkpoint (fd_fork s)))"

definition SetRollBackNonce :: "u64 \<Rightarrow> baseForkDetector \<Rightarrow> baseForkDetector" where
  "SetRollBackNonce nonce s = s\<lparr>fd_fork := (fd_fork s)\<lparr>fi_rollBackNonce := nonce\<rparr>\<rparr>"

definition setLastRoundWithForcedFork :: "u64 \<Rightarrow> baseForkDetector \<Rightarrow> baseForkDetector" where
  "setLastRoundWithForcedFork round s =
     s\<lparr>fd_fork := (fd_fork s)\<lparr>fi_lastRoundWithForcedFork := round\<rparr>\<rparr>"

definition setFinalCheckpoint :: "checkpointInfo \<Rightarrow> baseForkDetector \<Rightarrow> baseForkDetector" where
  "setFinalCheckpoint c s = s\<lparr>fd_fork := (fd_fork s)\<lparr>fi_finalCheckpoint := c\<rparr>\<rparr>"

definition setFinalAndSettledCheckpoint :: "checkpointInfo \<Rightarrow> baseForkDetector \<Rightarrow> baseForkDetector" where
  "setFinalAndSettledCheckpoint c s =
     s\<lparr>fd_fork := (fd_fork s)\<lparr>fi_finalCheckpoint := c, fi_settledCheckpoint := c\<rparr>\<rparr>"

definition advanceFinalCheckpoint :: "checkpointInfo \<Rightarrow> baseForkDetector \<Rightarrow> baseForkDetector" where
  "advanceFinalCheckpoint c s =
     (if cp_nonce c > cp_nonce (finalCheckpoint s) then setFinalCheckpoint c s else s)"

definition advanceFinalAndSettledCheckpoint :: "checkpointInfo \<Rightarrow> baseForkDetector \<Rightarrow> baseForkDetector" where
  "advanceFinalAndSettledCheckpoint c s =
     (let s = (if cp_nonce c > cp_nonce (finalCheckpoint s) then setFinalCheckpoint c s else s) in
      if cp_nonce c > cp_nonce (settledCheckpoint s)
      then s\<lparr>fd_fork := (fd_fork s)\<lparr>fi_settledCheckpoint := c\<rparr>\<rparr> else s)"

definition addCheckpoint :: "checkpointInfo \<Rightarrow> baseForkDetector \<Rightarrow> baseForkDetector" where
  "addCheckpoint c s = s\<lparr>fd_fork := (fd_fork s)\<lparr>fi_checkpoint := fi_checkpoint (fd_fork s) @ [c]\<rparr>\<rparr>"

definition AddCheckpoint :: "u64 \<Rightarrow> u64 \<Rightarrow> bytes \<Rightarrow> baseForkDetector \<Rightarrow> baseForkDetector" where
  "AddCheckpoint nonce round hash =
     addCheckpoint \<lparr>cp_nonce = nonce, cp_round = round, cp_hash = hash\<rparr>"

definition setHighestNonceReceived :: "u64 \<Rightarrow> baseForkDetector \<Rightarrow> baseForkDetector" where
  "setHighestNonceReceived nonce s =
     (if nonce \<le> highestNonceReceived s then s
      else s\<lparr>fd_fork := (fd_fork s)\<lparr>fi_highestNonceReceived := nonce\<rparr>\<rparr>)"

definition setProbableHighestNonce :: "u64 \<Rightarrow> baseForkDetector \<Rightarrow> baseForkDetector" where
  "setProbableHighestNonce nonce s =
     (let nonce = (if fd_shardID s \<noteq> MetachainShardId \<and> nonce < cp_nonce (finalCheckpoint s)
        then cp_nonce (finalCheckpoint s) else nonce) in
      s\<lparr>fd_fork := (fd_fork s)\<lparr>fi_probableHighestNonce := nonce\<rparr>\<rparr>)"

definition removeCheckpointsBehindNonce :: "u64 \<Rightarrow> baseForkDetector \<Rightarrow> baseForkDetector" where
  "removeCheckpointsBehindNonce nonce s = s\<lparr>fd_fork := (fd_fork s)\<lparr>fi_checkpoint :=
     filter (\<lambda>c. \<not> cp_nonce c < nonce) (fi_checkpoint (fd_fork s))\<rparr>\<rparr>"

definition removePastCheckpoints :: "baseForkDetector \<Rightarrow> baseForkDetector" where
  "removePastCheckpoints s = removeCheckpointsBehindNonce (cp_nonce (finalCheckpoint s)) s"

definition removeCheckpointWithNonce :: "u64 \<Rightarrow> baseForkDetector \<Rightarrow> baseForkDetector" where
  "removeCheckpointWithNonce nonce s = s\<lparr>fd_fork := (fd_fork s)\<lparr>fi_checkpoint :=
     filter (\<lambda>c. cp_nonce c \<noteq> nonce) (fi_checkpoint (fd_fork s))\<rparr>\<rparr>"

definition GetHighestFinalBlockNonce :: "baseForkDetector \<Rightarrow> u64" where
  "GetHighestFinalBlockNonce s = cp_nonce (finalCheckpoint s)"

definition GetHighestFinalBlockHash :: "baseForkDetector \<Rightarrow> bytes" where
  "GetHighestFinalBlockHash s = cp_hash (finalCheckpoint s)"

definition GetHighestSettledBlockInfo :: "baseForkDetector \<Rightarrow> u64 \<times> bytes" where
  "GetHighestSettledBlockInfo s = (cp_nonce (settledCheckpoint s), cp_hash (settledCheckpoint s))"

definition ProbableHighestNonce :: "baseForkDetector \<Rightarrow> u64" where
  "ProbableHighestNonce s = probableHighestNonce s"

definition SetFinalToLastCheckpoint :: "baseForkDetector \<Rightarrow> baseForkDetector" where
  "SetFinalToLastCheckpoint s = setFinalAndSettledCheckpoint (lastCheckpoint s) s"

definition genesisCheckpoint :: "baseForkDetector \<Rightarrow> checkpointInfo" where
  "genesisCheckpoint s = \<lparr>cp_nonce = fd_genesisNonce s, cp_round = fd_genesisRound s, cp_hash = []\<rparr>"

text \<open>Both detectors; the rebinding of the settled nonce in the block tracker by the shard detector
  changes the tracker only.\<close>

definition RestoreToGenesis :: "baseForkDetector \<Rightarrow> baseForkDetector" where
  "RestoreToGenesis s = (let checkpoint = genesisCheckpoint s in
     s\<lparr>fd_headers := [], fd_hasAmbiguousNotarization := False,
       fd_fork := (fd_fork s)\<lparr>fi_checkpoint := [checkpoint], fi_finalCheckpoint := checkpoint,
         fi_settledCheckpoint := checkpoint, fi_probableHighestNonce := fd_genesisNonce s,
         fi_highestNonceReceived := fd_genesisNonce s\<rparr>\<rparr>)"

definition isHeaderExcluded :: "fd_env \<Rightarrow> baseForkDetector \<Rightarrow> u64 \<Rightarrow> bytes \<Rightarrow> bool" where
  "isHeaderExcluded e s round hash = IsHeaderExcluded (roundExclusions e) round (fd_shardID s) hash"

definition isAsyncExecutionEnabled :: "fd_env \<Rightarrow> headerInfo \<Rightarrow> bool" where
  "isAsyncExecutionEnabled e info =
     IsAsyncExecutionEnabledForEpochAndRound e (hi_epoch info) (hi_round info)"

section \<open>Lists of headers of one nonce\<close>

definition hasEarlierSameHash :: "headerInfo list \<Rightarrow> nat \<Rightarrow> bool" where
  "hasEarlierSameHash infos index \<longleftrightarrow>
     (\<exists>p \<in> set (take index infos). hi_hash p = hi_hash (infos ! index))"

definition hasEarlierSameHashWithState :: "headerInfo list \<Rightarrow> nat \<Rightarrow> bool" where
  "hasEarlierSameHashWithState infos index \<longleftrightarrow>
     (\<exists>p \<in> set (take index infos). hi_state p = hi_state (infos ! index) \<and> hi_hash p = hi_hash (infos ! index))"

definition hasProvenHeader :: "headerInfo list \<Rightarrow> bool" where
  "hasProvenHeader infos \<longleftrightarrow> (\<exists>info \<in> set infos. hi_hasProof info)"

definition hasProvenHash :: "headerInfo list \<Rightarrow> bytes \<Rightarrow> bool" where
  "hasProvenHash infos hash \<longleftrightarrow> (\<exists>info \<in> set infos. hi_hasProof info \<and> hi_hash info = hash)"

text \<open>The proven headers a loop visits: those without an earlier record of the same hash.\<close>

definition first_proven :: "headerInfo list \<Rightarrow> headerInfo list" where
  "first_proven infos = [infos ! index. index \<leftarrow> [0..<length infos],
     hi_hasProof (infos ! index) \<and> \<not> hasEarlierSameHash infos index]"

text \<open>The headers of a state a loop visits: those without an earlier record of the same hash and state.\<close>

definition first_with_state :: "BlockHeaderState \<Rightarrow> headerInfo list \<Rightarrow> headerInfo list" where
  "first_with_state st infos = [infos ! index. index \<leftarrow> [0..<length infos],
     hi_state (infos ! index) = st \<and> \<not> hasEarlierSameHashWithState infos index]"

definition getUniqueNotarizedHeader :: "headerInfo list \<Rightarrow> headerInfo option \<times> nat" where
  "getUniqueNotarizedHeader infos = (let notarized = first_with_state BHNotarized infos in
     (if notarized = [] then None else Some (last notarized), length notarized))"

definition isLowerRoundOrHash :: "u64 \<Rightarrow> bytes \<Rightarrow> u64 \<Rightarrow> bytes \<Rightarrow> bool" where
  "isLowerRoundOrHash round hash otherRound otherHash \<longleftrightarrow>
     round < otherRound \<or> round = otherRound \<and> bytes_Compare hash otherHash < 0"

fun preferred_loop :: "headerInfo option \<Rightarrow> headerInfo list \<Rightarrow> headerInfo option \<times> bool" where
  "preferred_loop preferred [] = (preferred, False)"
| "preferred_loop None (info # infos) = preferred_loop (Some info) infos"
| "preferred_loop (Some p) (info # infos) =
     (if hi_epoch p \<noteq> hi_epoch info then (None, True)
      else preferred_loop (Some (if isLowerRoundOrHash (hi_round info) (hi_hash info) (hi_round p) (hi_hash p)
        then info else p)) infos)"

definition getPreferredProvenChild :: "headerInfo list \<Rightarrow> bytes \<Rightarrow> headerInfo option \<times> bool" where
  "getPreferredProvenChild infos parentHash =
     preferred_loop None (filter (\<lambda>info. hi_prevHash info = parentHash) (first_proven infos))"

text \<open>The hash of a processed header is not nil, so \<open>processedHash != nil\<close> holds from the second one on.\<close>

definition processedHeaderMatches :: "headerInfo list \<Rightarrow> bytes \<Rightarrow> bool" where
  "processedHeaderMatches infos selectedHash = (case first_with_state BHProcessed infos of
       [] \<Rightarrow> selectedHash = []
     | [info] \<Rightarrow> hi_hash info = selectedHash
     | _ \<Rightarrow> False)"

definition allProvenHeadersHaveKnownV3Ancestry :: "fd_env \<Rightarrow> headerInfo list \<Rightarrow> bool" where
  "allProvenHeadersHaveKnownV3Ancestry e infos \<longleftrightarrow>
     (\<forall>info \<in> set (first_proven infos). hi_prevHash info \<noteq> [] \<and> isAsyncExecutionEnabled e info)"

definition allProvenHeadersExtendFrontier :: "headerInfo list \<Rightarrow> headerInfo list \<Rightarrow> bool" where
  "allProvenHeadersExtendFrontier infos previous \<longleftrightarrow>
     (\<forall>info \<in> set (first_proven infos). hasProvenHash previous (hi_prevHash info))"

section \<open>Notarized headers of a nonce\<close>

record selection_state =
  sel_selected :: "headerInfo option"
  sel_processed :: "headerInfo option"
  sel_candidates :: "notarizedHeaderCandidate list"
  sel_hasV3 :: bool

definition candidate_of :: "headerInfo \<Rightarrow> notarizedHeaderCandidate" where
  "candidate_of info = \<lparr>nc_hash = hi_hash info, nc_epoch = hi_epoch info, nc_nonce = hi_nonce info\<rparr>"

text \<open>One turn of the loop; the nil slice of candidates is the empty list.\<close>

definition selection_step ::
    "fd_env \<Rightarrow> headerInfo list \<Rightarrow> nat \<Rightarrow> selection_state \<Rightarrow> selection_state" where
  "selection_step e infos index st = (let info = infos ! index;
      st = (if hi_state info = BHProcessed \<and> sel_processed st = None
        then st\<lparr>sel_processed := Some info, sel_hasV3 := sel_hasV3 st \<or> isAsyncExecutionEnabled e info\<rparr>
        else st) in
     if hi_state info \<noteq> BHNotarized \<or> hasEarlierSameHashWithState infos index then st
     else (case sel_selected st of
         None \<Rightarrow> st\<lparr>sel_selected := Some info, sel_hasV3 := sel_hasV3 st \<or> isAsyncExecutionEnabled e info\<rparr>
       | Some sel \<Rightarrow> st\<lparr>sel_candidates :=
             (if sel_candidates st = [] then [candidate_of sel] else sel_candidates st) @ [candidate_of info],
           sel_hasV3 := sel_hasV3 st \<or> isAsyncExecutionEnabled e info\<rparr>))"

definition selection_of :: "fd_env \<Rightarrow> headerInfo list \<Rightarrow> notarizedHeaderSelection" where
  "selection_of e infos =
     (let st = fold (selection_step e infos) [0..<length infos]
          \<lparr>sel_selected = None, sel_processed = None, sel_candidates = [], sel_hasV3 = False\<rparr>;
        none = \<lparr>ns_hash = [], ns_isV3 = False, ns_selectedByAuthority = False, ns_candidates = []\<rparr> in
      if length (sel_candidates st) > 1 \<and> sel_hasV3 st
      then none\<lparr>ns_isV3 := True, ns_candidates := sel_candidates st\<rparr>
      else (case sel_selected st of
          None \<Rightarrow> none
        | Some sel \<Rightarrow>
            (case sel_processed st of
                Some p \<Rightarrow>
                  if hi_hash sel \<noteq> hi_hash p \<and> sel_hasV3 st
                  then none\<lparr>ns_isV3 := True, ns_candidates := [candidate_of p, candidate_of sel]\<rparr>
                  else none\<lparr>ns_hash := hi_hash sel, ns_isV3 := isAsyncExecutionEnabled e sel,
                    ns_selectedByAuthority := hi_selectedByAuthority sel\<rparr>
              | None \<Rightarrow> none\<lparr>ns_hash := hi_hash sel, ns_isV3 := isAsyncExecutionEnabled e sel,
                    ns_selectedByAuthority := hi_selectedByAuthority sel\<rparr>)))"

definition getNotarizedHeaderSelectionLocked ::
    "fd_env \<Rightarrow> baseForkDetector \<Rightarrow> u64 \<Rightarrow> notarizedHeaderSelection" where
  "getNotarizedHeaderSelectionLocked e s nonce = selection_of e (headers_at s nonce)"

definition getNotarizedHeaderSelection ::
    "fd_env \<Rightarrow> u64 \<Rightarrow> baseForkDetector \<Rightarrow> notarizedHeaderSelection \<times> baseForkDetector" where
  "getNotarizedHeaderSelection e nonce s = (let selection = getNotarizedHeaderSelectionLocked e s nonce in
     (selection, if length (ns_candidates selection) > 1
        then s\<lparr>fd_hasAmbiguousNotarization := True\<rparr> else s))"

definition GetNotarizedHeaderHash :: "fd_env \<Rightarrow> u64 \<Rightarrow> baseForkDetector \<Rightarrow> bytes \<times> baseForkDetector" where
  "GetNotarizedHeaderHash e nonce s = (case getNotarizedHeaderSelection e nonce s of
     (selection, s) \<Rightarrow> (ns_hash selection, s))"

definition is_ambiguous :: "fd_env \<Rightarrow> headerInfo list \<Rightarrow> bool" where
  "is_ambiguous e infos \<longleftrightarrow> ns_isV3 (selection_of e infos) \<and> length (ns_candidates (selection_of e infos)) > 1"

definition isAmbiguousNotarizationLocked :: "fd_env \<Rightarrow> baseForkDetector \<Rightarrow> u64 \<Rightarrow> bool" where
  "isAmbiguousNotarizationLocked e s nonce = is_ambiguous e (headers_at s nonce)"

definition refreshAmbiguousNotarizationLocked :: "fd_env \<Rightarrow> baseForkDetector \<Rightarrow> baseForkDetector" where
  "refreshAmbiguousNotarizationLocked e s = s\<lparr>fd_hasAmbiguousNotarization :=
     (\<exists>nonce \<in> set (map fst (fd_headers s)). isAmbiguousNotarizationLocked e s nonce)\<rparr>"

definition hasUnresolvedNotarizedAmbiguity :: "baseForkDetector \<Rightarrow> bool" where
  "hasUnresolvedNotarizedAmbiguity s = fd_hasAmbiguousNotarization s"

text \<open>The loop over the map keeps the lowest ambiguous nonce below \<open>lowest\<close>.\<close>

fun lowest_ambiguous :: "fd_env \<Rightarrow> baseForkDetector \<Rightarrow> u64 list \<Rightarrow> u64 \<Rightarrow> u64" where
  "lowest_ambiguous e s [] lowest = lowest"
| "lowest_ambiguous e s (nonce # nonces) lowest =
     (if nonce \<ge> lowest \<or> \<not> isAmbiguousNotarizationLocked e s nonce then lowest_ambiguous e s nonces lowest
      else lowest_ambiguous e s nonces nonce)"

definition getLowestAmbiguousNotarizedHeaderSelection ::
    "fd_env \<Rightarrow> baseForkDetector \<Rightarrow> notarizedHeaderSelection option \<times> baseForkDetector" where
  "getLowestAmbiguousNotarizedHeaderSelection e s =
     (if \<not> fd_hasAmbiguousNotarization s then (None, s)
      else (let lowest = lowest_ambiguous e s (map fst (fd_headers s)) (-1) in
        if lowest = -1 then (None, s\<lparr>fd_hasAmbiguousNotarization := False\<rparr>)
        else (Some (getNotarizedHeaderSelectionLocked e s lowest), s)))"

definition getProcessedHeaderHash :: "baseForkDetector \<Rightarrow> u64 \<Rightarrow> bytes option" where
  "getProcessedHeaderHash s nonce =
     map_option hi_hash (find (\<lambda>info. hi_state info = BHProcessed) (headers_at s nonce))"

definition getHeaderVersion :: "fd_env \<Rightarrow> baseForkDetector \<Rightarrow> u64 \<Rightarrow> bytes \<Rightarrow> bool \<times> bool" where
  "getHeaderVersion e s nonce hash = (case find (\<lambda>info. hi_hash info = hash) (headers_at s nonce) of
       Some info \<Rightarrow> (isAsyncExecutionEnabled e info, True)
     | None \<Rightarrow> (False, False))"

section \<open>Appending and removing records\<close>

definition adjust_info :: "fd_env \<Rightarrow> headerInfo \<Rightarrow> headerInfo \<Rightarrow> headerInfo" where
  "adjust_info e hInfo info =
     (if hi_hash info \<noteq> hi_hash hInfo then info
      else (let info = (if hi_hasProof hInfo \<and> \<not> hi_hasProof info \<and>
            IsFlagEnabledInEpoch e AndromedaFlag (hi_epoch hInfo)
          then info\<lparr>hi_hasProof := True\<rparr> else info) in
        if (hi_prevHash hInfo \<noteq> [] \<and> isAsyncExecutionEnabled e hInfo) \<and> hi_prevHash info = []
        then info\<lparr>hi_prevHash := hi_prevHash hInfo\<rparr> else info))"

text \<open>Both adjustments change the record, so the result tells whether one was made.\<close>

definition adjustHeadersWithInfo :: "fd_env \<Rightarrow> headerInfo \<Rightarrow> headerInfo list \<Rightarrow> bool \<times> headerInfo list" where
  "adjustHeadersWithInfo e hInfo infos =
     (\<exists>info \<in> set infos. adjust_info e hInfo info \<noteq> info, map (adjust_info e hInfo) infos)"

definition same_record :: "headerInfo \<Rightarrow> headerInfo \<Rightarrow> bool" where
  "same_record stored info \<longleftrightarrow> hi_hash stored = hi_hash info \<and> hi_state stored = hi_state info \<and>
     hi_hasProof stored = hi_hasProof info"

definition appendHeaderInfo ::
    "fd_env \<Rightarrow> headerInfo \<Rightarrow> baseForkDetector \<Rightarrow> appendHeaderInfoResult \<times> baseForkDetector" where
  "appendHeaderInfo e info s =
     (if isHeaderExcluded e s (hi_round info) (hi_hash info) then (\<lparr>inserted = False, enriched = False\<rparr>, s)
      else (let infos = headers_at s (hi_nonce info) in
        if infos = []
        then (\<lparr>inserted = True, enriched = False\<rparr>,
          s\<lparr>fd_headers := AList.update (hi_nonce info) [info] (fd_headers s)\<rparr>)
        else (case adjustHeadersWithInfo e info infos of (enr, infos) \<Rightarrow>
          let s = s\<lparr>fd_headers := AList.update (hi_nonce info) infos (fd_headers s)\<rparr> in
          if \<exists>stored \<in> set infos. same_record stored info
          then (\<lparr>inserted = False, enriched = enr\<rparr>, s)
          else (let s = s\<lparr>fd_headers := AList.update (hi_nonce info) (infos @ [info]) (fd_headers s)\<rparr> in
            (\<lparr>inserted = True, enriched = enr\<rparr>,
             if (hi_state info = BHNotarized \<or> hi_state info = BHProcessed) \<and>
                isAmbiguousNotarizationLocked e s (hi_nonce info)
             then s\<lparr>fd_hasAmbiguousNotarization := True\<rparr> else s)))))"

definition append_info :: "fd_env \<Rightarrow> headerInfo \<Rightarrow> baseForkDetector \<Rightarrow> bool \<times> baseForkDetector" where
  "append_info e info s = (case appendHeaderInfo e info s of (r, s) \<Rightarrow> (inserted r, s))"

text \<open>\<open>headers[nonce] = infos\<close>, or \<open>delete\<close> when nothing is left.\<close>

definition put_headers :: "u64 \<Rightarrow> headerInfo list \<Rightarrow> baseForkDetector \<Rightarrow> baseForkDetector" where
  "put_headers nonce infos s = s\<lparr>fd_headers :=
     (if infos = [] then AList.delete nonce (fd_headers s) else AList.update nonce infos (fd_headers s))\<rparr>"

definition removePastHeaders :: "fd_env \<Rightarrow> baseForkDetector \<Rightarrow> baseForkDetector" where
  "removePastHeaders e s =
     (let s = s\<lparr>fd_headers := filter (\<lambda>(nonce, _). \<not> nonce < cp_nonce (settledCheckpoint s)) (fd_headers s)\<rparr> in
      if fd_hasAmbiguousNotarization s then refreshAmbiguousNotarizationLocked e s else s)"

text \<open>The loops over the whole map filter each list and delete the nonces left without records. The
  differences are \<open>int64\<close>: they wrap and are read as signed.\<close>

definition filter_headers ::
    "(u64 \<Rightarrow> headerInfo \<Rightarrow> bool) \<Rightarrow> (u64 \<times> headerInfo list) list \<Rightarrow> (u64 \<times> headerInfo list) list" where
  "filter_headers keep hs =
     filter (\<lambda>(_, infos). infos \<noteq> []) (map (\<lambda>(nonce, infos). (nonce, filter (keep nonce) infos)) hs)"

definition isReceivedHeaderInvalid :: "checkpointInfo \<Rightarrow> headerInfo \<Rightarrow> bool" where
  "isReceivedHeaderInvalid final info \<longleftrightarrow>
     (hi_state info = BHReceived \<or> hi_state info = BHReceivedTooLate) \<and>
     sint (hi_round info - cp_round final) < sint (hi_nonce info - cp_nonce final)"

definition removeInvalidReceivedHeaders :: "baseForkDetector \<Rightarrow> baseForkDetector" where
  "removeInvalidReceivedHeaders s = s\<lparr>fd_headers :=
     filter_headers (\<lambda>_ info. \<not> isReceivedHeaderInvalid (finalCheckpoint s) info) (fd_headers s)\<rparr>"

definition removePastOrInvalidRecords :: "fd_env \<Rightarrow> baseForkDetector \<Rightarrow> baseForkDetector" where
  "removePastOrInvalidRecords e s =
     removePastCheckpoints (removeInvalidReceivedHeaders (removePastHeaders e s))"

text \<open>The lists at or below the nonce stay as they are.\<close>

definition cleanupReceivedHeadersHigherThanNonce :: "fd_env \<Rightarrow> u64 \<Rightarrow> baseForkDetector \<Rightarrow> baseForkDetector" where
  "cleanupReceivedHeadersHigherThanNonce e nonce s = s\<lparr>fd_headers :=
     filter (\<lambda>(n, infos). n \<le> nonce \<or> infos \<noteq> []) (map (\<lambda>(n, infos). (n, if n \<le> nonce then infos else
       filter (\<lambda>info. hi_state info = BHNotarized \<or>
         hi_hasProof info \<and> IsFlagEnabledInEpoch e AndromedaFlag (hi_epoch info)) infos)) (fd_headers s))\<rparr>"

end
