(* ===== verification/Fork_Operations.thy ===== *)
theory Fork_Operations
  imports Fork_Detector
begin

text \<open>
  The operations of the fork detector over the records of \<open>Fork_Detector\<close>: the probable highest
  nonce, the report of forks, the advance of the checkpoints by the shard and by the meta detector,
  the reconciliation with the authority of the metachain, and the calls from outside. The walks along
  the nonces are total functions: each stops at the nonce it walks to, at the latest after going once
  through all nonces. The two walks that stop at the first nonce without a fitting record need not end
  on an arbitrary state; they are partial functions with \<open>None\<close> for a walk that does not end, and
  \<open>Fork_Inv\<close> shows that they end when the records carry the nonce they are stored under.
\<close>

section \<open>Probable highest nonce\<close>

record classify_state =
  cls_evidence :: bool
  cls_actionable :: bool
  cls_uniqueProofs :: nat

definition classify_step ::
    "fd_env \<Rightarrow> baseForkDetector \<Rightarrow> u64 \<Rightarrow> headerInfo list \<Rightarrow> checkpointInfo \<Rightarrow> u64 \<Rightarrow> nat \<Rightarrow> classify_state \<Rightarrow>
      classify_state" where
  "classify_step e s nonce infos final settledNonce index st =
     (let info = infos ! index; canSelectBranch = cp_hash final \<noteq> [] in
      if isHeaderExcluded e s (hi_round info) (hi_hash info) then st
      else (let isV3 = ((canSelectBranch \<or> hi_state info = BHNotarized) \<and> isAsyncExecutionEnabled e info);
          st = (if hi_hasProof info \<or> hi_state info = BHNotarized \<and> isV3 then st\<lparr>cls_actionable := True\<rparr> else st) in
        if \<not> canSelectBranch \<or> \<not> isV3 then st
        else (let st = (if hi_state info = BHNotarized \<and> nonce > settledNonce
            then st\<lparr>cls_evidence := True\<rparr> else st) in
          if \<not> hi_hasProof info \<or> hasEarlierSameHash infos index then st
          else (let st = (if nonce = cp_nonce final \<and> hi_hash info \<noteq> cp_hash final
                then st\<lparr>cls_evidence := True\<rparr> else st);
              st = (if nonce > cp_nonce final \<and> nonce - cp_nonce final = 1 \<and> hi_prevHash info \<noteq> [] \<and>
                  hi_prevHash info \<noteq> cp_hash final
                then st\<lparr>cls_evidence := True\<rparr> else st);
              st = st\<lparr>cls_uniqueProofs := cls_uniqueProofs st + 1\<rparr> in
            if cls_uniqueProofs st > 1 then st\<lparr>cls_evidence := True\<rparr> else st))))"

definition classifyProbableHeaders ::
    "fd_env \<Rightarrow> baseForkDetector \<Rightarrow> u64 \<Rightarrow> headerInfo list \<Rightarrow> checkpointInfo \<Rightarrow> u64 \<Rightarrow> bool \<times> bool" where
  "classifyProbableHeaders e s nonce infos final settledNonce =
     (let st = fold (classify_step e s nonce infos final settledNonce) [0..<length infos]
        \<lparr>cls_evidence = False, cls_actionable = False, cls_uniqueProofs = 0\<rparr> in
      (cls_evidence st, cls_actionable st))"

lemma walk_closer: "(nonce :: 64 word) \<noteq> goal \<Longrightarrow> unat (goal - (nonce + 1)) < unat (goal - nonce)"
proof -
  assume "nonce \<noteq> goal"
  then have "goal - nonce \<noteq> 0" by simp
  then have "unat (goal - nonce - 1) < unat (goal - nonce)" by (rule measure_unat)
  then show ?thesis by (simp add: diff_diff_add)
qed

function losing_suffix_loop ::
    "fd_env \<Rightarrow> baseForkDetector \<Rightarrow> u64 \<Rightarrow> u64 \<Rightarrow> headerInfo list \<Rightarrow> bool" where
  "losing_suffix_loop e s rawProbable nonce previous =
     (let infos = headers_at s nonce in
      if \<not> hasProvenHeader infos \<or> \<not> allProvenHeadersHaveKnownV3Ancestry e infos then False
      else if \<not> allProvenHeadersExtendFrontier infos previous then False
      else if nonce = rawProbable then True
      else losing_suffix_loop e s rawProbable (nonce + 1) infos)"
  by pat_completeness auto
termination
  by (relation "measure (\<lambda>(e, s, goal, nonce, _). unat (goal - nonce))") (auto intro: walk_closer)

definition isCompleteLosingSuffix :: "fd_env \<Rightarrow> baseForkDetector \<Rightarrow> u64 \<Rightarrow> u64 \<Rightarrow> bool" where
  "isCompleteLosingSuffix e s firstNonce rawProbable =
     (if firstNonce = 0 then False
      else if firstNonce = rawProbable then True
      else losing_suffix_loop e s rawProbable (firstNonce + 1) (headers_at s firstNonce))"

text \<open>What one turn of the branch walk decides: stop with a nonce, or go on with the chosen header.\<close>

definition branch_turn ::
    "fd_env \<Rightarrow> baseForkDetector \<Rightarrow> checkpointInfo \<Rightarrow> u64 \<Rightarrow> u64 \<Rightarrow> bytes \<Rightarrow> u64 \<Rightarrow> u64 + headerInfo" where
  "branch_turn e s lastCp rawProbable nonce selectedHash actionableNonce =
     (let infos = headers_at s nonce; checked = (\<lambda>selected.
          if nonce \<le> cp_nonce lastCp \<and> \<not> processedHeaderMatches infos (hi_hash selected) then Inl rawProbable
          else Inr selected) in
      case getUniqueNotarizedHeader infos of (notarized, numNotarizedHashes) \<Rightarrow>
      if numNotarizedHashes > 1 then Inl rawProbable
      else (case notarized of
          Some n \<Rightarrow>
            if \<not> isAsyncExecutionEnabled e n \<or> hi_prevHash n = [] \<or> hi_prevHash n \<noteq> selectedHash
            then Inl rawProbable
            else checked n
        | None \<Rightarrow>
            if \<not> hasProvenHeader infos \<or> \<not> allProvenHeadersHaveKnownV3Ancestry e infos then Inl rawProbable
            else (case getPreferredProvenChild infos selectedHash of (preferred, differentEpochs) \<Rightarrow>
              if differentEpochs then Inl rawProbable
              else (case preferred of
                  None \<Rightarrow>
                    if nonce \<le> cp_nonce lastCp then Inl rawProbable
                    else if isCompleteLosingSuffix e s nonce rawProbable then Inl actionableNonce
                    else Inl rawProbable
                | Some h \<Rightarrow> checked h))))"

function branch_loop ::
    "fd_env \<Rightarrow> baseForkDetector \<Rightarrow> checkpointInfo \<Rightarrow> u64 \<Rightarrow> u64 \<Rightarrow> bytes \<Rightarrow> u64 \<Rightarrow> u64" where
  "branch_loop e s lastCp rawProbable nonce selectedHash actionableNonce =
     (case branch_turn e s lastCp rawProbable nonce selectedHash actionableNonce of
        Inl result \<Rightarrow> result
      | Inr selected \<Rightarrow>
          if nonce = rawProbable then nonce
          else branch_loop e s lastCp rawProbable (nonce + 1) (hi_hash selected) nonce)"
  by pat_completeness auto
termination
  by (relation "measure (\<lambda>(e, s, lastCp, goal, nonce, _). unat (goal - nonce))") (auto intro: walk_closer)

definition computeBranchAwareProbable ::
    "fd_env \<Rightarrow> baseForkDetector \<Rightarrow> checkpointInfo \<Rightarrow> checkpointInfo \<Rightarrow> u64 \<Rightarrow> u64" where
  "computeBranchAwareProbable e s final lastCp rawProbable =
     branch_loop e s lastCp rawProbable (cp_nonce final + 1) (cp_hash final) (cp_nonce final)"

text \<open>The loop over the map: whether a branch must be selected, and the highest actionable nonce.\<close>

definition probable_step ::
    "fd_env \<Rightarrow> baseForkDetector \<Rightarrow> u64 \<times> headerInfo list \<Rightarrow> bool \<times> u64 \<Rightarrow> bool \<times> u64" where
  "probable_step e s = (\<lambda>(nonce, infos) (requiresBranchSelection, probable).
     case classifyProbableHeaders e s nonce infos (finalCheckpoint s) (cp_nonce (settledCheckpoint s)) of
       (evidence, actionable) \<Rightarrow>
         (requiresBranchSelection \<or> nonce \<ge> cp_nonce (finalCheckpoint s) \<and> evidence,
          if nonce > probable \<and> actionable then nonce else probable))"

definition computeProbableHighestNonce :: "fd_env \<Rightarrow> baseForkDetector \<Rightarrow> u64" where
  "computeProbableHighestNonce e s =
     (case fold (probable_step e s) (fd_headers s) (False, cp_nonce (finalCheckpoint s)) of
        (requiresBranchSelection, probable) \<Rightarrow>
          if requiresBranchSelection \<and> probable > cp_nonce (finalCheckpoint s)
          then computeBranchAwareProbable e s (finalCheckpoint s) (lastCheckpoint s) probable
          else probable)"

definition recomputeProbableHighestNonce :: "fd_env \<Rightarrow> baseForkDetector \<Rightarrow> baseForkDetector" where
  "recomputeProbableHighestNonce e s = setProbableHighestNonce (computeProbableHighestNonce e s) s"

definition ResetProbableHighestNonce :: "fd_env \<Rightarrow> baseForkDetector \<Rightarrow> baseForkDetector" where
  "ResetProbableHighestNonce e s = recomputeProbableHighestNonce e
     (cleanupReceivedHeadersHigherThanNonce e (cp_nonce (lastCheckpoint s)) s)"

definition ResetFork :: "fd_env \<Rightarrow> baseForkDetector \<Rightarrow> baseForkDetector" where
  "ResetFork e s = setLastRoundWithForcedFork (round_Index e) (ResetProbableHighestNonce e s)"

section \<open>Reporting forks\<close>

definition isSyncing :: "baseForkDetector \<Rightarrow> bool" where
  "isSyncing s \<longleftrightarrow> sint (probableHighestNonce s - cp_nonce (lastCheckpoint s)) > 0"

definition isConsensusStuck :: "fd_env \<Rightarrow> baseForkDetector \<Rightarrow> bool" where
  "isConsensusStuck e s =
     (if lastRoundWithForcedFork s = round_Index e then False
      else if isSyncing s then False
      else if sint (round_Index e - cp_round (lastCheckpoint s)) \<le>
          uint (GetMaxRoundsWithoutCommittedBlock e (round_Index e)) then False
      else if \<not> IsInProperRound (round_Index e) then False
      else \<not> (cp_hash (lastCheckpoint s) \<noteq> [] \<and> HasProof e (fd_shardID s) (cp_hash (lastCheckpoint s))))"

text \<open>The last processed header of the list, \<open>None\<close> for nil.\<close>

definition getProcessedHeaderInfo ::
    "fd_env \<Rightarrow> baseForkDetector \<Rightarrow> headerInfo list \<Rightarrow> headerInfo option" where
  "getProcessedHeaderInfo e s infos =
     (let processed = filter (\<lambda>info. \<not> isHeaderExcluded e s (hi_round info) (hi_hash info) \<and>
          hi_state info = BHProcessed) infos in
      if processed = [] then None else Some (last processed))"

definition isForkCandidateForProcessedHeader :: "fd_env \<Rightarrow> headerInfo \<Rightarrow> headerInfo \<Rightarrow> bool" where
  "isForkCandidateForProcessedHeader e processed candidate =
     (if \<not> isAsyncExecutionEnabled e processed \<or> \<not> isAsyncExecutionEnabled e candidate \<or>
         hi_state candidate = BHNotarized \<or> hi_prevHash processed = [] then True
      else hi_prevHash candidate \<noteq> [] \<and> hi_prevHash candidate = hi_prevHash processed)"

definition computeForkInfo ::
    "u64 \<Rightarrow> u32 \<Rightarrow> headerInfo \<Rightarrow> bytes \<times> u64 \<times> u32 \<Rightarrow> bytes \<times> u64 \<times> u32" where
  "computeForkInfo highestReceived maxEpoch info = (\<lambda>(lastHash, lastRound, lastEpoch).
     if hi_state info = BHReceivedTooLate \<and> highestReceived > hi_nonce info then (lastHash, lastRound, lastEpoch)
     else if hi_state info \<noteq> BHNotarized \<and> hi_epoch info < maxEpoch then (lastHash, lastRound, lastEpoch)
     else (let currentForkRound = (if hi_state info = BHNotarized then 0 else hi_round info) in
       if isLowerRoundOrHash currentForkRound (hi_hash info) lastRound lastHash
       then (hi_hash info, currentForkRound, hi_epoch info)
       else (lastHash, lastRound, lastEpoch)))"

definition shouldSignalFork :: "u64 \<Rightarrow> headerInfo \<Rightarrow> bytes \<times> u64 \<times> u32 \<Rightarrow> bool" where
  "shouldSignalFork highestReceived info = (\<lambda>(lastForkHash, lastForkRound, lastForkEpoch).
     if hi_hash info = lastForkHash then False
     else if lastForkRound \<noteq> 0 \<and> hi_epoch info > lastForkEpoch then False
     else if lastForkRound \<noteq> 0 \<and> hi_epoch info < lastForkEpoch then True
     else hi_round info > lastForkRound \<or>
       (hi_round info = lastForkRound \<and> bytes_Compare (hi_hash info) lastForkHash > 0) \<and>
       \<not> highestReceived > hi_nonce info)"

definition fork_candidates ::
    "fd_env \<Rightarrow> baseForkDetector \<Rightarrow> headerInfo \<Rightarrow> headerInfo list \<Rightarrow> headerInfo list" where
  "fork_candidates e s self infos = filter (\<lambda>info. \<not> isHeaderExcluded e s (hi_round info) (hi_hash info) \<and>
     hi_state info \<noteq> BHProcessed \<and> isForkCandidateForProcessedHeader e self info) infos"

text \<open>One nonce of the loop over the map; the pair is the report and \<open>maxForkHeaderEpoch\<close>.\<close>

definition check_nonce ::
    "fd_env \<Rightarrow> baseForkDetector \<Rightarrow> u64 \<times> headerInfo list \<Rightarrow> ForkInfo \<times> u32 \<Rightarrow> ForkInfo \<times> u32" where
  "check_nonce e s = (\<lambda>(nonce, infos) (report, maxEpoch).
     if length infos = 1 then (report, maxEpoch)
     else if nonce \<le> cp_nonce (finalCheckpoint s) then (report, maxEpoch)
     else if fd_hasAmbiguousNotarization s \<and> isAmbiguousNotarizationLocked e s nonce then (report, maxEpoch)
     else (case getProcessedHeaderInfo e s infos of
         None \<Rightarrow> (report, maxEpoch)
       | Some self \<Rightarrow>
           (let candidates = fork_candidates e s self infos;
              maxEpoch = fold (\<lambda>info m. if hi_epoch info > m then hi_epoch info else m) candidates (hi_epoch self);
              best = fold (computeForkInfo (highestNonceReceived s) maxEpoch) candidates ([], -1, 0) in
            if shouldSignalFork (highestNonceReceived s) self best
            then ((let report = report\<lparr>IsDetected := True\<rparr> in
                if nonce < fork_Nonce report
                then report\<lparr>fork_Nonce := nonce, fork_Round := fst (snd best), fork_Hash := fst best\<rparr>
                else report), maxEpoch)
            else (report, maxEpoch))))"

definition CheckFork :: "fd_env \<Rightarrow> baseForkDetector \<Rightarrow> ForkInfo \<times> baseForkDetector" where
  "CheckFork e s =
     (if isConsensusStuck e s then (NewForkInfo\<lparr>IsDetected := True\<rparr>, s)
      else if getRollBackNonce s < -1
      then (NewForkInfo\<lparr>IsDetected := True, fork_Nonce := getRollBackNonce s\<rparr>, SetRollBackNonce (-1) s)
      else (case fold (check_nonce e s) (fd_headers s) (NewForkInfo, fd_maxForkHeaderEpoch s) of
          (report, maxEpoch) \<Rightarrow> (report, s\<lparr>fd_maxForkHeaderEpoch := maxEpoch\<rparr>)))"

section \<open>Advancing the checkpoints\<close>

definition isSupernovaForHeader :: "fd_env \<Rightarrow> HeaderHandler \<Rightarrow> bool" where
  "isSupernovaForHeader e header \<longleftrightarrow> IsHeaderV3 header \<and> IsCrossHeaderSettlementEnabledForHeader e header"

definition isParentCheckpoint :: "checkpointInfo \<Rightarrow> HeaderHandler \<Rightarrow> bool" where
  "isParentCheckpoint c header =
     (if cp_nonce c + 1 \<noteq> GetNonce header then False
      else cp_hash c = [] \<or> cp_hash c = GetPrevHash header)"

definition hasCompetingSiblingEvidence ::
    "fd_env \<Rightarrow> baseForkDetector \<Rightarrow> u64 \<Rightarrow> bytes \<Rightarrow> bytes \<Rightarrow> bool" where
  "hasCompetingSiblingEvidence e s nonce hash parentHash \<longleftrightarrow>
     (\<exists>info \<in> set (headers_at s nonce). hi_hash info \<noteq> hash \<and> isAsyncExecutionEnabled e info \<and>
        (hi_state info = BHNotarized \<or>
         hi_hasProof info \<and> (hi_prevHash info = [] \<or> hi_prevHash info = parentHash)))"

text \<open>\<open>look\<close> is the look at the proofs pool the caller takes, the first or the second one.\<close>

definition canInstantlyFinalizeFromCheckpoint ::
    "fd_env \<Rightarrow> (u32 \<Rightarrow> u64 \<Rightarrow> bytes \<Rightarrow> bool) \<Rightarrow> HeaderHandler \<Rightarrow> bytes \<Rightarrow> checkpointInfo \<Rightarrow> baseForkDetector \<Rightarrow> bool" where
  "canInstantlyFinalizeFromCheckpoint e look header headerHash final s =
     (if \<not> isSupernovaForHeader e header then True
      else if \<not> isParentCheckpoint final header then False
      else if (IsHeaderV3 header \<and> IsCrossHeaderSettlementEnabledForHeader e header) \<and>
          (look (fd_shardID s) (GetNonce header) headerHash \<or>
           hasCompetingSiblingEvidence e s (GetNonce header) headerHash (GetPrevHash header)) then False
      else \<not> IsContendedRound (GetRound header) (cp_round final))"

definition canInstantlyFinalize :: "fd_env \<Rightarrow> HeaderHandler \<Rightarrow> bytes \<Rightarrow> baseForkDetector \<Rightarrow> bool" where
  "canInstantlyFinalize e header headerHash s =
     canInstantlyFinalizeFromCheckpoint e (HasProofForDifferentHash e) header headerHash (finalCheckpoint s) s"

definition setInstantFinalCheckpoint ::
    "fd_env \<Rightarrow> HeaderHandler \<Rightarrow> bytes \<Rightarrow> checkpointInfo \<Rightarrow> baseForkDetector \<Rightarrow> baseForkDetector" where
  "setInstantFinalCheckpoint e header headerHash newCheckpoint s =
     (let supporting = finalCheckpoint s in
      if \<not> canInstantlyFinalizeFromCheckpoint e (HasProofForDifferentHash e) header headerHash supporting s then s
      else if \<not> isSupernovaForHeader e header then setFinalAndSettledCheckpoint newCheckpoint s
      else (let s = setFinalCheckpoint newCheckpoint s in
        if \<not> canInstantlyFinalizeFromCheckpoint e (HasProofForDifferentHash_again e) header headerHash supporting s
        then setFinalCheckpoint supporting s else s))"

text \<open>Indexes of the last processed and the last notarized header, \<open>None\<close> for -1; two of different hash
  with asynchronous execution give none of both.\<close>

fun indexes_loop ::
    "fd_env \<Rightarrow> headerInfo list \<Rightarrow> nat option \<Rightarrow> nat option \<Rightarrow> nat list \<Rightarrow> nat option \<times> nat option" where
  "indexes_loop e infos processed notarized [] = (processed, notarized)"
| "indexes_loop e infos processed notarized (index # rest) =
     (let info = infos ! index;
        conflict = (\<lambda>other. case other of None \<Rightarrow> False | Some i \<Rightarrow> hi_hash (infos ! i) \<noteq> hi_hash info \<and>
          (isAsyncExecutionEnabled e (infos ! i) \<or> isAsyncExecutionEnabled e info)) in
      case hi_state info of
        BHProcessed \<Rightarrow> if conflict processed then (None, None)
          else indexes_loop e infos (Some index) notarized rest
      | BHNotarized \<Rightarrow> if conflict notarized then (None, None)
          else indexes_loop e infos processed (Some index) rest
      | _ \<Rightarrow> indexes_loop e infos processed notarized rest)"

definition getProcessedAndNotarizedIndexes :: "fd_env \<Rightarrow> headerInfo list \<Rightarrow> nat option \<times> nat option" where
  "getProcessedAndNotarizedIndexes e infos = indexes_loop e infos None None [0..<length infos]"

fun child_loop :: "bytes \<Rightarrow> headerInfo option \<Rightarrow> headerInfo list \<Rightarrow> headerInfo option" where
  "child_loop parentHash selected [] = selected"
| "child_loop parentHash selected (info # infos) =
     (if hi_state info \<noteq> BHProcessed \<or> hi_prevHash info \<noteq> parentHash then child_loop parentHash selected infos
      else if (case selected of None \<Rightarrow> False | Some p \<Rightarrow> hi_hash p \<noteq> hi_hash info) then None
      else child_loop parentHash (Some info) infos)"

definition processedChildOnBranchLocked :: "baseForkDetector \<Rightarrow> u64 \<Rightarrow> bytes \<Rightarrow> headerInfo option" where
  "processedChildOnBranchLocked s nonce parentHash = child_loop parentHash None (headers_at s nonce)"

text \<open>The first loop: the processed records lead from the settled hash to the candidate.\<close>

function ancestry_reaches :: "baseForkDetector \<Rightarrow> checkpointInfo \<Rightarrow> u64 \<Rightarrow> bytes \<Rightarrow> bool" where
  "ancestry_reaches s candidate nonce parentHash =
     (case processedChildOnBranchLocked s nonce parentHash of
        None \<Rightarrow> False
      | Some processed \<Rightarrow>
          if nonce = cp_nonce candidate \<and> hi_hash processed \<noteq> cp_hash candidate then False
          else if nonce = cp_nonce candidate then True
          else ancestry_reaches s candidate (nonce + 1) (hi_hash processed))"
  by pat_completeness auto
termination
  by (relation "measure (\<lambda>(s, candidate, nonce, _). unat (cp_nonce candidate - nonce))") (auto intro: walk_closer)

text \<open>The second loop: where the notarization is ambiguous, only the notarized records of the processed
  hash stay. The first loop has found a processed record at each of its nonces.\<close>

function keep_processed_authority ::
    "fd_env \<Rightarrow> checkpointInfo \<Rightarrow> u64 \<Rightarrow> bytes \<Rightarrow> bool \<Rightarrow> baseForkDetector \<Rightarrow> bool \<times> baseForkDetector" where
  "keep_processed_authority e candidate nonce parentHash removed s =
     (case processedChildOnBranchLocked s nonce parentHash of
        None \<Rightarrow> (removed, s)
      | Some processed \<Rightarrow>
          (let infos = headers_at s nonce;
             loses = (\<lambda>info. hi_state info = BHNotarized \<and> hi_hash info \<noteq> hi_hash processed);
             (removed', s') = (if isAmbiguousNotarizationLocked e s nonce
               then (removed \<or> (\<exists>info \<in> set infos. loses info),
                 s\<lparr>fd_headers := AList.update nonce (filter (\<lambda>info. \<not> loses info) infos) (fd_headers s)\<rparr>)
               else (removed, s)) in
           if nonce = cp_nonce candidate then (removed', s')
           else keep_processed_authority e candidate (nonce + 1) (hi_hash processed) removed' s'))"
  by pat_completeness auto
termination
  by (relation "measure (\<lambda>(e, candidate, nonce, _). unat (cp_nonce candidate - nonce))") (auto intro: walk_closer)

definition reconcileAuthorityAlongProcessedAncestryLocked ::
    "fd_env \<Rightarrow> checkpointInfo \<Rightarrow> baseForkDetector \<Rightarrow> bool \<times> baseForkDetector" where
  "reconcileAuthorityAlongProcessedAncestryLocked e candidate s =
     (let settled = settledCheckpoint s in
      if cp_nonce candidate \<le> cp_nonce settled then (True, s)
      else if \<not> ancestry_reaches s candidate (cp_nonce settled + 1) (cp_hash settled) then (False, s)
      else (case keep_processed_authority e candidate (cp_nonce settled + 1) (cp_hash settled) False s of
          (removed, s) \<Rightarrow> (True, if removed then refreshAmbiguousNotarizationLocked e s else s)))"

definition getCleanProcessedChild ::
    "fd_env \<Rightarrow> baseForkDetector \<Rightarrow> checkpointInfo \<Rightarrow> headerInfo option" where
  "getCleanProcessedChild e s parent =
     (case find (\<lambda>info. hi_state info = BHProcessed \<and> hi_hasProof info \<and> hi_prevHash info = cp_hash parent \<and>
          \<not> IsContendedRound (hi_round info) (cp_round parent) \<and>
          IsFlagEnabledInEpoch e SupernovaFlag (hi_epoch info)) (headers_at s (cp_nonce parent + 1)) of
        None \<Rightarrow> None
      | Some child \<Rightarrow>
          if \<not> isAsyncExecutionEnabled e child then Some child
          else if hasCompetingSiblingEvidence e s (hi_nonce child) (hi_hash child) (hi_prevHash child) then None
          else Some child)"

text \<open>One turn at the frontier \<open>final\<close>: stop with a state, or go on from the clean processed child.\<close>

definition finalize_turn ::
    "fd_env \<Rightarrow> checkpointInfo \<Rightarrow> baseForkDetector \<Rightarrow> baseForkDetector + checkpointInfo \<times> baseForkDetector" where
  "finalize_turn e final s =
     (case getCleanProcessedChild e s final of
        None \<Rightarrow> Inl s
      | Some child \<Rightarrow>
          if isAsyncExecutionEnabled e child \<and>
             HasProofForDifferentHash e (fd_shardID s) (hi_nonce child) (hi_hash child) then Inl s
          else (case getCleanProcessedChild e s final of
              None \<Rightarrow> Inl s
            | Some confirmed \<Rightarrow>
                if hi_hash confirmed \<noteq> hi_hash child then Inl s
                else (let new = \<lparr>cp_nonce = hi_nonce confirmed, cp_round = hi_round confirmed,
                      cp_hash = hi_hash confirmed\<rparr>;
                    s' = (if isAsyncExecutionEnabled e confirmed then advanceFinalCheckpoint new s
                      else advanceFinalAndSettledCheckpoint new s) in
                  if isAsyncExecutionEnabled e confirmed \<and>
                     HasProofForDifferentHash_again e (fd_shardID s) (hi_nonce confirmed) (hi_hash confirmed)
                  then Inl (setFinalCheckpoint final s')
                  else Inr (new, s'))))"

partial_function (option) finalize_loop ::
    "fd_env \<Rightarrow> checkpointInfo \<Rightarrow> baseForkDetector \<Rightarrow> baseForkDetector option" where
  "finalize_loop e final s = (case finalize_turn e final s of
       Inl s' \<Rightarrow> Some s'
     | Inr next \<Rightarrow> finalize_loop e (fst next) (snd next))"

declare finalize_loop.simps [code]

definition finalizeCleanProcessedDescendants :: "fd_env \<Rightarrow> baseForkDetector \<Rightarrow> baseForkDetector" where
  "finalizeCleanProcessedDescendants e s =
     (if cp_hash (finalCheckpoint s) = [] then s else the (finalize_loop e (finalCheckpoint s) s))"

text \<open>The loop over the map: the highest nonce whose processed header is proven and notarized, and whether
  it has asynchronous execution.\<close>

definition notarized_step ::
    "fd_env \<Rightarrow> u64 \<times> headerInfo list \<Rightarrow> checkpointInfo \<times> bool \<times> bool \<Rightarrow> checkpointInfo \<times> bool \<times> bool" where
  "notarized_step e = (\<lambda>(nonce, infos) (final, wasSet, isV3).
     if cp_nonce final \<ge> nonce then (final, wasSet, isV3)
     else (case getProcessedAndNotarizedIndexes e infos of
         (Some p, Some n) \<Rightarrow>
           if \<not> hi_hasProof (infos ! p) then (final, wasSet, isV3)
           else if hi_hash (infos ! n) \<noteq> hi_hash (infos ! p) then (final, wasSet, isV3)
           else (\<lparr>cp_nonce = nonce, cp_round = hi_round (infos ! n), cp_hash = hi_hash (infos ! n)\<rparr>,
             True, isAsyncExecutionEnabled e (infos ! p))
       | _ \<Rightarrow> (final, wasSet, isV3)))"

definition highest_notarized :: "fd_env \<Rightarrow> baseForkDetector \<Rightarrow> checkpointInfo \<times> bool \<times> bool" where
  "highest_notarized e s =
     fold (notarized_step e) (fd_headers s) (\<lparr>cp_nonce = 0, cp_round = 0, cp_hash = []\<rparr>, False, False)"

definition settle_highest_notarized :: "fd_env \<Rightarrow> baseForkDetector \<Rightarrow> baseForkDetector" where
  "settle_highest_notarized e s = (case highest_notarized e s of (final, wasSet, isV3) \<Rightarrow>
     if \<not> wasSet then s
     else if \<not> isV3 then advanceFinalAndSettledCheckpoint final s
     else (case reconcileAuthorityAlongProcessedAncestryLocked e final s of (canAdvance, s) \<Rightarrow>
       if canAdvance then advanceFinalAndSettledCheckpoint final s else s))"

definition computeFinalCheckpointLocked :: "fd_env \<Rightarrow> baseForkDetector \<Rightarrow> baseForkDetector" where
  "computeFinalCheckpointLocked e s = finalizeCleanProcessedDescendants e (settle_highest_notarized e s)"

definition computeFinalCheckpoint :: "fd_env \<Rightarrow> baseForkDetector \<Rightarrow> baseForkDetector" where
  "computeFinalCheckpoint e s = (case fd_kind s of
       ShardDetector \<Rightarrow> computeFinalCheckpointLocked e s
     | MetaDetector \<Rightarrow> s)"

section \<open>Headers and proofs from outside\<close>

text \<open>Self notarized headers come with their hashes, one per header. The result tells whether a record was added.\<close>

fun append_notarized ::
    "fd_env \<Rightarrow> checkpointInfo \<Rightarrow> (HeaderHandler \<times> bytes) list \<Rightarrow> bool \<Rightarrow> baseForkDetector \<Rightarrow> bool \<times> baseForkDetector" where
  "append_notarized e settled [] added s = (added, s)"
| "append_notarized e settled ((header, headerHash) # rest) added s =
     (if GetNonce header < cp_nonce settled then append_notarized e settled rest added s
      else if GetNonce header = cp_nonce settled then append_notarized e settled rest added s
      else (case append_info e \<lparr>hi_epoch = GetEpoch header, hi_nonce = GetNonce header,
              hi_round = GetRound header, hi_hash = headerHash, hi_prevHash = GetPrevHash header,
              hi_state = BHNotarized, hi_hasProof = HasProof e (GetShardID header) headerHash,
              hi_selectedByAuthority = False\<rparr> s of
          (appended, s) \<Rightarrow> append_notarized e settled rest (added \<or> appended) s))"

definition appendSelfNotarizedHeaders ::
    "fd_env \<Rightarrow> (HeaderHandler \<times> bytes) list \<Rightarrow> baseForkDetector \<Rightarrow> bool \<times> baseForkDetector" where
  "appendSelfNotarizedHeaders e selfNotarized s = append_notarized e (settledCheckpoint s) selfNotarized False s"

definition shard_doJobOnBHProcessed ::
    "fd_env \<Rightarrow> HeaderHandler \<Rightarrow> bytes \<Rightarrow> (HeaderHandler \<times> bytes) list \<Rightarrow> baseForkDetector \<Rightarrow> baseForkDetector" where
  "shard_doJobOnBHProcessed e header headerHash selfNotarized s =
     (let s = snd (appendSelfNotarizedHeaders e selfNotarized s);
        s = computeFinalCheckpointLocked e s;
        newCheckpoint = \<lparr>cp_nonce = GetNonce header, cp_round = GetRound header, cp_hash = headerHash\<rparr>;
        s = addCheckpoint newCheckpoint s;
        s = (if IsFlagEnabledAfterEpochsStartBlock e header AndromedaFlag
          then setInstantFinalCheckpoint e header headerHash newCheckpoint s else s) in
      removePastOrInvalidRecords e s)"

definition meta_doJobOnBHProcessed ::
    "fd_env \<Rightarrow> HeaderHandler \<Rightarrow> bytes \<Rightarrow> baseForkDetector \<Rightarrow> baseForkDetector" where
  "meta_doJobOnBHProcessed e header headerHash s =
     (let lastCp = lastCheckpoint s;
        s = (if \<not> isSupernovaForHeader e header \<or> isParentCheckpoint lastCp header
          then advanceFinalAndSettledCheckpoint lastCp s else s);
        newCheckpoint = \<lparr>cp_nonce = GetNonce header, cp_round = GetRound header, cp_hash = headerHash\<rparr>;
        s = addCheckpoint newCheckpoint s;
        s = (if IsProofsFlagEnabledForHeader e header
          then setInstantFinalCheckpoint e header headerHash newCheckpoint s else s) in
      removePastOrInvalidRecords e s)"

definition doJobOnBHProcessed ::
    "fd_env \<Rightarrow> HeaderHandler \<Rightarrow> bytes \<Rightarrow> (HeaderHandler \<times> bytes) list \<Rightarrow> baseForkDetector \<Rightarrow> baseForkDetector" where
  "doJobOnBHProcessed e header headerHash selfNotarized s = (case fd_kind s of
       ShardDetector \<Rightarrow> shard_doJobOnBHProcessed e header headerHash selfNotarized s
     | MetaDetector \<Rightarrow> meta_doJobOnBHProcessed e header headerHash s)"

definition isHeaderReceivedTooLate :: "fd_env \<Rightarrow> HeaderHandler \<Rightarrow> BlockHeaderState \<Rightarrow> u64 \<Rightarrow> bool" where
  "isHeaderReceivedTooLate e header state finality =
     (if state = BHProcessed then False
      else sint (GetRound header) < sint (round_Index e - finality))"

definition processReceivedBlock ::
    "fd_env \<Rightarrow> HeaderHandler \<Rightarrow> bytes \<Rightarrow> BlockHeaderState \<Rightarrow> (HeaderHandler \<times> bytes) list \<Rightarrow> baseForkDetector \<Rightarrow>
      baseForkDetector" where
  "processReceivedBlock e header headerHash state selfNotarized s =
     (if isHeaderExcluded e s (GetRound header) headerHash then s
      else (let hasProof = (IsProofsFlagEnabledForHeader e header \<longrightarrow> HasProof e (GetShardID header) headerHash);
          s = setHighestNonceReceived (GetNonce header) s in
        if state = BHProposed \<or> \<not> hasProof then s
        else (let state = (if isHeaderReceivedTooLate e header state 1 then BHReceivedTooLate else state) in
          case appendHeaderInfo e \<lparr>hi_epoch = GetEpoch header, hi_nonce = GetNonce header,
              hi_round = GetRound header, hi_hash = headerHash, hi_prevHash = GetPrevHash header,
              hi_state = state, hi_hasProof = hasProof, hi_selectedByAuthority = False\<rparr> s of
            (result, s) \<Rightarrow>
              if \<not> inserted result \<and> \<not> enriched result then s
              else recomputeProbableHighestNonce e
                (if inserted result \<and> state = BHProcessed
                 then doJobOnBHProcessed e header headerHash selfNotarized s else s))))"

definition processReceivedProof :: "fd_env \<Rightarrow> HeaderProofHandler option \<Rightarrow> baseForkDetector \<Rightarrow> baseForkDetector" where
  "processReceivedProof e proof s = (case proof of
       None \<Rightarrow> s
     | Some p \<Rightarrow>
         if isHeaderExcluded e s (GetHeaderRound p) (GetHeaderHash p) then s
         else recomputeProbableHighestNonce e (snd (appendHeaderInfo e
           \<lparr>hi_epoch = GetHeaderEpoch p, hi_nonce = GetHeaderNonce p, hi_round = GetHeaderRound p,
            hi_hash = GetHeaderHash p, hi_prevHash = [], hi_state = BHReceived, hi_hasProof = True,
            hi_selectedByAuthority = False\<rparr>
           (setHighestNonceReceived (GetHeaderNonce p) s))))"

definition ReceivedProof :: "fd_env \<Rightarrow> HeaderProofHandler option \<Rightarrow> baseForkDetector \<Rightarrow> baseForkDetector" where
  "ReceivedProof = processReceivedProof"

definition ReceivedSelfNotarizedFromCrossHeaders ::
    "fd_env \<Rightarrow> u32 \<Rightarrow> (HeaderHandler \<times> bytes) list \<Rightarrow> baseForkDetector \<Rightarrow> baseForkDetector" where
  "ReceivedSelfNotarizedFromCrossHeaders e shard selfNotarized s =
     (if shard \<noteq> MetachainShardId then s
      else (case appendSelfNotarizedHeaders e selfNotarized s of (appended, s) \<Rightarrow>
        if \<not> appended then s
        else (let s = computeFinalCheckpointLocked e s in
          if \<exists>(header, _) \<in> set selfNotarized. IsHeaderV3 header \<and> IsCrossHeaderSettlementEnabledForHeader e header
          then recomputeProbableHighestNonce e s else s)))"

subsection \<open>Validity of a received header\<close>

text \<open>The genesis time a header implies, in \<open>int64\<close> arithmetic; the division truncates towards zero.\<close>

definition int64_div :: "u64 \<Rightarrow> int \<Rightarrow> u64" where
  "int64_div x d = word_of_int (sint x sdiv d)"

definition checkGenesisTimeForHeaderBeforeSupernova ::
    "fd_env \<Rightarrow> baseForkDetector \<Rightarrow> HeaderHandler \<Rightarrow> fd_error option" where
  "checkGenesisTimeForHeaderBeforeSupernova e s header =
     (case RoundDurationForEpoch e (GetEpoch header) of
        None \<Rightarrow> Some ErrChainParameters
      | Some duration \<Rightarrow>
          let roundDuration = int64_div duration 1000;
            roundDifference = GetRound header - fd_genesisRound s;
            genesisTime = GetTimeStamp header - roundDifference * roundDuration in
          if genesisTime \<noteq> fd_genesisTime s then Some ErrGenesisTimeMissmatch else None)"

definition getPrevSupernovaActivationEpoch :: "u32 \<Rightarrow> u32" where
  "getPrevSupernovaActivationEpoch currentEpoch = (if currentEpoch = 0 then currentEpoch else currentEpoch - 1)"

definition checkGenesisTimeForHeaderAfterSupernovaWithoutRoundActivation ::
    "fd_env \<Rightarrow> baseForkDetector \<Rightarrow> HeaderHandler \<Rightarrow> fd_error option" where
  "checkGenesisTimeForHeaderAfterSupernovaWithoutRoundActivation e s header =
     (case RoundDurationForEpoch e (getPrevSupernovaActivationEpoch (GetEpoch header)) of
        None \<Rightarrow> Some ErrChainParameters
      | Some roundDuration \<Rightarrow>
          let roundDifference = GetRound header - fd_genesisRound s;
            genesisTime = GetTimeStamp header - roundDifference * roundDuration;
            genesisTime = (if \<not> IsFlagEnabledInEpoch e SupernovaFlag 0 then int64_div genesisTime 1000
              else genesisTime) in
          if genesisTime \<noteq> fd_genesisTime s then Some ErrGenesisTimeMissmatch else None)"

definition checkGenesisTimeForHeaderAfterSupernovaWithRoundActivation ::
    "fd_env \<Rightarrow> baseForkDetector \<Rightarrow> HeaderHandler \<Rightarrow> fd_error option" where
  "checkGenesisTimeForHeaderAfterSupernovaWithRoundActivation e s header =
     (case RoundDurationForEpoch e (GetEpoch header) of
        None \<Rightarrow> Some ErrChainParameters
      | Some roundDuration \<Rightarrow>
          let roundDifference = GetRound header - GetActivationRound e in
          if sint roundDifference < 0 then Some ErrGenesisTimeMissmatch
          else (let genesisTime = GetTimeStamp header - roundDifference * roundDuration in
            if genesisTime \<noteq> fd_supernovaGenesisTime s then Some ErrGenesisTimeMissmatch else None))"

definition checkGenesisTimeForHeader :: "fd_env \<Rightarrow> baseForkDetector \<Rightarrow> HeaderHandler \<Rightarrow> fd_error option" where
  "checkGenesisTimeForHeader e s header =
     (if \<not> IsFlagEnabledInEpoch e SupernovaFlag (GetEpoch header)
      then checkGenesisTimeForHeaderBeforeSupernova e s header
      else if \<not> IsFlagEnabledInRound e (GetRound header)
      then checkGenesisTimeForHeaderAfterSupernovaWithoutRoundActivation e s header
      else checkGenesisTimeForHeaderAfterSupernovaWithRoundActivation e s header)"

text \<open>The error and the hash added to the black list; a nil header or hash is \<open>None\<close>.\<close>

definition checkBlockBasicValidity ::
    "fd_env \<Rightarrow> baseForkDetector \<Rightarrow> HeaderHandler option \<Rightarrow> slice \<Rightarrow> fd_error option \<times> bytes list" where
  "checkBlockBasicValidity e s header headerHash = (case header of
       None \<Rightarrow> (Some ErrNilHeader, [])
     | Some header \<Rightarrow> (case headerHash of
           None \<Rightarrow> (Some ErrNilHash, [])
         | Some headerHash \<Rightarrow>
             if isHeaderExcluded e s (GetRound header) headerHash then (Some ErrRoundExcluded, [])
             else (let finalRound = cp_round (finalCheckpoint s); finalNonce = cp_nonce (finalCheckpoint s);
                 nextRound = IndexForCurrentTime e + 1 in
               if bl_Has e (GetPrevHash header) then (Some ErrHeaderIsBlackListed, [headerHash])
               else if checkGenesisTimeForHeader e s header \<noteq> None
               then (Some ErrGenesisTimeMissmatch, [headerHash])
               else if GetRound header < finalRound then (Some ErrLowerRoundInBlock, [])
               else if GetNonce header < finalNonce then (Some ErrLowerNonceInBlock, [])
               else if sint nextRound < 0 \<or> GetRound header > nextRound then (Some ErrHigherRoundInBlock, [])
               else if GetRound header - finalRound < GetNonce header - finalNonce
               then (Some ErrHigherNonceInBlock, [])
               else (None, []))))"

definition AddHeader ::
    "fd_env \<Rightarrow> HeaderHandler option \<Rightarrow> slice \<Rightarrow> BlockHeaderState \<Rightarrow> (HeaderHandler \<times> bytes) list \<Rightarrow>
      baseForkDetector \<Rightarrow> fd_error option \<times> bytes list \<times> baseForkDetector" where
  "AddHeader e header headerHash state selfNotarized s =
     (case checkBlockBasicValidity e s header headerHash of
        (Some err, blackListed) \<Rightarrow> (Some err, blackListed, s)
      | (None, blackListed) \<Rightarrow> (None, blackListed,
          processReceivedBlock e (the header) (slice_str headerHash) state selfNotarized s))"

section \<open>Removal and reconciliation\<close>

definition RemoveHeader :: "fd_env \<Rightarrow> u64 \<Rightarrow> bytes \<Rightarrow> baseForkDetector \<Rightarrow> baseForkDetector" where
  "RemoveHeader e nonce hash s =
     (if nonce \<le> cp_nonce (finalCheckpoint s) then s
      else if HasProof e (fd_shardID s) hash then s
      else (let s = removeCheckpointWithNonce nonce s;
          s = put_headers nonce (filter (\<lambda>info. \<not> (hi_state info \<noteq> BHNotarized \<and> hash = hi_hash info))
            (headers_at s nonce)) s in
        recomputeProbableHighestNonce e (computeFinalCheckpoint e s)))"

text \<open>The records a reverted block leaves: those of other hashes, the notarized ones, and one received
  record as evidence of the proof.\<close>

definition proof_evidence :: "fd_env \<Rightarrow> bytes \<Rightarrow> headerInfo list \<Rightarrow> headerInfo list" where
  "proof_evidence e hash infos =
     (case find (\<lambda>info. hi_hash info = hash \<and> hi_state info \<noteq> BHNotarized \<and> hi_hasProof info \<and>
          isAsyncExecutionEnabled e info) infos of
        None \<Rightarrow> []
      | Some info \<Rightarrow> [\<lparr>hi_epoch = hi_epoch info, hi_nonce = hi_nonce info, hi_round = hi_round info,
          hi_hash = hi_hash info, hi_prevHash = hi_prevHash info, hi_state = BHReceived,
          hi_hasProof = True, hi_selectedByAuthority = False\<rparr>])"

definition RemoveCommittedHeader :: "fd_env \<Rightarrow> u64 \<Rightarrow> bytes \<Rightarrow> baseForkDetector \<Rightarrow> baseForkDetector" where
  "RemoveCommittedHeader e nonce hash s =
     (if nonce \<le> cp_nonce (finalCheckpoint s) then s
      else (let s = removeCheckpointWithNonce nonce s;
          s = put_headers nonce (filter (\<lambda>info. hi_hash info \<noteq> hash \<or> hi_state info = BHNotarized)
            (headers_at s nonce) @ proof_evidence e hash (headers_at s nonce)) s;
          s = refreshAmbiguousNotarizationLocked e s in
        recomputeProbableHighestNonce e (computeFinalCheckpoint e s)))"

text \<open>The highest processed record above the settled checkpoint and below the nonce.\<close>

definition processed_below_step ::
    "u64 \<Rightarrow> u64 \<times> headerInfo list \<Rightarrow> checkpointInfo \<Rightarrow> checkpointInfo" where
  "processed_below_step nonce = (\<lambda>(headerNonce, infos) newFinal.
     if headerNonce \<ge> nonce \<or> headerNonce \<le> cp_nonce newFinal then newFinal
     else (case find (\<lambda>info. hi_state info = BHProcessed) infos of
         None \<Rightarrow> newFinal
       | Some info \<Rightarrow> \<lparr>cp_nonce = hi_nonce info, cp_round = hi_round info, cp_hash = hi_hash info\<rparr>))"

definition highestProcessedCheckpointBelowLocked :: "u64 \<Rightarrow> baseForkDetector \<Rightarrow> checkpointInfo" where
  "highestProcessedCheckpointBelowLocked nonce s =
     fold (processed_below_step nonce) (fd_headers s) (settledCheckpoint s)"

definition ReconcileFinalCheckpoint :: "u64 \<Rightarrow> baseForkDetector \<Rightarrow> bool \<times> baseForkDetector" where
  "ReconcileFinalCheckpoint nonce s =
     (if nonce = 0 then (False, s)
      else if cp_nonce (finalCheckpoint s) \<noteq> nonce \<or> nonce \<le> cp_nonce (settledCheckpoint s) then (False, s)
      else (True, setFinalCheckpoint (highestProcessedCheckpointBelowLocked nonce s) s))"

text \<open>Lowering the final checkpoint to the records below the nonce, when it is not below already.\<close>

definition lower_final :: "u64 \<Rightarrow> baseForkDetector \<Rightarrow> baseForkDetector" where
  "lower_final nonce s = (if cp_nonce (finalCheckpoint s) \<ge> nonce
     then setFinalCheckpoint (highestProcessedCheckpointBelowLocked nonce s) s else s)"

definition reconcileFinalCheckpointRecordsBelow ::
    "fd_env \<Rightarrow> u64 \<Rightarrow> baseForkDetector \<Rightarrow> bool \<times> baseForkDetector" where
  "reconcileFinalCheckpointRecordsBelow e nonce s =
     (if nonce = 0 then (False, s)
      else if nonce \<le> cp_nonce (settledCheckpoint s) then (False, s)
      else (let s = s\<lparr>fd_headers := filter (\<lambda>(n, _). \<not> n \<ge> nonce) (fd_headers s)\<rparr>;
          s = refreshAmbiguousNotarizationLocked e s;
          s = s\<lparr>fd_fork := (fd_fork s)\<lparr>fi_checkpoint :=
            filter (\<lambda>c. \<not> cp_nonce c \<ge> nonce) (fi_checkpoint (fd_fork s))\<rparr>\<rparr> in
        (True, lower_final nonce s)))"

definition finishFinalCheckpointReconciliation :: "fd_env \<Rightarrow> baseForkDetector \<Rightarrow> baseForkDetector" where
  "finishFinalCheckpointReconciliation e s = recomputeProbableHighestNonce e s"

definition ReconcileFinalCheckpointBelow ::
    "fd_env \<Rightarrow> u64 \<Rightarrow> baseForkDetector \<Rightarrow> bool \<times> baseForkDetector" where
  "ReconcileFinalCheckpointBelow e nonce s = (case reconcileFinalCheckpointRecordsBelow e nonce s of
     (reconciled, s) \<Rightarrow> (reconciled, if reconciled then finishFinalCheckpointReconciliation e s else s))"

text \<open>
  Notarized records whose parent was rejected are dropped, nonce by nonce, until a nonce without
  records or without a rejected one; the sets of hashes are lists.
\<close>

partial_function (option) removeRejectedNotarizedDescendantsLocked ::
    "u64 \<Rightarrow> bytes list \<Rightarrow> baseForkDetector \<Rightarrow> baseForkDetector option" where
  "removeRejectedNotarizedDescendantsLocked nonce rejected s =
     (if rejected = [] then Some s
      else (case map_of (fd_headers s) nonce of
          None \<Rightarrow> Some s
        | Some infos \<Rightarrow>
            removeRejectedNotarizedDescendantsLocked (nonce + 1)
              (map hi_hash (filter (\<lambda>info. hi_prevHash info \<in> set rejected) infos))
              (s\<lparr>fd_headers := AList.update nonce (filter (\<lambda>info. hi_prevHash info \<notin> set rejected \<or>
                 hi_state info \<noteq> BHNotarized) infos) (fd_headers s)\<rparr>)))"

declare removeRejectedNotarizedDescendantsLocked.simps [code]

definition reconcileFinalCheckpointFromAuthorityRecords ::
    "fd_env \<Rightarrow> u64 \<Rightarrow> bytes \<Rightarrow> baseForkDetector \<Rightarrow> bool \<times> baseForkDetector" where
  "reconcileFinalCheckpointFromAuthorityRecords e nonce selectedHash s =
     (if nonce = 0 \<or> selectedHash = [] then (False, s)
      else if nonce \<le> cp_nonce (settledCheckpoint s) then (False, s)
      else (let infos = headers_at s nonce in
        if \<not> (\<exists>info \<in> set infos. hi_hash info = selectedHash \<and> hi_state info = BHNotarized) \<or>
           \<not> (\<exists>info \<in> set infos. hi_hash info \<noteq> selectedHash \<and> hi_state info = BHProcessed)
        then (False, s)
        else (let rejected = map hi_hash (filter (\<lambda>info. hi_hash info \<noteq> selectedHash) infos);
            preserved = map (\<lambda>info. if hi_hash info = selectedHash \<and> hi_state info = BHNotarized
                then info\<lparr>hi_selectedByAuthority := True\<rparr> else info)
              (filter (\<lambda>info. hi_hash info = selectedHash \<or> hi_state info \<noteq> BHNotarized) infos);
            s = s\<lparr>fd_headers := AList.update nonce preserved (fd_headers s)\<rparr>;
            s = the (removeRejectedNotarizedDescendantsLocked (nonce + 1) rejected s);
            s = refreshAmbiguousNotarizationLocked e s in
          (True, lower_final nonce s))))"

definition ReconcileFinalCheckpointFromAuthority ::
    "fd_env \<Rightarrow> u64 \<Rightarrow> bytes \<Rightarrow> baseForkDetector \<Rightarrow> bool \<times> baseForkDetector" where
  "ReconcileFinalCheckpointFromAuthority e nonce selectedHash s =
     (if selectedHash = [] then (False, s)
      else (case reconcileFinalCheckpointFromAuthorityRecords e nonce selectedHash s of
        (reconciled, s) \<Rightarrow> (reconciled, if reconciled then finishFinalCheckpointReconciliation e s else s)))"

text \<open>
  The selection of one of several notarized hashes. The processed header of the nonce is the first one.
\<close>

definition applyNotarizedHeaderSelection ::
    "fd_env \<Rightarrow> u64 \<Rightarrow> bytes \<Rightarrow> baseForkDetector \<Rightarrow> notarizedHeaderResolution \<times> baseForkDetector" where
  "applyNotarizedHeaderSelection e nonce selectedHash s =
     (if selectedHash = [] then (notarizedHeaderUnresolved, s)
      else if nonce \<le> cp_nonce (settledCheckpoint s) then (notarizedHeaderUnresolved, s)
      else (let infos = headers_at s nonce;
          notarized = filter (\<lambda>info. hi_state info = BHNotarized) infos;
          processed = find (\<lambda>info. hi_state info = BHProcessed) infos;
          selectedNotarizedFound = (\<exists>info \<in> set notarized. hi_hash info = selectedHash);
          selectedCandidateFound = (selectedNotarizedFound \<or>
            (case processed of None \<Rightarrow> False | Some p \<Rightarrow> hi_hash p = selectedHash));
          hasConflictingNotarization = (\<exists>info \<in> set notarized. hi_hash info \<noteq> selectedHash);
          hasV3Context = ((\<exists>info \<in> set notarized. isAsyncExecutionEnabled e info) \<or>
            (case processed of None \<Rightarrow> False | Some p \<Rightarrow> isAsyncExecutionEnabled e p));
          processedHashConflicts = (case processed of None \<Rightarrow> False | Some p \<Rightarrow> hi_hash p \<noteq> selectedHash);
          preserved = map (\<lambda>info. if hi_state info = BHNotarized then info\<lparr>hi_selectedByAuthority := True\<rparr> else info)
            (filter (\<lambda>info. \<not> (hi_state info = BHNotarized \<and> hi_hash info \<noteq> selectedHash)) infos);
          authority = (if selectedNotarizedFound then [] else (case processed of
              None \<Rightarrow> []
            | Some p \<Rightarrow> [p\<lparr>hi_state := BHNotarized, hi_selectedByAuthority := True\<rparr>]));
          s = (if hasV3Context \<and> selectedCandidateFound \<and> hasConflictingNotarization \<and> \<not> processedHashConflicts
            then refreshAmbiguousNotarizationLocked e
              (s\<lparr>fd_headers := AList.update nonce (preserved @ authority) (fd_headers s)\<rparr>)
            else s) in
        if \<not> hasV3Context \<or> \<not> selectedCandidateFound then (notarizedHeaderUnresolved, s)
        else if processedHashConflicts then (notarizedHeaderNeedsReconciliation, s)
        else if \<not> hasConflictingNotarization then (notarizedHeaderUnresolved, s)
        else (notarizedHeaderApplied, recomputeProbableHighestNonce e (computeFinalCheckpoint e s))))"

section \<open>Constructors\<close>

text \<open>
  The arguments of the constructors: the optional round exclusions, which of the interfaces are nil, and
  what the block tracker gives as genesis header (\<open>None\<close> for its error). The result is the detector with
  the round exclusions of its environment. The registration at the block tracker is outside the state.
\<close>

datatype fd_new_error = ErrRoundExclusions exclusion_error | ErrNilRoundHandler | ErrNilBlackListCacher
  | ErrNilBlockTracker | ErrNilEnableEpochsHandler | ErrNilEnableRoundsHandler | ErrNilProofsPool
  | ErrNilChainParametersHandler | ErrNilProcessConfigsHandler | ErrGetSelfNotarizedHeader

record fd_args =
  arg_roundExclusions :: "roundExclusionHandler option list"
  nil_roundHandler :: bool
  nil_blackListHandler :: bool
  nil_blockTracker :: bool
  nil_enableEpochsHandler :: bool
  nil_enableRoundsHandler :: bool
  nil_proofsPool :: bool
  nil_chainParametersHandler :: bool
  nil_processConfigsHandler :: bool
  tracker_genesis :: "HeaderHandler option"

definition new_detector :: "detector_kind \<Rightarrow> u32 \<Rightarrow> u64 \<Rightarrow> u64 \<Rightarrow> HeaderHandler \<Rightarrow> baseForkDetector" where
  "new_detector kind shard genesisTime supernovaGenesisTime genesisHdr =
     (let checkpoint = \<lparr>cp_nonce = GetNonce genesisHdr, cp_round = GetRound genesisHdr, cp_hash = []\<rparr> in
      addCheckpoint checkpoint
       \<lparr>fd_headers = [], fd_fork = \<lparr>fi_checkpoint = [], fi_finalCheckpoint = checkpoint,
            fi_settledCheckpoint = checkpoint, fi_probableHighestNonce = GetNonce genesisHdr,
            fi_highestNonceReceived = GetNonce genesisHdr, fi_rollBackNonce = -1,
            fi_lastRoundWithForcedFork = 0\<rparr>,
         fd_hasAmbiguousNotarization = False, fd_shardID = shard, fd_genesisTime = genesisTime,
         fd_supernovaGenesisTime = supernovaGenesisTime, fd_kind = kind,
         fd_genesisNonce = GetNonce genesisHdr, fd_genesisRound = GetRound genesisHdr,
         fd_maxForkHeaderEpoch = 0, fd_genesisEpoch = GetEpoch genesisHdr\<rparr>)"

text \<open>The checks both constructors make, in their order; the genesis header and the exclusions when they pass.\<close>

definition check_args :: "fd_args \<Rightarrow> fd_new_error + roundExclusionHandler \<times> HeaderHandler" where
  "check_args args = (case ResolveRoundExclusionHandler (arg_roundExclusions args) of
       Inl err \<Rightarrow> Inl (ErrRoundExclusions err)
     | Inr exclusions \<Rightarrow>
         if nil_roundHandler args then Inl ErrNilRoundHandler
         else if nil_blackListHandler args then Inl ErrNilBlackListCacher
         else if nil_blockTracker args then Inl ErrNilBlockTracker
         else if nil_enableEpochsHandler args then Inl ErrNilEnableEpochsHandler
         else if nil_enableRoundsHandler args then Inl ErrNilEnableRoundsHandler
         else if nil_proofsPool args then Inl ErrNilProofsPool
         else if nil_chainParametersHandler args then Inl ErrNilChainParametersHandler
         else if nil_processConfigsHandler args then Inl ErrNilProcessConfigsHandler
         else (case tracker_genesis args of
             None \<Rightarrow> Inl ErrGetSelfNotarizedHeader
           | Some genesisHdr \<Rightarrow> Inr (exclusions, genesisHdr)))"

definition NewShardForkDetector ::
    "fd_args \<Rightarrow> u64 \<Rightarrow> u64 \<Rightarrow> u32 \<Rightarrow> fd_new_error + roundExclusionHandler \<times> baseForkDetector" where
  "NewShardForkDetector args genesisTime supernovaGenesisTime shard = (case check_args args of
       Inl err \<Rightarrow> Inl err
     | Inr (exclusions, genesisHdr) \<Rightarrow>
         Inr (exclusions, new_detector ShardDetector shard genesisTime supernovaGenesisTime genesisHdr))"

definition NewMetaForkDetector ::
    "fd_args \<Rightarrow> u64 \<Rightarrow> u64 \<Rightarrow> fd_new_error + roundExclusionHandler \<times> baseForkDetector" where
  "NewMetaForkDetector args genesisTime supernovaGenesisTime = (case check_args args of
       Inl err \<Rightarrow> Inl err
     | Inr (exclusions, genesisHdr) \<Rightarrow>
         Inr (exclusions, new_detector MetaDetector MetachainShardId genesisTime supernovaGenesisTime genesisHdr))"

section \<open>Calls\<close>

text \<open>
  The calls on a detector. The last two are made when a node restarts its chain, from genesis or from its
  storage; they put both checkpoints anew.
\<close>

datatype fd_call =
    CallAddHeader "HeaderHandler option" slice BlockHeaderState "(HeaderHandler \<times> bytes) list"
  | CallReceivedProof "HeaderProofHandler option"
  | CallReceivedSelfNotarized u32 "(HeaderHandler \<times> bytes) list"
  | CallRemoveHeader u64 bytes
  | CallRemoveCommittedHeader u64 bytes
  | CallReconcileFinalCheckpoint u64
  | CallReconcileFinalCheckpointBelow u64
  | CallReconcileFinalCheckpointFromAuthority u64 bytes
  | CallApplySelection u64 bytes
  | CallGetNotarizedHeaderHash u64
  | CallGetLowestAmbiguous
  | CallCheckFork
  | CallSetRollBackNonce u64
  | CallAddCheckpoint u64 u64 bytes
  | CallResetFork
  | CallResetProbableHighestNonce
  | CallRestoreToGenesis
  | CallSetFinalToLastCheckpoint

fun fd_exec :: "fd_env \<Rightarrow> fd_call \<Rightarrow> baseForkDetector \<Rightarrow> baseForkDetector" where
  "fd_exec e (CallAddHeader header hash state selfNotarized) s =
     snd (snd (AddHeader e header hash state selfNotarized s))"
| "fd_exec e (CallReceivedProof p) s = ReceivedProof e p s"
| "fd_exec e (CallReceivedSelfNotarized shard selfNotarized) s =
     (case fd_kind s of ShardDetector \<Rightarrow> ReceivedSelfNotarizedFromCrossHeaders e shard selfNotarized s
        | MetaDetector \<Rightarrow> s)"
| "fd_exec e (CallRemoveHeader nonce hash) s = RemoveHeader e nonce hash s"
| "fd_exec e (CallRemoveCommittedHeader nonce hash) s = RemoveCommittedHeader e nonce hash s"
| "fd_exec e (CallReconcileFinalCheckpoint nonce) s = snd (ReconcileFinalCheckpoint nonce s)"
| "fd_exec e (CallReconcileFinalCheckpointBelow nonce) s = snd (ReconcileFinalCheckpointBelow e nonce s)"
| "fd_exec e (CallReconcileFinalCheckpointFromAuthority nonce hash) s =
     snd (ReconcileFinalCheckpointFromAuthority e nonce hash s)"
| "fd_exec e (CallApplySelection nonce hash) s = snd (applyNotarizedHeaderSelection e nonce hash s)"
| "fd_exec e (CallGetNotarizedHeaderHash nonce) s = snd (GetNotarizedHeaderHash e nonce s)"
| "fd_exec e CallGetLowestAmbiguous s = snd (getLowestAmbiguousNotarizedHeaderSelection e s)"
| "fd_exec e CallCheckFork s = snd (CheckFork e s)"
| "fd_exec e (CallSetRollBackNonce nonce) s = SetRollBackNonce nonce s"
| "fd_exec e (CallAddCheckpoint nonce round hash) s = AddCheckpoint nonce round hash s"
| "fd_exec e CallResetFork s = ResetFork e s"
| "fd_exec e CallResetProbableHighestNonce s = ResetProbableHighestNonce e s"
| "fd_exec e CallRestoreToGenesis s = RestoreToGenesis s"
| "fd_exec e CallSetFinalToLastCheckpoint s = SetFinalToLastCheckpoint s"

end
