(* ===== verification/Fork_Inv.thy ===== *)
theory Fork_Inv
  imports Fork_Operations
begin

text \<open>
  What every call on a fork detector keeps: the records of a nonce carry that nonce, the settled
  checkpoint is not above the final one and only moves to higher nonces, and on a shard a block that
  becomes settled is one the node has processed with a proof and the metachain has notarized. The three are put
  into one relation \<open>safe\<close> between the state before and after; it is reflexive and transitive, so a
  call is safe because its parts are. It is for detectors whose records and calls are from after the
  Supernova activation, and not for the calls of a restart, which put the checkpoints anew.
\<close>

declare losing_suffix_loop.simps [simp del] branch_loop.simps [simp del]
  ancestry_reaches.simps [simp del] keep_processed_authority.simps [simp del]

section \<open>The relation\<close>

text \<open>
  The regime of a run: the epoch and the round from which the Supernova flags are active (Andromeda is
  active by then), and whether every header is known to name its parent.
\<close>

record regime =
  activationEpoch :: u32
  activationRound :: u64
  parentsNamed :: bool

definition supernova :: "regime \<Rightarrow> fd_env \<Rightarrow> bool" where
  "supernova A e \<longleftrightarrow> (\<forall>flag epoch. activationEpoch A \<le> epoch \<longrightarrow> IsFlagEnabledInEpoch e flag epoch) \<and>
     (\<forall>round. activationRound A \<le> round \<longrightarrow> IsFlagEnabledInRound e round)"

text \<open>A record carries its nonce and is from after the activation; where the regime says so, a processed
  header names its parent.\<close>

definition info_ok :: "regime \<Rightarrow> u64 \<Rightarrow> headerInfo \<Rightarrow> bool" where
  "info_ok A nonce info \<longleftrightarrow> hi_nonce info = nonce \<and> activationEpoch A \<le> hi_epoch info \<and>
     activationRound A \<le> hi_round info \<and>
     (parentsNamed A \<and> hi_state info = BHProcessed \<longrightarrow> hi_prevHash info \<noteq> [])"

lemma supernova_async [simp]: "supernova A e \<Longrightarrow> info_ok A nonce info \<Longrightarrow> isAsyncExecutionEnabled e info"
  by (simp add: supernova_def info_ok_def isAsyncExecutionEnabled_def IsAsyncExecutionEnabledForEpochAndRound_def)

lemma info_okD: "info_ok A nonce info \<Longrightarrow> hi_nonce info = nonce"
  by (simp add: info_ok_def)

definition headers_ok :: "regime \<Rightarrow> (u64 \<times> headerInfo list) list \<Rightarrow> bool" where
  "headers_ok A hs \<longleftrightarrow> distinct (map fst hs) \<and>
     (\<forall>(nonce, infos) \<in> set hs. nonce \<noteq> 0 \<and> (\<forall>info \<in> set infos. info_ok A nonce info))"

text \<open>A hash is supported: processed with a proof, and notarized.\<close>

definition supported :: "bytes \<Rightarrow> headerInfo list \<Rightarrow> bool" where
  "supported hash infos \<longleftrightarrow>
     (\<exists>info \<in> set infos. hi_state info = BHProcessed \<and> hi_hasProof info \<and> hi_hash info = hash) \<and>
     (\<exists>info \<in> set infos. hi_state info = BHNotarized \<and> hi_hash info = hash)"

definition settled_supported :: "baseForkDetector \<Rightarrow> bool" where
  "settled_supported s \<longleftrightarrow>
     supported (cp_hash (settledCheckpoint s)) (headers_at s (cp_nonce (settledCheckpoint s)))"

definition checkpoints_ok :: "regime \<Rightarrow> baseForkDetector \<Rightarrow> bool" where
  "checkpoints_ok A s \<longleftrightarrow> headers_ok A (fd_headers s) \<and> cp_nonce (settledCheckpoint s) \<le> cp_nonce (finalCheckpoint s)"

definition settled_forward :: "baseForkDetector \<Rightarrow> baseForkDetector \<Rightarrow> bool" where
  "settled_forward s t \<longleftrightarrow> settledCheckpoint t = settledCheckpoint s \<or>
     cp_nonce (settledCheckpoint s) < cp_nonce (settledCheckpoint t)"

definition safe :: "regime \<Rightarrow> baseForkDetector \<Rightarrow> baseForkDetector \<Rightarrow> bool" where
  "safe A s t \<longleftrightarrow> fd_kind t = fd_kind s \<and>
     (checkpoints_ok A s \<longrightarrow> checkpoints_ok A t \<and> settled_forward s t \<and>
       (fd_kind s = ShardDetector \<longrightarrow> (settledCheckpoint t = settledCheckpoint s \<or> settled_supported t) \<and>
          (settled_supported s \<longrightarrow> settled_supported t) \<and>
          (parentsNamed A \<and> cp_hash (settledCheckpoint s) = [] \<longrightarrow> settledCheckpoint t = settledCheckpoint s)))"

lemma safe_refl [simp, intro]: "safe A s s"
  by (simp add: safe_def settled_forward_def)

lemma safe_trans [trans]: "safe A s t \<Longrightarrow> safe A t u \<Longrightarrow> safe A s u"
  by (auto simp: safe_def settled_forward_def)

text \<open>The part of the state the relation looks at.\<close>

definition core :: "baseForkDetector \<Rightarrow> _" where
  "core s = (fd_headers s, finalCheckpoint s, settledCheckpoint s, fd_kind s)"

lemma core_eqD:
  assumes "core t = core s"
  shows "fd_headers t = fd_headers s" "finalCheckpoint t = finalCheckpoint s"
    "settledCheckpoint t = settledCheckpoint s" "fd_kind t = fd_kind s" "headers_at t n = headers_at s n"
  using assms by (auto simp: core_def headers_at_def)

lemma safe_core: "core t = core s \<Longrightarrow> safe A s t"
  using core_eqD [of t s] by (simp add: safe_def checkpoints_ok_def settled_forward_def settled_supported_def)

lemma safe_core_trans: "safe A s t \<Longrightarrow> core u = core t \<Longrightarrow> safe A s u"
  using safe_core safe_trans by blast

lemmas fork_access = finalCheckpoint_def settledCheckpoint_def

named_theorems core_simps \<open>operations that leave the relevant part of the state\<close>

lemma core_simple [core_simps]:
  "core (SetRollBackNonce n s) = core s"
  "core (setLastRoundWithForcedFork n s) = core s"
  "core (addCheckpoint c s) = core s"
  "core (AddCheckpoint nonce round hash s) = core s"
  "core (setHighestNonceReceived n s) = core s"
  "core (setProbableHighestNonce n s) = core s"
  "core (removeCheckpointsBehindNonce n s) = core s"
  "core (removePastCheckpoints s) = core s"
  "core (removeCheckpointWithNonce n s) = core s"
  "core (refreshAmbiguousNotarizationLocked e s) = core s"
  "core (recomputeProbableHighestNonce e s) = core s"
  "core (s\<lparr>fd_hasAmbiguousNotarization := b\<rparr>) = core s"
  "core (s\<lparr>fd_maxForkHeaderEpoch := m\<rparr>) = core s"
  "core (s\<lparr>fd_fork := (fd_fork s)\<lparr>fi_checkpoint := cs\<rparr>\<rparr>) = core s"
  by (simp_all add: core_def fork_access SetRollBackNonce_def setLastRoundWithForcedFork_def addCheckpoint_def
      AddCheckpoint_def setHighestNonceReceived_def setProbableHighestNonce_def removeCheckpointsBehindNonce_def
      removePastCheckpoints_def removeCheckpointWithNonce_def refreshAmbiguousNotarizationLocked_def
      recomputeProbableHighestNonce_def Let_def)

section \<open>Changes of the records\<close>

text \<open>The records at the nonces up to the settled checkpoint lose no support.\<close>

definition keeps_support :: "u64 \<Rightarrow> (u64 \<times> headerInfo list) list \<Rightarrow> (u64 \<times> headerInfo list) list \<Rightarrow> bool" where
  "keeps_support nonce hs hs' \<longleftrightarrow> (\<forall>hash infos. map_of hs nonce = Some infos \<longrightarrow> supported hash infos \<longrightarrow>
     (\<exists>infos'. map_of hs' nonce = Some infos' \<and> supported hash infos'))"

lemma supported_Nil [simp]: "\<not> supported hash []"
  by (simp add: supported_def)

lemma safe_headers:
  assumes "core t = (hs, finalCheckpoint s, settledCheckpoint s, fd_kind s)"
    and "headers_ok A (fd_headers s) \<Longrightarrow> cp_nonce (settledCheckpoint s) \<le> cp_nonce (finalCheckpoint s) \<Longrightarrow>
      headers_ok A hs \<and> keeps_support (cp_nonce (settledCheckpoint s)) (fd_headers s) hs"
  shows "safe A s t"
proof -
  have t: "fd_headers t = hs" "finalCheckpoint t = finalCheckpoint s" "settledCheckpoint t = settledCheckpoint s"
    "fd_kind t = fd_kind s"
    using assms(1) by (auto simp: core_def)
  show ?thesis
    using assms(2) t
    by (fastforce simp: safe_def checkpoints_ok_def settled_forward_def settled_supported_def
        keeps_support_def headers_at_def split: option.splits)
qed

lemma headers_ok_update:
  assumes "headers_ok A hs" "nonce \<noteq> 0" "\<forall>info \<in> set infos. info_ok A nonce info"
  shows "headers_ok A (AList.update nonce infos hs)"
proof -
  have "distinct (map fst (AList.update nonce infos hs))"
    using assms(1) by (simp add: headers_ok_def distinct_update)
  moreover have "set (AList.update nonce infos hs) \<subseteq> insert (nonce, infos) (set hs)"
    by (induction hs) auto
  ultimately show ?thesis using assms by (fastforce simp: headers_ok_def)
qed

lemma headers_okD:
  assumes "headers_ok A hs" "map_of hs nonce = Some infos"
  shows "nonce \<noteq> 0" "info \<in> set infos \<Longrightarrow> info_ok A nonce info"
  using assms map_of_SomeD by (fastforce simp: headers_ok_def)+

lemma headers_at_Some: "map_of (fd_headers s) nonce = Some infos \<Longrightarrow> headers_at s nonce = infos"
  by (simp add: headers_at_def)

lemma headers_atD:
  assumes "headers_ok A (fd_headers s)" "info \<in> set (headers_at s nonce)"
  shows "nonce \<noteq> 0" "info_ok A nonce info"
proof -
  from assms(2) obtain infos where "map_of (fd_headers s) nonce = Some infos" "info \<in> set infos"
    by (cases "map_of (fd_headers s) nonce") (auto simp: headers_at_def)
  with assms(1) show "nonce \<noteq> 0" "info_ok A nonce info" using headers_okD by blast+
qed

lemma headers_ok_filter:
  assumes "headers_ok A hs"
  shows "headers_ok A (filter P (map (\<lambda>(nonce, infos). (nonce, filter (Q nonce) infos)) hs))"
proof -
  have "distinct (map fst (map (\<lambda>(nonce, infos). (nonce, filter (Q nonce) infos)) hs))"
    using assms by (simp add: headers_ok_def comp_def case_prod_unfold)
  then have "distinct (map fst (filter P (map (\<lambda>(nonce, infos). (nonce, filter (Q nonce) infos)) hs)))"
    by (rule distinct_map_filter)
  then show ?thesis using assms by (fastforce simp: headers_ok_def)
qed

lemma keeps_support_update:
  assumes "\<And>hash infos. nonce' = nonce \<Longrightarrow> map_of hs nonce = Some infos \<Longrightarrow> supported hash infos \<Longrightarrow>
    supported hash infos'"
  shows "keeps_support nonce hs (AList.update nonce' infos' hs)"
  using assms by (auto simp: keeps_support_def update_conv' split: option.splits)

section \<open>Appending and removing records\<close>

lemma core_headers:
  "core (s\<lparr>fd_headers := hs\<rparr>) = (hs, finalCheckpoint s, settledCheckpoint s, fd_kind s)"
  by (simp add: core_def fork_access)

lemma core_append:
  fixes e info s
  defines "infos \<equiv> map (adjust_info e info) (headers_at s (hi_nonce info))"
  shows "core (snd (appendHeaderInfo e info s)) = core s \<or>
    core (snd (appendHeaderInfo e info s)) =
      core (s\<lparr>fd_headers := AList.update (hi_nonce info) infos (fd_headers s)\<rparr>) \<or>
    core (snd (appendHeaderInfo e info s)) =
      core (s\<lparr>fd_headers := AList.update (hi_nonce info) (infos @ [info]) (fd_headers s)\<rparr>)"
  unfolding infos_def
  by (simp add: appendHeaderInfo_def adjustHeadersWithInfo_def Let_def core_simps)

lemma adjust_info_fields [simp]:
  "hi_nonce (adjust_info e info i) = hi_nonce i" "hi_hash (adjust_info e info i) = hi_hash i"
  "hi_state (adjust_info e info i) = hi_state i" "hi_hasProof i \<Longrightarrow> hi_hasProof (adjust_info e info i)"
  "hi_prevHash i \<noteq> [] \<Longrightarrow> hi_prevHash (adjust_info e info i) = hi_prevHash i"
  "hi_epoch (adjust_info e info i) = hi_epoch i" "hi_round (adjust_info e info i) = hi_round i"
  by (auto simp: adjust_info_def Let_def)

lemma info_ok_adjust: "info_ok A nonce i \<Longrightarrow> info_ok A nonce (adjust_info e info i)"
  by (auto simp: info_ok_def)

lemma supported_adjust: "supported hash infos \<Longrightarrow> supported hash (map (adjust_info e info) infos)"
  by (auto simp: supported_def)

lemma supported_append: "supported hash infos \<Longrightarrow> supported hash (infos @ rest)"
  by (auto simp: supported_def)

lemma safe_update:
  assumes "nonce \<noteq> 0" "headers_ok A (fd_headers s) \<Longrightarrow> \<forall>info \<in> set infos. info_ok A nonce info"
    and "\<And>hash. nonce = cp_nonce (settledCheckpoint s) \<Longrightarrow> supported hash (headers_at s nonce) \<Longrightarrow> supported hash infos"
  shows "safe A s (s\<lparr>fd_headers := AList.update nonce infos (fd_headers s)\<rparr>)"
  by (rule safe_headers [OF core_headers])
    (use assms in \<open>auto intro!: headers_ok_update keeps_support_update simp: headers_at_Some\<close>)

lemma safe_append:
  assumes "hi_nonce info \<noteq> 0" "info_ok A (hi_nonce info) info"
  shows "safe A s (snd (appendHeaderInfo e info s))"
proof -
  let ?infos = "map (adjust_info e info) (headers_at s (hi_nonce info))"
  have "safe A s (s\<lparr>fd_headers := AList.update (hi_nonce info) ?infos (fd_headers s)\<rparr>)"
    "safe A s (s\<lparr>fd_headers := AList.update (hi_nonce info) (?infos @ [info]) (fd_headers s)\<rparr>)"
    by (rule safe_update; auto simp: assms supported_adjust intro: info_ok_adjust headers_atD(2) supported_append)+
  then show ?thesis
    using core_append [of e info s] safe_core safe_core_trans by blast
qed

lemma map_of_filtered:
  assumes "distinct (map fst hs)"
  shows "map_of (filter P (map (\<lambda>(nonce, infos). (nonce, filter (Q nonce) infos)) hs)) nonce =
    (case map_of hs nonce of None \<Rightarrow> None | Some infos \<Rightarrow>
       if P (nonce, filter (Q nonce) infos) then Some (filter (Q nonce) infos) else None)"
  using assms
proof (induction hs)
  case (Cons x hs)
  obtain n infos where x: "x = (n, infos)" by (cases x)
  have "map_of hs n = None" using Cons.prems by (simp add: x map_of_eq_None_iff)
  with Cons show ?case by (auto simp: x)
qed simp

text \<open>Filtering the whole map keeps the support of the settled checkpoint when, at its nonce, no record
  that supports a hash is dropped.\<close>

lemma safe_filter:
  assumes "\<And>info. hi_state info = BHNotarized \<Longrightarrow> Q (cp_nonce (settledCheckpoint s)) info"
    and "\<And>info. hi_state info = BHProcessed \<Longrightarrow> hi_hasProof info \<Longrightarrow>
      info_ok A (cp_nonce (settledCheckpoint s)) info \<Longrightarrow> Q (cp_nonce (settledCheckpoint s)) info"
    and "\<And>infos. infos \<noteq> [] \<Longrightarrow> P (cp_nonce (settledCheckpoint s), infos)"
  shows "safe A s (s\<lparr>fd_headers := filter P (map (\<lambda>(nonce, infos). (nonce, filter (Q nonce) infos)) (fd_headers s))\<rparr>)"
proof (rule safe_headers [OF core_headers], intro conjI)
  assume ok: "headers_ok A (fd_headers s)"
  then show "headers_ok A (filter P (map (\<lambda>(nonce, infos). (nonce, filter (Q nonce) infos)) (fd_headers s)))"
    by (rule headers_ok_filter)
  have supp: "supported hash (filter (Q (cp_nonce (settledCheckpoint s))) infos)"
    if "supported hash infos" "map_of (fd_headers s) (cp_nonce (settledCheckpoint s)) = Some infos" for hash infos
    using that(1) assms(1,2) headers_okD(2) [OF ok that(2)] by (auto simp: supported_def)
  then have "filter (Q (cp_nonce (settledCheckpoint s))) infos \<noteq> []"
    if "supported hash infos" "map_of (fd_headers s) (cp_nonce (settledCheckpoint s)) = Some infos" for hash infos
    using that by (metis supported_Nil)
  moreover have "distinct (map fst (fd_headers s))" using ok by (simp add: headers_ok_def)
  ultimately show "keeps_support (cp_nonce (settledCheckpoint s)) (fd_headers s)
      (filter P (map (\<lambda>(nonce, infos). (nonce, filter (Q nonce) infos)) (fd_headers s)))"
    using assms(3) supp by (simp add: keeps_support_def map_of_filtered)
qed

lemma safe_filter_keys:
  assumes "P (cp_nonce (settledCheckpoint s))"
  shows "safe A s (s\<lparr>fd_headers := filter (\<lambda>(nonce, _). P nonce) (fd_headers s)\<rparr>)"
proof -
  have "map (\<lambda>(nonce, infos). (nonce, filter (\<lambda>_. True) infos)) hs = hs" for hs :: "(u64 \<times> headerInfo list) list"
    by (induction hs) auto
  then show ?thesis
    using safe_filter [of "\<lambda>_ _. True" s A "\<lambda>(nonce, _). P nonce"] assms by simp
qed

lemma safe_removePastHeaders: "safe A s (removePastHeaders e s)"
  unfolding removePastHeaders_def Let_def
  by (rule safe_core_trans [OF safe_filter_keys [of "\<lambda>n. \<not> n < cp_nonce (settledCheckpoint s)"]])
    (simp_all add: core_simps)

lemma safe_removeInvalid: "safe A s (removeInvalidReceivedHeaders s)"
  unfolding removeInvalidReceivedHeaders_def filter_headers_def
  by (rule safe_filter) (auto simp: isReceivedHeaderInvalid_def)

lemma safe_removePastOrInvalid: "safe A s (removePastOrInvalidRecords e s)"
  unfolding removePastOrInvalidRecords_def
  using safe_removePastHeaders safe_removeInvalid safe_core_trans safe_trans core_simps(8) by metis

lemma safe_put:
  assumes "cp_nonce (finalCheckpoint s) < nonce" "\<And>info. info \<in> set infos \<Longrightarrow> headers_ok A (fd_headers s) \<Longrightarrow> info_ok A nonce info"
  shows "safe A s (put_headers nonce infos s)"
  unfolding put_headers_def
proof (rule safe_headers [OF core_headers], intro conjI)
  assume ok: "headers_ok A (fd_headers s)" and le: "cp_nonce (settledCheckpoint s) \<le> cp_nonce (finalCheckpoint s)"
  have "headers_ok A (AList.delete nonce (fd_headers s))"
    using ok by (auto simp: headers_ok_def AList.delete_eq distinct_map_filter)
  moreover have "nonce \<noteq> 0" using assms(1) by auto
  ultimately show "headers_ok A (if infos = [] then AList.delete nonce (fd_headers s) else AList.update nonce infos (fd_headers s))"
    using ok assms(2) by (simp add: headers_ok_update)
  show "keeps_support (cp_nonce (settledCheckpoint s)) (fd_headers s)
      (if infos = [] then AList.delete nonce (fd_headers s) else AList.update nonce infos (fd_headers s))"
    using le assms(1) by (auto simp: keeps_support_def AList.delete_conv' update_conv')
qed

section \<open>Advancing the checkpoints\<close>

lemma checkpoint_access [simp]:
  "finalCheckpoint (setFinalCheckpoint c s) = c"
  "settledCheckpoint (setFinalCheckpoint c s) = settledCheckpoint s"
  "fd_headers (setFinalCheckpoint c s) = fd_headers s"
  "fd_kind (setFinalCheckpoint c s) = fd_kind s"
  "headers_at (setFinalCheckpoint c s) n = headers_at s n"
  "fd_shardID (setFinalCheckpoint c s) = fd_shardID s"
  by (simp_all add: setFinalCheckpoint_def fork_access headers_at_def)

lemma safe_setFinal:
  "(checkpoints_ok A s \<Longrightarrow> cp_nonce (settledCheckpoint s) \<le> cp_nonce c) \<Longrightarrow> safe A s (setFinalCheckpoint c s)"
  by (auto simp: safe_def checkpoints_ok_def settled_forward_def settled_supported_def)

lemma safe_advanceFinal: "safe A s (advanceFinalCheckpoint c s)"
  unfolding advanceFinalCheckpoint_def by (auto intro!: safe_setFinal simp: checkpoints_ok_def)

lemma settled_update_access [simp]:
  fixes c s
  defines "t \<equiv> s\<lparr>fd_fork := fd_fork s\<lparr>fi_settledCheckpoint := c\<rparr>\<rparr>"
  shows "finalCheckpoint t = finalCheckpoint s" "settledCheckpoint t = c" "fd_headers t = fd_headers s"
    "fd_kind t = fd_kind s" "headers_at t n = headers_at s n"
    "fd_shardID t = fd_shardID s"
  by (simp_all add: t_def fork_access headers_at_def)

lemma advanceBoth_access [simp]:
  "settledCheckpoint (advanceFinalAndSettledCheckpoint c s) =
     (if cp_nonce (settledCheckpoint s) < cp_nonce c then c else settledCheckpoint s)"
  "finalCheckpoint (advanceFinalAndSettledCheckpoint c s) =
     (if cp_nonce (finalCheckpoint s) < cp_nonce c then c else finalCheckpoint s)"
  "fd_headers (advanceFinalAndSettledCheckpoint c s) = fd_headers s"
  "fd_kind (advanceFinalAndSettledCheckpoint c s) = fd_kind s"
  "headers_at (advanceFinalAndSettledCheckpoint c s) n = headers_at s n"
  by (simp_all add: advanceFinalAndSettledCheckpoint_def Let_def)

lemma safe_advanceBoth:
  assumes "fd_kind s = ShardDetector \<Longrightarrow> headers_ok A (fd_headers s) \<Longrightarrow> supported (cp_hash c) (headers_at s (cp_nonce c)) \<and>
    (parentsNamed A \<and> cp_hash (settledCheckpoint s) = [] \<longrightarrow> cp_nonce c \<le> cp_nonce (settledCheckpoint s))"
  shows "safe A s (advanceFinalAndSettledCheckpoint c s)"
  using assms by (auto simp: safe_def checkpoints_ok_def settled_forward_def settled_supported_def)

subsection \<open>The highest notarized processed header\<close>

lemma indexes_loop_sound:
  assumes "indexes_loop e infos processed notarized is = (Some p, Some n)"
    and "\<forall>i \<in> set is. i < length infos"
    and "\<And>i. processed = Some i \<Longrightarrow> i < length infos \<and> hi_state (infos ! i) = BHProcessed"
    and "\<And>i. notarized = Some i \<Longrightarrow> i < length infos \<and> hi_state (infos ! i) = BHNotarized"
  shows "p < length infos \<and> hi_state (infos ! p) = BHProcessed \<and> n < length infos \<and> hi_state (infos ! n) = BHNotarized"
  using assms
proof (induction "is" arbitrary: processed notarized)
  case (Cons i rest)
  have skip: ?case if "indexes_loop e infos processed notarized rest = (Some p, Some n)"
    by (rule Cons.IH [OF that]) (use Cons.prems in auto)
  show ?case
  proof (cases "hi_state (infos ! i)")
    case BHProcessed
    with Cons.prems(1) have "indexes_loop e infos (Some i) notarized rest = (Some p, Some n)"
      by (simp add: Let_def split: if_splits)
    then show ?thesis by (rule Cons.IH) (use BHProcessed Cons.prems in auto)
  next
    case BHNotarized
    with Cons.prems(1) have "indexes_loop e infos processed (Some i) rest = (Some p, Some n)"
      by (simp add: Let_def split: if_splits)
    then show ?thesis by (rule Cons.IH) (use BHNotarized Cons.prems in auto)
  qed (use skip Cons.prems(1) in \<open>simp_all add: Let_def\<close>)
qed simp

lemma indexes_bound:
  assumes "getProcessedAndNotarizedIndexes e infos = (Some p, Some n)"
  shows "p < length infos"
  using indexes_loop_sound [OF assms [unfolded getProcessedAndNotarizedIndexes_def]] by auto

lemma indexes_supported:
  assumes "getProcessedAndNotarizedIndexes e infos = (Some p, Some n)" "hi_hasProof (infos ! p)"
    and "hi_hash (infos ! n) = hi_hash (infos ! p)"
  shows "supported (hi_hash (infos ! n)) infos"
proof -
  have "p < length infos \<and> hi_state (infos ! p) = BHProcessed \<and> n < length infos \<and> hi_state (infos ! n) = BHNotarized"
    by (rule indexes_loop_sound [OF assms(1) [unfolded getProcessedAndNotarizedIndexes_def]]) auto
  then show ?thesis using assms(2,3) unfolding supported_def by (metis nth_mem)
qed

lemma fold_notarized_supported:
  assumes "fold (notarized_step e) hs (c0, w0, v0) = (c, True, v)"
    and "w0 \<Longrightarrow> \<exists>infos. (cp_nonce c0, infos) \<in> H \<and> supported (cp_hash c0) infos" and "set hs \<subseteq> H"
  shows "\<exists>infos. (cp_nonce c, infos) \<in> H \<and> supported (cp_hash c) infos"
  using assms
proof (induction hs arbitrary: c0 w0 v0)
  case (Cons x hs)
  obtain nonce infos where x: "x = (nonce, infos)" by (cases x)
  obtain c1 w1 v1 where step: "notarized_step e x (c0, w0, v0) = (c1, w1, v1)" by (metis prod_cases3)
  have "w1 \<Longrightarrow> \<exists>infos. (cp_nonce c1, infos) \<in> H \<and> supported (cp_hash c1) infos"
  proof (cases "(c1, w1, v1) = (c0, w0, v0)")
    case False
    with step obtain p n where "getProcessedAndNotarizedIndexes e infos = (Some p, Some n)" "hi_hasProof (infos ! p)"
      "hi_hash (infos ! n) = hi_hash (infos ! p)" "cp_nonce c1 = nonce" "cp_hash c1 = hi_hash (infos ! n)"
      by (auto simp: notarized_step_def x split: if_splits prod.splits option.splits)
    then have "(cp_nonce c1, infos) \<in> H" "supported (cp_hash c1) infos"
      using indexes_supported Cons.prems(3) by (auto simp: x)
    then show ?thesis by blast
  qed (use Cons.prems(2) in auto)
  with Cons.IH [of c1 w1 v1] Cons.prems step show ?case by simp
qed simp

lemma highest_notarized_supported:
  assumes "highest_notarized e s = (c, True, v)" "headers_ok A (fd_headers s)"
  shows "supported (cp_hash c) (headers_at s (cp_nonce c))"
proof -
  obtain infos where "(cp_nonce c, infos) \<in> set (fd_headers s)" "supported (cp_hash c) infos"
    using fold_notarized_supported [OF assms(1) [unfolded highest_notarized_def], of "set (fd_headers s)"] by auto
  with assms(2) show ?thesis by (simp add: headers_at_def headers_ok_def)
qed

subsection \<open>Authority along the processed ancestry\<close>

text \<open>Dropping notarized records leaves the processed children.\<close>

lemma child_loop_filter:
  assumes "\<And>info. P info \<Longrightarrow> hi_state info = BHNotarized"
  shows "child_loop parentHash selected (filter (\<lambda>info. \<not> P info) infos) = child_loop parentHash selected infos"
proof (induction infos arbitrary: selected)
  case (Cons info infos)
  then show ?case using assms [of info] by (cases "P info") auto
qed simp

lemma ancestry_reaches_cong:
  assumes "\<And>n h. processedChildOnBranchLocked t n h = processedChildOnBranchLocked s n h"
  shows "ancestry_reaches t c nonce h = ancestry_reaches s c nonce h"
proof (induction "unat (cp_nonce c - nonce)" arbitrary: nonce h rule: less_induct)
  case less
  show ?case
  proof (cases "processedChildOnBranchLocked s nonce h")
    case None
    then show ?thesis using assms by (simp add: ancestry_reaches.simps [of _ c nonce h])
  next
    case (Some processed)
    then show ?thesis using assms less [OF walk_closer] by (simp add: ancestry_reaches.simps [of _ c nonce h])
  qed
qed

lemma next_nonce:
  fixes settled nonce goal :: u64
  assumes "settled < nonce" "nonce \<le> goal" "nonce \<noteq> goal"
  shows "settled < nonce + 1" "nonce + 1 \<le> goal"
  using assms by unat_arith+

text \<open>One turn of the second loop, as a change of the records of its nonce.\<close>

definition keep_turn :: "fd_env \<Rightarrow> u64 \<Rightarrow> bytes \<Rightarrow> baseForkDetector \<Rightarrow> baseForkDetector" where
  "keep_turn e nonce hash s = (if isAmbiguousNotarizationLocked e s nonce
     then s\<lparr>fd_headers := AList.update nonce (filter (\<lambda>info. \<not> (hi_state info = BHNotarized \<and> hi_hash info \<noteq> hash))
       (headers_at s nonce)) (fd_headers s)\<rparr> else s)"

lemma keep_turn_headers:
  "headers_at (keep_turn e nonce hash s) n = (if n = nonce \<and> isAmbiguousNotarizationLocked e s nonce
     then filter (\<lambda>info. \<not> (hi_state info = BHNotarized \<and> hi_hash info \<noteq> hash)) (headers_at s n) else headers_at s n)"
  by (simp add: keep_turn_def headers_at_def update_conv')

lemma keep_turn_access [simp]:
  "settledCheckpoint (keep_turn e nonce hash s) = settledCheckpoint s"
  "finalCheckpoint (keep_turn e nonce hash s) = finalCheckpoint s"
  "fd_kind (keep_turn e nonce hash s) = fd_kind s"
  by (simp_all add: keep_turn_def fork_access)

lemma keep_turn_child [simp]:
  "processedChildOnBranchLocked (keep_turn e nonce hash s) n h = processedChildOnBranchLocked s n h"
  unfolding processedChildOnBranchLocked_def keep_turn_headers
  using child_loop_filter [of "\<lambda>info. hi_state info = BHNotarized \<and> hi_hash info \<noteq> hash"] by simp

lemma keep_turn_supported:
  "supported hash (headers_at s n) \<Longrightarrow> n \<noteq> nonce \<or> hash = hash' \<Longrightarrow> supported hash (headers_at (keep_turn e nonce hash' s) n)"
  by (auto simp: keep_turn_headers supported_def)

lemma safe_keep_turn:
  assumes "cp_nonce (settledCheckpoint s) < nonce"
  shows "safe A s (keep_turn e nonce hash s)"
proof (cases "isAmbiguousNotarizationLocked e s nonce")
  case True
  have "safe A s (s\<lparr>fd_headers := AList.update nonce (filter (\<lambda>info. \<not> (hi_state info = BHNotarized \<and> hi_hash info \<noteq> hash))
       (headers_at s nonce)) (fd_headers s)\<rparr>)"
    by (rule safe_update) (use assms in \<open>auto intro: headers_atD(2)\<close>)
  with True show ?thesis by (simp add: keep_turn_def)
qed (simp add: keep_turn_def)

lemma keep_authority_unfold:
  "snd (keep_processed_authority e c nonce h removed s) = (case processedChildOnBranchLocked s nonce h of
     None \<Rightarrow> s
   | Some p \<Rightarrow> if nonce = cp_nonce c then keep_turn e nonce (hi_hash p) s
       else snd (keep_processed_authority e c (nonce + 1) (hi_hash p)
         (removed \<or> isAmbiguousNotarizationLocked e s nonce \<and>
           (\<exists>info \<in> set (headers_at s nonce). hi_state info = BHNotarized \<and> hi_hash info \<noteq> hi_hash p))
         (keep_turn e nonce (hi_hash p) s)))"
  by (subst keep_processed_authority.simps) (simp add: Let_def keep_turn_def split: option.split)

lemma keep_authority:
  fixes e c nonce h removed s
  assumes "cp_nonce (settledCheckpoint s) < nonce" "nonce \<le> cp_nonce c"
  defines "t \<equiv> snd (keep_processed_authority e c nonce h removed s)"
  shows "safe A s t" "settledCheckpoint t = settledCheckpoint s" "fd_kind t = fd_kind s"
    "ancestry_reaches s c nonce h \<Longrightarrow> supported (cp_hash c) (headers_at s (cp_nonce c)) \<Longrightarrow>
       supported (cp_hash c) (headers_at t (cp_nonce c))"
proof -
  have "safe A s t \<and> settledCheckpoint t = settledCheckpoint s \<and> fd_kind t = fd_kind s \<and>
      (ancestry_reaches s c nonce h \<longrightarrow> supported (cp_hash c) (headers_at s (cp_nonce c)) \<longrightarrow>
       supported (cp_hash c) (headers_at t (cp_nonce c)))"
    unfolding t_def using assms(1,2)
  proof (induction "unat (cp_nonce c - nonce)" arbitrary: nonce h removed s rule: less_induct)
    case less
    show ?case
    proof (cases "processedChildOnBranchLocked s nonce h")
      case None
      then show ?thesis by (simp add: keep_authority_unfold)
    next
      case (Some p)
      let ?t = "keep_turn e nonce (hi_hash p) s"
      have safe: "safe A s ?t" by (rule safe_keep_turn [OF less.prems(1)])
      have supp: "ancestry_reaches s c nonce h \<Longrightarrow> supported (cp_hash c) (headers_at s (cp_nonce c)) \<Longrightarrow>
          supported (cp_hash c) (headers_at ?t (cp_nonce c))"
        using Some by (intro keep_turn_supported) (auto simp: ancestry_reaches.simps [of s c nonce h] split: if_splits)
      show ?thesis
      proof (cases "nonce = cp_nonce c")
        case True
        with Some safe supp show ?thesis by (simp add: keep_authority_unfold)
      next
        case False
        have "ancestry_reaches ?t c (nonce + 1) (hi_hash p)" if "ancestry_reaches s c nonce h"
          using that Some False ancestry_reaches_cong [of ?t s c "nonce + 1" "hi_hash p"]
          by (simp add: ancestry_reaches.simps [of s c nonce h])
        with less.hyps [OF walk_closer [OF False], of ?t] next_nonce [OF less.prems False] Some False safe supp
        show ?thesis by (auto simp: keep_authority_unfold intro: safe_trans)
      qed
    qed
  qed
  then show "safe A s t" "settledCheckpoint t = settledCheckpoint s" "fd_kind t = fd_kind s"
    "ancestry_reaches s c nonce h \<Longrightarrow> supported (cp_hash c) (headers_at s (cp_nonce c)) \<Longrightarrow>
       supported (cp_hash c) (headers_at t (cp_nonce c))"
    by blast+
qed

lemma reconcile_authority:
  assumes "reconcileAuthorityAlongProcessedAncestryLocked e c s = (can, t)"
  shows "safe A s t" "settledCheckpoint t = settledCheckpoint s"
    "can \<Longrightarrow> supported (cp_hash c) (headers_at s (cp_nonce c)) \<Longrightarrow> supported (cp_hash c) (headers_at t (cp_nonce c))"
    "can \<Longrightarrow> cp_nonce c \<le> cp_nonce (settledCheckpoint s) \<or>
       ancestry_reaches s c (cp_nonce (settledCheckpoint s) + 1) (cp_hash (settledCheckpoint s))"
proof -
  let ?settled = "settledCheckpoint s" and ?refresh = "refreshAmbiguousNotarizationLocked e"
  have "safe A s t \<and> settledCheckpoint t = settledCheckpoint s \<and>
      (can \<longrightarrow> supported (cp_hash c) (headers_at s (cp_nonce c)) \<longrightarrow> supported (cp_hash c) (headers_at t (cp_nonce c)))"
  proof (cases "cp_nonce ?settled < cp_nonce c \<and> ancestry_reaches s c (cp_nonce ?settled + 1) (cp_hash ?settled)")
    case False
    with assms show ?thesis
      by (auto simp: reconcileAuthorityAlongProcessedAncestryLocked_def Let_def split: if_splits)
  next
    case True
    obtain removed u where keep:
        "keep_processed_authority e c (cp_nonce ?settled + 1) (cp_hash ?settled) False s = (removed, u)"
      by fastforce
    have lt: "cp_nonce ?settled < cp_nonce ?settled + 1" "cp_nonce ?settled + 1 \<le> cp_nonce c"
      using True by unat_arith+
    have t: "core t = core u"
      using assms keep True
      by (auto simp: reconcileAuthorityAlongProcessedAncestryLocked_def Let_def core_simps split: if_splits)
    with keep_authority [OF lt, where e = e and h = "cp_hash ?settled" and removed = False] keep True show ?thesis
      using core_eqD(3,5) [OF t] safe_core_trans [OF _ t, of A s] by auto
  qed
  then show "safe A s t" "settledCheckpoint t = settledCheckpoint s"
    "can \<Longrightarrow> supported (cp_hash c) (headers_at s (cp_nonce c)) \<Longrightarrow> supported (cp_hash c) (headers_at t (cp_nonce c))"
    by blast+
  show "can \<Longrightarrow> cp_nonce c \<le> cp_nonce (settledCheckpoint s) \<or>
       ancestry_reaches s c (cp_nonce (settledCheckpoint s) + 1) (cp_hash (settledCheckpoint s))"
    using assms by (auto simp: reconcileAuthorityAlongProcessedAncestryLocked_def Let_def split: if_splits)
qed

lemma safeD: "safe A s t \<Longrightarrow> checkpoints_ok A s \<Longrightarrow> checkpoints_ok A t"
  by (simp add: safe_def)

lemma child_loop_Some:
  assumes "child_loop parentHash selected infos = Some info"
  shows "(info \<in> set infos \<and> hi_state info = BHProcessed \<and> hi_prevHash info = parentHash \<or> selected = Some info) \<and>
    (\<forall>other \<in> set infos. hi_state other = BHProcessed \<and> hi_prevHash other = parentHash \<longrightarrow> hi_hash other = hi_hash info) \<and>
    (\<forall>p. selected = Some p \<longrightarrow> hi_hash p = hi_hash info)"
  using assms
proof (induction infos arbitrary: selected)
  case (Cons x infos)
  show ?case
  proof (cases "hi_state x \<noteq> BHProcessed \<or> hi_prevHash x \<noteq> parentHash")
    case True
    with Cons.prems have "child_loop parentHash selected infos = Some info" by simp
    from Cons.IH [OF this] True show ?thesis by auto
  next
    case False
    with Cons.prems have "child_loop parentHash (Some x) infos = Some info"
      and "\<forall>p. selected = Some p \<longrightarrow> hi_hash p = hi_hash x"
      by (auto split: if_splits option.splits)
    from Cons.IH [OF this(1)] this(2) False show ?thesis by auto
  qed
qed simp

text \<open>No processed record continues an empty hash.\<close>

lemma no_child_of_empty:
  assumes "headers_ok A (fd_headers s)" "parentsNamed A"
  shows "\<not> ancestry_reaches s c nonce []"
proof -
  have "processedChildOnBranchLocked s nonce [] = None"
  proof (rule ccontr)
    assume "processedChildOnBranchLocked s nonce [] \<noteq> None"
    then obtain info where "child_loop [] None (headers_at s nonce) = Some info"
      by (auto simp: processedChildOnBranchLocked_def)
    from child_loop_Some [OF this] show False
      using headers_atD(2) [OF assms(1)] assms(2) by (auto simp: info_ok_def)
  qed
  then show ?thesis by (simp add: ancestry_reaches.simps [of s c nonce "[]"])
qed

lemma fold_notarized_async:
  assumes "supernova A e" "headers_ok A hs" "fold (notarized_step e) hs (c0, w0, v0) = (c, True, v)" "w0 \<Longrightarrow> v0"
  shows v
  using assms(2-)
proof (induction hs arbitrary: c0 w0 v0)
  case (Cons x hs)
  obtain c1 w1 v1 where step: "notarized_step e x (c0, w0, v0) = (c1, w1, v1)" by (metis prod_cases3)
  obtain nonce infos where x: "x = (nonce, infos)" by (cases x)
  have infos: "isAsyncExecutionEnabled e info" if "info \<in> set infos" for info
    using supernova_async [OF assms(1)] Cons.prems(1) that by (auto simp: headers_ok_def x)
  have "w1 \<Longrightarrow> v1"
  proof (cases "(c1, w1, v1) = (c0, w0, v0)")
    case False
    with step obtain p n where "getProcessedAndNotarizedIndexes e infos = (Some p, Some n)"
      and v1: "v1 = isAsyncExecutionEnabled e (infos ! p)"
      by (auto simp: notarized_step_def x split: if_splits prod.splits option.splits)
    then have "p < length infos" by (intro indexes_bound)
    with infos v1 show ?thesis by simp
  qed (use Cons.prems(3) in auto)
  moreover have "fold (notarized_step e) hs (c1, w1, v1) = (c, True, v)" "headers_ok A hs"
    using Cons.prems step by (auto simp: headers_ok_def)
  ultimately show ?case by (intro Cons.IH)
qed simp

lemma safe_settle:
  assumes "supernova A e" "checkpoints_ok A s"
  shows "safe A s (settle_highest_notarized e s)"
proof -
  obtain c w v where h: "highest_notarized e s = (c, w, v)" by (metis prod_cases3)
  obtain can t where r: "reconcileAuthorityAlongProcessedAncestryLocked e c s = (can, t)" by fastforce
  have ok: "headers_ok A (fd_headers s)" using assms(2) by (simp add: checkpoints_ok_def)
  show ?thesis
  proof (cases w)
    case True
    then have h': "highest_notarized e s = (c, True, v)" using h by simp
    then have v using fold_notarized_async [OF assms(1) ok h' [unfolded highest_notarized_def]] by simp
    note supp = highest_notarized_supported [OF h' ok]
    have "safe A t (advanceFinalAndSettledCheckpoint c t)" if can
      by (rule safe_advanceBoth) (use that supp reconcile_authority(2-4) [OF r] no_child_of_empty [OF ok] in auto)
    with h' r \<open>v\<close> reconcile_authority(1) [OF r] show ?thesis
      by (auto simp: settle_highest_notarized_def intro: safe_trans)
  qed (simp add: settle_highest_notarized_def h)
qed

subsection \<open>Clean processed descendants\<close>

text \<open>The nonces of the map above a nonce; a walk leaves one behind with each turn.\<close>

definition above :: "u64 \<Rightarrow> (u64 \<times> 'a) list \<Rightarrow> u64 set" where
  "above nonce hs = {n \<in> fst ` set hs. nonce < n}"

lemma above_next:
  assumes "nonce + 1 \<in> fst ` set hs" "nonce + 1 \<noteq> 0"
  shows "card (above (nonce + 1) hs) < card (above nonce hs)"
proof (rule psubset_card_mono)
  show "finite (above nonce hs)" by (simp add: above_def)
  have lt: "nonce < nonce + 1" using assms(2) by unat_arith
  then have "above (nonce + 1) hs \<subseteq> above nonce hs" by (auto simp: above_def)
  moreover have "nonce + 1 \<in> above nonce hs" "nonce + 1 \<notin> above (nonce + 1) hs"
    using assms(1) lt by (auto simp: above_def)
  ultimately show "above (nonce + 1) hs \<subset> above nonce hs" by blast
qed

lemma clean_child:
  assumes "getCleanProcessedChild e s parent = Some child" "headers_ok A (fd_headers s)"
  shows "info_ok A (cp_nonce parent + 1) child" "hi_nonce child = cp_nonce parent + 1" "cp_nonce parent < hi_nonce child"
    "card (above (hi_nonce child) (fd_headers s)) < card (above (cp_nonce parent) (fd_headers s))"
proof -
  have child: "child \<in> set (headers_at s (cp_nonce parent + 1))"
    using assms(1) by (auto simp: getCleanProcessedChild_def find_Some_iff split: option.splits if_splits)
  then show ok: "info_ok A (cp_nonce parent + 1) child" and n: "hi_nonce child = cp_nonce parent + 1"
    using headers_atD [OF assms(2)] info_okD by blast+
  have nz: "cp_nonce parent + 1 \<noteq> 0" using headers_atD(1) [OF assms(2) child] .
  then show "cp_nonce parent < hi_nonce child" unfolding n by unat_arith
  have "cp_nonce parent + 1 \<in> fst ` set (fd_headers s)"
    using child by (cases "map_of (fd_headers s) (cp_nonce parent + 1)") (auto simp: headers_at_def dest!: map_of_SomeD, force)
  from above_next [OF this nz] show "card (above (hi_nonce child) (fd_headers s)) < card (above (cp_nonce parent) (fd_headers s))"
    by (simp add: n)
qed

text \<open>The walk over the clean processed descendants ends, for every flag.\<close>

lemma finalize_loop_ends:
  assumes "headers_ok A (fd_headers s)"
  shows "\<exists>t. finalize_loop e final s = Some t"
  using assms
proof (induction "card (above (cp_nonce final) (fd_headers s))" arbitrary: final s rule: less_induct)
  case less
  show ?case
  proof (cases "getCleanProcessedChild e s final")
    case None
    then show ?thesis by (simp add: finalize_loop.simps [of e final s] finalize_turn_def)
  next
    case (Some child)
    let ?new = "\<lparr>cp_nonce = hi_nonce child, cp_round = hi_round child, cp_hash = hi_hash child\<rparr>"
    have "\<exists>u. finalize_loop e ?new t = Some u" if "fd_headers t = fd_headers s" for t
      using less.hyps [of ?new t] clean_child(4) [OF Some less.prems] less.prems that by simp
    then have "\<exists>u. finalize_loop e ?new (advanceFinalCheckpoint ?new s) = Some u"
      "\<exists>u. finalize_loop e ?new (advanceFinalAndSettledCheckpoint ?new s) = Some u"
      by (simp_all add: advanceFinalCheckpoint_def)
    with Some show ?thesis by (simp add: finalize_loop.simps [of e final s] finalize_turn_def Let_def)
  qed
qed

lemma safe_finalize_loop:
  assumes "supernova A e" "checkpoints_ok A s" "cp_nonce (settledCheckpoint s) \<le> cp_nonce final"
    and "finalize_loop e final s = Some t"
  shows "safe A s t \<and> settledCheckpoint t = settledCheckpoint s"
  using assms(2-)
proof (induction "card (above (cp_nonce final) (fd_headers s))" arbitrary: final s rule: less_induct)
  case less
  show ?case
  proof (cases "getCleanProcessedChild e s final")
    case None
    with less.prems(3) show ?thesis by (simp add: finalize_loop.simps [of e final s] finalize_turn_def)
  next
    case (Some child)
    let ?new = "\<lparr>cp_nonce = hi_nonce child, cp_round = hi_round child, cp_hash = hi_hash child\<rparr>"
    let ?u = "advanceFinalCheckpoint ?new s"
    have ok: "headers_ok A (fd_headers s)" using less.prems(1) by (simp add: checkpoints_ok_def)
    note child = clean_child [OF Some ok]
    have u: "safe A s ?u" "settledCheckpoint ?u = settledCheckpoint s" "fd_headers ?u = fd_headers s"
      by (rule safe_advanceFinal) (simp_all add: advanceFinalCheckpoint_def)
    have "safe A s (setFinalCheckpoint final ?u)"
      using safe_trans [OF u(1) safe_setFinal] less.prems(2) u(2) by simp
    moreover have "safe A ?u t \<and> settledCheckpoint t = settledCheckpoint s" if "finalize_loop e ?new ?u = Some t"
      using less.hyps [of ?new ?u] child(3,4) u less.prems(1,2) that safeD [OF u(1)] by simp
    ultimately show ?thesis
      using less.prems(3) Some u supernova_async [OF assms(1) child(1)]
      by (auto simp: finalize_loop.simps [of e final s] finalize_turn_def Let_def split: if_splits intro: safe_trans)
  qed
qed

lemma safe_finalize:
  assumes "supernova A e" "checkpoints_ok A s"
  shows "safe A s (finalizeCleanProcessedDescendants e s) \<and>
    settledCheckpoint (finalizeCleanProcessedDescendants e s) = settledCheckpoint s"
proof -
  obtain t where t: "finalize_loop e (finalCheckpoint s) s = Some t"
    using finalize_loop_ends assms(2) unfolding checkpoints_ok_def by blast
  with safe_finalize_loop [OF assms _ t] assms(2) show ?thesis
    by (simp add: finalizeCleanProcessedDescendants_def checkpoints_ok_def)
qed

lemma safe_computeFinal:
  assumes "supernova A e" "checkpoints_ok A s"
  shows "safe A s (computeFinalCheckpointLocked e s)"
proof -
  have "safe A s (settle_highest_notarized e s)" by (rule safe_settle [OF assms])
  with safe_finalize [OF assms(1) safeD [OF this assms(2)]] show ?thesis
    unfolding computeFinalCheckpointLocked_def by (blast intro: safe_trans)
qed

section \<open>The calls\<close>

lemma safe_compute: "supernova A e \<Longrightarrow> checkpoints_ok A s \<Longrightarrow> safe A s (computeFinalCheckpoint e s)"
  by (simp add: computeFinalCheckpoint_def safe_computeFinal split: detector_kind.split)

lemma safe_recompute: "safe A s t \<Longrightarrow> safe A s (recomputeProbableHighestNonce e t)"
  by (rule safe_core_trans) (simp_all add: core_simps)

lemma safe_compute_recompute:
  assumes "supernova A e" "checkpoints_ok A s" "safe A s t"
  shows "safe A s (recomputeProbableHighestNonce e (computeFinalCheckpoint e t))"
  using safe_recompute safe_trans [OF assms(3) safe_compute] safeD [OF assms(3,2)] assms(1) by blast

text \<open>A header from after the activation.\<close>

definition activated :: "regime \<Rightarrow> HeaderHandler \<Rightarrow> bool" where
  "activated A header \<longleftrightarrow> activationEpoch A \<le> GetEpoch header \<and> activationRound A \<le> GetRound header"

lemma safe_append_notarized:
  assumes "\<forall>(header, _) \<in> set xs. activated A header"
  shows "safe A s (snd (append_notarized e settled xs added s))"
  using assms
proof (induction e settled xs added s rule: append_notarized.induct)
  case (2 e settled header headerHash rest added s)
  let ?info = "\<lparr>hi_epoch = GetEpoch header, hi_nonce = GetNonce header, hi_round = GetRound header,
    hi_hash = headerHash, hi_prevHash = GetPrevHash header, hi_state = BHNotarized,
    hi_hasProof = HasProof e (GetShardID header) headerHash, hi_selectedByAuthority = False\<rparr>"
  show ?case
  proof (cases "GetNonce header \<le> cp_nonce settled")
    case True
    with 2 show ?thesis by (auto simp: order.order_iff_strict)
  next
    case False
    then have "GetNonce header \<noteq> 0" by auto
    then have a: "safe A s (snd (append_info e ?info s))"
      using safe_append [of ?info A s e] "2.prems"
      by (simp add: append_info_def case_prod_unfold info_ok_def activated_def)
    obtain appended t where t: "append_info e ?info s = (appended, t)" by fastforce
    with False have "\<not> GetNonce header < cp_nonce settled" "GetNonce header \<noteq> cp_nonce settled" by auto
    with "2.IH"(3) [OF this t [symmetric]] a t "2.prems" show ?thesis by (auto intro: safe_trans)
  qed
qed simp

lemma safe_setInstantFinal:
  assumes "isSupernovaForHeader e header" "GetNonce header \<noteq> 0" "cp_nonce c = GetNonce header"
  shows "safe A s (setInstantFinalCheckpoint e header hash c s)"
proof (cases "canInstantlyFinalizeFromCheckpoint e (HasProofForDifferentHash e) header hash (finalCheckpoint s) s")
  case True
  with assms(1) have "cp_nonce (finalCheckpoint s) + 1 = GetNonce header"
    by (auto simp: canInstantlyFinalizeFromCheckpoint_def isParentCheckpoint_def split: if_splits)
  then have lt: "cp_nonce (finalCheckpoint s) < cp_nonce c"
    using assms(2,3) by unat_arith
  have "safe A s (setFinalCheckpoint c s)"
    by (rule safe_setFinal) (use lt in \<open>auto simp: checkpoints_ok_def\<close>)
  moreover have "safe A s (setFinalCheckpoint (finalCheckpoint s) (setFinalCheckpoint c s))"
    by (rule safe_core) (simp add: core_def)
  ultimately show ?thesis using True assms(1) by (simp add: setInstantFinalCheckpoint_def Let_def)
qed (simp add: setInstantFinalCheckpoint_def)

text \<open>
  The calls of a network after the Supernova activation: headers are of the third version, and headers,
  proofs and notarized headers are from after the activation; no genesis block is among them. Where the
  regime says so, every header names its parent.
\<close>

fun call_ok_fd :: "regime \<Rightarrow> fd_call \<Rightarrow> bool" where
  "call_ok_fd A (CallAddHeader (Some header) hash state selfNotarized) \<longleftrightarrow>
     IsHeaderV3 header \<and> GetNonce header \<noteq> 0 \<and> activated A header \<and> (parentsNamed A \<longrightarrow> GetPrevHash header \<noteq> []) \<and>
     (\<forall>(notarized, _) \<in> set selfNotarized. activated A notarized)"
| "call_ok_fd A (CallReceivedProof (Some p)) \<longleftrightarrow> GetHeaderNonce p \<noteq> 0 \<and>
     activationEpoch A \<le> GetHeaderEpoch p \<and> activationRound A \<le> GetHeaderRound p"
| "call_ok_fd A (CallReceivedSelfNotarized shard selfNotarized) \<longleftrightarrow>
     (\<forall>(notarized, _) \<in> set selfNotarized. activated A notarized)"
| "call_ok_fd A call \<longleftrightarrow> True"

text \<open>The calls that put the checkpoints anew.\<close>

fun restarts :: "fd_call \<Rightarrow> bool" where
  "restarts CallRestoreToGenesis \<longleftrightarrow> True"
| "restarts CallSetFinalToLastCheckpoint \<longleftrightarrow> True"
| "restarts call \<longleftrightarrow> False"

lemma supernova_header: "supernova A e \<Longrightarrow> activated A header \<Longrightarrow> IsHeaderV3 header \<Longrightarrow> isSupernovaForHeader e header"
  by (simp add: isSupernovaForHeader_def IsCrossHeaderSettlementEnabledForHeader_def supernova_def activated_def
      IsAsyncExecutionEnabledForEpochAndRound_def)

lemma safe_instant:
  assumes "isSupernovaForHeader e header" "GetNonce header \<noteq> 0" "cp_nonce c = GetNonce header" "safe A s t"
  shows "safe A s (removePastOrInvalidRecords e (if b then setInstantFinalCheckpoint e header hash c (addCheckpoint c t)
    else addCheckpoint c t))"
proof -
  have "safe A s (addCheckpoint c t)" using assms(4) by (rule safe_core_trans) (simp add: core_simps)
  then have "safe A s (if b then setInstantFinalCheckpoint e header hash c (addCheckpoint c t) else addCheckpoint c t)"
    using safe_trans [OF _ safe_setInstantFinal [OF assms(1-3)]] by simp
  then show ?thesis by (rule safe_trans [OF _ safe_removePastOrInvalid])
qed

lemma safe_doJob:
  assumes "supernova A e" "checkpoints_ok A s" "IsHeaderV3 header" "GetNonce header \<noteq> 0" "activated A header"
    and "\<forall>(notarized, _) \<in> set selfNotarized. activated A notarized"
  shows "safe A s (doJobOnBHProcessed e header hash selfNotarized s)"
proof -
  have sn: "isSupernovaForHeader e header" using assms(1,5,3) by (rule supernova_header)
  show ?thesis
  proof (cases "fd_kind s")
    case ShardDetector
    let ?t = "snd (appendSelfNotarizedHeaders e selfNotarized s)"
    have t: "safe A s ?t" unfolding appendSelfNotarizedHeaders_def by (rule safe_append_notarized [OF assms(6)])
    have "safe A s (computeFinalCheckpointLocked e ?t)"
      using safe_trans [OF t safe_computeFinal] safeD [OF t assms(2)] assms(1) by blast
    then show ?thesis unfolding doJobOnBHProcessed_def shard_doJobOnBHProcessed_def Let_def
      using ShardDetector safe_instant [OF sn assms(4)] by simp
  next
    case MetaDetector
    have "safe A s (advanceFinalAndSettledCheckpoint (lastCheckpoint s) s)"
      by (rule safe_advanceBoth) (simp add: MetaDetector)
    then show ?thesis unfolding doJobOnBHProcessed_def meta_doJobOnBHProcessed_def Let_def
      using MetaDetector safe_instant [OF sn assms(4)] by simp
  qed
qed

lemma safe_AddHeader:
  assumes "supernova A e" "checkpoints_ok A s" "call_ok_fd A (CallAddHeader header hash state selfNotarized)"
  shows "safe A s (snd (snd (AddHeader e header hash state selfNotarized s)))"
proof (cases "fst (checkBlockBasicValidity e s header hash) = None")
  case True
  then obtain h where h: "header = Some h"
    by (cases header) (simp_all add: checkBlockBasicValidity_def)
  let ?s = "setHighestNonceReceived (GetNonce h) s"
  have s1: "safe A s ?s" by (rule safe_core) (simp add: core_simps)
  let ?from = "\<lambda>info. hi_nonce info = GetNonce h \<and> hi_prevHash info = GetPrevHash h \<and> hi_epoch info = GetEpoch h \<and>
    hi_round info = GetRound h"
  have app: "safe A s (snd (appendHeaderInfo e info ?s))" if "?from info" for info
    using safe_trans [OF s1 safe_append] that assms(3) by (simp add: h info_ok_def activated_def)
  have job: "safe A s (if a then snd (appendHeaderInfo e info ?s) else recomputeProbableHighestNonce e
      (if b then doJobOnBHProcessed e h (slice_str hash) selfNotarized (snd (appendHeaderInfo e info ?s))
       else snd (appendHeaderInfo e info ?s)))" if "?from info" for info a b
    using app [OF that] safe_trans [OF app safe_doJob [OF assms(1) safeD [OF app assms(2)]]] that assms(3)
    by (simp add: h safe_recompute)
  have "safe A s (processReceivedBlock e h (slice_str hash) state selfNotarized s)"
    unfolding processReceivedBlock_def Let_def case_prod_unfold using s1 job by simp
  with True show ?thesis by (auto simp: AddHeader_def h split: prod.split option.split)
qed (auto simp: AddHeader_def split: prod.split option.split)

lemma safe_ReceivedProof:
  assumes "call_ok_fd A (CallReceivedProof p)"
  shows "safe A s (ReceivedProof e p s)"
proof (cases p)
  case (Some q)
  have "safe A s (setHighestNonceReceived (GetHeaderNonce q) s)" by (rule safe_core) (simp add: core_simps)
  from safe_recompute [OF safe_trans [OF this safe_append]] show ?thesis
    using assms by (simp add: ReceivedProof_def processReceivedProof_def Some info_ok_def)
qed (simp add: ReceivedProof_def processReceivedProof_def)

lemma safe_ReceivedSelfNotarized:
  assumes "supernova A e" "checkpoints_ok A s" "\<forall>(notarized, _) \<in> set selfNotarized. activated A notarized"
  shows "safe A s (ReceivedSelfNotarizedFromCrossHeaders e shard selfNotarized s)"
proof -
  let ?t = "snd (appendSelfNotarizedHeaders e selfNotarized s)"
  have t: "safe A s ?t" unfolding appendSelfNotarizedHeaders_def by (rule safe_append_notarized [OF assms(3)])
  have "safe A s (computeFinalCheckpointLocked e ?t)"
    using safe_trans [OF t safe_computeFinal] safeD [OF t assms(2)] assms(1) by blast
  with t show ?thesis
    unfolding ReceivedSelfNotarizedFromCrossHeaders_def Let_def case_prod_unfold by (simp add: safe_recompute)
qed

subsection \<open>Removal and reconciliation\<close>

lemma processed_below_ge:
  assumes "\<forall>(n, infos) \<in> set hs. \<forall>info \<in> set infos. hi_nonce info = n"
  shows "cp_nonce c \<le> cp_nonce (fold (processed_below_step nonce) hs c)"
  using assms
proof (induction hs arbitrary: c)
  case (Cons x hs)
  obtain n infos where x: "x = (n, infos)" by (cases x)
  have "cp_nonce c \<le> cp_nonce (processed_below_step nonce x c)"
    using Cons.prems by (auto simp: x processed_below_step_def find_Some_iff split: option.splits)
  also have "\<dots> \<le> cp_nonce (fold (processed_below_step nonce) hs (processed_below_step nonce x c))"
    by (rule Cons.IH) (use Cons.prems in auto)
  finally show ?case by simp
qed simp

lemma safe_lower_final: "safe A s (setFinalCheckpoint (highestProcessedCheckpointBelowLocked nonce s) s)"
  unfolding highestProcessedCheckpointBelowLocked_def
  by (rule safe_setFinal, rule processed_below_ge) (auto simp: checkpoints_ok_def headers_ok_def info_ok_def)

lemma safe_RemoveHeader:
  assumes "supernova A e" "checkpoints_ok A s"
  shows "safe A s (RemoveHeader e nonce hash s)"
proof (cases "nonce \<le> cp_nonce (finalCheckpoint s)")
  case False
  let ?s = "removeCheckpointWithNonce nonce s"
  have c: "core ?s = core s" by (rule core_simps)
  have "safe A ?s (put_headers nonce (filter P (headers_at ?s nonce)) ?s)" for P
    by (rule safe_put) (use False core_eqD [OF c] headers_atD(2) in auto)
  with safe_compute_recompute [OF assms safe_trans [OF safe_core [OF c]]] False show ?thesis
    by (simp add: RemoveHeader_def Let_def)
qed (simp add: RemoveHeader_def)

lemma proof_evidence_ok:
  "info \<in> set (proof_evidence e hash infos) \<Longrightarrow> \<forall>i \<in> set infos. info_ok A nonce i \<Longrightarrow> info_ok A nonce info"
  by (auto simp: proof_evidence_def find_Some_iff2 info_ok_def split: option.splits)

lemma safe_RemoveCommittedHeader:
  assumes "supernova A e" "checkpoints_ok A s"
  shows "safe A s (RemoveCommittedHeader e nonce hash s)"
proof (cases "nonce \<le> cp_nonce (finalCheckpoint s)")
  case False
  let ?s = "removeCheckpointWithNonce nonce s"
  let ?t = "put_headers nonce (filter (\<lambda>info. hi_hash info \<noteq> hash \<or> hi_state info = BHNotarized)
            (headers_at ?s nonce) @ proof_evidence e hash (headers_at ?s nonce)) ?s"
  have c: "core ?s = core s" by (rule core_simps)
  have "info_ok A nonce info" if "headers_ok A (fd_headers s)" "info \<in> set (headers_at s nonce) \<or>
      info \<in> set (proof_evidence e hash (headers_at s nonce))" for info
    using that headers_atD(2) [OF that(1)] proof_evidence_ok by blast
  then have "safe A ?s ?t"
    by (intro safe_put) (use False core_eqD [OF c] in auto)
  then have "safe A s (refreshAmbiguousNotarizationLocked e ?t)"
    using safe_core_trans [OF safe_trans [OF safe_core [OF c]]] by (simp add: core_simps)
  from safe_compute_recompute [OF assms this] False show ?thesis
    by (simp add: RemoveCommittedHeader_def Let_def)
qed (simp add: RemoveCommittedHeader_def)

lemma safe_lower: "safe A s (lower_final nonce s)"
  by (simp add: lower_final_def safe_lower_final)

lemma safe_ReconcileBelow: "safe A s (snd (ReconcileFinalCheckpointBelow e nonce s))"
proof (cases "nonce = 0 \<or> nonce \<le> cp_nonce (settledCheckpoint s)")
  case False
  let ?t = "s\<lparr>fd_headers := filter (\<lambda>(n, _). \<not> n \<ge> nonce) (fd_headers s)\<rparr>"
  have "safe A s ?t" by (rule safe_filter_keys) (use False in auto)
  then have "safe A s (refreshAmbiguousNotarizationLocked e ?t
      \<lparr>fd_fork := fd_fork (refreshAmbiguousNotarizationLocked e ?t)\<lparr>fi_checkpoint := cs\<rparr>\<rparr>)" for cs
    by (rule safe_core_trans) (simp add: core_simps)
  from safe_recompute [OF safe_trans [OF this safe_lower]] False show ?thesis
    unfolding ReconcileFinalCheckpointBelow_def reconcileFinalCheckpointRecordsBelow_def
      finishFinalCheckpointReconciliation_def Let_def case_prod_unfold
    by simp
qed (auto simp: ReconcileFinalCheckpointBelow_def reconcileFinalCheckpointRecordsBelow_def)

text \<open>One turn of the walk over the rejected descendants leaves a nonce behind.\<close>

definition drop_rejected :: "u64 \<Rightarrow> bytes list \<Rightarrow> headerInfo list \<Rightarrow> baseForkDetector \<Rightarrow> baseForkDetector" where
  "drop_rejected nonce rejected infos s = s\<lparr>fd_headers := AList.update nonce
     (filter (\<lambda>info. hi_prevHash info \<notin> set rejected \<or> hi_state info \<noteq> BHNotarized) infos) (fd_headers s)\<rparr>"

lemma removeRejected_unfold:
  "removeRejectedNotarizedDescendantsLocked nonce rejected s =
     (if rejected = [] then Some s else (case map_of (fd_headers s) nonce of
        None \<Rightarrow> Some s
      | Some infos \<Rightarrow> removeRejectedNotarizedDescendantsLocked (nonce + 1)
          (map hi_hash (filter (\<lambda>info. hi_prevHash info \<in> set rejected) infos)) (drop_rejected nonce rejected infos s)))"
  unfolding drop_rejected_def by (rule removeRejectedNotarizedDescendantsLocked.simps)

definition nonces_left :: "u64 \<Rightarrow> (u64 \<times> 'a) list \<Rightarrow> nat" where
  "nonces_left nonce hs = (if nonce = 0 then 0 else Suc (card (above (nonce - 1) hs)))"

lemma drop_rejected_turn:
  assumes "headers_ok A (fd_headers s)" "map_of (fd_headers s) nonce = Some infos"
  shows "nonce \<noteq> 0" "headers_ok A (fd_headers (drop_rejected nonce rejected infos s))"
    "nonces_left (nonce + 1) (fd_headers (drop_rejected nonce rejected infos s)) < nonces_left nonce (fd_headers s)"
proof -
  let ?t = "drop_rejected nonce rejected infos s"
  show nz: "nonce \<noteq> 0" by (rule headers_okD(1) [OF assms])
  show "headers_ok A (fd_headers ?t)"
    using headers_ok_update [OF assms(1) nz] headers_okD(2) [OF assms] by (simp add: drop_rejected_def)
  have key: "nonce \<in> fst ` set (fd_headers s)" using map_of_SomeD [OF assms(2)] by force
  then have "fst ` set (fd_headers ?t) = fst ` set (fd_headers s)"
    using dom_map_of_conv_image_fst [of "fd_headers ?t"]
    by (simp add: drop_rejected_def update_conv' dom_map_of_conv_image_fst insert_absorb)
  then have "card (above nonce (fd_headers ?t)) < card (above (nonce - 1) (fd_headers s))"
    using above_next [of "nonce - 1" "fd_headers s"] key nz by (simp add: above_def)
  with nz show "nonces_left (nonce + 1) (fd_headers ?t) < nonces_left nonce (fd_headers s)"
    by (simp add: nonces_left_def)
qed

lemma removeRejected_ends:
  assumes "headers_ok A (fd_headers s)"
  shows "\<exists>t. removeRejectedNotarizedDescendantsLocked nonce rejected s = Some t"
  using assms
proof (induction "nonces_left nonce (fd_headers s)" arbitrary: nonce rejected s rule: less_induct)
  case less
  show ?case
  proof (cases "map_of (fd_headers s) nonce")
    case (Some infos)
    note turn = drop_rejected_turn [OF less.prems Some]
    from less.hyps [OF turn(3,2)] Some show ?thesis by (simp add: removeRejected_unfold [of nonce])
  qed (simp add: removeRejected_unfold [of nonce])
qed

lemma safe_removeRejected:
  assumes "checkpoints_ok A s" "cp_nonce (settledCheckpoint s) < nonce \<or> nonce = 0"
    and "removeRejectedNotarizedDescendantsLocked nonce rejected s = Some t"
  shows "safe A s t"
  using assms
proof (induction "nonces_left nonce (fd_headers s)" arbitrary: nonce rejected s rule: less_induct)
  case less
  show ?case
  proof (cases "rejected = [] \<or> map_of (fd_headers s) nonce = None")
    case False
    then obtain infos where i: "map_of (fd_headers s) nonce = Some infos" "rejected \<noteq> []" by auto
    let ?u = "drop_rejected nonce rejected infos s"
    have ok: "headers_ok A (fd_headers s)" using less.prems(1) by (simp add: checkpoints_ok_def)
    note turn = drop_rejected_turn [OF ok i(1)]
    have u: "safe A s ?u" unfolding drop_rejected_def
      by (rule safe_update) (use turn(1) less.prems(2) i headers_okD(2) in auto)
    have "cp_nonce (settledCheckpoint s) < nonce + 1 \<or> nonce + 1 = 0" using less.prems(2) turn(1) by unat_arith
    then have "cp_nonce (settledCheckpoint ?u) < nonce + 1 \<or> nonce + 1 = 0"
      by (simp add: drop_rejected_def fork_access)
    from less.hyps [OF turn(3) safeD [OF u less.prems(1)] this] less.prems(3) i
    have "safe A ?u t" by (simp add: removeRejected_unfold [of nonce])
    with u show ?thesis by (rule safe_trans)
  qed (use less.prems(3) in \<open>auto simp: removeRejected_unfold [of nonce] split: if_splits\<close>)
qed

lemma settledCheckpoint_headers [simp]: "settledCheckpoint (s\<lparr>fd_headers := hs\<rparr>) = settledCheckpoint s"
  by (simp add: settledCheckpoint_def)

lemma safe_ReconcileFromAuthority:
  assumes "checkpoints_ok A s"
  shows "safe A s (snd (ReconcileFinalCheckpointFromAuthority e nonce hash s))"
proof (cases "fst (reconcileFinalCheckpointFromAuthorityRecords e nonce hash s)")
  case False
  then have "snd (reconcileFinalCheckpointFromAuthorityRecords e nonce hash s) = s"
    unfolding reconcileFinalCheckpointFromAuthorityRecords_def Let_def
    by (auto split: if_splits)
  with False show ?thesis
    by (simp add: ReconcileFinalCheckpointFromAuthority_def case_prod_unfold)
next
  case True
  let ?infos = "headers_at s nonce"
  let ?preserved = "map (\<lambda>info. if hi_hash info = hash \<and> hi_state info = BHNotarized
      then info\<lparr>hi_selectedByAuthority := True\<rparr> else info)
    (filter (\<lambda>info. hi_hash info = hash \<or> hi_state info \<noteq> BHNotarized) ?infos)"
  let ?t = "s\<lparr>fd_headers := AList.update nonce ?preserved (fd_headers s)\<rparr>"
  let ?u = "the (removeRejectedNotarizedDescendantsLocked (nonce + 1)
    (map hi_hash (filter (\<lambda>info. hi_hash info \<noteq> hash) ?infos)) ?t)"
  from True have lt: "cp_nonce (settledCheckpoint s) < nonce"
    unfolding reconcileFinalCheckpointFromAuthorityRecords_def by (simp split: if_splits)
  have t: "safe A s ?t"
    by (rule safe_update) (use lt headers_atD(2) in \<open>auto simp: info_ok_def\<close>)
  have "cp_nonce (settledCheckpoint s) < nonce + 1 \<or> nonce + 1 = 0" using lt by unat_arith
  then have "cp_nonce (settledCheckpoint ?t) < nonce + 1 \<or> nonce + 1 = 0" by simp
  moreover have "headers_ok A (fd_headers ?t)" using safeD [OF t assms] by (simp add: checkpoints_ok_def)
  from removeRejected_ends [OF this] obtain u where "removeRejectedNotarizedDescendantsLocked (nonce + 1)
    (map hi_hash (filter (\<lambda>info. hi_hash info \<noteq> hash) ?infos)) ?t = Some u" by blast
  ultimately have "safe A ?t ?u" using safe_removeRejected [OF safeD [OF t assms]] by simp
  then have "safe A s (refreshAmbiguousNotarizationLocked e ?u)"
    using safe_core_trans [OF safe_trans [OF t]] by (simp add: core_simps)
  then have "safe A s (recomputeProbableHighestNonce e (lower_final nonce (refreshAmbiguousNotarizationLocked e ?u)))"
    by (rule safe_recompute [OF safe_trans [OF _ safe_lower]])
  with True show ?thesis
    unfolding ReconcileFinalCheckpointFromAuthority_def reconcileFinalCheckpointFromAuthorityRecords_def
      finishFinalCheckpointReconciliation_def Let_def case_prod_unfold
    by (simp split: if_splits)
qed

lemma safe_apply:
  assumes "supernova A e" "checkpoints_ok A s"
  shows "safe A s (snd (applyNotarizedHeaderSelection e nonce hash s))"
proof (cases "hash = [] \<or> nonce \<le> cp_nonce (settledCheckpoint s)")
  case False
  let ?processed = "find (\<lambda>info. hi_state info = BHProcessed) (headers_at s nonce)"
  let ?preserved = "map (\<lambda>info. if hi_state info = BHNotarized then info\<lparr>hi_selectedByAuthority := True\<rparr> else info)
    (filter (\<lambda>info. \<not> (hi_state info = BHNotarized \<and> hi_hash info \<noteq> hash)) (headers_at s nonce))"
  let ?new = "\<lambda>b. ?preserved @ (if b then [] else (case ?processed of None \<Rightarrow> []
    | Some p \<Rightarrow> [p\<lparr>hi_state := BHNotarized, hi_selectedByAuthority := True\<rparr>]))"
  have p: "p \<in> set (headers_at s nonce)" if "?processed = Some p" for p
    using that by (auto simp: find_Some_iff)
  have nz: "nonce \<noteq> 0" "nonce \<noteq> cp_nonce (settledCheckpoint s)" using False by auto
  have new: "info_ok A nonce info" if "headers_ok A (fd_headers s)" "info \<in> set (?new b)" for info b
    using that headers_atD(2) [OF that(1)] p by (cases ?processed) (auto simp: info_ok_def split: if_splits)
  have "safe A s (s\<lparr>fd_headers := AList.update nonce (?new b) (fd_headers s)\<rparr>)" for b
    by (rule safe_update [OF nz(1)], intro ballI, rule new, assumption+) (use nz(2) in blast)
  then have r: "safe A s (refreshAmbiguousNotarizationLocked e (s\<lparr>fd_headers := AList.update nonce (?new b) (fd_headers s)\<rparr>))" for b
    by (rule safe_core_trans) (simp add: core_simps)
  have turn: "safe A s (if c then refreshAmbiguousNotarizationLocked e
      (s\<lparr>fd_headers := AList.update nonce (?new b) (fd_headers s)\<rparr>) else s)" for b c
    using r by (cases c) simp_all
  have result: "safe A s (snd (if a then (x, t) else if b then (y, t) else if c then (z, t)
      else (w, recomputeProbableHighestNonce e (computeFinalCheckpoint e t))))"
    if "safe A s t" for a b c t and x y z w :: notarizedHeaderResolution
    using that safe_compute_recompute [OF assms that] by simp
  have "hash \<noteq> []" "\<not> nonce \<le> cp_nonce (settledCheckpoint s)" using False by simp_all
  then show ?thesis
    unfolding applyNotarizedHeaderSelection_def Let_def
    by (simp only: if_not_P not_False_eq_True simp_thms if_False) (rule result [OF turn])
qed (auto simp: applyNotarizedHeaderSelection_def)

lemma safe_cleanup:
  assumes "supernova A e"
  shows "safe A s (cleanupReceivedHeadersHigherThanNonce e nonce s)"
proof -
  have "(\<lambda>(n, infos). (n, if n \<le> nonce then infos else filter (Q n) infos)) =
      (\<lambda>(n, infos). (n, filter (\<lambda>info. n \<le> nonce \<or> Q n info) infos))" for Q :: "u64 \<Rightarrow> headerInfo \<Rightarrow> bool"
    by (auto intro!: ext)
  then show ?thesis
    unfolding cleanupReceivedHeadersHigherThanNonce_def
    using safe_filter [of "\<lambda>n info. n \<le> nonce \<or> hi_state info = BHNotarized \<or>
        hi_hasProof info \<and> IsFlagEnabledInEpoch e AndromedaFlag (hi_epoch info)" s A "\<lambda>(n, infos). n \<le> nonce \<or> infos \<noteq> []"] assms
    by (simp add: supernova_def info_ok_def)
qed

lemma core_CheckFork: "core (snd (CheckFork e s)) = core s"
  by (simp add: CheckFork_def case_prod_unfold core_simps)

theorem safe_exec:
  assumes "supernova A e" "checkpoints_ok A s" "call_ok_fd A call" "\<not> restarts call"
  shows "safe A s (fd_exec e call s)"
proof (cases call)
  case (CallAddHeader header hash state selfNotarized)
  then show ?thesis using safe_AddHeader assms by simp
next
  case (CallReceivedProof p)
  then show ?thesis using safe_ReceivedProof assms by simp
next
  case (CallReceivedSelfNotarized shard selfNotarized)
  then show ?thesis using safe_ReceivedSelfNotarized [OF assms(1,2)] assms(3) by (simp split: detector_kind.split)
next
  case (CallRemoveHeader nonce hash)
  then show ?thesis using safe_RemoveHeader [OF assms(1,2)] by simp
next
  case (CallRemoveCommittedHeader nonce hash)
  then show ?thesis using safe_RemoveCommittedHeader [OF assms(1,2)] by simp
next
  case (CallReconcileFinalCheckpoint nonce)
  then show ?thesis using safe_lower_final by (simp add: ReconcileFinalCheckpoint_def)
next
  case (CallReconcileFinalCheckpointBelow nonce)
  then show ?thesis using safe_ReconcileBelow by simp
next
  case (CallReconcileFinalCheckpointFromAuthority nonce hash)
  then show ?thesis using safe_ReconcileFromAuthority [OF assms(2)] by simp
next
  case (CallApplySelection nonce hash)
  then show ?thesis using safe_apply [OF assms(1,2)] by simp
next
  case CallCheckFork
  then show ?thesis using safe_core [OF core_CheckFork] by simp
next
  case CallResetFork
  then show ?thesis
    using safe_core_trans [OF safe_recompute [OF safe_cleanup [OF assms(1)]]]
    by (simp add: ResetFork_def ResetProbableHighestNonce_def core_simps)
next
  case CallResetProbableHighestNonce
  then show ?thesis
    using safe_recompute [OF safe_cleanup [OF assms(1)]] by (simp add: ResetProbableHighestNonce_def)
qed (use assms(4) in \<open>auto intro!: safe_core simp: core_simps GetNotarizedHeaderHash_def getNotarizedHeaderSelection_def
    getLowestAmbiguousNotarizedHeaderSelection_def Let_def\<close>)

section \<open>Runs\<close>

text \<open>A run: calls in an order, each in an environment of its own.\<close>

definition fd_run :: "(fd_env \<times> fd_call) list \<Rightarrow> baseForkDetector \<Rightarrow> baseForkDetector" where
  "fd_run calls s = fold (\<lambda>(e, call). fd_exec e call) calls s"

text \<open>The calls of a run after the activation, and a run without a restart.\<close>

definition calls_ok :: "regime \<Rightarrow> (fd_env \<times> fd_call) list \<Rightarrow> bool" where
  "calls_ok A calls \<longleftrightarrow> (\<forall>(e, call) \<in> set calls. supernova A e \<and> call_ok_fd A call)"

definition no_restart :: "(fd_env \<times> fd_call) list \<Rightarrow> bool" where
  "no_restart calls \<longleftrightarrow> (\<forall>(e, call) \<in> set calls. \<not> restarts call)"

lemma new_detector_ok:
  "checkpoints_ok A (new_detector kind shard genesisTime supernovaTime genesisHdr)"
  by (simp add: new_detector_def addCheckpoint_def checkpoints_ok_def headers_ok_def fork_access Let_def)

lemma restart_ok:
  assumes "restarts call" "checkpoints_ok A s"
  shows "checkpoints_ok A (fd_exec e call s)"
  using assms
  by (cases call) (simp_all add: checkpoints_ok_def headers_ok_def RestoreToGenesis_def SetFinalToLastCheckpoint_def
      setFinalAndSettledCheckpoint_def fork_access Let_def)

lemma run_ok:
  assumes "calls_ok A calls" "checkpoints_ok A s"
  shows "checkpoints_ok A (fd_run calls s)"
  using assms
proof (induction calls arbitrary: s)
  case (Cons x calls)
  obtain e call where x: "x = (e, call)" by (cases x)
  have "checkpoints_ok A (fd_exec e call s)"
    using Cons.prems restart_ok safeD [OF safe_exec] by (cases "restarts call") (auto simp: calls_ok_def x)
  with Cons show ?case by (simp add: calls_ok_def fd_run_def x)
qed (simp add: fd_run_def)

lemma run_safe:
  assumes "calls_ok A calls" "no_restart calls" "checkpoints_ok A s"
  shows "safe A s (fd_run calls s)"
  using assms
proof (induction calls arbitrary: s)
  case (Cons x calls)
  obtain e call where x: "x = (e, call)" by (cases x)
  have "safe A s (fd_exec e call s)"
    by (rule safe_exec) (use Cons.prems in \<open>auto simp: calls_ok_def no_restart_def x\<close>)
  with Cons.IH [of "fd_exec e call s"] Cons.prems safeD show ?case
    by (auto simp: calls_ok_def no_restart_def fd_run_def x intro: safe_trans)
qed (simp add: fd_run_def)

end
