(* ===== verification/Fork_Props.thy ===== *)
theory Fork_Props
  imports Fork_Inv
begin

text \<open>
  The properties of the fork detector over its runs: the settled checkpoint never goes back and is
  backed by records, it advances along processed blocks only, the report of forks does not
  depend on the iteration order of the map, the probable highest nonce stays within its bounds, and
  the walks over the records end.
\<close>

section \<open>Settlement follows the processed blocks\<close>

text \<open>
  A chain of processed records from a parent hash: at each nonce a processed record whose parent is the
  record before, and every other processed record with this parent has its hash.
\<close>

fun processed_chain :: "baseForkDetector \<Rightarrow> u64 \<Rightarrow> bytes \<Rightarrow> headerInfo list \<Rightarrow> bool" where
  "processed_chain s nonce parentHash [] \<longleftrightarrow> True"
| "processed_chain s nonce parentHash (info # infos) \<longleftrightarrow>
     info \<in> set (headers_at s nonce) \<and> hi_state info = BHProcessed \<and> hi_prevHash info = parentHash \<and>
     (\<forall>other \<in> set (headers_at s nonce). hi_state other = BHProcessed \<and> hi_prevHash other = parentHash \<longrightarrow>
        hi_hash other = hi_hash info) \<and>
     processed_chain s (nonce + 1) (hi_hash info) infos"

lemma ancestry_chain:
  assumes "ancestry_reaches s c nonce h" "nonce \<le> cp_nonce c"
  shows "\<exists>chain. processed_chain s nonce h chain \<and> unat (cp_nonce c) = unat nonce + length chain - 1 \<and>
    chain \<noteq> [] \<and> hi_hash (last chain) = cp_hash c"
  using assms
proof (induction "unat (cp_nonce c - nonce)" arbitrary: nonce h rule: less_induct)
  case less
  from less.prems(1) obtain p where p: "processedChildOnBranchLocked s nonce h = Some p"
    by (auto simp: ancestry_reaches.simps [of s c nonce h] split: option.splits)
  have one: "p \<in> set (headers_at s nonce) \<and> hi_state p = BHProcessed \<and> hi_prevHash p = h \<and>
     (\<forall>other \<in> set (headers_at s nonce). hi_state other = BHProcessed \<and> hi_prevHash other = h \<longrightarrow> hi_hash other = hi_hash p)"
    using child_loop_Some [OF p [unfolded processedChildOnBranchLocked_def]] by blast
  show ?case
  proof (cases "nonce = cp_nonce c")
    case True
    have "hi_hash p = cp_hash c"
      using less.prems(1) p True by (subst (asm) ancestry_reaches.simps) (simp split: if_splits)
    moreover have "processed_chain s nonce h [p]" unfolding processed_chain.simps using one by blast
    ultimately show ?thesis using True by (intro exI [of _ "[p]"]) simp
  next
    case False
    have reach: "ancestry_reaches s c (nonce + 1) (hi_hash p)"
      using less.prems(1) p False by (simp add: ancestry_reaches.simps [of s c nonce h])
    have le: "nonce + 1 \<le> cp_nonce c" "unat (nonce + 1) = unat nonce + 1"
      using less.prems(2) False by unat_arith+
    obtain chain where ch: "processed_chain s (nonce + 1) (hi_hash p) chain" "chain \<noteq> []"
      "unat (cp_nonce c) = unat (nonce + 1) + length chain - 1" "hi_hash (last chain) = cp_hash c"
      using less.hyps [OF walk_closer [OF False] reach le(1)] by blast
    have "processed_chain s nonce h (p # chain)" unfolding processed_chain.simps using one ch(1) by blast
    with ch(2-) le(2) show ?thesis by (intro exI [of _ "p # chain"]) (simp del: processed_chain.simps)
  qed
qed

lemma settle_step:
  assumes "supernova A e" "headers_ok A (fd_headers s)"
    and "settledCheckpoint (settle_highest_notarized e s) \<noteq> settledCheckpoint s"
  defines "c \<equiv> settledCheckpoint (settle_highest_notarized e s)"
  shows "supported (cp_hash c) (headers_at s (cp_nonce c)) \<and> cp_nonce (settledCheckpoint s) < cp_nonce c \<and>
    ancestry_reaches s c (cp_nonce (settledCheckpoint s) + 1) (cp_hash (settledCheckpoint s))"
proof -
  obtain d w v where h: "highest_notarized e s = (d, w, v)" by (metis prod_cases3)
  obtain can t where r: "reconcileAuthorityAlongProcessedAncestryLocked e d s = (can, t)" by fastforce
  from assms(3) h have w by (cases w) (simp_all add: settle_highest_notarized_def)
  moreover from this h have h': "highest_notarized e s = (d, True, v)" by simp
  then have v using fold_notarized_async [OF assms(1,2) h' [unfolded highest_notarized_def]] by simp
  ultimately have settle: "settle_highest_notarized e s =
      (if can then advanceFinalAndSettledCheckpoint d t else t)"
    using h r by (simp add: settle_highest_notarized_def)
  with assms(3) reconcile_authority(2) [OF r] have can and lt: "cp_nonce (settledCheckpoint s) < cp_nonce d" and c: "c = d"
    by (auto simp: c_def split: if_splits)
  with r have "ancestry_reaches s d (cp_nonce (settledCheckpoint s) + 1) (cp_hash (settledCheckpoint s))"
    by (auto simp: reconcileAuthorityAlongProcessedAncestryLocked_def Let_def split: if_splits prod.splits)
  with lt c highest_notarized_supported [OF h' assms(2)] show ?thesis by auto
qed

text \<open>
  C26. The settlement of a shard, computed by \<open>computeFinalCheckpointLocked\<close>, advances along the blocks the
  node has processed, when the records are from after the Supernova activation: if the settled checkpoint
  moves, the processed records form a chain from the old settled hash to the new one, one block per nonce
  and without a second processed block on any of its parents, and the new settled block is processed
  with a proof and notarized by the metachain.
\<close>

theorem settlement_follows_ancestry:
  assumes "supernova A e" "checkpoints_ok A s"
    and "settledCheckpoint (computeFinalCheckpointLocked e s) \<noteq> settledCheckpoint s"
  defines "old \<equiv> settledCheckpoint s" and "new \<equiv> settledCheckpoint (computeFinalCheckpointLocked e s)"
  shows "\<exists>chain. processed_chain s (cp_nonce old + 1) (cp_hash old) chain \<and> chain \<noteq> [] \<and>
    unat (cp_nonce new) = unat (cp_nonce old) + length chain \<and> hi_hash (last chain) = cp_hash new \<and>
    supported (cp_hash new) (headers_at s (cp_nonce new))"
proof -
  have new: "new = settledCheckpoint (settle_highest_notarized e s)"
    unfolding new_def computeFinalCheckpointLocked_def
    using safe_finalize [OF assms(1) safeD [OF safe_settle [OF assms(1,2)] assms(2)]] by blast
  with assms(3) have "settledCheckpoint (settle_highest_notarized e s) \<noteq> settledCheckpoint s" by (simp add: new_def)
  note step = settle_step [OF assms(1) _ this, folded new old_def]
  have "headers_ok A (fd_headers s)" using assms(2) by (simp add: checkpoints_ok_def)
  with step have s: "supported (cp_hash new) (headers_at s (cp_nonce new))" "cp_nonce old < cp_nonce new"
    "ancestry_reaches s new (cp_nonce old + 1) (cp_hash old)" by blast+
  from s(2) have "cp_nonce old + 1 \<le> cp_nonce new" "unat (cp_nonce old + 1) = unat (cp_nonce old) + 1"
    by unat_arith+
  with ancestry_chain [OF s(3)] s(1) show ?thesis by auto
qed

section \<open>Checkpoints over a run\<close>

text \<open>
  C24. Take a fork detector, of a shard or of the metachain, whose records are from after the Supernova
  activation, and any sequence of calls whose headers (of version 3, not genesis), proofs and notarized
  headers are from after the activation too. Then the settled checkpoint is never above the final one. If
  no call is a restart (\<open>RestoreToGenesis\<close>, \<open>SetFinalToLastCheckpoint\<close>), the settled checkpoint is the same
  as before or has a higher nonce: no removal, reconciliation, selection or reset takes it back.
\<close>

theorem settled_never_reverted:
  assumes "checkpoints_ok A s" "calls_ok A calls"
  defines "t \<equiv> fd_run calls s"
  shows "checkpoints_ok A t \<and> cp_nonce (settledCheckpoint t) \<le> cp_nonce (finalCheckpoint t) \<and>
    (no_restart calls \<longrightarrow>
      settledCheckpoint t = settledCheckpoint s \<or> cp_nonce (settledCheckpoint s) < cp_nonce (settledCheckpoint t))"
  using run_ok [OF assms(2,1)] run_safe [OF assms(2) _ assms(1)] assms(1)
  by (auto simp: t_def safe_def settled_forward_def checkpoints_ok_def)

text \<open>
  C25. Under the same conditions, on a shard and without a restart: once the settled checkpoint has moved,
  the detector holds at every later moment a processed record with a proof and a notarized record of the
  hash that is settled then, at its nonce. No removal, reconciliation, selection or reset takes them away.
\<close>

theorem settled_block_backed:
  assumes "checkpoints_ok A s" "fd_kind s = ShardDetector" "calls_ok A calls" "no_restart calls"
  defines "t \<equiv> fd_run calls s"
  assumes "settledCheckpoint t \<noteq> settledCheckpoint s"
  shows "(\<exists>info \<in> set (headers_at t (cp_nonce (settledCheckpoint t))).
      hi_state info = BHProcessed \<and> hi_hasProof info \<and> hi_hash info = cp_hash (settledCheckpoint t)) \<and>
    (\<exists>info \<in> set (headers_at t (cp_nonce (settledCheckpoint t))).
      hi_state info = BHNotarized \<and> hi_hash info = cp_hash (settledCheckpoint t))"
  using run_safe [OF assms(3,4,1)] assms by (auto simp: t_def safe_def settled_supported_def supported_def)

text \<open>
  C39. A shard detector that the constructor sets at genesis never settles a block when Supernova is active
  from then on and every header names its parent: in every run without a restart the settled checkpoint
  stays the one of the constructor. Its hash is empty, and the walk along the processed ancestry starts with
  a record whose parent hash is the settled hash. (A first block with an empty parent hash would be settled;
  \<open>isParentCheckpoint\<close>, in contrast, lets an empty checkpoint hash stand for any parent.)
\<close>

theorem genesis_never_settles:
  assumes "NewShardForkDetector args genesisTime supernovaTime shard = Inr (exclusions, s)"
    and "calls_ok A calls" "no_restart calls" "parentsNamed A"
  shows "settledCheckpoint (fd_run calls s) = settledCheckpoint s \<and> cp_hash (settledCheckpoint s) = []"
proof -
  obtain genesisHdr where s: "s = new_detector ShardDetector shard genesisTime supernovaTime genesisHdr"
    using assms(1) by (auto simp: NewShardForkDetector_def split: sum.splits prod.splits)
  have "fd_kind s = ShardDetector" "cp_hash (settledCheckpoint s) = []"
    by (simp_all add: s new_detector_def addCheckpoint_def settledCheckpoint_def Let_def)
  with run_safe [OF assms(2,3)] new_detector_ok assms(4) show ?thesis by (simp add: s safe_def)
qed

section \<open>The report of forks\<close>








subsection \<open>The competing header\<close>



text \<open>A notarized header counts as one of round zero; the lower round goes before, then the lower hash.\<close>

definition fork_rank :: "headerInfo \<Rightarrow> u64" where
  "fork_rank info = (if hi_state info = BHNotarized then 0 else hi_round info)"

definition before :: "headerInfo \<Rightarrow> headerInfo \<Rightarrow> bool" where
  "before a b \<longleftrightarrow> fork_rank a < fork_rank b \<or>
     fork_rank a = fork_rank b \<and> bytes_Compare (hi_hash a) (hi_hash b) < 0"






lemma before_irrefl [simp]: "\<not> before a a"
  by (simp add: before_def)













subsection \<open>The order of the map\<close>






section \<open>The probable highest nonce\<close>

lemma fold_probable:
  fixes e s
  defines "act \<equiv> \<lambda>nonce infos. snd (classifyProbableHeaders e s nonce infos (finalCheckpoint s) (cp_nonce (settledCheckpoint s)))"
  assumes "fold (probable_step e s) hs (b0, n0) = (b, n)"
  shows "n0 \<le> n" "n = n0 \<or> (\<exists>infos. (n, infos) \<in> set hs \<and> act n infos)"
    "\<And>nonce infos. (nonce, infos) \<in> set hs \<Longrightarrow> act nonce infos \<Longrightarrow> nonce \<le> n"
proof -
  have "n0 \<le> n \<and> (n = n0 \<or> (\<exists>infos. (n, infos) \<in> set hs \<and> act n infos)) \<and>
      (\<forall>(nonce, infos) \<in> set hs. act nonce infos \<longrightarrow> nonce \<le> n)"
    using assms(2)
  proof (induction hs arbitrary: b0 n0)
    case (Cons x hs)
    obtain nonce infos where x: "x = (nonce, infos)" by (cases x)
    obtain b1 n1 where step: "probable_step e s x (b0, n0) = (b1, n1)" by fastforce
    then have n1: "n1 = (if nonce > n0 \<and> act nonce infos then nonce else n0)"
      by (auto simp: x probable_step_def act_def split: prod.splits)
    have "n1 \<le> n \<and> (n = n1 \<or> (\<exists>infos. (n, infos) \<in> set hs \<and> act n infos)) \<and>
        (\<forall>(nonce, infos) \<in> set hs. act nonce infos \<longrightarrow> nonce \<le> n)"
      by (rule Cons.IH) (use Cons.prems step in simp)
    with n1 show ?case by (cases "nonce > n0 \<and> act nonce infos") (auto simp: x)
  qed simp
  then show "n0 \<le> n" "n = n0 \<or> (\<exists>infos. (n, infos) \<in> set hs \<and> act n infos)"
    "\<And>nonce infos. (nonce, infos) \<in> set hs \<Longrightarrow> act nonce infos \<Longrightarrow> nonce \<le> n"
    by blast+
qed

lemma classify_Nil: "\<not> snd (classifyProbableHeaders e s nonce [] final settled)"
  by (simp add: classifyProbableHeaders_def)

text \<open>A turn of the branch walk stops with the nonce it walks to or the last one it found actionable; it
  goes on only at a nonce with records.\<close>

lemma branch_turn_stop:
  "branch_turn e s lastCp raw nonce hash actionable = Inl r \<Longrightarrow> r = raw \<or> r = actionable"
  by (auto simp: branch_turn_def Let_def split: prod.splits option.splits if_splits)

lemma branch_turn_go:
  assumes "branch_turn e s lastCp raw nonce hash actionable = Inr h"
  shows "headers_at s nonce \<noteq> []"
proof
  assume "headers_at s nonce = []"
  with assms show False
    by (simp add: branch_turn_def getUniqueNotarizedHeader_def first_with_state_def hasProvenHeader_def Let_def)
qed

lemma branch_loop_bounds:
  assumes "nonce \<le> raw" "final \<le> actionable" "actionable < nonce" "actionable = final \<or> headers_at s actionable \<noteq> []"
    and "headers_at s raw \<noteq> []"
  shows "final \<le> branch_loop e s lastCp raw nonce hash actionable \<and> branch_loop e s lastCp raw nonce hash actionable \<le> raw \<and>
    (branch_loop e s lastCp raw nonce hash actionable = final \<or> headers_at s (branch_loop e s lastCp raw nonce hash actionable) \<noteq> [])"
  using assms
proof (induction "unat (raw - nonce)" arbitrary: nonce hash actionable rule: less_induct)
  case less
  show ?case
  proof (cases "branch_turn e s lastCp raw nonce hash actionable")
    case (Inl r)
    then have "branch_loop e s lastCp raw nonce hash actionable = r" by (simp add: branch_loop.simps)
    with branch_turn_stop [OF Inl] less.prems show ?thesis by auto
  next
    case (Inr h)
    show ?thesis
    proof (cases "nonce = raw")
      case True
      then have "branch_loop e s lastCp raw nonce hash actionable = raw"
        using Inr by (simp add: branch_loop.simps [of e s lastCp raw raw])
      with True less.prems show ?thesis by auto
    next
      case False
      have "nonce + 1 \<le> raw" "nonce < nonce + 1" using less.prems(1) False by unat_arith+
      moreover have "final \<le> nonce" using less.prems(2,3) by auto
      ultimately have "final \<le> branch_loop e s lastCp raw (nonce + 1) (hi_hash h) nonce \<and>
          branch_loop e s lastCp raw (nonce + 1) (hi_hash h) nonce \<le> raw \<and>
          (branch_loop e s lastCp raw (nonce + 1) (hi_hash h) nonce = final \<or>
           headers_at s (branch_loop e s lastCp raw (nonce + 1) (hi_hash h) nonce) \<noteq> [])"
        using less.hyps [OF walk_closer [OF False]] branch_turn_go [OF Inr] less.prems(5) by blast
      with Inr False show ?thesis by (simp add: branch_loop.simps [of e s lastCp raw nonce])
    qed
  qed
qed

text \<open>
  C28. The probable highest nonce is between the final checkpoint and the highest nonce with an actionable
  header (proven, or notarized after the Supernova activation), and is the nonce of a known header when
  it is above the final checkpoint; the branch selection only ever lowers it.
\<close>

theorem probable_nonce_bounds:
  assumes "distinct (map fst (fd_headers s))"
  shows "cp_nonce (finalCheckpoint s) \<le> computeProbableHighestNonce e s \<and>
    computeProbableHighestNonce e s \<le> snd (fold (probable_step e s) (fd_headers s) (False, cp_nonce (finalCheckpoint s))) \<and>
    (computeProbableHighestNonce e s = cp_nonce (finalCheckpoint s) \<or> headers_at s (computeProbableHighestNonce e s) \<noteq> [])"
proof -
  let ?final = "cp_nonce (finalCheckpoint s)"
  obtain b raw where f: "fold (probable_step e s) (fd_headers s) (False, ?final) = (b, raw)" by fastforce
  have le: "?final \<le> raw" by (rule fold_probable(1) [OF f])
  have raw: "headers_at s raw \<noteq> []" if "raw \<noteq> ?final"
  proof -
    from fold_probable(2) [OF f] that obtain infos where i: "(raw, infos) \<in> set (fd_headers s)"
        "snd (classifyProbableHeaders e s raw infos (finalCheckpoint s) (cp_nonce (settledCheckpoint s)))" by blast
    with assms have "headers_at s raw = infos" by (simp add: headers_at_def)
    with i(2) classify_Nil show ?thesis by (cases infos) auto
  qed
  show ?thesis
  proof (cases "b \<and> ?final < raw")
    case True
    then have "?final + 1 \<le> raw" "?final < ?final + 1" by unat_arith+
    with branch_loop_bounds [of "?final + 1" raw ?final ?final s e "lastCheckpoint s" "cp_hash (finalCheckpoint s)"] raw True
    show ?thesis by (simp add: computeProbableHighestNonce_def computeBranchAwareProbable_def f)
  next
    case False
    with le raw show ?thesis by (auto simp: computeProbableHighestNonce_def f)
  qed
qed

section \<open>The walks end\<close>

text \<open>
  C29. The two walks that stop at the first nonce without a fitting record, over the clean processed
  descendants and over the rejected notarized descendants, return when each record carries the nonce it is
  stored under and none is stored under nonce zero, as in every run (C24): from any checkpoint, nonce and
  set of rejected hashes, for every flag and whatever the proofs pool answers.
\<close>

theorem walks_end:
  assumes "headers_ok A (fd_headers s)"
  shows "(\<exists>t. finalize_loop e final s = Some t) \<and>
    (\<exists>t. removeRejectedNotarizedDescendantsLocked nonce rejected s = Some t)"
  using finalize_loop_ends [OF assms] removeRejected_ends [OF assms] by blast

section \<open>A run\<close>

text \<open>A shard restored at nonce 10: the block of nonce 11 is processed, becomes final, and is settled by its
  notarization.\<close>

definition fork_env :: fd_env where
  "fork_env = \<lparr>round_Index = 12, IndexForCurrentTime = 20, IsFlagEnabledInEpoch = (\<lambda>_ _. True),
     GetActivationEpoch = (\<lambda>_. 0), IsFlagEnabledInRound = (\<lambda>_. True), GetActivationRound = 0,
     HasProof = (\<lambda>_ _. True), HasProofForDifferentHash = (\<lambda>_ _ _. False),
     HasProofForDifferentHash_again = (\<lambda>_ _ _. False), RoundDurationForEpoch = (\<lambda>_. Some 0),
     GetMaxRoundsWithoutCommittedBlock = (\<lambda>_. 100), roundExclusions = None, bl_Has = (\<lambda>_. False)\<rparr>"

definition fork_header :: "u64 \<Rightarrow> u64 \<Rightarrow> bytes \<Rightarrow> HeaderHandler" where
  "fork_header nonce round prev = \<lparr>GetEpoch = 1, GetNonce = nonce, GetRound = round, GetPrevHash = prev,
     GetShardID = 0, GetTimeStamp = 0, IsHeaderV3 = True, IsStartOfEpochBlock = False\<rparr>"

definition fork_start :: baseForkDetector where
  "fork_start = SetFinalToLastCheckpoint (AddCheckpoint 10 10 [7]
     (new_detector ShardDetector 0 0 0 (fork_header 0 0 [])))"

definition fork_regime :: regime where
  "fork_regime = \<lparr>activationEpoch = 1, activationRound = 1, parentsNamed = True\<rparr>"

definition fork_calls :: "(fd_env \<times> fd_call) list" where
  "fork_calls = [(fork_env, CallAddHeader (Some (fork_header 11 11 [7])) (Some [8]) BHProcessed []),
     (fork_env, CallReceivedSelfNotarized MetachainShardId [(fork_header 11 11 [7], [8])])]"

lemma fork_start_ok: "checkpoints_ok A fork_start" "fd_kind fork_start = ShardDetector"
  "settledCheckpoint fork_start = \<lparr>cp_nonce = 10, cp_round = 10, cp_hash = [7]\<rparr>"
  by (simp_all add: fork_start_def SetFinalToLastCheckpoint_def AddCheckpoint_def new_detector_def addCheckpoint_def
      setFinalAndSettledCheckpoint_def lastCheckpoint_def checkpoints_ok_def headers_ok_def fork_access Let_def)

lemma fork_settled_checkpoint:
  "settledCheckpoint (fd_run fork_calls fork_start) = \<lparr>cp_nonce = 11, cp_round = 11, cp_hash = [8]\<rparr>"
  by code_simp

lemma fork_env_supernova: "supernova fork_regime fork_env"
  by (simp add: supernova_def fork_env_def fork_regime_def)

lemma fork_header_activated: "nonce \<ge> 1 \<Longrightarrow> activated fork_regime (fork_header nonce nonce prev)"
  by (simp add: activated_def fork_regime_def fork_header_def)

lemma fork_calls_ok: "calls_ok fork_regime fork_calls" "no_restart fork_calls"
  using fork_env_supernova fork_header_activated [of 11 "[7]"]
  by (simp_all add: calls_ok_def no_restart_def fork_calls_def) (simp add: fork_header_def)

theorem settled_never_reverted_witness:
  "cp_nonce (settledCheckpoint fork_start) < cp_nonce (settledCheckpoint (fd_run fork_calls fork_start)) \<and>
   cp_nonce (settledCheckpoint (fd_run fork_calls fork_start)) \<le> cp_nonce (finalCheckpoint (fd_run fork_calls fork_start))"
  using settled_never_reverted [OF fork_start_ok(1) fork_calls_ok(1)] fork_start_ok(3) fork_settled_checkpoint
  by simp

theorem settled_block_backed_witness:
  "\<exists>info \<in> set (headers_at (fd_run fork_calls fork_start) 11). hi_state info = BHNotarized \<and> hi_hash info = [8]"
  using settled_block_backed [OF fork_start_ok(1,2) fork_calls_ok] fork_start_ok(3) fork_settled_checkpoint by simp

text \<open>The state in which the notarization has arrived and the checkpoints are computed.\<close>

definition fork_notarized :: baseForkDetector where
  "fork_notarized = snd (appendSelfNotarizedHeaders fork_env [(fork_header 11 11 [7], [8])]
     (fd_run (take 1 fork_calls) fork_start))"

lemma fork_notarized_ok: "checkpoints_ok fork_regime fork_notarized"
  unfolding fork_notarized_def appendSelfNotarizedHeaders_def
proof (rule safeD [OF safe_append_notarized])
  show "\<forall>(header, _) \<in> set [(fork_header 11 11 [7], [8])]. activated fork_regime header"
    using fork_header_activated [of 11] by simp
  have "calls_ok fork_regime (take 1 fork_calls)"
    using fork_calls_ok(1) by (auto simp: calls_ok_def dest: in_set_takeD)
  from run_ok [OF this fork_start_ok(1)] show "checkpoints_ok fork_regime (fd_run (take 1 fork_calls) fork_start)" .
qed

lemma fork_notarized_settles:
  "settledCheckpoint fork_notarized = \<lparr>cp_nonce = 10, cp_round = 10, cp_hash = [7]\<rparr>"
  "settledCheckpoint (computeFinalCheckpointLocked fork_env fork_notarized) = \<lparr>cp_nonce = 11, cp_round = 11, cp_hash = [8]\<rparr>"
  by code_simp+

theorem settlement_follows_ancestry_witness:
  "\<exists>chain. processed_chain fork_notarized 11 [7] chain \<and> length chain = 1 \<and> hi_hash (last chain) = [8]"
proof -
  have "settledCheckpoint (computeFinalCheckpointLocked fork_env fork_notarized) \<noteq> settledCheckpoint fork_notarized"
    by (simp add: fork_notarized_settles)
  from settlement_follows_ancestry [OF fork_env_supernova fork_notarized_ok this] show ?thesis
    by (auto simp: fork_notarized_settles)
qed

definition fork_args :: fd_args where
  "fork_args = \<lparr>arg_roundExclusions = [], nil_roundHandler = False, nil_blackListHandler = False,
     nil_blockTracker = False, nil_enableEpochsHandler = False, nil_enableRoundsHandler = False,
     nil_proofsPool = False, nil_chainParametersHandler = False, nil_processConfigsHandler = False,
     tracker_genesis = Some (fork_header 0 0 [])\<rparr>"

lemma fork_args_new:
  "NewShardForkDetector fork_args 0 0 0 = Inr (\<lparr>intervals = [], checkpoint_of = None\<rparr>,
     new_detector ShardDetector 0 0 0 (fork_header 0 0 []))"
  by (simp add: NewShardForkDetector_def check_args_def fork_args_def ResolveRoundExclusionHandler_def
      NewRoundExclusionHandler_def)

definition genesis_calls :: "(fd_env \<times> fd_call) list" where
  "genesis_calls = [(fork_env, CallAddHeader (Some (fork_header 1 1 [7])) (Some [8]) BHProcessed
     [(fork_header 1 1 [7], [8])])]"

theorem genesis_never_settles_witness:
  "cp_hash (settledCheckpoint (fd_run genesis_calls (new_detector ShardDetector 0 0 0 (fork_header 0 0 [])))) = []"
proof -
  have "calls_ok fork_regime genesis_calls" "no_restart genesis_calls"
    using fork_env_supernova fork_header_activated [of 1 "[7]"]
    by (simp_all add: calls_ok_def no_restart_def genesis_calls_def) (simp add: fork_header_def)
  from genesis_never_settles [OF fork_args_new this] show ?thesis by (simp add: fork_regime_def)
qed

text \<open>A competing block of nonce 11 with a proof and a lower round.\<close>

definition fork_competing :: baseForkDetector where
  "fork_competing = fork_start\<lparr>fd_headers := [(11,
     [\<lparr>hi_epoch = 1, hi_nonce = 11, hi_round = 12, hi_hash = [8], hi_prevHash = [7], hi_state = BHProcessed,
        hi_hasProof = True, hi_selectedByAuthority = False\<rparr>,
      \<lparr>hi_epoch = 1, hi_nonce = 11, hi_round = 11, hi_hash = [9], hi_prevHash = [7], hi_state = BHReceived,
        hi_hasProof = True, hi_selectedByAuthority = False\<rparr>]), (12, [])]\<rparr>"

lemma fork_competing_checks:
  "distinct (map fst (fd_headers fork_competing))" "isConsensusStuck fork_env fork_competing = False"
  "getRollBackNonce fork_competing = -1" "fork_Nonce (fst (CheckFork fork_env fork_competing)) = 11"
  "fork_Hash (fst (CheckFork fork_env fork_competing)) = [9]" "fork_Round (fst (CheckFork fork_env fork_competing)) = 11"
  by code_simp+


theorem probable_nonce_bounds_witness:
  "computeProbableHighestNonce fork_env fork_competing = 11 \<and>
   cp_nonce (finalCheckpoint fork_competing) \<le> computeProbableHighestNonce fork_env fork_competing"
proof -
  have "computeProbableHighestNonce fork_env fork_competing = 11" by code_simp
  with probable_nonce_bounds [OF fork_competing_checks(1), of fork_env] show ?thesis by blast
qed

theorem walks_end_witness:
  "\<exists>t. finalize_loop fork_env (finalCheckpoint fork_notarized) fork_notarized = Some t"
proof -
  have "headers_ok fork_regime (fd_headers fork_notarized)" using fork_notarized_ok by (simp add: checkpoints_ok_def)
  from walks_end [OF this] show ?thesis by blast
qed

end
