(* ===== verification/Spec2Isabelle.thy ===== *)
theory Spec2Isabelle
  imports Cache_Reach Trie_Props Shard_Coordinator Consensus_Selection Shuffler_Order Staking_Props
    Fork_Props
begin

text \<open>
  A verification development for the MultiversX node (\<open>mx-chain-go\<close>). It models five parts of it: the
  mempool of a shard, package \<open>src/txcache\<close>, the Patricia Merkle trie that holds the state, package
  \<open>src/trie\<close>, the assignment of addresses and validators to shards, package \<open>src/sharding\<close>, the staking
  contract, in package \<open>src/vm/systemSmartContracts\<close>, and the fork detectors of package \<open>src/process/sync\<close>.

  \<^bold>\<open>The mempool.\<close> It holds the pending transactions, selects the content of the next block and tracks the
  proposed blocks that are not executed yet. A \<open>TxCache\<close> (\<open>txCache.go\<close>) owns two indexes, \<open>txByHashMap\<close> and
  \<open>txListBySenderMap\<close>, each on top of a chunked concurrent map (\<open>maps/concurrentMap.go\<close>), and a
  \<open>selectionTracker\<close>. The index by sender maps a sender to a \<open>txListForSender\<close>, an ordered list with an
  offset that hides the transactions of the tracked blocks from the selection. A selection
  (\<open>selection.go\<close>) takes one bunch per sender, merges them with a heap by value, and asks a virtual session
  whether nonce, guardian and balance allow each transaction. The virtual session is derived from the
  account state of the node and from the breadcrumbs (nonce range and consumption per account) of the
  tracked blocks. A proposed block is compiled to breadcrumbs and validated against the chain of
  tracked blocks; an executed block leaves the tracker. The tracker calls back the cache to move the
  offsets.
  \<^item> \<open>Prelude\<close>: byte strings and slices, Go's \<open>sort.Search\<close> and \<open>sort.Slice\<close>, three-way comparisons.
  \<^item> \<open>Go_Heap\<close>: \<open>container/heap\<close> on a list, with the heap-order locale \<open>heap_order\<close>.
  \<^item> \<open>Concurrent_Map\<close>: the chunked map and the locale \<open>keyed_store\<close> the indexes rely on.
  \<^item> \<open>Tx_Types\<close>, \<open>Ordered_List\<close>, \<open>Sender_List\<close>, \<open>Tx_Maps\<close>: transactions, the list of a sender, the indexes.
  \<^item> \<open>Breadcrumbs\<close>, \<open>Virtual_Accounts\<close>: breadcrumbs per block and global, virtual accounts, the validator.
  \<^item> \<open>Selection\<close>, \<open>Selection_Props\<close>: the selection loop; nonces, balances, budget, greediness, totality.
  \<^item> \<open>Selection_Tracker\<close>, \<open>Tracker_Props\<close>: the tracker; the global breadcrumbs are those recomputed from
    the tracked chain (\<open>tracks\<close>), and the validation of a proposal is sound and complete for it.
  \<^item> \<open>Tx_Cache\<close>, \<open>Cache_Inv\<close>, \<open>Eviction_Props\<close>, \<open>Cache_Props\<close>, \<open>Cache_Reach\<close>: the cache, its invariant, the effect of
    every operation, the locale \<open>tracker_cache\<close> of the callbacks, and the state machine of the cache.
  \<^item> this theory: a selected block is accepted when proposed.

  \<^bold>\<open>The trie.\<close> A \<open>patriciaMerkleTrie\<close> (\<open>patriciaMerkleTrie.go\<close>) has a root node; a node is a leaf, an extension or
  a branch with 17 children (\<open>leafNode.go\<close>, \<open>extensionNode.go\<close>, \<open>branchNode.go\<close>). A child is in memory, or
  collapsed to its hash and read from the storage when an operation comes to it. A node caches its hash
  and is dirty until it is committed. Every operation changes the nodes in place; the model returns the
  changed node beside the result, also when there is an error.
  \<^item> \<open>Trie_Keys\<close>, \<open>Trie_Node\<close>: keys as nibbles; the nodes, their versions, encoding and resolving.
  \<^item> \<open>Trie_Ops\<close>, \<open>Trie_Hash\<close>, \<open>Trie\<close>: lookup, insertion and deletion; hashing (in parallel at the root), collapsing
    and committing; the operations of the trie and of the proof verifier.
  \<^item> \<open>Trie_Proto\<close>: the wire format of \<open>node.pb.go\<close>; round trips, and that decoding returns.
  \<^item> \<open>Trie_Spec\<close>: Patricia trees (\<open>ptree\<close>), the map a tree holds (\<open>pmap\<close>), its canonical shape and its hash; \<open>repr\<close>
    relates a node with cached, collapsed and dirty parts to its tree. The locale \<open>node_codec\<close> is what the
    trie needs of marshaller and hasher.
  \<^item> \<open>Trie_Refine\<close>, \<open>Trie_Insert\<close>, \<open>Trie_Delete\<close>, \<open>Trie_Hashing\<close>, \<open>Trie_Commit\<close>, \<open>Trie_Proof\<close>: what each operation on nodes
    does to the tree, in \<open>node_codec\<close> and its extensions \<open>node_hashing\<close> (no collisions among the encodings in a
    given set) and \<open>trie_db\<close> (with a storage).
  \<^item> \<open>Trie_Storage\<close>: the storage managers, and the interpretations of the locales on the wire format, for
    every hasher, and on the storage manager.
  \<^item> \<open>Trie_Map\<close>, \<open>Trie_Props\<close>: tries as maps; updates, deletions and lookups refine those of the map, the root
    hash depends on the map only and determines it, commit and recreate, Merkle proofs.

  \<^bold>\<open>Sharding.\<close> Addresses map to shards by bit masks (\<open>multiShardCoordinator.go\<close>). At the start of an epoch the
  shuffler (\<open>nodesCoordinator/hashValidatorShuffler.go\<close>) removes leaving nodes, moves part of the eligible nodes to
  waiting lists or to the auction, and fills the eligible lists from the waiting ones. In every round the
  consensus group is sampled from the eligible list, each validator as often as its weight, by the
  intervals the drawn validators occupy (\<open>nodesCoordinator/selectionBasedProvider.go\<close>, \<open>expandedListSampling.go\<close>).
  \<^item> \<open>Shard_Coordinator\<close>: every address has a shard, every shard has addresses.
  \<^item> \<open>Consensus_Selection\<close>: the sampling equals drawing from the expanded list without the drawn validators.
  \<^item> \<open>Validator_Shuffler\<close>: the update of the lists. \<open>Shuffler_Props\<close>: no node is lost or doubled, and the shards keep
    their sizes when they have the nodes. \<open>Shuffler_Order\<close>: the iteration order of the maps does not matter.

  \<^bold>\<open>Staking.\<close> The staking contract (\<open>staking.go\<close>, \<open>stakingSaveLoad.go\<close>, \<open>stakingWaitingList.go\<close>) keeps in its storage the
  registration of every node, counters, and a queue of the nodes that wait for a place: a doubly linked list
  with a head, in which nodes that were jailed and unjailed go before the others. The other system contracts
  and the protocol call it through \<open>Execute\<close>.
  \<^item> \<open>Staking_Queue\<close>, \<open>Staking_SC\<close>: the storage, the queue, and every call. The host (storage, block chain hook,
    marshalizer, flags, other contracts) is the record \<open>stakingSC\<close>.
  \<^item> \<open>Staking_Queue_Props\<close>: the linked list refines a pair of lists.
  \<^item> \<open>Staking_State\<close>: the storage as data (\<open>view\<close>), the effect of the primitive operations on it, and what makes it
    consistent (\<open>good\<close>).
  \<^item> \<open>Staking_Inv\<close>: every call that returns \<open>Ok\<close> keeps the contract consistent.
  \<^item> \<open>Staking_Props\<close>: the runs of the contract from its deployment, for up to 2^31 calls, which bounds the queue below
    the width of its counters; the queue against its specification; the promotion of waiting nodes. A concrete
    marshalizer shows that the hypotheses about it can hold.

  \<^bold>\<open>Fork detection.\<close> A fork detector (\<open>baseForkDetector.go\<close>, with the shard and the meta variant in
  \<open>shardForkDetector.go\<close> and \<open>metaForkDetector.go\<close>) records by nonce the headers a node receives, proposes and
  processes, with their proofs. It keeps a list of checkpoints and the final one, below which nothing is
  reverted, settles blocks the metachain has notarized, and reports whether the node is on a
  fork. Rounds that the configuration excludes (\<open>common/roundExclusions.go\<close>) do not count.
  \<^item> \<open>Round_Exclusions\<close>: the configured intervals and their check.
  \<^item> \<open>Fork_Detector\<close>, \<open>Fork_Operations\<close>: the state and the records; the constructors and every operation, and the
    calls of a node as one type. What the detector asks outside (rounds, flags, proofs pool, black list) is the
    record \<open>fd_env\<close> of a call, and the proofs pool can change between the two looks the code takes at it. The mutexes make a call one step.
  \<^item> \<open>Fork_Inv\<close>: what the records and the checkpoints satisfy, the relation \<open>safe\<close> that every call keeps between
    the states before and after it, and the runs of the detector.
  \<^item> \<open>Fork_Props\<close>: the settled checkpoint does not go back, is backed by records and moves along processed blocks
    only; the fork report is the lowest nonce with a better competitor, whatever the iteration order; bounds
    of the probable nonce; the walks over nonces, which are partial functions, return. The theorems on
    settlement are for records, headers and proofs from after the Supernova activation, whose epoch and round
    are the \<open>regime\<close> they quantify over. The calls that restart the detector (\<open>RestoreToGenesis\<close>,
    \<open>SetFinalToLastCheckpoint\<close>) are among the calls of a run; after them the checkpoints are still consistent, and
    the theorems on how the settled checkpoint moves are for the runs between them. A shard detector that
    starts at genesis after the activation never settles a block when every header names its parent.

  \<^bold>\<open>Modelling choices.\<close> State is passed explicitly; an error is the left part of a sum. Integers keep their
  width where the code computes with them (\<open>u64\<close> nonces and gas, \<open>u32\<close> thresholds, the bytes and lengths of
  the wire format); big integers are \<open>int\<close>. A mutex makes an operation one step. So is every call on the
  cache, although the test for a known hash and the eviction in \<open>AddTx\<close> run outside its mutex: the
  interleavings of two calls inside \<open>AddTx\<close> are not covered. The atomic counters of the cache (transactions,
  senders, bytes) and the sizes they add are \<open>int\<close>, without the wrap-around of 64 bits. Maps that Go iterates in
  random order are association lists; the theorems hold for every order, as for the goroutines that
  hash the children of a root. The wall clock and the time budget are arguments. In the mempool loops
  are total functions with a measure. The two walks of the fork detector that nothing bounds in the code are
  partial functions whose value is \<open>None\<close> when they do not end, and a theorem shows that they do. In the trie the recursion over nodes that are read from the
  storage has fuel: every step takes at least one nibble of the key, and the theorems show that fuel above
  the number of nibbles, twice the length of the key and one more, is enough; the fuel of the decoder is
  the length of its input, and is enough too. What other modules provide (hasher, fee computation,
  account state, main storer, the unsigned reading of an atomic counter, \<open>sort.Slice\<close> on an inconsistent
  comparison) are arguments with the laws used as hypotheses; of the hasher they ask that nothing hashes to the
  hash of the empty trie (\<open>hasher_ok\<close>) and, where it matters, that the encodings in use do not collide. The
  theorems on the staking contract are for the epochs with staking v2 and the corrections of the queue and
  without staking v4 (\<open>staking_env\<close>); its definitions read the flags in every call.

  \<^bold>\<open>Not modelled.\<close> Logging and diagnosis, the cache of cross-shard transactions (a wrapper of a third-party
  cache); of the trie snapshots, syncing, iteration over leaves, migration and statistics, which run in
  goroutines over channels; of the nodes coordinator the bookkeeping of epochs over the storage; of the system
  contracts all but the staking contract; the loops that synchronise blocks around the fork detector, which
  are driven by the network; and the rest of the node: block processing, consensus, the virtual machine, accounts, networking and the API.
\<close>

section \<open>From selection to proposal\<close>

text \<open>
  C1: a block made of what the cache selects is accepted. Let the cache be consistent, the tracker consistent
  with the blocks \<open>L\<close>, and let the blocks below the nonce of the selection be fine on the state of the session
  (each account continues its nonce and can pay for them, \<open>healthy\<close>); let session and validation read the same
  nonces and balances, and let every listed transaction have a fee payer. Then the transactions a selection returns compile
  to breadcrumbs without error, and the chain of these blocks with the new one passes the validation of
  a proposal on the same state.
\<close>

theorem selected_block_accepted:
  assumes "cache_inv c" and "tracks (tracker c) L"
    and "SelectTransactions ext now c (Some session) options nonce = (Inr (Some (sel, gas)), c')"
    and "chain = map snd (filter (\<lambda>(h, b). tb_nonce b < nonce) L)" and "healthy prov chain"
    and "GetAccountNonceAndBalance session = prov_GetAccountNonceAndBalance prov"
    and "\<forall>tx \<in> listed c. FeePayer tx \<noteq> None"
  shows "\<exists>lastNonces tb. compileBreadcrumbs (newTrackedBlock nonce hash prevHash) sel = (Inr lastNonces, tb) \<and>
    validateBreadcrumbsOfTrackedBlocks (chain @ [tb]) prov = None"
proof -
  let ?L = "filter (\<lambda>(h, b). tb_nonce b < nonce) L"
  obtain st1 c1 where r: "removeBlocksAboveOrEqualToNonceNoLock cache_ops (tracker c) c nonce = (None, st1, c1)"
    and t: "tracks st1 ?L" by (rule removeAbove_tracks [OF assms(2)])
  obtain vs where vs: "fst (deriveVirtualSelectionSession cache_ops (tracker c) c session nonce False) = Inr vs"
    "set sel \<subseteq> listed c" "funded vs sel" "in_sequence vs sel" using selection_of_cache [OF assms(1,3)] by blast
  have "createVirtualSelectionSession (newVirtualSessionComputer session) (getGlobalAccountsBreadcrumbs st1) = Inr vs"
    using vs(1) r by (auto simp: deriveVirtualSelectionSession_def split: sum.splits if_splits)
  from selected_validates [OF t assms(5) [unfolded assms(4)] assms(6) this vs(3,4)] vs(2) assms(4,7)
  show ?thesis by blast
qed

definition sample_busy :: TxCache where
  "sample_busy = sample_cache\<lparr>tracker := sample_tracker\<rparr>"

definition sample_prov_session :: SelectionSession where
  "sample_prov_session = sample_session\<lparr>GetAccountNonceAndBalance := prov_GetAccountNonceAndBalance sample_prov,
     GetRootHash := prov_GetRootHash sample_prov\<rparr>"

lemma sample_listed: "tx \<in> listed sample_busy \<Longrightarrow> FeePayer tx \<noteq> None"
proof -
  assume "tx \<in> listed sample_busy"
  then have m: "tx \<in> set (pools sample_cache (senderOf tx))" by (simp add: listed_def sample_busy_def)
  have "indexed (pools sample_cache) (getTx (txByHash sample_cache))" using sample_inv by (simp add: cache_inv_def)
  then have "getTx (txByHash sample_cache) (TxHash tx) = Some tx" using m by (rule indexedD)
  then have "cm_Get (bh_backingMap (txByHash sample_cache)) (TxHash tx) = Some tx" by (simp add: getTx_conv)
  moreover have "cm_inv (bh_backingMap (txByHash sample_cache))" using sample_inv unfolding cache_inv_def bh_inv_def by blast
  ultimately have "(TxHash tx, tx) \<in> set (ForEachTransaction sample_cache)"
    unfolding ForEachTransaction_def bh_forEach_def by (simp only: cm.mem_entries)
  moreover have "\<forall>p \<in> set (ForEachTransaction sample_cache). FeePayer (snd p) \<noteq> None" by code_simp
  ultimately show ?thesis by fastforce
qed

theorem selected_block_accepted_witness:
  "\<exists>sel gas c' lastNonces tb.
    SelectTransactions sample_ext 1 sample_busy (Some sample_prov_session) sample_options 8 = (Inr (Some (sel, gas)), c') \<and>
    length sel = 3 \<and> compileBreadcrumbs (newTrackedBlock 8 [10] [9]) sel = (Inr lastNonces, tb) \<and>
    validateBreadcrumbsOfTrackedBlocks [sample_block, tb] sample_prov = None"
proof -
  let ?r = "SelectTransactions sample_ext 1 sample_busy (Some sample_prov_session) sample_options 8"
  have "(case fst ?r of Inr (Some (sel, gas)) \<Rightarrow> length sel = 3 | _ \<Rightarrow> False)" by code_simp
  then obtain sel gas where s: "fst ?r = Inr (Some (sel, gas))" "length sel = 3" by (auto split: sum.splits option.splits)
  from s(1) have r: "?r = (Inr (Some (sel, gas)), snd ?r)" by (metis prod.collapse)
  have i: "cache_inv sample_busy" and t: "tracks (tracker sample_busy) [([9], sample_block)]"
    using sample_inv sample_tracks by (simp_all add: sample_busy_def)
  have c: "[sample_block] = map snd (filter (\<lambda>(h, b). tb_nonce b < 8) [([9 :: u8], sample_block)])"
    by (simp add: sample_block_def)
  have h: "healthy sample_prov [sample_block]"
    by (auto simp: healthy_def sample_prov_def sample_block_def sample_breadcrumb_def kn_def sum_consumed_def
        hasUnknownNonce_def list_of_def hist_def)
  have "GetAccountNonceAndBalance sample_prov_session = prov_GetAccountNonceAndBalance sample_prov"
    by (simp add: sample_prov_session_def)
  from selected_block_accepted [OF i t r c h this, of "[10]" "[9]"] r s(2) sample_listed show ?thesis by fastforce
qed

text \<open>
  An example shows that the condition on the tracked blocks is needed: the selection is not always as strict as
  the validation of a proposal. A fee payer whose tracked blocks do not continue its nonce gets a blocked record that still has a balance, so a transaction it
  pays for is selected; the block made of this selection is then rejected.
\<close>

definition sample_relayed :: WrappedTransaction where
  "sample_relayed = (sample_tx 2 0 9)\<lparr>FeePayer := Some [1]\<rparr>"

definition sample_gap_prov :: AccountNonceAndBalanceProvider where
  "sample_gap_prov = sample_prov\<lparr>prov_GetAccountNonceAndBalance := (\<lambda>a. Inr (0, Some 1000))\<rparr>"

definition sample_gap_session :: SelectionSession where
  "sample_gap_session = sample_prov_session\<lparr>GetAccountNonceAndBalance := prov_GetAccountNonceAndBalance sample_gap_prov\<rparr>"

lemma relayer_selected_then_rejected:
  "(case createVirtualSelectionSession (newVirtualSessionComputer sample_gap_session) (getGlobalAccountsBreadcrumbs sample_tracker) of
      Inl _ \<Rightarrow> False
    | Inr vs \<Rightarrow>
        selectTransactionsFromBunches [] vs [[sample_relayed]] sample_options 0 0 = Some ([sample_relayed], 50)) \<and>
   (case compileBreadcrumbs (newTrackedBlock 8 [10] [9]) [sample_relayed] of (r, tb) \<Rightarrow>
      \<not> isl r \<and> validateBreadcrumbsOfTrackedBlocks [sample_block, tb] sample_gap_prov = Some errDiscontinuousBreadcrumbs)"
  by code_simp

end
